(* ===== verification/Prelude.thy ===== *)
theory Prelude
  imports Main "HOL-Library.Word" "HOL-Library.AList" "HOL-Library.Char_ord"
    "HOL-Library.List_Lexorder" "HOL-Library.Product_Lexorder" "HOL-Library.Sublist"
    "HOL-Library.Multiset" "HOL-Library.Monad_Syntax"
begin

text \<open>
  Shared vocabulary of the development: the integer types of \<open>common/types.hpp\<close>, the
  containers of the C++ standard library as they are used by the sources, the lemma
  collections, and the interface locales that several components share.

  An \<open>unordered_map\<close> is an association list with distinct keys: \<open>map_of\<close> is
  \<open>find\<close>, \<open>AList.update\<close> is \<open>operator[]\<close> or \<open>emplace\<close>, \<open>AList.delete\<close> is \<open>erase\<close>, and
  the order of the list stands for one iteration order. No lemma depends on that order. An
  \<open>unordered_set\<close> is a finite set.
\<close>

section \<open>Integer types and constants\<close>

type_synonym chunk_handle = "64 word"
type_synonym chunk_index = "64 word"
type_synonym chunk_version = "64 word"
type_synonym server_id = "64 word"
type_synonym file_path = string
type_synonym time_ms = "64 word"

definition u64_max :: "64 word" where
  "u64_max = 18446744073709551615"

definition kDefaultReplicationFactor :: "64 word" where
  "kDefaultReplicationFactor = 3"

definition kChunkSize :: "64 word" where
  "kChunkSize = 64 * 1024 * 1024"

definition kChecksumBlockSize :: "64 word" where
  "kChecksumBlockSize = 64 * 1024"

text \<open>The saturating addition that the lease code writes as \<open>d > max - n ? max : n + d\<close>.\<close>

definition sat_add :: "64 word \<Rightarrow> 64 word \<Rightarrow> 64 word" where
  "sat_add n d = (if d > u64_max - n then u64_max else n + d)"

named_theorems inv_intros
named_theorems op_defs

section \<open>Words\<close>

declare map_of_eq_Some_iff [simp del] Some_eq_map_of_iff [simp del]

lemma unat_u64_max: "unat u64_max = 2 ^ 64 - 1"
  by (simp add: u64_max_def)

lemma unat_u64_less: "unat (w :: 64 word) < 2 ^ 64"
  using unsigned_less [where w = w and 'a = nat] by simp

lemma word_le_u64_max [simp]: "w \<le> u64_max"
  using unat_u64_less [of w] by (simp add: word_le_nat_alt unat_u64_max)

lemma unat_sub_u64_max: "unat (u64_max - n) = 2 ^ 64 - 1 - unat n"
proof -
  have "n \<le> u64_max" by simp
  then have "unat (u64_max - n) = unat u64_max - unat n"
    by (simp add: unat_sub word_le_nat_alt)
  then show ?thesis by (simp add: unat_u64_max)
qed

lemma unat_sat_add: "unat (sat_add n d) = min (2 ^ 64 - 1) (unat n + unat d)"
proof (cases "d > u64_max - n")
  case True
  then have "2 ^ 64 - 1 - unat n < unat d"
    by (simp add: word_less_nat_alt unat_sub_u64_max)
  then show ?thesis using True by (simp add: sat_add_def unat_u64_max)
next
  case False
  then have "unat d \<le> 2 ^ 64 - 1 - unat n"
    by (simp add: word_less_nat_alt unat_sub_u64_max)
  moreover have "unat n < 2 ^ 64" by (rule unat_u64_less)
  ultimately have "unat n + unat d < 2 ^ 64" by linarith
  moreover from this have "unat (n + d) = unat n + unat d"
    by (simp add: unat_word_ariths)
  ultimately show ?thesis using False by (simp add: sat_add_def)
qed

lemma sat_add_mono: "n \<le> sat_add n d"
  using unat_u64_less [of n] by (simp add: word_le_nat_alt unat_sat_add)

lemma sat_add_less: "d \<noteq> 0 \<Longrightarrow> n < u64_max \<Longrightarrow> n < sat_add n d"
proof -
  assume "d \<noteq> 0" and "n < u64_max"
  then have "0 < unat d" and "unat n < 2 ^ 64 - 1"
    by (auto simp: word_less_nat_alt unat_u64_max unat_gt_0)
  then show ?thesis by (simp add: word_less_nat_alt unat_sat_add)
qed

lemma word_succ_eq_0: "(w :: 64 word) + 1 = 0 \<longleftrightarrow> w = u64_max"
proof -
  have "u64_max + 1 = (0 :: 64 word)" by (simp add: u64_max_def)
  then show ?thesis by (metis add_right_imp_eq)
qed

lemma unat_succ: "(w :: 64 word) + 1 \<noteq> 0 \<Longrightarrow> unat (w + 1) = Suc (unat w)"
  using unatSuc [of w] by (simp add: add.commute)

lemma word_less_succ: "(w :: 64 word) + 1 \<noteq> 0 \<Longrightarrow> w < w + 1"
  by (simp add: word_less_nat_alt unat_succ)

lemma word_less_succ_iff: "(w :: 64 word) + 1 \<noteq> 0 \<Longrightarrow> v < w + 1 \<longleftrightarrow> v \<le> w"
  by (simp add: word_less_nat_alt word_le_nat_alt unat_succ less_Suc_eq_le)

section \<open>Lists: find and erase\<close>

text \<open>
  \<open>std::find_if\<close> followed by \<open>erase\<close>, and \<open>std::find_if\<close> followed by an update of the
  element found.
\<close>

fun erase_first :: "('a \<Rightarrow> bool) \<Rightarrow> 'a list \<Rightarrow> 'a list" where
  "erase_first P [] = []"
| "erase_first P (x # xs) = (if P x then xs else x # erase_first P xs)"

fun update_first :: "('a \<Rightarrow> bool) \<Rightarrow> ('a \<Rightarrow> 'a) \<Rightarrow> 'a list \<Rightarrow> 'a list" where
  "update_first P f [] = []"
| "update_first P f (x # xs) = (if P x then f x # xs else x # update_first P f xs)"

lemma find_Some_set: "find P xs = Some x \<Longrightarrow> x \<in> set xs \<and> P x"
  by (induction xs) (auto split: if_splits)

lemma find_None_set: "find P xs = None \<longleftrightarrow> (\<forall>x \<in> set xs. \<not> P x)"
  by (induction xs) auto

lemma find_append: "find P (xs @ ys) = (case find P xs of None \<Rightarrow> find P ys | Some x \<Rightarrow> Some x)"
  by (induction xs) auto

lemma update_first_no_match: "\<forall>x \<in> set xs. \<not> P x \<Longrightarrow> update_first P f xs = xs"
  by (induction xs) auto

lemma length_update_first [simp]: "length (update_first P f xs) = length xs"
  by (induction xs) auto

lemma set_erase_first_subset: "set (erase_first P xs) \<subseteq> set xs"
  by (induction xs) auto

lemma erase_first_no_match: "\<forall>x \<in> set xs. \<not> P x \<Longrightarrow> erase_first P xs = xs"
  by (induction xs) auto

lemma map_update_first: "(\<And>x. x \<in> set xs \<Longrightarrow> g (f x) = g x) \<Longrightarrow> map g (update_first P f xs) = map g xs"
  by (induction xs) auto

lemma distinct_map_erase_first: "distinct (map g xs) \<Longrightarrow> distinct (map g (erase_first P xs))"
  by (induction xs) (auto dest: set_mp [OF set_erase_first_subset])

section \<open>Association lists\<close>

lemma distinct_keys_update [simp]:
  "distinct (map fst al) \<Longrightarrow> distinct (map fst (AList.update k v al))"
  by (rule distinct_update)

lemma distinct_keys_delete [simp]:
  "distinct (map fst al) \<Longrightarrow> distinct (map fst (AList.delete k al))"
  by (rule distinct_delete)

lemma map_of_update_iff [simp]:
  "map_of (AList.update k v al) k' = (if k' = k then Some v else map_of al k')"
  by (simp add: update_conv')

lemma map_of_delete_iff [simp]:
  "map_of (AList.delete k al) k' = (if k' = k then None else map_of al k')"
  by (simp add: delete_conv')

lemma key_in_iff: "k \<in> fst ` set al \<longleftrightarrow> map_of al k \<noteq> None"
  by (metis map_of_eq_None_iff)

lemma length_filter_alist:
  assumes "distinct (map fst al)"
  shows "length (filter (\<lambda>(k, v). P v) al) = card {k. \<exists>v. map_of al k = Some v \<and> P v}"
  using assms
proof (induction al)
  case Nil
  then show ?case by simp
next
  case (Cons kv al)
  obtain k v where kv: "kv = (k, v)" by (cases kv)
  let ?S = "{k. \<exists>v. map_of al k = Some v \<and> P v}"
  have k: "map_of al k = None"
    using Cons.prems kv by (simp add: map_of_eq_None_iff)
  have fin: "finite ?S"
    by (rule finite_subset [of _ "fst ` set al"]) (auto simp: key_in_iff)
  have "{k'. \<exists>v'. map_of (kv # al) k' = Some v' \<and> P v'} = (if P v then insert k ?S else ?S)"
    using k kv by auto
  moreover have "k \<notin> ?S" using k by simp
  ultimately show ?case using Cons kv fin by simp
qed

lemma length_filter_alist_0:
  "distinct (map fst al) \<Longrightarrow>
    length (filter (\<lambda>(k, v). P v) al) = 0 \<longleftrightarrow> (\<forall>k v. map_of al k = Some v \<longrightarrow> \<not> P v)"
  by (auto simp: filter_empty_conv map_of_eq_Some_iff)

text \<open>Applying a function to every value, as a loop over the entries does.\<close>

definition map_values :: "('v \<Rightarrow> 'w) \<Rightarrow> ('k \<times> 'v) list \<Rightarrow> ('k \<times> 'w) list" where
  "map_values f al = map (\<lambda>(k, v). (k, f v)) al"

lemma map_of_map_values [simp]: "map_of (map_values f al) k = map_option f (map_of al k)"
  by (induction al) (auto simp: map_values_def)

lemma keys_map_values [simp]: "map fst (map_values f al) = map fst al"
  by (induction al) (auto simp: map_values_def)

section \<open>Sequencing of fallible steps\<close>

text \<open>
  \<open>if (!step()) return false;\<close> followed by the rest of a function: a step returns whether it
  succeeded and the next state, and the rest runs only after a success.
\<close>

definition and_then :: "bool \<times> 's \<Rightarrow> ('s \<Rightarrow> bool \<times> 's) \<Rightarrow> bool \<times> 's" where
  "and_then r rest = (case r of (ok, s) \<Rightarrow> if ok then rest s else (False, s))"

lemma and_then_simps [simp]:
  "and_then (True, s) rest = rest s" "and_then (False, s) rest = (False, s)"
  by (simp_all add: and_then_def)

lemma and_then_eq: "and_then r rest = (if fst r then rest (snd r) else (False, snd r))"
  by (cases r) auto

lemma and_then_rule:
  "P (snd r) \<Longrightarrow> (\<And>s. P s \<Longrightarrow> P (snd (rest s))) \<Longrightarrow> P (snd (and_then r rest))"
  by (cases r) (auto simp: and_then_def)

lemma and_then_True: "fst (and_then r rest) \<longleftrightarrow> fst r \<and> fst (rest (snd r))"
  by (cases r) (auto simp: and_then_def)

text \<open>Two runs of a step that return the same result in related states.\<close>

definition agrees :: "('s \<Rightarrow> 's \<Rightarrow> bool) \<Rightarrow> 'r \<times> 's \<Rightarrow> 'r \<times> 's \<Rightarrow> bool" where
  "agrees rel r r' \<longleftrightarrow> fst r = fst r' \<and> rel (snd r) (snd r')"

lemma agrees_pair [simp]: "agrees rel (x, s) (y, t) \<longleftrightarrow> x = y \<and> rel s t"
  by (simp add: agrees_def)

lemma agrees_and_then:
  assumes "agrees rel r r'" and "\<And>s t. rel s t \<Longrightarrow> agrees rel (rest s) (rest' t)"
  shows "agrees rel (and_then r rest) (and_then r' rest')"
  using assms by (cases r; cases r') (auto simp: and_then_def)

section \<open>Systems with an invariant\<close>

text \<open>
  The contract every stateful component offers to its callers: a start state, a family of
  operations that return a result and the next state, and an invariant that the start state
  has and every operation keeps. The lemmas lift the invariant to every state that any
  sequence of operations can reach.
\<close>

locale invariant_system =
  fixes exec :: "'op \<Rightarrow> 's \<Rightarrow> 'r \<times> 's"
    and init :: 's
    and inv :: "'s \<Rightarrow> bool"
  assumes inv_init: "inv init"
    and inv_exec: "inv s \<Longrightarrow> inv (snd (exec opr s))"
begin

inductive reachable :: "'s \<Rightarrow> bool" where
  start: "reachable init"
| step: "reachable s \<Longrightarrow> reachable (snd (exec opr s))"

lemma reachable_inv: "reachable s \<Longrightarrow> inv s"
  by (induction rule: reachable.induct) (auto intro: inv_init inv_exec)

primrec run :: "'op list \<Rightarrow> 's \<Rightarrow> 's" where
  "run [] s = s"
| "run (opr # oprs) s = run oprs (snd (exec opr s))"

lemma run_inv: "inv s \<Longrightarrow> inv (run oprs s)"
  by (induction oprs arbitrary: s) (auto intro: inv_exec)

lemma run_reachable: "reachable s \<Longrightarrow> reachable (run oprs s)"
  by (induction oprs arbitrary: s) (auto intro: reachable.step)

lemma fold_inv: "inv s \<Longrightarrow> inv (fold (\<lambda>opr s. snd (exec opr s)) oprs s)"
  by (induction oprs arbitrary: s) (auto intro: inv_exec)

end

end
