(* ===== verification/Paths.thy ===== *)
theory Paths
  imports Prelude
begin

text \<open>
  The path functions: \<open>JoinPath\<close> and \<open>IsValidFilePath\<close> of \<open>src/common/utils.cpp\<close>, and
  \<open>IsValidPath\<close>, \<open>IsRootPath\<close>, \<open>SplitPath\<close>, \<open>ParentPath\<close> and \<open>BaseName\<close> of
  \<open>src/master/namespace/namespace_manager.cpp\<close>. The scanning loops over an index \<open>start\<close>
  are recursions on the rest of the string from \<open>start\<close>. The lemmas show that valid paths
  are exactly the printed forms of lists of proper components, and that splitting is the
  inverse of printing.
\<close>

section \<open>Utilities\<close>

abbreviation slash :: char where
  "slash \<equiv> CHR ''/''"

abbreviation nul :: char where
  "nul \<equiv> CHR 0x00"

definition JoinPath :: "file_path \<Rightarrow> file_path \<Rightarrow> file_path" where
  "JoinPath base child =
     (if base = [] then child
      else if child = [] then base
      else if last base = slash then
        (if hd child = slash then base @ drop 1 child else base @ child)
      else if hd child = slash then base @ child
      else base @ [slash] @ child)"

definition IsValidFilePath :: "file_path \<Rightarrow> bool" where
  "IsValidFilePath path =
     (if path = [] \<or> hd path \<noteq> slash then False
      else if nul \<in> set path then False
      else True)"

section \<open>Validity and splitting\<close>

text \<open>\<open>path.find('/', start)\<close> ends the current component; its length is this prefix's.\<close>

definition next_component :: "string \<Rightarrow> string" where
  "next_component rest = takeWhile (\<lambda>c. c \<noteq> slash) rest"

fun valid_components :: "string \<Rightarrow> bool" where
  "valid_components rest =
     (if rest = [] then True
      else let component = next_component rest in
        if length component = 0 then False
        else if component = ''.'' \<or> component = ''..'' then False
        else valid_components (drop (length component + 1) rest))"

definition IsValidPath :: "string \<Rightarrow> bool" where
  "IsValidPath path =
     (if path = [] \<or> hd path \<noteq> slash \<or> nul \<in> set path then False
      else if 1 < length path \<and> last path = slash then False
      else valid_components (drop 1 path))"

definition IsRootPath :: "string \<Rightarrow> bool" where
  "IsRootPath path = (path = ''/'')"

fun split_loop :: "string \<Rightarrow> string list" where
  "split_loop rest =
     (if rest = [] then []
      else let component = next_component rest in
        if length component = length rest then [rest]
        else component # split_loop (drop (length component + 1) rest))"

definition SplitPath :: "string \<Rightarrow> string list" where
  "SplitPath path =
     (if \<not> IsValidPath path \<or> IsRootPath path then [] else split_loop (drop 1 path))"

definition find_last_of_slash :: "string \<Rightarrow> nat option" where
  "find_last_of_slash path =
     (if slash \<in> set path
      then Some (length path - 1 - length (takeWhile (\<lambda>c. c \<noteq> slash) (rev path)))
      else None)"

text \<open>
  A valid path starts with a slash, so \<open>find_last_of\<close> finds one; the \<open>npos\<close> branch of the
  two functions below is \<open>substr(0, npos)\<close> and \<open>substr(npos + 1)\<close>, both the whole string.
\<close>

definition ParentPath :: "string \<Rightarrow> string" where
  "ParentPath path =
     (if \<not> IsValidPath path \<or> IsRootPath path then []
      else case find_last_of_slash path of
        None \<Rightarrow> path
      | Some separator \<Rightarrow> if separator = 0 then ''/'' else take separator path)"

definition BaseName :: "string \<Rightarrow> string" where
  "BaseName path =
     (if \<not> IsValidPath path \<or> IsRootPath path then []
      else case find_last_of_slash path of
        None \<Rightarrow> path
      | Some separator \<Rightarrow> drop (separator + 1) path)"

section \<open>Components and printed paths\<close>

text \<open>The abstract view of a path: its list of components, and the string it prints to.\<close>

definition proper_component :: "string \<Rightarrow> bool" where
  "proper_component c \<longleftrightarrow>
     c \<noteq> [] \<and> slash \<notin> set c \<and> nul \<notin> set c \<and> c \<noteq> ''.'' \<and> c \<noteq> ''..''"

definition path_of :: "string list \<Rightarrow> string" where
  "path_of cs = (if cs = [] then ''/'' else concat (map (\<lambda>c. slash # c) cs))"

declare valid_components.simps [simp del] split_loop.simps [simp del]

lemma next_component_props:
  "slash \<notin> set (next_component rest)"
  "next_component rest @ drop (length (next_component rest)) rest = rest"
  "set (next_component rest) \<subseteq> set rest"
  by (auto simp: next_component_def dest: set_takeWhileD)
    (metis append_eq_conv_conj takeWhile_dropWhile_id)

lemma next_component_append:
  "slash \<notin> set c \<Longrightarrow> next_component (c @ slash # rest) = c"
  "slash \<notin> set c \<Longrightarrow> next_component c = c"
  by (auto simp: next_component_def takeWhile_append)

lemma next_component_rest:
  assumes "length (next_component rest) < length rest"
  shows "rest = next_component rest @ slash # drop (length (next_component rest) + 1) rest"
proof -
  let ?n = "length (next_component rest)"
  have "\<not> (rest ! ?n \<noteq> slash)"
    using nth_length_takeWhile [of "\<lambda>c. c \<noteq> slash" rest] assms by (simp add: next_component_def)
  then have "drop ?n rest = slash # drop (?n + 1) rest"
    using assms by (metis Cons_nth_drop_Suc Suc_eq_plus1)
  then show ?thesis using next_component_props(2) [of rest] by simp
qed

lemma split_loop_sound:
  "valid_components rest \<Longrightarrow> rest \<noteq> [] \<Longrightarrow> last rest \<noteq> slash \<Longrightarrow> nul \<notin> set rest \<Longrightarrow>
    concat (map (\<lambda>c. slash # c) (split_loop rest)) = slash # rest \<and>
    list_all proper_component (split_loop rest) \<and> split_loop rest \<noteq> []"
proof (induction rest rule: split_loop.induct)
  case (1 rest)
  let ?c = "next_component rest" and ?r = "drop (length (next_component rest) + 1) rest"
  have proper: "proper_component ?c" and valid: "valid_components ?r"
    using 1(2,3,5) next_component_props(1,3) [of rest]
    by (auto simp: valid_components.simps [of rest] proper_component_def Let_def split: if_splits)
  show ?case
  proof (cases "length ?c = length rest")
    case True
    then have "rest = ?c" using next_component_props(2) [of rest] by simp
    then show ?thesis using proper 1(3) True by (simp add: split_loop.simps [of rest])
  next
    case False
    then have "length ?c < length rest"
      using next_component_props(2) [of rest] by (metis length_append nat_neq_iff not_add_less1)
    then have rest: "rest = ?c @ slash # ?r" by (rule next_component_rest)
    have "?r \<noteq> []" using 1(4) rest by (metis last_snoc)
    moreover have "last ?r \<noteq> slash"
      using 1(4) rest \<open>?r \<noteq> []\<close> by (metis last_appendR last_ConsR list.discI)
    moreover have "nul \<notin> set ?r" using 1(5) by (meson in_set_dropD)
    ultimately have "concat (map (\<lambda>c. slash # c) (split_loop ?r)) = slash # ?r \<and>
        list_all proper_component (split_loop ?r)"
      using 1(1) [OF 1(3) refl False] valid by blast
    then show ?thesis using False 1(3) rest proper
      by (simp add: split_loop.simps [of rest] Let_def)
  qed
qed

lemma split_loop_step:
  "slash \<notin> set c \<Longrightarrow> split_loop (c @ slash # rest) = c # split_loop rest"
  by (simp add: split_loop.simps [of "c @ slash # rest"] next_component_append Let_def)

lemma split_loop_last: "slash \<notin> set c \<Longrightarrow> c \<noteq> [] \<Longrightarrow> split_loop c = [c]"
  by (simp add: split_loop.simps [of c] next_component_append)

lemma valid_components_step:
  "proper_component c \<Longrightarrow> valid_components (c @ slash # rest) = valid_components rest"
  by (auto simp: valid_components.simps [of "c @ slash # rest"] next_component_append Let_def
      proper_component_def)

lemma valid_components_last: "proper_component c \<Longrightarrow> valid_components c"
  by (auto simp: valid_components.simps [of c] valid_components.simps [of "[]"]
      next_component_append Let_def proper_component_def)

lemma split_loop_components:
  "list_all proper_component (c # cs) \<Longrightarrow>
    split_loop (tl (concat (map (\<lambda>c. slash # c) (c # cs)))) = c # cs"
  by (induction cs arbitrary: c) (auto simp: split_loop_step split_loop_last proper_component_def)

lemma valid_components_components:
  "list_all proper_component (c # cs) \<Longrightarrow>
    valid_components (tl (concat (map (\<lambda>c. slash # c) (c # cs))))"
  by (induction cs arbitrary: c) (auto simp: valid_components_step valid_components_last)

lemma path_of_snoc: "path_of (cs @ [c]) = (if cs = [] then [] else path_of cs) @ slash # c"
  by (simp add: path_of_def)

lemma path_of_props:
  assumes "list_all proper_component cs"
  shows "path_of cs \<noteq> []" and "hd (path_of cs) = slash" and "nul \<notin> set (path_of cs)"
    and "cs \<noteq> [] \<Longrightarrow> last (path_of cs) \<noteq> slash" and "cs \<noteq> [] \<Longrightarrow> 1 < length (path_of cs)"
proof -
  show "path_of cs \<noteq> []" and "hd (path_of cs) = slash"
    by (cases cs; simp add: path_of_def)+
  show "nul \<notin> set (path_of cs)"
    using assms by (auto simp: path_of_def proper_component_def list_all_iff)
  assume "cs \<noteq> []"
  then obtain ds d where cs: "cs = ds @ [d]" by (metis rev_exhaust)
  then have d: "d \<noteq> []" "slash \<notin> set d"
    using assms by (auto simp: proper_component_def)
  then show "last (path_of cs) \<noteq> slash"
    using cs by (auto simp: path_of_snoc) (metis last_in_set)
  show "1 < length (path_of cs)"
    using cs d by (cases d) (auto simp: path_of_snoc)
qed

lemma path_of_eq_root [simp]: "list_all proper_component cs \<Longrightarrow> path_of cs = ''/'' \<longleftrightarrow> cs = []"
  using path_of_props(5) [of cs] by (auto simp: path_of_def)

lemma IsValidPath_root [simp]: "IsValidPath ''/''"
  by (simp add: IsValidPath_def valid_components.simps)

lemma IsValidPath_path_of:
  assumes "list_all proper_component cs"
  shows "IsValidPath (path_of cs)"
proof (cases cs)
  case Nil
  then show ?thesis by (simp add: path_of_def)
next
  case (Cons c ds)
  then have "valid_components (drop 1 (path_of cs))"
    using valid_components_components [of c ds] assms by (simp add: path_of_def drop_Suc)
  then show ?thesis using path_of_props [OF assms] Cons by (simp add: IsValidPath_def)
qed

lemma SplitPath_path_of:
  assumes "list_all proper_component cs"
  shows "SplitPath (path_of cs) = cs"
proof (cases cs)
  case Nil
  then show ?thesis by (simp add: path_of_def SplitPath_def IsRootPath_def)
next
  case (Cons c ds)
  from split_loop_components [of c ds] assms have "split_loop (drop 1 (path_of cs)) = cs"
    using Cons by (simp add: path_of_def drop_Suc)
  then show ?thesis
    using IsValidPath_path_of [OF assms] assms Cons by (simp add: SplitPath_def IsRootPath_def)
qed

lemma valid_path_split:
  assumes "IsValidPath path"
  shows "path_of (SplitPath path) = path" and "list_all proper_component (SplitPath path)"
    and "SplitPath path = [] \<longleftrightarrow> path = ''/''"
proof -
  have "path_of (SplitPath path) = path \<and> list_all proper_component (SplitPath path) \<and>
    (SplitPath path = [] \<longleftrightarrow> path = ''/'')"
  proof (cases "path = ''/''")
    case True
    then show ?thesis by (simp add: SplitPath_def IsRootPath_def path_of_def)
  next
    case False
    from assms obtain rest where path: "path = slash # rest"
      by (cases path) (auto simp: IsValidPath_def split: if_splits)
    with False have "rest \<noteq> []" by auto
    then have "valid_components rest" "last rest \<noteq> slash" "nul \<notin> set rest"
      using assms path by (auto simp: IsValidPath_def split: if_splits)
    from split_loop_sound [OF this(1) \<open>rest \<noteq> []\<close> this(2,3)] show ?thesis
      using assms False path by (auto simp: SplitPath_def IsRootPath_def path_of_def)
  qed
  then show "path_of (SplitPath path) = path" and "list_all proper_component (SplitPath path)"
    and "SplitPath path = [] \<longleftrightarrow> path = ''/''" by blast+
qed

lemma SplitPath_invalid [simp]: "\<not> IsValidPath path \<Longrightarrow> SplitPath path = []"
  by (simp add: SplitPath_def)

lemma SplitPath_root [simp]: "SplitPath ''/'' = []"
  by (simp add: SplitPath_def IsRootPath_def)

lemma SplitPath_inject:
  "IsValidPath p \<Longrightarrow> IsValidPath q \<Longrightarrow> SplitPath p = SplitPath q \<longleftrightarrow> p = q"
  by (metis valid_path_split(1))

section \<open>Parent and base name\<close>

lemma find_last_of_slash_snoc:
  "slash \<notin> set c \<Longrightarrow> find_last_of_slash (xs @ slash # c) = Some (length xs)"
  by (simp add: find_last_of_slash_def takeWhile_append)

lemma ParentPath_BaseName:
  assumes "IsValidPath path" and "path \<noteq> ''/''"
  shows "ParentPath path = path_of (butlast (SplitPath path))"
    and "BaseName path = last (SplitPath path)"
proof -
  have "SplitPath path \<noteq> []" using assms valid_path_split(3) by simp
  then obtain cs c where split: "SplitPath path = cs @ [c]" by (metis rev_exhaust)
  then have c: "slash \<notin> set c" and cs: "list_all proper_component cs"
    using valid_path_split(2) [OF assms(1)] by (auto simp: proper_component_def)
  have path: "path = (if cs = [] then [] else path_of cs) @ slash # c"
    using valid_path_split(1) [OF assms(1)] by (simp add: split path_of_snoc)
  then have pos: "find_last_of_slash path = Some (length (if cs = [] then [] else path_of cs))"
    using find_last_of_slash_snoc [OF c] by simp
  show "ParentPath path = path_of (butlast (SplitPath path))"
    using assms pos arg_cong [OF path, of "take (length (if cs = [] then [] else path_of cs))"]
      path_of_props(1) [OF cs]
    by (simp add: ParentPath_def IsRootPath_def split path_of_def split: if_splits)
  show "BaseName path = last (SplitPath path)"
    using assms pos arg_cong [OF path, of "drop (length (if cs = [] then [] else path_of cs) + 1)"]
    by (simp add: BaseName_def IsRootPath_def split)
qed

lemma valid_parent:
  assumes "IsValidPath path" and "path \<noteq> ''/''"
  shows "IsValidPath (ParentPath path)"
    and "SplitPath (ParentPath path) = butlast (SplitPath path)"
    and "SplitPath path = SplitPath (ParentPath path) @ [BaseName path]"
    and "proper_component (BaseName path)"
proof -
  have proper: "list_all proper_component (SplitPath path)" and ne: "SplitPath path \<noteq> []"
    using valid_path_split [OF assms(1)] assms(2) by auto
  then have butlast: "list_all proper_component (butlast (SplitPath path))"
    by (auto simp: list_all_iff dest: in_set_butlastD)
  note pb = ParentPath_BaseName [OF assms]
  show "IsValidPath (ParentPath path)" using IsValidPath_path_of [OF butlast] by (simp add: pb)
  show split: "SplitPath (ParentPath path) = butlast (SplitPath path)"
    using SplitPath_path_of [OF butlast] by (simp add: pb)
  show "SplitPath path = SplitPath (ParentPath path) @ [BaseName path]"
    unfolding split using ne by (simp add: pb)
  show "proper_component (BaseName path)"
    using proper ne by (simp add: pb list_all_iff)
qed

section \<open>Properties\<close>

text \<open>The paths that \<open>IsValidPath\<close> accepts are exactly the printed forms of lists of proper
  components, and \<open>SplitPath\<close> and printing are inverse to each other.\<close>
lemma split_print_roundtrip:
  "(IsValidPath path \<longleftrightarrow> (\<exists>cs. list_all proper_component cs \<and> path = path_of cs)) \<and>
   (IsValidPath path \<longrightarrow> path_of (SplitPath path) = path) \<and>
   (list_all proper_component cs \<longrightarrow> SplitPath (path_of cs) = cs)"
proof (intro conjI impI)
  show "IsValidPath path \<longleftrightarrow> (\<exists>cs. list_all proper_component cs \<and> path = path_of cs)"
    using IsValidPath_path_of valid_path_split(1,2) [of path] by auto
qed (auto simp: SplitPath_path_of valid_path_split(1))

text \<open>A valid path other than the root splits into the components of its parent path followed
  by its base name; the parent is a valid path and the base name a proper component.\<close>
lemma parent_and_base_name:
  assumes "IsValidPath path" and "path \<noteq> ''/''"
  shows "SplitPath path = SplitPath (ParentPath path) @ [BaseName path] \<and> IsValidPath (ParentPath path) \<and>
    proper_component (BaseName path)"
  using valid_parent [OF assms] by blast

end
