(* ===== verification/Namespace.thy ===== *)
theory Namespace
  imports Paths
begin

text \<open>
  The namespace tree of \<open>src/master/namespace/namespace_manager.cpp\<close>. A \<open>Node\<close> owns its
  children in a vector, as here. A non-null \<open>Node*\<close> is the list of names that leads to the
  node from the root (its address) together with the node: \<open>FindChild\<close> takes the first child
  of a name, so an address determines one node, two pointers are equal exactly when their
  addresses are, and \<open>node->parent\<close> is the address without its last name. Mutexes are not
  modelled; every operation is one atomic step.

  The abstract view of a tree is the partial map from addresses to node types. The lemmas
  state what each operation does to that map, that every operation keeps the tree
  well formed, and that exporting a tree and restoring the export gives back the same map.
\<close>

section \<open>Data\<close>

datatype node_type = Directory | File

datatype node = Node (node_name: string) (node_type: node_type) (node_children: "node list")

record node_info =
  ni_path :: string
  ni_type :: node_type

type_synonym node_ptr = "string list"

definition ns_init :: node where
  "ns_init = Node ''/'' Directory []"

section \<open>Pointers\<close>

definition FindChild :: "node \<Rightarrow> string \<Rightarrow> node option" where
  "FindChild parent name = find (\<lambda>child. node_name child = name) (node_children parent)"

fun deref :: "node \<Rightarrow> node_ptr \<Rightarrow> node option" where
  "deref current [] = Some current"
| "deref current (component # components) =
     (case FindChild current component of
        None \<Rightarrow> None
      | Some child \<Rightarrow> deref child components)"

definition FindNode :: "node \<Rightarrow> string \<Rightarrow> (node_ptr \<times> node) option" where
  "FindNode root path =
     (if \<not> IsValidPath path then None
      else if IsRootPath path then Some ([], root)
      else map_option (\<lambda>n. (SplitPath path, n)) (deref root (SplitPath path)))"

definition parent_ptr :: "node_ptr \<Rightarrow> node_ptr option" where
  "parent_ptr p = (if p = [] then None else Some (butlast p))"

text \<open>Writing through a pointer, and the updates that the operations write.\<close>

fun modify_at :: "node_ptr \<Rightarrow> (node \<Rightarrow> node) \<Rightarrow> node \<Rightarrow> node" where
  "modify_at [] f n = f n"
| "modify_at (c # cs) f (Node name type children) =
     Node name type (update_first (\<lambda>child. node_name child = c) (modify_at cs f) children)"

fun add_child :: "node \<Rightarrow> node \<Rightarrow> node" where
  "add_child child (Node name type children) = Node name type (children @ [child])"

fun erase_child :: "string \<Rightarrow> node \<Rightarrow> node" where
  "erase_child c (Node name type children) =
     Node name type (erase_first (\<lambda>child. node_name child = c) children)"

fun set_name :: "string \<Rightarrow> node \<Rightarrow> node" where
  "set_name new_name (Node name type children) = Node new_name type children"

fun rename_child :: "string \<Rightarrow> string \<Rightarrow> node \<Rightarrow> node" where
  "rename_child c new_name (Node name type children) =
     Node name type (update_first (\<lambda>child. node_name child = c) (set_name new_name) children)"

section \<open>Operations\<close>

definition ns_Exists :: "node \<Rightarrow> string \<Rightarrow> bool" where
  "ns_Exists root path =
     (if \<not> IsValidPath path then False else FindNode root path \<noteq> None)"

definition ns_IsDirectory :: "node \<Rightarrow> string \<Rightarrow> bool" where
  "ns_IsDirectory root path =
     (case FindNode root path of
        None \<Rightarrow> False
      | Some (_, n) \<Rightarrow> node_type n = Directory)"

definition ns_IsFile :: "node \<Rightarrow> string \<Rightarrow> bool" where
  "ns_IsFile root path =
     (case FindNode root path of
        None \<Rightarrow> False
      | Some (_, n) \<Rightarrow> node_type n = File)"

text \<open>\<open>CreateDirectory\<close> and \<open>CreateFile\<close> differ in the type of the new node only.\<close>

definition create_node :: "node_type \<Rightarrow> node \<Rightarrow> string \<Rightarrow> bool \<times> node" where
  "create_node ty root path =
     (if \<not> IsValidPath path \<or> IsRootPath path \<or> ns_Exists root path then (False, root)
      else case FindNode root (ParentPath path) of
        None \<Rightarrow> (False, root)
      | Some (p, parent) \<Rightarrow>
          if node_type parent \<noteq> Directory then (False, root)
          else if FindChild parent (BaseName path) \<noteq> None then (False, root)
          else (True, modify_at p (add_child (Node (BaseName path) ty [])) root))"

definition ns_CreateDirectory :: "node \<Rightarrow> string \<Rightarrow> bool \<times> node" where
  "ns_CreateDirectory = create_node Directory"

definition ns_CreateFile :: "node \<Rightarrow> string \<Rightarrow> bool \<times> node" where
  "ns_CreateFile = create_node File"

definition ns_DeleteDirectory :: "node \<Rightarrow> string \<Rightarrow> bool \<times> node" where
  "ns_DeleteDirectory root path =
     (if \<not> IsValidPath path \<or> IsRootPath path then (False, root)
      else case FindNode root path of
        None \<Rightarrow> (False, root)
      | Some (p, n) \<Rightarrow>
          if node_type n \<noteq> Directory \<or> node_children n \<noteq> [] then (False, root)
          else case parent_ptr p of
            None \<Rightarrow> (False, root)
          | Some pp \<Rightarrow> (True, modify_at pp (erase_child (last p)) root))"

definition ns_DeleteFile :: "node \<Rightarrow> string \<Rightarrow> bool \<times> node" where
  "ns_DeleteFile root path =
     (if \<not> IsValidPath path \<or> IsRootPath path then (False, root)
      else case FindNode root path of
        None \<Rightarrow> (False, root)
      | Some (p, n) \<Rightarrow>
          if node_type n \<noteq> File then (False, root)
          else case parent_ptr p of
            None \<Rightarrow> (False, root)
          | Some pp \<Rightarrow> (True, modify_at pp (erase_child (last p)) root))"

text \<open>The loop \<open>while (ancestor != nullptr)\<close> of \<open>Rename\<close>.\<close>

function ancestor_walk :: "node_ptr \<Rightarrow> node_ptr \<Rightarrow> bool" where
  "ancestor_walk ancestor source =
     (if ancestor = source then True
      else if ancestor = [] then False
      else ancestor_walk (butlast ancestor) source)"
  by pat_completeness auto
termination
  by (relation "measure (\<lambda>(ancestor, source). length ancestor)") auto

definition ns_Rename :: "node \<Rightarrow> string \<Rightarrow> string \<Rightarrow> bool \<times> node" where
  "ns_Rename root source_path destination_path =
     (if \<not> IsValidPath source_path \<or> \<not> IsValidPath destination_path \<or>
         IsRootPath source_path \<or> IsRootPath destination_path \<or>
         source_path = destination_path then (False, root)
      else case FindNode root source_path of
        None \<Rightarrow> (False, root)
      | Some (sp, source) \<Rightarrow>
          if FindNode root destination_path \<noteq> None then (False, root)
          else case FindNode root (ParentPath destination_path) of
            None \<Rightarrow> (False, root)
          | Some (dp, destination_parent) \<Rightarrow>
              if node_type destination_parent \<noteq> Directory then (False, root)
              else if node_type source = Directory \<and> ancestor_walk dp sp then (False, root)
              else case parent_ptr sp of
                None \<Rightarrow> (False, root)
              | Some pp \<Rightarrow>
                  let destination_name = BaseName destination_path in
                  if FindChild destination_parent destination_name \<noteq> None then (False, root)
                  else if pp = dp then
                    (True, modify_at pp (rename_child (last sp) destination_name) root)
                  else
                    (True, modify_at dp (add_child (set_name destination_name source))
                             (modify_at pp (erase_child (last sp)) root)))"

definition child_path :: "string \<Rightarrow> string \<Rightarrow> string" where
  "child_path path name = (if path = ''/'' then ''/'' @ name else path @ ''/'' @ name)"

definition ns_ListDirectory :: "node \<Rightarrow> string \<Rightarrow> node_info list" where
  "ns_ListDirectory root path =
     (case FindNode root path of
        None \<Rightarrow> []
      | Some (_, n) \<Rightarrow>
          if node_type n \<noteq> Directory then []
          else map (\<lambda>child. \<lparr>ni_path = child_path path (node_name child), ni_type = node_type child\<rparr>)
                 (node_children n))"

text \<open>
  \<open>NodeCount\<close> and \<open>ExportNodes\<close> walk the tree with an explicit stack, whose top is the head
  of the list here; the children are pushed in order, so the last child is on top.
\<close>

fun node_weight :: "node \<Rightarrow> nat" where
  "node_weight (Node name type children) = Suc (sum_list (map node_weight children))"

lemma weight_rev_children: "sum_list (map node_weight (rev (node_children n))) < node_weight n"
  by (cases n) (simp add: rev_map [symmetric] sum_list_rev)

function count_loop :: "node list \<Rightarrow> nat \<Rightarrow> nat" where
  "count_loop [] cnt = cnt"
| "count_loop (n # stack) cnt = count_loop (rev (node_children n) @ stack) (cnt + 1)"
  by pat_completeness auto
termination
  by (relation "measure (\<lambda>(stack, cnt). sum_list (map node_weight stack))")
    (use weight_rev_children in auto)

definition ns_NodeCount :: "node \<Rightarrow> nat" where
  "ns_NodeCount root = count_loop [root] 0"

function export_loop :: "(node \<times> string) list \<Rightarrow> node_info list \<Rightarrow> node_info list" where
  "export_loop [] result = result"
| "export_loop ((n, path) # stack) result =
     export_loop (rev (map (\<lambda>child. (child, child_path path (node_name child))) (node_children n)) @ stack)
       (result @ [\<lparr>ni_path = path, ni_type = node_type n\<rparr>])"
  by pat_completeness auto
termination
  by (relation "measure (\<lambda>(stack, result). sum_list (map (node_weight \<circ> fst) stack))")
    (use weight_rev_children in \<open>auto simp: rev_map comp_def\<close>)

definition ns_ExportNodes :: "node \<Rightarrow> node_info list" where
  "ns_ExportNodes root = sort_key ni_path (export_loop [(root, ''/'')] [])"

definition ns_Clear :: "node \<Rightarrow> node" where
  "ns_Clear root = ns_init"

text \<open>The first loop of \<open>RestoreNodes\<close>: None for \<open>return false\<close>, else \<open>root_found\<close>.\<close>

fun check_nodes :: "node_info list \<Rightarrow> bool \<Rightarrow> bool option" where
  "check_nodes [] root_found = Some root_found"
| "check_nodes (info # infos) root_found =
     (if \<not> IsValidPath (ni_path info) then None
      else if ni_path info = ''/'' then
        (if ni_type info \<noteq> Directory then None else check_nodes infos True)
      else check_nodes infos root_found)"

definition path_depth :: "string \<Rightarrow> nat" where
  "path_depth path = (if path = ''/'' then 0 else count_list path slash)"

fun restore_loop :: "node_info list \<Rightarrow> node \<Rightarrow> bool \<times> node" where
  "restore_loop [] root = (True, root)"
| "restore_loop (info # infos) root =
     (if ni_path info = ''/'' then restore_loop infos root
      else case (if ni_type info = Directory then ns_CreateDirectory root (ni_path info)
                 else ns_CreateFile root (ni_path info)) of
        (success, root') \<Rightarrow>
          if \<not> success then (False, ns_Clear root') else restore_loop infos root')"

definition ns_RestoreNodes :: "node \<Rightarrow> node_info list \<Rightarrow> bool \<times> node" where
  "ns_RestoreNodes root infos =
     (if infos = [] then (False, root)
      else case check_nodes infos False of
        None \<Rightarrow> (False, root)
      | Some root_found \<Rightarrow>
          if \<not> root_found then (False, root)
          else restore_loop (sort_key (\<lambda>info. (path_depth (ni_path info), ni_path info)) infos)
                 (ns_Clear root))"

section \<open>Abstract view and well-formedness\<close>

definition ns_view :: "node \<Rightarrow> node_ptr \<Rightarrow> node_type option" where
  "ns_view root p = map_option node_type (deref root p)"

fun ns_ok :: "node \<Rightarrow> bool" where
  "ns_ok (Node name type children) \<longleftrightarrow>
     distinct (map node_name children) \<and> (type = File \<longrightarrow> children = []) \<and>
     list_all (\<lambda>child. proper_component (node_name child) \<and> ns_ok child) children"

definition ns_inv :: "node \<Rightarrow> bool" where
  "ns_inv root \<longleftrightarrow> ns_ok root \<and> node_type root = Directory"

lemma ns_view_Nil [simp]: "ns_view n [] = Some (node_type n)"
  by (simp add: ns_view_def)

lemma ns_view_Cons:
  "ns_view n (c # cs) = (case FindChild n c of None \<Rightarrow> None | Some child \<Rightarrow> ns_view child cs)"
  by (simp add: ns_view_def split: option.splits)

lemma ns_view_None: "ns_view r p = None \<longleftrightarrow> deref r p = None"
  by (simp add: ns_view_def)

lemma FindChild_props: "FindChild n c = Some child \<Longrightarrow> child \<in> set (node_children n) \<and> node_name child = c"
  by (auto simp: FindChild_def dest: find_Some_set)

lemma deref_append:
  "deref r (p @ q) = (case deref r p of None \<Rightarrow> None | Some n \<Rightarrow> deref n q)"
  by (induction r p rule: deref.induct) (auto split: option.splits)

lemma ns_view_append_None: "ns_view r p = None \<Longrightarrow> ns_view r (p @ q) = None"
  by (simp add: ns_view_def deref_append)

lemma deref_name: "deref r p = Some n \<Longrightarrow> p \<noteq> [] \<Longrightarrow> node_name n = last p"
proof (induction r p rule: deref.induct)
  case (2 r c cs)
  then show ?case by (cases cs) (auto split: option.splits dest: FindChild_props)
qed simp

lemma ns_ok_child: "ns_ok n \<Longrightarrow> FindChild n c = Some child \<Longrightarrow> ns_ok child \<and> proper_component c"
  by (cases n) (auto dest: FindChild_props simp: list_all_iff)

lemma deref_ok: "ns_ok r \<Longrightarrow> deref r p = Some n \<Longrightarrow> ns_ok n \<and> list_all proper_component p"
  by (induction r p rule: deref.induct) (auto split: option.splits dest: ns_ok_child)

lemma ns_ok_File: "ns_ok n \<Longrightarrow> node_type n = File \<Longrightarrow> node_children n = []"
  by (cases n) auto

lemma File_no_children: "ns_ok n \<Longrightarrow> node_type n = File \<Longrightarrow> FindChild n c = None"
  by (simp add: ns_ok_File FindChild_def)

text \<open>Every strict prefix of an existing address is a directory.\<close>

lemma ns_view_parent:
  assumes "ns_ok r" and "ns_view r (p @ [c]) \<noteq> None"
  shows "ns_view r p = Some Directory"
proof -
  from assms(2) obtain n where n: "deref r p = Some n" and "deref n [c] \<noteq> None"
    by (auto simp: ns_view_def deref_append split: option.splits)
  then have "node_type n \<noteq> File"
    using File_no_children deref_ok [OF assms(1) n] by (auto split: option.splits)
  then show ?thesis using n by (cases "node_type n") (auto simp: ns_view_def)
qed

lemma ns_view_prefix:
  assumes "ns_ok r" and "ns_view r q \<noteq> None" and "strict_prefix p q"
  shows "ns_view r p = Some Directory"
proof -
  obtain c cs where q: "q = (p @ [c]) @ cs" using assms(3) by (auto elim: strict_prefixE')
  then have "ns_view r (p @ [c]) \<noteq> None"
    using assms(2) unfolding q ns_view_def deref_append by (auto split: option.splits)
  then show ?thesis by (rule ns_view_parent [OF assms(1)])
qed

section \<open>Updates through a pointer\<close>

lemma find_update_first:
  assumes "\<And>x. x \<in> set xs \<Longrightarrow> g (f x) = g x"
  shows "find (\<lambda>x. g x = d) (update_first (\<lambda>x. g x = c) f xs) =
    (if d = c then map_option f (find (\<lambda>x. g x = c) xs) else find (\<lambda>x. g x = d) xs)"
  using assms by (induction xs) auto

lemma find_erase_first:
  assumes "distinct (map g xs)"
  shows "find (\<lambda>x. g x = d) (erase_first (\<lambda>x. g x = c) xs) =
    (if d = c then None else find (\<lambda>x. g x = d) xs)"
  using assms by (induction xs) (auto simp: find_None_set, metis rev_image_eqI)

lemma modify_at_name [simp]:
  "(p = [] \<Longrightarrow> node_name (f n) = node_name n) \<Longrightarrow> node_name (modify_at p f n) = node_name n"
  by (cases n; cases p) auto

lemma modify_at_type [simp]: "p \<noteq> [] \<Longrightarrow> node_type (modify_at p f n) = node_type n"
  by (cases n; cases p) auto

lemma FindChild_modify_at:
  assumes "\<And>n. node_name (f n) = node_name n"
  shows "FindChild (modify_at (c # cs) f n) d =
    (if d = c then map_option (modify_at cs f) (FindChild n c) else FindChild n d)"
proof (cases n)
  case (Node name type children)
  have "\<And>x. x \<in> set children \<Longrightarrow> node_name (modify_at cs f x) = node_name x"
    by (rule modify_at_name) (rule assms)
  from find_update_first [where g = node_name, OF this] show ?thesis
    by (simp add: Node FindChild_def)
qed

lemma ns_view_modify_at:
  assumes "deref r p = Some n" and "\<And>n. node_name (f n) = node_name n"
    and "node_type (f n) = node_type n"
  shows "ns_view (modify_at p f r) q = (if prefix p q then ns_view (f n) (drop (length p) q) else ns_view r q)"
  using assms(1)
proof (induction p arbitrary: r q)
  case Nil
  then show ?case by simp
next
  case (Cons c cs)
  from Cons.prems obtain child where child: "FindChild r c = Some child" "deref child cs = Some n"
    by (auto split: option.splits)
  show ?case
  proof (cases q)
    case Nil
    then show ?thesis by simp
  next
    case (Cons d ds)
    then show ?thesis
      using child Cons.IH [OF child(2)] assms(2)
      by (auto simp: ns_view_Cons FindChild_modify_at split: option.splits)
  qed
qed

lemma ns_ok_modify_at:
  assumes "ns_ok r" and "deref r p = Some n" and "\<And>n. node_name (f n) = node_name n" and "ns_ok (f n)"
  shows "ns_ok (modify_at p f r)"
  using assms(1,2)
proof (induction p arbitrary: r)
  case Nil
  then show ?case using assms(4) by simp
next
  case (Cons c cs)
  obtain name type children where r: "r = Node name type children" by (cases r)
  have names: "map node_name (update_first (\<lambda>child. node_name child = c) (modify_at cs f) children) =
      map node_name children"
    by (rule map_update_first) (rule modify_at_name, rule assms(3))
  from Cons.prems obtain child where child: "FindChild r c = Some child" "deref child cs = Some n"
    by (auto split: option.splits)
  then have ok: "ns_ok (modify_at cs f child)"
    using Cons.IH ns_ok_child [OF Cons.prems(1)] by blast
  have step: "list_all P (update_first Q g xs)"
    if "list_all P xs" and "find Q xs = Some x" and "P (g x)" for P Q g xs and x :: node
    using that by (induction xs) (auto split: if_splits)
  have "list_all (\<lambda>child. proper_component (node_name child) \<and> ns_ok child)
      (update_first (\<lambda>child. node_name child = c) (modify_at cs f) children)"
  proof (rule step)
    show "list_all (\<lambda>child. proper_component (node_name child) \<and> ns_ok child) children"
      using Cons.prems(1) r by simp
    show "find (\<lambda>child. node_name child = c) children = Some child"
      using child(1) r by (simp add: FindChild_def)
    show "proper_component (node_name (modify_at cs f child)) \<and> ns_ok (modify_at cs f child)"
      using ok ns_ok_child [OF Cons.prems(1) child(1)] FindChild_props [OF child(1)]
        modify_at_name [of cs f child] assms(3) by simp
  qed
  moreover have "type = File \<longrightarrow> children = []" and "distinct (map node_name children)"
    using Cons.prems(1) r by auto
  ultimately show ?case using r names by auto
qed

lemma add_child_simps [simp]:
  "node_name (add_child x n) = node_name n" "node_type (add_child x n) = node_type n"
  "node_children (add_child x n) = node_children n @ [x]"
  by (cases n; simp)+

lemma erase_child_simps [simp]:
  "node_name (erase_child c n) = node_name n" "node_type (erase_child c n) = node_type n"
  "node_children (erase_child c n) = erase_first (\<lambda>child. node_name child = c) (node_children n)"
  by (cases n; simp)+

lemma set_name_simps [simp]:
  "node_name (set_name c n) = c" "node_type (set_name c n) = node_type n"
  "node_children (set_name c n) = node_children n"
  by (cases n; simp)+

lemma rename_child_simps [simp]:
  "node_name (rename_child c d n) = node_name n" "node_type (rename_child c d n) = node_type n"
  "node_children (rename_child c d n) = update_first (\<lambda>child. node_name child = c) (set_name d) (node_children n)"
  by (cases n; simp)+

lemma ns_view_set_name [simp]: "ns_view (set_name c n) p = ns_view n p"
  by (cases p) (auto simp: ns_view_Cons FindChild_def)

lemma ns_ok_set_name [simp]: "ns_ok (set_name c n) = ns_ok n"
  by (cases n) simp

lemma FindChild_None: "FindChild n c = None \<longleftrightarrow> c \<notin> node_name ` set (node_children n)"
  by (auto simp: FindChild_def find_None_set)

lemma FindChild_add_child:
  "FindChild n (node_name x) = None \<Longrightarrow>
    FindChild (add_child x n) d = (if d = node_name x then Some x else FindChild n d)"
  by (auto simp: FindChild_def find_append split: option.splits)

lemma ns_ok_add_child:
  "ns_ok n \<Longrightarrow> ns_ok x \<Longrightarrow> node_type n = Directory \<Longrightarrow> proper_component (node_name x) \<Longrightarrow>
    FindChild n (node_name x) = None \<Longrightarrow> ns_ok (add_child x n)"
  by (cases n) (auto simp: FindChild_None)

lemma distinct_children: "ns_ok n \<Longrightarrow> distinct (map node_name (node_children n))"
  by (cases n) auto

lemma FindChild_erase_child:
  "ns_ok n \<Longrightarrow> FindChild (erase_child c n) d = (if d = c then None else FindChild n d)"
  using find_erase_first [OF distinct_children] by (simp add: FindChild_def)

lemma ns_ok_erase_child: "ns_ok n \<Longrightarrow> ns_ok (erase_child c n)"
proof (cases n)
  case (Node name type children)
  assume "ns_ok n"
  then show ?thesis
    using Node set_erase_first_subset [of "\<lambda>child. node_name child = c" children]
    by (auto simp: list_all_iff intro: distinct_map_erase_first)
qed

lemma find_rename:
  assumes "distinct (map node_name xs)" and "find (\<lambda>x. node_name x = c) xs = Some y"
    and "find (\<lambda>x. node_name x = d) xs = None"
  shows "find (\<lambda>x. node_name x = e) (update_first (\<lambda>x. node_name x = c) (set_name d) xs) =
    (if e = d then Some (set_name d y) else if e = c then None else find (\<lambda>x. node_name x = e) xs)"
  using assms by (induction xs) (auto split: if_splits simp: find_None_set, metis rev_image_eqI)

lemma FindChild_rename_child:
  "ns_ok n \<Longrightarrow> FindChild n c = Some x \<Longrightarrow> FindChild n d = None \<Longrightarrow>
    FindChild (rename_child c d n) e =
      (if e = d then Some (set_name d x) else if e = c then None else FindChild n e)"
  unfolding FindChild_def rename_child_simps using distinct_children by (rule find_rename)

lemma distinct_rename:
  assumes "distinct (map node_name xs)" and "d \<notin> node_name ` set xs"
  shows "distinct (map node_name (update_first (\<lambda>x. node_name x = c) (set_name d) xs)) \<and>
    node_name ` set (update_first (\<lambda>x. node_name x = c) (set_name d) xs) \<subseteq> insert d (node_name ` set xs)"
  using assms by (induction xs) auto

lemma list_all_update_first:
  "list_all P xs \<Longrightarrow> (\<And>x. P x \<Longrightarrow> P (g x)) \<Longrightarrow> list_all P (update_first Q g xs)"
  by (induction xs) auto

lemma ns_ok_rename_child:
  assumes "ns_ok n" and "FindChild n d = None" and "proper_component d"
  shows "ns_ok (rename_child c d n)"
proof (cases n)
  case (Node name type children)
  have "list_all (\<lambda>child. proper_component (node_name child) \<and> ns_ok child)
      (update_first (\<lambda>x. node_name x = c) (set_name d) children)"
    by (rule list_all_update_first) (use assms Node in auto)
  then show ?thesis
    using assms Node distinct_rename [of children d c] by (auto simp: FindChild_None)
qed

section \<open>What the operations do\<close>

lemma FindNode_Some:
  "FindNode r path = Some (p, n) \<longleftrightarrow> IsValidPath path \<and> p = SplitPath path \<and> deref r p = Some n"
  by (auto simp: FindNode_def IsRootPath_def)

lemma FindNode_None:
  "FindNode r path = None \<longleftrightarrow> (IsValidPath path \<longrightarrow> ns_view r (SplitPath path) = None)"
  by (auto simp: FindNode_def IsRootPath_def ns_view_None)

lemma ns_Exists_view: "ns_Exists r path \<longleftrightarrow> IsValidPath path \<and> ns_view r (SplitPath path) \<noteq> None"
  by (simp add: ns_Exists_def FindNode_None)

lemma ns_IsDirectory_view:
  "ns_IsDirectory r path \<longleftrightarrow> IsValidPath path \<and> ns_view r (SplitPath path) = Some Directory"
  by (auto simp: ns_IsDirectory_def ns_view_def FindNode_Some FindNode_def IsRootPath_def split: option.splits)

lemma ns_IsFile_view:
  "ns_IsFile r path \<longleftrightarrow> IsValidPath path \<and> ns_view r (SplitPath path) = Some File"
  by (auto simp: ns_IsFile_def ns_view_def FindNode_Some FindNode_def IsRootPath_def split: option.splits)

lemma ns_view_add_child:
  assumes "FindChild n (node_name x) = None" and "node_children x = []"
  shows "ns_view (add_child x n) q = ((ns_view n)([node_name x] \<mapsto> node_type x)) q"
proof (cases q)
  case (Cons d ds)
  have "FindChild x e = None" for e using assms(2) by (simp add: FindChild_def)
  then show ?thesis
    using assms(1) Cons by (cases ds) (auto simp: ns_view_Cons FindChild_add_child split: option.splits)
qed simp

lemma view_at: "deref r p = Some n \<Longrightarrow> ns_view n q = ns_view r (p @ q)"
  by (simp add: ns_view_def deref_append)

lemma prefix_snoc_eq: "prefix p q \<Longrightarrow> drop (length p) q = [c] \<longleftrightarrow> q = p @ [c]"
  by (auto simp: prefix_def)

text \<open>Creating a node succeeds exactly below an existing directory and adds one entry.\<close>

definition can_create :: "node \<Rightarrow> string \<Rightarrow> bool" where
  "can_create r path \<longleftrightarrow> IsValidPath path \<and> path \<noteq> ''/'' \<and> ns_view r (SplitPath path) = None \<and>
     ns_view r (butlast (SplitPath path)) = Some Directory"

lemma create_node_fails: "\<not> can_create r path \<Longrightarrow> create_node ty r path = (False, r)"
  by (auto simp: create_node_def can_create_def IsRootPath_def ns_Exists_view FindNode_Some valid_parent(1,2)
      ns_view_def split: option.splits)

lemma create_node_succeeds:
  assumes "ns_inv r" and "can_create r path"
  shows "\<exists>r'. create_node ty r path = (True, r') \<and> ns_view r' = (ns_view r)(SplitPath path \<mapsto> ty) \<and> ns_inv r'"
proof -
  have valid: "IsValidPath path" "path \<noteq> ''/''" using assms(2) by (auto simp: can_create_def)
  note parent = valid_parent [OF valid]
  let ?p = "SplitPath (ParentPath path)" and ?x = "Node (BaseName path) ty []"
  obtain n where n: "deref r ?p = Some n" "node_type n = Directory"
    using assms(2) parent(2) by (auto simp: can_create_def ns_view_def)
  have fresh: "FindChild n (BaseName path) = None"
    using assms(2) parent(3) n by (auto simp: can_create_def ns_view_None deref_append split: option.splits)
  let ?r = "modify_at ?p (add_child ?x) r"
  have "FindNode r (ParentPath path) = Some (?p, n)"
    using n parent(1) by (simp add: FindNode_Some)
  then have "create_node ty r path = (True, ?r)"
    using assms(2) n fresh by (simp add: create_node_def can_create_def IsRootPath_def ns_Exists_view)
  moreover have "ns_view ?r q = ((ns_view r)(SplitPath path \<mapsto> ty)) q" for q
  proof (cases "prefix ?p q")
    case True
    then have "q = ?p @ drop (length ?p) q" by (auto simp: prefix_def)
    then have "ns_view n (drop (length ?p) q) = ns_view r q" using view_at [OF n(1)] by metis
    then show ?thesis
      using ns_view_modify_at [OF n(1), of "add_child ?x" q] ns_view_add_child [of n ?x] fresh
        True prefix_snoc_eq [OF True] by (simp add: parent(3))
  next
    case False
    then have "q \<noteq> SplitPath path" by (auto simp: parent(3))
    then show ?thesis
      using ns_view_modify_at [OF n(1), of "add_child ?x" q] False by simp
  qed
  moreover have "ns_ok (add_child ?x n)"
    using ns_ok_add_child [of n ?x] deref_ok [OF _ n(1)] assms(1) n(2) fresh parent(4)
    by (simp add: ns_inv_def)
  then have "ns_ok ?r"
    using ns_ok_modify_at [OF _ n(1)] assms(1) by (simp add: ns_inv_def)
  moreover have "node_type ?r = Directory"
    using assms(1) by (cases "?p = []") (auto simp: ns_inv_def)
  ultimately show ?thesis by (auto simp: ns_inv_def fun_eq_iff)
qed

lemma create_node_cases:
  assumes "ns_inv r"
  obtains "\<not> can_create r path" and "create_node ty r path = (False, r)"
  | r' where "can_create r path" and "create_node ty r path = (True, r')"
      and "ns_view r' = (ns_view r)(SplitPath path \<mapsto> ty)" and "ns_inv r'"
  using create_node_fails create_node_succeeds [OF assms] by blast

text \<open>Erasing a subtree.\<close>

lemma ns_view_erase_child:
  "ns_ok n \<Longrightarrow> ns_view (erase_child c n) q = (if prefix [c] q then None else ns_view n q)"
  by (cases q) (auto simp: ns_view_Cons FindChild_erase_child)

lemma erase_subtree:
  assumes "ns_inv r" and "deref r p \<noteq> None" and "p \<noteq> []"
  shows "ns_view (modify_at (butlast p) (erase_child (last p)) r) q = (if prefix p q then None else ns_view r q)"
    and "ns_inv (modify_at (butlast p) (erase_child (last p)) r)"
proof -
  have p: "p = butlast p @ [last p]" using assms(3) by simp
  then obtain n where n: "deref r (butlast p) = Some n"
    using assms(2) deref_append [of r "butlast p" "[last p]"] by (auto split: option.splits)
  have ok: "ns_ok n" using deref_ok [OF _ n] assms(1) by (simp add: ns_inv_def)
  have split: "prefix p (butlast p @ q') \<longleftrightarrow> prefix [last p] q'" for q'
    using p by (metis same_prefix_prefix)
  show "ns_view (modify_at (butlast p) (erase_child (last p)) r) q = (if prefix p q then None else ns_view r q)"
  proof (cases "prefix (butlast p) q")
    case True
    then obtain q' where q: "q = butlast p @ q'" by (auto simp: prefix_def)
    show ?thesis
      using ns_view_modify_at [OF n, of "erase_child (last p)" q] ns_view_erase_child [OF ok] split
        view_at [OF n, of q'] by (simp add: q)
  next
    case False
    then have "\<not> prefix p q" using p by (metis append_prefixD)
    then show ?thesis using ns_view_modify_at [OF n, of "erase_child (last p)" q] False by simp
  qed
  show "ns_inv (modify_at (butlast p) (erase_child (last p)) r)"
    using ns_ok_modify_at [OF _ n, of "erase_child (last p)"] ns_ok_erase_child [OF ok] assms(1)
    by (cases "butlast p = []") (auto simp: ns_inv_def)
qed

text \<open>Deleting: the entry of the path goes, every other entry stays.\<close>

definition can_delete :: "node_type \<Rightarrow> node \<Rightarrow> string \<Rightarrow> bool" where
  "can_delete ty r path \<longleftrightarrow> IsValidPath path \<and> path \<noteq> ''/'' \<and> ns_view r (SplitPath path) = Some ty \<and>
     (\<forall>c. ns_view r (SplitPath path @ [c]) = None)"

lemma no_children_view:
  assumes "ns_ok r" and "deref r p = Some n"
  shows "node_children n = [] \<longleftrightarrow> (\<forall>c. ns_view r (p @ [c]) = None)"
proof -
  have "ns_view r (p @ [c]) = map_option node_type (FindChild n c)" for c
    using assms(2) by (auto simp: ns_view_def deref_append split: option.splits)
  then show ?thesis by (cases "node_children n") (auto simp: FindChild_None)
qed

lemma delete_core:
  assumes "ns_inv r" and "can_delete ty r path"
  shows "ns_view (modify_at (butlast (SplitPath path)) (erase_child (last (SplitPath path))) r) =
      (ns_view r)(SplitPath path := None)"
    and "ns_inv (modify_at (butlast (SplitPath path)) (erase_child (last (SplitPath path))) r)"
proof -
  let ?p = "SplitPath path"
  have ne: "?p \<noteq> []" and ex: "deref r ?p \<noteq> None"
    using assms(2) by (auto simp: can_delete_def valid_path_split(3) ns_view_def)
  have below: "ns_view r q = None" if "strict_prefix ?p q" for q
  proof (rule ccontr)
    assume q: "ns_view r q \<noteq> None"
    from that obtain s where "q = ?p @ s" and "s \<noteq> []" by (auto simp: strict_prefix_def prefix_def)
    then obtain c cs where "q = (?p @ [c]) @ cs" by (cases s) auto
    with q have "ns_view r (?p @ [c]) \<noteq> None" by (metis ns_view_append_None)
    then show False using assms(2) by (simp add: can_delete_def)
  qed
  then show "ns_view (modify_at (butlast ?p) (erase_child (last ?p)) r) = (ns_view r)(?p := None)"
    using erase_subtree(1) [OF assms(1) ex ne] by (auto simp: fun_eq_iff strict_prefix_def)
  show "ns_inv (modify_at (butlast ?p) (erase_child (last ?p)) r)"
    by (rule erase_subtree(2) [OF assms(1) ex ne])
qed

lemma DeleteFile_guard:
  assumes "ns_inv r"
  shows "can_delete File r path \<longleftrightarrow> IsValidPath path \<and> path \<noteq> ''/'' \<and> ns_view r (SplitPath path) = Some File"
proof -
  have "ns_view r (SplitPath path @ [c]) = None" if "ns_view r (SplitPath path) = Some File" for c
    using ns_view_parent [of r "SplitPath path" c] assms that by (fastforce simp: ns_inv_def)
  then show ?thesis by (auto simp: can_delete_def)
qed

lemma ns_DeleteFile_eq:
  assumes "ns_inv r"
  shows "ns_DeleteFile r path =
    (if can_delete File r path
     then (True, modify_at (butlast (SplitPath path)) (erase_child (last (SplitPath path))) r)
     else (False, r))"
  unfolding DeleteFile_guard [OF assms]
  by (auto simp: ns_DeleteFile_def IsRootPath_def FindNode_None FindNode_Some ns_view_def parent_ptr_def
      valid_path_split(3) split: option.splits)

lemma ns_DeleteDirectory_eq:
  assumes "ns_inv r"
  shows "ns_DeleteDirectory r path =
    (if can_delete Directory r path
     then (True, modify_at (butlast (SplitPath path)) (erase_child (last (SplitPath path))) r)
     else (False, r))"
proof (cases "IsValidPath path \<and> path \<noteq> ''/'' \<and> deref r (SplitPath path) \<noteq> None")
  case True
  then obtain n where n: "deref r (SplitPath path) = Some n" by auto
  then have "FindNode r path = Some (SplitPath path, n)" using True by (simp add: FindNode_Some)
  then show ?thesis
    using True n no_children_view [OF _ n] assms valid_path_split(3) [of path]
    by (auto simp: ns_DeleteDirectory_def can_delete_def IsRootPath_def parent_ptr_def ns_inv_def ns_view_def)
next
  case False
  then show ?thesis
    by (auto simp: ns_DeleteDirectory_def can_delete_def IsRootPath_def ns_view_def FindNode_Some split: option.splits)
qed

text \<open>Renaming moves the subtree of the source to the destination.\<close>

definition can_rename :: "node \<Rightarrow> string \<Rightarrow> string \<Rightarrow> bool" where
  "can_rename r source_path destination_path \<longleftrightarrow>
     IsValidPath source_path \<and> IsValidPath destination_path \<and> source_path \<noteq> ''/'' \<and> destination_path \<noteq> ''/'' \<and>
     ns_view r (SplitPath source_path) \<noteq> None \<and> ns_view r (SplitPath destination_path) = None \<and>
     ns_view r (butlast (SplitPath destination_path)) = Some Directory \<and>
     \<not> prefix (SplitPath source_path) (SplitPath destination_path)"

definition move_view :: "node_ptr \<Rightarrow> node_ptr \<Rightarrow> (node_ptr \<Rightarrow> node_type option) \<Rightarrow> node_ptr \<Rightarrow> node_type option" where
  "move_view s d v q =
     (if prefix d q then v (s @ drop (length d) q) else if prefix s q then None else v q)"

lemma ancestor_walk_prefix: "ancestor_walk anc source \<longleftrightarrow> prefix source anc"
proof (induction anc source rule: ancestor_walk.induct)
  case (1 anc source)
  then show ?case
    by (cases anc rule: rev_cases) (auto simp: ancestor_walk.simps [of anc] ancestor_walk.simps [of "[]"])
qed

declare ancestor_walk.simps [simp del]

lemma rename_same_parent:
  assumes "ns_inv r" and n: "deref r p = Some n" and x: "FindChild n c = Some x" and d: "FindChild n d = None"
    and "proper_component d"
  shows "ns_view (modify_at p (rename_child c d) r) = move_view (p @ [c]) (p @ [d]) (ns_view r)"
    and "ns_inv (modify_at p (rename_child c d) r)"
proof
  fix q
  have ok: "ns_ok n" using deref_ok [OF _ n] assms(1) by (simp add: ns_inv_def)
  have cd: "c \<noteq> d" using x d by auto
  show "ns_view (modify_at p (rename_child c d) r) q = move_view (p @ [c]) (p @ [d]) (ns_view r) q"
  proof (cases "prefix p q")
    case True
    then obtain q' where q: "q = p @ q'" by (auto simp: prefix_def)
    have "ns_view (modify_at p (rename_child c d) r) q = ns_view (rename_child c d n) q'"
      using ns_view_modify_at [OF n, of "rename_child c d"] by (simp add: q)
    also have "\<dots> = move_view (p @ [c]) (p @ [d]) (ns_view r) q"
    proof (cases q')
      case (Cons e es)
      then show ?thesis
        using FindChild_rename_child [OF ok x d, of e] x view_at [OF n, of "c # es"] view_at [OF n, of "e # es"]
        by (auto simp: move_view_def q ns_view_Cons)
    qed (use n in \<open>auto simp: move_view_def q ns_view_def\<close>)
    finally show ?thesis .
  next
    case False
    then have "\<not> prefix (p @ [c]) q" "\<not> prefix (p @ [d]) q" by (auto dest: append_prefixD)
    then show ?thesis
      using ns_view_modify_at [OF n, of "rename_child c d"] False by (simp add: move_view_def)
  qed
next
  have ok: "ns_ok n" using deref_ok [OF _ n] assms(1) by (simp add: ns_inv_def)
  show "ns_inv (modify_at p (rename_child c d) r)"
    using ns_ok_modify_at [OF _ n, of "rename_child c d"] ns_ok_rename_child [OF ok d] assms(1,5)
    by (cases "p = []") (auto simp: ns_inv_def)
qed

lemma ns_view_add_subtree:
  "FindChild n (node_name x) = None \<Longrightarrow>
    ns_view (add_child x n) q = (if prefix [node_name x] q then ns_view x (tl q) else ns_view n q)"
  by (cases q) (auto simp: ns_view_Cons FindChild_add_child)

lemma rename_across:
  assumes "ns_inv r" and sp: "deref r sp = Some source" "sp \<noteq> []"
    and d: "ns_view r dp = Some Directory" "ns_view r (dp @ [c]) = None"
    and "\<not> prefix sp dp" and "proper_component c"
  defines "r' \<equiv> modify_at dp (add_child (set_name c source)) (modify_at (butlast sp) (erase_child (last sp)) r)"
  shows "ns_view r' = move_view sp (dp @ [c]) (ns_view r)" and "ns_inv r'"
proof -
  let ?r1 = "modify_at (butlast sp) (erase_child (last sp)) r" and ?x = "set_name c source"
  have inv1: "ns_inv ?r1" and view1: "ns_view ?r1 q = (if prefix sp q then None else ns_view r q)" for q
    using erase_subtree [OF assms(1) _ sp(2)] sp(1) by auto
  have "ns_view ?r1 dp = Some Directory" using view1 assms(6) d(1) by simp
  then obtain d1 where d1: "deref ?r1 dp = Some d1" "node_type d1 = Directory"
    by (auto simp: ns_view_def)
  have "ns_view ?r1 (dp @ [c]) = None" using view1 d(2) by simp
  then have fresh: "FindChild d1 (node_name ?x) = None"
    using d1 by (auto simp: ns_view_None deref_append split: option.splits)
  have ok: "ns_ok source" "ns_ok d1"
    using deref_ok [OF _ sp(1)] deref_ok [OF _ d1(1)] inv1 assms(1) by (auto simp: ns_inv_def)
  show "ns_view r' = move_view sp (dp @ [c]) (ns_view r)"
  proof
    fix q
    show "ns_view r' q = move_view sp (dp @ [c]) (ns_view r) q"
    proof (cases "prefix dp q")
      case True
      then obtain q' where q: "q = dp @ q'" by (auto simp: prefix_def)
      have "ns_view r' q = (if prefix [c] q' then ns_view source (tl q') else ns_view d1 q')"
        using ns_view_modify_at [OF d1(1), of "add_child ?x"] ns_view_add_subtree [OF fresh, of q']
        by (simp add: r'_def q)
      moreover have "ns_view d1 q' = (if prefix sp q then None else ns_view r q)"
        using view_at [OF d1(1)] view1 q by simp
      moreover have "ns_view source (tl q') = ns_view r (sp @ drop (length (dp @ [c])) q)"
        using view_at [OF sp(1)] by (simp add: q drop_Suc)
      ultimately show ?thesis by (simp add: move_view_def q)
    next
      case False
      then have "\<not> prefix (dp @ [c]) q" by (auto dest: append_prefixD)
      then show ?thesis
        using ns_view_modify_at [OF d1(1), of "add_child ?x"] False view1 by (simp add: r'_def move_view_def)
    qed
  qed
  have "ns_ok (add_child ?x d1)"
    using ns_ok_add_child [OF ok(2), of ?x] ok(1) d1(2) fresh assms(7) by simp
  then show "ns_inv r'"
    using ns_ok_modify_at [OF _ d1(1), of "add_child ?x"] inv1
    by (cases "dp = []") (auto simp: ns_inv_def r'_def)
qed

lemma ns_Rename_fails:
  assumes "ns_inv r" and "\<not> can_rename r src dst"
  shows "ns_Rename r src dst = (False, r)"
proof (cases "IsValidPath src \<and> IsValidPath dst \<and> src \<noteq> ''/'' \<and> dst \<noteq> ''/'' \<and> src \<noteq> dst \<and>
    ns_view r (SplitPath src) \<noteq> None \<and> ns_view r (SplitPath dst) = None \<and>
    ns_view r (butlast (SplitPath dst)) = Some Directory")
  case True
  then have dst: "SplitPath dst \<noteq> []" and ne: "SplitPath src \<noteq> SplitPath dst" by (auto simp: valid_path_split(3))
  from True assms(2) have "prefix (SplitPath src) (SplitPath dst)" by (auto simp: can_rename_def)
  then have pre: "prefix (SplitPath src) (butlast (SplitPath dst))"
    using dst ne by (metis append_butlast_last_id prefix_snoc)
  then have "ns_view r (SplitPath src) = Some Directory"
    using True ns_view_prefix [of r "butlast (SplitPath dst)" "SplitPath src"] assms(1)
    by (cases "SplitPath src = butlast (SplitPath dst)") (auto simp: ns_inv_def strict_prefix_def)
  then show ?thesis
    using True pre valid_parent(1,2) [of dst]
    by (auto simp: ns_Rename_def FindNode_Some ns_view_def ancestor_walk_prefix split: option.splits)
next
  case False
  then show ?thesis
    using valid_parent(1,2) [of dst]
    by (auto simp: ns_Rename_def IsRootPath_def FindNode_Some FindNode_None ns_view_def split: option.splits)
qed

lemma ns_Rename_succeeds:
  assumes "ns_inv r" and can: "can_rename r src dst"
  shows "\<exists>r'. ns_Rename r src dst = (True, r') \<and>
    ns_view r' = move_view (SplitPath src) (SplitPath dst) (ns_view r) \<and> ns_inv r'"
proof -
  let ?sp = "SplitPath src" and ?dp = "SplitPath (ParentPath dst)" and ?c = "BaseName dst"
  have v: "IsValidPath src" "IsValidPath dst" "src \<noteq> ''/''" "dst \<noteq> ''/''"
    using can by (auto simp: can_rename_def)
  note parent = valid_parent [OF v(2,4)]
  have sp: "?sp \<noteq> []" using v by (simp add: valid_path_split(3))
  obtain source where source: "deref r ?sp = Some source"
    using can by (auto simp: can_rename_def ns_view_def)
  obtain n where n: "deref r ?dp = Some n" "node_type n = Directory"
    using can parent(3) by (auto simp: can_rename_def ns_view_def)
  have view_d: "ns_view r ?dp = Some Directory" "ns_view r (?dp @ [?c]) = None"
    using can parent(3) by (auto simp: can_rename_def)
  then have fresh: "FindChild n ?c = None"
    using n by (auto simp: ns_view_None deref_append split: option.splits)
  have nopre: "\<not> prefix ?sp ?dp"
    using can parent(3) by (auto simp: can_rename_def)
  have found: "FindNode r src = Some (?sp, source)" "FindNode r dst = None"
      "FindNode r (ParentPath dst) = Some (?dp, n)"
    using can source n v parent(1) by (auto simp: FindNode_Some FindNode_None can_rename_def)
  have "src \<noteq> dst" using can by (auto simp: can_rename_def)
  show ?thesis
  proof (cases "butlast ?sp = ?dp")
    case True
    have "?dp @ [last ?sp] = ?sp" using True sp by (metis append_butlast_last_id)
    then have child: "FindChild n (last ?sp) = Some source"
      using source n(1) deref_append [of r ?dp "[last ?sp]"] by (simp split: option.splits)
    have "ns_Rename r src dst = (True, modify_at ?dp (rename_child (last ?sp) ?c) r)"
      using v \<open>src \<noteq> dst\<close> found n(2) fresh nopre sp True
      by (simp add: ns_Rename_def IsRootPath_def ancestor_walk_prefix parent_ptr_def)
    moreover have "?dp @ [last ?sp] = ?sp" using True sp by (metis append_butlast_last_id)
    ultimately show ?thesis
      using rename_same_parent [OF assms(1) n(1) child fresh parent(4)] parent(3) by simp
  next
    case False
    have "ns_Rename r src dst = (True, modify_at ?dp (add_child (set_name ?c source))
        (modify_at (butlast ?sp) (erase_child (last ?sp)) r))"
      using v \<open>src \<noteq> dst\<close> found n(2) fresh nopre sp False
      by (simp add: ns_Rename_def IsRootPath_def ancestor_walk_prefix parent_ptr_def)
    then show ?thesis
      using rename_across [OF assms(1) source sp view_d nopre parent(4)] parent(3) by simp
  qed
qed

section \<open>Walking the tree\<close>

text \<open>The recursive readings of the two stack loops.\<close>

fun subtree :: "node \<Rightarrow> (node_ptr \<times> node_type) list" where
  "subtree (Node name ty children) =
     ([], ty) # concat (map (\<lambda>child. map (\<lambda>(q, t). (node_name child # q, t)) (subtree child)) children)"

fun subtree_infos :: "string \<Rightarrow> node \<Rightarrow> node_info list" where
  "subtree_infos path (Node name ty children) =
     \<lparr>ni_path = path, ni_type = ty\<rparr> #
     concat (map (\<lambda>child. subtree_infos (child_path path (node_name child)) child) children)"

lemma count_loop_eq: "count_loop stack cnt = cnt + sum_list (map node_weight stack)"
proof (induction stack cnt rule: count_loop.induct)
  case (2 n stack cnt)
  then show ?case by (cases n) (simp add: rev_map [symmetric] sum_list_rev)
qed simp

lemma length_subtree: "length (subtree n) = node_weight n"
  by (induction n rule: subtree.induct)
    (simp add: length_concat comp_def cong: map_cong)

lemma mset_concat_rev: "mset (concat (rev xss)) = mset (concat xss)"
  by (induction xss) auto

lemma mset_export_loop:
  "mset (export_loop stack result) = mset result + mset (concat (map (\<lambda>(n, path). subtree_infos path n) stack))"
proof (induction stack result rule: export_loop.induct)
  case (2 n path stack result)
  have "concat (map (\<lambda>(n, path). subtree_infos path n) (rev (map (\<lambda>child. (child, child_path path (node_name child)))
      (node_children n)))) = concat (rev (map (\<lambda>child. subtree_infos (child_path path (node_name child)) child) (node_children n)))"
    by (simp add: rev_map comp_def)
  with 2 show ?case
    by (cases n) (simp add: mset_concat_rev)
qed simp

lemma child_path_path_of:
  "list_all proper_component p \<Longrightarrow> child_path (path_of p) c = path_of (p @ [c])"
  by (simp add: child_path_def path_of_snoc)

lemma subtree_infos_subtree:
  "list_all proper_component p \<Longrightarrow> ns_ok n \<Longrightarrow>
    subtree_infos (path_of p) n = map (\<lambda>(q, t). \<lparr>ni_path = path_of (p @ q), ni_type = t\<rparr>) (subtree n)"
proof (induction n arbitrary: p)
  case (Node name ty children)
  have "subtree_infos (child_path (path_of p) (node_name child)) child =
      map (\<lambda>(q, t). \<lparr>ni_path = path_of (p @ q), ni_type = t\<rparr>)
        (map (\<lambda>(q, t). (node_name child # q, t)) (subtree child))" if "child \<in> set children" for child
    using Node.IH [OF that, of "p @ [node_name child]"] Node.prems that
    by (simp add: child_path_path_of list_all_iff comp_def split_def)
  then have "map (\<lambda>child. subtree_infos (child_path (path_of p) (node_name child)) child) children =
      map (\<lambda>child. map (\<lambda>(q, t). \<lparr>ni_path = path_of (p @ q), ni_type = t\<rparr>)
        (map (\<lambda>(q, t). (node_name child # q, t)) (subtree child))) children" by simp
  then have "concat (map (\<lambda>child. subtree_infos (child_path (path_of p) (node_name child)) child) children) =
      map (\<lambda>(q, t). \<lparr>ni_path = path_of (p @ q), ni_type = t\<rparr>)
        (concat (map (\<lambda>child. map (\<lambda>(q, t). (node_name child # q, t)) (subtree child)) children))"
    by (simp only: map_concat map_map comp_def)
  then show ?case by simp
qed

lemma find_unique:
  "distinct (map g xs) \<Longrightarrow> x \<in> set xs \<Longrightarrow> find (\<lambda>y. g y = g x) xs = Some x"
  by (induction xs) auto

lemma set_subtree: "ns_ok n \<Longrightarrow> (q, t) \<in> set (subtree n) \<longleftrightarrow> ns_view n q = Some t"
proof (induction n arbitrary: q t)
  case (Node name ty children)
  show ?case
  proof (cases q)
    case Nil
    then show ?thesis by auto
  next
    case (Cons c cs)
    have "(q, t) \<in> set (subtree (Node name ty children)) \<longleftrightarrow>
        (\<exists>child \<in> set children. node_name child = c \<and> (cs, t) \<in> set (subtree child))"
      using Cons by auto
    also have "\<dots> \<longleftrightarrow> (\<exists>child \<in> set children. node_name child = c \<and> ns_view child cs = Some t)"
      using Node by (auto simp: list_all_iff)
    also have "\<dots> \<longleftrightarrow> ns_view (Node name ty children) q = Some t"
      using find_unique [of node_name children] Node.prems
      by (auto simp: Cons ns_view_Cons FindChild_def split: option.splits dest: find_Some_set)
    finally show ?thesis .
  qed
qed

lemma distinct_subtree: "ns_ok n \<Longrightarrow> distinct (map fst (subtree n))"
proof (induction n)
  case (Node name ty children)
  have "distinct (concat (map (\<lambda>child. map ((#) (node_name child)) (map fst (subtree child))) xs))"
    if "set xs \<subseteq> set children" and "distinct (map node_name xs)" for xs
    using that
  proof (induction xs)
    case (Cons child xs)
    then have "distinct (map fst (subtree child))" using Node by (auto simp: list_all_iff)
    then have "distinct (map ((#) (node_name child)) (map fst (subtree child)))"
      by (subst distinct_map) simp
    then show ?case using Cons by auto
  qed simp
  from this [of children] show ?case
    using Node.prems by (auto simp: map_concat comp_def split_def)
qed

lemma path_of_inject:
  "list_all proper_component p \<Longrightarrow> list_all proper_component q \<Longrightarrow> path_of p = path_of q \<longleftrightarrow> p = q"
  by (metis SplitPath_path_of)

lemma ns_view_proper: "ns_ok r \<Longrightarrow> ns_view r q = Some t \<Longrightarrow> list_all proper_component q"
  by (auto simp: ns_view_def dest: deref_ok)

lemma mset_export:
  assumes "ns_inv r"
  shows "mset (ns_ExportNodes r) = mset (map (\<lambda>(q, t). \<lparr>ni_path = path_of q, ni_type = t\<rparr>) (subtree r))"
proof -
  have "subtree_infos ''/'' r = map (\<lambda>(q, t). \<lparr>ni_path = path_of q, ni_type = t\<rparr>) (subtree r)"
    using subtree_infos_subtree [of "[]" r] assms by (simp add: path_of_def ns_inv_def)
  moreover have "mset (export_loop [(r, ''/'')] []) = mset (subtree_infos ''/'' r)"
    by (subst mset_export_loop) simp
  ultimately show ?thesis by (simp add: ns_ExportNodes_def del: export_loop.simps)
qed

lemma set_export:
  assumes "ns_inv r"
  shows "info \<in> set (ns_ExportNodes r) \<longleftrightarrow>
    (\<exists>q. ns_view r q = Some (ni_type info) \<and> ni_path info = path_of q)"
proof -
  have "set (ns_ExportNodes r) = set (map (\<lambda>(q, t). \<lparr>ni_path = path_of q, ni_type = t\<rparr>) (subtree r))"
    using mset_export [OF assms] by (metis set_mset_mset)
  then have "info \<in> set (ns_ExportNodes r) \<longleftrightarrow>
      (\<exists>q t. (q, t) \<in> set (subtree r) \<and> info = \<lparr>ni_path = path_of q, ni_type = t\<rparr>)"
    by auto
  also have "\<dots> \<longleftrightarrow> (\<exists>q t. ns_view r q = Some t \<and> info = \<lparr>ni_path = path_of q, ni_type = t\<rparr>)"
    using set_subtree assms by (simp add: ns_inv_def)
  also have "\<dots> \<longleftrightarrow> (\<exists>q. ns_view r q = Some (ni_type info) \<and> ni_path info = path_of q)"
    by (cases info) auto
  finally show ?thesis .
qed

lemma distinct_export:
  assumes "ns_inv r"
  shows "distinct (map ni_path (ns_ExportNodes r))"
proof -
  let ?f = "\<lambda>(q, t). \<lparr>ni_path = path_of q, ni_type = t\<rparr>"
  have proper: "list_all proper_component q" if "q \<in> set (map fst (subtree r))" for q
    using that set_subtree ns_view_proper assms by (auto simp: ns_inv_def)
  have "inj_on path_of (set (map fst (subtree r)))"
    using proper path_of_inject by (auto simp: inj_on_def)
  then have "distinct (map path_of (map fst (subtree r)))"
    using distinct_subtree assms by (subst distinct_map) (simp add: ns_inv_def)
  then have "distinct (map ni_path (map ?f (subtree r)))"
    by (simp add: comp_def split_def)
  then show ?thesis
    using mset_export [OF assms] by (metis mset_eq_imp_distinct_iff mset_map)
qed

lemma path_depth_path_of: "list_all proper_component p \<Longrightarrow> path_depth (path_of p) = length p"
proof -
  assume p: "list_all proper_component p"
  have "count_list c slash = 0" if "proper_component c" for c
    using that by (auto simp: proper_component_def count_list_0_iff)
  then have "count_list (concat (map (\<lambda>c. slash # c) p)) slash = length p"
    using p by (induction p) (auto simp: count_list_append)
  then show ?thesis using p by (auto simp: path_depth_def) (auto simp: path_of_def)
qed

section \<open>Restoring an export\<close>

lemma sorted_map_fst: "sorted (map f xs) \<Longrightarrow> sorted (map (\<lambda>x. fst (f x)) xs)"
  for f :: "'a \<Rightarrow> 'b :: linorder \<times> 'c :: linorder"
  by (induction xs) (auto simp: less_eq_prod_def intro: less_imp_le)

lemma restore_step:
  assumes "ns_inv r" and "can_create r (ni_path info)"
  shows "\<exists>r'. restore_loop (info # infos) r = restore_loop infos r' \<and> ns_inv r' \<and>
    ns_view r' = (ns_view r)(SplitPath (ni_path info) \<mapsto> ni_type info)"
proof -
  obtain r' where r': "create_node (ni_type info) r (ni_path info) = (True, r')"
    "ns_view r' = (ns_view r)(SplitPath (ni_path info) \<mapsto> ni_type info)" "ns_inv r'"
    using create_node_succeeds [OF assms] by blast
  have "(if ni_type info = Directory then ns_CreateDirectory r (ni_path info)
      else ns_CreateFile r (ni_path info)) = (True, r')"
    using r'(1) by (cases "ni_type info") (auto simp: ns_CreateDirectory_def ns_CreateFile_def)
  then show ?thesis using r' assms(2) by (auto simp: can_create_def)
qed

text \<open>
  Rebuilding a tree from a list of its entries in order of depth: \<open>D\<close> are the addresses
  that exist already, and every entry's parent is the root, in \<open>D\<close>, or in the list.
\<close>

lemma restore_loop_rebuild:
  assumes "ns_ok r"
  shows "ns_inv s \<Longrightarrow> (\<And>q. ns_view s q = (if q = [] \<or> q \<in> D then ns_view r q else None)) \<Longrightarrow>
    (\<And>i. i \<in> set xs \<Longrightarrow> IsValidPath (ni_path i) \<and> ns_view r (SplitPath (ni_path i)) = Some (ni_type i)) \<Longrightarrow>
    distinct (map ni_path xs) \<Longrightarrow> (\<And>i. i \<in> set xs \<Longrightarrow> SplitPath (ni_path i) \<notin> D) \<Longrightarrow>
    (\<And>i. i \<in> set xs \<Longrightarrow> butlast (SplitPath (ni_path i)) \<in> insert [] D \<union> (SplitPath \<circ> ni_path) ` set xs) \<Longrightarrow>
    sorted (map (length \<circ> SplitPath \<circ> ni_path) xs) \<Longrightarrow>
    \<exists>s'. restore_loop xs s = (True, s') \<and> ns_inv s' \<and>
      (\<forall>q. ns_view s' q = (if q = [] \<or> q \<in> D \<union> (SplitPath \<circ> ni_path) ` set xs then ns_view r q else None))"
proof (induction xs arbitrary: s D)
  case Nil
  then show ?case by simp
next
  case (Cons i xs)
  let ?q = "SplitPath (ni_path i)" and ?S = "SplitPath \<circ> ni_path"
  have i: "IsValidPath (ni_path i)" "ns_view r ?q = Some (ni_type i)" "?q \<notin> D"
    using Cons.prems(3,5) by auto
  have others: "?S j \<noteq> ?q" if "j \<in> set xs" for j
    using that i(1) Cons.prems(3) [of j] Cons.prems(4) SplitPath_inject [of "ni_path i" "ni_path j"] by auto
  show ?case
  proof (cases "ni_path i = ''/''")
    case True
    then have root: "?q = []" by simp
    have "\<exists>s'. restore_loop xs s = (True, s') \<and> ns_inv s' \<and>
      (\<forall>q. ns_view s' q = (if q = [] \<or> q \<in> D \<union> ?S ` set xs then ns_view r q else None))"
    proof (rule Cons.IH)
      fix j assume "j \<in> set xs"
      then show "butlast (SplitPath (ni_path j)) \<in> insert [] D \<union> ?S ` set xs"
        using Cons.prems(6) [of j] root by auto
    qed (use Cons.prems in auto)
    then show ?thesis using True root by auto
  next
    case False
    then have ne: "?q \<noteq> []" using i(1) by (simp add: valid_path_split(3))
    have "butlast ?q \<in> insert [] D"
    proof (rule ccontr)
      assume "butlast ?q \<notin> insert [] D"
      then obtain j where j: "j \<in> set (i # xs)" "butlast ?q = ?S j"
        using Cons.prems(6) [of i] by auto
      have "length ?q \<le> length (?S j)"
        using j(1) Cons.prems(7) by auto
      then show False using j(2) ne by (metis comp_apply diff_less le_eq_less_or_eq length_butlast
          length_greater_0_conv less_one not_less)
    qed
    then have "ns_view s (butlast ?q) = ns_view r (butlast ?q)" using Cons.prems(2) by auto
    moreover have "ns_view r (butlast ?q) = Some Directory"
      using ns_view_parent [OF assms, of "butlast ?q" "last ?q"] i(2) ne by simp
    ultimately have "can_create s (ni_path i)"
      using i ne False Cons.prems(2) [of ?q] by (simp add: can_create_def)
    from restore_step [OF Cons.prems(1) this, of xs] obtain s1 where
      s1: "restore_loop (i # xs) s = restore_loop xs s1" "ns_inv s1"
        "ns_view s1 = (ns_view s)(?q \<mapsto> ni_type i)" by blast
    have "\<exists>s'. restore_loop xs s1 = (True, s') \<and> ns_inv s' \<and>
      (\<forall>q. ns_view s' q = (if q = [] \<or> q \<in> insert ?q D \<union> ?S ` set xs then ns_view r q else None))"
    proof (rule Cons.IH)
      show "ns_view s1 q = (if q = [] \<or> q \<in> insert ?q D then ns_view r q else None)" for q
        using Cons.prems(2) [of q] Cons.prems(2) [of "[]"] i(2) ne by (auto simp: s1(3))
      show "SplitPath (ni_path j) \<notin> insert ?q D" if "j \<in> set xs" for j
        using that Cons.prems(5) others by fastforce
      show "butlast (SplitPath (ni_path j)) \<in> insert [] (insert ?q D) \<union> ?S ` set xs" if "j \<in> set xs" for j
        using that Cons.prems(6) [of j] by auto
    qed (use Cons.prems s1(2) in auto)
    then show ?thesis using s1(1) by auto
  qed
qed

lemma check_nodes_ok:
  "list_all (\<lambda>i. IsValidPath (ni_path i) \<and> (ni_path i = ''/'' \<longrightarrow> ni_type i = Directory)) is \<Longrightarrow>
    check_nodes is b = Some (b \<or> (\<exists>i \<in> set is. ni_path i = ''/''))"
  by (induction "is" b rule: check_nodes.induct) auto

lemma ns_view_init: "ns_view ns_init q = (if q = [] then Some Directory else None)"
  by (cases q) (auto simp: ns_init_def ns_view_Cons FindChild_def)

lemma ns_inv_init: "ns_inv ns_init"
  by (simp add: ns_inv_def ns_init_def)

lemma restore_export:
  assumes inv: "ns_inv r"
  shows "\<exists>r'. ns_RestoreNodes r0 (ns_ExportNodes r) = (True, r') \<and> ns_view r' = ns_view r \<and> ns_inv r'"
proof -
  let ?e = "ns_ExportNodes r"
  let ?key = "\<lambda>info. (path_depth (ni_path info), ni_path info)"
  let ?xs = "sort_key ?key ?e" and ?S = "SplitPath \<circ> ni_path"
  have ok: "ns_ok r" and dir: "ns_view r [] = Some Directory" using inv by (auto simp: ns_inv_def)
  have mem: "IsValidPath (ni_path i) \<and> ns_view r (?S i) = Some (ni_type i) \<and> path_depth (ni_path i) = length (?S i)"
    if "i \<in> set ?e" for i
    using that set_export [OF inv] ns_view_proper [OF ok] IsValidPath_path_of SplitPath_path_of path_depth_path_of
    by (metis comp_apply)
  have image: "q \<in> ?S ` set ?e \<longleftrightarrow> ns_view r q \<noteq> None" for q
  proof
    assume "ns_view r q \<noteq> None"
    then obtain t where t: "ns_view r q = Some t" by auto
    then have "\<lparr>ni_path = path_of q, ni_type = t\<rparr> \<in> set ?e" by (auto simp: set_export [OF inv])
    moreover have "?S \<lparr>ni_path = path_of q, ni_type = t\<rparr> = q"
      using ns_view_proper [OF ok t] by (simp add: SplitPath_path_of)
    ultimately show "q \<in> ?S ` set ?e" by (metis image_eqI)
  qed (use mem in auto)
  have root: "\<exists>i \<in> set ?e. ni_path i = ''/''"
    using set_export [OF inv, of "\<lparr>ni_path = ''/'', ni_type = Directory\<rparr>"] dir
    by (metis node_info.select_convs path_of_def)
  have check: "check_nodes ?e False = Some True"
    using check_nodes_ok [of ?e False] mem root dir by (auto simp: list_all_iff) fastforce
  have "sorted (map ?key ?xs)" by simp
  then have "sorted (map (\<lambda>i. fst (?key i)) ?xs)" by (rule sorted_map_fst)
  moreover have "map (\<lambda>i. fst (?key i)) ?xs = map (length \<circ> ?S) ?xs"
    using mem by simp
  ultimately have sorted: "sorted (map (length \<circ> ?S) ?xs)" by (simp only:)
  have "\<exists>s'. restore_loop ?xs ns_init = (True, s') \<and> ns_inv s' \<and>
    (\<forall>q. ns_view s' q = (if q = [] \<or> q \<in> {} \<union> ?S ` set ?xs then ns_view r q else None))"
  proof (rule restore_loop_rebuild [OF ok ns_inv_init])
    show "ns_view ns_init q = (if q = [] \<or> q \<in> {} then ns_view r q else None)" for q
      using dir by (simp add: ns_view_init)
    show "distinct (map ni_path ?xs)"
      by (rule mset_eq_imp_distinct_iff [THEN iffD2, OF _ distinct_export [OF inv]]) simp
    show "butlast (SplitPath (ni_path i)) \<in> insert [] {} \<union> ?S ` set ?xs" if "i \<in> set ?xs" for i
    proof (cases "?S i = []")
      case False
      then have "ns_view r (butlast (?S i) @ [last (?S i)]) \<noteq> None" using mem [of i] that by simp
      from ns_view_parent [OF ok this] show ?thesis using image by simp
    qed simp
  qed (use mem sorted in \<open>auto simp: comp_assoc\<close>)
  then show ?thesis
    using check root image by (auto simp: ns_RestoreNodes_def ns_Clear_def fun_eq_iff)
qed

section \<open>The namespace manager as a system\<close>

datatype ns_op =
    NsCreateDirectory string
  | NsCreateFile string
  | NsDeleteDirectory string
  | NsDeleteFile string
  | NsRename string string
  | NsRestoreNodes "node_info list"
  | NsClear

fun ns_exec :: "ns_op \<Rightarrow> node \<Rightarrow> bool \<times> node" where
  "ns_exec (NsCreateDirectory path) root = ns_CreateDirectory root path"
| "ns_exec (NsCreateFile path) root = ns_CreateFile root path"
| "ns_exec (NsDeleteDirectory path) root = ns_DeleteDirectory root path"
| "ns_exec (NsDeleteFile path) root = ns_DeleteFile root path"
| "ns_exec (NsRename src dst) root = ns_Rename root src dst"
| "ns_exec (NsRestoreNodes infos) root = ns_RestoreNodes root infos"
| "ns_exec NsClear root = (True, ns_Clear root)"

lemma create_node_inv [inv_intros]: "ns_inv r \<Longrightarrow> ns_inv (snd (create_node ty r path))"
  by (rule create_node_cases [of r path ty]) auto

lemma ns_create_inv [inv_intros]:
  "ns_inv r \<Longrightarrow> ns_inv (snd (ns_CreateFile r path))"
  "ns_inv r \<Longrightarrow> ns_inv (snd (ns_CreateDirectory r path))"
  by (auto simp: ns_CreateFile_def ns_CreateDirectory_def intro: inv_intros)

lemma ns_delete_inv [inv_intros]:
  "ns_inv r \<Longrightarrow> ns_inv (snd (ns_DeleteFile r path))"
  "ns_inv r \<Longrightarrow> ns_inv (snd (ns_DeleteDirectory r path))"
  by (auto simp: ns_DeleteFile_eq ns_DeleteDirectory_eq intro: delete_core)

lemma ns_Rename_inv [inv_intros]: "ns_inv r \<Longrightarrow> ns_inv (snd (ns_Rename r src dst))"
  using ns_Rename_fails ns_Rename_succeeds by (cases "can_rename r src dst") fastforce+

lemma restore_loop_inv: "ns_inv r \<Longrightarrow> ns_inv (snd (restore_loop xs r))"
proof (induction xs r rule: restore_loop.induct)
  case (2 info xs root)
  then show ?case
    using ns_create_inv [OF 2(3), of "ni_path info"] ns_inv_init
    by (auto simp: ns_Clear_def split: prod.splits)
qed simp

lemma ns_RestoreNodes_inv [inv_intros]: "ns_inv r \<Longrightarrow> ns_inv (snd (ns_RestoreNodes r xs))"
  using restore_loop_inv [OF ns_inv_init] by (auto simp: ns_RestoreNodes_def ns_Clear_def split: option.splits)

interpretation namespace: invariant_system ns_exec ns_init ns_inv
proof
  show "ns_inv ns_init" by (rule ns_inv_init)
  show "ns_inv (snd (ns_exec opr s))" if "ns_inv s" for opr s
    using that by (cases opr) (auto intro: inv_intros simp: ns_Clear_def ns_inv_init)
qed

lemma ns_NodeCount_export: "ns_NodeCount r = length (ns_ExportNodes r)"
proof -
  have "length (subtree_infos path n) = node_weight n" for path n
    by (induction path n rule: subtree_infos.induct) (simp add: length_concat comp_def cong: map_cong)
  moreover have "size (mset (export_loop [(r, ''/'')] [])) = length (subtree_infos ''/'' r)"
    by (subst mset_export_loop) simp
  ultimately show ?thesis
    by (simp add: ns_NodeCount_def count_loop_eq ns_ExportNodes_def del: export_loop.simps)
qed

section \<open>Properties\<close>

text \<open>Creating a file or a directory succeeds exactly when the path is valid, not the root, not in
  use, and its parent is a directory. On success the tree maps the new address to the new type
  and nothing else changes; on failure the tree is unchanged.\<close>
lemma create_node_correct:
  assumes "ns_inv r"
  shows "(fst (ns_CreateFile r path) \<longleftrightarrow> can_create r path) \<and>
    (fst (ns_CreateDirectory r path) \<longleftrightarrow> can_create r path) \<and>
    ns_view (snd (ns_CreateFile r path)) =
      (if can_create r path then (ns_view r)(SplitPath path \<mapsto> File) else ns_view r) \<and>
    ns_view (snd (ns_CreateDirectory r path)) =
      (if can_create r path then (ns_view r)(SplitPath path \<mapsto> Directory) else ns_view r)"
  using create_node_fails [of r path] create_node_succeeds [OF assms, of path]
  by (cases "can_create r path") (simp_all add: ns_CreateFile_def ns_CreateDirectory_def, metis fst_conv snd_conv)

definition sample_tree :: node where
  "sample_tree = Node ''/'' Directory [Node ''a'' Directory [Node ''f'' File []], Node ''g'' File []]"

lemma sample_tree_inv: "ns_inv sample_tree"
  by (simp add: sample_tree_def ns_inv_def proper_component_def)

lemma sample_paths:
  "IsValidPath ''/a'' \<and> SplitPath ''/a'' = [''a'']" "IsValidPath ''/b'' \<and> SplitPath ''/b'' = [''b'']"
  "IsValidPath ''/g'' \<and> SplitPath ''/g'' = [''g'']" "IsValidPath ''/a/h'' \<and> SplitPath ''/a/h'' = [''a'', ''h'']"
  by code_simp+

text \<open>Deleting a file succeeds exactly for an existing file, deleting a directory exactly for an
  existing directory that is empty and not the root; the address leaves the tree and nothing else
  changes, and a failure changes nothing.\<close>
lemma delete_node_correct:
  assumes "ns_inv r"
  shows "(fst (ns_DeleteFile r path) \<longleftrightarrow> IsValidPath path \<and> ns_view r (SplitPath path) = Some File) \<and>
    (fst (ns_DeleteDirectory r path) \<longleftrightarrow> IsValidPath path \<and> path \<noteq> ''/'' \<and>
      ns_view r (SplitPath path) = Some Directory \<and> (\<forall>c. ns_view r (SplitPath path @ [c]) = None)) \<and>
    ns_view (snd (ns_DeleteFile r path)) =
      (if fst (ns_DeleteFile r path) then (ns_view r)(SplitPath path := None) else ns_view r) \<and>
    ns_view (snd (ns_DeleteDirectory r path)) =
      (if fst (ns_DeleteDirectory r path) then (ns_view r)(SplitPath path := None) else ns_view r)"
proof -
  have "path \<noteq> ''/''" if "ns_view r (SplitPath path) = Some File"
    using that assms by (auto simp: ns_inv_def)
  then have "can_delete File r path \<longleftrightarrow> IsValidPath path \<and> ns_view r (SplitPath path) = Some File"
    using DeleteFile_guard [OF assms] by blast
  then show ?thesis
    using delete_core(1) [OF assms, of File path] delete_core(1) [OF assms, of Directory path] can_delete_def [of Directory r path]
    by (auto simp: ns_DeleteFile_eq [OF assms] ns_DeleteDirectory_eq [OF assms])
qed

text \<open>C22: \<open>Rename\<close> succeeds exactly when both paths are valid and not the root, the source exists, the
  destination does not, the parent of the destination is a directory, and the destination is not
  inside the source. It moves the whole subtree to the new address and leaves the rest; a failed
  rename leaves the tree as it was.\<close>
theorem rename_correct:
  assumes "ns_inv r"
  shows "(fst (ns_Rename r src dst) \<longleftrightarrow> can_rename r src dst) \<and>
    ns_view (snd (ns_Rename r src dst)) =
      (if can_rename r src dst then move_view (SplitPath src) (SplitPath dst) (ns_view r) else ns_view r)"
  using ns_Rename_fails [OF assms, of src dst] ns_Rename_succeeds [OF assms, of src dst]
  by (cases "can_rename r src dst") fastforce+

theorem rename_correct_witness:
  "fst (ns_Rename sample_tree ''/a'' ''/b'') \<and>
   ns_view (snd (ns_Rename sample_tree ''/a'' ''/b'')) [''b'', ''f''] = Some File"
  using rename_correct [OF sample_tree_inv, of "''/a''" "''/b''"]
  by (simp add: can_rename_def move_view_def sample_paths sample_tree_def ns_view_Cons FindChild_def)

text \<open>C23: in every state that any sequence of namespace operations reaches, every strict ancestor of an
  existing node is a directory, and siblings have distinct, proper names.\<close>
theorem reachable_tree_well_formed:
  assumes "namespace.reachable r"
  shows "ns_ok r \<and> node_type r = Directory \<and>
    (ns_view r q \<noteq> None \<longrightarrow> strict_prefix p q \<longrightarrow> ns_view r p = Some Directory)"
  using namespace.reachable_inv [OF assms] ns_view_prefix [of r q p] by (auto simp: ns_inv_def)

theorem reachable_tree_well_formed_witness:
  "ns_ok (snd (ns_CreateDirectory ns_init ''/a''))"
  using reachable_tree_well_formed [OF namespace.reachable.step [OF namespace.reachable.start, of "NsCreateDirectory ''/a''"]]
  by simp

text \<open>Restoring the export of a well-formed tree, into any tree, succeeds and yields a well-formed
  tree with the same nodes of the same types at the same paths.\<close>
lemma namespace_restore_export:
  assumes "ns_inv r"
  shows "\<exists>r'. ns_RestoreNodes r0 (ns_ExportNodes r) = (True, r') \<and> ns_view r' = ns_view r \<and> ns_inv r'"
  using assms by (rule restore_export)

end
