(* ===== verification/Metadata.thy ===== *)
theory Metadata
  imports Prelude
begin

text \<open>
  File and chunk metadata: \<open>file_metadata.cpp\<close>, \<open>chunk_metadata.cpp\<close> and
  \<open>metadata.cpp\<close> under \<open>src/master/metadata/\<close>. The two unordered maps are association
  lists; a member function that may change the object returns its result and the new object.

  The invariant says that files own distinct, non-zero, existing chunks, that keys and
  stored names agree, and that every chunk handle is below the next handle to give out. The
  lemmas show that the operations keep it, what each does to lookups, and that deleting a
  file drops exactly the chunks no other file refers to.
\<close>

section \<open>Data\<close>

record file_metadata =
  fm_path :: file_path
  fm_size :: "64 word"
  fm_replication_factor :: "32 word"
  fm_chunk_handles :: "chunk_handle list"

record chunk_metadata =
  cm_handle :: chunk_handle
  cm_version :: chunk_version
  cm_size :: "64 word"
  cm_replicas :: "server_id set"

record persistent_file =
  pf_path :: file_path
  pf_size :: "64 word"
  pf_replication_factor :: "32 word"
  pf_chunk_handles :: "chunk_handle list"

record persistent_chunk =
  pc_handle :: chunk_handle
  pc_version :: chunk_version
  pc_size :: "64 word"

record metadata =
  md_files :: "(file_path \<times> file_metadata) list"
  md_chunks :: "(chunk_handle \<times> chunk_metadata) list"
  md_next :: chunk_handle

definition md_init :: metadata where
  "md_init = \<lparr>md_files = [], md_chunks = [], md_next = 1\<rparr>"

section \<open>FileMetadata\<close>

definition FileMetadata :: "file_path \<Rightarrow> 32 word \<Rightarrow> file_metadata" where
  "FileMetadata path replication_factor =
     \<lparr>fm_path = path, fm_size = 0, fm_replication_factor = replication_factor, fm_chunk_handles = []\<rparr>"

definition HasChunk :: "file_metadata \<Rightarrow> chunk_handle \<Rightarrow> bool" where
  "HasChunk f h \<longleftrightarrow> h \<in> set (fm_chunk_handles f)"

definition fm_AddChunk :: "file_metadata \<Rightarrow> chunk_handle \<Rightarrow> bool \<times> file_metadata" where
  "fm_AddChunk f h =
     (if HasChunk f h then (False, f)
      else (True, f\<lparr>fm_chunk_handles := fm_chunk_handles f @ [h]\<rparr>))"

definition fm_RemoveChunk :: "file_metadata \<Rightarrow> chunk_handle \<Rightarrow> bool \<times> file_metadata" where
  "fm_RemoveChunk f h =
     (if h \<notin> set (fm_chunk_handles f) then (False, f)
      else (True, f\<lparr>fm_chunk_handles := remove1 h (fm_chunk_handles f)\<rparr>))"

section \<open>ChunkMetadata\<close>

definition ChunkMetadata :: "chunk_handle \<Rightarrow> chunk_version \<Rightarrow> chunk_metadata" where
  "ChunkMetadata handle version =
     \<lparr>cm_handle = handle, cm_version = version, cm_size = 0, cm_replicas = {}\<rparr>"

definition cm_SetVersion :: "chunk_metadata \<Rightarrow> chunk_version \<Rightarrow> chunk_metadata" where
  "cm_SetVersion c v = (if v \<noteq> 0 then c\<lparr>cm_version := v\<rparr> else c)"

definition cm_AddReplica :: "chunk_metadata \<Rightarrow> server_id \<Rightarrow> bool \<times> chunk_metadata" where
  "cm_AddReplica c s = (s \<notin> cm_replicas c, c\<lparr>cm_replicas := insert s (cm_replicas c)\<rparr>)"

definition cm_RemoveReplica :: "chunk_metadata \<Rightarrow> server_id \<Rightarrow> bool \<times> chunk_metadata" where
  "cm_RemoveReplica c s = (s \<in> cm_replicas c, c\<lparr>cm_replicas := cm_replicas c - {s}\<rparr>)"

definition GetReplicaServerIds :: "chunk_metadata \<Rightarrow> server_id list" where
  "GetReplicaServerIds c = sorted_list_of_set (cm_replicas c)"

section \<open>Files\<close>

definition md_FileExists :: "metadata \<Rightarrow> file_path \<Rightarrow> bool" where
  "md_FileExists m path \<longleftrightarrow> map_of (md_files m) path \<noteq> None"

definition md_ChunkExists :: "metadata \<Rightarrow> chunk_handle \<Rightarrow> bool" where
  "md_ChunkExists m h \<longleftrightarrow> map_of (md_chunks m) h \<noteq> None"

definition md_put_file :: "metadata \<Rightarrow> file_path \<Rightarrow> file_metadata \<Rightarrow> metadata" where
  "md_put_file m path f = m\<lparr>md_files := AList.update path f (md_files m)\<rparr>"

definition md_put_chunk :: "metadata \<Rightarrow> chunk_handle \<Rightarrow> chunk_metadata \<Rightarrow> metadata" where
  "md_put_chunk m h c = m\<lparr>md_chunks := AList.update h c (md_chunks m)\<rparr>"

definition md_erase_file :: "metadata \<Rightarrow> file_path \<Rightarrow> metadata" where
  "md_erase_file m path = m\<lparr>md_files := AList.delete path (md_files m)\<rparr>"

definition md_erase_chunk :: "metadata \<Rightarrow> chunk_handle \<Rightarrow> metadata" where
  "md_erase_chunk m h = m\<lparr>md_chunks := AList.delete h (md_chunks m)\<rparr>"

definition md_CreateFile :: "metadata \<Rightarrow> file_path \<Rightarrow> 32 word \<Rightarrow> bool \<times> metadata" where
  "md_CreateFile m path replication_factor =
     (if path = [] \<or> md_FileExists m path \<or> replication_factor = 0 then (False, m)
      else (True, md_put_file m path (FileMetadata path replication_factor)))"

definition md_GetChunkReferenceCount :: "metadata \<Rightarrow> chunk_handle \<Rightarrow> nat" where
  "md_GetChunkReferenceCount m h =
     (if h = 0 \<or> \<not> md_ChunkExists m h then 0
      else length (filter (\<lambda>(path, f). HasChunk f h) (md_files m)))"

definition md_drop_unreferenced :: "chunk_handle \<Rightarrow> metadata \<Rightarrow> metadata" where
  "md_drop_unreferenced h m =
     (if md_GetChunkReferenceCount m h = 0 then md_erase_chunk m h else m)"

definition md_DeleteFile :: "metadata \<Rightarrow> file_path \<Rightarrow> bool \<times> metadata" where
  "md_DeleteFile m path =
     (case map_of (md_files m) path of
        None \<Rightarrow> (False, m)
      | Some f \<Rightarrow> (True, fold md_drop_unreferenced (fm_chunk_handles f) (md_erase_file m path)))"

definition md_RenameFile :: "metadata \<Rightarrow> file_path \<Rightarrow> file_path \<Rightarrow> bool \<times> metadata" where
  "md_RenameFile m src dst =
     (if src = [] \<or> dst = [] \<or> src = dst then (False, m)
      else case map_of (md_files m) src of
        None \<Rightarrow> (False, m)
      | Some f \<Rightarrow>
          if md_FileExists m dst then (False, m)
          else (True, md_put_file (md_erase_file m src) dst (f\<lparr>fm_path := dst\<rparr>)))"

definition md_GetFile :: "metadata \<Rightarrow> file_path \<Rightarrow> file_metadata option" where
  "md_GetFile m path = map_of (md_files m) path"

definition md_UpdateFileSize :: "metadata \<Rightarrow> file_path \<Rightarrow> 64 word \<Rightarrow> bool \<times> metadata" where
  "md_UpdateFileSize m path sz =
     (case map_of (md_files m) path of
        None \<Rightarrow> (False, m)
      | Some f \<Rightarrow> (True, md_put_file m path (f\<lparr>fm_size := sz\<rparr>)))"

section \<open>Chunks\<close>

text \<open>The loop of \<open>GenerateChunkHandle\<close>: skip handles in use; 0 when the handles wrapped.\<close>

function skip_used_handles :: "(chunk_handle \<times> chunk_metadata) list \<Rightarrow> chunk_handle \<Rightarrow> chunk_handle" where
  "skip_used_handles chunks next =
     (if next \<noteq> 0 \<and> map_of chunks next \<noteq> None then skip_used_handles chunks (next + 1) else next)"
  by pat_completeness auto
termination
proof (relation "measure (\<lambda>(chunks, next). if next = 0 then 0 else 2 ^ 64 - unat next)")
  fix chunks :: "(chunk_handle \<times> chunk_metadata) list" and nxt :: chunk_handle
  assume "nxt \<noteq> 0 \<and> map_of chunks nxt \<noteq> None"
  then show "((chunks, nxt + 1), chunks, nxt)
      \<in> measure (\<lambda>(chunks, next). if next = 0 then 0 else 2 ^ 64 - unat next)"
    using unat_u64_less [of nxt] by (auto simp: unat_succ)
qed simp

definition md_GenerateChunkHandle :: "metadata \<Rightarrow> chunk_handle \<times> metadata" where
  "md_GenerateChunkHandle m =
     (let next = skip_used_handles (md_chunks m) (md_next m) in
      if next = 0 then (0, m\<lparr>md_next := next\<rparr>)
      else (next, m\<lparr>md_next := next + 1\<rparr>))"

text \<open>
  The common end of the functions that insert a chunk: \<open>next_chunk_handle_\<close> moves past the
  handle, and the flag says whether it wrapped to 0.
\<close>

definition md_bump_next :: "metadata \<Rightarrow> chunk_handle \<Rightarrow> bool \<times> metadata" where
  "md_bump_next m handle =
     (if md_next m \<le> handle
      then (handle + 1 = 0, m\<lparr>md_next := handle + 1\<rparr>)
      else (False, m))"

definition md_AllocateChunk ::
    "metadata \<Rightarrow> file_path \<Rightarrow> chunk_handle \<Rightarrow> chunk_version \<Rightarrow> 64 word \<Rightarrow> bool \<times> metadata" where
  "md_AllocateChunk m path handle version sz =
     (if path = [] \<or> handle = 0 \<or> version = 0 then (False, m)
      else case map_of (md_files m) path of
        None \<Rightarrow> (False, m)
      | Some f \<Rightarrow>
          if md_ChunkExists m handle then (False, m)
          else
            let m1 = md_put_chunk m handle ((ChunkMetadata handle version)\<lparr>cm_size := sz\<rparr>) in
            case fm_AddChunk f handle of
              (False, _) \<Rightarrow> (False, md_erase_chunk m1 handle)
            | (True, f') \<Rightarrow>
                (case md_bump_next (md_put_file m1 path f') handle of
                   (wrapped, m2) \<Rightarrow> (\<not> wrapped, m2)))"

definition md_AllocateNextChunk :: "metadata \<Rightarrow> file_path \<Rightarrow> chunk_handle option \<times> metadata" where
  "md_AllocateNextChunk m path =
     (if \<not> md_FileExists m path then (None, m)
      else case md_GenerateChunkHandle m of
        (handle, m1) \<Rightarrow>
          if handle = 0 then (None, m1)
          else case md_AllocateChunk m1 path handle 1 0 of
            (ok, m2) \<Rightarrow> if ok then (Some handle, m2) else (None, m2))"

definition md_AllocateStandaloneChunk ::
    "metadata \<Rightarrow> chunk_handle \<Rightarrow> chunk_version \<Rightarrow> 64 word \<Rightarrow> bool \<times> metadata" where
  "md_AllocateStandaloneChunk m handle version sz =
     (if handle = 0 \<or> version = 0 \<or> md_ChunkExists m handle then (False, m)
      else
        let m1 = md_put_chunk m handle ((ChunkMetadata handle version)\<lparr>cm_size := sz\<rparr>) in
        case md_bump_next m1 handle of
          (wrapped, m2) \<Rightarrow> if wrapped then (False, md_erase_chunk m2 handle) else (True, m2))"

definition md_AddChunkToFile :: "metadata \<Rightarrow> file_path \<Rightarrow> chunk_handle \<Rightarrow> bool \<times> metadata" where
  "md_AddChunkToFile m path h =
     (case map_of (md_files m) path of
        None \<Rightarrow> (False, m)
      | Some f \<Rightarrow>
          if \<not> md_ChunkExists m h then (False, m)
          else case fm_AddChunk f h of (ok, f') \<Rightarrow> (ok, md_put_file m path f'))"

definition md_ReplaceChunkInFile ::
    "metadata \<Rightarrow> file_path \<Rightarrow> chunk_index \<Rightarrow> chunk_handle \<Rightarrow> bool \<times> metadata" where
  "md_ReplaceChunkInFile m path chunk_index replacement =
     (if path = [] \<or> replacement = 0 then (False, m)
      else case map_of (md_files m) path of
        None \<Rightarrow> (False, m)
      | Some f \<Rightarrow>
          if \<not> md_ChunkExists m replacement then (False, m)
          else
            let handles = fm_chunk_handles f; i = unat chunk_index in
            if length handles \<le> i then (False, m)
            else if handles ! i = replacement then (True, m)
            else if replacement \<in> set handles then (False, m)
            else (True, md_put_file m path (f\<lparr>fm_chunk_handles := handles[i := replacement]\<rparr>)))"

definition md_RemoveChunkFromFile :: "metadata \<Rightarrow> file_path \<Rightarrow> chunk_handle \<Rightarrow> bool \<times> metadata" where
  "md_RemoveChunkFromFile m path h =
     (case map_of (md_files m) path of
        None \<Rightarrow> (False, m)
      | Some f \<Rightarrow> (case fm_RemoveChunk f h of (ok, f') \<Rightarrow> (ok, md_put_file m path f')))"

definition md_GetChunk :: "metadata \<Rightarrow> chunk_handle \<Rightarrow> chunk_metadata option" where
  "md_GetChunk m h = map_of (md_chunks m) h"

definition md_DeleteChunk :: "metadata \<Rightarrow> chunk_handle \<Rightarrow> bool \<times> metadata" where
  "md_DeleteChunk m h =
     (if \<not> md_ChunkExists m h then (False, m)
      else (True, md_erase_chunk (m\<lparr>md_files := map_values (\<lambda>f. snd (fm_RemoveChunk f h)) (md_files m)\<rparr>) h))"

definition md_AddReplica :: "metadata \<Rightarrow> chunk_handle \<Rightarrow> server_id \<Rightarrow> bool \<times> metadata" where
  "md_AddReplica m h s =
     (case map_of (md_chunks m) h of
        None \<Rightarrow> (False, m)
      | Some c \<Rightarrow> (case cm_AddReplica c s of (ok, c') \<Rightarrow> (ok, md_put_chunk m h c')))"

definition md_RemoveReplica :: "metadata \<Rightarrow> chunk_handle \<Rightarrow> server_id \<Rightarrow> bool \<times> metadata" where
  "md_RemoveReplica m h s =
     (case map_of (md_chunks m) h of
        None \<Rightarrow> (False, m)
      | Some c \<Rightarrow> (case cm_RemoveReplica c s of (ok, c') \<Rightarrow> (ok, md_put_chunk m h c')))"

definition md_GetReplicas :: "metadata \<Rightarrow> chunk_handle \<Rightarrow> server_id list" where
  "md_GetReplicas m h =
     (case map_of (md_chunks m) h of None \<Rightarrow> [] | Some c \<Rightarrow> GetReplicaServerIds c)"

definition md_SetChunkVersion :: "metadata \<Rightarrow> chunk_handle \<Rightarrow> chunk_version \<Rightarrow> bool \<times> metadata" where
  "md_SetChunkVersion m h version =
     (case map_of (md_chunks m) h of
        None \<Rightarrow> (False, m)
      | Some c \<Rightarrow>
          if version = 0 then (False, m) else (True, md_put_chunk m h (cm_SetVersion c version)))"

definition md_GetChunkVersion :: "metadata \<Rightarrow> chunk_handle \<Rightarrow> chunk_version option" where
  "md_GetChunkVersion m h = map_option cm_version (map_of (md_chunks m) h)"

definition md_GetChunkReplicationFactor :: "metadata \<Rightarrow> chunk_handle \<Rightarrow> 32 word option" where
  "md_GetChunkReplicationFactor m h =
     (if h = 0 \<or> \<not> md_ChunkExists m h then None
      else map_option (\<lambda>(path, f). fm_replication_factor f)
             (find (\<lambda>(path, f). HasChunk f h) (md_files m)))"

definition md_SetChunkSize :: "metadata \<Rightarrow> chunk_handle \<Rightarrow> 64 word \<Rightarrow> bool \<times> metadata" where
  "md_SetChunkSize m h sz =
     (case map_of (md_chunks m) h of
        None \<Rightarrow> (False, m)
      | Some c \<Rightarrow> (True, md_put_chunk m h (c\<lparr>cm_size := sz\<rparr>)))"

definition md_GetChunkCount :: "metadata \<Rightarrow> file_path \<Rightarrow> nat option" where
  "md_GetChunkCount m path = map_option (\<lambda>f. length (fm_chunk_handles f)) (map_of (md_files m) path)"

definition md_GetFileChunks :: "metadata \<Rightarrow> file_path \<Rightarrow> chunk_handle list" where
  "md_GetFileChunks m path =
     (case map_of (md_files m) path of None \<Rightarrow> [] | Some f \<Rightarrow> fm_chunk_handles f)"

definition md_CloneFileMetadata :: "metadata \<Rightarrow> file_path \<Rightarrow> file_path \<Rightarrow> bool \<times> metadata" where
  "md_CloneFileMetadata m src dst =
     (if src = [] \<or> dst = [] \<or> src = dst \<or> md_FileExists m dst then (False, m)
      else case map_of (md_files m) src of
        None \<Rightarrow> (False, m)
      | Some f \<Rightarrow>
          let copy = f\<lparr>fm_path := dst\<rparr> in
          if \<not> list_all (\<lambda>h. h \<noteq> 0 \<and> md_ChunkExists m h) (fm_chunk_handles copy) then (False, m)
          else (True, md_put_file m dst copy))"

section \<open>Export and restore\<close>

definition persistent_file_of :: "file_metadata \<Rightarrow> persistent_file" where
  "persistent_file_of f =
     \<lparr>pf_path = fm_path f, pf_size = fm_size f, pf_replication_factor = fm_replication_factor f,
      pf_chunk_handles = fm_chunk_handles f\<rparr>"

definition persistent_chunk_of :: "chunk_metadata \<Rightarrow> persistent_chunk" where
  "persistent_chunk_of c = \<lparr>pc_handle = cm_handle c, pc_version = cm_version c, pc_size = cm_size c\<rparr>"

definition md_ExportFiles :: "metadata \<Rightarrow> persistent_file list" where
  "md_ExportFiles m = sort_key pf_path (map (persistent_file_of \<circ> snd) (md_files m))"

definition md_ExportChunks :: "metadata \<Rightarrow> persistent_chunk list" where
  "md_ExportChunks m = sort_key pc_handle (map (persistent_chunk_of \<circ> snd) (md_chunks m))"

definition md_Clear :: "metadata \<Rightarrow> metadata" where
  "md_Clear m = md_init"

fun restore_handles :: "file_metadata \<Rightarrow> chunk_handle list \<Rightarrow> file_metadata option" where
  "restore_handles f [] = Some f"
| "restore_handles f (h # hs) =
     (if h = 0 \<or> HasChunk f h then None
      else case fm_AddChunk f h of
        (False, _) \<Rightarrow> None
      | (True, f') \<Rightarrow> restore_handles f' hs)"

definition md_RestoreFile ::
    "metadata \<Rightarrow> file_path \<Rightarrow> 64 word \<Rightarrow> 32 word \<Rightarrow> chunk_handle list \<Rightarrow> bool \<times> metadata" where
  "md_RestoreFile m path sz replication_factor handles =
     (if path = [] \<or> md_FileExists m path \<or> replication_factor = 0 then (False, m)
      else case restore_handles ((FileMetadata path replication_factor)\<lparr>fm_size := sz\<rparr>) handles of
        None \<Rightarrow> (False, m)
      | Some f \<Rightarrow> (True, md_put_file m path f))"

definition md_RestoreChunk ::
    "metadata \<Rightarrow> chunk_handle \<Rightarrow> chunk_version \<Rightarrow> 64 word \<Rightarrow> bool \<times> metadata" where
  "md_RestoreChunk m handle version sz =
     (if handle = 0 \<or> version = 0 \<or> md_ChunkExists m handle then (False, m)
      else
        let m1 = md_put_chunk m handle ((ChunkMetadata handle version)\<lparr>cm_size := sz\<rparr>) in
        case md_bump_next m1 handle of (wrapped, m2) \<Rightarrow> (\<not> wrapped, m2))"

section \<open>Invariant\<close>

definition file_ok :: "file_path \<Rightarrow> file_metadata \<Rightarrow> bool" where
  "file_ok path f \<longleftrightarrow> fm_path f = path \<and> path \<noteq> [] \<and> fm_replication_factor f \<noteq> 0 \<and>
     distinct (fm_chunk_handles f) \<and> 0 \<notin> set (fm_chunk_handles f)"

definition chunk_ok :: "chunk_handle \<Rightarrow> chunk_metadata \<Rightarrow> bool" where
  "chunk_ok h c \<longleftrightarrow> cm_handle c = h \<and> h \<noteq> 0 \<and> cm_version c \<noteq> 0 \<and> finite (cm_replicas c)"

definition md_shape :: "metadata \<Rightarrow> bool" where
  "md_shape m \<longleftrightarrow> distinct (map fst (md_files m)) \<and> distinct (map fst (md_chunks m)) \<and>
     (\<forall>path f. map_of (md_files m) path = Some f \<longrightarrow> file_ok path f) \<and>
     (\<forall>h c. map_of (md_chunks m) h = Some c \<longrightarrow> chunk_ok h c)"

text \<open>
  The handles in use lie below the next one. This holds until \<open>next_chunk_handle_\<close> wraps to
  0, and only for as long: once it is 0, an explicit allocation sets it back to a small value.
\<close>

definition md_fresh :: "metadata \<Rightarrow> bool" where
  "md_fresh m \<longleftrightarrow> md_next m \<noteq> 0 \<and> (\<forall>h. md_ChunkExists m h \<longrightarrow> h < md_next m)"

definition no_dangling :: "metadata \<Rightarrow> bool" where
  "no_dangling m \<longleftrightarrow>
     (\<forall>path f. map_of (md_files m) path = Some f \<longrightarrow> (\<forall>h \<in> set (fm_chunk_handles f). md_ChunkExists m h))"

definition md_inv :: "metadata \<Rightarrow> bool" where
  "md_inv m \<longleftrightarrow> md_shape m \<and> no_dangling m"

definition referenced :: "metadata \<Rightarrow> chunk_handle \<Rightarrow> bool" where
  "referenced m h \<longleftrightarrow> (\<exists>path f. map_of (md_files m) path = Some f \<and> h \<in> set (fm_chunk_handles f))"

lemmas md_field_defs = md_put_file_def md_put_chunk_def md_erase_file_def md_erase_chunk_def

lemma md_fields [simp]:
  "md_chunks (md_put_file m p f) = md_chunks m" "md_next (md_put_file m p f) = md_next m"
  "md_files (md_put_chunk m h c) = md_files m" "md_next (md_put_chunk m h c) = md_next m"
  "md_chunks (md_erase_file m p) = md_chunks m" "md_next (md_erase_file m p) = md_next m"
  "md_files (md_erase_chunk m h) = md_files m" "md_next (md_erase_chunk m h) = md_next m"
  "map_of (md_files (md_put_file m p f)) q = (if q = p then Some f else map_of (md_files m) q)"
  "map_of (md_files (md_erase_file m p)) q = (if q = p then None else map_of (md_files m) q)"
  "map_of (md_chunks (md_put_chunk m h c)) g = (if g = h then Some c else map_of (md_chunks m) g)"
  "map_of (md_chunks (md_erase_chunk m h)) g = (if g = h then None else map_of (md_chunks m) g)"
  by (simp_all add: md_field_defs)

lemma md_exists [simp]:
  "md_ChunkExists (md_put_file m p f) g = md_ChunkExists m g"
  "md_ChunkExists (md_erase_file m p) g = md_ChunkExists m g"
  "md_ChunkExists (md_put_chunk m h c) g \<longleftrightarrow> g = h \<or> md_ChunkExists m g"
  "md_ChunkExists (md_erase_chunk m h) g \<longleftrightarrow> g \<noteq> h \<and> md_ChunkExists m g"
  "md_ChunkExists (m\<lparr>md_next := n\<rparr>) g = md_ChunkExists m g"
  "md_ChunkExists (m\<lparr>md_files := fs\<rparr>) g = md_ChunkExists m g"
  by (auto simp: md_ChunkExists_def)

lemma md_bump_fields [simp]:
  "md_files (snd (md_bump_next m h)) = md_files m" "md_chunks (snd (md_bump_next m h)) = md_chunks m"
  "md_ChunkExists (snd (md_bump_next m h)) g = md_ChunkExists m g"
  by (auto simp: md_bump_next_def)

lemma referenced_simps [simp]:
  "referenced (md_put_chunk m h c) g = referenced m g"
  "referenced (md_erase_chunk m h) g = referenced m g"
  by (auto simp: referenced_def)

lemma md_shape_put_file [intro]: "md_shape m \<Longrightarrow> file_ok p f \<Longrightarrow> md_shape (md_put_file m p f)"
  by (auto simp: md_shape_def) (simp_all add: md_field_defs)

lemma md_shape_put_chunk [intro]: "md_shape m \<Longrightarrow> chunk_ok h c \<Longrightarrow> md_shape (md_put_chunk m h c)"
  by (auto simp: md_shape_def) (simp_all add: md_field_defs)

lemma md_shape_erase_file [intro]: "md_shape m \<Longrightarrow> md_shape (md_erase_file m p)"
  by (auto simp: md_shape_def split: if_splits) (simp_all add: md_field_defs)

lemma md_shape_erase_chunk [intro]: "md_shape m \<Longrightarrow> md_shape (md_erase_chunk m h)"
  by (auto simp: md_shape_def split: if_splits) (simp_all add: md_field_defs)

lemma md_shape_next [simp]: "md_shape (m\<lparr>md_next := n\<rparr>) = md_shape m"
  by (simp add: md_shape_def)

lemma md_shape_bump [simp]: "md_shape (snd (md_bump_next m h)) = md_shape m"
  by (simp add: md_bump_next_def)

lemma md_inv_put_file:
  "md_inv m \<Longrightarrow> file_ok p f \<Longrightarrow> (\<And>h. h \<in> set (fm_chunk_handles f) \<Longrightarrow> md_ChunkExists m h) \<Longrightarrow> md_inv (md_put_file m p f)"
  by (auto simp: md_inv_def no_dangling_def)

lemma md_inv_put_chunk:
  "md_inv m \<Longrightarrow> chunk_ok h c \<Longrightarrow> md_ChunkExists m h \<Longrightarrow> md_inv (md_put_chunk m h c)"
  by (auto simp: md_inv_def no_dangling_def)

lemma md_inv_erase_file: "md_inv m \<Longrightarrow> md_inv (md_erase_file m p)"
  by (auto simp: md_inv_def no_dangling_def)

lemma md_inv_erase_chunk: "md_inv m \<Longrightarrow> \<not> referenced m h \<Longrightarrow> md_inv (md_erase_chunk m h)"
  by (auto simp: md_inv_def no_dangling_def referenced_def)

lemma md_fresh_bump:
  assumes "md_fresh m" and "md_chunks m' = md_chunks (md_put_chunk m h c)" and "md_next m' = md_next m"
    and "md_next (snd (md_bump_next m' h)) \<noteq> 0"
  shows "md_fresh (snd (md_bump_next m' h))"
proof -
  have ex: "md_ChunkExists m' g \<longleftrightarrow> g = h \<or> md_ChunkExists m g" for g
    using assms(2) by (auto simp: md_ChunkExists_def)
  show ?thesis
  proof (cases "md_next m \<le> h")
    case True
    then have "h + 1 \<noteq> 0" using assms(3,4) by (simp add: md_bump_next_def)
    then show ?thesis
      using True assms(1,3) ex word_less_succ_iff [of h]
      by (fastforce simp: md_fresh_def md_bump_next_def)
  next
    case False
    then show ?thesis using assms(1,3) ex by (auto simp: md_fresh_def md_bump_next_def)
  qed
qed

lemma md_inv_next [simp]: "md_inv (m\<lparr>md_next := n\<rparr>) = md_inv m"
  by (simp add: md_inv_def no_dangling_def)

lemma md_inv_bump [simp]: "md_inv (snd (md_bump_next m h)) = md_inv m"
  by (simp add: md_inv_def no_dangling_def)

lemma md_inv_new_chunk: "md_inv m \<Longrightarrow> chunk_ok h c \<Longrightarrow> md_inv (md_put_chunk m h c)"
  by (auto simp: md_inv_def no_dangling_def)

lemma md_file_ok: "md_inv m \<Longrightarrow> map_of (md_files m) p = Some f \<Longrightarrow> file_ok p f"
  by (simp add: md_inv_def md_shape_def)

lemma md_chunk_ok: "md_inv m \<Longrightarrow> map_of (md_chunks m) h = Some c \<Longrightarrow> chunk_ok h c"
  by (simp add: md_inv_def md_shape_def)

lemma md_file_chunks:
  "md_inv m \<Longrightarrow> map_of (md_files m) p = Some f \<Longrightarrow> h \<in> set (fm_chunk_handles f) \<Longrightarrow> md_ChunkExists m h"
  by (auto simp: md_inv_def no_dangling_def)

lemma md_inv_init: "md_inv md_init"
  by (simp add: md_inv_def md_shape_def no_dangling_def md_init_def)

lemma md_fresh_init: "md_fresh md_init"
  by (simp add: md_fresh_def md_init_def md_ChunkExists_def)

section \<open>Reference counts\<close>

lemma ref_count_0:
  assumes "md_shape m"
  shows "md_GetChunkReferenceCount m h = 0 \<longleftrightarrow> \<not> md_ChunkExists m h \<or> \<not> referenced m h"
proof -
  have "h \<noteq> 0" if "md_ChunkExists m h"
    using assms that by (auto simp: md_shape_def chunk_ok_def md_ChunkExists_def)
  moreover have "length (filter (\<lambda>(path, f). HasChunk f h) (md_files m)) = 0 \<longleftrightarrow> \<not> referenced m h"
    using assms length_filter_alist_0 [of "md_files m" "\<lambda>f. HasChunk f h"]
    by (auto simp: md_shape_def referenced_def HasChunk_def)
  ultimately show ?thesis by (auto simp: md_GetChunkReferenceCount_def)
qed

lemma ref_count_card:
  assumes "md_inv m"
  shows "md_GetChunkReferenceCount m h =
    card {path. \<exists>f. map_of (md_files m) path = Some f \<and> h \<in> set (fm_chunk_handles f)}"
proof (cases "h = 0 \<or> \<not> md_ChunkExists m h")
  case True
  then have "{path. \<exists>f. map_of (md_files m) path = Some f \<and> h \<in> set (fm_chunk_handles f)} = {}"
    using md_file_chunks [OF assms] md_file_ok [OF assms] by (auto simp: file_ok_def)
  moreover have "md_GetChunkReferenceCount m h = 0" using True by (auto simp: md_GetChunkReferenceCount_def)
  ultimately show ?thesis by (simp only: card.empty)
next
  case False
  then show ?thesis
    using assms length_filter_alist [of "md_files m" "\<lambda>f. HasChunk f h"]
    by (simp add: md_GetChunkReferenceCount_def md_inv_def md_shape_def HasChunk_def)
qed

lemma drop_unreferenced_files [simp]:
  "md_files (md_drop_unreferenced h m) = md_files m" "md_next (md_drop_unreferenced h m) = md_next m"
  by (simp_all add: md_drop_unreferenced_def)

lemma drop_unreferenced_referenced [simp]: "referenced (md_drop_unreferenced h m) = referenced m"
  by (auto simp: md_drop_unreferenced_def fun_eq_iff)

lemma drop_unreferenced_chunks:
  "md_shape m \<Longrightarrow> map_of (md_chunks (md_drop_unreferenced h m)) g =
    (if g = h \<and> \<not> referenced m h then None else map_of (md_chunks m) g)"
  by (auto simp: md_drop_unreferenced_def ref_count_0 md_ChunkExists_def)

lemma drop_unreferenced_inv: "md_inv m \<Longrightarrow> md_inv (md_drop_unreferenced h m)"
proof -
  assume inv: "md_inv m"
  have "\<not> referenced m h" if "\<not> md_ChunkExists m h"
    using inv that by (auto simp: referenced_def dest: md_file_chunks)
  then show ?thesis
    using inv ref_count_0 [of m h] by (auto simp: md_drop_unreferenced_def md_inv_def [of m] intro: md_inv_erase_chunk)
qed

lemma fold_drop_unreferenced:
  "md_inv m \<Longrightarrow> md_inv (fold md_drop_unreferenced hs m) \<and>
    md_files (fold md_drop_unreferenced hs m) = md_files m \<and> md_next (fold md_drop_unreferenced hs m) = md_next m \<and>
    map_of (md_chunks (fold md_drop_unreferenced hs m)) g =
      (if g \<in> set hs \<and> \<not> referenced m g then None else map_of (md_chunks m) g)"
proof (induction hs arbitrary: m)
  case (Cons h hs)
  then show ?case
    using Cons.IH [OF drop_unreferenced_inv [OF Cons.prems, of h]] drop_unreferenced_chunks [of m h g]
    by (auto simp: md_inv_def [of m])
qed simp

section \<open>Operations keep the invariant\<close>

lemma file_ok_new: "path \<noteq> [] \<Longrightarrow> rf \<noteq> 0 \<Longrightarrow> file_ok path (FileMetadata path rf)"
  by (simp add: file_ok_def FileMetadata_def)

lemma chunk_ok_new: "h \<noteq> 0 \<Longrightarrow> v \<noteq> 0 \<Longrightarrow> chunk_ok h ((ChunkMetadata h v)\<lparr>cm_size := sz\<rparr>)"
  by (simp add: chunk_ok_def ChunkMetadata_def)

lemma file_ok_AddChunk:
  "file_ok p f \<Longrightarrow> h \<noteq> 0 \<Longrightarrow> file_ok p (snd (fm_AddChunk f h))"
  "set (fm_chunk_handles (snd (fm_AddChunk f h))) = insert h (set (fm_chunk_handles f))"
  by (auto simp: file_ok_def fm_AddChunk_def HasChunk_def)

lemma file_ok_RemoveChunk:
  "file_ok p f \<Longrightarrow> file_ok p (snd (fm_RemoveChunk f h))"
  "file_ok p f \<Longrightarrow> set (fm_chunk_handles (snd (fm_RemoveChunk f h))) = set (fm_chunk_handles f) - {h}"
  by (auto simp: file_ok_def fm_RemoveChunk_def)

lemma md_CreateFile_inv [inv_intros]: "md_inv m \<Longrightarrow> md_inv (snd (md_CreateFile m path rf))"
  by (auto simp: md_CreateFile_def intro!: md_inv_put_file file_ok_new) (simp add: FileMetadata_def)

lemma md_DeleteFile_inv [inv_intros]: "md_inv m \<Longrightarrow> md_inv (snd (md_DeleteFile m path))"
  using fold_drop_unreferenced [OF md_inv_erase_file] by (auto simp: md_DeleteFile_def split: option.splits)

lemma md_RenameFile_inv [inv_intros]: "md_inv m \<Longrightarrow> md_inv (snd (md_RenameFile m src dst))"
  by (auto simp: md_RenameFile_def file_ok_def split: option.splits
      intro!: md_inv_put_file md_inv_erase_file dest: md_file_ok md_file_chunks)

lemma md_UpdateFileSize_inv [inv_intros]: "md_inv m \<Longrightarrow> md_inv (snd (md_UpdateFileSize m path sz))"
  by (auto simp: md_UpdateFileSize_def file_ok_def split: option.splits
      intro!: md_inv_put_file dest: md_file_ok md_file_chunks)

lemma fm_AddChunk_fst: "fst (fm_AddChunk f h) \<longleftrightarrow> h \<notin> set (fm_chunk_handles f)"
  by (simp add: fm_AddChunk_def HasChunk_def)

text \<open>Under the invariant a fresh handle is in no file, so \<open>AllocateChunk\<close> never backs out.\<close>

lemma md_AllocateChunk_eq:
  assumes "md_inv m"
  shows "md_AllocateChunk m path h v sz =
    (case map_of (md_files m) path of
       None \<Rightarrow> (False, m)
     | Some f \<Rightarrow>
         if path = [] \<or> h = 0 \<or> v = 0 \<or> md_ChunkExists m h then (False, m)
         else (h \<noteq> u64_max,
           snd (md_bump_next (md_put_file (md_put_chunk m h ((ChunkMetadata h v)\<lparr>cm_size := sz\<rparr>)) path
             (f\<lparr>fm_chunk_handles := fm_chunk_handles f @ [h]\<rparr>)) h)))"
proof (cases "map_of (md_files m) path")
  case (Some f)
  have "h \<notin> set (fm_chunk_handles f)" if "\<not> md_ChunkExists m h"
    using that md_file_chunks [OF assms Some] by blast
  moreover have "u64_max < h \<longleftrightarrow> False" by (simp add: not_less)
  ultimately show ?thesis
    using Some by (auto simp: md_AllocateChunk_def fm_AddChunk_def HasChunk_def md_bump_next_def Let_def
        word_succ_eq_0 split: prod.splits)
qed (simp add: md_AllocateChunk_def)

lemma md_AllocateChunk_inv [inv_intros]: "md_inv m \<Longrightarrow> md_inv (snd (md_AllocateChunk m path h v sz))"
proof (cases "map_of (md_files m) path")
  case (Some f)
  assume inv: "md_inv m"
  show ?thesis
    using Some inv md_file_ok [OF inv Some] md_file_chunks [OF inv Some]
    by (auto simp: md_AllocateChunk_eq [OF inv] file_ok_def
        intro!: md_inv_put_file md_inv_new_chunk chunk_ok_new)
qed (simp add: md_AllocateChunk_def)

lemma md_AllocateNextChunk_inv [inv_intros]: "md_inv m \<Longrightarrow> md_inv (snd (md_AllocateNextChunk m path))"
  using md_AllocateChunk_inv [of "snd (md_GenerateChunkHandle m)"]
  by (auto simp: md_AllocateNextChunk_def md_GenerateChunkHandle_def Let_def simp del: skip_used_handles.simps
      split: prod.splits if_splits) (metis md_AllocateChunk_inv md_inv_next snd_conv)+

lemma md_bump_next_wrapped: "fst (md_bump_next m h) \<longleftrightarrow> h = u64_max"
  using word_le_u64_max [of "md_next m"] by (auto simp: md_bump_next_def word_succ_eq_0)

lemma md_AllocateStandaloneChunk_eq:
  "md_AllocateStandaloneChunk m h v sz =
    (if h = 0 \<or> v = 0 \<or> md_ChunkExists m h then (False, m)
     else if h = u64_max then (False, md_erase_chunk (snd (md_bump_next
            (md_put_chunk m h ((ChunkMetadata h v)\<lparr>cm_size := sz\<rparr>)) h)) h)
     else (True, snd (md_bump_next (md_put_chunk m h ((ChunkMetadata h v)\<lparr>cm_size := sz\<rparr>)) h)))"
  using md_bump_next_wrapped [of "md_put_chunk m h ((ChunkMetadata h v)\<lparr>cm_size := sz\<rparr>)" h]
  by (auto simp: md_AllocateStandaloneChunk_def Let_def split: prod.splits)

lemma referenced_bump [simp]: "referenced (snd (md_bump_next m h)) g = referenced m g"
  by (simp add: referenced_def)

lemma md_AllocateStandaloneChunk_inv [inv_intros]:
  "md_inv m \<Longrightarrow> md_inv (snd (md_AllocateStandaloneChunk m h v sz))"
  by (auto simp: md_AllocateStandaloneChunk_eq referenced_def intro!: md_inv_erase_chunk md_inv_new_chunk chunk_ok_new
      dest: md_file_chunks)

lemma md_AddChunkToFile_inv [inv_intros]: "md_inv m \<Longrightarrow> md_inv (snd (md_AddChunkToFile m path h))"
proof (cases "map_of (md_files m) path")
  case (Some f)
  assume inv: "md_inv m"
  have "h \<noteq> 0" if "md_ChunkExists m h"
    using that md_chunk_ok [OF inv] by (auto simp: md_ChunkExists_def chunk_ok_def)
  then show ?thesis
    using Some inv file_ok_AddChunk(1) [of path f h] file_ok_AddChunk(2) [of f h] md_file_ok [OF inv Some] md_file_chunks [OF inv Some]
    by (auto simp: md_AddChunkToFile_def split: prod.splits intro!: md_inv_put_file)
qed (simp add: md_AddChunkToFile_def)

lemma md_ReplaceChunkInFile_inv [inv_intros]: "md_inv m \<Longrightarrow> md_inv (snd (md_ReplaceChunkInFile m path i h))"
proof (cases "map_of (md_files m) path")
  case (Some f)
  assume inv: "md_inv m"
  have "distinct (fm_chunk_handles f)" using md_file_ok [OF inv Some] by (simp add: file_ok_def)
  then have "distinct ((fm_chunk_handles f)[unat i := h])" if "h \<notin> set (fm_chunk_handles f)"
    using that by (simp add: distinct_list_update)
  then show ?thesis
    using Some inv md_file_ok [OF inv Some] md_file_chunks [OF inv Some]
    by (auto simp: md_ReplaceChunkInFile_def Let_def file_ok_def intro!: md_inv_put_file
        dest!: set_update_subset_insert [THEN subsetD])
qed (simp add: md_ReplaceChunkInFile_def)

lemma md_RemoveChunkFromFile_inv [inv_intros]: "md_inv m \<Longrightarrow> md_inv (snd (md_RemoveChunkFromFile m path h))"
proof (cases "map_of (md_files m) path")
  case (Some f)
  assume inv: "md_inv m"
  then show ?thesis
    using Some file_ok_RemoveChunk [OF md_file_ok [OF inv Some], of h] md_file_chunks [OF inv Some]
    by (auto simp: md_RemoveChunkFromFile_def split: prod.splits intro!: md_inv_put_file)
qed (simp add: md_RemoveChunkFromFile_def)

lemma md_DeleteChunk_inv [inv_intros]: "md_inv m \<Longrightarrow> md_inv (snd (md_DeleteChunk m h))"
proof -
  assume inv: "md_inv m"
  let ?m = "m\<lparr>md_files := map_values (\<lambda>f. snd (fm_RemoveChunk f h)) (md_files m)\<rparr>"
  have ok: "file_ok p (snd (fm_RemoveChunk f h))"
      "g \<in> set (fm_chunk_handles (snd (fm_RemoveChunk f h))) \<Longrightarrow> md_ChunkExists m g \<and> g \<noteq> h"
    if "map_of (md_files m) p = Some f" for p f g
    using file_ok_RemoveChunk [OF md_file_ok [OF inv that], of h] md_file_chunks [OF inv that] by auto
  then have "md_inv ?m"
    using inv by (auto simp: md_inv_def md_shape_def no_dangling_def)
  moreover have "\<not> referenced ?m h"
    using ok(2) by (auto simp: referenced_def)
  ultimately show ?thesis by (auto simp: md_DeleteChunk_def inv intro: md_inv_erase_chunk)
qed

lemma md_put_existing_chunk:
  assumes "md_inv m" and "map_of (md_chunks m) h = Some c" and "cm_handle c' = cm_handle c"
    and "cm_version c' \<noteq> 0" and "finite (cm_replicas c')"
  shows "md_inv (md_put_chunk m h c')"
  using assms md_chunk_ok [OF assms(1,2)]
  by (auto simp: chunk_ok_def md_ChunkExists_def intro!: md_inv_put_chunk)

lemma md_chunk_updates_inv [inv_intros]:
  "md_inv m \<Longrightarrow> md_inv (snd (md_AddReplica m h s))"
  "md_inv m \<Longrightarrow> md_inv (snd (md_RemoveReplica m h s))"
  "md_inv m \<Longrightarrow> md_inv (snd (md_SetChunkVersion m h v))"
  "md_inv m \<Longrightarrow> md_inv (snd (md_SetChunkSize m h sz))"
proof -
  assume inv: "md_inv m"
  show "md_inv (snd (md_AddReplica m h s))" "md_inv (snd (md_RemoveReplica m h s))"
    "md_inv (snd (md_SetChunkVersion m h v))" "md_inv (snd (md_SetChunkSize m h sz))"
    using inv md_put_existing_chunk [OF inv] md_chunk_ok [OF inv]
    by (auto simp: md_AddReplica_def md_RemoveReplica_def md_SetChunkVersion_def md_SetChunkSize_def
        cm_AddReplica_def cm_RemoveReplica_def cm_SetVersion_def chunk_ok_def split: option.splits)
qed

lemma md_CloneFileMetadata_inv [inv_intros]: "md_inv m \<Longrightarrow> md_inv (snd (md_CloneFileMetadata m src dst))"
  by (auto simp: md_CloneFileMetadata_def Let_def file_ok_def list_all_iff split: option.splits
      intro!: md_inv_put_file dest: md_file_ok md_file_chunks)

section \<open>Metadata as a system\<close>

datatype md_op =
    MdCreateFile file_path "32 word"
  | MdDeleteFile file_path
  | MdRenameFile file_path file_path
  | MdUpdateFileSize file_path "64 word"
  | MdAllocateChunk file_path chunk_handle chunk_version "64 word"
  | MdAllocateNextChunk file_path
  | MdAllocateStandaloneChunk chunk_handle chunk_version "64 word"
  | MdAddChunkToFile file_path chunk_handle
  | MdReplaceChunkInFile file_path chunk_index chunk_handle
  | MdRemoveChunkFromFile file_path chunk_handle
  | MdDeleteChunk chunk_handle
  | MdAddReplica chunk_handle server_id
  | MdRemoveReplica chunk_handle server_id
  | MdSetChunkVersion chunk_handle chunk_version
  | MdSetChunkSize chunk_handle "64 word"
  | MdCloneFileMetadata file_path file_path
  | MdClear

fun md_exec :: "md_op \<Rightarrow> metadata \<Rightarrow> bool \<times> metadata" where
  "md_exec (MdCreateFile p rf) m = md_CreateFile m p rf"
| "md_exec (MdDeleteFile p) m = md_DeleteFile m p"
| "md_exec (MdRenameFile p q) m = md_RenameFile m p q"
| "md_exec (MdUpdateFileSize p sz) m = md_UpdateFileSize m p sz"
| "md_exec (MdAllocateChunk p h v sz) m = md_AllocateChunk m p h v sz"
| "md_exec (MdAllocateNextChunk p) m = apfst (\<lambda>r. r \<noteq> None) (md_AllocateNextChunk m p)"
| "md_exec (MdAllocateStandaloneChunk h v sz) m = md_AllocateStandaloneChunk m h v sz"
| "md_exec (MdAddChunkToFile p h) m = md_AddChunkToFile m p h"
| "md_exec (MdReplaceChunkInFile p i h) m = md_ReplaceChunkInFile m p i h"
| "md_exec (MdRemoveChunkFromFile p h) m = md_RemoveChunkFromFile m p h"
| "md_exec (MdDeleteChunk h) m = md_DeleteChunk m h"
| "md_exec (MdAddReplica h s) m = md_AddReplica m h s"
| "md_exec (MdRemoveReplica h s) m = md_RemoveReplica m h s"
| "md_exec (MdSetChunkVersion h v) m = md_SetChunkVersion m h v"
| "md_exec (MdSetChunkSize h sz) m = md_SetChunkSize m h sz"
| "md_exec (MdCloneFileMetadata p q) m = md_CloneFileMetadata m p q"
| "md_exec MdClear m = (True, md_Clear m)"

interpretation metadata: invariant_system md_exec md_init md_inv
proof
  show "md_inv md_init" by (rule md_inv_init)
  show "md_inv (snd (md_exec opr s))" if "md_inv s" for opr s
    using that by (cases opr) (auto intro: inv_intros simp: md_Clear_def md_inv_init)
qed

section \<open>Properties\<close>

text \<open>In every state that any sequence of metadata operations reaches, every file lists distinct,
  non-zero handles of existing chunks, stored names and handles agree with their keys, and
  every chunk has a non-zero version.\<close>
lemma reachable_metadata_consistent:
  assumes "metadata.reachable m"
  shows "(map_of (md_files m) path = Some f \<longrightarrow> file_ok path f \<and> (\<forall>h \<in> set (fm_chunk_handles f). md_ChunkExists m h)) \<and>
    (map_of (md_chunks m) h = Some c \<longrightarrow> chunk_ok h c)"
  using metadata.reachable_inv [OF assms] md_file_ok md_file_chunks md_chunk_ok by blast

definition sample_md :: metadata where
  "sample_md = snd (md_exec (MdAllocateNextChunk ''/g'') (snd (md_exec (MdCloneFileMetadata ''/f'' ''/g'')
     (snd (md_exec (MdAllocateNextChunk ''/f'') (snd (md_exec (MdCreateFile ''/f'' 3) md_init)))))))"

lemma sample_md_reachable: "metadata.reachable sample_md"
  unfolding sample_md_def by (intro metadata.reachable.intros)

lemma sample_md_inv: "md_inv sample_md"
  by (rule metadata.reachable_inv) (rule sample_md_reachable)

lemma sample_md_eq:
  "sample_md = \<lparr>md_files = [(''/f'', \<lparr>fm_path = ''/f'', fm_size = 0, fm_replication_factor = 3, fm_chunk_handles = [1]\<rparr>),
      (''/g'', \<lparr>fm_path = ''/g'', fm_size = 0, fm_replication_factor = 3, fm_chunk_handles = [1, 2]\<rparr>)],
    md_chunks = [(1, \<lparr>cm_handle = 1, cm_version = 1, cm_size = 0, cm_replicas = {}\<rparr>),
      (2, \<lparr>cm_handle = 2, cm_version = 1, cm_size = 0, cm_replicas = {}\<rparr>)],
    md_next = 3\<rparr>"
  by code_simp

text \<open>The reference count of a chunk is the number of files that contain it.\<close>
lemma reference_count_counts_files:
  assumes "md_inv m"
  shows "md_GetChunkReferenceCount m h =
    card {path. \<exists>f. md_GetFile m path = Some f \<and> h \<in> set (fm_chunk_handles f)}"
  using ref_count_card [OF assms] by (simp add: md_GetFile_def)

text \<open>Deleting a file succeeds exactly when it exists; it removes that file and exactly those of its
  chunks that no other file refers to, and leaves every other file and chunk untouched.\<close>
lemma delete_file_drops_unshared_chunks:
  assumes "md_inv m" and "md_GetFile m path = Some f" and "md_DeleteFile m path = (ok, m')"
  shows "ok \<and> md_GetFile m' q = (if q = path then None else md_GetFile m q) \<and>
    md_GetChunk m' h =
      (if h \<in> set (fm_chunk_handles f) \<and>
          (\<forall>q g. q \<noteq> path \<longrightarrow> md_GetFile m q = Some g \<longrightarrow> h \<notin> set (fm_chunk_handles g))
       then None else md_GetChunk m h)"
proof -
  have ref: "referenced (md_erase_file m path) h \<longleftrightarrow>
      (\<exists>q g. q \<noteq> path \<and> md_GetFile m q = Some g \<and> h \<in> set (fm_chunk_handles g))"
    by (auto simp: referenced_def md_GetFile_def)
  show ?thesis
    using assms(2,3) ref fold_drop_unreferenced [OF md_inv_erase_file [OF assms(1), of path], of "fm_chunk_handles f" h]
    by (auto simp: md_DeleteFile_def md_GetFile_def md_GetChunk_def)
qed

text \<open>While the handles in use lie below \<open>next_chunk_handle_\<close>, \<open>AllocateChunk(path)\<close> on an existing
  file gives out exactly that handle, unless it is the last one; the handle was in no file, it is
  appended to the file, and the handles in use lie below the next one again.\<close>
lemma allocate_next_chunk_fresh:
  assumes "md_inv m" and "md_fresh m" and "md_next m \<noteq> u64_max" and "md_GetFile m path = Some f"
  shows "\<exists>m'. md_AllocateNextChunk m path = (Some (md_next m), m') \<and> \<not> referenced m (md_next m) \<and>
    md_GetFileChunks m' path = md_GetFileChunks m path @ [md_next m] \<and> md_fresh m' \<and> md_inv m'"
proof -
  let ?n = "md_next m"
  let ?m = "m\<lparr>md_next := ?n + 1\<rparr>"
  let ?c = "(ChunkMetadata ?n 1)\<lparr>cm_size := 0\<rparr>"
  let ?p = "md_put_file (md_put_chunk ?m ?n ?c) path (f\<lparr>fm_chunk_handles := fm_chunk_handles f @ [?n]\<rparr>)"
  have n: "?n \<noteq> 0" "\<not> md_ChunkExists m ?n" "?n + 1 \<noteq> 0"
    using assms(2,3) by (auto simp: md_fresh_def word_succ_eq_0)
  then have gen: "md_GenerateChunkHandle m = (?n, ?m)"
    by (simp add: md_GenerateChunkHandle_def skip_used_handles.simps [of _ ?n] md_ChunkExists_def Let_def)
  have f: "map_of (md_files ?m) path = Some f" "path \<noteq> []"
    using assms(4) md_file_ok [OF assms(1)] by (auto simp: md_GetFile_def file_ok_def)
  have "\<not> ?n + 1 \<le> ?n" using word_less_succ [OF n(3)] by simp
  then have bump: "md_bump_next ?p ?n = (False, ?p)" by (simp add: md_bump_next_def)
  have alloc: "md_AllocateChunk ?m path ?n 1 0 = (True, ?p)"
    using md_AllocateChunk_eq [of ?m path ?n 1 0] assms(1,3) f n bump by simp
  then have res: "md_AllocateNextChunk m path = (Some ?n, ?p)"
    using gen n(1) f(1) by (simp add: md_AllocateNextChunk_def md_FileExists_def)
  have unref: "\<not> referenced m ?n"
    using n(2) md_file_chunks [OF assms(1)] by (auto simp: referenced_def)
  have "md_fresh ?p"
    using assms(2) n word_less_succ_iff [OF n(3)] by (auto simp: md_fresh_def less_imp_le)
  moreover have "md_inv ?p"
    using md_AllocateChunk_inv [of ?m path ?n 1 0] alloc assms(1) by simp
  ultimately show ?thesis using res unref f(1) by (auto simp: md_GetFileChunks_def)
qed

end
