(* ===== verification/Replicas.thy ===== *)
theory Replicas
  imports Prelude
begin

text \<open>
  \<open>src/master/replication/replica_manager.cpp\<close> and \<open>placement_policy.cpp\<close>: which servers
  hold a chunk and which of them is the primary, and the choice of servers for a new chunk.
  A \<open>size_t\<close> count is a \<open>nat\<close>.

  The invariant of the replica table: no chunk has an empty replica list, the servers of a
  chunk are distinct and non-zero, and at most one of them is the primary. \<open>SetPrimary\<close> with
  a server that holds no replica demotes the current primary, so "exactly one" is not an
  invariant.
\<close>

section \<open>Replica table\<close>

record replica_info =
  ri_server :: server_id
  ri_primary :: bool

type_synonym replica_table = "(chunk_handle \<times> replica_info list) list"

record chunk_replica_set =
  rs_handle :: chunk_handle
  rs_replicas :: "replica_info list"

definition rm_init :: replica_table where
  "rm_init = []"

definition clear_primaries :: "replica_info list \<Rightarrow> replica_info list" where
  "clear_primaries rs = map (\<lambda>r. r\<lparr>ri_primary := False\<rparr>) rs"

definition rm_RegisterReplica ::
    "replica_table \<Rightarrow> chunk_handle \<Rightarrow> server_id \<Rightarrow> bool \<Rightarrow> bool \<times> replica_table" where
  "rm_RegisterReplica t handle server is_primary =
     (if handle = 0 \<or> server = 0 then (False, t)
      else
        let replicas = (case map_of t handle of None \<Rightarrow> [] | Some rs \<Rightarrow> rs) in
        case find (\<lambda>r. ri_server r = server) replicas of
          Some existing \<Rightarrow>
            (False, AList.update handle
               (if is_primary
                then update_first (\<lambda>r. ri_server r = server) (\<lambda>r. r\<lparr>ri_primary := True\<rparr>) (clear_primaries replicas)
                else replicas) t)
        | None \<Rightarrow>
            (True, AList.update handle
               ((if is_primary then clear_primaries replicas else replicas) @
                [\<lparr>ri_server = server, ri_primary = is_primary\<rparr>]) t))"

definition promote_front :: "replica_info list \<Rightarrow> replica_info list" where
  "promote_front rs = (case rs of [] \<Rightarrow> [] | r # rest \<Rightarrow> r\<lparr>ri_primary := True\<rparr> # rest)"

definition rm_RemoveReplica :: "replica_table \<Rightarrow> chunk_handle \<Rightarrow> server_id \<Rightarrow> bool \<times> replica_table" where
  "rm_RemoveReplica t handle server =
     (if handle = 0 \<or> server = 0 then (False, t)
      else case map_of t handle of
        None \<Rightarrow> (False, t)
      | Some replicas \<Rightarrow>
          (case find (\<lambda>r. ri_server r = server) replicas of
             None \<Rightarrow> (False, t)
           | Some _ \<Rightarrow>
               let rest = erase_first (\<lambda>r. ri_server r = server) replicas in
               if rest = [] then (True, AList.delete handle t)
               else if \<not> list_ex ri_primary rest then (True, AList.update handle (promote_front rest) t)
               else (True, AList.update handle rest t)))"

definition rm_HasReplica :: "replica_table \<Rightarrow> chunk_handle \<Rightarrow> server_id \<Rightarrow> bool" where
  "rm_HasReplica t handle server =
     (if handle = 0 \<or> server = 0 then False
      else case map_of t handle of
        None \<Rightarrow> False
      | Some replicas \<Rightarrow> list_ex (\<lambda>r. ri_server r = server) replicas)"

definition rm_HasChunk :: "replica_table \<Rightarrow> chunk_handle \<Rightarrow> bool" where
  "rm_HasChunk t handle = (if handle = 0 then False else map_of t handle \<noteq> None)"

definition rm_GetReplicas :: "replica_table \<Rightarrow> chunk_handle \<Rightarrow> replica_info list" where
  "rm_GetReplicas t handle = (case map_of t handle of None \<Rightarrow> [] | Some rs \<Rightarrow> rs)"

definition rm_GetReplicaServers :: "replica_table \<Rightarrow> chunk_handle \<Rightarrow> server_id list" where
  "rm_GetReplicaServers t handle = (case map_of t handle of None \<Rightarrow> [] | Some rs \<Rightarrow> map ri_server rs)"

definition rm_GetPrimary :: "replica_table \<Rightarrow> chunk_handle \<Rightarrow> server_id option" where
  "rm_GetPrimary t handle =
     (case map_of t handle of None \<Rightarrow> None | Some rs \<Rightarrow> map_option ri_server (find ri_primary rs))"

definition rm_SetPrimary :: "replica_table \<Rightarrow> chunk_handle \<Rightarrow> server_id \<Rightarrow> bool \<times> replica_table" where
  "rm_SetPrimary t handle server =
     (if handle = 0 \<or> server = 0 then (False, t)
      else case map_of t handle of
        None \<Rightarrow> (False, t)
      | Some rs \<Rightarrow>
          (list_ex (\<lambda>r. ri_server r = server) rs,
           AList.update handle (map (\<lambda>r. r\<lparr>ri_primary := (ri_server r = server)\<rparr>) rs) t))"

definition rm_ReplicaCount :: "replica_table \<Rightarrow> chunk_handle \<Rightarrow> nat" where
  "rm_ReplicaCount t handle = (case map_of t handle of None \<Rightarrow> 0 | Some rs \<Rightarrow> length rs)"

definition rm_ChunkCount :: "replica_table \<Rightarrow> nat" where
  "rm_ChunkCount t = length t"

definition rm_RemoveChunk :: "replica_table \<Rightarrow> chunk_handle \<Rightarrow> bool \<times> replica_table" where
  "rm_RemoveChunk t handle =
     (if handle = 0 then (False, t) else (map_of t handle \<noteq> None, AList.delete handle t))"

definition rm_GetChunksForServer :: "replica_table \<Rightarrow> server_id \<Rightarrow> chunk_handle list" where
  "rm_GetChunksForServer t server =
     (if server = 0 then []
      else sort (map fst (filter (\<lambda>(h, rs). list_ex (\<lambda>r. ri_server r = server) rs) t)))"

definition rm_GetAllChunks :: "replica_table \<Rightarrow> chunk_handle list" where
  "rm_GetAllChunks t = sort (map fst (filter (\<lambda>(h, rs). rs \<noteq> []) t))"

definition rm_GetReplicaSet :: "replica_table \<Rightarrow> chunk_handle \<Rightarrow> chunk_replica_set" where
  "rm_GetReplicaSet t handle = \<lparr>rs_handle = handle, rs_replicas = rm_GetReplicas t handle\<rparr>"

definition rm_Clear :: "replica_table \<Rightarrow> replica_table" where
  "rm_Clear t = rm_init"

section \<open>Invariant of the replica table\<close>

definition replicas_ok :: "replica_info list \<Rightarrow> bool" where
  "replicas_ok rs \<longleftrightarrow> rs \<noteq> [] \<and> distinct (map ri_server rs) \<and> 0 \<notin> ri_server ` set rs \<and>
     length (filter ri_primary rs) \<le> 1"

definition rm_inv :: "replica_table \<Rightarrow> bool" where
  "rm_inv t \<longleftrightarrow> distinct (map fst t) \<and>
     (\<forall>h rs. map_of t h = Some rs \<longrightarrow> h \<noteq> 0 \<and> replicas_ok rs)"

lemma rm_inv_update: "rm_inv t \<Longrightarrow> h \<noteq> 0 \<Longrightarrow> replicas_ok rs \<Longrightarrow> rm_inv (AList.update h rs t)"
  by (simp add: rm_inv_def)

lemma rm_inv_delete: "rm_inv t \<Longrightarrow> rm_inv (AList.delete h t)"
  by (auto simp: rm_inv_def split: if_splits)

lemma rm_inv_lookup: "rm_inv t \<Longrightarrow> map_of t h = Some rs \<Longrightarrow> h \<noteq> 0 \<and> replicas_ok rs"
  by (simp add: rm_inv_def)

lemma clear_primaries_simps [simp]:
  "map ri_server (clear_primaries rs) = map ri_server rs"
  "ri_server ` set (clear_primaries rs) = ri_server ` set rs"
  "filter ri_primary (clear_primaries rs) = []"
  "clear_primaries rs = [] \<longleftrightarrow> rs = []"
  by (auto simp: clear_primaries_def comp_def image_image filter_empty_conv)

lemma set_one_primary:
  assumes "filter ri_primary rs = []"
  shows "map ri_server (update_first P (\<lambda>r. r\<lparr>ri_primary := True\<rparr>) rs) = map ri_server rs"
    and "length (filter ri_primary (update_first P (\<lambda>r. r\<lparr>ri_primary := True\<rparr>) rs)) \<le> 1"
  using assms by (induction rs) (auto split: if_splits)

lemma replicas_okI:
  "rs \<noteq> [] \<Longrightarrow> map ri_server rs' = map ri_server rs \<Longrightarrow> replicas_ok rs \<Longrightarrow>
    length (filter ri_primary rs') \<le> 1 \<Longrightarrow> replicas_ok rs'"
  by (metis list.set_map map_is_Nil_conv replicas_ok_def)

lemma rm_RegisterReplica_inv [inv_intros]: "rm_inv t \<Longrightarrow> rm_inv (snd (rm_RegisterReplica t h s p))"
proof (cases "map_of t h")
  case None
  then show "rm_inv t \<Longrightarrow> ?thesis"
    by (auto simp: rm_RegisterReplica_def Let_def replicas_ok_def clear_primaries_def intro!: rm_inv_update)
next
  case (Some rs)
  assume inv: "rm_inv t"
  have rs: "h \<noteq> 0" "replicas_ok rs" using rm_inv_lookup [OF inv Some] by auto
  show ?thesis
  proof (cases "find (\<lambda>r. ri_server r = s) rs")
    case None
    then have "s \<notin> ri_server ` set rs" by (auto simp: find_None_set)
    then show ?thesis
      using Some None inv rs
      by (auto simp: rm_RegisterReplica_def replicas_ok_def intro!: rm_inv_update)
  next
    case (Some r)
    have "replicas_ok (update_first (\<lambda>r. ri_server r = s) (\<lambda>r. r\<lparr>ri_primary := True\<rparr>) (clear_primaries rs))"
      by (rule replicas_okI [of rs]) (use rs set_one_primary [of "clear_primaries rs"] in \<open>auto simp: replicas_ok_def\<close>)
    then show ?thesis
      using Some \<open>map_of t h = Some rs\<close> inv rs
      by (auto simp: rm_RegisterReplica_def intro!: rm_inv_update)
  qed
qed

lemma length_filter_erase_first: "length (filter Q (erase_first P xs)) \<le> length (filter Q xs)"
  by (induction xs) auto

lemma promote_front_ok:
  "rs \<noteq> [] \<Longrightarrow> \<not> list_ex ri_primary rs \<Longrightarrow> replicas_ok rs \<Longrightarrow> replicas_ok (promote_front rs)"
  by (cases rs) (auto simp: promote_front_def replicas_ok_def list_ex_iff filter_empty_conv)

lemma rm_RemoveReplica_inv [inv_intros]: "rm_inv t \<Longrightarrow> rm_inv (snd (rm_RemoveReplica t h s))"
proof (cases "map_of t h")
  case (Some rs)
  assume inv: "rm_inv t"
  have rs: "h \<noteq> 0" "replicas_ok rs" using rm_inv_lookup [OF inv Some] by auto
  let ?rest = "erase_first (\<lambda>r. ri_server r = s) rs"
  have "replicas_ok ?rest" if "?rest \<noteq> []"
    using that rs(2) length_filter_erase_first [of ri_primary "\<lambda>r. ri_server r = s" rs]
      set_erase_first_subset [of "\<lambda>r. ri_server r = s" rs]
    by (auto simp: replicas_ok_def intro: distinct_map_erase_first)
  then show ?thesis
    using Some inv rs promote_front_ok [of ?rest]
    by (auto simp: rm_RemoveReplica_def Let_def split: option.splits intro!: rm_inv_update rm_inv_delete)
qed (simp add: rm_RemoveReplica_def)

lemma filter_one_server:
  "distinct (map ri_server rs) \<Longrightarrow>
    length (filter ri_primary (map (\<lambda>r. r\<lparr>ri_primary := (ri_server r = s)\<rparr>) rs)) \<le> 1"
proof (induction rs)
  case (Cons r rs)
  have "filter (ri_primary \<circ> (\<lambda>r. r\<lparr>ri_primary := (ri_server r = s)\<rparr>)) rs = []" if "s \<notin> ri_server ` set rs"
    using that by (auto simp: filter_empty_conv)
  then show ?case using Cons by (auto simp: filter_map)
qed simp

lemma rm_SetPrimary_inv [inv_intros]: "rm_inv t \<Longrightarrow> rm_inv (snd (rm_SetPrimary t h s))"
proof (cases "map_of t h")
  case (Some rs)
  assume inv: "rm_inv t"
  have rs: "h \<noteq> 0" "replicas_ok rs" using rm_inv_lookup [OF inv Some] by auto
  then have "replicas_ok (map (\<lambda>r. r\<lparr>ri_primary := (ri_server r = s)\<rparr>) rs)"
    using filter_one_server [of rs s] by (auto simp: replicas_ok_def comp_def image_image)
  then show ?thesis using Some inv rs by (auto simp: rm_SetPrimary_def intro!: rm_inv_update)
qed (simp add: rm_SetPrimary_def)

lemma rm_RemoveChunk_inv [inv_intros]: "rm_inv t \<Longrightarrow> rm_inv (snd (rm_RemoveChunk t h))"
  by (auto simp: rm_RemoveChunk_def intro: rm_inv_delete)

lemma rm_inv_init: "rm_inv rm_init"
  by (simp add: rm_inv_def rm_init_def)

datatype rm_op =
    RmRegisterReplica chunk_handle server_id bool
  | RmRemoveReplica chunk_handle server_id
  | RmSetPrimary chunk_handle server_id
  | RmRemoveChunk chunk_handle
  | RmClear

fun rm_exec :: "rm_op \<Rightarrow> replica_table \<Rightarrow> bool \<times> replica_table" where
  "rm_exec (RmRegisterReplica h s p) t = rm_RegisterReplica t h s p"
| "rm_exec (RmRemoveReplica h s) t = rm_RemoveReplica t h s"
| "rm_exec (RmSetPrimary h s) t = rm_SetPrimary t h s"
| "rm_exec (RmRemoveChunk h) t = rm_RemoveChunk t h"
| "rm_exec RmClear t = (True, rm_Clear t)"

interpretation replica_table: invariant_system rm_exec rm_init rm_inv
proof
  show "rm_inv rm_init" by (rule rm_inv_init)
  show "rm_inv (snd (rm_exec opr s))" if "rm_inv s" for opr s
    using that by (cases opr) (auto intro: inv_intros simp: rm_Clear_def rm_inv_init)
qed

section \<open>The primary\<close>

lemma GetPrimary_replica:
  "rm_GetPrimary t h = Some s \<Longrightarrow> rm_inv t \<Longrightarrow> rm_HasReplica t h s"
  by (fastforce simp: rm_GetPrimary_def rm_HasReplica_def rm_inv_def replicas_ok_def list_ex_iff
      split: option.splits dest: find_Some_set)

lemma HasReplica_servers: "rm_inv t \<Longrightarrow> rm_HasReplica t h s \<longleftrightarrow> s \<in> set (rm_GetReplicaServers t h)"
  by (auto simp: rm_HasReplica_def rm_GetReplicaServers_def rm_inv_def replicas_ok_def list_ex_iff
      split: option.splits)

lemma find_only_primary:
  "s \<in> ri_server ` set rs \<Longrightarrow>
    map_option ri_server (find ri_primary (map (\<lambda>r. r\<lparr>ri_primary := (ri_server r = s)\<rparr>) rs)) = Some s"
  by (induction rs) auto

lemma SetPrimary_GetPrimary:
  assumes "rm_SetPrimary t h s = (True, t')"
  shows "rm_GetPrimary t' h = Some s"
proof -
  obtain rs where "list_ex (\<lambda>r. ri_server r = s) rs"
      and t': "t' = AList.update h (map (\<lambda>r. r\<lparr>ri_primary := (ri_server r = s)\<rparr>) rs) t"
    using assms by (auto simp: rm_SetPrimary_def split: if_splits option.splits)
  then have "s \<in> ri_server ` set rs" by (auto simp: list_ex_iff)
  then show ?thesis using find_only_primary [of s rs] by (simp add: t' rm_GetPrimary_def)
qed

lemma SetPrimary_other: "g \<noteq> h \<Longrightarrow> map_of (snd (rm_SetPrimary t h s)) g = map_of t g"
  by (auto simp: rm_SetPrimary_def split: option.splits)

lemma SetPrimary_servers [simp]:
  "rm_GetReplicaServers (snd (rm_SetPrimary t h s)) g = rm_GetReplicaServers t g"
  by (auto simp: rm_SetPrimary_def rm_GetReplicaServers_def comp_def split: option.splits)

lemma SetPrimary_not_replica:
  assumes "h \<noteq> 0" and "s \<noteq> 0" and "\<not> rm_HasReplica t h s"
  shows "fst (rm_SetPrimary t h s) = False" and "rm_GetPrimary (snd (rm_SetPrimary t h s)) h = None"
proof -
  have "find ri_primary (map (\<lambda>r. r\<lparr>ri_primary := (ri_server r = s)\<rparr>) rs) = None"
    if "\<not> list_ex (\<lambda>r. ri_server r = s) rs" for rs
    using that by (induction rs) auto
  then show "fst (rm_SetPrimary t h s) = False" and "rm_GetPrimary (snd (rm_SetPrimary t h s)) h = None"
    using assms by (auto simp: rm_SetPrimary_def rm_GetPrimary_def rm_HasReplica_def split: option.splits)
qed

lemma RemoveReplica_servers:
  assumes "rm_inv t" and "rm_RemoveReplica t h s = (True, t')"
  shows "set (rm_GetReplicaServers t' h) = set (rm_GetReplicaServers t h) - {s}"
    and "g \<noteq> h \<Longrightarrow> map_of t' g = map_of t g"
proof -
  obtain rs r where rs: "map_of t h = Some rs" "find (\<lambda>r. ri_server r = s) rs = Some r"
    using assms(2) by (auto simp: rm_RemoveReplica_def split: if_splits option.splits)
  let ?rest = "erase_first (\<lambda>r. ri_server r = s) rs"
  have "distinct (map ri_server xs) \<Longrightarrow>
      ri_server ` set (erase_first (\<lambda>r. ri_server r = s) xs) = ri_server ` set xs - {s}" for xs :: "replica_info list"
    by (induction xs) (auto simp: image_iff)
  then have rest: "ri_server ` set ?rest = ri_server ` set rs - {s}"
    using rm_inv_lookup [OF assms(1) rs(1)] by (simp add: replicas_ok_def)
  have "map ri_server (promote_front xs) = map ri_server xs" for xs
    by (cases xs) (auto simp: promote_front_def)
  then have "ri_server ` set (promote_front ?rest) = ri_server ` set ?rest"
    by (metis list.set_map)
  then show "set (rm_GetReplicaServers t' h) = set (rm_GetReplicaServers t h) - {s}"
    using assms(2) rs rest
    by (auto simp: rm_RemoveReplica_def rm_GetReplicaServers_def Let_def split: if_splits)
  show "g \<noteq> h \<Longrightarrow> map_of t' g = map_of t g"
    using assms(2) rs by (auto simp: rm_RemoveReplica_def Let_def split: if_splits)
qed

text \<open>A removal that leaves replicas leaves a primary among them.\<close>

lemma RemoveReplica_primary:
  assumes "rm_RemoveReplica t h s = (True, t')" and "map_of t' h \<noteq> None"
  shows "rm_GetPrimary t' h \<noteq> None"
proof -
  obtain rs r where rs: "map_of t h = Some rs" "find (\<lambda>r. ri_server r = s) rs = Some r"
    using assms(1) by (auto simp: rm_RemoveReplica_def split: if_splits option.splits)
  let ?rest = "erase_first (\<lambda>r. ri_server r = s) rs"
  have "find ri_primary (promote_front ?rest) \<noteq> None" if "?rest \<noteq> []"
    using that by (cases ?rest) (auto simp: promote_front_def)
  moreover have "find ri_primary ?rest \<noteq> None" if "list_ex ri_primary ?rest"
    using that by (auto simp: find_None_set list_ex_iff)
  ultimately show ?thesis
    using assms rs by (auto simp: rm_RemoveReplica_def rm_GetPrimary_def Let_def split: if_splits)
qed

lemma RegisterReplica_has:
  assumes "h \<noteq> 0" and "s \<noteq> 0"
  shows "rm_HasReplica (snd (rm_RegisterReplica t h s p)) h s"
    and "rm_HasReplica t h' s' \<Longrightarrow> rm_HasReplica (snd (rm_RegisterReplica t h s p)) h' s'"
    and "fst (rm_RegisterReplica t h s p) \<longleftrightarrow> \<not> rm_HasReplica t h s"
proof -
  obtain rs where rs: "rs = (case map_of t h of None \<Rightarrow> [] | Some rs \<Rightarrow> rs)" by simp
  have has: "rm_HasReplica t h x \<longleftrightarrow> x \<noteq> 0 \<and> x \<in> ri_server ` set rs" for x
    using assms(1) by (auto simp: rm_HasReplica_def list_ex_iff rs split: option.splits)
  have upd: "ri_server ` set (update_first (\<lambda>r. ri_server r = s) (\<lambda>r. r\<lparr>ri_primary := True\<rparr>) xs) = ri_server ` set xs" for xs :: "replica_info list"
    by (induction xs) auto
  have "\<exists>rs'. snd (rm_RegisterReplica t h s p) = AList.update h rs' t \<and>
      ri_server ` set rs' = insert s (ri_server ` set rs)"
  proof (cases "find (\<lambda>r. ri_server r = s) rs")
    case None
    then show ?thesis using assms
      by (intro exI [of _ "(if p then clear_primaries rs else rs) @ [\<lparr>ri_server = s, ri_primary = p\<rparr>]"])
        (auto simp: rm_RegisterReplica_def Let_def rs [symmetric])
  next
    case (Some r)
    then have "s \<in> ri_server ` set rs" by (auto dest!: find_Some_set)
    then show ?thesis
      using Some assms upd [of "clear_primaries rs"] by (auto simp: rm_RegisterReplica_def Let_def insert_absorb rs [symmetric])
  qed
  then obtain rs' where new: "snd (rm_RegisterReplica t h s p) = AList.update h rs' t"
      "ri_server ` set rs' = insert s (ri_server ` set rs)" by blast
  have "s \<in> ri_server ` set rs'" using new(2) by simp
  then show "rm_HasReplica (snd (rm_RegisterReplica t h s p)) h s"
    using assms new(1) by (auto simp: rm_HasReplica_def list_ex_iff)
  show "rm_HasReplica t h' s' \<Longrightarrow> rm_HasReplica (snd (rm_RegisterReplica t h s p)) h' s'"
  proof (cases "h' = h")
    case True
    assume "rm_HasReplica t h' s'"
    then have "s' \<noteq> 0" and "s' \<in> ri_server ` set rs'" using has True new(2) by auto
    then show ?thesis using assms(1) new(1) True by (auto simp: rm_HasReplica_def list_ex_iff)
  qed (use new(1) in \<open>auto simp: rm_HasReplica_def\<close>)
  have "find (\<lambda>r. ri_server r = s) rs = None \<longleftrightarrow> s \<notin> ri_server ` set rs"
    by (auto simp: find_None_set)
  then show "fst (rm_RegisterReplica t h s p) \<longleftrightarrow> \<not> rm_HasReplica t h s"
    using assms has by (cases "find (\<lambda>r. ri_server r = s) rs") (auto simp: rm_RegisterReplica_def Let_def rs [symmetric])
qed

section \<open>Placement policy\<close>

record placement_candidate =
  pl_server :: server_id
  pl_chunk_count :: nat

record placement_request =
  pr_handle :: chunk_handle
  pr_replication_factor :: nat
  pr_candidates :: "placement_candidate list"

definition PlacementPolicy :: "nat \<Rightarrow> nat" where
  "PlacementPolicy replication_factor =
     (if replication_factor = 0 then unat kDefaultReplicationFactor else replication_factor)"

fun valid_servers_loop :: "server_id list \<Rightarrow> server_id set \<Rightarrow> bool" where
  "valid_servers_loop [] unique = True"
| "valid_servers_loop (s # servers) unique =
     (if s = 0 \<or> s \<in> unique then False else valid_servers_loop servers (insert s unique))"

definition IsValidPlacement :: "server_id list \<Rightarrow> nat \<Rightarrow> bool" where
  "IsValidPlacement servers replication_factor =
     (if replication_factor = 0 \<or> length servers \<noteq> replication_factor then False
      else valid_servers_loop servers {})"

fun select_loop ::
    "nat \<Rightarrow> placement_candidate list \<Rightarrow> server_id set \<Rightarrow> server_id list \<Rightarrow> server_id list" where
  "select_loop factor [] seen selected = selected"
| "select_loop factor (c # cs) seen selected =
     (if pl_server c = 0 then select_loop factor cs seen selected
      else if pl_server c \<in> seen then select_loop factor cs seen selected
      else
        let selected' = selected @ [pl_server c] in
        if length selected' = factor then selected'
        else select_loop factor cs (insert (pl_server c) seen) selected')"

text \<open>The first argument is the member \<open>replication_factor_\<close> of the policy.\<close>

definition SelectReplicas :: "nat \<Rightarrow> placement_request \<Rightarrow> server_id list" where
  "SelectReplicas policy_factor request =
     (let factor = (if pr_replication_factor request = 0 then policy_factor else pr_replication_factor request) in
      if factor = 0 then []
      else
        let candidates = sort_key (\<lambda>c. (pl_chunk_count c, pl_server c)) (pr_candidates request);
            selected = select_loop factor candidates {} [] in
        if \<not> IsValidPlacement selected factor then [] else selected)"

definition SelectReplicasFor :: "nat \<Rightarrow> chunk_handle \<Rightarrow> placement_candidate list \<Rightarrow> server_id list" where
  "SelectReplicasFor policy_factor handle candidates =
     SelectReplicas policy_factor
       \<lparr>pr_handle = handle, pr_replication_factor = policy_factor, pr_candidates = candidates\<rparr>"

lemma valid_servers_loop_iff:
  "valid_servers_loop servers unique \<longleftrightarrow> distinct servers \<and> 0 \<notin> set servers \<and> set servers \<inter> unique = {}"
  by (induction servers unique rule: valid_servers_loop.induct) auto

lemma IsValidPlacement_iff:
  "IsValidPlacement servers n \<longleftrightarrow> 0 < n \<and> length servers = n \<and> distinct servers \<and> 0 \<notin> set servers"
  by (auto simp: IsValidPlacement_def valid_servers_loop_iff)

text \<open>The first occurrences of the usable servers of a candidate list, in its order.\<close>

fun first_servers :: "placement_candidate list \<Rightarrow> server_id set \<Rightarrow> server_id list" where
  "first_servers [] seen = []"
| "first_servers (c # cs) seen =
     (if pl_server c = 0 \<or> pl_server c \<in> seen then first_servers cs seen
      else pl_server c # first_servers cs (insert (pl_server c) seen))"

lemma select_loop_eq:
  "length selected < factor \<Longrightarrow>
    select_loop factor cs seen selected = selected @ take (factor - length selected) (first_servers cs seen)"
proof (induction factor cs seen selected rule: select_loop.induct)
  case (2 factor c cs seen selected)
  show ?case
  proof (cases "pl_server c = 0 \<or> pl_server c \<in> seen")
    case False
    obtain k where k: "factor - length selected = Suc k" using 2(4) by (cases "factor - length selected") auto
    have k': "k = factor - Suc (length selected)" using k by simp
    show ?thesis
    proof (cases "length selected + 1 = factor")
      case True
      then have "k = 0" using k by simp
      then show ?thesis using False True k by simp
    next
      case neq: False
      then have "select_loop factor cs (insert (pl_server c) seen) (selected @ [pl_server c]) =
          (selected @ [pl_server c]) @ take k (first_servers cs (insert (pl_server c) seen))"
        using 2(3) [OF _ _ refl] False 2(4) by (simp add: k')
      then show ?thesis using False neq k by simp
    qed
  qed (use 2 in auto)
qed simp

lemma first_servers_props:
  "distinct (first_servers cs seen)"
  "set (first_servers cs seen) = pl_server ` set cs - insert 0 seen"
  by (induction cs seen rule: first_servers.induct) auto

lemma first_servers_zero: "first_servers cs (insert 0 seen) = first_servers cs seen"
  by (induction cs arbitrary: seen) (auto simp: insert_commute)

lemma first_servers_prefix:
  "first_servers (cs @ ds) seen = first_servers cs seen @ first_servers ds (seen \<union> pl_server ` set cs)"
  by (induction cs seen rule: first_servers.induct) (auto simp: insert_absorb first_servers_zero)

definition request_factor :: "nat \<Rightarrow> placement_request \<Rightarrow> nat" where
  "request_factor policy_factor request =
     (if pr_replication_factor request = 0 then policy_factor else pr_replication_factor request)"

definition sorted_candidates :: "placement_request \<Rightarrow> placement_candidate list" where
  "sorted_candidates request = sort_key (\<lambda>c. (pl_chunk_count c, pl_server c)) (pr_candidates request)"

definition usable_servers :: "placement_request \<Rightarrow> server_id set" where
  "usable_servers request = pl_server ` set (pr_candidates request) - {0}"

lemma SelectReplicas_eq:
  "SelectReplicas n request =
    (let k = request_factor n request; s = first_servers (sorted_candidates request) {} in
     if 0 < k \<and> k \<le> length s then take k s else [])"
proof -
  let ?k = "request_factor n request" and ?s = "first_servers (sorted_candidates request) {}"
  have "IsValidPlacement (take ?k ?s) ?k \<longleftrightarrow> 0 < ?k \<and> ?k \<le> length ?s"
    using first_servers_props [of "sorted_candidates request" "{}"]
    by (auto simp: IsValidPlacement_iff min_def dest: in_set_takeD)
  then show ?thesis
    using select_loop_eq [of "[]" ?k "sorted_candidates request" "{}"]
    by (cases "?k = 0"; cases "?k \<le> length ?s")
      (simp_all add: SelectReplicas_def request_factor_def [symmetric] sorted_candidates_def [symmetric]
        Let_def IsValidPlacement_def)
qed

lemma length_first_servers: "length (first_servers (sorted_candidates request) {}) = card (usable_servers request)"
  using first_servers_props [of "sorted_candidates request" "{}"]
  by (metis distinct_card sorted_candidates_def set_sort usable_servers_def)

text \<open>
  Where a candidate is chosen and another server is not, some entry of the chosen server comes
  first in the order of load, ties by server id.
\<close>

lemma first_servers_before:
  assumes "take k (first_servers cs {}) = sel" and "s \<in> set sel" and "c \<in> set cs"
    and "pl_server c \<noteq> 0" and "pl_server c \<notin> set sel" and "sorted (map key cs)"
  shows "\<exists>d \<in> set cs. pl_server d = s \<and> key d \<le> key c"
proof -
  obtain cs1 cs2 where cs: "cs = cs1 @ c # cs2" using assms(3) by (meson split_list)
  let ?f1 = "first_servers cs1 {}"
  have "s \<in> set ?f1"
  proof (rule ccontr)
    assume s: "s \<notin> set ?f1"
    have "first_servers cs {} = ?f1 @ first_servers (c # cs2) (pl_server ` set cs1)"
      by (simp add: cs first_servers_prefix)
    then have "sel = take k ?f1 @ take (k - length ?f1) (first_servers (c # cs2) (pl_server ` set cs1))"
      using assms(1) by simp
    moreover have "length ?f1 < k"
    proof (rule ccontr)
      assume "\<not> length ?f1 < k"
      then have "sel = take k ?f1" using calculation by simp
      then show False using assms(2) s by (auto dest: in_set_takeD)
    qed
    ultimately have sel: "sel = ?f1 @ take (k - length ?f1) (first_servers (c # cs2) (pl_server ` set cs1))"
      by simp
    then have "pl_server c \<notin> set ?f1" using assms(5) by auto
    then have "pl_server c \<notin> pl_server ` set cs1"
      using first_servers_props(2) [of cs1 "{}"] assms(4) by simp
    then have "pl_server c \<in> set sel"
      using sel assms(4) \<open>length ?f1 < k\<close> by (cases "k - length ?f1") auto
    then show False using assms(5) by simp
  qed
  then obtain d where d: "d \<in> set cs1" "pl_server d = s"
    using first_servers_props(2) [of cs1 "{}"] by auto
  moreover have "key d \<le> key c" using assms(6) d(1) by (auto simp: cs sorted_append)
  ultimately show ?thesis by (auto simp: cs)
qed

section \<open>Properties\<close>

text \<open>In every state that any sequence of replica operations reaches, a chunk that is listed has at
  least one replica, its servers are distinct and non-zero, and at most one replica is marked
  primary; the primary the manager names holds a replica.\<close>
lemma reachable_replica_table_ok:
  assumes "replica_table.reachable t"
  shows "(map_of t h = Some rs \<longrightarrow> h \<noteq> 0 \<and> replicas_ok rs) \<and> (rm_GetPrimary t h = Some s \<longrightarrow> rm_HasReplica t h s)"
  using rm_inv_lookup [OF replica_table.reachable_inv [OF assms]] GetPrimary_replica
    replica_table.reachable_inv [OF assms] by blast

definition sample_table :: replica_table where
  "sample_table = snd (rm_exec (RmRegisterReplica 7 2 False) (snd (rm_exec (RmRegisterReplica 7 1 True) rm_init)))"

lemma sample_table_reachable: "replica_table.reachable sample_table"
  unfolding sample_table_def by (intro replica_table.reachable.intros)

lemma sample_table_eq:
  "sample_table = [(7, [\<lparr>ri_server = 1, ri_primary = True\<rparr>, \<lparr>ri_server = 2, ri_primary = False\<rparr>])]"
  by code_simp

text \<open>Removing a replica takes exactly that server out of the chunk's servers and touches no other
  chunk; a chunk whose last replica goes is no longer listed, and a chunk that keeps replicas has
  a primary afterwards, whichever replica was removed.\<close>
lemma remove_replica_keeps_primary:
  assumes "rm_inv t" and "rm_HasReplica t h s"
  shows "\<exists>t'. rm_RemoveReplica t h s = (True, t') \<and>
    set (rm_GetReplicaServers t' h) = set (rm_GetReplicaServers t h) - {s} \<and>
    (rm_HasChunk t' h \<longleftrightarrow> set (rm_GetReplicaServers t h) \<noteq> {s}) \<and>
    (rm_HasChunk t' h \<longrightarrow> rm_GetPrimary t' h \<noteq> None) \<and> (g \<noteq> h \<longrightarrow> map_of t' g = map_of t g)"
proof -
  obtain rs where rs: "map_of t h = Some rs" and "h \<noteq> 0" and s: "s \<noteq> 0" "list_ex (\<lambda>r. ri_server r = s) rs"
    using assms(2) by (auto simp: rm_HasReplica_def split: if_splits option.splits)
  then obtain r where "find (\<lambda>r. ri_server r = s) rs = Some r"
    by (metis find_None_set list_ex_iff not_Some_eq)
  then have "fst (rm_RemoveReplica t h s)"
    using rs \<open>h \<noteq> 0\<close> s by (simp add: rm_RemoveReplica_def Let_def)
  then obtain t' where t': "rm_RemoveReplica t h s = (True, t')" by (metis prod.collapse)
  have inv: "rm_inv t'" using rm_RemoveReplica_inv [OF assms(1), of h s] t' by simp
  have "s \<in> set (rm_GetReplicaServers t h)" using assms HasReplica_servers by blast
  moreover have "rm_HasChunk t' h \<longleftrightarrow> set (rm_GetReplicaServers t' h) \<noteq> {}"
    using \<open>h \<noteq> 0\<close> rm_inv_lookup [OF inv, of h]
    by (cases "map_of t' h") (auto simp: rm_HasChunk_def rm_GetReplicaServers_def replicas_ok_def)
  moreover have "rm_GetPrimary t' h \<noteq> None" if "rm_HasChunk t' h"
    using RemoveReplica_primary [OF t'] that by (simp add: rm_HasChunk_def split: if_splits)
  ultimately show ?thesis
    using t' RemoveReplica_servers [OF assms(1) t'] by auto
qed

text \<open>\<open>SetPrimary\<close> succeeds exactly when the server holds a replica, and then that server is the
  primary. Called with any other server it returns false, yet the chunk has no primary
  afterwards. The servers of a chunk, and other chunks, never change.\<close>
lemma set_primary_result:
  assumes "h \<noteq> 0" and "s \<noteq> 0"
  shows "(fst (rm_SetPrimary t h s) \<longleftrightarrow> rm_HasReplica t h s) \<and>
    rm_GetPrimary (snd (rm_SetPrimary t h s)) h = (if rm_HasReplica t h s then Some s else None) \<and>
    rm_GetReplicaServers (snd (rm_SetPrimary t h s)) g = rm_GetReplicaServers t g \<and>
    (g \<noteq> h \<longrightarrow> map_of (snd (rm_SetPrimary t h s)) g = map_of t g)"
proof (cases "rm_HasReplica t h s")
  case True
  then have "fst (rm_SetPrimary t h s)"
    using assms by (auto simp: rm_HasReplica_def rm_SetPrimary_def split: option.splits)
  then have "rm_GetPrimary (snd (rm_SetPrimary t h s)) h = Some s"
    by (intro SetPrimary_GetPrimary [of t h s]) (simp add: prod_eq_iff)
  then show ?thesis using True \<open>fst (rm_SetPrimary t h s)\<close> SetPrimary_other [of g h t s] by simp
next
  case False
  then show ?thesis using SetPrimary_not_replica [OF assms False] SetPrimary_other [of g h t s] by simp
qed

text \<open>The placement policy returns nothing exactly when the factor is 0 or fewer distinct non-zero
  servers are offered than the factor. Otherwise it returns exactly that many distinct non-zero
  candidates, and a candidate it leaves out is no less loaded than any it chose.\<close>
lemma placement_least_loaded:
  fixes n request
  defines "k \<equiv> request_factor n request" and "sel \<equiv> SelectReplicas n request"
  shows "(sel = [] \<longleftrightarrow> k = 0 \<or> card (usable_servers request) < k) \<and>
    (sel \<noteq> [] \<longrightarrow> length sel = k \<and> distinct sel \<and> set sel \<subseteq> usable_servers request) \<and>
    (s \<in> set sel \<longrightarrow> c \<in> set (pr_candidates request) \<longrightarrow> pl_server c \<noteq> 0 \<longrightarrow> pl_server c \<notin> set sel \<longrightarrow>
      (\<exists>d \<in> set (pr_candidates request). pl_server d = s \<and> pl_chunk_count d \<le> pl_chunk_count c))"
proof -
  let ?cs = "sorted_candidates request"
  let ?f = "first_servers ?cs {}"
  have sel: "sel = (if 0 < k \<and> k \<le> length ?f then take k ?f else [])"
    by (simp add: sel_def k_def SelectReplicas_eq Let_def)
  have len: "length ?f = card (usable_servers request)" by (rule length_first_servers)
  have set_cs: "set ?cs = set (pr_candidates request)" by (simp add: sorted_candidates_def)
  have f: "distinct ?f" "set ?f = usable_servers request"
    using first_servers_props [of ?cs "{}"] by (simp_all add: usable_servers_def set_cs)
  have empty: "sel = [] \<longleftrightarrow> k = 0 \<or> card (usable_servers request) < k"
    using len by (auto simp: sel)
  moreover have "length sel = k \<and> distinct sel \<and> set sel \<subseteq> usable_servers request" if "sel \<noteq> []"
    using that f by (auto simp: sel dest: in_set_takeD split: if_splits)
  moreover have "\<exists>d \<in> set (pr_candidates request). pl_server d = s \<and> pl_chunk_count d \<le> pl_chunk_count c"
    if prems: "s \<in> set sel" "c \<in> set (pr_candidates request)" "pl_server c \<noteq> 0" "pl_server c \<notin> set sel"
  proof -
    have "take k ?f = sel" using prems(1) by (auto simp: sel split: if_splits)
    moreover have "sorted (map (\<lambda>c. (pl_chunk_count c, pl_server c)) ?cs)" by (simp add: sorted_candidates_def)
    ultimately obtain d where "d \<in> set ?cs" "pl_server d = s"
        "(pl_chunk_count d, pl_server d) \<le> (pl_chunk_count c, pl_server c)"
      using first_servers_before [of k ?cs sel s c] prems set_cs by blast
    then show ?thesis by (auto simp: set_cs intro!: bexI [of _ d])
  qed
  ultimately show ?thesis by blast
qed

end
