(* ===== verification/Leases.thy ===== *)
theory Leases
  imports Replicas
begin

text \<open>
  \<open>src/master/lease/lease.cpp\<close> and \<open>lease_manager.cpp\<close>. The clock (\<open>UnixTimeMillis\<close>) and the
  replica manager the lease manager refers to are arguments of the operations that read them.

  The lease manager relies on the replica manager for one thing, that a chunk has one primary
  and that it holds a replica; the locale \<open>primary_source\<close> states it. The main lemma is that
  a lease excludes: while it has not expired and nobody releases it, no other lease of the
  chunk is granted, whatever other operations run in between.
\<close>

section \<open>The source of primaries\<close>

locale primary_source =
  fixes get_primary :: "'r \<Rightarrow> chunk_handle \<Rightarrow> server_id option"
    and has_replica :: "'r \<Rightarrow> chunk_handle \<Rightarrow> server_id \<Rightarrow> bool"
    and source_inv :: "'r \<Rightarrow> bool"
  assumes primary_has_replica: "source_inv r \<Longrightarrow> get_primary r h = Some s \<Longrightarrow> has_replica r h s"
    and replica_nonzero: "has_replica r h s \<Longrightarrow> h \<noteq> 0 \<and> s \<noteq> 0"
begin

definition current :: "'r \<Rightarrow> chunk_handle \<Rightarrow> server_id \<Rightarrow> bool" where
  "current r h s \<longleftrightarrow>
     (if h = 0 \<or> s = 0 then False else get_primary r h = Some s \<and> has_replica r h s)"

lemma current_unique: "current r h s \<Longrightarrow> current r h s' \<Longrightarrow> s = s'"
  by (auto simp: current_def split: if_splits)

lemma current_iff: "source_inv r \<Longrightarrow> current r h s \<longleftrightarrow> get_primary r h = Some s"
proof -
  assume "source_inv r"
  then have "has_replica r h s \<and> h \<noteq> 0 \<and> s \<noteq> 0" if "get_primary r h = Some s"
    using that primary_has_replica replica_nonzero by blast
  then show ?thesis by (auto simp: current_def)
qed

end

interpretation replicas: primary_source rm_GetPrimary rm_HasReplica rm_inv
proof
  show "rm_HasReplica r h s" if "rm_inv r" and "rm_GetPrimary r h = Some s" for r h s
    using GetPrimary_replica that by blast
  show "h \<noteq> 0 \<and> s \<noteq> 0" if "rm_HasReplica r h s" for r h s
    using that by (auto simp: rm_HasReplica_def split: if_splits)
qed

section \<open>Leases\<close>

record lease =
  lz_chunk_handle :: chunk_handle
  lz_primary_server_id :: server_id
  lz_version :: chunk_version
  lz_expiration_time_ms :: time_ms

definition IsExpired :: "lease \<Rightarrow> time_ms \<Rightarrow> bool" where
  "IsExpired l now \<longleftrightarrow> lz_expiration_time_ms l = 0 \<or> lz_expiration_time_ms l \<le> now"

definition IsValid :: "lease \<Rightarrow> time_ms \<Rightarrow> bool" where
  "IsValid l now \<longleftrightarrow> lz_chunk_handle l \<noteq> 0 \<and> lz_primary_server_id l \<noteq> 0 \<and> lz_version l \<noteq> 0 \<and>
     lz_expiration_time_ms l \<noteq> 0 \<and> now < lz_expiration_time_ms l"

definition RemainingTimeMs :: "lease \<Rightarrow> time_ms \<Rightarrow> time_ms" where
  "RemainingTimeMs l now = (if IsExpired l now then 0 else lz_expiration_time_ms l - now)"

record lease_manager =
  lm_leases :: "(chunk_handle \<times> lease) list"
  lm_duration :: time_ms

definition lm_init :: lease_manager where
  "lm_init = \<lparr>lm_leases = [], lm_duration = 60000\<rparr>"

definition lm_SetLeaseDurationMs :: "lease_manager \<Rightarrow> time_ms \<Rightarrow> lease_manager" where
  "lm_SetLeaseDurationMs lm d = lm\<lparr>lm_duration := d\<rparr>"

definition IsCurrentPrimary :: "replica_table \<Rightarrow> chunk_handle \<Rightarrow> server_id \<Rightarrow> bool" where
  "IsCurrentPrimary t handle server =
     (if handle = 0 \<or> server = 0 then False
      else case rm_GetPrimary t handle of
        None \<Rightarrow> False
      | Some primary \<Rightarrow> primary = server \<and> rm_HasReplica t handle server)"

definition lm_AcquireLease ::
    "lease_manager \<Rightarrow> replica_table \<Rightarrow> time_ms \<Rightarrow> chunk_handle \<Rightarrow> server_id \<Rightarrow> chunk_version \<Rightarrow>
      lease option \<times> lease_manager" where
  "lm_AcquireLease lm t now handle server version =
     (if handle = 0 \<or> server = 0 \<or> version = 0 then (None, lm)
      else if \<not> IsCurrentPrimary t handle server then (None, lm)
      else
        case (case map_of (lm_leases lm) handle of
                None \<Rightarrow> Some lm
              | Some existing \<Rightarrow>
                  if IsValid existing now then None
                  else Some (lm\<lparr>lm_leases := AList.delete handle (lm_leases lm)\<rparr>)) of
          None \<Rightarrow> (None, lm)
        | Some lm1 \<Rightarrow>
            if lm_duration lm1 = 0 then (None, lm1)
            else
              let l = \<lparr>lz_chunk_handle = handle, lz_primary_server_id = server, lz_version = version,
                       lz_expiration_time_ms = sat_add now (lm_duration lm1)\<rparr> in
              (Some l, lm1\<lparr>lm_leases := AList.update handle l (lm_leases lm1)\<rparr>))"

definition lm_GetLease :: "lease_manager \<Rightarrow> chunk_handle \<Rightarrow> lease option" where
  "lm_GetLease lm handle = (if handle = 0 then None else map_of (lm_leases lm) handle)"

definition lm_HasLease :: "lease_manager \<Rightarrow> chunk_handle \<Rightarrow> bool" where
  "lm_HasLease lm handle \<longleftrightarrow> lm_GetLease lm handle \<noteq> None"

definition lm_IsLeaseValid :: "lease_manager \<Rightarrow> replica_table \<Rightarrow> time_ms \<Rightarrow> chunk_handle \<Rightarrow> bool" where
  "lm_IsLeaseValid lm t now handle =
     (case lm_GetLease lm handle of
        None \<Rightarrow> False
      | Some l \<Rightarrow> IsValid l now \<and> IsCurrentPrimary t handle (lz_primary_server_id l))"

definition lm_IsLeaseValidFor ::
    "lease_manager \<Rightarrow> replica_table \<Rightarrow> time_ms \<Rightarrow> chunk_handle \<Rightarrow> server_id \<Rightarrow> bool" where
  "lm_IsLeaseValidFor lm t now handle server =
     (if server = 0 then False
      else case lm_GetLease lm handle of
        None \<Rightarrow> False
      | Some l \<Rightarrow> lz_primary_server_id l = server \<and> IsValid l now \<and> IsCurrentPrimary t handle server)"

definition lm_ExtendLease ::
    "lease_manager \<Rightarrow> replica_table \<Rightarrow> time_ms \<Rightarrow> chunk_handle \<Rightarrow> server_id \<Rightarrow> time_ms \<Rightarrow> bool \<times> lease_manager" where
  "lm_ExtendLease lm t now handle server extension =
     (if handle = 0 \<or> server = 0 \<or> extension = 0 then (False, lm)
      else if \<not> IsCurrentPrimary t handle server then (False, lm)
      else case map_of (lm_leases lm) handle of
        None \<Rightarrow> (False, lm)
      | Some l \<Rightarrow>
          if \<not> IsValid l now \<or> lz_primary_server_id l \<noteq> server then (False, lm)
          else
            let base = (if now < lz_expiration_time_ms l then lz_expiration_time_ms l else now) in
            (True, lm\<lparr>lm_leases := AList.update handle
               (l\<lparr>lz_expiration_time_ms := sat_add base extension\<rparr>) (lm_leases lm)\<rparr>))"

definition lm_ExtendLeaseDefault ::
    "lease_manager \<Rightarrow> replica_table \<Rightarrow> time_ms \<Rightarrow> chunk_handle \<Rightarrow> server_id \<Rightarrow> bool \<times> lease_manager" where
  "lm_ExtendLeaseDefault lm t now handle server = lm_ExtendLease lm t now handle server (lm_duration lm)"

definition lm_ReleaseLease :: "lease_manager \<Rightarrow> chunk_handle \<Rightarrow> bool \<times> lease_manager" where
  "lm_ReleaseLease lm handle =
     (if handle = 0 then (False, lm)
      else (map_of (lm_leases lm) handle \<noteq> None, lm\<lparr>lm_leases := AList.delete handle (lm_leases lm)\<rparr>))"

definition lm_LeaseCount :: "lease_manager \<Rightarrow> nat" where
  "lm_LeaseCount lm = length (lm_leases lm)"

definition lm_RemoveExpiredLeases :: "lease_manager \<Rightarrow> time_ms \<Rightarrow> nat \<times> lease_manager" where
  "lm_RemoveExpiredLeases lm now =
     (length (filter (\<lambda>(h, l). IsExpired l now) (lm_leases lm)),
      lm\<lparr>lm_leases := filter (\<lambda>(h, l). \<not> IsExpired l now) (lm_leases lm)\<rparr>)"

definition lm_Clear :: "lease_manager \<Rightarrow> lease_manager" where
  "lm_Clear lm = lm\<lparr>lm_leases := []\<rparr>"

section \<open>Invariant\<close>

definition lease_ok :: "chunk_handle \<Rightarrow> lease \<Rightarrow> bool" where
  "lease_ok h l \<longleftrightarrow> lz_chunk_handle l = h \<and> h \<noteq> 0 \<and> lz_primary_server_id l \<noteq> 0 \<and> lz_version l \<noteq> 0 \<and>
     lz_expiration_time_ms l \<noteq> 0"

definition lm_inv :: "lease_manager \<Rightarrow> bool" where
  "lm_inv lm \<longleftrightarrow> distinct (map fst (lm_leases lm)) \<and>
     (\<forall>h l. map_of (lm_leases lm) h = Some l \<longrightarrow> lease_ok h l)"

lemma lease_ok_valid: "lease_ok h l \<Longrightarrow> IsValid l now \<longleftrightarrow> \<not> IsExpired l now"
  by (auto simp: lease_ok_def IsValid_def IsExpired_def)

lemma sat_add_nonzero: "d \<noteq> 0 \<Longrightarrow> sat_add n d \<noteq> 0"
  using unat_sat_add [of n d] by (auto simp: unat_gt_0 [symmetric] simp del: unat_gt_0)

lemma IsCurrentPrimary_current: "IsCurrentPrimary t h s = replicas.current t h s"
  by (auto simp: IsCurrentPrimary_def replicas.current_def split: option.splits)

lemma AcquireLease_Some:
  "lm_AcquireLease lm t now h s v = (Some l, lm') \<longleftrightarrow>
    h \<noteq> 0 \<and> s \<noteq> 0 \<and> v \<noteq> 0 \<and> IsCurrentPrimary t h s \<and> lm_duration lm \<noteq> 0 \<and>
    (\<forall>e. map_of (lm_leases lm) h = Some e \<longrightarrow> \<not> IsValid e now) \<and>
    l = \<lparr>lz_chunk_handle = h, lz_primary_server_id = s, lz_version = v,
         lz_expiration_time_ms = sat_add now (lm_duration lm)\<rparr> \<and>
    lm' = lm\<lparr>lm_leases := AList.update h l
      (case map_of (lm_leases lm) h of None \<Rightarrow> lm_leases lm | Some _ \<Rightarrow> AList.delete h (lm_leases lm))\<rparr>"
  by (auto simp: lm_AcquireLease_def Let_def split: option.splits)

lemma AcquireLease_lookup:
  assumes "lm_AcquireLease lm t now h s v = (r, lm')"
  shows "map_of (lm_leases lm') g =
    (if g = h \<and> r \<noteq> None then r
     else if g = h \<and> (\<exists>e. map_of (lm_leases lm) h = Some e \<and> \<not> IsValid e now) \<and> h \<noteq> 0 \<and> s \<noteq> 0 \<and> v \<noteq> 0 \<and>
       IsCurrentPrimary t h s then None
     else map_of (lm_leases lm) g)"
  using assms by (auto simp: lm_AcquireLease_def Let_def split: option.splits if_splits)

lemma lm_inv_delete: "lm_inv lm \<Longrightarrow> lm_inv (lm\<lparr>lm_leases := AList.delete h (lm_leases lm)\<rparr>)"
  by (auto simp: lm_inv_def split: if_splits)

lemma lm_inv_update:
  "lm_inv lm \<Longrightarrow> lease_ok h l \<Longrightarrow> lm_inv (lm\<lparr>lm_leases := AList.update h l (lm_leases lm)\<rparr>)"
  by (simp add: lm_inv_def)

lemma lm_AcquireLease_inv [inv_intros]: "lm_inv lm \<Longrightarrow> lm_inv (snd (lm_AcquireLease lm t now h s v))"
  using lm_inv_update [OF lm_inv_delete, of lm h]
  by (auto simp: lm_AcquireLease_def Let_def lease_ok_def sat_add_nonzero split: option.splits
      intro!: lm_inv_update lm_inv_delete)

lemma lm_ExtendLease_inv [inv_intros]: "lm_inv lm \<Longrightarrow> lm_inv (snd (lm_ExtendLease lm t now h s d))"
proof (cases "map_of (lm_leases lm) h")
  case (Some l)
  assume inv: "lm_inv lm"
  then have "lease_ok h l" using Some by (simp add: lm_inv_def)
  then show ?thesis
    using inv Some by (auto simp: lm_ExtendLease_def Let_def lease_ok_def sat_add_nonzero intro!: lm_inv_update)
qed (simp add: lm_ExtendLease_def)

lemma lm_ReleaseLease_inv [inv_intros]: "lm_inv lm \<Longrightarrow> lm_inv (snd (lm_ReleaseLease lm h))"
  by (auto simp: lm_ReleaseLease_def intro: lm_inv_delete)

lemma map_of_filter_values:
  "distinct (map fst al) \<Longrightarrow>
    map_of (filter (\<lambda>(k, v). P v) al) k = (case map_of al k of None \<Rightarrow> None | Some v \<Rightarrow> if P v then Some v else None)"
  by (induction al) (auto simp: map_of_eq_None_iff split: option.splits dest: map_of_SomeD)

lemma distinct_filter_keys: "distinct (map fst al) \<Longrightarrow> distinct (map fst (filter P al))"
  by (induction al) auto

lemma lm_RemoveExpiredLeases_inv [inv_intros]: "lm_inv lm \<Longrightarrow> lm_inv (snd (lm_RemoveExpiredLeases lm now))"
  by (auto simp: lm_RemoveExpiredLeases_def lm_inv_def map_of_filter_values distinct_filter_keys
      split: option.splits if_splits)

lemma lm_other_inv [simp]:
  "lm_inv (lm_SetLeaseDurationMs lm d) = lm_inv lm" "lm_inv (lm_Clear lm)"
  by (auto simp: lm_SetLeaseDurationMs_def lm_Clear_def lm_inv_def)

datatype lm_op =
    LmAcquire replica_table time_ms chunk_handle server_id chunk_version
  | LmExtend replica_table time_ms chunk_handle server_id time_ms
  | LmRelease chunk_handle
  | LmRemoveExpired time_ms
  | LmSetDuration time_ms
  | LmClear

fun lm_exec :: "lm_op \<Rightarrow> lease_manager \<Rightarrow> bool \<times> lease_manager" where
  "lm_exec (LmAcquire t now h s v) lm = apfst (\<lambda>r. r \<noteq> None) (lm_AcquireLease lm t now h s v)"
| "lm_exec (LmExtend t now h s d) lm = lm_ExtendLease lm t now h s d"
| "lm_exec (LmRelease h) lm = lm_ReleaseLease lm h"
| "lm_exec (LmRemoveExpired now) lm = apfst (\<lambda>n. 0 < n) (lm_RemoveExpiredLeases lm now)"
| "lm_exec (LmSetDuration d) lm = (True, lm_SetLeaseDurationMs lm d)"
| "lm_exec LmClear lm = (True, lm_Clear lm)"

interpretation leases: invariant_system lm_exec lm_init lm_inv
proof
  show "lm_inv lm_init" by (simp add: lm_inv_def lm_init_def)
  show "lm_inv (snd (lm_exec opr s))" if "lm_inv s" for opr s
    using that lm_AcquireLease_inv lm_RemoveExpiredLeases_inv
    by (cases opr) (auto intro: lm_ExtendLease_inv lm_ReleaseLease_inv)
qed

section \<open>Exclusion\<close>

text \<open>The operations that can end a lease of a chunk early, and the clock an operation reads.\<close>

fun ends_early :: "chunk_handle \<Rightarrow> lm_op \<Rightarrow> bool" where
  "ends_early h (LmRelease g) \<longleftrightarrow> g = h"
| "ends_early h LmClear \<longleftrightarrow> True"
| "ends_early h _ \<longleftrightarrow> False"

fun lm_clock :: "lm_op \<Rightarrow> time_ms option" where
  "lm_clock (LmAcquire t now h s v) = Some now"
| "lm_clock (LmExtend t now h s d) = Some now"
| "lm_clock (LmRemoveExpired now) = Some now"
| "lm_clock _ = None"

definition held :: "lease_manager \<Rightarrow> chunk_handle \<Rightarrow> server_id \<Rightarrow> time_ms \<Rightarrow> bool" where
  "held lm h s e \<longleftrightarrow>
     (\<exists>l. map_of (lm_leases lm) h = Some l \<and> lz_primary_server_id l = s \<and> e \<le> lz_expiration_time_ms l)"

lemma held_step:
  assumes inv: "lm_inv lm" and held: "held lm h s e" and "\<not> ends_early h opr"
    and clock: "\<And>n. lm_clock opr = Some n \<Longrightarrow> n < e"
  shows "held (snd (lm_exec opr lm)) h s e"
proof -
  obtain l where l: "map_of (lm_leases lm) h = Some l" "lz_primary_server_id l = s" "e \<le> lz_expiration_time_ms l"
    using held by (auto simp: held_def)
  have ok: "lease_ok h l" using inv l(1) by (simp add: lm_inv_def)
  have valid: "IsValid l n" if "n < e" for n
    using that ok l(3) by (auto simp: lease_ok_valid IsExpired_def lease_ok_def)
  show ?thesis
  proof (cases opr)
    case (LmAcquire t n g s' v)
    obtain r lm' where "lm_AcquireLease lm t n g s' v = (r, lm')" by fastforce
    moreover have "r = None" if "g = h"
      using that calculation valid [of n] clock [of n] LmAcquire l(1)
      by (auto simp: lm_AcquireLease_def split: if_splits)
    ultimately show ?thesis
      using LmAcquire l valid [of n] clock [of n] AcquireLease_lookup [of lm t n g s' v r lm' h]
      by (auto simp: held_def)
  next
    case (LmExtend t n g s' d)
    have "lz_expiration_time_ms l \<le> sat_add (lz_expiration_time_ms l) d" by (rule sat_add_mono)
    then show ?thesis
      using LmExtend l clock [of n]
      by (auto simp: held_def lm_ExtendLease_def Let_def split: option.splits)
  next
    case (LmRemoveExpired n)
    then show ?thesis
      using l valid [of n] clock [of n] inv ok
      by (auto simp: held_def lm_RemoveExpiredLeases_def lm_inv_def map_of_filter_values lease_ok_valid)
  qed (use assms(3) l in \<open>auto simp: held_def lm_ReleaseLease_def lm_SetLeaseDurationMs_def\<close>)
qed

lemma held_run:
  "lm_inv lm \<Longrightarrow> held lm h s e \<Longrightarrow> list_all (\<lambda>opr. \<not> ends_early h opr \<and> (\<forall>n. lm_clock opr = Some n \<longrightarrow> n < e)) oprs \<Longrightarrow>
    held (leases.run oprs lm) h s e"
proof (induction oprs arbitrary: lm)
  case (Cons opr oprs)
  then show ?case using held_step [of lm h s e opr] leases.inv_exec by simp
qed simp

lemma held_excludes:
  assumes "lm_inv lm" and "held lm h s e" and "now < e"
  shows "fst (lm_AcquireLease lm t now h s' v) = None"
proof -
  obtain l where l: "map_of (lm_leases lm) h = Some l" "e \<le> lz_expiration_time_ms l"
    using assms(2) by (auto simp: held_def)
  then have "IsValid l now"
    using assms(1,3) by (auto simp: lm_inv_def lease_ok_def IsValid_def)
  then show ?thesis using l(1) by (simp add: lm_AcquireLease_def)
qed

section \<open>Properties\<close>

text \<open>C24: a lease that was granted or extended to expire at time \<open>e\<close> excludes every other lease of its
  chunk: whatever operations follow, as long as their clock reads less than \<open>e\<close> and none of them
  releases the lease or clears the table, the same server still holds it at least until \<open>e\<close> and
  every request for a lease of the chunk is refused.\<close>
theorem lease_exclusion:
  assumes "lm_inv lm" and "map_of (lm_leases lm) h = Some l" and "e = lz_expiration_time_ms l"
    and "\<forall>opr \<in> set oprs. \<not> ends_early h opr \<and> (\<forall>n. lm_clock opr = Some n \<longrightarrow> n < e)" and "now < e"
  shows "fst (lm_AcquireLease (leases.run oprs lm) t now h s v) = None \<and>
    (\<exists>l'. lm_GetLease (leases.run oprs lm) h = Some l' \<and> lz_primary_server_id l' = lz_primary_server_id l \<and>
      e \<le> lz_expiration_time_ms l')"
proof -
  have "held lm h (lz_primary_server_id l) e" using assms(2,3) by (auto simp: held_def)
  then have held: "held (leases.run oprs lm) h (lz_primary_server_id l) e"
    using held_run [OF assms(1)] assms(4) by (simp add: list_all_iff)
  moreover have "h \<noteq> 0" using assms(1,2) by (auto simp: lm_inv_def lease_ok_def)
  ultimately show ?thesis
    using held_excludes [OF leases.run_inv [OF assms(1)] held assms(5)] by (auto simp: held_def lm_GetLease_def)
qed

definition sample_lease :: lease where
  "sample_lease = \<lparr>lz_chunk_handle = 7, lz_primary_server_id = 1, lz_version = 4, lz_expiration_time_ms = 100\<rparr>"

definition sample_leases :: lease_manager where
  "sample_leases = \<lparr>lm_leases = [(7, sample_lease)], lm_duration = 60\<rparr>"

lemma sample_leases_inv: "lm_inv sample_leases"
  by (simp add: sample_leases_def sample_lease_def lm_inv_def lease_ok_def)

theorem lease_exclusion_witness:
  "fst (lm_AcquireLease (leases.run [LmRemoveExpired 70, LmExtend sample_table 80 7 1 10] sample_leases)
     sample_table 99 7 2 4) = None"
proof -
  have "map_of (lm_leases sample_leases) 7 = Some sample_lease" "100 = lz_expiration_time_ms sample_lease"
    by (simp_all add: sample_leases_def sample_lease_def)
  moreover have "\<forall>opr \<in> set [LmRemoveExpired 70, LmExtend sample_table 80 7 1 10].
      \<not> ends_early 7 opr \<and> (\<forall>n. lm_clock opr = Some n \<longrightarrow> n < 100)" by simp
  moreover have "(99 :: time_ms) < 100" by simp
  ultimately show ?thesis using lease_exclusion [OF sample_leases_inv] by blast
qed

text \<open>A lease is granted exactly when handle, server and version are non-zero, the server is the
  current primary of the chunk, the lease duration is not 0, and no unexpired lease of the chunk
  is stored. The new lease then names that server and version, is stored, ends at the current time
  plus the duration, saturating at the largest time, and is valid unless the clock reads the
  largest time.\<close>
lemma acquire_lease_granted:
  assumes "lm_inv lm"
  shows "(fst (lm_AcquireLease lm t now h s v) \<noteq> None \<longleftrightarrow>
      h \<noteq> 0 \<and> s \<noteq> 0 \<and> v \<noteq> 0 \<and> IsCurrentPrimary t h s \<and> lm_duration lm \<noteq> 0 \<and>
      (\<forall>l. lm_GetLease lm h = Some l \<longrightarrow> IsExpired l now)) \<and>
    (lm_AcquireLease lm t now h s v = (Some l, lm') \<longrightarrow>
      lz_primary_server_id l = s \<and> lz_version l = v \<and>
      unat (lz_expiration_time_ms l) = min (2 ^ 64 - 1) (unat now + unat (lm_duration lm)) \<and>
      lm_GetLease lm' h = Some l \<and> (now \<noteq> u64_max \<longrightarrow> lm_IsLeaseValidFor lm' t now h s))"
proof (intro conjI impI)
  have "IsValid e now \<longleftrightarrow> \<not> IsExpired e now" if "map_of (lm_leases lm) h = Some e" for e
    using assms that lease_ok_valid [of h e now] by (simp add: lm_inv_def)
  moreover have "fst (lm_AcquireLease lm t now h s v) \<noteq> None \<longleftrightarrow>
      (\<exists>l lm'. lm_AcquireLease lm t now h s v = (Some l, lm'))"
    by (cases "lm_AcquireLease lm t now h s v") auto
  ultimately show "fst (lm_AcquireLease lm t now h s v) \<noteq> None \<longleftrightarrow>
      h \<noteq> 0 \<and> s \<noteq> 0 \<and> v \<noteq> 0 \<and> IsCurrentPrimary t h s \<and> lm_duration lm \<noteq> 0 \<and>
      (\<forall>l. lm_GetLease lm h = Some l \<longrightarrow> IsExpired l now)"
    by (auto simp: AcquireLease_Some lm_GetLease_def)
next
  assume acq: "lm_AcquireLease lm t now h s v = (Some l, lm')"
  note facts = acq [unfolded AcquireLease_Some]
  show "lz_primary_server_id l = s" "lz_version l = v"
    "unat (lz_expiration_time_ms l) = min (2 ^ 64 - 1) (unat now + unat (lm_duration lm))"
    "lm_GetLease lm' h = Some l"
    using facts by (auto simp: unat_sat_add lm_GetLease_def)
  assume "now \<noteq> u64_max"
  then have "now < sat_add now (lm_duration lm)"
    using facts by (intro sat_add_less) (auto simp: order_less_le)
  then show "lm_IsLeaseValidFor lm' t now h s"
    using facts by (auto simp: lm_IsLeaseValidFor_def lm_GetLease_def IsValid_def)
qed

end
