(* ===== verification/Heartbeat.thy ===== *)
theory Heartbeat
  imports Prelude
begin

text \<open>
  \<open>src/master/heartbeat/chunkserver_state.cpp\<close> and \<open>heartbeat_manager.cpp\<close>: what the master
  knows of each chunkserver, fed by heartbeats, and the failure detector over it. The clock is
  an argument. The mutex of the manager makes every method one atomic step, so each method is
  one function from the state to the state.
\<close>

section \<open>The state of one chunkserver\<close>

record reported_chunk =
  rc_handle :: chunk_handle
  rc_version :: chunk_version

record chunkserver_state =
  cs_server_id :: server_id
  cs_last_heartbeat_ms :: time_ms
  cs_alive :: bool
  cs_reported_chunks :: "(chunk_handle \<times> chunk_version) list"

definition ChunkserverState :: "server_id \<Rightarrow> chunkserver_state" where
  "ChunkserverState server =
     \<lparr>cs_server_id = server, cs_last_heartbeat_ms = 0, cs_alive = False, cs_reported_chunks = []\<rparr>"

definition cs_UpdateHeartbeat :: "chunkserver_state \<Rightarrow> time_ms \<Rightarrow> chunkserver_state" where
  "cs_UpdateHeartbeat cs timestamp = cs\<lparr>cs_last_heartbeat_ms := timestamp, cs_alive := True\<rparr>"

definition cs_MarkFailed :: "chunkserver_state \<Rightarrow> chunkserver_state" where
  "cs_MarkFailed cs = cs\<lparr>cs_alive := False\<rparr>"

fun reported_loop ::
    "reported_chunk list \<Rightarrow> (chunk_handle \<times> chunk_version) list \<Rightarrow> (chunk_handle \<times> chunk_version) list" where
  "reported_loop [] acc = acc"
| "reported_loop (c # cs) acc =
     (if rc_handle c = 0 \<or> rc_version c = 0 then reported_loop cs acc
      else reported_loop cs (AList.update (rc_handle c) (rc_version c) acc))"

definition cs_SetReportedChunks :: "chunkserver_state \<Rightarrow> reported_chunk list \<Rightarrow> chunkserver_state" where
  "cs_SetReportedChunks cs chunks = cs\<lparr>cs_reported_chunks := reported_loop chunks []\<rparr>"

definition cs_HasReportedChunk :: "chunkserver_state \<Rightarrow> chunk_handle \<Rightarrow> bool" where
  "cs_HasReportedChunk cs handle =
     (if handle = 0 then False else map_of (cs_reported_chunks cs) handle \<noteq> None)"

definition cs_GetReportedChunks :: "chunkserver_state \<Rightarrow> reported_chunk list" where
  "cs_GetReportedChunks cs =
     sort_key rc_handle (map (\<lambda>(h, v). \<lparr>rc_handle = h, rc_version = v\<rparr>) (cs_reported_chunks cs))"

definition cs_ReportedChunkCount :: "chunkserver_state \<Rightarrow> nat" where
  "cs_ReportedChunkCount cs = length (cs_reported_chunks cs)"

section \<open>The heartbeat manager\<close>

record heartbeat_manager =
  hb_servers :: "(server_id \<times> chunkserver_state) list"
  hb_failure_timeout_ms :: time_ms

definition hb_init :: heartbeat_manager where
  "hb_init = \<lparr>hb_servers = [], hb_failure_timeout_ms = 30000\<rparr>"

definition hb_SetFailureTimeoutMs :: "heartbeat_manager \<Rightarrow> time_ms \<Rightarrow> heartbeat_manager" where
  "hb_SetFailureTimeoutMs hb t = hb\<lparr>hb_failure_timeout_ms := t\<rparr>"

definition hb_ProcessHeartbeat ::
    "heartbeat_manager \<Rightarrow> server_id \<Rightarrow> time_ms \<Rightarrow> reported_chunk list \<Rightarrow> bool \<times> heartbeat_manager" where
  "hb_ProcessHeartbeat hb server timestamp chunks =
     (if server = 0 then (False, hb)
      else
        let found = map_of (hb_servers hb) server;
            inserted = (found = None);
            state = (case found of None \<Rightarrow> ChunkserverState server | Some st \<Rightarrow> st) in
        if \<not> inserted \<and> cs_last_heartbeat_ms state > timestamp then (False, hb)
        else (True, hb\<lparr>hb_servers := AList.update server
               (cs_SetReportedChunks (cs_UpdateHeartbeat state timestamp) chunks) (hb_servers hb)\<rparr>))"

definition hb_ProcessHeartbeatEmpty ::
    "heartbeat_manager \<Rightarrow> server_id \<Rightarrow> time_ms \<Rightarrow> bool \<times> heartbeat_manager" where
  "hb_ProcessHeartbeatEmpty hb server timestamp = hb_ProcessHeartbeat hb server timestamp []"

definition hb_HasServer :: "heartbeat_manager \<Rightarrow> server_id \<Rightarrow> bool" where
  "hb_HasServer hb server = (if server = 0 then False else map_of (hb_servers hb) server \<noteq> None)"

definition hb_IsServerAlive :: "heartbeat_manager \<Rightarrow> server_id \<Rightarrow> bool" where
  "hb_IsServerAlive hb server =
     (if server = 0 then False
      else case map_of (hb_servers hb) server of None \<Rightarrow> False | Some st \<Rightarrow> cs_alive st)"

definition hb_IsServerAliveAt :: "heartbeat_manager \<Rightarrow> server_id \<Rightarrow> time_ms \<Rightarrow> bool" where
  "hb_IsServerAliveAt hb server now =
     (if server = 0 then False
      else case map_of (hb_servers hb) server of
        None \<Rightarrow> False
      | Some st \<Rightarrow>
          if \<not> cs_alive st then False
          else
            let last = cs_last_heartbeat_ms st in
            if now < last then False
            else if hb_failure_timeout_ms hb = 0 then False
            else now - last < hb_failure_timeout_ms hb)"

definition hb_GetLastHeartbeat :: "heartbeat_manager \<Rightarrow> server_id \<Rightarrow> time_ms option" where
  "hb_GetLastHeartbeat hb server =
     (if server = 0 then None else map_option cs_last_heartbeat_ms (map_of (hb_servers hb) server))"

definition hb_GetServerState :: "heartbeat_manager \<Rightarrow> server_id \<Rightarrow> chunkserver_state option" where
  "hb_GetServerState hb server = (if server = 0 then None else map_of (hb_servers hb) server)"

definition hb_GetLiveServers :: "heartbeat_manager \<Rightarrow> server_id list" where
  "hb_GetLiveServers hb = sort (map fst (filter (\<lambda>(s, st). cs_alive st) (hb_servers hb)))"

definition hb_GetFailedServers :: "heartbeat_manager \<Rightarrow> server_id list" where
  "hb_GetFailedServers hb = sort (map fst (filter (\<lambda>(s, st). \<not> cs_alive st) (hb_servers hb)))"

text \<open>The loop of \<open>DetectFailedServers\<close>: the servers found, and the table with them marked.\<close>

fun detect_loop ::
    "time_ms \<Rightarrow> time_ms \<Rightarrow> (server_id \<times> chunkserver_state) list \<Rightarrow>
      server_id list \<times> (server_id \<times> chunkserver_state) list" where
  "detect_loop timeout now [] = ([], [])"
| "detect_loop timeout now ((server, st) # rest) =
     (let (failed, rest') = detect_loop timeout now rest in
      if \<not> cs_alive st then (failed, (server, st) # rest')
      else if now < cs_last_heartbeat_ms st then (failed, (server, st) # rest')
      else if timeout = 0 \<or> now - cs_last_heartbeat_ms st \<ge> timeout
        then (server # failed, (server, cs_MarkFailed st) # rest')
      else (failed, (server, st) # rest'))"

definition hb_DetectFailedServers :: "heartbeat_manager \<Rightarrow> time_ms \<Rightarrow> server_id list \<times> heartbeat_manager" where
  "hb_DetectFailedServers hb now =
     (let (failed, servers) = detect_loop (hb_failure_timeout_ms hb) now (hb_servers hb) in
      (sort failed, hb\<lparr>hb_servers := servers\<rparr>))"

definition hb_ServerCount :: "heartbeat_manager \<Rightarrow> nat" where
  "hb_ServerCount hb = length (hb_servers hb)"

definition hb_Clear :: "heartbeat_manager \<Rightarrow> heartbeat_manager" where
  "hb_Clear hb = hb\<lparr>hb_servers := []\<rparr>"

section \<open>Reported chunks\<close>

definition valid_report :: "reported_chunk \<Rightarrow> bool" where
  "valid_report c \<longleftrightarrow> rc_handle c \<noteq> 0 \<and> rc_version c \<noteq> 0"

text \<open>A report that names a chunk twice counts with its last entry; null entries are dropped.\<close>

lemma reported_loop_lookup:
  "map_of (reported_loop cs acc) h =
    (case find (\<lambda>c. valid_report c \<and> rc_handle c = h) (rev cs) of
       Some c \<Rightarrow> Some (rc_version c) | None \<Rightarrow> map_of acc h)"
  by (induction cs arbitrary: acc) (auto simp: find_append valid_report_def split: option.splits)

lemma reported_loop_distinct: "distinct (map fst acc) \<Longrightarrow> distinct (map fst (reported_loop cs acc))"
  by (induction cs arbitrary: acc) auto

definition report_ok :: "(chunk_handle \<times> chunk_version) list \<Rightarrow> bool" where
  "report_ok al \<longleftrightarrow> distinct (map fst al) \<and> (\<forall>h v. map_of al h = Some v \<longrightarrow> h \<noteq> 0 \<and> v \<noteq> 0)"

lemma report_ok_loop: "report_ok (reported_loop cs [])"
  by (auto simp: report_ok_def reported_loop_distinct reported_loop_lookup valid_report_def
      split: option.splits dest: find_Some_set)

lemma GetReportedChunks_set:
  "report_ok (cs_reported_chunks cs) \<Longrightarrow>
    c \<in> set (cs_GetReportedChunks cs) \<longleftrightarrow> map_of (cs_reported_chunks cs) (rc_handle c) = Some (rc_version c)"
  by (cases c) (force simp: cs_GetReportedChunks_def report_ok_def map_of_eq_Some_iff)

lemma GetReportedChunks_sorted: "sorted (map rc_handle (cs_GetReportedChunks cs))"
  by (simp add: cs_GetReportedChunks_def)

section \<open>Invariant\<close>

definition server_ok :: "server_id \<Rightarrow> chunkserver_state \<Rightarrow> bool" where
  "server_ok s st \<longleftrightarrow> s \<noteq> 0 \<and> cs_server_id st = s \<and> report_ok (cs_reported_chunks st)"

definition hb_inv :: "heartbeat_manager \<Rightarrow> bool" where
  "hb_inv hb \<longleftrightarrow> distinct (map fst (hb_servers hb)) \<and>
     (\<forall>s st. map_of (hb_servers hb) s = Some st \<longrightarrow> server_ok s st)"

text \<open>The failure test the two liveness queries and the detector share.\<close>

definition timed_out :: "time_ms \<Rightarrow> time_ms \<Rightarrow> chunkserver_state \<Rightarrow> bool" where
  "timed_out timeout now st \<longleftrightarrow>
     cs_last_heartbeat_ms st \<le> now \<and> (timeout = 0 \<or> timeout \<le> now - cs_last_heartbeat_ms st)"

lemma detect_loop_servers:
  "snd (detect_loop timeout now al) =
    map_values (\<lambda>st. if cs_alive st \<and> timed_out timeout now st then cs_MarkFailed st else st) al"
  by (induction al rule: detect_loop.induct)
    (auto simp: map_values_def timed_out_def not_less Let_def case_prod_beta)

lemma detect_loop_failed:
  "fst (detect_loop timeout now al) = map fst (filter (\<lambda>(s, st). cs_alive st \<and> timed_out timeout now st) al)"
  by (induction al rule: detect_loop.induct) (auto simp: timed_out_def not_less Let_def case_prod_beta)

lemma DetectFailedServers_eq:
  "hb_DetectFailedServers hb now =
    (sort (map fst (filter (\<lambda>(s, st). cs_alive st \<and> timed_out (hb_failure_timeout_ms hb) now st) (hb_servers hb))),
     hb\<lparr>hb_servers := map_values
       (\<lambda>st. if cs_alive st \<and> timed_out (hb_failure_timeout_ms hb) now st then cs_MarkFailed st else st)
       (hb_servers hb)\<rparr>)"
  by (simp add: hb_DetectFailedServers_def detect_loop_servers [symmetric] detect_loop_failed [symmetric]
      split: prod.splits)

lemma ProcessHeartbeat_accepts:
  "fst (hb_ProcessHeartbeat hb s t cs) \<longleftrightarrow>
    s \<noteq> 0 \<and> (\<forall>st. map_of (hb_servers hb) s = Some st \<longrightarrow> cs_last_heartbeat_ms st \<le> t)"
  by (auto simp: hb_ProcessHeartbeat_def Let_def split: option.splits)

lemma ProcessHeartbeat_rejected:
  "\<not> fst (hb_ProcessHeartbeat hb s t cs) \<Longrightarrow> snd (hb_ProcessHeartbeat hb s t cs) = hb"
  by (auto simp: hb_ProcessHeartbeat_def Let_def split: if_splits)

lemma ProcessHeartbeat_lookup:
  "fst (hb_ProcessHeartbeat hb s t cs) \<Longrightarrow>
    map_of (hb_servers (snd (hb_ProcessHeartbeat hb s t cs))) r =
      (if r = s then
         Some (cs_SetReportedChunks (cs_UpdateHeartbeat
           (case map_of (hb_servers hb) s of None \<Rightarrow> ChunkserverState s | Some st \<Rightarrow> st) t) cs)
       else map_of (hb_servers hb) r)"
  by (auto simp: hb_ProcessHeartbeat_def Let_def split: if_splits)

lemma hb_ProcessHeartbeat_inv [inv_intros]: "hb_inv hb \<Longrightarrow> hb_inv (snd (hb_ProcessHeartbeat hb s t cs))"
  by (auto simp: hb_ProcessHeartbeat_def Let_def hb_inv_def server_ok_def cs_SetReportedChunks_def
      cs_UpdateHeartbeat_def ChunkserverState_def report_ok_loop split: option.splits)

lemma hb_DetectFailedServers_inv [inv_intros]: "hb_inv hb \<Longrightarrow> hb_inv (snd (hb_DetectFailedServers hb now))"
  by (auto simp: DetectFailedServers_eq hb_inv_def server_ok_def cs_MarkFailed_def)

lemma hb_other_inv [simp]:
  "hb_inv (hb_SetFailureTimeoutMs hb t) = hb_inv hb" "hb_inv (hb_Clear hb)"
  by (auto simp: hb_SetFailureTimeoutMs_def hb_Clear_def hb_inv_def)

datatype hb_op =
    HbHeartbeat server_id time_ms "reported_chunk list"
  | HbDetect time_ms
  | HbSetTimeout time_ms
  | HbClear

fun hb_exec :: "hb_op \<Rightarrow> heartbeat_manager \<Rightarrow> server_id list \<times> heartbeat_manager" where
  "hb_exec (HbHeartbeat s t cs) hb = apfst (\<lambda>b. if b then [s] else []) (hb_ProcessHeartbeat hb s t cs)"
| "hb_exec (HbDetect now) hb = hb_DetectFailedServers hb now"
| "hb_exec (HbSetTimeout t) hb = ([], hb_SetFailureTimeoutMs hb t)"
| "hb_exec HbClear hb = ([], hb_Clear hb)"

interpretation heartbeats: invariant_system hb_exec hb_init hb_inv
proof
  show "hb_inv hb_init" by (simp add: hb_inv_def hb_init_def)
  show "hb_inv (snd (hb_exec opr s))" if "hb_inv s" for opr s
    using that by (cases opr) (auto intro: inv_intros)
qed

section \<open>The failure detector\<close>

lemma hb_servers_nonzero: "hb_inv hb \<Longrightarrow> map_of (hb_servers hb) s = Some st \<Longrightarrow> s \<noteq> 0"
  by (auto simp: hb_inv_def server_ok_def)

lemma IsServerAliveAt_iff:
  "hb_inv hb \<Longrightarrow> hb_IsServerAliveAt hb s now \<longleftrightarrow>
    (\<exists>st. map_of (hb_servers hb) s = Some st \<and> cs_alive st \<and> cs_last_heartbeat_ms st \<le> now \<and>
       \<not> timed_out (hb_failure_timeout_ms hb) now st)"
  using hb_servers_nonzero [of hb s]
  by (auto simp: hb_IsServerAliveAt_def timed_out_def Let_def not_le not_less split: option.splits)

lemma IsServerAlive_iff:
  "hb_inv hb \<Longrightarrow> hb_IsServerAlive hb s \<longleftrightarrow> (\<exists>st. map_of (hb_servers hb) s = Some st \<and> cs_alive st)"
  using hb_servers_nonzero [of hb s] by (auto simp: hb_IsServerAlive_def split: option.splits)

lemma in_filtered_keys:
  "distinct (map fst al) \<Longrightarrow>
    k \<in> set (map fst (filter (\<lambda>(k, v). P v) al)) \<longleftrightarrow> (\<exists>v. map_of al k = Some v \<and> P v)"
  by (force simp: map_of_eq_Some_iff)

lemma distinct_filter_fst: "distinct (map fst al) \<Longrightarrow> distinct (map fst (filter P al))"
  by (induction al) auto

lemma DetectFailedServers_set:
  "hb_inv hb \<Longrightarrow> s \<in> set (fst (hb_DetectFailedServers hb now)) \<longleftrightarrow>
    (\<exists>st. map_of (hb_servers hb) s = Some st \<and> cs_alive st \<and> timed_out (hb_failure_timeout_ms hb) now st)"
  using in_filtered_keys [of "hb_servers hb" s "\<lambda>st. cs_alive st \<and> timed_out (hb_failure_timeout_ms hb) now st"]
  by (simp add: DetectFailedServers_eq hb_inv_def)

lemma DetectFailedServers_alive:
  "hb_inv hb \<Longrightarrow> hb_IsServerAlive (snd (hb_DetectFailedServers hb now)) s \<longleftrightarrow>
    hb_IsServerAlive hb s \<and> s \<notin> set (fst (hb_DetectFailedServers hb now))"
  using hb_DetectFailedServers_inv [of hb now]
  by (auto simp: IsServerAlive_iff DetectFailedServers_set)
    (auto simp: DetectFailedServers_eq cs_MarkFailed_def split: if_splits)

lemma DetectFailedServers_last:
  "hb_GetLastHeartbeat (snd (hb_DetectFailedServers hb now)) s = hb_GetLastHeartbeat hb s"
  by (auto simp: hb_GetLastHeartbeat_def DetectFailedServers_eq cs_MarkFailed_def option.map_comp comp_def
      intro!: option.map_cong)

lemma live_failed_sets:
  "hb_inv hb \<Longrightarrow> s \<in> set (hb_GetLiveServers hb) \<longleftrightarrow> hb_IsServerAlive hb s"
  "hb_inv hb \<Longrightarrow> s \<in> set (hb_GetFailedServers hb) \<longleftrightarrow> hb_HasServer hb s \<and> \<not> hb_IsServerAlive hb s"
  using in_filtered_keys [of "hb_servers hb" s cs_alive] in_filtered_keys [of "hb_servers hb" s "\<lambda>st. \<not> cs_alive st"]
    hb_servers_nonzero [of hb s]
  by (auto simp: hb_GetLiveServers_def hb_GetFailedServers_def IsServerAlive_iff hb_HasServer_def hb_inv_def)

lemma live_failed_distinct:
  "hb_inv hb \<Longrightarrow> distinct (hb_GetLiveServers hb) \<and> distinct (hb_GetFailedServers hb)"
  by (simp add: hb_GetLiveServers_def hb_GetFailedServers_def hb_inv_def distinct_filter_fst)

text \<open>The last heartbeat of a known server never decreases until the table is cleared.\<close>

lemma last_heartbeat_step:
  assumes "hb_GetLastHeartbeat hb s = Some t" and "opr \<noteq> HbClear"
  shows "\<exists>t'. hb_GetLastHeartbeat (snd (hb_exec opr hb)) s = Some t' \<and> t \<le> t'"
proof (cases opr)
  case (HbHeartbeat r t' cs)
  then show ?thesis
    using assms ProcessHeartbeat_rejected [of hb r t' cs] ProcessHeartbeat_lookup [of hb r t' cs s]
      ProcessHeartbeat_accepts [of hb r t' cs]
    by (cases "fst (hb_ProcessHeartbeat hb r t' cs)")
      (auto simp: hb_GetLastHeartbeat_def cs_SetReportedChunks_def cs_UpdateHeartbeat_def split: if_splits)
next
  case (HbDetect now)
  then show ?thesis using assms DetectFailedServers_last [of hb now s] by simp
qed (use assms in \<open>auto simp: hb_SetFailureTimeoutMs_def hb_GetLastHeartbeat_def\<close>)

lemma last_heartbeat_run:
  "hb_GetLastHeartbeat hb s = Some t \<Longrightarrow> HbClear \<notin> set oprs \<Longrightarrow>
    \<exists>t'. hb_GetLastHeartbeat (heartbeats.run oprs hb) s = Some t' \<and> t \<le> t'"
proof (induction oprs arbitrary: hb t)
  case (Cons opr oprs)
  obtain u where u: "hb_GetLastHeartbeat (snd (hb_exec opr hb)) s = Some u" "t \<le> u"
    using last_heartbeat_step [of hb s t opr] Cons.prems by auto
  then obtain t' where "hb_GetLastHeartbeat (heartbeats.run (opr # oprs) hb) s = Some t'" "u \<le> t'"
    using Cons.IH [OF u(1)] Cons.prems by auto
  then show ?case using u(2) by auto
qed auto

section \<open>Properties\<close>

text \<open>After a detection at time \<open>now\<close>, a server whose last heartbeat is not in the future is marked
  alive exactly when the on-demand check at \<open>now\<close> called it alive before; the servers returned are
  exactly those that were marked alive and are not any more, in increasing order, and no heartbeat
  time changes.\<close>
lemma detection_agrees_with_check:
  assumes "hb_inv hb" and "hb_GetLastHeartbeat hb s = Some seen" and "seen \<le> now"
    and "hb_DetectFailedServers hb now = (failed, hb')"
  shows "(hb_IsServerAlive hb' s \<longleftrightarrow> hb_IsServerAliveAt hb s now) \<and>
    (s \<in> set failed \<longleftrightarrow> hb_IsServerAlive hb s \<and> \<not> hb_IsServerAlive hb' s) \<and>
    sorted failed \<and> hb_GetLastHeartbeat hb' s = hb_GetLastHeartbeat hb s"
proof -
  have s: "map_of (hb_servers hb) s \<noteq> None" "cs_last_heartbeat_ms (the (map_of (hb_servers hb) s)) = seen"
    using assms(2) by (auto simp: hb_GetLastHeartbeat_def split: if_splits)
  have "sorted failed" using assms(4) by (auto simp: DetectFailedServers_eq)
  then show ?thesis
    using DetectFailedServers_alive [OF assms(1), of now s] DetectFailedServers_set [OF assms(1), of s now]
      DetectFailedServers_last [of hb now s] IsServerAliveAt_iff [OF assms(1), of s now]
      IsServerAlive_iff [OF assms(1), of s] assms(3,4) s
    by auto
qed

definition sample_beats :: heartbeat_manager where
  "sample_beats = snd (hb_exec (HbHeartbeat 2 90000 []) (snd (hb_exec (HbHeartbeat 1 50000 []) hb_init)))"

lemma sample_beats_reachable: "heartbeats.reachable sample_beats"
  unfolding sample_beats_def by (intro heartbeats.reachable.intros)

text \<open>In every reachable state the live list and the failed list are sorted, free of duplicates and
  disjoint, and together they hold exactly the known servers.\<close>
lemma live_and_failed_partition:
  assumes "heartbeats.reachable hb"
  shows "(hb_HasServer hb s \<longleftrightarrow> s \<in> set (hb_GetLiveServers hb) \<or> s \<in> set (hb_GetFailedServers hb)) \<and>
    set (hb_GetLiveServers hb) \<inter> set (hb_GetFailedServers hb) = {} \<and>
    distinct (hb_GetLiveServers hb) \<and> distinct (hb_GetFailedServers hb) \<and>
    sorted (hb_GetLiveServers hb) \<and> sorted (hb_GetFailedServers hb)"
proof -
  have inv: "hb_inv hb" by (rule heartbeats.reachable_inv [OF assms])
  have "hb_HasServer hb s" if "hb_IsServerAlive hb s"
    using that by (auto simp: hb_HasServer_def hb_IsServerAlive_def split: if_splits option.splits)
  then show ?thesis
    using live_failed_sets [OF inv] live_failed_distinct [OF inv]
    by (auto simp: hb_GetLiveServers_def hb_GetFailedServers_def)
qed

text \<open>The recorded heartbeat of a server never goes back: whatever heartbeats, detections and timeout
  changes follow, in any order and with any clocks, the last heartbeat is at least what it was.\<close>
lemma last_heartbeat_monotone:
  assumes "hb_GetLastHeartbeat hb s = Some t" and "HbClear \<notin> set oprs"
  shows "\<exists>t'. hb_GetLastHeartbeat (heartbeats.run oprs hb) s = Some t' \<and> t \<le> t'"
  using assms by (rule last_heartbeat_run)

end
