(* ===== verification/Bytes.thy ===== *)
theory Bytes
  imports Prelude
begin

text \<open>
  The byte encodings that the operation log and the checkpoint share: unsigned integers written
  by \<open>reinterpret_cast<const char*>(&value)\<close>, which is little-endian on the platforms the build
  targets, and the CRC-32 that guards payloads. A \<open>std::string\<close> of bytes is a list of
  characters. The lemmas: reading back what was written, and what the checksum detects.
\<close>

unbundle bit_operations_syntax

section \<open>Little-endian integers\<close>

fun le_bytes :: "nat \<Rightarrow> nat \<Rightarrow> string" where
  "le_bytes 0 n = []"
| "le_bytes (Suc k) n = char_of n # le_bytes k (n div 256)"

fun le_nat :: "string \<Rightarrow> nat" where
  "le_nat [] = 0"
| "le_nat (c # cs) = of_char c + 256 * le_nat cs"

definition put_u32 :: "32 word \<Rightarrow> string" where
  "put_u32 w = le_bytes 4 (unat w)"

definition put_u64 :: "64 word \<Rightarrow> string" where
  "put_u64 w = le_bytes 8 (unat w)"

text \<open>\<open>ReadInteger\<close>: the value and the rest of the input, None when fewer bytes are left.\<close>

definition get_u32 :: "string \<Rightarrow> (32 word \<times> string) option" where
  "get_u32 input = (if length input < 4 then None else Some (of_nat (le_nat (take 4 input)), drop 4 input))"

definition get_u64 :: "string \<Rightarrow> (64 word \<times> string) option" where
  "get_u64 input = (if length input < 8 then None else Some (of_nat (le_nat (take 8 input)), drop 8 input))"

lemma length_le_bytes [simp]: "length (le_bytes k n) = k"
  by (induction k n rule: le_bytes.induct) auto

lemma le_nat_bound: "le_nat cs < 256 ^ length cs"
proof (induction cs)
  case (Cons c cs)
  have "of_char c < (256 :: nat)" by (rule nat_of_char_less_256)
  moreover have "256 * le_nat cs + 256 \<le> 256 ^ length (c # cs)" using Cons by simp
  ultimately show ?case unfolding le_nat.simps by linarith
qed simp

lemma le_nat_le_bytes: "n < 256 ^ k \<Longrightarrow> le_nat (le_bytes k n) = n"
  by (induction k n rule: le_bytes.induct) (auto simp: less_mult_imp_div_less mult.commute)

lemma le_bytes_le_nat: "le_bytes (length cs) (le_nat cs) = cs"
proof (induction cs)
  case (Cons c cs)
  have "char_of (of_char c + 256 * le_nat cs) = c"
    by (rule of_char_eqI [where 'a = nat]) simp
  then show ?case using Cons by simp
qed simp

lemma length_put [simp]: "length (put_u32 v) = 4" "length (put_u64 w) = 8"
  by (simp_all add: put_u32_def put_u64_def)

lemma unat_u32_less: "unat (w :: 32 word) < 2 ^ 32"
  using unsigned_less [where w = w and 'a = nat] by simp

lemma get_put_u32 [simp]: "get_u32 (put_u32 w @ rest) = Some (w, rest)"
  using unat_u32_less [of w] by (simp add: get_u32_def put_u32_def le_nat_le_bytes)

lemma get_put_u64 [simp]: "get_u64 (put_u64 w @ rest) = Some (w, rest)"
  using unat_u64_less [of w] by (simp add: get_u64_def put_u64_def le_nat_le_bytes)

lemma get_u32_Some: "get_u32 input = Some (w, rest) \<longleftrightarrow> input = put_u32 w @ rest"
proof
  assume get: "get_u32 input = Some (w, rest)"
  then have len: "length (take 4 input) = 4" by (auto simp: get_u32_def split: if_splits)
  have "le_nat (take 4 input) < 2 ^ 32" using le_nat_bound [of "take 4 input"] len by simp
  then have "put_u32 (of_nat (le_nat (take 4 input))) = take 4 input"
    using le_bytes_le_nat [of "take 4 input"] len
    by (simp add: put_u32_def unat_of_nat)
  then show "input = put_u32 w @ rest" using get by (auto simp: get_u32_def split: if_splits)
qed simp

lemma get_u64_Some: "get_u64 input = Some (w, rest) \<longleftrightarrow> input = put_u64 w @ rest"
proof
  assume get: "get_u64 input = Some (w, rest)"
  then have len: "length (take 8 input) = 8" by (auto simp: get_u64_def split: if_splits)
  have "le_nat (take 8 input) < 2 ^ 64" using le_nat_bound [of "take 8 input"] len by simp
  then have "put_u64 (of_nat (le_nat (take 8 input))) = take 8 input"
    using le_bytes_le_nat [of "take 8 input"] len
    by (simp add: put_u64_def unat_of_nat)
  then show "input = put_u64 w @ rest" using get by (auto simp: get_u64_def split: if_splits)
qed simp

lemma put_inject [simp]: "put_u32 v = put_u32 w \<longleftrightarrow> v = w" "put_u64 x = put_u64 y \<longleftrightarrow> x = y"
  by (metis get_put_u32 option.inject prod.inject, metis get_put_u64 option.inject prod.inject)

section \<open>CRC-32\<close>

definition crc_poly :: "32 word" where
  "crc_poly = 0xEDB88320"

definition crc_bit :: "32 word \<Rightarrow> 32 word" where
  "crc_bit crc = (if crc AND 1 \<noteq> 0 then drop_bit 1 crc XOR crc_poly else drop_bit 1 crc)"

definition crc_byte :: "32 word \<Rightarrow> char \<Rightarrow> 32 word" where
  "crc_byte crc c = (crc_bit ^^ 8) (crc XOR of_char c)"

definition ComputeChecksum :: "string \<Rightarrow> 32 word" where
  "ComputeChecksum data = NOT (foldl crc_byte 0xFFFFFFFF data)"

lemma and_1_bit: "(w :: 32 word) AND 1 \<noteq> 0 \<longleftrightarrow> bit w 0"
  unfolding and_one_eq bit_0 even_iff_mod_2_eq_zero by (rule refl)

lemma crc_bit_linear: "crc_bit (a XOR b) = crc_bit a XOR crc_bit b"
proof -
  have cancel: "x XOR (y XOR x) = (y :: 32 word)" for x y
    by (metis xor.assoc xor.commute xor.right_neutral xor_self_eq)
  show ?thesis
    unfolding crc_bit_def and_1_bit bit_xor_iff drop_bit_xor
    by (auto simp: xor.assoc xor.left_commute [of crc_poly] xor.commute [of crc_poly] cancel)
qed

text \<open>The polynomial has its top bit set, so the top bit of the result is the bit shifted out.\<close>

lemma crc_bit_top: "bit (crc_bit w) 31 = bit w 0"
proof -
  have "bit crc_poly 31" by (simp add: crc_poly_def)
  moreover have "\<not> bit (drop_bit 1 w) 31"
    using bit_imp_le_length [of w 32] by (auto simp: bit_drop_bit_eq)
  ultimately show ?thesis by (simp add: crc_bit_def and_1_bit bit_xor_iff)
qed

lemma crc_bit_0: "crc_bit w = 0 \<Longrightarrow> w = 0"
proof -
  assume zero: "crc_bit w = 0"
  then have lsb: "\<not> bit w 0" using crc_bit_top [of w] by simp
  then have "drop_bit 1 w = 0" using zero by (simp only: crc_bit_def and_1_bit if_False)
  then have "\<not> bit (drop_bit 1 w) n" for n by (simp only: bit_0_eq bot_apply not_False_eq_True bot_bool_def)
  then have high: "\<not> bit w (1 + n)" for n by (simp only: bit_drop_bit_eq comp_apply not_False_eq_True)
  have "\<not> bit w n" for n using lsb high [of "n - 1"] by (cases n) auto
  then show "w = 0" by (intro bit_eqI) simp
qed

lemma crc_bits_linear: "(crc_bit ^^ n) (a XOR b) = (crc_bit ^^ n) a XOR (crc_bit ^^ n) b"
  by (induction n) (simp_all add: crc_bit_linear)

lemma crc_bits_inject: "(crc_bit ^^ n) a = (crc_bit ^^ n) b \<longleftrightarrow> a = b"
proof
  assume "(crc_bit ^^ n) a = (crc_bit ^^ n) b"
  then have "(crc_bit ^^ n) (a XOR b) = 0" by (simp add: crc_bits_linear)
  then have "a XOR b = 0" by (induction n) (auto dest: crc_bit_0)
  then show "a = b" by (metis xor.assoc xor_self_eq xor.left_neutral xor.right_neutral)
qed simp

lemma crc_bit_push: "\<not> bit w 31 \<Longrightarrow> crc_bit (push_bit 1 w) = w"
proof -
  assume "\<not> bit w 31"
  then have "bit (drop_bit 1 (push_bit 1 w)) n = bit w n" if "n < 32" for n
    unfolding bit_drop_bit_eq comp_apply bit_push_bit_iff using that by (cases "n = 31") auto
  then have "drop_bit 1 (push_bit 1 w) = w" by (intro bit_word_eqI) simp
  moreover have "\<not> bit (push_bit 1 w) 0" unfolding bit_push_bit_iff by simp
  ultimately show ?thesis unfolding crc_bit_def and_1_bit by (simp only: if_False)
qed

lemma crc_bits_push: "n \<le> 8 \<Longrightarrow> (\<And>i. bit w i \<Longrightarrow> i < 24) \<Longrightarrow> (crc_bit ^^ n) (push_bit n w) = w"
proof (induction n)
  case (Suc n)
  have "\<not> bit (push_bit n w) 31"
    using Suc.prems(1) Suc.prems(2) [of "31 - n"] by (auto simp: bit_push_bit_iff)
  then have "crc_bit (push_bit 1 (push_bit n w)) = push_bit n w" by (rule crc_bit_push)
  moreover have "push_bit (Suc n) w = push_bit 1 (push_bit n w)" unfolding push_bit_push_bit by simp
  ultimately show ?case using Suc by (simp only: funpow_Suc_right comp_apply Suc_leD)
qed simp

text \<open>Up to four bytes are absorbed as one word, then shifted through bit by bit.\<close>

fun le_word :: "string \<Rightarrow> 32 word" where
  "le_word [] = 0"
| "le_word (c # cs) = of_char c XOR push_bit 8 (le_word cs)"

lemma bit_of_char: "bit (of_char c :: 32 word) i \<Longrightarrow> i < 8"
  by (cases c) (simp only: of_char_Char bit_horner_sum_bit_iff, simp)

lemma bit_le_word: "bit (le_word cs) i \<Longrightarrow> i < 8 * length cs"
proof (induction cs arbitrary: i)
  case (Cons c cs)
  then have "bit (of_char c :: 32 word) i \<or> 8 \<le> i \<and> bit (le_word cs) (i - 8)"
    by (auto simp: bit_xor_iff bit_push_bit_iff)
  then have "i < 8 \<or> i - 8 < 8 * length cs" using bit_of_char Cons.IH by blast
  then show ?case by auto
qed simp

lemma crc_word: "length cs \<le> 4 \<Longrightarrow> foldl crc_byte crc cs = (crc_bit ^^ (8 * length cs)) (crc XOR le_word cs)"
proof (induction cs arbitrary: crc)
  case (Cons c cs)
  have push: "(crc_bit ^^ 8) (push_bit 8 (le_word cs)) = le_word cs"
    using Cons.prems bit_le_word [of cs] by (intro crc_bits_push) fastforce+
  have "foldl crc_byte crc (c # cs) = (crc_bit ^^ (8 * length cs)) (crc_byte crc c XOR le_word cs)"
    using Cons by simp
  also have "\<dots> = (crc_bit ^^ (8 * length cs)) ((crc_bit ^^ 8) ((crc XOR of_char c) XOR push_bit 8 (le_word cs)))"
    unfolding crc_byte_def crc_bits_linear [of 8 _ "push_bit 8 (le_word cs)"] push by (rule refl)
  also have "\<dots> = (crc_bit ^^ (8 * length cs + 8)) (crc XOR le_word (c # cs))"
    unfolding funpow_add comp_apply by (simp only: le_word.simps xor.assoc)
  also have "8 * length cs + 8 = 8 * length (c # cs)" by simp
  finally show ?case .
qed simp

lemma le_word_inject: "length cs = length ds \<Longrightarrow> length cs \<le> 4 \<Longrightarrow> le_word cs = le_word ds \<longleftrightarrow> cs = ds"
proof (induction cs ds rule: list_induct2)
  case (Cons c cs d ds)
  have low: "bit (le_word (a # as)) i = bit (of_char a :: 32 word) i" if "i < 8" for a as i
    using that by (simp add: bit_xor_iff bit_push_bit_iff)
  have high: "bit (le_word (a # as)) (i + 8) = bit (le_word as) i" if "i < 24" for a as i
    using that bit_of_char [of a "i + 8"] by (auto simp: bit_xor_iff bit_push_bit_iff)
  have "c = d \<and> le_word cs = le_word ds" if eq: "le_word (c # cs) = le_word (d # ds)"
  proof
    have "bit (of_char c :: 32 word) i = bit (of_char d :: 32 word) i" for i
      using low [of i c cs] low [of i d ds] eq bit_of_char by (cases "i < 8") auto
    then have "of_char c = (of_char d :: 32 word)" by (intro bit_eqI)
    then have "of_nat (of_char c) = (of_nat (of_char d) :: 32 word)" by (simp only: of_nat_of_char)
    then have "unat (of_nat (of_char c) :: 32 word) = unat (of_nat (of_char d) :: 32 word)" by (rule arg_cong)
    moreover have "unat (of_nat (of_char a) :: 32 word) = of_char a" for a
      unfolding unat_of_nat by (rule mod_less) (rule less_trans [OF nat_of_char_less_256], simp)
    ultimately have "(of_char c :: nat) = of_char d" by (simp only:)
    then show "c = d" by (rule of_char_eqI)
    have "bit (le_word cs) i = bit (le_word ds) i" for i
      using high [of i c cs] high [of i d ds] eq bit_le_word [of cs i] bit_le_word [of ds i] Cons.prems Cons.hyps
      by (cases "i < 24") auto
    then show "le_word cs = le_word ds" by (intro bit_eqI)
  qed
  then show ?case using Cons by auto
qed simp

lemma crc_byte_inject: "crc_byte a c = crc_byte b c \<longleftrightarrow> a = b"
proof -
  have "a XOR x = b XOR x \<longleftrightarrow> a = b" for x
    by (metis xor.assoc xor.right_neutral xor_self_eq)
  then show ?thesis by (simp add: crc_byte_def crc_bits_inject)
qed

lemma foldl_crc_inject: "foldl crc_byte a cs = foldl crc_byte b cs \<longleftrightarrow> a = b"
  by (induction cs arbitrary: a b) (simp_all add: crc_byte_inject)

end
