(* ===== verification/OperationLog.thy ===== *)
theory OperationLog
  imports Bytes
begin

text \<open>
  \<open>src/master/recovery/operation_log.cpp\<close>: the field encoding of payloads, the record format,
  and the log itself. The file system is a map from paths to contents; what the operating system
  may do to a call (refuse to create or open the file, or write only a prefix of a record) is an
  argument of the operation, so every failure path of the source is a branch of the model.

  The main lemmas: a byte string is accepted by \<open>ReadRecords\<close> exactly when it is the
  concatenation of the encodings of consecutively numbered records, so what was appended is what
  is replayed; and the two ways a failed append spoils a log.
\<close>

section \<open>Fields\<close>

fun EncodeFields :: "string list \<Rightarrow> string" where
  "EncodeFields [] = []"
| "EncodeFields (field # fields) = put_u64 (of_nat (length field)) @ field @ EncodeFields fields"

text \<open>One turn of the loop of \<open>DecodeFields\<close> on the bytes from \<open>offset\<close>.\<close>

definition decode_field :: "string \<Rightarrow> (string \<times> string) option" where
  "decode_field rest =
     (case get_u64 rest of
        None \<Rightarrow> None
      | Some (len, rest') \<Rightarrow>
          if unat len > length rest' then None
          else Some (take (unat len) rest', drop (unat len) rest'))"

lemma decode_field_shorter: "decode_field rest = Some (field, rest') \<Longrightarrow> length rest' < length rest"
  by (auto simp: decode_field_def get_u64_def split: if_splits)

function DecodeFields :: "string \<Rightarrow> string list option" where
  "DecodeFields rest =
     (if rest = [] then Some []
      else case decode_field rest of
        None \<Rightarrow> None
      | Some (field, rest') \<Rightarrow>
          (case DecodeFields rest' of None \<Rightarrow> None | Some fields \<Rightarrow> Some (field # fields)))"
  by pat_completeness auto
termination
  by (relation "measure length") (auto dest: decode_field_shorter)

declare DecodeFields.simps [simp del]

lemma decode_field_encoded:
  "length field < 2 ^ 64 \<Longrightarrow> decode_field (put_u64 (of_nat (length field)) @ field @ rest) = Some (field, rest)"
  by (simp add: decode_field_def unat_of_nat)

lemma DecodeFields_Nil [simp]: "DecodeFields [] = Some []"
  by (simp add: DecodeFields.simps)

lemma decode_encode: "\<forall>f \<in> set fields. length f < 2 ^ 64 \<Longrightarrow> DecodeFields (EncodeFields fields) = Some fields"
proof (induction fields)
  case (Cons f fs)
  have "EncodeFields (f # fs) \<noteq> []" by (metis EncodeFields.simps(2) append_is_Nil_conv length_put(2) list.size(3) zero_neq_numeral)
  then show ?case
    using Cons decode_field_encoded [of f "EncodeFields fs"]
    by (simp add: DecodeFields.simps [of "put_u64 (of_nat (length f)) @ f @ EncodeFields fs"])
qed simp

lemma encode_decode: "DecodeFields rest = Some fields \<Longrightarrow> EncodeFields fields = rest"
proof (induction rest arbitrary: fields rule: DecodeFields.induct)
  case (1 rest)
  show ?case
  proof (cases "rest = []")
    case False
    obtain field rest' fields' where f: "decode_field rest = Some (field, rest')"
        "DecodeFields rest' = Some fields'" "fields = field # fields'"
      using 1(2) False by (auto simp: DecodeFields.simps [of rest] split: option.splits)
    obtain len bytes where len: "get_u64 rest = Some (len, bytes)" "unat len \<le> length bytes"
        "field = take (unat len) bytes" "rest' = drop (unat len) bytes"
      using f(1) by (auto simp: decode_field_def split: option.splits if_splits)
    then have "of_nat (length field) = len" by simp
    moreover have "rest = put_u64 len @ field @ rest'" using len by (simp add: get_u64_Some)
    ultimately show ?thesis using 1(1) [OF False f(1) refl f(2)] f(3) by simp
  qed (use 1(2) in simp)
qed

section \<open>Records\<close>

datatype operation_type =
    OpCreateDirectory | OpCreateFile | OpDeleteFile | OpRenameFile | OpAllocateChunk | OpUpdateFileSize
  | OpSetChunkVersion | OpAddChunkToFile | OpRemoveChunkFromFile | OpDeleteChunk | OpSetChunkSize
  | OpCreateSnapshot | OpCopyOnWrite

fun type_value :: "operation_type \<Rightarrow> 32 word" where
  "type_value OpCreateDirectory = 1"
| "type_value OpCreateFile = 2"
| "type_value OpDeleteFile = 3"
| "type_value OpRenameFile = 4"
| "type_value OpAllocateChunk = 5"
| "type_value OpUpdateFileSize = 6"
| "type_value OpSetChunkVersion = 7"
| "type_value OpAddChunkToFile = 8"
| "type_value OpRemoveChunkFromFile = 9"
| "type_value OpDeleteChunk = 10"
| "type_value OpSetChunkSize = 11"
| "type_value OpCreateSnapshot = 12"
| "type_value OpCopyOnWrite = 13"

definition all_types :: "operation_type list" where
  "all_types = [OpCreateDirectory, OpCreateFile, OpDeleteFile, OpRenameFile, OpAllocateChunk, OpUpdateFileSize,
     OpSetChunkVersion, OpAddChunkToFile, OpRemoveChunkFromFile, OpDeleteChunk, OpSetChunkSize,
     OpCreateSnapshot, OpCopyOnWrite]"

text \<open>\<open>IsValidOperationType\<close> and the \<open>static_cast\<close> of a valid value to the enumeration.\<close>

definition IsValidOperationType :: "32 word \<Rightarrow> bool" where
  "IsValidOperationType v \<longleftrightarrow> v \<ge> type_value OpCreateDirectory \<and> v \<le> type_value OpCopyOnWrite"

definition operation_type_of :: "32 word \<Rightarrow> operation_type" where
  "operation_type_of v = all_types ! (unat v - 1)"

record operation_record =
  or_sequence :: "64 word"
  or_type :: operation_type
  or_payload :: string

definition kMagic :: "32 word" where
  "kMagic = 0x47464C31"

definition kFormatVersion :: "32 word" where
  "kFormatVersion = 1"

text \<open>The bytes that \<open>WriteRecord\<close> writes.\<close>

definition record_bytes :: "64 word \<Rightarrow> operation_type \<Rightarrow> string \<Rightarrow> string" where
  "record_bytes sequence type payload =
     put_u32 kMagic @ put_u32 kFormatVersion @ put_u64 sequence @ put_u32 (type_value type) @
     put_u32 (of_nat (length payload)) @ put_u32 (ComputeChecksum payload) @ payload"

text \<open>One turn of the loop of \<open>ReadRecords\<close>: the record and the rest of the input.\<close>

definition read_record :: "64 word \<Rightarrow> string \<Rightarrow> (operation_record \<times> string) option" where
  "read_record expected_sequence input =
     do {
       (magic, input1) \<leftarrow> get_u32 input;
       (version, input2) \<leftarrow> get_u32 input1;
       (sequence, input3) \<leftarrow> get_u64 input2;
       (type_val, input4) \<leftarrow> get_u32 input3;
       (payload_size, input5) \<leftarrow> get_u32 input4;
       (checksum, input6) \<leftarrow> get_u32 input5;
       if magic \<noteq> kMagic \<or> version \<noteq> kFormatVersion \<or> sequence \<noteq> expected_sequence \<or>
          \<not> IsValidOperationType type_val then None
       else if length input6 < unat payload_size then None
       else
         let payload = take (unat payload_size) input6 in
         if ComputeChecksum payload \<noteq> checksum then None
         else Some (\<lparr>or_sequence = sequence, or_type = operation_type_of type_val, or_payload = payload\<rparr>,
                    drop (unat payload_size) input6)
     }"

lemma type_value_cast: "IsValidOperationType v \<longleftrightarrow> (\<exists>t. v = type_value t)"
  and operation_type_of_value [simp]: "operation_type_of (type_value t) = t"
proof -
  show "operation_type_of (type_value t) = t" by (cases t) (simp_all add: operation_type_of_def all_types_def)
  have "v \<in> type_value ` set all_types" if "1 \<le> v" "v \<le> 13"
  proof -
    have "1 \<le> unat v" "unat v \<le> 13" using that by (simp_all add: word_le_nat_alt)
    then have "unat v \<in> {1, 2, 3, 4, 5, 6, 7, 8, 9, 10, 11, 12, 13}" by (auto simp: numeral_eq_Suc le_Suc_eq)
    moreover have "n \<in> {1, 2, 3, 4, 5, 6, 7, 8, 9, 10, 11, 12, 13} \<Longrightarrow> (of_nat n :: 32 word) \<in> type_value ` set all_types" for n
      by (auto simp: all_types_def)
    ultimately have "of_nat (unat v) \<in> type_value ` set all_types" by blast
    then show ?thesis by simp
  qed
  moreover have "IsValidOperationType (type_value t)" for t
    by (cases t) (simp_all add: IsValidOperationType_def)
  ultimately show "IsValidOperationType v \<longleftrightarrow> (\<exists>t. v = type_value t)"
    by (auto simp: IsValidOperationType_def)
qed

lemma read_record_Some:
  "read_record e input = Some (r, rest) \<longleftrightarrow>
    input = record_bytes (or_sequence r) (or_type r) (or_payload r) @ rest \<and> or_sequence r = e \<and>
    length (or_payload r) < 2 ^ 32"
proof
  assume read: "read_record e input = Some (r, rest)"
  obtain m i1 v i2 s i3 t i4 n i5 c i6 where
    get: "get_u32 input = Some (m, i1)" "get_u32 i1 = Some (v, i2)" "get_u64 i2 = Some (s, i3)"
      "get_u32 i3 = Some (t, i4)" "get_u32 i4 = Some (n, i5)" "get_u32 i5 = Some (c, i6)"
    and ok: "m = kMagic" "v = kFormatVersion" "s = e" "IsValidOperationType t" "unat n \<le> length i6"
      "ComputeChecksum (take (unat n) i6) = c"
    and r: "r = \<lparr>or_sequence = s, or_type = operation_type_of t, or_payload = take (unat n) i6\<rparr>"
      "rest = drop (unat n) i6"
    using read by (auto simp: read_record_def Let_def split: bind_splits if_splits)
  obtain ty where "t = type_value ty" using ok(4) type_value_cast by blast
  moreover have "of_nat (length (take (unat n) i6)) = n" using ok(5) by simp
  moreover have "unat n < 2 ^ 32" by (rule unat_u32_less)
  ultimately show "input = record_bytes (or_sequence r) (or_type r) (or_payload r) @ rest \<and> or_sequence r = e \<and>
      length (or_payload r) < 2 ^ 32"
    using get ok r by (simp add: get_u32_Some get_u64_Some record_bytes_def)
next
  assume "input = record_bytes (or_sequence r) (or_type r) (or_payload r) @ rest \<and> or_sequence r = e \<and>
      length (or_payload r) < 2 ^ 32"
  moreover have "IsValidOperationType (type_value (or_type r))" using type_value_cast by blast
  ultimately show "read_record e input = Some (r, rest)"
    by (simp add: read_record_def record_bytes_def unat_of_nat)
qed

lemma length_record_bytes [simp]: "length (record_bytes s t p) = 28 + length p"
  by (simp add: record_bytes_def)

lemma read_record_shorter: "read_record e input = Some (r, rest) \<Longrightarrow> length rest < length input"
  by (auto simp: read_record_Some)

function read_loop :: "64 word \<Rightarrow> string \<Rightarrow> operation_record list option" where
  "read_loop expected_sequence input =
     (if input = [] then Some []
      else case read_record expected_sequence input of
        None \<Rightarrow> None
      | Some (r, rest) \<Rightarrow>
          if expected_sequence = u64_max then None
          else (case read_loop (expected_sequence + 1) rest of None \<Rightarrow> None | Some rs \<Rightarrow> Some (r # rs)))"
  by pat_completeness auto
termination
  by (relation "measure (\<lambda>(e, input). length input)") (auto dest: read_record_shorter)

declare read_loop.simps [simp del]

text \<open>The record list a log file stands for: numbered from \<open>e\<close> on, and its bytes.\<close>

fun numbered_from :: "64 word \<Rightarrow> operation_record list \<Rightarrow> bool" where
  "numbered_from e [] = True"
| "numbered_from e (r # rs) \<longleftrightarrow>
     or_sequence r = e \<and> e \<noteq> u64_max \<and> length (or_payload r) < 2 ^ 32 \<and> numbered_from (e + 1) rs"

definition bytes_of :: "operation_record list \<Rightarrow> string" where
  "bytes_of rs = concat (map (\<lambda>r. record_bytes (or_sequence r) (or_type r) (or_payload r)) rs)"

lemma record_bytes_Nil [simp]: "record_bytes s t p \<noteq> []"
  by (metis add_eq_0_iff_both_eq_0 length_record_bytes list.size(3) zero_neq_numeral)

lemma bytes_of_simps [simp]:
  "bytes_of [] = []"
  "bytes_of (r # rs) = record_bytes (or_sequence r) (or_type r) (or_payload r) @ bytes_of rs"
  "bytes_of (rs @ rs') = bytes_of rs @ bytes_of rs'"
  by (simp_all add: bytes_of_def)

lemma read_loop_Some: "read_loop e input = Some rs \<longleftrightarrow> input = bytes_of rs \<and> numbered_from e rs"
proof (induction e input arbitrary: rs rule: read_loop.induct)
  case (1 e input)
  show ?case
  proof (cases rs)
    case Nil
    then show ?thesis by (auto simp: read_loop.simps [of e input] split: option.splits if_splits)
  next
    case (Cons r rs')
    have "read_loop e input = Some (r # rs') \<longleftrightarrow>
        (\<exists>rest. read_record e input = Some (r, rest) \<and> e \<noteq> u64_max \<and> read_loop (e + 1) rest = Some rs')"
    proof (cases "input = []")
      case True
      then show ?thesis using read_record_shorter [of e input r] by (auto simp: True read_loop.simps [of e "[]"])
    qed (auto simp: read_loop.simps [of e input] split: option.splits)
    also have "\<dots> \<longleftrightarrow> (\<exists>rest. read_record e input = Some (r, rest) \<and> e \<noteq> u64_max \<and> rest = bytes_of rs' \<and> numbered_from (e + 1) rs')"
      using 1 read_record_shorter by fastforce
    finally show ?thesis using Cons by (auto simp: read_record_Some)
  qed
qed

lemma numbered_snoc:
  "numbered_from e (rs @ [r]) \<longleftrightarrow>
    numbered_from e rs \<and> or_sequence r = e + of_nat (length rs) \<and> e + of_nat (length rs) \<noteq> u64_max \<and>
    length (or_payload r) < 2 ^ 32"
  by (induction rs arbitrary: e) (auto simp: algebra_simps)

lemma numbered_last: "numbered_from e rs \<Longrightarrow> rs \<noteq> [] \<Longrightarrow> or_sequence (last rs) = e + of_nat (length rs) - 1"
proof (induction rs rule: rev_induct)
  case (snoc r rs)
  then show ?case by (simp add: numbered_snoc)
qed simp

lemma numbered_length: "numbered_from e rs \<Longrightarrow> length rs \<le> unat (u64_max - e)"
proof (induction rs arbitrary: e)
  case (Cons r rs)
  then have "e \<noteq> u64_max" "length rs \<le> unat (u64_max - (e + 1))" by auto
  moreover from this have "unat (e + 1) = Suc (unat e)" by (intro unat_succ) (simp add: word_succ_eq_0)
  moreover have "unat e < 2 ^ 64 - 1"
  proof -
    have "e < u64_max" using \<open>e \<noteq> u64_max\<close> by (simp add: order_less_le)
    then show ?thesis unfolding word_less_nat_alt unat_u64_max .
  qed
  ultimately show ?case by (simp add: unat_sub_u64_max)
qed simp

section \<open>The log\<close>

type_synonym files = "file_path \<Rightarrow> string option"

record operation_log =
  ol_path :: file_path
  ol_last_sequence :: "64 word"
  ol_open :: bool

definition OperationLog :: "file_path \<Rightarrow> operation_log" where
  "OperationLog path = \<lparr>ol_path = path, ol_last_sequence = 0, ol_open = False\<rparr>"

definition ReadRecords :: "files \<Rightarrow> file_path \<Rightarrow> operation_record list option" where
  "ReadRecords fs path =
     (if path = [] then None
      else case fs path of None \<Rightarrow> None | Some content \<Rightarrow> read_loop 1 content)"

definition ol_Validate :: "files \<Rightarrow> operation_log \<Rightarrow> bool" where
  "ol_Validate fs log \<longleftrightarrow> ReadRecords fs (ol_path log) \<noteq> None"

definition ol_Close :: "operation_log \<Rightarrow> operation_log" where
  "ol_Close log = log\<lparr>ol_open := False\<rparr>"

text \<open>
  \<open>Open\<close>. \<open>dirs_ok\<close>: \<open>create_directories\<close> reports no error; \<open>create_ok\<close>: an absent file can be
  created. A path without a slash has an empty parent path.
\<close>

definition ol_Open :: "bool \<Rightarrow> bool \<Rightarrow> files \<Rightarrow> operation_log \<Rightarrow> file_path \<Rightarrow> bool \<times> operation_log \<times> files" where
  "ol_Open dirs_ok create_ok fs log path =
     (let log1 = (ol_Close log)\<lparr>ol_path := path\<rparr> in
      if path = [] then (False, log1, fs)
      else if CHR ''/'' \<in> set path \<and> \<not> dirs_ok then (False, log1, fs)
      else if fs path = None \<and> \<not> create_ok then (False, log1, fs)
      else
        let fs1 = (case fs path of None \<Rightarrow> fs(path \<mapsto> []) | Some _ \<Rightarrow> fs) in
        if \<not> ol_Validate fs1 log1 then (False, log1, fs1)
        else case ReadRecords fs1 path of
          None \<Rightarrow> (False, log1, fs1)
        | Some records \<Rightarrow>
            (True, log1\<lparr>ol_last_sequence := (if records = [] then 0 else or_sequence (last records)),
                        ol_open := True\<rparr>, fs1))"

text \<open>
  How writing a record can go: all of it is written; the file cannot be opened for appending; or
  the stream fails and only some prefix of the record is in the file.
\<close>

datatype write_outcome = WriteAll | OpenRefused | WrittenPrefix nat

definition WriteRecord ::
    "write_outcome \<Rightarrow> files \<Rightarrow> file_path \<Rightarrow> 64 word \<Rightarrow> operation_type \<Rightarrow> string \<Rightarrow> bool \<times> files" where
  "WriteRecord outcome fs path sequence type payload =
     (let old = (case fs path of None \<Rightarrow> [] | Some content \<Rightarrow> content);
          bytes = record_bytes sequence type payload in
      case outcome of
        OpenRefused \<Rightarrow> (False, fs)
      | WriteAll \<Rightarrow> (True, fs(path \<mapsto> old @ bytes))
      | WrittenPrefix k \<Rightarrow> (False, fs(path \<mapsto> old @ take k bytes)))"

definition ol_AppendAt ::
    "write_outcome \<Rightarrow> files \<Rightarrow> operation_log \<Rightarrow> 64 word \<Rightarrow> operation_type \<Rightarrow> string \<Rightarrow> bool \<times> operation_log \<times> files" where
  "ol_AppendAt outcome fs log sequence type payload =
     (if \<not> ol_open log \<or> sequence = 0 \<or> sequence \<noteq> ol_last_sequence log + 1 then (False, log, fs)
      else if length payload > 4294967295 then (False, log, fs)
      else case WriteRecord outcome fs (ol_path log) sequence type payload of
        (False, fs1) \<Rightarrow> (False, log, fs1)
      | (True, fs1) \<Rightarrow> (True, log\<lparr>ol_last_sequence := sequence\<rparr>, fs1))"

definition ol_Append ::
    "write_outcome \<Rightarrow> files \<Rightarrow> operation_log \<Rightarrow> operation_type \<Rightarrow> string \<Rightarrow> bool \<times> operation_log \<times> files" where
  "ol_Append outcome fs log type payload =
     (if \<not> ol_open log then (False, log, fs)
      else if ol_last_sequence log = u64_max then (False, log, fs)
      else ol_AppendAt outcome fs log (ol_last_sequence log + 1) type payload)"

definition ol_Flush :: "bool \<Rightarrow> bool \<Rightarrow> files \<Rightarrow> operation_log \<Rightarrow> bool \<times> files" where
  "ol_Flush opened flushed fs log =
     (if \<not> ol_open log then (False, fs)
      else if \<not> opened then (False, fs)
      else (flushed, (case fs (ol_path log) of None \<Rightarrow> fs(ol_path log \<mapsto> []) | Some _ \<Rightarrow> fs)))"

definition ol_Replay :: "files \<Rightarrow> operation_log \<Rightarrow> 64 word \<Rightarrow> operation_record list" where
  "ol_Replay fs log after_sequence =
     (case ReadRecords fs (ol_path log) of
        None \<Rightarrow> []
      | Some records \<Rightarrow>
          if after_sequence = 0 then records
          else filter (\<lambda>r. \<not> or_sequence r \<le> after_sequence) records)"

section \<open>The log as a journal\<close>

text \<open>An open log whose file holds the records \<open>rs\<close> and whose counter agrees with them.\<close>

definition log_holds :: "operation_log \<Rightarrow> files \<Rightarrow> operation_record list \<Rightarrow> bool" where
  "log_holds log fs rs \<longleftrightarrow> ol_open log \<and> ol_path log \<noteq> [] \<and> fs (ol_path log) = Some (bytes_of rs) \<and>
     numbered_from 1 rs \<and> ol_last_sequence log = of_nat (length rs)"

lemma ReadRecords_Some:
  "ReadRecords fs path = Some rs \<longleftrightarrow> path \<noteq> [] \<and> fs path = Some (bytes_of rs) \<and> numbered_from 1 rs"
  by (auto simp: ReadRecords_def read_loop_Some split: option.splits)

lemma log_holds_Replay: "log_holds log fs rs \<Longrightarrow> ol_Replay fs log 0 = rs"
  using ReadRecords_Some [of fs "ol_path log" rs] by (simp add: log_holds_def ol_Replay_def)

definition content_of :: "files \<Rightarrow> file_path \<Rightarrow> string" where
  "content_of fs path = (case fs path of None \<Rightarrow> [] | Some content \<Rightarrow> content)"

text \<open>\<open>Open\<close> accepts a file exactly when its content is the encoding of a record list.\<close>

lemma ol_Open_eq:
  "ol_Open dirs_ok create_ok fs log path =
    (if path = [] \<or> (CHR ''/'' \<in> set path \<and> \<not> dirs_ok) \<or> (fs path = None \<and> \<not> create_ok)
     then (False, (ol_Close log)\<lparr>ol_path := path\<rparr>, fs)
     else case read_loop 1 (content_of fs path) of
       None \<Rightarrow> (False, (ol_Close log)\<lparr>ol_path := path\<rparr>, fs(path \<mapsto> content_of fs path))
     | Some rs \<Rightarrow> (True, (ol_Close log)\<lparr>ol_path := path,
           ol_last_sequence := (if rs = [] then 0 else or_sequence (last rs)), ol_open := True\<rparr>,
         fs(path \<mapsto> content_of fs path)))"
proof -
  have same: "(case fs path of None \<Rightarrow> fs(path \<mapsto> []) | Some _ \<Rightarrow> fs) = fs(path \<mapsto> content_of fs path)"
    by (cases "fs path") (auto simp: content_of_def)
  show ?thesis
    unfolding ol_Open_def Let_def same ol_Validate_def ReadRecords_def
    by (cases "read_loop 1 (content_of fs path)") simp_all
qed

lemma Open_holds:
  assumes "ol_Open dirs_ok create_ok fs log path = (True, log', fs')"
  shows "\<exists>rs. log_holds log' fs' rs \<and> ol_path log' = path \<and> bytes_of rs = content_of fs path"
proof -
  obtain rs where rs: "read_loop 1 (content_of fs path) = Some rs" and path: "path \<noteq> []"
    using assms unfolding ol_Open_eq by (cases "read_loop 1 (content_of fs path)") (simp_all split: if_splits)
  have log': "log' = (ol_Close log)\<lparr>ol_path := path,
      ol_last_sequence := (if rs = [] then 0 else or_sequence (last rs)), ol_open := True\<rparr>"
    and fs': "fs' = fs(path \<mapsto> content_of fs path)"
    using assms rs unfolding ol_Open_eq by (simp_all split: if_splits)
  note rs' = rs [unfolded read_loop_Some]
  have "ol_last_sequence log' = of_nat (length rs)"
    using log' numbered_last [of 1 rs] rs' by (cases "rs = []") simp_all
  then have "log_holds log' fs' rs"
    using rs' path by (simp add: log' fs' log_holds_def)
  then show ?thesis using rs' log' by (intro exI [of _ rs]) simp
qed

lemma Append_all:
  assumes "log_holds log fs rs" and "length payload < 2 ^ 32" and "ol_last_sequence log + 1 \<noteq> u64_max"
    and "ol_last_sequence log \<noteq> u64_max"
  shows "\<exists>log' fs'. ol_Append WriteAll fs log ty payload = (True, log', fs') \<and> ol_path log' = ol_path log \<and>
    log_holds log' fs' (rs @ [\<lparr>or_sequence = ol_last_sequence log + 1, or_type = ty, or_payload = payload\<rparr>])"
proof -
  let ?n = "ol_last_sequence log"
  let ?r = "\<lparr>or_sequence = ?n + 1, or_type = ty, or_payload = payload\<rparr>"
  let ?fs = "fs(ol_path log \<mapsto> bytes_of (rs @ [?r]))"
  have holds: "ol_open log" "ol_path log \<noteq> []" "fs (ol_path log) = Some (bytes_of rs)" "numbered_from 1 rs"
      "?n = of_nat (length rs)"
    using assms(1) unfolding log_holds_def by blast+
  have n: "?n + 1 \<noteq> 0" using assms(4) by (simp only: word_succ_eq_0 not_False_eq_True)
  have len: "\<not> length payload > 4294967295" using assms(2) by simp
  have "WriteRecord WriteAll fs (ol_path log) (?n + 1) ty payload = (True, ?fs)"
    unfolding WriteRecord_def Let_def by (simp add: holds(3))
  then have "ol_Append WriteAll fs log ty payload = (True, log\<lparr>ol_last_sequence := ?n + 1\<rparr>, ?fs)"
    unfolding ol_Append_def ol_AppendAt_def using holds(1) n len assms(4) by simp
  moreover have "numbered_from 1 (rs @ [?r])"
    using holds(4,5) assms(2,3) unfolding numbered_snoc by (simp add: add.commute)
  then have "log_holds (log\<lparr>ol_last_sequence := ?n + 1\<rparr>) ?fs (rs @ [?r])"
    using holds(1,2,5) unfolding log_holds_def by simp
  ultimately show ?thesis by (intro exI [of _ "log\<lparr>ol_last_sequence := ?n + 1\<rparr>"] exI [of _ ?fs]) simp
qed

section \<open>Failed appends\<close>

lemma read_loop_append:
  "numbered_from e rs \<Longrightarrow> read_loop e (bytes_of rs @ x) = map_option ((@) rs) (read_loop (e + of_nat (length rs)) x)"
proof (induction rs arbitrary: e)
  case (Cons r rs)
  have "read_record e (bytes_of (r # rs) @ x) = Some (r, bytes_of rs @ x)"
    using Cons.prems by (simp add: read_record_Some)
  moreover have assoc: "e + of_nat (length (r # rs)) = e + 1 + of_nat (length rs)" by (simp add: add.assoc)
  ultimately show ?case
    using Cons unfolding assoc
    by (cases "read_loop (e + 1 + of_nat (length rs)) x") (simp_all add: read_loop.simps [of e "_ @ _"])
next
  case Nil
  show ?case by (cases "read_loop e x") simp_all
qed

lemma header_inject:
  assumes "take 28 (record_bytes s t p) = take 28 (record_bytes s' t' p')" and "length p < 2 ^ 32" and "length p' < 2 ^ 32"
  shows "length p = length p'"
proof -
  have "take 4 (drop 20 (record_bytes s t p)) = put_u32 (of_nat (length p))" for s t p
    by (simp add: record_bytes_def)
  moreover have "take 4 (drop 20 xs) = take 4 (drop 20 (take 28 xs))" for xs :: string
    by (simp add: take_drop min_def)
  ultimately have "put_u32 (of_nat (length p)) = put_u32 (of_nat (length p'))" using assms(1) by metis
  then have "unat (of_nat (length p) :: 32 word) = unat (of_nat (length p') :: 32 word)" by (simp only: put_inject)
  then show ?thesis using assms(2,3) by (simp add: unat_of_nat)
qed

lemma read_torn_record:
  assumes "k < 28 + length p" and "length p < 2 ^ 32"
  shows "read_record e (take k (record_bytes s t p)) = None"
proof (rule ccontr)
  assume "read_record e (take k (record_bytes s t p)) \<noteq> None"
  then obtain r :: operation_record and rest where
    r: "take k (record_bytes s t p) = record_bytes (or_sequence r) (or_type r) (or_payload r) @ rest"
      "length (or_payload r) < 2 ^ 32"
  proof -
    obtain q where q: "read_record e (take k (record_bytes s t p)) = Some q"
      using \<open>read_record e (take k (record_bytes s t p)) \<noteq> None\<close> by blast
    obtain r rest where "q = (r, rest)" by (cases q)
    with q have "read_record e (take k (record_bytes s t p)) = Some (r, rest)" by simp
    then show thesis unfolding read_record_Some using that by blast
  qed
  have len: "28 + length (or_payload r) \<le> k" using arg_cong [OF r(1), of length] assms(1) by simp
  have "take 28 (record_bytes s t p) = take 28 (take k (record_bytes s t p))" using len by (simp add: min_def)
  then have "take 28 (record_bytes s t p) = take 28 (record_bytes (or_sequence r) (or_type r) (or_payload r))"
    by (simp add: r(1))
  then have "length p = length (or_payload r)" using header_inject assms(2) r(2) by blast
  then show False using len assms(1) by simp
qed

lemma read_repeated_record:
  assumes "numbered_from 1 (rs @ [r])" and "or_sequence r' = or_sequence r"
  shows "read_loop 1 (bytes_of (rs @ [r, r'])) = None"
proof -
  have "read_loop 1 (bytes_of (rs @ [r, r'])) \<noteq> Some rs'" for rs'
  proof
    assume "read_loop 1 (bytes_of (rs @ [r, r'])) = Some rs'"
    moreover have "bytes_of (rs @ [r, r']) = bytes_of (rs @ [r]) @ bytes_of [r']" by simp
    ultimately obtain rs'' where "read_loop (1 + of_nat (length (rs @ [r]))) (bytes_of [r']) = Some rs''"
      using read_loop_append [OF assms(1), of "bytes_of [r']"] by (metis map_option_eq_Some)
    then have rs'': "bytes_of [r'] = bytes_of rs''" "numbered_from (1 + of_nat (length (rs @ [r]))) rs''"
      by (simp_all only: read_loop_Some)
    then obtain q qs where "rs'' = q # qs" by (cases rs'') auto
    then have "get_u64 (drop 8 (bytes_of [r'])) = get_u64 (drop 8 (bytes_of (q # qs)))" using rs'' by simp
    then have "or_sequence r' = or_sequence q" by (simp add: record_bytes_def)
    then show False
      using assms rs''(2) \<open>rs'' = q # qs\<close> by (auto simp: numbered_snoc)
  qed
  then show ?thesis by (cases "read_loop 1 (bytes_of (rs @ [r, r']))") auto
qed

section \<open>Journals\<close>

text \<open>
  What a client of the log relies on: an append that is reported extends the entries by exactly
  that entry, and an append that is refused changes nothing. The log keeps this contract as long
  as the file system writes whole records, up to the number of records the reader accepts.
\<close>

locale journal =
  fixes append :: "'j \<Rightarrow> 'e \<Rightarrow> bool \<times> 'j"
    and entries :: "'j \<Rightarrow> 'e list"
    and journal_ok :: "'j \<Rightarrow> bool"
    and capacity :: nat
  assumes append_reported: "journal_ok j \<Longrightarrow> length (entries j) < capacity \<Longrightarrow> append j e = (True, j') \<Longrightarrow>
      journal_ok j' \<and> entries j' = entries j @ [e]"
    and append_refused: "journal_ok j \<Longrightarrow> append j e = (False, j') \<Longrightarrow> j' = j"
begin

text \<open>Append a sequence of entries; the entries that were reported, and the final journal.\<close>

fun append_all :: "'e list \<Rightarrow> 'j \<Rightarrow> 'e list \<times> 'j" where
  "append_all [] j = ([], j)"
| "append_all (e # es) j =
     (let (reported, j1) = append j e; (rest, j2) = append_all es j1 in (if reported then e # rest else rest, j2))"

lemma append_all_entries:
  "journal_ok j \<Longrightarrow> length (entries j) + length es \<le> capacity \<Longrightarrow> append_all es j = (reported, j') \<Longrightarrow>
    journal_ok j' \<and> entries j' = entries j @ reported"
proof (induction es arbitrary: j reported)
  case (Cons e es)
  obtain b j1 where b: "append j e = (b, j1)" by fastforce
  obtain rest where rest: "append_all es j1 = (rest, j')" "reported = (if b then e # rest else rest)"
    using Cons.prems(3) b by (cases "append_all es j1") auto
  have "journal_ok j1 \<and> entries j1 = entries j @ (if b then [e] else [])"
  proof (cases b)
    case True
    then show ?thesis using append_reported [OF Cons.prems(1)] Cons.prems(2) b by simp
  next
    case False
    then have "j1 = j" using append_refused [OF Cons.prems(1), of e j1] b False by simp
    then show ?thesis using False Cons.prems(1) by simp
  qed
  then show ?case using Cons.IH [of j1 rest] Cons.prems(2) rest by (auto split: if_splits)
qed simp

end

definition journal_append ::
    "operation_log \<times> files \<Rightarrow> operation_type \<times> string \<Rightarrow> bool \<times> (operation_log \<times> files)" where
  "journal_append j e = ol_Append WriteAll (snd j) (fst j) (fst e) (snd e)"

definition journal_entries :: "operation_log \<times> files \<Rightarrow> (operation_type \<times> string) list" where
  "journal_entries j = map (\<lambda>r. (or_type r, or_payload r)) (ol_Replay (snd j) (fst j) 0)"

definition log_ok :: "file_path \<Rightarrow> operation_log \<times> files \<Rightarrow> bool" where
  "log_ok path j \<longleftrightarrow> ol_path (fst j) = path \<and> (\<exists>rs. log_holds (fst j) (snd j) rs)"

definition log_capacity :: nat where
  "log_capacity = 2 ^ 64 - 2"

lemma log_holds_count:
  "log_holds log fs rs \<Longrightarrow> unat (ol_last_sequence log) = length rs"
  using numbered_length [of 1 rs] by (simp add: log_holds_def unat_of_nat unat_sub_u64_max)

lemma ol_Append_WriteAll:
  assumes "log_holds log fs rs" and "ol_Append WriteAll fs log ty payload = (b, log', fs')"
  shows "b \<longleftrightarrow> ol_last_sequence log \<noteq> u64_max \<and> length payload < 2 ^ 32"
    and "\<not> b \<Longrightarrow> log' = log \<and> fs' = fs"
    and "b \<Longrightarrow> length rs < log_capacity \<Longrightarrow> ol_path log' = ol_path log \<and>
      log_holds log' fs' (rs @ [\<lparr>or_sequence = ol_last_sequence log + 1, or_type = ty, or_payload = payload\<rparr>])"
proof -
  have "ol_open log" using assms(1) by (simp add: log_holds_def)
  moreover have "ol_last_sequence log + 1 = 0 \<longleftrightarrow> ol_last_sequence log = u64_max" by (rule word_succ_eq_0)
  moreover have "\<not> 4294967295 < length payload \<longleftrightarrow> length payload < 2 ^ 32" by auto
  ultimately show b: "b \<longleftrightarrow> ol_last_sequence log \<noteq> u64_max \<and> length payload < 2 ^ 32"
    and "\<not> b \<Longrightarrow> log' = log \<and> fs' = fs"
    using assms(2) unfolding ol_Append_def ol_AppendAt_def WriteRecord_def Let_def
    by (simp_all split: if_splits)
  assume "b" and room: "length rs < log_capacity"
  then have "ol_last_sequence log + 1 \<noteq> 0" using b by (simp add: word_succ_eq_0)
  then have "unat (ol_last_sequence log + 1) = Suc (length rs)"
    using log_holds_count [OF assms(1)] by (simp add: unat_succ)
  then have "ol_last_sequence log + 1 \<noteq> u64_max"
    using room by (auto simp: log_capacity_def unat_u64_max)
  then show "ol_path log' = ol_path log \<and>
      log_holds log' fs' (rs @ [\<lparr>or_sequence = ol_last_sequence log + 1, or_type = ty, or_payload = payload\<rparr>])"
    using Append_all [OF assms(1), of payload ty] assms(2) b \<open>b\<close> by auto
qed

lemma journal_entries_holds:
  "log_holds log fs rs \<Longrightarrow> journal_entries (log, fs) = map (\<lambda>r. (or_type r, or_payload r)) rs"
  by (simp add: journal_entries_def log_holds_Replay)

interpretation log: journal journal_append journal_entries "log_ok path" log_capacity for path
proof
  fix j e j'
  assume ok: "log_ok path j"
  then obtain rs where rs: "log_holds (fst j) (snd j) rs" by (auto simp: log_ok_def)
  have j: "journal_entries j = map (\<lambda>r. (or_type r, or_payload r)) rs"
    using journal_entries_holds [OF rs] by simp
  {
    assume app: "journal_append j e = (False, j')"
    then have "ol_Append WriteAll (snd j) (fst j) (fst e) (snd e) = (False, fst j', snd j')"
      by (simp add: journal_append_def)
    from ol_Append_WriteAll(2) [OF rs this] show "j' = j" by (simp add: prod_eq_iff)
  next
    assume room: "length (journal_entries j) < log_capacity" and app: "journal_append j e = (True, j')"
    then have "ol_Append WriteAll (snd j) (fst j) (fst e) (snd e) = (True, fst j', snd j')"
      by (simp add: journal_append_def)
    from ol_Append_WriteAll(3) [OF rs this] room j
    have holds: "log_holds (fst j') (snd j') (rs @ [\<lparr>or_sequence = ol_last_sequence (fst j) + 1, or_type = fst e,
        or_payload = snd e\<rparr>])" by simp
    have "ol_path (fst j') = ol_path (fst j)"
      using ol_Append_WriteAll(3) [OF rs \<open>ol_Append WriteAll _ _ _ _ = _\<close>] room j by simp
    then show "log_ok path j' \<and> journal_entries j' = journal_entries j @ [e]"
      using journal_entries_holds [OF holds] j holds ok by (auto simp: log_ok_def)
  }
qed

section \<open>Properties\<close>

text \<open>Decoding the fields of an encoded payload gives back the fields, and a payload that decodes is
  the encoding of the fields it decodes to: the encoding loses nothing and is unambiguous.\<close>
lemma fields_roundtrip:
  "(\<forall>f \<in> set flds. length f < 2 ^ 64) \<Longrightarrow> DecodeFields payload = Some flds \<longleftrightarrow> payload = EncodeFields flds"
  using decode_encode encode_decode by metis

lemma crc_burst:
  assumes "length burst = length burst'" and "length burst \<le> 4" and "burst \<noteq> burst'"
  shows "ComputeChecksum (before @ burst @ after) \<noteq> ComputeChecksum (before @ burst' @ after)"
proof -
  let ?c = "foldl crc_byte 0xFFFFFFFF before"
  have "x XOR y = x XOR z \<longleftrightarrow> y = z" for x y z :: "32 word"
    by (metis xor.assoc xor.left_neutral xor_self_eq)
  then have "foldl crc_byte ?c burst \<noteq> foldl crc_byte ?c burst'"
    using assms by (simp add: crc_word crc_bits_inject le_word_inject)
  then have "foldl crc_byte 0xFFFFFFFF (before @ burst @ after) \<noteq> foldl crc_byte 0xFFFFFFFF (before @ burst' @ after)"
    by (simp add: foldl_crc_inject)
  then show ?thesis unfolding ComputeChecksum_def by (metis bit.double_compl)
qed

text \<open>The checksum detects every corruption that is confined to four consecutive bytes of a payload
  and keeps its length.\<close>
lemma checksum_detects_bursts:
  assumes "length burst = length burst'" and "length burst \<le> 4" and "burst \<noteq> burst'"
  shows "ComputeChecksum (before @ burst @ after) \<noteq> ComputeChecksum (before @ burst' @ after)"
  using crc_burst [OF assms] .

text \<open>C25: \<open>ReadRecords\<close> accepts a file with the records \<open>rs\<close> exactly when its content is the encodings
  of those records, one after the other, the sequence numbers count up from 1 and stay below the
  maximum, and every payload is shorter than \<open>2 ^ 32\<close>. So a file stands for one record list.\<close>
theorem log_format_exact:
  "ReadRecords fs path = Some rs \<longleftrightarrow>
    path \<noteq> [] \<and> fs path = Some (concat (map (\<lambda>r. record_bytes (or_sequence r) (or_type r) (or_payload r)) rs)) \<and>
    numbered_from 1 rs"
  unfolding ReadRecords_Some bytes_of_def ..

text \<open>C26: after a log was opened, any sequence of appends, each written in full, leaves a file that opens
  again, with the entries found at first followed by exactly the entries whose append was reported,
  in order.\<close>
theorem append_reopen_replay:
  assumes "ol_Open dirs_ok create_ok fs log path = (True, log1, fs1)"
    and "length (journal_entries (log1, fs1)) + length es \<le> log_capacity"
    and "log.append_all es (log1, fs1) = (reported, (log2, fs2))"
  shows "\<exists>log3 fs3. ol_Open True True fs2 (OperationLog path) path = (True, log3, fs3) \<and>
    journal_entries (log3, fs3) = journal_entries (log1, fs1) @ reported"
proof -
  obtain rs1 where rs1: "log_holds log1 fs1 rs1" "ol_path log1 = path" using Open_holds [OF assms(1)] by blast
  then have "log_ok path (log1, fs1)" by (auto simp: log_ok_def)
  from log.append_all_entries [OF this assms(2,3)] obtain rs2 where
    rs2: "log_holds log2 fs2 rs2" "ol_path log2 = path" "journal_entries (log2, fs2) = journal_entries (log1, fs1) @ reported"
    by (auto simp: log_ok_def)
  have content: "content_of fs2 path = bytes_of rs2" "path \<noteq> []" "fs2 path \<noteq> None" "numbered_from 1 rs2"
    using rs2(1,2) by (auto simp: log_holds_def content_of_def)
  then have "read_loop 1 (content_of fs2 path) = Some rs2" by (simp add: read_loop_Some)
  then obtain log3 fs3 where open3: "ol_Open True True fs2 (OperationLog path) path = (True, log3, fs3)"
    using content(2,3) unfolding ol_Open_eq by simp
  from Open_holds [OF this] obtain rs3 where rs3: "log_holds log3 fs3 rs3" "bytes_of rs3 = content_of fs2 path" by blast
  then have "read_loop 1 (content_of fs2 path) = Some rs3" by (simp add: read_loop_Some log_holds_def)
  then have "rs3 = rs2" using \<open>read_loop 1 (content_of fs2 path) = Some rs2\<close> by simp
  then show ?thesis
    using open3 rs2(3) journal_entries_holds [OF rs3(1)] journal_entries_holds [OF rs2(1)] by auto
qed

definition sample_open :: "bool \<times> operation_log \<times> files" where
  "sample_open = ol_Open True True (\<lambda>_. None) (OperationLog ''log'') ''log''"

lemma sample_open_eq:
  "sample_open = (True, \<lparr>ol_path = ''log'', ol_last_sequence = 0, ol_open = True\<rparr>, [''log'' \<mapsto> []])"
  by (simp add: sample_open_def ol_Open_eq content_of_def read_loop.simps ol_Close_def OperationLog_def)

theorem append_reopen_replay_witness:
  "\<exists>log3 fs3. ol_Open True True (snd (snd (log.append_all [(OpCreateFile, ''p'')] (snd sample_open))))
      (OperationLog ''log'') ''log'' = (True, log3, fs3)"
proof -
  have o: "ol_Open True True (\<lambda>_. None) (OperationLog ''log'') ''log'' = (True, fst (snd sample_open), snd (snd sample_open))"
    using sample_open_eq by (simp add: sample_open_def)
  have "journal_entries (fst (snd sample_open), snd (snd sample_open)) = []"
    by (simp add: sample_open_eq journal_entries_def ol_Replay_def ReadRecords_def read_loop.simps)
  then have "length (journal_entries (fst (snd sample_open), snd (snd sample_open))) + length [(OpCreateFile, ''p'')] \<le> log_capacity"
    by (simp add: log_capacity_def)
  from append_reopen_replay [OF o this] show ?thesis by (metis prod.collapse)
qed

text \<open>C27: an append whose write fails leaves the log open. If part of the record reached the file, the
  file is unreadable from then on: nothing is replayed. If all of it did, and only the flush was
  reported to fail, then the next append repeats the sequence number and is itself reported as a
  success, and after it nothing is replayed.\<close>
theorem failed_append_spoils_log:
  assumes "log_holds log fs rs" and "length rs < log_capacity" and "length payload < 2 ^ 32"
    and "ol_Append (WrittenPrefix k) fs log ty payload = (b, log', fs')"
  shows "\<not> b \<and> log' = log \<and>
    (0 < k \<and> k < 28 + length payload \<longrightarrow> \<not> ol_Validate fs' log' \<and> ol_Replay fs' log' 0 = []) \<and>
    (28 + length payload \<le> k \<and> length payload2 < 2 ^ 32 \<longrightarrow>
      (\<exists>log'' fs''. ol_Append WriteAll fs' log' ty2 payload2 = (True, log'', fs'') \<and>
         \<not> ol_Validate fs'' log'' \<and> ol_Replay fs'' log'' 0 = []))"
proof -
  let ?n = "ol_last_sequence log"
  let ?bytes = "record_bytes (?n + 1) ty payload"
  let ?r = "\<lparr>or_sequence = ?n + 1, or_type = ty, or_payload = payload\<rparr>"
  let ?r2 = "\<lparr>or_sequence = ?n + 1, or_type = ty2, or_payload = payload2\<rparr>"
  have holds: "ol_open log" "ol_path log \<noteq> []" "fs (ol_path log) = Some (bytes_of rs)" "numbered_from 1 rs"
      "?n = of_nat (length rs)"
    using assms(1) unfolding log_holds_def by blast+
  have "unat ?n < 2 ^ 64 - 2" using log_holds_count [OF assms(1)] assms(2) by (simp add: log_capacity_def)
  then have n: "?n \<noteq> u64_max" using unat_u64_max by auto
  then have n1: "?n + 1 \<noteq> 0" by (simp only: word_succ_eq_0 not_False_eq_True)
  have wr: "WriteRecord (WrittenPrefix k) fs (ol_path log) (?n + 1) ty payload =
      (False, fs(ol_path log \<mapsto> bytes_of rs @ take k ?bytes))"
    by (simp add: WriteRecord_def Let_def holds(3))
  have len: "\<not> length payload > 4294967295" using assms(3) by simp
  have res: "\<not> b" "log' = log" "fs' = fs(ol_path log \<mapsto> bytes_of rs @ take k ?bytes)"
    using assms(4) holds(1) n n1 len unfolding ol_Append_def ol_AppendAt_def wr by auto
  have none: "\<not> ol_Validate fs2 log2 \<and> ol_Replay fs2 log2 0 = []"
    if "fs2 (ol_path log2) = Some c" "read_loop 1 c = None" for fs2 log2 c
    using that by (simp add: ol_Validate_def ol_Replay_def ReadRecords_def)
  have torn: "\<not> ol_Validate fs' log' \<and> ol_Replay fs' log' 0 = []" if k: "0 < k" "k < 28 + length payload"
  proof (rule none)
    show "fs' (ol_path log') = Some (bytes_of rs @ take k ?bytes)" using res by simp
    have "read_record (1 + of_nat (length rs)) (take k ?bytes) = None" by (rule read_torn_record [OF k(2) assms(3)])
    moreover have "take k ?bytes \<noteq> []" using k(1) by simp
    ultimately show "read_loop 1 (bytes_of rs @ take k ?bytes) = None"
      by (simp add: read_loop_append [OF holds(4)] read_loop.simps [of _ "take k ?bytes"])
  qed
  have whole: "\<exists>log'' fs''. ol_Append WriteAll fs' log' ty2 payload2 = (True, log'', fs'') \<and>
      \<not> ol_Validate fs'' log'' \<and> ol_Replay fs'' log'' 0 = []"
    if k: "28 + length payload \<le> k" and len2: "length payload2 < 2 ^ 32"
  proof -
    have content: "fs' (ol_path log) = Some (bytes_of rs @ ?bytes)" using res(3) k by simp
    have wr2: "WriteRecord WriteAll fs' (ol_path log) (?n + 1) ty2 payload2 =
        (True, fs'(ol_path log \<mapsto> bytes_of (rs @ [?r, ?r2])))"
      by (simp add: WriteRecord_def Let_def content)
    have len2': "\<not> length payload2 > 4294967295" using len2 by simp
    have append2: "ol_Append WriteAll fs' log' ty2 payload2 =
        (True, log\<lparr>ol_last_sequence := ?n + 1\<rparr>, fs'(ol_path log \<mapsto> bytes_of (rs @ [?r, ?r2])))"
      using holds(1) n n1 len2' unfolding ol_Append_def ol_AppendAt_def res(2) wr2 by simp
    have "unat (?n + 1) = Suc (length rs)" using log_holds_count [OF assms(1)] n1 by (simp add: unat_succ)
    then have "?n + 1 \<noteq> u64_max" using assms(2) by (auto simp: log_capacity_def unat_u64_max)
    then have "numbered_from 1 (rs @ [?r])"
      using holds(4,5) assms(3) unfolding numbered_snoc by (simp add: add.commute)
    then have "read_loop 1 (bytes_of (rs @ [?r, ?r2])) = None" by (rule read_repeated_record) simp
    then show ?thesis using append2 none by fastforce
  qed
  show ?thesis using res(1,2) torn whole by blast
qed

theorem failed_append_spoils_log_witness:
  "ol_Replay (snd (snd (ol_Append (WrittenPrefix 10) (snd (snd sample_open)) (fst (snd sample_open)) OpCreateFile ''p'')))
     (fst (snd sample_open)) 0 = []"
proof -
  have "log_holds (fst (snd sample_open)) (snd (snd sample_open)) []"
    by (simp add: sample_open_eq log_holds_def)
  moreover obtain b log' fs' where res: "ol_Append (WrittenPrefix 10) (snd (snd sample_open)) (fst (snd sample_open))
      OpCreateFile ''p'' = (b, log', fs')" by (metis prod.collapse)
  ultimately show ?thesis
    using failed_append_spoils_log [OF _ _ _ res, of "[]"] by (auto simp: log_capacity_def)
qed

end
