(* ===== verification/Decimal.thy ===== *)
theory Decimal
  imports Prelude
begin

text \<open>
  \<open>std::to_string\<close> and \<open>std::stoull\<close> on 64-bit values, as the log payloads and the checkpoint
  file names use them. \<open>stoull\<close> skips leading white space, takes an optional sign and reads
  digits; it throws (None) when there are none or when the value does not fit.
\<close>

definition digit :: "nat \<Rightarrow> char" where
  "digit d = char_of (48 + d mod 10)"

fun nat_to_string :: "nat \<Rightarrow> string" where
  "nat_to_string n = (if n < 10 then [digit n] else nat_to_string (n div 10) @ [digit n])"

definition to_string :: "64 word \<Rightarrow> string" where
  "to_string w = nat_to_string (unat w)"

definition to_string32 :: "32 word \<Rightarrow> string" where
  "to_string32 w = nat_to_string (unat w)"

definition is_digit :: "char \<Rightarrow> bool" where
  "is_digit c \<longleftrightarrow> 48 \<le> (of_char c :: nat) \<and> (of_char c :: nat) \<le> 57"

definition is_space :: "char \<Rightarrow> bool" where
  "is_space c \<longleftrightarrow> (of_char c :: nat) \<in> {9, 10, 11, 12, 13, 32}"

definition digits_value :: "string \<Rightarrow> nat" where
  "digits_value ds = foldl (\<lambda>n c. 10 * n + (of_char c - 48)) 0 ds"

text \<open>The value, and the position after the last digit.\<close>

definition stoull :: "string \<Rightarrow> (64 word \<times> nat) option" where
  "stoull s =
     (let spaces = length (takeWhile is_space s);
          after_space = drop spaces s;
          sign = (if after_space \<noteq> [] \<and> hd after_space \<in> {CHR ''+'', CHR ''-''} then 1 else 0);
          negative = (sign = 1 \<and> hd after_space = CHR ''-'');
          ds = takeWhile is_digit (drop sign after_space);
          v = digits_value ds in
      if ds = [] then None
      else if v \<ge> 2 ^ 64 then None
      else Some (if negative then - of_nat v else of_nat v, spaces + sign + length ds))"

text \<open>The lambda \<open>parse_u64\<close> of \<open>Master::ReplayOperation\<close>: the whole string must be consumed.\<close>

definition parse_u64 :: "string \<Rightarrow> 64 word option" where
  "parse_u64 value =
     (case stoull value of
        None \<Rightarrow> None
      | Some (result, position) \<Rightarrow> if position = length value then Some result else None)"

declare nat_to_string.simps [simp del]

lemma of_char_digit: "of_char (digit d) = (48 + d mod 10 :: nat)"
proof -
  have "48 + d mod 10 < (256 :: nat)" using mod_less_divisor [of 10 d] by linarith
  then show ?thesis by (simp add: digit_def)
qed

lemma is_digit_digit: "is_digit (digit d)"
  using mod_less_divisor [of 10 d] unfolding is_digit_def of_char_digit by linarith

lemma nat_to_string_digits: "c \<in> set (nat_to_string n) \<Longrightarrow> is_digit c"
proof (induction n rule: nat_to_string.induct)
  case (1 n)
  then show ?case by (auto simp: nat_to_string.simps [of n] is_digit_digit split: if_splits)
qed

lemma nat_to_string_Nil [simp]: "nat_to_string n \<noteq> []"
  by (subst nat_to_string.simps) simp

lemma digits_value_to_string: "digits_value (nat_to_string n) = n"
proof (induction n rule: nat_to_string.induct)
  case (1 n)
  show ?case
  proof (cases "n < 10")
    case True
    then show ?thesis by (simp add: nat_to_string.simps [of n] digits_value_def of_char_digit)
  next
    case False
    then show ?thesis using 1 by (simp add: nat_to_string.simps [of n] digits_value_def of_char_digit)
  qed
qed

lemma stoull_to_string: "n < 2 ^ 64 \<Longrightarrow> stoull (nat_to_string n) = Some (of_nat n, length (nat_to_string n))"
proof -
  assume n: "n < 2 ^ 64"
  let ?s = "nat_to_string n"
  have digits: "is_digit c" if "c \<in> set ?s" for c using that by (rule nat_to_string_digits)
  obtain c cs where s: "?s = c # cs" by (cases ?s) auto
  then have c: "is_digit c" using digits by simp
  then have "\<not> is_space c" "c \<noteq> CHR ''+''" "c \<noteq> CHR ''-''" by (auto simp: is_digit_def is_space_def)
  then have "takeWhile is_space ?s = []" "hd ?s \<notin> {CHR ''+'', CHR ''-''}" using s by auto
  moreover have all: "takeWhile is_digit ?s = ?s" unfolding takeWhile_eq_all_conv using digits by blast
  ultimately show ?thesis
    using n digits_value_to_string [of n] unfolding stoull_def Let_def by (simp add: all)
qed

lemma parse_to_string [simp]: "parse_u64 (to_string w) = Some w"
  using stoull_to_string [of "unat w"] unat_u64_less [of w] by (simp add: parse_u64_def to_string_def)

lemma parse_to_string32 [simp]: "parse_u64 (to_string32 w) = Some (ucast w)"
proof -
  have "unat w < 2 ^ 32" using unsigned_less [where w = w and 'a = nat] by simp
  then have "unat w < 2 ^ 64" by simp
  from stoull_to_string [OF this] show ?thesis by (simp add: parse_u64_def to_string32_def)
qed

lemma length_nat_to_string: "n < 10 ^ Suc k \<Longrightarrow> length (nat_to_string n) \<le> Suc k"
proof (induction k arbitrary: n)
  case (Suc k)
  then have "n div 10 < 10 ^ Suc k" by (simp add: less_mult_imp_div_less)
  then show ?case using Suc.IH [of "n div 10"] by (simp add: nat_to_string.simps [of n])
qed (simp add: nat_to_string.simps)

lemma length_to_string32: "length (to_string32 w) \<le> 10"
proof -
  have "unat w < 2 ^ 32" using unsigned_less [where w = w and 'a = nat] by simp
  then show ?thesis using length_nat_to_string [of "unat w" 9] by (simp add: to_string32_def)
qed

lemma nat_to_string_inject: "nat_to_string m = nat_to_string n \<longleftrightarrow> m = n"
  by (metis digits_value_to_string)

end
