(* ===== verification/Checkpoint.thy ===== *)
theory Checkpoint
  imports Namespace Metadata OperationLog Decimal
begin

text \<open>
  \<open>src/master/recovery/checkpoint.cpp\<close>: the binary format of a checkpoint, its validation, and the
  operations that write, find, load and restore checkpoints. A reader that advances \<open>offset\<close> is a
  function from the bytes left to the value read and the bytes left after it.

  The locale \<open>codec\<close> is the contract between a writer and its reader; each piece of the format is an
  interpretation of it, and the format of the whole file follows: \<open>Deserialize\<close> accepts exactly the
  encodings of valid states.
\<close>

section \<open>Codecs\<close>

locale codec =
  fixes put :: "'a \<Rightarrow> string"
    and get :: "string \<Rightarrow> ('a \<times> string) option"
    and storable :: "'a \<Rightarrow> bool"
  assumes get_Some: "get input = Some (a, rest) \<longleftrightarrow> input = put a @ rest \<and> storable a"

text \<open>A counted loop of reads.\<close>

fun read_many :: "(string \<Rightarrow> ('a \<times> string) option) \<Rightarrow> nat \<Rightarrow> string \<Rightarrow> ('a list \<times> string) option" where
  "read_many get 0 input = Some ([], input)"
| "read_many get (Suc n) input =
     (case get input of
        None \<Rightarrow> None
      | Some (a, rest) \<Rightarrow>
          (case read_many get n rest of
             None \<Rightarrow> None
           | Some (as, rest') \<Rightarrow> Some (a # as, rest')))"

definition write_many :: "('a \<Rightarrow> string) \<Rightarrow> 'a list \<Rightarrow> string" where
  "write_many put as = concat (map put as)"

text \<open>A 64-bit count followed by that many values.\<close>

definition put_counted :: "('a \<Rightarrow> string) \<Rightarrow> 'a list \<Rightarrow> string" where
  "put_counted put as = put_u64 (of_nat (length as)) @ write_many put as"

definition get_counted :: "(string \<Rightarrow> ('a \<times> string) option) \<Rightarrow> string \<Rightarrow> ('a list \<times> string) option" where
  "get_counted get input = do { (n, rest) \<leftarrow> get_u64 input; read_many get (unat n) rest }"

definition storable_list :: "('a \<Rightarrow> bool) \<Rightarrow> 'a list \<Rightarrow> bool" where
  "storable_list P as \<longleftrightarrow> length as < 2 ^ 64 \<and> list_all P as"

context codec
begin

lemma read_many_Some:
  "read_many get n input = Some (as, rest) \<longleftrightarrow> input = write_many put as @ rest \<and> length as = n \<and> list_all storable as"
proof (induction n arbitrary: input as)
  case (Suc n)
  have "read_many get (Suc n) input = Some (as, rest) \<longleftrightarrow>
      (\<exists>a as' rest'. get input = Some (a, rest') \<and> read_many get n rest' = Some (as', rest) \<and> as = a # as')"
    by (auto split: option.splits)
  then show ?case using Suc by (cases as) (auto simp: write_many_def get_Some)
qed (auto simp: write_many_def)

lemma get_counted_Some:
  "get_counted get input = Some (as, rest) \<longleftrightarrow> input = put_counted put as @ rest \<and> storable_list storable as"
proof -
  have "get_counted get input = Some (as, rest) \<longleftrightarrow>
      (\<exists>n rest'. get_u64 input = Some (n, rest') \<and> read_many get (unat n) rest' = Some (as, rest))"
    by (auto simp: get_counted_def split: bind_splits)
  also have "\<dots> \<longleftrightarrow> (\<exists>n. input = put_u64 n @ write_many put as @ rest \<and> length as = unat n \<and> list_all storable as)"
    by (auto simp: get_u64_Some read_many_Some)
  also have "\<dots> \<longleftrightarrow> input = put_counted put as @ rest \<and> storable_list storable as"
  proof
    assume "\<exists>n. input = put_u64 n @ write_many put as @ rest \<and> length as = unat n \<and> list_all storable as"
    then show "input = put_counted put as @ rest \<and> storable_list storable as"
      using unat_u64_less by (auto simp: put_counted_def storable_list_def)
  next
    assume "input = put_counted put as @ rest \<and> storable_list storable as"
    then show "\<exists>n. input = put_u64 n @ write_many put as @ rest \<and> length as = unat n \<and> list_all storable as"
      by (intro exI [of _ "of_nat (length as)"]) (auto simp: put_counted_def storable_list_def unat_of_nat)
  qed
  finally show ?thesis .
qed

end

section \<open>The pieces of a checkpoint\<close>

text \<open>\<open>FileState\<close> and \<open>ChunkState\<close> have the fields of \<open>PersistentFile\<close> and \<open>PersistentChunk\<close>.\<close>

type_synonym file_state = persistent_file
type_synonym chunk_state = persistent_chunk

record checkpoint_state =
  ck_sequence :: "64 word"
  ck_namespace_nodes :: "node_info list"
  ck_files :: "file_state list"
  ck_chunks :: "chunk_state list"

definition WriteString :: "string \<Rightarrow> string" where
  "WriteString value = put_u64 (of_nat (length value)) @ value"

definition ReadString :: "string \<Rightarrow> (string \<times> string) option" where
  "ReadString input =
     do {
       (len, rest) \<leftarrow> get_u64 input;
       if unat len > length rest then None else Some (take (unat len) rest, drop (unat len) rest)
     }"

fun node_type_value :: "node_type \<Rightarrow> 32 word" where
  "node_type_value Directory = 0"
| "node_type_value File = 1"

definition node_type_of :: "32 word \<Rightarrow> node_type" where
  "node_type_of v = (if v = 0 then Directory else File)"

definition write_node :: "node_info \<Rightarrow> string" where
  "write_node node = WriteString (ni_path node) @ put_u32 (node_type_value (ni_type node))"

definition read_node :: "string \<Rightarrow> (node_info \<times> string) option" where
  "read_node input =
     do {
       (path, input1) \<leftarrow> ReadString input;
       (type_val, input2) \<leftarrow> get_u32 input1;
       if type_val > node_type_value File then None
       else Some (\<lparr>ni_path = path, ni_type = node_type_of type_val\<rparr>, input2)
     }"

definition read_handle :: "string \<Rightarrow> (chunk_handle \<times> string) option" where
  "read_handle input = do { (handle, rest) \<leftarrow> get_u64 input; if handle = 0 then None else Some (handle, rest) }"

definition write_file :: "file_state \<Rightarrow> string" where
  "write_file f = WriteString (pf_path f) @ put_u64 (pf_size f) @ put_u32 (pf_replication_factor f) @
     put_counted put_u64 (pf_chunk_handles f)"

definition read_file :: "string \<Rightarrow> (file_state \<times> string) option" where
  "read_file input =
     do {
       (path, input1) \<leftarrow> ReadString input;
       (sz, input2) \<leftarrow> get_u64 input1;
       (replication_factor, input3) \<leftarrow> get_u32 input2;
       (chunk_count, input4) \<leftarrow> get_u64 input3;
       if replication_factor = 0 then None
       else do {
         (handles, input5) \<leftarrow> read_many read_handle (unat chunk_count) input4;
         Some (\<lparr>pf_path = path, pf_size = sz, pf_replication_factor = replication_factor,
                pf_chunk_handles = handles\<rparr>, input5)
       }
     }"

definition write_chunk :: "chunk_state \<Rightarrow> string" where
  "write_chunk c = put_u64 (pc_handle c) @ put_u64 (pc_version c) @ put_u64 (pc_size c)"

definition read_chunk :: "string \<Rightarrow> (chunk_state \<times> string) option" where
  "read_chunk input =
     do {
       (handle, input1) \<leftarrow> get_u64 input;
       (version, input2) \<leftarrow> get_u64 input1;
       (sz, input3) \<leftarrow> get_u64 input2;
       if handle = 0 \<or> version = 0 then None
       else Some (\<lparr>pc_handle = handle, pc_version = version, pc_size = sz\<rparr>, input3)
     }"

definition storable_string :: "string \<Rightarrow> bool" where
  "storable_string s \<longleftrightarrow> length s < 2 ^ 64"

definition storable_node :: "node_info \<Rightarrow> bool" where
  "storable_node n \<longleftrightarrow> storable_string (ni_path n)"

definition storable_file :: "file_state \<Rightarrow> bool" where
  "storable_file f \<longleftrightarrow> storable_string (pf_path f) \<and> pf_replication_factor f \<noteq> 0 \<and>
     storable_list (\<lambda>h. h \<noteq> 0) (pf_chunk_handles f)"

definition storable_chunk :: "chunk_state \<Rightarrow> bool" where
  "storable_chunk c \<longleftrightarrow> pc_handle c \<noteq> 0 \<and> pc_version c \<noteq> 0"

interpretation string_codec: codec WriteString ReadString storable_string
proof
  fix input a rest
  have "ReadString input = Some (a, rest) \<longleftrightarrow>
      (\<exists>len bytes. get_u64 input = Some (len, bytes) \<and> unat len \<le> length bytes \<and> a = take (unat len) bytes \<and>
         rest = drop (unat len) bytes)"
    by (auto simp: ReadString_def split: bind_splits if_splits)
  also have "\<dots> \<longleftrightarrow> (\<exists>len. input = put_u64 len @ a @ rest \<and> length a = unat len)"
    by (auto simp: get_u64_Some)
  also have "\<dots> \<longleftrightarrow> input = WriteString a @ rest \<and> storable_string a"
  proof
    assume "\<exists>len. input = put_u64 len @ a @ rest \<and> length a = unat len"
    then show "input = WriteString a @ rest \<and> storable_string a"
      using unat_u64_less by (auto simp: WriteString_def storable_string_def)
  next
    assume "input = WriteString a @ rest \<and> storable_string a"
    then show "\<exists>len. input = put_u64 len @ a @ rest \<and> length a = unat len"
      by (intro exI [of _ "of_nat (length a)"]) (auto simp: WriteString_def storable_string_def unat_of_nat)
  qed
  finally show "ReadString input = Some (a, rest) \<longleftrightarrow> input = WriteString a @ rest \<and> storable_string a" .
qed

interpretation handle_codec: codec put_u64 read_handle "\<lambda>h. h \<noteq> 0"
  by unfold_locales (auto simp: read_handle_def get_u64_Some split: bind_splits if_splits)

lemma node_type_of_value [simp]: "node_type_of (node_type_value t) = t"
  by (cases t) (simp_all add: node_type_of_def)

lemma node_type_cast: "\<not> v > node_type_value File \<longleftrightarrow> (\<exists>t. v = node_type_value t)"
proof
  assume "\<not> v > node_type_value File"
  then have "unat v \<le> 1" by (simp add: word_less_nat_alt)
  then have "unat v = 0 \<or> unat v = 1" by auto
  then have "v = 0 \<or> v = 1" by (simp add: word_unat_eq_iff)
  then show "\<exists>t. v = node_type_value t" by (metis node_type_value.simps)
next
  assume "\<exists>t. v = node_type_value t"
  then obtain t where "v = node_type_value t" ..
  then show "\<not> v > node_type_value File" by (cases t) auto
qed

interpretation node_codec: codec write_node read_node storable_node
proof
  fix input a rest
  have "read_node input = Some (a, rest) \<longleftrightarrow>
      (\<exists>path input1 v. ReadString input = Some (path, input1) \<and> get_u32 input1 = Some (v, rest) \<and>
         \<not> v > node_type_value File \<and> a = \<lparr>ni_path = path, ni_type = node_type_of v\<rparr>)"
    by (auto simp: read_node_def split: bind_splits if_splits)
  also have "\<dots> \<longleftrightarrow> input = write_node a @ rest \<and> storable_node a"
    unfolding node_type_cast string_codec.get_Some get_u32_Some write_node_def storable_node_def
    by (cases a) (auto, metis node_type_of_value)
  finally show "read_node input = Some (a, rest) \<longleftrightarrow> input = write_node a @ rest \<and> storable_node a" .
qed

interpretation file_codec: codec write_file read_file storable_file
proof
  fix input a rest
  have "read_file input = Some (a, rest) \<longleftrightarrow>
      (\<exists>path input1 sz input2 rf input3 handles. ReadString input = Some (path, input1) \<and> get_u64 input1 = Some (sz, input2) \<and>
         get_u32 input2 = Some (rf, input3) \<and> rf \<noteq> 0 \<and> get_counted read_handle input3 = Some (handles, rest) \<and>
         a = \<lparr>pf_path = path, pf_size = sz, pf_replication_factor = rf, pf_chunk_handles = handles\<rparr>)"
    by (auto simp: read_file_def get_counted_def split: bind_splits if_splits)
  also have "\<dots> \<longleftrightarrow> input = write_file a @ rest \<and> storable_file a"
    unfolding string_codec.get_Some get_u64_Some get_u32_Some handle_codec.get_counted_Some write_file_def storable_file_def
    by (cases a) auto
  finally show "read_file input = Some (a, rest) \<longleftrightarrow> input = write_file a @ rest \<and> storable_file a" .
qed

interpretation chunk_codec: codec write_chunk read_chunk storable_chunk
proof
  fix input a rest
  have "read_chunk input = Some (a, rest) \<longleftrightarrow>
      (\<exists>h i1 v i2 sz. get_u64 input = Some (h, i1) \<and> get_u64 i1 = Some (v, i2) \<and> get_u64 i2 = Some (sz, rest) \<and>
         h \<noteq> 0 \<and> v \<noteq> 0 \<and> a = \<lparr>pc_handle = h, pc_version = v, pc_size = sz\<rparr>)"
    by (auto simp: read_chunk_def split: bind_splits if_splits)
  also have "\<dots> \<longleftrightarrow> input = write_chunk a @ rest \<and> storable_chunk a"
    unfolding get_u64_Some write_chunk_def storable_chunk_def by (cases a) auto
  finally show "read_chunk input = Some (a, rest) \<longleftrightarrow> input = write_chunk a @ rest \<and> storable_chunk a" .
qed

section \<open>The format\<close>

definition ck_kMagic :: "32 word" where
  "ck_kMagic = 0x47504631"

definition ck_kVersion :: "32 word" where
  "ck_kVersion = 1"

definition write_body :: "checkpoint_state \<Rightarrow> string" where
  "write_body st = put_u64 (ck_sequence st) @ put_counted write_node (ck_namespace_nodes st) @
     put_counted write_file (ck_files st) @ put_counted write_chunk (ck_chunks st)"

definition sort_state :: "checkpoint_state \<Rightarrow> checkpoint_state" where
  "sort_state st = st\<lparr>ck_namespace_nodes := sort_key ni_path (ck_namespace_nodes st),
     ck_files := sort_key pf_path (ck_files st), ck_chunks := sort_key pc_handle (ck_chunks st)\<rparr>"

definition with_header :: "string \<Rightarrow> string" where
  "with_header body = put_u32 ck_kMagic @ put_u32 ck_kVersion @ put_u64 (of_nat (length body)) @
     put_u32 (ComputeChecksum body) @ body"

definition Serialize :: "checkpoint_state \<Rightarrow> string" where
  "Serialize st = with_header (write_body (sort_state st))"

definition read_body :: "string \<Rightarrow> checkpoint_state option" where
  "read_body body =
     do {
       (sequence, input1) \<leftarrow> get_u64 body;
       (nodes, input2) \<leftarrow> get_counted read_node input1;
       (files, input3) \<leftarrow> get_counted read_file input2;
       (chunks, input4) \<leftarrow> get_counted read_chunk input3;
       if input4 \<noteq> [] then None
       else Some \<lparr>ck_sequence = sequence, ck_namespace_nodes = nodes, ck_files = files, ck_chunks = chunks\<rparr>
     }"

text \<open>\<open>std::adjacent_find\<close> finds something.\<close>

fun adjacent_equal :: "'a list \<Rightarrow> bool" where
  "adjacent_equal (x # y # xs) \<longleftrightarrow> x = y \<or> adjacent_equal (y # xs)"
| "adjacent_equal _ \<longleftrightarrow> False"

text \<open>
  \<open>std::binary_search\<close> on a sorted vector is membership. The loop over the nodes is the one
  \<open>RestoreNodes\<close> starts with.
\<close>

definition ValidateState :: "checkpoint_state \<Rightarrow> bool" where
  "ValidateState st =
     (case check_nodes (ck_namespace_nodes st) False of
        None \<Rightarrow> False
      | Some root_found \<Rightarrow>
          let namespace_paths = sort (map ni_path (ck_namespace_nodes st));
              chunk_handles = sort (map pc_handle (ck_chunks st)) in
          if \<not> root_found then False
          else if adjacent_equal namespace_paths then False
          else if \<not> list_all (\<lambda>c. pc_handle c \<noteq> 0 \<and> pc_version c \<noteq> 0) (ck_chunks st) then False
          else if adjacent_equal chunk_handles then False
          else list_all (\<lambda>f. IsValidPath (pf_path f) \<and> pf_path f \<noteq> ''/'' \<and> pf_replication_factor f \<noteq> 0 \<and>
                   pf_path f \<in> set namespace_paths \<and>
                   list_all (\<lambda>h. h \<in> set chunk_handles) (pf_chunk_handles f)) (ck_files st))"

definition Deserialize :: "string \<Rightarrow> checkpoint_state option" where
  "Deserialize input =
     do {
       (magic, input1) \<leftarrow> get_u32 input;
       (version, input2) \<leftarrow> get_u32 input1;
       (body_size, input3) \<leftarrow> get_u64 input2;
       (checksum, input4) \<leftarrow> get_u32 input3;
       if magic \<noteq> ck_kMagic \<or> version \<noteq> ck_kVersion then None
       else if body_size \<noteq> of_nat (length input4) then None
       else
         let body = take (unat body_size) input4 in
         if ComputeChecksum body \<noteq> checksum then None
         else do {
           st \<leftarrow> read_body body;
           if ValidateState st then Some st else None
         }
     }"

definition storable_state :: "checkpoint_state \<Rightarrow> bool" where
  "storable_state st \<longleftrightarrow> storable_list storable_node (ck_namespace_nodes st) \<and>
     storable_list storable_file (ck_files st) \<and> storable_list storable_chunk (ck_chunks st) \<and>
     length (write_body st) < 2 ^ 64"

lemma read_body_Some:
  "length body < 2 ^ 64 \<Longrightarrow> read_body body = Some st \<longleftrightarrow> body = write_body st \<and> storable_state st"
proof -
  have "read_body body = Some st \<longleftrightarrow>
      (\<exists>s i1 ns i2 fs i3 cs. get_u64 body = Some (s, i1) \<and> get_counted read_node i1 = Some (ns, i2) \<and>
         get_counted read_file i2 = Some (fs, i3) \<and> get_counted read_chunk i3 = Some (cs, []) \<and>
         st = \<lparr>ck_sequence = s, ck_namespace_nodes = ns, ck_files = fs, ck_chunks = cs\<rparr>)"
    by (auto simp: read_body_def split: bind_splits if_splits)
  moreover assume "length body < 2 ^ 64"
  ultimately show ?thesis
    unfolding get_u64_Some node_codec.get_counted_Some file_codec.get_counted_Some chunk_codec.get_counted_Some
    by (cases st) (auto simp: write_body_def storable_state_def)
qed

lemma Deserialize_Some:
  assumes "length input < 2 ^ 64"
  shows "Deserialize input = Some st \<longleftrightarrow>
    input = with_header (write_body st) \<and> storable_state st \<and> ValidateState st"
proof -
  have "Deserialize input = Some st \<longleftrightarrow>
      (\<exists>i1 i2 n i3 c body. get_u32 input = Some (ck_kMagic, i1) \<and> get_u32 i1 = Some (ck_kVersion, i2) \<and>
         get_u64 i2 = Some (n, i3) \<and> get_u32 i3 = Some (c, body) \<and> n = of_nat (length body) \<and>
         ComputeChecksum (take (unat n) body) = c \<and> read_body (take (unat n) body) = Some st \<and> ValidateState st)"
    by (auto simp: Deserialize_def Let_def split: bind_splits if_splits)
  also have "\<dots> \<longleftrightarrow> (\<exists>body. input = with_header body \<and> read_body body = Some st \<and> ValidateState st)"
  proof -
    have whole: "take (unat (of_nat (length body) :: 64 word)) body = body" if "input = xs @ body" for xs body
      using that assms by (simp add: unat_of_nat)
    show ?thesis (is "?L \<longleftrightarrow> ?R")
    proof
      assume ?L
      then obtain body xs where body: "input = xs @ body"
          "xs = put_u32 ck_kMagic @ put_u32 ck_kVersion @ put_u64 (of_nat (length body)) @
             put_u32 (ComputeChecksum (take (unat (of_nat (length body) :: 64 word)) body))"
          "read_body (take (unat (of_nat (length body) :: 64 word)) body) = Some st" "ValidateState st"
        by (auto simp: get_u32_Some get_u64_Some)
      then show ?R unfolding whole [OF body(1)] by (intro exI [of _ body]) (simp add: with_header_def)
    next
      assume ?R
      then obtain body where body: "input = with_header body" "read_body body = Some st" "ValidateState st" by blast
      then have "take (unat (of_nat (length body) :: 64 word)) body = body"
        by (intro whole) (simp add: with_header_def)
      then show ?L using body by (simp add: with_header_def)
    qed
  qed
  also have "\<dots> \<longleftrightarrow> input = with_header (write_body st) \<and> storable_state st \<and> ValidateState st"
  proof -
    have "length body < 2 ^ 64" if "input = with_header body" for body
      using that assms by (simp add: with_header_def)
    then show ?thesis using read_body_Some by (metis storable_state_def)
  qed
  finally show ?thesis .
qed

section \<open>Writing, loading and restoring\<close>

text \<open>\<open>operator/\<close> of paths, for a relative name.\<close>

definition path_div :: "file_path \<Rightarrow> string \<Rightarrow> file_path" where
  "path_div dir name = (if dir = [] \<or> last dir = CHR ''/'' then dir @ name else dir @ ''/'' @ name)"

definition GetCheckpointPath :: "file_path \<Rightarrow> 64 word \<Rightarrow> file_path" where
  "GetCheckpointPath dir sequence = path_div dir (''checkpoint_'' @ to_string sequence @ ''.bin'')"

definition checkpoint_state_of :: "metadata \<Rightarrow> node \<Rightarrow> 64 word \<Rightarrow> checkpoint_state" where
  "checkpoint_state_of m ns sequence =
     \<lparr>ck_sequence = sequence, ck_namespace_nodes = ns_ExportNodes ns, ck_files = md_ExportFiles m,
      ck_chunks = md_ExportChunks m\<rparr>"

text \<open>Writing a whole file anew, as a truncating \<open>ofstream\<close> does.\<close>

definition write_whole :: "write_outcome \<Rightarrow> files \<Rightarrow> file_path \<Rightarrow> string \<Rightarrow> bool \<times> files" where
  "write_whole outcome fs path bytes =
     (case outcome of
        OpenRefused \<Rightarrow> (False, fs)
      | WriteAll \<Rightarrow> (True, fs(path \<mapsto> bytes))
      | WrittenPrefix k \<Rightarrow> (False, fs(path \<mapsto> take k bytes)))"

definition rename_file :: "files \<Rightarrow> file_path \<Rightarrow> file_path \<Rightarrow> files" where
  "rename_file fs source target = (fs(target := fs source))(source := None)"

text \<open>What the file system does to one call of \<open>Create\<close>.\<close>

record create_io =
  ci_dirs_ok :: bool
  ci_temp :: write_outcome
  ci_rename_ok :: bool
  ci_remove_ok :: bool
  ci_rename_again_ok :: bool
  ci_latest :: write_outcome

definition ck_Create ::
    "create_io \<Rightarrow> files \<Rightarrow> file_path \<Rightarrow> metadata \<Rightarrow> node \<Rightarrow> 64 word \<Rightarrow> bool \<times> files" where
  "ck_Create io fs dir m ns sequence =
     (if dir = [] then (False, fs)
      else if \<not> ci_dirs_ok io then (False, fs)
      else
        let serialized = Serialize (checkpoint_state_of m ns sequence);
            final_path = GetCheckpointPath dir sequence;
            temp_path = final_path @ ''.tmp'' in
        case write_whole (ci_temp io) fs temp_path serialized of
          (False, fs1) \<Rightarrow> (False, fs1)
        | (True, fs1) \<Rightarrow>
            let (renamed, fs2) =
              (if ci_rename_ok io then (True, rename_file fs1 temp_path final_path)
               else
                 let removed = (if ci_remove_ok io then fs1(final_path := None) else fs1) in
                 if ci_rename_again_ok io then (True, rename_file removed temp_path final_path)
                 else (False, removed)) in
            if \<not> renamed then (False, fs2)
            else write_whole (ci_latest io) fs2 (path_div dir ''LATEST'') (to_string sequence))"

definition ck_Load :: "files \<Rightarrow> file_path \<Rightarrow> checkpoint_state option" where
  "ck_Load fs path = (case fs path of None \<Rightarrow> None | Some data \<Rightarrow> Deserialize data)"

text \<open>The sequence number in the name of a directory entry, None when \<open>LoadLatest\<close> skips it.\<close>

definition candidate_sequence :: "string \<Rightarrow> 64 word option" where
  "candidate_sequence name =
     (let pre = ''checkpoint_''; suf = ''.bin'' in
      if length name \<le> length pre + length suf then None
      else if take (length pre) name \<noteq> pre \<or> drop (length name - length suf) name \<noteq> suf then None
      else map_option fst (stoull (take (length name - length pre - length suf) (drop (length pre) name))))"

fun load_first :: "files \<Rightarrow> file_path \<Rightarrow> (64 word \<times> string) list \<Rightarrow> checkpoint_state option" where
  "load_first fs dir [] = None"
| "load_first fs dir ((sequence, name) # candidates) =
     (case ck_Load fs (path_div dir name) of
        Some loaded \<Rightarrow> Some loaded
      | None \<Rightarrow> load_first fs dir candidates)"

text \<open>\<open>entries\<close>: the names of the regular files of the directory in the order of its iterator.\<close>

definition ck_candidates :: "string list \<Rightarrow> (64 word \<times> string) list" where
  "ck_candidates entries =
     sort_key (\<lambda>(sequence, name). u64_max - sequence)
       (concat (map (\<lambda>name. case candidate_sequence name of None \<Rightarrow> [] | Some s \<Rightarrow> [(s, name)]) entries))"

definition ck_LoadLatest :: "bool \<Rightarrow> string list \<Rightarrow> files \<Rightarrow> file_path \<Rightarrow> checkpoint_state option" where
  "ck_LoadLatest directory_exists entries fs dir =
     (if dir = [] then None
      else if \<not> directory_exists then None
      else load_first fs dir (ck_candidates entries))"

fun restore_files :: "file_state list \<Rightarrow> metadata \<Rightarrow> bool \<times> metadata" where
  "restore_files [] m = (True, m)"
| "restore_files (f # fs) m =
     (case md_RestoreFile m (pf_path f) (pf_size f) (pf_replication_factor f) (pf_chunk_handles f) of
        (False, m1) \<Rightarrow> (False, m1)
      | (True, m1) \<Rightarrow> restore_files fs m1)"

fun restore_chunks :: "chunk_state list \<Rightarrow> metadata \<Rightarrow> bool \<times> metadata" where
  "restore_chunks [] m = (True, m)"
| "restore_chunks (c # cs) m =
     (case md_RestoreChunk m (pc_handle c) (pc_version c) (pc_size c) of
        (False, m1) \<Rightarrow> (False, m1)
      | (True, m1) \<Rightarrow> restore_chunks cs m1)"

definition ck_Restore :: "checkpoint_state \<Rightarrow> metadata \<Rightarrow> node \<Rightarrow> bool \<times> metadata \<times> node" where
  "ck_Restore st m ns =
     (if \<not> ValidateState st then (False, m, ns)
      else
        let ns1 = ns_Clear ns; m1 = md_Clear m in
        case ns_RestoreNodes ns1 (ck_namespace_nodes st) of
          (False, ns2) \<Rightarrow> (False, m1, ns2)
        | (True, ns2) \<Rightarrow>
            (case restore_files (ck_files st) m1 of
               (False, m2) \<Rightarrow> (False, m2, ns2)
             | (True, m2) \<Rightarrow>
                 (case restore_chunks (ck_chunks st) m2 of (ok, m3) \<Rightarrow> (ok, m3, ns2))))"

section \<open>Restoring an export\<close>

text \<open>Equality of what a checkpoint keeps of the metadata: all but the replicas and the next handle.\<close>

definition durable_eq :: "metadata \<Rightarrow> metadata \<Rightarrow> bool" where
  "durable_eq m m' \<longleftrightarrow> map_of (md_files m) = map_of (md_files m') \<and>
     map_option persistent_chunk_of \<circ> map_of (md_chunks m) = map_option persistent_chunk_of \<circ> map_of (md_chunks m')"

text \<open>Every file of the metadata is a file of the namespace.\<close>

definition files_in_namespace :: "metadata \<Rightarrow> node \<Rightarrow> bool" where
  "files_in_namespace m ns \<longleftrightarrow> (\<forall>path. md_FileExists m path \<longrightarrow> ns_IsFile ns path)"

lemma adjacent_equal_sorted: "sorted xs \<Longrightarrow> adjacent_equal xs \<longleftrightarrow> \<not> distinct xs"
  by (induction xs rule: adjacent_equal.induct) fastforce+

lemma find_key_None: "f x \<notin> f ` set xs \<Longrightarrow> find (\<lambda>y. f y = f x) xs = None"
  unfolding find_None_set by (metis imageI)

lemma check_export: "ns_inv ns \<Longrightarrow> check_nodes (ns_ExportNodes ns) False = Some True"
  using restore_export [of ns ns] by (auto simp: ns_RestoreNodes_def split: if_splits option.splits)

lemma in_exported_values:
  "distinct (map fst al) \<Longrightarrow> x \<in> set (map (g \<circ> snd) al) \<longleftrightarrow> (\<exists>k v. map_of al k = Some v \<and> x = g v)"
proof -
  assume d: "distinct (map fst al)"
  have "map_of al k = Some v \<longleftrightarrow> (k, v) \<in> set al" for k v using d by (rule map_of_eq_Some_iff)
  then have "(\<exists>k v. map_of al k = Some v \<and> x = g v) \<longleftrightarrow> (\<exists>kv \<in> set al. x = g (snd kv))"
    by (metis prod.collapse snd_conv)
  then show ?thesis by auto
qed

lemma in_ExportFiles:
  assumes "md_inv m"
  shows "f \<in> set (md_ExportFiles m) \<longleftrightarrow>
    (\<exists>g. map_of (md_files m) (pf_path f) = Some g \<and> f = persistent_file_of g)"
proof -
  have "distinct (map fst (md_files m))" using assms by (simp add: md_inv_def md_shape_def)
  then have "f \<in> set (md_ExportFiles m) \<longleftrightarrow> (\<exists>k g. map_of (md_files m) k = Some g \<and> f = persistent_file_of g)"
    unfolding md_ExportFiles_def set_sort by (rule in_exported_values)
  moreover have "pf_path (persistent_file_of g) = k" if "map_of (md_files m) k = Some g" for k g
    using md_file_ok [OF assms that] by (simp add: persistent_file_of_def file_ok_def)
  ultimately show ?thesis by blast
qed

lemma in_ExportChunks:
  assumes "md_inv m"
  shows "c \<in> set (md_ExportChunks m) \<longleftrightarrow>
    (\<exists>d. map_of (md_chunks m) (pc_handle c) = Some d \<and> c = persistent_chunk_of d)"
proof -
  have "distinct (map fst (md_chunks m))" using assms by (simp add: md_inv_def md_shape_def)
  then have "c \<in> set (md_ExportChunks m) \<longleftrightarrow> (\<exists>k d. map_of (md_chunks m) k = Some d \<and> c = persistent_chunk_of d)"
    unfolding md_ExportChunks_def set_sort by (rule in_exported_values)
  moreover have "pc_handle (persistent_chunk_of d) = k" if "map_of (md_chunks m) k = Some d" for k d
    using md_chunk_ok [OF assms that] by (simp add: persistent_chunk_of_def chunk_ok_def)
  ultimately show ?thesis by blast
qed

lemma exported_file_path:
  "md_inv m \<Longrightarrow> map_of (md_files m) p = Some g \<Longrightarrow> pf_path (persistent_file_of g) = p"
  using md_file_ok [of m p g] by (simp add: persistent_file_of_def file_ok_def)

lemma exported_chunk_handle:
  "md_inv m \<Longrightarrow> map_of (md_chunks m) h = Some d \<Longrightarrow> pc_handle (persistent_chunk_of d) = h"
  using md_chunk_ok [of m h d] by (simp add: persistent_chunk_of_def chunk_ok_def)

lemma exported_chunk:
  assumes "md_inv m" and "c \<in> set (md_ExportChunks m)"
  shows "pc_handle c \<noteq> 0 \<and> pc_version c \<noteq> 0"
proof -
  obtain d where d: "map_of (md_chunks m) (pc_handle c) = Some d" "c = persistent_chunk_of d"
    using assms in_ExportChunks by blast
  have "pc_handle c \<noteq> 0" "cm_version d \<noteq> 0" using md_chunk_ok [OF assms(1) d(1)] unfolding chunk_ok_def by blast+
  moreover have "pc_version c = cm_version d" unfolding d(2) persistent_chunk_of_def by simp
  ultimately show ?thesis by simp
qed

lemma distinct_map_sort_key: "distinct (map f (sort_key f xs)) = distinct (map f xs)"
  by (rule mset_eq_imp_distinct_iff) simp

lemma distinct_exports:
  assumes "md_inv m"
  shows "distinct (map pf_path (md_ExportFiles m))" and "distinct (map pc_handle (md_ExportChunks m))"
proof -
  have shape: "distinct (map fst (md_files m))" "distinct (map fst (md_chunks m))"
    using assms by (simp_all add: md_inv_def md_shape_def)
  have "pf_path (persistent_file_of (snd x)) = fst x" if "x \<in> set (md_files m)" for x
    using that md_file_ok [OF assms, of "fst x" "snd x"] shape(1)
    by (simp add: persistent_file_of_def file_ok_def map_of_eq_Some_iff)
  then have eq: "map (\<lambda>x. pf_path (persistent_file_of (snd x))) (md_files m) = map fst (md_files m)" by (intro map_cong) auto
  show "distinct (map pf_path (md_ExportFiles m))"
    using shape(1) unfolding md_ExportFiles_def distinct_map_sort_key map_map comp_def eq .
  have "pc_handle (persistent_chunk_of (snd x)) = fst x" if "x \<in> set (md_chunks m)" for x
    using that md_chunk_ok [OF assms, of "fst x" "snd x"] shape(2)
    by (simp add: persistent_chunk_of_def chunk_ok_def map_of_eq_Some_iff)
  then have eq: "map (\<lambda>x. pc_handle (persistent_chunk_of (snd x))) (md_chunks m) = map fst (md_chunks m)" by (intro map_cong) auto
  show "distinct (map pc_handle (md_ExportChunks m))"
    using shape(2) unfolding md_ExportChunks_def distinct_map_sort_key map_map comp_def eq .
qed

lemma ValidateState_export:
  assumes ns: "ns_inv ns" and m: "md_inv m" and files: "files_in_namespace m ns"
  shows "ValidateState (checkpoint_state_of m ns s)"
proof -
  have path: "IsValidPath (pf_path f) \<and> pf_path f \<noteq> ''/'' \<and> pf_replication_factor f \<noteq> 0 \<and>
      pf_path f \<in> ni_path ` set (ns_ExportNodes ns) \<and>
      list_all (\<lambda>h. h \<in> pc_handle ` set (md_ExportChunks m)) (pf_chunk_handles f)"
    if exp: "f \<in> set (md_ExportFiles m)" for f
  proof -
    obtain g where g: "map_of (md_files m) (pf_path f) = Some g" "f = persistent_file_of g"
      using exp in_ExportFiles [OF m] by blast
    then have ok: "file_ok (pf_path f) g" using md_file_ok [OF m] by blast
    have "md_FileExists m (pf_path f)" using g by (simp add: md_FileExists_def)
    then have "ns_IsFile ns (pf_path f)" using files by (simp add: files_in_namespace_def)
    then have v: "IsValidPath (pf_path f)" "ns_view ns (SplitPath (pf_path f)) = Some File"
      by (auto simp: ns_IsFile_view)
    then have "pf_path f \<noteq> ''/''" using ns by (auto simp: ns_inv_def)
    moreover have "\<lparr>ni_path = pf_path f, ni_type = File\<rparr> \<in> set (ns_ExportNodes ns)"
      unfolding set_export [OF ns] using v valid_path_split(1) [OF v(1)]
      by (intro exI [of _ "SplitPath (pf_path f)"]) simp
    from imageI [OF this, of ni_path] have "pf_path f \<in> ni_path ` set (ns_ExportNodes ns)" by simp
    moreover have "h \<in> pc_handle ` set (md_ExportChunks m)" if "h \<in> set (pf_chunk_handles f)" for h
    proof -
      have "md_ChunkExists m h" using that g md_file_chunks [OF m] by (auto simp: persistent_file_of_def)
      then obtain d where d: "map_of (md_chunks m) h = Some d" by (auto simp: md_ChunkExists_def)
      then have "pc_handle (persistent_chunk_of d) = h"
        using md_chunk_ok [OF m d] by (simp add: persistent_chunk_of_def chunk_ok_def)
      then show ?thesis using d in_ExportChunks [OF m, of "persistent_chunk_of d"] by (metis image_eqI)
    qed
    ultimately show ?thesis
      using v(1) ok g(2) by (auto simp: list_all_iff file_ok_def persistent_file_of_def)
  qed
  have chunk: "pc_handle c \<noteq> 0 \<and> pc_version c \<noteq> 0" if "c \<in> set (md_ExportChunks m)" for c
    using exported_chunk [OF m that] .
  show ?thesis
    using check_export [OF ns] distinct_export [OF ns] distinct_exports(2) [OF m] path chunk
    by (simp add: ValidateState_def checkpoint_state_of_def adjacent_equal_sorted list_all_iff)
qed

definition file_of_persistent :: "persistent_file \<Rightarrow> file_metadata" where
  "file_of_persistent f = \<lparr>fm_path = pf_path f, fm_size = pf_size f,
     fm_replication_factor = pf_replication_factor f, fm_chunk_handles = pf_chunk_handles f\<rparr>"

lemma persistent_inverse [simp]: "file_of_persistent (persistent_file_of g) = g"
  by (simp add: file_of_persistent_def persistent_file_of_def)

lemma restore_handles_ok:
  "distinct hs \<Longrightarrow> 0 \<notin> set hs \<Longrightarrow> set hs \<inter> set (fm_chunk_handles f) = {} \<Longrightarrow>
    restore_handles f hs = Some (f\<lparr>fm_chunk_handles := fm_chunk_handles f @ hs\<rparr>)"
  by (induction hs arbitrary: f) (auto simp: HasChunk_def fm_AddChunk_def)

lemma RestoreFile_ok:
  assumes "pf_path f \<noteq> []" and "\<not> md_FileExists m (pf_path f)" and "pf_replication_factor f \<noteq> 0"
    and "distinct (pf_chunk_handles f)" and "0 \<notin> set (pf_chunk_handles f)"
  shows "md_RestoreFile m (pf_path f) (pf_size f) (pf_replication_factor f) (pf_chunk_handles f) =
    (True, md_put_file m (pf_path f) (file_of_persistent f))"
  using assms restore_handles_ok [of "pf_chunk_handles f" "(FileMetadata (pf_path f) (pf_replication_factor f))\<lparr>fm_size := pf_size f\<rparr>"]
  by (simp add: md_RestoreFile_def FileMetadata_def file_of_persistent_def)

lemma restore_files_ok:
  assumes "distinct (map pf_path fs)" and "\<forall>f \<in> set fs. \<not> md_FileExists m (pf_path f)"
    and "\<forall>f \<in> set fs. pf_path f \<noteq> [] \<and> pf_replication_factor f \<noteq> 0 \<and> distinct (pf_chunk_handles f) \<and>
      0 \<notin> set (pf_chunk_handles f)"
  shows "\<exists>m'. restore_files fs m = (True, m') \<and> md_chunks m' = md_chunks m \<and> md_next m' = md_next m \<and>
    (distinct (map fst (md_files m)) \<longrightarrow> distinct (map fst (md_files m'))) \<and>
    (\<forall>p. map_of (md_files m') p =
      (case find (\<lambda>f. pf_path f = p) fs of Some f \<Rightarrow> Some (file_of_persistent f) | None \<Rightarrow> map_of (md_files m) p))"
  using assms
proof (induction fs arbitrary: m)
  case (Cons f fs)
  let ?m = "md_put_file m (pf_path f) (file_of_persistent f)"
  have step: "restore_files (f # fs) m = restore_files fs ?m" using Cons.prems RestoreFile_ok [of f m] by simp
  have "\<forall>g \<in> set fs. \<not> md_FileExists ?m (pf_path g)"
    using Cons.prems by (auto simp: md_FileExists_def) (metis image_eqI)
  then obtain m' where m': "restore_files fs ?m = (True, m')" "md_chunks m' = md_chunks m" "md_next m' = md_next m"
      "distinct (map fst (md_files ?m)) \<longrightarrow> distinct (map fst (md_files m'))"
      "\<And>p. map_of (md_files m') p =
        (case find (\<lambda>f. pf_path f = p) fs of Some f \<Rightarrow> Some (file_of_persistent f) | None \<Rightarrow> map_of (md_files ?m) p)"
    using Cons.IH [of ?m] Cons.prems by auto
  have "find (\<lambda>g. pf_path g = pf_path f) fs = None" using Cons.prems(1) by (intro find_key_None) simp
  then have "map_of (md_files m') p = (case find (\<lambda>f. pf_path f = p) (f # fs) of
      Some f \<Rightarrow> Some (file_of_persistent f) | None \<Rightarrow> map_of (md_files m) p)" for p
    using m'(5) [of p] by (auto split: option.splits)
  moreover have "distinct (map fst (md_files m)) \<longrightarrow> distinct (map fst (md_files ?m))"
    by (simp add: md_put_file_def)
  ultimately show ?case using step m' by auto
qed simp

definition chunk_of_persistent :: "persistent_chunk \<Rightarrow> chunk_metadata" where
  "chunk_of_persistent c = (ChunkMetadata (pc_handle c) (pc_version c))\<lparr>cm_size := pc_size c\<rparr>"

lemma persistent_chunk_inverse [simp]: "persistent_chunk_of (chunk_of_persistent c) = c"
  by (simp add: persistent_chunk_of_def chunk_of_persistent_def ChunkMetadata_def)

lemma restore_chunks_ok:
  assumes "distinct (map pc_handle cs)" and "\<forall>c \<in> set cs. \<not> md_ChunkExists m (pc_handle c)"
    and "\<forall>c \<in> set cs. pc_handle c \<noteq> 0 \<and> pc_version c \<noteq> 0 \<and> pc_handle c \<noteq> u64_max" and "md_fresh m"
  shows "\<exists>m'. restore_chunks cs m = (True, m') \<and> md_files m' = md_files m \<and> md_fresh m' \<and>
    (distinct (map fst (md_chunks m)) \<longrightarrow> distinct (map fst (md_chunks m'))) \<and>
    (\<forall>h. map_of (md_chunks m') h =
      (case find (\<lambda>c. pc_handle c = h) cs of Some c \<Rightarrow> Some (chunk_of_persistent c) | None \<Rightarrow> map_of (md_chunks m) h))"
  using assms
proof (induction cs arbitrary: m)
  case (Cons c cs)
  let ?p = "md_put_chunk m (pc_handle c) (chunk_of_persistent c)"
  let ?m = "snd (md_bump_next ?p (pc_handle c))"
  have c: "pc_handle c \<noteq> 0" "pc_version c \<noteq> 0" "pc_handle c \<noteq> u64_max" "\<not> md_ChunkExists m (pc_handle c)"
    using Cons.prems by auto
  have "fst (md_bump_next ?p (pc_handle c)) = False" using c(3) md_bump_next_wrapped by blast
  then have "md_RestoreChunk m (pc_handle c) (pc_version c) (pc_size c) = (True, ?m)"
    using c by (simp add: md_RestoreChunk_def chunk_of_persistent_def Let_def case_prod_beta prod_eq_iff)
  then have step: "restore_chunks (c # cs) m = restore_chunks cs ?m" by simp
  have "pc_handle d \<noteq> pc_handle c" if "d \<in> set cs" for d
    using Cons.prems(1) imageI [OF that, of pc_handle] by auto
  then have "\<forall>d \<in> set cs. \<not> md_ChunkExists ?m (pc_handle d)" using Cons.prems(2) by simp
  moreover have "md_next ?m \<noteq> 0"
    using c(3) Cons.prems(4) by (auto simp: md_bump_next_def word_succ_eq_0 md_fresh_def)
  then have "md_fresh ?m" by (intro md_fresh_bump [OF Cons.prems(4)]) auto
  ultimately obtain m' where m': "restore_chunks cs ?m = (True, m')" "md_files m' = md_files m" "md_fresh m'"
      "distinct (map fst (md_chunks ?m)) \<longrightarrow> distinct (map fst (md_chunks m'))"
      "\<And>h. map_of (md_chunks m') h =
        (case find (\<lambda>c. pc_handle c = h) cs of Some c \<Rightarrow> Some (chunk_of_persistent c) | None \<Rightarrow> map_of (md_chunks ?m) h)"
    using Cons.IH [of ?m] Cons.prems by auto
  have "find (\<lambda>d. pc_handle d = pc_handle c) cs = None" using Cons.prems(1) by (intro find_key_None) simp
  then have "map_of (md_chunks m') h = (case find (\<lambda>c. pc_handle c = h) (c # cs) of
      Some c \<Rightarrow> Some (chunk_of_persistent c) | None \<Rightarrow> map_of (md_chunks m) h)" for h
    using m'(5) [of h] by (auto split: option.splits)
  moreover have "distinct (map fst (md_chunks m)) \<longrightarrow> distinct (map fst (md_chunks ?m))"
    by (simp add: md_put_chunk_def)
  ultimately show ?case using step m' by auto
qed simp

lemma Restore_checkpoint:
  assumes ns: "ns_inv ns" and m: "md_inv m" and files: "files_in_namespace m ns" and last: "\<not> md_ChunkExists m u64_max"
  shows "\<exists>m' ns'. ck_Restore (checkpoint_state_of m ns s) m0 ns0 = (True, m', ns') \<and>
    ns_view ns' = ns_view ns \<and> ns_inv ns' \<and> durable_eq m' m \<and> md_inv m' \<and> md_fresh m'"
proof -
  obtain ns' where ns': "ns_RestoreNodes (ns_Clear ns0) (ns_ExportNodes ns) = (True, ns')"
      "ns_view ns' = ns_view ns" "ns_inv ns'" using restore_export [OF ns] by blast
  have fok: "\<forall>f \<in> set (md_ExportFiles m). pf_path f \<noteq> [] \<and> pf_replication_factor f \<noteq> 0 \<and>
      distinct (pf_chunk_handles f) \<and> 0 \<notin> set (pf_chunk_handles f)"
  proof
    fix f
    assume "f \<in> set (md_ExportFiles m)"
    then obtain g where g: "map_of (md_files m) (pf_path f) = Some g" "f = persistent_file_of g"
      using in_ExportFiles [OF m] by blast
    then show "pf_path f \<noteq> [] \<and> pf_replication_factor f \<noteq> 0 \<and> distinct (pf_chunk_handles f) \<and>
        0 \<notin> set (pf_chunk_handles f)"
      using md_file_ok [OF m g(1)] by (simp add: file_ok_def persistent_file_of_def)
  qed
  let ?F = "md_ExportFiles m" and ?C = "md_ExportChunks m"
  have m0: "md_files md_init = []" "md_chunks md_init = []" "md_fresh md_init"
    by (simp add: md_init_def, simp add: md_init_def, rule md_fresh_init)
  have "\<forall>f \<in> set ?F. \<not> md_FileExists md_init (pf_path f)" by (simp add: md_FileExists_def m0)
  from restore_files_ok [OF distinct_exports(1) [OF m] this fok] obtain m1 where
    m1: "restore_files ?F md_init = (True, m1)" "md_chunks m1 = md_chunks md_init" "md_next m1 = md_next md_init"
      "distinct (map fst (md_files m1))"
      "\<And>p. map_of (md_files m1) p =
        (case find (\<lambda>f. pf_path f = p) ?F of Some f \<Rightarrow> Some (file_of_persistent f) | None \<Rightarrow> map_of (md_files md_init) p)"
    unfolding m0 by auto
  have cok: "\<forall>c \<in> set ?C. pc_handle c \<noteq> 0 \<and> pc_version c \<noteq> 0 \<and> pc_handle c \<noteq> u64_max"
  proof
    fix c
    assume c: "c \<in> set ?C"
    then obtain d where "map_of (md_chunks m) (pc_handle c) = Some d" using in_ExportChunks [OF m] by blast
    then have "md_ChunkExists m (pc_handle c)" by (simp add: md_ChunkExists_def)
    then show "pc_handle c \<noteq> 0 \<and> pc_version c \<noteq> 0 \<and> pc_handle c \<noteq> u64_max"
      using exported_chunk [OF m c] last by metis
  qed
  have "md_fresh m1" using m0(3) m1(2,3) by (simp add: md_fresh_def md_ChunkExists_def)
  moreover have "\<forall>c \<in> set ?C. \<not> md_ChunkExists m1 (pc_handle c)" by (simp add: md_ChunkExists_def m1(2) m0)
  ultimately obtain m2 where
    m2: "restore_chunks ?C m1 = (True, m2)" "md_files m2 = md_files m1" "md_fresh m2" "distinct (map fst (md_chunks m2))"
      "\<And>h. map_of (md_chunks m2) h =
        (case find (\<lambda>c. pc_handle c = h) ?C of Some c \<Rightarrow> Some (chunk_of_persistent c) | None \<Rightarrow> map_of (md_chunks m1) h)"
    using restore_chunks_ok [OF distinct_exports(2) [OF m] _ cok, of m1] m1(2) m0(2) by auto
  have files2: "map_of (md_files m2) p = map_of (md_files m) p" for p
  proof (cases "find (\<lambda>f. pf_path f = p) ?F")
    case None
    then have "map_of (md_files m) p = None"
      using in_ExportFiles [OF m] exported_file_path [OF m] unfolding find_None_set by (metis not_None_eq)
    then show ?thesis using None m1(5) m2(2) m0(1) by simp
  next
    case (Some f)
    then have f: "f \<in> set ?F" "pf_path f = p" by (auto dest: find_Some_set)
    then obtain g where "map_of (md_files m) p = Some g" "f = persistent_file_of g" using in_ExportFiles [OF m] by blast
    then show ?thesis using Some m1(5) m2(2) by simp
  qed
  have chunks2: "map_option persistent_chunk_of (map_of (md_chunks m2) h) = map_option persistent_chunk_of (map_of (md_chunks m) h)" for h
  proof (cases "find (\<lambda>c. pc_handle c = h) ?C")
    case None
    then have "map_of (md_chunks m) h = None"
      using in_ExportChunks [OF m] exported_chunk_handle [OF m] unfolding find_None_set by (metis not_None_eq)
    then show ?thesis using None m2(5) m1(2) m0(2) by simp
  next
    case (Some c)
    then have c: "c \<in> set ?C" "pc_handle c = h" by (auto dest: find_Some_set)
    then obtain d where "map_of (md_chunks m) h = Some d" "c = persistent_chunk_of d" using in_ExportChunks [OF m] by blast
    then show ?thesis using Some m2(5) by simp
  qed
  have restore: "ck_Restore (checkpoint_state_of m ns s) m0 ns0 = (True, m2, ns')"
    using ns'(1) m1(1) m2(1) ValidateState_export [OF ns m files]
    by (simp add: ck_Restore_def checkpoint_state_of_def md_Clear_def Let_def)
  have exists2: "md_ChunkExists m2 h \<longleftrightarrow> md_ChunkExists m h" for h
    using chunks2 [of h] unfolding md_ChunkExists_def by (metis option.map_disc_iff)
  have "md_inv m2"
    unfolding md_inv_def md_shape_def no_dangling_def files2 exists2
  proof (intro conjI allI impI ballI)
    show "distinct (map fst (md_files m2))" "distinct (map fst (md_chunks m2))" using m1(4) m2(2,4) by simp_all
    show "file_ok path f" if "map_of (md_files m) path = Some f" for path f using md_file_ok [OF m that] .
    show "md_ChunkExists m h" if "map_of (md_files m) path = Some f" "h \<in> set (fm_chunk_handles f)" for path f h
      using md_file_chunks [OF m that] .
    show "chunk_ok h c" if "map_of (md_chunks m2) h = Some c" for h c
      using that m2(5) [of h] cok m1(2) m0(2)
      by (auto simp: chunk_ok_def chunk_of_persistent_def ChunkMetadata_def split: option.splits dest!: find_Some_set)
  qed
  then show ?thesis
    using restore ns'(2,3) m2(3) files2 chunks2 by (auto simp: durable_eq_def fun_eq_iff)
qed

section \<open>What \<open>Create\<close> leaves behind\<close>

lemma sort_key_idem: "sort_key f (sort_key f xs) = sort_key f xs"
  by (rule properties_for_sort_key) simp_all

lemma sort_export [simp]: "sort_state (checkpoint_state_of m ns s) = checkpoint_state_of m ns s"
  by (simp add: sort_state_def checkpoint_state_of_def ns_ExportNodes_def md_ExportFiles_def md_ExportChunks_def
      sort_key_idem del: export_loop.simps)

lemma path_div_inject [simp]: "path_div dir a = path_div dir b \<longleftrightarrow> a = b"
  by (simp add: path_div_def)

lemma latest_not_checkpoint: "path_div dir ''LATEST'' \<noteq> GetCheckpointPath dir s"
  by (simp add: GetCheckpointPath_def)

lemma latest_not_temp: "path_div dir ''LATEST'' \<noteq> GetCheckpointPath dir s @ ''.tmp''"
  by (simp add: GetCheckpointPath_def path_div_def)

lemma Create_files:
  assumes "ck_Create io fs dir m ns s = (ok, fs')"
    and "p \<noteq> path_div dir ''LATEST''" and "p \<noteq> GetCheckpointPath dir s @ ''.tmp''"
  defines "new \<equiv> Some (Serialize (checkpoint_state_of m ns s))"
  shows "p \<noteq> GetCheckpointPath dir s \<Longrightarrow> fs' p = fs p"
    and "p = GetCheckpointPath dir s \<Longrightarrow> fs' p = fs p \<or> fs' p = new \<or>
      (\<not> ok \<and> \<not> ci_rename_ok io \<and> \<not> ci_rename_again_ok io \<and> fs' p = None)"
    and "ok \<Longrightarrow> p = GetCheckpointPath dir s \<Longrightarrow> fs' p = new"
  using assms(1-3) unfolding new_def
  by (auto simp: ck_Create_def write_whole_def rename_file_def Let_def split: if_splits write_outcome.splits)

lemma read_back:
  assumes "storable_state (checkpoint_state_of m ns s)" and "ValidateState (checkpoint_state_of m ns s)"
    and "length (Serialize (checkpoint_state_of m ns s)) < 2 ^ 64"
  shows "Deserialize (Serialize (checkpoint_state_of m ns s)) = Some (checkpoint_state_of m ns s)"
  unfolding Deserialize_Some [OF assms(3)] using assms(1,2) by (simp add: Serialize_def)

section \<open>Properties\<close>

text \<open>C28: \<open>Deserialize\<close> accepts a byte string as the state \<open>st\<close> exactly when it is the header followed by
  the encoding of \<open>st\<close>, the sizes in it fit their fields, handles, versions and replication factors
  in it are non-zero, and the state passes validation. So a checkpoint file stands for one state.\<close>
theorem checkpoint_format_exact:
  assumes "length input < 2 ^ 64"
  shows "Deserialize input = Some st \<longleftrightarrow>
    input = with_header (write_body st) \<and> storable_state st \<and> ValidateState st"
  using assms by (rule Deserialize_Some)

definition sample_state :: checkpoint_state where
  "sample_state = \<lparr>ck_sequence = 5, ck_namespace_nodes = [\<lparr>ni_path = ''/'', ni_type = Directory\<rparr>],
     ck_files = [], ck_chunks = [\<lparr>pc_handle = 3, pc_version = 1, pc_size = 9\<rparr>]\<rparr>"

lemmas body_defs = write_body_def put_counted_def write_many_def write_node_def WriteString_def write_file_def write_chunk_def

lemma sample_state_length: "length (write_body sample_state) = 69"
  by (simp add: sample_state_def body_defs)

lemma sample_state_ok: "storable_state sample_state \<and> ValidateState sample_state"
proof
  have "length (write_body sample_state) = 69" by (simp add: sample_state_length)
  then show "storable_state sample_state"
    by (simp add: storable_state_def sample_state_def storable_list_def storable_node_def storable_string_def
        storable_chunk_def)
  show "ValidateState sample_state" by code_simp
qed

theorem checkpoint_format_exact_witness:
  "Deserialize (with_header (write_body sample_state)) = Some sample_state"
proof -
  have "length (with_header (write_body sample_state)) = 89" by (simp add: with_header_def sample_state_length)
  then show ?thesis
    using checkpoint_format_exact [of "with_header (write_body sample_state)" sample_state] sample_state_ok by simp
qed

text \<open>C29: when \<open>Create\<close> reports success for a consistent metadata and namespace, then loading the
  checkpoint file and restoring it, over any previous contents, succeeds and gives the same namespace
  and the same files and chunks, with handles in use below the next handle.\<close>
theorem checkpoint_restores:
  assumes "ns_inv ns" and "md_inv m" and "files_in_namespace m ns" and "\<not> md_ChunkExists m u64_max"
    and "storable_state (checkpoint_state_of m ns s)"
    and "length (Serialize (checkpoint_state_of m ns s)) < 2 ^ 64"
    and "ck_Create io fs dir m ns s = (True, fs')"
  shows "\<exists>st m' ns'. ck_Load fs' (GetCheckpointPath dir s) = Some st \<and> ck_sequence st = s \<and>
    ck_Restore st m0 ns0 = (True, m', ns') \<and> ns_view ns' = ns_view ns \<and> ns_inv ns' \<and>
    durable_eq m' m \<and> md_inv m' \<and> md_fresh m'"
proof -
  let ?st = "checkpoint_state_of m ns s"
  have "GetCheckpointPath dir s \<noteq> path_div dir ''LATEST''" using latest_not_checkpoint [of dir s] by auto
  then have "fs' (GetCheckpointPath dir s) = Some (Serialize ?st)"
    using Create_files(3) [OF assms(7)] by simp
  then have "ck_Load fs' (GetCheckpointPath dir s) = Some ?st"
    using read_back assms(5,6) ValidateState_export [OF assms(1-3)] by (simp add: ck_Load_def)
  moreover have "ck_sequence ?st = s" by (simp add: checkpoint_state_of_def)
  ultimately show ?thesis using Restore_checkpoint [OF assms(1-4)] by blast
qed

definition sample_ns :: node where
  "sample_ns = snd (ns_CreateFile (snd (ns_CreateFile ns_init ''/f'')) ''/g'')"

definition io_done :: create_io where
  "io_done = \<lparr>ci_dirs_ok = True, ci_temp = WriteAll, ci_rename_ok = True, ci_remove_ok = True, ci_rename_again_ok = True,
     ci_latest = WriteAll\<rparr>"

lemma sample_checkpoint:
  defines "st \<equiv> checkpoint_state_of sample_md sample_ns 5"
  shows "storable_state st" "length (Serialize st) < 2 ^ 64" "files_in_namespace sample_md sample_ns" "ns_inv sample_ns"
    "\<not> md_ChunkExists sample_md u64_max"
proof -
  have parts: "ck_namespace_nodes st = [\<lparr>ni_path = ''/'', ni_type = Directory\<rparr>, \<lparr>ni_path = ''/f'', ni_type = File\<rparr>,
        \<lparr>ni_path = ''/g'', ni_type = File\<rparr>]"
      "ck_files st = [\<lparr>pf_path = ''/f'', pf_size = 0, pf_replication_factor = 3, pf_chunk_handles = [1]\<rparr>,
        \<lparr>pf_path = ''/g'', pf_size = 0, pf_replication_factor = 3, pf_chunk_handles = [1, 2]\<rparr>]"
      "ck_chunks st = [\<lparr>pc_handle = 1, pc_version = 1, pc_size = 0\<rparr>, \<lparr>pc_handle = 2, pc_version = 1, pc_size = 0\<rparr>]"
    unfolding st_def sample_md_eq by code_simp+
  then have len: "length (write_body st) < 1000" by (simp add: body_defs)
  then show "length (Serialize st) < 2 ^ 64" by (simp add: Serialize_def with_header_def st_def)
  show "storable_state st"
    using len parts by (simp add: storable_state_def storable_list_def storable_node_def storable_file_def storable_chunk_def storable_string_def)
  show "ns_inv sample_ns" unfolding sample_ns_def by (intro ns_create_inv ns_inv_init)
  have "ns_IsFile sample_ns ''/f''" "ns_IsFile sample_ns ''/g''" by code_simp+
  then show "files_in_namespace sample_md sample_ns"
    by (auto simp: files_in_namespace_def sample_md_eq md_FileExists_def)
  show "\<not> md_ChunkExists sample_md u64_max" by (simp add: sample_md_eq md_ChunkExists_def u64_max_def)
qed

theorem checkpoint_restores_witness:
  "\<exists>st m' ns'. ck_Load (snd (ck_Create io_done (\<lambda>_. None) ''d'' sample_md sample_ns 5)) (GetCheckpointPath ''d'' 5) = Some st \<and>
    ck_Restore st md_init ns_init = (True, m', ns') \<and> ns_view ns' = ns_view sample_ns \<and> durable_eq m' sample_md"
proof -
  obtain fs' where create: "ck_Create io_done (\<lambda>_. None) ''d'' sample_md sample_ns 5 = (True, fs')"
    by (simp add: ck_Create_def Let_def write_whole_def io_done_def)
  from checkpoint_restores [OF sample_checkpoint(4) sample_md_inv sample_checkpoint(3,5,1,2) create, of md_init ns_init] show ?thesis
    unfolding create by auto
qed

text \<open>C30: \<open>Create\<close> replaces a checkpoint file as a whole. Whatever the file system does to its calls, no
  file changes other than the temporary one, \<open>LATEST\<close> and the checkpoint file of this sequence number,
  and that one is afterwards what it was or the complete new checkpoint. Only when the rename and the
  second rename both fail is it gone, and then \<open>Create\<close> returns false.\<close>
theorem checkpoint_replaced_whole:
  assumes "ck_Create io fs dir m ns s = (ok, fs')"
  shows "(p \<noteq> GetCheckpointPath dir s \<longrightarrow> p \<noteq> path_div dir ''LATEST'' \<longrightarrow> p \<noteq> GetCheckpointPath dir s @ ''.tmp'' \<longrightarrow>
      fs' p = fs p) \<and>
    (fs' (GetCheckpointPath dir s) = fs (GetCheckpointPath dir s) \<or>
     fs' (GetCheckpointPath dir s) = Some (Serialize (checkpoint_state_of m ns s)) \<or>
     (\<not> ok \<and> \<not> ci_rename_ok io \<and> \<not> ci_rename_again_ok io \<and> fs' (GetCheckpointPath dir s) = None))"
  using Create_files(1) [OF assms] Create_files(2) [OF assms, of "GetCheckpointPath dir s"] latest_not_checkpoint [of dir s]
  by auto

theorem checkpoint_replaced_whole_witness:
  "snd (ck_Create (io_done\<lparr>ci_temp := WrittenPrefix 7\<rparr>) ([''d/other'' \<mapsto> ''x''] :: files) ''d'' md_init ns_init 5) ''d/other'' = Some ''x''"
proof -
  have "''d/other'' \<noteq> GetCheckpointPath ''d'' 5" "''d/other'' \<noteq> path_div ''d'' ''LATEST''"
      "''d/other'' \<noteq> GetCheckpointPath ''d'' 5 @ ''.tmp''"
    by (simp_all add: GetCheckpointPath_def path_div_def)
  moreover obtain ok fs' where create: "ck_Create (io_done\<lparr>ci_temp := WrittenPrefix 7\<rparr>) [''d/other'' \<mapsto> ''x''] ''d'' md_init ns_init 5 = (ok, fs')" by fastforce
  ultimately show ?thesis using checkpoint_replaced_whole [OF create, of "''d/other''"] by simp
qed

lemma load_first_Some:
  "load_first fs dir cs = Some st \<Longrightarrow>
    \<exists>pre s name post. cs = pre @ (s, name) # post \<and> ck_Load fs (path_div dir name) = Some st \<and>
      (\<forall>(s', name') \<in> set pre. ck_Load fs (path_div dir name') = None)"
proof (induction fs dir cs rule: load_first.induct)
  case (2 fs dir s name cs)
  show ?case
  proof (cases "ck_Load fs (path_div dir name)")
    case None
    then obtain pre s' name' post where "cs = pre @ (s', name') # post" "ck_Load fs (path_div dir name') = Some st"
        "\<forall>(s', name') \<in> set pre. ck_Load fs (path_div dir name') = None"
      using 2 by auto
    then show ?thesis using None by (intro exI [of _ "(s, name) # pre"]) auto
  next
    case (Some loaded)
    then show ?thesis using 2(2) by (intro exI [of _ "[]"]) auto
  qed
qed simp

lemma load_first_None: "load_first fs dir cs = None \<longleftrightarrow> (\<forall>(s, name) \<in> set cs. ck_Load fs (path_div dir name) = None)"
  by (induction fs dir cs rule: load_first.induct) (auto split: option.splits)

lemma set_candidates: "(s, name) \<in> set (ck_candidates entries) \<longleftrightarrow> name \<in> set entries \<and> candidate_sequence name = Some s"
  by (auto simp: ck_candidates_def split: option.splits)

text \<open>\<open>LoadLatest\<close> returns the state of a checkpoint file whose sequence number is the largest among the
  files that load, skipping newer files that are damaged; it fails only when no checkpoint file of the
  directory loads.\<close>
lemma load_latest_newest:
  assumes "dir \<noteq> []"
  shows "(ck_LoadLatest True entries fs dir = Some st \<longrightarrow>
      (\<exists>name s. name \<in> set entries \<and> candidate_sequence name = Some s \<and> ck_Load fs (path_div dir name) = Some st \<and>
        (\<forall>name' \<in> set entries. \<forall>s'. candidate_sequence name' = Some s' \<longrightarrow> ck_Load fs (path_div dir name') \<noteq> None \<longrightarrow> s' \<le> s))) \<and>
    (ck_LoadLatest True entries fs dir = None \<longleftrightarrow>
      (\<forall>name \<in> set entries. candidate_sequence name \<noteq> None \<longrightarrow> ck_Load fs (path_div dir name) = None))"
proof
  show "ck_LoadLatest True entries fs dir = None \<longleftrightarrow>
      (\<forall>name \<in> set entries. candidate_sequence name \<noteq> None \<longrightarrow> ck_Load fs (path_div dir name) = None)"
    using assms by (auto simp: ck_LoadLatest_def load_first_None set_candidates)
  show "ck_LoadLatest True entries fs dir = Some st \<longrightarrow>
      (\<exists>name s. name \<in> set entries \<and> candidate_sequence name = Some s \<and> ck_Load fs (path_div dir name) = Some st \<and>
        (\<forall>name' \<in> set entries. \<forall>s'. candidate_sequence name' = Some s' \<longrightarrow> ck_Load fs (path_div dir name') \<noteq> None \<longrightarrow> s' \<le> s))"
  proof
    assume "ck_LoadLatest True entries fs dir = Some st"
    then have "load_first fs dir (ck_candidates entries) = Some st" using assms by (simp add: ck_LoadLatest_def)
    then obtain pre s name post where cs: "ck_candidates entries = pre @ (s, name) # post"
        and st: "ck_Load fs (path_div dir name) = Some st"
        and pre: "\<forall>(s', name') \<in> set pre. ck_Load fs (path_div dir name') = None"
      using load_first_Some by blast
    have sorted: "sorted (map (\<lambda>(s, name). u64_max - s) (pre @ (s, name) # post))"
      using cs by (simp add: ck_candidates_def flip: cs)
    have newest: "s' \<le> s" if "name' \<in> set entries" "candidate_sequence name' = Some s'"
        "ck_Load fs (path_div dir name') \<noteq> None" for name' s'
    proof -
      have "(s', name') \<in> set (pre @ (s, name) # post)" using that set_candidates [of s' name' entries] cs by simp
      then have "(s', name') \<in> insert (s, name) (set post)" using pre that(3) by auto
      then have "u64_max - s \<le> u64_max - s'" using sorted by (auto simp: sorted_append)
      then show ?thesis
        using unat_u64_less [of s'] by (simp add: word_le_nat_alt unat_sub_u64_max)
    qed
    have "name \<in> set entries \<and> candidate_sequence name = Some s" using set_candidates [of s name entries] cs by simp
    then show "\<exists>name s. name \<in> set entries \<and> candidate_sequence name = Some s \<and> ck_Load fs (path_div dir name) = Some st \<and>
        (\<forall>name' \<in> set entries. \<forall>s'. candidate_sequence name' = Some s' \<longrightarrow> ck_Load fs (path_div dir name') \<noteq> None \<longrightarrow> s' \<le> s)"
      using st newest by blast
  qed
qed

end
