(* ===== verification/Orphans.thy ===== *)
theory Orphans
  imports Metadata
begin

text \<open>
  \<open>src/master/garbage_collection/orphan_chunk_manager.cpp\<close>: the set of chunks that no file
  refers to. \<open>IdentifyOrphans\<close> brings the set up to date with the metadata.
\<close>

type_synonym orphan_chunks = "chunk_handle set"

definition MarkOrphan :: "orphan_chunks \<Rightarrow> chunk_handle \<Rightarrow> bool \<times> orphan_chunks" where
  "MarkOrphan orphans handle =
     (if handle = 0 then (False, orphans) else (handle \<notin> orphans, insert handle orphans))"

definition RemoveOrphan :: "orphan_chunks \<Rightarrow> chunk_handle \<Rightarrow> bool \<times> orphan_chunks" where
  "RemoveOrphan orphans handle =
     (if handle = 0 then (False, orphans) else (handle \<in> orphans, orphans - {handle}))"

definition IsOrphan :: "orphan_chunks \<Rightarrow> chunk_handle \<Rightarrow> bool" where
  "IsOrphan orphans handle \<longleftrightarrow> handle \<noteq> 0 \<and> handle \<in> orphans"

definition GetOrphanChunks :: "orphan_chunks \<Rightarrow> chunk_handle list" where
  "GetOrphanChunks orphans = sorted_list_of_set orphans"

definition oc_Size :: "orphan_chunks \<Rightarrow> nat" where
  "oc_Size orphans = card orphans"

definition oc_Clear :: "orphan_chunks \<Rightarrow> orphan_chunks" where
  "oc_Clear orphans = {}"

text \<open>The body of the loop of \<open>IdentifyOrphans\<close>.\<close>

definition identify_chunk :: "metadata \<Rightarrow> persistent_chunk \<Rightarrow> orphan_chunks \<Rightarrow> orphan_chunks" where
  "identify_chunk m chunk orphans =
     (if md_GetChunkReferenceCount m (pc_handle chunk) = 0
      then snd (MarkOrphan orphans (pc_handle chunk))
      else snd (RemoveOrphan orphans (pc_handle chunk)))"

definition IdentifyOrphans :: "orphan_chunks \<Rightarrow> metadata \<Rightarrow> chunk_handle list \<times> orphan_chunks" where
  "IdentifyOrphans orphans m =
     (let orphans' = fold (identify_chunk m) (md_ExportChunks m) orphans in
      (GetOrphanChunks orphans', orphans'))"

lemma identify_loop:
  "0 \<notin> pc_handle ` set chunks \<Longrightarrow>
    h \<in> fold (identify_chunk m) chunks orphans \<longleftrightarrow>
      (if h \<in> pc_handle ` set chunks then md_GetChunkReferenceCount m h = 0 else h \<in> orphans)"
proof (induction chunks arbitrary: orphans)
  case (Cons c chunks)
  then show ?case
    using Cons.IH [of "identify_chunk m c orphans"]
    by (auto simp: identify_chunk_def MarkOrphan_def RemoveOrphan_def)
qed simp

lemma finite_identify: "finite orphans \<Longrightarrow> finite (fold (identify_chunk m) chunks orphans)"
  by (induction chunks arbitrary: orphans) (auto simp: identify_chunk_def MarkOrphan_def RemoveOrphan_def)

lemma ExportChunks_handles:
  assumes "md_inv m"
  shows "pc_handle ` set (md_ExportChunks m) = {h. md_ChunkExists m h}"
proof -
  have "pc_handle ` set (md_ExportChunks m) = (\<lambda>x. cm_handle (snd x)) ` set (md_chunks m)"
    by (simp add: md_ExportChunks_def image_image persistent_chunk_of_def)
  also have "\<dots> = fst ` set (md_chunks m)"
  proof (rule image_cong)
    fix x
    assume "x \<in> set (md_chunks m)"
    moreover have "distinct (map fst (md_chunks m))" using assms by (simp add: md_inv_def md_shape_def)
    ultimately have "map_of (md_chunks m) (fst x) = Some (snd x)" by (simp add: map_of_eq_Some_iff)
    then show "cm_handle (snd x) = fst x" using md_chunk_ok [OF assms] by (auto simp: chunk_ok_def)
  qed simp
  finally show ?thesis by (simp only: set_eq_iff md_ChunkExists_def key_in_iff mem_Collect_eq simp_thms)
qed

text \<open>After \<open>IdentifyOrphans\<close> the orphans among the existing chunks are exactly the unreferenced ones.\<close>

lemma IdentifyOrphans_member:
  assumes "md_inv m"
  shows "h \<in> snd (IdentifyOrphans orphans m) \<longleftrightarrow>
    (if md_ChunkExists m h then md_GetChunkReferenceCount m h = 0 else h \<in> orphans)"
proof -
  have "\<not> md_ChunkExists m 0"
    using md_chunk_ok [OF assms, of 0] by (cases "map_of (md_chunks m) 0") (auto simp: md_ChunkExists_def chunk_ok_def)
  then have "0 \<notin> pc_handle ` set (md_ExportChunks m)" by (simp add: ExportChunks_handles [OF assms])
  from identify_loop [OF this, of h m orphans] show ?thesis
    by (simp add: IdentifyOrphans_def Let_def ExportChunks_handles [OF assms])
qed

lemma IdentifyOrphans_result:
  "finite orphans \<Longrightarrow> set (fst (IdentifyOrphans orphans m)) = snd (IdentifyOrphans orphans m)"
  by (simp add: IdentifyOrphans_def Let_def GetOrphanChunks_def finite_identify)

end
