(* ===== verification/Master.thy ===== *)
theory Master
  imports Orphans Leases Heartbeat Checkpoint
begin

text \<open>
  The master, \<open>src/master/master.cpp\<close>: the namespace, the metadata, the replica table, leases,
  heartbeats and orphans of one server, the log every durable operation is written to before it
  is applied, and the files below the persistence directory. \<open>ma_disk\<close> is what a restart keeps.
  How the operating system answers the append and the flush of one operation is the argument
  \<open>io\<close>; the clock is the argument \<open>now\<close>; calls to other servers appear as their results.

  Every operation returns what the member function returns and the next state, changes of state
  before a failing return included.
\<close>

section \<open>State\<close>

record master =
  ma_metadata :: metadata
  ma_namespace :: node
  ma_replicas :: replica_table
  ma_policy :: nat
  ma_leases :: lease_manager
  ma_heartbeats :: heartbeat_manager
  ma_orphans :: orphan_chunks
  ma_directory :: file_path
  ma_log :: operation_log
  ma_disk :: files

record append_io =
  ai_append :: write_outcome
  ai_opened :: bool
  ai_flushed :: bool

definition io_ok :: append_io where
  "io_ok = \<lparr>ai_append = WriteAll, ai_opened = True, ai_flushed = True\<rparr>"

text \<open>Calls of a component's member functions.\<close>

definition on_metadata :: "(metadata \<Rightarrow> 'r \<times> metadata) \<Rightarrow> master \<Rightarrow> 'r \<times> master" where
  "on_metadata f m = (case f (ma_metadata m) of (r, x) \<Rightarrow> (r, m\<lparr>ma_metadata := x\<rparr>))"

definition on_namespace :: "(node \<Rightarrow> 'r \<times> node) \<Rightarrow> master \<Rightarrow> 'r \<times> master" where
  "on_namespace f m = (case f (ma_namespace m) of (r, x) \<Rightarrow> (r, m\<lparr>ma_namespace := x\<rparr>))"

definition on_replicas :: "(replica_table \<Rightarrow> 'r \<times> replica_table) \<Rightarrow> master \<Rightarrow> 'r \<times> master" where
  "on_replicas f m = (case f (ma_replicas m) of (r, x) \<Rightarrow> (r, m\<lparr>ma_replicas := x\<rparr>))"

definition on_leases :: "(lease_manager \<Rightarrow> 'r \<times> lease_manager) \<Rightarrow> master \<Rightarrow> 'r \<times> master" where
  "on_leases f m = (case f (ma_leases m) of (r, x) \<Rightarrow> (r, m\<lparr>ma_leases := x\<rparr>))"

definition on_heartbeats :: "(heartbeat_manager \<Rightarrow> 'r \<times> heartbeat_manager) \<Rightarrow> master \<Rightarrow> 'r \<times> master" where
  "on_heartbeats f m = (case f (ma_heartbeats m) of (r, x) \<Rightarrow> (r, m\<lparr>ma_heartbeats := x\<rparr>))"

definition on_orphans :: "(orphan_chunks \<Rightarrow> 'r \<times> orphan_chunks) \<Rightarrow> master \<Rightarrow> 'r \<times> master" where
  "on_orphans f m = (case f (ma_orphans m) of (r, x) \<Rightarrow> (r, m\<lparr>ma_orphans := x\<rparr>))"

definition operation_log_path :: "file_path \<Rightarrow> file_path" where
  "operation_log_path dir = path_div dir ''operation.log''"

definition open_log :: "bool \<Rightarrow> bool \<Rightarrow> master \<Rightarrow> bool \<times> master" where
  "open_log dirs_ok create_ok m =
     (case ol_Open dirs_ok create_ok (ma_disk m) (ma_log m) (operation_log_path (ma_directory m)) of
        (ok, log, fs) \<Rightarrow> (ok, m\<lparr>ma_log := log, ma_disk := fs\<rparr>))"

text \<open>The constructor; it ignores whether the log opened.\<close>

definition new_master :: "bool \<Rightarrow> bool \<Rightarrow> files \<Rightarrow> 32 word \<Rightarrow> file_path \<Rightarrow> master" where
  "new_master dirs_ok create_ok fs default_replication_factor dir =
     (let m = \<lparr>ma_metadata = md_init, ma_namespace = ns_init, ma_replicas = rm_init,
               ma_policy = PlacementPolicy (unat default_replication_factor), ma_leases = lm_init,
               ma_heartbeats = hb_init, ma_orphans = {}, ma_directory = dir,
               ma_log = OperationLog [], ma_disk = fs\<rparr> in
      if dir \<noteq> [] then snd (open_log dirs_ok create_ok m) else m)"

section \<open>Logging\<close>

definition AppendOperation :: "append_io \<Rightarrow> operation_type \<Rightarrow> string list \<Rightarrow> master \<Rightarrow> bool \<times> master" where
  "AppendOperation io type strings m =
     (if ma_directory m = [] then (True, m)
      else if \<not> ol_open (ma_log m) then (False, m)
      else case ol_Append (ai_append io) (ma_disk m) (ma_log m) type (EncodeFields strings) of
        (False, log, fs) \<Rightarrow> (False, m\<lparr>ma_log := log, ma_disk := fs\<rparr>)
      | (True, log, fs) \<Rightarrow>
          (case ol_Flush (ai_opened io) (ai_flushed io) fs log of
             (ok, fs') \<Rightarrow> (ok, m\<lparr>ma_log := log, ma_disk := fs'\<rparr>)))"

section \<open>Files and directories\<close>

text \<open>The replication factor of a new file; None where \<open>CreateFile\<close> returns false.\<close>

definition choose_factor :: "nat \<Rightarrow> nat \<Rightarrow> 32 word \<Rightarrow> 32 word option" where
  "choose_factor policy_factor live_servers replication_factor =
     (if replication_factor \<noteq> 0 \<and> live_servers \<noteq> 0 \<and> unat replication_factor > live_servers then None
      else
        let factor =
          (if replication_factor \<noteq> 0 then replication_factor
           else if live_servers \<noteq> 0 then of_nat (min policy_factor live_servers)
           else of_nat policy_factor) in
        if factor = 0 then None else Some factor)"

definition ma_CreateFile :: "append_io \<Rightarrow> string \<Rightarrow> 32 word \<Rightarrow> master \<Rightarrow> bool \<times> master" where
  "ma_CreateFile io path replication_factor m =
     (if path = [] \<or> ns_Exists (ma_namespace m) path then (False, m)
      else case choose_factor (ma_policy m) (length (hb_GetLiveServers (ma_heartbeats m))) replication_factor of
        None \<Rightarrow> (False, m)
      | Some factor \<Rightarrow>
          and_then (AppendOperation io OpCreateFile [path, to_string32 factor] m)
            (\<lambda>m. and_then (on_namespace (\<lambda>ns. ns_CreateFile ns path) m)
              (\<lambda>m. case on_metadata (\<lambda>md. md_CreateFile md path factor) m of
                 (True, m) \<Rightarrow> (True, m)
               | (False, m) \<Rightarrow> (False, snd (on_namespace (\<lambda>ns. ns_DeleteFile ns path) m)))))"

text \<open>The bodies of the two loops of \<open>DeleteFile\<close>.\<close>

definition mark_if_last :: "chunk_handle \<Rightarrow> master \<Rightarrow> master" where
  "mark_if_last handle m =
     (if md_GetChunkReferenceCount (ma_metadata m) handle = 1
      then snd (on_orphans (\<lambda>oc. MarkOrphan oc handle) m) else m)"

definition forget_chunk :: "chunk_handle \<Rightarrow> master \<Rightarrow> master" where
  "forget_chunk handle m =
     snd (on_leases (\<lambda>lm. lm_ReleaseLease lm handle) (snd (on_replicas (\<lambda>t. rm_RemoveChunk t handle) m)))"

definition forget_if_unreferenced :: "chunk_handle \<Rightarrow> master \<Rightarrow> master" where
  "forget_if_unreferenced handle m =
     (if md_GetChunkReferenceCount (ma_metadata m) handle = 0 then forget_chunk handle m else m)"

definition ma_DeleteFile :: "append_io \<Rightarrow> string \<Rightarrow> master \<Rightarrow> bool \<times> master" where
  "ma_DeleteFile io path m =
     (if \<not> ns_IsFile (ma_namespace m) path then (False, m)
      else
        let chunks = md_GetFileChunks (ma_metadata m) path in
        and_then (AppendOperation io OpDeleteFile [path] (fold mark_if_last chunks m))
          (\<lambda>m. and_then (on_metadata (\<lambda>md. md_DeleteFile md path) m)
            (\<lambda>m. on_namespace (\<lambda>ns. ns_DeleteFile ns path) (fold forget_if_unreferenced chunks m))))"

definition ma_RenameFile :: "append_io \<Rightarrow> string \<Rightarrow> string \<Rightarrow> master \<Rightarrow> bool \<times> master" where
  "ma_RenameFile io src dst m =
     (if \<not> ns_IsFile (ma_namespace m) src \<or> ns_Exists (ma_namespace m) dst then (False, m)
      else and_then (AppendOperation io OpRenameFile [src, dst] m)
        (\<lambda>m. and_then (on_namespace (\<lambda>ns. ns_Rename ns src dst) m)
          (\<lambda>m. case on_metadata (\<lambda>md. md_RenameFile md src dst) m of
             (True, m) \<Rightarrow> (True, m)
           | (False, m) \<Rightarrow> (False, snd (on_namespace (\<lambda>ns. ns_Rename ns dst src) m)))))"

definition ma_FileExists :: "master \<Rightarrow> string \<Rightarrow> bool" where
  "ma_FileExists m path \<longleftrightarrow> ns_Exists (ma_namespace m) path \<and> ns_IsFile (ma_namespace m) path"

definition ma_CreateDirectory :: "append_io \<Rightarrow> string \<Rightarrow> master \<Rightarrow> bool \<times> master" where
  "ma_CreateDirectory io path m =
     (if ns_Exists (ma_namespace m) path then (False, m)
      else and_then (AppendOperation io OpCreateDirectory [path] m)
        (\<lambda>m. on_namespace (\<lambda>ns. ns_CreateDirectory ns path) m))"

definition ma_DirectoryExists :: "master \<Rightarrow> string \<Rightarrow> bool" where
  "ma_DirectoryExists m path \<longleftrightarrow> ns_Exists (ma_namespace m) path \<and> ns_IsDirectory (ma_namespace m) path"

definition ma_GetFile :: "master \<Rightarrow> string \<Rightarrow> file_metadata option" where
  "ma_GetFile m path = md_GetFile (ma_metadata m) path"

definition ma_UpdateFileSize :: "append_io \<Rightarrow> string \<Rightarrow> 64 word \<Rightarrow> master \<Rightarrow> bool \<times> master" where
  "ma_UpdateFileSize io path sz m =
     (if \<not> md_FileExists (ma_metadata m) path then (False, m)
      else and_then (AppendOperation io OpUpdateFileSize [path, to_string sz] m)
        (on_metadata (\<lambda>md. md_UpdateFileSize md path sz)))"

section \<open>Snapshots\<close>

definition slash_count :: "string \<Rightarrow> nat" where
  "slash_count path = count_list path slash"

definition snapshot_prefix :: "string \<Rightarrow> string" where
  "snapshot_prefix source_path = (if source_path = ''/'' then ''/'' else source_path @ ''/'')"

text \<open>\<open>affected_nodes\<close> of \<open>CreateSnapshotInternal\<close> for a directory, in the order of the loop.\<close>

definition affected_nodes :: "string \<Rightarrow> node_info list \<Rightarrow> node_info list" where
  "affected_nodes source_path nodes =
     sort_key (\<lambda>info. (slash_count (ni_path info), ni_path info))
       (filter (\<lambda>info. ni_path info = source_path \<or>
          (if source_path = ''/'' then ni_path info \<noteq> ''/''
           else prefix (snapshot_prefix source_path) (ni_path info))) nodes)"

definition destination_for :: "bool \<Rightarrow> string \<Rightarrow> string \<Rightarrow> string \<Rightarrow> string" where
  "destination_for source_is_file source_path snapshot_path source =
     (if source_is_file then snapshot_path
      else if source = source_path then snapshot_path
      else snapshot_path @ ''/'' @ drop (length (snapshot_prefix source_path)) source)"

definition drop_created_file :: "string \<Rightarrow> master \<Rightarrow> master" where
  "drop_created_file path m =
     snd (on_namespace (\<lambda>ns. ns_DeleteFile ns path) (snd (on_metadata (\<lambda>md. md_DeleteFile md path) m)))"

definition drop_created_directory :: "string \<Rightarrow> master \<Rightarrow> master" where
  "drop_created_directory path m = snd (on_namespace (\<lambda>ns. ns_DeleteDirectory ns path) m)"

text \<open>The lambda \<open>rollback\<close>; the lists are in order of creation.\<close>

definition rollback :: "string list \<Rightarrow> string list \<Rightarrow> master \<Rightarrow> master" where
  "rollback created_files created_directories m =
     fold drop_created_directory (rev created_directories) (fold drop_created_file (rev created_files) m)"

definition release_all :: "chunk_handle list \<Rightarrow> master \<Rightarrow> master" where
  "release_all handles m = fold (\<lambda>h m. snd (on_leases (\<lambda>lm. lm_ReleaseLease lm h) m)) handles m"

fun snapshot_loop ::
    "string \<Rightarrow> string \<Rightarrow> node_info list \<Rightarrow> string list \<Rightarrow> string list \<Rightarrow> master \<Rightarrow> bool \<times> master" where
  "snapshot_loop source_path snapshot_path [] created_files created_directories m = (True, m)"
| "snapshot_loop source_path snapshot_path (info # infos) created_files created_directories m =
     (if ni_path info = source_path
      then snapshot_loop source_path snapshot_path infos created_files created_directories m
      else
        let destination = destination_for False source_path snapshot_path (ni_path info) in
        if ni_type info = Directory then
          (case on_namespace (\<lambda>ns. ns_CreateDirectory ns destination) m of
             (False, m) \<Rightarrow> (False, rollback created_files created_directories m)
           | (True, m) \<Rightarrow>
               snapshot_loop source_path snapshot_path infos created_files
                 (created_directories @ [destination]) m)
        else
          case md_GetFile (ma_metadata m) (ni_path info) of
            None \<Rightarrow> (False, rollback created_files created_directories m)
          | Some source_file \<Rightarrow>
              (case on_namespace (\<lambda>ns. ns_CreateFile ns destination) m of
                 (False, m) \<Rightarrow> (False, rollback created_files created_directories m)
               | (True, m) \<Rightarrow>
                   (case on_metadata (\<lambda>md. md_CloneFileMetadata md (ni_path info) destination) m of
                      (False, m) \<Rightarrow> (False, rollback (created_files @ [destination]) created_directories m)
                    | (True, m) \<Rightarrow>
                        snapshot_loop source_path snapshot_path infos (created_files @ [destination])
                          created_directories (release_all (fm_chunk_handles source_file) m))))"

definition snapshot_file :: "string \<Rightarrow> string \<Rightarrow> master \<Rightarrow> bool \<times> master" where
  "snapshot_file source_path snapshot_path m =
     (case md_GetFile (ma_metadata m) source_path of
        None \<Rightarrow> (False, m)
      | Some source_file \<Rightarrow>
          and_then (on_namespace (\<lambda>ns. ns_CreateFile ns snapshot_path) m)
            (\<lambda>m. case on_metadata (\<lambda>md. md_CloneFileMetadata md source_path snapshot_path) m of
               (False, m) \<Rightarrow> (False, rollback [snapshot_path] [] m)
             | (True, m) \<Rightarrow> (True, release_all (fm_chunk_handles source_file) m)))"

definition CreateSnapshotInternal :: "string \<Rightarrow> string \<Rightarrow> master \<Rightarrow> bool \<times> master" where
  "CreateSnapshotInternal source_path snapshot_path m =
     (let nodes = ns_ExportNodes (ma_namespace m) in
      if ns_IsFile (ma_namespace m) source_path then
        (case find (\<lambda>info. ni_path info = source_path) nodes of
           None \<Rightarrow> (False, m)
         | Some _ \<Rightarrow> snapshot_file source_path snapshot_path m)
      else
        and_then (on_namespace (\<lambda>ns. ns_CreateDirectory ns snapshot_path) m)
          (snapshot_loop source_path snapshot_path (affected_nodes source_path nodes) [] [snapshot_path]))"

definition ma_CreateSnapshot :: "append_io \<Rightarrow> string \<Rightarrow> string \<Rightarrow> master \<Rightarrow> bool \<times> master" where
  "ma_CreateSnapshot io source_path snapshot_path m =
     (if source_path = [] \<or> snapshot_path = [] \<or> source_path = snapshot_path \<or>
         \<not> ns_Exists (ma_namespace m) source_path \<or> ns_Exists (ma_namespace m) snapshot_path \<or>
         IsRootPath snapshot_path then (False, m)
      else and_then (AppendOperation io OpCreateSnapshot [source_path, snapshot_path] m)
        (CreateSnapshotInternal source_path snapshot_path))"

section \<open>Copy on write\<close>

text \<open>The loop that gives the copy the replicas of the original: \<open>registered\<close>, \<open>primary_registered\<close>.\<close>

fun register_copy :: "chunk_handle \<Rightarrow> server_id list \<Rightarrow> bool \<Rightarrow> master \<Rightarrow> (bool \<times> bool) \<times> master" where
  "register_copy destination [] primary_registered m = ((True, primary_registered), m)"
| "register_copy destination (server # servers) primary_registered m =
     (case on_replicas (\<lambda>t. rm_RegisterReplica t destination server (\<not> primary_registered)) m of
        (False, m) \<Rightarrow> ((False, primary_registered), m)
      | (True, m) \<Rightarrow> register_copy destination servers True m)"

definition drop_copy :: "chunk_handle \<Rightarrow> master \<Rightarrow> master" where
  "drop_copy destination m =
     snd (on_metadata (\<lambda>md. md_DeleteChunk md destination)
       (snd (on_replicas (\<lambda>t. rm_RemoveChunk t destination) m)))"

text \<open>
  \<open>clone_function\<close> is the caller's function, which copies the data between the servers; None
  stands for an empty \<open>std::function\<close>.
\<close>

type_synonym clone_function = "(chunk_handle \<Rightarrow> chunk_handle \<Rightarrow> server_id list \<Rightarrow> bool) option"

definition copy_chunk ::
    "append_io \<Rightarrow> clone_function \<Rightarrow> string \<Rightarrow> chunk_index \<Rightarrow> chunk_handle \<Rightarrow> chunk_metadata \<Rightarrow>
      server_id list \<Rightarrow> chunk_handle \<Rightarrow> master \<Rightarrow> chunk_handle option \<times> master" where
  "copy_chunk io clone path chunk_index source_handle source_chunk replicas destination m =
     (case register_copy destination replicas False m of
        ((registered, primary_registered), m) \<Rightarrow>
          if \<not> registered \<or> (replicas \<noteq> [] \<and> \<not> primary_registered) then (None, drop_copy destination m)
          else
            let m = snd (on_leases (\<lambda>lm. lm_ReleaseLease lm source_handle) m) in
            if (case clone of None \<Rightarrow> False | Some f \<Rightarrow> \<not> f source_handle destination replicas)
            then (None, drop_copy destination m)
            else case on_metadata (\<lambda>md. md_ReplaceChunkInFile md path chunk_index destination) m of
              (False, m) \<Rightarrow> (None, drop_copy destination m)
            | (True, m) \<Rightarrow>
                (case AppendOperation io OpCopyOnWrite
                        [path, to_string chunk_index, to_string source_handle, to_string destination,
                         to_string (cm_version source_chunk), to_string (cm_size source_chunk)] m of
                   (False, m) \<Rightarrow>
                     (None, drop_copy destination
                        (snd (on_metadata (\<lambda>md. md_ReplaceChunkInFile md path chunk_index source_handle) m)))
                 | (True, m) \<Rightarrow> (Some destination, m)))"

definition ma_PrepareCopyOnWrite ::
    "append_io \<Rightarrow> clone_function \<Rightarrow> string \<Rightarrow> chunk_index \<Rightarrow> master \<Rightarrow> chunk_handle option \<times> master" where
  "ma_PrepareCopyOnWrite io clone path chunk_index m =
     (if path = [] \<or> \<not> md_FileExists (ma_metadata m) path then (None, m)
      else
        let chunks = md_GetFileChunks (ma_metadata m) path in
        if length chunks \<le> unat chunk_index then (None, m)
        else
          let source_handle = chunks ! unat chunk_index in
          if source_handle = 0 then (None, m)
          else if md_GetChunkReferenceCount (ma_metadata m) source_handle \<le> 1 then (Some source_handle, m)
          else case md_GetChunk (ma_metadata m) source_handle of
            None \<Rightarrow> (None, m)
          | Some source_chunk \<Rightarrow>
              let replicas = rm_GetReplicaServers (ma_replicas m) source_handle;
                  destination = md_next (ma_metadata m) in
              if destination = 0 then (None, m)
              else case on_metadata (\<lambda>md. md_AllocateStandaloneChunk md destination
                          (cm_version source_chunk) (cm_size source_chunk)) m of
                (False, m) \<Rightarrow> (None, m)
              | (True, m) \<Rightarrow>
                  copy_chunk io clone path chunk_index source_handle source_chunk replicas destination m)"

section \<open>Chunks\<close>

definition ma_SetChunkVersion :: "append_io \<Rightarrow> chunk_handle \<Rightarrow> chunk_version \<Rightarrow> master \<Rightarrow> bool \<times> master" where
  "ma_SetChunkVersion io handle version m =
     (if \<not> md_ChunkExists (ma_metadata m) handle \<or> version = 0 then (False, m)
      else and_then (AppendOperation io OpSetChunkVersion [to_string handle, to_string version] m)
        (on_metadata (\<lambda>md. md_SetChunkVersion md handle version)))"

definition ma_SetChunkSize :: "append_io \<Rightarrow> chunk_handle \<Rightarrow> 64 word \<Rightarrow> master \<Rightarrow> bool \<times> master" where
  "ma_SetChunkSize io handle sz m =
     (if \<not> md_ChunkExists (ma_metadata m) handle then (False, m)
      else and_then (AppendOperation io OpSetChunkSize [to_string handle, to_string sz] m)
        (on_metadata (\<lambda>md. md_SetChunkSize md handle sz)))"

definition ma_AllocateChunk :: "append_io \<Rightarrow> string \<Rightarrow> master \<Rightarrow> chunk_handle option \<times> master" where
  "ma_AllocateChunk io path m =
     (if \<not> md_FileExists (ma_metadata m) path then (None, m)
      else
        let handle = md_next (ma_metadata m) in
        if handle = 0 then (None, m)
        else case and_then (AppendOperation io OpAllocateChunk [path, to_string handle, ''1'', ''0''] m)
                    (on_metadata (\<lambda>md. md_AllocateChunk md path handle 1 0)) of
          (ok, m) \<Rightarrow> (if ok then Some handle else None, m))"

definition ma_AddChunkToFile :: "append_io \<Rightarrow> string \<Rightarrow> chunk_handle \<Rightarrow> master \<Rightarrow> bool \<times> master" where
  "ma_AddChunkToFile io path handle m =
     (if \<not> md_FileExists (ma_metadata m) path \<or> \<not> md_ChunkExists (ma_metadata m) handle then (False, m)
      else and_then (AppendOperation io OpAddChunkToFile [path, to_string handle] m)
        (on_metadata (\<lambda>md. md_AddChunkToFile md path handle)))"

definition ma_RemoveChunkFromFile :: "append_io \<Rightarrow> string \<Rightarrow> chunk_handle \<Rightarrow> master \<Rightarrow> bool \<times> master" where
  "ma_RemoveChunkFromFile io path handle m =
     (if \<not> md_FileExists (ma_metadata m) path \<or> \<not> md_ChunkExists (ma_metadata m) handle then (False, m)
      else and_then (AppendOperation io OpRemoveChunkFromFile [path, to_string handle] m)
        (\<lambda>m. case on_metadata (\<lambda>md. md_RemoveChunkFromFile md path handle) m of
           (removed, m) \<Rightarrow>
             (removed,
              if removed \<and> md_GetChunkReferenceCount (ma_metadata m) handle = 0
              then snd (on_orphans (\<lambda>oc. MarkOrphan oc handle) m) else m)))"

text \<open>
  \<open>deleted\<close> is what \<open>DeleteChunkFromChunkservers\<close> returns, which asks the registered chunkservers
  to delete their copies.
\<close>

definition ma_GarbageCollectChunk :: "append_io \<Rightarrow> bool \<Rightarrow> chunk_handle \<Rightarrow> master \<Rightarrow> bool \<times> master" where
  "ma_GarbageCollectChunk io deleted handle m =
     (if handle = 0 \<or> md_GetChunkReferenceCount (ma_metadata m) handle \<noteq> 0 then (False, m)
      else if \<not> md_ChunkExists (ma_metadata m) handle
      then (True, snd (on_orphans (\<lambda>oc. RemoveOrphan oc handle) m))
      else and_then (AppendOperation io OpDeleteChunk [to_string handle] m)
        (\<lambda>m. if \<not> deleted then (False, m)
          else and_then (on_metadata (\<lambda>md. md_DeleteChunk md handle) (forget_chunk handle m))
            (\<lambda>m. (True, snd (on_orphans (\<lambda>oc. RemoveOrphan oc handle) m)))))"

definition ma_GetAllChunkHandles :: "master \<Rightarrow> chunk_handle list" where
  "ma_GetAllChunkHandles m = map pc_handle (md_ExportChunks (ma_metadata m))"

section \<open>Replicas, leases and heartbeats\<close>

definition ma_RegisterReplica :: "chunk_handle \<Rightarrow> server_id \<Rightarrow> bool \<Rightarrow> master \<Rightarrow> bool \<times> master" where
  "ma_RegisterReplica handle server is_primary =
     on_replicas (\<lambda>t. rm_RegisterReplica t handle server is_primary)"

definition ma_SelectReplicaServers :: "master \<Rightarrow> chunk_handle \<Rightarrow> placement_candidate list \<Rightarrow> server_id list" where
  "ma_SelectReplicaServers m handle candidates = SelectReplicasFor (ma_policy m) handle candidates"

fun place_loop :: "chunk_handle \<Rightarrow> server_id list \<Rightarrow> bool \<Rightarrow> master \<Rightarrow> bool \<times> master" where
  "place_loop handle [] primary_registered m = (primary_registered, m)"
| "place_loop handle (server # servers) primary_registered m =
     and_then (ma_RegisterReplica handle server (\<not> primary_registered) m) (place_loop handle servers True)"

definition ma_PlaceChunkReplicas ::
    "chunk_handle \<Rightarrow> placement_candidate list \<Rightarrow> master \<Rightarrow> server_id list \<times> master" where
  "ma_PlaceChunkReplicas handle candidates m =
     (let servers = ma_SelectReplicaServers m handle candidates in
      if servers = [] then ([], m)
      else case place_loop handle servers False m of
        (ok, m) \<Rightarrow> (if ok then servers else [], m))"

definition ma_AddReplica :: "chunk_handle \<Rightarrow> server_id \<Rightarrow> master \<Rightarrow> bool \<times> master" where
  "ma_AddReplica handle server m =
     and_then (on_metadata (\<lambda>md. md_AddReplica md handle server) m)
       (\<lambda>m. case on_replicas (\<lambda>t. rm_RegisterReplica t handle server False) m of
          (True, m) \<Rightarrow> (True, m)
        | (False, m) \<Rightarrow> (False, snd (on_metadata (\<lambda>md. md_RemoveReplica md handle server) m)))"

definition release_if :: "(lease \<Rightarrow> bool) \<Rightarrow> chunk_handle \<Rightarrow> master \<Rightarrow> master" where
  "release_if P handle m =
     (case lm_GetLease (ma_leases m) handle of
        None \<Rightarrow> m
      | Some l \<Rightarrow> if P l then snd (on_leases (\<lambda>lm. lm_ReleaseLease lm handle) m) else m)"

definition ma_RemoveReplica :: "chunk_handle \<Rightarrow> server_id \<Rightarrow> master \<Rightarrow> bool \<times> master" where
  "ma_RemoveReplica handle server m =
     and_then (on_replicas (\<lambda>t. rm_RemoveReplica t handle server) m)
       (\<lambda>m. let m = snd (on_metadata (\<lambda>md. md_RemoveReplica md handle server) m);
                primary = rm_GetPrimary (ma_replicas m) handle in
             (True, release_if (\<lambda>l. primary \<noteq> Some (lz_primary_server_id l)) handle m))"

definition ma_SetPrimary :: "chunk_handle \<Rightarrow> server_id \<Rightarrow> master \<Rightarrow> bool \<times> master" where
  "ma_SetPrimary handle server m =
     and_then (on_replicas (\<lambda>t. rm_SetPrimary t handle server) m)
       (\<lambda>m. (True, release_if (\<lambda>l. lz_primary_server_id l \<noteq> server) handle m))"

definition ma_RegisterChunkReplica :: "chunk_handle \<Rightarrow> server_id \<Rightarrow> bool \<Rightarrow> master \<Rightarrow> bool \<times> master" where
  "ma_RegisterChunkReplica = ma_RegisterReplica"

definition ma_SetChunkPrimary :: "chunk_handle \<Rightarrow> server_id \<Rightarrow> master \<Rightarrow> bool \<times> master" where
  "ma_SetChunkPrimary = ma_SetPrimary"

definition ma_AcquireLease :: "time_ms \<Rightarrow> chunk_handle \<Rightarrow> server_id \<Rightarrow> master \<Rightarrow> lease option \<times> master" where
  "ma_AcquireLease now handle server m =
     on_leases (\<lambda>lm. lm_AcquireLease lm (ma_replicas m) now handle server 1) m"

definition ma_IsLeaseValid :: "master \<Rightarrow> time_ms \<Rightarrow> chunk_handle \<Rightarrow> bool" where
  "ma_IsLeaseValid m now handle = lm_IsLeaseValid (ma_leases m) (ma_replicas m) now handle"

definition ma_IsLeaseValidFor :: "master \<Rightarrow> time_ms \<Rightarrow> chunk_handle \<Rightarrow> server_id \<Rightarrow> bool" where
  "ma_IsLeaseValidFor m now handle server = lm_IsLeaseValidFor (ma_leases m) (ma_replicas m) now handle server"

definition ma_ExtendLeaseDefault :: "time_ms \<Rightarrow> chunk_handle \<Rightarrow> server_id \<Rightarrow> master \<Rightarrow> bool \<times> master" where
  "ma_ExtendLeaseDefault now handle server m =
     on_leases (\<lambda>lm. lm_ExtendLeaseDefault lm (ma_replicas m) now handle server) m"

definition ma_ExtendLease :: "time_ms \<Rightarrow> chunk_handle \<Rightarrow> server_id \<Rightarrow> time_ms \<Rightarrow> master \<Rightarrow> bool \<times> master" where
  "ma_ExtendLease now handle server extension m =
     on_leases (\<lambda>lm. lm_ExtendLease lm (ma_replicas m) now handle server extension) m"

definition ma_ReleaseLease :: "chunk_handle \<Rightarrow> master \<Rightarrow> bool \<times> master" where
  "ma_ReleaseLease handle = on_leases (\<lambda>lm. lm_ReleaseLease lm handle)"

text \<open>The body of the loop over the reported chunks.\<close>

definition register_reported :: "server_id \<Rightarrow> reported_chunk \<Rightarrow> master \<Rightarrow> master" where
  "register_reported server chunk m =
     (if rc_handle chunk = 0 \<or> rc_version chunk = 0 then m
      else if \<not> rm_HasReplica (ma_replicas m) (rc_handle chunk) server
      then snd (on_replicas (\<lambda>t. rm_RegisterReplica t (rc_handle chunk) server False) m)
      else m)"

definition ma_ProcessHeartbeat :: "server_id \<Rightarrow> time_ms \<Rightarrow> reported_chunk list \<Rightarrow> master \<Rightarrow> bool \<times> master" where
  "ma_ProcessHeartbeat server timestamp chunks m =
     and_then (on_heartbeats (\<lambda>hb. hb_ProcessHeartbeat hb server timestamp chunks) m)
       (\<lambda>m. (True, fold (register_reported server) chunks m))"

definition ma_ProcessHeartbeatEmpty :: "server_id \<Rightarrow> time_ms \<Rightarrow> master \<Rightarrow> bool \<times> master" where
  "ma_ProcessHeartbeatEmpty server timestamp =
     on_heartbeats (\<lambda>hb. hb_ProcessHeartbeatEmpty hb server timestamp)"

definition ma_DetectFailedChunkservers :: "time_ms \<Rightarrow> master \<Rightarrow> server_id list \<times> master" where
  "ma_DetectFailedChunkservers now = on_heartbeats (\<lambda>hb. hb_DetectFailedServers hb now)"

section \<open>Stale replicas\<close>

definition ma_IsStaleReplica :: "master \<Rightarrow> chunk_handle \<Rightarrow> server_id \<Rightarrow> bool" where
  "ma_IsStaleReplica m handle server =
     (if handle = 0 \<or> server = 0 then False
      else case md_GetChunkVersion (ma_metadata m) handle of
        None \<Rightarrow> False
      | Some master_version \<Rightarrow>
          if master_version = 0 then False
          else case hb_GetServerState (ma_heartbeats m) server of
            None \<Rightarrow> False
          | Some state \<Rightarrow>
              (case find (\<lambda>chunk. rc_handle chunk = handle) (cs_GetReportedChunks state) of
                 None \<Rightarrow> False
               | Some chunk \<Rightarrow> rc_version chunk < master_version))"

definition ma_GetStaleReplicas :: "master \<Rightarrow> chunk_handle \<Rightarrow> server_id list" where
  "ma_GetStaleReplicas m handle =
     (if handle = 0 then []
      else case md_GetChunkVersion (ma_metadata m) handle of
        None \<Rightarrow> []
      | Some master_version \<Rightarrow>
          if master_version = 0 then []
          else sort (filter (ma_IsStaleReplica m handle) (rm_GetReplicaServers (ma_replicas m) handle)))"

definition ma_GetStaleChunks :: "master \<Rightarrow> server_id \<Rightarrow> chunk_handle list" where
  "ma_GetStaleChunks m server =
     (if server = 0 then []
      else case hb_GetServerState (ma_heartbeats m) server of
        None \<Rightarrow> []
      | Some state \<Rightarrow>
          sort (filter (\<lambda>h. ma_IsStaleReplica m h server) (map rc_handle (cs_GetReportedChunks state))))"

section \<open>Checkpoints\<close>

definition ma_CreateCheckpoint :: "create_io \<Rightarrow> master \<Rightarrow> bool \<times> master" where
  "ma_CreateCheckpoint io m =
     (if ma_directory m = [] \<or> \<not> ol_open (ma_log m) then (False, m)
      else case ck_Create io (ma_disk m) (ma_directory m) (ma_metadata m) (ma_namespace m)
                  (ol_last_sequence (ma_log m)) of
        (ok, fs) \<Rightarrow> (ok, m\<lparr>ma_disk := fs\<rparr>))"

end
