(* ===== verification/Consistency.thy ===== *)
theory Consistency
  imports Master
begin

text \<open>
  The invariant of the master: each component keeps its own invariant, and the two places that
  know the files, the namespace and the metadata, know the same ones. Every operation keeps it,
  whatever the file system does, the failing branches and their roll-backs included.
\<close>

section \<open>Selectors and updates\<close>

lemmas on_defs = on_metadata_def on_namespace_def on_replicas_def on_leases_def on_heartbeats_def on_orphans_def

lemma on_fst [simp]:
  "fst (on_metadata f1 m) = fst (f1 (ma_metadata m))" "fst (on_namespace f2 m) = fst (f2 (ma_namespace m))"
  "fst (on_replicas f3 m) = fst (f3 (ma_replicas m))" "fst (on_leases f4 m) = fst (f4 (ma_leases m))"
  "fst (on_heartbeats f5 m) = fst (f5 (ma_heartbeats m))" "fst (on_orphans f6 m) = fst (f6 (ma_orphans m))"
  by (simp_all add: on_defs split: prod.splits)

lemma on_snd [simp]:
  "snd (on_metadata f1 m) = m\<lparr>ma_metadata := snd (f1 (ma_metadata m))\<rparr>"
  "snd (on_namespace f2 m) = m\<lparr>ma_namespace := snd (f2 (ma_namespace m))\<rparr>"
  "snd (on_replicas f3 m) = m\<lparr>ma_replicas := snd (f3 (ma_replicas m))\<rparr>"
  "snd (on_leases f4 m) = m\<lparr>ma_leases := snd (f4 (ma_leases m))\<rparr>"
  "snd (on_heartbeats f5 m) = m\<lparr>ma_heartbeats := snd (f5 (ma_heartbeats m))\<rparr>"
  "snd (on_orphans f6 m) = m\<lparr>ma_orphans := snd (f6 (ma_orphans m))\<rparr>"
  by (simp_all add: on_defs split: prod.splits)

text \<open>Two masters that differ at most in the log and the files.\<close>

definition same_memory :: "master \<Rightarrow> master \<Rightarrow> bool" where
  "same_memory m m' \<longleftrightarrow> (\<exists>log fs. m' = m\<lparr>ma_log := log, ma_disk := fs\<rparr>)"

lemma same_memory_refl [simp]: "same_memory m m"
  unfolding same_memory_def by (intro exI [of _ "ma_log m"] exI [of _ "ma_disk m"]) simp

lemma AppendOperation_memory: "same_memory m (snd (AppendOperation io ty strs m))"
proof -
  have "\<exists>log fs. snd (AppendOperation io ty strs m) = m\<lparr>ma_log := log, ma_disk := fs\<rparr>"
    if "\<not> (ma_directory m = [] \<or> \<not> ol_open (ma_log m))"
    using that by (auto simp: AppendOperation_def split: prod.splits bool.splits)
  then show ?thesis
    by (cases "ma_directory m = [] \<or> \<not> ol_open (ma_log m)") (auto simp: AppendOperation_def same_memory_def [symmetric])
qed

lemma same_memory_fields:
  assumes "same_memory m m'"
  shows "ma_metadata m' = ma_metadata m" "ma_namespace m' = ma_namespace m" "ma_replicas m' = ma_replicas m"
    "ma_policy m' = ma_policy m" "ma_leases m' = ma_leases m" "ma_heartbeats m' = ma_heartbeats m"
    "ma_orphans m' = ma_orphans m" "ma_directory m' = ma_directory m"
  using assms by (auto simp: same_memory_def)

lemmas AppendOperation_fields [simp] = same_memory_fields [OF AppendOperation_memory]

section \<open>The files of the namespace and of the metadata\<close>

definition files_agree :: "metadata \<Rightarrow> node \<Rightarrow> bool" where
  "files_agree md ns \<longleftrightarrow> (\<forall>path. md_FileExists md path \<longleftrightarrow> ns_IsFile ns path)"

lemma IsFile_update:
  assumes "IsValidPath path" and "ns_view ns' = (ns_view ns)(SplitPath path := t)"
  shows "ns_IsFile ns' p \<longleftrightarrow> (if p = path then t = Some File else ns_IsFile ns p)"
  using assms SplitPath_inject [of p path] by (auto simp: ns_IsFile_view)

lemma IsFile_CreateFile:
  assumes "ns_inv ns"
  shows "ns_IsFile (snd (ns_CreateFile ns path)) p \<longleftrightarrow>
    (p = path \<and> fst (ns_CreateFile ns path)) \<or> ns_IsFile ns p"
proof (rule create_node_cases [OF assms, of path File])
  fix r'
  assume "can_create ns path" "create_node File ns path = (True, r')"
    "ns_view r' = (ns_view ns)(SplitPath path \<mapsto> File)"
  then show ?thesis
    using IsFile_update [of path r' ns "Some File" p] by (auto simp: ns_CreateFile_def can_create_def)
qed (simp add: ns_CreateFile_def)

lemma IsFile_CreateDirectory:
  assumes "ns_inv ns"
  shows "ns_IsFile (snd (ns_CreateDirectory ns path)) p \<longleftrightarrow> ns_IsFile ns p"
proof (rule create_node_cases [OF assms, of path Directory])
  fix r'
  assume "can_create ns path" "create_node Directory ns path = (True, r')"
    "ns_view r' = (ns_view ns)(SplitPath path \<mapsto> Directory)"
  then show ?thesis
    using IsFile_update [of path r' ns "Some Directory" p]
    by (auto simp: ns_CreateDirectory_def can_create_def ns_IsFile_view)
qed (simp add: ns_CreateDirectory_def)

lemma IsFile_DeleteFile:
  assumes "ns_inv ns"
  shows "fst (ns_DeleteFile ns path) \<longleftrightarrow> ns_IsFile ns path"
    and "ns_IsFile (snd (ns_DeleteFile ns path)) p \<longleftrightarrow> p \<noteq> path \<and> ns_IsFile ns p"
proof -
  have root: "ns_IsFile ns path \<longleftrightarrow> can_delete File ns path"
    using assms DeleteFile_guard [OF assms, of path] by (auto simp: ns_IsFile_view ns_inv_def)
  then show "fst (ns_DeleteFile ns path) \<longleftrightarrow> ns_IsFile ns path" by (simp add: ns_DeleteFile_eq [OF assms])
  show "ns_IsFile (snd (ns_DeleteFile ns path)) p \<longleftrightarrow> p \<noteq> path \<and> ns_IsFile ns p"
  proof (cases "can_delete File ns path")
    case True
    then have "IsValidPath path" by (simp add: can_delete_def)
    from IsFile_update [OF this delete_core(1) [OF assms True], of p] show ?thesis
      using True by (simp add: ns_DeleteFile_eq [OF assms])
  next
    case False
    then show ?thesis using root by (auto simp: ns_DeleteFile_eq [OF assms])
  qed
qed

lemma IsFile_DeleteDirectory:
  assumes "ns_inv ns"
  shows "ns_IsFile (snd (ns_DeleteDirectory ns path)) p \<longleftrightarrow> ns_IsFile ns p"
proof (cases "can_delete Directory ns path")
  case True
  then have "IsValidPath path" "\<not> ns_IsFile ns path" by (auto simp: can_delete_def ns_IsFile_view)
  with IsFile_update [OF this(1) delete_core(1) [OF assms True], of p] show ?thesis
    using True by (auto simp: ns_DeleteDirectory_eq [OF assms])
qed (simp add: ns_DeleteDirectory_eq [OF assms])

text \<open>Renaming a file moves one entry.\<close>

lemma move_view_file:
  assumes "ns_inv ns" and "can_rename ns src dst" and "ns_IsFile ns src"
  shows "move_view (SplitPath src) (SplitPath dst) (ns_view ns) =
    (ns_view ns)(SplitPath src := None, SplitPath dst := Some File)"
proof
  fix q
  let ?s = "SplitPath src" and ?d = "SplitPath dst"
  have ok: "ns_ok ns" and s: "ns_view ns ?s = Some File" and d: "ns_view ns ?d = None"
    using assms by (auto simp: ns_inv_def ns_IsFile_view can_rename_def)
  have below_s: "ns_view ns (?s @ t) = None" if "t \<noteq> []" for t
  proof -
    have "strict_prefix ?s (?s @ t)" using that by (simp add: strict_prefix_def)
    then show ?thesis using ns_view_prefix [OF ok, of "?s @ t" ?s] s by fastforce
  qed
  have below_d: "ns_view ns (?d @ t) = None" for t
    using d ns_view_append_None by blast
  show "move_view ?s ?d (ns_view ns) q = ((ns_view ns)(?s := None, ?d := Some File)) q"
  proof (cases "prefix ?d q")
    case True
    then obtain t where q: "q = ?d @ t" by (auto simp: prefix_def)
    then have move: "move_view ?s ?d (ns_view ns) q = ns_view ns (?s @ t)" by (simp add: move_view_def)
    show ?thesis
    proof (cases "t = []")
      case True
      then show ?thesis using move s q by simp
    next
      case False
      then show ?thesis using move below_s [OF False] below_d [of t] q by simp
    qed
  next
    case False
    then have q: "q \<noteq> ?d" "move_view ?s ?d (ns_view ns) q = (if prefix ?s q then None else ns_view ns q)"
      by (auto simp: move_view_def)
    show ?thesis
    proof (cases "prefix ?s q")
      case True
      then obtain t where t: "q = ?s @ t" by (auto simp: prefix_def)
      then show ?thesis using q below_s [of t] by (cases "t = []") simp_all
    next
      case False
      then have "q \<noteq> ?s" by auto
      then show ?thesis using False q by simp
    qed
  qed
qed

lemma IsFile_Rename:
  assumes "ns_inv ns" and "ns_IsFile ns src" and "fst (ns_Rename ns src dst)"
  shows "ns_IsFile (snd (ns_Rename ns src dst)) p \<longleftrightarrow> p = dst \<or> p \<noteq> src \<and> ns_IsFile ns p"
proof -
  have can: "can_rename ns src dst" using ns_Rename_fails [OF assms(1), of src dst] assms(3) by fastforce
  then obtain r' where r': "ns_Rename ns src dst = (True, r')"
      "ns_view r' = move_view (SplitPath src) (SplitPath dst) (ns_view ns)"
    using ns_Rename_succeeds [OF assms(1) can] by blast
  have v: "IsValidPath src" "IsValidPath dst" using can by (auto simp: can_rename_def)
  then show ?thesis
    using r' move_view_file [OF assms(1) can assms(2)] SplitPath_inject [of p src] SplitPath_inject [of p dst]
    by (auto simp: ns_IsFile_view)
qed

lemma FileExists_simps [simp]:
  "md_FileExists (md_put_file md path f) p \<longleftrightarrow> p = path \<or> md_FileExists md p"
  "md_FileExists (md_erase_file md path) p \<longleftrightarrow> p \<noteq> path \<and> md_FileExists md p"
  "md_FileExists (md_put_chunk md h c) p = md_FileExists md p"
  "md_FileExists (md_erase_chunk md h) p = md_FileExists md p"
  "md_FileExists (md\<lparr>md_next := n\<rparr>) p = md_FileExists md p"
  "md_FileExists (snd (md_bump_next md h)) p = md_FileExists md p"
  "md_FileExists (md\<lparr>md_files := map_values g (md_files md)\<rparr>) p = md_FileExists md p"
  by (auto simp: md_FileExists_def)

lemma FileExists_CreateFile:
  "md_FileExists (snd (md_CreateFile md path rf)) p \<longleftrightarrow>
    (p = path \<and> fst (md_CreateFile md path rf)) \<or> md_FileExists md p"
  by (auto simp: md_CreateFile_def)

lemma FileExists_fold_drop [simp]:
  "md_FileExists (fold md_drop_unreferenced hs md) p = md_FileExists md p"
  by (induction hs arbitrary: md) (auto simp: md_FileExists_def)

lemma FileExists_DeleteFile:
  "fst (md_DeleteFile md path) \<longleftrightarrow> md_FileExists md path"
  "md_FileExists (snd (md_DeleteFile md path)) p \<longleftrightarrow> p \<noteq> path \<and> md_FileExists md p"
  by (auto simp: md_DeleteFile_def split: option.splits) (auto simp: md_FileExists_def)

lemma FileExists_RenameFile:
  "md_FileExists (snd (md_RenameFile md src dst)) p \<longleftrightarrow>
    (if fst (md_RenameFile md src dst) then p = dst \<or> p \<noteq> src \<and> md_FileExists md p else md_FileExists md p)"
  by (auto simp: md_RenameFile_def split: option.splits)

lemma FileExists_Clone:
  "md_FileExists (snd (md_CloneFileMetadata md src dst)) p \<longleftrightarrow>
    (p = dst \<and> fst (md_CloneFileMetadata md src dst)) \<or> md_FileExists md p"
  by (auto simp: md_CloneFileMetadata_def Let_def split: option.splits)

lemma FileExists_put: "map_of (md_files md) path = Some f \<Longrightarrow> md_FileExists (md_put_file md path g) p = md_FileExists md p"
  by (auto simp: md_FileExists_def)

text \<open>The other operations of the metadata keep the set of files.\<close>

lemma FileExists_others [simp]:
  "md_FileExists (snd (md_UpdateFileSize md path sz)) p = md_FileExists md p"
  "md_FileExists (snd (md_AllocateChunk md path h v sz)) p = md_FileExists md p"
  "md_FileExists (snd (md_AllocateStandaloneChunk md h v sz)) p = md_FileExists md p"
  "md_FileExists (snd (md_AddChunkToFile md path h)) p = md_FileExists md p"
  "md_FileExists (snd (md_ReplaceChunkInFile md path i h)) p = md_FileExists md p"
  "md_FileExists (snd (md_RemoveChunkFromFile md path h)) p = md_FileExists md p"
  "md_FileExists (snd (md_DeleteChunk md h)) p = md_FileExists md p"
  "md_FileExists (snd (md_AddReplica md h s)) p = md_FileExists md p"
  "md_FileExists (snd (md_RemoveReplica md h s)) p = md_FileExists md p"
  "md_FileExists (snd (md_SetChunkVersion md h v)) p = md_FileExists md p"
  "md_FileExists (snd (md_SetChunkSize md h sz)) p = md_FileExists md p"
  by (simp_all add: md_UpdateFileSize_def md_AllocateStandaloneChunk_eq md_AddChunkToFile_def
      md_ReplaceChunkInFile_def md_RemoveChunkFromFile_def md_DeleteChunk_def md_AddReplica_def md_RemoveReplica_def
      md_SetChunkVersion_def md_SetChunkSize_def Let_def md_AllocateChunk_def fm_AddChunk_def
      split: option.splits prod.splits)
    (auto simp: md_FileExists_def md_bump_next_def split: if_splits)

section \<open>The invariant\<close>

definition core_inv :: "metadata \<Rightarrow> node \<Rightarrow> bool" where
  "core_inv md ns \<longleftrightarrow> md_inv md \<and> ns_inv ns \<and> files_agree md ns"

definition tables_inv :: "master \<Rightarrow> bool" where
  "tables_inv m \<longleftrightarrow> rm_inv (ma_replicas m) \<and> lm_inv (ma_leases m) \<and> hb_inv (ma_heartbeats m) \<and>
     finite (ma_orphans m) \<and> 0 \<notin> ma_orphans m"

definition ma_inv :: "master \<Rightarrow> bool" where
  "ma_inv m \<longleftrightarrow> core_inv (ma_metadata m) (ma_namespace m) \<and> tables_inv m"

lemma core_invD:
  "core_inv md ns \<Longrightarrow> md_inv md" "core_inv md ns \<Longrightarrow> ns_inv ns"
  "core_inv md ns \<Longrightarrow> md_FileExists md p \<longleftrightarrow> ns_IsFile ns p"
  by (auto simp: core_inv_def files_agree_def)

lemma core_inv_update [simp]:
  "tables_inv (m\<lparr>ma_metadata := md\<rparr>) = tables_inv m" "tables_inv (m\<lparr>ma_namespace := ns\<rparr>) = tables_inv m"
  by (simp_all add: tables_inv_def)

lemma tables_memory: "same_memory m m' \<Longrightarrow> tables_inv m' = tables_inv m"
  by (simp add: tables_inv_def same_memory_fields)

lemma tables_AppendOperation [simp]: "tables_inv (snd (AppendOperation io ty strs m)) = tables_inv m"
  by (rule tables_memory) (rule AppendOperation_memory)

lemma ma_inv_AppendOperation [simp]: "ma_inv (snd (AppendOperation io ty strs m)) = ma_inv m"
  by (simp add: ma_inv_def)

lemma tables_orphans [inv_intros]:
  "tables_inv m \<Longrightarrow> tables_inv (m\<lparr>ma_orphans := snd (MarkOrphan (ma_orphans m) h)\<rparr>)"
  "tables_inv m \<Longrightarrow> tables_inv (m\<lparr>ma_orphans := snd (RemoveOrphan (ma_orphans m) h)\<rparr>)"
  by (auto simp: tables_inv_def MarkOrphan_def RemoveOrphan_def)

lemma tables_updates [inv_intros]:
  "tables_inv m \<Longrightarrow> lm_inv lm \<Longrightarrow> tables_inv (m\<lparr>ma_leases := lm\<rparr>)"
  "tables_inv m \<Longrightarrow> rm_inv t \<Longrightarrow> tables_inv (m\<lparr>ma_replicas := t\<rparr>)"
  "tables_inv m \<Longrightarrow> hb_inv hb \<Longrightarrow> tables_inv (m\<lparr>ma_heartbeats := hb\<rparr>)"
  by (simp_all add: tables_inv_def)

lemma tables_invD:
  "tables_inv m \<Longrightarrow> rm_inv (ma_replicas m)" "tables_inv m \<Longrightarrow> lm_inv (ma_leases m)"
  "tables_inv m \<Longrightarrow> hb_inv (ma_heartbeats m)"
  by (simp_all add: tables_inv_def)

text \<open>Loops whose body keeps the state of the core.\<close>

definition keeps_core :: "(master \<Rightarrow> master) \<Rightarrow> bool" where
  "keeps_core f \<longleftrightarrow> (\<forall>m. ma_metadata (f m) = ma_metadata m \<and> ma_namespace (f m) = ma_namespace m \<and>
     ma_directory (f m) = ma_directory m \<and> ma_log (f m) = ma_log m \<and> ma_disk (f m) = ma_disk m \<and>
     (tables_inv m \<longrightarrow> tables_inv (f m)))"

lemma keeps_coreD:
  assumes "keeps_core f"
  shows "ma_metadata (f m) = ma_metadata m" "ma_namespace (f m) = ma_namespace m" "ma_directory (f m) = ma_directory m"
    "ma_log (f m) = ma_log m" "ma_disk (f m) = ma_disk m" "tables_inv m \<Longrightarrow> tables_inv (f m)"
  using assms by (auto simp: keeps_core_def)

lemma keeps_core_fold: "(\<And>x. keeps_core (f x)) \<Longrightarrow> keeps_core (fold f xs)"
proof (induction xs)
  case (Cons x xs)
  then show ?case using Cons.IH by (simp add: keeps_core_def)
qed (simp add: keeps_core_def)

lemma keeps_core_mark: "keeps_core (mark_if_last h)"
  by (auto simp: keeps_core_def mark_if_last_def intro: inv_intros)

lemma keeps_core_forget_chunk: "keeps_core (forget_chunk h)"
  by (auto simp: keeps_core_def forget_chunk_def intro!: inv_intros dest: tables_invD)

lemma keeps_core_forget: "keeps_core (forget_if_unreferenced h)"
  using keeps_core_forget_chunk [of h] by (auto simp: keeps_core_def forget_if_unreferenced_def)

lemma keeps_core_release: "keeps_core (release_all hs)"
proof -
  have "release_all hs = fold (\<lambda>h m. snd (on_leases (\<lambda>lm. lm_ReleaseLease lm h) m)) hs"
    by (simp add: release_all_def fun_eq_iff)
  moreover have "keeps_core (fold (\<lambda>h m. snd (on_leases (\<lambda>lm. lm_ReleaseLease lm h) m)) hs)"
    by (rule keeps_core_fold) (auto simp: keeps_core_def intro!: inv_intros dest: tables_invD)
  ultimately show ?thesis by simp
qed

lemma keeps_core_reported: "keeps_core (register_reported s c)"
  by (auto simp: keeps_core_def register_reported_def intro!: inv_intros dest: tables_invD)

lemma keeps_core_release_if: "keeps_core (release_if P h)"
  by (auto simp: keeps_core_def release_if_def split: option.splits intro!: inv_intros dest: tables_invD)

lemmas keeps_core_intros = keeps_core_fold keeps_core_mark keeps_core_forget keeps_core_forget_chunk
  keeps_core_release keeps_core_reported keeps_core_release_if

lemma keeps_core_inv: "keeps_core f \<Longrightarrow> ma_inv m \<Longrightarrow> ma_inv (f m)"
  by (simp add: ma_inv_def keeps_coreD)

lemmas mark_fields [simp] = keeps_coreD [OF keeps_core_fold [of mark_if_last], OF keeps_core_mark]
lemmas forget_fields [simp] = keeps_coreD [OF keeps_core_fold [of forget_if_unreferenced], OF keeps_core_forget]
lemmas forget_chunk_fields [simp] = keeps_coreD [OF keeps_core_forget_chunk]
lemmas release_fields [simp] = keeps_coreD [OF keeps_core_release]

text \<open>Operations that log, then change the metadata only and keep the set of files.\<close>

lemma core_metadata:
  "core_inv md ns \<Longrightarrow> md_inv md' \<Longrightarrow> (\<And>p. md_FileExists md' p = md_FileExists md p) \<Longrightarrow> core_inv md' ns"
  by (simp add: core_inv_def files_agree_def)

lemma ma_inv_metadata:
  "ma_inv m \<Longrightarrow> md_inv md \<Longrightarrow> (\<And>p. md_FileExists md p = md_FileExists (ma_metadata m) p) \<Longrightarrow>
    ma_inv (m\<lparr>ma_metadata := md\<rparr>)"
  by (auto simp: ma_inv_def intro: core_metadata)

lemma ma_invD:
  "ma_inv m \<Longrightarrow> md_inv (ma_metadata m)" "ma_inv m \<Longrightarrow> ns_inv (ma_namespace m)"
  "ma_inv m \<Longrightarrow> md_FileExists (ma_metadata m) p \<longleftrightarrow> ns_IsFile (ma_namespace m) p"
  "ma_inv m \<Longrightarrow> tables_inv m"
  by (auto simp: ma_inv_def dest: core_invD)

lemma create_file_core:
  assumes "core_inv md ns" and "\<not> ns_IsFile ns path"
  shows "\<not> fst (ns_CreateFile ns path) \<Longrightarrow> core_inv md (snd (ns_CreateFile ns path))"
    and "fst (ns_CreateFile ns path) \<Longrightarrow> fst (md_CreateFile md path rf) \<Longrightarrow>
      core_inv (snd (md_CreateFile md path rf)) (snd (ns_CreateFile ns path))"
    and "\<not> fst (md_CreateFile md path rf) \<Longrightarrow>
      core_inv (snd (md_CreateFile md path rf)) (snd (ns_DeleteFile (snd (ns_CreateFile ns path)) path))"
proof -
  note inv = core_invD(1,2) [OF assms(1)] and eq = core_invD(3) [OF assms(1)]
  note isfile = IsFile_CreateFile [OF inv(2)] IsFile_DeleteFile(2) [OF ns_create_inv(1) [OF inv(2)]] FileExists_CreateFile
  show "core_inv md (snd (ns_CreateFile ns path))" if "\<not> fst (ns_CreateFile ns path)"
    using that by (auto simp: core_inv_def files_agree_def isfile eq inv intro: inv_intros)
  show "core_inv (snd (md_CreateFile md path rf)) (snd (ns_CreateFile ns path))"
    if "fst (ns_CreateFile ns path)" "fst (md_CreateFile md path rf)"
    using that by (auto simp: core_inv_def files_agree_def isfile eq inv intro: inv_intros)
  show "core_inv (snd (md_CreateFile md path rf)) (snd (ns_DeleteFile (snd (ns_CreateFile ns path)) path))"
    if "\<not> fst (md_CreateFile md path rf)"
    using that assms(2) by (auto simp: core_inv_def files_agree_def isfile eq inv intro!: inv_intros inv)
qed

lemma ma_CreateFile_inv [inv_intros]: "ma_inv m \<Longrightarrow> ma_inv (snd (ma_CreateFile io path rf m))"
proof -
  assume inv: "ma_inv m"
  have main: "ma_inv (snd (and_then (on_namespace (\<lambda>ns. ns_CreateFile ns path) m1)
      (\<lambda>m. case on_metadata (\<lambda>md. md_CreateFile md path factor) m of
         (True, m) \<Rightarrow> (True, m)
       | (False, m) \<Rightarrow> (False, snd (on_namespace (\<lambda>ns. ns_DeleteFile ns path) m)))))"
    if inv1: "ma_inv m1" and new: "\<not> ns_Exists (ma_namespace m1) path" for m1 factor
  proof -
    have "\<not> ns_IsFile (ma_namespace m1) path" using new by (auto simp: ns_IsFile_view ns_Exists_view)
    note core = create_file_core [OF _ this]
    obtain ok1 ns where ns: "ns_CreateFile (ma_namespace m1) path = (ok1, ns)" by fastforce
    obtain ok2 md where md: "md_CreateFile (ma_metadata m1) path factor = (ok2, md)" by fastforce
    show ?thesis
      using inv1 core [of "ma_metadata m1"] core(2,3) [of "ma_metadata m1" factor] ns md
      by (cases ok1; cases ok2) (auto simp: ma_inv_def on_metadata_def on_namespace_def split: prod.splits)
  qed
  show ?thesis
  proof (cases "choose_factor (ma_policy m) (length (hb_GetLiveServers (ma_heartbeats m))) rf")
    case (Some factor)
    then show ?thesis
      using inv main [of "snd (AppendOperation io OpCreateFile [path, to_string32 factor] m)" factor]
      by (auto simp: ma_CreateFile_def and_then_eq [of "AppendOperation io ty strs m" for ty strs])
  qed (simp add: ma_CreateFile_def inv)
qed

lemma delete_file_core:
  assumes "core_inv md ns"
  shows "core_inv (snd (md_DeleteFile md path)) (snd (ns_DeleteFile ns path))"
  using core_invD [OF assms] IsFile_DeleteFile(2) [OF core_invD(2) [OF assms]]
  by (auto simp: core_inv_def files_agree_def FileExists_DeleteFile intro: inv_intros)

lemma md_DeleteFile_fails: "\<not> fst (md_DeleteFile md path) \<Longrightarrow> snd (md_DeleteFile md path) = md"
  by (auto simp: md_DeleteFile_def split: option.splits)

lemma ma_DeleteFile_inv [inv_intros]:
  assumes "ma_inv m"
  shows "ma_inv (snd (ma_DeleteFile io path m))"
proof (cases "ns_IsFile (ma_namespace m) path")
  case True
  let ?chunks = "md_GetFileChunks (ma_metadata m) path"
  let ?m0 = "fold mark_if_last ?chunks m"
  let ?m1 = "snd (AppendOperation io OpDeleteFile [path] ?m0)"
  have inv1: "ma_inv ?m1" using assms by (simp add: keeps_core_inv [OF keeps_core_fold [OF keeps_core_mark]])
  have "ma_inv (snd (on_namespace (\<lambda>ns. ns_DeleteFile ns path)
      (fold forget_if_unreferenced ?chunks (snd (on_metadata (\<lambda>md. md_DeleteFile md path) ?m1)))))"
    using inv1 delete_file_core [of "ma_metadata ?m1" "ma_namespace ?m1" path]
    by (simp add: ma_inv_def)
  moreover have "ma_inv (snd (on_metadata (\<lambda>md. md_DeleteFile md path) ?m1))"
    if "\<not> fst (md_DeleteFile (ma_metadata ?m1) path)"
    using inv1 that by (simp add: md_DeleteFile_fails ma_inv_def)
  ultimately show ?thesis using True inv1 by (simp add: ma_DeleteFile_def Let_def and_then_eq)
qed (simp add: ma_DeleteFile_def assms)

lemma ns_Rename_unchanged: "ns_inv ns \<Longrightarrow> \<not> fst (ns_Rename ns src dst) \<Longrightarrow> snd (ns_Rename ns src dst) = ns"
  using ns_Rename_fails [of ns src dst] ns_Rename_succeeds [of ns src dst] by (cases "can_rename ns src dst") auto

text \<open>After a rename in the namespace the metadata can always follow, so the way back is never taken.\<close>

lemma rename_core:
  assumes "core_inv md ns" and "ns_IsFile ns src" and "fst (ns_Rename ns src dst)"
  shows "fst (md_RenameFile md src dst)"
    and "core_inv (snd (md_RenameFile md src dst)) (snd (ns_Rename ns src dst))"
proof -
  note inv = core_invD(1,2) [OF assms(1)] and eq = core_invD(3) [OF assms(1)]
  have can: "can_rename ns src dst" using ns_Rename_fails [OF inv(2), of src dst] assms(3) by fastforce
  then have "\<not> ns_IsFile ns dst" "IsValidPath src" "IsValidPath dst" by (auto simp: can_rename_def ns_IsFile_view)
  then have "\<not> md_FileExists md dst" "md_FileExists md src" "src \<noteq> []" "dst \<noteq> []" "src \<noteq> dst"
    using eq assms(2) by (auto simp: IsValidPath_def)
  then show ok: "fst (md_RenameFile md src dst)" by (auto simp: md_RenameFile_def md_FileExists_def)
  show "core_inv (snd (md_RenameFile md src dst)) (snd (ns_Rename ns src dst))"
    using inv eq ok IsFile_Rename [OF inv(2) assms(2,3)]
    by (auto simp: core_inv_def files_agree_def FileExists_RenameFile intro: inv_intros)
qed

lemma ma_RenameFile_inv [inv_intros]:
  assumes "ma_inv m"
  shows "ma_inv (snd (ma_RenameFile io src dst m))"
proof (cases "\<not> ns_IsFile (ma_namespace m) src \<or> ns_Exists (ma_namespace m) dst")
  case False
  let ?m1 = "snd (AppendOperation io OpRenameFile [src, dst] m)"
  obtain ok1 ns where ns: "ns_Rename (ma_namespace m) src dst = (ok1, ns)" by fastforce
  obtain ok2 md where md: "md_RenameFile (ma_metadata m) src dst = (ok2, md)" by fastforce
  have "ok1 \<Longrightarrow> ok2 \<and> core_inv md ns"
    using rename_core [of "ma_metadata m" "ma_namespace m" src dst] False ns md assms by (simp add: ma_inv_def)
  moreover have "\<not> ok1 \<Longrightarrow> ns = ma_namespace m"
    using ns ns_Rename_unchanged [OF ma_invD(2) [OF assms], of src dst] by simp
  moreover have "ma_inv ?m1" using assms by simp
  ultimately show ?thesis
    using False ns md assms
    by (cases ok1) (auto simp: ma_RenameFile_def and_then_eq on_metadata_def on_namespace_def ma_inv_def)
qed (simp add: ma_RenameFile_def assms)

lemma create_directory_core: "core_inv md ns \<Longrightarrow> core_inv md (snd (ns_CreateDirectory ns path))"
  by (auto simp: core_inv_def files_agree_def IsFile_CreateDirectory intro: inv_intros)

lemma ma_inv_namespace:
  "ma_inv m \<Longrightarrow> core_inv (ma_metadata m) ns \<Longrightarrow> ma_inv (m\<lparr>ma_namespace := ns\<rparr>)"
  by (simp add: ma_inv_def)

lemma ma_CreateDirectory_inv [inv_intros]: "ma_inv m \<Longrightarrow> ma_inv (snd (ma_CreateDirectory io path m))"
  by (auto simp: ma_CreateDirectory_def and_then_eq ma_inv_def create_directory_core)

text \<open>Snapshots: the roll-back repairs whatever the failed step left inconsistent.\<close>

definition core_outside :: "string set \<Rightarrow> master \<Rightarrow> bool" where
  "core_outside S m \<longleftrightarrow> md_inv (ma_metadata m) \<and> ns_inv (ma_namespace m) \<and> tables_inv m \<and>
     (\<forall>p. p \<notin> S \<longrightarrow> (md_FileExists (ma_metadata m) p \<longleftrightarrow> ns_IsFile (ma_namespace m) p))"

lemma core_outside_empty: "core_outside {} m \<longleftrightarrow> ma_inv m"
  by (auto simp: core_outside_def ma_inv_def core_inv_def files_agree_def)

lemma core_outside_inv: "ma_inv m \<Longrightarrow> core_outside S m"
  by (auto simp: core_outside_def ma_inv_def core_inv_def files_agree_def)

lemma drop_created_file_outside: "core_outside (insert p S) m \<Longrightarrow> core_outside S (drop_created_file p m)"
  by (auto simp: core_outside_def drop_created_file_def FileExists_DeleteFile IsFile_DeleteFile(2) intro: inv_intros)

lemma drop_created_files_outside: "core_outside (set paths) m \<Longrightarrow> ma_inv (fold drop_created_file paths m)"
proof (induction paths arbitrary: m)
  case (Cons p paths)
  then show ?case using drop_created_file_outside [of p "set paths" m] by simp
qed (simp add: core_outside_empty)

lemma drop_created_directory_inv: "ma_inv m \<Longrightarrow> ma_inv (drop_created_directory p m)"
  by (auto simp: drop_created_directory_def ma_inv_def core_inv_def files_agree_def IsFile_DeleteDirectory intro: inv_intros)

lemma drop_created_directories_inv: "ma_inv m \<Longrightarrow> ma_inv (fold drop_created_directory paths m)"
  by (induction paths arbitrary: m) (auto intro: drop_created_directory_inv)

lemma rollback_inv: "core_outside (set created_files) m \<Longrightarrow> ma_inv (rollback created_files created_directories m)"
  unfolding rollback_def by (intro drop_created_directories_inv drop_created_files_outside) simp

lemma create_outside:
  assumes "ma_inv m"
  shows "core_outside {path} (m\<lparr>ma_namespace := snd (ns_CreateFile (ma_namespace m) path)\<rparr>)"
  using assms by (auto simp: core_outside_def ma_inv_def core_inv_def files_agree_def IsFile_CreateFile intro: inv_intros)

lemma clone_outside:
  assumes "core_outside {path} m"
  shows "core_outside {path} (m\<lparr>ma_metadata := snd (md_CloneFileMetadata (ma_metadata m) src path)\<rparr>)"
  using assms by (auto simp: core_outside_def FileExists_Clone intro: inv_intros)

lemma clone_done:
  assumes "ma_inv m" and "fst (ns_CreateFile (ma_namespace m) path)"
    and "fst (md_CloneFileMetadata (ma_metadata m) src path)"
  shows "ma_inv (m\<lparr>ma_namespace := snd (ns_CreateFile (ma_namespace m) path),
    ma_metadata := snd (md_CloneFileMetadata (ma_metadata m) src path)\<rparr>)"
  using assms by (auto simp: ma_inv_def core_inv_def files_agree_def IsFile_CreateFile FileExists_Clone intro: inv_intros)

lemma core_outside_mono: "core_outside S m \<Longrightarrow> S \<subseteq> T \<Longrightarrow> core_outside T m"
  by (auto simp: core_outside_def)

lemma ns_CreateFile_fails: "\<not> fst (ns_CreateFile ns path) \<Longrightarrow> snd (ns_CreateFile ns path) = ns"
  by (auto simp: ns_CreateFile_def create_node_def split: option.splits)

lemma ns_CreateDirectory_fails: "\<not> fst (ns_CreateDirectory ns path) \<Longrightarrow> snd (ns_CreateDirectory ns path) = ns"
  by (auto simp: ns_CreateDirectory_def create_node_def split: option.splits)

text \<open>One turn of the loop on a file, as the state after each of its ends.\<close>

lemma snapshot_loop_file:
  fixes snapshot_path :: string
  assumes "ni_path info \<noteq> source_path" and "ni_type info \<noteq> Directory"
  defines "d \<equiv> destination_for False source_path snapshot_path (ni_path info)"
  obtains "snapshot_loop source_path snapshot_path (info # infos) fs ds m = (False, rollback fs ds m)"
  | m1 where "m1 = m\<lparr>ma_namespace := snd (ns_CreateFile (ma_namespace m) d)\<rparr>" and "fst (ns_CreateFile (ma_namespace m) d)"
      and "snapshot_loop source_path snapshot_path (info # infos) fs ds m =
        (False, rollback (fs @ [d]) ds (m1\<lparr>ma_metadata := snd (md_CloneFileMetadata (ma_metadata m1) (ni_path info) d)\<rparr>))"
  | m1 f where "m1 = m\<lparr>ma_namespace := snd (ns_CreateFile (ma_namespace m) d),
        ma_metadata := snd (md_CloneFileMetadata (ma_metadata m) (ni_path info) d)\<rparr>"
      and "md_GetFile (ma_metadata m) (ni_path info) = Some f"
      and "fst (ns_CreateFile (ma_namespace m) d)" and "fst (md_CloneFileMetadata (ma_metadata m) (ni_path info) d)"
      and "snapshot_loop source_path snapshot_path (info # infos) fs ds m =
        snapshot_loop source_path snapshot_path infos (fs @ [d]) ds (release_all (fm_chunk_handles f) m1)"
proof (cases "md_GetFile (ma_metadata m) (ni_path info)")
  case None
  then show thesis using that(1) assms by (simp add: Let_def)
next
  case (Some f)
  obtain ok1 ns where ns: "ns_CreateFile (ma_namespace m) d = (ok1, ns)" by fastforce
  obtain ok2 md where md: "md_CloneFileMetadata (ma_metadata m) (ni_path info) d = (ok2, md)" by fastforce
  show thesis
  proof (cases ok1)
    case False
    then have "m\<lparr>ma_namespace := ns\<rparr> = m" using ns ns_CreateFile_fails [of "ma_namespace m" d] by simp
    then show thesis using that(1) assms Some ns False by (simp add: Let_def on_namespace_def)
  next
    case True
    then show thesis
      using that(2,3) assms Some ns md by (cases ok2) (simp_all add: Let_def on_namespace_def on_metadata_def)
  qed
qed

lemma snapshot_loop_inv:
  "ma_inv m \<Longrightarrow> ma_inv (snd (snapshot_loop source_path snapshot_path infos fs ds m))"
proof (induction infos arbitrary: fs ds m)
  case (Cons info infos)
  let ?d = "destination_for False source_path snapshot_path (ni_path info)"
  consider "ni_path info = source_path" | "ni_path info \<noteq> source_path" "ni_type info = Directory"
    | "ni_path info \<noteq> source_path" "ni_type info \<noteq> Directory" by blast
  then show ?case
  proof cases
    case 2
    obtain ok ns where ns: "ns_CreateDirectory (ma_namespace m) ?d = (ok, ns)" by fastforce
    have "ma_inv (m\<lparr>ma_namespace := ns\<rparr>)"
      using Cons.prems create_directory_core [of "ma_metadata m" "ma_namespace m" ?d] ns by (simp add: ma_inv_def)
    moreover have "core_outside (set fs) (m\<lparr>ma_namespace := ns\<rparr>)" by (rule core_outside_inv) fact
    ultimately show ?thesis
      using 2 Cons.IH ns by (cases ok) (simp_all add: Let_def on_namespace_def rollback_inv)
  next
    case 3
    from snapshot_loop_file [OF 3, of snapshot_path infos fs ds m] show ?thesis
    proof cases
      case 1
      then show ?thesis using rollback_inv [OF core_outside_inv [OF Cons.prems]] by simp
    next
      case (2 m1)
      let ?m2 = "m1\<lparr>ma_metadata := snd (md_CloneFileMetadata (ma_metadata m1) (ni_path info) ?d)\<rparr>"
      have "core_outside {?d} ?m2" using clone_outside [OF create_outside [OF Cons.prems]] 2(1) by simp
      then have "core_outside (set (fs @ [?d])) ?m2" by (rule core_outside_mono) simp
      then show ?thesis using rollback_inv 2(3) by simp
    next
      case (3 m1 f)
      then have "ma_inv m1" using clone_done [OF Cons.prems 3(3,4)] by simp
      then have "ma_inv (release_all (fm_chunk_handles f) m1)" by (rule keeps_core_inv [OF keeps_core_release])
      then show ?thesis using Cons.IH 3(5) by simp
    qed
  qed (use Cons in simp)
qed simp

lemma snapshot_file_inv: "ma_inv m \<Longrightarrow> ma_inv (snd (snapshot_file src dst m))"
proof -
  assume inv: "ma_inv m"
  obtain ok1 ns where ns: "ns_CreateFile (ma_namespace m) dst = (ok1, ns)" by fastforce
  obtain ok2 md where md: "md_CloneFileMetadata (ma_metadata m) src dst = (ok2, md)" by fastforce
  have "\<not> ok1 \<Longrightarrow> ma_inv (m\<lparr>ma_namespace := ns\<rparr>)"
    using ns_CreateFile_fails [of "ma_namespace m" dst] ns inv by simp
  moreover have "ok1 \<Longrightarrow> ok2 \<Longrightarrow> ma_inv (m\<lparr>ma_namespace := ns, ma_metadata := md\<rparr>)"
    using clone_done [OF inv, of dst src] ns md by simp
  moreover have "core_outside (set [dst]) (m\<lparr>ma_namespace := ns, ma_metadata := md\<rparr>)"
    using clone_outside [OF create_outside [OF inv], of dst src] ns md by simp
  ultimately show ?thesis
    using inv ns md rollback_inv keeps_core_inv [OF keeps_core_release]
    by (cases ok1; cases ok2)
      (auto simp: snapshot_file_def and_then_eq on_namespace_def on_metadata_def split: option.splits)
qed

lemma CreateSnapshotInternal_inv: "ma_inv m \<Longrightarrow> ma_inv (snd (CreateSnapshotInternal src dst m))"
proof -
  assume inv: "ma_inv m"
  have "ma_inv (snd (on_namespace (\<lambda>ns. ns_CreateDirectory ns dst) m))"
    using inv create_directory_core [of "ma_metadata m" "ma_namespace m" dst] by (simp add: ma_inv_def)
  then show ?thesis
    using inv snapshot_file_inv snapshot_loop_inv
    by (auto simp: CreateSnapshotInternal_def Let_def and_then_eq split: option.splits)
qed

lemma ma_CreateSnapshot_inv [inv_intros]: "ma_inv m \<Longrightarrow> ma_inv (snd (ma_CreateSnapshot io src dst m))"
  by (auto simp: ma_CreateSnapshot_def and_then_eq CreateSnapshotInternal_inv)

text \<open>Copy on write.\<close>

lemma keeps_core_register_copy: "keeps_core (\<lambda>m. snd (register_copy h ss primary m))"
proof (induction ss arbitrary: primary)
  case (Cons s ss)
  have "keeps_core (\<lambda>m. snd (on_replicas (\<lambda>t. rm_RegisterReplica t h s (\<not> primary)) m))"
    by (auto simp: keeps_core_def intro!: inv_intros dest: tables_invD)
  then show ?case
    using Cons.IH [of True]
    by (auto simp: keeps_core_def on_replicas_def split: prod.splits bool.splits)
qed (simp add: keeps_core_def)

lemma ma_inv_tables:
  "ma_inv m \<Longrightarrow> rm_inv t \<Longrightarrow> ma_inv (m\<lparr>ma_replicas := t\<rparr>)"
  "ma_inv m \<Longrightarrow> lm_inv lm \<Longrightarrow> ma_inv (m\<lparr>ma_leases := lm\<rparr>)"
  "ma_inv m \<Longrightarrow> hb_inv hb \<Longrightarrow> ma_inv (m\<lparr>ma_heartbeats := hb\<rparr>)"
  "ma_inv m \<Longrightarrow> ma_inv (m\<lparr>ma_orphans := snd (MarkOrphan (ma_orphans m) h)\<rparr>)"
  "ma_inv m \<Longrightarrow> ma_inv (m\<lparr>ma_orphans := snd (RemoveOrphan (ma_orphans m) h)\<rparr>)"
  by (simp_all add: ma_inv_def tables_updates tables_orphans)

lemma ma_inv_tablesD:
  "ma_inv m \<Longrightarrow> rm_inv (ma_replicas m)" "ma_inv m \<Longrightarrow> lm_inv (ma_leases m)" "ma_inv m \<Longrightarrow> hb_inv (ma_heartbeats m)"
  by (simp_all add: ma_inv_def tables_inv_def)

lemma ma_inv_leases: "ma_inv m \<Longrightarrow> ma_inv (m\<lparr>ma_leases := snd (lm_ReleaseLease (ma_leases m) h)\<rparr>)"
  by (simp add: ma_inv_tables ma_inv_tablesD lm_ReleaseLease_inv)

lemma drop_copy_inv: "ma_inv m \<Longrightarrow> ma_inv (drop_copy h m)"
proof -
  assume inv: "ma_inv m"
  let ?m = "m\<lparr>ma_replicas := snd (rm_RemoveChunk (ma_replicas m) h)\<rparr>"
  have "ma_inv ?m" by (simp add: inv ma_inv_tables ma_inv_tablesD rm_RemoveChunk_inv)
  then have "ma_inv (?m\<lparr>ma_metadata := snd (md_DeleteChunk (ma_metadata ?m) h)\<rparr>)"
    by (rule ma_inv_metadata) (simp_all add: md_DeleteChunk_inv ma_invD(1) [OF inv])
  then show ?thesis by (simp add: drop_copy_def)
qed

lemma ma_inv_Replace: "ma_inv m \<Longrightarrow> ma_inv (m\<lparr>ma_metadata := snd (md_ReplaceChunkInFile (ma_metadata m) path i h)\<rparr>)"
  by (rule ma_inv_metadata) (auto intro: inv_intros dest: ma_invD)

lemma case_pair_bool: "(case r of (False, s) \<Rightarrow> f s | (True, s) \<Rightarrow> g s) = (if fst r then g (snd r) else f (snd r))"
  by (cases r) auto

lemma copy_chunk_inv:
  assumes "ma_inv m"
  shows "ma_inv (snd (copy_chunk io clone path i source_handle c replicas h m))"
proof -
  obtain registered primary m1 where r: "register_copy h replicas False m = ((registered, primary), m1)"
    by (metis prod.exhaust)
  then have inv1: "ma_inv m1" using keeps_core_inv [OF keeps_core_register_copy assms, of h replicas False] by simp
  let ?m2 = "m1\<lparr>ma_leases := snd (lm_ReleaseLease (ma_leases m1) source_handle)\<rparr>"
  let ?m3 = "?m2\<lparr>ma_metadata := snd (md_ReplaceChunkInFile (ma_metadata ?m2) path i h)\<rparr>"
  have inv2: "ma_inv ?m2" using inv1 by (rule ma_inv_leases)
  then have inv3: "ma_inv ?m3" by (rule ma_inv_Replace)
  have undo: "ma_inv (drop_copy h (snd (on_metadata (\<lambda>md. md_ReplaceChunkInFile md path i source_handle)
      (snd (AppendOperation io ty strs ?m3)))))" for ty strs
    using ma_inv_Replace [of "snd (AppendOperation io ty strs ?m3)" path i source_handle] inv3 drop_copy_inv by simp
  show ?thesis
    using inv1 inv2 inv3 undo
    by (simp add: copy_chunk_def r case_pair_bool Let_def drop_copy_inv)
qed

lemma ma_PrepareCopyOnWrite_inv [inv_intros]: "ma_inv m \<Longrightarrow> ma_inv (snd (ma_PrepareCopyOnWrite io clone path i m))"
proof -
  assume inv: "ma_inv m"
  have alloc: "ma_inv (m\<lparr>ma_metadata := snd (md_AllocateStandaloneChunk (ma_metadata m) h v sz)\<rparr>)" for h v sz
    by (rule ma_inv_metadata) (use inv in \<open>auto intro: inv_intros dest: ma_invD\<close>)
  then show ?thesis
    by (simp add: ma_PrepareCopyOnWrite_def case_pair_bool Let_def inv copy_chunk_inv split: option.splits)
qed

text \<open>Operations that write the log and then change the metadata.\<close>

lemma logged_metadata_inv:
  assumes "ma_inv m" and "\<And>md. md_inv md \<Longrightarrow> md_inv (snd (f md))" and "\<And>md p. md_FileExists (snd (f md)) p = md_FileExists md p"
  shows "ma_inv (snd (and_then (AppendOperation io ty strs m) (on_metadata f)))"
proof -
  let ?m = "snd (AppendOperation io ty strs m)"
  have inv: "ma_inv ?m" using assms(1) by simp
  have "ma_inv (?m\<lparr>ma_metadata := snd (f (ma_metadata ?m))\<rparr>)"
    by (rule ma_inv_metadata [OF inv]) (use assms ma_invD(1) [OF inv] in auto)
  then show ?thesis using inv by (simp add: and_then_eq)
qed

lemma ma_chunk_ops_inv [inv_intros]:
  assumes "ma_inv m"
  shows "ma_inv (snd (ma_UpdateFileSize io path sz m))" "ma_inv (snd (ma_SetChunkVersion io h v m))"
    "ma_inv (snd (ma_SetChunkSize io h sz m))" "ma_inv (snd (ma_AllocateChunk io path m))"
    "ma_inv (snd (ma_AddChunkToFile io path h m))"
  using assms
  by (auto simp: ma_UpdateFileSize_def ma_SetChunkVersion_def ma_SetChunkSize_def ma_AllocateChunk_def Let_def
      ma_AddChunkToFile_def case_prod_beta intro!: logged_metadata_inv inv_intros)

lemma ma_RemoveChunkFromFile_inv [inv_intros]: "ma_inv m \<Longrightarrow> ma_inv (snd (ma_RemoveChunkFromFile io path h m))"
proof -
  assume inv: "ma_inv m"
  let ?m = "snd (AppendOperation io OpRemoveChunkFromFile [path, to_string h] m)"
  have "ma_inv (?m\<lparr>ma_metadata := snd (md_RemoveChunkFromFile (ma_metadata ?m) path h)\<rparr>)"
    by (rule ma_inv_metadata) (use inv in \<open>auto intro: inv_intros dest: ma_invD\<close>)
  then show ?thesis
    using inv ma_inv_tables(4) [of "?m\<lparr>ma_metadata := snd (md_RemoveChunkFromFile (ma_metadata ?m) path h)\<rparr>" h]
    by (simp add: ma_RemoveChunkFromFile_def and_then_eq case_prod_beta)
qed

lemma ma_GarbageCollectChunk_inv [inv_intros]: "ma_inv m \<Longrightarrow> ma_inv (snd (ma_GarbageCollectChunk io deleted h m))"
proof -
  assume inv: "ma_inv m"
  let ?m = "forget_chunk h (snd (AppendOperation io OpDeleteChunk [to_string h] m))"
  have "ma_inv ?m" using inv keeps_core_inv [OF keeps_core_forget_chunk] by simp
  then have "ma_inv (?m\<lparr>ma_metadata := snd (md_DeleteChunk (ma_metadata ?m) h)\<rparr>)"
    by (rule ma_inv_metadata) (use inv in \<open>auto intro: inv_intros dest: ma_invD\<close>)
  then show ?thesis
    using inv ma_inv_tables(5) [of "?m\<lparr>ma_metadata := snd (md_DeleteChunk (ma_metadata ?m) h)\<rparr>" h] ma_inv_tables(5) [OF inv, of h]
    by (simp add: ma_GarbageCollectChunk_def and_then_eq)
qed

text \<open>Replicas, leases and heartbeats.\<close>

lemma ma_table_ops_inv [inv_intros]:
  assumes "ma_inv m"
  shows "ma_inv (snd (ma_RegisterReplica h s primary m))" "ma_inv (snd (ma_AcquireLease now h s m))"
    "ma_inv (snd (ma_ExtendLease now h s d m))" "ma_inv (snd (ma_ExtendLeaseDefault now h s m))"
    "ma_inv (snd (ma_ReleaseLease h m))" "ma_inv (snd (ma_DetectFailedChunkservers now m))"
  using assms tables_invD [OF ma_invD(4) [OF assms]]
  by (auto simp: ma_RegisterReplica_def ma_AcquireLease_def ma_ExtendLease_def ma_ExtendLeaseDefault_def
      lm_ExtendLeaseDefault_def ma_ReleaseLease_def ma_DetectFailedChunkservers_def ma_inv_def intro!: inv_intros)

lemma place_loop_inv: "ma_inv m \<Longrightarrow> ma_inv (snd (place_loop h ss primary m))"
  by (induction ss arbitrary: primary m) (auto simp: and_then_eq ma_table_ops_inv(1))

lemma ma_PlaceChunkReplicas_inv [inv_intros]: "ma_inv m \<Longrightarrow> ma_inv (snd (ma_PlaceChunkReplicas h cs m))"
  by (simp add: ma_PlaceChunkReplicas_def Let_def case_prod_beta place_loop_inv)

lemma ma_AddReplica_inv [inv_intros]: "ma_inv m \<Longrightarrow> ma_inv (snd (ma_AddReplica h s m))"
proof -
  assume inv: "ma_inv m"
  let ?m1 = "m\<lparr>ma_metadata := snd (md_AddReplica (ma_metadata m) h s)\<rparr>"
  let ?m2 = "?m1\<lparr>ma_replicas := snd (rm_RegisterReplica (ma_replicas ?m1) h s False)\<rparr>"
  have inv1: "ma_inv ?m1" by (rule ma_inv_metadata [OF inv]) (auto intro: inv_intros ma_invD(1) [OF inv])
  then have inv2: "ma_inv ?m2" by (rule ma_inv_tables, intro rm_RegisterReplica_inv ma_inv_tablesD)
  have "ma_inv (?m2\<lparr>ma_metadata := snd (md_RemoveReplica (ma_metadata ?m2) h s)\<rparr>)"
    by (rule ma_inv_metadata [OF inv2], rule md_chunk_updates_inv, rule ma_invD(1) [OF inv2]) simp
  then show ?thesis using inv1 inv2 by (simp add: ma_AddReplica_def and_then_eq case_pair_bool)
qed

lemma ma_RemoveReplica_inv [inv_intros]: "ma_inv m \<Longrightarrow> ma_inv (snd (ma_RemoveReplica h s m))"
proof -
  assume inv: "ma_inv m"
  let ?m1 = "m\<lparr>ma_replicas := snd (rm_RemoveReplica (ma_replicas m) h s)\<rparr>"
  have inv1: "ma_inv ?m1" using inv by (auto simp: ma_inv_def intro!: inv_intros dest: tables_invD)
  have "ma_inv (?m1\<lparr>ma_metadata := snd (md_RemoveReplica (ma_metadata ?m1) h s)\<rparr>)"
    by (rule ma_inv_metadata [OF inv1], rule md_chunk_updates_inv, rule ma_invD(1) [OF inv1]) simp
  then show ?thesis
    using inv1 keeps_core_inv [OF keeps_core_release_if] by (simp add: ma_RemoveReplica_def and_then_eq Let_def)
qed

lemma ma_SetPrimary_inv [inv_intros]: "ma_inv m \<Longrightarrow> ma_inv (snd (ma_SetPrimary h s m))"
proof -
  assume inv: "ma_inv m"
  have "ma_inv (m\<lparr>ma_replicas := snd (rm_SetPrimary (ma_replicas m) h s)\<rparr>)"
    using inv by (auto simp: ma_inv_def intro!: inv_intros dest: tables_invD)
  then show ?thesis using keeps_core_inv [OF keeps_core_release_if] by (simp add: ma_SetPrimary_def and_then_eq)
qed

lemma ma_ProcessHeartbeat_inv [inv_intros]: "ma_inv m \<Longrightarrow> ma_inv (snd (ma_ProcessHeartbeat s t cs m))"
proof -
  assume inv: "ma_inv m"
  have "ma_inv (m\<lparr>ma_heartbeats := snd (hb_ProcessHeartbeat (ma_heartbeats m) s t cs)\<rparr>)"
    using inv by (auto simp: ma_inv_def intro!: inv_intros dest: tables_invD)
  then show ?thesis
    using keeps_core_inv [OF keeps_core_fold [of "register_reported s", OF keeps_core_reported], of _ cs]
    by (simp add: ma_ProcessHeartbeat_def and_then_eq)
qed

lemma ma_ProcessHeartbeatEmpty_inv [inv_intros]: "ma_inv m \<Longrightarrow> ma_inv (snd (ma_ProcessHeartbeatEmpty s t m))"
  by (auto simp: ma_ProcessHeartbeatEmpty_def hb_ProcessHeartbeatEmpty_def ma_inv_def intro!: inv_intros dest: tables_invD)

lemma ma_CreateCheckpoint_inv [inv_intros]: "ma_inv m \<Longrightarrow> ma_inv (snd (ma_CreateCheckpoint io m))"
  by (simp add: ma_CreateCheckpoint_def case_prod_beta ma_inv_def tables_inv_def)

lemma new_master_inv: "ma_inv (new_master dirs_ok create_ok fs factor dir)"
proof -
  have "rm_inv rm_init" "lm_inv lm_init" "hb_inv hb_init"
    by (rule rm_inv_init) (simp_all add: lm_inv_def lm_init_def hb_inv_def hb_init_def)
  moreover have "md_FileExists md_init p \<longleftrightarrow> ns_IsFile ns_init p" for p
    by (auto simp: md_FileExists_def md_init_def ns_IsFile_view ns_view_init)
  ultimately show ?thesis
    by (simp add: new_master_def Let_def open_log_def case_prod_beta ma_inv_def core_inv_def files_agree_def tables_inv_def
        md_inv_init ns_inv_init)
qed

section \<open>The master as a system\<close>

datatype master_op =
    MaCreateFile append_io string "32 word"
  | MaDeleteFile append_io string
  | MaRenameFile append_io string string
  | MaCreateDirectory append_io string
  | MaUpdateFileSize append_io string "64 word"
  | MaCreateSnapshot append_io string string
  | MaPrepareCopyOnWrite append_io clone_function string chunk_index
  | MaSetChunkVersion append_io chunk_handle chunk_version
  | MaSetChunkSize append_io chunk_handle "64 word"
  | MaAllocateChunk append_io string
  | MaAddChunkToFile append_io string chunk_handle
  | MaRemoveChunkFromFile append_io string chunk_handle
  | MaGarbageCollectChunk append_io bool chunk_handle
  | MaIdentifyGarbage
  | MaRegisterReplica chunk_handle server_id bool
  | MaPlaceChunkReplicas chunk_handle "placement_candidate list"
  | MaAddReplica chunk_handle server_id
  | MaRemoveReplica chunk_handle server_id
  | MaSetPrimary chunk_handle server_id
  | MaAcquireLease time_ms chunk_handle server_id
  | MaExtendLease time_ms chunk_handle server_id time_ms
  | MaReleaseLease chunk_handle
  | MaProcessHeartbeat server_id time_ms "reported_chunk list"
  | MaDetectFailedChunkservers time_ms
  | MaCreateCheckpoint create_io

definition ma_IdentifyGarbage :: "master \<Rightarrow> chunk_handle list \<times> master" where
  "ma_IdentifyGarbage m = on_orphans (\<lambda>oc. IdentifyOrphans oc (ma_metadata m)) m"

fun ma_exec :: "master_op \<Rightarrow> master \<Rightarrow> bool \<times> master" where
  "ma_exec (MaCreateFile io path rf) m = ma_CreateFile io path rf m"
| "ma_exec (MaDeleteFile io path) m = ma_DeleteFile io path m"
| "ma_exec (MaRenameFile io src dst) m = ma_RenameFile io src dst m"
| "ma_exec (MaCreateDirectory io path) m = ma_CreateDirectory io path m"
| "ma_exec (MaUpdateFileSize io path sz) m = ma_UpdateFileSize io path sz m"
| "ma_exec (MaCreateSnapshot io src dst) m = ma_CreateSnapshot io src dst m"
| "ma_exec (MaPrepareCopyOnWrite io clone path i) m =
     apfst (\<lambda>r. r \<noteq> None) (ma_PrepareCopyOnWrite io clone path i m)"
| "ma_exec (MaSetChunkVersion io h v) m = ma_SetChunkVersion io h v m"
| "ma_exec (MaSetChunkSize io h sz) m = ma_SetChunkSize io h sz m"
| "ma_exec (MaAllocateChunk io path) m = apfst (\<lambda>r. r \<noteq> None) (ma_AllocateChunk io path m)"
| "ma_exec (MaAddChunkToFile io path h) m = ma_AddChunkToFile io path h m"
| "ma_exec (MaRemoveChunkFromFile io path h) m = ma_RemoveChunkFromFile io path h m"
| "ma_exec (MaGarbageCollectChunk io deleted h) m = ma_GarbageCollectChunk io deleted h m"
| "ma_exec MaIdentifyGarbage m = apfst (\<lambda>_. True) (ma_IdentifyGarbage m)"
| "ma_exec (MaRegisterReplica h s primary) m = ma_RegisterReplica h s primary m"
| "ma_exec (MaPlaceChunkReplicas h cs) m = apfst (\<lambda>r. r \<noteq> []) (ma_PlaceChunkReplicas h cs m)"
| "ma_exec (MaAddReplica h s) m = ma_AddReplica h s m"
| "ma_exec (MaRemoveReplica h s) m = ma_RemoveReplica h s m"
| "ma_exec (MaSetPrimary h s) m = ma_SetPrimary h s m"
| "ma_exec (MaAcquireLease now h s) m = apfst (\<lambda>r. r \<noteq> None) (ma_AcquireLease now h s m)"
| "ma_exec (MaExtendLease now h s d) m = ma_ExtendLease now h s d m"
| "ma_exec (MaReleaseLease h) m = ma_ReleaseLease h m"
| "ma_exec (MaProcessHeartbeat s t cs) m = ma_ProcessHeartbeat s t cs m"
| "ma_exec (MaDetectFailedChunkservers now) m = apfst (\<lambda>_. True) (ma_DetectFailedChunkservers now m)"
| "ma_exec (MaCreateCheckpoint io) m = ma_CreateCheckpoint io m"

lemma ma_IdentifyGarbage_inv [inv_intros]: "ma_inv m \<Longrightarrow> ma_inv (snd (ma_IdentifyGarbage m))"
proof -
  assume inv: "ma_inv m"
  have "finite (snd (IdentifyOrphans (ma_orphans m) (ma_metadata m)))"
    using inv by (simp add: ma_inv_def tables_inv_def IdentifyOrphans_def Let_def finite_identify)
  moreover have "0 \<notin> snd (IdentifyOrphans (ma_orphans m) (ma_metadata m))"
    using inv IdentifyOrphans_member [OF ma_invD(1) [OF inv], of 0] md_chunk_ok [OF ma_invD(1) [OF inv], of 0]
    by (auto simp: ma_inv_def tables_inv_def chunk_ok_def md_ChunkExists_def)
  ultimately show ?thesis using inv by (simp add: ma_IdentifyGarbage_def ma_inv_def tables_inv_def)
qed

interpretation masters: invariant_system ma_exec "new_master dirs_ok create_ok fs factor dir" ma_inv
  for dirs_ok create_ok fs factor dir
proof
  show "ma_inv (new_master dirs_ok create_ok fs factor dir)" by (rule new_master_inv)
  show "ma_inv (snd (ma_exec opr s))" if "ma_inv s" for opr s
    using that by (cases opr) (auto intro: inv_intros)
qed

section \<open>Leases and primaries\<close>

lemma release_if_lease:
  "lm_GetLease (ma_leases (release_if P h m)) h = Some l \<Longrightarrow> \<not> P l"
  by (auto simp: release_if_def lm_ReleaseLease_def lm_GetLease_def split: option.splits if_splits)

lemma release_if_replicas [simp]: "ma_replicas (release_if P h m) = ma_replicas m"
  by (simp add: release_if_def split: option.splits)

section \<open>Properties\<close>

text \<open>A master with one file of one chunk, which has one replica.\<close>

definition sample_master :: master where
  "sample_master = snd (ma_exec (MaRegisterReplica 1 7 True) (snd (ma_exec (MaAllocateChunk io_ok ''/f'')
     (snd (ma_exec (MaCreateFile io_ok ''/f'' 0) (new_master True True (\<lambda>_. None) 3 [])))))) "

lemma sample_master_reachable: "masters.reachable True True (\<lambda>_. None) 3 [] sample_master"
  unfolding sample_master_def by (intro masters.reachable.intros)

lemma sample_master_eq:
  "ma_metadata sample_master = \<lparr>md_files = [(''/f'', \<lparr>fm_path = ''/f'', fm_size = 0, fm_replication_factor = 3,
      fm_chunk_handles = [1]\<rparr>)], md_chunks = [(1, \<lparr>cm_handle = 1, cm_version = 1, cm_size = 0, cm_replicas = {}\<rparr>)],
      md_next = 2\<rparr>"
  "ma_replicas sample_master = [(1, [\<lparr>ri_server = 7, ri_primary = True\<rparr>])]"
  "ma_namespace sample_master = Node ''/'' Directory [Node ''f'' File []]"
  "ma_leases sample_master = lm_init"
  by code_simp+

text \<open>C31: when the master removes a replica or makes another server the primary, a lease of that chunk
  survives only when its holder is the primary afterwards. (Registering a replica as the primary, as
  allocation does, is not one of these calls and releases no lease.)\<close>
theorem primary_change_ends_lease:
  assumes "ma_RemoveReplica h s m = (True, m') \<or> ma_SetPrimary h s m = (True, m')"
    and "lm_GetLease (ma_leases m') h = Some l"
  shows "rm_GetPrimary (ma_replicas m') h = Some (lz_primary_server_id l)"
  using assms(1)
proof
  assume rem: "ma_RemoveReplica h s m = (True, m')"
  define m1 where "m1 = m\<lparr>ma_replicas := snd (rm_RemoveReplica (ma_replicas m) h s),
    ma_metadata := snd (md_RemoveReplica (ma_metadata m) h s)\<rparr>"
  have m': "m' = release_if (\<lambda>l. rm_GetPrimary (ma_replicas m1) h \<noteq> Some (lz_primary_server_id l)) h m1"
    using rem by (simp add: m1_def ma_RemoveReplica_def and_then_eq Let_def split: if_splits)
  then show ?thesis using release_if_lease assms(2) by fastforce
next
  assume set: "ma_SetPrimary h s m = (True, m')"
  then obtain t where t: "rm_SetPrimary (ma_replicas m) h s = (True, t)"
      and m': "m' = release_if (\<lambda>l. lz_primary_server_id l \<noteq> s) h (m\<lparr>ma_replicas := t\<rparr>)"
    by (cases "rm_SetPrimary (ma_replicas m) h s") (auto simp: ma_SetPrimary_def and_then_eq split: if_splits)
  have "rm_GetPrimary t h = Some s" using SetPrimary_GetPrimary [of "ma_replicas m" h s t] t by simp
  moreover have "lz_primary_server_id l = s" using release_if_lease assms(2) unfolding m' by fastforce
  ultimately show ?thesis by (simp add: m')
qed

theorem primary_change_ends_lease_witness:
  "rm_GetPrimary (ma_replicas (snd (ma_SetPrimary 1 8 (snd (ma_AcquireLease 5 1 8
      (snd (ma_RegisterReplica 1 8 True sample_master))))))) 1 = Some 8"
proof -
  let ?m = "snd (ma_AcquireLease 5 1 8 (snd (ma_RegisterReplica 1 8 True sample_master)))"
  have "fst (ma_SetPrimary 1 8 ?m)" and
      "lm_GetLease (ma_leases (snd (ma_SetPrimary 1 8 ?m))) 1 =
        Some \<lparr>lz_chunk_handle = 1, lz_primary_server_id = 8, lz_version = 1, lz_expiration_time_ms = 60005\<rparr>"
    by code_simp+
  then show ?thesis
    using primary_change_ends_lease [of 1 8 ?m "snd (ma_SetPrimary 1 8 ?m)"] by (simp add: prod_eq_iff)
qed

end
