(* ===== verification/Durable.thy ===== *)
theory Durable
  imports Consistency
begin

text \<open>
  The durable state of a master is its namespace, its files and its chunks with their versions and
  sizes; the shape of the tree, the order of the tables, the replicas of chunks and the next handle
  are not durable. Every operation that the log records gives the same answer on two states with
  the same durable content, and the same durable content again.
\<close>

section \<open>Namespaces with the same view\<close>

definition ns_same :: "node \<Rightarrow> node \<Rightarrow> bool" where
  "ns_same a b \<longleftrightarrow> ns_inv a \<and> ns_inv b \<and> ns_view a = ns_view b"

lemma ns_sameD: "ns_same a b \<Longrightarrow> ns_inv a" "ns_same a b \<Longrightarrow> ns_inv b" "ns_same a b \<Longrightarrow> ns_view a = ns_view b"
  by (simp_all add: ns_same_def)

lemma ns_same_queries:
  assumes "ns_same a b"
  shows "ns_Exists a path = ns_Exists b path" "ns_IsFile a path = ns_IsFile b path"
    "ns_IsDirectory a path = ns_IsDirectory b path" "can_create a path = can_create b path"
    "can_delete ty a path = can_delete ty b path" "can_rename a path dst = can_rename b path dst"
  by (simp_all add: ns_Exists_view ns_IsFile_view ns_IsDirectory_view can_create_def can_delete_def can_rename_def
      ns_sameD(3) [OF assms])

lemma create_node_same:
  assumes "ns_same a b"
  shows "agrees ns_same (create_node ty a path) (create_node ty b path)"
proof (cases "can_create a path")
  case True
  then have "can_create b path" using ns_same_queries(4) [OF assms] by simp
  then show ?thesis
    using True create_node_succeeds [OF ns_sameD(1) [OF assms] True, of ty]
      create_node_succeeds [OF ns_sameD(2) [OF assms], of path ty] ns_sameD(3) [OF assms]
    by (auto simp: ns_same_def)
next
  case False
  then show ?thesis using assms ns_same_queries(4) [OF assms, of path] by (simp add: create_node_fails)
qed

lemma ns_create_same:
  "ns_same a b \<Longrightarrow> agrees ns_same (ns_CreateFile a path) (ns_CreateFile b path)"
  "ns_same a b \<Longrightarrow> agrees ns_same (ns_CreateDirectory a path) (ns_CreateDirectory b path)"
  by (simp_all add: ns_CreateFile_def ns_CreateDirectory_def create_node_same)

lemma ns_delete_core_same:
  assumes "ns_same a b" and "can_delete ty a path"
  defines "erase \<equiv> \<lambda>r. modify_at (butlast (SplitPath path)) (erase_child (last (SplitPath path))) r"
  shows "ns_same (erase a) (erase b)"
proof -
  have "can_delete ty b path" using assms(2) ns_same_queries(5) [OF assms(1)] by simp
  then show ?thesis
    using delete_core [OF ns_sameD(1) [OF assms(1)] assms(2)] delete_core [OF ns_sameD(2) [OF assms(1)]]
      ns_sameD(3) [OF assms(1)] by (simp add: ns_same_def erase_def)
qed

lemma ns_delete_same:
  assumes "ns_same a b"
  shows "agrees ns_same (ns_DeleteFile a path) (ns_DeleteFile b path)"
    "agrees ns_same (ns_DeleteDirectory a path) (ns_DeleteDirectory b path)"
  by (simp_all add: ns_DeleteFile_eq ns_DeleteDirectory_eq ns_sameD(1,2) [OF assms] ns_delete_core_same [OF assms]
      ns_same_queries(5) [OF assms, symmetric] assms)

lemma ns_Rename_same:
  assumes "ns_same a b"
  shows "agrees ns_same (ns_Rename a src dst) (ns_Rename b src dst)"
proof (cases "can_rename a src dst")
  case True
  then have "can_rename b src dst" using ns_same_queries(6) [OF assms] by simp
  then show ?thesis
    using ns_Rename_succeeds [OF ns_sameD(1) [OF assms] True] ns_Rename_succeeds [OF ns_sameD(2) [OF assms]]
      ns_sameD(3) [OF assms] by (fastforce simp: ns_same_def)
next
  case False
  then show ?thesis
    using assms ns_same_queries(6) [OF assms, of src dst] ns_Rename_fails [OF ns_sameD(1) [OF assms]]
      ns_Rename_fails [OF ns_sameD(2) [OF assms]] by (simp add: ns_same_def)
qed

text \<open>Exports are sorted by path, so they depend on the view only.\<close>

lemma export_same:
  assumes "ns_same a b"
  shows "ns_ExportNodes a = ns_ExportNodes b"
proof -
  have "set (ns_ExportNodes a) = set (ns_ExportNodes b)"
    by (auto simp: set_export ns_sameD [OF assms])
  moreover have "sorted (map ni_path (ns_ExportNodes r))" for r
    by (simp add: ns_ExportNodes_def)
  moreover have "distinct (map ni_path (ns_ExportNodes a))" "distinct (map ni_path (ns_ExportNodes b))"
    by (simp_all add: distinct_export ns_sameD [OF assms])
  ultimately show ?thesis
    by (metis map_sorted_distinct_set_unique distinct_map inj_on_Un_image_eq_iff sup.idem)
qed

section \<open>Metadata with the same durable content\<close>

definition md_same :: "metadata \<Rightarrow> metadata \<Rightarrow> bool" where
  "md_same a b \<longleftrightarrow> md_inv a \<and> md_inv b \<and> durable_eq a b"

lemma durable_eq_files: "durable_eq a b \<Longrightarrow> map_of (md_files a) = map_of (md_files b)"
  by (simp add: durable_eq_def)

lemma durable_eq_chunk:
  "durable_eq a b \<Longrightarrow> map_option persistent_chunk_of (map_of (md_chunks a) h) = map_option persistent_chunk_of (map_of (md_chunks b) h)"
  unfolding durable_eq_def by (metis comp_apply)

lemma durable_eqI:
  "map_of (md_files a) = map_of (md_files b) \<Longrightarrow>
    (\<And>h. map_option persistent_chunk_of (map_of (md_chunks a) h) = map_option persistent_chunk_of (map_of (md_chunks b) h)) \<Longrightarrow>
    durable_eq a b"
  by (auto simp: durable_eq_def)

lemma durable_eq_ChunkExists: "durable_eq a b \<Longrightarrow> md_ChunkExists a h = md_ChunkExists b h"
  using durable_eq_chunk [of a b h] by (cases "map_of (md_chunks a) h"; cases "map_of (md_chunks b) h") (auto simp: md_ChunkExists_def)

lemma durable_eq_refl [simp]: "durable_eq a a"
  by (simp add: durable_eq_def)

lemma durable_eq_trans: "durable_eq a b \<Longrightarrow> durable_eq b c \<Longrightarrow> durable_eq a c"
  by (simp add: durable_eq_def)

lemma durable_eq_sym: "durable_eq a b \<Longrightarrow> durable_eq b a"
  by (simp add: durable_eq_def)

lemma durable_eq_updates:
  assumes "durable_eq a b"
  shows "durable_eq (md_put_file a p f) (md_put_file b p f)"
    "persistent_chunk_of c = persistent_chunk_of c' \<Longrightarrow> durable_eq (md_put_chunk a h c) (md_put_chunk b h c')"
    "durable_eq (md_erase_file a p) (md_erase_file b p)" "durable_eq (md_erase_chunk a h) (md_erase_chunk b h)"
  using durable_eq_files [OF assms] durable_eq_chunk [OF assms] by (auto intro!: durable_eqI simp: fun_eq_iff)

lemma durable_eq_bump [simp]:
  "durable_eq (snd (md_bump_next a h)) b = durable_eq a b" "durable_eq a (snd (md_bump_next b h)) = durable_eq a b"
  by (auto simp: durable_eq_def)

lemma durable_eq_next [simp]:
  "durable_eq (a\<lparr>md_next := n\<rparr>) b = durable_eq a b" "durable_eq a (b\<lparr>md_next := n\<rparr>) = durable_eq a b"
  by (auto simp: durable_eq_def)

lemma md_sameD:
  "md_same a b \<Longrightarrow> md_inv a" "md_same a b \<Longrightarrow> md_inv b" "md_same a b \<Longrightarrow> durable_eq a b"
  by (simp_all add: md_same_def)

lemma md_same_queries:
  assumes "md_same a b"
  shows "map_of (md_files a) = map_of (md_files b)" "md_FileExists a path = md_FileExists b path"
    "md_ChunkExists a h = md_ChunkExists b h" "md_GetFile a path = md_GetFile b path"
    "md_GetFileChunks a path = md_GetFileChunks b path" "referenced a h = referenced b h"
  using durable_eq_files [OF md_sameD(3) [OF assms]] durable_eq_ChunkExists [OF md_sameD(3) [OF assms]]
  by (simp_all add: md_FileExists_def md_GetFile_def md_GetFileChunks_def referenced_def)

text \<open>Proof obligation of one operation: the invariant is kept, and the results agree.\<close>

lemma md_agreesI:
  assumes "md_same a b" and "fst ra = fst rb" and "durable_eq (snd ra) (snd rb)"
    and "md_inv (snd ra)" and "md_inv (snd rb)"
  shows "agrees md_same ra rb"
  using assms by (simp add: agrees_def md_same_def)

lemma md_CreateFile_same: "md_same a b \<Longrightarrow> agrees md_same (md_CreateFile a path rf) (md_CreateFile b path rf)"
  by (rule md_agreesI; (rule md_CreateFile_inv)?)
    (auto simp: md_CreateFile_def md_same_queries(2) [of a b] durable_eq_updates md_sameD)

lemma md_RenameFile_same: "md_same a b \<Longrightarrow> agrees md_same (md_RenameFile a src dst) (md_RenameFile b src dst)"
  by (rule md_agreesI; (rule md_RenameFile_inv)?)
    (auto simp: md_RenameFile_def md_same_queries(1,2) [of a b] durable_eq_updates md_sameD split: option.splits)

lemma md_UpdateFileSize_same: "md_same a b \<Longrightarrow> agrees md_same (md_UpdateFileSize a path sz) (md_UpdateFileSize b path sz)"
  by (rule md_agreesI; (rule md_UpdateFileSize_inv)?)
    (auto simp: md_UpdateFileSize_def md_same_queries(1) [of a b] durable_eq_updates md_sameD split: option.splits)

lemma md_AllocateChunk_same: "md_same a b \<Longrightarrow> agrees md_same (md_AllocateChunk a path h v sz) (md_AllocateChunk b path h v sz)"
  by (rule md_agreesI; (rule md_AllocateChunk_inv)?)
    (auto simp: md_AllocateChunk_eq md_same_queries(1,3) [of a b] durable_eq_updates md_sameD split: option.splits)

lemma md_AllocateStandaloneChunk_same:
  "md_same a b \<Longrightarrow> agrees md_same (md_AllocateStandaloneChunk a h v sz) (md_AllocateStandaloneChunk b h v sz)"
proof (rule md_agreesI; (rule md_AllocateStandaloneChunk_inv)?)
  assume same: "md_same a b"
  show "fst (md_AllocateStandaloneChunk a h v sz) = fst (md_AllocateStandaloneChunk b h v sz)"
    by (simp add: md_AllocateStandaloneChunk_eq md_same_queries(3) [OF same])
  have "durable_eq (md_erase_chunk (snd (md_bump_next (md_put_chunk a h c) h)) h)
      (md_erase_chunk (snd (md_bump_next (md_put_chunk b h c) h)) h)" for c
    by (rule durable_eq_updates) (simp add: durable_eq_updates md_sameD [OF same])
  then show "durable_eq (snd (md_AllocateStandaloneChunk a h v sz)) (snd (md_AllocateStandaloneChunk b h v sz))"
    by (simp add: md_AllocateStandaloneChunk_eq md_same_queries(3) [OF same] durable_eq_updates md_sameD [OF same])
qed (auto dest: md_sameD)

lemma md_AddChunkToFile_same: "md_same a b \<Longrightarrow> agrees md_same (md_AddChunkToFile a path h) (md_AddChunkToFile b path h)"
  by (rule md_agreesI; (rule md_AddChunkToFile_inv)?)
    (auto simp: md_AddChunkToFile_def case_prod_beta md_same_queries(1,3) [of a b] durable_eq_updates md_sameD split: option.splits)

lemma md_RemoveChunkFromFile_same:
  "md_same a b \<Longrightarrow> agrees md_same (md_RemoveChunkFromFile a path h) (md_RemoveChunkFromFile b path h)"
  by (rule md_agreesI; (rule md_RemoveChunkFromFile_inv)?)
    (auto simp: md_RemoveChunkFromFile_def case_prod_beta md_same_queries(1) [of a b] durable_eq_updates md_sameD split: option.splits)

lemma md_ReplaceChunkInFile_same:
  "md_same a b \<Longrightarrow> agrees md_same (md_ReplaceChunkInFile a path i h) (md_ReplaceChunkInFile b path i h)"
  by (rule md_agreesI; (rule md_ReplaceChunkInFile_inv)?)
    (auto simp: md_ReplaceChunkInFile_def Let_def md_same_queries(1,3) [of a b] durable_eq_updates md_sameD split: option.splits)

lemma md_CloneFileMetadata_same:
  "md_same a b \<Longrightarrow> agrees md_same (md_CloneFileMetadata a src dst) (md_CloneFileMetadata b src dst)"
  by (rule md_agreesI; (rule md_CloneFileMetadata_inv)?)
    (auto simp: md_CloneFileMetadata_def Let_def md_same_queries(1,2) [of a b] durable_eq_ChunkExists [of a b]
      durable_eq_updates md_sameD split: option.splits)

lemma md_DeleteFile_same:
  assumes "md_same a b"
  shows "agrees md_same (md_DeleteFile a path) (md_DeleteFile b path)"
proof (rule md_agreesI [OF assms])
  show "fst (md_DeleteFile a path) = fst (md_DeleteFile b path)"
    by (simp add: FileExists_DeleteFile md_same_queries(2) [OF assms])
  show "durable_eq (snd (md_DeleteFile a path)) (snd (md_DeleteFile b path))"
  proof (cases "map_of (md_files b) path")
    case (Some f)
    have er: "durable_eq (md_erase_file a path) (md_erase_file b path)"
      by (rule durable_eq_updates) (rule md_sameD [OF assms])
    note eqs = durable_eq_files [OF er] durable_eq_chunk [OF er]
    have "referenced (md_erase_file a path) g = referenced (md_erase_file b path) g" for g
      using eqs(1) by (simp add: referenced_def)
    moreover note drop = fold_drop_unreferenced [OF md_inv_erase_file [OF md_sameD(1) [OF assms]], of "fm_chunk_handles f"]
      fold_drop_unreferenced [OF md_inv_erase_file [OF md_sameD(2) [OF assms]], of "fm_chunk_handles f"]
    ultimately show ?thesis
      using Some eqs by (auto simp: md_DeleteFile_def md_same_queries(1) [OF assms] intro!: durable_eqI)
  qed (simp add: md_DeleteFile_def md_same_queries(1) [OF assms] md_sameD [OF assms])
qed (intro md_DeleteFile_inv md_sameD [OF assms])+

lemma md_DeleteChunk_same:
  assumes "md_same a b"
  shows "agrees md_same (md_DeleteChunk a h) (md_DeleteChunk b h)"
proof (rule md_agreesI [OF assms]; (rule md_DeleteChunk_inv)?)
  show "durable_eq (snd (md_DeleteChunk a h)) (snd (md_DeleteChunk b h))"
    using durable_eq_chunk [OF md_sameD(3) [OF assms]]
    by (auto simp: md_DeleteChunk_def md_same_queries(1,3) [OF assms] md_sameD(3) [OF assms] fun_eq_iff
        md_erase_chunk_def intro!: durable_eqI)
qed (simp_all add: md_DeleteChunk_def md_same_queries(3) [OF assms] md_sameD [OF assms])

lemma chunk_same:
  assumes "md_same a b"
  obtains "map_of (md_chunks a) h = None" and "map_of (md_chunks b) h = None"
  | c c' where "map_of (md_chunks a) h = Some c" and "map_of (md_chunks b) h = Some c'"
      and "persistent_chunk_of c = persistent_chunk_of c'"
  using durable_eq_chunk [OF md_sameD(3) [OF assms], of h]
  by (cases "map_of (md_chunks a) h"; cases "map_of (md_chunks b) h") auto

lemma md_SetChunkVersion_same:
  assumes "md_same a b"
  shows "agrees md_same (md_SetChunkVersion a h v) (md_SetChunkVersion b h v)"
  by (rule chunk_same [OF assms, of h]; rule md_agreesI [OF assms]; (rule md_chunk_updates_inv)?)
    (auto simp: md_SetChunkVersion_def md_sameD [OF assms] cm_SetVersion_def persistent_chunk_of_def
      intro!: durable_eq_updates)

lemma md_SetChunkSize_same:
  assumes "md_same a b"
  shows "agrees md_same (md_SetChunkSize a h sz) (md_SetChunkSize b h sz)"
  by (rule chunk_same [OF assms, of h]; rule md_agreesI [OF assms]; (rule md_chunk_updates_inv)?)
    (auto simp: md_SetChunkSize_def md_sameD [OF assms] persistent_chunk_of_def intro!: durable_eq_updates)

section \<open>Masters with the same durable state\<close>

definition same_durable :: "master \<Rightarrow> master \<Rightarrow> bool" where
  "same_durable a b \<longleftrightarrow> md_same (ma_metadata a) (ma_metadata b) \<and> ns_same (ma_namespace a) (ma_namespace b)"

lemma same_durableD:
  "same_durable a b \<Longrightarrow> md_same (ma_metadata a) (ma_metadata b)"
  "same_durable a b \<Longrightarrow> ns_same (ma_namespace a) (ma_namespace b)"
  by (simp_all add: same_durable_def)

lemma same_durable_refl: "ma_inv m \<Longrightarrow> same_durable m m"
  by (simp add: same_durable_def md_same_def ns_same_def ma_invD)

lemma same_durable_trans: "same_durable a b \<Longrightarrow> same_durable b c \<Longrightarrow> same_durable a c"
  by (auto simp: same_durable_def md_same_def ns_same_def intro: durable_eq_trans)

lemma same_durable_sym: "same_durable a b \<Longrightarrow> same_durable b a"
  by (auto simp: same_durable_def md_same_def ns_same_def intro: durable_eq_sym)

lemma same_durable_fields:
  "ma_metadata a' = ma_metadata a \<Longrightarrow> ma_namespace a' = ma_namespace a \<Longrightarrow> ma_metadata b' = ma_metadata b \<Longrightarrow>
    ma_namespace b' = ma_namespace b \<Longrightarrow> same_durable a' b' = same_durable a b"
  by (simp add: same_durable_def)

lemma same_durable_keeps_core: "keeps_core f \<Longrightarrow> same_durable (f a) (f b) = same_durable a b"
  by (simp add: same_durable_def keeps_coreD)

lemmas same_queries = md_same_queries [OF same_durableD(1)] ns_same_queries [OF same_durableD(2)]

lemma on_metadata_same:
  "same_durable a b \<Longrightarrow> (\<And>x y. md_same x y \<Longrightarrow> agrees md_same (f x) (f y)) \<Longrightarrow>
    agrees same_durable (on_metadata f a) (on_metadata f b)"
  by (auto simp: agrees_def same_durable_def)

lemma on_namespace_same:
  "same_durable a b \<Longrightarrow> (\<And>x y. ns_same x y \<Longrightarrow> agrees ns_same (f x) (f y)) \<Longrightarrow>
    agrees same_durable (on_namespace f a) (on_namespace f b)"
  by (auto simp: agrees_def same_durable_def)

lemmas metadata_same = md_CreateFile_same md_RenameFile_same md_UpdateFileSize_same md_AllocateChunk_same
  md_AllocateStandaloneChunk_same md_AddChunkToFile_same md_RemoveChunkFromFile_same md_ReplaceChunkInFile_same
  md_CloneFileMetadata_same md_DeleteFile_same md_DeleteChunk_same md_SetChunkVersion_same md_SetChunkSize_same

lemmas namespace_same = ns_create_same ns_delete_same ns_Rename_same

lemma agrees_snd: "agrees rel r r' \<Longrightarrow> rel (snd r) (snd r')"
  by (simp add: agrees_def)

lemma agrees_fst: "agrees rel r r' \<Longrightarrow> fst r = fst r'"
  by (simp add: agrees_def)

lemma drop_created_file_same: "same_durable a b \<Longrightarrow> same_durable (drop_created_file p a) (drop_created_file p b)"
  unfolding drop_created_file_def
  by (rule agrees_snd [OF on_namespace_same [OF agrees_snd [OF on_metadata_same]]])
    (simp_all add: metadata_same namespace_same)

lemma drop_created_directory_same:
  "same_durable a b \<Longrightarrow> same_durable (drop_created_directory p a) (drop_created_directory p b)"
  unfolding drop_created_directory_def
  by (rule agrees_snd [OF on_namespace_same]) (simp_all add: namespace_same)

lemma fold_same:
  assumes "\<And>x s t. rel s t \<Longrightarrow> rel (f x s) (f x t)"
  shows "rel s t \<Longrightarrow> rel (fold f xs s) (fold f xs t)"
  by (induction xs arbitrary: s t) (simp_all add: assms)

lemma rollback_same: "same_durable a b \<Longrightarrow> same_durable (rollback fs ds a) (rollback fs ds b)"
  unfolding rollback_def
  using fold_same [of same_durable drop_created_directory] fold_same [of same_durable drop_created_file]
  by (simp add: drop_created_directory_same drop_created_file_same)

lemma agrees_case_bool:
  assumes "agrees rel r r'" and "\<And>s t. rel s t \<Longrightarrow> agrees rel' (f s) (f' t)" and "\<And>s t. rel s t \<Longrightarrow> agrees rel' (g s) (g' t)"
  shows "agrees rel' (case r of (False, s) \<Rightarrow> f s | (True, s) \<Rightarrow> g s) (case r' of (False, s) \<Rightarrow> f' s | (True, s) \<Rightarrow> g' s)"
  using assms by (cases r; cases r'; cases "fst r") auto

lemma release_all_same: "same_durable a b \<Longrightarrow> same_durable (release_all hs a) (release_all hs b)"
  by (simp add: same_durable_keeps_core keeps_core_release)

lemma snapshot_loop_same:
  "same_durable a b \<Longrightarrow> agrees same_durable (snapshot_loop src dst infos fs ds a) (snapshot_loop src dst infos fs ds b)"
proof (induction infos arbitrary: fs ds a b)
  case (Cons info infos)
  let ?d = "destination_for False src dst (ni_path info)"
  consider "ni_path info = src" | "ni_path info \<noteq> src" "ni_type info = Directory"
    | "ni_path info \<noteq> src" "ni_type info \<noteq> Directory" by blast
  then show ?case
  proof cases
    case 2
    then show ?thesis
      using Cons.IH rollback_same
      by (auto simp: Let_def intro!: agrees_case_bool [OF on_namespace_same [OF Cons.prems]] namespace_same)
  next
    case 3
    show ?thesis
    proof (cases "md_GetFile (ma_metadata b) (ni_path info)")
      case None
      then show ?thesis using 3 rollback_same [OF Cons.prems] by (simp add: Let_def same_queries(4) [OF Cons.prems])
    next
      case (Some f)
      have "agrees same_durable
          (case on_metadata (\<lambda>md. md_CloneFileMetadata md (ni_path info) ?d) s of
             (False, m) \<Rightarrow> (False, rollback (fs @ [?d]) ds m)
           | (True, m) \<Rightarrow> snapshot_loop src dst infos (fs @ [?d]) ds (release_all (fm_chunk_handles f) m))
          (case on_metadata (\<lambda>md. md_CloneFileMetadata md (ni_path info) ?d) t of
             (False, m) \<Rightarrow> (False, rollback (fs @ [?d]) ds m)
           | (True, m) \<Rightarrow> snapshot_loop src dst infos (fs @ [?d]) ds (release_all (fm_chunk_handles f) m))"
        if "same_durable s t" for s t
        by (rule agrees_case_bool [OF on_metadata_same [OF that]])
          (simp_all add: metadata_same rollback_same Cons.IH release_all_same)
      from agrees_case_bool [OF on_namespace_same [OF Cons.prems] _ this, of "\<lambda>ns. ns_CreateFile ns ?d"
          "\<lambda>m. (False, rollback fs ds m)" "\<lambda>m. (False, rollback fs ds m)"]
      show ?thesis
        using 3 Some by (simp add: Let_def same_queries(4) [OF Cons.prems] rollback_same ns_create_same(1))
    qed
  qed (simp add: Cons)
qed simp

lemma snapshot_file_same:
  assumes "same_durable a b"
  shows "agrees same_durable (snapshot_file src dst a) (snapshot_file src dst b)"
proof (cases "md_GetFile (ma_metadata b) src")
  case (Some f)
  have "agrees same_durable
      (case on_metadata (\<lambda>md. md_CloneFileMetadata md src dst) s of
         (False, m) \<Rightarrow> (False, rollback [dst] [] m) | (True, m) \<Rightarrow> (True, release_all (fm_chunk_handles f) m))
      (case on_metadata (\<lambda>md. md_CloneFileMetadata md src dst) t of
         (False, m) \<Rightarrow> (False, rollback [dst] [] m) | (True, m) \<Rightarrow> (True, release_all (fm_chunk_handles f) m))"
    if "same_durable s t" for s t
    by (rule agrees_case_bool [OF on_metadata_same [OF that]])
      (simp_all add: metadata_same rollback_same release_all_same)
  then show ?thesis
    using Some assms
    by (auto simp: snapshot_file_def same_queries(4) [OF assms] intro!: agrees_and_then on_namespace_same namespace_same)
qed (simp add: snapshot_file_def same_queries(4) [OF assms] assms)

lemma CreateSnapshotInternal_same:
  assumes "same_durable a b"
  shows "agrees same_durable (CreateSnapshotInternal src dst a) (CreateSnapshotInternal src dst b)"
proof -
  have "agrees same_durable
      (and_then (on_namespace (\<lambda>ns. ns_CreateDirectory ns dst) a) (snapshot_loop src dst infos fs ds))
      (and_then (on_namespace (\<lambda>ns. ns_CreateDirectory ns dst) b) (snapshot_loop src dst infos fs ds))" for infos fs ds
    by (intro agrees_and_then on_namespace_same namespace_same snapshot_loop_same assms)
  then show ?thesis
    by (simp add: CreateSnapshotInternal_def Let_def export_same [OF same_durableD(2) [OF assms]]
        same_queries(8) [OF assms] snapshot_file_same [OF assms] assms split: option.splits)
qed

end
