(* ===== verification/Recovery.thy ===== *)
theory Recovery
  imports Durable
begin

text \<open>
  Recovery of a master from its persistence directory: \<open>Master::ReplayOperation\<close>,
  \<open>Master::ReplayCopyOnWrite\<close> and \<open>Master::Initialize\<close> of \<open>src/master/master.cpp\<close>.

  The main theorem: a history of operations in which none was logged and then failed leaves files
  from which a new master initialises to the same namespace, files and chunks, whatever
  checkpoints were taken in between and however taking them failed. The proof is a simulation:
  redoing a logged operation does to the durable state what the operation did, and redoing agrees
  on states with the same durable content.
\<close>

section \<open>Redoing one operation\<close>

definition redo_CreateDirectory :: "string list \<Rightarrow> master \<Rightarrow> bool \<times> master" where
  "redo_CreateDirectory fs m =
     (case fs of
        [path] \<Rightarrow>
          if ns_Exists (ma_namespace m) path then (ns_IsDirectory (ma_namespace m) path, m)
          else on_namespace (\<lambda>ns. ns_CreateDirectory ns path) m
      | _ \<Rightarrow> (False, m))"

definition redo_CreateFile :: "string list \<Rightarrow> master \<Rightarrow> bool \<times> master" where
  "redo_CreateFile fs m =
     (case fs of
        [path, factor_string] \<Rightarrow>
          (case parse_u64 factor_string of
             None \<Rightarrow> (False, m)
           | Some factor \<Rightarrow>
               if factor = 0 \<or> factor > 4294967295 then (False, m)
               else if ns_Exists (ma_namespace m) path
               then (ns_IsFile (ma_namespace m) path \<and> md_FileExists (ma_metadata m) path, m)
               else and_then (on_namespace (\<lambda>ns. ns_CreateFile ns path) m)
                 (on_metadata (\<lambda>md. md_CreateFile md path (ucast factor))))
      | _ \<Rightarrow> (False, m))"

definition redo_DeleteFile :: "string list \<Rightarrow> master \<Rightarrow> bool \<times> master" where
  "redo_DeleteFile fs m =
     (case fs of
        [path] \<Rightarrow>
          let metadata_exists = md_FileExists (ma_metadata m) path;
              namespace_exists = ns_IsFile (ma_namespace m) path in
          if \<not> metadata_exists \<and> \<not> namespace_exists then (True, m)
          else and_then (if metadata_exists then on_metadata (\<lambda>md. md_DeleteFile md path) m else (True, m))
            (\<lambda>m. if namespace_exists then on_namespace (\<lambda>ns. ns_DeleteFile ns path) m else (True, m))
      | _ \<Rightarrow> (False, m))"

definition redo_RenameFile :: "string list \<Rightarrow> master \<Rightarrow> bool \<times> master" where
  "redo_RenameFile fs m =
     (case fs of
        [src, dst] \<Rightarrow>
          if \<not> ns_IsFile (ma_namespace m) src then (False, m)
          else and_then (on_namespace (\<lambda>ns. ns_Rename ns src dst) m)
            (on_metadata (\<lambda>md. md_RenameFile md src dst))
      | _ \<Rightarrow> (False, m))"

definition redo_AllocateChunk :: "string list \<Rightarrow> master \<Rightarrow> bool \<times> master" where
  "redo_AllocateChunk fs m =
     (case fs of
        [path, s1, s2, s3] \<Rightarrow>
          (case (parse_u64 s1, parse_u64 s2, parse_u64 s3) of
             (Some handle, Some version, Some sz) \<Rightarrow>
               if handle = 0 \<or> version = 0 then (False, m)
               else if md_ChunkExists (ma_metadata m) handle then (True, m)
               else on_metadata (\<lambda>md. md_AllocateChunk md path handle version sz) m
           | _ \<Rightarrow> (False, m))
      | _ \<Rightarrow> (False, m))"

definition redo_UpdateFileSize :: "string list \<Rightarrow> master \<Rightarrow> bool \<times> master" where
  "redo_UpdateFileSize fs m =
     (case fs of
        [path, s] \<Rightarrow>
          (case parse_u64 s of
             None \<Rightarrow> (False, m)
           | Some sz \<Rightarrow> on_metadata (\<lambda>md. md_UpdateFileSize md path sz) m)
      | _ \<Rightarrow> (False, m))"

definition redo_SetChunkVersion :: "string list \<Rightarrow> master \<Rightarrow> bool \<times> master" where
  "redo_SetChunkVersion fs m =
     (case fs of
        [s1, s2] \<Rightarrow>
          (case (parse_u64 s1, parse_u64 s2) of
             (Some handle, Some version) \<Rightarrow>
               if handle = 0 \<or> version = 0 then (False, m)
               else on_metadata (\<lambda>md. md_SetChunkVersion md handle version) m
           | _ \<Rightarrow> (False, m))
      | _ \<Rightarrow> (False, m))"

definition redo_AddChunkToFile :: "string list \<Rightarrow> master \<Rightarrow> bool \<times> master" where
  "redo_AddChunkToFile fs m =
     (case fs of
        [path, s] \<Rightarrow>
          (case parse_u64 s of
             None \<Rightarrow> (False, m)
           | Some handle \<Rightarrow>
               if handle = 0 then (False, m)
               else if \<not> md_ChunkExists (ma_metadata m) handle then (False, m)
               else if handle \<in> set (md_GetFileChunks (ma_metadata m) path) then (True, m)
               else on_metadata (\<lambda>md. md_AddChunkToFile md path handle) m)
      | _ \<Rightarrow> (False, m))"

definition redo_RemoveChunkFromFile :: "string list \<Rightarrow> master \<Rightarrow> bool \<times> master" where
  "redo_RemoveChunkFromFile fs m =
     (case fs of
        [path, s] \<Rightarrow>
          (case parse_u64 s of
             None \<Rightarrow> (False, m)
           | Some handle \<Rightarrow>
               if handle = 0 then (False, m)
               else if handle \<notin> set (md_GetFileChunks (ma_metadata m) path) then (True, m)
               else on_metadata (\<lambda>md. md_RemoveChunkFromFile md path handle) m)
      | _ \<Rightarrow> (False, m))"

definition redo_DeleteChunk :: "string list \<Rightarrow> master \<Rightarrow> bool \<times> master" where
  "redo_DeleteChunk fs m =
     (case fs of
        [s] \<Rightarrow>
          (case parse_u64 s of
             None \<Rightarrow> (False, m)
           | Some handle \<Rightarrow>
               if handle = 0 then (False, m)
               else if \<not> md_ChunkExists (ma_metadata m) handle then (True, m)
               else on_metadata (\<lambda>md. md_DeleteChunk md handle) m)
      | _ \<Rightarrow> (False, m))"

definition redo_SetChunkSize :: "string list \<Rightarrow> master \<Rightarrow> bool \<times> master" where
  "redo_SetChunkSize fs m =
     (case fs of
        [s1, s2] \<Rightarrow>
          (case (parse_u64 s1, parse_u64 s2) of
             (Some handle, Some sz) \<Rightarrow>
               if handle = 0 then (False, m)
               else on_metadata (\<lambda>md. md_SetChunkSize md handle sz) m
           | _ \<Rightarrow> (False, m))
      | _ \<Rightarrow> (False, m))"

definition redo_CreateSnapshot :: "string list \<Rightarrow> master \<Rightarrow> bool \<times> master" where
  "redo_CreateSnapshot fs m =
     (case fs of
        [src, dst] \<Rightarrow>
          if ns_Exists (ma_namespace m) dst then (True, m)
          else CreateSnapshotInternal src dst m
      | _ \<Rightarrow> (False, m))"

definition ReplayCopyOnWrite :: "string list \<Rightarrow> master \<Rightarrow> bool \<times> master" where
  "ReplayCopyOnWrite fs m =
     (case fs of
        [path, s1, s2, s3, s4, s5] \<Rightarrow>
          (case (parse_u64 s1, parse_u64 s2, parse_u64 s3, parse_u64 s4, parse_u64 s5) of
             (Some chunk_index, Some source_handle, Some destination, Some version, Some sz) \<Rightarrow>
               if source_handle = 0 \<or> destination = 0 \<or> version = 0 \<or> source_handle = destination
               then (False, m)
               else
                 let chunks = md_GetFileChunks (ma_metadata m) path; i = unat chunk_index in
                 if length chunks \<le> i then (False, m)
                 else if chunks ! i = destination then (True, m)
                 else if chunks ! i \<noteq> source_handle then (False, m)
                 else
                   and_then
                     (if \<not> md_ChunkExists (ma_metadata m) destination
                      then on_metadata (\<lambda>md. md_AllocateStandaloneChunk md destination version sz) m
                      else (True, m))
                     (on_metadata (\<lambda>md. md_ReplaceChunkInFile md path chunk_index destination))
           | _ \<Rightarrow> (False, m))
      | _ \<Rightarrow> (False, m))"

text \<open>The \<open>switch\<close> of \<open>ReplayOperation\<close>.\<close>

fun redo_operation :: "operation_type \<Rightarrow> string list \<Rightarrow> master \<Rightarrow> bool \<times> master" where
  "redo_operation OpCreateDirectory fs m = redo_CreateDirectory fs m"
| "redo_operation OpCreateFile fs m = redo_CreateFile fs m"
| "redo_operation OpDeleteFile fs m = redo_DeleteFile fs m"
| "redo_operation OpRenameFile fs m = redo_RenameFile fs m"
| "redo_operation OpAllocateChunk fs m = redo_AllocateChunk fs m"
| "redo_operation OpUpdateFileSize fs m = redo_UpdateFileSize fs m"
| "redo_operation OpSetChunkVersion fs m = redo_SetChunkVersion fs m"
| "redo_operation OpAddChunkToFile fs m = redo_AddChunkToFile fs m"
| "redo_operation OpRemoveChunkFromFile fs m = redo_RemoveChunkFromFile fs m"
| "redo_operation OpDeleteChunk fs m = redo_DeleteChunk fs m"
| "redo_operation OpSetChunkSize fs m = redo_SetChunkSize fs m"
| "redo_operation OpCreateSnapshot fs m = redo_CreateSnapshot fs m"
| "redo_operation OpCopyOnWrite fs m = ReplayCopyOnWrite fs m"

definition ReplayOperation :: "operation_record \<Rightarrow> master \<Rightarrow> bool \<times> master" where
  "ReplayOperation r m =
     (case DecodeFields (or_payload r) of
        None \<Rightarrow> (False, m)
      | Some fs \<Rightarrow> redo_operation (or_type r) fs m)"

section \<open>Initialize\<close>

primrec replay_loop :: "operation_record list \<Rightarrow> master \<Rightarrow> bool \<times> master" where
  "replay_loop [] m = (True, m)"
| "replay_loop (r # rs) m = and_then (ReplayOperation r m) (replay_loop rs)"

definition replay_from :: "64 word \<Rightarrow> master \<Rightarrow> bool \<times> master" where
  "replay_from checkpoint_sequence m =
     and_then (replay_loop (ol_Replay (ma_disk m) (ma_log m) checkpoint_sequence) m)
       (\<lambda>m. (True, m\<lparr>ma_replicas := rm_Clear (ma_replicas m), ma_orphans := oc_Clear (ma_orphans m)\<rparr>))"

text \<open>
  \<open>entries\<close>: the regular files that the directory iterator of \<open>LoadLatest\<close> finds, when the
  directory exists.
\<close>

definition ma_Initialize :: "bool \<Rightarrow> bool \<Rightarrow> bool \<Rightarrow> string list \<Rightarrow> master \<Rightarrow> bool \<times> master" where
  "ma_Initialize dirs_ok create_ok directory_exists entries m =
     (if ma_directory m = [] then (True, m)
      else and_then (if ol_open (ma_log m) then (True, m) else open_log dirs_ok create_ok m)
        (\<lambda>m. if \<not> ol_Validate (ma_disk m) (ma_log m) then (False, m)
          else case ck_LoadLatest directory_exists entries (ma_disk m) (ma_directory m) of
            Some state \<Rightarrow>
              if ck_sequence state > ol_last_sequence (ma_log m) then (False, m)
              else (case ck_Restore state (ma_metadata m) (ma_namespace m) of
                 (ok, md, ns) \<Rightarrow>
                   and_then (ok, m\<lparr>ma_metadata := md, ma_namespace := ns\<rparr>) (replay_from (ck_sequence state)))
          | None \<Rightarrow>
              replay_from 0 (m\<lparr>ma_metadata := md_Clear (ma_metadata m), ma_namespace := ns_Clear (ma_namespace m)\<rparr>)))"

section \<open>Redoing depends on the durable state only\<close>

lemma on_metadata_same': "same_durable a b \<Longrightarrow> agrees md_same (f (ma_metadata a)) (f (ma_metadata b)) \<Longrightarrow>
    agrees same_durable (on_metadata f a) (on_metadata f b)"
  by (auto simp: agrees_def same_durable_def)

lemma redo_metadata_same:
  assumes "same_durable a b"
  shows "agrees same_durable (redo_AllocateChunk fs a) (redo_AllocateChunk fs b)"
    "agrees same_durable (redo_UpdateFileSize fs a) (redo_UpdateFileSize fs b)"
    "agrees same_durable (redo_SetChunkVersion fs a) (redo_SetChunkVersion fs b)"
    "agrees same_durable (redo_AddChunkToFile fs a) (redo_AddChunkToFile fs b)"
    "agrees same_durable (redo_RemoveChunkFromFile fs a) (redo_RemoveChunkFromFile fs b)"
    "agrees same_durable (redo_DeleteChunk fs a) (redo_DeleteChunk fs b)"
    "agrees same_durable (redo_SetChunkSize fs a) (redo_SetChunkSize fs b)"
  using assms
  by (auto simp: redo_AllocateChunk_def redo_UpdateFileSize_def redo_SetChunkVersion_def redo_AddChunkToFile_def
      redo_RemoveChunkFromFile_def redo_DeleteChunk_def redo_SetChunkSize_def same_queries [OF assms]
      split: list.splits option.splits intro!: on_metadata_same' metadata_same same_durableD)

lemma redo_namespace_same:
  assumes "same_durable a b"
  shows "agrees same_durable (redo_CreateDirectory fs a) (redo_CreateDirectory fs b)"
    "agrees same_durable (redo_CreateFile fs a) (redo_CreateFile fs b)"
    "agrees same_durable (redo_RenameFile fs a) (redo_RenameFile fs b)"
  using assms
  by (auto simp: redo_CreateDirectory_def redo_CreateFile_def redo_RenameFile_def same_queries [OF assms]
      split: list.splits option.splits
      intro!: agrees_and_then on_namespace_same on_metadata_same metadata_same namespace_same)

lemma redo_DeleteFile_same:
  assumes "same_durable a b"
  shows "agrees same_durable (redo_DeleteFile fs a) (redo_DeleteFile fs b)"
proof -
  have both: "agrees same_durable
      (and_then (if e then on_metadata (\<lambda>md. md_DeleteFile md path) a else (True, a))
        (\<lambda>m. if n then on_namespace (\<lambda>ns. ns_DeleteFile ns path) m else (True, m)))
      (and_then (if e then on_metadata (\<lambda>md. md_DeleteFile md path) b else (True, b))
        (\<lambda>m. if n then on_namespace (\<lambda>ns. ns_DeleteFile ns path) m else (True, m)))" for e n path
    by (cases e; cases n)
      (auto simp: assms intro!: agrees_and_then on_metadata_same [OF assms] on_namespace_same metadata_same namespace_same)
  have one: "agrees same_durable (redo_DeleteFile [path] a) (redo_DeleteFile [path] b)" for path
    using both [of "md_FileExists (ma_metadata b) path" path "ns_IsFile (ma_namespace b) path"]
    unfolding redo_DeleteFile_def Let_def list.case same_queries [OF assms]
    by (rule_tac P = "\<not> md_FileExists (ma_metadata b) path \<and> \<not> ns_IsFile (ma_namespace b) path" in case_split)
      (simp only: if_True agrees_pair assms simp_thms, simp only: if_False)
  show ?thesis
  proof (cases "\<exists>path. fs = [path]")
    case True
    then show ?thesis using one by blast
  next
    case False
    then show ?thesis by (auto simp: redo_DeleteFile_def assms split: list.splits)
  qed
qed

lemma redo_CreateSnapshot_same:
  assumes "same_durable a b"
  shows "agrees same_durable (redo_CreateSnapshot fs a) (redo_CreateSnapshot fs b)"
  by (auto simp: redo_CreateSnapshot_def same_queries [OF assms] assms CreateSnapshotInternal_same split: list.splits)

lemma ReplayCopyOnWrite_same:
  assumes "same_durable a b"
  shows "agrees same_durable (ReplayCopyOnWrite fs a) (ReplayCopyOnWrite fs b)"
proof -
  have "agrees same_durable
      (and_then (if e then on_metadata (\<lambda>md. md_AllocateStandaloneChunk md d v sz) a else (True, a))
        (on_metadata (\<lambda>md. md_ReplaceChunkInFile md path i d)))
      (and_then (if e then on_metadata (\<lambda>md. md_AllocateStandaloneChunk md d v sz) b else (True, b))
        (on_metadata (\<lambda>md. md_ReplaceChunkInFile md path i d)))" for e d v sz path i
    by (cases e) (auto simp: assms intro!: agrees_and_then on_metadata_same [OF assms] on_metadata_same metadata_same)
  then show ?thesis
    by (auto simp: ReplayCopyOnWrite_def Let_def same_queries [OF assms] assms split: list.splits option.splits)
qed

lemma ReplayOperation_same:
  assumes "same_durable a b"
  shows "agrees same_durable (ReplayOperation r a) (ReplayOperation r b)"
proof (cases "DecodeFields (or_payload r)")
  case (Some fs)
  then show ?thesis
    using redo_metadata_same [OF assms, of fs] redo_namespace_same [OF assms, of fs] redo_DeleteFile_same [OF assms, of fs]
      redo_CreateSnapshot_same [OF assms, of fs] ReplayCopyOnWrite_same [OF assms, of fs]
    by (cases "or_type r") (simp_all add: ReplayOperation_def)
qed (simp add: ReplayOperation_def assms)

lemma replay_loop_same:
  "same_durable a b \<Longrightarrow> agrees same_durable (replay_loop rs a) (replay_loop rs b)"
  by (induction rs arbitrary: a b) (auto intro!: agrees_and_then ReplayOperation_same)

lemma replay_loop_append: "replay_loop (rs @ rs') m = and_then (replay_loop rs m) (replay_loop rs')"
  by (induction rs arbitrary: m) (simp_all add: and_then_eq)

section \<open>What an operation does to the log\<close>

definition log_part :: "master \<Rightarrow> operation_log \<times> files \<times> file_path" where
  "log_part m = (ma_log m, ma_disk m, ma_directory m)"

text \<open>The log is open, writable, in its place, and holds the records \<open>rs\<close>.\<close>

definition logging :: "operation_record list \<Rightarrow> master \<Rightarrow> bool" where
  "logging rs m \<longleftrightarrow> ma_directory m \<noteq> [] \<and> ol_path (ma_log m) = operation_log_path (ma_directory m) \<and>
     log_holds (ma_log m) (ma_disk m) rs"

text \<open>An append that is either completed and flushed, or refused before anything is written.\<close>

definition whole :: "append_io \<Rightarrow> bool" where
  "whole io \<longleftrightarrow> ai_append io = OpenRefused \<or> (ai_append io = WriteAll \<and> ai_opened io \<and> ai_flushed io)"

lemma log_part_simps [simp]:
  "log_part (m\<lparr>ma_metadata := md\<rparr>) = log_part m" "log_part (m\<lparr>ma_namespace := ns\<rparr>) = log_part m"
  "log_part (m\<lparr>ma_replicas := t\<rparr>) = log_part m" "log_part (m\<lparr>ma_leases := lm\<rparr>) = log_part m"
  "log_part (m\<lparr>ma_heartbeats := hb\<rparr>) = log_part m" "log_part (m\<lparr>ma_orphans := oc\<rparr>) = log_part m"
  by (simp_all add: log_part_def)

lemma log_part_keeps_core: "keeps_core f \<Longrightarrow> log_part (f m) = log_part m"
  by (simp add: log_part_def keeps_coreD)

lemma logging_log_part: "log_part m' = log_part m \<Longrightarrow> logging rs m' = logging rs m"
  by (simp add: log_part_def logging_def)

lemma length_field_le: "f \<in> set fs \<Longrightarrow> length f \<le> length (EncodeFields fs)"
  by (induction fs) auto

lemma ReplayOperation_encoded:
  assumes "length (EncodeFields fs) < 2 ^ 32"
  shows "ReplayOperation \<lparr>or_sequence = s, or_type = ty, or_payload = EncodeFields fs\<rparr> m = redo_operation ty fs m"
proof -
  have "\<forall>f \<in> set fs. length f < 2 ^ 64"
    using assms length_field_le by fastforce
  then show ?thesis by (simp add: ReplayOperation_def decode_encode)
qed

definition next_record :: "master \<Rightarrow> operation_type \<Rightarrow> string list \<Rightarrow> operation_record" where
  "next_record m ty fs =
     \<lparr>or_sequence = ol_last_sequence (ma_log m) + 1, or_type = ty, or_payload = EncodeFields fs\<rparr>"

lemma AppendOperation_cases:
  assumes "logging rs m" and "whole io" and "length rs < log_capacity"
  obtains (refused) "AppendOperation io ty fs m = (False, m)"
  | (logged) m1 where "AppendOperation io ty fs m = (True, m1)" and "same_memory m m1"
      and "logging (rs @ [next_record m ty fs]) m1" and "length (EncodeFields fs) < 2 ^ 32"
      and "\<And>p. p \<noteq> ol_path (ma_log m) \<Longrightarrow> ma_disk m1 p = ma_disk m p"
proof -
  have open_log: "ol_open (ma_log m)" "ma_directory m \<noteq> []" and holds: "log_holds (ma_log m) (ma_disk m) rs"
    using assms(1) by (auto simp: logging_def log_holds_def)
  obtain b log fs' where app: "ol_Append (ai_append io) (ma_disk m) (ma_log m) ty (EncodeFields fs) = (b, log, fs')"
    by (metis prod.exhaust)
  show thesis
  proof (cases b)
    case False
    have "log = ma_log m \<and> fs' = ma_disk m"
    proof (cases "ai_append io = OpenRefused")
      case True
      then show ?thesis
        using app False by (auto simp: ol_Append_def ol_AppendAt_def WriteRecord_def Let_def split: if_splits)
    next
      case io: False
      then have "ai_append io = WriteAll" using assms(2) by (simp add: whole_def)
      then show ?thesis using ol_Append_WriteAll(2) [OF holds] app False by simp
    qed
    then have "AppendOperation io ty fs m = (False, m)" using app False open_log by (simp add: AppendOperation_def)
    then show thesis by (rule refused)
  next
    case True
    have "ai_append io \<noteq> OpenRefused"
      using app True by (auto simp: ol_Append_def ol_AppendAt_def WriteRecord_def Let_def split: if_splits)
    then have io: "ai_append io = WriteAll" "ai_opened io" "ai_flushed io" using assms(2) by (auto simp: whole_def)
    note app' = app [unfolded io(1)]
    have len: "length (EncodeFields fs) < 2 ^ 32" using ol_Append_WriteAll(1) [OF holds app'] True by blast
    have holds': "ol_path log = ol_path (ma_log m)" "log_holds log fs' (rs @ [next_record m ty fs])"
      using ol_Append_WriteAll(3) [OF holds app' True assms(3)] by (auto simp: next_record_def)
    have flush: "ol_Flush (ai_opened io) (ai_flushed io) fs' log = (True, fs')"
      using holds'(2) io by (auto simp: ol_Flush_def log_holds_def)
    have other: "fs' p = ma_disk m p" if "p \<noteq> ol_path (ma_log m)" for p
      using app' that True by (auto simp: ol_Append_def ol_AppendAt_def WriteRecord_def Let_def split: if_splits)
    let ?m1 = "m\<lparr>ma_log := log, ma_disk := fs'\<rparr>"
    show thesis
    proof (rule logged [of ?m1])
      show "AppendOperation io ty fs m = (True, ?m1)" using app True flush open_log by (simp add: AppendOperation_def)
      show "same_memory m ?m1" by (auto simp: same_memory_def)
      show "logging (rs @ [next_record m ty fs]) ?m1" using holds' assms(1) by (simp add: logging_def)
    qed (use len other in simp_all)
  qed
qed

text \<open>
  An operation is quiet when it leaves the log and the durable state; it is recorded when it adds
  one record to the log whose redo, from the state before, gives the durable state after.
\<close>

definition quiet :: "master \<Rightarrow> master \<Rightarrow> bool" where
  "quiet m m' \<longleftrightarrow> log_part m' = log_part m \<and> same_durable m m'"

definition recorded :: "operation_record list \<Rightarrow> master \<Rightarrow> master \<Rightarrow> bool" where
  "recorded rs m m' \<longleftrightarrow> ma_directory m' = ma_directory m \<and>
     (\<forall>p. p \<noteq> ol_path (ma_log m) \<longrightarrow> ma_disk m' p = ma_disk m p) \<and>
     (\<exists>r. logging (rs @ [r]) m' \<and> agrees same_durable (ReplayOperation r m) (True, m'))"

lemma logging_differs: "logging rs m \<Longrightarrow> logging (rs @ [r]) m' \<Longrightarrow> ma_log m' \<noteq> ma_log m"
proof
  assume "logging rs m" "logging (rs @ [r]) m'" "ma_log m' = ma_log m"
  then have "unat (ol_last_sequence (ma_log m)) = length rs" "unat (ol_last_sequence (ma_log m)) = length (rs @ [r])"
    using log_holds_count by (fastforce simp: logging_def)+
  then show False by simp
qed

lemma logged_then:
  assumes log: "logging rs m" "whole io" "length rs < log_capacity"
    and start: "log_part m0 = log_part m" "same_durable m m0"
    and body: "\<And>x. log_part (snd (body x)) = log_part x"
    and redo: "\<And>m1. same_memory m0 m1 \<Longrightarrow> body m1 = (True, m') \<Longrightarrow>
      agrees same_durable (redo_operation ty fs m) (True, m')"
    and r: "and_then (AppendOperation io ty fs m0) body = (ok, m')"
    and clean: "ok \<or> ma_log m' = ma_log m"
  shows "quiet m m' \<or> recorded rs m m'"
proof -
  have log0: "logging rs m0" using log(1) logging_log_part [OF start(1)] by simp
  show ?thesis
  proof (rule AppendOperation_cases [OF log0 log(2,3), of ty fs])
    assume "AppendOperation io ty fs m0 = (False, m0)"
    then show ?thesis using r start by (simp add: quiet_def)
  next
    fix m1
    assume app: "AppendOperation io ty fs m0 = (True, m1)" and mem: "same_memory m0 m1"
      and logging: "logging (rs @ [next_record m0 ty fs]) m1" and len: "length (EncodeFields fs) < 2 ^ 32"
      and other: "\<And>p. p \<noteq> ol_path (ma_log m0) \<Longrightarrow> ma_disk m1 p = ma_disk m0 p"
    have b: "body m1 = (ok, m')" using r app by simp
    then have lp: "log_part m' = log_part m1" using body [of m1] by simp
    then have logging': "logging (rs @ [next_record m0 ty fs]) m'" using logging logging_log_part by blast
    then have ok using clean logging_differs [OF log(1)] by blast
    then have "agrees same_durable (ReplayOperation (next_record m0 ty fs) m) (True, m')"
      using redo [OF mem] b by (simp add: next_record_def ReplayOperation_encoded [OF len])
    moreover have "ma_directory m' = ma_directory m" "ma_disk m' = ma_disk m1"
      using lp start(1) same_memory_fields(8) [OF mem] by (auto simp: log_part_def)
    ultimately show ?thesis using logging' other start(1) by (auto simp: recorded_def log_part_def)
  qed
qed

section \<open>Each operation is quiet or recorded\<close>

lemma same_durable_eq:
  "ma_metadata a = ma_metadata b \<Longrightarrow> ma_namespace a = ma_namespace b \<Longrightarrow> ma_inv b \<Longrightarrow> same_durable a b"
  using same_durable_refl [of b] by (simp add: same_durable_def)

lemma agrees_True: "agrees rel r (True, m') \<longleftrightarrow> fst r \<and> rel (snd r) m'"
  by (simp add: agrees_def)

lemma log_part_and_then:
  "log_part (snd r) = log_part x \<Longrightarrow> (\<And>s. log_part (snd (rest s)) = log_part s) \<Longrightarrow>
    log_part (snd (and_then r rest)) = log_part x"
  by (simp add: and_then_eq)

lemma quiet_refl: "ma_inv m \<Longrightarrow> quiet m m"
  by (simp add: quiet_def same_durable_refl)

lemma ucast_factor:
  fixes factor :: "32 word"
  shows "ucast factor = (0 :: 64 word) \<longleftrightarrow> factor = 0" "\<not> (ucast factor :: 64 word) > 4294967295"
    "ucast (ucast factor :: 64 word) = factor"
proof -
  have lt: "unat factor < 2 ^ 32" using unsigned_less [where w = factor and 'a = nat] by simp
  have un: "unat (ucast factor :: 64 word) = unat factor"
    using lt by (simp add: unsigned_ucast_eq take_bit_nat_eq_self)
  then show "ucast factor = (0 :: 64 word) \<longleftrightarrow> factor = 0" by (metis unat_eq_0)
  show "\<not> (ucast factor :: 64 word) > 4294967295"
    using un lt by (simp add: word_less_nat_alt)
  show "ucast (ucast factor :: 64 word) = factor"
    by transfer simp
qed

lemma choose_factor_nonzero: "choose_factor n l rf = Some factor \<Longrightarrow> factor \<noteq> 0"
  by (auto simp: choose_factor_def Let_def split: if_splits)

lemma ma_CreateFile_step:
  assumes inv: "ma_inv m" and log: "logging rs m" "whole io" "length rs < log_capacity"
    and r: "ma_CreateFile io path rf m = (ok, m')" and clean: "ok \<or> ma_log m' = ma_log m"
  shows "quiet m m' \<or> recorded rs m m'"
proof (cases "path = [] \<or> ns_Exists (ma_namespace m) path \<or>
    choose_factor (ma_policy m) (length (hb_GetLiveServers (ma_heartbeats m))) rf = None")
  case True
  then show ?thesis using r inv by (auto simp: ma_CreateFile_def quiet_refl split: if_splits)
next
  case False
  then obtain factor where
    factor: "choose_factor (ma_policy m) (length (hb_GetLiveServers (ma_heartbeats m))) rf = Some factor" by blast
  have inv': "ma_inv m'" using ma_CreateFile_inv [OF inv, of io path rf] r by simp
  let ?body = "\<lambda>m. and_then (on_namespace (\<lambda>ns. ns_CreateFile ns path) m)
          (\<lambda>m. case on_metadata (\<lambda>md. md_CreateFile md path factor) m of
             (True, m) \<Rightarrow> (True, m)
           | (False, m) \<Rightarrow> (False, snd (on_namespace (\<lambda>ns. ns_DeleteFile ns path) m)))"
  show ?thesis
  proof (rule logged_then [OF log refl same_durable_refl [OF inv] _ _ _ clean])
    show "and_then (AppendOperation io OpCreateFile [path, to_string32 factor] m) ?body = (ok, m')"
      using r False factor by (simp add: ma_CreateFile_def)
  next
    fix m1
    assume mem: "same_memory m m1" and b: "?body m1 = (True, m')"
    then show "agrees same_durable (redo_operation OpCreateFile [path, to_string32 factor] m) (True, m')"
      using False inv' choose_factor_nonzero [OF factor] ucast_factor [of factor]
      by (auto simp: redo_CreateFile_def agrees_True and_then_eq case_pair_bool same_memory_fields [OF mem]
          intro!: same_durable_eq split: if_splits)
  qed (simp add: and_then_eq case_pair_bool)
qed

lemma ma_CreateDirectory_step:
  assumes inv: "ma_inv m" and log: "logging rs m" "whole io" "length rs < log_capacity"
    and r: "ma_CreateDirectory io path m = (ok, m')" and clean: "ok \<or> ma_log m' = ma_log m"
  shows "quiet m m' \<or> recorded rs m m'"
proof (cases "ns_Exists (ma_namespace m) path")
  case True
  then show ?thesis using r inv by (auto simp: ma_CreateDirectory_def quiet_refl)
next
  case False
  have inv': "ma_inv m'" using ma_CreateDirectory_inv [OF inv, of io path] r by simp
  let ?body = "on_namespace (\<lambda>ns. ns_CreateDirectory ns path)"
  show ?thesis
  proof (rule logged_then [OF log refl same_durable_refl [OF inv] _ _ _ clean])
    show "and_then (AppendOperation io OpCreateDirectory [path] m) ?body = (ok, m')"
      using r False by (simp add: ma_CreateDirectory_def)
  next
    fix m1
    assume mem: "same_memory m m1" and "?body m1 = (True, m')"
    then have "fst (?body m1)" "m' = snd (?body m1)" by simp_all
    then show "agrees same_durable (redo_operation OpCreateDirectory [path] m) (True, m')"
      using False inv'
      by (auto simp: redo_CreateDirectory_def agrees_True same_memory_fields [OF mem] intro!: same_durable_eq)
  qed simp
qed

lemma ma_RenameFile_step:
  assumes inv: "ma_inv m" and log: "logging rs m" "whole io" "length rs < log_capacity"
    and r: "ma_RenameFile io src dst m = (ok, m')" and clean: "ok \<or> ma_log m' = ma_log m"
  shows "quiet m m' \<or> recorded rs m m'"
proof (cases "\<not> ns_IsFile (ma_namespace m) src \<or> ns_Exists (ma_namespace m) dst")
  case True
  then show ?thesis using r inv by (auto simp: ma_RenameFile_def quiet_refl)
next
  case False
  have inv': "ma_inv m'" using ma_RenameFile_inv [OF inv, of io src dst] r by simp
  let ?body = "\<lambda>m. and_then (on_namespace (\<lambda>ns. ns_Rename ns src dst) m)
          (\<lambda>m. case on_metadata (\<lambda>md. md_RenameFile md src dst) m of
             (True, m) \<Rightarrow> (True, m)
           | (False, m) \<Rightarrow> (False, snd (on_namespace (\<lambda>ns. ns_Rename ns dst src) m)))"
  show ?thesis
  proof (rule logged_then [OF log refl same_durable_refl [OF inv] _ _ _ clean])
    show "and_then (AppendOperation io OpRenameFile [src, dst] m) ?body = (ok, m')"
      using r False by (simp add: ma_RenameFile_def)
  next
    fix m1
    assume mem: "same_memory m m1" and b: "?body m1 = (True, m')"
    then show "agrees same_durable (redo_operation OpRenameFile [src, dst] m) (True, m')"
      using False inv'
      by (auto simp: redo_RenameFile_def agrees_True and_then_eq case_pair_bool same_memory_fields [OF mem]
          intro!: same_durable_eq split: if_splits)
  qed (simp add: and_then_eq case_pair_bool)
qed

lemma ma_DeleteFile_step:
  assumes inv: "ma_inv m" and log: "logging rs m" "whole io" "length rs < log_capacity"
    and r: "ma_DeleteFile io path m = (ok, m')" and clean: "ok \<or> ma_log m' = ma_log m"
  shows "quiet m m' \<or> recorded rs m m'"
proof (cases "ns_IsFile (ma_namespace m) path")
  case False
  then show ?thesis using r inv by (auto simp: ma_DeleteFile_def quiet_refl)
next
  case True
  have inv': "ma_inv m'" using ma_DeleteFile_inv [OF inv, of io path] r by simp
  let ?chunks = "md_GetFileChunks (ma_metadata m) path"
  let ?m0 = "fold mark_if_last ?chunks m"
  let ?body = "\<lambda>m. and_then (on_metadata (\<lambda>md. md_DeleteFile md path) m)
      (\<lambda>m. on_namespace (\<lambda>ns. ns_DeleteFile ns path) (fold forget_if_unreferenced ?chunks m))"
  note forget = log_part_keeps_core [OF keeps_core_fold [of forget_if_unreferenced, OF keeps_core_forget]]
  show ?thesis
  proof (rule logged_then [OF log _ _ _ _ _ clean, of ?m0])
    show "log_part ?m0 = log_part m"
      by (rule log_part_keeps_core [OF keeps_core_fold [of mark_if_last, OF keeps_core_mark]])
    show "same_durable m ?m0" using inv by (simp add: same_durable_def md_same_def ns_same_def ma_invD)
    show "and_then (AppendOperation io OpDeleteFile [path] ?m0) ?body = (ok, m')"
      using r True by (simp add: ma_DeleteFile_def Let_def)
  next
    fix m1
    assume mem: "same_memory ?m0 m1" and b: "?body m1 = (True, m')"
    have "md_FileExists (ma_metadata m) path" using True ma_invD(3) [OF inv] by simp
    moreover have "fst (?body m1)" "m' = snd (?body m1)" using b by simp_all
    ultimately show "agrees same_durable (redo_operation OpDeleteFile [path] m) (True, m')"
      using True inv'
      by (auto simp: redo_DeleteFile_def Let_def agrees_True and_then_eq same_memory_fields [OF mem]
          intro!: same_durable_eq split: if_splits)
  qed (simp add: and_then_eq forget)
qed

text \<open>Operations that only change the metadata once they are logged.\<close>

lemma logged_metadata_step:
  assumes inv: "ma_inv m" and log: "logging rs m" "whole io" "length rs < log_capacity"
    and r: "and_then (AppendOperation io ty fs m) (on_metadata f) = (ok, m')" and inv': "ma_inv m'"
    and clean: "ok \<or> ma_log m' = ma_log m"
    and redo: "fst (f (ma_metadata m)) \<Longrightarrow> redo_operation ty fs m = on_metadata f m"
  shows "quiet m m' \<or> recorded rs m m'"
proof (rule logged_then [OF log refl same_durable_refl [OF inv] _ _ r clean])
  fix m1
  assume mem: "same_memory m m1" and "on_metadata f m1 = (True, m')"
  then have "fst (on_metadata f m1)" "m' = snd (on_metadata f m1)" by simp_all
  then show "agrees same_durable (redo_operation ty fs m) (True, m')"
    using redo inv' by (auto simp: agrees_True same_memory_fields [OF mem] intro!: same_durable_eq)
qed simp

lemma ma_UpdateFileSize_step:
  assumes inv: "ma_inv m" and log: "logging rs m" "whole io" "length rs < log_capacity"
    and r: "ma_UpdateFileSize io path sz m = (ok, m')" and clean: "ok \<or> ma_log m' = ma_log m"
  shows "quiet m m' \<or> recorded rs m m'"
proof (cases "md_FileExists (ma_metadata m) path")
  case True
  have "ma_inv m'" using ma_chunk_ops_inv(1) [OF inv, of io path sz] r by simp
  from logged_metadata_step [OF inv log _ this clean, of OpUpdateFileSize "[path, to_string sz]"] show ?thesis
    using r True by (simp add: ma_UpdateFileSize_def redo_UpdateFileSize_def)
qed (use r inv in \<open>auto simp: ma_UpdateFileSize_def quiet_refl\<close>)

lemma existing_chunk_nonzero: "ma_inv m \<Longrightarrow> md_ChunkExists (ma_metadata m) h \<Longrightarrow> h \<noteq> 0"
  using md_chunk_ok [OF ma_invD(1), of m h] by (auto simp: md_ChunkExists_def chunk_ok_def)

lemma ma_SetChunkVersion_step:
  assumes inv: "ma_inv m" and log: "logging rs m" "whole io" "length rs < log_capacity"
    and r: "ma_SetChunkVersion io h v m = (ok, m')" and clean: "ok \<or> ma_log m' = ma_log m"
  shows "quiet m m' \<or> recorded rs m m'"
proof (cases "md_ChunkExists (ma_metadata m) h \<and> v \<noteq> 0")
  case True
  have "ma_inv m'" using ma_chunk_ops_inv(2) [OF inv, of io h v] r by simp
  from logged_metadata_step [OF inv log _ this clean, of OpSetChunkVersion "[to_string h, to_string v]"] show ?thesis
    using r True existing_chunk_nonzero [OF inv, of h] by (simp add: ma_SetChunkVersion_def redo_SetChunkVersion_def)
qed (use r inv in \<open>auto simp: ma_SetChunkVersion_def quiet_refl\<close>)

lemma ma_SetChunkSize_step:
  assumes inv: "ma_inv m" and log: "logging rs m" "whole io" "length rs < log_capacity"
    and r: "ma_SetChunkSize io h sz m = (ok, m')" and clean: "ok \<or> ma_log m' = ma_log m"
  shows "quiet m m' \<or> recorded rs m m'"
proof (cases "md_ChunkExists (ma_metadata m) h")
  case True
  have "ma_inv m'" using ma_chunk_ops_inv(3) [OF inv, of io h sz] r by simp
  from logged_metadata_step [OF inv log _ this clean, of OpSetChunkSize "[to_string h, to_string sz]"] show ?thesis
    using r True existing_chunk_nonzero [OF inv, of h] by (simp add: ma_SetChunkSize_def redo_SetChunkSize_def)
qed (use r inv in \<open>auto simp: ma_SetChunkSize_def quiet_refl\<close>)

lemma parse_digits: "parse_u64 ''1'' = Some 1" "parse_u64 ''0'' = Some 0"
proof -
  have "to_string 1 = ''1''" "to_string 0 = ''0''"
    by (simp_all add: to_string_def nat_to_string.simps [of "Suc 0"] nat_to_string.simps [of 0] digit_def char_of_def bit_0)
  then show "parse_u64 ''1'' = Some 1" "parse_u64 ''0'' = Some 0"
    using parse_to_string [of 1] parse_to_string [of 0] by simp_all
qed

lemma ma_AllocateChunk_step:
  assumes inv: "ma_inv m" and log: "logging rs m" "whole io" "length rs < log_capacity"
    and r: "ma_AllocateChunk io path m = (res, m')" and clean: "res \<noteq> None \<or> ma_log m' = ma_log m"
  shows "quiet m m' \<or> recorded rs m m'"
proof (cases "md_FileExists (ma_metadata m) path \<and> md_next (ma_metadata m) \<noteq> 0")
  case True
  let ?h = "md_next (ma_metadata m)"
  have inv': "ma_inv m'" using ma_chunk_ops_inv(4) [OF inv, of io path] r by simp
  obtain ok m2 where ok: "and_then (AppendOperation io OpAllocateChunk [path, to_string ?h, ''1'', ''0''] m)
      (on_metadata (\<lambda>md. md_AllocateChunk md path ?h 1 0)) = (ok, m2)" by fastforce
  then have eq: "m' = m2" "res = (if ok then Some ?h else None)"
    using r True by (simp_all add: ma_AllocateChunk_def Let_def)
  have new: "fst (md_AllocateChunk (ma_metadata m) path ?h 1 0) \<Longrightarrow> \<not> md_ChunkExists (ma_metadata m) ?h"
    by (auto simp: md_AllocateChunk_eq [OF ma_invD(1) [OF inv]] split: option.splits if_splits)
  from logged_metadata_step [OF inv log ok] show ?thesis
    using eq inv' clean True new by (auto simp: redo_AllocateChunk_def parse_digits split: if_splits)
next
  case False
  then show ?thesis using r inv by (auto simp: ma_AllocateChunk_def Let_def quiet_refl split: if_splits)
qed

lemma ma_AddChunkToFile_step:
  assumes inv: "ma_inv m" and log: "logging rs m" "whole io" "length rs < log_capacity"
    and r: "ma_AddChunkToFile io path h m = (ok, m')" and clean: "ok \<or> ma_log m' = ma_log m"
  shows "quiet m m' \<or> recorded rs m m'"
proof (cases "md_FileExists (ma_metadata m) path \<and> md_ChunkExists (ma_metadata m) h")
  case True
  have "ma_inv m'" using ma_chunk_ops_inv(5) [OF inv, of io path h] r by simp
  moreover have "fst (md_AddChunkToFile (ma_metadata m) path h) \<Longrightarrow> h \<notin> set (md_GetFileChunks (ma_metadata m) path)"
    by (auto simp: md_AddChunkToFile_def md_GetFileChunks_def fm_AddChunk_def HasChunk_def split: option.splits if_splits)
  ultimately show ?thesis
    using r True existing_chunk_nonzero [OF inv, of h]
      logged_metadata_step [OF inv log _ _ clean, of OpAddChunkToFile "[path, to_string h]"]
    by (simp add: ma_AddChunkToFile_def redo_AddChunkToFile_def)
qed (use r inv in \<open>auto simp: ma_AddChunkToFile_def quiet_refl\<close>)

lemma ma_RemoveChunkFromFile_step:
  assumes inv: "ma_inv m" and log: "logging rs m" "whole io" "length rs < log_capacity"
    and r: "ma_RemoveChunkFromFile io path h m = (ok, m')" and clean: "ok \<or> ma_log m' = ma_log m"
  shows "quiet m m' \<or> recorded rs m m'"
proof (cases "md_FileExists (ma_metadata m) path \<and> md_ChunkExists (ma_metadata m) h")
  case True
  have inv': "ma_inv m'" using ma_RemoveChunkFromFile_inv [OF inv, of io path h] r by simp
  let ?body = "\<lambda>m. case on_metadata (\<lambda>md. md_RemoveChunkFromFile md path h) m of
      (removed, m) \<Rightarrow> (removed, if removed \<and> md_GetChunkReferenceCount (ma_metadata m) h = 0
         then snd (on_orphans (\<lambda>oc. MarkOrphan oc h) m) else m)"
  show ?thesis
  proof (rule logged_then [OF log refl same_durable_refl [OF inv] _ _ _ clean])
    show "and_then (AppendOperation io OpRemoveChunkFromFile [path, to_string h] m) ?body = (ok, m')"
      using r True by (simp add: ma_RemoveChunkFromFile_def)
  next
    fix m1
    assume mem: "same_memory m m1" and b: "?body m1 = (True, m')"
    have rem: "fst (md_RemoveChunkFromFile (ma_metadata m) path h)" "ma_namespace m' = ma_namespace m"
        "ma_metadata m' = snd (md_RemoveChunkFromFile (ma_metadata m) path h)"
      using b by (auto simp: case_prod_beta same_memory_fields [OF mem] split: if_splits)
    then have "h \<in> set (md_GetFileChunks (ma_metadata m) path)"
      by (auto simp: md_RemoveChunkFromFile_def md_GetFileChunks_def fm_RemoveChunk_def split: option.splits if_splits)
    then show "agrees same_durable (redo_operation OpRemoveChunkFromFile [path, to_string h] m) (True, m')"
      using True rem inv' existing_chunk_nonzero [OF inv, of h]
      by (auto simp: redo_RemoveChunkFromFile_def agrees_True intro!: same_durable_eq)
  qed (simp add: case_prod_beta)
qed (use r inv in \<open>auto simp: ma_RemoveChunkFromFile_def quiet_refl\<close>)

lemma ma_GarbageCollectChunk_step:
  assumes inv: "ma_inv m" and log: "logging rs m" "whole io" "length rs < log_capacity"
    and r: "ma_GarbageCollectChunk io deleted h m = (ok, m')" and clean: "ok \<or> ma_log m' = ma_log m"
  shows "quiet m m' \<or> recorded rs m m'"
proof (cases "h \<noteq> 0 \<and> md_GetChunkReferenceCount (ma_metadata m) h = 0 \<and> md_ChunkExists (ma_metadata m) h")
  case True
  have inv': "ma_inv m'" using ma_GarbageCollectChunk_inv [OF inv, of io deleted h] r by simp
  let ?body = "\<lambda>m. if \<not> deleted then (False, m)
      else and_then (on_metadata (\<lambda>md. md_DeleteChunk md h) (forget_chunk h m))
        (\<lambda>m. (True, snd (on_orphans (\<lambda>oc. RemoveOrphan oc h) m)))"
  show ?thesis
  proof (rule logged_then [OF log refl same_durable_refl [OF inv] _ _ _ clean])
    show "and_then (AppendOperation io OpDeleteChunk [to_string h] m) ?body = (ok, m')"
      using r True by (simp add: ma_GarbageCollectChunk_def)
  next
    fix m1
    assume mem: "same_memory m m1" and b: "?body m1 = (True, m')"
    then have "fst (md_DeleteChunk (ma_metadata m) h)" "ma_namespace m' = ma_namespace m"
        "ma_metadata m' = snd (md_DeleteChunk (ma_metadata m) h)"
      by (auto simp: and_then_eq same_memory_fields [OF mem] split: if_splits)
    then show "agrees same_durable (redo_operation OpDeleteChunk [to_string h] m) (True, m')"
      using True inv' by (auto simp: redo_DeleteChunk_def agrees_True intro!: same_durable_eq)
  qed (simp add: and_then_eq log_part_keeps_core [OF keeps_core_forget_chunk])
next
  case False
  have "quiet m (m\<lparr>ma_orphans := oc\<rparr>)" for oc
    using same_durable_refl [OF inv] by (simp add: quiet_def same_durable_def)
  then show ?thesis using False r inv by (auto simp: ma_GarbageCollectChunk_def quiet_refl split: if_splits)
qed

lemma log_part_rollback [simp]: "log_part (rollback fs ds m) = log_part m"
proof -
  have files: "log_part (fold drop_created_file xs s) = log_part s" for xs s
    by (induction xs arbitrary: s) (simp_all add: drop_created_file_def)
  have dirs: "log_part (fold drop_created_directory xs s) = log_part s" for xs s
    by (induction xs arbitrary: s) (simp_all add: drop_created_directory_def)
  show ?thesis by (simp add: rollback_def files dirs)
qed

lemma log_part_release_all [simp]: "log_part (release_all hs m) = log_part m"
  by (rule log_part_keeps_core) (rule keeps_core_release)

lemma log_part_snapshot_loop: "log_part (snd (snapshot_loop src dst infos fs ds m)) = log_part m"
  by (induction infos arbitrary: fs ds m) (simp_all add: Let_def case_pair_bool split: option.splits)

lemma log_part_CreateSnapshotInternal: "log_part (snd (CreateSnapshotInternal src dst m)) = log_part m"
  by (simp add: CreateSnapshotInternal_def Let_def and_then_eq log_part_snapshot_loop snapshot_file_def case_pair_bool
      split: option.splits)

lemma same_memory_durable: "ma_inv m \<Longrightarrow> same_memory m m1 \<Longrightarrow> same_durable m m1"
  using same_durable_refl [of m] by (simp add: same_durable_def same_memory_fields)

lemma ma_CreateSnapshot_step:
  assumes inv: "ma_inv m" and log: "logging rs m" "whole io" "length rs < log_capacity"
    and r: "ma_CreateSnapshot io src dst m = (ok, m')" and clean: "ok \<or> ma_log m' = ma_log m"
  shows "quiet m m' \<or> recorded rs m m'"
proof (cases "src = [] \<or> dst = [] \<or> src = dst \<or> \<not> ns_Exists (ma_namespace m) src \<or> ns_Exists (ma_namespace m) dst \<or>
    IsRootPath dst")
  case True
  then have "m' = m" using r by (simp add: ma_CreateSnapshot_def)
  then show ?thesis using inv by (simp add: quiet_refl)
next
  case False
  show ?thesis
  proof (rule logged_then [OF log refl same_durable_refl [OF inv] _ _ _ clean])
    show "and_then (AppendOperation io OpCreateSnapshot [src, dst] m) (CreateSnapshotInternal src dst) = (ok, m')"
      using r False by (simp add: ma_CreateSnapshot_def)
  next
    fix m1
    assume mem: "same_memory m m1" and b: "CreateSnapshotInternal src dst m1 = (True, m')"
    then show "agrees same_durable (redo_operation OpCreateSnapshot [src, dst] m) (True, m')"
      using CreateSnapshotInternal_same [OF same_memory_durable [OF inv mem], of src dst] False
      by (simp add: redo_CreateSnapshot_def)
  qed (rule log_part_CreateSnapshotInternal)
qed

section \<open>Copy on write is quiet or recorded\<close>

text \<open>Undoing the allocation of a standalone chunk.\<close>

lemma new_chunk_in_no_file:
  assumes "md_inv md" and "\<not> md_ChunkExists md h" and "map_of (md_files md) path = Some f"
  shows "snd (fm_RemoveChunk f h) = f"
  using md_file_chunks [OF assms(1,3), of h] assms(2) by (auto simp: fm_RemoveChunk_def)

lemma alloc_standalone_True:
  assumes "fst (md_AllocateStandaloneChunk md h v sz)"
  shows "h \<noteq> 0" "v \<noteq> 0" "\<not> md_ChunkExists md h" "h \<noteq> u64_max"
    "map_of (md_files (snd (md_AllocateStandaloneChunk md h v sz))) = map_of (md_files md)"
    "md_GetChunk (snd (md_AllocateStandaloneChunk md h v sz)) g =
      (if g = h then Some ((ChunkMetadata h v)\<lparr>cm_size := sz\<rparr>) else md_GetChunk md g)"
  using assms by (auto simp: md_AllocateStandaloneChunk_eq md_GetChunk_def split: if_splits)

lemma delete_new_chunk:
  assumes "md_inv md" and "\<not> md_ChunkExists md h" and "map_of (md_files md') = map_of (md_files md)"
    and "\<And>g. g \<noteq> h \<Longrightarrow> map_of (md_chunks md') g = map_of (md_chunks md) g" and "md_ChunkExists md' h"
  shows "durable_eq (snd (md_DeleteChunk md' h)) md"
proof (rule durable_eqI)
  show "map_of (md_files (snd (md_DeleteChunk md' h))) = map_of (md_files md)"
  proof
    fix p
    show "map_of (md_files (snd (md_DeleteChunk md' h))) p = map_of (md_files md) p"
      using new_chunk_in_no_file [OF assms(1,2), of p] assms(3,5)
      by (cases "map_of (md_files md) p") (auto simp: md_DeleteChunk_def)
  qed
  show "map_option persistent_chunk_of (map_of (md_chunks (snd (md_DeleteChunk md' h))) g) =
      map_option persistent_chunk_of (map_of (md_chunks md) g)" for g
    using assms(2,4,5) by (auto simp: md_DeleteChunk_def md_ChunkExists_def md_erase_chunk_def)
qed

lemma replace_fails: "\<not> fst (md_ReplaceChunkInFile md path i h) \<Longrightarrow> snd (md_ReplaceChunkInFile md path i h) = md"
  by (auto simp: md_ReplaceChunkInFile_def Let_def split: option.splits)

lemma replace_chunks [simp]: "md_chunks (snd (md_ReplaceChunkInFile md path i h)) = md_chunks md"
  by (auto simp: md_ReplaceChunkInFile_def Let_def split: option.splits)

lemma replace_back:
  assumes "md_inv md" and "map_of (md_files md) path = Some f" and "unat i < length (fm_chunk_handles f)"
    and "fst (md_ReplaceChunkInFile md path i h)" and "h \<notin> set (fm_chunk_handles f)"
  defines "md' \<equiv> snd (md_ReplaceChunkInFile md path i h)"
  shows "map_of (md_files (snd (md_ReplaceChunkInFile md' path i (fm_chunk_handles f ! unat i)))) = map_of (md_files md)"
proof -
  let ?hs = "fm_chunk_handles f" and ?i = "unat i"
  let ?s = "?hs ! ?i"
  have h: "h \<noteq> ?s" using assms(3,5) nth_mem by blast
  have ok: "distinct ?hs" "?s \<noteq> 0" "path \<noteq> []"
    using md_file_ok [OF assms(1,2)] nth_mem [OF assms(3)] unfolding file_ok_def by metis+
  have md': "md' = md_put_file md path (f\<lparr>fm_chunk_handles := ?hs[?i := h]\<rparr>)"
    using assms(2-5) h by (auto simp: md'_def md_ReplaceChunkInFile_def Let_def split: if_splits)
  have "?s \<notin> set (?hs[?i := h])"
    using ok(1) assms(3) h by (auto simp: in_set_conv_nth nth_list_update nth_eq_iff_index_eq split: if_splits)
  moreover have "md_ChunkExists md ?s" using md_file_chunks [OF assms(1,2)] assms(3) by simp
  ultimately show ?thesis
    using assms(2,3) ok h by (auto simp: md' md_ReplaceChunkInFile_def Let_def fun_eq_iff)
qed

lemma log_part_drop_copy [simp]: "log_part (drop_copy h m) = log_part m"
  by (simp add: drop_copy_def)

lemma register_copy_core:
  assumes "register_copy h ss primary m = (r, m')"
  shows "ma_metadata m' = ma_metadata m" "ma_namespace m' = ma_namespace m" "log_part m' = log_part m"
  using keeps_coreD [OF keeps_core_register_copy [of h ss primary], of m] assms by (simp_all add: log_part_def)

lemma copy_chunk_step:
  assumes inv: "ma_inv m" and log: "logging rs m" "whole io" "length rs < log_capacity"
    and alloc: "md_AllocateStandaloneChunk (ma_metadata m) h (cm_version c) (cm_size c) = (True, md)"
    and f: "map_of (md_files (ma_metadata m)) path = Some f" "unat i < length (fm_chunk_handles f)"
    and source: "source_handle = fm_chunk_handles f ! unat i"
    and r: "copy_chunk io clone path i source_handle c replicas h (m\<lparr>ma_metadata := md\<rparr>) = (res, m')"
    and inv': "ma_inv m'"
  shows "quiet m m' \<or> recorded rs m m'"
proof -
  let ?md = "ma_metadata m" and ?m0 = "m\<lparr>ma_metadata := md\<rparr>"
  note mdi = ma_invD(1) [OF inv]
  have new: "h \<noteq> 0" "cm_version c \<noteq> 0" "\<not> md_ChunkExists ?md h" "map_of (md_files md) = map_of (md_files ?md)"
    and chunks: "map_of (md_chunks md) g = (if g = h then Some ((ChunkMetadata h (cm_version c))\<lparr>cm_size := cm_size c\<rparr>)
      else map_of (md_chunks ?md) g)" for g
    using alloc_standalone_True [of ?md h "cm_version c" "cm_size c"] alloc by (simp_all add: md_GetChunk_def)
  then have ex: "md_ChunkExists md h" by (simp add: md_ChunkExists_def)
  have mdi': "md_inv md" using md_AllocateStandaloneChunk_inv [OF mdi, of h "cm_version c" "cm_size c"] alloc by simp
  have undone: "quiet m (drop_copy h x)"
    if "map_of (md_files (ma_metadata x)) = map_of (md_files ?md)" "md_chunks (ma_metadata x) = md_chunks md"
      "ma_namespace x = ma_namespace m" "log_part x = log_part m" "ma_inv x" for x
  proof -
    have "durable_eq (snd (md_DeleteChunk (ma_metadata x) h)) ?md"
      by (rule delete_new_chunk [OF mdi new(3)]) (use that chunks in \<open>auto simp: md_ChunkExists_def\<close>)
    then show ?thesis
      using that inv ma_invD(1) [OF drop_copy_inv [OF that(5), of h]]
      by (auto simp: quiet_def same_durable_def md_same_def ns_same_def ma_invD drop_copy_def intro: durable_eq_sym)
  qed
  obtain registered primary m1 where reg: "register_copy h replicas False ?m0 = ((registered, primary), m1)"
    by (metis prod.exhaust)
  note m1 = register_copy_core [OF reg]
  let ?m2 = "m1\<lparr>ma_leases := snd (lm_ReleaseLease (ma_leases m1) source_handle)\<rparr>"
  let ?m3 = "?m2\<lparr>ma_metadata := snd (md_ReplaceChunkInFile md path i h)\<rparr>"
  have inv0: "ma_inv ?m0"
    using alloc ma_inv_metadata [OF inv mdi'] FileExists_others(3) [of ?md h "cm_version c" "cm_size c"] by simp
  then have inv1: "ma_inv m1" using keeps_core_inv [OF keeps_core_register_copy, of ?m0 h replicas False] reg by simp
  then have inv2: "ma_inv ?m2" by (rule ma_inv_leases)
  then have inv3: "ma_inv ?m3" using ma_inv_Replace [OF inv2, of path i h] m1(1) by simp
  have lp: "log_part ?m3 = log_part m" using m1(3) by simp
  have nothere: "h \<notin> set (fm_chunk_handles f)" using md_file_chunks [OF mdi f(1)] new(3) by blast
  consider (dropped) x where "m' = drop_copy h x" "ma_metadata x = md" "ma_namespace x = ma_namespace m"
      "log_part x = log_part m" "ma_inv x"
    | (replaced) strs where "fst (md_ReplaceChunkInFile md path i h)"
      "strs = [path, to_string i, to_string source_handle, to_string h, to_string (cm_version c), to_string (cm_size c)]"
      "(case AppendOperation io OpCopyOnWrite strs ?m3 of
          (False, m) \<Rightarrow> (None, drop_copy h (snd (on_metadata (\<lambda>md. md_ReplaceChunkInFile md path i source_handle) m)))
        | (True, m) \<Rightarrow> (Some h, m)) = (res, m')"
    using r m1 inv1 inv2 replace_fails [of md path i h] that(1) [of m1] that(1) [of ?m2]
    by (auto simp: copy_chunk_def reg case_pair_bool Let_def split: if_splits)
  then show ?thesis
  proof cases
    case dropped
    then show ?thesis using undone [of x] new(4) by simp
  next
    case replaced
    have log3: "logging rs ?m3" using log(1) logging_log_part [OF lp] by simp
    show ?thesis
    proof (rule AppendOperation_cases [OF log3 log(2,3), of OpCopyOnWrite strs])
      assume refused: "AppendOperation io OpCopyOnWrite strs ?m3 = (False, ?m3)"
      let ?x = "?m3\<lparr>ma_metadata := snd (md_ReplaceChunkInFile (ma_metadata ?m3) path i source_handle)\<rparr>"
      have "map_of (md_files (ma_metadata ?x)) = map_of (md_files ?md)"
        using replace_back [OF mdi' _ f(2) replaced(1) nothere] f(1) new(4) source by simp
      then have "quiet m (drop_copy h ?x)"
        using undone [of ?x] m1 ma_inv_Replace [OF inv3, of path i source_handle] by simp
      then show ?thesis using replaced(3) refused by simp
    next
      fix m4
      assume app: "AppendOperation io OpCopyOnWrite strs ?m3 = (True, m4)" and mem: "same_memory ?m3 m4"
        and logging: "logging (rs @ [next_record ?m3 OpCopyOnWrite strs]) m4"
        and len: "length (EncodeFields strs) < 2 ^ 32"
        and other: "\<And>p. p \<noteq> ol_path (ma_log ?m3) \<Longrightarrow> ma_disk m4 p = ma_disk ?m3 p"
      have m': "m' = m4" using replaced(3) app by simp
      have s: "source_handle \<noteq> h" "source_handle \<noteq> 0"
        using nothere source md_file_ok [OF mdi f(1)] nth_mem [OF f(2)] unfolding file_ok_def by metis+
      have "ReplayCopyOnWrite strs m = (True, m\<lparr>ma_metadata := snd (md_ReplaceChunkInFile md path i h)\<rparr>)"
        using s new f source replaced(1,2) alloc
        by (simp add: ReplayCopyOnWrite_def Let_def md_GetFileChunks_def on_metadata_def and_then_eq case_prod_beta)
      moreover have "ma_metadata m' = snd (md_ReplaceChunkInFile md path i h)" "ma_namespace m' = ma_namespace m"
        using same_memory_fields [OF mem] m1 m' by simp_all
      ultimately have "agrees same_durable (ReplayOperation (next_record ?m3 OpCopyOnWrite strs) m) (True, m')"
        using inv' by (simp add: next_record_def ReplayOperation_encoded [OF len] agrees_True)
          (rule same_durable_eq, simp_all)
      moreover have "ma_directory m' = ma_directory m" "\<forall>p. p \<noteq> ol_path (ma_log m) \<longrightarrow> ma_disk m' p = ma_disk m p"
        using same_memory_fields(8) [OF mem] other lp m' by (auto simp: log_part_def)
      ultimately show ?thesis using logging m' by (auto simp: recorded_def)
    qed
  qed
qed

lemma ma_PrepareCopyOnWrite_step:
  assumes inv: "ma_inv m" and log: "logging rs m" "whole io" "length rs < log_capacity"
    and r: "ma_PrepareCopyOnWrite io clone path i m = (res, m')"
  shows "quiet m m' \<or> recorded rs m m'"
proof -
  have inv': "ma_inv m'" using ma_PrepareCopyOnWrite_inv [OF inv, of io clone path i] r by simp
  let ?md = "ma_metadata m" and ?h = "md_next (ma_metadata m)"
  have alloc_fails: "quiet m (m\<lparr>ma_metadata := snd (md_AllocateStandaloneChunk ?md ?h v sz)\<rparr>)"
    if "\<not> fst (md_AllocateStandaloneChunk ?md ?h v sz)" for v sz
  proof -
    have "durable_eq (snd (md_AllocateStandaloneChunk ?md ?h v sz)) ?md"
      using that by (auto simp: md_AllocateStandaloneChunk_eq md_ChunkExists_def split: if_splits intro!: durable_eqI)
    then show ?thesis
      using inv by (auto simp: quiet_def same_durable_def md_same_def ns_same_def ma_invD
          intro: durable_eq_sym md_AllocateStandaloneChunk_inv)
  qed
  show ?thesis
  proof (cases "path = [] \<or> map_of (md_files ?md) path = None")
    case True
    then show ?thesis using r inv by (auto simp: ma_PrepareCopyOnWrite_def md_FileExists_def quiet_refl)
  next
    case False
    then obtain f where f: "map_of (md_files ?md) path = Some f" by auto
    then have hs: "md_FileExists ?md path" "md_GetFileChunks ?md path = fm_chunk_handles f"
      by (simp_all add: md_FileExists_def md_GetFileChunks_def)
    let ?s = "fm_chunk_handles f ! unat i"
    show ?thesis
    proof (cases "unat i < length (fm_chunk_handles f) \<and> ?h \<noteq> 0 \<and> md_GetChunk ?md ?s \<noteq> None \<and> ?s \<noteq> 0 \<and>
        \<not> md_GetChunkReferenceCount ?md ?s \<le> 1")
      case True
      then obtain c where c: "md_GetChunk ?md ?s = Some c" by auto
      obtain b md where alloc: "md_AllocateStandaloneChunk ?md ?h (cm_version c) (cm_size c) = (b, md)" by fastforce
      show ?thesis
      proof (cases b)
        case True
        have "copy_chunk io clone path i ?s c (rm_GetReplicaServers (ma_replicas m) ?s) ?h (m\<lparr>ma_metadata := md\<rparr>) = (res, m')"
          using r False hs \<open>_ \<and> ?h \<noteq> 0 \<and> _\<close> c alloc True
          by (simp add: ma_PrepareCopyOnWrite_def Let_def on_metadata_def)
        from copy_chunk_step [OF inv log _ f _ refl this inv'] show ?thesis
          using alloc True \<open>_ \<and> ?h \<noteq> 0 \<and> _\<close> by simp
      next
        case b: False
        then have "m' = m\<lparr>ma_metadata := md\<rparr>"
          using r False hs True c alloc by (simp add: ma_PrepareCopyOnWrite_def Let_def on_metadata_def)
        then show ?thesis using alloc_fails [of "cm_version c" "cm_size c"] alloc b by simp
      qed
    next
      case no: False
      then have "m' = m"
        using r False hs by (auto simp: ma_PrepareCopyOnWrite_def Let_def split: if_splits option.splits)
      then show ?thesis using inv by (simp add: quiet_refl)
    qed
  qed
qed

end
