(* ===== verification/Restart.thy ===== *)
theory Restart
  imports Recovery
begin

text \<open>
  Lifetimes of a master: it starts on an empty directory, executes operations, takes checkpoints,
  and is restarted from its files any number of times. As long as every append to the log is either
  completed or refused, and no operation fails after it was logged, each restart succeeds and gives
  back the durable state. An operation that fails after it was logged makes every later restart fail.
\<close>

section \<open>Clean operations\<close>

text \<open>The file system either completes an append of the operation, or refuses it.\<close>

fun whole_op :: "master_op \<Rightarrow> bool" where
  "whole_op (MaCreateFile io path rf) = whole io"
| "whole_op (MaDeleteFile io path) = whole io"
| "whole_op (MaRenameFile io src dst) = whole io"
| "whole_op (MaCreateDirectory io path) = whole io"
| "whole_op (MaUpdateFileSize io path sz) = whole io"
| "whole_op (MaCreateSnapshot io src dst) = whole io"
| "whole_op (MaPrepareCopyOnWrite io clone path i) = whole io"
| "whole_op (MaSetChunkVersion io h v) = whole io"
| "whole_op (MaSetChunkSize io h sz) = whole io"
| "whole_op (MaAllocateChunk io path) = whole io"
| "whole_op (MaAddChunkToFile io path h) = whole io"
| "whole_op (MaRemoveChunkFromFile io path h) = whole io"
| "whole_op (MaGarbageCollectChunk io deleted h) = whole io"
| "whole_op opr = True"

text \<open>
  What a checkpoint of this master would contain fits the size fields of the format, and the last
  64-bit handle, which a checkpoint cannot restore, is not in use.
\<close>

definition storable_master :: "master \<Rightarrow> bool" where
  "storable_master m \<longleftrightarrow>
     (let st = checkpoint_state_of (ma_metadata m) (ma_namespace m) (ol_last_sequence (ma_log m)) in
      storable_state st \<and> length (Serialize st) < 2 ^ 64 \<and> \<not> md_ChunkExists (ma_metadata m) u64_max)"

fun is_checkpoint :: "master_op \<Rightarrow> bool" where
  "is_checkpoint (MaCreateCheckpoint io) = True"
| "is_checkpoint opr = False"

definition clean :: "master_op \<Rightarrow> master \<Rightarrow> bool" where
  "clean opr m \<longleftrightarrow> whole_op opr \<and> unat (ol_last_sequence (ma_log m)) < log_capacity \<and>
     (fst (ma_exec opr m) \<or> ma_log (snd (ma_exec opr m)) = ma_log m) \<and>
     (is_checkpoint opr \<longrightarrow> storable_master m)"

lemma quiet_memory:
  assumes "ma_inv m" and "ma_inv m'" and "durable_eq (ma_metadata m) (ma_metadata m')"
    and "ma_namespace m' = ma_namespace m" and "log_part m' = log_part m"
  shows "quiet m m'"
  using assms by (simp add: quiet_def same_durable_def md_same_def ns_same_def ma_invD)

lemma metadata_replica_durable:
  "durable_eq (snd (md_AddReplica md h s)) md" "durable_eq (snd (md_RemoveReplica md h s)) md"
  by (auto simp: md_AddReplica_def md_RemoveReplica_def cm_AddReplica_def cm_RemoveReplica_def persistent_chunk_of_def
      split: option.splits intro!: durable_eqI)

lemma durable_eq_left: "durable_eq md' md \<Longrightarrow> durable_eq md md'"
  by (rule durable_eq_sym)

text \<open>Operations on replicas, leases, heartbeats and orphans are quiet.\<close>

lemma table_ops_quiet:
  assumes inv: "ma_inv m"
  shows "quiet m (snd (ma_RegisterReplica h s primary m))" "quiet m (snd (ma_AcquireLease now h s m))"
    "quiet m (snd (ma_ExtendLease now h s d m))" "quiet m (snd (ma_ReleaseLease h m))"
    "quiet m (snd (ma_DetectFailedChunkservers now m))" "quiet m (snd (ma_IdentifyGarbage m))"
  by (rule quiet_memory [OF inv], rule ma_table_ops_inv [OF inv] ma_IdentifyGarbage_inv [OF inv],
      (simp add: ma_RegisterReplica_def ma_AcquireLease_def ma_ExtendLease_def ma_ReleaseLease_def
        ma_DetectFailedChunkservers_def ma_IdentifyGarbage_def; fail)+)+

lemma place_loop_core:
  "ma_metadata (snd (place_loop h ss primary m)) = ma_metadata m" "ma_namespace (snd (place_loop h ss primary m)) = ma_namespace m"
  "log_part (snd (place_loop h ss primary m)) = log_part m"
  by (induction ss arbitrary: primary m) (simp_all add: and_then_eq ma_RegisterReplica_def)

lemma replica_ops_quiet:
  assumes inv: "ma_inv m"
  shows "quiet m (snd (ma_PlaceChunkReplicas h cs m))" "quiet m (snd (ma_SetPrimary h s m))"
    "quiet m (snd (ma_ProcessHeartbeat s t rcs m))" "quiet m (snd (ma_RemoveReplica h s m))"
    "quiet m (snd (ma_AddReplica h s m))"
proof -
  note release = keeps_coreD [OF keeps_core_release_if] log_part_keeps_core [OF keeps_core_release_if]
  note reported = keeps_coreD [OF keeps_core_fold [of "register_reported s", OF keeps_core_reported]]
    log_part_keeps_core [OF keeps_core_fold [of "register_reported s", OF keeps_core_reported]]
  show "quiet m (snd (ma_PlaceChunkReplicas h cs m))"
    by (rule quiet_memory [OF inv ma_PlaceChunkReplicas_inv [OF inv]])
      (simp_all add: ma_PlaceChunkReplicas_def Let_def case_prod_beta place_loop_core)
  show "quiet m (snd (ma_SetPrimary h s m))"
    by (rule quiet_memory [OF inv ma_SetPrimary_inv [OF inv]]) (simp_all add: ma_SetPrimary_def and_then_eq release)
  show "quiet m (snd (ma_ProcessHeartbeat s t rcs m))"
    by (rule quiet_memory [OF inv ma_ProcessHeartbeat_inv [OF inv]])
      (simp_all add: ma_ProcessHeartbeat_def and_then_eq reported)
  show "quiet m (snd (ma_RemoveReplica h s m))"
    by (rule quiet_memory [OF inv ma_RemoveReplica_inv [OF inv]])
      (simp_all add: ma_RemoveReplica_def and_then_eq Let_def release metadata_replica_durable durable_eq_sym)
  have "durable_eq (ma_metadata m) (snd (md_RemoveReplica (snd (md_AddReplica (ma_metadata m) h s)) h s))"
    using metadata_replica_durable durable_eq_trans durable_eq_sym by blast
  then show "quiet m (snd (ma_AddReplica h s m))"
    by (intro quiet_memory [OF inv ma_AddReplica_inv [OF inv]])
      (simp_all add: ma_AddReplica_def and_then_eq case_pair_bool metadata_replica_durable durable_eq_sym)
qed

text \<open>Operations that never write the log.\<close>

fun unlogged :: "master_op \<Rightarrow> bool" where
  "unlogged (MaRegisterReplica h s primary) = True"
| "unlogged (MaPlaceChunkReplicas h cs) = True"
| "unlogged (MaAddReplica h s) = True"
| "unlogged (MaRemoveReplica h s) = True"
| "unlogged (MaSetPrimary h s) = True"
| "unlogged (MaAcquireLease now h s) = True"
| "unlogged (MaExtendLease now h s d) = True"
| "unlogged (MaReleaseLease h) = True"
| "unlogged (MaProcessHeartbeat s t cs) = True"
| "unlogged (MaDetectFailedChunkservers now) = True"
| "unlogged MaIdentifyGarbage = True"
| "unlogged opr = False"

lemma unlogged_quiet: "ma_inv m \<Longrightarrow> unlogged opr \<Longrightarrow> quiet m (snd (ma_exec opr m))"
  using table_ops_quiet replica_ops_quiet by (cases opr) simp_all

lemma clean_step:
  assumes inv: "ma_inv m" and log: "logging rs m" and cl: "clean opr m" and "\<not> is_checkpoint opr"
  shows "quiet m (snd (ma_exec opr m)) \<or> recorded rs m (snd (ma_exec opr m))"
proof -
  obtain ok m' where r: "ma_exec opr m = (ok, m')" by fastforce
  have room: "length rs < log_capacity"
    using cl log log_holds_count [of "ma_log m" "ma_disk m" rs] by (simp add: clean_def logging_def)
  have io: "whole_op opr" and ok: "ok \<or> ma_log m' = ma_log m" using cl r by (simp_all add: clean_def)
  have unlogged: "quiet m m'" if "unlogged opr" using unlogged_quiet [OF inv that] r by simp
  have "quiet m m' \<or> recorded rs m m'"
  proof (cases opr)
    case (MaCreateFile io path rf)
    then show ?thesis using ma_CreateFile_step [OF inv log _ room, of io path rf ok m'] r io ok by simp
  next
    case (MaDeleteFile io path)
    then show ?thesis using ma_DeleteFile_step [OF inv log _ room, of io path ok m'] r io ok by simp
  next
    case (MaRenameFile io src dst)
    then show ?thesis using ma_RenameFile_step [OF inv log _ room, of io src dst ok m'] r io ok by simp
  next
    case (MaCreateDirectory io path)
    then show ?thesis using ma_CreateDirectory_step [OF inv log _ room, of io path ok m'] r io ok by simp
  next
    case (MaUpdateFileSize io path sz)
    then show ?thesis using ma_UpdateFileSize_step [OF inv log _ room, of io path sz ok m'] r io ok by simp
  next
    case (MaCreateSnapshot io src dst)
    then show ?thesis using ma_CreateSnapshot_step [OF inv log _ room, of io src dst ok m'] r io ok by simp
  next
    case (MaSetChunkVersion io h v)
    then show ?thesis using ma_SetChunkVersion_step [OF inv log _ room, of io h v ok m'] r io ok by simp
  next
    case (MaSetChunkSize io h sz)
    then show ?thesis using ma_SetChunkSize_step [OF inv log _ room, of io h sz ok m'] r io ok by simp
  next
    case (MaAddChunkToFile io path h)
    then show ?thesis using ma_AddChunkToFile_step [OF inv log _ room, of io path h ok m'] r io ok by simp
  next
    case (MaRemoveChunkFromFile io path h)
    then show ?thesis using ma_RemoveChunkFromFile_step [OF inv log _ room, of io path h ok m'] r io ok by simp
  next
    case (MaGarbageCollectChunk io deleted h)
    then show ?thesis using ma_GarbageCollectChunk_step [OF inv log _ room, of io deleted h ok m'] r io ok by simp
  next
    case (MaPrepareCopyOnWrite io clone path i)
    then show ?thesis
      using ma_PrepareCopyOnWrite_step [OF inv log _ room] r io
      by (cases "ma_PrepareCopyOnWrite io clone path i m") auto
  next
    case (MaAllocateChunk io path)
    then show ?thesis
      using ma_AllocateChunk_step [OF inv log _ room] r io ok by (cases "ma_AllocateChunk io path m") auto
  qed (use unlogged assms(4) in simp_all)
  then show ?thesis by (simp add: r)
qed

section \<open>What the files of a master stand for\<close>

definition blank :: "master \<Rightarrow> bool" where
  "blank b \<longleftrightarrow> ma_metadata b = md_init \<and> ma_namespace b = ns_init"

text \<open>Replaying the records \<open>rs\<close> over nothing succeeds and gives the durable state of \<open>m\<close>.\<close>

definition rebuilds :: "operation_record list \<Rightarrow> master \<Rightarrow> bool" where
  "rebuilds rs m \<longleftrightarrow> (\<forall>b. blank b \<longrightarrow> agrees same_durable (replay_loop rs b) (True, m))"

text \<open>
  A checkpoint that restores to the state which its number of records rebuilds; and the files of
  the directory that load as checkpoints.
\<close>

definition good_checkpoint :: "operation_record list \<Rightarrow> checkpoint_state \<Rightarrow> bool" where
  "good_checkpoint rs st \<longleftrightarrow> unat (ck_sequence st) \<le> length rs \<and>
     (\<forall>md ns m. \<exists>md' ns'. ck_Restore st md ns = (True, md', ns') \<and>
        rebuilds (take (unat (ck_sequence st)) rs) (m\<lparr>ma_metadata := md', ma_namespace := ns'\<rparr>))"

definition checkpoints_good :: "operation_record list \<Rightarrow> master \<Rightarrow> bool" where
  "checkpoints_good rs m \<longleftrightarrow>
     (\<forall>name s st. candidate_sequence name = Some s \<longrightarrow>
        ck_Load (ma_disk m) (path_div (ma_directory m) name) = Some st \<longrightarrow> good_checkpoint rs st)"

definition recoverable :: "master \<Rightarrow> bool" where
  "recoverable m \<longleftrightarrow> ma_inv m \<and> (\<exists>rs. logging rs m \<and> rebuilds rs m \<and> checkpoints_good rs m)"

lemma rebuilds_same:
  "rebuilds rs m \<Longrightarrow> same_durable m m' \<Longrightarrow> rebuilds rs m'"
  by (auto simp: rebuilds_def agrees_def intro: same_durable_trans)

lemma rebuilds_snoc:
  assumes "rebuilds rs m" and "agrees same_durable (ReplayOperation r m) (True, m')"
  shows "rebuilds (rs @ [r]) m'"
  unfolding rebuilds_def
proof (intro allI impI)
  fix b
  assume "blank b"
  then have first: "agrees same_durable (replay_loop rs b) (True, m)" using assms(1) by (simp add: rebuilds_def)
  then have ok: "fst (replay_loop rs b)" and rel: "same_durable (snd (replay_loop rs b)) m" by (simp_all add: agrees_True)
  have "agrees same_durable (ReplayOperation r (snd (replay_loop rs b))) (ReplayOperation r m)"
    by (rule ReplayOperation_same [OF rel])
  then have "agrees same_durable (ReplayOperation r (snd (replay_loop rs b))) (True, m')"
    using assms(2) by (auto simp: agrees_def intro: same_durable_trans)
  then show "agrees same_durable (replay_loop (rs @ [r]) b) (True, m')"
    using ok by (simp add: replay_loop_append and_then_eq agrees_def)
qed

lemma good_checkpoint_append:
  assumes "good_checkpoint rs st"
  shows "good_checkpoint (rs @ [r]) st"
proof -
  have "take (unat (ck_sequence st)) (rs @ [r]) = take (unat (ck_sequence st)) rs"
    using assms by (simp add: good_checkpoint_def)
  then show ?thesis using assms by (simp add: good_checkpoint_def)
qed

lemma candidate_not_log: "candidate_sequence name = Some s \<Longrightarrow> path_div dir name \<noteq> operation_log_path dir"
proof
  assume c: "candidate_sequence name = Some s" and "path_div dir name = operation_log_path dir"
  then have "name = ''operation.log''" by (simp add: operation_log_path_def)
  then show False using c by (simp add: candidate_sequence_def Let_def)
qed

section \<open>Clean operations keep a master recoverable\<close>

lemma quiet_recoverable:
  assumes "recoverable m" and "quiet m m'" and "ma_inv m'"
  shows "recoverable m'"
proof -
  obtain rs where rs: "logging rs m" "rebuilds rs m" "checkpoints_good rs m"
    using assms(1) by (auto simp: recoverable_def)
  have eq: "ma_disk m' = ma_disk m" "ma_directory m' = ma_directory m" "log_part m' = log_part m"
    and same: "same_durable m m'"
    using assms(2) by (auto simp: quiet_def log_part_def)
  have "logging rs m'" using rs(1) logging_log_part [OF eq(3)] by simp
  moreover have "rebuilds rs m'" by (rule rebuilds_same [OF rs(2) same])
  moreover have "checkpoints_good rs m'" using rs(3) eq by (simp add: checkpoints_good_def)
  ultimately show ?thesis using assms(1,3) by (auto simp: recoverable_def)
qed

lemma recorded_recoverable:
  assumes "recoverable m" and "\<And>rs. logging rs m \<Longrightarrow> recorded rs m m'" and "ma_inv m'"
  shows "recoverable m'"
proof -
  obtain rs where rs: "logging rs m" "rebuilds rs m" "checkpoints_good rs m"
    using assms(1) by (auto simp: recoverable_def)
  from assms(2) [OF rs(1)] obtain r where dir: "ma_directory m' = ma_directory m"
    and other: "\<And>p. p \<noteq> ol_path (ma_log m) \<Longrightarrow> ma_disk m' p = ma_disk m p"
    and r: "logging (rs @ [r]) m'" "agrees same_durable (ReplayOperation r m) (True, m')"
    by (auto simp: recorded_def)
  have path: "ol_path (ma_log m) = operation_log_path (ma_directory m)" using rs(1) by (simp add: logging_def)
  have "checkpoints_good (rs @ [r]) m'"
    unfolding checkpoints_good_def dir
  proof (intro allI impI)
    fix name s st
    assume c: "candidate_sequence name = Some s" and l: "ck_Load (ma_disk m') (path_div (ma_directory m) name) = Some st"
    have "ma_disk m' (path_div (ma_directory m) name) = ma_disk m (path_div (ma_directory m) name)"
      using other candidate_not_log [OF c, of "ma_directory m"] path by simp
    then have "ck_Load (ma_disk m) (path_div (ma_directory m) name) = Some st" using l by (simp add: ck_Load_def)
    then show "good_checkpoint (rs @ [r]) st"
      using rs(3) c good_checkpoint_append by (auto simp: checkpoints_good_def)
  qed
  then show ?thesis using r rebuilds_snoc [OF rs(2) r(2)] assms(3) by (auto simp: recoverable_def)
qed

lemma checkpoint_recoverable:
  assumes rec: "recoverable m" and store: "storable_master m"
  shows "recoverable (snd (ma_CreateCheckpoint io m))"
proof -
  obtain rs where rs: "logging rs m" "rebuilds rs m" "checkpoints_good rs m" and inv: "ma_inv m"
    using rec by (auto simp: recoverable_def)
  have last: "\<not> md_ChunkExists (ma_metadata m) u64_max" using store by (simp add: storable_master_def Let_def)
  let ?dir = "ma_directory m" and ?n = "ol_last_sequence (ma_log m)" and ?md = "ma_metadata m" and ?ns = "ma_namespace m"
  let ?st = "checkpoint_state_of ?md ?ns ?n"
  have dir: "?dir \<noteq> []" and path: "ol_path (ma_log m) = operation_log_path ?dir" and "ol_open (ma_log m)"
    using rs(1) by (auto simp: logging_def log_holds_def)
  obtain ok fs where cr: "ck_Create io (ma_disk m) ?dir ?md ?ns ?n = (ok, fs)" by fastforce
  then have m': "snd (ma_CreateCheckpoint io m) = m\<lparr>ma_disk := fs\<rparr>"
    using dir \<open>ol_open (ma_log m)\<close> by (simp add: ma_CreateCheckpoint_def)
  let ?name = "''checkpoint_'' @ to_string ?n @ ''.bin''"
  have len: "unat ?n = length rs" using rs(1) log_holds_count by (auto simp: logging_def)
  have files: "files_in_namespace ?md ?ns" using ma_invD(3) [OF inv] by (auto simp: files_in_namespace_def)
  have valid: "ValidateState ?st" by (rule ValidateState_export [OF ma_invD(2,1) [OF inv] files])
  have load: "Deserialize (Serialize ?st) = Some ?st"
    using read_back [OF _ valid] store by (simp add: storable_master_def Let_def)
  have good: "good_checkpoint rs ?st"
  proof -
    have "\<exists>md' ns'. ck_Restore ?st md ns = (True, md', ns') \<and> rebuilds rs (x\<lparr>ma_metadata := md', ma_namespace := ns'\<rparr>)"
      for md ns x
    proof -
      from Restore_checkpoint [OF ma_invD(2,1) [OF inv] files last, of ?n md ns] obtain md' ns' where
        r: "ck_Restore ?st md ns = (True, md', ns')" "ns_view ns' = ns_view ?ns" "ns_inv ns'" "durable_eq md' ?md" "md_inv md'"
        by blast
      have "same_durable m (x\<lparr>ma_metadata := md', ma_namespace := ns'\<rparr>)"
        using r ma_invD [OF inv] by (auto simp: same_durable_def md_same_def ns_same_def intro: durable_eq_sym)
      then show ?thesis using r(1) rebuilds_same [OF rs(2)] by blast
    qed
    then show ?thesis using len by (simp add: good_checkpoint_def checkpoint_state_of_def)
  qed
  have not_log: "operation_log_path ?dir \<noteq> path_div ?dir ''LATEST''" "operation_log_path ?dir \<noteq> GetCheckpointPath ?dir ?n"
      "operation_log_path ?dir \<noteq> GetCheckpointPath ?dir ?n @ ''.tmp''"
    by (simp_all add: operation_log_path_def GetCheckpointPath_def path_div_def)
  have "fs (operation_log_path ?dir) = ma_disk m (operation_log_path ?dir)"
    using Create_files(1) [OF cr] not_log by blast
  then have "logging rs (m\<lparr>ma_disk := fs\<rparr>)" using rs(1) path by (simp add: logging_def log_holds_def)
  moreover have "rebuilds rs (m\<lparr>ma_disk := fs\<rparr>)"
    using rebuilds_same [OF rs(2), of "m\<lparr>ma_disk := fs\<rparr>"] same_durable_refl [OF inv] by (simp add: same_durable_def)
  moreover have "checkpoints_good rs (m\<lparr>ma_disk := fs\<rparr>)"
    unfolding checkpoints_good_def
  proof (intro allI impI)
    fix name s st
    assume c: "candidate_sequence name = Some s"
      and "ck_Load (ma_disk (m\<lparr>ma_disk := fs\<rparr>)) (path_div (ma_directory (m\<lparr>ma_disk := fs\<rparr>)) name) = Some st"
    then have l: "ck_Load fs (path_div ?dir name) = Some st" by simp
    have "name \<noteq> ''LATEST''" using c by (auto simp: candidate_sequence_def)
    then have n1: "path_div ?dir name \<noteq> path_div ?dir ''LATEST''" by simp
    have "name \<noteq> ?name @ ''.tmp''" using c by (auto simp: candidate_sequence_def Let_def split: if_splits)
    then have n2: "path_div ?dir name \<noteq> GetCheckpointPath ?dir ?n @ ''.tmp''"
      by (auto simp: GetCheckpointPath_def path_div_def)
    have old: "good_checkpoint rs st" if "fs (path_div ?dir name) = ma_disk m (path_div ?dir name)"
      using that l rs(3) c by (auto simp: checkpoints_good_def ck_Load_def)
    show "good_checkpoint rs st"
    proof (cases "path_div ?dir name = GetCheckpointPath ?dir ?n")
      case True
      from Create_files(2) [OF cr n1 n2 True] consider "fs (path_div ?dir name) = ma_disk m (path_div ?dir name)"
        | "fs (path_div ?dir name) = Some (Serialize ?st)" | "fs (path_div ?dir name) = None" by argo
      then show ?thesis
      proof cases
        case 2
        then have "st = ?st" using l load by (simp add: ck_Load_def)
        then show ?thesis using good by simp
      qed (use old l in \<open>simp_all add: ck_Load_def\<close>)
    next
      case False
      then show ?thesis using old Create_files(1) [OF cr n1 n2] by blast
    qed
  qed
  moreover have "ma_inv (m\<lparr>ma_disk := fs\<rparr>)" using ma_CreateCheckpoint_inv [OF inv, of io] m' by simp
  ultimately show ?thesis by (auto simp: recoverable_def m')
qed

lemma clean_recoverable:
  assumes "recoverable m" and "clean opr m"
  shows "recoverable (snd (ma_exec opr m))"
proof (cases "is_checkpoint opr")
  case True
  then show ?thesis using assms checkpoint_recoverable by (cases opr) (auto simp: clean_def)
next
  case False
  have inv: "ma_inv m" using assms(1) by (simp add: recoverable_def)
  then have inv': "ma_inv (snd (ma_exec opr m))" by (rule masters.inv_exec)
  show ?thesis
  proof (cases "quiet m (snd (ma_exec opr m))")
    case True
    then show ?thesis using quiet_recoverable assms(1) inv' by blast
  next
    case no: False
    show ?thesis by (rule recorded_recoverable [OF assms(1) _ inv']) (use clean_step [OF inv _ assms(2) False] no in blast)
  qed
qed

section \<open>Starting and restarting\<close>

lemma filter_numbered:
  assumes "numbered_from e rs" and "e \<noteq> 0"
  shows "filter (\<lambda>r. \<not> or_sequence r \<le> s) rs = drop (unat s + 1 - unat e) rs"
  using assms
proof (induction rs arbitrary: e)
  case (Cons r rs)
  have r: "or_sequence r = e" and rest: "numbered_from (e + 1) rs" and e: "e \<noteq> u64_max"
    using Cons.prems by auto
  then have e1: "e + 1 \<noteq> 0" and un: "unat (e + 1) = Suc (unat e)"
    using unat_succ [of e] by (simp_all add: word_succ_eq_0)
  show ?case
  proof (cases "e \<le> s")
    case True
    then have "unat s + 1 - unat e = Suc (unat s + 1 - unat (e + 1))" by (simp add: un word_le_nat_alt)
    then show ?thesis using True r Cons.IH [OF rest e1] by simp
  next
    case False
    then have "unat s + 1 - unat e = 0" "unat s + 1 - unat (e + 1) = 0" by (simp_all add: un word_le_nat_alt)
    then show ?thesis using False r Cons.IH [OF rest e1] by simp
  qed
qed simp

lemma ol_Replay_after:
  assumes "log_holds log fs rs"
  shows "ol_Replay fs log s = drop (unat s) rs"
proof -
  have reads: "ReadRecords fs (ol_path log) = Some rs" using assms by (simp add: ReadRecords_Some log_holds_def)
  have "numbered_from 1 rs" using assms by (simp add: log_holds_def)
  from filter_numbered [OF this, of s] show ?thesis by (simp add: ol_Replay_def reads)
qed

lemma replay_split:
  assumes "rebuilds rs m" and "rebuilds (take k rs) b"
  shows "agrees same_durable (replay_loop (drop k rs) b) (True, m)"
proof -
  define z where "z = b\<lparr>ma_metadata := md_init, ma_namespace := ns_init\<rparr>"
  have z: "blank z" by (simp add: z_def blank_def)
  then have first: "fst (replay_loop (take k rs) z)" "same_durable (snd (replay_loop (take k rs) z)) b"
    using assms(2) by (simp_all add: rebuilds_def agrees_True)
  have "replay_loop rs z = replay_loop (drop k rs) (snd (replay_loop (take k rs) z))"
    using replay_loop_append [of "take k rs" "drop k rs" z] first(1) by (simp add: and_then_eq)
  then have "agrees same_durable (replay_loop (drop k rs) (snd (replay_loop (take k rs) z))) (True, m)"
    using assms(1) z unfolding rebuilds_def by metis
  moreover have "agrees same_durable (replay_loop (drop k rs) (snd (replay_loop (take k rs) z))) (replay_loop (drop k rs) b)"
    by (rule replay_loop_same [OF first(2)])
  ultimately show ?thesis
    by (auto simp: agrees_def intro: same_durable_trans same_durable_sym)
qed

lemma rebuilds_Nil: "blank b \<Longrightarrow> rebuilds [] b"
  by (auto simp: rebuilds_def blank_def same_durable_def md_same_def ns_same_def md_inv_init ns_inv_init)

text \<open>Replaying touches the durable state and the leases only.\<close>

definition replay_keeps :: "master \<Rightarrow> master \<Rightarrow> bool" where
  "replay_keeps m m' \<longleftrightarrow> log_part m' = log_part m \<and> ma_heartbeats m' = ma_heartbeats m \<and>
     ma_replicas m' = ma_replicas m \<and> ma_orphans m' = ma_orphans m \<and> (lm_inv (ma_leases m) \<longrightarrow> lm_inv (ma_leases m'))"

lemma replay_keeps_refl [simp]: "replay_keeps m m"
  by (simp add: replay_keeps_def)

lemma replay_keeps_trans: "replay_keeps a b \<Longrightarrow> replay_keeps b c \<Longrightarrow> replay_keeps a c"
  by (auto simp: replay_keeps_def)

lemma replay_keeps_updates [simp]:
  "replay_keeps m (m'\<lparr>ma_metadata := md\<rparr>) = replay_keeps m m'" "replay_keeps m (m'\<lparr>ma_namespace := ns\<rparr>) = replay_keeps m m'"
  by (simp_all add: replay_keeps_def)

lemma replay_keeps_release: "replay_keeps m m' \<Longrightarrow> replay_keeps m (release_all hs m')"
proof (induction hs arbitrary: m')
  case (Cons h hs)
  have "release_all (h # hs) m' = release_all hs (m'\<lparr>ma_leases := snd (lm_ReleaseLease (ma_leases m') h)\<rparr>)"
    by (simp add: release_all_def)
  moreover have "replay_keeps m (m'\<lparr>ma_leases := snd (lm_ReleaseLease (ma_leases m') h)\<rparr>)"
    using Cons.prems by (auto simp: replay_keeps_def intro: lm_ReleaseLease_inv)
  ultimately show ?case using Cons.IH by simp
qed (simp add: release_all_def)

lemma replay_keeps_rollback [simp]: "replay_keeps m (rollback fs ds m') = replay_keeps m m'"
proof -
  have "replay_keeps m (fold drop_created_file xs s) = replay_keeps m s" for xs s
    by (induction xs arbitrary: s) (simp_all add: drop_created_file_def)
  moreover have "replay_keeps m (fold drop_created_directory xs s) = replay_keeps m s" for xs s
    by (induction xs arbitrary: s) (simp_all add: drop_created_directory_def)
  ultimately show ?thesis by (simp add: rollback_def)
qed

lemma replay_keeps_snapshot_loop:
  "replay_keeps m m' \<Longrightarrow> replay_keeps m (snd (snapshot_loop src dst infos fs ds m'))"
  by (induction infos arbitrary: fs ds m')
    (simp_all add: Let_def case_pair_bool replay_keeps_release split: option.splits)

lemma replay_keeps_snapshot: "replay_keeps m (snd (CreateSnapshotInternal src dst m))"
  by (simp add: CreateSnapshotInternal_def Let_def and_then_eq replay_keeps_snapshot_loop snapshot_file_def case_pair_bool
      replay_keeps_release split: option.splits)

lemma replay_keeps_redo: "replay_keeps m (snd (redo_operation ty fs m))"
  by (cases ty)
    (auto simp: redo_CreateDirectory_def redo_CreateFile_def redo_DeleteFile_def redo_RenameFile_def
      redo_AllocateChunk_def redo_UpdateFileSize_def redo_SetChunkVersion_def redo_AddChunkToFile_def
      redo_RemoveChunkFromFile_def redo_DeleteChunk_def redo_SetChunkSize_def redo_CreateSnapshot_def
      ReplayCopyOnWrite_def Let_def and_then_eq replay_keeps_snapshot split: list.splits option.splits)

lemma replay_keeps_loop: "replay_keeps m (snd (replay_loop rs m))"
proof (induction rs arbitrary: m)
  case (Cons r rs)
  have "replay_keeps m (snd (ReplayOperation r m))"
    by (simp add: ReplayOperation_def replay_keeps_redo split: option.splits)
  then show ?case using Cons.IH replay_keeps_trans by (auto simp: and_then_eq)
qed simp

lemma operation_log_path_nonempty [simp]: "operation_log_path dir \<noteq> []"
  by (simp add: operation_log_path_def path_div_def)

text \<open>Opening the log of a recoverable master again finds its records.\<close>

lemma open_log_again:
  assumes "logging rs m" and "ma_directory m0 = ma_directory m" and "ma_disk m0 = ma_disk m"
  shows "\<exists>log. open_log dirs_ok create_ok m0 = (ol_open log, m0\<lparr>ma_log := log\<rparr>) \<and>
    (dirs_ok \<longrightarrow> ol_open log) \<and> (ol_open log \<longrightarrow> logging rs (m0\<lparr>ma_log := log\<rparr>))"
proof -
  let ?path = "operation_log_path (ma_directory m)"
  obtain ok log fs where op: "ol_Open dirs_ok create_ok (ma_disk m) (ma_log m0) ?path = (ok, log, fs)"
    by (metis prod.exhaust)
  have "ol_path (ma_log m) = ?path" "log_holds (ma_log m) (ma_disk m) rs" using assms(1) by (auto simp: logging_def)
  then have disk: "ma_disk m ?path = Some (bytes_of rs)" "numbered_from 1 rs" by (auto simp: log_holds_def)
  then have read: "read_loop 1 (content_of (ma_disk m) ?path) = Some rs"
    by (simp add: content_of_def read_loop_Some)
  have same: "(ma_disk m)(?path \<mapsto> content_of (ma_disk m) ?path) = ma_disk m"
    using disk(1) by (auto simp: content_of_def)
  have fs: "fs = ma_disk m" and "ok \<longleftrightarrow> ol_open log" and "dirs_ok \<longrightarrow> ok"
    using op unfolding ol_Open_eq read by (auto simp: same disk(1) ol_Close_def split: if_splits)
  moreover have "logging rs (m0\<lparr>ma_log := log\<rparr>)" if ok
  proof -
    have op': "ol_Open dirs_ok create_ok (ma_disk m) (ma_log m0) ?path = (True, log, fs)" using op that by simp
    from Open_holds [OF this] obtain rs' where rs': "log_holds log fs rs'" "ol_path log = ?path"
        "bytes_of rs' = content_of (ma_disk m) ?path" by blast
    then have "read_loop 1 (content_of (ma_disk m) ?path) = Some rs'"
      by (simp add: read_loop_Some log_holds_def)
    then have "rs' = rs" using read by simp
    then show ?thesis using rs'(1,2) assms fs by (simp add: logging_def)
  qed
  ultimately show ?thesis
    using op assms(2,3) by (intro exI [of _ log]) (auto simp: open_log_def)
qed

lemma logging_Validate: "logging rs m \<Longrightarrow> ol_Validate (ma_disk m) (ma_log m)"
proof -
  assume "logging rs m"
  then have "log_holds (ma_log m) (ma_disk m) rs" by (simp add: logging_def)
  then have "ReadRecords (ma_disk m) (ol_path (ma_log m)) = Some rs"
    unfolding ReadRecords_Some by (simp add: log_holds_def)
  then show ?thesis by (simp add: ol_Validate_def)
qed

lemma same_durable_core: "ma_inv m \<Longrightarrow> same_durable m m' \<Longrightarrow> core_inv (ma_metadata m') (ma_namespace m')"
  using same_queries(2,8) [of m m'] by (auto simp: ma_inv_def core_inv_def files_agree_def same_durable_def md_same_def ns_same_def)

text \<open>
  \<open>Initialize\<close> replays the log over nothing or over a restored checkpoint, which stands for the first
  records of the log.
\<close>

lemma Initialize_start:
  assumes m1: "logging rs' m1" "length rs \<le> length rs'" "checkpoints_good rs m1"
    and open1: "(if ol_open (ma_log m0) then (True, m0) else open_log dirs_ok create_ok m0) = (True, m1)"
    and dir: "ma_directory m0 = ma_directory m1"
  shows "\<exists>s x. ma_Initialize dirs_ok create_ok directory_exists entries m0 = replay_from s x \<and>
    log_part x = log_part m1 \<and> ma_heartbeats x = ma_heartbeats m1 \<and> ma_leases x = ma_leases m1 \<and>
    unat s \<le> length rs \<and> rebuilds (take (unat s) rs) x"
proof -
  have holds: "log_holds (ma_log m1) (ma_disk m1) rs'" and "ma_directory m1 \<noteq> []" using m1(1) by (auto simp: logging_def)
  then have init: "ma_Initialize dirs_ok create_ok directory_exists entries m0 =
      (case ck_LoadLatest directory_exists entries (ma_disk m1) (ma_directory m1) of
            Some state \<Rightarrow>
              if ck_sequence state > ol_last_sequence (ma_log m1) then (False, m1)
              else (case ck_Restore state (ma_metadata m1) (ma_namespace m1) of
                 (ok, md, ns) \<Rightarrow>
                   and_then (ok, m1\<lparr>ma_metadata := md, ma_namespace := ns\<rparr>) (replay_from (ck_sequence state)))
          | None \<Rightarrow>
              replay_from 0 (m1\<lparr>ma_metadata := md_Clear (ma_metadata m1), ma_namespace := ns_Clear (ma_namespace m1)\<rparr>))"
    using dir open1 logging_Validate [OF m1(1)] by (simp add: ma_Initialize_def)
  show ?thesis
  proof (cases "ck_LoadLatest directory_exists entries (ma_disk m1) (ma_directory m1)")
    case None
    let ?x = "m1\<lparr>ma_metadata := md_Clear (ma_metadata m1), ma_namespace := ns_Clear (ma_namespace m1)\<rparr>"
    have "rebuilds [] ?x" by (rule rebuilds_Nil) (simp add: blank_def md_Clear_def ns_Clear_def)
    then show ?thesis using init None by (intro exI [of _ 0] exI [of _ ?x]) simp
  next
    case (Some st)
    obtain name s where "candidate_sequence name = Some s" "ck_Load (ma_disk m1) (path_div (ma_directory m1) name) = Some st"
      using Some load_first_Some [of "ma_disk m1" "ma_directory m1" "ck_candidates entries" st]
      by (auto simp: ck_LoadLatest_def set_candidates split: if_splits) (metis in_set_conv_decomp set_candidates)
    then have good: "good_checkpoint rs st" using m1(3) by (auto simp: checkpoints_good_def)
    obtain md ns where r: "ck_Restore st (ma_metadata m1) (ma_namespace m1) = (True, md, ns)"
        "rebuilds (take (unat (ck_sequence st)) rs) (m1\<lparr>ma_metadata := md, ma_namespace := ns\<rparr>)"
      using good unfolding good_checkpoint_def by blast
    have len: "unat (ck_sequence st) \<le> length rs" using good by (simp add: good_checkpoint_def)
    then have "\<not> ck_sequence st > ol_last_sequence (ma_log m1)"
      using m1(2) log_holds_count [OF holds] by (simp add: word_less_nat_alt)
    then show ?thesis
      using r init Some len
      by (intro exI [of _ "ck_sequence st"] exI [of _ "m1\<lparr>ma_metadata := md, ma_namespace := ns\<rparr>"]) simp
  qed
qed

lemma replay_from_eq:
  assumes "logging rs m1" and "log_part x = log_part m1"
  shows "replay_from s x = and_then (replay_loop (drop (unat s) rs) x)
    (\<lambda>m. (True, m\<lparr>ma_replicas := rm_Clear (ma_replicas m), ma_orphans := oc_Clear (ma_orphans m)\<rparr>))"
proof -
  have "log_holds (ma_log x) (ma_disk x) rs" using assms by (simp add: logging_def log_part_def)
  then show ?thesis by (simp add: replay_from_def ol_Replay_after)
qed

lemma Initialize_open:
  assumes rec: "recoverable m" and rs: "logging rs m" "rebuilds rs m" "checkpoints_good rs m"
    and m1: "logging rs m1" "ma_directory m1 = ma_directory m" "ma_disk m1 = ma_disk m" and tab: "tables_inv m1"
    and open1: "(if ol_open (ma_log m0) then (True, m0) else open_log dirs_ok create_ok m0) = (True, m1)"
    and dir: "ma_directory m0 = ma_directory m"
  shows "\<exists>m'. ma_Initialize dirs_ok create_ok directory_exists entries m0 = (True, m') \<and> same_durable m m' \<and>
    recoverable m' \<and> ma_replicas m' = rm_init \<and> ma_orphans m' = {} \<and> log_part m' = log_part m1"
proof -
  have inv: "ma_inv m" using rec by (simp add: recoverable_def)
  have good1: "checkpoints_good rs m1" using rs(3) m1 by (simp add: checkpoints_good_def)
  from Initialize_start [OF m1(1) order_refl good1 open1, of directory_exists entries] obtain s x where
    init: "ma_Initialize dirs_ok create_ok directory_exists entries m0 = replay_from s x"
    and x: "log_part x = log_part m1" "ma_heartbeats x = ma_heartbeats m1" "ma_leases x = ma_leases m1"
    and reb: "rebuilds (take (unat s) rs) x" using dir m1(2) by auto
  from replay_split [OF rs(2) reb] have ok: "fst (replay_loop (drop (unat s) rs) x)"
    and same: "same_durable (snd (replay_loop (drop (unat s) rs) x)) m" by (simp_all add: agrees_True)
  let ?y = "snd (replay_loop (drop (unat s) rs) x)"
  let ?m' = "?y\<lparr>ma_replicas := rm_Clear (ma_replicas ?y), ma_orphans := oc_Clear (ma_orphans ?y)\<rparr>"
  have keeps: "replay_keeps x ?y" by (rule replay_keeps_loop)
  have res: "replay_from s x = (True, ?m')" using ok by (simp add: replay_from_eq [OF m1(1) x(1)] and_then_eq)
  have same': "same_durable m ?m'" using same_durable_sym [OF same] by (simp add: same_durable_def)
  have lp: "log_part ?m' = log_part m1" using keeps x(1) by (simp add: replay_keeps_def)
  have "tables_inv ?m'"
    using keeps x tab by (simp add: tables_inv_def replay_keeps_def rm_Clear_def oc_Clear_def rm_inv_init)
  then have inv': "ma_inv ?m'" using same_durable_core [OF inv same'] by (simp add: ma_inv_def)
  have "logging rs ?m'" using m1(1) logging_log_part [OF lp] by simp
  moreover have "checkpoints_good rs ?m'" using good1 lp by (simp add: checkpoints_good_def log_part_def)
  ultimately have "recoverable ?m'"
    unfolding recoverable_def using rebuilds_same [OF rs(2) same'] inv' by blast
  then show ?thesis
    using init res same' lp by (intro exI [of _ ?m']) (simp add: rm_Clear_def oc_Clear_def)
qed

text \<open>A new master on the files of another one that was logging: its log opens with the same records.\<close>

lemma new_master_opens:
  fixes dirs_before create_before create_ok :: bool and factor :: "32 word"
  assumes "logging rs m"
  defines "m0 \<equiv> new_master dirs_before create_before (ma_disk m) factor (ma_directory m)"
  shows "\<exists>m1. (if ol_open (ma_log m0) then (True, m0) else open_log True create_ok m0) = (True, m1) \<and>
    logging rs m1 \<and> ma_directory m1 = ma_directory m \<and> ma_directory m0 = ma_directory m \<and>
    ma_disk m1 = ma_disk m \<and> tables_inv m1"
proof -
  have dir: "ma_directory m \<noteq> []" using assms(1) by (simp add: logging_def)
  define z where "z = \<lparr>ma_metadata = md_init, ma_namespace = ns_init, ma_replicas = rm_init,
      ma_policy = PlacementPolicy (unat factor), ma_leases = lm_init, ma_heartbeats = hb_init, ma_orphans = {},
      ma_directory = ma_directory m, ma_log = OperationLog [], ma_disk = ma_disk m\<rparr>"
  from open_log_again [OF assms(1), of z dirs_before create_before] obtain log where
    log: "open_log dirs_before create_before z = (ol_open log, z\<lparr>ma_log := log\<rparr>)"
      "ol_open log \<longrightarrow> logging rs (z\<lparr>ma_log := log\<rparr>)" by (auto simp: z_def)
  have m0: "m0 = z\<lparr>ma_log := log\<rparr>" using dir log(1) by (simp add: m0_def new_master_def z_def)
  have "tables_inv m0" using new_master_inv by (simp add: ma_inv_def m0_def)
  then have tab: "tables_inv (z\<lparr>ma_log := l\<rparr>)" for l unfolding m0 by (simp add: tables_inv_def)
  show ?thesis
  proof (cases "ol_open log")
    case True
    then show ?thesis using log(2) tab [of log] by (intro exI [of _ m0]) (simp add: m0, simp add: z_def)
  next
    case False
    from open_log_again [OF assms(1), of "z\<lparr>ma_log := log\<rparr>" True create_ok] obtain log' where
      "open_log True create_ok (z\<lparr>ma_log := log\<rparr>) = (ol_open log', z\<lparr>ma_log := log'\<rparr>)" "ol_open log'"
      "logging rs (z\<lparr>ma_log := log'\<rparr>)" by (auto simp: z_def)
    then show ?thesis
      using False tab [of log'] by (intro exI [of _ "z\<lparr>ma_log := log'\<rparr>"]) (simp add: m0, simp add: z_def)
  qed
qed

lemma Initialize_recovers:
  assumes rec: "recoverable m"
  shows "\<exists>m'. ma_Initialize True create_ok directory_exists entries
      (new_master dirs_before create_before (ma_disk m) factor (ma_directory m)) = (True, m') \<and>
    same_durable m m' \<and> recoverable m' \<and> ma_replicas m' = rm_init \<and> ma_orphans m' = {} \<and> ma_directory m' = ma_directory m"
proof -
  obtain rs where rs: "logging rs m" "rebuilds rs m" "checkpoints_good rs m"
    using rec by (auto simp: recoverable_def)
  from new_master_opens [OF rs(1), where dirs_before = dirs_before and create_before = create_before and factor = factor and create_ok = create_ok] obtain m1 where
    m1: "logging rs m1" "ma_directory m1 = ma_directory m" "ma_disk m1 = ma_disk m" "tables_inv m1"
    and op: "(let m0 = new_master dirs_before create_before (ma_disk m) factor (ma_directory m) in
      (if ol_open (ma_log m0) then (True, m0) else open_log True create_ok m0)) = (True, m1)"
    and dir0: "ma_directory (new_master dirs_before create_before (ma_disk m) factor (ma_directory m)) = ma_directory m"
    by auto
  from Initialize_open [OF rec rs m1 op [unfolded Let_def] dir0, of directory_exists entries] show ?thesis
    using m1(2) by (auto simp: log_part_def)
qed

text \<open>A record that cannot be redone, after all checkpoints, makes every restart fail.\<close>

lemma Initialize_fails:
  assumes rs: "rebuilds rs m" and rs': "logging (rs @ [r]) m'" "checkpoints_good rs m'"
    and fails: "\<not> fst (ReplayOperation r m)"
  shows "\<not> fst (ma_Initialize True create_ok directory_exists entries
      (new_master dirs_before create_before (ma_disk m') factor (ma_directory m')))"
proof -
  let ?m0 = "new_master dirs_before create_before (ma_disk m') factor (ma_directory m')"
  from new_master_opens [OF rs'(1), where dirs_before = dirs_before and create_before = create_before and factor = factor and create_ok = create_ok] obtain m1 where
    m1: "logging (rs @ [r]) m1" "ma_directory m1 = ma_directory m'" "ma_disk m1 = ma_disk m'"
    and op: "(if ol_open (ma_log ?m0) then (True, ?m0) else open_log True create_ok ?m0) = (True, m1)"
    and dir0: "ma_directory ?m0 = ma_directory m'" by blast
  have good: "checkpoints_good rs m1" using rs'(2) m1 by (simp add: checkpoints_good_def)
  from Initialize_start [OF m1(1) _ good op, of directory_exists entries] obtain s x where
    init: "ma_Initialize True create_ok directory_exists entries ?m0 = replay_from s x"
    and x: "log_part x = log_part m1" "unat s \<le> length rs" "rebuilds (take (unat s) rs) x"
    using dir0 m1(2) by auto
  from replay_split [OF rs x(3)] have ok: "fst (replay_loop (drop (unat s) rs) x)"
    and same: "same_durable (snd (replay_loop (drop (unat s) rs) x)) m" by (simp_all add: agrees_True)
  have "\<not> fst (ReplayOperation r (snd (replay_loop (drop (unat s) rs) x)))"
    using agrees_fst [OF ReplayOperation_same [OF same, of r]] fails by simp
  then show ?thesis
    using init ok x(2) by (simp add: replay_from_eq [OF m1(1) x(1)] replay_loop_append and_then_eq)
qed

section \<open>Lifetimes\<close>

text \<open>No log yet, or an empty one, and no file that loads as a checkpoint.\<close>

definition fresh_directory :: "files \<Rightarrow> file_path \<Rightarrow> bool" where
  "fresh_directory fs dir \<longleftrightarrow> dir \<noteq> [] \<and> fs (operation_log_path dir) \<in> {None, Some []} \<and>
     (\<forall>name s. candidate_sequence name = Some s \<longrightarrow> ck_Load fs (path_div dir name) = None)"

inductive lifetime :: "files \<Rightarrow> file_path \<Rightarrow> master \<Rightarrow> bool" for fs dir where
  start: "lifetime fs dir (new_master True True fs factor dir)"
| operation: "lifetime fs dir m \<Longrightarrow> clean opr m \<Longrightarrow> lifetime fs dir (snd (ma_exec opr m))"
| restart: "lifetime fs dir m \<Longrightarrow>
    ma_Initialize True create_ok directory_exists entries
      (new_master dirs_before create_before (ma_disk m) factor (ma_directory m)) = (ok, m') \<Longrightarrow>
    lifetime fs dir m'"

lemma new_master_recoverable:
  assumes "fresh_directory fs dir"
  shows "recoverable (new_master True True fs factor dir)"
proof -
  let ?m = "new_master True True fs factor dir" and ?path = "operation_log_path dir"
  have dir: "dir \<noteq> []" and log: "fs ?path \<in> {None, Some []}" using assms by (auto simp: fresh_directory_def)
  obtain ok log' fs' where op: "ol_Open True True fs (OperationLog []) ?path = (ok, log', fs')" by (metis prod.exhaust)
  have content: "content_of fs ?path = []" using log by (auto simp: content_of_def)
  then have ok and fs': "fs' = fs(?path \<mapsto> [])"
    using op unfolding ol_Open_eq by (auto simp: read_loop.simps [of _ "[]"])
  then have op': "ol_Open True True fs (OperationLog []) ?path = (True, log', fs')" using op by simp
  from Open_holds [OF this] obtain rs where rs: "log_holds log' fs' rs" "ol_path log' = ?path" "bytes_of rs = []"
    using content by auto
  then have "rs = []" by (cases rs) simp_all
  have m: "ma_log ?m = log'" "ma_disk ?m = fs'" "ma_directory ?m = dir" "blank ?m"
    using dir op by (simp_all add: new_master_def open_log_def blank_def Let_def)
  have "logging [] ?m" using rs \<open>rs = []\<close> dir m by (simp add: logging_def)
  moreover have "checkpoints_good [] ?m"
    unfolding checkpoints_good_def m
  proof (intro allI impI)
    fix name s st
    assume c: "candidate_sequence name = Some s" and l: "ck_Load fs' (path_div dir name) = Some st"
    have "fs' (path_div dir name) = fs (path_div dir name)" using candidate_not_log [OF c, of dir] fs' by simp
    then have "ck_Load fs (path_div dir name) = Some st" using l by (simp add: ck_Load_def)
    then show "good_checkpoint [] st" using assms c by (auto simp: fresh_directory_def)
  qed
  ultimately show ?thesis
    unfolding recoverable_def using new_master_inv rebuilds_Nil [OF m(4)] by blast
qed

lemma lifetime_recoverable: "lifetime fs dir m \<Longrightarrow> fresh_directory fs dir \<Longrightarrow> recoverable m"
proof (induction rule: lifetime.induct)
  case (restart m create_ok directory_exists entries dirs_before create_before factor ok m')
  then show ?case
    using Initialize_recovers [of m create_ok directory_exists entries dirs_before create_before factor] by auto
qed (auto intro: new_master_recoverable clean_recoverable)

section \<open>Operations that fail after they were logged\<close>

lemma append_succeeds:
  assumes "logging rs m" and "length rs < log_capacity" and "length (EncodeFields fs) < 2 ^ 32"
  shows "\<exists>m1. AppendOperation io_ok ty fs m = (True, m1) \<and> same_memory m m1 \<and>
    logging (rs @ [next_record m ty fs]) m1 \<and> (\<forall>p. p \<noteq> ol_path (ma_log m) \<longrightarrow> ma_disk m1 p = ma_disk m p)"
proof -
  have "whole io_ok" by (simp add: whole_def io_ok_def)
  from AppendOperation_cases [OF assms(1) this assms(2), of ty fs] show ?thesis
  proof cases
    case 1
    have holds: "log_holds (ma_log m) (ma_disk m) rs" and dir: "ma_directory m \<noteq> []" "ol_open (ma_log m)"
      using assms(1) by (auto simp: logging_def log_holds_def)
    obtain b log fs' where app: "ol_Append WriteAll (ma_disk m) (ma_log m) ty (EncodeFields fs) = (b, log, fs')"
      by (metis prod.exhaust)
    have "unat (ol_last_sequence (ma_log m)) \<noteq> unat u64_max"
      using log_holds_count [OF holds] assms(2) by (simp add: log_capacity_def unat_u64_max)
    then have b using ol_Append_WriteAll(1) [OF holds app] assms(3) by auto
    then have holds': "log_holds log fs' (rs @ [next_record m ty fs])"
      using ol_Append_WriteAll(3) [OF holds app _ assms(2)] by (simp add: next_record_def)
    then have "ol_Flush True True fs' log = (True, fs')" by (auto simp: ol_Flush_def log_holds_def)
    then show ?thesis using 1 app \<open>b\<close> dir by (simp add: AppendOperation_def io_ok_def)
  next
    case (2 m1)
    then show ?thesis by blast
  qed
qed

lemma checkpoints_good_disk:
  assumes "checkpoints_good rs m" and "ol_path (ma_log m) = operation_log_path (ma_directory m)"
    and "ma_directory m' = ma_directory m" and "\<forall>p. p \<noteq> ol_path (ma_log m) \<longrightarrow> ma_disk m' p = ma_disk m p"
  shows "checkpoints_good rs m'"
  unfolding checkpoints_good_def assms(3)
proof (intro allI impI)
  fix name s st
  assume c: "candidate_sequence name = Some s" and l: "ck_Load (ma_disk m') (path_div (ma_directory m) name) = Some st"
  have "ma_disk m' (path_div (ma_directory m) name) = ma_disk m (path_div (ma_directory m) name)"
    using candidate_not_log [OF c, of "ma_directory m"] assms(2,4) by simp
  then have "ck_Load (ma_disk m) (path_div (ma_directory m) name) = Some st" using l by (simp add: ck_Load_def)
  then show "good_checkpoint rs st" using assms(1) c by (auto simp: checkpoints_good_def)
qed

section \<open>Properties\<close>

text \<open>C1: a master that started on an empty directory, and since then executed clean operations, took
  checkpoints that succeeded or failed in any way, and was restarted, can be restarted at any moment:
  \<open>Initialize\<close> on its files succeeds, whatever entries the directory iterator yields, and gives the
  same namespace, files and chunks; the replicas are forgotten.\<close>
theorem restart_keeps_durable_state:
  assumes "lifetime fs dir m" and "fresh_directory fs dir"
  shows "\<exists>m'. ma_Initialize True create_ok directory_exists entries
      (new_master dirs_before create_before (ma_disk m) factor (ma_directory m)) = (True, m') \<and>
    ns_view (ma_namespace m') = ns_view (ma_namespace m) \<and> durable_eq (ma_metadata m') (ma_metadata m) \<and>
    ma_replicas m' = rm_init"
proof -
  from Initialize_recovers [OF lifetime_recoverable [OF assms], of create_ok directory_exists entries dirs_before create_before factor]
  obtain m' where m': "ma_Initialize True create_ok directory_exists entries
      (new_master dirs_before create_before (ma_disk m) factor (ma_directory m)) = (True, m')"
    "same_durable m m'" "ma_replicas m' = rm_init" by blast
  then show ?thesis
    using ns_sameD(3) [OF same_durableD(2) [OF m'(2)]] durable_eq_sym [OF md_sameD(3) [OF same_durableD(1) [OF m'(2)]]]
    by auto
qed

definition empty_disk :: files where
  "empty_disk = (\<lambda>_. None)"

lemma fresh_empty_disk: "fresh_directory empty_disk ''d''"
  by (simp add: fresh_directory_def empty_disk_def ck_Load_def)

definition master_d :: master where
  "master_d = new_master True True empty_disk 3 ''d''"

lemma master_d_recoverable: "recoverable master_d"
  unfolding master_d_def by (rule new_master_recoverable [OF fresh_empty_disk])

lemma master_d_fields:
  "ma_namespace master_d = ns_init" "ma_metadata master_d = md_init" "ma_directory master_d = ''d''"
  "logging [] master_d" "rebuilds [] master_d" "checkpoints_good [] master_d"
  "ma_heartbeats master_d = hb_init" "ma_policy master_d = 3"
proof -
  obtain rs where rs: "logging rs master_d" "rebuilds rs master_d" "checkpoints_good rs master_d"
    using master_d_recoverable by (auto simp: recoverable_def)
  have "ol_last_sequence (ma_log master_d) = 0" by code_simp
  then have "rs = []" using log_holds_count [of "ma_log master_d" "ma_disk master_d" rs] rs(1) by (simp add: logging_def)
  then show "logging [] master_d" "rebuilds [] master_d" "checkpoints_good [] master_d" using rs by simp_all
  show "ma_namespace master_d = ns_init" "ma_metadata master_d = md_init" "ma_directory master_d = ''d''"
    "ma_heartbeats master_d = hb_init" "ma_policy master_d = 3"
    by (simp_all add: master_d_def new_master_def Let_def open_log_def case_prod_beta PlacementPolicy_def)
qed

theorem restart_keeps_durable_state_witness:
  "\<exists>m'. ma_Initialize True False True [''operation.log'']
      (new_master False False (ma_disk (snd (ma_exec (MaCreateDirectory io_ok ''/a'') master_d))) 3
        (ma_directory (snd (ma_exec (MaCreateDirectory io_ok ''/a'') master_d)))) = (True, m') \<and>
    ns_view (ma_namespace m') [''a''] = Some Directory"
proof -
  let ?m = "snd (ma_exec (MaCreateDirectory io_ok ''/a'') master_d)"
  have "length (EncodeFields [''/a'']) < 2 ^ 32" by simp
  from append_succeeds [OF master_d_fields(4) _ this, of OpCreateDirectory] obtain m1 where
    m1: "AppendOperation io_ok OpCreateDirectory [''/a''] master_d = (True, m1)" "same_memory master_d m1"
    by (auto simp: log_capacity_def)
  have mk: "fst (ns_CreateDirectory ns_init ''/a'')" "ns_view (snd (ns_CreateDirectory ns_init ''/a'')) [''a''] = Some Directory"
    "\<not> ns_Exists ns_init ''/a''"
    by code_simp+
  then have ok: "fst (ma_exec (MaCreateDirectory io_ok ''/a'') master_d)" "ns_view (ma_namespace ?m) [''a''] = Some Directory"
    using m1 same_memory_fields [OF m1(2)] by (simp_all add: ma_CreateDirectory_def master_d_fields)
  have "clean (MaCreateDirectory io_ok ''/a'') master_d"
    using ok(1) master_d_fields(4) by (simp add: clean_def whole_def io_ok_def log_capacity_def logging_def log_holds_def)
  then have "lifetime empty_disk ''d'' ?m"
    using lifetime.operation [OF lifetime.start] unfolding master_d_def by blast
  from restart_keeps_durable_state [OF this fresh_empty_disk, where create_ok = False and directory_exists = True
      and entries = "[''operation.log'']" and dirs_before = False and create_before = False and factor = 3]
  show ?thesis using ok(2) by fastforce
qed

text \<open>A record that cannot be replayed makes every later start fail.\<close>

lemma spoiled_log:
  assumes "recoverable m" and "unat (ol_last_sequence (ma_log m)) < log_capacity" and len: "length (EncodeFields fs) < 2 ^ 32"
    and fails: "\<not> fst (redo_operation ty fs m)"
  shows "\<exists>m1. AppendOperation io_ok ty fs m = (True, m1) \<and> same_memory m m1 \<and>
    \<not> fst (ma_Initialize True create_ok directory_exists entries
      (new_master dirs_before create_before (ma_disk m1) factor' (ma_directory m1)))"
proof -
  obtain rs where rs: "logging rs m" "rebuilds rs m" "checkpoints_good rs m" using assms(1) by (auto simp: recoverable_def)
  have room: "length rs < log_capacity" using assms(2) log_holds_count rs(1) by (auto simp: logging_def)
  from append_succeeds [OF rs(1) room len, of ty] obtain m1 where
    m1: "AppendOperation io_ok ty fs m = (True, m1)" "same_memory m m1" "logging (rs @ [next_record m ty fs]) m1"
      "\<forall>p. p \<noteq> ol_path (ma_log m) \<longrightarrow> ma_disk m1 p = ma_disk m p" by blast
  have "\<not> fst (ReplayOperation (next_record m ty fs) m)"
    using fails by (simp add: next_record_def ReplayOperation_encoded [OF len] del: EncodeFields.simps)
  moreover have "checkpoints_good rs m1"
    using checkpoints_good_disk [OF rs(3) _ _ m1(4)] rs(1) same_memory_fields(8) [OF m1(2)] by (simp add: logging_def)
  ultimately show ?thesis using Initialize_fails [OF rs(2) m1(3)] m1(1,2) same_memory_fields [OF m1(2)] by auto
qed

text \<open>C32: \<open>CreateFile\<close> writes its record to the log before it finds out that the file cannot be created.
  Called with a path whose parent is missing it returns false and changes nothing in memory, but from
  then on every restart from the files fails.\<close>
theorem rejected_create_spoils_recovery:
  assumes "recoverable m" and "unat (ol_last_sequence (ma_log m)) < log_capacity" and "length path < 2 ^ 31"
    and "path \<noteq> []" and "\<not> ns_Exists (ma_namespace m) path" and "\<not> can_create (ma_namespace m) path"
    and "choose_factor (ma_policy m) (length (hb_GetLiveServers (ma_heartbeats m))) rf = Some factor"
    and "ma_CreateFile io_ok path rf m = (ok, m')"
  shows "\<not> ok \<and> ma_namespace m' = ma_namespace m \<and> ma_metadata m' = ma_metadata m \<and>
    \<not> fst (ma_Initialize True create_ok directory_exists entries
      (new_master dirs_before create_before (ma_disk m') factor' (ma_directory m')))"
proof -
  let ?fs = "[path, to_string32 factor]"
  have len: "length (EncodeFields ?fs) < 2 ^ 32" using assms(3) length_to_string32 [of factor] by simp
  have nocreate: "ns_CreateFile (ma_namespace m) path = (False, ma_namespace m)"
    using create_node_fails [OF assms(6)] by (simp add: ns_CreateFile_def)
  then have "\<not> fst (redo_operation OpCreateFile ?fs m)" using assms(5) by (auto simp: redo_CreateFile_def and_then_eq)
  from spoiled_log [OF assms(1,2) len this, where create_ok = create_ok and directory_exists = directory_exists and
      entries = entries and dirs_before = dirs_before and create_before = create_before and factor' = factor'] obtain m1 where
    m1: "AppendOperation io_ok OpCreateFile ?fs m = (True, m1)" "same_memory m m1" "\<not> fst (ma_Initialize True create_ok
      directory_exists entries (new_master dirs_before create_before (ma_disk m1) factor' (ma_directory m1)))" by blast
  then have "ok = False" "m' = m1"
    using assms(4,5,7,8) nocreate same_memory_fields [OF m1(2)] by (auto simp: ma_CreateFile_def on_namespace_def)
  then show ?thesis using m1(3) same_memory_fields [OF m1(2)] by simp
qed

theorem rejected_create_spoils_recovery_witness:
  "fst (ma_CreateFile io_ok ''/x/y'' 0 master_d) = False \<and>
   \<not> fst (ma_Initialize True True True [] (new_master True True
     (ma_disk (snd (ma_CreateFile io_ok ''/x/y'' 0 master_d))) 3
     (ma_directory (snd (ma_CreateFile io_ok ''/x/y'' 0 master_d)))))"
proof -
  have "\<not> ns_Exists ns_init ''/x/y''" by code_simp
  moreover have "IsValidPath ''/x/y'' \<and> SplitPath ''/x/y'' = [''x'', ''y'']" by code_simp
  then have "\<not> can_create ns_init ''/x/y''" by (simp add: can_create_def ns_view_init)
  moreover have "choose_factor 3 (length (hb_GetLiveServers hb_init)) 0 = Some 3"
    by (simp add: choose_factor_def Let_def hb_GetLiveServers_def hb_init_def)
  moreover have "unat (ol_last_sequence (ma_log master_d)) < log_capacity"
    using master_d_fields(4) by (simp add: logging_def log_holds_def log_capacity_def)
  ultimately show ?thesis
    using rejected_create_spoils_recovery [OF master_d_recoverable, of "''/x/y''" 0 3
        "fst (ma_CreateFile io_ok ''/x/y'' 0 master_d)" "snd (ma_CreateFile io_ok ''/x/y'' 0 master_d)"]
    by (simp add: master_d_fields)
qed

end
