(* ===== verification/Snapshots.thy ===== *)
theory Snapshots
  imports Consistency
begin

text \<open>
  What \<open>Master::CreateSnapshot\<close> of \<open>src/master/master.cpp\<close> achieves. In a consistent master it
  fails only before it has changed anything, so its roll-back never runs; when it succeeds the
  destination is a copy of the source subtree whose files share the chunks of the originals, and no
  lease on such a chunk is left.
\<close>

section \<open>Paths of the copies\<close>

lemma split_loop_path:
  "list_all proper_component (c # cs) \<Longrightarrow>
    split_loop (tl (concat (map (\<lambda>c. slash # c) (c # cs))) @ slash # rest) = (c # cs) @ split_loop rest"
proof (induction cs arbitrary: c)
  case Nil
  then show ?case using split_loop_step [of c rest] by (simp add: proper_component_def)
next
  case (Cons d ds)
  then have "split_loop (c @ slash # (d @ concat (map (\<lambda>c. slash # c) ds)) @ slash # rest) = c # (d # ds) @ split_loop rest"
    by (subst split_loop_step) (auto simp: proper_component_def)
  then show ?case by simp
qed

lemma path_of_append: "q \<noteq> [] \<Longrightarrow> path_of (p @ q) = (if p = [] then [] else path_of p) @ path_of q"
  by (simp add: path_of_def)

lemma prefix_path_of:
  assumes "list_all proper_component s" and "list_all proper_component p" and "s \<noteq> []"
  shows "prefix (path_of s @ ''/'') (path_of p) \<longleftrightarrow> strict_prefix s p"
proof
  assume "prefix (path_of s @ ''/'') (path_of p)"
  then obtain rest where rest: "path_of p = path_of s @ slash # rest" by (auto elim!: prefixE)
  obtain c cs where s: "s = c # cs" using assms(3) by (cases s) auto
  have "p \<noteq> []"
    using arg_cong [OF rest, of length] path_of_props(5) [OF assms(1,3)] by (auto simp: path_of_def [of "[]"])
  then obtain c' cs' where p: "p = c' # cs'" by (cases p) auto
  have "p = split_loop (tl (path_of p))"
    using split_loop_components [of c' cs'] assms(2) by (simp add: p path_of_def)
  also have "tl (path_of p) = tl (path_of s) @ slash # rest"
    using rest path_of_props(1) [OF assms(1)] by simp
  also have "split_loop \<dots> = s @ split_loop rest"
    using split_loop_path [of c cs rest] assms(1) by (simp add: s path_of_def)
  finally have pr: "p = s @ split_loop rest" .
  moreover have "p \<noteq> s" using rest by auto
  ultimately show "strict_prefix s p" by (metis prefixI prefix_order.less_le)
next
  assume "strict_prefix s p"
  then obtain q where q: "p = s @ q" "q \<noteq> []" by (auto elim: strict_prefixE')
  then have "hd (path_of q) = slash" "path_of q \<noteq> []"
    using path_of_props(1,2) [of q] assms(2) by auto
  then obtain rest where "path_of q = slash # rest" by (cases "path_of q") auto
  then have "path_of p = (path_of s @ ''/'') @ rest"
    using q assms(3) path_of_append [OF q(2), of s] by simp
  then show "prefix (path_of s @ ''/'') (path_of p)" by (rule prefixI)
qed

lemma destination_path:
  assumes "list_all proper_component (s @ q)" and "list_all proper_component d" and "q \<noteq> []" and "d \<noteq> []"
  shows "destination_for False (path_of s) (path_of d) (path_of (s @ q)) = path_of (d @ q)"
proof -
  have q: "list_all proper_component q" and s: "list_all proper_component s" using assms(1) by auto
  have hd: "path_of q = slash # tl (path_of q)"
    using path_of_props(1,2) [OF q] by (cases "path_of q") auto
  have "path_of (s @ q) \<noteq> path_of s"
    using SplitPath_path_of [OF assms(1)] SplitPath_path_of [OF s] assms(3) by auto
  moreover have "drop (length (snapshot_prefix (path_of s))) (path_of (s @ q)) = tl (path_of q)"
    using path_of_eq_root [OF s] path_of_append [OF assms(3), of s] hd
    by (cases "s = []") (auto simp: snapshot_prefix_def drop_Suc drop_append path_of_def)
  moreover have "path_of (d @ q) = path_of d @ slash # tl (path_of q)"
    using path_of_append [OF assms(3), of d] assms(4) hd by simp
  ultimately show ?thesis by (simp add: destination_for_def)
qed

lemma slash_count_path_of: "list_all proper_component p \<Longrightarrow> p \<noteq> [] \<Longrightarrow> slash_count (path_of p) = length p"
  using path_depth_path_of [of p] path_of_eq_root [of p] by (simp add: path_depth_def slash_count_def)

section \<open>The state in the middle of a snapshot\<close>

text \<open>
  A source subtree at address \<open>s\<close> is copied to \<open>d\<close>; \<open>D\<close> is the set of the relative addresses that
  are done.
\<close>

definition copy_view ::
    "node_ptr \<Rightarrow> node_ptr \<Rightarrow> node_ptr set \<Rightarrow> (node_ptr \<Rightarrow> node_type option) \<Rightarrow> node_ptr \<Rightarrow> node_type option" where
  "copy_view s d D v p = (if prefix d p \<and> drop (length d) p \<in> D then v (s @ drop (length d) p) else v p)"

definition copy_files ::
    "node_ptr \<Rightarrow> node_ptr \<Rightarrow> node_ptr set \<Rightarrow> (file_path \<Rightarrow> file_metadata option) \<Rightarrow> file_path \<Rightarrow> file_metadata option" where
  "copy_files s d D files path =
     (if IsValidPath path \<and> prefix d (SplitPath path) \<and> drop (length d) (SplitPath path) \<in> D
      then map_option (\<lambda>f. f\<lparr>fm_path := path\<rparr>) (files (path_of (s @ drop (length d) (SplitPath path))))
      else files path)"

definition unleased :: "node_ptr \<Rightarrow> node_ptr set \<Rightarrow> metadata \<Rightarrow> lease_manager \<Rightarrow> bool" where
  "unleased s D md lm \<longleftrightarrow>
     (\<forall>q \<in> D. \<forall>h \<in> set (md_GetFileChunks md (path_of (s @ q))). lm_GetLease lm h = None)"

definition snapshot_at :: "master \<Rightarrow> node_ptr \<Rightarrow> node_ptr \<Rightarrow> node_ptr set \<Rightarrow> master \<Rightarrow> bool" where
  "snapshot_at m0 s d D m \<longleftrightarrow> ma_inv m \<and>
     ns_view (ma_namespace m) = copy_view s d D (ns_view (ma_namespace m0)) \<and>
     md_GetFile (ma_metadata m) = copy_files s d D (md_GetFile (ma_metadata m0)) \<and>
     md_chunks (ma_metadata m) = md_chunks (ma_metadata m0) \<and>
     unleased s D (ma_metadata m0) (ma_leases m)"

lemma copy_view_insert:
  "v' = (copy_view s d D v)(d @ q := v (s @ q)) \<Longrightarrow> v' = copy_view s d (insert q D) v"
  by (rule ext) (auto simp: copy_view_def elim!: prefixE)

lemma copy_files_insert:
  assumes "list_all proper_component (d @ q)"
    and "fs' = (copy_files s d D fs)(path_of (d @ q) := map_option (\<lambda>f. f\<lparr>fm_path := path_of (d @ q)\<rparr>) (fs (path_of (s @ q))))"
  shows "fs' = copy_files s d (insert q D) fs"
proof
  fix path
  have "path = path_of (d @ q) \<longleftrightarrow> IsValidPath path \<and> prefix d (SplitPath path) \<and> drop (length d) (SplitPath path) = q"
    using IsValidPath_path_of [OF assms(1)] SplitPath_path_of [OF assms(1)] valid_path_split(1) [of path]
    by (auto elim!: prefixE)
  then show "fs' path = copy_files s d (insert q D) fs path"
    by (auto simp: assms(2) copy_files_def)
qed

fun parents_first :: "node_ptr set \<Rightarrow> node_ptr list \<Rightarrow> bool" where
  "parents_first D [] \<longleftrightarrow> True"
| "parents_first D (q # qs) \<longleftrightarrow> q \<noteq> [] \<and> q \<notin> D \<and> butlast q \<in> D \<and> parents_first (insert q D) qs"

lemma parents_first_sorted:
  "sorted (map length qs) \<Longrightarrow> distinct qs \<Longrightarrow> set qs \<inter> D = {} \<Longrightarrow> [] \<notin> set qs \<Longrightarrow>
    (\<forall>q \<in> set qs. butlast q \<in> D \<union> set qs) \<Longrightarrow> parents_first D qs"
proof (induction qs arbitrary: D)
  case (Cons q qs)
  have "length (butlast q) < length q" using Cons.prems(4) by (cases q rule: rev_cases) auto
  moreover have "\<forall>x \<in> set (q # qs). length q \<le> length x" using Cons.prems(1) by auto
  ultimately have "butlast q \<notin> set (q # qs)" by (meson linorder_not_le)
  then have "butlast q \<in> D" using Cons.prems(5) by auto
  moreover have "parents_first (insert q D) qs"
    by (rule Cons.IH) (use Cons.prems in auto)
  ultimately show ?case using Cons.prems(3,4) by auto
qed simp

section \<open>One step\<close>

definition snapshot_pair :: "master \<Rightarrow> node_ptr \<Rightarrow> node_ptr \<Rightarrow> bool" where
  "snapshot_pair m0 s d \<longleftrightarrow> ma_inv m0 \<and> ns_view (ma_namespace m0) d = None \<and> d \<noteq> [] \<and> list_all proper_component d"

lemma snapshot_pair_proper:
  assumes "snapshot_pair m0 s d" and "ns_view (ma_namespace m0) (s @ q) = Some t"
  shows "list_all proper_component (s @ q)" and "list_all proper_component (d @ q)"
    and "ns_view (ma_namespace m0) (d @ q) = None" and "\<not> prefix d (s @ q)"
proof -
  have ok: "ns_ok (ma_namespace m0)" using assms(1) by (auto simp: snapshot_pair_def ns_inv_def dest: ma_invD)
  show "list_all proper_component (s @ q)" by (rule ns_view_proper [OF ok assms(2)])
  then show "list_all proper_component (d @ q)" using assms(1) by (simp add: snapshot_pair_def)
  show "ns_view (ma_namespace m0) (d @ q) = None"
    using assms(1) by (auto simp: snapshot_pair_def intro: ns_view_append_None)
  show "\<not> prefix d (s @ q)"
    using assms ns_view_append_None [of "ma_namespace m0" d] by (auto simp: snapshot_pair_def prefix_def)
qed

lemma GetFile_IsFile:
  "ma_inv m \<Longrightarrow> md_GetFile (ma_metadata m) p \<noteq> None \<longleftrightarrow> IsValidPath p \<and> ns_view (ma_namespace m) (SplitPath p) = Some File"
  using ma_invD(3) [of m p] by (auto simp: md_GetFile_def md_FileExists_def ns_IsFile_view)

lemma snapshot_can_create:
  assumes "snapshot_pair m0 s d" and "snapshot_at m0 s d D m" and "ns_view (ma_namespace m0) (s @ q) = Some t"
    and "q \<noteq> []" and "q \<notin> D" and "butlast q \<in> D"
  shows "can_create (ma_namespace m) (path_of (d @ q))"
proof -
  note pr = snapshot_pair_proper [OF assms(1,3)]
  have view: "ns_view (ma_namespace m) = copy_view s d D (ns_view (ma_namespace m0))"
    using assms(2) by (simp add: snapshot_at_def)
  have "ns_view (ma_namespace m0) ((s @ butlast q) @ [last q]) \<noteq> None" using assms(3,4) by simp
  then have "ns_view (ma_namespace m0) (s @ butlast q) = Some Directory"
    using ns_view_parent [of "ma_namespace m0" "s @ butlast q" "last q"] assms(1)
    by (auto simp: snapshot_pair_def ns_inv_def dest: ma_invD)
  then show ?thesis
    using pr assms(4-6) IsValidPath_path_of [OF pr(2)] SplitPath_path_of [OF pr(2)] path_of_eq_root [OF pr(2)]
    by (simp add: can_create_def view copy_view_def butlast_append)
qed

lemma snapshot_directory_step:
  assumes "snapshot_pair m0 s d" and "snapshot_at m0 s d D m" and "ns_view (ma_namespace m0) (s @ q) = Some Directory"
    and "can_create (ma_namespace m) (path_of (d @ q))" and "q \<notin> D"
  shows "\<exists>ns. ns_CreateDirectory (ma_namespace m) (path_of (d @ q)) = (True, ns) \<and>
    snapshot_at m0 s d (insert q D) (m\<lparr>ma_namespace := ns\<rparr>)"
proof -
  note pr = snapshot_pair_proper [OF assms(1,3)]
  have inv: "ma_inv m" "ma_inv m0" using assms(1,2) by (auto simp: snapshot_at_def snapshot_pair_def)
  obtain ns where ns: "ns_CreateDirectory (ma_namespace m) (path_of (d @ q)) = (True, ns)"
      "ns_view ns = (ns_view (ma_namespace m))(d @ q \<mapsto> Directory)"
    using create_node_succeeds [OF ma_invD(2) [OF inv(1)] assms(4)]
    by (auto simp: ns_CreateDirectory_def SplitPath_path_of [OF pr(2)])
  have "ma_inv (m\<lparr>ma_namespace := ns\<rparr>)"
    using create_directory_core [of "ma_metadata m" "ma_namespace m" "path_of (d @ q)"] inv(1) ns(1) by (simp add: ma_inv_def)
  moreover have "ns_view ns = copy_view s d (insert q D) (ns_view (ma_namespace m0))"
    by (rule copy_view_insert) (use assms(2,3) ns(2) in \<open>simp add: snapshot_at_def\<close>)
  moreover have nofile: "md_GetFile (ma_metadata m0) (path_of (s @ q)) = None" "md_GetFile (ma_metadata m0) (path_of (d @ q)) = None"
    using GetFile_IsFile [OF inv(2), of "path_of (s @ q)"] GetFile_IsFile [OF inv(2), of "path_of (d @ q)"] assms(3) pr(3)
    by (auto simp: SplitPath_path_of [OF pr(1)] SplitPath_path_of [OF pr(2)])
  moreover have "copy_files s d D (md_GetFile (ma_metadata m0)) = copy_files s d (insert q D) (md_GetFile (ma_metadata m0))"
    by (rule copy_files_insert [OF pr(2)], rule ext)
      (use nofile assms(5) in \<open>simp add: copy_files_def SplitPath_path_of [OF pr(2)]\<close>)
  moreover have "md_GetFileChunks (ma_metadata m0) (path_of (s @ q)) = []"
    using nofile(1) by (simp add: md_GetFileChunks_def md_GetFile_def)
  ultimately show ?thesis using assms(2) ns(1) by (auto simp: snapshot_at_def unleased_def)
qed

lemma GetLease_release_all:
  "lm_GetLease (ma_leases (release_all hs m)) h = (if h \<in> set hs then None else lm_GetLease (ma_leases m) h)"
proof -
  have "lm_GetLease (ma_leases (fold (\<lambda>h m. snd (on_leases (\<lambda>lm. lm_ReleaseLease lm h) m)) hs m)) h =
      (if h \<in> set hs then None else lm_GetLease (ma_leases m) h)"
    by (induction hs arbitrary: m) (auto simp: lm_ReleaseLease_def lm_GetLease_def delete_conv')
  then show ?thesis by (simp add: release_all_def)
qed

lemma snapshot_file_step:
  assumes "snapshot_pair m0 s d" and "snapshot_at m0 s d D m" and "ns_view (ma_namespace m0) (s @ q) = Some File"
    and "can_create (ma_namespace m) (path_of (d @ q))" and "q \<notin> D"
  shows "\<exists>f ns md. md_GetFile (ma_metadata m) (path_of (s @ q)) = Some f \<and>
    ns_CreateFile (ma_namespace m) (path_of (d @ q)) = (True, ns) \<and>
    md_CloneFileMetadata (ma_metadata m) (path_of (s @ q)) (path_of (d @ q)) = (True, md) \<and>
    snapshot_at m0 s d (insert q D) (release_all (fm_chunk_handles f) (m\<lparr>ma_namespace := ns, ma_metadata := md\<rparr>))"
proof -
  note pr = snapshot_pair_proper [OF assms(1,3)]
  let ?src = "path_of (s @ q)" and ?dst = "path_of (d @ q)"
  have inv: "ma_inv m" "ma_inv m0" and files: "md_GetFile (ma_metadata m) = copy_files s d D (md_GetFile (ma_metadata m0))"
    using assms(1,2) by (auto simp: snapshot_at_def snapshot_pair_def)
  have srcdst: "SplitPath ?src = s @ q" "SplitPath ?dst = d @ q" "?src \<noteq> []" "?dst \<noteq> []"
    using SplitPath_path_of [OF pr(1)] SplitPath_path_of [OF pr(2)] path_of_props(1) [OF pr(1)]
      path_of_props(1) [OF pr(2)] by simp_all
  have "s @ q \<noteq> d @ q" using pr(4) by (metis prefixI)
  then have differ: "?src \<noteq> ?dst" using srcdst(1,2) by metis
  obtain f where f: "md_GetFile (ma_metadata m0) ?src = Some f"
    using GetFile_IsFile [OF inv(2), of ?src] assms(3) IsValidPath_path_of [OF pr(1)] srcdst(1) by auto
  have nofile: "md_GetFile (ma_metadata m0) ?dst = None"
    using GetFile_IsFile [OF inv(2), of ?dst] pr(3) srcdst(2) by auto
  then have get: "md_GetFile (ma_metadata m) ?src = Some f" "md_GetFile (ma_metadata m) ?dst = None"
    using f pr(4) srcdst(1,2) assms(5) by (simp_all add: files copy_files_def)
  obtain ns where ns: "ns_CreateFile (ma_namespace m) ?dst = (True, ns)"
      "ns_view ns = (ns_view (ma_namespace m))(d @ q \<mapsto> File)"
    using create_node_succeeds [OF ma_invD(2) [OF inv(1)] assms(4)] by (auto simp: ns_CreateFile_def srcdst(2))
  have "h \<noteq> 0 \<and> md_ChunkExists (ma_metadata m) h" if "h \<in> set (fm_chunk_handles f)" for h
    using that get(1) md_file_chunks [OF ma_invD(1) [OF inv(1)]] md_file_ok [OF ma_invD(1) [OF inv(1)]]
    by (fastforce simp: md_GetFile_def file_ok_def)
  then have md: "md_CloneFileMetadata (ma_metadata m) ?src ?dst = (True, md_put_file (ma_metadata m) ?dst (f\<lparr>fm_path := ?dst\<rparr>))"
    using get srcdst(3,4) differ by (auto simp: md_CloneFileMetadata_def md_GetFile_def md_FileExists_def list_all_iff Let_def)
  let ?m = "m\<lparr>ma_namespace := ns, ma_metadata := md_put_file (ma_metadata m) ?dst (f\<lparr>fm_path := ?dst\<rparr>)\<rparr>"
  have "ma_inv ?m" using clone_done [OF inv(1), of ?dst ?src] ns(1) md by simp
  then have "ma_inv (release_all (fm_chunk_handles f) ?m)" by (rule keeps_core_inv [OF keeps_core_release])
  moreover have "ns_view ns = copy_view s d (insert q D) (ns_view (ma_namespace m0))"
    by (rule copy_view_insert) (use assms(2,3) ns(2) in \<open>simp add: snapshot_at_def\<close>)
  moreover have "md_GetFile (md_put_file (ma_metadata m) ?dst (f\<lparr>fm_path := ?dst\<rparr>)) =
      copy_files s d (insert q D) (md_GetFile (ma_metadata m0))"
    by (rule copy_files_insert [OF pr(2)])
      (auto simp: f [unfolded md_GetFile_def] md_GetFile_def md_put_file_def files [symmetric] update_conv' fun_eq_iff)
  moreover have "unleased s (insert q D) (ma_metadata m0) (ma_leases (release_all (fm_chunk_handles f) ?m))"
    using assms(2) f by (auto simp: unleased_def snapshot_at_def GetLease_release_all md_GetFileChunks_def md_GetFile_def)
  ultimately show ?thesis using assms(2) get(1) ns(1) md by (simp add: snapshot_at_def)
qed

section \<open>The loop\<close>

definition relative :: "node_ptr \<Rightarrow> node_info \<Rightarrow> node_ptr" where
  "relative s info = drop (length s) (SplitPath (ni_path info))"

definition copied_nodes :: "node_ptr \<Rightarrow> node_info list \<Rightarrow> node_ptr list" where
  "copied_nodes s infos = map (relative s) (filter (\<lambda>info. ni_path info \<noteq> path_of s) infos)"

lemma snapshot_loop_copies:
  assumes "snapshot_pair m0 s d" and "snapshot_at m0 s d D m" and "parents_first D (copied_nodes s infos)"
    and "\<forall>info \<in> set infos. ni_path info \<noteq> path_of s \<longrightarrow> ni_path info = path_of (s @ relative s info) \<and>
      ns_view (ma_namespace m0) (s @ relative s info) = Some (ni_type info)"
  shows "\<exists>m'. snapshot_loop (path_of s) (path_of d) infos fs ds m = (True, m') \<and>
    snapshot_at m0 s d (D \<union> set (copied_nodes s infos)) m'"
  using assms(2-4)
proof (induction infos arbitrary: D fs ds m)
  case Nil
  then show ?case by (simp add: copied_nodes_def)
next
  case (Cons info infos)
  show ?case
  proof (cases "ni_path info = path_of s")
    case True
    then show ?thesis using Cons.IH [of D m fs ds] Cons.prems by (simp add: copied_nodes_def)
  next
    case False
    let ?q = "relative s info" and ?dst = "path_of (d @ relative s info)"
    have q: "ni_path info = path_of (s @ ?q)" "ns_view (ma_namespace m0) (s @ ?q) = Some (ni_type info)"
      using Cons.prems(3) False by auto
    have nodes: "copied_nodes s (info # infos) = ?q # copied_nodes s infos" using False by (simp add: copied_nodes_def)
    then have first: "?q \<noteq> []" "?q \<notin> D" "butlast ?q \<in> D" "parents_first (insert ?q D) (copied_nodes s infos)"
      using Cons.prems(2) by auto
    have dst: "destination_for False (path_of s) (path_of d) (ni_path info) = ?dst"
      using destination_path [of s ?q d] snapshot_pair_proper(1) [OF assms(1) q(2)] assms(1) first(1)
      by (simp add: q(1) [symmetric] snapshot_pair_def)
    note create = snapshot_can_create [OF assms(1) Cons.prems(1) q(2) first(1-3)]
    have rest: "\<exists>m'. snapshot_loop (path_of s) (path_of d) infos fs' ds' m1 = (True, m') \<and>
        snapshot_at m0 s d (D \<union> set (copied_nodes s (info # infos))) m'"
      if "snapshot_at m0 s d (insert ?q D) m1" for fs' ds' m1
      using Cons.IH [OF that first(4)] Cons.prems(3) by (simp add: nodes)
    show ?thesis
    proof (cases "ni_type info")
      case Directory
      then obtain ns where "ns_CreateDirectory (ma_namespace m) ?dst = (True, ns)"
          "snapshot_at m0 s d (insert ?q D) (m\<lparr>ma_namespace := ns\<rparr>)"
        using snapshot_directory_step [OF assms(1) Cons.prems(1) _ create first(2)] q(2) by auto
      then show ?thesis using rest False Directory dst by (simp add: Let_def on_namespace_def)
    next
      case File
      then obtain f ns md where "md_GetFile (ma_metadata m) (ni_path info) = Some f"
          "ns_CreateFile (ma_namespace m) ?dst = (True, ns)"
          "md_CloneFileMetadata (ma_metadata m) (ni_path info) ?dst = (True, md)"
          "snapshot_at m0 s d (insert ?q D) (release_all (fm_chunk_handles f) (m\<lparr>ma_namespace := ns, ma_metadata := md\<rparr>))"
        using snapshot_file_step [OF assms(1) Cons.prems(1) _ create first(2)] q by auto
      then show ?thesis using rest False File dst by (simp add: Let_def on_namespace_def on_metadata_def)
    qed
  qed
qed

text \<open>The nodes the loop runs over: the strict descendants of the source, parents first.\<close>

lemma affected_relative:
  assumes inv: "ns_inv ns" and s: "list_all proper_component s"
    and info: "info \<in> set (affected_nodes (path_of s) (ns_ExportNodes ns))" "ni_path info \<noteq> path_of s"
  shows "relative s info \<noteq> []" and "ni_path info = path_of (s @ relative s info)"
    and "ns_view ns (s @ relative s info) = Some (ni_type info)"
    and "slash_count (ni_path info) = length s + length (relative s info)"
proof -
  obtain p where p: "ns_view ns p = Some (ni_type info)" "ni_path info = path_of p"
    using info(1) by (auto simp: affected_nodes_def set_export [OF inv])
  then have proper: "list_all proper_component p" using ns_view_proper inv by (auto simp: ns_inv_def)
  have "prefix s p"
    using info p(2) prefix_path_of [OF s proper] path_of_eq_root [OF s]
    by (cases "s = []") (auto simp: affected_nodes_def snapshot_prefix_def split: if_splits)
  then have ps: "p = s @ relative s info"
    by (auto simp: relative_def p(2) SplitPath_path_of [OF proper] elim: prefixE)
  show "relative s info \<noteq> []" using ps p(2) info(2) by auto
  then show "slash_count (ni_path info) = length s + length (relative s info)"
    using slash_count_path_of [OF proper] p(2) ps by (metis append_is_Nil_conv length_append)
  show "ni_path info = path_of (s @ relative s info)" "ns_view ns (s @ relative s info) = Some (ni_type info)"
    using p ps by simp_all
qed

lemma copied_nodes_set:
  assumes inv: "ns_inv ns" and s: "list_all proper_component s"
  shows "q \<in> set (copied_nodes s (affected_nodes (path_of s) (ns_ExportNodes ns))) \<longleftrightarrow>
    q \<noteq> [] \<and> ns_view ns (s @ q) \<noteq> None"
proof
  assume "q \<noteq> [] \<and> ns_view ns (s @ q) \<noteq> None"
  then obtain t where t: "ns_view ns (s @ q) = Some t" and q: "q \<noteq> []" by auto
  have "ns_ok ns" using inv by (simp add: ns_inv_def)
  from ns_view_proper [OF this t] have proper: "list_all proper_component (s @ q)" .
  let ?i = "\<lparr>ni_path = path_of (s @ q), ni_type = t\<rparr>"
  have differ: "path_of (s @ q) \<noteq> path_of s"
    using SplitPath_path_of [OF proper] SplitPath_path_of [OF s] q by auto
  have "?i \<in> set (ns_ExportNodes ns)" using t by (auto simp: set_export [OF inv])
  moreover have "strict_prefix s (s @ q)" using q by (simp add: strict_prefix_def)
  ultimately have "?i \<in> set (affected_nodes (path_of s) (ns_ExportNodes ns))"
    using prefix_path_of [OF s proper] differ path_of_eq_root [OF s]
    by (cases "s = []") (auto simp: affected_nodes_def snapshot_prefix_def path_of_def [of "[]"])
  moreover have "relative s ?i = q" by (simp add: relative_def SplitPath_path_of [OF proper])
  ultimately show "q \<in> set (copied_nodes s (affected_nodes (path_of s) (ns_ExportNodes ns)))"
    using differ by (force simp: copied_nodes_def)
qed (use affected_relative [OF assms] in \<open>auto simp: copied_nodes_def\<close>)

lemma copied_nodes_parents_first:
  assumes inv: "ns_inv ns" and s: "list_all proper_component s" and dir: "ns_view ns s \<noteq> None"
  shows "parents_first {[]} (copied_nodes s (affected_nodes (path_of s) (ns_ExportNodes ns)))"
proof (rule parents_first_sorted)
  let ?infos = "filter (\<lambda>info. ni_path info \<noteq> path_of s) (affected_nodes (path_of s) (ns_ExportNodes ns))"
  let ?key = "\<lambda>info. (slash_count (ni_path info), ni_path info)"
  have "sorted (map ?key (affected_nodes (path_of s) (ns_ExportNodes ns)))" by (simp add: affected_nodes_def)
  then have "sorted (map ?key ?infos)" by (rule sorted_filter)
  then have "sorted (map (\<lambda>info. fst (?key info)) ?infos)" by (rule sorted_map_fst)
  moreover have "map (\<lambda>info. fst (?key info)) ?infos = map (\<lambda>n. length s + n) (map length (map (relative s) ?infos))"
    using affected_relative(4) [OF inv s] by simp
  ultimately show "sorted (map length (copied_nodes s (affected_nodes (path_of s) (ns_ExportNodes ns))))"
    unfolding copied_nodes_def by (simp only: sorted_map sorted_wrt_map) (simp add: sorted_wrt_iff_nth_less)
  have "distinct (map ni_path (affected_nodes (path_of s) (ns_ExportNodes ns)))"
    using distinct_export [OF inv] by (auto simp: affected_nodes_def distinct_map elim!: inj_on_subset split: if_splits)
  then have "distinct (map ni_path ?infos)" by (rule distinct_map_filter)
  moreover have "map ni_path ?infos = map path_of (map ((@) s) (copied_nodes s (affected_nodes (path_of s) (ns_ExportNodes ns))))"
    using affected_relative(2) [OF inv s] by (simp add: copied_nodes_def)
  ultimately show "distinct (copied_nodes s (affected_nodes (path_of s) (ns_ExportNodes ns)))"
    by (metis distinct_map)
  show "\<forall>q \<in> set (copied_nodes s (affected_nodes (path_of s) (ns_ExportNodes ns))).
      butlast q \<in> {[]} \<union> set (copied_nodes s (affected_nodes (path_of s) (ns_ExportNodes ns)))"
  proof
    fix q
    assume "q \<in> set (copied_nodes s (affected_nodes (path_of s) (ns_ExportNodes ns)))"
    then have "ns_view ns ((s @ butlast q) @ [last q]) \<noteq> None" by (simp add: copied_nodes_set [OF inv s])
    then have "ns_view ns (s @ butlast q) \<noteq> None"
      using ns_view_parent [of ns "s @ butlast q" "last q"] inv by (auto simp: ns_inv_def)
    then show "butlast q \<in> {[]} \<union> set (copied_nodes s (affected_nodes (path_of s) (ns_ExportNodes ns)))"
      by (auto simp: copied_nodes_set [OF inv s])
  qed
qed (auto simp: copied_nodes_set [OF inv s])

section \<open>The whole snapshot\<close>

lemma snapshot_pair_paths:
  assumes "ma_inv m" and "ns_Exists (ma_namespace m) src" and "can_create (ma_namespace m) dst"
  shows "snapshot_pair m (SplitPath src) (SplitPath dst)" "path_of (SplitPath src) = src" "path_of (SplitPath dst) = dst"
    "list_all proper_component (SplitPath src)" "ns_view (ma_namespace m) (SplitPath src) \<noteq> None"
    "src \<noteq> dst" "src \<noteq> []" "dst \<noteq> []"
  using assms valid_path_split [of dst] valid_path_split [of src]
  by (auto simp: snapshot_pair_def can_create_def ns_Exists_view IsValidPath_def)

lemma CreateSnapshotInternal_fails:
  "\<not> can_create (ma_namespace m) dst \<Longrightarrow> CreateSnapshotInternal src dst m = (False, m)"
  using create_node_fails [of "ma_namespace m" dst]
  by (auto simp: CreateSnapshotInternal_def snapshot_file_def ns_CreateFile_def ns_CreateDirectory_def on_namespace_def
      Let_def split: option.splits)

text \<open>Once every relative address of the source is done, the destination is a copy of it.\<close>

definition snapshot_of :: "master \<Rightarrow> string \<Rightarrow> string \<Rightarrow> master \<Rightarrow> bool" where
  "snapshot_of m0 src dst m \<longleftrightarrow>
     ns_view (ma_namespace m) = copy_view (SplitPath src) (SplitPath dst) UNIV (ns_view (ma_namespace m0)) \<and>
     md_GetFile (ma_metadata m) = copy_files (SplitPath src) (SplitPath dst) UNIV (md_GetFile (ma_metadata m0)) \<and>
     md_chunks (ma_metadata m) = md_chunks (ma_metadata m0) \<and>
     (\<forall>path h. IsValidPath path \<longrightarrow> prefix (SplitPath src) (SplitPath path) \<longrightarrow>
        h \<in> set (md_GetFileChunks (ma_metadata m0) path) \<longrightarrow> lm_GetLease (ma_leases m) h = None)"

lemma snapshot_at_done:
  assumes "ma_inv m0" and "ns_Exists (ma_namespace m0) src" and "can_create (ma_namespace m0) dst"
    and at: "snapshot_at m0 (SplitPath src) (SplitPath dst) D m"
    and D: "\<And>q. q \<in> D \<longleftrightarrow> ns_view (ma_namespace m0) (SplitPath src @ q) \<noteq> None"
  shows "snapshot_of m0 src dst m"
proof -
  let ?s = "SplitPath src" and ?d = "SplitPath dst"
  note pair = snapshot_pair_paths [OF assms(1-3)]
  have nod: "ns_view (ma_namespace m0) (?d @ q) = None" for q
    using pair(1) by (auto simp: snapshot_pair_def intro: ns_view_append_None)
  have nofile: "md_GetFile (ma_metadata m0) p = None"
    if "IsValidPath p" "ns_view (ma_namespace m0) (SplitPath p) = None" for p
    using that GetFile_IsFile [OF assms(1), of p] by auto
  have "copy_view ?s ?d D (ns_view (ma_namespace m0)) p = copy_view ?s ?d UNIV (ns_view (ma_namespace m0)) p" for p
    using D nod by (auto simp: copy_view_def elim!: prefixE)
  moreover have "copy_files ?s ?d D (md_GetFile (ma_metadata m0)) p = copy_files ?s ?d UNIV (md_GetFile (ma_metadata m0)) p" for p
  proof (cases "IsValidPath p \<and> prefix ?d (SplitPath p)")
    case True
    then obtain q where q: "SplitPath p = ?d @ q" by (auto elim: prefixE)
    then have "list_all proper_component (?s @ q)"
      using valid_path_split(2) [of p] True pair(4) by simp
    then have "q \<notin> D \<Longrightarrow> md_GetFile (ma_metadata m0) (path_of (?s @ q)) = None"
      using nofile [of "path_of (?s @ q)"] D [of q] IsValidPath_path_of SplitPath_path_of by simp
    moreover have "md_GetFile (ma_metadata m0) p = None" using nofile [of p] nod True q by simp
    ultimately show ?thesis using q by (auto simp: copy_files_def)
  qed (auto simp: copy_files_def)
  moreover have "lm_GetLease (ma_leases m) h = None"
    if "IsValidPath path" "prefix ?s (SplitPath path)" "h \<in> set (md_GetFileChunks (ma_metadata m0) path)" for path h
  proof -
    obtain q where q: "SplitPath path = ?s @ q" using \<open>prefix ?s (SplitPath path)\<close> by (auto elim: prefixE)
    have "md_GetFile (ma_metadata m0) path \<noteq> None"
      using that(3) by (cases "map_of (md_files (ma_metadata m0)) path") (auto simp: md_GetFileChunks_def md_GetFile_def)
    then have "q \<in> D" using nofile [of path] that(1) D [of q] q by auto
    moreover have "path = path_of (?s @ q)" using valid_path_split(1) [OF that(1)] q by simp
    ultimately show ?thesis using at that(3) by (auto simp: snapshot_at_def unleased_def)
  qed
  ultimately show ?thesis using at by (auto simp: snapshot_of_def snapshot_at_def)
qed

lemma copies_nothing:
  "copy_view s d {} v = v" "copy_files s d {} fs = fs"
  by (auto simp: copy_view_def copy_files_def fun_eq_iff)

lemma snapshot_at_start: "ma_inv m \<Longrightarrow> snapshot_at m s d {} m"
  by (simp add: snapshot_at_def unleased_def copies_nothing)

lemma CreateSnapshotInternal_copies:
  assumes inv: "ma_inv m" and src: "ns_Exists (ma_namespace m) src" and dst: "can_create (ma_namespace m) dst"
  shows "\<exists>m'. CreateSnapshotInternal src dst m = (True, m') \<and> snapshot_of m src dst m'"
proof -
  let ?s = "SplitPath src" and ?d = "SplitPath dst" and ?ns = "ma_namespace m"
  note pair = snapshot_pair_paths [OF assms] and start = snapshot_at_start [OF inv]
  have nsinv: "ns_inv ?ns" using inv by (rule ma_invD)
  have create: "can_create ?ns (path_of (?d @ []))" using dst pair(3) by simp
  show ?thesis
  proof (cases "ns_view ?ns ?s")
    case (Some t)
    show ?thesis
    proof (cases t)
      case File
      then have isfile: "ns_IsFile ?ns src" using Some src by (simp add: ns_IsFile_view ns_Exists_view)
      have view: "ns_view ?ns (?s @ []) = Some File" using Some File by simp
      from snapshot_file_step [OF pair(1) start view create] obtain f ns md where
          "md_GetFile (ma_metadata m) src = Some f" "ns_CreateFile ?ns dst = (True, ns)"
          "md_CloneFileMetadata (ma_metadata m) src dst = (True, md)"
          and at: "snapshot_at m ?s ?d {[]} (release_all (fm_chunk_handles f) (m\<lparr>ma_namespace := ns, ma_metadata := md\<rparr>))"
        using pair(2,3) by auto
      moreover have "q \<in> {[]} \<longleftrightarrow> ns_view ?ns (?s @ q) \<noteq> None" for q
      proof (cases q)
        case (Cons c cs)
        have "ns_view ?ns (?s @ [c]) = None"
          using ns_view_parent [of ?ns ?s c] nsinv view by (fastforce simp: ns_inv_def)
        then show ?thesis using ns_view_append_None [of ?ns "?s @ [c]" cs] Cons by simp
      qed (use view in simp)
      ultimately have "snapshot_of m src dst (release_all (fm_chunk_handles f) (m\<lparr>ma_namespace := ns, ma_metadata := md\<rparr>))"
        using snapshot_at_done [OF assms at] by blast
      moreover have "\<exists>i \<in> set (ns_ExportNodes ?ns). ni_path i = src"
        using set_export [OF nsinv, of "\<lparr>ni_path = src, ni_type = File\<rparr>"] Some File pair(2) by (metis node_info.select_convs)
      then have "find (\<lambda>info. ni_path info = src) (ns_ExportNodes ?ns) \<noteq> None" by (auto simp: find_None_iff)
      ultimately show ?thesis
        using isfile \<open>md_GetFile (ma_metadata m) src = Some f\<close> \<open>ns_CreateFile ?ns dst = (True, ns)\<close>
          \<open>md_CloneFileMetadata (ma_metadata m) src dst = (True, md)\<close>
        by (auto simp: CreateSnapshotInternal_def snapshot_file_def on_namespace_def on_metadata_def Let_def)
    next
      case Directory
      then have isdir: "\<not> ns_IsFile ?ns src" using Some by (simp add: ns_IsFile_view)
      have view: "ns_view ?ns (?s @ []) = Some Directory" using Some Directory by simp
      let ?infos = "affected_nodes src (ns_ExportNodes ?ns)"
      from snapshot_directory_step [OF pair(1) start view create] obtain ns where
          ns: "ns_CreateDirectory ?ns dst = (True, ns)" "snapshot_at m ?s ?d {[]} (m\<lparr>ma_namespace := ns\<rparr>)"
        using pair(3) by auto
      have "\<exists>m'. snapshot_loop (path_of ?s) (path_of ?d) ?infos [] [dst] (m\<lparr>ma_namespace := ns\<rparr>) = (True, m') \<and>
          snapshot_at m ?s ?d ({[]} \<union> set (copied_nodes ?s ?infos)) m'"
      proof (rule snapshot_loop_copies [OF pair(1) ns(2)])
        show "parents_first {[]} (copied_nodes ?s ?infos)"
          using copied_nodes_parents_first [OF nsinv pair(4,5)] pair(2) by simp
        show "\<forall>info \<in> set ?infos. ni_path info \<noteq> path_of ?s \<longrightarrow> ni_path info = path_of (?s @ relative ?s info) \<and>
            ns_view ?ns (?s @ relative ?s info) = Some (ni_type info)"
          using affected_relative(2,3) [OF nsinv pair(4)] pair(2) by simp
      qed
      then obtain m' where loop: "snapshot_loop src dst ?infos [] [dst] (m\<lparr>ma_namespace := ns\<rparr>) = (True, m')"
          and at: "snapshot_at m ?s ?d ({[]} \<union> set (copied_nodes ?s ?infos)) m'" using pair(2,3) by auto
      have "q \<in> {[]} \<union> set (copied_nodes ?s ?infos) \<longleftrightarrow> ns_view ?ns (?s @ q) \<noteq> None" for q
        using copied_nodes_set [OF nsinv pair(4), of q] pair(2) view by auto
      from snapshot_at_done [OF assms at this] show ?thesis
        using ns(1) isdir loop by (simp add: CreateSnapshotInternal_def Let_def on_namespace_def)
    qed
  qed (use pair(5) in simp)
qed

lemma CreateSnapshot_done:
  assumes inv: "ma_inv m" and can: "ns_Exists (ma_namespace m) src" "can_create (ma_namespace m) dst"
    and r: "ma_CreateSnapshot io src dst m = (ok, m')"
  shows "ok \<longleftrightarrow> fst (AppendOperation io OpCreateSnapshot [src, dst] m)" and "ok \<Longrightarrow> snapshot_of m src dst m'"
    and "\<not> ok \<Longrightarrow> m' = snd (AppendOperation io OpCreateSnapshot [src, dst] m)"
proof -
  let ?a = "AppendOperation io OpCreateSnapshot [src, dst] m"
  have "ma_CreateSnapshot io src dst m = and_then ?a (CreateSnapshotInternal src dst)"
    using can snapshot_pair_paths(6-8) [OF inv can] by (auto simp: ma_CreateSnapshot_def can_create_def ns_Exists_view IsRootPath_def)
  moreover obtain m2 where "CreateSnapshotInternal src dst (snd ?a) = (True, m2)" "snapshot_of (snd ?a) src dst m2"
    using CreateSnapshotInternal_copies [of "snd ?a" src dst] inv can by auto
  moreover have "snapshot_of (snd ?a) src dst m2 = snapshot_of m src dst m2" by (simp add: snapshot_of_def)
  ultimately have "(ok \<longleftrightarrow> fst ?a) \<and> (ok \<longrightarrow> snapshot_of m src dst m') \<and> (\<not> ok \<longrightarrow> m' = snd ?a)"
    using r by (cases "fst ?a") (auto simp: and_then_eq)
  then show "ok \<longleftrightarrow> fst ?a" "ok \<Longrightarrow> snapshot_of m src dst m'" "\<not> ok \<Longrightarrow> m' = snd ?a" by blast+
qed

lemma CreateSnapshot_refused:
  assumes "\<not> (ns_Exists (ma_namespace m) src \<and> can_create (ma_namespace m) dst)"
    and r: "ma_CreateSnapshot io src dst m = (ok, m')"
  shows "\<not> ok" and "m' = m \<or> m' = snd (AppendOperation io OpCreateSnapshot [src, dst] m)"
    and "ns_Exists (ma_namespace m) src \<Longrightarrow> src \<noteq> [] \<Longrightarrow> dst \<noteq> [] \<Longrightarrow> \<not> IsRootPath dst \<Longrightarrow> \<not> ns_Exists (ma_namespace m) dst \<Longrightarrow>
      m' = snd (AppendOperation io OpCreateSnapshot [src, dst] m)"
proof -
  have "ns_view (ma_namespace m) (SplitPath dst) \<noteq> None" if "ns_Exists (ma_namespace m) dst"
    using that by (simp add: ns_Exists_view)
  then have "\<not> ok \<and> (m' = m \<or> m' = snd (AppendOperation io OpCreateSnapshot [src, dst] m)) \<and>
      (ns_Exists (ma_namespace m) src \<longrightarrow> src \<noteq> [] \<longrightarrow> dst \<noteq> [] \<longrightarrow> \<not> IsRootPath dst \<longrightarrow> \<not> ns_Exists (ma_namespace m) dst \<longrightarrow>
        m' = snd (AppendOperation io OpCreateSnapshot [src, dst] m))"
    using assms CreateSnapshotInternal_fails [of "snd (AppendOperation io OpCreateSnapshot [src, dst] m)" dst src]
    by (auto simp: ma_CreateSnapshot_def and_then_eq split: if_splits)
  then show "\<not> ok" "m' = m \<or> m' = snd (AppendOperation io OpCreateSnapshot [src, dst] m)"
      "ns_Exists (ma_namespace m) src \<Longrightarrow> src \<noteq> [] \<Longrightarrow> dst \<noteq> [] \<Longrightarrow> \<not> IsRootPath dst \<Longrightarrow> \<not> ns_Exists (ma_namespace m) dst \<Longrightarrow>
        m' = snd (AppendOperation io OpCreateSnapshot [src, dst] m)" by blast+
qed

text \<open>After a snapshot of one file both files list the same chunks and have the same size.\<close>

lemma snapshot_shares_chunks:
  assumes inv: "ma_inv m" and r: "ma_CreateSnapshot io src dst m = (True, m')"
  shows "md_GetFile (ma_metadata m') src = md_GetFile (ma_metadata m) src"
    and "md_GetFile (ma_metadata m') dst = map_option (\<lambda>f. f\<lparr>fm_path := dst\<rparr>) (md_GetFile (ma_metadata m) src)" and "src \<noteq> dst"
proof -
  have can: "ns_Exists (ma_namespace m) src" "can_create (ma_namespace m) dst" using CreateSnapshot_refused(1) [OF _ r] by blast+
  note pair = snapshot_pair_paths [OF inv can]
  obtain t where "ns_view (ma_namespace m) (SplitPath src @ []) = Some t" using pair(5) by auto
  then have "\<not> prefix (SplitPath dst) (SplitPath src @ [])" by (rule snapshot_pair_proper(4) [OF pair(1)])
  moreover have "md_GetFile (ma_metadata m') = copy_files (SplitPath src) (SplitPath dst) UNIV (md_GetFile (ma_metadata m))"
    using CreateSnapshot_done(2) [OF inv can r] by (simp add: snapshot_of_def)
  moreover have "IsValidPath dst" using can(2) by (simp add: can_create_def)
  ultimately show "md_GetFile (ma_metadata m') src = md_GetFile (ma_metadata m) src" "src \<noteq> dst"
      "md_GetFile (ma_metadata m') dst = map_option (\<lambda>f. f\<lparr>fm_path := dst\<rparr>) (md_GetFile (ma_metadata m) src)"
    using pair(2,6) by (simp_all add: copy_files_def)
qed

section \<open>Properties\<close>

text \<open>C3: in a consistent master a snapshot succeeds exactly when the source exists, the destination can be
  created and the log takes the record. Then the subtree at the destination has the shape of the
  source as it was, each of its files lists the chunks of the original, everything else is as
  before, and no chunk of a copied file has a lease left. A call that fails changes nothing in
  memory, so there is nothing to roll back; but it may have been written to the log. That is so
  whenever the source exists and the destination does not: the record is appended before the code
  finds out that the parent of the destination is missing (see \<open>rejected_snapshot_spoils_recovery\<close>
  in Lifecycle for what the next start makes of it).\<close>
theorem snapshot_copies_subtree:
  assumes "ma_inv m" and "ma_CreateSnapshot io src dst m = (ok, m')"
  shows "(ok \<longleftrightarrow> ns_Exists (ma_namespace m) src \<and> can_create (ma_namespace m) dst \<and>
      fst (AppendOperation io OpCreateSnapshot [src, dst] m)) \<and>
    (ok \<longrightarrow> snapshot_of m src dst m') \<and>
    (\<not> ok \<longrightarrow> same_memory m m' \<and> (m' = m \<or> m' = snd (AppendOperation io OpCreateSnapshot [src, dst] m))) \<and>
    (\<not> ok \<longrightarrow> ns_Exists (ma_namespace m) src \<longrightarrow> dst \<noteq> [] \<longrightarrow> \<not> ns_Exists (ma_namespace m) dst \<longrightarrow>
      m' = snd (AppendOperation io OpCreateSnapshot [src, dst] m))"
proof (cases "ns_Exists (ma_namespace m) src \<and> can_create (ma_namespace m) dst")
  case True
  then show ?thesis
    using CreateSnapshot_done [OF assms(1) _ _ assms(2)] AppendOperation_memory [of m io OpCreateSnapshot "[src, dst]"] by auto
next
  case False
  note refused = CreateSnapshot_refused [OF False assms(2)]
  have "src \<noteq> []" if "ns_Exists (ma_namespace m) src" using that by (auto simp: ns_Exists_view IsValidPath_def)
  moreover have "\<not> IsRootPath dst" if "\<not> ns_Exists (ma_namespace m) dst"
    using that ma_invD(2) [OF assms(1)] by (auto simp: IsRootPath_def ns_Exists_view ns_inv_def)
  ultimately show ?thesis
    using refused AppendOperation_memory [of m io OpCreateSnapshot "[src, dst]"] False by auto
qed

theorem snapshot_copies_subtree_witness:
  "md_GetFileChunks (ma_metadata (snd (ma_CreateSnapshot io_ok ''/f'' ''/s'' sample_master))) ''/s'' = [1] \<and>
   fst (ma_CreateSnapshot io_ok ''/f'' ''/s'' sample_master)"
proof -
  have inv: "ma_inv sample_master" by (rule masters.reachable_inv) (rule sample_master_reachable)
  have ok: "fst (ma_CreateSnapshot io_ok ''/f'' ''/s'' sample_master)" by code_simp
  have paths: "IsValidPath ''/s''" "SplitPath ''/s'' = [''s'']" "SplitPath ''/f'' = [''f'']" by code_simp+
  have "snapshot_of sample_master ''/f'' ''/s'' (snd (ma_CreateSnapshot io_ok ''/f'' ''/s'' sample_master))"
    using snapshot_copies_subtree [OF inv prod.collapse [symmetric]] ok by blast
  then have "md_GetFile (ma_metadata (snd (ma_CreateSnapshot io_ok ''/f'' ''/s'' sample_master))) ''/s'' =
      Some \<lparr>fm_path = ''/s'', fm_size = 0, fm_replication_factor = 3, fm_chunk_handles = [1]\<rparr>"
    using paths by (simp add: snapshot_of_def copy_files_def path_of_def md_GetFile_def sample_master_eq)
  then show ?thesis using ok by (simp add: md_GetFileChunks_def md_GetFile_def)
qed

end
