(* ===== verification/Lifecycle.thy ===== *)
theory Lifecycle
  imports Restart Snapshots
begin

text \<open>
  The whole life of a master, the part \<open>Restart\<close> leaves out included: operations that fail after
  they were logged, appends that fail half way, starts that fail. \<open>MasterServer::Start\<close> of
  \<open>src/network/master_server.cpp\<close> calls \<open>Initialize\<close> on a new master and serves when it returned
  true. Whatever the log holds, a master that serves knows the same files in its namespace and in
  its metadata: each record redone keeps that, and each checkpoint was taken from such a state.

  The last section is the other side: a snapshot that is rejected has already been logged, and the
  record makes every later start fail.
\<close>

section \<open>What an operation does to the files\<close>

text \<open>At most the log is written, at its path, and it is neither opened nor closed.\<close>

definition logs_only :: "master \<Rightarrow> master \<Rightarrow> bool" where
  "logs_only m m' \<longleftrightarrow> ma_directory m' = ma_directory m \<and> ol_path (ma_log m') = ol_path (ma_log m) \<and>
     ol_open (ma_log m') = ol_open (ma_log m) \<and>
     (\<forall>p. \<not> (ol_open (ma_log m) \<and> p = ol_path (ma_log m)) \<longrightarrow> ma_disk m' p = ma_disk m p)"

lemma logs_only_refl [simp]: "logs_only m m"
  by (simp add: logs_only_def)

lemma logs_only_sym: "logs_only m m' \<Longrightarrow> logs_only m' m"
  by (simp add: logs_only_def)

lemma logs_only_trans: "logs_only a b \<Longrightarrow> logs_only b c \<Longrightarrow> logs_only a c"
  by (simp add: logs_only_def)

lemma logs_only_log_part: "log_part m' = log_part m \<Longrightarrow> logs_only a m' = logs_only a m"
  by (simp add: logs_only_def log_part_def)

lemma logs_only_updates [simp]:
  "logs_only a (m\<lparr>ma_metadata := md\<rparr>) = logs_only a m" "logs_only a (m\<lparr>ma_namespace := ns\<rparr>) = logs_only a m"
  "logs_only a (m\<lparr>ma_replicas := t\<rparr>) = logs_only a m" "logs_only a (m\<lparr>ma_leases := lm\<rparr>) = logs_only a m"
  "logs_only a (m\<lparr>ma_heartbeats := hb\<rparr>) = logs_only a m" "logs_only a (m\<lparr>ma_orphans := oc\<rparr>) = logs_only a m"
  by (simp_all add: logs_only_def)

lemma ol_Append_frame:
  assumes "ol_Append outcome fs log ty payload = (b, log', fs')"
  shows "ol_path log' = ol_path log" "ol_open log' = ol_open log"
    "\<not> (ol_open log \<and> p = ol_path log) \<Longrightarrow> fs' p = fs p"
  using assms
  by (auto simp: ol_Append_def ol_AppendAt_def WriteRecord_def Let_def split: if_splits write_outcome.splits)

lemma logs_only_append: "logs_only m (snd (AppendOperation io ty strs m))"
proof -
  obtain b log fs where a: "ol_Append (ai_append io) (ma_disk m) (ma_log m) ty (EncodeFields strs) = (b, log, fs)"
    by (metis prod.exhaust)
  note frame = ol_Append_frame [OF a]
  have "logs_only m (m\<lparr>ma_log := log, ma_disk := fs\<rparr>)" using frame by (simp add: logs_only_def)
  moreover have "logs_only m (m\<lparr>ma_log := log, ma_disk := snd (ol_Flush opened flushed fs log)\<rparr>)" for opened flushed
    using frame by (auto simp: logs_only_def ol_Flush_def split: option.splits)
  ultimately show ?thesis
    using a by (cases b) (auto simp: AppendOperation_def case_prod_beta)
qed

lemma logs_only_AppendOperation [simp]: "logs_only a (snd (AppendOperation io ty strs m)) = logs_only a m"
  using logs_only_append logs_only_sym logs_only_trans by blast

lemma logs_only_keeps_core: "keeps_core f \<Longrightarrow> logs_only a (f m) = logs_only a m"
  by (rule logs_only_log_part) (rule log_part_keeps_core)

lemmas logs_only_loops [simp] =
  logs_only_keeps_core [OF keeps_core_fold [of mark_if_last, OF keeps_core_mark]]
  logs_only_keeps_core [OF keeps_core_fold [of forget_if_unreferenced, OF keeps_core_forget]]
  logs_only_keeps_core [OF keeps_core_forget_chunk] logs_only_keeps_core [OF keeps_core_release]
  logs_only_keeps_core [OF keeps_core_release_if]
  logs_only_log_part [OF log_part_CreateSnapshotInternal] logs_only_log_part [OF log_part_drop_copy]
  logs_only_log_part [OF place_loop_core(3)]

lemma logs_only_copy_chunk: "logs_only m (snd (copy_chunk io clone path i source_handle c replicas h m))"
proof -
  obtain registered primary m1 where r: "register_copy h replicas False m = ((registered, primary), m1)"
    by (metis prod.exhaust)
  have "log_part m1 = log_part m" using keeps_coreD [OF keeps_core_register_copy [of h replicas False], of m] r
    by (simp add: log_part_def)
  then have "logs_only m m1" using logs_only_log_part by fastforce
  then show ?thesis by (simp add: copy_chunk_def r case_pair_bool Let_def)
qed

lemma logs_only_PrepareCopyOnWrite: "logs_only m (snd (ma_PrepareCopyOnWrite io clone path i m))"
proof -
  have "logs_only m (snd (copy_chunk io clone path i g c replicas h (m\<lparr>ma_metadata := md\<rparr>)))" for g c replicas h md
    using logs_only_trans [OF _ logs_only_copy_chunk, of m "m\<lparr>ma_metadata := md\<rparr>"] by simp
  then show ?thesis by (simp add: ma_PrepareCopyOnWrite_def case_pair_bool Let_def split: option.splits)
qed

lemma unlogged_logs_only: "ma_inv m \<Longrightarrow> unlogged opr \<Longrightarrow> logs_only m (snd (ma_exec opr m))"
  using unlogged_quiet [of m opr] logs_only_log_part [of "snd (ma_exec opr m)" m m] by (simp add: quiet_def)

lemma exec_logs_only:
  assumes "ma_inv m" and "\<not> is_checkpoint opr"
  shows "logs_only m (snd (ma_exec opr m))"
proof (cases "unlogged opr")
  case False
  then show ?thesis
    using assms(2) logs_only_PrepareCopyOnWrite
    by (cases opr)
      (simp_all add: ma_CreateFile_def ma_DeleteFile_def ma_RenameFile_def ma_CreateDirectory_def ma_UpdateFileSize_def
        ma_CreateSnapshot_def ma_SetChunkVersion_def ma_SetChunkSize_def ma_AllocateChunk_def ma_AddChunkToFile_def
        ma_RemoveChunkFromFile_def ma_GarbageCollectChunk_def and_then_eq case_pair_bool case_prod_beta Let_def
        split: option.splits)
qed (rule unlogged_logs_only [OF assms(1)])

section \<open>Redoing keeps the files in agreement\<close>

lemma replay_keeps_tables: "replay_keeps m m' \<Longrightarrow> tables_inv m \<Longrightarrow> tables_inv m'"
  by (simp add: replay_keeps_def tables_inv_def)

lemma redo_metadata_inv:
  assumes inv: "ma_inv m" and "\<And>md. md_inv md \<Longrightarrow> md_inv (snd (f md))" and "\<And>md p. md_FileExists (snd (f md)) p = md_FileExists md p"
  shows "ma_inv (snd (on_metadata f m))"
  using ma_inv_metadata [OF inv, of "snd (f (ma_metadata m))"] assms ma_invD(1) [OF inv] by simp

lemma redo_chunk_ops_inv:
  assumes "ma_inv m"
  shows "ma_inv (snd (redo_AllocateChunk fs m))" "ma_inv (snd (redo_UpdateFileSize fs m))"
    "ma_inv (snd (redo_SetChunkVersion fs m))" "ma_inv (snd (redo_AddChunkToFile fs m))"
    "ma_inv (snd (redo_RemoveChunkFromFile fs m))" "ma_inv (snd (redo_DeleteChunk fs m))"
    "ma_inv (snd (redo_SetChunkSize fs m))"
  using assms
  by (auto simp: redo_AllocateChunk_def redo_UpdateFileSize_def redo_SetChunkVersion_def redo_AddChunkToFile_def
      redo_RemoveChunkFromFile_def redo_DeleteChunk_def redo_SetChunkSize_def Let_def simp del: on_snd
      split: list.splits option.splits intro!: redo_metadata_inv inv_intros)

lemma ReplayCopyOnWrite_inv:
  assumes inv: "ma_inv m"
  shows "ma_inv (snd (ReplayCopyOnWrite fs m))"
proof -
  have alloc: "ma_inv (snd (on_metadata (\<lambda>md. md_AllocateStandaloneChunk md h v sz) m))" for h v sz
    by (rule redo_metadata_inv [OF inv]) (auto intro: inv_intros)
  moreover have "ma_inv (snd (on_metadata (\<lambda>md. md_ReplaceChunkInFile md path i h) m'))" if "ma_inv m'" for m' path i h
    by (rule redo_metadata_inv [OF that]) (auto intro: inv_intros)
  ultimately show ?thesis
    using inv by (auto simp: ReplayCopyOnWrite_def and_then_eq Let_def simp del: on_snd split: list.splits option.splits)
qed

lemma redo_CreateFile_inv:
  assumes inv: "ma_inv m" and "fst (redo_CreateFile fs m)"
  shows "ma_inv (snd (redo_CreateFile fs m))"
proof -
  have "ma_inv (snd r)" if new: "\<not> ns_Exists (ma_namespace m) path" and ok: "fst r"
    and r: "r = and_then (on_namespace (\<lambda>ns. ns_CreateFile ns path) m) (on_metadata (\<lambda>md. md_CreateFile md path rf))"
    for path rf r
  proof -
    have "\<not> ns_IsFile (ma_namespace m) path" using new by (auto simp: ns_IsFile_view ns_Exists_view)
    then show ?thesis
      using create_file_core(2) [of "ma_metadata m" "ma_namespace m" path rf] inv ok
      by (auto simp: r ma_inv_def and_then_eq split: if_splits)
  qed
  then show ?thesis
    using assms by (auto simp: redo_CreateFile_def split: list.splits option.splits if_splits)
qed

lemma redo_DeleteFile_inv: "ma_inv m \<Longrightarrow> ma_inv (snd (redo_DeleteFile fs m))"
proof -
  assume inv: "ma_inv m"
  have "ma_inv (snd (and_then (on_metadata (\<lambda>md. md_DeleteFile md path) m) (on_namespace (\<lambda>ns. ns_DeleteFile ns path))))"
    if "md_FileExists (ma_metadata m) path" for path
    using delete_file_core [of "ma_metadata m" "ma_namespace m" path] inv that
    by (auto simp: ma_inv_def and_then_eq FileExists_DeleteFile)
  then show ?thesis
    using inv ma_invD(3) [OF inv] by (auto simp: redo_DeleteFile_def Let_def simp del: on_snd split: list.splits)
qed

lemma redo_RenameFile_inv:
  assumes inv: "ma_inv m"
  shows "ma_inv (snd (redo_RenameFile fs m))"
proof -
  have "ma_inv (snd (and_then (on_namespace (\<lambda>ns. ns_Rename ns src dst) m) (on_metadata (\<lambda>md. md_RenameFile md src dst))))"
    if "ns_IsFile (ma_namespace m) src" for src dst
    using rename_core(2) [of "ma_metadata m" "ma_namespace m" src dst] inv that
      ns_Rename_unchanged [OF ma_invD(2) [OF inv], of src dst]
    by (auto simp: ma_inv_def and_then_eq)
  then show ?thesis using inv by (auto simp: redo_RenameFile_def simp del: on_snd split: list.splits)
qed

lemma redo_CreateDirectory_inv: "ma_inv m \<Longrightarrow> ma_inv (snd (redo_CreateDirectory fs m))"
  by (auto simp: redo_CreateDirectory_def ma_inv_def create_directory_core split: list.splits)

lemma redo_CreateSnapshot_inv: "ma_inv m \<Longrightarrow> ma_inv (snd (redo_CreateSnapshot fs m))"
  by (auto simp: redo_CreateSnapshot_def CreateSnapshotInternal_inv split: list.splits)

lemma ReplayOperation_inv:
  assumes "ma_inv m" and "fst (ReplayOperation r m)"
  shows "ma_inv (snd (ReplayOperation r m))"
proof -
  have "ma_inv (snd (redo_operation ty fs m))" if "fst (redo_operation ty fs m)" for ty fs
    using assms(1) that redo_chunk_ops_inv ReplayCopyOnWrite_inv redo_CreateFile_inv redo_DeleteFile_inv redo_RenameFile_inv
      redo_CreateDirectory_inv redo_CreateSnapshot_inv
    by (cases ty) simp_all
  then show ?thesis using assms by (simp add: ReplayOperation_def split: option.splits)
qed

lemma replay_loop_inv: "ma_inv m \<Longrightarrow> fst (replay_loop rs m) \<Longrightarrow> ma_inv (snd (replay_loop rs m))"
  by (induction rs arbitrary: m) (auto simp: and_then_eq intro: ReplayOperation_inv split: if_splits)

lemma replay_from_inv:
  assumes "ma_inv m" and "fst (replay_from s m)"
  shows "ma_inv (snd (replay_from s m))"
  using replay_loop_inv [OF assms(1), of "ol_Replay (ma_disk m) (ma_log m) s"] assms
  by (auto simp: replay_from_def and_then_eq ma_inv_def tables_inv_def rm_Clear_def oc_Clear_def rm_inv_init split: if_splits)

lemma replay_from_keeps:
  assumes "tables_inv m"
  shows "log_part (snd (replay_from s m)) = log_part m" "tables_inv (snd (replay_from s m))"
proof -
  let ?y = "snd (replay_loop (ol_Replay (ma_disk m) (ma_log m) s) m)"
  have "replay_keeps m ?y" by (rule replay_keeps_loop)
  then have "log_part ?y = log_part m" "tables_inv ?y" using assms replay_keeps_tables by (auto simp: replay_keeps_def)
  then show "log_part (snd (replay_from s m)) = log_part m" "tables_inv (snd (replay_from s m))"
    by (simp_all add: replay_from_def and_then_eq tables_inv_def rm_Clear_def oc_Clear_def rm_inv_init)
qed

section \<open>The checkpoints of a directory\<close>

text \<open>A state whose restoring gives namespace and metadata that agree.\<close>

definition sound_checkpoint :: "checkpoint_state \<Rightarrow> bool" where
  "sound_checkpoint st \<longleftrightarrow>
     (\<forall>md ns md' ns'. ck_Restore st md ns = (True, md', ns') \<longrightarrow> core_inv md' ns')"

definition checkpoints_sound :: "files \<Rightarrow> file_path \<Rightarrow> bool" where
  "checkpoints_sound fs dir \<longleftrightarrow>
     (\<forall>name s st. candidate_sequence name = Some s \<longrightarrow>
        ck_Load fs (path_div dir name) = Some st \<longrightarrow> sound_checkpoint st)"

lemma checkpoints_sound_file:
  assumes "checkpoints_sound fs dir"
    and "\<And>name s. candidate_sequence name = Some s \<Longrightarrow> fs' (path_div dir name) = fs (path_div dir name)"
  shows "checkpoints_sound fs' dir"
  unfolding checkpoints_sound_def
proof (intro allI impI)
  fix name s st
  assume c: "candidate_sequence name = Some s" and "ck_Load fs' (path_div dir name) = Some st"
  then have "ck_Load fs (path_div dir name) = Some st" using assms(2) [OF c] by (simp add: ck_Load_def)
  then show "sound_checkpoint st" using assms(1) c by (auto simp: checkpoints_sound_def)
qed

lemma LoadLatest_sound:
  assumes "checkpoints_sound fs dir" and "ck_LoadLatest directory_exists entries fs dir = Some st"
  shows "sound_checkpoint st"
proof -
  have "load_first fs dir (ck_candidates entries) = Some st"
    using assms(2) by (simp add: ck_LoadLatest_def split: if_splits)
  from load_first_Some [OF this] obtain pre s name post where
    "ck_candidates entries = pre @ (s, name) # post" and load: "ck_Load fs (path_div dir name) = Some st" by blast
  then have "(s, name) \<in> set (ck_candidates entries)" by simp
  then have "candidate_sequence name = Some s" using set_candidates by blast
  then show ?thesis using assms(1) load by (auto simp: checkpoints_sound_def)
qed

text \<open>A checkpoint of a state in agreement is sound, and so are the other files after taking it.\<close>

lemma own_checkpoint_sound:
  assumes "ma_inv m" and "storable_master m"
  defines "st \<equiv> checkpoint_state_of (ma_metadata m) (ma_namespace m) (ol_last_sequence (ma_log m))"
  shows "sound_checkpoint st" and "Deserialize (Serialize st) = Some st"
proof -
  let ?md = "ma_metadata m" and ?ns = "ma_namespace m"
  have files: "files_in_namespace ?md ?ns" using ma_invD(3) [OF assms(1)] by (auto simp: files_in_namespace_def)
  have last: "\<not> md_ChunkExists ?md u64_max" using assms(2) by (simp add: storable_master_def Let_def)
  have "ValidateState st" unfolding st_def by (rule ValidateState_export [OF ma_invD(2,1) [OF assms(1)] files])
  then show "Deserialize (Serialize st) = Some st"
    using read_back assms(2) by (simp add: st_def storable_master_def Let_def)
  show "sound_checkpoint st"
    unfolding sound_checkpoint_def
  proof (intro allI impI)
    fix md ns md' ns'
    assume r: "ck_Restore st md ns = (True, md', ns')"
    from Restore_checkpoint [OF ma_invD(2,1) [OF assms(1)] files last, of "ol_last_sequence (ma_log m)" md ns] r
    have r': "ns_view ns' = ns_view ?ns" "ns_inv ns'" "durable_eq md' ?md" "md_inv md'" by (auto simp: st_def)
    then have "same_durable m (m\<lparr>ma_metadata := md', ma_namespace := ns'\<rparr>)"
      using ma_invD(1,2) [OF assms(1)] by (auto simp: same_durable_def md_same_def ns_same_def intro: durable_eq_sym)
    from same_durable_core [OF assms(1) this] show "core_inv md' ns'" by simp
  qed
qed

lemma CreateCheckpoint_sound:
  assumes inv: "ma_inv m" and store: "storable_master m" and sound: "checkpoints_sound (ma_disk m) (ma_directory m)"
  shows "checkpoints_sound (ma_disk (snd (ma_CreateCheckpoint io m))) (ma_directory m)"
proof (cases "ma_directory m = [] \<or> \<not> ol_open (ma_log m)")
  case False
  let ?dir = "ma_directory m" and ?n = "ol_last_sequence (ma_log m)"
  let ?st = "checkpoint_state_of (ma_metadata m) (ma_namespace m) ?n" and ?name = "''checkpoint_'' @ to_string ?n @ ''.bin''"
  obtain ok fs where cr: "ck_Create io (ma_disk m) ?dir (ma_metadata m) (ma_namespace m) ?n = (ok, fs)" by fastforce
  have "checkpoints_sound fs ?dir"
    unfolding checkpoints_sound_def
  proof (intro allI impI)
    fix name s st
    assume c: "candidate_sequence name = Some s" and l: "ck_Load fs (path_div ?dir name) = Some st"
    have "name \<noteq> ''LATEST''" "name \<noteq> ?name @ ''.tmp''"
      using c by (auto simp: candidate_sequence_def Let_def split: if_splits)
    then have n: "path_div ?dir name \<noteq> path_div ?dir ''LATEST''" "path_div ?dir name \<noteq> GetCheckpointPath ?dir ?n @ ''.tmp''"
      by (auto simp: GetCheckpointPath_def path_div_def)
    have old: "sound_checkpoint st" if "fs (path_div ?dir name) = ma_disk m (path_div ?dir name)"
      using that l sound c by (auto simp: checkpoints_sound_def ck_Load_def)
    show "sound_checkpoint st"
    proof (cases "path_div ?dir name = GetCheckpointPath ?dir ?n")
      case True
      from Create_files(2) [OF cr n True] consider "fs (path_div ?dir name) = ma_disk m (path_div ?dir name)"
        | "fs (path_div ?dir name) = Some (Serialize ?st)" | "fs (path_div ?dir name) = None" by argo
      then show ?thesis
      proof cases
        case 2
        then have "st = ?st" using l own_checkpoint_sound(2) [OF inv store] by (simp add: ck_Load_def)
        then show ?thesis using own_checkpoint_sound(1) [OF inv store] by simp
      qed (use old l in \<open>simp_all add: ck_Load_def\<close>)
    next
      case False
      then show ?thesis using old Create_files(1) [OF cr n] by blast
    qed
  qed
  then show ?thesis using False cr by (simp add: ma_CreateCheckpoint_def)
qed (use sound in \<open>simp add: ma_CreateCheckpoint_def\<close>)

section \<open>Lifetimes with failures\<close>

text \<open>
  The states of a master over its directory, with a flag: whether it serves. A constructed master
  does, \<open>Initialize\<close> serves when it returns true, and may be called again on what a failed call
  left. A serving master executes any operation, whatever the file system does to it, except
  that a checkpoint must fit its format. At any moment the process may end and a new master start
  on the files it leaves.
\<close>

inductive lifecycle :: "files \<Rightarrow> file_path \<Rightarrow> bool \<Rightarrow> master \<Rightarrow> bool" for fs dir where
  construct: "lifecycle fs dir True (new_master dirs_ok create_ok fs factor dir)"
| operation: "lifecycle fs dir True m \<Longrightarrow> (is_checkpoint opr \<longrightarrow> storable_master m) \<Longrightarrow>
    lifecycle fs dir True (snd (ma_exec opr m))"
| initialize: "lifecycle fs dir up m \<Longrightarrow> ma_Initialize dirs_ok create_ok directory_exists entries m = (ok, m') \<Longrightarrow>
    lifecycle fs dir ok m'"
| restart: "lifecycle fs dir up m \<Longrightarrow> lifecycle fs dir True (new_master dirs_ok create_ok (ma_disk m) factor dir)"

definition lifecycle_inv :: "file_path \<Rightarrow> bool \<Rightarrow> master \<Rightarrow> bool" where
  "lifecycle_inv dir up m \<longleftrightarrow> ma_directory m = dir \<and> tables_inv m \<and>
     (ol_open (ma_log m) \<longrightarrow> ol_path (ma_log m) = operation_log_path dir) \<and> checkpoints_sound (ma_disk m) dir \<and>
     (up \<or> dir = [] \<longrightarrow> core_inv (ma_metadata m) (ma_namespace m))"

lemma lifecycle_inv_ma_inv: "lifecycle_inv dir True m \<Longrightarrow> ma_inv m"
  by (simp add: lifecycle_inv_def ma_inv_def)

lemma log_not_checkpoint: "candidate_sequence name = Some s \<Longrightarrow> operation_log_path dir \<noteq> path_div dir name"
  using candidate_not_log by metis

lemma open_log_inv:
  assumes "open_log dirs_ok create_ok m = (ok, m')" and "lifecycle_inv dir up m"
  shows "lifecycle_inv dir up m'" and "same_memory m m'"
proof -
  obtain log fs where op: "ol_Open dirs_ok create_ok (ma_disk m) (ma_log m) (operation_log_path (ma_directory m)) = (ok, log, fs)"
    and m': "m' = m\<lparr>ma_log := log, ma_disk := fs\<rparr>" using assms(1) by (auto simp: open_log_def split: prod.splits)
  then have "ol_path log = operation_log_path (ma_directory m)" and
    other: "\<And>p. p \<noteq> operation_log_path (ma_directory m) \<Longrightarrow> fs p = ma_disk m p"
    unfolding ol_Open_eq by (auto split: if_splits option.splits)
  moreover have "checkpoints_sound fs dir"
  proof (rule checkpoints_sound_file)
    show "checkpoints_sound (ma_disk m) dir" using assms(2) by (simp add: lifecycle_inv_def)
    show "fs (path_div dir name) = ma_disk m (path_div dir name)" if "candidate_sequence name = Some s" for name s
      using other assms(2) log_not_checkpoint [OF that, of dir] by (simp add: lifecycle_inv_def)
  qed
  ultimately show "lifecycle_inv dir up m'"
    using assms(2) by (simp add: m' lifecycle_inv_def tables_inv_def)
  show "same_memory m m'" by (auto simp: same_memory_def m')
qed

lemma new_master_lifecycle:
  assumes "checkpoints_sound fs dir"
  shows "lifecycle_inv dir True (new_master dirs_ok create_ok fs factor dir)"
proof -
  define z where "z = \<lparr>ma_metadata = md_init, ma_namespace = ns_init, ma_replicas = rm_init,
      ma_policy = PlacementPolicy (unat factor), ma_leases = lm_init, ma_heartbeats = hb_init, ma_orphans = {},
      ma_directory = dir, ma_log = OperationLog [], ma_disk = fs\<rparr>"
  have new: "new_master dirs_ok create_ok fs factor dir = (if dir \<noteq> [] then snd (open_log dirs_ok create_ok z) else z)"
    by (simp add: new_master_def z_def)
  have "ma_inv (new_master True True fs factor [])" by (rule new_master_inv)
  then have "core_inv md_init ns_init" "tables_inv z" by (auto simp: new_master_def ma_inv_def tables_inv_def z_def)
  then have "lifecycle_inv dir True z" using assms by (simp add: lifecycle_inv_def z_def OperationLog_def)
  then show ?thesis using open_log_inv(1) [of dirs_ok create_ok z "fst (open_log dirs_ok create_ok z)" _ dir True] new
    by (cases "dir = []") simp_all
qed

lemma operation_lifecycle:
  assumes "lifecycle_inv dir True m" and "is_checkpoint opr \<longrightarrow> storable_master m"
  shows "lifecycle_inv dir True (snd (ma_exec opr m))"
proof -
  note inv = lifecycle_inv_ma_inv [OF assms(1)]
  have inv': "ma_inv (snd (ma_exec opr m))" by (rule masters.inv_exec [OF inv])
  have m: "ma_directory m = dir" "ol_open (ma_log m) \<longrightarrow> ol_path (ma_log m) = operation_log_path dir"
    "checkpoints_sound (ma_disk m) dir" using assms(1) by (simp_all add: lifecycle_inv_def)
  show ?thesis
  proof (cases "is_checkpoint opr")
    case True
    then obtain io where opr: "opr = MaCreateCheckpoint io" by (cases opr) simp_all
    have "ma_directory (snd (ma_CreateCheckpoint io m)) = dir" "ma_log (snd (ma_CreateCheckpoint io m)) = ma_log m"
      using m(1) by (simp_all add: ma_CreateCheckpoint_def case_prod_beta)
    then show ?thesis
      using inv' m CreateCheckpoint_sound [OF inv, of io] assms(2) by (simp add: opr lifecycle_inv_def ma_inv_def)
  next
    case False
    have logs: "logs_only m (snd (ma_exec opr m))" by (rule exec_logs_only [OF inv False])
    have "checkpoints_sound (ma_disk (snd (ma_exec opr m))) dir"
    proof (rule checkpoints_sound_file [OF m(3)])
      fix name s
      assume "candidate_sequence name = Some s"
      then show "ma_disk (snd (ma_exec opr m)) (path_div dir name) = ma_disk m (path_div dir name)"
        using logs m(2) log_not_checkpoint [of name s dir] by (auto simp: logs_only_def)
    qed
    then show ?thesis using inv' m logs by (simp add: lifecycle_inv_def logs_only_def ma_inv_def)
  qed
qed

lemma replay_from_lifecycle:
  assumes "lifecycle_inv dir up m" and "ok \<Longrightarrow> core_inv (ma_metadata m) (ma_namespace m)" and "dir \<noteq> []"
    and "replay_from s m = (ok, m')"
  shows "lifecycle_inv dir ok m'"
proof -
  have tab: "tables_inv m" using assms(1) by (simp add: lifecycle_inv_def)
  have "core_inv (ma_metadata m') (ma_namespace m')" if ok
    using replay_from_inv [of m s] assms(2) [OF that] that assms(4) tab by (simp add: ma_inv_def)
  then show ?thesis
    using replay_from_keeps [OF tab, of s] assms(1,3,4) by (simp add: lifecycle_inv_def log_part_def)
qed

lemma Initialize_lifecycle:
  assumes inv: "lifecycle_inv dir up m" and init: "ma_Initialize dirs_ok create_ok directory_exists entries m = (ok, m')"
  shows "lifecycle_inv dir ok m'"
proof (cases "dir = []")
  case True
  then show ?thesis using inv init by (simp add: ma_Initialize_def lifecycle_inv_def)
next
  case False
  obtain opened m1 where op: "(if ol_open (ma_log m) then (True, m) else open_log dirs_ok create_ok m) = (opened, m1)" by fastforce
  have inv1: "lifecycle_inv dir up m1"
    using op inv open_log_inv(1) [of dirs_ok create_ok m opened m1 dir up] by (simp split: if_splits)
  then have down: "lifecycle_inv dir False m1" using False by (simp add: lifecycle_inv_def)
  have dir: "ma_directory m = dir" "ma_directory m1 = dir" using inv inv1 by (simp_all add: lifecycle_inv_def)
  show ?thesis
  proof (cases "opened \<and> ol_Validate (ma_disk m1) (ma_log m1)")
    case no: False
    then show ?thesis using init op down dir False by (auto simp: ma_Initialize_def and_then_eq split: if_splits)
  next
    case True
    show ?thesis
    proof (cases "ck_LoadLatest directory_exists entries (ma_disk m1) dir")
      case None
      let ?x = "m1\<lparr>ma_metadata := md_Clear (ma_metadata m1), ma_namespace := ns_Clear (ma_namespace m1)\<rparr>"
      have "ma_inv (new_master True True empty_disk 3 [])" by (rule new_master_inv)
      then have core: "core_inv (ma_metadata ?x) (ma_namespace ?x)"
        by (simp add: new_master_def ma_inv_def md_Clear_def ns_Clear_def)
      have "lifecycle_inv dir False ?x" using down False by (simp add: lifecycle_inv_def tables_inv_def)
      moreover have "replay_from 0 ?x = (ok, m')" using init op True None dir False by (simp add: ma_Initialize_def)
      ultimately show ?thesis using replay_from_lifecycle core False by blast
    next
      case (Some st)
      obtain restored md ns where r: "ck_Restore st (ma_metadata m1) (ma_namespace m1) = (restored, md, ns)"
        by (metis prod.exhaust)
      let ?x = "m1\<lparr>ma_metadata := md, ma_namespace := ns\<rparr>"
      have x: "lifecycle_inv dir False ?x" using down False by (simp add: lifecycle_inv_def tables_inv_def)
      have "checkpoints_sound (ma_disk m1) dir" using inv1 by (simp add: lifecycle_inv_def)
      then have core: "restored \<Longrightarrow> core_inv md ns"
        using LoadLatest_sound [OF _ Some] r by (auto simp: sound_checkpoint_def)
      have "(ok, m') = (if ck_sequence st > ol_last_sequence (ma_log m1) then (False, m1)
          else and_then (restored, ?x) (replay_from (ck_sequence st)))"
        using init op True Some r dir False
        by (cases "ck_sequence st > ol_last_sequence (ma_log m1)") (simp_all add: ma_Initialize_def)
      then consider "ok = False" "m' = m1" | "ok = False" "m' = ?x" | "restored" "replay_from (ck_sequence st) ?x = (ok, m')"
        by (cases restored) (auto split: if_splits)
      then show ?thesis
        using down x core replay_from_lifecycle [OF x _ False, of ok "ck_sequence st" m'] by cases simp_all
    qed
  qed
qed

lemma lifecycle_keeps_inv: "lifecycle fs dir up m \<Longrightarrow> checkpoints_sound fs dir \<Longrightarrow> lifecycle_inv dir up m"
proof (induction rule: lifecycle.induct)
  case (restart up m dirs_ok create_ok factor)
  then have "checkpoints_sound (ma_disk m) dir" by (simp add: lifecycle_inv_def)
  then show ?case by (rule new_master_lifecycle)
qed (auto intro: new_master_lifecycle operation_lifecycle Initialize_lifecycle)

section \<open>A snapshot that is rejected\<close>

text \<open>\<open>CreateSnapshot\<close> writes its record before it finds out that the destination cannot be created. The
  call fails and changes nothing in memory, but no start from the files it leaves succeeds.\<close>
lemma rejected_snapshot_spoils_recovery:
  assumes "recoverable m" and "unat (ol_last_sequence (ma_log m)) < log_capacity" and len: "length src < 2 ^ 30" "length dst < 2 ^ 30"
    and src: "ns_Exists (ma_namespace m) src" and dst: "dst \<noteq> []" "\<not> ns_Exists (ma_namespace m) dst" "\<not> can_create (ma_namespace m) dst"
    and r: "ma_CreateSnapshot io_ok src dst m = (ok, m')"
  shows "\<not> ok \<and> same_memory m m' \<and> \<not> fst (ma_Initialize True create_ok directory_exists entries
    (new_master dirs_before create_before (ma_disk m') factor' (ma_directory m')))"
proof -
  have inv: "ma_inv m" using assms(1) by (simp add: recoverable_def)
  have "length (EncodeFields [src, dst]) < 2 ^ 32" using len by simp
  moreover have "\<not> fst (redo_operation OpCreateSnapshot [src, dst] m)"
    using dst CreateSnapshotInternal_fails [of m dst src] by (simp add: redo_CreateSnapshot_def)
  ultimately obtain m1 where
    m1: "AppendOperation io_ok OpCreateSnapshot [src, dst] m = (True, m1)" "same_memory m m1"
      "\<not> fst (ma_Initialize True create_ok directory_exists entries
        (new_master dirs_before create_before (ma_disk m1) factor' (ma_directory m1)))"
    using spoiled_log [OF assms(1,2), of "[src, dst]" OpCreateSnapshot create_ok directory_exists entries dirs_before create_before factor']
    by blast
  have "\<not> (ns_Exists (ma_namespace m) src \<and> can_create (ma_namespace m) dst)" using dst(3) by blast
  note refused = CreateSnapshot_refused [OF this r]
  have "src \<noteq> []" using src by (auto simp: ns_Exists_view IsValidPath_def)
  moreover have "\<not> IsRootPath dst" using dst(2) ma_invD(2) [OF inv] by (auto simp: IsRootPath_def ns_Exists_view ns_inv_def)
  ultimately have "m' = m1" using refused(3) src dst(1,2) m1(1) by simp
  then show ?thesis using refused(1) m1(2,3) by simp
qed

section \<open>Properties\<close>

text \<open>C2: whatever happened to a master since it was constructed over a directory that holds no checkpoint yet
  (its log may hold anything): operations of any kind that succeeded or failed at any point, appends and
  checkpoints the file system broke off, the end of the process, starts that failed and starts that
  succeeded. As long as it serves, a path is a file of the metadata exactly when it is a file of the
  namespace; the chunks a file lists exist, none twice; and of the replicas of a chunk no
  two are on one server and at most one is the primary. Two limits: a checkpoint is only taken when
  its content fits the size fields of the format and the last 64-bit handle is not in use; and
  an object whose \<open>Initialize\<close> returned false does not serve until another call returns true.\<close>
theorem namespace_and_metadata_agree:
  assumes "lifecycle fs dir True m"
    and "\<And>name s. candidate_sequence name = Some s \<Longrightarrow> ck_Load fs (path_div dir name) = None"
  shows "(md_GetFile (ma_metadata m) path \<noteq> None \<longleftrightarrow> ma_FileExists m path) \<and>
    distinct (md_GetFileChunks (ma_metadata m) path) \<and>
    (h \<in> set (md_GetFileChunks (ma_metadata m) path) \<longrightarrow> md_GetChunk (ma_metadata m) h \<noteq> None) \<and>
    distinct (map ri_server (rm_GetReplicas (ma_replicas m) h)) \<and>
    length (filter ri_primary (rm_GetReplicas (ma_replicas m) h)) \<le> 1"
proof -
  have "checkpoints_sound fs dir" using assms(2) by (simp add: checkpoints_sound_def)
  then have inv: "ma_inv m" using lifecycle_inv_ma_inv [OF lifecycle_keeps_inv [OF assms(1)]] by blast
  have "md_GetFile (ma_metadata m) path \<noteq> None \<longleftrightarrow> ma_FileExists m path"
    using ma_invD(3) [OF inv, of path] by (auto simp: md_GetFile_def md_FileExists_def ma_FileExists_def ns_IsFile_view ns_Exists_view)
  moreover have "distinct (md_GetFileChunks (ma_metadata m) path)"
    using md_file_ok [OF ma_invD(1) [OF inv], of path] by (auto simp: md_GetFileChunks_def file_ok_def split: option.splits)
  moreover have "md_GetChunk (ma_metadata m) h \<noteq> None" if "h \<in> set (md_GetFileChunks (ma_metadata m) path)"
    using that md_file_chunks [OF ma_invD(1) [OF inv], of path _ h]
    by (cases "map_of (md_files (ma_metadata m)) path") (auto simp: md_GetFileChunks_def md_GetChunk_def md_ChunkExists_def)
  moreover have "distinct (map ri_server (rm_GetReplicas (ma_replicas m) h))"
      "length (filter ri_primary (rm_GetReplicas (ma_replicas m) h)) \<le> 1"
    using rm_inv_lookup [OF ma_inv_tablesD(1) [OF inv], of h] by (auto simp: rm_GetReplicas_def replicas_ok_def split: option.splits)
  ultimately show ?thesis by blast
qed

text \<open>A file created before a restart, and looked up after it.\<close>

theorem namespace_and_metadata_agree_witness:
  "\<exists>m'. ma_Initialize True False True [''operation.log'']
      (new_master False False (ma_disk (snd (ma_exec (MaCreateFile io_ok ''/f'' 0) master_d))) 3 ''d'') = (True, m') \<and>
    md_GetFile (ma_metadata m') ''/f'' \<noteq> None"
proof -
  let ?m = "snd (ma_exec (MaCreateFile io_ok ''/f'' 0) master_d)"
  have "length (EncodeFields [''/f'', to_string32 3]) < 2 ^ 32" using length_to_string32 [of 3] by simp
  from append_succeeds [OF master_d_fields(4) _ this, of OpCreateFile] obtain m1 where
    m1: "AppendOperation io_ok OpCreateFile [''/f'', to_string32 3] master_d = (True, m1)" "same_memory master_d m1"
    by (auto simp: log_capacity_def)
  have mk: "fst (ns_CreateFile ns_init ''/f'')" "ns_view (snd (ns_CreateFile ns_init ''/f'')) [''f''] = Some File"
    "\<not> ns_Exists ns_init ''/f''" "fst (md_CreateFile md_init ''/f'' 3)" "IsValidPath ''/f'' \<and> SplitPath ''/f'' = [''f'']"
    by code_simp+
  have "choose_factor 3 (length (hb_GetLiveServers hb_init)) 0 = Some 3"
    by (simp add: choose_factor_def Let_def hb_GetLiveServers_def hb_init_def)
  then have ok: "fst (ma_exec (MaCreateFile io_ok ''/f'' 0) master_d)" "ns_view (ma_namespace ?m) [''f''] = Some File"
    using m1 same_memory_fields [OF m1(2)] mk by (simp_all add: ma_CreateFile_def master_d_fields and_then_eq case_pair_bool)
  have cl: "clean (MaCreateFile io_ok ''/f'' 0) master_d"
    using ok(1) master_d_fields(4) by (simp add: clean_def whole_def io_ok_def log_capacity_def logging_def log_holds_def)
  have life: "lifecycle empty_disk ''d'' True ?m"
    unfolding master_d_def by (rule lifecycle.operation [OF lifecycle.construct]) simp
  have dir: "ma_directory ?m = ''d''"
    using exec_logs_only [of master_d "MaCreateFile io_ok ''/f'' 0"] master_d_recoverable master_d_fields(3)
    by (simp add: logs_only_def recoverable_def)
  from Initialize_recovers [OF clean_recoverable [OF master_d_recoverable cl], of False True "[''operation.log'']" False False 3]
  obtain m' where m': "ma_Initialize True False True [''operation.log''] (new_master False False (ma_disk ?m) 3 ''d'') = (True, m')"
    "same_durable ?m m'" unfolding dir by blast
  from lifecycle.initialize [OF lifecycle.restart [OF life] m'(1)] have "lifecycle empty_disk ''d'' True m'" .
  moreover have "ck_Load empty_disk (path_div ''d'' name) = None" for name by (simp add: ck_Load_def empty_disk_def)
  ultimately have "md_GetFile (ma_metadata m') ''/f'' \<noteq> None \<longleftrightarrow> ma_FileExists m' ''/f''"
    using namespace_and_metadata_agree [of empty_disk "''d''" m' "''/f''" 0] by blast
  moreover have "ma_FileExists m' ''/f''"
    using ns_sameD(3) [OF same_durableD(2) [OF m'(2)]] ok(2) mk(5) by (auto simp: ma_FileExists_def ns_IsFile_view ns_Exists_view)
  ultimately show ?thesis using m'(1) by blast
qed

end
