(* ===== verification/CopyOnWrite.thy ===== *)
theory CopyOnWrite
  imports Recovery
begin

text \<open>
  What \<open>Master::PrepareCopyOnWrite\<close> of \<open>src/master/master.cpp\<close> promises the writer of a chunk that
  a snapshot shares: after it the chunk at the given index belongs to the file alone. Any answer of
  the file system to the append and of the servers to the copying is allowed.
\<close>

section \<open>Undoing\<close>

lemma md_DeleteChunk_new:
  assumes "md_inv md" and "\<not> md_ChunkExists md h" and "map_of (md_files md') = map_of (md_files md)"
    and "\<And>g. g \<noteq> h \<Longrightarrow> md_GetChunk md' g = md_GetChunk md g"
  shows "md_GetFile (snd (md_DeleteChunk md' h)) p = md_GetFile md p"
    and "md_GetChunk (snd (md_DeleteChunk md' h)) g = md_GetChunk md g"
proof -
  show "md_GetFile (snd (md_DeleteChunk md' h)) p = md_GetFile md p"
    using new_chunk_in_no_file [OF assms(1,2), of p] assms(3)
    by (cases "map_of (md_files md) p") (auto simp: md_DeleteChunk_def md_GetFile_def)
  show "md_GetChunk (snd (md_DeleteChunk md' h)) g = md_GetChunk md g"
    using assms(2) assms(4) [of g]
    by (cases "g = h") (auto simp: md_DeleteChunk_def md_ChunkExists_def md_erase_chunk_def md_GetChunk_def)
qed

text \<open>What a call changes beside the files and the chunks: it may have released the lease on the source and written a record
  that was not reported as complete.\<close>

definition outside :: "append_io \<Rightarrow> chunk_handle \<Rightarrow> chunk_handle \<Rightarrow> master \<Rightarrow> master \<Rightarrow> bool" where
  "outside io source h m m' \<longleftrightarrow>
     ma_namespace m' = ma_namespace m \<and> ma_policy m' = ma_policy m \<and> ma_heartbeats m' = ma_heartbeats m \<and>
     ma_orphans m' = ma_orphans m \<and> ma_directory m' = ma_directory m \<and>
     (\<forall>g. g \<noteq> h \<longrightarrow> rm_GetReplicas (ma_replicas m') g = rm_GetReplicas (ma_replicas m) g) \<and>
     (ma_leases m' = ma_leases m \<or> ma_leases m' = snd (lm_ReleaseLease (ma_leases m) source)) \<and>
     ((ma_log m' = ma_log m \<and> ma_disk m' = ma_disk m) \<or>
      (\<exists>fs. let a = AppendOperation io OpCopyOnWrite fs m in
         \<not> fst a \<and> ma_log m' = ma_log (snd a) \<and> ma_disk m' = ma_disk (snd a)))"

lemma outside_refl [simp]: "outside io source h m m"
  by (simp add: outside_def)

lemma outside_metadata [simp]: "outside io source h m (x\<lparr>ma_metadata := md\<rparr>) = outside io source h m x"
  by (simp add: outside_def)

lemma outside_drop: "outside io source h m x \<Longrightarrow> outside io source h m (drop_copy h x)"
  by (auto simp: outside_def drop_copy_def rm_RemoveChunk_def rm_GetReplicas_def delete_conv' split: option.split)

lemma register_copy_others:
  "register_copy h ss primary m = (r, m') \<Longrightarrow>
    \<exists>t. m' = m\<lparr>ma_replicas := t\<rparr> \<and> (\<forall>g. g \<noteq> h \<longrightarrow> rm_GetReplicas t g = rm_GetReplicas (ma_replicas m) g)"
proof (induction ss arbitrary: primary m)
  case Nil
  then show ?case by (auto intro!: exI [of _ "ma_replicas m"])
next
  case (Cons s ss)
  let ?r = "rm_RegisterReplica (ma_replicas m) h s (\<not> primary)"
  have same: "rm_GetReplicas (snd ?r) g = rm_GetReplicas (ma_replicas m) g" if "g \<noteq> h" for g
    using that by (auto simp: rm_RegisterReplica_def rm_GetReplicas_def Let_def update_conv' split: option.splits)
  show ?case
  proof (cases "fst ?r")
    case True
    then have "register_copy h ss True (m\<lparr>ma_replicas := snd ?r\<rparr>) = (r, m')"
      using Cons.prems by (auto simp: on_replicas_def split: prod.splits bool.splits)
    from Cons.IH [OF this] show ?thesis using same by auto
  next
    case False
    then have "m' = m\<lparr>ma_replicas := snd ?r\<rparr>" using Cons.prems by (auto simp: on_replicas_def split: prod.splits bool.splits)
    then show ?thesis using same by blast
  qed
qed

lemma AppendOperation_local:
  assumes "ma_directory a = ma_directory b" and "ma_log a = ma_log b" and "ma_disk a = ma_disk b"
  shows "fst (AppendOperation io ty fs a) = fst (AppendOperation io ty fs b)"
    and "ma_log (snd (AppendOperation io ty fs a)) = ma_log (snd (AppendOperation io ty fs b))"
    and "ma_disk (snd (AppendOperation io ty fs a)) = ma_disk (snd (AppendOperation io ty fs b))"
  using assms by (simp_all add: AppendOperation_def split: prod.split bool.split)

definition next_used :: "master \<Rightarrow> metadata \<Rightarrow> bool" where
  "next_used m md \<longleftrightarrow> md_next md = md_next (ma_metadata m) \<or> md_next md = md_next (ma_metadata m) + 1"

lemma next_delete [simp]: "md_next (snd (md_DeleteChunk md h)) = md_next md"
  by (simp add: md_DeleteChunk_def md_erase_chunk_def)

lemma next_replace [simp]: "md_next (snd (md_ReplaceChunkInFile md path i h)) = md_next md"
  by (auto simp: md_ReplaceChunkInFile_def md_put_file_def Let_def split: option.splits)

lemma next_alloc: "next_used m (snd (md_AllocateStandaloneChunk (ma_metadata m) (md_next (ma_metadata m)) v sz))"
  by (auto simp: md_AllocateStandaloneChunk_eq next_used_def md_bump_next_def md_put_chunk_def md_erase_chunk_def)

text \<open>What a failed call may leave behind: the next handle is used up, the lease on the source is released, the record is in
  the log without having been reported.\<close>

definition undone :: "append_io \<Rightarrow> chunk_handle \<Rightarrow> master \<Rightarrow> master \<Rightarrow> bool" where
  "undone io source m m' \<longleftrightarrow> md_GetFile (ma_metadata m') = md_GetFile (ma_metadata m) \<and>
     md_GetChunk (ma_metadata m') = md_GetChunk (ma_metadata m) \<and> next_used m (ma_metadata m') \<and>
     outside io source (md_next (ma_metadata m)) m m'"

lemma undone_refl [simp]: "undone io source m m"
  by (simp add: undone_def next_used_def)

lemma drop_copy_undone:
  assumes "ma_inv m" and "\<not> md_ChunkExists (ma_metadata m) h"
    and "map_of (md_files (ma_metadata x)) = map_of (md_files (ma_metadata m))"
    and "\<And>g. g \<noteq> h \<Longrightarrow> md_GetChunk (ma_metadata x) g = md_GetChunk (ma_metadata m) g"
    and "outside io source h m x" and "h = md_next (ma_metadata m)" and "next_used m (ma_metadata x)"
  shows "undone io source m (drop_copy h x)"
  using md_DeleteChunk_new [OF ma_invD(1) [OF assms(1)] assms(2-4)] outside_drop [OF assms(5)] assms(6,7)
  by (simp add: undone_def next_used_def drop_copy_def fun_eq_iff)

section \<open>The replicas of the copy\<close>

lemma register_copy_replicas:
  assumes "register_copy h ss primary m = ((registered, p), m')" and "registered" and "h \<noteq> 0" and "0 \<notin> set ss"
  shows "(\<forall>s \<in> set ss. rm_HasReplica (ma_replicas m') h s) \<and>
    (\<forall>g s. rm_HasReplica (ma_replicas m) g s \<longrightarrow> rm_HasReplica (ma_replicas m') g s) \<and> ma_leases m' = ma_leases m"
  using assms
proof (induction ss arbitrary: primary m)
  case (Cons s ss)
  let ?r = "rm_RegisterReplica (ma_replicas m) h s (\<not> primary)"
  have "fst ?r \<and> register_copy h ss True (m\<lparr>ma_replicas := snd ?r\<rparr>) = ((registered, p), m')"
    using Cons.prems(1,2) by (cases ?r) (auto simp: on_replicas_def split: bool.splits)
  from Cons.IH [OF conjunct2 [OF this] Cons.prems(2,3)] Cons.prems(3,4)
    RegisterReplica_has(1,2) [where h = h and s = s and t = "ma_replicas m" and p = "\<not> primary"]
  show ?case by auto
qed simp

section \<open>The copy\<close>

text \<open>\<open>copied m path i h m'\<close>: the chunk at index \<open>i\<close> of the file is replaced by its new copy \<open>h\<close>.\<close>

definition copied :: "master \<Rightarrow> string \<Rightarrow> chunk_index \<Rightarrow> chunk_handle \<Rightarrow> master \<Rightarrow> bool" where
  "copied m path i h m' \<longleftrightarrow>
     (\<exists>f c. let source = fm_chunk_handles f ! unat i in
        md_GetFile (ma_metadata m) path = Some f \<and> unat i < length (fm_chunk_handles f) \<and>
        md_GetChunk (ma_metadata m) source = Some c \<and> md_GetChunk (ma_metadata m) h = None \<and>
        md_GetFile (ma_metadata m') =
          (md_GetFile (ma_metadata m))(path \<mapsto> f\<lparr>fm_chunk_handles := (fm_chunk_handles f)[unat i := h]\<rparr>) \<and>
        md_GetChunk (ma_metadata m') = (md_GetChunk (ma_metadata m))
          (h \<mapsto> \<lparr>cm_handle = h, cm_version = cm_version c, cm_size = cm_size c, cm_replicas = {}\<rparr>) \<and>
        (\<forall>s \<in> set (rm_GetReplicaServers (ma_replicas m) source). rm_HasReplica (ma_replicas m') h s) \<and>
        lm_GetLease (ma_leases m') source = None)"

lemma servers_nonzero: "rm_inv t \<Longrightarrow> 0 \<notin> set (rm_GetReplicaServers t h)"
  using HasReplica_servers [of t h 0] by (auto simp: rm_HasReplica_def)

lemma replace_new:
  assumes "md_inv md" and "map_of (md_files md) path = Some f" and "fst (md_ReplaceChunkInFile md path i h)"
    and "unat i < length (fm_chunk_handles f)" and "h \<notin> set (fm_chunk_handles f)"
  shows "md_GetFile (snd (md_ReplaceChunkInFile md path i h)) =
    (md_GetFile md)(path \<mapsto> f\<lparr>fm_chunk_handles := (fm_chunk_handles f)[unat i := h]\<rparr>)"
proof -
  have "fm_chunk_handles f ! unat i \<noteq> h" using assms(4,5) nth_mem by metis
  then show ?thesis
    using assms by (auto simp: md_ReplaceChunkInFile_def Let_def md_GetFile_def fun_eq_iff split: if_splits)
qed

lemma copy_chunk_result:
  assumes inv: "ma_inv m"
    and alloc: "md_AllocateStandaloneChunk (ma_metadata m) h (cm_version c) (cm_size c) = (True, md)"
    and f: "md_GetFile (ma_metadata m) path = Some f" "unat i < length (fm_chunk_handles f)"
    and source: "source = fm_chunk_handles f ! unat i" "md_GetChunk (ma_metadata m) source = Some c"
    and replicas: "replicas = rm_GetReplicaServers (ma_replicas m) source" and fresh: "h = md_next (ma_metadata m)"
    and r: "copy_chunk io clone path i source c replicas h (m\<lparr>ma_metadata := md\<rparr>) = (res, m')"
  shows "(res = None \<and> undone io source m m') \<or> (res = Some h \<and> copied m path i h m')"
proof -
  let ?md = "ma_metadata m" and ?m0 = "m\<lparr>ma_metadata := md\<rparr>"
  note mdi = ma_invD(1) [OF inv]
  note f' = f(1) [unfolded md_GetFile_def]
  have new: "h \<noteq> 0" "\<not> md_ChunkExists ?md h" "map_of (md_files md) = map_of (md_files ?md)"
    and chunks: "md_GetChunk md g = (if g = h then Some ((ChunkMetadata h (cm_version c))\<lparr>cm_size := cm_size c\<rparr>)
      else md_GetChunk ?md g)" for g
    using alloc_standalone_True [of ?md h "cm_version c" "cm_size c"] alloc by simp_all
  have mdi': "md_inv md" using md_AllocateStandaloneChunk_inv [OF mdi, of h "cm_version c" "cm_size c"] alloc by simp
  have nothere: "h \<notin> set (fm_chunk_handles f)" using md_file_chunks [OF mdi f'] new(2) by blast
  obtain registered primary m1 where reg: "register_copy h replicas False ?m0 = ((registered, primary), m1)"
    by (metis prod.exhaust)
  note m1 = register_copy_core [OF reg]
  let ?m2 = "m1\<lparr>ma_leases := snd (lm_ReleaseLease (ma_leases m1) source)\<rparr>"
  let ?m3 = "?m2\<lparr>ma_metadata := snd (md_ReplaceChunkInFile md path i h)\<rparr>"
  obtain t where t: "m1 = ?m0\<lparr>ma_replicas := t\<rparr>" "\<And>g. g \<noteq> h \<Longrightarrow> rm_GetReplicas t g = rm_GetReplicas (ma_replicas m) g"
    using register_copy_others [OF reg] by auto
  have out: "outside io source h m m1" "outside io source h m ?m2" by (simp_all add: outside_def t)
  have used: "next_used m md" using next_alloc [of m "cm_version c" "cm_size c"] alloc fresh by simp
  have undo: "undone io source m (drop_copy h x)" if "ma_metadata x = md" "outside io source h m x" for x
    by (rule drop_copy_undone [OF inv new(2)]) (simp_all add: that used new(3) chunks fresh [symmetric])
  consider (dropped) x where "m' = drop_copy h x" "ma_metadata x = md" "outside io source h m x" "res = None"
    | (replaced) strs where "registered" "fst (md_ReplaceChunkInFile md path i h)"
      "(case AppendOperation io OpCopyOnWrite strs ?m3 of
          (False, m) \<Rightarrow> (None, drop_copy h (snd (on_metadata (\<lambda>md. md_ReplaceChunkInFile md path i source) m)))
        | (True, m) \<Rightarrow> (Some h, m)) = (res, m')"
    using r m1 out replace_fails [of md path i h] that(1) [of m1] that(1) [of ?m2]
    by (auto simp: copy_chunk_def reg case_pair_bool Let_def split: if_splits)
  then show ?thesis
  proof cases
    case dropped
    then show ?thesis using undo by simp
  next
    case replaced
    note rep = replace_new [OF mdi' _ replaced(2) f(2) nothere, unfolded new(3), OF f']
    let ?m4 = "snd (AppendOperation io OpCopyOnWrite strs ?m3)"
    show ?thesis
    proof (cases "fst (AppendOperation io OpCopyOnWrite strs ?m3)")
      case False
      let ?x = "?m4\<lparr>ma_metadata := snd (md_ReplaceChunkInFile (ma_metadata ?m4) path i source)\<rparr>"
      have "map_of (md_files (ma_metadata ?x)) = map_of (md_files ?md)"
        using replace_back [OF mdi' _ f(2) replaced(2) nothere] f' new(3) source(1) by simp
      moreover have "outside io source h m ?x"
        using False out(2) AppendOperation_local [of ?m3 m io OpCopyOnWrite strs] by (auto simp: outside_def t(1) Let_def)
      ultimately have "undone io source m (drop_copy h ?x)"
        by (intro drop_copy_undone [OF inv new(2)]) (use chunks fresh used in \<open>simp_all add: md_GetChunk_def next_used_def\<close>)
      then show ?thesis using replaced(3) False by (simp add: case_pair_bool)
    next
      case True
      have "0 \<notin> set replicas" using servers_nonzero ma_inv_tablesD(1) [OF inv] replicas by blast
      from register_copy_replicas [OF reg replaced(1) new(1) this]
      have "\<forall>s \<in> set replicas. rm_HasReplica (ma_replicas ?m4) h s" by simp
      moreover have "lm_GetLease (ma_leases ?m4) source = None" by (simp add: lm_ReleaseLease_def lm_GetLease_def)
      moreover have "md_GetFile (ma_metadata ?m4) =
          (md_GetFile ?md)(path \<mapsto> f\<lparr>fm_chunk_handles := (fm_chunk_handles f)[unat i := h]\<rparr>)"
        using rep by (simp add: md_GetFile_def fun_eq_iff new(3))
      moreover have "md_GetChunk (ma_metadata ?m4) = (md_GetChunk ?md)
          (h \<mapsto> \<lparr>cm_handle = h, cm_version = cm_version c, cm_size = cm_size c, cm_replicas = {}\<rparr>)"
        using chunks by (simp add: md_GetChunk_def ChunkMetadata_def fun_eq_iff)
      moreover have "md_GetChunk ?md h = None" using new(2) by (simp add: md_ChunkExists_def md_GetChunk_def)
      ultimately have "copied m path i h ?m4"
        using f source replicas by (auto simp: copied_def Let_def)
      then show ?thesis using replaced(3) True by (simp add: case_pair_bool)
    qed
  qed
qed

lemma prepare_cases:
  assumes inv: "ma_inv m" and r: "ma_PrepareCopyOnWrite io clone path i m = (res, m')"
  obtains (nothing) "res = None" and "undone io (md_GetFileChunks (ma_metadata m) path ! unat i) m m'"
  | (sole) f where "md_GetFile (ma_metadata m) path = Some f" and "unat i < length (fm_chunk_handles f)"
      and "md_GetChunkReferenceCount (ma_metadata m) (fm_chunk_handles f ! unat i) \<le> 1"
      and "res = Some (fm_chunk_handles f ! unat i)" and "m' = m"
  | (copy) h where "res = Some h" and "copied m path i h m'"
      and "1 < md_GetChunkReferenceCount (ma_metadata m) (md_GetFileChunks (ma_metadata m) path ! unat i)"
proof (cases "path = [] \<or> md_GetFile (ma_metadata m) path = None")
  case True
  then show thesis
    using r that(1) by (auto simp: ma_PrepareCopyOnWrite_def md_FileExists_def md_GetFile_def)
next
  case False
  let ?md = "ma_metadata m" and ?h = "md_next (ma_metadata m)"
  from False obtain f where f: "md_GetFile ?md path = Some f" by auto
  then have hs: "md_FileExists ?md path" "md_GetFileChunks ?md path = fm_chunk_handles f"
    by (simp_all add: md_FileExists_def md_GetFileChunks_def md_GetFile_def)
  let ?s = "fm_chunk_handles f ! unat i"
  have failed: "undone io ?s m (m\<lparr>ma_metadata := snd (md_AllocateStandaloneChunk ?md ?h v sz)\<rparr>)"
    if "\<not> fst (md_AllocateStandaloneChunk ?md ?h v sz)" for v sz
    using next_alloc [of m v sz] that by (auto simp: undone_def md_AllocateStandaloneChunk_eq md_GetFile_def md_GetChunk_def md_ChunkExists_def
        fun_eq_iff split: if_splits)
  show thesis
  proof (cases "unat i < length (fm_chunk_handles f) \<and> ?h \<noteq> 0 \<and> md_GetChunk ?md ?s \<noteq> None \<and> ?s \<noteq> 0 \<and>
      \<not> md_GetChunkReferenceCount ?md ?s \<le> 1")
    case True
    then obtain c where c: "md_GetChunk ?md ?s = Some c" by auto
    obtain b md where alloc: "md_AllocateStandaloneChunk ?md ?h (cm_version c) (cm_size c) = (b, md)" by fastforce
    show thesis
    proof (cases b)
      case b: True
      have "copy_chunk io clone path i ?s c (rm_GetReplicaServers (ma_replicas m) ?s) ?h (m\<lparr>ma_metadata := md\<rparr>) = (res, m')"
        using r False hs True c alloc b by (simp add: ma_PrepareCopyOnWrite_def Let_def on_metadata_def)
      from copy_chunk_result [OF inv _ f _ refl c refl refl this] show thesis
        using that(1,3) True alloc b hs(2) by auto
    next
      case b: False
      then have "m' = m\<lparr>ma_metadata := md\<rparr>" "res = None"
        using r False hs True c alloc by (simp_all add: ma_PrepareCopyOnWrite_def Let_def on_metadata_def)
      then show thesis using that(1) failed [of "cm_version c" "cm_size c"] alloc b hs(2) by simp
    qed
  next
    case no: False
    then have "m' = m" "res = None \<or> (res = Some ?s \<and> unat i < length (fm_chunk_handles f) \<and> md_GetChunkReferenceCount ?md ?s \<le> 1)"
      using r False hs by (auto simp: ma_PrepareCopyOnWrite_def Let_def split: if_splits option.splits)
    then show thesis using that(1,2) f by auto
  qed
qed

section \<open>Properties\<close>

text \<open>C9: \<open>PrepareCopyOnWrite\<close> either fails or returns a chunk that stands at the given index of the file and
  that no other file refers to. On success other files, the other entries of this file and all other
  chunks are unchanged; a copy has the version and the size of the original, a replica on every server
  of the original, and the original has no lease. A call that fails gives back the namespace, every
  file, every chunk and the replicas of every chunk but the next handle's, but not all that was there:
  the lease on the source may be released, the next handle may be used up, and when it is the
  log that fails, the log is left as the failed append leaves it, so the record may be in it.\<close>
theorem copy_on_write_isolates:
  assumes "ma_inv m" and "ma_PrepareCopyOnWrite io clone path i m = (res, m')"
  shows "(res = None \<longrightarrow> md_GetFile (ma_metadata m') p = md_GetFile (ma_metadata m) p \<and>
      md_GetChunk (ma_metadata m') g = md_GetChunk (ma_metadata m) g \<and>
      ma_namespace m' = ma_namespace m \<and>
      (md_next (ma_metadata m') = md_next (ma_metadata m) \<or> md_next (ma_metadata m') = md_next (ma_metadata m) + 1) \<and>
      (g \<noteq> md_next (ma_metadata m) \<longrightarrow> rm_GetReplicas (ma_replicas m') g = rm_GetReplicas (ma_replicas m) g) \<and>
      (ma_leases m' = ma_leases m \<or>
       ma_leases m' = snd (lm_ReleaseLease (ma_leases m) (md_GetFileChunks (ma_metadata m) path ! unat i))) \<and>
      ((ma_log m' = ma_log m \<and> ma_disk m' = ma_disk m) \<or>
       (\<exists>fs. let a = AppendOperation io OpCopyOnWrite fs m in
          \<not> fst a \<and> ma_log m' = ma_log (snd a) \<and> ma_disk m' = ma_disk (snd a)))) \<and>
    (res = Some h \<longrightarrow> unat i < length (md_GetFileChunks (ma_metadata m) path) \<and>
      md_GetFileChunks (ma_metadata m') path = (md_GetFileChunks (ma_metadata m) path)[unat i := h] \<and>
      md_GetChunkReferenceCount (ma_metadata m') h = 1 \<and>
      (p \<noteq> path \<longrightarrow> md_GetFile (ma_metadata m') p = md_GetFile (ma_metadata m) p) \<and>
      (g \<noteq> h \<longrightarrow> md_GetChunk (ma_metadata m') g = md_GetChunk (ma_metadata m) g) \<and>
      (h = md_GetFileChunks (ma_metadata m) path ! unat i \<and> m' = m \<or> copied m path i h m'))"
  using assms
proof (cases rule: prepare_cases)
  case nothing
  then show ?thesis by (simp add: undone_def outside_def next_used_def)
next
  case (sole f)
  let ?md = "ma_metadata m" and ?s = "fm_chunk_handles f ! unat i"
  have mdi: "md_inv ?md" using assms(1) by (rule ma_invD)
  have f: "map_of (md_files ?md) path = Some f" using sole(1) by (simp add: md_GetFile_def)
  have "referenced ?md ?s" unfolding referenced_def using f sole(2) nth_mem by blast
  then have "md_GetChunkReferenceCount ?md ?s \<noteq> 0"
    using ref_count_0 [of ?md ?s] mdi md_file_chunks [OF mdi f] sole(2) by (auto simp: md_inv_def)
  then have "md_GetChunkReferenceCount ?md ?s = 1" using sole(3) by linarith
  then show ?thesis using sole f by (auto simp: md_GetFileChunks_def)
next
  case (copy h')
  note mdi = ma_invD(1) [OF assms(1)]
  have mdi': "md_inv (ma_metadata m')"
    using ma_invD(1) [OF ma_PrepareCopyOnWrite_inv [OF assms(1)]] assms(2) by (metis snd_conv)
  from copy(2) obtain f and c :: chunk_metadata where f: "md_GetFile (ma_metadata m) path = Some f" "unat i < length (fm_chunk_handles f)"
      and c: "md_GetChunk (ma_metadata m) h' = None"
        "md_GetFile (ma_metadata m') = (md_GetFile (ma_metadata m))(path \<mapsto> f\<lparr>fm_chunk_handles := (fm_chunk_handles f)[unat i := h']\<rparr>)"
        "md_GetChunk (ma_metadata m') = (md_GetChunk (ma_metadata m))
          (h' \<mapsto> \<lparr>cm_handle = h', cm_version = cm_version c, cm_size = cm_size c, cm_replicas = {}\<rparr>)"
    unfolding copied_def Let_def by blast
  have "h' \<notin> set (fm_chunk_handles g)" if "md_GetFile (ma_metadata m) q = Some g" for q g
    using that c(1) md_file_chunks [OF mdi, of q g h'] by (auto simp: md_GetFile_def md_GetChunk_def md_ChunkExists_def)
  then have "{q. \<exists>g. md_GetFile (ma_metadata m') q = Some g \<and> h' \<in> set (fm_chunk_handles g)} = {path}"
    using f by (auto simp: c(2) set_update_memI)
  then have "md_GetChunkReferenceCount (ma_metadata m') h' = 1"
    using ref_count_card [OF mdi', of h'] by (simp add: md_GetFile_def)
  moreover have "md_GetFileChunks (ma_metadata m) path = fm_chunk_handles f"
      "md_GetFileChunks (ma_metadata m') path = (fm_chunk_handles f)[unat i := h']"
    using f(1) fun_cong [OF c(2), of path] by (simp_all add: md_GetFileChunks_def md_GetFile_def)
  ultimately show ?thesis using copy f(2) c by auto
qed

definition shared_master :: master where
  "shared_master = snd (ma_exec (MaCreateSnapshot io_ok ''/f'' ''/s'') sample_master)"

lemma shared_master_inv: "ma_inv shared_master"
  unfolding shared_master_def
  by (rule masters.reachable_inv [OF masters.reachable.intros(2)]) (rule sample_master_reachable)

theorem copy_on_write_isolates_witness:
  "md_GetFileChunks (ma_metadata (snd (ma_PrepareCopyOnWrite io_ok None ''/s'' 0 shared_master))) ''/s'' = [2] \<and>
   md_GetFileChunks (ma_metadata (snd (ma_PrepareCopyOnWrite io_ok None ''/s'' 0 shared_master))) ''/f'' = [1]"
proof -
  let ?r = "ma_PrepareCopyOnWrite io_ok None ''/s'' 0 shared_master"
  have "fst ?r = Some 2" "md_GetFileChunks (ma_metadata shared_master) ''/s'' = [1]"
    "md_GetFileChunks (ma_metadata shared_master) ''/f'' = [1]" by code_simp+
  then show ?thesis
    using copy_on_write_isolates [OF shared_master_inv prod.collapse [symmetric], of io_ok None "''/s''" 0 "''/f''" 0 2]
    by (simp add: md_GetFileChunks_def md_GetFile_def)
qed

end
