(* ===== verification/Garbage.thy ===== *)
theory Garbage
  imports Restart
begin

text \<open>
  \<open>src/master/garbage_collection/garbage_collector.cpp\<close>: one round of garbage collection looks for
  chunks that no file refers to and removes them one after the other. For each chunk the arguments
  \<open>io\<close> and \<open>deleted\<close> say how the file system answers the append of its log record and whether
  the chunkservers delete their copies. The loop of \<open>Collect\<close> runs over the candidates found
  before it, so it ends after at most as many turns as there are chunks.
\<close>

section \<open>The collector\<close>

definition CollectChunk :: "append_io \<Rightarrow> bool \<Rightarrow> chunk_handle \<Rightarrow> master \<Rightarrow> bool \<times> master" where
  "CollectChunk io deleted handle m =
     (if handle = 0 then (False, m)
      else if md_GetChunkReferenceCount (ma_metadata m) handle \<noteq> 0
      then (False, snd (on_orphans (\<lambda>oc. RemoveOrphan oc handle) m))
      else and_then (ma_GarbageCollectChunk io deleted handle m)
        (\<lambda>m. (True, snd (on_orphans (\<lambda>oc. RemoveOrphan oc handle) m))))"

fun collect_loop ::
    "(chunk_handle \<Rightarrow> append_io) \<Rightarrow> (chunk_handle \<Rightarrow> bool) \<Rightarrow> chunk_handle list \<Rightarrow> chunk_handle list \<Rightarrow> master \<Rightarrow>
      chunk_handle list \<times> master" where
  "collect_loop io deleted collected [] m = (collected, m)"
| "collect_loop io deleted collected (handle # handles) m =
     (case CollectChunk (io handle) (deleted handle) handle m of
        (ok, m) \<Rightarrow> collect_loop io deleted (if ok then collected @ [handle] else collected) handles m)"

definition Collect ::
    "(chunk_handle \<Rightarrow> append_io) \<Rightarrow> (chunk_handle \<Rightarrow> bool) \<Rightarrow> master \<Rightarrow> chunk_handle list \<times> master" where
  "Collect io deleted m =
     (case ma_IdentifyGarbage m of (candidates, m) \<Rightarrow> collect_loop io deleted [] candidates m)"

definition GetCandidates :: "master \<Rightarrow> chunk_handle list" where
  "GetCandidates m = GetOrphanChunks (ma_orphans m)"

definition CandidateCount :: "master \<Rightarrow> nat" where
  "CandidateCount m = oc_Size (ma_orphans m)"

definition gc_Clear :: "master \<Rightarrow> master" where
  "gc_Clear m = m\<lparr>ma_orphans := oc_Clear (ma_orphans m)\<rparr>"

section \<open>Removing one chunk\<close>

lemma md_DeleteChunk_unreferenced:
  assumes "md_inv m" and "\<not> referenced m h" and "md_ChunkExists m h"
  shows "md_DeleteChunk m h = (True, md_erase_chunk m h)"
proof -
  have "snd (fm_RemoveChunk f h) = f" if "(p, f) \<in> set (md_files m)" for p f
  proof -
    have "map_of (md_files m) p = Some f" using assms(1) that by (simp add: md_inv_def md_shape_def)
    then show ?thesis using assms(2) by (auto simp: referenced_def fm_RemoveChunk_def)
  qed
  then have "map_values (\<lambda>f. snd (fm_RemoveChunk f h)) (md_files m) = md_files m"
    by (auto simp: map_values_def intro!: map_idI)
  then show ?thesis using assms(3) by (simp add: md_DeleteChunk_def)
qed

definition swept :: "chunk_handle set \<Rightarrow> master \<Rightarrow> master \<Rightarrow> bool" where
  "swept H m m' \<longleftrightarrow> ma_inv m' \<and> md_files (ma_metadata m') = md_files (ma_metadata m) \<and>
     ma_namespace m' = ma_namespace m \<and> ma_orphans m' = ma_orphans m - H \<and>
     (\<forall>g. md_GetChunk (ma_metadata m') g = (if g \<in> H then None else md_GetChunk (ma_metadata m) g))"

lemma swept_trans: "swept G m m' \<Longrightarrow> swept H m' m'' \<Longrightarrow> swept (G \<union> H) m m''"
  by (auto simp: swept_def)

lemma swept_referenced: "swept H m m' \<Longrightarrow> referenced (ma_metadata m') h = referenced (ma_metadata m) h"
  by (simp add: swept_def referenced_def)

lemma referenced_exists: "md_inv m \<Longrightarrow> referenced m h \<Longrightarrow> md_ChunkExists m h"
  by (auto simp: referenced_def dest: md_file_chunks)

lemma forget_chunk_orphans [simp]: "ma_orphans (forget_chunk h m) = ma_orphans m"
  by (simp add: forget_chunk_def)

lemma CollectChunk_swept:
  assumes "ma_inv m" and "h \<noteq> 0" and "\<not> referenced (ma_metadata m) h"
  shows "swept (if fst (CollectChunk io deleted h m) then {h} else {}) m (snd (CollectChunk io deleted h m))"
    and "fst (CollectChunk io deleted h m) \<longleftrightarrow> \<not> md_ChunkExists (ma_metadata m) h \<or>
      (fst (AppendOperation io OpDeleteChunk [to_string h] m) \<and> deleted)"
proof -
  let ?md = "ma_metadata m"
  have inv: "md_inv ?md" using assms(1) by (rule ma_invD)
  have count: "md_GetChunkReferenceCount ?md h = 0"
    using assms(3) ref_count_0 inv by (simp add: md_inv_def)
  have gc: "ma_inv (snd (ma_GarbageCollectChunk io deleted h m))" using assms(1) by (rule ma_GarbageCollectChunk_inv)
  have rm: "ma_inv (m'\<lparr>ma_orphans := snd (RemoveOrphan (ma_orphans m') h)\<rparr>)" if "ma_inv m'" for m'
    using that by (rule ma_inv_tables)
  have sh: "CollectChunk io deleted h m = and_then (ma_GarbageCollectChunk io deleted h m)
      (\<lambda>m. (True, m\<lparr>ma_orphans := snd (RemoveOrphan (ma_orphans m) h)\<rparr>))"
    using assms(2) count by (simp add: CollectChunk_def)
  have "ma_inv (snd (CollectChunk io deleted h m))" using gc rm by (simp add: sh and_then_eq)
  moreover have del: "md_DeleteChunk ?md h = (True, md_erase_chunk ?md h)" if "md_ChunkExists ?md h"
    using md_DeleteChunk_unreferenced [OF inv assms(3) that] .
  ultimately show "swept (if fst (CollectChunk io deleted h m) then {h} else {}) m (snd (CollectChunk io deleted h m))"
    using assms(2) count
    by (cases "md_ChunkExists ?md h")
      (auto simp: swept_def sh ma_GarbageCollectChunk_def and_then_eq RemoveOrphan_def md_GetChunk_def
        md_erase_chunk_def md_ChunkExists_def)
  show "fst (CollectChunk io deleted h m) \<longleftrightarrow> \<not> md_ChunkExists ?md h \<or>
      (fst (AppendOperation io OpDeleteChunk [to_string h] m) \<and> deleted)"
    using assms(2) count del by (auto simp: sh ma_GarbageCollectChunk_def and_then_eq)
qed

section \<open>The round\<close>

lemma collect_loop_swept:
  assumes "ma_inv m" and "0 \<notin> set hs" and "\<And>h. h \<in> set hs \<Longrightarrow> \<not> referenced (ma_metadata m) h"
  shows "\<exists>rest. fst (collect_loop io deleted collected hs m) = collected @ rest \<and> set rest \<subseteq> set hs \<and>
    swept (set rest) m (snd (collect_loop io deleted collected hs m))"
  using assms
proof (induction hs arbitrary: collected m)
  case Nil
  then show ?case by (simp add: swept_def)
next
  case (Cons h hs)
  obtain ok m1 where c: "CollectChunk (io h) (deleted h) h m = (ok, m1)" by fastforce
  have s: "swept (if ok then {h} else {}) m m1"
    using CollectChunk_swept(1) [of m h "io h" "deleted h"] Cons.prems c by auto
  then have "ma_inv m1" by (simp add: swept_def)
  then obtain rest where "fst (collect_loop io deleted (if ok then collected @ [h] else collected) hs m1) =
        (if ok then collected @ [h] else collected) @ rest" "set rest \<subseteq> set hs"
      "swept (set rest) m1 (snd (collect_loop io deleted (if ok then collected @ [h] else collected) hs m1))"
    using Cons.IH [of m1 "if ok then collected @ [h] else collected"] Cons.prems swept_referenced [OF s] by auto
  then show ?case
    using c swept_trans [OF s, of "set rest"] by (intro exI [of _ "if ok then h # rest else rest"]) auto
qed

text \<open>\<open>room n m\<close>: the log, if there is one, takes \<open>n\<close> more records.\<close>

definition room :: "nat \<Rightarrow> master \<Rightarrow> bool" where
  "room n m \<longleftrightarrow> ma_directory m = [] \<or> (\<exists>rs. logging rs m \<and> length rs + n \<le> log_capacity)"

lemma room_AppendOperation:
  assumes "room (Suc n) m" and "length (EncodeFields fs) < 2 ^ 32"
  shows "fst (AppendOperation io_ok ty fs m)" and "room n (snd (AppendOperation io_ok ty fs m))"
proof -
  have "fst (AppendOperation io_ok ty fs m) \<and> room n (snd (AppendOperation io_ok ty fs m))"
  proof (cases "ma_directory m = []")
    case True
    then show ?thesis by (simp add: AppendOperation_def room_def)
  next
    case False
    then obtain rs where rs: "logging rs m" "length rs + Suc n \<le> log_capacity" using assms(1) by (auto simp: room_def)
    then obtain m1 where "AppendOperation io_ok ty fs m = (True, m1)" "logging (rs @ [next_record m ty fs]) m1"
      using append_succeeds [OF rs(1) _ assms(2), of ty] by auto
    then show ?thesis using rs(2) unfolding room_def by (intro conjI disjI2 exI [of _ "rs @ [next_record m ty fs]"]) auto
  qed
  then show "fst (AppendOperation io_ok ty fs m)" and "room n (snd (AppendOperation io_ok ty fs m))" by auto
qed

lemma room_less: "room n m \<Longrightarrow> k \<le> n \<Longrightarrow> room k m"
  by (auto simp: room_def)

lemma room_log_part:
  assumes "log_part m' = log_part m"
  shows "room n m' = room n m"
  using assms logging_log_part [OF assms] by (auto simp: room_def log_part_def)

lemma length_to_string64: "length (EncodeFields [to_string h]) < 2 ^ 32"
proof -
  have "unat h < 2 ^ 64" using unsigned_less [where w = h and 'a = nat] by simp
  then show ?thesis using length_nat_to_string [of "unat h" 19] by (simp add: to_string_def)
qed

lemma CollectChunk_room:
  assumes "ma_inv m" and "h \<noteq> 0" and "\<not> referenced (ma_metadata m) h" and "room (Suc n) m"
  shows "fst (CollectChunk io_ok True h m)" and "room n (snd (CollectChunk io_ok True h m))"
proof -
  note app = room_AppendOperation [OF assms(4) length_to_string64, of OpDeleteChunk h]
  show "fst (CollectChunk io_ok True h m)" using CollectChunk_swept(2) [OF assms(1-3)] app(1) by simp
  have upd: "room n (m'\<lparr>ma_orphans := oc\<rparr>) = room n m'" "room n (m'\<lparr>ma_metadata := md\<rparr>) = room n m'"
      "room n (m'\<lparr>ma_metadata := md, ma_orphans := oc\<rparr>) = room n m'" for m' oc md
    by (rule room_log_part; simp add: log_part_def)+
  have fc: "room n (forget_chunk h m') = room n m'" for m'
    by (rule room_log_part) (simp add: log_part_def)
  show "room n (snd (CollectChunk io_ok True h m))"
    using app assms(2) room_less [OF assms(4), of n]
    by (simp add: CollectChunk_def ma_GarbageCollectChunk_def and_then_eq upd fc)
qed

lemma collect_loop_all:
  assumes "ma_inv m" and "0 \<notin> set hs" and "\<And>h. h \<in> set hs \<Longrightarrow> \<not> referenced (ma_metadata m) h" and "room (length hs) m"
  shows "fst (collect_loop (\<lambda>_. io_ok) (\<lambda>_. True) collected hs m) = collected @ hs"
  using assms
proof (induction hs arbitrary: collected m)
  case (Cons h hs)
  let ?m = "snd (CollectChunk io_ok True h m)"
  have ok: "fst (CollectChunk io_ok True h m)" "room (length hs) ?m"
    using CollectChunk_room [of m h "length hs"] Cons.prems by auto
  then have s: "swept {h} m ?m" using CollectChunk_swept(1) [of m h io_ok True] Cons.prems by auto
  then have "fst (collect_loop (\<lambda>_. io_ok) (\<lambda>_. True) (collected @ [h]) hs ?m) = (collected @ [h]) @ hs"
    using Cons.IH [of ?m "collected @ [h]"] Cons.prems ok(2) swept_referenced [OF s] by (simp add: swept_def)
  then show ?case using ok(1) by (simp add: case_prod_beta)
qed simp

lemma IdentifyGarbage_swept:
  assumes "ma_inv m"
  defines "r \<equiv> ma_IdentifyGarbage m"
  shows "ma_inv (snd r)" "ma_metadata (snd r) = ma_metadata m" "ma_namespace (snd r) = ma_namespace m"
    "set (fst r) = ma_orphans (snd r)" "0 \<notin> set (fst r)" "distinct (fst r)"
    "h \<in> set (fst r) \<longleftrightarrow> (if md_ChunkExists (ma_metadata m) h then \<not> referenced (ma_metadata m) h else h \<in> ma_orphans m)"
    "log_part (snd r) = log_part m"
proof -
  have inv: "md_inv (ma_metadata m)" using assms(1) by (rule ma_invD)
  have fin: "finite (ma_orphans m)" using assms(1) by (simp add: ma_inv_def tables_inv_def)
  show "ma_inv (snd r)" unfolding r_def using assms(1) by (rule ma_IdentifyGarbage_inv)
  then have zero: "0 \<notin> ma_orphans (snd r)" by (simp add: ma_inv_def tables_inv_def)
  have r: "fst r = fst (IdentifyOrphans (ma_orphans m) (ma_metadata m))"
      "ma_orphans (snd r) = snd (IdentifyOrphans (ma_orphans m) (ma_metadata m))"
    by (simp_all add: r_def ma_IdentifyGarbage_def)
  show "set (fst r) = ma_orphans (snd r)" using IdentifyOrphans_result [OF fin] by (simp add: r)
  then show "0 \<notin> set (fst r)" using zero by simp
  show "h \<in> set (fst r) \<longleftrightarrow> (if md_ChunkExists (ma_metadata m) h then \<not> referenced (ma_metadata m) h else h \<in> ma_orphans m)"
    using IdentifyOrphans_member [OF inv, of h "ma_orphans m"] IdentifyOrphans_result [OF fin] ref_count_0 inv
    by (auto simp: r md_inv_def)
  show "distinct (fst r)" by (simp add: r IdentifyOrphans_def GetOrphanChunks_def Let_def)
qed (simp_all add: r_def ma_IdentifyGarbage_def log_part_def)

section \<open>Properties\<close>

text \<open>C11: whatever the disk and the chunkservers answer, a round of garbage collection removes only chunks no
  file refers to, exactly those it reports, and changes no file and no other chunk.\<close>
theorem collect_removes_only_garbage:
  assumes "ma_inv m" and "Collect io deleted m = (collected, m')"
  shows "md_GetFile (ma_metadata m') path = md_GetFile (ma_metadata m) path \<and> ma_namespace m' = ma_namespace m \<and>
    md_GetChunk (ma_metadata m') h = (if h \<in> set collected then None else md_GetChunk (ma_metadata m) h) \<and>
    (h \<in> set collected \<longrightarrow> md_GetChunkReferenceCount (ma_metadata m) h = 0) \<and> ma_inv m'"
proof -
  note id = IdentifyGarbage_swept [OF assms(1)]
  obtain hs m1 where g: "ma_IdentifyGarbage m = (hs, m1)" by fastforce
  have inv: "md_inv (ma_metadata m)" using assms(1) by (rule ma_invD)
  have unref: "\<not> referenced (ma_metadata m) h" if "h \<in> set hs" for h
    using that id(7) [of h] g referenced_exists [OF inv, of h] by (auto split: if_splits)
  from collect_loop_swept [of m1 hs io deleted "[]"] obtain rest where
      "fst (collect_loop io deleted [] hs m1) = rest" "set rest \<subseteq> set hs"
      "swept (set rest) m1 (snd (collect_loop io deleted [] hs m1))"
    using id unref g by auto
  then have sw: "set collected \<subseteq> set hs" "swept (set collected) m1 m'"
    using assms(2) by (auto simp: Collect_def g)
  moreover have "md_GetChunkReferenceCount (ma_metadata m) h = 0" if "h \<in> set collected"
    using that sw(1) unref [of h] ref_count_0 inv by (auto simp: md_inv_def)
  ultimately show ?thesis using id(2,3) g by (simp add: swept_def md_GetFile_def)
qed

definition sample_garbage :: master where
  "sample_garbage = snd (ma_exec (MaRemoveChunkFromFile io_ok ''/f'' 1) sample_master)"

lemma sample_garbage_inv: "ma_inv sample_garbage"
  unfolding sample_garbage_def
  by (rule masters.reachable_inv [OF masters.reachable.intros(2)]) (rule sample_master_reachable)

lemma sample_garbage_collect: "fst (Collect (\<lambda>_. io_ok) (\<lambda>_. True) sample_garbage) = [1]"
  "md_GetChunk (ma_metadata sample_garbage) 1 \<noteq> None"
  by code_simp+

theorem collect_removes_only_garbage_witness:
  "md_GetChunk (ma_metadata (snd (Collect (\<lambda>_. io_ok) (\<lambda>_. True) sample_garbage))) 1 = None \<and>
   md_GetChunk (ma_metadata sample_garbage) 1 \<noteq> None"
  using collect_removes_only_garbage [OF sample_garbage_inv prod.collapse [symmetric], of "\<lambda>_. io_ok" "\<lambda>_. True" "[]" 1]
  by (simp add: sample_garbage_collect)

text \<open>C10: garbage does not stay: when the appends succeed, the log has room and the chunkservers
  delete their copies, one round leaves exactly the chunks some file refers to, and no orphan.\<close>
theorem collect_leaves_no_garbage:
  assumes "ma_inv m" and "room (length (fst (ma_IdentifyGarbage m))) m"
    and "Collect (\<lambda>_. io_ok) (\<lambda>_. True) m = (collected, m')"
  shows "collected = fst (ma_IdentifyGarbage m) \<and> GetCandidates m' = [] \<and>
    (md_GetChunk (ma_metadata m') h \<noteq> None \<longleftrightarrow> (\<exists>path. h \<in> set (md_GetFileChunks (ma_metadata m') path)))"
proof -
  note id = IdentifyGarbage_swept [OF assms(1)]
  obtain hs m1 where g: "ma_IdentifyGarbage m = (hs, m1)" by fastforce
  have inv: "md_inv (ma_metadata m)" using assms(1) by (rule ma_invD)
  have unref: "\<not> referenced (ma_metadata m) h" if "h \<in> set hs" for h
    using that id(7) [of h] g referenced_exists [OF inv, of h] by (auto split: if_splits)
  have "room (length hs) m1" using assms(2) g room_log_part [OF id(8)] by simp
  then have all: "fst (collect_loop (\<lambda>_. io_ok) (\<lambda>_. True) [] hs m1) = hs"
    using collect_loop_all [of m1 hs "[]"] id(1,2,5) unref g by auto
  from collect_loop_swept [of m1 hs "\<lambda>_. io_ok" "\<lambda>_. True" "[]"]
  obtain rest where rest: "fst (collect_loop (\<lambda>_. io_ok) (\<lambda>_. True) [] hs m1) = rest"
      "swept (set rest) m1 (snd (collect_loop (\<lambda>_. io_ok) (\<lambda>_. True) [] hs m1))"
    using id(1,2,5) unref g by auto
  then have sw: "swept (set hs) m1 m'" and coll: "collected = hs"
    using all assms(3) by (auto simp: Collect_def g)
  have "md_GetChunk (ma_metadata m') h \<noteq> None \<longleftrightarrow> referenced (ma_metadata m') h"
    using sw id(2) g id(7) [of h] referenced_exists [OF inv, of h]
    by (auto simp: swept_def md_GetChunk_def md_ChunkExists_def referenced_def split: if_splits)
  also have "\<dots> \<longleftrightarrow> (\<exists>path. h \<in> set (md_GetFileChunks (ma_metadata m') path))"
    by (auto simp: referenced_def md_GetFileChunks_def split: option.splits) (metis option.inject)+
  finally have "md_GetChunk (ma_metadata m') h \<noteq> None \<longleftrightarrow>
      (\<exists>path. h \<in> set (md_GetFileChunks (ma_metadata m') path))" .
  moreover have "ma_orphans m' = {}" using sw id(4) g by (simp add: swept_def)
  ultimately show ?thesis using coll g by (simp add: GetCandidates_def GetOrphanChunks_def)
qed

theorem collect_leaves_no_garbage_witness:
  "GetCandidates (snd (Collect (\<lambda>_. io_ok) (\<lambda>_. True) sample_garbage)) = [] \<and> GetCandidates sample_garbage = [1]"
proof -
  have "ma_directory sample_garbage = []" and "GetCandidates sample_garbage = [1]" by code_simp+
  then show ?thesis
    using collect_leaves_no_garbage [OF sample_garbage_inv _ prod.collapse [symmetric]] by (simp add: room_def)
qed

end
