(* ===== verification/FileHandles.thy ===== *)
theory FileHandles
  imports Checkpoint
begin

text \<open>
  \<open>src/storage/file_handle.cpp\<close>: a POSIX file descriptor with its path, and the loops that read
  and write until everything is transferred, an error is met or nothing more comes.

  The file system is the contents of the files and a script of answers, one for each system call
  whose result the code looks at, in the order of the calls; when the script is used up every
  call succeeds. So a state stands for one course of events at the operating system: a theorem
  about all scripts holds for every such course with finitely many interruptions.
\<close>

section \<open>The file system\<close>

text \<open>
  \<open>Partial n\<close>: a read or write that transfers at most \<open>n\<close> bytes; \<open>Interrupted\<close> is \<open>EINTR\<close>. Calls that do
  not transfer data fail on \<open>Failed\<close> only.
\<close>

datatype answer = Done | Failed | Interrupted | Partial nat

record disk =
  dk_files :: files
  dk_answers :: "answer list"

definition next_answer :: "disk \<Rightarrow> answer \<times> disk" where
  "next_answer d = (case dk_answers d of [] \<Rightarrow> (Done, d) | a # as \<Rightarrow> (a, d\<lparr>dk_answers := as\<rparr>))"

definition call_ok :: "disk \<Rightarrow> bool \<times> disk" where
  "call_ok d = (case next_answer d of (a, d) \<Rightarrow> (a \<noteq> Failed, d))"

definition put_content :: "file_path \<Rightarrow> string \<Rightarrow> disk \<Rightarrow> disk" where
  "put_content path content d = d\<lparr>dk_files := (dk_files d)(path \<mapsto> content)\<rparr>"

definition dk_content :: "disk \<Rightarrow> file_path \<Rightarrow> string" where
  "dk_content d path = content_of (dk_files d) path"

definition dk_exists :: "disk \<Rightarrow> file_path \<Rightarrow> bool" where
  "dk_exists d path \<longleftrightarrow> dk_files d path \<noteq> None"

text \<open>\<open>std::filesystem::remove(path, error)\<close>: whether a file was removed without an error.\<close>

definition dk_remove :: "file_path \<Rightarrow> disk \<Rightarrow> bool \<times> disk" where
  "dk_remove path d =
     (case call_ok d of
        (False, d) \<Rightarrow> (False, d)
      | (True, d) \<Rightarrow> (dk_exists d path, d\<lparr>dk_files := (dk_files d)(path := None)\<rparr>))"

text \<open>\<open>pwrite\<close> of \<open>data\<close> at \<open>offset\<close>: a gap behind the end of the file reads as zeros.\<close>

definition overlay :: "string \<Rightarrow> nat \<Rightarrow> string \<Rightarrow> string" where
  "overlay content offset data =
     take offset content @ replicate (offset - length content) nul @ data @ drop (offset + length data) content"

definition resize :: "nat \<Rightarrow> string \<Rightarrow> string" where
  "resize n content = take n content @ replicate (n - length content) nul"

section \<open>File handles\<close>

datatype open_mode = ReadOnly | WriteOnly | ReadWrite

record file_handle =
  fh_open :: bool
  fh_path :: file_path
  fh_mode :: open_mode

definition FileHandle :: file_handle where
  "FileHandle = \<lparr>fh_open = False, fh_path = [], fh_mode = ReadOnly\<rparr>"

definition fh_Open :: "file_handle \<Rightarrow> file_path \<Rightarrow> open_mode \<Rightarrow> bool \<Rightarrow> bool \<Rightarrow> disk \<Rightarrow> bool \<times> file_handle \<times> disk" where
  "fh_Open h path mode create trunc d =
     (if path = [] \<or> fh_open h then (False, h, d)
      else case call_ok d of
        (ok, d) \<Rightarrow>
          if \<not> ok \<or> (\<not> dk_exists d path \<and> \<not> create) then (False, h, d)
          else (True, \<lparr>fh_open = True, fh_path = path, fh_mode = mode\<rparr>,
                if trunc \<or> \<not> dk_exists d path then put_content path [] d else d))"

definition fh_Close :: "file_handle \<Rightarrow> disk \<Rightarrow> bool \<times> file_handle \<times> disk" where
  "fh_Close h d =
     (if \<not> fh_open h then (True, h, d)
      else case call_ok d of (ok, d) \<Rightarrow> (ok, h\<lparr>fh_open := False, fh_path := []\<rparr>, d))"

definition off_max :: nat where
  "off_max = 2 ^ 63 - 1"

text \<open>How much of \<open>n\<close> bytes a call transfers that is neither interrupted nor failed.\<close>

definition granted :: "answer \<Rightarrow> nat \<Rightarrow> nat" where
  "granted a n = (case a of Partial k \<Rightarrow> min k n | _ \<Rightarrow> n)"

text \<open>The loops: the bytes transferred, None after an error.\<close>

function read_at_loop :: "file_path \<Rightarrow> nat \<Rightarrow> nat \<Rightarrow> string \<Rightarrow> disk \<Rightarrow> string option \<times> disk" where
  "read_at_loop path offset remaining buffer d =
     (if remaining = 0 then (Some buffer, d)
      else if off_max < offset then (None, d)
      else let (a, d) = next_answer d in
        if a = Failed then (None, d)
        else if a = Interrupted then read_at_loop path offset remaining buffer d
        else
          let got = take (granted a remaining) (drop offset (dk_content d path)) in
          if got = [] then (Some buffer, d)
          else read_at_loop path (offset + length got) (remaining - length got) (buffer @ got) d)"
  by pat_completeness auto
termination
proof (relation "measure (\<lambda>(path, offset, remaining, buffer, d). remaining + length (dk_answers d))")
qed (auto simp: next_answer_def Let_def split: list.splits)

function write_at_loop :: "file_path \<Rightarrow> nat \<Rightarrow> string \<Rightarrow> nat \<Rightarrow> disk \<Rightarrow> nat option \<times> disk" where
  "write_at_loop path offset data cnt d =
     (if data = [] then (Some cnt, d)
      else if off_max < offset then (None, d)
      else let (a, d) = next_answer d in
        if a = Failed then (None, d)
        else if a = Interrupted then write_at_loop path offset data cnt d
        else
          let n = granted a (length data) in
          if n = 0 then (Some cnt, d)
          else write_at_loop path (offset + n) (drop n data) (cnt + n)
            (put_content path (overlay (dk_content d path) offset (take n data)) d))"
  by pat_completeness auto
termination
proof (relation "measure (\<lambda>(path, offset, data, cnt, d). length data + length (dk_answers d))")
qed (auto simp: next_answer_def put_content_def split: list.splits)

definition fh_ReadAt :: "file_handle \<Rightarrow> 64 word \<Rightarrow> nat \<Rightarrow> disk \<Rightarrow> string option \<times> disk" where
  "fh_ReadAt h offset len d =
     (if \<not> fh_open h \<or> off_max < unat offset then (None, d)
      else if fh_mode h = WriteOnly then (if len = 0 then Some [] else None, d)
      else read_at_loop (fh_path h) (unat offset) len [] d)"

definition fh_WriteAt :: "file_handle \<Rightarrow> 64 word \<Rightarrow> string \<Rightarrow> disk \<Rightarrow> nat option \<times> disk" where
  "fh_WriteAt h offset data d =
     (if \<not> fh_open h \<or> off_max < unat offset then (None, d)
      else if fh_mode h = ReadOnly then (if data = [] then Some 0 else None, d)
      else write_at_loop (fh_path h) (unat offset) data 0 d)"

definition fh_Size :: "file_handle \<Rightarrow> disk \<Rightarrow> 64 word option \<times> disk" where
  "fh_Size h d =
     (if \<not> fh_open h then (None, d)
      else case call_ok d of
        (ok, d) \<Rightarrow> (if ok then Some (of_nat (length (dk_content d (fh_path h)))) else None, d))"

definition fh_Truncate :: "file_handle \<Rightarrow> 64 word \<Rightarrow> disk \<Rightarrow> bool \<times> disk" where
  "fh_Truncate h sz d =
     (if \<not> fh_open h \<or> off_max < unat sz then (False, d)
      else case call_ok d of
        (ok, d) \<Rightarrow>
          if \<not> ok \<or> fh_mode h = ReadOnly then (False, d)
          else (True, put_content (fh_path h) (resize (unat sz) (dk_content d (fh_path h))) d))"

declare read_at_loop.simps [simp del] write_at_loop.simps [simp del]

section \<open>What the loops transfer\<close>

lemma next_answer_files [simp]: "next_answer d = (a, d') \<Longrightarrow> dk_files d' = dk_files d"
  by (auto simp: next_answer_def split: list.splits)

lemma next_answer_length:
  assumes "next_answer d = (a, d')"
  shows "length (dk_answers d') \<le> length (dk_answers d)" and "a \<noteq> Done \<Longrightarrow> length (dk_answers d') < length (dk_answers d)"
  using assms by (cases "dk_answers d"; auto simp: next_answer_def)+

lemma put_content_simps [simp]:
  "dk_files (put_content path c d) = (dk_files d)(path \<mapsto> c)"
  "dk_answers (put_content path c d) = dk_answers d"
  "dk_content (put_content path c d) p = (if p = path then c else dk_content d p)"
  by (simp_all add: put_content_def dk_content_def content_of_def)

lemma dk_content_cong: "dk_files d' = dk_files d \<Longrightarrow> dk_content d' = dk_content d"
  by (rule ext) (simp add: dk_content_def)

lemma length_overlay [simp]: "length (overlay c n xs) = max (length c) (n + length xs)"
  by (simp add: overlay_def)

lemma nth_overlay:
  "i < length (overlay c n xs) \<Longrightarrow> overlay c n xs ! i =
    (if n \<le> i \<and> i < n + length xs then xs ! (i - n) else if i < length c then c ! i else nul)"
  by (auto simp: overlay_def nth_append min_def)

lemma overlay_append: "overlay (overlay c n xs) (n + length xs) ys = overlay c n (xs @ ys)"
  by (rule nth_equalityI) (auto simp: nth_overlay nth_append)

lemma take_overlay: "k \<le> n \<Longrightarrow> k \<le> length c \<Longrightarrow> take k (overlay c n xs) = take k c"
  by (simp add: overlay_def min_def)

lemma take_length_take: "take (length (take k xs)) xs = take k xs"
  by (simp add: min_def)

lemma granted_le: "granted a n \<le> n"
  by (simp add: granted_def split: answer.splits)

lemma read_at_loop_step:
  assumes "next_answer d = (a, d1)"
  shows "read_at_loop path offset n buffer d =
    (let got = take (granted a n) (drop offset (dk_content d path)) in
     if n = 0 then (Some buffer, d) else if off_max < offset then (None, d) else if a = Failed then (None, d1)
     else if a = Interrupted then read_at_loop path offset n buffer d1
     else if got = [] then (Some buffer, d1)
     else read_at_loop path (offset + length got) (n - length got) (buffer @ got) d1)"
proof -
  have "dk_content d1 = dk_content d" using next_answer_files [OF assms] by (rule dk_content_cong)
  with assms show ?thesis by (subst read_at_loop.simps) (simp only: Let_def prod.case)
qed

lemma read_at_loop_sound:
  "read_at_loop path offset n buffer d = (r, d') \<Longrightarrow> dk_files d' = dk_files d \<and>
    (\<forall>bytes. r = Some bytes \<longrightarrow> (\<exists>k \<le> n. bytes = buffer @ take k (drop offset (dk_content d path))))"
proof (induction "n + length (dk_answers d)" arbitrary: offset n buffer d rule: less_induct)
  case less
  obtain a d1 where a: "next_answer d = (a, d1)" by fastforce
  have c: "dk_content d1 = dk_content d" "dk_files d1 = dk_files d" using next_answer_files [OF a] dk_content_cong [of d1 d] by simp_all
  note step = read_at_loop_step [OF a, of path offset n buffer]
  define got where "got = take (granted a n) (drop offset (dk_content d path))"
  consider "n = 0 \<or> off_max < offset \<or> a = Failed \<or> (a \<noteq> Interrupted \<and> got = [])"
    | "0 < n" "\<not> off_max < offset" "a = Interrupted"
    | "0 < n" "\<not> off_max < offset" "a \<noteq> Failed" "a \<noteq> Interrupted" "got \<noteq> []" by auto
  then show ?case
  proof cases
    case 1
    then show ?thesis using less.prems c by (auto simp: step got_def Let_def split: if_splits intro: exI [of _ 0])
  next
    case 2
    then have "read_at_loop path offset n buffer d1 = (r, d')" using less.prems by (simp add: step)
    moreover have "length (dk_answers d1) < length (dk_answers d)"
      by (rule next_answer_length(2) [OF a]) (simp add: 2(3))
    ultimately show ?thesis using less.hyps [of n d1 offset buffer] c by simp
  next
    case 3
    then have "read_at_loop path (offset + length got) (n - length got) (buffer @ got) d1 = (r, d')"
      using less.prems by (simp add: step got_def [symmetric] Let_def)
    moreover have "length got \<le> n" "0 < length got"
      using 3(5) granted_le [of a n] by (auto simp: got_def)
    moreover have "length (dk_answers d1) \<le> length (dk_answers d)" by (rule next_answer_length(1) [OF a])
    ultimately have "read_at_loop path (offset + length got) (n - length got) (buffer @ got) d1 = (r, d')"
        "n - length got + length (dk_answers d1) < n + length (dk_answers d)" by linarith+
    from less.hyps [OF this(2,1)] have ih: "dk_files d' = dk_files d1"
      "\<forall>bytes. r = Some bytes \<longrightarrow> (\<exists>k \<le> n - length got. bytes = (buffer @ got) @
        take k (drop (offset + length got) (dk_content d path)))" by (simp_all add: c)
    have "length got \<le> n" using granted_le [of a n] by (auto simp: got_def)
    have "take (length got) (drop offset (dk_content d path)) = got" unfolding got_def by (rule take_length_take)
    have "\<exists>k \<le> n. got @ take k' (drop (offset + length got) (dk_content d path)) = take k (drop offset (dk_content d path))"
      if "k' \<le> n - length got" for k'
    proof (intro exI conjI)
      show "length got + k' \<le> n" using that \<open>length got \<le> n\<close> by simp
      show "got @ take k' (drop (offset + length got) (dk_content d path)) =
          take (length got + k') (drop offset (dk_content d path))"
        using \<open>take (length got) (drop offset (dk_content d path)) = got\<close>
          take_add [of "length got" k' "drop offset (dk_content d path)"] by (simp add: add.commute)
    qed
    then show ?thesis using ih c(2) by fastforce
  qed
qed

text \<open>A benign script has only interruptions and transfers that make progress.\<close>

definition benign :: "disk \<Rightarrow> bool" where
  "benign d \<longleftrightarrow> Failed \<notin> set (dk_answers d) \<and> Partial 0 \<notin> set (dk_answers d)"

lemma benign_next:
  assumes "benign d" and "next_answer d = (a, d')"
  shows "benign d'" and "a \<noteq> Failed" and "0 < n \<Longrightarrow> 0 < granted a n"
  using assms by (cases "dk_answers d"; auto simp: benign_def next_answer_def granted_def split: answer.splits)+

lemma benign_put [simp]: "benign (put_content path c d) = benign d"
  by (simp add: benign_def)

lemma read_at_loop_complete:
  "benign d \<Longrightarrow> offset + n \<le> length (dk_content d path) \<Longrightarrow> offset + n \<le> off_max \<Longrightarrow>
    \<exists>d'. read_at_loop path offset n buffer d = (Some (buffer @ take n (drop offset (dk_content d path))), d') \<and>
      benign d' \<and> dk_files d' = dk_files d"
proof (induction "n + length (dk_answers d)" arbitrary: offset n buffer d rule: less_induct)
  case less
  obtain a d1 where a: "next_answer d = (a, d1)" by fastforce
  have c: "dk_content d1 = dk_content d" "dk_files d1 = dk_files d"
    using next_answer_files [OF a] dk_content_cong [of d1 d] by simp_all
  note step = read_at_loop_step [OF a, of path offset n buffer] and ben = benign_next [OF less.prems(1) a]
  define got where "got = take (granted a n) (drop offset (dk_content d path))"
  consider "n = 0" | "0 < n" "a = Interrupted" | "0 < n" "a \<noteq> Interrupted" by auto
  then show ?case
  proof cases
    case 1
    then show ?thesis using less.prems(1) step by simp
  next
    case 2
    then have "length (dk_answers d1) < length (dk_answers d)" using next_answer_length(2) [OF a] by simp
    then show ?thesis using less.hyps [of n d1 offset buffer] less.prems ben(1) 2 by (simp add: step c)
  next
    case 3
    have len: "length got = granted a n"
      using less.prems(2) granted_le [of a n] unfolding got_def length_take length_drop min_def by auto
    then have got: "0 < length got" "length got \<le> n" using ben(3) [OF 3(1)] granted_le [of a n] by simp_all
    have "n - length got + length (dk_answers d1) < n + length (dk_answers d)"
      using got next_answer_length(1) [OF a] 3(1) by linarith
    from less.hyps [OF this ben(1), of "offset + length got" "buffer @ got"] obtain d' where
        "read_at_loop path (offset + length got) (n - length got) (buffer @ got) d1 =
          (Some ((buffer @ got) @ take (n - length got) (drop (offset + length got) (dk_content d path))), d')"
        "benign d'" "dk_files d' = dk_files d"
      using less.prems(2,3) got by (auto simp: c)
    moreover have "got @ take (n - length got) (drop (offset + length got) (dk_content d path)) =
        take n (drop offset (dk_content d path))"
      using len got(2) take_add [of "granted a n" "n - granted a n" "drop offset (dk_content d path)"]
      by (simp add: got_def add.commute)
    moreover have "read_at_loop path offset n buffer d =
        read_at_loop path (offset + length got) (n - length got) (buffer @ got) d1"
      using 3 got(1) less.prems(3) ben(2) by (simp add: step got_def [symmetric] Let_def)
    ultimately show ?thesis by simp
  qed
qed

lemma write_at_loop_step:
  assumes "next_answer d = (a, d1)"
  shows "write_at_loop path offset data cnt d =
    (let n = granted a (length data) in
     if data = [] then (Some cnt, d) else if off_max < offset then (None, d) else if a = Failed then (None, d1)
     else if a = Interrupted then write_at_loop path offset data cnt d1
     else if n = 0 then (Some cnt, d1)
     else write_at_loop path (offset + n) (drop n data) (cnt + n)
       (put_content path (overlay (dk_content d path) offset (take n data)) d1))"
proof -
  have "dk_content d1 = dk_content d" using next_answer_files [OF assms] by (rule dk_content_cong)
  with assms show ?thesis by (subst write_at_loop.simps) (simp only: Let_def prod.case)
qed

text \<open>\<open>wrote path offset data d d'\<close>: the file was changed by one write of \<open>data\<close>, other files were not.\<close>

definition wrote :: "file_path \<Rightarrow> nat \<Rightarrow> string \<Rightarrow> disk \<Rightarrow> disk \<Rightarrow> bool" where
  "wrote path offset data d d' \<longleftrightarrow>
     dk_files d' = (if data = [] then dk_files d
       else (dk_files d)(path \<mapsto> overlay (dk_content d path) offset data))"

lemma wrote_cong: "dk_files d1 = dk_files d \<Longrightarrow> wrote path offset data d1 d' = wrote path offset data d d'"
  using dk_content_cong [of d1 d] by (simp add: wrote_def)

lemma wrote_trans:
  assumes "wrote path offset xs d d1" and "wrote path (offset + length xs) ys d1 d2"
  shows "wrote path offset (xs @ ys) d d2"
proof (cases "xs = [] \<or> ys = []")
  case False
  then have "dk_content d1 path = overlay (dk_content d path) offset xs"
    using assms(1) by (simp add: wrote_def dk_content_def content_of_def)
  then show ?thesis using assms False by (simp add: wrote_def overlay_append)
qed (use assms in \<open>auto simp: wrote_def dk_content_def\<close>)

lemma write_at_loop_sound:
  "write_at_loop path offset data cnt d = (r, d') \<Longrightarrow>
    \<exists>k \<le> length data. wrote path offset (take k data) d d' \<and> (\<forall>n. r = Some n \<longrightarrow> n = cnt + k)"
proof (induction "length data + length (dk_answers d)" arbitrary: offset data cnt d rule: less_induct)
  case less
  obtain a d1 where a: "next_answer d = (a, d1)" by fastforce
  have c: "dk_content d1 = dk_content d" "dk_files d1 = dk_files d"
    using next_answer_files [OF a] dk_content_cong [of d1 d] by simp_all
  note step = write_at_loop_step [OF a, of path offset data cnt]
  define n where "n = granted a (length data)"
  consider "data = [] \<or> off_max < offset \<or> a = Failed \<or> (a \<noteq> Interrupted \<and> n = 0)"
    | "data \<noteq> []" "\<not> off_max < offset" "a = Interrupted"
    | "data \<noteq> []" "\<not> off_max < offset" "a \<noteq> Failed" "a \<noteq> Interrupted" "0 < n" by auto
  then show ?case
  proof cases
    case 1
    then have "(r, d') \<in> {None, Some cnt} \<times> {d, d1}"
      unfolding less.prems [symmetric] step Let_def n_def [symmetric] by (elim disjE) simp_all
    then have "dk_files d' = dk_files d" "\<forall>n. r = Some n \<longrightarrow> n = cnt" using c(2) by auto
    then show ?thesis by (intro exI [of _ 0]) (simp add: wrote_def)
  next
    case 2
    then have "write_at_loop path offset data cnt d1 = (r, d')" using less.prems by (simp add: step)
    moreover have "length (dk_answers d1) < length (dk_answers d)"
      by (rule next_answer_length(2) [OF a]) (simp add: 2(3))
    ultimately show ?thesis using less.hyps [of data d1 offset cnt] wrote_cong [OF c(2)] by simp
  next
    case 3
    let ?d = "put_content path (overlay (dk_content d path) offset (take n data)) d1"
    have le: "n \<le> length data" using granted_le by (simp add: n_def)
    have "write_at_loop path (offset + n) (drop n data) (cnt + n) ?d = (r, d')"
      using less.prems 3 by (simp add: step n_def [symmetric] Let_def)
    moreover have "length (drop n data) + length (dk_answers ?d) < length data + length (dk_answers d)"
      using 3(5) le next_answer_length(1) [OF a] by simp
    ultimately have "\<exists>k \<le> length (drop n data). wrote path (offset + n) (take k (drop n data)) ?d d' \<and>
        (\<forall>m. r = Some m \<longrightarrow> m = cnt + n + k)" by (rule less.hyps [rotated])
    then obtain k where k: "k \<le> length data - n" "wrote path (offset + n) (take k (drop n data)) ?d d'"
        "\<forall>m. r = Some m \<longrightarrow> m = cnt + n + k" unfolding length_drop by blast
    have "wrote path offset (take n data) d ?d" using 3(1,5) c by (simp add: wrote_def)
    from wrote_trans [OF this, of "take k (drop n data)" d'] k(2) le
    have "wrote path offset (take (n + k) data) d d'" by (simp add: take_add)
    moreover have "n + k \<le> length data" using k(1) le by linarith
    moreover have "\<forall>m. r = Some m \<longrightarrow> m = cnt + (n + k)" using k(3) unfolding add.assoc .
    ultimately show ?thesis by blast
  qed
qed

lemma write_at_loop_complete:
  "benign d \<Longrightarrow> offset + length data \<le> off_max \<Longrightarrow>
    \<exists>d'. write_at_loop path offset data cnt d = (Some (cnt + length data), d') \<and> benign d'"
proof (induction "length data + length (dk_answers d)" arbitrary: offset data cnt d rule: less_induct)
  case less
  obtain a d1 where a: "next_answer d = (a, d1)" by fastforce
  note step = write_at_loop_step [OF a, of path offset data cnt] and ben = benign_next [OF less.prems(1) a]
  define n where "n = granted a (length data)"
  consider "data = []" | "data \<noteq> []" "a = Interrupted" | "data \<noteq> []" "a \<noteq> Interrupted" by auto
  then show ?case
  proof cases
    case 1
    then show ?thesis using less.prems(1) step by simp
  next
    case 2
    then have "length (dk_answers d1) < length (dk_answers d)" using next_answer_length(2) [OF a] by simp
    then show ?thesis using less.hyps [of data d1 offset cnt] less.prems ben(1) 2 by (simp add: step)
  next
    case 3
    let ?d = "put_content path (overlay (dk_content d path) offset (take n data)) d1"
    have n: "0 < n" "n \<le> length data" using ben(3) [of "length data"] 3(1) granted_le by (simp_all add: n_def)
    have "length (drop n data) + length (dk_answers ?d) < length data + length (dk_answers d)"
      using n next_answer_length(1) [OF a] by simp
    from less.hyps [OF this, of "offset + n" "cnt + n"] obtain d' where
        "write_at_loop path (offset + n) (drop n data) (cnt + n) ?d = (Some (cnt + length data), d')" "benign d'"
      using less.prems(2) ben(1) n by auto
    then show ?thesis
      using 3 n(1) less.prems(2) ben(2) by (simp add: step n_def [symmetric] Let_def)
  qed
qed

section \<open>Properties\<close>

text \<open>C34: \<open>WriteAt\<close> changes the file by one contiguous write of a prefix of the data, the whole of it when it
  reports the full length, and \<open>ReadAt\<close> changes nothing and returns bytes of the file from the
  offset on. When calls are only interrupted or transfer less than they were asked for, both loops
  end with everything transferred.\<close>
theorem transfers_complete:
  assumes "fh_WriteAt h offset data d = (written, d1)" and "fh_ReadAt h offset len d = (bytes, d2)"
  shows "(\<exists>k \<le> length data. wrote (fh_path h) (unat offset) (take k data) d d1 \<and> (\<forall>n. written = Some n \<longrightarrow> n = k)) \<and>
    dk_files d2 = dk_files d \<and>
    (\<forall>bs. bytes = Some bs \<longrightarrow> (\<exists>k \<le> len. bs = take k (drop (unat offset) (dk_content d (fh_path h))))) \<and>
    (benign d \<longrightarrow> fh_open h \<longrightarrow> fh_mode h = ReadWrite \<longrightarrow>
      (unat offset + length data \<le> off_max \<longrightarrow> written = Some (length data)) \<and>
      (unat offset + len \<le> length (dk_content d (fh_path h)) \<longrightarrow> unat offset + len \<le> off_max \<longrightarrow>
        bytes = Some (take len (drop (unat offset) (dk_content d (fh_path h))))))"
proof -
  have none: "\<exists>k \<le> length data. wrote (fh_path h) (unat offset) (take k data) d d \<and> n = k" if "n = 0" for n
    using that by (intro exI [of _ 0]) (simp add: wrote_def)
  have "\<exists>k \<le> length data. wrote (fh_path h) (unat offset) (take k data) d d1 \<and> (\<forall>n. written = Some n \<longrightarrow> n = k)"
    using assms(1) write_at_loop_sound [of "fh_path h" "unat offset" data 0 d written d1] none [of 0]
    by (auto simp: fh_WriteAt_def split: if_splits)
  moreover have "dk_files d2 = dk_files d \<and>
      (\<forall>bs. bytes = Some bs \<longrightarrow> (\<exists>k \<le> len. bs = take k (drop (unat offset) (dk_content d (fh_path h)))))"
    using assms(2) read_at_loop_sound [of "fh_path h" "unat offset" len "[]" d bytes d2]
    by (auto simp: fh_ReadAt_def split: if_splits)
  moreover have "written = Some (length data)"
    if "benign d" "fh_open h" "fh_mode h = ReadWrite" "unat offset + length data \<le> off_max"
    using assms(1) that write_at_loop_complete [of d "unat offset" data "fh_path h" 0] by (auto simp: fh_WriteAt_def)
  moreover have "bytes = Some (take len (drop (unat offset) (dk_content d (fh_path h))))"
    if "benign d" "fh_open h" "fh_mode h = ReadWrite" "unat offset + len \<le> off_max"
      "unat offset + len \<le> length (dk_content d (fh_path h))"
    using assms(2) that read_at_loop_complete [of d "unat offset" len "fh_path h" "[]"] by (auto simp: fh_ReadAt_def)
  ultimately show ?thesis by blast
qed

definition sample_disk :: disk where
  "sample_disk = \<lparr>dk_files = [''p'' \<mapsto> ''abcd''], dk_answers = [Interrupted, Partial 1, Partial 2]\<rparr>"

theorem transfers_complete_witness:
  "fst (fh_ReadAt \<lparr>fh_open = True, fh_path = ''p'', fh_mode = ReadWrite\<rparr> 1 3 sample_disk) = Some ''bcd''"
proof -
  let ?h = "\<lparr>fh_open = True, fh_path = ''p'', fh_mode = ReadWrite\<rparr>"
  have "benign sample_disk" "dk_content sample_disk ''p'' = ''abcd''"
    by (simp_all add: benign_def sample_disk_def dk_content_def content_of_def)
  then show ?thesis
    using transfers_complete [where h = ?h and offset = 1 and data = "[]" and d = sample_disk and len = 3,
        OF prod.collapse [symmetric] prod.collapse [symmetric]]
    by (simp add: off_max_def)
qed

end
