(* ===== verification/ChunkStorage.thy ===== *)
theory ChunkStorage
  imports FileHandles
begin

text \<open>
  \<open>src/chunkserver/storage/chunk_file.cpp\<close> and \<open>chunk_storage.cpp\<close> (\<open>storage_manager.cpp\<close> passes every
  call on to the latter): one file per chunk, kept open, with its size in memory. The storage owns
  the disk; the \<open>shared_ptr\<close>s that \<open>GetChunk\<close> hands out are used up inside one operation, so a chunk
  file is a value of the table.

  A failed write may leave bytes on disk behind the size in memory; the contents of a chunk are
  therefore the first \<open>GetSize\<close> bytes of its file.
\<close>

section \<open>ChunkFile\<close>

record chunk_file =
  cf_handle :: chunk_handle
  cf_path :: file_path
  cf_file :: "file_handle option"
  cf_size :: "64 word"

definition ChunkFile :: "chunk_handle \<Rightarrow> file_path \<Rightarrow> chunk_file" where
  "ChunkFile handle path = \<lparr>cf_handle = handle, cf_path = path, cf_file = None, cf_size = 0\<rparr>"

definition cf_IsOpen :: "chunk_file \<Rightarrow> bool" where
  "cf_IsOpen c \<longleftrightarrow> (case cf_file c of None \<Rightarrow> False | Some h \<Rightarrow> fh_open h)"

definition cf_Create :: "chunk_file \<Rightarrow> disk \<Rightarrow> bool \<times> chunk_file \<times> disk" where
  "cf_Create c d =
     (if cf_handle c = 0 \<or> cf_path c = [] \<or> cf_IsOpen c then (False, c, d)
      else case (if slash \<in> set (cf_path c) then call_ok d else (True, d)) of
        (parents_ok, d) \<Rightarrow>
          if \<not> parents_ok \<or> dk_exists d (cf_path c) then (False, c, d)
          else case fh_Open FileHandle (cf_path c) ReadWrite True True d of
            (opened, h, d) \<Rightarrow>
              if \<not> opened then (False, c, d)
              else (True, c\<lparr>cf_file := Some h, cf_size := 0\<rparr>, d))"

definition cf_Open :: "chunk_file \<Rightarrow> disk \<Rightarrow> bool \<times> chunk_file \<times> disk" where
  "cf_Open c d =
     (if cf_handle c = 0 \<or> cf_path c = [] then (False, c, d)
      else if cf_IsOpen c then (True, c, d)
      else if \<not> dk_exists d (cf_path c) then (False, c, d)
      else case fh_Open FileHandle (cf_path c) ReadWrite False False d of
        (opened, h, d) \<Rightarrow>
          if \<not> opened then (False, c, d)
          else case fh_Size h d of
            (None, d) \<Rightarrow> (False, c, d)
          | (Some file_size, d) \<Rightarrow>
              if kChunkSize < file_size then (False, c, d)
              else (True, c\<lparr>cf_file := Some h, cf_size := file_size\<rparr>, d))"

definition cf_Close :: "chunk_file \<Rightarrow> disk \<Rightarrow> bool \<times> chunk_file \<times> disk" where
  "cf_Close c d =
     (case cf_file c of
        None \<Rightarrow> (True, c, d)
      | Some h \<Rightarrow> (case fh_Close h d of (result, _, d) \<Rightarrow> (result, c\<lparr>cf_file := None\<rparr>, d)))"

definition cf_Delete :: "chunk_file \<Rightarrow> disk \<Rightarrow> bool \<times> chunk_file \<times> disk" where
  "cf_Delete c d =
     (case (case cf_file c of
              None \<Rightarrow> (True, c, d)
            | Some h \<Rightarrow> (case fh_Close h d of
                (closed, h, d) \<Rightarrow> (closed, c\<lparr>cf_file := (if closed then None else Some h)\<rparr>, d))) of
        (closed, c, d) \<Rightarrow>
          if \<not> closed then (False, c, d)
          else case dk_remove (cf_path c) d of (removed, d) \<Rightarrow> (removed, c\<lparr>cf_size := 0\<rparr>, d))"

definition IsRangeValid :: "chunk_file \<Rightarrow> 64 word \<Rightarrow> 64 word \<Rightarrow> bool" where
  "IsRangeValid c offset len = (if cf_size c < offset then False else len \<le> cf_size c - offset)"

definition cf_Read :: "chunk_file \<Rightarrow> 64 word \<Rightarrow> 64 word \<Rightarrow> disk \<Rightarrow> string option \<times> disk" where
  "cf_Read c offset len d =
     (case cf_file c of
        None \<Rightarrow> (None, d)
      | Some h \<Rightarrow>
          if \<not> fh_open h \<or> \<not> IsRangeValid c offset len then (None, d)
          else if len = 0 then (Some [], d)
          else fh_ReadAt h offset (unat len) d)"

definition cf_Write :: "chunk_file \<Rightarrow> 64 word \<Rightarrow> string \<Rightarrow> disk \<Rightarrow> bool \<times> chunk_file \<times> disk" where
  "cf_Write c offset data d =
     (case cf_file c of
        None \<Rightarrow> (False, c, d)
      | Some h \<Rightarrow>
          if \<not> fh_open h then (False, c, d)
          else if kChunkSize < offset \<or> unat (kChunkSize - offset) < length data then (False, c, d)
          else if data = [] then (True, c, d)
          else case fh_WriteAt h offset data d of
            (written, d) \<Rightarrow>
              if written \<noteq> Some (length data) then (False, c, d)
              else (True, c\<lparr>cf_size := max (cf_size c) (offset + of_nat (length data))\<rparr>, d))"

definition cf_Truncate :: "chunk_file \<Rightarrow> 64 word \<Rightarrow> disk \<Rightarrow> bool \<times> chunk_file \<times> disk" where
  "cf_Truncate c sz d =
     (case cf_file c of
        None \<Rightarrow> (False, c, d)
      | Some h \<Rightarrow>
          if \<not> fh_open h \<or> kChunkSize < sz then (False, c, d)
          else case fh_Truncate h sz d of
            (ok, d) \<Rightarrow> (ok, if ok then c\<lparr>cf_size := sz\<rparr> else c, d))"

section \<open>ChunkStorage\<close>

record chunk_storage =
  sg_directory :: file_path
  sg_chunks :: "(chunk_handle \<times> chunk_file) list"
  sg_disk :: disk

definition ChunkStorage :: "file_path \<Rightarrow> disk \<Rightarrow> chunk_storage" where
  "ChunkStorage dir d = \<lparr>sg_directory = dir, sg_chunks = [], sg_disk = d\<rparr>"

definition sg_put :: "chunk_handle \<Rightarrow> chunk_file \<Rightarrow> chunk_storage \<Rightarrow> chunk_storage" where
  "sg_put handle c s = s\<lparr>sg_chunks := AList.update handle c (sg_chunks s)\<rparr>"

definition GetChunkPath :: "chunk_storage \<Rightarrow> chunk_handle \<Rightarrow> file_path" where
  "GetChunkPath s handle = path_div (sg_directory s) (''chunk_'' @ to_string handle)"

text \<open>The body of the loop of \<open>Initialize\<close>, for the name of a regular file.\<close>

definition init_entry :: "string \<Rightarrow> chunk_storage \<Rightarrow> chunk_storage" where
  "init_entry filename s =
     (if \<not> prefix ''chunk_'' filename then s
      else
        let handle_text = drop 6 filename in
        if handle_text = [] then s
        else case stoull handle_text of
          None \<Rightarrow> s
        | Some (value, _) \<Rightarrow>
            if value = 0 then s
            else case cf_Open (ChunkFile value (path_div (sg_directory s) filename)) (sg_disk s) of
              (opened, c, d) \<Rightarrow> if opened then sg_put value c (s\<lparr>sg_disk := d\<rparr>) else s\<lparr>sg_disk := d\<rparr>)"

text \<open>
  \<open>entries\<close>: the names of the regular files in the directory, in the order of its iterator. When the
  directory cannot be listed the iterator is the end iterator, and the loop has no turn.
\<close>

definition sg_Initialize :: "string list \<Rightarrow> chunk_storage \<Rightarrow> bool \<times> chunk_storage" where
  "sg_Initialize entries s =
     (if sg_directory s = [] then (False, s)
      else case call_ok (sg_disk s) of
        (created, d) \<Rightarrow>
          if \<not> created then (False, s\<lparr>sg_disk := d\<rparr>)
          else case call_ok d of
            (listed, d) \<Rightarrow> (True, fold init_entry (if listed then entries else []) (s\<lparr>sg_disk := d\<rparr>)))"

definition sg_HasChunk :: "chunk_storage \<Rightarrow> chunk_handle \<Rightarrow> bool" where
  "sg_HasChunk s handle \<longleftrightarrow> map_of (sg_chunks s) handle \<noteq> None"

definition sg_CreateChunk :: "chunk_handle \<Rightarrow> chunk_storage \<Rightarrow> bool \<times> chunk_storage" where
  "sg_CreateChunk handle s =
     (if handle = 0 \<or> sg_HasChunk s handle then (False, s)
      else case cf_Create (ChunkFile handle (GetChunkPath s handle)) (sg_disk s) of
        (ok, c, d) \<Rightarrow>
          if \<not> ok then (False, s\<lparr>sg_disk := d\<rparr>) else (True, sg_put handle c (s\<lparr>sg_disk := d\<rparr>)))"

definition sg_OpenChunk :: "chunk_handle \<Rightarrow> chunk_storage \<Rightarrow> bool \<times> chunk_storage" where
  "sg_OpenChunk handle s =
     (if handle = 0 then (False, s)
      else if sg_HasChunk s handle then (True, s)
      else if \<not> dk_exists (sg_disk s) (GetChunkPath s handle) then (False, s)
      else case cf_Open (ChunkFile handle (GetChunkPath s handle)) (sg_disk s) of
        (ok, c, d) \<Rightarrow>
          if \<not> ok then (False, s\<lparr>sg_disk := d\<rparr>) else (True, sg_put handle c (s\<lparr>sg_disk := d\<rparr>)))"

definition sg_DeleteChunk :: "chunk_handle \<Rightarrow> chunk_storage \<Rightarrow> bool \<times> chunk_storage" where
  "sg_DeleteChunk handle s =
     (case map_of (sg_chunks s) handle of
        None \<Rightarrow>
          (case dk_remove (GetChunkPath s handle) (sg_disk s) of (removed, d) \<Rightarrow> (removed, s\<lparr>sg_disk := d\<rparr>))
      | Some c \<Rightarrow>
          (case cf_Delete c (sg_disk s) of
             (deleted, _, d) \<Rightarrow> (deleted, s\<lparr>sg_chunks := AList.delete handle (sg_chunks s), sg_disk := d\<rparr>)))"

definition sg_ChunkExists :: "chunk_storage \<Rightarrow> chunk_handle \<Rightarrow> bool" where
  "sg_ChunkExists s handle \<longleftrightarrow> sg_HasChunk s handle \<or> dk_exists (sg_disk s) (GetChunkPath s handle)"

definition sg_GetChunk :: "chunk_storage \<Rightarrow> chunk_handle \<Rightarrow> chunk_file option" where
  "sg_GetChunk s handle = map_of (sg_chunks s) handle"

definition GetOrOpenChunk :: "chunk_handle \<Rightarrow> chunk_storage \<Rightarrow> chunk_file option \<times> chunk_storage" where
  "GetOrOpenChunk handle s =
     (case sg_GetChunk s handle of
        Some c \<Rightarrow> (Some c, s)
      | None \<Rightarrow> (case sg_OpenChunk handle s of
          (opened, s) \<Rightarrow> (if opened then sg_GetChunk s handle else None, s)))"

definition sg_ReadChunk :: "chunk_handle \<Rightarrow> 64 word \<Rightarrow> 64 word \<Rightarrow> chunk_storage \<Rightarrow> string option \<times> chunk_storage" where
  "sg_ReadChunk handle offset len s =
     (case GetOrOpenChunk handle s of
        (None, s) \<Rightarrow> (None, s)
      | (Some c, s) \<Rightarrow> (case cf_Read c offset len (sg_disk s) of (data, d) \<Rightarrow> (data, s\<lparr>sg_disk := d\<rparr>)))"

definition sg_WriteChunk :: "chunk_handle \<Rightarrow> 64 word \<Rightarrow> string \<Rightarrow> chunk_storage \<Rightarrow> bool \<times> chunk_storage" where
  "sg_WriteChunk handle offset data s =
     (case sg_GetChunk s handle of
        None \<Rightarrow> (False, s)
      | Some c \<Rightarrow> (case cf_Write c offset data (sg_disk s) of
          (ok, c, d) \<Rightarrow> (ok, sg_put handle c (s\<lparr>sg_disk := d\<rparr>))))"

definition sg_TruncateChunk :: "chunk_handle \<Rightarrow> 64 word \<Rightarrow> chunk_storage \<Rightarrow> bool \<times> chunk_storage" where
  "sg_TruncateChunk handle sz s =
     (case sg_GetChunk s handle of
        None \<Rightarrow> (False, s)
      | Some c \<Rightarrow> (case cf_Truncate c sz (sg_disk s) of
          (ok, c, d) \<Rightarrow> (ok, sg_put handle c (s\<lparr>sg_disk := d\<rparr>))))"

definition sg_GetChunkSize :: "chunk_storage \<Rightarrow> chunk_handle \<Rightarrow> 64 word" where
  "sg_GetChunkSize s handle = (case sg_GetChunk s handle of None \<Rightarrow> 0 | Some c \<Rightarrow> cf_size c)"

definition sg_ListChunks :: "chunk_storage \<Rightarrow> chunk_handle list" where
  "sg_ListChunks s = sort (map fst (sg_chunks s))"

definition sg_ChunkCount :: "chunk_storage \<Rightarrow> nat" where
  "sg_ChunkCount s = length (sg_chunks s)"

section \<open>The invariant\<close>

definition cf_ok :: "file_path \<Rightarrow> disk \<Rightarrow> chunk_handle \<Rightarrow> chunk_file \<Rightarrow> bool" where
  "cf_ok dir d h c \<longleftrightarrow> cf_handle c = h \<and> h \<noteq> 0 \<and>
     (\<exists>text pos. cf_path c = path_div dir (''chunk_'' @ text) \<and> stoull text = Some (h, pos)) \<and>
     cf_file c = Some \<lparr>fh_open = True, fh_path = cf_path c, fh_mode = ReadWrite\<rparr> \<and>
     cf_size c \<le> kChunkSize \<and> unat (cf_size c) \<le> length (dk_content d (cf_path c)) \<and> dk_exists d (cf_path c)"

definition sg_ok :: "chunk_storage \<Rightarrow> bool" where
  "sg_ok s \<longleftrightarrow> distinct (map fst (sg_chunks s)) \<and>
     (\<forall>h c. map_of (sg_chunks s) h = Some c \<longrightarrow> cf_ok (sg_directory s) (sg_disk s) h c)"

text \<open>The abstract contents: the bytes of every chunk in the table.\<close>

definition cf_bytes :: "disk \<Rightarrow> chunk_file \<Rightarrow> string" where
  "cf_bytes d c = take (unat (cf_size c)) (dk_content d (cf_path c))"

definition sg_bytes :: "chunk_storage \<Rightarrow> chunk_handle \<Rightarrow> string option" where
  "sg_bytes s h = map_option (cf_bytes (sg_disk s)) (map_of (sg_chunks s) h)"

definition only_changes :: "file_path \<Rightarrow> disk \<Rightarrow> disk \<Rightarrow> bool" where
  "only_changes path d d' \<longleftrightarrow> (\<forall>p. p \<noteq> path \<longrightarrow> dk_files d' p = dk_files d p)"

lemma only_changes_refl [simp]: "only_changes path d d"
  by (simp add: only_changes_def)

lemma only_changes_files: "dk_files d' = dk_files d \<Longrightarrow> only_changes path d d'"
  by (simp add: only_changes_def)

lemma cf_frame:
  assumes "dk_files d' (cf_path c) = dk_files d (cf_path c)"
  shows "cf_ok dir d' h c = cf_ok dir d h c" "cf_bytes d' c = cf_bytes d c"
  using assms by (simp_all add: cf_ok_def cf_bytes_def dk_content_def content_of_def dk_exists_def)

lemma call_ok_files: "call_ok d = (ok, d') \<Longrightarrow> dk_files d' = dk_files d"
  by (auto simp: call_ok_def split: prod.splits)

lemma benign_call:
  assumes "benign d" and "call_ok d = (ok, d')"
  shows "ok" "benign d'"
proof -
  obtain a d1 where a: "next_answer d = (a, d1)" by fastforce
  show "ok" "benign d'" using benign_next [OF assms(1) a] assms(2) a by (auto simp: call_ok_def)
qed

lemma cf_ok_size:
  assumes "cf_ok dir d h c"
  shows "unat (cf_size c) \<le> 2 ^ 26"
proof -
  have "unat (cf_size c) \<le> unat kChunkSize" using assms by (simp add: cf_ok_def word_le_nat_alt)
  then show ?thesis by (simp add: kChunkSize_def)
qed

lemma length_cf_bytes: "cf_ok dir d h c \<Longrightarrow> length (cf_bytes d c) = unat (cf_size c)"
  by (simp add: cf_ok_def cf_bytes_def)

lemma cf_paths_differ: "cf_ok dir d h c \<Longrightarrow> cf_ok dir d' h' c' \<Longrightarrow> h \<noteq> h' \<Longrightarrow> cf_path c \<noteq> cf_path c'"
  by (auto simp: cf_ok_def)

lemma stoull_handle: "stoull (to_string h) = Some (h, length (to_string h))"
  using parse_to_string [of h] by (auto simp: parse_u64_def split: option.splits if_splits)

lemma GetChunkPath_other: "cf_ok (sg_directory s) d h' c \<Longrightarrow> h \<noteq> h' \<Longrightarrow> cf_path c \<noteq> GetChunkPath s h"
  by (auto simp: cf_ok_def GetChunkPath_def stoull_handle)

section \<open>Operations on one file\<close>

lemma ChunkFile_simps [simp]:
  "\<not> cf_IsOpen (ChunkFile h p)" "cf_handle (ChunkFile h p) = h" "cf_path (ChunkFile h p) = p"
  by (simp_all add: ChunkFile_def cf_IsOpen_def)

lemma cf_Open_result:
  assumes "cf_Open (ChunkFile h path) d = (ok, c, d')" and "path = path_div dir (''chunk_'' @ text)" and "stoull text = Some (h, pos)"
  shows "dk_files d' = dk_files d" and "ok \<Longrightarrow> cf_ok dir d' h c \<and> cf_path c = path \<and>
    cf_size c = of_nat (length (dk_content d path))"
proof -
  have "dk_files d' = dk_files d \<and> (ok \<longrightarrow> cf_ok dir d' h c \<and> cf_path c = path \<and>
      cf_size c = of_nat (length (dk_content d path)))"
  proof (cases "h = 0 \<or> path = [] \<or> \<not> dk_exists d path")
    case True
    then have "\<not> ok \<and> d' = d" using assms(1) by (auto simp: cf_Open_def split: if_splits)
    then show ?thesis by simp
  next
    case False
    obtain b1 d1 where d1: "call_ok d = (b1, d1)" by fastforce
    obtain b2 d2 where d2: "call_ok d1 = (b2, d2)" by fastforce
    have f: "dk_files d1 = dk_files d" "dk_files d2 = dk_files d"
      using call_ok_files [OF d1] call_ok_files [OF d2] by simp_all
    then have c: "dk_exists d1 path" "dk_content d2 path = dk_content d path"
      using False by (simp_all add: dk_exists_def dk_content_def)
    have "unat (of_nat n :: 64 word) \<le> n" for n by (simp add: unat_of_nat)
    then show ?thesis
      using assms False d1 d2 f c
      by (auto simp: cf_Open_def ChunkFile_def cf_IsOpen_def fh_Open_def FileHandle_def fh_Size_def cf_ok_def
          dk_exists_def not_less split: if_splits)
  qed
  then show "dk_files d' = dk_files d" and "ok \<Longrightarrow> cf_ok dir d' h c \<and> cf_path c = path \<and>
    cf_size c = of_nat (length (dk_content d path))" by auto
qed

lemma cf_Create_result:
  assumes "cf_Create (ChunkFile h path) d = (ok, c, d')" and "path = path_div dir (''chunk_'' @ text)" and "stoull text = Some (h, pos)"
  shows "\<not> ok \<Longrightarrow> dk_files d' = dk_files d"
    and "ok \<Longrightarrow> cf_ok dir d' h c \<and> cf_path c = path \<and> cf_bytes d' c = [] \<and> only_changes path d d' \<and> \<not> dk_exists d path"
proof -
  have "if ok then cf_ok dir d' h c \<and> cf_path c = path \<and> cf_bytes d' c = [] \<and> only_changes path d d' \<and> \<not> dk_exists d path
      else dk_files d' = dk_files d"
  proof (cases "h = 0 \<or> path = []")
    case True
    then have "\<not> ok \<and> d' = d" using assms(1) by (auto simp: cf_Create_def)
    then show ?thesis by simp
  next
    case False
    obtain b1 d1 where d1: "(if slash \<in> set path then call_ok d else (True, d)) = (b1, d1)" by fastforce
    then have f1: "dk_files d1 = dk_files d" using call_ok_files by (auto split: if_splits)
    obtain b2 d2 where d2: "call_ok d1 = (b2, d2)" by fastforce
    have f2: "dk_files d2 = dk_files d" using call_ok_files [OF d2] f1 by simp
    show ?thesis
      using assms False d1 d2 f1 f2
      by (auto simp: cf_Create_def ChunkFile_def cf_IsOpen_def fh_Open_def FileHandle_def cf_ok_def cf_bytes_def
          only_changes_def dk_exists_def split: if_splits)
  qed
  then show "\<not> ok \<Longrightarrow> dk_files d' = dk_files d"
    and "ok \<Longrightarrow> cf_ok dir d' h c \<and> cf_path c = path \<and> cf_bytes d' c = [] \<and> only_changes path d d' \<and> \<not> dk_exists d path"
    by simp_all
qed

lemma cf_Delete_changes:
  assumes "cf_Delete c d = (ok, c', d')"
  shows "only_changes (cf_path c) d d'"
proof -
  have rm: "only_changes p d1 d2" if "dk_remove p d1 = (r, d2)" for p d1 r d2
    using that call_ok_files by (fastforce simp: dk_remove_def only_changes_def split: prod.splits bool.splits)
  have cl: "dk_files d1 = dk_files d" if "fh_Close h d = (r, h', d1)" for h r h' d1
    using that call_ok_files by (fastforce simp: fh_Close_def split: prod.splits if_splits)
  show ?thesis
    using assms rm cl
    by (fastforce simp: cf_Delete_def only_changes_def split: option.splits prod.splits if_splits)
qed

lemma off_max_chunk: "n \<le> 2 ^ 26 \<Longrightarrow> n \<le> off_max"
  by (simp add: off_max_def)

lemma range_valid_unat:
  "IsRangeValid c offset len \<longleftrightarrow> unat offset + unat len \<le> unat (cf_size c)"
proof (cases "cf_size c < offset")
  case False
  then have "unat (cf_size c - offset) = unat (cf_size c) - unat offset" "unat offset \<le> unat (cf_size c)"
    by (simp_all add: unat_sub word_le_nat_alt not_less)
  then show ?thesis using False by (auto simp: IsRangeValid_def word_le_nat_alt)
qed (auto simp: IsRangeValid_def word_less_nat_alt)

lemma cf_Read_result:
  assumes "cf_ok dir d h c" and "cf_Read c offset len d = (r, d')"
  shows "dk_files d' = dk_files d"
    and "r = Some bytes \<Longrightarrow> unat offset + unat len \<le> length (cf_bytes d c) \<and>
      (\<exists>k \<le> unat len. bytes = take k (drop (unat offset) (cf_bytes d c)))"
    and "benign d \<Longrightarrow> benign d' \<and> r = (if unat offset + unat len \<le> length (cf_bytes d c)
      then Some (take (unat len) (drop (unat offset) (cf_bytes d c))) else None)"
proof -
  let ?content = "dk_content d (cf_path c)"
  note len = length_cf_bytes [OF assms(1)] cf_ok_size [OF assms(1)]
  have open_file: "cf_file c = Some \<lparr>fh_open = True, fh_path = cf_path c, fh_mode = ReadWrite\<rparr>"
      and size: "unat (cf_size c) \<le> length ?content"
    using assms(1) by (simp_all add: cf_ok_def)
  have cut: "take k (drop (unat offset) ?content) = take k (drop (unat offset) (cf_bytes d c))"
    if "k \<le> unat len" "unat offset + unat len \<le> unat (cf_size c)" for k
    using that by (simp add: cf_bytes_def drop_take min_def)
  have all: "dk_files d' = dk_files d \<and>
      (\<forall>bytes. r = Some bytes \<longrightarrow> unat offset + unat len \<le> length (cf_bytes d c) \<and>
        (\<exists>k \<le> unat len. bytes = take k (drop (unat offset) (cf_bytes d c)))) \<and>
      (benign d \<longrightarrow> benign d' \<and> r = (if unat offset + unat len \<le> length (cf_bytes d c)
        then Some (take (unat len) (drop (unat offset) (cf_bytes d c))) else None))"
  proof (cases "IsRangeValid c offset len \<and> len \<noteq> 0")
    case True
    then have fits: "unat offset + unat len \<le> unat (cf_size c)" by (simp add: range_valid_unat)
    then have "unat offset + unat len \<le> off_max" using len(2) off_max_chunk by simp
    then have loop: "read_at_loop (cf_path c) (unat offset) (unat len) [] d = (r, d')"
      using assms(2) True open_file by (simp add: cf_Read_def fh_ReadAt_def)
    note sound = read_at_loop_sound [OF loop]
    have "\<exists>k \<le> unat len. bytes = take k (drop (unat offset) (cf_bytes d c))" if r: "r = Some bytes" for bytes
    proof -
      obtain k where "k \<le> unat len" "bytes = take k (drop (unat offset) ?content)" using sound r by auto
      then show ?thesis using cut [of k] fits by blast
    qed
    moreover have "benign d' \<and> r = Some (take (unat len) (drop (unat offset) (cf_bytes d c)))" if "benign d"
      using read_at_loop_complete [OF that, of "unat offset" "unat len" "cf_path c" "[]"] loop fits size \<open>_ \<le> off_max\<close>
        cut [of "unat len"] by auto
    ultimately show ?thesis using sound fits len(1) by auto
  next
    case False
    then show ?thesis
      using assms(2) open_file len by (auto simp: cf_Read_def range_valid_unat split: if_splits)
  qed
  then show "dk_files d' = dk_files d"
    and "r = Some bytes \<Longrightarrow> unat offset + unat len \<le> length (cf_bytes d c) \<and>
      (\<exists>k \<le> unat len. bytes = take k (drop (unat offset) (cf_bytes d c)))"
    and "benign d \<Longrightarrow> benign d' \<and> r = (if unat offset + unat len \<le> length (cf_bytes d c)
      then Some (take (unat len) (drop (unat offset) (cf_bytes d c))) else None)" by blast+
qed

lemma take_overlay_total:
  "n \<le> sz \<Longrightarrow> sz \<le> length c \<Longrightarrow> take (max sz (n + length xs)) (overlay c n xs) = overlay (take sz c) n xs"
  by (rule nth_equalityI) (auto simp: nth_overlay)

lemma cf_Write_result:
  assumes ok: "cf_ok dir d h c" and w: "cf_Write c offset data d = (b, c', d')"
  shows "cf_ok dir d' h c'" "only_changes (cf_path c) d d'" "cf_path c' = cf_path c"
    and "\<not> b \<Longrightarrow> cf_size c' = cf_size c"
    and "b \<Longrightarrow> unat offset + length data \<le> 2 ^ 26"
    and "b \<Longrightarrow> unat offset \<le> unat (cf_size c) \<Longrightarrow> cf_bytes d' c' = overlay (cf_bytes d c) (unat offset) data"
    and "b \<Longrightarrow> unat (cf_size c') = (if data = [] then unat (cf_size c) else max (unat (cf_size c)) (unat offset + length data))"
    and "benign d \<Longrightarrow> benign d' \<and> (b \<longleftrightarrow> unat offset + length data \<le> 2 ^ 26)"
proof -
  let ?content = "dk_content d (cf_path c)"
  note sz = cf_ok_size [OF ok]
  have open_file: "cf_file c = Some \<lparr>fh_open = True, fh_path = cf_path c, fh_mode = ReadWrite\<rparr>"
      and size: "unat (cf_size c) \<le> length ?content"
    using ok by (simp_all add: cf_ok_def)
  have K: "unat kChunkSize = 2 ^ 26" by (simp add: kChunkSize_def)
  have fits: "\<not> (kChunkSize < offset \<or> unat (kChunkSize - offset) < length data) \<longleftrightarrow> unat offset + length data \<le> 2 ^ 26"
  proof (cases "kChunkSize < offset")
    case False
    then have "unat (kChunkSize - offset) = 2 ^ 26 - unat offset" "unat offset \<le> 2 ^ 26"
      by (simp_all add: unat_sub word_le_nat_alt not_less K)
    then show ?thesis using False by auto
  qed (simp add: word_less_nat_alt K)
  have "cf_ok dir d' h c' \<and> only_changes (cf_path c) d d' \<and> cf_path c' = cf_path c \<and> (\<not> b \<longrightarrow> cf_size c' = cf_size c) \<and>
    (b \<longrightarrow> unat offset + length data \<le> 2 ^ 26) \<and>
    (b \<longrightarrow> unat offset \<le> unat (cf_size c) \<longrightarrow> cf_bytes d' c' = overlay (cf_bytes d c) (unat offset) data) \<and>
    (b \<longrightarrow> unat (cf_size c') = (if data = [] then unat (cf_size c) else max (unat (cf_size c)) (unat offset + length data))) \<and>
    (benign d \<longrightarrow> benign d' \<and> (b \<longleftrightarrow> unat offset + length data \<le> 2 ^ 26))"
  proof (cases "unat offset + length data \<le> 2 ^ 26 \<and> data \<noteq> []")
    case True
    obtain r d1 where loop: "write_at_loop (cf_path c) (unat offset) data 0 d = (r, d1)" by fastforce
    have "unat offset \<le> off_max" using True off_max_chunk [of "unat offset"] by simp
    then have res: "b \<longleftrightarrow> r = Some (length data)" "d' = d1"
        "c' = (if b then c\<lparr>cf_size := max (cf_size c) (offset + of_nat (length data))\<rparr> else c)"
      using w True fits open_file loop by (auto simp: cf_Write_def fh_WriteAt_def split: if_splits)
    from write_at_loop_sound [OF loop] obtain k where k: "k \<le> length data" "wrote (cf_path c) (unat offset) (take k data) d d1"
        "\<forall>n. r = Some n \<longrightarrow> n = k" by auto
    have content: "dk_content d1 (cf_path c) = (if take k data = [] then ?content else overlay ?content (unat offset) (take k data))"
      using k(2) by (simp add: wrote_def dk_content_def content_of_def)
    have only: "only_changes (cf_path c) d d1" using k(2) by (auto simp: wrote_def only_changes_def)
    have exists: "dk_exists d1 (cf_path c)" using ok k(2) by (simp add: wrote_def dk_exists_def cf_ok_def)
    have "unat (of_nat (length data) :: 64 word) = length data" using True by (simp add: unat_of_nat)
    then have "unat (offset + of_nat (length data)) = unat offset + length data"
      using True by (simp add: unat_word_ariths)
    then have newsize: "unat (max (cf_size c) (offset + of_nat (length data))) = max (unat (cf_size c)) (unat offset + length data)"
      by (simp add: max_def word_le_nat_alt)
    have "unat (cf_size c') \<le> 2 ^ 26" using newsize sz True by (simp add: res(3))
    then have "cf_size c' \<le> kChunkSize" by (simp add: word_le_nat_alt K)
    moreover have "b \<Longrightarrow> k = length data" using k(3) res(1) by blast
    then have "unat (cf_size c') \<le> length (dk_content d1 (cf_path c))"
      using newsize size True by (auto simp: res(3) content)
    ultimately have "cf_ok dir d1 h c'" using ok exists by (auto simp: cf_ok_def res(3))
    moreover have "cf_bytes d1 c' = overlay (cf_bytes d c) (unat offset) data" if "b" "unat offset \<le> unat (cf_size c)"
    proof -
      have "cf_bytes d1 c' = take (max (unat (cf_size c)) (unat offset + length data)) (overlay ?content (unat offset) data)"
        using that True k(3) res(1) newsize by (auto simp: cf_bytes_def content res(3))
      then show ?thesis using take_overlay_total [OF that(2) size, of data] by (simp add: cf_bytes_def)
    qed
    moreover have "benign d1 \<and> b" if "benign d"
    proof -
      have "unat offset + length data \<le> off_max" using True off_max_chunk by blast
      from write_at_loop_complete [OF that this, of "cf_path c" 0] show ?thesis using loop res(1) by auto
    qed
    ultimately show ?thesis using only newsize res True by auto
  next
    case False
    have "overlay (cf_bytes d c) (unat offset) [] = cf_bytes d c" if "unat offset \<le> unat (cf_size c)"
      using that length_cf_bytes [OF ok] by (simp add: overlay_def)
    moreover have "(b, c', d') = (unat offset + length data \<le> 2 ^ 26, c, d)"
      using w False fits open_file unfolding cf_Write_def by (auto split: if_splits)
    ultimately show ?thesis using ok False by auto
  qed
  then show "cf_ok dir d' h c'" "only_changes (cf_path c) d d'" "cf_path c' = cf_path c"
    and "\<not> b \<Longrightarrow> cf_size c' = cf_size c"
    and "b \<Longrightarrow> unat offset + length data \<le> 2 ^ 26"
    and "b \<Longrightarrow> unat offset \<le> unat (cf_size c) \<Longrightarrow> cf_bytes d' c' = overlay (cf_bytes d c) (unat offset) data"
    and "b \<Longrightarrow> unat (cf_size c') = (if data = [] then unat (cf_size c) else max (unat (cf_size c)) (unat offset + length data))"
    and "benign d \<Longrightarrow> benign d' \<and> (b \<longleftrightarrow> unat offset + length data \<le> 2 ^ 26)"
    by blast+
qed

lemma cf_Truncate_result:
  assumes ok: "cf_ok dir d h c" and t: "cf_Truncate c sz d = (b, c', d')"
  shows "cf_ok dir d' h c'" "only_changes (cf_path c) d d'" "cf_path c' = cf_path c"
    and "b \<Longrightarrow> cf_size c' = sz \<and> unat sz \<le> 2 ^ 26 \<and> cf_bytes d' c' = resize (unat sz) (dk_content d (cf_path c))"
    and "\<not> b \<Longrightarrow> cf_bytes d' c' = cf_bytes d c"
    and "benign d \<Longrightarrow> benign d' \<and> (b \<longleftrightarrow> unat sz \<le> 2 ^ 26)"
proof -
  have open_file: "cf_file c = Some \<lparr>fh_open = True, fh_path = cf_path c, fh_mode = ReadWrite\<rparr>"
    using ok by (simp add: cf_ok_def)
  have K: "kChunkSize < sz \<longleftrightarrow> \<not> unat sz \<le> 2 ^ 26" by (simp add: kChunkSize_def word_less_nat_alt not_le)
  obtain a d1 where d1: "call_ok d = (a, d1)" by fastforce
  have f: "dk_files d1 = dk_files d" by (rule call_ok_files [OF d1])
  have off: "unat sz \<le> 2 ^ 26 \<Longrightarrow> \<not> off_max < unat sz" using off_max_chunk [of "unat sz"] by simp
  have "cf_ok dir d' h c' \<and> only_changes (cf_path c) d d' \<and> cf_path c' = cf_path c \<and>
    (b \<longrightarrow> cf_size c' = sz \<and> unat sz \<le> 2 ^ 26 \<and> cf_bytes d' c' = resize (unat sz) (dk_content d (cf_path c))) \<and>
    (\<not> b \<longrightarrow> cf_bytes d' c' = cf_bytes d c) \<and> (benign d \<longrightarrow> benign d' \<and> (b \<longleftrightarrow> unat sz \<le> 2 ^ 26))"
  proof (cases "unat sz \<le> 2 ^ 26 \<and> a")
    case True
    let ?new = "resize (unat sz) (dk_content d (cf_path c))"
    have res: "b" "c' = c\<lparr>cf_size := sz\<rparr>" "d' = put_content (cf_path c) ?new d1"
      using t True open_file d1 K off dk_content_cong [OF f] by (auto simp: cf_Truncate_def fh_Truncate_def)
    have len: "length ?new = unat sz" by (simp add: resize_def)
    then have "cf_ok dir d' h c'" using ok True K by (auto simp: res cf_ok_def dk_exists_def not_less)
    moreover have "cf_bytes d' c' = ?new" using len by (simp add: res cf_bytes_def)
    moreover have "only_changes (cf_path c) d d'" using f by (simp add: res only_changes_def)
    ultimately show ?thesis using True benign_call [OF _ d1] by (auto simp: res)
  next
    case False
    have "\<not> b" "c' = c" "d' = d \<or> (d' = d1 \<and> unat sz \<le> 2 ^ 26 \<and> \<not> a)"
      using t False open_file d1 K off by (auto simp: cf_Truncate_def fh_Truncate_def split: if_splits)
    then show ?thesis
      using ok cf_frame [of d' c d] f benign_call [OF _ d1] False by (auto simp: only_changes_def)
  qed
  then show "cf_ok dir d' h c'" "only_changes (cf_path c) d d'" "cf_path c' = cf_path c"
    and "b \<Longrightarrow> cf_size c' = sz \<and> unat sz \<le> 2 ^ 26 \<and> cf_bytes d' c' = resize (unat sz) (dk_content d (cf_path c))"
    and "\<not> b \<Longrightarrow> cf_bytes d' c' = cf_bytes d c"
    and "benign d \<Longrightarrow> benign d' \<and> (b \<longleftrightarrow> unat sz \<le> 2 ^ 26)" by blast+
qed

section \<open>Operations on the storage\<close>

abbreviation sg_benign :: "chunk_storage \<Rightarrow> bool" where
  "sg_benign s \<equiv> benign (sg_disk s)"

lemma sg_put_simps [simp]:
  "sg_directory (sg_put h c s) = sg_directory s" "sg_disk (sg_put h c s) = sg_disk s"
  "map_of (sg_chunks (sg_put h c s)) = (map_of (sg_chunks s))(h \<mapsto> c)"
  by (simp_all add: sg_put_def update_conv')

lemma sg_okD: "sg_ok s \<Longrightarrow> map_of (sg_chunks s) h = Some c \<Longrightarrow> cf_ok (sg_directory s) (sg_disk s) h c"
  by (simp add: sg_ok_def)

lemma sg_frame:
  assumes "\<And>h c. map_of (sg_chunks s) h = Some c \<Longrightarrow> dk_files d (cf_path c) = dk_files (sg_disk s) (cf_path c)"
  shows "sg_ok (s\<lparr>sg_disk := d\<rparr>) = sg_ok s" "sg_bytes (s\<lparr>sg_disk := d\<rparr>) = sg_bytes s"
proof -
  show "sg_ok (s\<lparr>sg_disk := d\<rparr>) = sg_ok s" using cf_frame(1) [OF assms] by (auto simp: sg_ok_def)
  show "sg_bytes (s\<lparr>sg_disk := d\<rparr>) = sg_bytes s"
  proof
    fix h
    show "sg_bytes (s\<lparr>sg_disk := d\<rparr>) h = sg_bytes s h"
      using cf_frame(2) [OF assms] by (cases "map_of (sg_chunks s) h") (simp_all add: sg_bytes_def)
  qed
qed

lemma sg_same_files:
  assumes "dk_files d = dk_files (sg_disk s)"
  shows "sg_ok (s\<lparr>sg_disk := d\<rparr>) = sg_ok s" "sg_bytes (s\<lparr>sg_disk := d\<rparr>) = sg_bytes s"
  by (rule sg_frame; simp add: assms)+

lemma sg_put_result:
  assumes "sg_ok s" and "only_changes (cf_path c) (sg_disk s) d" and "cf_ok (sg_directory s) d h c"
  shows "sg_ok (sg_put h c (s\<lparr>sg_disk := d\<rparr>))"
    and "sg_bytes (sg_put h c (s\<lparr>sg_disk := d\<rparr>)) = (sg_bytes s)(h \<mapsto> cf_bytes d c)"
proof -
  have other: "dk_files d (cf_path c') = dk_files (sg_disk s) (cf_path c')"
    if "map_of (sg_chunks s) h' = Some c'" "h' \<noteq> h" for h' c'
    using assms(2) cf_paths_differ [OF sg_okD [OF assms(1) that(1)] assms(3) that(2)] by (simp add: only_changes_def)
  have "distinct (map fst (sg_chunks (sg_put h c (s\<lparr>sg_disk := d\<rparr>))))"
    using assms(1) by (simp add: sg_put_def sg_ok_def distinct_update)
  moreover have "cf_ok (sg_directory s) d h' c'" if "map_of (sg_chunks s) h' = Some c'" "h' \<noteq> h" for h' c'
    using sg_okD [OF assms(1) that(1)] cf_frame(1) [OF other [OF that]] by simp
  ultimately show "sg_ok (sg_put h c (s\<lparr>sg_disk := d\<rparr>))" using assms(3) by (simp add: sg_ok_def)
  show "sg_bytes (sg_put h c (s\<lparr>sg_disk := d\<rparr>)) = (sg_bytes s)(h \<mapsto> cf_bytes d c)"
  proof
    fix g
    show "sg_bytes (sg_put h c (s\<lparr>sg_disk := d\<rparr>)) g = ((sg_bytes s)(h \<mapsto> cf_bytes d c)) g"
      using cf_frame(2) [OF other] by (cases "map_of (sg_chunks s) g") (auto simp: sg_bytes_def)
  qed
qed

lemma sg_bytes_None: "sg_bytes s h = None \<longleftrightarrow> map_of (sg_chunks s) h = None"
  by (simp add: sg_bytes_def)

lemma sg_bytes_Some: "sg_bytes s h = Some bs \<longleftrightarrow> (\<exists>c. map_of (sg_chunks s) h = Some c \<and> bs = cf_bytes (sg_disk s) c)"
  by (auto simp: sg_bytes_def)

lemma cf_Open_benign:
  assumes "cf_Open c d = (ok, c', d')" and "benign d"
  shows "benign d'"
proof -
  obtain b1 d1 where d1: "call_ok d = (b1, d1)" by fastforce
  obtain b2 d2 where d2: "call_ok d1 = (b2, d2)" by fastforce
  have "benign d1" "benign d2" using benign_call(2) [OF assms(2) d1] benign_call(2) [OF _ d2] by simp_all
  moreover have "d' \<in> {d, d1, d2}"
    using assms(1) d1 d2 unfolding cf_Open_def fh_Open_def fh_Size_def FileHandle_def by (simp split: if_splits)
  ultimately show ?thesis using assms(2) by auto
qed

lemma sg_CreateChunk_result:
  assumes ok: "sg_ok s" and r: "sg_CreateChunk h s = (b, s')"
  shows "sg_ok s'" "sg_directory s' = sg_directory s"
    and "sg_bytes s' = (if b then (sg_bytes s)(h \<mapsto> []) else sg_bytes s)"
    and "b \<Longrightarrow> h \<noteq> 0 \<and> sg_bytes s h = None" "b \<Longrightarrow> \<not> dk_exists (sg_disk s) (GetChunkPath s h)"
    and "only_changes (GetChunkPath s h) (sg_disk s) (sg_disk s')" "\<not> b \<Longrightarrow> dk_files (sg_disk s') = dk_files (sg_disk s)"
proof -
  have "sg_ok s' \<and> sg_directory s' = sg_directory s \<and>
    sg_bytes s' = (if b then (sg_bytes s)(h \<mapsto> []) else sg_bytes s) \<and>
    (b \<longrightarrow> h \<noteq> 0 \<and> sg_bytes s h = None \<and> \<not> dk_exists (sg_disk s) (GetChunkPath s h)) \<and>
    only_changes (GetChunkPath s h) (sg_disk s) (sg_disk s') \<and> (\<not> b \<longrightarrow> dk_files (sg_disk s') = dk_files (sg_disk s))"
  proof (cases "h = 0 \<or> sg_HasChunk s h")
    case True
    then show ?thesis using ok r by (auto simp: sg_CreateChunk_def)
  next
    case False
    obtain b1 c d where c: "cf_Create (ChunkFile h (GetChunkPath s h)) (sg_disk s) = (b1, c, d)" by (metis prod.exhaust)
    then have s': "b = b1" "s' = (if b then sg_put h c (s\<lparr>sg_disk := d\<rparr>) else s\<lparr>sg_disk := d\<rparr>)"
      using r False by (auto simp: sg_CreateChunk_def split: if_splits)
    note res = cf_Create_result [OF c GetChunkPath_def stoull_handle]
    show ?thesis
    proof (cases b)
      case True
      then have "cf_ok (sg_directory s) d h c" "only_changes (cf_path c) (sg_disk s) d" "cf_bytes d c = []" "cf_path c = GetChunkPath s h"
          "\<not> dk_exists (sg_disk s) (GetChunkPath s h)"
        using res(2) s'(1) by simp_all
      then show ?thesis using sg_put_result [OF ok, of c d h] True False s' by (auto simp: sg_bytes_None sg_HasChunk_def)
    next
      case b: False
      then have "dk_files d = dk_files (sg_disk s)" using res(1) s'(1) by simp
      then show ?thesis using sg_same_files [of d s] ok b s'(2) by (simp add: only_changes_files)
    qed
  qed
  then show "sg_ok s'" "sg_directory s' = sg_directory s"
    and "sg_bytes s' = (if b then (sg_bytes s)(h \<mapsto> []) else sg_bytes s)"
    and "b \<Longrightarrow> h \<noteq> 0 \<and> sg_bytes s h = None" "b \<Longrightarrow> \<not> dk_exists (sg_disk s) (GetChunkPath s h)"
    and "only_changes (GetChunkPath s h) (sg_disk s) (sg_disk s')" "\<not> b \<Longrightarrow> dk_files (sg_disk s') = dk_files (sg_disk s)" by blast+
qed

lemma sg_CreateChunk_benign:
  assumes "sg_CreateChunk h s = (b, s')" and "sg_benign s"
  shows "sg_benign s'" and "b \<longleftrightarrow> h \<noteq> 0 \<and> \<not> sg_ChunkExists s h"
proof -
  have path: "GetChunkPath s h \<noteq> []" by (simp add: GetChunkPath_def path_div_def)
  obtain b1 d1 where d1: "(if slash \<in> set (GetChunkPath s h) then call_ok (sg_disk s) else (True, sg_disk s)) = (b1, d1)" by fastforce
  then have b1: "b1" "benign d1" "dk_files d1 = dk_files (sg_disk s)"
    using benign_call [OF assms(2)] assms(2) call_ok_files by (auto split: if_splits)
  obtain b2 d2 where d2: "call_ok d1 = (b2, d2)" by fastforce
  have b2: "b2" "benign d2" using benign_call [OF b1(2) d2] by simp_all
  have create: "cf_Create (ChunkFile h (GetChunkPath s h)) (sg_disk s) =
      (if h = 0 then (False, ChunkFile h (GetChunkPath s h), sg_disk s)
       else if dk_exists (sg_disk s) (GetChunkPath s h) then (False, ChunkFile h (GetChunkPath s h), d1)
       else (True, (ChunkFile h (GetChunkPath s h))\<lparr>cf_file := Some \<lparr>fh_open = True, fh_path = GetChunkPath s h, fh_mode = ReadWrite\<rparr>,
         cf_size := 0\<rparr>, put_content (GetChunkPath s h) [] d2))"
    using path d1 d2 b1 b2(1) by (simp add: cf_Create_def fh_Open_def FileHandle_def dk_exists_def)
  have "sg_benign s' \<and> (b \<longleftrightarrow> h \<noteq> 0 \<and> \<not> sg_ChunkExists s h)"
    using assms b1(2) b2(2) unfolding sg_CreateChunk_def create sg_ChunkExists_def by (auto split: if_splits)
  then show "sg_benign s'" and "b \<longleftrightarrow> h \<noteq> 0 \<and> \<not> sg_ChunkExists s h" by auto
qed

lemma sg_OpenChunk_result:
  assumes ok: "sg_ok s" and r: "sg_OpenChunk h s = (b, s')"
  shows "sg_ok s'" "sg_directory s' = sg_directory s" "dk_files (sg_disk s') = dk_files (sg_disk s)"
    and "g \<noteq> h \<or> sg_bytes s g \<noteq> None \<Longrightarrow> sg_bytes s' g = sg_bytes s g"
    and "h \<noteq> 0 \<Longrightarrow> sg_bytes s h \<noteq> None \<Longrightarrow> b \<and> s' = s" and "b \<Longrightarrow> sg_bytes s' h \<noteq> None"
    and "sg_benign s \<Longrightarrow> sg_benign s'"
proof -
  have "sg_ok s' \<and> sg_directory s' = sg_directory s \<and> dk_files (sg_disk s') = dk_files (sg_disk s) \<and>
    (\<forall>g. g \<noteq> h \<or> sg_bytes s g \<noteq> None \<longrightarrow> sg_bytes s' g = sg_bytes s g) \<and>
    (h \<noteq> 0 \<longrightarrow> sg_bytes s h \<noteq> None \<longrightarrow> b \<and> s' = s) \<and> (b \<longrightarrow> sg_bytes s' h \<noteq> None) \<and> (sg_benign s \<longrightarrow> sg_benign s')"
  proof (cases "h = 0 \<or> sg_HasChunk s h \<or> \<not> dk_exists (sg_disk s) (GetChunkPath s h)")
    case True
    then show ?thesis using ok r by (auto simp: sg_OpenChunk_def sg_bytes_None sg_HasChunk_def split: if_splits)
  next
    case False
    obtain b1 c d where c: "cf_Open (ChunkFile h (GetChunkPath s h)) (sg_disk s) = (b1, c, d)" by (metis prod.exhaust)
    then have s': "b = b1" "s' = (if b then sg_put h c (s\<lparr>sg_disk := d\<rparr>) else s\<lparr>sg_disk := d\<rparr>)"
      using r False by (auto simp: sg_OpenChunk_def split: if_splits)
    note res = cf_Open_result [OF c GetChunkPath_def stoull_handle]
    have nohas: "sg_bytes s h = None" using False by (simp add: sg_bytes_None sg_HasChunk_def)
    have ben: "sg_benign s \<Longrightarrow> benign d" by (rule cf_Open_benign [OF c])
    show ?thesis
    proof (cases b)
      case True
      then have "cf_ok (sg_directory s) d h c" using res(2) s'(1) by simp
      then show ?thesis
        using sg_put_result [OF ok only_changes_files [OF res(1)], of h] True s' nohas res(1) ben by simp
    next
      case b: False
      then show ?thesis using sg_same_files [OF res(1)] ok s'(2) nohas res(1) ben by simp
    qed
  qed
  then show "sg_ok s'" "sg_directory s' = sg_directory s" "dk_files (sg_disk s') = dk_files (sg_disk s)"
    and "g \<noteq> h \<or> sg_bytes s g \<noteq> None \<Longrightarrow> sg_bytes s' g = sg_bytes s g"
    and "h \<noteq> 0 \<Longrightarrow> sg_bytes s h \<noteq> None \<Longrightarrow> b \<and> s' = s" and "b \<Longrightarrow> sg_bytes s' h \<noteq> None"
    and "sg_benign s \<Longrightarrow> sg_benign s'" by blast+
qed

lemma sg_DeleteChunk_result:
  assumes ok: "sg_ok s" and r: "sg_DeleteChunk h s = (b, s')"
  shows "sg_ok s'" "sg_directory s' = sg_directory s" "sg_bytes s' = (sg_bytes s)(h := None)"
proof -
  have "sg_ok s' \<and> sg_directory s' = sg_directory s \<and> sg_bytes s' = (sg_bytes s)(h := None)"
  proof (cases "map_of (sg_chunks s) h")
    case None
    then obtain d where d: "dk_remove (GetChunkPath s h) (sg_disk s) = (b, d)" "s' = s\<lparr>sg_disk := d\<rparr>"
      using r by (auto simp: sg_DeleteChunk_def split: prod.splits)
    have "dk_files d (cf_path c) = dk_files (sg_disk s) (cf_path c)" if c: "map_of (sg_chunks s) g = Some c" for g c
    proof -
      have "g \<noteq> h" using c None by auto
      then have "cf_path c \<noteq> GetChunkPath s h" using GetChunkPath_other [OF sg_okD [OF ok c], of h] by auto
      moreover have "only_changes (GetChunkPath s h) (sg_disk s) d"
        using d(1) call_ok_files by (fastforce simp: dk_remove_def only_changes_def split: prod.splits bool.splits)
      ultimately show ?thesis by (simp add: only_changes_def)
    qed
    then show ?thesis using sg_frame [of s d] ok d(2) None by (auto simp: sg_bytes_None fun_eq_iff)
  next
    case (Some c)
    then obtain c' d where d: "cf_Delete c (sg_disk s) = (b, c', d)"
        "s' = s\<lparr>sg_chunks := AList.delete h (sg_chunks s), sg_disk := d\<rparr>"
      using r by (auto simp: sg_DeleteChunk_def split: prod.splits)
    let ?s = "s\<lparr>sg_chunks := AList.delete h (sg_chunks s)\<rparr>"
    have ok1: "sg_ok ?s" using ok by (auto simp: sg_ok_def distinct_delete delete_conv')
    have "dk_files d (cf_path c2) = dk_files (sg_disk ?s) (cf_path c2)" if "map_of (sg_chunks ?s) g = Some c2" for g c2
    proof -
      have g: "g \<noteq> h" "map_of (sg_chunks s) g = Some c2" using that by (auto simp: delete_conv' split: if_splits)
      then have "cf_path c2 \<noteq> cf_path c" using cf_paths_differ [OF sg_okD [OF ok g(2)] sg_okD [OF ok Some]] by blast
      then show ?thesis using cf_Delete_changes [OF d(1)] by (simp add: only_changes_def)
    qed
    from sg_frame [of ?s d, OF this] ok1 show ?thesis
      by (auto simp: d(2) sg_bytes_def delete_conv' fun_eq_iff)
  qed
  then show "sg_ok s'" "sg_directory s' = sg_directory s" "sg_bytes s' = (sg_bytes s)(h := None)" by blast+
qed

lemma GetOrOpenChunk_result:
  assumes ok: "sg_ok s" and r: "GetOrOpenChunk h s = (res, s')"
  shows "sg_ok s'" "sg_directory s' = sg_directory s" "dk_files (sg_disk s') = dk_files (sg_disk s)"
    and "g \<noteq> h \<or> sg_bytes s g \<noteq> None \<Longrightarrow> sg_bytes s' g = sg_bytes s g"
    and "sg_bytes s h \<noteq> None \<Longrightarrow> s' = s" and "res = map_of (sg_chunks s') h \<or> res = None"
    and "sg_bytes s h \<noteq> None \<Longrightarrow> res \<noteq> None" and "sg_benign s \<Longrightarrow> sg_benign s'"
proof -
  obtain b1 s1 where s1: "sg_OpenChunk h s = (b1, s1)" by fastforce
  note open_result = sg_OpenChunk_result [OF ok s1]
  have "sg_ok s' \<and> sg_directory s' = sg_directory s \<and> dk_files (sg_disk s') = dk_files (sg_disk s) \<and>
    (\<forall>g. g \<noteq> h \<or> sg_bytes s g \<noteq> None \<longrightarrow> sg_bytes s' g = sg_bytes s g) \<and> (sg_bytes s h \<noteq> None \<longrightarrow> s' = s) \<and>
    (res = map_of (sg_chunks s') h \<or> res = None) \<and> (sg_bytes s h \<noteq> None \<longrightarrow> res \<noteq> None) \<and> (sg_benign s \<longrightarrow> sg_benign s')"
  proof (cases "map_of (sg_chunks s) h")
    case None
    then have "s' = s1" "res = (if b1 then map_of (sg_chunks s1) h else None)"
      using r s1 by (auto simp: GetOrOpenChunk_def sg_GetChunk_def)
    then show ?thesis using open_result None by (auto simp: sg_bytes_None)
  next
    case (Some c)
    then have "s' = s" "res = Some c" using r by (auto simp: GetOrOpenChunk_def sg_GetChunk_def)
    then show ?thesis using ok Some by (simp add: sg_bytes_def)
  qed
  then show "sg_ok s'" "sg_directory s' = sg_directory s" "dk_files (sg_disk s') = dk_files (sg_disk s)"
    and "g \<noteq> h \<or> sg_bytes s g \<noteq> None \<Longrightarrow> sg_bytes s' g = sg_bytes s g"
    and "sg_bytes s h \<noteq> None \<Longrightarrow> s' = s" and "res = map_of (sg_chunks s') h \<or> res = None"
    and "sg_bytes s h \<noteq> None \<Longrightarrow> res \<noteq> None" and "sg_benign s \<Longrightarrow> sg_benign s'" by blast+
qed

lemma sg_ReadChunk_result:
  assumes ok: "sg_ok s" and r: "sg_ReadChunk h offset len s = (res, s')"
  shows "sg_ok s'" "sg_directory s' = sg_directory s" "dk_files (sg_disk s') = dk_files (sg_disk s)"
    and "g \<noteq> h \<or> sg_bytes s g \<noteq> None \<Longrightarrow> sg_bytes s' g = sg_bytes s g"
    and "sg_bytes s h \<noteq> None \<Longrightarrow> sg_bytes s' = sg_bytes s \<and> sg_chunks s' = sg_chunks s"
    and "res = Some bytes \<Longrightarrow> \<exists>content. sg_bytes s' h = Some content \<and> unat offset + unat len \<le> length content \<and>
      (\<exists>k \<le> unat len. bytes = take k (drop (unat offset) content))"
    and "sg_benign s \<Longrightarrow> sg_benign s' \<and> (\<forall>content. sg_bytes s h = Some content \<longrightarrow>
      res = (if unat offset + unat len \<le> length content then Some (take (unat len) (drop (unat offset) content)) else None))"
proof -
  obtain c1 s1 where s1: "GetOrOpenChunk h s = (c1, s1)" by fastforce
  note get = GetOrOpenChunk_result [OF ok s1]
  have "sg_ok s' \<and> sg_directory s' = sg_directory s \<and> dk_files (sg_disk s') = dk_files (sg_disk s) \<and>
    (\<forall>g. g \<noteq> h \<or> sg_bytes s g \<noteq> None \<longrightarrow> sg_bytes s' g = sg_bytes s g) \<and>
    (sg_bytes s h \<noteq> None \<longrightarrow> sg_bytes s' = sg_bytes s \<and> sg_chunks s' = sg_chunks s) \<and>
    (\<forall>bytes. res = Some bytes \<longrightarrow> (\<exists>content. sg_bytes s' h = Some content \<and> unat offset + unat len \<le> length content \<and>
      (\<exists>k \<le> unat len. bytes = take k (drop (unat offset) content)))) \<and>
    (sg_benign s \<longrightarrow> sg_benign s' \<and> (\<forall>content. sg_bytes s h = Some content \<longrightarrow>
      res = (if unat offset + unat len \<le> length content then Some (take (unat len) (drop (unat offset) content)) else None)))"
  proof (cases c1)
    case None
    then have "res = None" "s' = s1" using r s1 by (simp_all add: sg_ReadChunk_def)
    then show ?thesis using get None by auto
  next
    case (Some c)
    obtain res1 d where d: "cf_Read c offset len (sg_disk s1) = (res1, d)" by fastforce
    then have s': "res = res1" "s' = s1\<lparr>sg_disk := d\<rparr>" using r s1 Some by (simp_all add: sg_ReadChunk_def)
    have c: "map_of (sg_chunks s1) h = Some c" using get(6) Some by auto
    note read = cf_Read_result [OF sg_okD [OF get(1) c] d]
    have bytes: "sg_bytes s' = sg_bytes s1" "sg_ok s'" using sg_same_files [OF read(1)] get(1) by (simp_all add: s'(2))
    have content: "sg_bytes s1 h = Some (cf_bytes (sg_disk s1) c)" using c by (simp add: sg_bytes_def)
    have has: "sg_bytes s h \<noteq> None \<Longrightarrow> s1 = s" using get(5) .
    show ?thesis
      using get(2,3,4,8) read s' bytes content has by auto
  qed
  then show "sg_ok s'" "sg_directory s' = sg_directory s" "dk_files (sg_disk s') = dk_files (sg_disk s)"
    and "g \<noteq> h \<or> sg_bytes s g \<noteq> None \<Longrightarrow> sg_bytes s' g = sg_bytes s g"
    and "sg_bytes s h \<noteq> None \<Longrightarrow> sg_bytes s' = sg_bytes s \<and> sg_chunks s' = sg_chunks s"
    and "res = Some bytes \<Longrightarrow> \<exists>content. sg_bytes s' h = Some content \<and> unat offset + unat len \<le> length content \<and>
      (\<exists>k \<le> unat len. bytes = take k (drop (unat offset) content))"
    and "sg_benign s \<Longrightarrow> sg_benign s' \<and> (\<forall>content. sg_bytes s h = Some content \<longrightarrow>
      res = (if unat offset + unat len \<le> length content then Some (take (unat len) (drop (unat offset) content)) else None))"
    by blast+
qed

lemma sg_GetChunkSize_bytes:
  assumes "sg_ok s"
  shows "unat (sg_GetChunkSize s h) = (case sg_bytes s h of None \<Rightarrow> 0 | Some content \<Rightarrow> length content)"
  using length_cf_bytes [OF sg_okD [OF assms]]
  by (cases "map_of (sg_chunks s) h") (simp_all add: sg_GetChunkSize_def sg_GetChunk_def sg_bytes_def)

lemma sg_WriteChunk_result:
  assumes ok: "sg_ok s" and r: "sg_WriteChunk h offset data s = (b, s')"
  shows "sg_ok s'" "sg_directory s' = sg_directory s" "g \<noteq> h \<Longrightarrow> sg_bytes s' g = sg_bytes s g"
    and "\<exists>c. map_of (sg_chunks s) h = Some c \<and> only_changes (cf_path c) (sg_disk s) (sg_disk s') \<or> s' = s \<and> \<not> b"
    and "sg_bytes s' h = None \<longleftrightarrow> sg_bytes s h = None"
    and "sg_bytes s h = Some content \<Longrightarrow> b \<Longrightarrow> unat offset \<le> length content \<Longrightarrow>
      sg_bytes s' h = Some (overlay content (unat offset) data)"
    and "b \<Longrightarrow> unat offset + length data \<le> 2 ^ 26"
    and "b \<Longrightarrow> sg_bytes s h \<noteq> None \<and> unat (sg_GetChunkSize s' h) =
      (if data = [] then unat (sg_GetChunkSize s h) else max (unat (sg_GetChunkSize s h)) (unat offset + length data))"
    and "sg_benign s \<Longrightarrow> sg_benign s' \<and> (b \<longleftrightarrow> sg_bytes s h \<noteq> None \<and> unat offset + length data \<le> 2 ^ 26)"
proof -
  have "sg_ok s' \<and> sg_directory s' = sg_directory s \<and> (\<forall>g. g \<noteq> h \<longrightarrow> sg_bytes s' g = sg_bytes s g) \<and>
    (\<exists>c. map_of (sg_chunks s) h = Some c \<and> only_changes (cf_path c) (sg_disk s) (sg_disk s') \<or> s' = s \<and> \<not> b) \<and>
    (sg_bytes s' h = None \<longleftrightarrow> sg_bytes s h = None) \<and>
    (\<forall>content. sg_bytes s h = Some content \<longrightarrow> b \<longrightarrow> unat offset \<le> length content \<longrightarrow>
      sg_bytes s' h = Some (overlay content (unat offset) data)) \<and>
    (b \<longrightarrow> unat offset + length data \<le> 2 ^ 26) \<and>
    (b \<longrightarrow> sg_bytes s h \<noteq> None \<and> unat (sg_GetChunkSize s' h) =
      (if data = [] then unat (sg_GetChunkSize s h) else max (unat (sg_GetChunkSize s h)) (unat offset + length data))) \<and>
    (sg_benign s \<longrightarrow> sg_benign s' \<and> (b \<longleftrightarrow> sg_bytes s h \<noteq> None \<and> unat offset + length data \<le> 2 ^ 26))"
  proof (cases "map_of (sg_chunks s) h")
    case None
    then have "\<not> b" "s' = s" using r by (simp_all add: sg_WriteChunk_def sg_GetChunk_def)
    then show ?thesis using ok None by (simp add: sg_bytes_None)
  next
    case (Some c)
    obtain b1 c' d where w: "cf_Write c offset data (sg_disk s) = (b1, c', d)" by (metis prod.exhaust)
    then have s': "b = b1" "s' = sg_put h c' (s\<lparr>sg_disk := d\<rparr>)"
      using r Some by (simp_all add: sg_WriteChunk_def sg_GetChunk_def)
    note res = cf_Write_result [OF sg_okD [OF ok Some] w]
    have only: "only_changes (cf_path c') (sg_disk s) d" using res(2,3) by simp
    note put = sg_put_result [OF ok only res(1)]
    have content: "sg_bytes s h = Some (cf_bytes (sg_disk s) c)" using Some by (simp add: sg_bytes_def)
    have size: "sg_GetChunkSize s h = cf_size c" "sg_GetChunkSize s' h = cf_size c'"
      using Some by (simp_all add: sg_GetChunkSize_def sg_GetChunk_def s'(2))
    have old: "unat (cf_size c) = length (cf_bytes (sg_disk s) c)" using length_cf_bytes [OF sg_okD [OF ok Some]] by simp
    have new: "sg_ok s'" "sg_directory s' = sg_directory s" "sg_bytes s' = (sg_bytes s)(h \<mapsto> cf_bytes d c')"
      and disk: "sg_disk s' = d"
      using put by (simp_all add: s'(2))
    have "\<exists>c. map_of (sg_chunks s) h = Some c \<and> only_changes (cf_path c) (sg_disk s) (sg_disk s')"
      using Some res(2,3) disk by auto
    moreover have "sg_benign s \<longrightarrow> sg_benign s' \<and> (b \<longleftrightarrow> unat offset + length data \<le> 2 ^ 26)"
      using res disk s'(1) by simp
    ultimately show ?thesis
      using new res(4-8) content size old s'(1) by simp
  qed
  then show "sg_ok s'" "sg_directory s' = sg_directory s" "g \<noteq> h \<Longrightarrow> sg_bytes s' g = sg_bytes s g"
    and "\<exists>c. map_of (sg_chunks s) h = Some c \<and> only_changes (cf_path c) (sg_disk s) (sg_disk s') \<or> s' = s \<and> \<not> b"
    and "sg_bytes s' h = None \<longleftrightarrow> sg_bytes s h = None"
    and "sg_bytes s h = Some content \<Longrightarrow> b \<Longrightarrow> unat offset \<le> length content \<Longrightarrow>
      sg_bytes s' h = Some (overlay content (unat offset) data)"
    and "b \<Longrightarrow> unat offset + length data \<le> 2 ^ 26"
    and "b \<Longrightarrow> sg_bytes s h \<noteq> None \<and> unat (sg_GetChunkSize s' h) =
      (if data = [] then unat (sg_GetChunkSize s h) else max (unat (sg_GetChunkSize s h)) (unat offset + length data))"
    and "sg_benign s \<Longrightarrow> sg_benign s' \<and> (b \<longleftrightarrow> sg_bytes s h \<noteq> None \<and> unat offset + length data \<le> 2 ^ 26)"
    by blast+
qed

lemma sg_TruncateChunk_result:
  assumes ok: "sg_ok s" and r: "sg_TruncateChunk h sz s = (b, s')"
  shows "sg_ok s'" "sg_directory s' = sg_directory s" "g \<noteq> h \<Longrightarrow> sg_bytes s' g = sg_bytes s g"
    and "\<not> b \<Longrightarrow> sg_bytes s' = sg_bytes s"
    and "b \<Longrightarrow> unat sz \<le> 2 ^ 26 \<and> (\<exists>content. sg_bytes s h = Some content \<and> (unat sz \<le> length content \<longrightarrow>
      sg_bytes s' h = Some (take (unat sz) content)) \<and> (\<exists>content'. sg_bytes s' h = Some content' \<and> length content' = unat sz))"
    and "sg_benign s \<Longrightarrow> sg_benign s' \<and> (b \<longleftrightarrow> sg_bytes s h \<noteq> None \<and> unat sz \<le> 2 ^ 26)"
proof -
  have "sg_ok s' \<and> sg_directory s' = sg_directory s \<and> (\<forall>g. g \<noteq> h \<longrightarrow> sg_bytes s' g = sg_bytes s g) \<and>
    (\<not> b \<longrightarrow> sg_bytes s' = sg_bytes s) \<and>
    (b \<longrightarrow> unat sz \<le> 2 ^ 26 \<and> (\<exists>content. sg_bytes s h = Some content \<and> (unat sz \<le> length content \<longrightarrow>
      sg_bytes s' h = Some (take (unat sz) content)) \<and> (\<exists>content'. sg_bytes s' h = Some content' \<and> length content' = unat sz))) \<and>
    (sg_benign s \<longrightarrow> sg_benign s' \<and> (b \<longleftrightarrow> sg_bytes s h \<noteq> None \<and> unat sz \<le> 2 ^ 26))"
  proof (cases "map_of (sg_chunks s) h")
    case None
    then have "\<not> b" "s' = s" using r by (simp_all add: sg_TruncateChunk_def sg_GetChunk_def)
    then show ?thesis using ok None by (simp add: sg_bytes_None)
  next
    case (Some c)
    obtain b1 c' d where t: "cf_Truncate c sz (sg_disk s) = (b1, c', d)" by (metis prod.exhaust)
    then have s': "b = b1" "s' = sg_put h c' (s\<lparr>sg_disk := d\<rparr>)"
      using r Some by (simp_all add: sg_TruncateChunk_def sg_GetChunk_def)
    note res = cf_Truncate_result [OF sg_okD [OF ok Some] t]
    have only: "only_changes (cf_path c') (sg_disk s) d" using res(2,3) by simp
    note put = sg_put_result [OF ok only res(1)]
    let ?old = "dk_content (sg_disk s) (cf_path c)"
    have content: "sg_bytes s h = Some (cf_bytes (sg_disk s) c)" using Some by (simp add: sg_bytes_def)
    have new: "sg_ok s'" "sg_directory s' = sg_directory s" "sg_bytes s' = (sg_bytes s)(h \<mapsto> cf_bytes d c')" "sg_disk s' = d"
      using put by (simp_all add: s'(2))
    have "resize (unat sz) ?old = take (unat sz) (cf_bytes (sg_disk s) c)" if "unat sz \<le> length (cf_bytes (sg_disk s) c)"
      using that by (auto simp: resize_def cf_bytes_def)
    moreover have "length (resize (unat sz) ?old) = unat sz" by (simp add: resize_def)
    ultimately show ?thesis using new res(4-6) content s'(1) by (cases b) auto
  qed
  then show "sg_ok s'" "sg_directory s' = sg_directory s" "g \<noteq> h \<Longrightarrow> sg_bytes s' g = sg_bytes s g"
    and "\<not> b \<Longrightarrow> sg_bytes s' = sg_bytes s"
    and "b \<Longrightarrow> unat sz \<le> 2 ^ 26 \<and> (\<exists>content. sg_bytes s h = Some content \<and> (unat sz \<le> length content \<longrightarrow>
      sg_bytes s' h = Some (take (unat sz) content)) \<and> (\<exists>content'. sg_bytes s' h = Some content' \<and> length content' = unat sz))"
    and "sg_benign s \<Longrightarrow> sg_benign s' \<and> (b \<longleftrightarrow> sg_bytes s h \<noteq> None \<and> unat sz \<le> 2 ^ 26)"
    by blast+
qed

section \<open>Start and every sequence of operations\<close>

lemma init_entry_ok:
  assumes ok: "sg_ok s"
  shows "sg_ok (init_entry name s)" "sg_directory (init_entry name s) = sg_directory s"
proof -
  have "sg_ok (init_entry name s) \<and> sg_directory (init_entry name s) = sg_directory s"
  proof (cases "prefix ''chunk_'' name \<and> drop 6 name \<noteq> [] \<and> (\<exists>v pos. stoull (drop 6 name) = Some (v, pos) \<and> v \<noteq> 0)")
    case False
    then show ?thesis using ok by (auto simp: init_entry_def Let_def split: option.splits)
  next
    case True
    then obtain v pos where v: "stoull (drop 6 name) = Some (v, pos)" "v \<noteq> 0" by blast
    have name: "name = ''chunk_'' @ drop 6 name" using True by (auto simp: prefix_def)
    let ?path = "path_div (sg_directory s) name"
    obtain opened c d where o: "cf_Open (ChunkFile v ?path) (sg_disk s) = (opened, c, d)" by (metis prod.exhaust)
    have path: "?path = path_div (sg_directory s) (''chunk_'' @ drop 6 name)" using name by simp
    note res = cf_Open_result [OF o path v(1)]
    have eq: "init_entry name s = (if opened then sg_put v c (s\<lparr>sg_disk := d\<rparr>) else s\<lparr>sg_disk := d\<rparr>)"
      using True v o by (simp add: init_entry_def Let_def)
    show ?thesis
    proof (cases opened)
      case True
      have okc: "cf_ok (sg_directory s) d v c" using res(2) True by blast
      from sg_put_result(1) [OF ok only_changes_files [OF res(1)] okc] show ?thesis using eq True by simp
    next
      case False
      then show ?thesis using eq sg_same_files(1) [OF res(1)] ok by simp
    qed
  qed
  then show "sg_ok (init_entry name s)" "sg_directory (init_entry name s) = sg_directory s" by blast+
qed

lemma fold_init_entry_ok: "sg_ok s \<Longrightarrow> sg_ok (fold init_entry names s)"
  by (induction names arbitrary: s) (simp_all add: init_entry_ok)

lemma sg_Initialize_ok:
  assumes "sg_ok s" and "sg_Initialize entries s = (b, s')"
  shows "sg_ok s'"
proof -
  obtain b1 d1 where d1: "call_ok (sg_disk s) = (b1, d1)" by fastforce
  obtain b2 d2 where d2: "call_ok d1 = (b2, d2)" by fastforce
  have "dk_files d1 = dk_files (sg_disk s)" "dk_files d2 = dk_files (sg_disk s)"
    using call_ok_files [OF d1] call_ok_files [OF d2] by simp_all
  then have "sg_ok (s\<lparr>sg_disk := d1\<rparr>)" "sg_ok (s\<lparr>sg_disk := d2\<rparr>)"
    using sg_same_files(1) [of d1 s] sg_same_files(1) [of d2 s] assms(1) by simp_all
  then show ?thesis
    using assms d1 d2 by (auto simp: sg_Initialize_def fold_init_entry_ok split: if_splits)
qed

datatype storage_op =
    InitializeStorage "string list"
  | CreateStored chunk_handle
  | OpenStored chunk_handle
  | DeleteStored chunk_handle
  | ReadStored chunk_handle "64 word" "64 word"
  | WriteStored chunk_handle "64 word" string
  | TruncateStored chunk_handle "64 word"

fun sg_exec :: "storage_op \<Rightarrow> chunk_storage \<Rightarrow> chunk_storage" where
  "sg_exec (InitializeStorage entries) s = snd (sg_Initialize entries s)"
| "sg_exec (CreateStored h) s = snd (sg_CreateChunk h s)"
| "sg_exec (OpenStored h) s = snd (sg_OpenChunk h s)"
| "sg_exec (DeleteStored h) s = snd (sg_DeleteChunk h s)"
| "sg_exec (ReadStored h offset len) s = snd (sg_ReadChunk h offset len s)"
| "sg_exec (WriteStored h offset data) s = snd (sg_WriteChunk h offset data s)"
| "sg_exec (TruncateStored h sz) s = snd (sg_TruncateChunk h sz s)"

lemma sg_exec_ok: "sg_ok s \<Longrightarrow> sg_ok (sg_exec op s)"
  by (cases op)
    (simp_all add: sg_Initialize_ok [OF _ surjective_pairing] sg_CreateChunk_result(1) [OF _ surjective_pairing]
      sg_OpenChunk_result(1) [OF _ surjective_pairing] sg_DeleteChunk_result(1) [OF _ surjective_pairing]
      sg_ReadChunk_result(1) [OF _ surjective_pairing] sg_WriteChunk_result(1) [OF _ surjective_pairing]
      sg_TruncateChunk_result(1) [OF _ surjective_pairing])

text \<open>C35: Whatever the file system answers, every sequence of operations of a fresh chunk storage, its start
  on a directory of any contents included, leaves a table in which every chunk has a non-zero handle, an
  open file of its own that no other chunk shares, and a size of at most 64 MiB that never exceeds what is
  in the file on disk: a failed or partial write never makes the size promise bytes that are not there.
\<close>

theorem stored_chunks_bounded:
  assumes "s = fold sg_exec ops (ChunkStorage dir d)" and "map_of (sg_chunks s) h = Some c"
  shows "h \<noteq> 0 \<and> cf_IsOpen c \<and> unat (cf_size c) \<le> 64 * 2 ^ 20 \<and>
    unat (cf_size c) \<le> length (dk_content (sg_disk s) (cf_path c)) \<and>
    (\<forall>g c'. map_of (sg_chunks s) g = Some c' \<and> cf_path c' = cf_path c \<longrightarrow> g = h)"
proof (intro conjI)
  have "sg_ok (fold sg_exec ops s0)" if "sg_ok s0" for s0
    using that by (induction ops arbitrary: s0) (simp_all add: sg_exec_ok)
  then have ok: "sg_ok s" using assms(1) by (simp add: ChunkStorage_def sg_ok_def)
  note c = sg_okD [OF ok assms(2)]
  show "h \<noteq> 0" "cf_IsOpen c" "unat (cf_size c) \<le> length (dk_content (sg_disk s) (cf_path c))"
    using c by (auto simp: cf_ok_def cf_IsOpen_def)
  show "unat (cf_size c) \<le> 64 * 2 ^ 20" using cf_ok_size [OF c] by simp
  show "\<forall>g c'. map_of (sg_chunks s) g = Some c' \<and> cf_path c' = cf_path c \<longrightarrow> g = h"
    using cf_paths_differ [OF c] sg_okD [OF ok] by metis
qed

definition sample_storage :: chunk_storage where
  "sample_storage = fold sg_exec [CreateStored 5, WriteStored 5 0 ''abc''] (ChunkStorage ''/d'' \<lparr>dk_files = Map.empty, dk_answers = []\<rparr>)"

lemma sample_storage_bytes: "sg_bytes sample_storage 5 = Some ''abc''"
proof -
  let ?s = "ChunkStorage ''/d'' \<lparr>dk_files = Map.empty, dk_answers = []\<rparr>"
  have ok: "sg_ok ?s" "sg_benign ?s" by (simp_all add: ChunkStorage_def sg_ok_def benign_def)
  obtain b1 s1 where s1: "sg_CreateChunk 5 ?s = (b1, s1)" by fastforce
  obtain b2 s2 where s2: "sg_WriteChunk 5 0 ''abc'' s1 = (b2, s2)" by fastforce
  have fresh: "sg_bytes ?s 5 = None" "\<not> dk_exists (sg_disk ?s) (GetChunkPath ?s 5)"
    by (simp_all add: ChunkStorage_def sg_bytes_def dk_exists_def)
  have b1: "b1" "sg_benign s1" using sg_CreateChunk_benign [OF s1 ok(2)] fresh by (auto simp: sg_ChunkExists_def sg_HasChunk_def sg_bytes_None)
  have "sg_bytes s1 = (sg_bytes ?s)(5 \<mapsto> [])" "sg_ok s1" using sg_CreateChunk_result(1,3) [OF ok(1) s1] b1 by simp_all
  then have c: "sg_bytes s1 5 = Some []" and ok1: "sg_ok s1" by simp_all
  have "b2" using sg_WriteChunk_result(9) [OF ok1 s2] b1 c by simp
  then have "sg_bytes s2 5 = Some ''abc''" using sg_WriteChunk_result(6) [OF ok1 s2 c] by (simp add: overlay_def)
  then show ?thesis by (simp add: sample_storage_def s1 s2)
qed

theorem stored_chunks_bounded_witness:
  "\<exists>c. map_of (sg_chunks sample_storage) 5 = Some c \<and> cf_IsOpen c \<and> unat (cf_size c) \<le> 64 * 2 ^ 20 \<and>
     unat (cf_size c) \<le> length (dk_content (sg_disk sample_storage) (cf_path c))"
proof -
  obtain c where c: "map_of (sg_chunks sample_storage) 5 = Some c"
    using sample_storage_bytes by (auto simp: sg_bytes_Some)
  show ?thesis
    using c stored_chunks_bounded [OF sample_storage_def c] by blast
qed

end
