(* ===== verification/Checksums.thy ===== *)
theory Checksums
  imports ChunkStorage
begin

text \<open>
  \<open>src/chunkserver/checksum/\<close>: a CRC-32 for every 64 KiB block of every chunk, kept in memory and in
  one file per chunk that is replaced by renaming. The manager holds a reference to the storage it
  reads the blocks from; the record holds the storage itself.

  \<open>std::ofstream\<close> and \<open>std::ifstream\<close> transfer the bytes with the same system calls as
  \<open>FileHandles\<close>; checksums are stored in the byte order of the machine, little endian.
\<close>

section \<open>Data\<close>

record checksum_block =
  cb_chunk_handle :: chunk_handle
  cb_block_index :: "64 word"
  cb_checksum :: "32 word"

definition default_block :: checksum_block where
  "default_block = \<lparr>cb_chunk_handle = 0, cb_block_index = 0, cb_checksum = 0\<rparr>"

record checksum_manager =
  km_storage :: chunk_storage
  km_checksums :: "(chunk_handle \<times> checksum_block list) list"

definition ChecksumManager :: "chunk_storage \<Rightarrow> checksum_manager" where
  "ChecksumManager s = \<lparr>km_storage = s, km_checksums = []\<rparr>"

definition ComputeCRC32 :: "string \<Rightarrow> 32 word" where
  "ComputeCRC32 data = foldl crc_byte 0xFFFFFFFF data XOR 0xFFFFFFFF"

definition ExpectedBlockCount :: "64 word \<Rightarrow> 64 word" where
  "ExpectedBlockCount chunk_size = (if chunk_size = 0 then 0 else (chunk_size - 1) div kChecksumBlockSize + 1)"

definition GetChecksumPath :: "checksum_manager \<Rightarrow> chunk_handle \<Rightarrow> file_path" where
  "GetChecksumPath m handle = path_div (sg_directory (km_storage m)) (''checksum_'' @ to_string handle)"

section \<open>The checksum files\<close>

text \<open>Steps on the storage and on its disk.\<close>

definition on_disk :: "(disk \<Rightarrow> 'a \<times> disk) \<Rightarrow> checksum_manager \<Rightarrow> 'a \<times> checksum_manager" where
  "on_disk f m = (case f (sg_disk (km_storage m)) of
     (r, d) \<Rightarrow> (r, m\<lparr>km_storage := (km_storage m)\<lparr>sg_disk := d\<rparr>\<rparr>))"

definition km_set :: "chunk_handle \<Rightarrow> checksum_block list \<Rightarrow> checksum_manager \<Rightarrow> checksum_manager" where
  "km_set handle blocks m = m\<lparr>km_checksums := AList.update handle blocks (km_checksums m)\<rparr>"

definition km_erase :: "chunk_handle \<Rightarrow> checksum_manager \<Rightarrow> checksum_manager" where
  "km_erase handle m = m\<lparr>km_checksums := AList.delete handle (km_checksums m)\<rparr>"

text \<open>
  The common end of several operations: \<open>if (exists(path)) { remove(path, error); return !error; } return true;\<close>
  and the variant of \<open>DeleteChecksums\<close> that asks for \<open>removed && !error\<close>.
\<close>

definition remove_if_exists :: "file_path \<Rightarrow> disk \<Rightarrow> bool \<times> disk" where
  "remove_if_exists path d =
     (if \<not> dk_exists d path then (True, d)
      else case call_ok d of
        (ok, d) \<Rightarrow> (ok, if ok then d\<lparr>dk_files := (dk_files d)(path := None)\<rparr> else d))"

text \<open>\<open>ofstream\<close>, opened with \<open>trunc\<close>, written and flushed.\<close>

definition write_stream :: "file_path \<Rightarrow> string \<Rightarrow> disk \<Rightarrow> bool \<times> disk" where
  "write_stream path content d =
     (case call_ok d of
        (False, d) \<Rightarrow> (False, d)
      | (True, d) \<Rightarrow>
          (case write_at_loop path 0 content 0 (put_content path [] d) of
             (written, d) \<Rightarrow> (written = Some (length content), d)))"

text \<open>\<open>rename(temporary, path, error)\<close>, and \<open>remove(temporary, error)\<close> after a failure.\<close>

definition replace_file :: "file_path \<Rightarrow> file_path \<Rightarrow> disk \<Rightarrow> bool \<times> disk" where
  "replace_file temporary path d =
     (case call_ok d of
        (True, d) \<Rightarrow> (True, d\<lparr>dk_files := (dk_files d)(path := dk_files d temporary, temporary := None)\<rparr>)
      | (False, d) \<Rightarrow> (False, snd (dk_remove temporary d)))"

definition encode_checksums :: "checksum_block list \<Rightarrow> string" where
  "encode_checksums blocks = concat (map (\<lambda>b. put_u32 (cb_checksum b)) blocks)"

definition PersistChecksums :: "chunk_handle \<Rightarrow> checksum_manager \<Rightarrow> bool \<times> checksum_manager" where
  "PersistChecksums handle m =
     (if handle = 0 then (False, m)
      else
        let path = GetChecksumPath m handle; temporary_path = path @ ''.tmp'' in
        case map_of (km_checksums m) handle of
          None \<Rightarrow> on_disk (remove_if_exists path) m
        | Some [] \<Rightarrow> on_disk (remove_if_exists path) m
        | Some blocks \<Rightarrow>
            and_then (on_disk (write_stream temporary_path (encode_checksums blocks)) m)
              (on_disk (replace_file temporary_path path)))"

text \<open>
  \<open>ifstream\<close>: the file is opened, its size is asked for, and it is read from the start; None when one
  of the calls fails or the size is not a multiple of the size of a checksum.
\<close>

fun decode_checksums :: "chunk_handle \<Rightarrow> nat \<Rightarrow> nat \<Rightarrow> string \<Rightarrow> checksum_block list option" where
  "decode_checksums handle index 0 input = Some []"
| "decode_checksums handle index (Suc n) input =
     (case get_u32 input of
        None \<Rightarrow> None
      | Some (checksum, rest) \<Rightarrow>
          map_option (Cons \<lparr>cb_chunk_handle = handle, cb_block_index = of_nat index, cb_checksum = checksum\<rparr>)
            (decode_checksums handle (Suc index) n rest))"

definition read_stream :: "file_path \<Rightarrow> disk \<Rightarrow> string option \<times> disk" where
  "read_stream path d =
     (case call_ok d of
        (opened, d) \<Rightarrow>
          if \<not> opened \<or> \<not> dk_exists d path then (None, d)
          else case call_ok d of
            (sized, d) \<Rightarrow>
              if \<not> sized \<or> length (dk_content d path) mod 4 \<noteq> 0 then (None, d)
              else read_at_loop path 0 (length (dk_content d path)) [] d)"

definition LoadChecksums :: "chunk_handle \<Rightarrow> checksum_manager \<Rightarrow> bool \<times> checksum_manager" where
  "LoadChecksums handle m =
     (if handle = 0 then (False, m)
      else
        let path = GetChecksumPath m handle;
            file_size = length (dk_content (sg_disk (km_storage m)) path) in
        case on_disk (read_stream path) m of
          (None, m) \<Rightarrow> (False, m)
        | (Some input, m) \<Rightarrow>
            case decode_checksums handle 0 (file_size div 4) input of
              None \<Rightarrow> (False, m)
            | Some blocks \<Rightarrow> (True, km_set handle blocks m))"

section \<open>Computing checksums\<close>

definition ReadBlock :: "chunk_handle \<Rightarrow> 64 word \<Rightarrow> checksum_manager \<Rightarrow> string option \<times> checksum_manager" where
  "ReadBlock handle block_index m =
     (if handle = 0 then (None, m)
      else
        let sz = sg_GetChunkSize (km_storage m) handle;
            block_start = block_index * kChecksumBlockSize in
        if block_start \<ge> sz then (None, m)
        else case sg_ReadChunk handle block_start (min (sz - block_start) kChecksumBlockSize) (km_storage m) of
          (data, s) \<Rightarrow> (data, m\<lparr>km_storage := s\<rparr>))"

text \<open>\<open>checksums_[handle]\<close>.\<close>

definition blocks_for :: "checksum_manager \<Rightarrow> chunk_handle \<Rightarrow> checksum_block list" where
  "blocks_for m handle = (case map_of (km_checksums m) handle of None \<Rightarrow> [] | Some blocks \<Rightarrow> blocks)"

text \<open>The loop over \<open>n\<close> blocks from \<open>block_index\<close> on.\<close>

fun recompute_loop :: "chunk_handle \<Rightarrow> nat \<Rightarrow> 64 word \<Rightarrow> checksum_manager \<Rightarrow> bool \<times> checksum_manager" where
  "recompute_loop handle 0 block_index m = (True, m)"
| "recompute_loop handle (Suc n) block_index m =
     (case ReadBlock handle block_index m of
        (None, m) \<Rightarrow> (False, m)
      | (Some data, m) \<Rightarrow>
          recompute_loop handle n (block_index + 1)
            (km_set handle
              ((blocks_for m handle)[unat block_index := \<lparr>cb_chunk_handle = handle, cb_block_index = block_index,
                   cb_checksum = ComputeCRC32 data\<rparr>]) m))"

text \<open>\<open>checksums_[handle].resize(n)\<close>.\<close>

definition resized_blocks :: "checksum_manager \<Rightarrow> chunk_handle \<Rightarrow> nat \<Rightarrow> checksum_block list" where
  "resized_blocks m handle n =
     take n (blocks_for m handle) @ replicate (n - length (blocks_for m handle)) default_block"

definition RecomputeBlocks :: "chunk_handle \<Rightarrow> 64 word \<Rightarrow> 64 word \<Rightarrow> checksum_manager \<Rightarrow> bool \<times> checksum_manager" where
  "RecomputeBlocks handle first_block last_block m =
     (if handle = 0 \<or> first_block > last_block \<or> \<not> sg_ChunkExists (km_storage m) handle then (False, m)
      else
        let block_count = ExpectedBlockCount (sg_GetChunkSize (km_storage m) handle) in
        if block_count = 0 \<or> first_block \<ge> block_count \<or> last_block \<ge> block_count then (False, m)
        else recompute_loop handle (unat last_block - unat first_block + 1) first_block
               (km_set handle (resized_blocks m handle (unat block_count)) m))"

definition ComputeChunkChecksums :: "chunk_handle \<Rightarrow> checksum_manager \<Rightarrow> bool \<times> checksum_manager" where
  "ComputeChunkChecksums handle m =
     (if handle = 0 \<or> \<not> sg_ChunkExists (km_storage m) handle then (False, m)
      else
        let sz = sg_GetChunkSize (km_storage m) handle; m = km_erase handle m in
        if sz = 0 then on_disk (remove_if_exists (GetChecksumPath m handle)) m
        else and_then (RecomputeBlocks handle 0 (ExpectedBlockCount sz - 1) m) (PersistChecksums handle))"

definition UpdateAfterWrite :: "chunk_handle \<Rightarrow> 64 word \<Rightarrow> 64 word \<Rightarrow> checksum_manager \<Rightarrow> bool \<times> checksum_manager" where
  "UpdateAfterWrite handle offset len m =
     (if handle = 0 \<or> len = 0 \<or> \<not> sg_ChunkExists (km_storage m) handle
      then (len = 0 \<and> handle \<noteq> 0 \<and> sg_ChunkExists (km_storage m) handle, m)
      else
        let end_offset = offset + len; sz = sg_GetChunkSize (km_storage m) handle in
        if end_offset < offset then (False, m)
        else if offset > sz \<or> end_offset > sz then (False, m)
        else and_then
               (RecomputeBlocks handle (offset div kChecksumBlockSize) ((end_offset - 1) div kChecksumBlockSize) m)
               (PersistChecksums handle))"

definition UpdateAfterTruncate :: "chunk_handle \<Rightarrow> 64 word \<Rightarrow> checksum_manager \<Rightarrow> bool \<times> checksum_manager" where
  "UpdateAfterTruncate handle sz m =
     (if handle = 0 \<or> \<not> sg_ChunkExists (km_storage m) handle then (False, m)
      else if sg_GetChunkSize (km_storage m) handle \<noteq> sz then (False, m)
      else
        let block_count = ExpectedBlockCount sz; m = km_erase handle m in
        if block_count = 0 then on_disk (remove_if_exists (GetChecksumPath m handle)) m
        else and_then (RecomputeBlocks handle 0 (block_count - 1) m) (PersistChecksums handle))"

section \<open>Verification\<close>

fun verify_loop ::
    "chunk_handle \<Rightarrow> checksum_block list \<Rightarrow> nat \<Rightarrow> 64 word \<Rightarrow> checksum_manager \<Rightarrow> bool \<times> checksum_manager" where
  "verify_loop handle blocks 0 block_index m = (True, m)"
| "verify_loop handle blocks (Suc n) block_index m =
     (case ReadBlock handle block_index m of
        (None, m) \<Rightarrow> (False, m)
      | (Some data, m) \<Rightarrow>
          if cb_checksum (blocks ! unat block_index) \<noteq> ComputeCRC32 data then (False, m)
          else verify_loop handle blocks n (block_index + 1) m)"

definition VerifyChunkRange :: "chunk_handle \<Rightarrow> 64 word \<Rightarrow> 64 word \<Rightarrow> checksum_manager \<Rightarrow> bool \<times> checksum_manager" where
  "VerifyChunkRange handle offset len m =
     (if handle = 0 \<or> \<not> sg_ChunkExists (km_storage m) handle then (False, m)
      else if len = 0 then (True, m)
      else
        let sz = sg_GetChunkSize (km_storage m) handle; end_offset = offset + len in
        if end_offset < offset \<or> offset > sz \<or> end_offset > sz then (False, m)
        else
          let first_block = offset div kChecksumBlockSize; last_block = (end_offset - 1) div kChecksumBlockSize in
          case map_of (km_checksums m) handle of
            None \<Rightarrow> (False, m)
          | Some blocks \<Rightarrow>
              if unat last_block \<ge> length blocks then (False, m)
              else verify_loop handle blocks (unat last_block - unat first_block + 1) first_block m)"

definition VerifyChunk :: "chunk_handle \<Rightarrow> checksum_manager \<Rightarrow> bool \<times> checksum_manager" where
  "VerifyChunk handle m =
     (if handle = 0 \<or> \<not> sg_ChunkExists (km_storage m) handle then (False, m)
      else
        let sz = sg_GetChunkSize (km_storage m) handle in
        if sz = 0 then (True, m) else VerifyChunkRange handle 0 sz m)"

section \<open>Queries, deletion and start\<close>

definition GetChecksums :: "checksum_manager \<Rightarrow> chunk_handle \<Rightarrow> checksum_block list" where
  "GetChecksums m handle =
     (if handle = 0 then []
      else case map_of (km_checksums m) handle of None \<Rightarrow> [] | Some blocks \<Rightarrow> blocks)"

definition GetChecksum :: "checksum_manager \<Rightarrow> chunk_handle \<Rightarrow> 64 word \<Rightarrow> 32 word option" where
  "GetChecksum m handle block_index =
     (if handle = 0 then None
      else case map_of (km_checksums m) handle of
        None \<Rightarrow> None
      | Some blocks \<Rightarrow>
          if unat block_index \<ge> length blocks then None else Some (cb_checksum (blocks ! unat block_index)))"

definition ChecksumBlockCount :: "checksum_manager \<Rightarrow> chunk_handle \<Rightarrow> nat" where
  "ChecksumBlockCount m handle =
     (if handle = 0 then 0
      else case map_of (km_checksums m) handle of None \<Rightarrow> 0 | Some blocks \<Rightarrow> length blocks)"

definition HasChecksums :: "checksum_manager \<Rightarrow> chunk_handle \<Rightarrow> bool" where
  "HasChecksums m handle \<longleftrightarrow> ChecksumBlockCount m handle \<noteq> 0"

definition DeleteChecksums :: "chunk_handle \<Rightarrow> checksum_manager \<Rightarrow> bool \<times> checksum_manager" where
  "DeleteChecksums handle m =
     (if handle = 0 then (False, m)
      else
        let m = km_erase handle m; path = GetChecksumPath m handle in
        if \<not> dk_exists (sg_disk (km_storage m)) path then (True, m) else on_disk (dk_remove path) m)"

text \<open>The body of the loop of \<open>Initialize\<close>.\<close>

definition init_checksums :: "chunk_handle \<Rightarrow> checksum_manager \<Rightarrow> bool \<times> checksum_manager" where
  "init_checksums handle m =
     (if handle = 0 then (True, m)
      else
        let expected_blocks = ExpectedBlockCount (sg_GetChunkSize (km_storage m) handle);
            path = GetChecksumPath m handle in
        case (if dk_exists (sg_disk (km_storage m)) path then LoadChecksums handle m else (False, m)) of
          (loaded, m) \<Rightarrow>
            let loaded = (loaded \<and> (case map_of (km_checksums m) handle of
                                      None \<Rightarrow> False | Some blocks \<Rightarrow> length blocks = unat expected_blocks)) in
            if expected_blocks = 0 then on_disk (remove_if_exists path) (km_erase handle m)
            else if \<not> loaded
            then and_then (RecomputeBlocks handle 0 (expected_blocks - 1) m) (PersistChecksums handle)
            else (True, m))"

fun init_loop :: "chunk_handle list \<Rightarrow> checksum_manager \<Rightarrow> bool \<times> checksum_manager" where
  "init_loop [] m = (True, m)"
| "init_loop (handle # handles) m = and_then (init_checksums handle m) (init_loop handles)"

definition km_Initialize :: "checksum_manager \<Rightarrow> bool \<times> checksum_manager" where
  "km_Initialize m = init_loop (sg_ListChunks (km_storage m)) (m\<lparr>km_checksums := []\<rparr>)"

section \<open>Blocks of a chunk\<close>

abbreviation block_size :: nat where
  "block_size \<equiv> 65536"

definition block_of :: "string \<Rightarrow> nat \<Rightarrow> string" where
  "block_of content i = take block_size (drop (i * block_size) content)"

definition blocks_in :: "nat \<Rightarrow> nat" where
  "blocks_in n = (n + (block_size - 1)) div block_size"

definition block_sums :: "string \<Rightarrow> 32 word list" where
  "block_sums content = map (\<lambda>i. ComputeCRC32 (block_of content i)) [0..<blocks_in (length content)]"

definition recorded :: "checksum_manager \<Rightarrow> chunk_handle \<Rightarrow> 32 word list" where
  "recorded m h = map cb_checksum (blocks_for m h)"

lemma less_blocks_in: "i < blocks_in n \<longleftrightarrow> i * block_size < n"
  by (auto simp: blocks_in_def)

lemma unat_block_size: "unat kChecksumBlockSize = block_size"
  by (simp add: kChecksumBlockSize_def)

lemma unat_div_block: "unat (w div kChecksumBlockSize) = unat w div block_size"
  by (simp add: unat_div unat_block_size)

lemma unat_minus_1: "w \<noteq> 0 \<Longrightarrow> unat (w - 1 :: 64 word) = unat w - 1"
  by (simp add: unat_minus_one)

lemma unat_ExpectedBlockCount: "unat (ExpectedBlockCount sz) = blocks_in (unat sz)"
proof (cases "sz = 0")
  case False
  then have pos: "0 < unat sz" by (simp add: unat_gt_0)
  have "unat ((sz - 1) div kChecksumBlockSize) + 1 = blocks_in (unat sz)"
    using pos False by (simp add: unat_div_block unat_minus_1 blocks_in_def)
  moreover have "blocks_in (unat sz) < 2 ^ 64" using unat_u64_less [of sz] by (simp add: blocks_in_def)
  ultimately show ?thesis using False unat_add_lem [of "(sz - 1) div kChecksumBlockSize" 1]
    by (simp add: ExpectedBlockCount_def)
qed (simp add: ExpectedBlockCount_def blocks_in_def)

lemma ComputeCRC32_eq: "ComputeCRC32 data = ComputeChecksum data"
proof -
  have "w XOR 0xFFFFFFFF = NOT w" for w :: "32 word"
  proof -
    have "(0xFFFFFFFF :: 32 word) = - 1" by simp
    then show ?thesis by (metis bit.xor_one_right)
  qed
  then show ?thesis by (simp add: ComputeCRC32_def ComputeChecksum_def)
qed

lemma length_block_of: "length (block_of content i) = min block_size (length content - i * block_size)"
  by (simp add: block_of_def)

section \<open>The storage below\<close>

text \<open>
  The manager writes only files whose names start with \<open>checksum_\<close>: for the chunks such a change of the
  disk is no change.
\<close>

definition calm :: "chunk_storage \<Rightarrow> chunk_storage \<Rightarrow> bool" where
  "calm s s' \<longleftrightarrow> sg_directory s' = sg_directory s \<and> sg_chunks s' = sg_chunks s \<and>
     (\<forall>name. prefix ''chunk_'' name \<longrightarrow>
       dk_files (sg_disk s') (path_div (sg_directory s) name) = dk_files (sg_disk s) (path_div (sg_directory s) name))"

lemma calm_refl [simp]: "calm s s"
  by (simp add: calm_def)

lemma calm_trans: "calm s s' \<Longrightarrow> calm s' s'' \<Longrightarrow> calm s s''"
  by (simp add: calm_def)

lemma calm_keeps:
  assumes "calm s s'" and "sg_ok s"
  shows "sg_ok s'" "sg_bytes s' = sg_bytes s" "sg_ChunkExists s' = sg_ChunkExists s" "sg_GetChunkSize s' = sg_GetChunkSize s"
    and "sg_directory s' = sg_directory s"
proof -
  have s': "s' = s\<lparr>sg_disk := sg_disk s'\<rparr>" using assms(1) by (simp add: calm_def)
  have same: "dk_files (sg_disk s') (cf_path c) = dk_files (sg_disk s) (cf_path c)" if c: "map_of (sg_chunks s) h = Some c" for h c
  proof -
    obtain number where "cf_path c = path_div (sg_directory s) (''chunk_'' @ number)"
      using sg_okD [OF assms(2) c] by (auto simp: cf_ok_def)
    then show ?thesis using assms(1) by (simp add: calm_def)
  qed
  show "sg_ok s'" "sg_bytes s' = sg_bytes s" using sg_frame [of s "sg_disk s'"] same assms(2) s' by auto
  show "sg_ChunkExists s' = sg_ChunkExists s"
    using assms(1) by (simp add: fun_eq_iff sg_ChunkExists_def sg_HasChunk_def GetChunkPath_def dk_exists_def calm_def)
  show "sg_GetChunkSize s' = sg_GetChunkSize s" "sg_directory s' = sg_directory s"
    using assms(1) by (simp_all add: fun_eq_iff sg_GetChunkSize_def sg_GetChunk_def calm_def)
qed

lemma checksum_path_other: "prefix ''chunk_'' name \<Longrightarrow> path_div dir name \<noteq> path_div dir (''checksum_'' @ number)"
  by (auto simp: prefix_def)

lemma checksum_tmp_other: "prefix ''chunk_'' name \<Longrightarrow> path_div dir name \<noteq> path_div dir (''checksum_'' @ number) @ ''.tmp''"
  by (auto simp: prefix_def path_div_def)

lemma ReadBlock_result:
  assumes ok: "sg_ok (km_storage m)" and content: "sg_bytes (km_storage m) h = Some content"
    and r: "ReadBlock h i m = (res, m')"
  shows "\<exists>s'. m' = m\<lparr>km_storage := s'\<rparr> \<and> calm (km_storage m) s' \<and> (sg_benign (km_storage m) \<longrightarrow> sg_benign s')"
    and "sg_benign (km_storage m) \<Longrightarrow> unat i * block_size < length content \<Longrightarrow> res = Some (block_of content (unat i))"
proof -
  obtain c where c: "map_of (sg_chunks (km_storage m)) h = Some c" "content = cf_bytes (sg_disk (km_storage m)) c"
    using content by (auto simp: sg_bytes_Some)
  have cok: "cf_ok (sg_directory (km_storage m)) (sg_disk (km_storage m)) h c" by (rule sg_okD [OF ok c(1)])
  have h: "h \<noteq> 0" using cok by (simp add: cf_ok_def)
  let ?sz = "sg_GetChunkSize (km_storage m) h"
  have sz: "unat ?sz = length content" using sg_GetChunkSize_bytes [OF ok, of h] content by simp
  have bound: "length content \<le> 2 ^ 26" using cf_ok_size [OF cok] length_cf_bytes [OF cok] c(2) by simp
  show "\<exists>s'. m' = m\<lparr>km_storage := s'\<rparr> \<and> calm (km_storage m) s' \<and> (sg_benign (km_storage m) \<longrightarrow> sg_benign s')"
  proof (cases "i * kChecksumBlockSize \<ge> ?sz")
    case True
    then have "m' = m" using r h by (simp add: ReadBlock_def Let_def)
    then show ?thesis by (intro exI [of _ "km_storage m"]) simp
  next
    case False
    obtain data s' where s': "sg_ReadChunk h (i * kChecksumBlockSize) (min (?sz - i * kChecksumBlockSize) kChecksumBlockSize)
        (km_storage m) = (data, s')" by fastforce
    note read = sg_ReadChunk_result [OF ok s']
    have "m' = m\<lparr>km_storage := s'\<rparr>" using r h False s' by (simp add: ReadBlock_def Let_def)
    moreover have "calm (km_storage m) s'" using read(2,3,5) content by (simp add: calm_def)
    ultimately show ?thesis using read(7) by blast
  qed
  assume ben: "sg_benign (km_storage m)" and i: "unat i * block_size < length content"
  have "unat i * unat kChecksumBlockSize < 2 ^ 64" using i bound by (simp add: unat_block_size)
  then have start: "unat (i * kChecksumBlockSize) = unat i * block_size"
    using unat_mult_lem [of i kChecksumBlockSize] by (simp add: unat_block_size)
  then have False: "\<not> i * kChecksumBlockSize \<ge> ?sz" using i sz by (simp add: word_le_nat_alt)
  have "unat (?sz - i * kChecksumBlockSize) = length content - unat i * block_size"
    using False start sz by (simp add: unat_sub less_imp_le)
  then have len: "unat (min (?sz - i * kChecksumBlockSize) kChecksumBlockSize) = min (length content - unat i * block_size) block_size"
    using unat_block_size by (simp add: min_def word_le_nat_alt)
  obtain data s' where s': "sg_ReadChunk h (i * kChecksumBlockSize) (min (?sz - i * kChecksumBlockSize) kChecksumBlockSize)
      (km_storage m) = (data, s')" by fastforce
  have "data = Some (take (min (length content - unat i * block_size) block_size) (drop (unat i * block_size) content))"
    using sg_ReadChunk_result(7) [OF ok s' ben] content i by (simp add: start len)
  moreover have "res = data" using r h False s' by (simp add: ReadBlock_def Let_def)
  ultimately show "res = Some (block_of content (unat i))" by (simp add: block_of_def min_def)
qed

section \<open>What the operations change\<close>

text \<open>An operation on the checksums of one chunk: the chunks, and the checksums of the others, stay.\<close>

definition touches :: "chunk_handle \<Rightarrow> checksum_manager \<Rightarrow> checksum_manager \<Rightarrow> bool" where
  "touches h m m' \<longleftrightarrow> calm (km_storage m) (km_storage m') \<and>
     (sg_benign (km_storage m) \<longrightarrow> sg_benign (km_storage m')) \<and> (\<forall>g. g \<noteq> h \<longrightarrow> recorded m' g = recorded m g)"

abbreviation km_benign :: "checksum_manager \<Rightarrow> bool" where
  "km_benign m \<equiv> sg_benign (km_storage m)"

lemma touches_refl [simp]: "touches h m m"
  by (simp add: touches_def)

lemma touches_trans: "touches h m m' \<Longrightarrow> touches h m' m'' \<Longrightarrow> touches h m m''"
  by (auto simp: touches_def intro: calm_trans)

lemma touches_keeps:
  assumes "touches h m m'" and "sg_ok (km_storage m)"
  shows "sg_ok (km_storage m')" "sg_bytes (km_storage m') = sg_bytes (km_storage m)"
    and "sg_ChunkExists (km_storage m') = sg_ChunkExists (km_storage m)"
    and "sg_GetChunkSize (km_storage m') = sg_GetChunkSize (km_storage m)"
  using calm_keeps [of "km_storage m" "km_storage m'"] assms by (simp_all add: touches_def)

lemma touches_and_then:
  assumes "touches h m (snd r)" and "\<And>s. touches h m s \<Longrightarrow> touches h s (snd (rest s))"
  shows "touches h m (snd (and_then r rest))"
  using and_then_rule [of "touches h m" r rest] assms touches_trans by blast

lemma km_set_simps [simp]:
  "km_storage (km_set h blocks m) = km_storage m"
  "recorded (km_set h blocks m) g = (if g = h then map cb_checksum blocks else recorded m g)"
  by (simp_all add: km_set_def recorded_def blocks_for_def update_conv')

lemma km_erase_simps [simp]:
  "km_storage (km_erase h m) = km_storage m"
  "recorded (km_erase h m) g = (if g = h then [] else recorded m g)"
  by (simp_all add: km_erase_def recorded_def blocks_for_def delete_conv')

lemma touches_set [simp]: "touches h m (km_set h blocks m)" "touches h m (km_erase h m)"
  by (simp_all add: touches_def)

lemma touches_storage: "calm (km_storage m) s \<Longrightarrow> (km_benign m \<longrightarrow> sg_benign s) \<Longrightarrow> touches h m (m\<lparr>km_storage := s\<rparr>)"
  by (simp add: touches_def recorded_def blocks_for_def)

lemma ReadBlock_touches:
  assumes "sg_ok (km_storage m)" and "sg_bytes (km_storage m) h = Some content" and "ReadBlock h i m = (res, m')"
  shows "touches g m m'" and "recorded m' = recorded m"
  using ReadBlock_result(1) [OF assms] touches_storage by (auto simp: recorded_def blocks_for_def fun_eq_iff)

lemma recompute_loop_touches:
  "sg_ok (km_storage m) \<Longrightarrow> sg_bytes (km_storage m) h = Some content \<Longrightarrow> touches h m (snd (recompute_loop h n i m))"
proof (induction n arbitrary: i m)
  case (Suc n)
  obtain res m1 where m1: "ReadBlock h i m = (res, m1)" by fastforce
  note t = ReadBlock_touches(1) [OF Suc.prems m1, of h]
  show ?case
  proof (cases res)
    case (Some data)
    let ?m = "km_set h ((blocks_for m1 h)[unat i := \<lparr>cb_chunk_handle = h, cb_block_index = i, cb_checksum = ComputeCRC32 data\<rparr>]) m1"
    have t2: "touches h m ?m" using touches_trans [OF t] touches_set by blast
    have "touches h ?m (snd (recompute_loop h n (i + 1) ?m))"
      using Suc.IH [of ?m "i + 1"] touches_keeps [OF t2 Suc.prems(1)] Suc.prems(2) by simp
    then show ?thesis using touches_trans [OF t2] m1 Some by simp
  qed (use t m1 in simp)
qed simp

lemma recompute_loop_result:
  "sg_ok (km_storage m) \<Longrightarrow> sg_bytes (km_storage m) h = Some content \<Longrightarrow> km_benign m \<Longrightarrow>
    unat i + n \<le> blocks_in (length content) \<Longrightarrow> length (recorded m h) = blocks_in (length content) \<Longrightarrow>
    \<exists>m'. recompute_loop h n i m = (True, m') \<and> length (recorded m' h) = blocks_in (length content) \<and>
      (\<forall>j < blocks_in (length content). recorded m' h ! j =
        (if unat i \<le> j \<and> j < unat i + n then ComputeCRC32 (block_of content j) else recorded m h ! j))"
proof (induction n arbitrary: i m)
  case (Suc n)
  obtain res m1 where m1: "ReadBlock h i m = (res, m1)" by fastforce
  note t = ReadBlock_touches(1) [OF Suc.prems(1,2) m1, of h]
  have i: "unat i < blocks_in (length content)" using Suc.prems(4) by simp
  then have res: "res = Some (block_of content (unat i))"
    using ReadBlock_result(2) [OF Suc.prems(1,2) m1 Suc.prems(3)] by (simp add: less_blocks_in)
  let ?m = "km_set h ((blocks_for m1 h)[unat i := \<lparr>cb_chunk_handle = h, cb_block_index = i, cb_checksum = ComputeCRC32 (block_of content (unat i))\<rparr>]) m1"
  have rec: "recorded ?m h = (recorded m h)[unat i := ComputeCRC32 (block_of content (unat i))]"
    using fun_cong [OF ReadBlock_touches(2) [OF Suc.prems(1,2) m1], of h] by (simp add: map_update recorded_def [of m1, symmetric])
  have t2: "touches h m ?m" using touches_trans [OF t] touches_set by blast
  have "blocks_in (length content) < 2 ^ 64"
  proof -
    have "length content < 2 ^ 64"
      using sg_GetChunkSize_bytes [OF Suc.prems(1), of h] Suc.prems(2) unat_u64_less [of "sg_GetChunkSize (km_storage m) h"] by simp
    then show ?thesis by (simp add: blocks_in_def)
  qed
  then have i1: "unat (i + 1) = unat i + 1" using i unat_add_lem [of i 1] by simp
  have "\<exists>m'. recompute_loop h n (i + 1) ?m = (True, m') \<and> length (recorded m' h) = blocks_in (length content) \<and>
      (\<forall>j < blocks_in (length content). recorded m' h ! j =
        (if unat (i + 1) \<le> j \<and> j < unat (i + 1) + n then ComputeCRC32 (block_of content j) else recorded ?m h ! j))"
    using touches_keeps [OF t2 Suc.prems(1)] Suc.prems t2 i1 rec
    by (intro Suc.IH) (simp_all add: touches_def)
  then obtain m' where m': "recompute_loop h n (i + 1) ?m = (True, m')" "length (recorded m' h) = blocks_in (length content)"
      "\<forall>j < blocks_in (length content). recorded m' h ! j =
        (if unat (i + 1) \<le> j \<and> j < unat (i + 1) + n then ComputeCRC32 (block_of content j) else recorded ?m h ! j)" by blast
  have "recorded m' h ! j =
      (if unat i \<le> j \<and> j < unat i + Suc n then ComputeCRC32 (block_of content j) else recorded m h ! j)"
    if "j < blocks_in (length content)" for j
    using m'(3) that i1 rec Suc.prems(5) i by (cases "j = unat i") auto
  then show ?case using m'(1,2) m1 res by simp
qed auto

text \<open>Steps on the disk that leave the files of the chunks alone.\<close>

definition spares_chunks :: "file_path \<Rightarrow> (disk \<Rightarrow> 'a \<times> disk) \<Rightarrow> bool" where
  "spares_chunks dir f \<longleftrightarrow> (\<forall>d. (\<forall>name. prefix ''chunk_'' name \<longrightarrow>
     dk_files (snd (f d)) (path_div dir name) = dk_files d (path_div dir name)) \<and> (benign d \<longrightarrow> benign (snd (f d))))"

lemma on_disk_touches:
  assumes "spares_chunks (sg_directory (km_storage m)) f"
  shows "touches h m (snd (on_disk f m))" and "recorded (snd (on_disk f m)) = recorded m"
proof -
  obtain r d where d: "f (sg_disk (km_storage m)) = (r, d)" by fastforce
  have "touches h m (m\<lparr>km_storage := (km_storage m)\<lparr>sg_disk := d\<rparr>\<rparr>)"
    using spec [OF assms [unfolded spares_chunks_def], of "sg_disk (km_storage m)"] d
    by (intro touches_storage) (simp_all add: calm_def)
  then show "touches h m (snd (on_disk f m))" "recorded (snd (on_disk f m)) = recorded m"
    by (simp_all add: on_disk_def d recorded_def blocks_for_def fun_eq_iff)
qed

lemma RecomputeBlocks_touches:
  assumes "sg_ok (km_storage m)" and "sg_bytes (km_storage m) h = Some content"
  shows "touches h m (snd (RecomputeBlocks h first_block last_block m))"
proof -
  let ?m = "km_set h (resized_blocks m h (unat (ExpectedBlockCount (sg_GetChunkSize (km_storage m) h)))) m"
  have "touches h m (snd (recompute_loop h n i ?m))" for n i
    using touches_trans [of h m ?m] recompute_loop_touches [of ?m h content n i] assms by simp
  then show ?thesis by (simp add: RecomputeBlocks_def Let_def del: recompute_loop.simps)
qed

lemma stored_nonzero: "sg_ok s \<Longrightarrow> sg_bytes s h \<noteq> None \<Longrightarrow> h \<noteq> 0 \<and> sg_ChunkExists s h"
  by (auto simp: sg_bytes_None sg_ChunkExists_def sg_HasChunk_def cf_ok_def dest: sg_okD)

lemma RecomputeBlocks_result:
  assumes ok: "sg_ok (km_storage m)" and content: "sg_bytes (km_storage m) h = Some content" and ben: "km_benign m"
    and range: "unat first_block \<le> unat last_block" "unat last_block < blocks_in (length content)"
  shows "\<exists>m'. RecomputeBlocks h first_block last_block m = (True, m') \<and> length (recorded m' h) = blocks_in (length content) \<and>
    (\<forall>j < blocks_in (length content). recorded m' h ! j =
      (if unat first_block \<le> j \<and> j \<le> unat last_block then ComputeCRC32 (block_of content j)
       else if j < length (recorded m h) then recorded m h ! j else 0))"
proof -
  let ?n = "unat (ExpectedBlockCount (sg_GetChunkSize (km_storage m) h))"
  let ?m = "km_set h (resized_blocks m h ?n) m"
  have n: "?n = blocks_in (length content)"
    using sg_GetChunkSize_bytes [OF ok, of h] content by (simp add: unat_ExpectedBlockCount)
  have rec: "recorded ?m h = take ?n (recorded m h) @ replicate (?n - length (recorded m h)) 0"
    by (simp add: resized_blocks_def recorded_def [of m] take_map default_block_def)
  have exists: "h \<noteq> 0" "sg_ChunkExists (km_storage m) h" using stored_nonzero [OF ok, of h] content by simp_all
  have guards: "\<not> first_block > last_block" "ExpectedBlockCount (sg_GetChunkSize (km_storage m) h) \<noteq> 0"
      "\<not> first_block \<ge> ExpectedBlockCount (sg_GetChunkSize (km_storage m) h)"
      "\<not> last_block \<ge> ExpectedBlockCount (sg_GetChunkSize (km_storage m) h)"
    using range n by (auto simp: word_le_nat_alt word_less_nat_alt simp flip: unat_gt_0)
  let ?k = "unat last_block - unat first_block + 1"
  have "\<exists>m'. recompute_loop h ?k first_block ?m = (True, m') \<and> length (recorded m' h) = blocks_in (length content) \<and>
      (\<forall>j < blocks_in (length content). recorded m' h ! j =
        (if unat first_block \<le> j \<and> j < unat first_block + ?k then ComputeCRC32 (block_of content j) else recorded ?m h ! j))"
    using ok content ben range by (intro recompute_loop_result) (simp_all add: n resized_blocks_def)
  then obtain m' where m': "recompute_loop h ?k first_block ?m = (True, m')" "length (recorded m' h) = blocks_in (length content)"
      "\<forall>j < blocks_in (length content). recorded m' h ! j =
        (if unat first_block \<le> j \<and> j < unat first_block + ?k then ComputeCRC32 (block_of content j) else recorded ?m h ! j)" by blast
  have "RecomputeBlocks h first_block last_block m = (True, m')"
    using exists guards m'(1) by (simp add: RecomputeBlocks_def Let_def del: recompute_loop.simps)
  moreover have "recorded m' h ! j = (if unat first_block \<le> j \<and> j \<le> unat last_block then ComputeCRC32 (block_of content j)
       else if j < length (recorded m h) then recorded m h ! j else 0)" if "j < blocks_in (length content)" for j
    using m'(3) that range rec n by (auto simp: nth_append)
  ultimately show ?thesis using m'(2) by blast
qed

lemma remove_if_exists_calm:
  assumes "remove_if_exists path d = (r, d')"
  shows "p \<noteq> path \<Longrightarrow> dk_files d' p = dk_files d p" and "benign d \<Longrightarrow> r \<and> benign d'"
proof -
  obtain b d1 where d1: "call_ok d = (b, d1)" by fastforce
  have f: "dk_files d1 = dk_files d" by (rule call_ok_files [OF d1])
  show "p \<noteq> path \<Longrightarrow> dk_files d' p = dk_files d p"
    using assms d1 f by (auto simp: remove_if_exists_def split: if_splits)
  assume ben: "benign d"
  have "b" "benign d1" using benign_call [OF ben d1] by simp_all
  then show "r \<and> benign d'" using assms d1 ben by (auto simp: remove_if_exists_def benign_def split: if_splits)
qed

lemma dk_remove_calm:
  assumes "dk_remove path d = (r, d')"
  shows "p \<noteq> path \<Longrightarrow> dk_files d' p = dk_files d p" and "benign d \<Longrightarrow> benign d'"
    and "benign d \<Longrightarrow> r \<longleftrightarrow> dk_exists d path" and "benign d \<Longrightarrow> dk_files d' path = None"
proof -
  obtain b d1 where d1: "call_ok d = (b, d1)" by fastforce
  have f: "dk_files d1 = dk_files d" by (rule call_ok_files [OF d1])
  show "p \<noteq> path \<Longrightarrow> dk_files d' p = dk_files d p" using assms d1 f by (cases b) (auto simp: dk_remove_def)
  assume ben: "benign d"
  have b: "b" "benign d1" using benign_call [OF ben d1] by simp_all
  then show "benign d'" "r \<longleftrightarrow> dk_exists d path" "dk_files d' path = None"
    using assms d1 f by (auto simp: dk_remove_def benign_def dk_exists_def)
qed

lemma benign_write_loop: "benign d \<Longrightarrow> benign (snd (write_at_loop path offset data cnt d))"
proof (induction path offset data cnt d rule: write_at_loop.induct)
  case (1 path offset data cnt d)
  obtain a d1 where a: "next_answer d = (a, d1)" by fastforce
  have ben: "benign d1" by (rule benign_next(1) [OF 1(3) a])
  have "dk_content d1 = dk_content d" by (rule dk_content_cong [OF next_answer_files [OF a]])
  then show ?case using 1 ben a by (simp add: write_at_loop_step [OF a] Let_def)
qed

lemma write_stream_calm:
  assumes "write_stream path content d = (r, d')"
  shows "p \<noteq> path \<Longrightarrow> dk_files d' p = dk_files d p" and "benign d \<Longrightarrow> benign d'"
    and "benign d \<Longrightarrow> length content \<le> off_max \<Longrightarrow> r"
proof -
  obtain b d1 where d1: "call_ok d = (b, d1)" by fastforce
  have f: "dk_files d1 = dk_files d" by (rule call_ok_files [OF d1])
  obtain w d2 where d2: "write_at_loop path 0 content 0 (put_content path [] d1) = (w, d2)" by fastforce
  obtain k where "wrote path 0 (take k content) (put_content path [] d1) d2"
    using write_at_loop_sound [OF d2] by blast
  then have "p \<noteq> path \<Longrightarrow> dk_files d2 p = dk_files d p" using f by (auto simp: wrote_def split: if_splits)
  then show "p \<noteq> path \<Longrightarrow> dk_files d' p = dk_files d p"
    using assms d1 d2 f by (cases b) (auto simp: write_stream_def)
  assume ben: "benign d"
  have b: "b" "benign d1" using benign_call [OF ben d1] by simp_all
  then show "benign d'" using assms d1 d2 benign_write_loop [of "put_content path [] d1" path 0 content 0]
    by (auto simp: write_stream_def)
  assume "length content \<le> off_max"
  then show r
    using b write_at_loop_complete [of "put_content path [] d1" 0 content path 0] assms d1 d2
    by (auto simp: write_stream_def)
qed

lemma replace_file_calm:
  assumes "replace_file temporary path d = (r, d')"
  shows "p \<noteq> path \<Longrightarrow> p \<noteq> temporary \<Longrightarrow> dk_files d' p = dk_files d p" and "benign d \<Longrightarrow> r \<and> benign d'"
proof -
  obtain b d1 where d1: "call_ok d = (b, d1)" by fastforce
  have f: "dk_files d1 = dk_files d" by (rule call_ok_files [OF d1])
  obtain r2 d2 where d2: "dk_remove temporary d1 = (r2, d2)" by fastforce
  show "p \<noteq> path \<Longrightarrow> p \<noteq> temporary \<Longrightarrow> dk_files d' p = dk_files d p"
    using assms d1 f d2 dk_remove_calm(1) [OF d2, of p] by (cases b) (auto simp: replace_file_def)
  assume ben: "benign d"
  have b: "b" "benign d1" using benign_call [OF ben d1] by simp_all
  then show "r \<and> benign d'" using assms d1 by (auto simp: replace_file_def benign_def)
qed

lemma GetChecksumPath_other:
  assumes "prefix ''chunk_'' name"
  shows "path_div (sg_directory (km_storage m)) name \<noteq> GetChecksumPath m h"
    and "path_div (sg_directory (km_storage m)) name \<noteq> GetChecksumPath m h @ ''.tmp''"
  using checksum_path_other [OF assms] checksum_tmp_other [OF assms] by (simp_all add: GetChecksumPath_def)

lemma spares:
  assumes "\<And>name. prefix ''chunk_'' name \<Longrightarrow> path_div dir name \<noteq> path"
    and "\<And>name. prefix ''chunk_'' name \<Longrightarrow> path_div dir name \<noteq> temporary"
  shows "spares_chunks dir (remove_if_exists path)" "spares_chunks dir (dk_remove path)"
    "spares_chunks dir (write_stream path content)" "spares_chunks dir (replace_file temporary path)"
  using remove_if_exists_calm [OF surjective_pairing] dk_remove_calm(1,2) [OF surjective_pairing]
    write_stream_calm(1,2) [OF surjective_pairing] replace_file_calm [OF surjective_pairing] assms
  by (auto simp: spares_chunks_def)

lemma length_encode: "length (encode_checksums blocks) = 4 * length blocks"
  by (induction blocks) (simp_all add: encode_checksums_def)

lemma PersistChecksums_result:
  shows "touches h m (snd (PersistChecksums h m))" and "recorded (snd (PersistChecksums h m)) = recorded m"
    and "km_benign m \<Longrightarrow> h \<noteq> 0 \<Longrightarrow> length (recorded m h) \<le> 2 ^ 60 \<Longrightarrow> fst (PersistChecksums h m)"
proof -
  let ?path = "GetChecksumPath m h"
  note other = GetChecksumPath_other [of _ m h]
  note spares = spares [of "sg_directory (km_storage m)" ?path "?path @ ''.tmp''", OF other]
    spares(3) [of "sg_directory (km_storage m)" "?path @ ''.tmp''" ?path, OF other(2,1)]
  note rem = on_disk_touches [OF spares(1)]
  have rem_ok: "km_benign m \<Longrightarrow> fst (on_disk (remove_if_exists ?path) m)"
    using remove_if_exists_calm(2) by (auto simp: on_disk_def split: prod.splits)
  obtain ok1 m1 where m1: "on_disk (write_stream (?path @ ''.tmp'') (encode_checksums (blocks_for m h))) m = (ok1, m1)" by fastforce
  have w: "touches h m m1" "recorded m1 = recorded m" using on_disk_touches [OF spares(5)] m1 by (metis snd_conv)+
  obtain ok2 m2 where m2: "on_disk (replace_file (?path @ ''.tmp'') ?path) m1 = (ok2, m2)" by fastforce
  have dir: "sg_directory (km_storage m1) = sg_directory (km_storage m)" using w(1) by (simp add: touches_def calm_def)
  have r: "touches h m1 m2" "recorded m2 = recorded m1"
    using on_disk_touches [of m1 "replace_file (?path @ ''.tmp'') ?path"] spares(4) m2 dir by (metis snd_conv)+
  have eq: "PersistChecksums h m = (if h = 0 then (False, m)
      else if blocks_for m h = [] then on_disk (remove_if_exists ?path) m else and_then (ok1, m1) (\<lambda>m1. on_disk (replace_file (?path @ ''.tmp'') ?path) m1))"
    using m1 by (auto simp: PersistChecksums_def Let_def blocks_for_def split: option.splits list.splits)
  have cases: "snd (PersistChecksums h m) \<in> {m, snd (on_disk (remove_if_exists ?path) m), m1, m2}"
    using m2 by (cases ok1) (auto simp: eq)
  then show "touches h m (snd (PersistChecksums h m))" using rem(1) w(1) touches_trans [OF w(1) r(1)] by auto
  show "recorded (snd (PersistChecksums h m)) = recorded m" using cases rem(2) w(2) r(2) by auto
  assume ben: "km_benign m" and h: "h \<noteq> 0" and len: "length (recorded m h) \<le> 2 ^ 60"
  have "4 * length (blocks_for m h) \<le> off_max" using len by (simp add: recorded_def off_max_def)
  then have ok1: "ok1"
    using write_stream_calm(3) [of "?path @ ''.tmp''" "encode_checksums (blocks_for m h)" "sg_disk (km_storage m)"] ben m1
    by (auto simp: on_disk_def length_encode split: prod.splits)
  have "km_benign m1" using w(1) ben by (simp add: touches_def)
  then have "fst (replace_file (?path @ ''.tmp'') ?path (sg_disk (km_storage m1)))"
    using replace_file_calm(2) [OF surjective_pairing] by blast
  then have ok2: "ok2" using m2 by (auto simp: on_disk_def split: prod.splits)
  show "fst (PersistChecksums h m)" using eq h rem_ok [OF ben] ok1 ok2 m2 by simp
qed

lemma length_block_sums [simp]: "length (block_sums content) = blocks_in (length content)"
  by (simp add: block_sums_def)

lemma nth_block_sums: "j < blocks_in (length content) \<Longrightarrow> block_sums content ! j = ComputeCRC32 (block_of content j)"
  by (simp add: block_sums_def)

lemma block_sums_Nil [simp]: "block_sums [] = []"
  by (simp add: block_sums_def blocks_in_def)

lemma recompute_and_persist:
  assumes ok: "sg_ok (km_storage m)" and content: "sg_bytes (km_storage m) h = Some content" and ben: "km_benign m"
    and range: "unat first_block \<le> unat last_block" "unat last_block < blocks_in (length content)"
    and rest: "\<And>j. j < blocks_in (length content) \<Longrightarrow> j < unat first_block \<or> unat last_block < j \<Longrightarrow>
      j < length (recorded m h) \<and> recorded m h ! j = ComputeCRC32 (block_of content j)"
  shows "\<exists>m'. and_then (RecomputeBlocks h first_block last_block m) (PersistChecksums h) = (True, m') \<and>
    touches h m m' \<and> recorded m' h = block_sums content"
proof -
  obtain m1 where m1: "RecomputeBlocks h first_block last_block m = (True, m1)"
      "length (recorded m1 h) = blocks_in (length content)"
      "\<forall>j < blocks_in (length content). recorded m1 h ! j =
        (if unat first_block \<le> j \<and> j \<le> unat last_block then ComputeCRC32 (block_of content j)
         else if j < length (recorded m h) then recorded m h ! j else 0)"
    using RecomputeBlocks_result [OF ok content ben range] by blast
  have t: "touches h m m1" using RecomputeBlocks_touches [OF ok content, of first_block last_block] m1(1) by simp
  have rec: "recorded m1 h = block_sums content"
    using m1(2,3) rest by (intro nth_equalityI) (auto simp: nth_block_sums not_le not_less)
  have h: "h \<noteq> 0" using stored_nonzero [OF ok, of h] content by simp
  have "length content < 2 ^ 64"
    using sg_GetChunkSize_bytes [OF ok, of h] content unat_u64_less [of "sg_GetChunkSize (km_storage m) h"] by simp
  then have "blocks_in (length content) \<le> 2 ^ 60" by (simp add: blocks_in_def)
  then have "fst (PersistChecksums h m1)"
    using t ben h rec by (intro PersistChecksums_result(3)) (simp_all add: touches_def)
  then show ?thesis
    using m1(1) rec PersistChecksums_result(1,2) [of h m1] touches_trans [OF t]
    by (cases "PersistChecksums h m1") (auto intro!: exI)
qed

text \<open>All blocks of a chunk.\<close>

lemma recompute_all:
  assumes ok: "sg_ok (km_storage m)" and content: "sg_bytes (km_storage m) h = Some content" and ben: "km_benign m"
    and nonempty: "content \<noteq> []"
  shows "\<exists>m'. and_then (RecomputeBlocks h 0 (ExpectedBlockCount (sg_GetChunkSize (km_storage m) h) - 1) m) (PersistChecksums h) =
      (True, m') \<and> touches h m m' \<and> recorded m' h = block_sums content"
proof -
  let ?n = "ExpectedBlockCount (sg_GetChunkSize (km_storage m) h)"
  have n: "unat ?n = blocks_in (length content)"
    using sg_GetChunkSize_bytes [OF ok, of h] content by (simp add: unat_ExpectedBlockCount)
  have pos: "0 < blocks_in (length content)" using nonempty by (simp add: less_blocks_in)
  then have "?n \<noteq> 0" using n by auto
  then have "unat (?n - 1) = blocks_in (length content) - 1" using n by (simp add: unat_minus_1)
  then show ?thesis
    using pos by (intro recompute_and_persist [OF ok content ben]) auto
qed

lemma remove_checksums:
  "touches h m (snd (on_disk (remove_if_exists (GetChecksumPath m h)) m))"
  "recorded (snd (on_disk (remove_if_exists (GetChecksumPath m h)) m)) = recorded m"
  "km_benign m \<Longrightarrow> fst (on_disk (remove_if_exists (GetChecksumPath m h)) m)"
proof -
  note s = spares(1) [of "sg_directory (km_storage m)" "GetChecksumPath m h" "GetChecksumPath m h", OF GetChecksumPath_other(1,1)]
  show "touches h m (snd (on_disk (remove_if_exists (GetChecksumPath m h)) m))"
    "recorded (snd (on_disk (remove_if_exists (GetChecksumPath m h)) m)) = recorded m"
    using on_disk_touches [OF s] by blast+
  show "km_benign m \<Longrightarrow> fst (on_disk (remove_if_exists (GetChecksumPath m h)) m)"
    using remove_if_exists_calm(2) by (auto simp: on_disk_def split: prod.splits)
qed

lemma ComputeChunkChecksums_result:
  assumes ok: "sg_ok (km_storage m)" and content: "sg_bytes (km_storage m) h = Some content" and ben: "km_benign m"
  shows "\<exists>m'. ComputeChunkChecksums h m = (True, m') \<and> touches h m m' \<and> recorded m' h = block_sums content"
proof -
  have guard: "h \<noteq> 0" "sg_ChunkExists (km_storage m) h" using stored_nonzero [OF ok, of h] content by simp_all
  have sz: "unat (sg_GetChunkSize (km_storage m) h) = length content" using sg_GetChunkSize_bytes [OF ok, of h] content by simp
  let ?m = "km_erase h m"
  show ?thesis
  proof (cases "content = []")
    case True
    then have "sg_GetChunkSize (km_storage m) h = 0" using sz by (simp add: unat_eq_0)
    then have "ComputeChunkChecksums h m = on_disk (remove_if_exists (GetChecksumPath ?m h)) ?m"
      using guard by (simp add: ComputeChunkChecksums_def Let_def)
    then show ?thesis
      using remove_checksums [where h = h and m = ?m] ben True touches_trans [of h m ?m]
      by (cases "on_disk (remove_if_exists (GetChecksumPath ?m h)) ?m") auto
  next
    case False
    then have "sg_GetChunkSize (km_storage m) h \<noteq> 0" using sz by auto
    then have "ComputeChunkChecksums h m =
        and_then (RecomputeBlocks h 0 (ExpectedBlockCount (sg_GetChunkSize (km_storage ?m) h) - 1) ?m) (PersistChecksums h)"
      using guard by (simp add: ComputeChunkChecksums_def Let_def)
    then show ?thesis
      using recompute_all [of ?m h content] ok content ben False touches_trans [of h m ?m] by auto
  qed
qed

lemma UpdateAfterTruncate_result:
  assumes ok: "sg_ok (km_storage m)" and content: "sg_bytes (km_storage m) h = Some content" and ben: "km_benign m"
    and sz: "unat sz = length content"
  shows "\<exists>m'. UpdateAfterTruncate h sz m = (True, m') \<and> touches h m m' \<and> recorded m' h = block_sums content"
proof -
  have guard: "h \<noteq> 0" "sg_ChunkExists (km_storage m) h" using stored_nonzero [OF ok, of h] content by simp_all
  have size: "sg_GetChunkSize (km_storage m) h = sz"
    using sg_GetChunkSize_bytes [OF ok, of h] content sz by (metis option.simps(5) word_unat_eq_iff)
  have zero: "ExpectedBlockCount sz = 0 \<longleftrightarrow> sz = 0"
    using unat_ExpectedBlockCount [of sz] by (auto simp: ExpectedBlockCount_def blocks_in_def simp flip: unat_eq_0)
  have "UpdateAfterTruncate h sz m = ComputeChunkChecksums h m"
    using guard size zero by (simp add: UpdateAfterTruncate_def ComputeChunkChecksums_def Let_def)
  then show ?thesis using ComputeChunkChecksums_result [OF ok content ben] by simp
qed

text \<open>A write inside or at the end of the chunk touches its blocks only.\<close>

lemma block_of_overlay:
  assumes "offset \<le> length old" and "j < offset div block_size \<or> (offset + length data - 1) div block_size < j" and "data \<noteq> []"
  shows "block_of (overlay old offset data) j = block_of old j"
  using assms(2)
proof
  assume "j < offset div block_size"
  then have "j * block_size + block_size \<le> offset" by (simp add: less_eq_div_iff_mult_less_eq flip: Suc_le_eq)
  then have "take block_size (drop (j * block_size) (take offset c)) = take block_size (drop (j * block_size) c)" for c :: string
    by (simp add: drop_take min_def)
  moreover have "take offset (overlay old offset data) = take offset old" using assms(1) by (simp add: overlay_def)
  ultimately show ?thesis unfolding block_of_def by metis
next
  assume "(offset + length data - 1) div block_size < j"
  then have "offset + length data - 1 < j * block_size" by (simp add: div_less_iff_less_mult)
  then have "offset + length data \<le> j * block_size" by simp
  then have "drop (j * block_size) (overlay old offset data) = drop (j * block_size) old"
    using assms(1) by (simp add: overlay_def)
  then show ?thesis by (simp add: block_of_def)
qed

lemma unat_end:
  assumes "unat offset + unat len < 2 ^ 64"
  shows "unat (offset + len :: 64 word) = unat offset + unat len"
  using assms unat_add_lem [of offset len] by simp

lemma unat_end_block:
  assumes "unat offset + unat len < 2 ^ 64" and "len \<noteq> 0"
  shows "unat (offset + len - 1 :: 64 word) = unat offset + unat len - 1"
proof -
  have "unat (offset + len) = unat offset + unat len" by (rule unat_end [OF assms(1)])
  moreover have "0 < unat len" using assms(2) by (simp add: unat_gt_0)
  ultimately have "offset + len \<noteq> 0" by auto
  then show ?thesis using unat_end [OF assms(1)] by (simp add: unat_minus_1)
qed

lemma UpdateAfterWrite_result:
  assumes ok: "sg_ok (km_storage m)" and content: "sg_bytes (km_storage m) h = Some content" and ben: "km_benign m"
    and len: "0 < unat len" "unat offset + unat len \<le> length content"
    and rest: "\<And>j. j < blocks_in (length content) \<Longrightarrow>
      j < unat offset div block_size \<or> (unat offset + unat len - 1) div block_size < j \<Longrightarrow>
      j < length (recorded m h) \<and> recorded m h ! j = ComputeCRC32 (block_of content j)"
  shows "\<exists>m'. UpdateAfterWrite h offset len m = (True, m') \<and> touches h m m' \<and> recorded m' h = block_sums content"
proof -
  have guard: "h \<noteq> 0" "sg_ChunkExists (km_storage m) h" "len \<noteq> 0" using stored_nonzero [OF ok, of h] content len(1) by auto
  let ?sz = "sg_GetChunkSize (km_storage m) h"
  have sz: "unat ?sz = length content" using sg_GetChunkSize_bytes [OF ok, of h] content by simp
  have fits: "unat offset + unat len < 2 ^ 64" using len(2) sz unat_u64_less [of ?sz] by simp
  note e = unat_end [OF fits] unat_end_block [OF fits guard(3)]
  have "UpdateAfterWrite h offset len m =
      and_then (RecomputeBlocks h (offset div kChecksumBlockSize) ((offset + len - 1) div kChecksumBlockSize) m) (PersistChecksums h)"
    using guard e(1) len sz by (simp add: UpdateAfterWrite_def Let_def word_less_nat_alt)
  moreover have "\<exists>m'. and_then (RecomputeBlocks h (offset div kChecksumBlockSize) ((offset + len - 1) div kChecksumBlockSize) m)
      (PersistChecksums h) = (True, m') \<and> touches h m m' \<and> recorded m' h = block_sums content"
  proof (rule recompute_and_persist [OF ok content ben])
    show "unat (offset div kChecksumBlockSize) \<le> unat ((offset + len - 1) div kChecksumBlockSize)"
      using len(1) by (simp add: e(2) unat_div_block div_le_mono)
    have "(unat offset + unat len - 1) div block_size * block_size < length content"
      using len div_times_less_eq_dividend [of "unat offset + unat len - 1" block_size] by linarith
    then show "unat ((offset + len - 1) div kChecksumBlockSize) < blocks_in (length content)"
      by (simp add: e(2) unat_div_block less_blocks_in)
  qed (use rest in \<open>simp add: e(2) unat_div_block\<close>)
  ultimately show ?thesis by simp
qed

lemma DeleteChecksums_result:
  assumes "h \<noteq> 0"
  shows "touches h m (snd (DeleteChecksums h m))" and "recorded (snd (DeleteChecksums h m)) h = []"
    and "km_benign m \<Longrightarrow> fst (DeleteChecksums h m)"
proof -
  let ?m = "km_erase h m"
  let ?path = "GetChecksumPath ?m h"
  note s = spares(2) [of "sg_directory (km_storage ?m)" ?path ?path, OF GetChecksumPath_other(1,1)]
  have t: "touches h ?m (snd (on_disk (dk_remove ?path) ?m))" "recorded (snd (on_disk (dk_remove ?path) ?m)) = recorded ?m"
    using on_disk_touches [OF s] by blast+
  show "touches h m (snd (DeleteChecksums h m))"
    using assms t(1) touches_trans [of h m ?m] by (simp add: DeleteChecksums_def Let_def)
  show "recorded (snd (DeleteChecksums h m)) h = []" using assms t(2) by (simp add: DeleteChecksums_def Let_def)
  assume ben: "km_benign m"
  have "fst (dk_remove ?path (sg_disk (km_storage m)))" if "dk_exists (sg_disk (km_storage m)) ?path"
    using dk_remove_calm(3) [OF surjective_pairing] ben that by blast
  then show "fst (DeleteChecksums h m)"
    using assms by (cases "dk_remove ?path (sg_disk (km_storage m))") (simp add: DeleteChecksums_def Let_def on_disk_def)
qed

section \<open>What verification accepts\<close>

lemma verify_loop_touches:
  "sg_ok (km_storage m) \<Longrightarrow> sg_bytes (km_storage m) h = Some content \<Longrightarrow>
    touches h m (snd (verify_loop h blocks n i m)) \<and> recorded (snd (verify_loop h blocks n i m)) = recorded m"
proof (induction n arbitrary: i m)
  case (Suc n)
  obtain res m1 where m1: "ReadBlock h i m = (res, m1)" by fastforce
  note t = ReadBlock_touches [OF Suc.prems m1]
  show ?case
    using t(1) [of h] t(2) m1 Suc.IH [of m1 "i + 1"] touches_keeps [OF t(1) [of h] Suc.prems(1)] Suc.prems(2) touches_trans [OF t(1)]
    by (cases res) auto
qed simp

lemma verify_loop_result:
  "sg_ok (km_storage m) \<Longrightarrow> sg_bytes (km_storage m) h = Some content \<Longrightarrow> km_benign m \<Longrightarrow>
    unat i + n \<le> blocks_in (length content) \<Longrightarrow> unat i + n \<le> length blocks \<Longrightarrow>
    fst (verify_loop h blocks n i m) \<longleftrightarrow>
      (\<forall>j. unat i \<le> j \<and> j < unat i + n \<longrightarrow> cb_checksum (blocks ! j) = ComputeCRC32 (block_of content j))"
proof (induction n arbitrary: i m)
  case (Suc n)
  obtain res m1 where m1: "ReadBlock h i m = (res, m1)" by fastforce
  note t = ReadBlock_touches(1) [OF Suc.prems(1,2) m1, of h]
  have i: "unat i < blocks_in (length content)" using Suc.prems(4) by simp
  then have res: "res = Some (block_of content (unat i))"
    using ReadBlock_result(2) [OF Suc.prems(1,2) m1 Suc.prems(3)] by (simp add: less_blocks_in)
  have "length content < 2 ^ 64"
    using sg_GetChunkSize_bytes [OF Suc.prems(1), of h] Suc.prems(2) unat_u64_less [of "sg_GetChunkSize (km_storage m) h"] by simp
  then have "blocks_in (length content) < 2 ^ 64" by (simp add: blocks_in_def)
  then have i1: "unat (i + 1) = unat i + 1" using i unat_add_lem [of i 1] by simp
  have IH: "fst (verify_loop h blocks n (i + 1) m1) \<longleftrightarrow>
      (\<forall>j. unat (i + 1) \<le> j \<and> j < unat (i + 1) + n \<longrightarrow> cb_checksum (blocks ! j) = ComputeCRC32 (block_of content j))"
    using touches_keeps [OF t Suc.prems(1)] Suc.prems t i1 by (intro Suc.IH) (simp_all add: touches_def)
  have split: "unat i \<le> j \<and> j < unat i + Suc n \<longleftrightarrow> j = unat i \<or> (unat (i + 1) \<le> j \<and> j < unat (i + 1) + n)" for j
    using i1 by auto
  show ?case
    using m1 res IH unfolding split by auto
qed auto

lemma VerifyChunkRange_touches:
  assumes "sg_ok (km_storage m)" and "sg_bytes (km_storage m) h = Some content"
  shows "touches h m (snd (VerifyChunkRange h offset len m))" "recorded (snd (VerifyChunkRange h offset len m)) = recorded m"
  using verify_loop_touches [OF assms] by (simp_all add: VerifyChunkRange_def Let_def del: verify_loop.simps split: option.splits)

lemma VerifyChunkRange_result:
  assumes ok: "sg_ok (km_storage m)" and content: "sg_bytes (km_storage m) h = Some content" and ben: "km_benign m"
    and all: "length (recorded m h) = blocks_in (length content)"
  shows "fst (VerifyChunkRange h offset len m) \<longleftrightarrow> len = 0 \<or> (unat offset + unat len \<le> length content \<and>
    (\<forall>j. unat offset div block_size \<le> j \<and> j \<le> (unat offset + unat len - 1) div block_size \<longrightarrow>
      recorded m h ! j = ComputeCRC32 (block_of content j)))"
proof (cases "len = 0")
  case True
  then show ?thesis using stored_nonzero [OF ok, of h] content by (simp add: VerifyChunkRange_def)
next
  case False
  have guard: "h \<noteq> 0" "sg_ChunkExists (km_storage m) h" using stored_nonzero [OF ok, of h] content by simp_all
  let ?sz = "sg_GetChunkSize (km_storage m) h"
  have sz: "unat ?sz = length content" using sg_GetChunkSize_bytes [OF ok, of h] content by simp
  have range: "offset + len < offset \<or> offset > ?sz \<or> offset + len > ?sz \<longleftrightarrow> \<not> unat offset + unat len \<le> length content"
  proof (cases "unat offset + unat len < 2 ^ 64")
    case True
    then show ?thesis using sz unat_end [OF True] by (auto simp: word_less_nat_alt)
  next
    case over: False
    have "offset + len < offset"
      using over unat_plus_if' [of offset len] unat_u64_less [of len] by (simp add: word_less_nat_alt)
    moreover have "length content < 2 ^ 64" using sz unat_u64_less [of ?sz] by simp
    ultimately show ?thesis using over by simp
  qed
  show ?thesis
  proof (cases "unat offset + unat len \<le> length content")
    case False
    then have "VerifyChunkRange h offset len m = (False, m)"
      using guard \<open>len \<noteq> 0\<close> range by (simp add: VerifyChunkRange_def Let_def)
    then show ?thesis using False \<open>len \<noteq> 0\<close> by simp
  next
    case True
    have fits: "unat offset + unat len < 2 ^ 64" using True sz unat_u64_less [of ?sz] by simp
    note e = unat_end_block [OF fits \<open>len \<noteq> 0\<close>]
    have pos: "0 < unat len" using \<open>len \<noteq> 0\<close> by (simp add: unat_gt_0)
    let ?first = "unat offset div block_size" and ?last = "(unat offset + unat len - 1) div block_size"
    have "?last * block_size \<le> unat offset + unat len - 1" by (rule div_times_less_eq_dividend)
    then have bound: "?last < blocks_in (length content)" using True pos by (simp add: less_blocks_in)
    have le: "?first \<le> ?last" using pos by (simp add: div_le_mono)
    obtain blocks where blocks: "map_of (km_checksums m) h = Some blocks" "recorded m h = map cb_checksum blocks"
      using all bound by (auto simp: recorded_def blocks_for_def split: option.splits)
    have "VerifyChunkRange h offset len m = verify_loop h blocks (?last - ?first + 1) (offset div kChecksumBlockSize) m"
      using guard \<open>len \<noteq> 0\<close> range True blocks bound all
      by (simp add: VerifyChunkRange_def Let_def e unat_div_block del: verify_loop.simps)
    moreover have "fst (verify_loop h blocks (?last - ?first + 1) (offset div kChecksumBlockSize) m) \<longleftrightarrow>
        (\<forall>j. ?first \<le> j \<and> j < ?first + (?last - ?first + 1) \<longrightarrow> cb_checksum (blocks ! j) = ComputeCRC32 (block_of content j))"
      using verify_loop_result [OF ok content ben, of "offset div kChecksumBlockSize" "?last - ?first + 1" blocks] bound le all blocks(2)
      by (simp add: unat_div_block del: verify_loop.simps)
    moreover have "(?first \<le> j \<and> j < ?first + (?last - ?first + 1)) \<longleftrightarrow> (?first \<le> j \<and> j \<le> ?last)" for j using le by auto
    moreover have "recorded m h ! j = cb_checksum (blocks ! j)" if "j \<le> ?last" for j
      using that bound all blocks(2) by simp
    ultimately show ?thesis using True \<open>len \<noteq> 0\<close> by auto
  qed
qed

end
