(* ===== verification/Refinement.thy ===== *)
theory Refinement
  imports Prelude
begin

text \<open>
  Functional refinement of a component that answers requests: in states with the invariant, every
  request that the specification allows is answered as the specification answers it, and the
  abstraction of the next state is the next state of the specification. Lifted to all sequences of
  requests.
\<close>

primrec outcomes :: "('op \<Rightarrow> 's \<Rightarrow> 'r \<times> 's) \<Rightarrow> 'op list \<Rightarrow> 's \<Rightarrow> 'r list \<times> 's" where
  "outcomes exec [] s = ([], s)"
| "outcomes exec (opr # oprs) s =
     (case exec opr s of (r, s1) \<Rightarrow> case outcomes exec oprs s1 of (rs, s2) \<Rightarrow> (r # rs, s2))"

primrec all_allowed :: "('op \<Rightarrow> 's \<Rightarrow> 'r \<times> 's) \<Rightarrow> ('op \<Rightarrow> 's \<Rightarrow> bool) \<Rightarrow> 'op list \<Rightarrow> 's \<Rightarrow> bool" where
  "all_allowed exec allowed [] s \<longleftrightarrow> True"
| "all_allowed exec allowed (opr # oprs) s \<longleftrightarrow> allowed opr s \<and> all_allowed exec allowed oprs (snd (exec opr s))"

locale functional_refinement =
  fixes cexec :: "'op \<Rightarrow> 's \<Rightarrow> 'r \<times> 's"
    and aexec :: "'op \<Rightarrow> 'a \<Rightarrow> 'r \<times> 'a"
    and abs :: "'s \<Rightarrow> 'a"
    and inv :: "'s \<Rightarrow> bool"
    and allowed :: "'op \<Rightarrow> 'a \<Rightarrow> bool"
  assumes step: "inv s \<Longrightarrow> allowed opr (abs s) \<Longrightarrow> cexec opr s = (r, s') \<Longrightarrow> inv s' \<and> aexec opr (abs s) = (r, abs s')"
begin

lemma run:
  "inv s \<Longrightarrow> all_allowed aexec allowed oprs (abs s) \<Longrightarrow> outcomes cexec oprs s = (rs, s') \<Longrightarrow>
    inv s' \<and> outcomes aexec oprs (abs s) = (rs, abs s')"
proof (induction oprs arbitrary: s rs)
  case (Cons opr oprs)
  obtain r s1 where c: "cexec opr s = (r, s1)" by fastforce
  obtain rs1 where o: "outcomes cexec oprs s1 = (rs1, s')" "rs = r # rs1"
    using Cons.prems(3) c by (auto split: prod.splits)
  have one: "inv s1" "aexec opr (abs s) = (r, abs s1)" using step [OF Cons.prems(1) _ c] Cons.prems(2) by simp_all
  then show ?case using Cons.IH [of s1 rs1] Cons.prems(2) o by simp
qed simp

end

end
