(* ===== verification/Chunkserver.thy ===== *)
theory Chunkserver
  imports Checksums Refinement
begin

text \<open>
  \<open>src/chunkserver/chunkserver.cpp\<close>: the storage of a server guarded by its checksums. The record also
  holds the tables of \<open>mutation/mutation_manager.cpp\<close>, which \<open>DeleteChunk\<close> resets; the operations of that
  manager are in the theory \<open>Mutations\<close>.
\<close>

section \<open>Data\<close>

record mutation =
  mu_chunk_handle :: chunk_handle
  mu_chunk_version :: chunk_version
  mu_mutation_id :: "64 word"
  mu_offset :: "64 word"
  mu_data :: string

record chunkserver =
  cv_server_id :: server_id
  cv_sums :: checksum_manager
  cv_next_ids :: "(chunk_handle \<times> 64 word) list"
  cv_last_ids :: "(chunk_handle \<times> 64 word) list"
  cv_pending :: "(chunk_handle \<times> mutation) list"
  cv_initialized :: bool

definition Chunkserver :: "server_id \<Rightarrow> file_path \<Rightarrow> disk \<Rightarrow> chunkserver" where
  "Chunkserver server_id dir d =
     \<lparr>cv_server_id = server_id, cv_sums = ChecksumManager (ChunkStorage dir d),
      cv_next_ids = [], cv_last_ids = [], cv_pending = [], cv_initialized = False\<rparr>"

section \<open>Operations\<close>

definition on_sums :: "(checksum_manager \<Rightarrow> 'a \<times> checksum_manager) \<Rightarrow> chunkserver \<Rightarrow> 'a \<times> chunkserver" where
  "on_sums f s = (case f (cv_sums s) of (r, m) \<Rightarrow> (r, s\<lparr>cv_sums := m\<rparr>))"

definition on_storage :: "(chunk_storage \<Rightarrow> 'a \<times> chunk_storage) \<Rightarrow> chunkserver \<Rightarrow> 'a \<times> chunkserver" where
  "on_storage f s = on_sums (\<lambda>m. case f (km_storage m) of (r, st) \<Rightarrow> (r, m\<lparr>km_storage := st\<rparr>)) s"

abbreviation cv_storage :: "chunkserver \<Rightarrow> chunk_storage" where
  "cv_storage s \<equiv> km_storage (cv_sums s)"

definition cv_Initialize :: "string list \<Rightarrow> chunkserver \<Rightarrow> bool \<times> chunkserver" where
  "cv_Initialize entries s =
     (if cv_server_id s = 0 then (False, s)
      else and_then (on_storage (sg_Initialize entries) s)
        (\<lambda>s. and_then (on_sums km_Initialize s) (\<lambda>s. (True, s\<lparr>cv_initialized := True\<rparr>))))"

definition cv_CreateChunk :: "chunk_handle \<Rightarrow> chunkserver \<Rightarrow> bool \<times> chunkserver" where
  "cv_CreateChunk handle s =
     (if \<not> cv_initialized s \<or> handle = 0 then (False, s) else on_storage (sg_CreateChunk handle) s)"

definition cv_OpenChunk :: "chunk_handle \<Rightarrow> chunkserver \<Rightarrow> bool \<times> chunkserver" where
  "cv_OpenChunk handle s =
     (if \<not> cv_initialized s \<or> handle = 0 then (False, s)
      else and_then (on_storage (sg_OpenChunk handle) s)
        (\<lambda>s. if \<not> HasChecksums (cv_sums s) handle \<and> sg_GetChunkSize (cv_storage s) handle \<noteq> 0
          then on_sums (ComputeChunkChecksums handle) s else (True, s)))"

text \<open>\<open>MutationManager::ResetChunk\<close>: whether one of the tables had an entry.\<close>

definition ResetChunk :: "chunk_handle \<Rightarrow> chunkserver \<Rightarrow> bool \<times> chunkserver" where
  "ResetChunk handle s =
     (if handle = 0 then (False, s)
      else (map_of (cv_next_ids s) handle \<noteq> None \<or> map_of (cv_last_ids s) handle \<noteq> None \<or>
              map_of (cv_pending s) handle \<noteq> None,
            s\<lparr>cv_next_ids := AList.delete handle (cv_next_ids s), cv_last_ids := AList.delete handle (cv_last_ids s),
              cv_pending := AList.delete handle (cv_pending s)\<rparr>))"

definition cv_DeleteChunk :: "chunk_handle \<Rightarrow> chunkserver \<Rightarrow> bool \<times> chunkserver" where
  "cv_DeleteChunk handle s =
     (if \<not> cv_initialized s \<or> handle = 0 then (False, s)
      else and_then (on_storage (sg_DeleteChunk handle) (snd (ResetChunk handle s)))
        (on_sums (DeleteChecksums handle)))"

definition cv_ChunkExists :: "chunkserver \<Rightarrow> chunk_handle \<Rightarrow> bool" where
  "cv_ChunkExists s handle \<longleftrightarrow> cv_initialized s \<and> handle \<noteq> 0 \<and> sg_ChunkExists (cv_storage s) handle"

definition cv_ReadChunk ::
    "chunk_handle \<Rightarrow> 64 word \<Rightarrow> 64 word \<Rightarrow> chunkserver \<Rightarrow> string option \<times> chunkserver" where
  "cv_ReadChunk handle offset len s =
     (if \<not> cv_initialized s \<or> handle = 0 then (None, s)
      else case on_sums (VerifyChunkRange handle offset len) s of
        (verified, s) \<Rightarrow>
          if \<not> verified then (None, s) else on_storage (sg_ReadChunk handle offset len) s)"

definition cv_WriteChunk :: "chunk_handle \<Rightarrow> 64 word \<Rightarrow> string \<Rightarrow> chunkserver \<Rightarrow> bool \<times> chunkserver" where
  "cv_WriteChunk handle offset data s =
     (if \<not> cv_initialized s \<or> handle = 0 then (False, s)
      else and_then (on_storage (sg_WriteChunk handle offset data) s)
        (\<lambda>s. if data = [] then (True, s) else on_sums (UpdateAfterWrite handle offset (of_nat (length data))) s))"

definition cv_TruncateChunk :: "chunk_handle \<Rightarrow> 64 word \<Rightarrow> chunkserver \<Rightarrow> bool \<times> chunkserver" where
  "cv_TruncateChunk handle sz s =
     (if \<not> cv_initialized s \<or> handle = 0 then (False, s)
      else and_then (on_storage (sg_TruncateChunk handle sz) s) (on_sums (UpdateAfterTruncate handle sz)))"

definition cv_GetChunkSize :: "chunkserver \<Rightarrow> chunk_handle \<Rightarrow> 64 word" where
  "cv_GetChunkSize s handle =
     (if \<not> cv_initialized s \<or> handle = 0 then 0 else sg_GetChunkSize (cv_storage s) handle)"

definition cv_ListChunks :: "chunkserver \<Rightarrow> chunk_handle list" where
  "cv_ListChunks s = (if \<not> cv_initialized s then [] else sg_ListChunks (cv_storage s))"

definition cv_ChunkCount :: "chunkserver \<Rightarrow> nat" where
  "cv_ChunkCount s = (if \<not> cv_initialized s then 0 else sg_ChunkCount (cv_storage s))"

section \<open>A directory with nothing but the chunks of the table\<close>

definition sg_exact :: "chunk_storage \<Rightarrow> bool" where
  "sg_exact s \<longleftrightarrow> sg_ok s \<and> (\<forall>h c. map_of (sg_chunks s) h = Some c \<longrightarrow> cf_path c = GetChunkPath s h) \<and>
     (\<forall>h. dk_exists (sg_disk s) (GetChunkPath s h) \<longrightarrow> map_of (sg_chunks s) h \<noteq> None)"

lemma sg_exactD:
  assumes "sg_exact s"
  shows "sg_ok s" "sg_ChunkExists s h \<longleftrightarrow> sg_bytes s h \<noteq> None" "map_of (sg_chunks s) h = Some c \<Longrightarrow> cf_path c = GetChunkPath s h"
proof -
  show "sg_ok s" using assms by (simp add: sg_exact_def)
  show "sg_ChunkExists s h \<longleftrightarrow> sg_bytes s h \<noteq> None"
    using assms unfolding sg_exact_def sg_ChunkExists_def sg_HasChunk_def sg_bytes_None by blast
  show "map_of (sg_chunks s) h = Some c \<Longrightarrow> cf_path c = GetChunkPath s h" using assms unfolding sg_exact_def by blast
qed

lemma GetChunkPath_inject [simp]: "GetChunkPath s g = GetChunkPath s h \<longleftrightarrow> g = h"
proof
  assume "GetChunkPath s g = GetChunkPath s h"
  then have "to_string g = to_string h" unfolding GetChunkPath_def path_div_inject same_append_eq .
  then show "g = h" by (metis option.inject prod.inject stoull_handle)
qed simp

lemma GetChunkPath_cong: "sg_directory s' = sg_directory s \<Longrightarrow> GetChunkPath s' h = GetChunkPath s h"
  by (simp add: GetChunkPath_def)

lemma delete_absent: "map_of al k = None \<Longrightarrow> AList.delete k al = al"
  by (induction al) (auto simp: AList.delete_eq split: if_splits)

lemma sg_exact_change:
  assumes "sg_exact s" and "sg_ok s'" and dir: "sg_directory s' = sg_directory s"
    and only: "only_changes (GetChunkPath s h) (sg_disk s) (sg_disk s')"
    and others: "\<And>g. g \<noteq> h \<Longrightarrow> map_of (sg_chunks s') g = map_of (sg_chunks s) g"
    and here: "\<And>c. map_of (sg_chunks s') h = Some c \<Longrightarrow> cf_path c = GetChunkPath s h"
    and gone: "map_of (sg_chunks s') h = None \<Longrightarrow> \<not> dk_exists (sg_disk s') (GetChunkPath s h)"
  shows "sg_exact s'"
proof -
  have "dk_exists (sg_disk s') (GetChunkPath s g) = dk_exists (sg_disk s) (GetChunkPath s g)" if "g \<noteq> h" for g
    using only that by (simp add: only_changes_def dk_exists_def)
  then show ?thesis
    using assms(1,2) others here gone unfolding sg_exact_def GetChunkPath_cong [OF dir] by metis
qed

lemma sg_exact_calm: "sg_exact s \<Longrightarrow> calm s s' \<Longrightarrow> sg_exact s'"
  using calm_keeps(1) [of s s']
  by (auto simp: sg_exact_def calm_def GetChunkPath_def dk_exists_def)

lemma sg_CreateChunk_exact:
  assumes ex: "sg_exact s" and ben: "sg_benign s" and r: "sg_CreateChunk h s = (b, s')"
  shows "sg_exact s'" "sg_benign s'" "b \<longleftrightarrow> h \<noteq> 0 \<and> sg_bytes s h = None" "b \<Longrightarrow> sg_bytes s' = (sg_bytes s)(h \<mapsto> [])"
    and "\<not> b \<Longrightarrow> sg_bytes s' = sg_bytes s"
proof -
  note ok = sg_exactD(1) [OF ex]
  note res = sg_CreateChunk_result [OF ok r]
  show b: "b \<longleftrightarrow> h \<noteq> 0 \<and> sg_bytes s h = None" "sg_benign s'"
    using sg_CreateChunk_benign [OF r ben] sg_exactD(2) [OF ex] by auto
  show "b \<Longrightarrow> sg_bytes s' = (sg_bytes s)(h \<mapsto> [])" "\<not> b \<Longrightarrow> sg_bytes s' = sg_bytes s" using res(3) by simp_all
  show "sg_exact s'"
  proof (rule sg_exact_change [OF ex res(1,2,6)])
    obtain ok1 c d where c: "cf_Create (ChunkFile h (GetChunkPath s h)) (sg_disk s) = (ok1, c, d)" by (metis prod.exhaust)
    note made = cf_Create_result [OF c GetChunkPath_def stoull_handle]
    have chunks: "sg_chunks s' = (if b then AList.update h c (sg_chunks s) else sg_chunks s)" "b \<Longrightarrow> ok1"
      using r c by (auto simp: sg_CreateChunk_def sg_put_def split: if_splits)
    show "g \<noteq> h \<Longrightarrow> map_of (sg_chunks s') g = map_of (sg_chunks s) g" for g using chunks by (simp add: update_conv')
    show "cf_path c' = GetChunkPath s h" if "map_of (sg_chunks s') h = Some c'" for c'
      using that chunks made(2) sg_exactD(3) [OF ex] by (auto simp: update_conv' split: if_splits)
    assume none: "map_of (sg_chunks s') h = None"
    then have "\<not> b" "map_of (sg_chunks s) h = None" using chunks by (auto simp: update_conv' split: if_splits)
    then show "\<not> dk_exists (sg_disk s') (GetChunkPath s h)"
      using ex res(7) by (auto simp: sg_exact_def dk_exists_def)
  qed
qed

lemma sg_WriteChunk_exact:
  assumes ex: "sg_exact s" and r: "sg_WriteChunk h offset data s = (b, s')"
  shows "sg_exact s'"
proof -
  note ok = sg_exactD(1) [OF ex]
  note res = sg_WriteChunk_result [OF ok r]
  show ?thesis
  proof (cases "map_of (sg_chunks s) h")
    case None
    then have "s' = s" using r by (simp add: sg_WriteChunk_def sg_GetChunk_def)
    then show ?thesis using ex by simp
  next
    case (Some c)
    obtain b1 c' d where w: "cf_Write c offset data (sg_disk s) = (b1, c', d)" by (metis prod.exhaust)
    then have s': "s' = sg_put h c' (s\<lparr>sg_disk := d\<rparr>)" using r Some by (simp add: sg_WriteChunk_def sg_GetChunk_def)
    note wrote = cf_Write_result(2,3) [OF sg_okD [OF ok Some] w]
    have path: "cf_path c = GetChunkPath s h" by (rule sg_exactD(3) [OF ex Some])
    have "only_changes (GetChunkPath s h) (sg_disk s) (sg_disk s')" using wrote(1) path by (simp add: s')
    from sg_exact_change [OF ex res(1,2) this] show ?thesis
      using wrote(2) path by (auto simp: s')
  qed
qed

lemma sg_TruncateChunk_exact:
  assumes ex: "sg_exact s" and r: "sg_TruncateChunk h sz s = (b, s')"
  shows "sg_exact s'"
proof -
  note ok = sg_exactD(1) [OF ex]
  note res = sg_TruncateChunk_result [OF ok r]
  show ?thesis
  proof (cases "map_of (sg_chunks s) h")
    case None
    then have "s' = s" using r by (simp add: sg_TruncateChunk_def sg_GetChunk_def)
    then show ?thesis using ex by simp
  next
    case (Some c)
    obtain b1 c' d where w: "cf_Truncate c sz (sg_disk s) = (b1, c', d)" by (metis prod.exhaust)
    then have s': "s' = sg_put h c' (s\<lparr>sg_disk := d\<rparr>)" using r Some by (simp add: sg_TruncateChunk_def sg_GetChunk_def)
    note cut = cf_Truncate_result(2,3) [OF sg_okD [OF ok Some] w]
    have path: "cf_path c = GetChunkPath s h" by (rule sg_exactD(3) [OF ex Some])
    have "only_changes (GetChunkPath s h) (sg_disk s) (sg_disk s')" using cut(1) path by (simp add: s')
    from sg_exact_change [OF ex res(1,2) this] show ?thesis
      using cut(2) path by (auto simp: s')
  qed
qed

lemma sg_DeleteChunk_exact:
  assumes ex: "sg_exact s" and ben: "sg_benign s" and r: "sg_DeleteChunk h s = (b, s')"
  shows "sg_exact s'" "sg_benign s'" "b \<longleftrightarrow> sg_bytes s h \<noteq> None" "sg_bytes s' = (sg_bytes s)(h := None)"
proof -
  note ok = sg_exactD(1) [OF ex]
  note res = sg_DeleteChunk_result [OF ok r]
  show "sg_bytes s' = (sg_bytes s)(h := None)" by (rule res(3))
  have "(b \<longleftrightarrow> sg_bytes s h \<noteq> None) \<and> sg_benign s' \<and> sg_chunks s' = AList.delete h (sg_chunks s) \<and>
      only_changes (GetChunkPath s h) (sg_disk s) (sg_disk s') \<and> \<not> dk_exists (sg_disk s') (GetChunkPath s h)"
  proof (cases "map_of (sg_chunks s) h")
    case None
    then obtain d where d: "dk_remove (GetChunkPath s h) (sg_disk s) = (b, d)" "s' = s\<lparr>sg_disk := d\<rparr>"
      using r by (auto simp: sg_DeleteChunk_def split: prod.splits)
    have "\<not> dk_exists (sg_disk s) (GetChunkPath s h)" using ex None by (auto simp: sg_exact_def)
    then show ?thesis
      using dk_remove_calm [OF d(1)] ben d(2) None
      by (auto simp: only_changes_def dk_exists_def sg_bytes_None delete_absent)
  next
    case (Some c)
    have path: "cf_path c = GetChunkPath s h" by (rule sg_exactD(3) [OF ex Some])
    have cok: "cf_ok (sg_directory s) (sg_disk s) h c" by (rule sg_okD [OF ok Some])
    then have fl: "cf_file c = Some \<lparr>fh_open = True, fh_path = cf_path c, fh_mode = ReadWrite\<rparr>"
        "dk_exists (sg_disk s) (cf_path c)" by (simp_all add: cf_ok_def)
    obtain b1 d1 where d1: "call_ok (sg_disk s) = (b1, d1)" by fastforce
    have b1: "b1" "benign d1" "dk_files d1 = dk_files (sg_disk s)" using benign_call [OF ben d1] call_ok_files [OF d1] by simp_all
    obtain b2 d2 where d2: "dk_remove (cf_path c) d1 = (b2, d2)" by fastforce
    note rem = dk_remove_calm [OF d2]
    have "b = b2" "s' = s\<lparr>sg_chunks := AList.delete h (sg_chunks s), sg_disk := d2\<rparr>"
      using r Some fl b1(1) d1 d2 by (simp_all add: sg_DeleteChunk_def cf_Delete_def fh_Close_def)
    then show ?thesis
      using rem b1 fl(2) path Some by (auto simp: only_changes_def dk_exists_def sg_bytes_def)
  qed
  note step = this
  then show "b \<longleftrightarrow> sg_bytes s h \<noteq> None" "sg_benign s'" by simp_all
  from step have "only_changes (GetChunkPath s h) (sg_disk s) (sg_disk s')" by simp
  from sg_exact_change [OF ex res(1,2) this] show "sg_exact s'"
    using step by (auto simp: delete_conv')
qed

section \<open>Refinement of a map from handles to byte strings\<close>

datatype chunk_op =
    Create chunk_handle
  | Open chunk_handle
  | Delete chunk_handle
  | Read chunk_handle "64 word" "64 word"
  | Write chunk_handle "64 word" string
  | Truncate chunk_handle "64 word"

datatype outcome = Result bool | Data "string option"

definition as_result :: "bool \<times> 's \<Rightarrow> outcome \<times> 's" where
  "as_result r = (Result (fst r), snd r)"

definition as_data :: "string option \<times> 's \<Rightarrow> outcome \<times> 's" where
  "as_data r = (Data (fst r), snd r)"

fun cv_exec :: "chunk_op \<Rightarrow> chunkserver \<Rightarrow> outcome \<times> chunkserver" where
  "cv_exec (Create h) s = as_result (cv_CreateChunk h s)"
| "cv_exec (Open h) s = as_result (cv_OpenChunk h s)"
| "cv_exec (Delete h) s = as_result (cv_DeleteChunk h s)"
| "cv_exec (Read h offset len) s = as_data (cv_ReadChunk h offset len s)"
| "cv_exec (Write h offset data) s = as_result (cv_WriteChunk h offset data s)"
| "cv_exec (Truncate h sz) s = as_result (cv_TruncateChunk h sz s)"

text \<open>The specification: reading and writing byte strings of at most 64 MiB.\<close>

definition slice :: "64 word \<Rightarrow> 64 word \<Rightarrow> string \<Rightarrow> string option" where
  "slice offset len content =
     (if unat offset + unat len \<le> length content then Some (take (unat len) (drop (unat offset) content)) else None)"

fun spec_exec :: "chunk_op \<Rightarrow> (chunk_handle \<rightharpoonup> string) \<Rightarrow> outcome \<times> (chunk_handle \<rightharpoonup> string)" where
  "spec_exec (Create h) f = (if h \<noteq> 0 \<and> f h = None then (Result True, f(h \<mapsto> [])) else (Result False, f))"
| "spec_exec (Open h) f = (Result (f h \<noteq> None), f)"
| "spec_exec (Delete h) f = (Result (f h \<noteq> None), f(h := None))"
| "spec_exec (Read h offset len) f = (Data (case f h of None \<Rightarrow> None | Some content \<Rightarrow> slice offset len content), f)"
| "spec_exec (Write h offset data) f =
     (case f h of
        None \<Rightarrow> (Result False, f)
      | Some content \<Rightarrow>
          if unat offset + length data \<le> 64 * 2 ^ 20 then (Result True, f(h \<mapsto> overlay content (unat offset) data))
          else (Result False, f))"
| "spec_exec (Truncate h sz) f =
     (case f h of
        None \<Rightarrow> (Result False, f)
      | Some content \<Rightarrow> (Result True, f(h \<mapsto> take (unat sz) content)))"

text \<open>Requests that leave no gap behind the end of a chunk.\<close>

fun dense :: "chunk_op \<Rightarrow> (chunk_handle \<rightharpoonup> string) \<Rightarrow> bool" where
  "dense (Write h offset data) f \<longleftrightarrow> (case f h of None \<Rightarrow> True | Some content \<Rightarrow> unat offset \<le> length content)"
| "dense (Truncate h sz) f \<longleftrightarrow> (case f h of None \<Rightarrow> True | Some content \<Rightarrow> unat sz \<le> length content)"
| "dense _ f \<longleftrightarrow> True"

definition cv_bytes :: "chunkserver \<Rightarrow> chunk_handle \<rightharpoonup> string" where
  "cv_bytes s = sg_bytes (cv_storage s)"

definition sums_of :: "string option \<Rightarrow> 32 word list" where
  "sums_of content = (case content of None \<Rightarrow> [] | Some bytes \<Rightarrow> block_sums bytes)"

definition cv_inv :: "chunkserver \<Rightarrow> bool" where
  "cv_inv s \<longleftrightarrow> cv_initialized s \<and> sg_exact (cv_storage s) \<and> sg_benign (cv_storage s) \<and>
     (\<forall>h. recorded (cv_sums s) h = sums_of (cv_bytes s h))"

lemma on_sums_eq: "on_sums f s = (fst (f (cv_sums s)), s\<lparr>cv_sums := snd (f (cv_sums s))\<rparr>)"
  by (simp add: on_sums_def split: prod.splits)

lemma on_storage_eq:
  "on_storage f s = (fst (f (cv_storage s)), s\<lparr>cv_sums := (cv_sums s)\<lparr>km_storage := snd (f (cv_storage s))\<rparr>\<rparr>)"
  by (simp add: on_storage_def on_sums_def split: prod.splits)

lemma recorded_storage [simp]: "recorded (m\<lparr>km_storage := st\<rparr>) = recorded m"
  by (simp add: fun_eq_iff recorded_def blocks_for_def)

lemma sg_bytes_zero: "sg_ok st \<Longrightarrow> sg_bytes st 0 = None"
  by (cases "sg_bytes st 0") (use stored_nonzero [of st 0] in auto)

lemma cv_invD:
  assumes "cv_inv s"
  shows "cv_initialized s" "sg_exact (cv_storage s)" "sg_ok (cv_storage s)" "sg_benign (cv_storage s)"
    "recorded (cv_sums s) h = sums_of (cv_bytes s h)" "cv_bytes s 0 = None"
  using assms sg_exactD(1) [of "cv_storage s"] sg_bytes_zero [of "cv_storage s"] by (simp_all add: cv_inv_def cv_bytes_def)

text \<open>After a change of the storage that only concerns \<open>h\<close>, the checksums of \<open>h\<close> are brought up to date.\<close>

lemma cv_inv_update:
  assumes inv: "cv_inv s" and st: "sg_exact st" "sg_benign st" "sg_bytes st = (cv_bytes s)(h := content)"
    and m: "touches h ((cv_sums s)\<lparr>km_storage := st\<rparr>) m" and sums: "recorded m h = sums_of content"
  shows "cv_inv (s\<lparr>cv_sums := m\<rparr>) \<and> cv_bytes (s\<lparr>cv_sums := m\<rparr>) = (cv_bytes s)(h := content)"
proof -
  have calm: "calm st (km_storage m)" "sg_benign (km_storage m)" using m st(2) by (simp_all add: touches_def)
  have bytes: "sg_bytes (km_storage m) = (cv_bytes s)(h := content)"
    using calm_keeps(2) [OF calm(1) sg_exactD(1) [OF st(1)]] st(3) by simp
  have "recorded m g = sums_of (((cv_bytes s)(h := content)) g)" for g
    using m sums cv_invD(5) [OF inv, of g] by (auto simp: touches_def)
  then show ?thesis
    using cv_invD(1) [OF inv] sg_exact_calm [OF st(1) calm(1)] calm(2) bytes by (simp add: cv_inv_def cv_bytes_def)
qed

lemma cv_ReadChunk_result:
  assumes inv: "cv_inv s" and r: "cv_ReadChunk h offset len s = (res, s')"
  shows "cv_inv s' \<and> cv_bytes s' = cv_bytes s \<and>
    res = (case cv_bytes s h of None \<Rightarrow> None | Some content \<Rightarrow> slice offset len content)"
proof -
  note inv' = cv_invD [OF inv]
  let ?m = "cv_sums s"
  show ?thesis
  proof (cases "cv_bytes s h")
    case None
    then have "\<not> sg_ChunkExists (cv_storage s) h" using sg_exactD(2) [OF inv'(2)] by (simp add: cv_bytes_def)
    then have "res = None \<and> s' = s"
      using r by (auto simp: cv_ReadChunk_def on_sums_def VerifyChunkRange_def split: if_splits)
    then show ?thesis using inv None by simp
  next
    case (Some content)
    then have content: "sg_bytes (km_storage ?m) h = Some content" by (simp add: cv_bytes_def)
    have h: "h \<noteq> 0" using Some inv'(6) by auto
    obtain v m1 where v: "VerifyChunkRange h offset len ?m = (v, m1)" by fastforce
    have rec: "recorded ?m h = block_sums content" using inv'(5) [of h] Some by (simp add: sums_of_def)
    have t: "touches h ?m m1" "recorded m1 = recorded ?m" using VerifyChunkRange_touches [OF inv'(3) content, of offset len] v by simp_all
    have last: "j < blocks_in (length content)" if "j \<le> (unat offset + unat len - 1) div block_size" "len \<noteq> 0"
      "unat offset + unat len \<le> length content" for j
    proof -
      have "0 < unat len" using that(2) by (simp add: unat_gt_0)
      moreover have "j * block_size \<le> unat offset + unat len - 1"
        using that(1) by (simp add: less_eq_div_iff_mult_less_eq)
      ultimately show ?thesis using that(3) by (simp add: less_blocks_in)
    qed
    have verified: "v \<longleftrightarrow> len = 0 \<or> unat offset + unat len \<le> length content"
      using VerifyChunkRange_result [OF inv'(3) content inv'(4), of offset len] v rec last by (auto simp: nth_block_sums)
    obtain res2 st where st: "sg_ReadChunk h offset len (km_storage m1) = (res2, st)" by fastforce
    note k = touches_keeps [OF t(1) inv'(3)]
    have content1: "sg_bytes (km_storage m1) h = Some content" using k(2) content by simp
    note read = sg_ReadChunk_result [OF k(1) st]
    have ben1: "sg_benign (km_storage m1)" using t(1) inv'(4) by (simp add: touches_def)
    have res2: "res2 = slice offset len content" using read(7) [OF ben1] content1 by (simp add: slice_def)
    have calm1: "calm (km_storage m1) st" using read(2,3,5) content1 by (simp add: calm_def)
    have calm0: "calm (km_storage ?m) (km_storage m1)" using t(1) by (simp add: touches_def)
    have inv1: "cv_inv (s\<lparr>cv_sums := m1\<rparr>)" "cv_bytes (s\<lparr>cv_sums := m1\<rparr>) = cv_bytes s"
      using sg_exact_calm [OF inv'(2) calm0] ben1 t(2) k(2) inv'(1,5) by (simp_all add: cv_inv_def cv_bytes_def)
    have inv2: "cv_inv (s\<lparr>cv_sums := m1\<lparr>km_storage := st\<rparr>\<rparr>)" "cv_bytes (s\<lparr>cv_sums := m1\<lparr>km_storage := st\<rparr>\<rparr>) = cv_bytes s"
      using sg_exact_calm [OF cv_invD(2) [OF inv1(1)]] calm1 calm_keeps(2) [OF calm1 k(1)] read(7) [OF ben1] inv1 inv'(1) t(2)
      by (simp_all add: cv_inv_def cv_bytes_def)
    show ?thesis
    proof (cases v)
      case True
      then have "res = res2" "s' = s\<lparr>cv_sums := m1\<lparr>km_storage := st\<rparr>\<rparr>"
        using r v st h inv'(1) by (simp_all add: cv_ReadChunk_def on_sums_eq on_storage_eq)
      then show ?thesis using inv2 res2 Some by simp
    next
      case False
      then have "res = None" "s' = s\<lparr>cv_sums := m1\<rparr>"
        using r v h inv'(1) by (simp_all add: cv_ReadChunk_def on_sums_eq)
      then show ?thesis using inv1 Some False verified by (simp add: slice_def)
    qed
  qed
qed

lemma cv_CreateChunk_result:
  assumes inv: "cv_inv s" and r: "cv_CreateChunk h s = (b, s')"
  shows "cv_inv s' \<and> (b \<longleftrightarrow> h \<noteq> 0 \<and> cv_bytes s h = None) \<and> cv_bytes s' = (if b then (cv_bytes s)(h \<mapsto> []) else cv_bytes s)"
proof (cases "h = 0")
  case True
  then show ?thesis using r inv by (auto simp: cv_CreateChunk_def)
next
  case False
  note inv' = cv_invD [OF inv]
  obtain b1 st where st: "sg_CreateChunk h (cv_storage s) = (b1, st)" by fastforce
  note res = sg_CreateChunk_exact [OF inv'(2,4) st]
  have s': "b = b1" "s' = s\<lparr>cv_sums := (cv_sums s)\<lparr>km_storage := st\<rparr>\<rparr>"
    using r False inv'(1) st by (simp_all add: cv_CreateChunk_def on_storage_eq)
  have bytes: "sg_bytes st = (cv_bytes s)(h := if b1 then Some [] else cv_bytes s h)" using res(4,5) by (auto simp: cv_bytes_def)
  have "recorded (cv_sums s) h = sums_of (if b1 then Some [] else cv_bytes s h)"
    using inv'(5) [of h] res(3) by (auto simp: sums_of_def cv_bytes_def)
  then have "cv_inv (s\<lparr>cv_sums := (cv_sums s)\<lparr>km_storage := st\<rparr>\<rparr>) \<and>
      cv_bytes (s\<lparr>cv_sums := (cv_sums s)\<lparr>km_storage := st\<rparr>\<rparr>) = (cv_bytes s)(h := if b1 then Some [] else cv_bytes s h)"
    by (intro cv_inv_update [OF inv res(1,2) bytes]) simp_all
  then show ?thesis using s' res(3) False by (auto simp: cv_bytes_def)
qed

lemma sg_WriteChunk_bytes:
  assumes ok: "sg_ok st" and r: "sg_WriteChunk h offset data st = (b, st')"
    and content: "sg_bytes st h = Some content" and dense: "unat offset \<le> length content"
  shows "b \<Longrightarrow> sg_bytes st' = (sg_bytes st)(h \<mapsto> overlay content (unat offset) data)"
  using sg_WriteChunk_result(3,6) [OF ok r] content dense by (auto simp: fun_eq_iff)

lemma sg_WriteChunk_failed:
  assumes ok: "sg_ok st" and ben: "sg_benign st" and r: "sg_WriteChunk h offset data st = (False, st')"
  shows "sg_bytes st' = sg_bytes st"
proof (cases "map_of (sg_chunks st) h")
  case None
  then show ?thesis using r by (simp add: sg_WriteChunk_def sg_GetChunk_def)
next
  case (Some c)
  then have long: "\<not> unat offset + length data \<le> 2 ^ 26"
    using sg_WriteChunk_result(9) [OF ok r ben] by (simp add: sg_bytes_None)
  obtain b1 c' d where w: "cf_Write c offset data (sg_disk st) = (b1, c', d)" by (metis prod.exhaust)
  have fits: "\<not> (kChunkSize < offset \<or> unat (kChunkSize - offset) < length data) \<longleftrightarrow> unat offset + length data \<le> 2 ^ 26"
    by (auto simp: kChunkSize_def word_less_nat_alt word_le_nat_alt unat_sub not_less)
  have "c' = c \<and> d = sg_disk st" using w long fits by (auto simp: cf_Write_def split: option.splits if_splits)
  then have "st' = sg_put h c st" using r Some w by (simp add: sg_WriteChunk_def sg_GetChunk_def)
  then show ?thesis using Some by (auto simp: fun_eq_iff sg_bytes_def)
qed

lemma cv_WriteChunk_result:
  assumes inv: "cv_inv s" and r: "cv_WriteChunk h offset data s = (b, s')"
    and dense: "\<And>content. cv_bytes s h = Some content \<Longrightarrow> unat offset \<le> length content"
  shows "cv_inv s' \<and> (b \<longleftrightarrow> cv_bytes s h \<noteq> None \<and> unat offset + length data \<le> 2 ^ 26) \<and>
    cv_bytes s' = (case cv_bytes s h of None \<Rightarrow> cv_bytes s | Some content \<Rightarrow>
      if b then (cv_bytes s)(h \<mapsto> overlay content (unat offset) data) else cv_bytes s)"
proof (cases "h = 0")
  case True
  then show ?thesis using r inv cv_invD(6) [OF inv] by (auto simp: cv_WriteChunk_def)
next
  case False
  note inv' = cv_invD [OF inv]
  obtain b1 st where st: "sg_WriteChunk h offset data (cv_storage s) = (b1, st)" by fastforce
  note ex = sg_WriteChunk_exact [OF inv'(2) st]
  note res = sg_WriteChunk_result [OF inv'(3) st]
  have ben: "sg_benign st" and b1: "b1 \<longleftrightarrow> cv_bytes s h \<noteq> None \<and> unat offset + length data \<le> 2 ^ 26"
    using res(9) inv'(4) by (simp_all add: cv_bytes_def)
  let ?m = "(cv_sums s)\<lparr>km_storage := st\<rparr>"
  have r': "(b, s') = (if \<not> b1 then (False, s\<lparr>cv_sums := ?m\<rparr>) else if data = [] then (True, s\<lparr>cv_sums := ?m\<rparr>)
      else on_sums (UpdateAfterWrite h offset (of_nat (length data))) (s\<lparr>cv_sums := ?m\<rparr>))"
    using r False inv'(1) st by (cases b1) (simp_all add: cv_WriteChunk_def on_storage_eq)
  show ?thesis
  proof (cases b1)
    case failed: False
    have "sg_bytes st = (cv_bytes s)(h := cv_bytes s h)"
      using sg_WriteChunk_failed [OF inv'(3,4)] st failed by (simp add: cv_bytes_def)
    from cv_inv_update [OF inv ex ben this, of ?m] have
      "cv_inv (s\<lparr>cv_sums := ?m\<rparr>) \<and> cv_bytes (s\<lparr>cv_sums := ?m\<rparr>) = cv_bytes s" using inv'(5) [of h] by simp
    then show ?thesis using r' failed b1 by (auto split: option.splits)
  next
    case granted: True
    then obtain content where content: "cv_bytes s h = Some content" and len: "unat offset + length data \<le> 2 ^ 26"
      using b1 by auto
    note off = dense [OF content]
    let ?new = "overlay content (unat offset) data"
    have bytes: "sg_bytes st = (cv_bytes s)(h \<mapsto> ?new)"
      using sg_WriteChunk_bytes [OF inv'(3) st _ off] content granted by (simp add: cv_bytes_def)
    have "\<exists>m. (b, s') = (True, s\<lparr>cv_sums := m\<rparr>) \<and> touches h ?m m \<and> recorded m h = block_sums ?new"
    proof (cases "data = []")
      case True
      then have "?new = content" using off by (simp add: overlay_def)
      then show ?thesis using True r' granted inv'(5) [of h] content
        by (intro exI [of _ ?m]) (simp add: sums_of_def)
    next
      case False
      let ?len = "of_nat (length data) :: 64 word"
      have n: "unat ?len = length data" using len by (simp add: unat_of_nat)
      have "\<exists>m. UpdateAfterWrite h offset ?len ?m = (True, m) \<and> touches h ?m m \<and> recorded m h = block_sums ?new"
      proof (rule UpdateAfterWrite_result)
        show "sg_ok (km_storage ?m)" "km_benign ?m" using sg_exactD(1) [OF ex] ben by simp_all
        show "sg_bytes (km_storage ?m) h = Some ?new" using bytes by simp
        show "0 < unat ?len" "unat offset + unat ?len \<le> length ?new" using False n by simp_all
        fix j assume j: "j < blocks_in (length ?new)"
          "j < unat offset div block_size \<or> (unat offset + unat ?len - 1) div block_size < j"
        have same: "block_of ?new j = block_of content j" using block_of_overlay [OF off _ False, of j] j(2) n by simp
        have "j * block_size < length content"
        proof (rule ccontr)
          assume "\<not> j * block_size < length content"
          then have "block_of content j = []" by (simp add: block_of_def)
          moreover have "0 < length (block_of ?new j)" using j(1) unfolding length_block_of less_blocks_in by linarith
          ultimately show False using same by simp
        qed
        then show "j < length (recorded ?m h) \<and> recorded ?m h ! j = ComputeCRC32 (block_of ?new j)"
          using same inv'(5) [of h] content by (simp add: sums_of_def less_blocks_in nth_block_sums)
      qed
      then show ?thesis using r' granted False by (auto simp: on_sums_eq)
    qed
    then obtain m where m: "b" "s' = s\<lparr>cv_sums := m\<rparr>" "touches h ?m m" "recorded m h = sums_of (Some ?new)"
      by (auto simp: sums_of_def)
    from cv_inv_update [OF inv ex ben bytes m(3,4)] show ?thesis using m(1,2) content len by simp
  qed
qed

lemma cv_TruncateChunk_result:
  assumes inv: "cv_inv s" and r: "cv_TruncateChunk h sz s = (b, s')"
    and dense: "\<And>content. cv_bytes s h = Some content \<Longrightarrow> unat sz \<le> length content"
  shows "cv_inv s' \<and> (b \<longleftrightarrow> cv_bytes s h \<noteq> None) \<and>
    cv_bytes s' = (case cv_bytes s h of None \<Rightarrow> cv_bytes s | Some content \<Rightarrow> (cv_bytes s)(h \<mapsto> take (unat sz) content))"
proof (cases "cv_bytes s h")
  case None
  then have "map_of (sg_chunks (cv_storage s)) h = None" by (simp add: cv_bytes_def sg_bytes_None)
  then have "\<not> b \<and> s' = s" using r by (auto simp: cv_TruncateChunk_def on_storage_eq sg_TruncateChunk_def sg_GetChunk_def split: if_splits)
  then show ?thesis using inv None by simp
next
  case (Some content)
  note inv' = cv_invD [OF inv]
  have h: "h \<noteq> 0" using Some inv'(6) by auto
  obtain b1 st where st: "sg_TruncateChunk h sz (cv_storage s) = (b1, st)" by fastforce
  note ex = sg_TruncateChunk_exact [OF inv'(2) st]
  note res = sg_TruncateChunk_result [OF inv'(3) st]
  obtain c where c: "map_of (sg_chunks (cv_storage s)) h = Some c" "content = cf_bytes (sg_disk (cv_storage s)) c"
    using Some by (auto simp: cv_bytes_def sg_bytes_Some)
  have "length content \<le> 2 ^ 26" using cf_ok_size [OF sg_okD [OF inv'(3) c(1)]] length_cf_bytes [OF sg_okD [OF inv'(3) c(1)]] c(2) by simp
  then have b1: "b1" and ben: "sg_benign st" using res(6) inv'(4) Some dense [OF Some] by (simp_all add: cv_bytes_def)
  let ?new = "take (unat sz) content" and ?m = "(cv_sums s)\<lparr>km_storage := st\<rparr>"
  have bytes: "sg_bytes st = (cv_bytes s)(h \<mapsto> ?new)"
    using res(3,5) b1 Some dense [OF Some] by (auto simp: fun_eq_iff cv_bytes_def)
  have "\<exists>m. UpdateAfterTruncate h sz ?m = (True, m) \<and> touches h ?m m \<and> recorded m h = block_sums ?new"
    using sg_exactD(1) [OF ex] ben bytes dense [OF Some] by (intro UpdateAfterTruncate_result) simp_all
  then obtain m where m: "UpdateAfterTruncate h sz ?m = (True, m)" "touches h ?m m" "recorded m h = sums_of (Some ?new)"
    by (auto simp: sums_of_def)
  have "b" "s' = s\<lparr>cv_sums := m\<rparr>"
    using r h inv'(1) st b1 m(1) by (simp_all add: cv_TruncateChunk_def on_storage_eq on_sums_eq)
  with cv_inv_update [OF inv ex ben bytes m(2,3)] Some show ?thesis by simp
qed

lemma ResetChunk_fields [simp]:
  "cv_sums (snd (ResetChunk h s)) = cv_sums s" "cv_initialized (snd (ResetChunk h s)) = cv_initialized s"
  by (simp_all add: ResetChunk_def)

lemma cv_inv_tables: "cv_sums s' = cv_sums s \<Longrightarrow> cv_initialized s' = cv_initialized s \<Longrightarrow> cv_inv s' = cv_inv s \<and> cv_bytes s' = cv_bytes s"
  by (simp add: cv_inv_def cv_bytes_def)

lemma cv_DeleteChunk_result:
  assumes inv: "cv_inv s" and r: "cv_DeleteChunk h s = (b, s')"
  shows "cv_inv s' \<and> (b \<longleftrightarrow> cv_bytes s h \<noteq> None) \<and> cv_bytes s' = (cv_bytes s)(h := None)"
proof (cases "h = 0")
  case True
  then show ?thesis using r inv cv_invD(6) [OF inv] by (auto simp: cv_DeleteChunk_def)
next
  case False
  let ?s = "snd (ResetChunk h s)"
  have inv0: "cv_inv ?s" "cv_bytes ?s = cv_bytes s" using cv_inv_tables [of ?s s] inv by simp_all
  note inv' = cv_invD [OF inv0(1)]
  obtain b1 st where st: "sg_DeleteChunk h (cv_storage s) = (b1, st)" by fastforce
  note res = sg_DeleteChunk_exact [OF inv'(2,4), simplified, OF st]
  let ?m = "(cv_sums s)\<lparr>km_storage := st\<rparr>"
  have bytes: "sg_bytes st = (cv_bytes ?s)(h := None)" using res(4) inv0(2) by (simp add: cv_bytes_def)
  have r': "(b, s') = and_then (b1, ?s\<lparr>cv_sums := ?m\<rparr>) (on_sums (DeleteChecksums h))"
    using r False inv'(1) st by (simp add: cv_DeleteChunk_def on_storage_eq)
  have b1: "b1 \<longleftrightarrow> cv_bytes s h \<noteq> None" using res(3) by (simp add: cv_bytes_def)
  show ?thesis
  proof (cases b1)
    case True
    note del = DeleteChecksums_result [OF False, of ?m]
    have "recorded (snd (DeleteChecksums h ?m)) h = sums_of None" using del(2) by (simp add: sums_of_def)
    from cv_inv_update [OF inv0(1) res(1,2) bytes _ this] del(1) have
      "cv_inv (?s\<lparr>cv_sums := snd (DeleteChecksums h ?m)\<rparr>) \<and> cv_bytes (?s\<lparr>cv_sums := snd (DeleteChecksums h ?m)\<rparr>) = (cv_bytes s)(h := None)"
      using inv0(2) by simp
    then show ?thesis using r' True b1 del(3) res(2) by (simp add: on_sums_eq)
  next
    case none: False
    have "recorded ?m h = sums_of None" using inv'(5) [of h] none b1 inv0(2) by simp
    from cv_inv_update [OF inv0(1) res(1,2) bytes _ this] have
      "cv_inv (?s\<lparr>cv_sums := ?m\<rparr>) \<and> cv_bytes (?s\<lparr>cv_sums := ?m\<rparr>) = (cv_bytes s)(h := None)"
      using inv0(2) by simp
    then show ?thesis using r' none b1 by simp
  qed
qed

lemma cv_OpenChunk_result:
  assumes inv: "cv_inv s" and r: "cv_OpenChunk h s = (b, s')"
  shows "s' = s \<and> (b \<longleftrightarrow> cv_bytes s h \<noteq> None)"
proof (cases "cv_bytes s h")
  case None
  have "\<not> sg_HasChunk (cv_storage s) h" "\<not> dk_exists (sg_disk (cv_storage s)) (GetChunkPath (cv_storage s) h)"
    using cv_invD(2) [OF inv] None by (auto simp: sg_exact_def sg_HasChunk_def cv_bytes_def sg_bytes_None)
  then show ?thesis using r None by (auto simp: cv_OpenChunk_def on_storage_eq sg_OpenChunk_def split: if_splits)
next
  case (Some content)
  note inv' = cv_invD [OF inv]
  have h: "h \<noteq> 0" using Some inv'(6) by auto
  have has: "sg_HasChunk (cv_storage s) h" using Some by (auto simp: sg_HasChunk_def cv_bytes_def sg_bytes_Some)
  have sz: "unat (sg_GetChunkSize (cv_storage s) h) = length content"
    using sg_GetChunkSize_bytes [OF inv'(3), of h] Some by (simp add: cv_bytes_def)
  have "HasChecksums (cv_sums s) h \<or> content = []"
  proof -
    have "length (recorded (cv_sums s) h) = blocks_in (length content)" using inv'(5) [of h] Some by (simp add: sums_of_def)
    moreover have "ChecksumBlockCount (cv_sums s) h = length (recorded (cv_sums s) h)"
      using h by (simp add: ChecksumBlockCount_def recorded_def blocks_for_def split: option.splits)
    moreover have "content \<noteq> [] \<Longrightarrow> 0 < blocks_in (length content)" by (simp add: less_blocks_in)
    ultimately show ?thesis by (auto simp: HasChecksums_def)
  qed
  moreover have "content = [] \<Longrightarrow> sg_GetChunkSize (cv_storage s) h = 0" using sz by (simp add: unat_eq_0)
  ultimately have "(b, s') = (True, s)"
    using r h has inv'(1) by (auto simp: cv_OpenChunk_def on_storage_eq sg_OpenChunk_def)
  then show ?thesis using Some by simp
qed

lemma cv_simulation:
  assumes inv: "cv_inv s" and dense: "dense opr (cv_bytes s)" and r: "cv_exec opr s = (r, s')"
  shows "cv_inv s' \<and> spec_exec opr (cv_bytes s) = (r, cv_bytes s')"
proof (cases opr)
  case (Create h)
  then show ?thesis using cv_CreateChunk_result [OF inv surjective_pairing, of h] r by (auto simp: as_result_def)
next
  case (Open h)
  then show ?thesis using cv_OpenChunk_result [OF inv surjective_pairing, of h] r inv by (auto simp: as_result_def)
next
  case (Delete h)
  then show ?thesis using cv_DeleteChunk_result [OF inv surjective_pairing, of h] r by (auto simp: as_result_def)
next
  case (Read h offset len)
  then show ?thesis using cv_ReadChunk_result [OF inv surjective_pairing, of h offset len] r by (auto simp: as_data_def)
next
  case (Write h offset data)
  have "unat offset \<le> length content" if "cv_bytes s h = Some content" for content using dense Write that by simp
  moreover obtain b s1 where w: "cv_WriteChunk h offset data s = (b, s1)" by fastforce
  ultimately show ?thesis using cv_WriteChunk_result [OF inv w] Write r by (auto simp: as_result_def split: option.splits)
next
  case (Truncate h sz)
  have "unat sz \<le> length content" if "cv_bytes s h = Some content" for content using dense Truncate that by simp
  moreover obtain b s1 where w: "cv_TruncateChunk h sz s = (b, s1)" by fastforce
  ultimately show ?thesis using cv_TruncateChunk_result [OF inv w] Truncate r by (auto simp: as_result_def split: option.splits)
qed

interpretation cv: functional_refinement cv_exec spec_exec cv_bytes cv_inv dense
  by unfold_locales (rule cv_simulation)

section \<open>Properties\<close>

lemma Initialize_empty:
  assumes "server_id \<noteq> 0" and "dir \<noteq> []" and files: "dk_files d = Map.empty" and ben: "benign d"
    and r: "cv_Initialize [] (Chunkserver server_id dir d) = (ok, s)"
  shows "ok \<and> cv_inv s \<and> cv_bytes s = Map.empty"
proof -
  obtain b1 d1 where d1: "call_ok d = (b1, d1)" by fastforce
  obtain b2 d2 where d2: "call_ok d1 = (b2, d2)" by fastforce
  have b: "b1" "b2" "benign d2" using benign_call [OF ben d1] benign_call [OF _ d2] by auto
  have f: "dk_files d2 = Map.empty" using call_ok_files [OF d1] call_ok_files [OF d2] files by simp
  let ?st = "\<lparr>sg_directory = dir, sg_chunks = [], sg_disk = d2\<rparr>"
  have s: "ok" "s = (Chunkserver server_id dir d)\<lparr>cv_sums := ChecksumManager ?st, cv_initialized := True\<rparr>"
    using r assms(1,2) d1 d2 b
    by (auto simp: cv_Initialize_def on_storage_eq on_sums_eq Chunkserver_def ChecksumManager_def ChunkStorage_def
        sg_Initialize_def km_Initialize_def sg_ListChunks_def)
  have "sg_exact ?st" using f by (simp add: sg_exact_def sg_ok_def dk_exists_def)
  moreover have "sg_bytes ?st = Map.empty" by (simp add: fun_eq_iff sg_bytes_def)
  ultimately show ?thesis
    using s b(3) by (simp add: cv_inv_def cv_bytes_def ChecksumManager_def recorded_def blocks_for_def sums_of_def)
qed

text \<open>C14: A chunkserver that starts in an empty directory is a map from handles to byte strings: for every
  sequence of requests that leaves no gap behind the end of a chunk, and every course of
  interruptions and partial transfers, each request is answered as the map answers it. So every read
  returns what was written, the checksums never reject intact data, and a request that fails changes
  nothing.\<close>
theorem chunkserver_refines_map:
  assumes "server_id \<noteq> 0" and "dir \<noteq> []" and "dk_files d = Map.empty" and "benign d"
    and "cv_Initialize [] (Chunkserver server_id dir d) = (ok, s)"
    and "all_allowed spec_exec dense oprs Map.empty" and "outcomes cv_exec oprs s = (rs, s')"
  shows "ok \<and> outcomes spec_exec oprs Map.empty = (rs, cv_bytes s')"
  using Initialize_empty [OF assms(1-5)] cv.run [of s oprs rs s'] assms(6,7) by simp

theorem chunkserver_refines_map_witness:
  "\<exists>s s'. fst (cv_Initialize [] (Chunkserver 7 ''/d'' \<lparr>dk_files = Map.empty, dk_answers = [Interrupted, Partial 1]\<rparr>)) \<and>
     outcomes cv_exec [Create 5, Write 5 0 ''abcd'', Write 5 2 ''xyz'', Read 5 1 3] s =
       ([Result True, Result True, Result True, Data (Some ''bxy'')], s')"
proof -
  let ?d = "\<lparr>dk_files = Map.empty, dk_answers = [Interrupted, Partial 1]\<rparr>"
  let ?oprs = "[Create 5, Write 5 0 ''abcd'', Write 5 2 ''xyz'', Read 5 1 3]"
  obtain ok s where s: "cv_Initialize [] (Chunkserver 7 ''/d'' ?d) = (ok, s)" by fastforce
  obtain rs s' where rs: "outcomes cv_exec ?oprs s = (rs, s')" by fastforce
  have allowed: "all_allowed spec_exec dense ?oprs Map.empty" by (simp add: overlay_def)
  have "ok \<and> outcomes spec_exec ?oprs Map.empty = (rs, cv_bytes s')"
    by (rule chunkserver_refines_map [OF _ _ _ _ s allowed rs]) (simp_all add: benign_def)
  moreover have "fst (outcomes spec_exec ?oprs Map.empty) = [Result True, Result True, Result True, Data (Some ''bxy'')]"
    by (simp add: overlay_def slice_def)
  ultimately have "ok" "rs = [Result True, Result True, Result True, Data (Some ''bxy'')]" by (metis fst_conv)+
  then show ?thesis using s rs by auto
qed

text \<open>Bytes of a chunk that change on disk behind the back of the server.\<close>

definition damage :: "chunk_handle \<Rightarrow> nat \<Rightarrow> string \<Rightarrow> chunkserver \<Rightarrow> chunkserver" where
  "damage h position bytes s =
     (let d = sg_disk (cv_storage s); path = GetChunkPath (cv_storage s) h in
      s\<lparr>cv_sums := (cv_sums s)\<lparr>km_storage := (cv_storage s)\<lparr>sg_disk :=
        put_content path (overlay (dk_content d path) position bytes) d\<rparr>\<rparr>\<rparr>)"

lemma take_overlay_inside:
  assumes "p + length ys \<le> k" and "k \<le> length xs"
  shows "take k (overlay xs p ys) = overlay (take k xs) p ys"
proof -
  have "p \<le> length xs" "min k (length xs) = k" "min p k = p" "min (length xs) p = p" using assms by simp_all
  then show ?thesis using assms by (simp add: overlay_def drop_take diff_diff_left)
qed

lemma take_three:
  assumes "p + n \<le> b"
  shows "take b xs = take p xs @ take n (drop p xs) @ take (b - (p + n)) (drop (p + n) xs)"
proof -
  have b: "p + (n + (b - (p + n))) = b" using assms by simp
  show ?thesis
    using take_add [of p "n + (b - (p + n))" xs] take_add [of n "b - (p + n)" "drop p xs"]
    unfolding b drop_drop by (simp only: add.commute)
qed

lemma overlay_block:
  assumes "i \<le> p" and "p + length ys \<le> length xs" and "p - i + length ys \<le> b"
  shows "take b (drop i (overlay xs p ys)) =
    take (p - i) (drop i xs) @ ys @ take (b - (p - i + length ys)) (drop (p - i + length ys) (drop i xs))"
proof -
  have "drop i (overlay xs p ys) = take (p - i) (drop i xs) @ ys @ drop (p + length ys) xs"
    using assms(1,2) by (simp add: overlay_def drop_take)
  moreover have "length (take (p - i) (drop i xs)) = p - i" using assms(1,2) by simp
  moreover have "drop (p - i + length ys) (drop i xs) = drop (p + length ys) xs" using assms(1) by simp
  ultimately show ?thesis using assms(3) by simp
qed

lemma damage_result:
  assumes inv: "cv_inv s" and content: "cv_bytes s h = Some content" and fits: "position + length bytes \<le> length content"
  shows "sg_ok (cv_storage (damage h position bytes s))" "sg_benign (cv_storage (damage h position bytes s))"
    and "cv_bytes (damage h position bytes s) = (cv_bytes s)(h \<mapsto> overlay content position bytes)"
    and "recorded (cv_sums (damage h position bytes s)) = recorded (cv_sums s)" "cv_initialized (damage h position bytes s)"
proof -
  note inv' = cv_invD [OF inv]
  let ?st = "cv_storage s" and ?path = "GetChunkPath (cv_storage s) h"
  let ?d = "put_content ?path (overlay (dk_content (sg_disk ?st) ?path) position bytes) (sg_disk ?st)"
  have eq: "damage h position bytes s = s\<lparr>cv_sums := (cv_sums s)\<lparr>km_storage := ?st\<lparr>sg_disk := ?d\<rparr>\<rparr>\<rparr>"
    by (simp add: damage_def Let_def)
  obtain c where c: "map_of (sg_chunks ?st) h = Some c" "content = cf_bytes (sg_disk ?st) c"
    using content by (auto simp: cv_bytes_def sg_bytes_Some)
  have path: "cf_path c = ?path" by (rule sg_exactD(3) [OF inv'(2) c(1)])
  have cok: "cf_ok (sg_directory ?st) (sg_disk ?st) h c" by (rule sg_okD [OF inv'(3) c(1)])
  have only: "only_changes (cf_path c) (sg_disk ?st) ?d" by (simp add: only_changes_def path)
  have cok': "cf_ok (sg_directory ?st) ?d h c" using cok by (auto simp: cf_ok_def path dk_exists_def)
  note put = sg_put_result [OF inv'(3) only cok']
  have len: "unat (cf_size c) = length content" "unat (cf_size c) \<le> length (dk_content (sg_disk ?st) ?path)"
    using length_cf_bytes [OF cok] c(2) cok by (simp_all add: cf_ok_def path)
  have "take (unat (cf_size c)) (overlay (dk_content (sg_disk ?st) ?path) position bytes) = overlay content position bytes"
  proof -
    have fits': "position + length bytes \<le> unat (cf_size c)" using fits len(1) by simp
    have "take (unat (cf_size c)) (dk_content (sg_disk ?st) ?path) = content" unfolding c(2) cf_bytes_def path ..
    then show ?thesis unfolding take_overlay_inside [OF fits' len(2)] by (rule arg_cong)
  qed
  then have bytes: "cf_bytes ?d c = overlay content position bytes" by (simp add: cf_bytes_def path)
  have same: "map_of (sg_chunks (sg_put h c (?st\<lparr>sg_disk := ?d\<rparr>))) = map_of (sg_chunks (?st\<lparr>sg_disk := ?d\<rparr>))"
    using c(1) by (simp add: fun_upd_idem)
  have "cf_ok (sg_directory ?st) ?d g c'" if "map_of (sg_chunks ?st) g = Some c'" for g c'
  proof -
    have "map_of (sg_chunks (sg_put h c (?st\<lparr>sg_disk := ?d\<rparr>))) g = Some c'" unfolding same using that by simp
    from sg_okD [OF put(1) this] show ?thesis by simp
  qed
  then show "sg_ok (cv_storage (damage h position bytes s))" using inv'(3) by (simp add: eq sg_ok_def)
  have "sg_bytes (?st\<lparr>sg_disk := ?d\<rparr>) = sg_bytes (sg_put h c (?st\<lparr>sg_disk := ?d\<rparr>))"
    using same by (simp add: fun_eq_iff sg_bytes_def)
  then show "cv_bytes (damage h position bytes s) = (cv_bytes s)(h \<mapsto> overlay content position bytes)"
    using put(2) bytes by (simp add: eq cv_bytes_def)
  show "sg_benign (cv_storage (damage h position bytes s))" "cv_initialized (damage h position bytes s)"
    "recorded (cv_sums (damage h position bytes s)) = recorded (cv_sums s)"
    using inv'(1,4) by (simp_all add: eq)
qed

lemma burst_changes_block:
  assumes fits: "position + length bytes \<le> length content" and len: "bytes \<noteq> []" "length bytes \<le> 4"
    and block: "(position + length bytes - 1) div block_size = position div block_size"
    and changed: "take (length bytes) (drop position content) \<noteq> bytes"
  shows "ComputeCRC32 (block_of (overlay content position bytes) (position div block_size)) \<noteq>
    ComputeCRC32 (block_of content (position div block_size))"
proof -
  let ?k = "position div block_size" and ?n = "length bytes"
  let ?p = "position - ?k * block_size"
  have start: "?k * block_size \<le> position" by simp
  have "position + ?n - 1 < ?k * block_size + block_size"
    using block dividend_less_div_times [of block_size "position + ?n - 1"] by simp
  then have stop: "?p + ?n \<le> block_size" using len(1) start by (cases bytes) auto
  let ?b = "drop (?k * block_size) content"
  let ?before = "take ?p ?b" and ?after = "take (block_size - (?p + ?n)) (drop (?p + ?n) ?b)"
  have old: "block_of content ?k = ?before @ take ?n (drop position content) @ ?after"
  proof -
    have "take block_size ?b = take ?p ?b @ take ?n (drop ?p ?b) @ take (block_size - (?p + ?n)) (drop (?p + ?n) ?b)"
      by (rule take_three [OF stop])
    then show ?thesis using start by (simp add: block_of_def add.commute)
  qed
  have new: "block_of (overlay content position bytes) ?k = ?before @ bytes @ ?after"
    unfolding block_of_def by (rule overlay_block [OF start fits stop])
  have "length (take ?n (drop position content)) = ?n" using fits by simp
  then show ?thesis
    unfolding old new ComputeCRC32_eq using crc_burst [of bytes "take ?n (drop position content)"] len(2) changed by simp
qed

text \<open>C15: No damaged byte is ever returned: when up to four consecutive bytes inside one block of a chunk
  change on disk, every read that touches that block is refused, and every other read still returns
  exactly what was written.\<close>
theorem damaged_block_never_read:
  assumes inv: "cv_inv s" and content: "cv_bytes s h = Some content" and fits: "position + length bytes \<le> length content"
    and len: "bytes \<noteq> []" "length bytes \<le> 4"
    and block: "(position + length bytes - 1) div block_size = position div block_size"
    and changed: "take (length bytes) (drop position content) \<noteq> bytes"
    and r: "cv_ReadChunk h offset n (damage h position bytes s) = (res, s')"
  shows "res = (if n \<noteq> 0 \<and> unat offset div block_size \<le> position div block_size \<and>
      position div block_size \<le> (unat offset + unat n - 1) div block_size then None else slice offset n content)"
proof -
  let ?s = "damage h position bytes s" and ?new = "overlay content position bytes" and ?k = "position div block_size"
  note d = damage_result [OF inv content fits]
  have h: "h \<noteq> 0" using content cv_invD(6) [OF inv] by auto
  have bytes: "sg_bytes (cv_storage ?s) h = Some ?new" using d(3) by (simp add: cv_bytes_def)
  have lnew: "length ?new = length content" using fits by simp
  have rec: "recorded (cv_sums ?s) h = block_sums content"
    using d(4) cv_invD(5) [OF inv, of h] content by (simp add: sums_of_def)
  let ?hit = "n \<noteq> 0 \<and> unat offset div block_size \<le> ?k \<and> ?k \<le> (unat offset + unat n - 1) div block_size"
  have other: "block_of ?new j = block_of content j" if "j \<noteq> ?k" for j
  proof -
    have "j < position div block_size \<or> (position + length bytes - 1) div block_size < j" using that block by linarith
    then show ?thesis using block_of_overlay [of position content j bytes] fits len(1) by simp
  qed
  have inside: "j < blocks_in (length content)" if "j \<le> (unat offset + unat n - 1) div block_size" "n \<noteq> 0"
    "unat offset + unat n \<le> length content" for j
  proof -
    have "0 < unat n" using that(2) by (simp add: unat_gt_0)
    moreover have "j * block_size \<le> unat offset + unat n - 1" using that(1) by (simp add: less_eq_div_iff_mult_less_eq)
    ultimately show ?thesis using that(3) by (simp add: less_blocks_in)
  qed
  obtain v m1 where v: "VerifyChunkRange h offset n (cv_sums ?s) = (v, m1)" by fastforce
  have "v \<longleftrightarrow> n = 0 \<or> (unat offset + unat n \<le> length content \<and>
      (\<forall>j. unat offset div block_size \<le> j \<and> j \<le> (unat offset + unat n - 1) div block_size \<longrightarrow>
        block_sums content ! j = ComputeCRC32 (block_of ?new j)))"
    using VerifyChunkRange_result [OF d(1) bytes d(2), of offset n] v rec lnew by simp
  also have "\<dots> \<longleftrightarrow> n = 0 \<or> (unat offset + unat n \<le> length content \<and> \<not> ?hit)"
    using inside other burst_changes_block [OF fits len block changed] by (smt (verit, ccfv_threshold) nth_block_sums)
  finally have verified: "v \<longleftrightarrow> n = 0 \<or> (unat offset + unat n \<le> length content \<and> \<not> ?hit)" .
  note t = VerifyChunkRange_touches(1) [OF d(1) bytes, of offset n]
  have t1: "touches h (cv_sums ?s) m1" using t v by simp
  note k = touches_keeps [OF t1 d(1)]
  obtain res2 st where st: "sg_ReadChunk h offset n (km_storage m1) = (res2, st)" by fastforce
  have "sg_benign (km_storage m1)" using t1 d(2) by (simp add: touches_def)
  then have res2: "res2 = slice offset n ?new"
    using sg_ReadChunk_result(7) [OF k(1) st] k(2) bytes by (simp add: slice_def)
  have res: "res = (if v then res2 else None)"
    using r v st h d(5) by (cases v) (simp_all add: cv_ReadChunk_def on_sums_eq on_storage_eq)
  have "take (unat n) (drop (unat offset) ?new) = take (unat n) (drop (unat offset) content)"
    if "unat offset + unat n \<le> length content" "\<not> ?hit" "n \<noteq> 0"
  proof (rule nth_equalityI)
    fix i assume "i < length (take (unat n) (drop (unat offset) ?new))"
    then have i: "i < unat n" "unat offset + i < length content" using that(1) by simp_all
    have "\<not> (position \<le> unat offset + i \<and> unat offset + i < position + length bytes)"
    proof
      assume "position \<le> unat offset + i \<and> unat offset + i < position + length bytes"
      then have "position \<le> unat offset + i" "unat offset + i \<le> position + length bytes - 1" by linarith+
      from this [THEN div_le_mono, of block_size] have "(unat offset + i) div block_size = ?k"
        unfolding block by (rule antisym [rotated])
      moreover have "unat offset div block_size \<le> (unat offset + i) div block_size" by (simp add: div_le_mono)
      moreover have "(unat offset + i) div block_size \<le> (unat offset + unat n - 1) div block_size"
        using i(1) by (simp add: div_le_mono)
      ultimately show False using that(2,3) by simp
    qed
    then show "take (unat n) (drop (unat offset) ?new) ! i = take (unat n) (drop (unat offset) content) ! i"
      using i fits nth_overlay [where c = content and n = position and xs = bytes and i = "unat offset + i"] by auto
  qed (use lnew in simp)
  then show ?thesis
    using res res2 verified lnew by (auto simp: slice_def)
qed

lemma sample_server: "\<exists>s. cv_inv s \<and> cv_bytes s = [5 \<mapsto> ''abcd'']"
proof -
  let ?d = "\<lparr>dk_files = Map.empty, dk_answers = []\<rparr>"
  obtain ok s where s: "cv_Initialize [] (Chunkserver 7 ''/d'' ?d) = (ok, s)" by fastforce
  have init: "cv_inv s" "cv_bytes s = Map.empty" using Initialize_empty [OF _ _ _ _ s] by (simp_all add: benign_def)
  obtain rs s' where rs: "outcomes cv_exec [Create 5, Write 5 0 ''abcd''] s = (rs, s')" by fastforce
  have "cv_inv s' \<and> outcomes spec_exec [Create 5, Write 5 0 ''abcd''] Map.empty = (rs, cv_bytes s')"
    using cv.run [OF init(1) _ rs] init(2) by simp
  then show ?thesis by (intro exI [of _ s']) (auto simp: overlay_def)
qed

theorem damaged_block_never_read_witness:
  "\<exists>s s'. cv_bytes s 5 = Some ''abcd'' \<and> cv_ReadChunk 5 0 2 (damage 5 2 ''xy'' s) = (None, s')"
proof -
  obtain s where s: "cv_inv s" "cv_bytes s 5 = Some ''abcd''" using sample_server by fastforce
  obtain res s' where r: "cv_ReadChunk 5 0 2 (damage 5 2 ''xy'' s) = (res, s')" by fastforce
  have "res = None" using damaged_block_never_read [OF s _ _ _ _ _ r] by simp
  then show ?thesis using s(2) r by blast
qed

text \<open>A write behind the end of a chunk computes the checksums of the blocks it writes only.\<close>

lemma sparse_write_recorded:
  assumes inv: "cv_inv s" and content: "cv_bytes s h = Some content" and data: "data \<noteq> []"
    and gap: "length content \<le> unat j * block_size" "(unat j + 1) * block_size \<le> unat offset"
    and fits: "unat offset + length data \<le> 2 ^ 26"
  shows "\<exists>m new. cv_WriteChunk h offset data s = (True, s\<lparr>cv_sums := m\<rparr>) \<and> sg_ok (km_storage m) \<and> km_benign m \<and>
    sg_bytes (km_storage m) h = Some new \<and> length new = unat offset + length data \<and>
    length (recorded m h) = blocks_in (length new) \<and> recorded m h ! unat j = 0 \<and> unat j < blocks_in (length new)"
proof -
  note inv' = cv_invD [OF inv]
  have h: "h \<noteq> 0" using content inv'(6) by auto
  obtain b1 st where st: "sg_WriteChunk h offset data (cv_storage s) = (b1, st)" by fastforce
  note ex = sg_WriteChunk_exact [OF inv'(2) st]
  note res = sg_WriteChunk_result [OF inv'(3) st]
  have b1: "b1" and ben: "sg_benign st" using res(9) inv'(4) content fits by (simp_all add: cv_bytes_def)
  obtain new where new: "sg_bytes st h = Some new" using res(5) content by (auto simp: cv_bytes_def)
  have old_size: "unat (sg_GetChunkSize (cv_storage s) h) = length content"
    using sg_GetChunkSize_bytes [OF inv'(3), of h] content by (simp add: cv_bytes_def)
  have "unat (sg_GetChunkSize st h) = length new" using sg_GetChunkSize_bytes [OF sg_exactD(1) [OF ex], of h] new by simp
  then have lnew: "length new = unat offset + length data" using res(8) b1 data old_size gap by simp
  let ?m = "(cv_sums s)\<lparr>km_storage := st\<rparr>" and ?len = "of_nat (length data) :: 64 word"
  have n: "unat ?len = length data" using fits by (simp add: unat_of_nat)
  then have len0: "?len \<noteq> 0" using data by auto
  have no_wrap: "unat offset + unat ?len < 2 ^ 64" using fits n by simp
  note e = unat_end [OF no_wrap] unat_end_block [OF no_wrap len0]
  let ?first = "offset div kChecksumBlockSize" and ?last = "(offset + ?len - 1) div kChecksumBlockSize"
  have ok: "sg_ok (km_storage ?m)" "sg_bytes (km_storage ?m) h = Some new" "km_benign ?m" using sg_exactD(1) [OF ex] new ben by simp_all
  have pos: "unat offset \<le> unat offset + length data - 1" "0 < length data" using data by (cases data; simp)+
  have range: "unat ?first \<le> unat ?last" using n pos(1) by (simp add: unat_div_block e div_le_mono)
  have "(unat offset + length data - 1) div block_size * block_size \<le> unat offset + length data - 1"
    by (rule div_times_less_eq_dividend)
  then have "(unat offset + length data - 1) div block_size * block_size < length new" using pos lnew by linarith
  then have range2: "unat ?last < blocks_in (length new)" using n by (simp add: unat_div_block e less_blocks_in)
  obtain m1 where m1: "RecomputeBlocks h ?first ?last ?m = (True, m1)" "length (recorded m1 h) = blocks_in (length new)"
      "\<forall>i < blocks_in (length new). recorded m1 h ! i =
        (if unat ?first \<le> i \<and> i \<le> unat ?last then ComputeCRC32 (block_of new i)
         else if i < length (recorded ?m h) then recorded ?m h ! i else 0)"
    using RecomputeBlocks_result [OF ok range range2] by blast
  have t1: "touches h ?m m1" using RecomputeBlocks_touches [OF ok(1,2), of ?first ?last] m1(1) by simp
  let ?m2 = "snd (PersistChecksums h m1)"
  have t2: "touches h ?m ?m2" and rec2: "recorded ?m2 = recorded m1"
    using touches_trans [OF t1 PersistChecksums_result(1)] PersistChecksums_result(2) by blast+
  have "blocks_in (length new) \<le> 2 ^ 60" using lnew fits by (simp add: blocks_in_def)
  then have "fst (PersistChecksums h m1)"
    using t1 ben h m1(2) by (intro PersistChecksums_result(3)) (simp_all add: touches_def)
  moreover have "sg_ChunkExists st h" using stored_nonzero [OF ok(1), of h] ok(2) by simp
  moreover have "unat (sg_GetChunkSize st h) = unat offset + length data"
    using sg_GetChunkSize_bytes [OF ok(1), of h] ok(2) lnew by simp
  ultimately have "UpdateAfterWrite h offset ?len ?m = (True, ?m2)"
    using h len0 m1(1) e(1) n
    by (cases "PersistChecksums h m1") (simp add: UpdateAfterWrite_def Let_def word_less_nat_alt)
  then have w: "cv_WriteChunk h offset data s = (True, s\<lparr>cv_sums := ?m2\<rparr>)"
    using h inv'(1) st b1 data by (simp add: cv_WriteChunk_def on_storage_eq on_sums_eq)
  note k = touches_keeps [OF t2 ok(1)]
  have j: "unat j < blocks_in (length new)" using gap(2) lnew pos by (simp add: less_blocks_in)
  have "unat j < unat ?first" using gap(2) by (simp add: unat_div_block less_eq_div_iff_mult_less_eq flip: Suc_le_eq)
  moreover have "\<not> unat j < length (recorded ?m h)"
    using inv'(5) [of h] content gap(1) by (simp add: sums_of_def less_blocks_in)
  ultimately have "recorded ?m2 h ! unat j = 0" using m1(3) j rec2 by simp
  then show ?thesis
    using w k ok t2 lnew m1(2) rec2 j by (intro exI [of _ ?m2] exI [of _ new]) (simp add: touches_def)
qed

text \<open>A write that leaves a gap spoils the chunk: the blocks of the gap get the checksum 0, whatever they
  contain, so although the write is reported as a success, every read of such a block is refused
  (unless its checksum happens to be 0).\<close>
lemma sparse_write_spoils_gap:
  assumes inv: "cv_inv s" and content: "cv_bytes s h = Some content" and data: "data \<noteq> []"
    and gap: "length content \<le> unat j * block_size" "(unat j + 1) * block_size \<le> unat offset"
    and fits: "unat offset + length data \<le> 64 * 2 ^ 20"
    and r: "cv_WriteChunk h offset data s = (b, s')"
  shows "b \<and> GetChecksum (cv_sums s') h j = Some 0 \<and>
    (\<exists>new. cv_bytes s' h = Some new \<and> length new = unat offset + length data \<and>
      (ComputeCRC32 (block_of new (unat j)) \<noteq> 0 \<longrightarrow>
        (\<forall>n. n \<noteq> 0 \<longrightarrow> fst (cv_ReadChunk h (j * kChecksumBlockSize) n s') = None)))"
proof -
  have h: "h \<noteq> 0" using content cv_invD(6) [OF inv] by auto
  obtain m new where m: "cv_WriteChunk h offset data s = (True, s\<lparr>cv_sums := m\<rparr>)" "sg_ok (km_storage m)" "km_benign m"
      "sg_bytes (km_storage m) h = Some new" "length new = unat offset + length data"
      "length (recorded m h) = blocks_in (length new)" "recorded m h ! unat j = 0" "unat j < blocks_in (length new)"
    using sparse_write_recorded [OF inv content data gap] fits by auto
  then have s': "b" "s' = s\<lparr>cv_sums := m\<rparr>" using r by simp_all
  have "GetChecksum (cv_sums s') h j = Some 0"
    using m(6-8) h by (auto simp: s' GetChecksum_def recorded_def blocks_for_def split: option.splits)
  moreover have "fst (cv_ReadChunk h (j * kChecksumBlockSize) n s') = None"
    if bad: "ComputeCRC32 (block_of new (unat j)) \<noteq> 0" and "n \<noteq> 0" for n
  proof -
    have "unat j * block_size < 2 ^ 64" using gap(2) fits by simp
    then have start: "unat (j * kChecksumBlockSize) = unat j * block_size"
      using unat_mult_lem [of j kChecksumBlockSize] by (simp add: unat_block_size)
    have "0 < unat n" using that(2) by (simp add: unat_gt_0)
    then have "unat j \<le> (unat (j * kChecksumBlockSize) + unat n - 1) div block_size"
      by (simp add: start less_eq_div_iff_mult_less_eq)
    then have "\<not> fst (VerifyChunkRange h (j * kChecksumBlockSize) n m)"
      using VerifyChunkRange_result [OF m(2,4,3,6), of "j * kChecksumBlockSize" n] that m(7)
      by (auto simp: start intro!: exI [of _ "unat j"])
    then show ?thesis by (simp add: cv_ReadChunk_def on_sums_eq s' split: if_splits)
  qed
  ultimately show ?thesis using m(4,5) s'(1) by (auto simp: s' cv_bytes_def)
qed

end
