(* ===== verification/Mutations.thy ===== *)
theory Mutations
  imports Chunkserver
begin

text \<open>
  \<open>src/chunkserver/mutation/\<close>: the primary of a chunk numbers its mutations, every replica applies them in
  the order of the numbers. The propagation function that a caller passes sends a mutation to the
  secondaries: it acts on a world outside the server and reports whether all of them applied it.

  Every function is one step. \<open>mutex_\<close> is held for that long by the functions of the replica; the two primary functions take it
  only to number and apply, or to look at the pending propagations, and \<open>ExecutePrimaryRecordAppend\<close> reads the size of the
  chunk without it. Two of them at a time are not modelled.
\<close>

section \<open>Mutations\<close>

definition FitsChunk :: "mutation \<Rightarrow> bool" where
  "FitsChunk mu =
     (if mu_chunk_handle mu = 0 \<or> mu_offset mu > kChunkSize then False
      else length (mu_data mu) \<le> unat (kChunkSize - mu_offset mu))"

definition mu_IsValid :: "mutation \<Rightarrow> bool" where
  "mu_IsValid mu \<longleftrightarrow> mu_chunk_handle mu \<noteq> 0 \<and> mu_chunk_version mu \<noteq> 0 \<and> mu_mutation_id mu \<noteq> 0 \<and> FitsChunk mu"

section \<open>Numbers\<close>

definition AssignMutationId :: "chunk_handle \<Rightarrow> chunkserver \<Rightarrow> 64 word \<times> chunkserver" where
  "AssignMutationId handle s =
     (if handle = 0 then (0, s)
      else
        let next_id = (case map_of (cv_next_ids s) handle of None \<Rightarrow> 0 | Some n \<Rightarrow> n);
            assigned_id = (if next_id = 0 then 1 else next_id) in
        (assigned_id,
         s\<lparr>cv_next_ids := AList.update handle (if assigned_id = u64_max then 0 else assigned_id + 1) (cv_next_ids s)\<rparr>))"

definition LastAppliedMutationId :: "chunkserver \<Rightarrow> chunk_handle \<Rightarrow> 64 word" where
  "LastAppliedMutationId s handle =
     (if handle = 0 then 0 else case map_of (cv_last_ids s) handle of None \<Rightarrow> 0 | Some n \<Rightarrow> n)"

definition NextMutationId :: "chunkserver \<Rightarrow> chunk_handle \<Rightarrow> 64 word" where
  "NextMutationId s handle =
     (if handle = 0 then 0 else case map_of (cv_next_ids s) handle of None \<Rightarrow> 1 | Some n \<Rightarrow> n)"

definition HasAppliedMutations :: "chunkserver \<Rightarrow> chunk_handle \<Rightarrow> bool" where
  "HasAppliedMutations s handle \<longleftrightarrow> LastAppliedMutationId s handle \<noteq> 0"

definition TrackedChunkCount :: "chunkserver \<Rightarrow> nat" where
  "TrackedChunkCount s = length (cv_last_ids s)"

definition mm_Clear :: "chunkserver \<Rightarrow> chunkserver" where
  "mm_Clear s = s\<lparr>cv_next_ids := [], cv_last_ids := [], cv_pending := []\<rparr>"

section \<open>Applying a mutation\<close>

text \<open>The bookkeeping after the write.\<close>

definition record_applied :: "mutation \<Rightarrow> chunkserver \<Rightarrow> chunkserver" where
  "record_applied mu s =
     (let handle = mu_chunk_handle mu; mid = mu_mutation_id mu;
          next_id = (case map_of (cv_next_ids s) handle of None \<Rightarrow> 0 | Some n \<Rightarrow> n) in
      s\<lparr>cv_last_ids := AList.update handle mid (cv_last_ids s),
        cv_next_ids := AList.update handle
          (if next_id \<le> mid then (if mid = u64_max then 0 else mid + 1) else next_id) (cv_next_ids s)\<rparr>)"

definition ApplyMutationLocked :: "mutation \<Rightarrow> chunkserver \<Rightarrow> bool \<times> chunkserver" where
  "ApplyMutationLocked mu s =
     (if \<not> mu_IsValid mu then (False, s)
      else
        let handle = mu_chunk_handle mu;
            expected_id = (case map_of (cv_last_ids s) handle of None \<Rightarrow> 1 | Some n \<Rightarrow> n + 1) in
        if mu_mutation_id mu \<noteq> expected_id then (False, s)
        else and_then (if \<not> cv_ChunkExists s handle then cv_CreateChunk handle s else (True, s))
          (\<lambda>s. and_then (cv_WriteChunk handle (mu_offset mu) (mu_data mu) s)
            (\<lambda>s. (True, record_applied mu s))))"

definition ApplyMutation :: "mutation \<Rightarrow> chunkserver \<Rightarrow> bool \<times> chunkserver" where
  "ApplyMutation mu s = (if \<not> mu_IsValid mu then (False, s) else ApplyMutationLocked mu s)"

section \<open>The primary\<close>

definition new_mutation :: "chunk_handle \<Rightarrow> chunk_version \<Rightarrow> 64 word \<Rightarrow> 64 word \<Rightarrow> string \<Rightarrow> mutation" where
  "new_mutation handle version mid offset data =
     \<lparr>mu_chunk_handle = handle, mu_chunk_version = version, mu_mutation_id = mid, mu_offset = offset, mu_data = data\<rparr>"

definition CreatePrimaryMutation ::
    "chunk_handle \<Rightarrow> chunk_version \<Rightarrow> 64 word \<Rightarrow> string \<Rightarrow> chunkserver \<Rightarrow> mutation option \<times> chunkserver" where
  "CreatePrimaryMutation handle version offset data s =
     (if handle = 0 \<or> version = 0 \<or> \<not> FitsChunk (new_mutation handle version 0 offset data) then (None, s)
      else case AssignMutationId handle s of
        (mid, s) \<Rightarrow> (if mid = 0 then None else Some (new_mutation handle version mid offset data), s))"

type_synonym 'w propagation = "(mutation \<Rightarrow> 'w \<Rightarrow> bool \<times> 'w) option"

text \<open>A number, and the mutation applied to the primary itself: None where the code returns.\<close>

definition apply_new ::
    "chunk_handle \<Rightarrow> chunk_version \<Rightarrow> 64 word \<Rightarrow> string \<Rightarrow> chunkserver \<Rightarrow> mutation option \<times> chunkserver" where
  "apply_new handle version offset data s =
     (case AssignMutationId handle s of
        (mid, s) \<Rightarrow>
          if mid = 0 then (None, s)
          else
            let mu = new_mutation handle version mid offset data in
            case ApplyMutationLocked mu s of (applied, s) \<Rightarrow> (if applied then Some mu else None, s))"

definition ExecutePrimaryMutation ::
    "chunk_handle \<Rightarrow> chunk_version \<Rightarrow> 64 word \<Rightarrow> string \<Rightarrow> 'w propagation \<Rightarrow> chunkserver \<times> 'w \<Rightarrow> bool \<times> chunkserver \<times> 'w" where
  "ExecutePrimaryMutation handle version offset data propagation sw =
     (case sw of (s, w) \<Rightarrow>
        if handle = 0 \<or> version = 0 \<or> \<not> FitsChunk (new_mutation handle version 0 offset data) then (False, s, w)
        else case apply_new handle version offset data s of
          (None, s) \<Rightarrow> (False, s, w)
        | (Some mu, s) \<Rightarrow>
            (case propagation of
               None \<Rightarrow> (True, s, w)
             | Some f \<Rightarrow> (case f mu w of (ok, w) \<Rightarrow> (ok, s, w))))"

datatype append_status = Success | RetryNextChunk | AppendFailed

record append_result =
  ar_status :: append_status
  ar_offset :: "64 word"
  ar_chunk_size :: "64 word"
  ar_bytes_appended :: nat

definition default_append :: append_result where
  "default_append = \<lparr>ar_status = AppendFailed, ar_offset = 0, ar_chunk_size = 0, ar_bytes_appended = 0\<rparr>"

definition append_status_at :: "append_status \<Rightarrow> chunkserver \<Rightarrow> chunk_handle \<Rightarrow> append_result" where
  "append_status_at status s handle = default_append\<lparr>ar_status := status, ar_chunk_size := cv_GetChunkSize s handle\<rparr>"

definition set_pending :: "chunk_handle \<Rightarrow> mutation \<Rightarrow> chunkserver \<Rightarrow> chunkserver" where
  "set_pending handle mu s = s\<lparr>cv_pending := AList.update handle mu (cv_pending s)\<rparr>"

text \<open>An outstanding mutation is propagated first.\<close>

definition retry_pending ::
    "chunk_handle \<Rightarrow> 'w propagation \<Rightarrow> chunkserver \<times> 'w \<Rightarrow> bool \<times> chunkserver \<times> 'w" where
  "retry_pending handle propagation sw =
     (case sw of (s, w) \<Rightarrow>
        case propagation of
          None \<Rightarrow> (True, s, w)
        | Some f \<Rightarrow>
            (case map_of (cv_pending s) handle of
               None \<Rightarrow> (True, s, w)
             | Some mu \<Rightarrow>
                 (case f mu w of (ok, w) \<Rightarrow>
                    (ok, if ok then s\<lparr>cv_pending := AList.delete handle (cv_pending s)\<rparr> else s, w))))"

text \<open>The chunk is full: the rest of it is filled with zeros and the client is sent to the next chunk.\<close>

definition pad_chunk ::
    "chunk_handle \<Rightarrow> chunk_version \<Rightarrow> 64 word \<Rightarrow> 'w propagation \<Rightarrow> chunkserver \<times> 'w \<Rightarrow> append_result \<times> chunkserver \<times> 'w" where
  "pad_chunk handle version current_size propagation sw =
     (case sw of (s, w) \<Rightarrow>
        let padding_size = kChunkSize - current_size in
        if padding_size = 0 then (append_status_at RetryNextChunk s handle, s, w)
        else case apply_new handle version current_size (replicate (unat padding_size) nul) s of
          (None, s) \<Rightarrow> (default_append, s, w)
        | (Some mu, s) \<Rightarrow>
            (case (case propagation of None \<Rightarrow> (True, w) | Some f \<Rightarrow> f mu w) of
               (True, w) \<Rightarrow> (append_status_at RetryNextChunk s handle, s, w)
             | (False, w) \<Rightarrow>
                 let s = set_pending handle mu s in (append_status_at AppendFailed s handle, s, w)))"

definition append_record ::
    "chunk_handle \<Rightarrow> chunk_version \<Rightarrow> 64 word \<Rightarrow> string \<Rightarrow> 'w propagation \<Rightarrow> chunkserver \<times> 'w \<Rightarrow>
      append_result \<times> chunkserver \<times> 'w" where
  "append_record handle version offset data propagation sw =
     (case sw of (s, w) \<Rightarrow>
        case apply_new handle version offset data s of
          (None, s) \<Rightarrow> (default_append, s, w)
        | (Some mu, s) \<Rightarrow>
            (case (case propagation of None \<Rightarrow> (True, w) | Some f \<Rightarrow> f mu w) of
               (ok, w) \<Rightarrow>
                 let s = (if ok then s else set_pending handle mu s) in
                 (\<lparr>ar_status = (if ok then Success else AppendFailed), ar_offset = offset,
                   ar_chunk_size = cv_GetChunkSize s handle, ar_bytes_appended = length data\<rparr>, s, w)))"

definition ExecutePrimaryRecordAppend ::
    "chunk_handle \<Rightarrow> chunk_version \<Rightarrow> string \<Rightarrow> 'w propagation \<Rightarrow> chunkserver \<times> 'w \<Rightarrow> append_result \<times> chunkserver \<times> 'w" where
  "ExecutePrimaryRecordAppend handle version data propagation sw =
     (case sw of (s, w) \<Rightarrow>
        if handle = 0 \<or> version = 0 \<or> data = [] \<or> length data > unat (kChunkSize div 4) then (default_append, s, w)
        else case (if cv_ChunkExists s handle then (True, s) else cv_CreateChunk handle s) of
          (False, s) \<Rightarrow> (default_append, s, w)
        | (True, s) \<Rightarrow>
            (case retry_pending handle propagation (s, w) of
               (False, s, w) \<Rightarrow> (append_status_at AppendFailed s handle, s, w)
             | (True, s, w) \<Rightarrow>
                 let current_size = cv_GetChunkSize s handle in
                 if current_size > kChunkSize \<or> length data > unat (kChunkSize - current_size)
                 then pad_chunk handle version current_size propagation (s, w)
                 else append_record handle version current_size data propagation (s, w)))"

section \<open>What a replica does with a mutation\<close>

definition contents :: "chunkserver \<Rightarrow> chunk_handle \<Rightarrow> string" where
  "contents s h = (case cv_bytes s h of None \<Rightarrow> [] | Some bytes \<Rightarrow> bytes)"

lemma FitsChunk_bound: "FitsChunk mu \<longleftrightarrow> mu_chunk_handle mu \<noteq> 0 \<and> unat (mu_offset mu) + length (mu_data mu) \<le> 2 ^ 26"
  by (auto simp: FitsChunk_def kChunkSize_def word_less_nat_alt word_le_nat_alt unat_sub not_less)

lemma cv_ChunkExists_bytes: "cv_inv s \<Longrightarrow> cv_ChunkExists s h \<longleftrightarrow> cv_bytes s h \<noteq> None"
  using cv_invD(1,2,6) [of s] sg_exactD(2) [of "cv_storage s" h] by (auto simp: cv_ChunkExists_def cv_bytes_def)

lemma cv_GetChunkSize_bytes:
  assumes "cv_inv s"
  shows "unat (cv_GetChunkSize s h) = length (contents s h)"
proof -
  have "unat (sg_GetChunkSize (cv_storage s) h) = length (contents s h)"
    using sg_GetChunkSize_bytes [OF cv_invD(3) [OF assms], of h] by (simp add: contents_def cv_bytes_def split: option.splits)
  then show ?thesis using cv_invD(1,6) [OF assms] by (cases "h = 0") (simp_all add: cv_GetChunkSize_def contents_def)
qed

lemma length_contents:
  assumes "cv_inv s"
  shows "length (contents s h) \<le> 2 ^ 26"
proof (cases "cv_bytes s h")
  case (Some bytes)
  then obtain c where c: "map_of (sg_chunks (cv_storage s)) h = Some c" "bytes = cf_bytes (sg_disk (cv_storage s)) c"
    by (auto simp: cv_bytes_def sg_bytes_Some)
  note cok = sg_okD [OF cv_invD(3) [OF assms] c(1)]
  show ?thesis using cf_ok_size [OF cok] length_cf_bytes [OF cok] c(2) Some by (simp add: contents_def)
qed (simp add: contents_def)

text \<open>The operations on the chunks leave the tables of the mutations alone, and the other way round.\<close>

definition same_tables :: "chunkserver \<Rightarrow> chunkserver \<Rightarrow> bool" where
  "same_tables s s' \<longleftrightarrow> cv_next_ids s' = cv_next_ids s \<and> cv_last_ids s' = cv_last_ids s \<and> cv_pending s' = cv_pending s"

lemma same_tables_ops:
  "same_tables s (snd (cv_CreateChunk h s))" "same_tables s (snd (cv_WriteChunk h offset data s))"
proof -
  have on: "same_tables s (snd (on_sums f s))" "same_tables s (snd (on_storage g s))" for f :: "checksum_manager \<Rightarrow> 'a \<times> checksum_manager"
    and g :: "chunk_storage \<Rightarrow> 'b \<times> chunk_storage" and s
    by (simp_all add: same_tables_def on_sums_eq on_storage_eq)
  show "same_tables s (snd (cv_CreateChunk h s))"
    by (simp add: cv_CreateChunk_def same_tables_def on_storage_eq)
  show "same_tables s (snd (cv_WriteChunk h offset data s))"
    by (simp add: cv_WriteChunk_def same_tables_def on_storage_eq on_sums_eq and_then_eq)
qed

lemma LastApplied_simps:
  "h \<noteq> 0 \<Longrightarrow> LastAppliedMutationId (record_applied mu s) h =
    (if h = mu_chunk_handle mu then mu_mutation_id mu else LastAppliedMutationId s h)"
  "cv_last_ids s' = cv_last_ids s \<Longrightarrow> LastAppliedMutationId s' = LastAppliedMutationId s"
  by (simp_all add: fun_eq_iff LastAppliedMutationId_def record_applied_def Let_def update_conv')

lemma record_applied_inv: "cv_inv (record_applied mu s) = cv_inv s" "cv_bytes (record_applied mu s) = cv_bytes s"
  by (simp_all add: cv_inv_def cv_bytes_def record_applied_def Let_def)

lemma ApplyMutationLocked_result:
  assumes inv: "cv_inv s" and r: "ApplyMutationLocked mu s = (b, s')" and h: "h = mu_chunk_handle mu"
    and dense: "mu_IsValid mu \<Longrightarrow> mu_mutation_id mu = LastAppliedMutationId s h + 1 \<Longrightarrow> unat (mu_offset mu) \<le> length (contents s h)"
  shows "cv_inv s'" and "b \<longleftrightarrow> mu_IsValid mu \<and> mu_mutation_id mu = LastAppliedMutationId s h + 1"
    and "\<not> b \<Longrightarrow> s' = s"
    and "b \<Longrightarrow> cv_bytes s' = (cv_bytes s)(h \<mapsto> overlay (contents s h) (unat (mu_offset mu)) (mu_data mu))"
    and "b \<Longrightarrow> \<exists>s1. same_tables s s1 \<and> s' = record_applied mu s1"
proof -
  have "cv_inv s' \<and> (b \<longleftrightarrow> mu_IsValid mu \<and> mu_mutation_id mu = LastAppliedMutationId s h + 1) \<and> (\<not> b \<longrightarrow> s' = s) \<and>
    (b \<longrightarrow> cv_bytes s' = (cv_bytes s)(h \<mapsto> overlay (contents s h) (unat (mu_offset mu)) (mu_data mu)) \<and>
      (\<exists>s1. same_tables s s1 \<and> s' = record_applied mu s1))"
  proof (cases "mu_IsValid mu \<and> mu_mutation_id mu = LastAppliedMutationId s h + 1")
    case False
    then have "(b, s') = (False, s)"
      using r h by (auto simp: ApplyMutationLocked_def LastAppliedMutationId_def mu_IsValid_def Let_def split: option.splits if_splits)
    then show ?thesis using inv False by simp
  next
    case True
    then have valid: "mu_IsValid mu" and h0: "h \<noteq> 0" and fits: "unat (mu_offset mu) + length (mu_data mu) \<le> 2 ^ 26"
      using h by (auto simp: mu_IsValid_def FitsChunk_bound)
    obtain b1 s1 where s1: "(if \<not> cv_ChunkExists s h then cv_CreateChunk h s else (True, s)) = (b1, s1)" by fastforce
    have step1: "b1 \<and> cv_inv s1 \<and> cv_bytes s1 = (cv_bytes s)(h \<mapsto> contents s h) \<and> same_tables s s1"
    proof (cases "cv_bytes s h")
      case None
      then have "cv_CreateChunk h s = (b1, s1)" using s1 cv_ChunkExists_bytes [OF inv] by simp
      then show ?thesis
        using cv_CreateChunk_result [OF inv] None h0 same_tables_ops(1) [of s h] by (auto simp: contents_def)
    next
      case (Some bytes)
      then show ?thesis
        using s1 cv_ChunkExists_bytes [OF inv, of h] inv by (auto simp: contents_def same_tables_def fun_eq_iff)
    qed
    obtain b2 s2 where s2: "cv_WriteChunk h (mu_offset mu) (mu_data mu) s1 = (b2, s2)" by fastforce
    have "unat (mu_offset mu) \<le> length content" if "cv_bytes s1 h = Some content" for content
      using dense True step1 that by simp
    from cv_WriteChunk_result [OF _ s2 this] step1 fits have step2: "b2" "cv_inv s2"
        "cv_bytes s2 = (cv_bytes s)(h \<mapsto> overlay (contents s h) (unat (mu_offset mu)) (mu_data mu))" by simp_all
    have tables: "same_tables s s2" using same_tables_ops(2) [where s = s1] s2 step1 unfolding same_tables_def by (metis snd_conv)
    have expected: "mu_mutation_id mu = (case map_of (cv_last_ids s) h of None \<Rightarrow> 1 | Some n \<Rightarrow> n + 1)"
      using True h0 by (simp add: LastAppliedMutationId_def split: option.splits)
    have "ApplyMutationLocked mu s = and_then (b1, s1) (\<lambda>s. and_then (cv_WriteChunk h (mu_offset mu) (mu_data mu) s) (\<lambda>s. (True, record_applied mu s)))"
      unfolding s1 [symmetric] using valid expected unfolding h
      by (simp add: ApplyMutationLocked_def Let_def split del: if_split)
    then have "(b, s') = (True, record_applied mu s2)" using r s2 step1 step2(1) by simp
    then show ?thesis using True step2 tables record_applied_inv [of mu s2] by auto
  qed
  then show "cv_inv s'" "b \<longleftrightarrow> mu_IsValid mu \<and> mu_mutation_id mu = LastAppliedMutationId s h + 1" "\<not> b \<Longrightarrow> s' = s"
    "b \<Longrightarrow> cv_bytes s' = (cv_bytes s)(h \<mapsto> overlay (contents s h) (unat (mu_offset mu)) (mu_data mu))"
    "b \<Longrightarrow> \<exists>s1. same_tables s s1 \<and> s' = record_applied mu s1"
    by blast+
qed

lemma ApplyMutation_eq: "ApplyMutation mu s = ApplyMutationLocked mu s"
  by (simp add: ApplyMutation_def ApplyMutationLocked_def)

section \<open>Replicas\<close>

definition contents_after :: "mutation list \<Rightarrow> string" where
  "contents_after mus = foldl (\<lambda>c mu. overlay c (unat (mu_offset mu)) (mu_data mu)) [] mus"

text \<open>The mutations of one chunk in the order of the primary, none of them leaving a gap.\<close>

definition numbered_mutations :: "chunk_handle \<Rightarrow> mutation list \<Rightarrow> bool" where
  "numbered_mutations h mus \<longleftrightarrow>
     (\<forall>i < length mus. mu_chunk_handle (mus ! i) = h \<and> mu_IsValid (mus ! i) \<and> unat (mu_mutation_id (mus ! i)) = Suc i \<and>
        unat (mu_offset (mus ! i)) \<le> length (contents_after (take i mus)))"

definition holds_prefix :: "chunk_handle \<Rightarrow> mutation list \<Rightarrow> chunkserver \<Rightarrow> bool" where
  "holds_prefix h mus s \<longleftrightarrow> cv_inv s \<and> unat (LastAppliedMutationId s h) \<le> length mus \<and>
     contents s h = contents_after (take (unat (LastAppliedMutationId s h)) mus)"

lemma ApplyMutation_prefix:
  assumes num: "numbered_mutations h mus" and mu: "mu \<in> set mus" and s: "holds_prefix h mus s"
  shows "holds_prefix h mus (snd (ApplyMutation mu s))"
proof -
  let ?k = "unat (LastAppliedMutationId s h)"
  obtain i where i: "i < length mus" "mu = mus ! i" using mu by (auto simp: in_set_conv_nth)
  then have m: "mu_chunk_handle mu = h" "mu_IsValid mu" "unat (mu_mutation_id mu) = Suc i"
      "unat (mu_offset mu) \<le> length (contents_after (take i mus))"
    using num by (auto simp: numbered_mutations_def)
  have h: "h \<noteq> 0" using m(1,2) by (auto simp: mu_IsValid_def)
  have next_one: "i = ?k" if "mu_mutation_id mu = LastAppliedMutationId s h + 1"
  proof -
    have "LastAppliedMutationId s h + 1 \<noteq> 0" using that m(3) by auto
    then have "unat (LastAppliedMutationId s h + 1) = ?k + 1" using unat_succ by simp
    then show ?thesis using that m(3) by simp
  qed
  obtain b s' where r: "ApplyMutationLocked mu s = (b, s')" by fastforce
  have "unat (mu_offset mu) \<le> length (contents s h)" if "mu_mutation_id mu = LastAppliedMutationId s h + 1"
    using m(4) next_one [OF that] s by (simp add: holds_prefix_def)
  note res = ApplyMutationLocked_result [OF _ r m(1) [symmetric] this]
  have inv: "cv_inv s" using s by (simp add: holds_prefix_def)
  show ?thesis
  proof (cases b)
    case True
    then have nxt: "mu_mutation_id mu = LastAppliedMutationId s h + 1" using res(2) inv by blast
    obtain s1 where "same_tables s s1" "s' = record_applied mu s1" using res(5) inv True by blast
    then have last: "LastAppliedMutationId s' h = mu_mutation_id mu" using LastApplied_simps(1) [OF h] m(1) by simp
    have "contents s' h = overlay (contents s h) (unat (mu_offset mu)) (mu_data mu)"
      using res(4) inv True by (simp add: contents_def)
    also have "\<dots> = contents_after (take (Suc i) mus)"
      using s next_one [OF nxt] i by (simp add: holds_prefix_def contents_after_def take_Suc_conv_app_nth)
    finally show ?thesis
      using res(1) inv last m(3) i(1) r by (simp add: holds_prefix_def ApplyMutation_eq)
  next
    case False
    then show ?thesis using res(3) inv s r by (simp add: ApplyMutation_eq)
  qed
qed

text \<open>C16: A replica that starts with an empty chunk and receives the mutations of the primary in any order,
  some of them lost, some of them repeatedly, holds at every moment exactly the result of the first
  \<open>k\<close> of them, where \<open>k\<close> is its last applied number. So any two replicas with the same number hold the
  same bytes.\<close>
theorem replica_holds_prefix:
  assumes "cv_inv s" and "contents s h = []" and "LastAppliedMutationId s h = 0"
    and "numbered_mutations h mus" and "set received \<subseteq> set mus"
    and "s' = fold (\<lambda>mu s. snd (ApplyMutation mu s)) received s"
  shows "\<exists>k \<le> length mus. unat (LastAppliedMutationId s' h) = k \<and> contents s' h = contents_after (take k mus)"
proof -
  have "holds_prefix h mus s" using assms(1-3) by (simp add: holds_prefix_def contents_after_def)
  then have "holds_prefix h mus (fold (\<lambda>mu s. snd (ApplyMutation mu s)) received s)"
    using assms(5) by (induction received arbitrary: s) (simp_all add: ApplyMutation_prefix [OF assms(4)])
  then show ?thesis using assms(6) by (auto simp: holds_prefix_def)
qed

definition sample_mutations :: "mutation list" where
  "sample_mutations = [new_mutation 9 1 1 0 ''abc'', new_mutation 9 1 2 1 ''xy'', new_mutation 9 1 3 3 ''z'']"

theorem replica_holds_prefix_witness:
  "\<exists>s. LastAppliedMutationId s 9 = 0 \<and> (let s' = fold (\<lambda>mu s. snd (ApplyMutation mu s))
      [sample_mutations ! 0, sample_mutations ! 2, sample_mutations ! 1, sample_mutations ! 1] s in
    \<exists>k \<le> 3. unat (LastAppliedMutationId s' 9) = k \<and> contents s' 9 = contents_after (take k sample_mutations))"
proof -
  obtain s where s: "cv_inv s" "cv_bytes s = [5 \<mapsto> ''abcd'']" using sample_server by fastforce
  let ?s = "mm_Clear s"
  have inv: "cv_inv ?s" "contents ?s 9 = []" "LastAppliedMutationId ?s 9 = 0"
    using cv_inv_tables [of ?s s] s by (simp_all add: mm_Clear_def contents_def LastAppliedMutationId_def)
  have three: "(\<forall>i < length [a, b, c]. P i) \<longleftrightarrow> P 0 \<and> P 1 \<and> P 2" for P and a b c :: mutation
    by (auto simp: less_Suc_eq numeral_2_eq_2)
  have num: "numbered_mutations 9 sample_mutations"
    unfolding numbered_mutations_def sample_mutations_def three
    by (simp add: new_mutation_def mu_IsValid_def FitsChunk_bound contents_after_def overlay_def)
  let ?received = "[sample_mutations ! 0, sample_mutations ! 2, sample_mutations ! 1, sample_mutations ! 1]"
  have "set ?received \<subseteq> set sample_mutations" by (simp add: sample_mutations_def)
  from replica_holds_prefix [OF inv num this refl] show ?thesis
    using inv(3) by (intro exI [of _ ?s]) (simp add: sample_mutations_def Let_def)
qed

section \<open>The primary\<close>

lemma AssignMutationId_result:
  assumes "h \<noteq> 0" and "AssignMutationId h s = (mid, s1)"
  shows "mid \<noteq> 0" "mid = (if NextMutationId s h = 0 then 1 else NextMutationId s h)"
    and "cv_sums s1 = cv_sums s" "cv_initialized s1 = cv_initialized s" "cv_last_ids s1 = cv_last_ids s" "cv_pending s1 = cv_pending s"
    and "NextMutationId s1 h = (if mid = u64_max then 0 else mid + 1)"
  using assms by (auto simp: AssignMutationId_def NextMutationId_def Let_def update_conv' split: option.splits if_splits)

text \<open>The number that the next mutation of the chunk gets is the one the server expects.\<close>

definition in_step :: "chunkserver \<Rightarrow> chunk_handle \<Rightarrow> bool" where
  "in_step s h \<longleftrightarrow> (if NextMutationId s h = 0 then 1 else NextMutationId s h) = LastAppliedMutationId s h + 1"

lemma contents_other: "cv_bytes s' = (cv_bytes s)(h \<mapsto> c) \<Longrightarrow> contents s' g = (if g = h then c else contents s g)"
  by (simp add: contents_def)

lemma apply_new_result:
  assumes inv: "cv_inv s" and h: "h \<noteq> 0" and v: "version \<noteq> 0"
    and fits: "unat offset + length data \<le> 2 ^ 26" and dense: "unat offset \<le> length (contents s h)"
    and r: "apply_new h version offset data s = (res, s')"
  shows "cv_inv s'" and "res \<noteq> None \<longleftrightarrow> in_step s h"
    and "cv_bytes s' = (if res \<noteq> None then (cv_bytes s)(h \<mapsto> overlay (contents s h) (unat offset) data) else cv_bytes s)"
    and "res = Some mu \<Longrightarrow> mu = new_mutation h version (LastAppliedMutationId s h + 1) offset data"
    and "cv_pending s' = cv_pending s"
proof -
  obtain mid s1 where a: "AssignMutationId h s = (mid, s1)" by fastforce
  note assign = AssignMutationId_result [OF h a]
  let ?mu = "new_mutation h version mid offset data"
  obtain b s2 where b: "ApplyMutationLocked ?mu s1 = (b, s2)" by fastforce
  have inv1: "cv_inv s1" "cv_bytes s1 = cv_bytes s" using cv_inv_tables [of s1 s] assign(3,4) inv by simp_all
  have c1: "contents s1 = contents s" using inv1(2) by (simp add: fun_eq_iff contents_def)
  have last1: "LastAppliedMutationId s1 = LastAppliedMutationId s" by (rule LastApplied_simps(2) [OF assign(5)])
  have valid: "mu_IsValid ?mu" using h v fits assign(1) by (simp add: mu_IsValid_def new_mutation_def FitsChunk_bound)
  have fields: "h = mu_chunk_handle ?mu" "mu_mutation_id ?mu = mid" "mu_offset ?mu = offset" "mu_data ?mu = data"
    by (simp_all add: new_mutation_def)
  have "unat (mu_offset ?mu) \<le> length (contents s1 h)" using dense c1 fields by simp
  note res = ApplyMutationLocked_result [OF inv1(1) b fields(1) this]
  have r': "res = (if b then Some ?mu else None)" "s' = s2"
    using r a b assign(1) by (simp_all add: apply_new_def Let_def)
  show "cv_inv s'" using res(1) r'(2) by simp
  have step: "b \<longleftrightarrow> in_step s h" using res(2) valid fields(2) assign(2) last1 by (simp add: in_step_def)
  then show "res \<noteq> None \<longleftrightarrow> in_step s h" using r'(1) by simp
  show "cv_bytes s' = (if res \<noteq> None then (cv_bytes s)(h \<mapsto> overlay (contents s h) (unat offset) data) else cv_bytes s)"
    using res(3,4) r' inv1(2) c1 fields by (cases b) simp_all
  show "res = Some mu \<Longrightarrow> mu = new_mutation h version (LastAppliedMutationId s h + 1) offset data"
    using r'(1) res(2) last1 fields(2) by (auto split: if_splits)
  show "cv_pending s' = cv_pending s"
  proof (cases b)
    case True
    then obtain s3 where "same_tables s1 s3" "s2 = record_applied ?mu s3" using res(5) by blast
    then show ?thesis using r'(2) assign(6) by (simp add: same_tables_def record_applied_def Let_def)
  qed (use r'(2) assign(6) res(3) in simp)
qed

lemma pending_updates:
  "cv_inv (s\<lparr>cv_pending := p\<rparr>) = cv_inv s" "cv_bytes (s\<lparr>cv_pending := p\<rparr>) = cv_bytes s"
  "contents (s\<lparr>cv_pending := p\<rparr>) = contents s" "cv_GetChunkSize (s\<lparr>cv_pending := p\<rparr>) = cv_GetChunkSize s"
  by (simp_all add: fun_eq_iff cv_inv_def cv_bytes_def contents_def cv_GetChunkSize_def)

lemma overlay_end: "overlay c (length c) data = c @ data"
  by (simp add: overlay_def)

text \<open>The contents of a chunk after a record append: unchanged, with the record, or filled up with zeros.\<close>

definition filled :: "string \<Rightarrow> string" where
  "filled c = c @ replicate (64 * 2 ^ 20 - length c) nul"

definition appended_or_filled :: "bool \<Rightarrow> chunk_handle \<Rightarrow> string \<Rightarrow> chunkserver \<Rightarrow> append_result \<times> chunkserver \<times> 'w \<Rightarrow> bool" where
  "appended_or_filled live h data s r \<longleftrightarrow> (case r of (res, s', w') \<Rightarrow> cv_inv s' \<and> (\<forall>g. g \<noteq> h \<longrightarrow> contents s' g = contents s g) \<and>
     (case ar_status res of
        Success \<Rightarrow> unat (ar_offset res) = length (contents s h) \<and> contents s' h = contents s h @ data \<and>
          unat (ar_chunk_size res) = length (contents s h) + length data
      | RetryNextChunk \<Rightarrow> 64 * 2 ^ 20 < length (contents s h) + length data \<and> contents s' h = filled (contents s h)
      | AppendFailed \<Rightarrow> \<not> live \<and> contents s' h \<in> {contents s h, contents s h @ data, filled (contents s h)}))"

lemma append_record_result:
  assumes inv: "cv_inv s" and h: "h \<noteq> 0" and v: "version \<noteq> 0"
    and fits: "length (contents s h) + length data \<le> 2 ^ 26" and offset: "unat offset = length (contents s h)"
  shows "appended_or_filled (propagation = None \<and> in_step s h) h data s (append_record h version offset data propagation (s, w))"
proof -
  obtain res s1 where r: "apply_new h version offset data s = (res, s1)" by fastforce
  have "unat offset + length data \<le> 2 ^ 26" "unat offset \<le> length (contents s h)" using fits offset by simp_all
  note new = apply_new_result [OF inv h v this r]
  show ?thesis
  proof (cases res)
    case None
    then have "contents s1 = contents s" using new(3) by (simp add: fun_eq_iff contents_def)
    then show ?thesis using r None new(1,2) by (simp add: append_record_def appended_or_filled_def default_append_def)
  next
    case (Some mu)
    have c: "contents s1 g = (if g = h then contents s h @ data else contents s g)" for g
      using new(3) Some contents_other [of s1 s h] offset overlay_end [of "contents s h" data] by simp
    have "unat (cv_GetChunkSize s1 h) = length (contents s h) + length data" using cv_GetChunkSize_bytes [OF new(1), of h] c by simp
    then show ?thesis
      using r Some new(1) c offset
      by (simp add: append_record_def appended_or_filled_def set_pending_def pending_updates Let_def split: prod.splits option.splits)
  qed
qed

lemma pad_chunk_result:
  assumes inv: "cv_inv s" and h: "h \<noteq> 0" and v: "version \<noteq> 0"
    and full: "2 ^ 26 < length (contents s h) + length data" and offset: "unat offset = length (contents s h)"
  shows "appended_or_filled (propagation = None \<and> in_step s h) h data s (pad_chunk h version offset propagation (s, w))"
proof -
  have le: "unat offset \<le> 2 ^ 26" using length_contents [OF inv, of h] offset by simp
  then have pad: "unat (kChunkSize - offset) = 2 ^ 26 - length (contents s h)"
    using offset by (simp add: kChunkSize_def unat_sub word_le_nat_alt)
  show ?thesis
  proof (cases "kChunkSize - offset = 0")
    case True
    then have "filled (contents s h) = contents s h" using pad by (simp add: filled_def)
    then show ?thesis
      using True inv full by (simp add: pad_chunk_def appended_or_filled_def append_status_at_def default_append_def)
  next
    case False
    let ?zeros = "replicate (unat (kChunkSize - offset)) nul"
    obtain res s1 where r: "apply_new h version offset ?zeros s = (res, s1)" by fastforce
    have "unat offset + length ?zeros \<le> 2 ^ 26" "unat offset \<le> length (contents s h)" using offset pad le by simp_all
    note new = apply_new_result [OF inv h v this r]
    show ?thesis
    proof (cases res)
      case None
      then have "contents s1 = contents s" using new(3) by (simp add: fun_eq_iff contents_def)
      then show ?thesis using r None new(1,2) False by (simp add: pad_chunk_def appended_or_filled_def default_append_def Let_def)
    next
      case (Some mu)
      have c: "contents s1 g = (if g = h then filled (contents s h) else contents s g)" for g
        using new(3) Some contents_other [of s1 s h] offset overlay_end [of "contents s h" ?zeros] pad by (simp add: filled_def)
      show ?thesis
        using r Some new(1) c full False
        by (simp add: pad_chunk_def appended_or_filled_def append_status_at_def default_append_def set_pending_def pending_updates
            Let_def split: prod.splits bool.splits option.splits)
    qed
  qed
qed

text \<open>C17: Record append puts a record of at most 16 MiB whole at the end of the chunk, at the offset it reports, or
  fills the rest of a chunk that is too full with zeros up to exactly 64 MiB and sends the client to the
  next chunk, or fails; other chunks keep their contents, whatever the propagation function answers. So a
  record never straddles two chunks and earlier contents are never overwritten. (One call at a time: the code
  reads the size of the chunk before it takes the mutex.)\<close>
theorem record_append_result:
  assumes "cv_inv s" and "h \<noteq> 0" and "version \<noteq> 0" and "data \<noteq> []" and "length data \<le> 16 * 2 ^ 20"
    and "ExecutePrimaryRecordAppend h version data propagation (s, w) = (res, s', w')"
  shows "(\<forall>g. g \<noteq> h \<longrightarrow> contents s' g = contents s g) \<and>
    (case ar_status res of
       Success \<Rightarrow> unat (ar_offset res) = length (contents s h) \<and> contents s' h = contents s h @ data \<and>
         unat (ar_chunk_size res) = length (contents s h) + length data \<and> length (contents s' h) \<le> 64 * 2 ^ 20
     | RetryNextChunk \<Rightarrow> 64 * 2 ^ 20 < length (contents s h) + length data \<and> contents s' h = filled (contents s h)
     | AppendFailed \<Rightarrow> \<not> (propagation = None \<and> in_step s h) \<and>
         contents s' h \<in> {contents s h, contents s h @ data, filled (contents s h)})"
proof -
  have quarter: "unat (kChunkSize div 4) = 16 * 2 ^ 20" by (simp add: kChunkSize_def unat_div)
  obtain b1 s1 where s1: "(if cv_ChunkExists s h then (True, s) else cv_CreateChunk h s) = (b1, s1)" by fastforce
  have step1: "b1 \<and> cv_inv s1 \<and> contents s1 = contents s \<and> same_tables s s1"
  proof (cases "cv_bytes s h")
    case None
    then have "cv_CreateChunk h s = (b1, s1)"
      using s1 cv_ChunkExists_bytes [OF assms(1), of h] by simp
    from cv_CreateChunk_result [OF assms(1) this] show ?thesis
      using None assms(2) same_tables_ops(1) [of s h] \<open>cv_CreateChunk h s = (b1, s1)\<close> by (auto simp: contents_def fun_eq_iff)
  next
    case (Some bytes)
    then show ?thesis using s1 cv_ChunkExists_bytes [OF assms(1), of h] assms(1) by (simp add: same_tables_def)
  qed
  obtain b2 s2 w2 where s2: "retry_pending h propagation (s1, w) = (b2, s2, w2)" by (metis prod.exhaust)
  have step2: "cv_inv s2" "contents s2 = contents s" and number: "in_step s2 h = in_step s h" and retried: "propagation = None \<Longrightarrow> b2"
    using s2 step1 by (auto simp: retry_pending_def pending_updates in_step_def NextMutationId_def LastAppliedMutationId_def
        same_tables_def split: option.splits prod.splits if_splits)
  have eq: "ExecutePrimaryRecordAppend h version data propagation (s, w) =
      (if \<not> b2 then (append_status_at AppendFailed s2 h, s2, w2)
       else if cv_GetChunkSize s2 h > kChunkSize \<or> length data > unat (kChunkSize - cv_GetChunkSize s2 h)
       then pad_chunk h version (cv_GetChunkSize s2 h) propagation (s2, w2)
       else append_record h version (cv_GetChunkSize s2 h) data propagation (s2, w2))"
    using assms(2-5) quarter s1 step1 s2 unfolding ExecutePrimaryRecordAppend_def by (cases b2) (simp_all add: Let_def)
  have size: "unat (cv_GetChunkSize s2 h) = length (contents s2 h)" by (rule cv_GetChunkSize_bytes [OF step2(1)])
  have room: "cv_GetChunkSize s2 h > kChunkSize \<or> length data > unat (kChunkSize - cv_GetChunkSize s2 h) \<longleftrightarrow>
      2 ^ 26 < length (contents s2 h) + length data"
    using size length_contents [OF step2(1), of h] by (auto simp: kChunkSize_def word_less_nat_alt word_le_nat_alt unat_sub)
  consider "\<not> b2" | "b2" "2 ^ 26 < length (contents s2 h) + length data" | "b2" "length (contents s2 h) + length data \<le> 2 ^ 26"
    by linarith
  then have "appended_or_filled (propagation = None \<and> in_step s h) h data s2 (ExecutePrimaryRecordAppend h version data propagation (s, w))"
  proof cases
    case 1
    then show ?thesis using eq step2 retried by (auto simp: appended_or_filled_def append_status_at_def default_append_def)
  next
    case 2
    then show ?thesis using eq room number pad_chunk_result [OF step2(1) assms(2,3) 2(2) size] by simp
  next
    case 3
    then have "\<not> 2 ^ 26 < length (contents s2 h) + length data" by simp
    then show ?thesis using eq room number 3 append_record_result [OF step2(1) assms(2,3) 3(2) size] by simp
  qed
  moreover have "length (contents s' h) \<le> 64 * 2 ^ 20" if "cv_inv s'" using length_contents [OF that, of h] by simp
  ultimately show ?thesis
    using assms(6) step2(2) by (simp add: appended_or_filled_def split: append_status.splits)
qed

theorem record_append_result_witness:
  "\<exists>s :: chunkserver. contents s 5 = ''abcd'' \<and>
     (case ExecutePrimaryRecordAppend 5 1 ''ef'' None (s, ()) of (res, s', _) \<Rightarrow>
        ar_status res = Success \<and> contents s' 5 = ''abcdef'')"
proof -
  obtain s0 where s0: "cv_inv s0" "cv_bytes s0 = [5 \<mapsto> ''abcd'']" using sample_server by blast
  let ?s = "mm_Clear s0"
  have s: "cv_inv ?s" "contents ?s 5 = ''abcd''" "in_step ?s 5"
    using cv_inv_tables [of ?s s0] s0
    by (simp_all add: mm_Clear_def contents_def in_step_def NextMutationId_def LastAppliedMutationId_def)
  obtain res s' w' where r: "ExecutePrimaryRecordAppend 5 1 ''ef'' None (?s, ()) = (res, s', w' :: unit)" by (metis prod.exhaust)
  show ?thesis
    using record_append_result [OF s(1) _ _ _ _ r] s(2,3) r by (intro exI [of _ ?s]) (auto split: append_status.splits)
qed

section \<open>A number that is used up\<close>

definition skipped :: "chunkserver \<Rightarrow> chunk_handle \<Rightarrow> bool" where
  "skipped s h \<longleftrightarrow> unat (LastAppliedMutationId s h) + 1 < unat (NextMutationId s h)"

lemma apply_new_skipped:
  assumes h: "h \<noteq> 0" and skip: "skipped s h" and room: "unat (NextMutationId s h) + 1 < 2 ^ 64"
    and r: "apply_new h version offset data s = (res, s')"
  shows "res = None \<and> cv_sums s' = cv_sums s \<and> skipped s' h \<and> unat (NextMutationId s' h) = unat (NextMutationId s h) + 1"
proof -
  obtain mid s1 where a: "AssignMutationId h s = (mid, s1)" by fastforce
  note assign = AssignMutationId_result [OF h a]
  have "NextMutationId s h \<noteq> 0" using skip by (auto simp: skipped_def)
  then have mid: "mid = NextMutationId s h" using assign(2) by simp
  have last: "LastAppliedMutationId s1 = LastAppliedMutationId s" by (rule LastApplied_simps(2) [OF assign(5)])
  have "mid \<noteq> u64_max" using room mid by (auto simp: unat_u64_max)
  then have nxt: "NextMutationId s1 h = mid + 1" using assign(7) by simp
  have succ: "unat (mid + 1) = unat mid + 1" using room mid unat_add_lem [of mid 1] by simp
  have "unat mid \<noteq> unat (LastAppliedMutationId s1 h + 1)"
    using skip mid last unat_plus_if' [of "LastAppliedMutationId s h" 1] by (auto simp: skipped_def)
  then have "mid \<noteq> LastAppliedMutationId s1 h + 1" by auto
  then have "ApplyMutationLocked (new_mutation h version mid offset data) s1 = (False, s1)"
    using h by (auto simp: ApplyMutationLocked_def new_mutation_def LastAppliedMutationId_def Let_def split: option.splits)
  then have "res = None" "s' = s1" using r a assign(1) by (simp_all add: apply_new_def Let_def)
  then show ?thesis using assign(3) skip last nxt succ mid by (simp add: skipped_def)
qed

lemma failed_write_skips:
  assumes h: "h \<noteq> 0" and step: "in_step s h" and room: "unat (LastAppliedMutationId s h) + 2 < 2 ^ 64"
    and r: "apply_new h version offset data s = (None, s')"
  shows "skipped s' h \<and> unat (NextMutationId s' h) = unat (LastAppliedMutationId s h) + 2"
proof -
  obtain mid s1 where a: "AssignMutationId h s = (mid, s1)" by fastforce
  note assign = AssignMutationId_result [OF h a]
  let ?mu = "new_mutation h version mid offset data" and ?last = "LastAppliedMutationId s h"
  have last: "unat (?last + 1) = unat ?last + 1" "unat (?last + 1 + 1) = unat ?last + 2"
    using room unat_add_lem [of ?last 1] unat_add_lem [of "?last + 1" 1] by simp_all
  have mid: "mid = ?last + 1" using assign(2) step by (simp add: in_step_def)
  have "mid \<noteq> u64_max"
  proof
    assume "mid = u64_max"
    then have "unat (?last + 1) = 2 ^ 64 - 1" using mid by (simp only: unat_u64_max)
    then show False using last(1) room by simp
  qed
  then have nxt: "unat (NextMutationId s1 h) = unat ?last + 2" using assign(7) mid last(2) by simp
  obtain b s2 where b: "ApplyMutationLocked ?mu s1 = (b, s2)" by fastforce
  have fail: "\<not> b" "s' = s2" using r a b assign(1) by (auto simp: apply_new_def Let_def split: if_splits)
  have "same_tables s1 s2"
  proof -
    obtain b3 s3 where s3: "(if \<not> cv_ChunkExists s1 h then cv_CreateChunk h s1 else (True, s1)) = (b3, s3)" by fastforce
    have t3: "same_tables s1 s3" using s3 same_tables_ops(1) [of s1 h] by (auto simp: same_tables_def split: if_splits)
    obtain b4 s4 where s4: "cv_WriteChunk h offset data s3 = (b4, s4)" by fastforce
    have t4: "same_tables s1 s4" using t3 same_tables_ops(2) [where s = s3] s4 unfolding same_tables_def by (metis snd_conv)
    have "(b, s2) = (if \<not> mu_IsValid ?mu \<or> mid \<noteq> (case map_of (cv_last_ids s1) h of None \<Rightarrow> 1 | Some n \<Rightarrow> n + 1) then (False, s1)
        else and_then (b3, s3) (\<lambda>s. and_then (cv_WriteChunk h offset data s) (\<lambda>s. (True, record_applied ?mu s))))"
      using b unfolding s3 [symmetric] by (simp add: ApplyMutationLocked_def Let_def new_mutation_def split del: if_split split: if_split_asm)
    then show ?thesis using fail(1) t3 t4 s4 by (cases b3; cases b4) (auto simp: same_tables_def split: if_splits)
  qed
  then have "LastAppliedMutationId s' = LastAppliedMutationId s" "NextMutationId s' = NextMutationId s1"
    using fail(2) assign(5) by (simp_all add: fun_eq_iff same_tables_def LastAppliedMutationId_def NextMutationId_def)
  then show ?thesis using nxt by (simp add: skipped_def)
qed

lemma skipped_requests_fail:
  "h \<noteq> 0 \<Longrightarrow> skipped s h \<Longrightarrow> unat (NextMutationId s h) + length requests < 2 ^ 64 \<Longrightarrow>
    outcomes (\<lambda>(version, offset, data). ExecutePrimaryMutation h version offset data propagation) requests (s, w) = (rs, s', w') \<Longrightarrow>
    set rs \<subseteq> {False} \<and> cv_sums s' = cv_sums s \<and> w' = w"
proof (induction requests arbitrary: s rs)
  case (Cons request requests)
  obtain version offset data where req: "request = (version, offset, data)" by (metis prod.exhaust)
  obtain res s1 where a: "apply_new h version offset data s = (res, s1)" by fastforce
  have skip: "res = None \<and> cv_sums s1 = cv_sums s \<and> skipped s1 h \<and> unat (NextMutationId s1 h) = unat (NextMutationId s h) + 1"
    using Cons.prems(2,3) by (intro apply_new_skipped [OF Cons.prems(1) _ _ a]) simp_all
  let ?s = "if version = 0 \<or> \<not> FitsChunk (new_mutation h version 0 offset data) then s else s1"
  have one: "ExecutePrimaryMutation h version offset data propagation (s, w) = (False, ?s, w)"
    using a skip Cons.prems(1) by (auto simp: ExecutePrimaryMutation_def)
  obtain rs1 where o: "outcomes (\<lambda>(version, offset, data). ExecutePrimaryMutation h version offset data propagation)
      requests (?s, w) = (rs1, s', w')" "rs = False # rs1"
    using Cons.prems(4) one by (auto simp: req split: prod.splits)
  have "skipped ?s h" "unat (NextMutationId ?s h) + length requests < 2 ^ 64" using skip Cons.prems(2,3) by auto
  from Cons.IH [OF Cons.prems(1) this o(1)] show ?case using o(2) skip by auto
qed auto

text \<open>C33: One local write that fails blocks the chunk on its primary: the number it got is used up although
  the mutation was not applied, so every later mutation of the chunk is refused, valid or not, and
  nothing is written or propagated any more, even when the disk works again.\<close>
theorem failed_write_blocks_chunk:
  assumes "h \<noteq> 0" and "in_step s h" and "unat (LastAppliedMutationId s h) + 2 + length requests < 2 ^ 64"
    and "apply_new h version offset data s = (None, s1)"
    and "outcomes (\<lambda>(version, offset, data). ExecutePrimaryMutation h version offset data propagation) requests (s1, w) = (rs, s2, w2)"
  shows "set rs \<subseteq> {False} \<and> contents s2 = contents s1 \<and> w2 = w"
proof -
  have skip: "skipped s1 h" "unat (NextMutationId s1 h) = unat (LastAppliedMutationId s h) + 2"
    using failed_write_skips [OF assms(1,2) _ assms(4)] assms(3) by auto
  then have "set rs \<subseteq> {False} \<and> cv_sums s2 = cv_sums s1 \<and> w2 = w"
    using skipped_requests_fail [OF assms(1) skip(1) _ assms(5)] assms(3) by simp
  then show ?thesis by (auto simp: fun_eq_iff contents_def cv_bytes_def)
qed

text \<open>A server whose next call to the operating system fails.\<close>

definition with_answers :: "answer list \<Rightarrow> chunkserver \<Rightarrow> chunkserver" where
  "with_answers as s = s\<lparr>cv_sums := (cv_sums s)\<lparr>km_storage := (cv_storage s)\<lparr>sg_disk := (sg_disk (cv_storage s))\<lparr>dk_answers := as\<rparr>\<rparr>\<rparr>\<rparr>"

theorem failed_write_blocks_chunk_witness:
  "\<exists>s s1. contents s 5 = ''abcd'' \<and> apply_new 5 1 0 ''x'' s = (None, s1) \<and>
     set (fst (outcomes (\<lambda>(version, offset, data). ExecutePrimaryMutation 5 version offset data None)
       [(1, 0, ''y''), (1, 4, ''z'')] (s1, ()))) \<subseteq> {False}"
proof -
  obtain s0 where s0: "cv_inv s0" "cv_bytes s0 5 = Some ''abcd''" using sample_server by fastforce
  let ?s = "with_answers [Failed] (mm_Clear s0)"
  obtain c where c: "map_of (sg_chunks (cv_storage s0)) 5 = Some c" using s0(2) by (auto simp: cv_bytes_def sg_bytes_Some)
  have fl: "cf_file c = Some \<lparr>fh_open = True, fh_path = cf_path c, fh_mode = ReadWrite\<rparr>"
    using sg_okD [OF cv_invD(3) [OF s0(1)] c] by (simp add: cf_ok_def)
  have exists: "cv_ChunkExists ?s 5"
    using c cv_invD(1) [OF s0(1)] by (simp add: cv_ChunkExists_def with_answers_def mm_Clear_def sg_ChunkExists_def sg_HasChunk_def)
  obtain res s1 where a: "apply_new 5 1 0 ''x'' ?s = (res, s1)" by fastforce
  have step: "in_step ?s 5" "LastAppliedMutationId ?s 5 = 0"
    by (simp_all add: with_answers_def mm_Clear_def in_step_def NextMutationId_def LastAppliedMutationId_def)
  have "fst (sg_WriteChunk 5 0 ''x'' st) = False"
    if "sg_chunks st = sg_chunks (cv_storage s0)" "dk_answers (sg_disk st) = [Failed]" for st
    using that c fl
    by (auto simp: sg_WriteChunk_def sg_GetChunk_def cf_Write_def fh_WriteAt_def kChunkSize_def off_max_def write_at_loop.simps
        next_answer_def Let_def split: prod.splits if_splits)
  then have fail: "fst (cv_WriteChunk 5 0 ''x'' s) = False"
    if "sg_chunks (cv_storage s) = sg_chunks (cv_storage s0)" "dk_answers (sg_disk (cv_storage s)) = [Failed]" for s
    using that by (auto simp: cv_WriteChunk_def on_storage_eq)
  have "res = None"
  proof -
    obtain mid s2 where m: "AssignMutationId 5 ?s = (mid, s2)" by fastforce
    have sums: "cv_sums s2 = cv_sums ?s" "cv_initialized s2 = cv_initialized ?s" "cv_last_ids s2 = []"
      using AssignMutationId_result [OF _ m] by (simp_all add: with_answers_def mm_Clear_def)
    have "\<not> fst (ApplyMutationLocked (new_mutation 5 1 mid 0 ''x'') s2)"
      using fail [of s2] sums exists
      by (auto simp: ApplyMutationLocked_def new_mutation_def Let_def and_then_eq cv_ChunkExists_def with_answers_def mm_Clear_def)
    then show ?thesis using a m by (auto simp: apply_new_def Let_def split: prod.splits if_splits)
  qed
  moreover obtain rs s2 w where o: "outcomes (\<lambda>(version, offset, data). ExecutePrimaryMutation 5 version offset data None)
      [(1, 0, ''y''), (1, 4, ''z'')] (s1, ()) = (rs, s2, w)" by (metis prod.exhaust)
  ultimately have "set rs \<subseteq> {False}"
    using failed_write_blocks_chunk [OF _ step(1) _ _ o] a step(2) by simp
  moreover have "contents ?s 5 = ''abcd''"
    using s0(2) c by (simp add: contents_def cv_bytes_def with_answers_def mm_Clear_def sg_bytes_def cf_bytes_def dk_content_def)
  ultimately show ?thesis using a \<open>res = None\<close> o by (intro exI [of _ ?s] exI [of _ s1]) simp
qed

end
