(* ===== verification/Replication.thy ===== *)
theory Replication
  imports Mutations
begin

text \<open>
  \<open>src/chunkserver/replication\<close>: copying a chunk on one server (\<open>clone_manager.cpp\<close>), and sending it to
  another one (\<open>replica_sender.cpp\<close>, \<open>replica_receiver.cpp\<close>). The transfer function that a caller passes
  to the sender is an argument; it acts on a world of its own, for instance on the server that receives.
\<close>

section \<open>Clone manager\<close>

definition CanClone :: "chunkserver \<Rightarrow> chunk_handle \<Rightarrow> chunk_handle \<Rightarrow> bool" where
  "CanClone s source_handle destination_handle \<longleftrightarrow>
     \<not> (source_handle = 0 \<or> destination_handle = 0 \<or> source_handle = destination_handle) \<and>
     cv_ChunkExists s source_handle \<and> \<not> cv_ChunkExists s destination_handle \<and>
     cv_GetChunkSize s source_handle \<le> kChunkSize"

text \<open>The common end of \<open>Clone\<close> and \<open>CloneRange\<close>: create the destination, fill it, drop it when that fails.\<close>

definition copy_range :: "chunk_handle \<Rightarrow> chunk_handle \<Rightarrow> 64 word \<Rightarrow> 64 word \<Rightarrow> chunkserver \<Rightarrow> bool \<times> chunkserver" where
  "copy_range source_handle destination_handle offset len s =
     (case cv_ReadChunk source_handle offset len s of
        (None, s) \<Rightarrow> (False, s)
      | (Some data, s) \<Rightarrow>
          and_then (cv_CreateChunk destination_handle s)
            (\<lambda>s. if data = [] then (True, s)
              else case cv_WriteChunk destination_handle 0 data s of
                (True, s) \<Rightarrow> (True, s)
              | (False, s) \<Rightarrow> (False, snd (cv_DeleteChunk destination_handle s))))"

definition Clone :: "chunk_handle \<Rightarrow> chunk_handle \<Rightarrow> chunkserver \<Rightarrow> bool \<times> chunkserver" where
  "Clone source_handle destination_handle s =
     (if \<not> CanClone s source_handle destination_handle then (False, s)
      else copy_range source_handle destination_handle 0 (cv_GetChunkSize s source_handle) s)"

definition CloneRange ::
    "chunk_handle \<Rightarrow> chunk_handle \<Rightarrow> 64 word \<Rightarrow> 64 word \<Rightarrow> chunkserver \<Rightarrow> bool \<times> chunkserver" where
  "CloneRange source_handle destination_handle source_offset len s =
     (if \<not> CanClone s source_handle destination_handle then (False, s)
      else let source_size = cv_GetChunkSize s source_handle in
        if source_offset > source_size \<or> len > source_size - source_offset \<or> source_offset + len > kChunkSize
        then (False, s)
        else copy_range source_handle destination_handle source_offset len s)"

section \<open>Receiver\<close>

definition Receive :: "chunk_handle \<Rightarrow> string \<Rightarrow> chunkserver \<Rightarrow> bool \<times> chunkserver" where
  "Receive handle data s =
     (if handle = 0 \<or> length data > unat kChunkSize then (False, s)
      else case cv_CreateChunk handle s of
        (True, s) \<Rightarrow> cv_WriteChunk handle 0 data s
      | (False, s) \<Rightarrow>
          if \<not> cv_ChunkExists s handle then (False, s)
          else and_then (cv_TruncateChunk handle 0 s) (cv_WriteChunk handle 0 data))"

text \<open>The overload that takes a buffer: \<open>None\<close> is the null pointer.\<close>

definition ReceiveBuffer :: "chunk_handle \<Rightarrow> string option \<Rightarrow> nat \<Rightarrow> chunkserver \<Rightarrow> bool \<times> chunkserver" where
  "ReceiveBuffer handle data sz s =
     (if sz \<noteq> 0 \<and> data = None then (False, s)
      else Receive handle (take sz (case data of None \<Rightarrow> [] | Some bytes \<Rightarrow> bytes)) s)"

definition ReceiveFromOffset :: "chunk_handle \<Rightarrow> 64 word \<Rightarrow> string \<Rightarrow> chunkserver \<Rightarrow> bool \<times> chunkserver" where
  "ReceiveFromOffset handle offset data s =
     (if handle = 0 \<or> data = [] \<or> offset + of_nat (length data) > kChunkSize then (False, s)
      else and_then (if cv_ChunkExists s handle then (True, s) else cv_CreateChunk handle s)
        (cv_WriteChunk handle offset data))"

definition HasReplica :: "chunkserver \<Rightarrow> chunk_handle \<Rightarrow> bool" where
  "HasReplica s handle \<longleftrightarrow> handle \<noteq> 0 \<and> cv_ChunkExists s handle"

definition GetReplicaSize :: "chunkserver \<Rightarrow> chunk_handle \<Rightarrow> 64 word" where
  "GetReplicaSize s handle = (if handle = 0 then 0 else cv_GetChunkSize s handle)"

section \<open>Sender\<close>

type_synonym 'w transfer = "server_id \<Rightarrow> chunk_handle \<Rightarrow> string \<Rightarrow> 'w \<Rightarrow> bool \<times> 'w"

definition ReadLocalChunk :: "chunk_handle \<Rightarrow> chunkserver \<Rightarrow> string option \<times> chunkserver" where
  "ReadLocalChunk handle s =
     (if handle = 0 \<or> \<not> cv_ChunkExists s handle then (None, s)
      else let sz = cv_GetChunkSize s handle in
        if sz > kChunkSize then (None, s) else cv_ReadChunk handle 0 sz s)"

definition Send ::
    "chunk_handle \<Rightarrow> server_id \<Rightarrow> 'w transfer option \<Rightarrow> chunkserver \<times> 'w \<Rightarrow> bool \<times> chunkserver \<times> 'w" where
  "Send handle target_server transfer_function sw =
     (case sw of (s, w) \<Rightarrow>
        case transfer_function of
          None \<Rightarrow> (False, s, w)
        | Some transfer \<Rightarrow>
            if handle = 0 \<or> target_server = 0 then (False, s, w)
            else case ReadLocalChunk handle s of
              (None, s) \<Rightarrow> (False, s, w)
            | (Some data, s) \<Rightarrow>
                if length data > unat kChunkSize then (False, s, w)
                else case transfer target_server handle data w of (b, w) \<Rightarrow> (b, s, w))"

section \<open>Results on a server whose disk makes no errors\<close>

lemma unat_kChunkSize: "unat kChunkSize = 64 * 2 ^ 20"
  by (simp add: kChunkSize_def)

lemma le_kChunkSize: "w \<le> kChunkSize \<longleftrightarrow> unat w \<le> 64 * 2 ^ 20"
  by (simp add: word_le_nat_alt unat_kChunkSize)

lemma CanClone_iff:
  assumes "cv_inv s"
  shows "CanClone s src dst \<longleftrightarrow> dst \<noteq> 0 \<and> cv_bytes s src \<noteq> None \<and> cv_bytes s dst = None"
proof -
  have "cv_GetChunkSize s src \<le> kChunkSize"
    using length_contents [OF assms, of src] cv_GetChunkSize_bytes [OF assms, of src] by (simp add: le_kChunkSize)
  then show ?thesis
    using cv_ChunkExists_bytes [OF assms] cv_invD(6) [OF assms] by (auto simp: CanClone_def)
qed

lemma cv_ReadChunk_all:
  assumes inv: "cv_inv s" and r: "cv_ReadChunk h 0 (cv_GetChunkSize s h) s = (res, s')"
  shows "cv_inv s'" "cv_bytes s' = cv_bytes s" "res = cv_bytes s h"
proof -
  note read = cv_ReadChunk_result [OF inv r]
  show "cv_inv s'" "cv_bytes s' = cv_bytes s" using read by simp_all
  have "slice 0 (cv_GetChunkSize s h) content = Some content" if "cv_bytes s h = Some content" for content
    using cv_GetChunkSize_bytes [OF inv, of h] that by (simp add: slice_def contents_def)
  then show "res = cv_bytes s h" using read by (auto split: option.splits)
qed

lemma overlay_nil: "overlay [] 0 data = data"
  by (simp add: overlay_def)

lemma copy_range_result:
  assumes inv: "cv_inv s" and dst: "dst \<noteq> 0" "cv_bytes s dst = None" and src: "cv_bytes s src = Some content"
    and r: "copy_range src dst offset len s = (b, s')"
  shows "cv_inv s'" "b \<longleftrightarrow> slice offset len content \<noteq> None"
    "cv_bytes s' = (if b then (cv_bytes s)(dst := slice offset len content) else cv_bytes s)"
proof -
  obtain res s1 where read: "cv_ReadChunk src offset len s = (res, s1)" by fastforce
  have s1: "cv_inv s1" "cv_bytes s1 = cv_bytes s" "res = slice offset len content"
    using cv_ReadChunk_result [OF inv read] src by simp_all
  have "cv_inv s' \<and> (b \<longleftrightarrow> res \<noteq> None) \<and> cv_bytes s' = (if b then (cv_bytes s)(dst := res) else cv_bytes s)"
  proof (cases res)
    case None
    then show ?thesis using r read s1 by (simp add: copy_range_def)
  next
    case (Some data)
    obtain b2 s2 where create: "cv_CreateChunk dst s1 = (b2, s2)" by fastforce
    have s2: "b2" "cv_inv s2" "cv_bytes s2 = (cv_bytes s)(dst \<mapsto> [])"
      using cv_CreateChunk_result [OF s1(1) create] dst s1(2) by auto
    show ?thesis
    proof (cases "data = []")
      case True
      then show ?thesis using r read create s2 Some by (simp add: copy_range_def)
    next
      case False
      obtain b3 s3 where wr: "cv_WriteChunk dst 0 data s2 = (b3, s3)" by fastforce
      have "length data \<le> 2 ^ 26"
        using Some s1(3) length_contents [OF inv, of src] src by (auto simp: slice_def contents_def split: if_splits)
      then have "b3" "cv_inv s3" "cv_bytes s3 = (cv_bytes s)(dst \<mapsto> data)"
        using cv_WriteChunk_result [OF s2(2) wr] s2(3) by (simp_all add: overlay_nil)
      then show ?thesis using r read create s2(1) Some False wr by (simp add: copy_range_def)
    qed
  qed
  then show "cv_inv s'" "b \<longleftrightarrow> slice offset len content \<noteq> None"
    "cv_bytes s' = (if b then (cv_bytes s)(dst := slice offset len content) else cv_bytes s)"
    using s1(3) by simp_all
qed

lemma Clone_result:
  assumes inv: "cv_inv s" and r: "Clone src dst s = (b, s')"
  shows "cv_inv s'" "b \<longleftrightarrow> dst \<noteq> 0 \<and> cv_bytes s src \<noteq> None \<and> cv_bytes s dst = None"
    "cv_bytes s' = (if b then (cv_bytes s)(dst := cv_bytes s src) else cv_bytes s)"
proof -
  have "cv_inv s' \<and> (b \<longleftrightarrow> dst \<noteq> 0 \<and> cv_bytes s src \<noteq> None \<and> cv_bytes s dst = None) \<and>
    cv_bytes s' = (if b then (cv_bytes s)(dst := cv_bytes s src) else cv_bytes s)"
  proof (cases "CanClone s src dst")
    case False
    then show ?thesis using r inv CanClone_iff [OF inv] by (auto simp: Clone_def)
  next
    case True
    then obtain content where c: "dst \<noteq> 0" "cv_bytes s dst = None" "cv_bytes s src = Some content"
      using CanClone_iff [OF inv] by auto
    have cp: "copy_range src dst 0 (cv_GetChunkSize s src) s = (b, s')" using r True by (simp add: Clone_def)
    have "slice 0 (cv_GetChunkSize s src) content = Some content"
      using cv_GetChunkSize_bytes [OF inv, of src] c(3) by (simp add: slice_def contents_def)
    then show ?thesis using copy_range_result [OF inv c cp] c by auto
  qed
  then show "cv_inv s'" "b \<longleftrightarrow> dst \<noteq> 0 \<and> cv_bytes s src \<noteq> None \<and> cv_bytes s dst = None"
    "cv_bytes s' = (if b then (cv_bytes s)(dst := cv_bytes s src) else cv_bytes s)" by blast+
qed

lemma slice_fits_iff:
  fixes offset len sz :: "64 word"
  assumes "unat sz = length content" and "length content \<le> 64 * 2 ^ 20"
  shows "\<not> (offset > sz \<or> len > sz - offset \<or> offset + len > kChunkSize) \<longleftrightarrow> slice offset len content \<noteq> None"
proof (cases "offset \<le> sz")
  case True
  have "unat (sz - offset) = length content - unat offset" using True assms(1) by (simp add: unat_sub)
  moreover have "unat (offset + len) = unat offset + unat len" if "unat offset + unat len \<le> length content"
    using that assms(2) by (simp add: unat_word_ariths)
  moreover have "unat offset \<le> length content" using True assms(1) by (simp add: word_le_nat_alt)
  ultimately show ?thesis using assms True
    by (auto simp: slice_def word_less_nat_alt word_le_nat_alt not_less unat_kChunkSize)
next
  case False
  then have "sz < offset" "length content < unat offset" using assms(1) by (simp_all add: word_less_nat_alt not_le)
  then show ?thesis by (simp add: slice_def)
qed

lemma CloneRange_result:
  assumes inv: "cv_inv s" and r: "CloneRange src dst offset len s = (b, s')"
  shows "cv_inv s'"
    "b \<longleftrightarrow> dst \<noteq> 0 \<and> cv_bytes s dst = None \<and> (\<exists>content. cv_bytes s src = Some content \<and> slice offset len content \<noteq> None)"
    "cv_bytes s' = (if b then (cv_bytes s)(dst := slice offset len (contents s src)) else cv_bytes s)"
proof -
  have "cv_inv s' \<and>
    (b \<longleftrightarrow> dst \<noteq> 0 \<and> cv_bytes s dst = None \<and> (\<exists>content. cv_bytes s src = Some content \<and> slice offset len content \<noteq> None)) \<and>
    cv_bytes s' = (if b then (cv_bytes s)(dst := slice offset len (contents s src)) else cv_bytes s)"
  proof (cases "CanClone s src dst")
    case False
    then show ?thesis using r inv CanClone_iff [OF inv] by (auto simp: CloneRange_def)
  next
    case True
    then obtain content where c: "dst \<noteq> 0" "cv_bytes s dst = None" "cv_bytes s src = Some content"
      using CanClone_iff [OF inv] by auto
    have content: "contents s src = content" using c(3) by (simp add: contents_def)
    have sz: "unat (cv_GetChunkSize s src) = length content" "length content \<le> 64 * 2 ^ 20"
      using cv_GetChunkSize_bytes [OF inv, of src] length_contents [OF inv, of src] content by simp_all
    note fits = slice_fits_iff [OF sz, of offset len]
    show ?thesis
    proof (cases "slice offset len content")
      case None
      then show ?thesis using r True fits inv c by (auto simp: CloneRange_def Let_def)
    next
      case (Some data)
      then have "copy_range src dst offset len s = (b, s')" using r True fits by (auto simp: CloneRange_def Let_def)
      from copy_range_result [OF inv c this] show ?thesis using c content by simp
    qed
  qed
  then show "cv_inv s'"
    "b \<longleftrightarrow> dst \<noteq> 0 \<and> cv_bytes s dst = None \<and> (\<exists>content. cv_bytes s src = Some content \<and> slice offset len content \<noteq> None)"
    "cv_bytes s' = (if b then (cv_bytes s)(dst := slice offset len (contents s src)) else cv_bytes s)" by blast+
qed

lemma Receive_result:
  assumes inv: "cv_inv s" and r: "Receive h data s = (b, s')"
  shows "cv_inv s'" "b \<longleftrightarrow> h \<noteq> 0 \<and> length data \<le> 64 * 2 ^ 20"
    "cv_bytes s' = (if b then (cv_bytes s)(h \<mapsto> data) else cv_bytes s)"
proof -
  have "cv_inv s' \<and> (b \<longleftrightarrow> h \<noteq> 0 \<and> length data \<le> 64 * 2 ^ 20) \<and>
    cv_bytes s' = (if b then (cv_bytes s)(h \<mapsto> data) else cv_bytes s)"
  proof (cases "h \<noteq> 0 \<and> length data \<le> 64 * 2 ^ 20")
    case False
    then show ?thesis using r inv by (auto simp: Receive_def unat_kChunkSize)
  next
    case True
    obtain b1 s1 where create: "cv_CreateChunk h s = (b1, s1)" by fastforce
    note made = cv_CreateChunk_result [OF inv create]
    show ?thesis
    proof (cases b1)
      case new: True
      then have "cv_WriteChunk h 0 data s1 = (b, s')" using r True create by (auto simp: Receive_def unat_kChunkSize)
      from cv_WriteChunk_result [OF _ this] show ?thesis using made new True by (simp add: overlay_nil)
    next
      case old: False
      then obtain content where c: "cv_bytes s1 h = Some content" "cv_inv s1" "cv_bytes s1 = cv_bytes s" using made True by auto
      obtain b2 s2 where cut: "cv_TruncateChunk h 0 s1 = (b2, s2)" by fastforce
      have s2: "b2" "cv_inv s2" "cv_bytes s2 = (cv_bytes s)(h \<mapsto> [])" using cv_TruncateChunk_result [OF c(2) cut] c by simp_all
      then have "cv_WriteChunk h 0 data s2 = (b, s')"
        using r True create old cut cv_ChunkExists_bytes [OF c(2), of h] c(1) by (auto simp: Receive_def unat_kChunkSize)
      from cv_WriteChunk_result [OF s2(2) this] show ?thesis using s2(3) True by (simp add: overlay_nil)
    qed
  qed
  then show "cv_inv s'" "b \<longleftrightarrow> h \<noteq> 0 \<and> length data \<le> 64 * 2 ^ 20"
    "cv_bytes s' = (if b then (cv_bytes s)(h \<mapsto> data) else cv_bytes s)" by blast+
qed

lemma ReadLocalChunk_result:
  assumes inv: "cv_inv s" and r: "ReadLocalChunk h s = (res, s')"
  shows "cv_inv s'" "cv_bytes s' = cv_bytes s" "res = cv_bytes s h"
proof -
  have "cv_inv s' \<and> cv_bytes s' = cv_bytes s \<and> res = cv_bytes s h"
  proof (cases "cv_bytes s h")
    case None
    then show ?thesis using r inv cv_ChunkExists_bytes [OF inv, of h] by (auto simp: ReadLocalChunk_def)
  next
    case (Some content)
    then have "h \<noteq> 0" "cv_ChunkExists s h" using cv_invD(6) [OF inv] cv_ChunkExists_bytes [OF inv, of h] by auto
    moreover have "cv_GetChunkSize s h \<le> kChunkSize"
      using length_contents [OF inv, of h] cv_GetChunkSize_bytes [OF inv, of h] by (simp add: le_kChunkSize)
    ultimately have "cv_ReadChunk h 0 (cv_GetChunkSize s h) s = (res, s')" using r by (simp add: ReadLocalChunk_def Let_def leD)
    from cv_ReadChunk_all [OF inv this] show ?thesis by simp
  qed
  then show "cv_inv s'" "cv_bytes s' = cv_bytes s" "res = cv_bytes s h" by simp_all
qed

text \<open>The transfer function that hands the data to the receiver of another server.\<close>

definition receive_at :: "chunkserver transfer" where
  "receive_at target handle data t = Receive handle data t"

text \<open>A chunk is sent to another server exactly when the sender has it: afterwards the target holds the same
  bytes, whatever it held before, every other chunk of both servers is as it was, and both keep their
  invariant, for every course of interruptions and partial transfers on either disk.\<close>
lemma send_copies_replica:
  assumes "cv_inv s" and "cv_inv t" and "h \<noteq> 0" and "target \<noteq> 0"
    and "Send h target (Some receive_at) (s, t) = (b, s', t')"
  shows "(b \<longleftrightarrow> cv_bytes s h \<noteq> None) \<and> cv_bytes s' = cv_bytes s \<and> cv_inv s' \<and> cv_inv t' \<and>
    cv_bytes t' = (if b then (cv_bytes t)(h := cv_bytes s h) else cv_bytes t)"
proof -
  obtain res s1 where read: "ReadLocalChunk h s = (res, s1)" by fastforce
  note local = ReadLocalChunk_result [OF assms(1) read]
  show ?thesis
  proof (cases res)
    case None
    then show ?thesis using assms read local by (auto simp: Send_def)
  next
    case (Some data)
    have fits: "length data \<le> 64 * 2 ^ 20"
      using length_contents [OF assms(1), of h] local(3) Some by (simp add: contents_def split: option.splits)
    then have recv: "Receive h data t = (b, t')" "s' = s1"
      using assms(3-5) read Some by (auto simp: Send_def receive_at_def unat_kChunkSize split: prod.splits)
    show ?thesis using Receive_result [OF assms(2) recv(1)] local(1,2) recv(2) fits assms(3) Some [unfolded local(3)] by simp
  qed
qed

text \<open>An offset near the end of the range of 64 bits wraps the check of \<open>ReceiveFromOffset\<close>: the transfer is
  refused by the storage, but a chunk that did not exist is left behind, empty.\<close>

lemma ReceiveFromOffset_wraps:
  assumes inv: "cv_inv s" and h: "h \<noteq> 0" "cv_bytes s h = None" and data: "data \<noteq> []" "length data \<le> 64 * 2 ^ 20"
    and r: "ReceiveFromOffset h u64_max data s = (b, s')"
  shows "\<not> b" "\<exists>c. cv_bytes s' h = Some c"
proof -
  have n: "unat (of_nat (length data) :: 64 word) = length data" using data(2) by (simp add: unat_of_nat)
  have "(of_nat (length data) :: 64 word) \<noteq> 0" using n data(1) by (metis length_0_conv unat_0)
  then have "unat (of_nat (length data) - 1 :: 64 word) = length data - 1" using n by (simp add: unat_minus_one)
  moreover have eq: "u64_max + of_nat (length data) = (of_nat (length data) - 1 :: 64 word)" by (simp add: u64_max_def)
  ultimately have "u64_max + of_nat (length data) \<le> kChunkSize" using data(2) unfolding eq by (simp add: le_kChunkSize)
  moreover obtain b1 s1 where c: "cv_CreateChunk h s = (b1, s1)" by fastforce
  moreover have s1: "b1" "cv_bytes s1 = (cv_bytes s)(h \<mapsto> [])" "cv_inv s1" using cv_CreateChunk_result [OF inv c] h by auto
  ultimately have w: "cv_WriteChunk h u64_max data s1 = (b, s')"
    using r h data cv_ChunkExists_bytes [OF inv, of h] by (auto simp: ReceiveFromOffset_def leD)
  obtain b2 st where st: "sg_WriteChunk h u64_max data (cv_storage s1) = (b2, st)" by fastforce
  have "\<not> b2" using sg_WriteChunk_result(9) [OF cv_invD(3) [OF s1(3)] st cv_invD(4) [OF s1(3)]] data by (simp add: unat_u64_max)
  then have "\<not> b" "cv_bytes s' = cv_bytes s1"
    using w st h sg_WriteChunk_failed [OF cv_invD(3,4) [OF s1(3)]] cv_invD(1) [OF s1(3)]
    by (auto simp: cv_WriteChunk_def on_storage_eq cv_bytes_def)
  then show "\<not> b" "\<exists>c. cv_bytes s' h = Some c" using s1(2) by simp_all
qed

end
