(* ===== verification/Cluster.thy ===== *)
theory Cluster
  imports Consistency Replication
begin

text \<open>
  \<open>src/master/replication/re_replication.cpp\<close>: the master with the chunkservers it reaches. A registered
  chunkserver is a pointer to an object that lives outside the manager: \<open>cl_heap\<close> holds the objects by
  address and \<open>cl_chunkservers\<close> maps identifiers to addresses. Servers that are only known by a network
  address are behind the stubs of the RPC library: the record \<open>network\<close> says what each call does to a
  world of its own, \<open>None\<close> standing for a status that is not ok.

  \<open>recovery_manager.cpp\<close> passes every call on to the operations here.
\<close>

section \<open>State\<close>

type_synonym address = nat

record 'w cluster =
  cl_master :: master
  cl_chunkservers :: "(server_id \<times> address) list"
  cl_endpoints :: "(server_id \<times> string) list"
  cl_heap :: "address \<Rightarrow> chunkserver"
  cl_world :: 'w

record 'w network =
  nw_TransferChunk :: "string \<Rightarrow> chunk_handle \<Rightarrow> chunk_version \<Rightarrow> 64 word \<Rightarrow> 64 word \<Rightarrow> 'w \<Rightarrow> (bool \<times> string) option \<times> 'w"
  nw_CreateReplica :: "string \<Rightarrow> chunk_handle \<Rightarrow> chunk_version \<Rightarrow> 'w \<Rightarrow> bool option \<times> 'w"
  nw_WriteChunk :: "string \<Rightarrow> chunk_handle \<Rightarrow> chunk_version \<Rightarrow> 64 word \<Rightarrow> string \<Rightarrow> 'w \<Rightarrow> bool option \<times> 'w"

definition on_master :: "(master \<Rightarrow> 'r \<times> master) \<Rightarrow> 'w cluster \<Rightarrow> 'r \<times> 'w cluster" where
  "on_master f c = (case f (cl_master c) of (r, m) \<Rightarrow> (r, c\<lparr>cl_master := m\<rparr>))"

definition on_server :: "address \<Rightarrow> (chunkserver \<Rightarrow> 'r \<times> chunkserver) \<Rightarrow> (address \<Rightarrow> chunkserver) \<Rightarrow> 'r \<times> (address \<Rightarrow> chunkserver)" where
  "on_server a f heap = (case f (heap a) of (r, s) \<Rightarrow> (r, heap(a := s)))"

section \<open>Registration\<close>

definition RegisterChunkserver :: "address \<Rightarrow> 'w cluster \<Rightarrow> bool \<times> 'w cluster" where
  "RegisterChunkserver a c =
     (let server_id = cv_server_id (cl_heap c a) in
      if server_id = 0 then (False, c)
      else case map_of (cl_chunkservers c) server_id of
        Some b \<Rightarrow> (b = a, c)
      | None \<Rightarrow> (True, c\<lparr>cl_chunkservers := AList.update server_id a (cl_chunkservers c)\<rparr>))"

definition UnregisterChunkserver :: "server_id \<Rightarrow> 'w cluster \<Rightarrow> bool \<times> 'w cluster" where
  "UnregisterChunkserver server c =
     (if server = 0 then (False, c)
      else (map_of (cl_chunkservers c) server \<noteq> None,
            c\<lparr>cl_chunkservers := AList.delete server (cl_chunkservers c)\<rparr>))"

definition HasChunkserver :: "'w cluster \<Rightarrow> server_id \<Rightarrow> bool" where
  "HasChunkserver c server \<longleftrightarrow> server \<noteq> 0 \<and>
     (map_of (cl_chunkservers c) server \<noteq> None \<or> map_of (cl_endpoints c) server \<noteq> None)"

definition RegisterChunkserverEndpoint :: "server_id \<Rightarrow> string \<Rightarrow> 'w cluster \<Rightarrow> bool \<times> 'w cluster" where
  "RegisterChunkserverEndpoint server addr c =
     (if server = 0 \<or> addr = [] then (False, c)
      else (True, c\<lparr>cl_endpoints := AList.update server addr (cl_endpoints c)\<rparr>))"

definition UnregisterChunkserverEndpoint :: "server_id \<Rightarrow> 'w cluster \<Rightarrow> bool \<times> 'w cluster" where
  "UnregisterChunkserverEndpoint server c =
     (if server = 0 then (False, c)
      else (map_of (cl_endpoints c) server \<noteq> None, c\<lparr>cl_endpoints := AList.delete server (cl_endpoints c)\<rparr>))"

definition GetChunkserverEndpoint :: "'w cluster \<Rightarrow> server_id \<Rightarrow> string option" where
  "GetChunkserverEndpoint c server = map_of (cl_endpoints c) server"

definition RegisteredChunkserverCount :: "'w cluster \<Rightarrow> nat" where
  "RegisteredChunkserverCount c = length (cl_chunkservers c)"

definition GetChunkserver :: "'w cluster \<Rightarrow> server_id \<Rightarrow> address option" where
  "GetChunkserver c server = map_of (cl_chunkservers c) server"

section \<open>Healthy replicas\<close>

definition GetDesiredReplicationFactor :: "'w cluster \<Rightarrow> chunk_handle \<Rightarrow> 32 word" where
  "GetDesiredReplicationFactor c handle =
     (case md_GetChunkReplicationFactor (ma_metadata (cl_master c)) handle of None \<Rightarrow> 0 | Some factor \<Rightarrow> factor)"

definition IsHealthyCurrentReplica :: "'w cluster \<Rightarrow> chunk_handle \<Rightarrow> server_id \<Rightarrow> time_ms \<Rightarrow> bool" where
  "IsHealthyCurrentReplica c handle server now =
     (if handle = 0 \<or> server = 0 then False
      else if \<not> hb_IsServerAliveAt (ma_heartbeats (cl_master c)) server now then False
      else if ma_IsStaleReplica (cl_master c) handle server then False
      else case GetChunkserver c server of
        Some a \<Rightarrow> cv_ChunkExists (cl_heap c a) handle
      | None \<Rightarrow> GetChunkserverEndpoint c server \<noteq> None)"

definition GetHealthyCurrentReplicas :: "'w cluster \<Rightarrow> chunk_handle \<Rightarrow> time_ms \<Rightarrow> server_id list" where
  "GetHealthyCurrentReplicas c handle now =
     filter (\<lambda>server. IsHealthyCurrentReplica c handle server now)
       (rm_GetReplicaServers (ma_replicas (cl_master c)) handle)"

definition GetHealthyReplicaCount :: "'w cluster \<Rightarrow> chunk_handle \<Rightarrow> time_ms \<Rightarrow> nat" where
  "GetHealthyReplicaCount c handle now = length (GetHealthyCurrentReplicas c handle now)"

definition NeedsReReplication :: "'w cluster \<Rightarrow> chunk_handle \<Rightarrow> time_ms \<Rightarrow> bool" where
  "NeedsReReplication c handle now \<longleftrightarrow>
     \<not> (handle = 0 \<or> md_GetChunk (ma_metadata (cl_master c)) handle = None) \<and>
     GetHealthyReplicaCount c handle now < unat (GetDesiredReplicationFactor c handle)"

definition FindRecoverySource :: "'w cluster \<Rightarrow> chunk_handle \<Rightarrow> time_ms \<Rightarrow> server_id option" where
  "FindRecoverySource c handle now =
     (if handle = 0 then None
      else
        let replicas = rm_GetReplicas (ma_replicas (cl_master c)) handle;
            primary = rm_GetPrimary (ma_replicas (cl_master c)) handle in
        if (case primary of None \<Rightarrow> False | Some p \<Rightarrow> IsHealthyCurrentReplica c handle p now) then primary
        else map_option ri_server (find (\<lambda>r. IsHealthyCurrentReplica c handle (ri_server r) now) replicas))"

text \<open>The candidates of \<open>GetRecoveryDestinations\<close>: live servers that hold no replica, with their load.\<close>

definition recovery_candidates :: "'w cluster \<Rightarrow> chunk_handle \<Rightarrow> time_ms \<Rightarrow> placement_candidate list" where
  "recovery_candidates c handle now =
     (let m = cl_master c;
          excluded = set (rm_GetReplicaServers (ma_replicas m) handle) \<union> set (ma_GetStaleReplicas m handle) in
      map (\<lambda>server. \<lparr>pl_server = server, pl_chunk_count = length (rm_GetChunksForServer (ma_replicas m) server)\<rparr>)
        (filter (\<lambda>server. \<not> (server = 0 \<or> server \<in> excluded) \<and> hb_IsServerAliveAt (ma_heartbeats m) server now \<and>
            HasChunkserver c server)
          (hb_GetLiveServers (ma_heartbeats m))))"

definition GetRecoveryDestinations :: "'w cluster \<Rightarrow> chunk_handle \<Rightarrow> time_ms \<Rightarrow> server_id list" where
  "GetRecoveryDestinations c handle now =
     (if \<not> NeedsReReplication c handle now then []
      else
        let desired = unat (GetDesiredReplicationFactor c handle);
            healthy_count = GetHealthyReplicaCount c handle now in
        if healthy_count \<ge> desired then []
        else
          let candidates = recovery_candidates c handle now in
          if candidates = [] then []
          else SelectReplicas (ma_policy (cl_master c))
            \<lparr>pr_handle = handle, pr_replication_factor = desired - healthy_count, pr_candidates = candidates\<rparr>)"

section \<open>Transfer\<close>

text \<open>Between two registered objects. They are different objects, since their identifiers differ.\<close>

definition transfer_local ::
    "chunk_handle \<Rightarrow> address \<Rightarrow> address \<Rightarrow> server_id \<Rightarrow> (address \<Rightarrow> chunkserver) \<Rightarrow> bool \<times> (address \<Rightarrow> chunkserver)" where
  "transfer_local handle source destination destination_server_id heap =
     (if \<not> cv_ChunkExists (heap source) handle then (False, heap)
      else
        case Send handle destination_server_id
            (Some (\<lambda>target target_handle data heap.
               if target \<noteq> cv_server_id (heap destination) then (False, heap)
               else on_server destination (Receive target_handle data) heap))
            (heap source, heap) of
          (b, s, heap') \<Rightarrow> (b, heap'(source := s)))"

text \<open>Through the network: read everything from the source, create the chunk and write it, always version 1.\<close>

definition transfer_remote :: "'w network \<Rightarrow> chunk_handle \<Rightarrow> string \<Rightarrow> string \<Rightarrow> 'w \<Rightarrow> bool \<times> 'w" where
  "transfer_remote net handle source_endpoint destination_endpoint w =
     (case nw_TransferChunk net source_endpoint handle 1 0 0 w of
        (None, w) \<Rightarrow> (False, w)
      | (Some (success, data), w) \<Rightarrow>
          if \<not> success then (False, w)
          else case nw_CreateReplica net destination_endpoint handle 1 w of
            (created, w) \<Rightarrow>
              if created \<noteq> Some True then (False, w)
              else if data = [] then (True, w)
              else case nw_WriteChunk net destination_endpoint handle 1 0 data w of
                (written, w) \<Rightarrow> (written = Some True, w))"

definition TransferReplica ::
    "'w network \<Rightarrow> chunk_handle \<Rightarrow> server_id \<Rightarrow> server_id \<Rightarrow> 'w cluster \<Rightarrow> bool \<times> 'w cluster" where
  "TransferReplica net handle source_server_id destination_server_id c =
     (if handle = 0 \<or> source_server_id = 0 \<or> destination_server_id = 0 \<or> source_server_id = destination_server_id
      then (False, c)
      else case (GetChunkserver c source_server_id, GetChunkserver c destination_server_id) of
        (Some source, Some destination) \<Rightarrow>
          (case transfer_local handle source destination destination_server_id (cl_heap c) of
             (b, heap) \<Rightarrow> (b, c\<lparr>cl_heap := heap\<rparr>))
      | _ \<Rightarrow>
          (case (GetChunkserverEndpoint c source_server_id, GetChunkserverEndpoint c destination_server_id) of
             (Some source_endpoint, Some destination_endpoint) \<Rightarrow>
               if source_endpoint = [] \<or> destination_endpoint = [] then (False, c)
               else (case transfer_remote net handle source_endpoint destination_endpoint (cl_world c) of
                 (b, w) \<Rightarrow> (b, c\<lparr>cl_world := w\<rparr>))
           | _ \<Rightarrow> (False, c)))"

section \<open>Deletion of a chunk on all registered servers\<close>

fun delete_loop :: "chunk_handle \<Rightarrow> address list \<Rightarrow> (address \<Rightarrow> chunkserver) \<Rightarrow> bool \<times> (address \<Rightarrow> chunkserver)" where
  "delete_loop handle [] heap = (True, heap)"
| "delete_loop handle (a # servers) heap =
     (if cv_ChunkExists (heap a) handle
      then and_then (on_server a (cv_DeleteChunk handle) heap) (delete_loop handle servers)
      else delete_loop handle servers heap)"

definition DeleteChunkFromChunkservers :: "chunk_handle \<Rightarrow> 'w cluster \<Rightarrow> bool \<times> 'w cluster" where
  "DeleteChunkFromChunkservers handle c =
     (if handle = 0 then (False, c)
      else
        let servers = sort_key (\<lambda>a. cv_server_id (cl_heap c a)) (map snd (cl_chunkservers c)) in
        case delete_loop handle servers (cl_heap c) of (b, heap) \<Rightarrow> (b, c\<lparr>cl_heap := heap\<rparr>))"

text \<open>\<open>Master::GarbageCollectChunk\<close> with the deletion on the chunkservers that it calls.\<close>

definition cl_GarbageCollectChunk :: "append_io \<Rightarrow> chunk_handle \<Rightarrow> 'w cluster \<Rightarrow> bool \<times> 'w cluster" where
  "cl_GarbageCollectChunk io handle c =
     (let m = cl_master c;
          reached = handle \<noteq> 0 \<and> md_GetChunkReferenceCount (ma_metadata m) handle = 0 \<and>
            md_ChunkExists (ma_metadata m) handle \<and> fst (AppendOperation io OpDeleteChunk [to_string handle] m);
          (deleted, c') = (if reached then DeleteChunkFromChunkservers handle c else (False, c)) in
      on_master (ma_GarbageCollectChunk io deleted handle) c')"

section \<open>Recovery\<close>

definition drop_replicas :: "chunk_handle \<Rightarrow> server_id list \<Rightarrow> 'w cluster \<Rightarrow> 'w cluster" where
  "drop_replicas handle servers c = fold (\<lambda>server c. snd (on_master (ma_RemoveReplica handle server) c)) servers c"

definition drop_dead :: "chunk_handle \<Rightarrow> time_ms \<Rightarrow> server_id list \<Rightarrow> 'w cluster \<Rightarrow> 'w cluster" where
  "drop_dead handle now servers c =
     fold (\<lambda>server c. if \<not> hb_IsServerAliveAt (ma_heartbeats (cl_master c)) server now
       then snd (on_master (ma_RemoveReplica handle server) c) else c) servers c"

fun recover_loop ::
    "'w network \<Rightarrow> chunk_handle \<Rightarrow> time_ms \<Rightarrow> server_id \<Rightarrow> server_id list \<Rightarrow> bool \<Rightarrow> 'w cluster \<Rightarrow> bool \<times> 'w cluster" where
  "recover_loop net handle now source [] recovered c = (recovered, c)"
| "recover_loop net handle now source (destination # destinations) recovered c =
     (if GetHealthyReplicaCount c handle now \<ge> unat (GetDesiredReplicationFactor c handle) then (recovered, c)
      else if rm_HasReplica (ma_replicas (cl_master c)) handle destination
      then recover_loop net handle now source destinations recovered c
      else case TransferReplica net handle source destination c of
        (False, c) \<Rightarrow> recover_loop net handle now source destinations recovered c
      | (True, c) \<Rightarrow>
          (case on_master (ma_RegisterReplica handle destination False) c of
             (False, c) \<Rightarrow> recover_loop net handle now source destinations recovered c
           | (True, c) \<Rightarrow> recover_loop net handle now source destinations True c))"

definition RecoverChunk :: "'w network \<Rightarrow> chunk_handle \<Rightarrow> time_ms \<Rightarrow> 'w cluster \<Rightarrow> bool \<times> 'w cluster" where
  "RecoverChunk net handle now c =
     (if handle = 0 \<or> md_GetChunk (ma_metadata (cl_master c)) handle = None then (False, c)
      else
        let stale = ma_GetStaleReplicas (cl_master c) handle;
            replicas = rm_GetReplicaServers (ma_replicas (cl_master c)) handle;
            c = drop_dead handle now replicas c;
            healthy = GetHealthyCurrentReplicas c handle now in
        if healthy = [] then (False, drop_replicas handle stale c)
        else
          let current_primary = rm_GetPrimary (ma_replicas (cl_master c)) handle in
          and_then
            (if (case current_primary of None \<Rightarrow> True | Some p \<Rightarrow> \<not> IsHealthyCurrentReplica c handle p now)
             then on_master (ma_SetPrimary handle (hd healthy)) c else (True, c))
            (\<lambda>c. if \<not> NeedsReReplication c handle now then (True, drop_replicas handle stale c)
              else case FindRecoverySource c handle now of
                None \<Rightarrow> (False, drop_replicas handle stale c)
              | Some source \<Rightarrow>
                  let destinations = GetRecoveryDestinations c handle now;
                      c = drop_replicas handle stale c in
                  if destinations = [] then (False, c)
                  else case recover_loop net handle now source destinations False c of
                    (recovered, c) \<Rightarrow> (recovered \<or> \<not> NeedsReReplication c handle now, c)))"

text \<open>The loops of \<open>RecoverFailedChunkservers\<close> and \<open>RecoverAll\<close> over the chunks they select.\<close>

fun recover_each ::
    "('w cluster \<Rightarrow> chunk_handle \<Rightarrow> bool) \<Rightarrow> 'w network \<Rightarrow> time_ms \<Rightarrow> chunk_handle list \<Rightarrow> chunk_handle list \<Rightarrow> 'w cluster \<Rightarrow>
      chunk_handle list \<times> 'w cluster" where
  "recover_each wanted net now [] recovered c = (recovered, c)"
| "recover_each wanted net now (handle # handles) recovered c =
     (if \<not> wanted c handle then recover_each wanted net now handles recovered c
      else case RecoverChunk net handle now c of
        (ok, c) \<Rightarrow> recover_each wanted net now handles (if ok then recovered @ [handle] else recovered) c)"

definition RecoverFailedChunkservers :: "'w network \<Rightarrow> time_ms \<Rightarrow> 'w cluster \<Rightarrow> chunk_handle list \<times> 'w cluster" where
  "RecoverFailedChunkservers net now c =
     (let c = snd (on_master (ma_DetectFailedChunkservers now) c);
          failed = hb_GetFailedServers (ma_heartbeats (cl_master c));
          affected = sort (remdups (concat (map (rm_GetChunksForServer (ma_replicas (cl_master c))) failed))) in
      recover_each (\<lambda>c handle. True) net now affected [] c)"

definition RecoverAll :: "'w network \<Rightarrow> time_ms \<Rightarrow> 'w cluster \<Rightarrow> chunk_handle list \<times> 'w cluster" where
  "RecoverAll net now c =
     recover_each (\<lambda>c handle. NeedsReReplication c handle now) net now (ma_GetAllChunkHandles (cl_master c)) [] c"

section \<open>What the operations on the master keep\<close>

abbreviation replicas_of :: "'w cluster \<Rightarrow> chunk_handle \<Rightarrow> server_id list" where
  "replicas_of c h \<equiv> rm_GetReplicaServers (ma_replicas (cl_master c)) h"

definition same_view :: "'w cluster \<Rightarrow> 'w cluster \<Rightarrow> bool" where
  "same_view c c' \<longleftrightarrow> ma_heartbeats (cl_master c') = ma_heartbeats (cl_master c) \<and>
     ma_policy (cl_master c') = ma_policy (cl_master c) \<and>
     md_GetChunkVersion (ma_metadata (cl_master c')) = md_GetChunkVersion (ma_metadata (cl_master c)) \<and>
     md_GetChunkReplicationFactor (ma_metadata (cl_master c')) = md_GetChunkReplicationFactor (ma_metadata (cl_master c)) \<and>
     md_ChunkExists (ma_metadata (cl_master c')) = md_ChunkExists (ma_metadata (cl_master c)) \<and>
     cl_chunkservers c' = cl_chunkservers c \<and> cl_endpoints c' = cl_endpoints c"

lemma same_view_refl [simp]: "same_view c c"
  by (simp add: same_view_def)

lemma same_view_trans: "same_view c c' \<Longrightarrow> same_view c' c'' \<Longrightarrow> same_view c c''"
  by (simp add: same_view_def)

lemma same_view_heap [simp]: "same_view c (c'\<lparr>cl_heap := heap\<rparr>) = same_view c c'" "same_view c (c'\<lparr>cl_world := w\<rparr>) = same_view c c'"
  by (simp_all add: same_view_def)

lemma release_if_tables [simp]:
  "ma_heartbeats (release_if P h m) = ma_heartbeats m" "ma_policy (release_if P h m) = ma_policy m"
  "ma_metadata (release_if P h m) = ma_metadata m"
  by (auto simp: release_if_def split: option.splits)

lemma md_RemoveReplica_view [simp]:
  "md_GetChunkVersion (snd (md_RemoveReplica md h s)) = md_GetChunkVersion md"
  "md_GetChunkReplicationFactor (snd (md_RemoveReplica md h s)) = md_GetChunkReplicationFactor md"
  "md_ChunkExists (snd (md_RemoveReplica md h s)) = md_ChunkExists md"
  by (auto simp: fun_eq_iff md_RemoveReplica_def cm_RemoveReplica_def md_put_chunk_def md_GetChunkVersion_def
      md_GetChunkReplicationFactor_def md_ChunkExists_def update_conv' split: option.splits)

lemma on_master_eq: "on_master f c = (fst (f (cl_master c)), c\<lparr>cl_master := snd (f (cl_master c))\<rparr>)"
  by (simp add: on_master_def split: prod.splits)

lemma master_updates [simp]:
  "cl_chunkservers (snd (on_master f c)) = cl_chunkservers c" "cl_endpoints (snd (on_master f c)) = cl_endpoints c"
  "cl_heap (snd (on_master f c)) = cl_heap c" "cl_world (snd (on_master f c)) = cl_world c"
  "cl_master (snd (on_master f c)) = snd (f (cl_master c))" "fst (on_master f c) = fst (f (cl_master c))"
  by (simp_all add: on_master_eq)

lemma master_ops_view:
  "same_view c (snd (on_master (ma_RemoveReplica h s) c))" "same_view c (snd (on_master (ma_SetPrimary h s) c))"
  "same_view c (snd (on_master (ma_RegisterReplica h s p) c))"
  by (simp_all add: same_view_def ma_RemoveReplica_def ma_SetPrimary_def ma_RegisterReplica_def and_then_eq Let_def)

lemma GetChunk_None: "md_GetChunk md h = None \<longleftrightarrow> \<not> md_ChunkExists md h"
  by (simp add: md_GetChunk_def md_ChunkExists_def)

lemma stale_cong: "same_view c c' \<Longrightarrow> ma_IsStaleReplica (cl_master c') h s = ma_IsStaleReplica (cl_master c) h s"
  unfolding ma_IsStaleReplica_def same_view_def by (elim conjE) (simp only:)

lemma healthy_cong:
  assumes "same_view c c'" and "\<And>a. map_of (cl_chunkservers c) s = Some a \<Longrightarrow> cv_ChunkExists (cl_heap c' a) h = cv_ChunkExists (cl_heap c a) h"
  shows "IsHealthyCurrentReplica c' h s now = IsHealthyCurrentReplica c h s now"
  using assms stale_cong [OF assms(1), of h s]
  by (auto simp: IsHealthyCurrentReplica_def same_view_def GetChunkserver_def GetChunkserverEndpoint_def split: option.splits)

lemma desired_cong: "same_view c c' \<Longrightarrow> GetDesiredReplicationFactor c' h = GetDesiredReplicationFactor c h"
  by (simp add: same_view_def GetDesiredReplicationFactor_def)

lemma has_cong: "same_view c c' \<Longrightarrow> HasChunkserver c' s = HasChunkserver c s"
  by (simp add: same_view_def HasChunkserver_def)

section \<open>Replica sets\<close>

lemma replicas_props:
  assumes "rm_inv t"
  shows "distinct (rm_GetReplicaServers t h)" "0 \<notin> set (rm_GetReplicaServers t h)"
    "rm_HasReplica t h s \<longleftrightarrow> s \<in> set (rm_GetReplicaServers t h)"
  using rm_inv_lookup [OF assms, of h]
  by (auto simp: rm_GetReplicaServers_def rm_HasReplica_def replicas_ok_def list_ex_iff split: option.splits)

lemma removed_servers:
  assumes "rm_inv t"
  shows "set (rm_GetReplicaServers (snd (rm_RemoveReplica t h s)) g) = set (rm_GetReplicaServers t g) - (if g = h then {s} else {})"
proof (cases "fst (rm_RemoveReplica t h s)")
  case True
  then obtain t' where t': "rm_RemoveReplica t h s = (True, t')" by (metis prod.collapse)
  show ?thesis
    using RemoveReplica_servers(1) [OF assms t'] RemoveReplica_servers(2) [OF assms t', of g] t' by (cases "g = h") (simp_all add: rm_GetReplicaServers_def)
next
  case False
  then have same: "snd (rm_RemoveReplica t h s) = t"
    by (auto simp: rm_RemoveReplica_def Let_def split: option.splits if_splits)
  have "s \<notin> set (rm_GetReplicaServers t h)"
  proof
    assume s: "s \<in> set (rm_GetReplicaServers t h)"
    then obtain rs where rs: "map_of t h = Some rs" "s \<in> ri_server ` set rs"
      by (cases "map_of t h") (simp_all add: rm_GetReplicaServers_def)
    then have "find (\<lambda>r. ri_server r = s) rs \<noteq> None" by (auto simp: find_None_set)
    then show False
      using False rs rm_inv_lookup [OF assms rs(1)]
      by (auto simp: rm_RemoveReplica_def replicas_ok_def Let_def split: option.splits if_splits)
  qed
  then show ?thesis using same by simp
qed

lemma registered_servers:
  assumes "h \<noteq> 0" and "s \<noteq> 0"
  shows "set (rm_GetReplicaServers (snd (rm_RegisterReplica t h s p)) g) =
    set (rm_GetReplicaServers t g) \<union> (if g = h then {s} else {})"
proof -
  define rs where "rs = (case map_of t h of None \<Rightarrow> [] | Some rs \<Rightarrow> rs)"
  have old: "rm_GetReplicaServers t h = map ri_server rs" by (simp add: rs_def rm_GetReplicaServers_def split: option.splits)
  have "\<exists>rs'. snd (rm_RegisterReplica t h s p) = AList.update h rs' t \<and> ri_server ` set rs' = insert s (ri_server ` set rs)"
  proof (cases "find (\<lambda>r. ri_server r = s) rs")
    case None
    then have "snd (rm_RegisterReplica t h s p) =
        AList.update h ((if p then clear_primaries rs else rs) @ [\<lparr>ri_server = s, ri_primary = p\<rparr>]) t"
      using assms by (simp add: rm_RegisterReplica_def Let_def rs_def [symmetric])
    moreover have "ri_server ` set (if p then clear_primaries rs else rs) = ri_server ` set rs" by simp
    ultimately show ?thesis by (intro exI conjI) (assumption, simp add: image_Un)
  next
    case (Some r)
    have "map ri_server (update_first (\<lambda>r. ri_server r = s) (\<lambda>r. r\<lparr>ri_primary := True\<rparr>) (clear_primaries rs)) = map ri_server rs"
      by (subst map_update_first) simp_all
    then have "ri_server ` set (update_first (\<lambda>r. ri_server r = s) (\<lambda>r. r\<lparr>ri_primary := True\<rparr>) (clear_primaries rs)) =
        ri_server ` set rs" by (metis list.set_map)
    moreover have "s \<in> ri_server ` set rs" using find_Some_set [OF Some] by auto
    ultimately show ?thesis
      using assms Some by (auto simp: rm_RegisterReplica_def Let_def rs_def [symmetric] insert_absorb)
  qed
  then obtain rs' where rs': "snd (rm_RegisterReplica t h s p) = AList.update h rs' t"
      "ri_server ` set rs' = insert s (ri_server ` set rs)" by blast
  then have "rm_GetReplicaServers (snd (rm_RegisterReplica t h s p)) g = (if g = h then map ri_server rs' else rm_GetReplicaServers t g)"
    by (simp add: rm_GetReplicaServers_def update_conv')
  then show ?thesis using old rs'(2) by simp
qed

lemma removed_replicas:
  assumes "ma_inv (cl_master c)"
  shows "ma_inv (cl_master (snd (on_master (ma_RemoveReplica h s) c)))"
    and "set (replicas_of (snd (on_master (ma_RemoveReplica h s) c)) g) =
    set (replicas_of c g) - (if g = h then {s} else {})"
proof -
  show "ma_inv (cl_master (snd (on_master (ma_RemoveReplica h s) c)))" using assms by (simp add: ma_RemoveReplica_inv)
  have "ma_replicas (snd (ma_RemoveReplica h s (cl_master c))) = snd (rm_RemoveReplica (ma_replicas (cl_master c)) h s)"
    by (simp add: ma_RemoveReplica_def and_then_eq Let_def)
  then show "set (replicas_of (snd (on_master (ma_RemoveReplica h s) c)) g) = set (replicas_of c g) - (if g = h then {s} else {})"
    using removed_servers [OF ma_inv_tablesD(1) [OF assms], of h s g] by simp
qed

lemma drop_replicas_result:
  assumes "ma_inv (cl_master c)"
  shows "ma_inv (cl_master (drop_replicas h ss c)) \<and> same_view c (drop_replicas h ss c) \<and>
    cl_heap (drop_replicas h ss c) = cl_heap c \<and> cl_world (drop_replicas h ss c) = cl_world c \<and>
    (\<forall>g. set (replicas_of (drop_replicas h ss c) g) = set (replicas_of c g) - (if g = h then set ss else {}))"
  using assms
proof (induction ss arbitrary: c)
  case (Cons s ss)
  let ?c = "snd (on_master (ma_RemoveReplica h s) c)"
  have step: "drop_replicas h (s # ss) c = drop_replicas h ss ?c" by (simp add: drop_replicas_def)
  show ?case
    unfolding step using Cons.IH [OF removed_replicas(1) [OF Cons.prems, of h s]] removed_replicas(2) [OF Cons.prems, of h s]
      same_view_trans [OF master_ops_view(1) [of c h s]] by auto
qed (simp add: drop_replicas_def)

lemma drop_dead_result:
  assumes "ma_inv (cl_master c)"
  shows "ma_inv (cl_master (drop_dead h now ss c)) \<and> same_view c (drop_dead h now ss c) \<and>
    cl_heap (drop_dead h now ss c) = cl_heap c \<and> cl_world (drop_dead h now ss c) = cl_world c \<and>
    (\<forall>g. set (replicas_of (drop_dead h now ss c) g) =
      set (replicas_of c g) - (if g = h then {s \<in> set ss. \<not> hb_IsServerAliveAt (ma_heartbeats (cl_master c)) s now} else {}))"
  using assms
proof (induction ss arbitrary: c)
  case (Cons s ss)
  show ?case
  proof (cases "hb_IsServerAliveAt (ma_heartbeats (cl_master c)) s now")
    case True
    then have "drop_dead h now (s # ss) c = drop_dead h now ss c" by (simp add: drop_dead_def)
    then show ?thesis using Cons.IH [OF Cons.prems] True by auto
  next
    case False
    let ?c = "snd (on_master (ma_RemoveReplica h s) c)"
    have step: "drop_dead h now (s # ss) c = drop_dead h now ss ?c" using False by (simp add: drop_dead_def)
    have hb: "ma_heartbeats (cl_master ?c) = ma_heartbeats (cl_master c)"
      using master_ops_view(1) [of c h s] by (simp add: same_view_def)
    show ?thesis
      unfolding step using Cons.IH [OF removed_replicas(1) [OF Cons.prems, of h s]] removed_replicas(2) [OF Cons.prems, of h s] False
        same_view_trans [OF master_ops_view(1) [of c h s]] unfolding hb by auto
  qed
qed (simp add: drop_dead_def)

section \<open>A cluster of registered servers\<close>

lemma cv_ops_identity [simp]:
  "cv_server_id (snd (on_sums f s)) = cv_server_id s" "cv_server_id (snd (on_storage g s)) = cv_server_id s"
  "cv_server_id (snd (ResetChunk h s)) = cv_server_id s"
  by (simp_all add: on_sums_eq on_storage_eq ResetChunk_def)

lemma cv_server_id_kept [simp]:
  "cv_server_id (snd (cv_CreateChunk h s)) = cv_server_id s" "cv_server_id (snd (cv_DeleteChunk h s)) = cv_server_id s"
  "cv_server_id (snd (cv_ReadChunk h offset len s)) = cv_server_id s" "cv_server_id (snd (cv_WriteChunk h offset data s)) = cv_server_id s"
  "cv_server_id (snd (cv_TruncateChunk h sz s)) = cv_server_id s"
  by (simp_all add: cv_CreateChunk_def cv_DeleteChunk_def cv_ReadChunk_def cv_WriteChunk_def cv_TruncateChunk_def and_then_eq
      case_prod_beta)

lemma Receive_identity [simp]: "cv_server_id (snd (Receive h data s)) = cv_server_id s"
  by (simp add: Receive_def and_then_eq case_prod_beta split: bool.splits)

lemma ReadLocalChunk_identity [simp]: "cv_server_id (snd (ReadLocalChunk h s)) = cv_server_id s"
  by (simp add: ReadLocalChunk_def Let_def)

definition cluster_ok :: "'w cluster \<Rightarrow> bool" where
  "cluster_ok c \<longleftrightarrow> ma_inv (cl_master c) \<and> distinct (map fst (cl_chunkservers c)) \<and>
     (\<forall>server a. map_of (cl_chunkservers c) server = Some a \<longrightarrow>
        server \<noteq> 0 \<and> cv_server_id (cl_heap c a) = server \<and> cv_inv (cl_heap c a))"

definition bytes_at :: "'w cluster \<Rightarrow> server_id \<Rightarrow> chunk_handle \<Rightarrow> string option" where
  "bytes_at c server h = (case GetChunkserver c server of None \<Rightarrow> None | Some a \<Rightarrow> cv_bytes (cl_heap c a) h)"

lemma cluster_okD:
  assumes "cluster_ok c"
  shows "ma_inv (cl_master c)" "GetChunkserver c server = Some a \<Longrightarrow> server \<noteq> 0"
    "GetChunkserver c server = Some a \<Longrightarrow> cv_server_id (cl_heap c a) = server" "GetChunkserver c server = Some a \<Longrightarrow> cv_inv (cl_heap c a)"
  using assms by (auto simp: cluster_ok_def GetChunkserver_def)

text \<open>Different servers are different objects.\<close>

lemma GetChunkserver_inject:
  "cluster_ok c \<Longrightarrow> GetChunkserver c x = Some a \<Longrightarrow> GetChunkserver c y = Some b \<Longrightarrow> a = b \<longleftrightarrow> x = y"
  by (metis cluster_okD(3) option.inject)

lemma heap_update:
  assumes ok: "cluster_ok c" and a: "GetChunkserver c server = Some a"
    and s: "cv_inv s" "cv_server_id s = server"
  shows "cluster_ok (c\<lparr>cl_heap := (cl_heap c)(a := s)\<rparr>)"
    and "bytes_at (c\<lparr>cl_heap := (cl_heap c)(a := s)\<rparr>) x g = (if x = server then cv_bytes s g else bytes_at c x g)"
proof -
  let ?c = "c\<lparr>cl_heap := (cl_heap c)(a := s)\<rparr>"
  have same: "GetChunkserver ?c = GetChunkserver c" by (simp add: fun_eq_iff GetChunkserver_def)
  show "cluster_ok ?c" using ok a s GetChunkserver_inject [OF ok a] unfolding cluster_ok_def GetChunkserver_def by fastforce
  show "bytes_at ?c x g = (if x = server then cv_bytes s g else bytes_at c x g)"
    unfolding bytes_at_def same using a GetChunkserver_inject [OF ok a, of x]
    by (cases "GetChunkserver c x") auto
qed

lemma ChunkExists_at: "cluster_ok c \<Longrightarrow> GetChunkserver c server = Some a \<Longrightarrow> cv_ChunkExists (cl_heap c a) h \<longleftrightarrow> bytes_at c server h \<noteq> None"
  using cv_ChunkExists_bytes [OF cluster_okD(4)] by (simp add: bytes_at_def)

text \<open>Every server that is known by an address is also registered as an object, so that no call goes over the network.\<close>

definition attached :: "'w cluster \<Rightarrow> bool" where
  "attached c \<longleftrightarrow> (\<forall>s. GetChunkserverEndpoint c s \<noteq> None \<longrightarrow> GetChunkserver c s \<noteq> None)"

lemma attached_cong: "same_view c c' \<Longrightarrow> attached c' = attached c"
  by (simp add: same_view_def attached_def GetChunkserver_def GetChunkserverEndpoint_def)

lemma attached_no_endpoints: "cl_endpoints c = [] \<Longrightarrow> attached c"
  by (simp add: attached_def GetChunkserverEndpoint_def)

lemma healthy_iff:
  assumes "cluster_ok c" and "attached c"
  shows "IsHealthyCurrentReplica c h s now \<longleftrightarrow> h \<noteq> 0 \<and> s \<noteq> 0 \<and> bytes_at c s h \<noteq> None \<and>
    \<not> ma_IsStaleReplica (cl_master c) h s \<and> hb_IsServerAliveAt (ma_heartbeats (cl_master c)) s now"
proof (cases "GetChunkserver c s")
  case None
  then have "GetChunkserverEndpoint c s = None" using assms(2) by (auto simp: attached_def)
  then show ?thesis using None by (simp add: IsHealthyCurrentReplica_def bytes_at_def)
next
  case (Some a)
  then show ?thesis using ChunkExists_at [OF assms(1) Some] by (simp add: IsHealthyCurrentReplica_def)
qed

lemma Send_eq:
  "h \<noteq> 0 \<Longrightarrow> target \<noteq> 0 \<Longrightarrow> Send h target (Some f) (s, w) =
    (case ReadLocalChunk h s of (None, s) \<Rightarrow> (False, s, w) | (Some data, s) \<Rightarrow>
       if length data > 64 * 2 ^ 20 then (False, s, w) else case f target h data w of (b, w) \<Rightarrow> (b, s, w))"
  by (simp add: Send_def unat_kChunkSize split: prod.splits option.splits)

lemma transfer_local_result:
  assumes ok: "cluster_ok c" and src: "GetChunkserver c x = Some a" and dst: "GetChunkserver c y = Some b" and ne: "x \<noteq> y"
    and h: "h \<noteq> 0" and r: "transfer_local h a b y (cl_heap c) = (res, heap)"
  shows "cluster_ok (c\<lparr>cl_heap := heap\<rparr>)" "res \<longleftrightarrow> bytes_at c x h \<noteq> None"
    "bytes_at (c\<lparr>cl_heap := heap\<rparr>) z g = (if res \<and> z = y \<and> g = h then bytes_at c x h else bytes_at c z g)"
proof -
  have ids: "y \<noteq> 0" "cv_server_id (cl_heap c a) = x" "cv_server_id (cl_heap c b) = y" "cv_inv (cl_heap c a)" "cv_inv (cl_heap c b)"
    "a \<noteq> b"
    using cluster_okD [OF ok] src dst GetChunkserver_inject [OF ok src dst] ne by auto
  have here: "bytes_at c x h = cv_bytes (cl_heap c a) h" using src by (simp add: bytes_at_def)
  have "cluster_ok (c\<lparr>cl_heap := heap\<rparr>) \<and> (res \<longleftrightarrow> bytes_at c x h \<noteq> None) \<and>
    bytes_at (c\<lparr>cl_heap := heap\<rparr>) z g = (if res \<and> z = y \<and> g = h then bytes_at c x h else bytes_at c z g)"
  proof (cases "cv_bytes (cl_heap c a) h")
    case None
    then have "\<not> cv_ChunkExists (cl_heap c a) h" using cv_ChunkExists_bytes [OF ids(4)] by simp
    then have "res = False" "heap = cl_heap c" using r by (simp_all add: transfer_local_def)
    then show ?thesis using ok None here by (simp add: bytes_at_def)
  next
    case (Some data)
    then have ex: "cv_ChunkExists (cl_heap c a) h" using cv_ChunkExists_bytes [OF ids(4)] by simp
    obtain res1 s1 where read: "ReadLocalChunk h (cl_heap c a) = (res1, s1)" by fastforce
    have s1: "cv_inv s1" "cv_bytes s1 = cv_bytes (cl_heap c a)" "res1 = Some data" "cv_server_id s1 = x"
      using ReadLocalChunk_result [OF ids(4) read] Some ReadLocalChunk_identity [of h "cl_heap c a"] read ids(2) by simp_all
    have len: "length data \<le> 64 * 2 ^ 20" using length_contents [OF ids(4), of h] Some by (simp add: contents_def)
    obtain b2 s2 where recv: "Receive h data (cl_heap c b) = (b2, s2)" by fastforce
    have s2: "cv_inv s2" "b2" "cv_bytes s2 = (cv_bytes (cl_heap c b))(h \<mapsto> data)" "cv_server_id s2 = y"
      using Receive_result [OF ids(5) recv] h len Receive_identity [of h data "cl_heap c b"] recv ids(3) by simp_all
    have res: "res = True" "heap = (cl_heap c)(b := s2, a := s1)"
      using r ex read s1(3) len h ids(1,3) recv s2(2) by (simp_all add: transfer_local_def Send_eq on_server_def)
    let ?c1 = "c\<lparr>cl_heap := (cl_heap c)(b := s2)\<rparr>"
    note up1 = heap_update [OF ok dst s2(1,4)]
    have src1: "GetChunkserver ?c1 x = Some a" using src by (simp add: GetChunkserver_def)
    note up2 = heap_update [OF up1(1) src1 s1(1,4)]
    have c': "c\<lparr>cl_heap := heap\<rparr> = ?c1\<lparr>cl_heap := (cl_heap ?c1)(a := s1)\<rparr>" using res(2) by simp
    have at: "bytes_at c x = cv_bytes (cl_heap c a)" "bytes_at c y = cv_bytes (cl_heap c b)"
      using src dst by (simp_all add: fun_eq_iff bytes_at_def)
    have "bytes_at (c\<lparr>cl_heap := heap\<rparr>) z g = (if z = y \<and> g = h then bytes_at c x h else bytes_at c z g)"
      unfolding c' up2(2) up1(2) using s1(2) s2(3) at Some ne by auto
    then show ?thesis using up2(1) res(1) Some here unfolding c' by simp
  qed
  then show "cluster_ok (c\<lparr>cl_heap := heap\<rparr>)" "res \<longleftrightarrow> bytes_at c x h \<noteq> None"
    "bytes_at (c\<lparr>cl_heap := heap\<rparr>) z g = (if res \<and> z = y \<and> g = h then bytes_at c x h else bytes_at c z g)" by blast+
qed

lemma TransferReplica_result:
  assumes ok: "cluster_ok c" and e: "attached c" and r: "TransferReplica net h x y c = (b, c')"
  shows "cluster_ok c'" "cl_master c' = cl_master c" "same_view c c'"
    "b \<longleftrightarrow> h \<noteq> 0 \<and> x \<noteq> y \<and> bytes_at c x h \<noteq> None \<and> GetChunkserver c y \<noteq> None"
    "bytes_at c' z g = (if b \<and> z = y \<and> g = h then bytes_at c x h else bytes_at c z g)"
proof -
  have "cluster_ok c' \<and> cl_master c' = cl_master c \<and> same_view c c' \<and>
    (b \<longleftrightarrow> h \<noteq> 0 \<and> x \<noteq> y \<and> bytes_at c x h \<noteq> None \<and> GetChunkserver c y \<noteq> None) \<and>
    (\<forall>z g. bytes_at c' z g = (if b \<and> z = y \<and> g = h then bytes_at c x h else bytes_at c z g))"
  proof (cases "h \<noteq> 0 \<and> x \<noteq> y \<and> GetChunkserver c x \<noteq> None \<and> GetChunkserver c y \<noteq> None")
    case True
    then obtain a1 a2 where a: "GetChunkserver c x = Some a1" "GetChunkserver c y = Some a2" and h: "h \<noteq> 0" and ne: "x \<noteq> y" by auto
    obtain res heap where t: "transfer_local h a1 a2 y (cl_heap c) = (res, heap)" by fastforce
    have "b = res" "c' = c\<lparr>cl_heap := heap\<rparr>"
      using r True a t cluster_okD(2) [OF ok a(1)] cluster_okD(2) [OF ok a(2)] by (simp_all add: TransferReplica_def)
    then show ?thesis using transfer_local_result [OF ok a ne h t] a ne h by simp
  next
    case False
    have "GetChunkserver c s = None \<Longrightarrow> GetChunkserverEndpoint c s = None" for s using e by (auto simp: attached_def)
    then have "b = False" "c' = c" using r False
      by (auto simp: TransferReplica_def split: if_splits option.splits)
    then show ?thesis using ok False by (auto simp: bytes_at_def)
  qed
  then show "cluster_ok c'" "cl_master c' = cl_master c" "same_view c c'"
    "b \<longleftrightarrow> h \<noteq> 0 \<and> x \<noteq> y \<and> bytes_at c x h \<noteq> None \<and> GetChunkserver c y \<noteq> None"
    "bytes_at c' z g = (if b \<and> z = y \<and> g = h then bytes_at c x h else bytes_at c z g)" by blast+
qed

end
