(* ===== verification/Repair.thy ===== *)
theory Repair
  imports Cluster
begin

text \<open>
  What \<open>RecoverChunk\<close> achieves when the disks of the servers make no errors: it only copies from a healthy
  current replica, it restores the replication factor when enough servers are free, and it copies
  nothing at all when fewer are free than replicas are missing. The locale \<open>replica_transfer\<close> says what a
  transfer has to do; it is interpreted here on servers that are objects in the process of the master, and in
  \<open>Transports\<close> on servers behind addresses.
\<close>

section \<open>The set of healthy replicas\<close>

definition healthy_set :: "'w cluster \<Rightarrow> chunk_handle \<Rightarrow> time_ms \<Rightarrow> server_id set" where
  "healthy_set c h now = {s \<in> set (replicas_of c h). IsHealthyCurrentReplica c h s now}"

lemma GetHealthyCurrentReplicas_set [simp]: "set (GetHealthyCurrentReplicas c h now) = healthy_set c h now"
  by (auto simp: GetHealthyCurrentReplicas_def healthy_set_def)

lemma GetHealthyReplicaCount_card:
  assumes "ma_inv (cl_master c)"
  shows "GetHealthyReplicaCount c h now = card (healthy_set c h now)"
  using distinct_card [of "GetHealthyCurrentReplicas c h now"] replicas_props(1) [OF ma_inv_tablesD(1) [OF assms]]
  by (simp add: GetHealthyReplicaCount_def GetHealthyCurrentReplicas_def healthy_set_def)

lemma finite_healthy_set [simp]: "finite (healthy_set c h now)"
  by (simp add: healthy_set_def)

text \<open>A step that only changes the replica set, the bytes staying as they are.\<close>

lemma healthy_set_cong:
  assumes "same_view c c'" and "cl_heap c' = cl_heap c"
  shows "healthy_set c' h now = {s \<in> set (replicas_of c' h). IsHealthyCurrentReplica c h s now}"
  using healthy_cong [OF assms(1), of s h now for s] assms(2) by (auto simp: healthy_set_def)

lemma cluster_ok_master:
  assumes "cluster_ok c" and "ma_inv (cl_master c')" and "same_view c c'" and "cl_heap c' = cl_heap c"
  shows "cluster_ok c'" "bytes_at c' = bytes_at c" "GetChunkserver c' = GetChunkserver c"
proof -
  show get: "GetChunkserver c' = GetChunkserver c" using assms(3) by (simp add: same_view_def GetChunkserver_def [abs_def])
  show "bytes_at c' = bytes_at c" unfolding bytes_at_def [abs_def] get assms(4) ..
  show "cluster_ok c'" using assms by (simp add: cluster_ok_def same_view_def)
qed

lemma register_result:
  assumes ok: "cluster_ok c" and h: "h \<noteq> 0" "d \<noteq> 0" and r: "on_master (ma_RegisterReplica h d p) c = (b, c')"
  shows "cluster_ok c'" "same_view c c'" "cl_heap c' = cl_heap c" "cl_world c' = cl_world c" "b \<longleftrightarrow> d \<notin> set (replicas_of c h)"
    "set (replicas_of c' g) = set (replicas_of c g) \<union> (if g = h then {d} else {})"
proof -
  have c': "c' = snd (on_master (ma_RegisterReplica h d p) c)" using r by simp
  show view: "same_view c c'" unfolding c' by (rule master_ops_view)
  show heap: "cl_heap c' = cl_heap c" and "cl_world c' = cl_world c" unfolding c' by simp_all
  have "ma_inv (cl_master c')" using ma_table_ops_inv(1) [OF cluster_okD(1) [OF ok]] by (simp add: c')
  then show "cluster_ok c'" by (rule cluster_ok_master [OF ok _ view heap])
  show "b \<longleftrightarrow> d \<notin> set (replicas_of c h)"
    using r RegisterReplica_has(3) [OF h, of "ma_replicas (cl_master c)" p]
      replicas_props(3) [OF ma_inv_tablesD(1) [OF cluster_okD(1) [OF ok]]]
    by (auto simp: on_master_eq ma_RegisterReplica_def)
  show "set (replicas_of c' g) = set (replicas_of c g) \<union> (if g = h then {d} else {})"
    using registered_servers [OF h, of "ma_replicas (cl_master c)" p g] by (simp add: c' ma_RegisterReplica_def)
qed

section \<open>Transfers\<close>

text \<open>
  What recovery and rebalancing rely on when they copy a chunk between two servers: \<open>holds\<close> says which bytes a
  server has, \<open>reach\<close> which servers can be written, and \<open>landed\<close> what becomes of the bytes on a server
  that had some of that chunk before. Steps that only change the tables of the master change none of this.
\<close>

locale replica_transfer =
  fixes net :: "'w network"
    and good :: "'w cluster \<Rightarrow> bool"
    and holds :: "'w cluster \<Rightarrow> server_id \<Rightarrow> chunk_handle \<Rightarrow> string option"
    and landed :: "string \<Rightarrow> string option \<Rightarrow> string"
    and reach :: "'w cluster \<Rightarrow> server_id \<Rightarrow> bool"
  assumes good_ok: "good c \<Longrightarrow> cluster_ok c"
    and records: "good c \<Longrightarrow> cluster_ok c' \<Longrightarrow> same_view c c' \<Longrightarrow> cl_heap c' = cl_heap c \<Longrightarrow> cl_world c' = cl_world c \<Longrightarrow>
      good c' \<and> holds c' = holds c \<and> reach c' = reach c"
    and transfer: "good c \<Longrightarrow> TransferReplica net h x y c = (b, c') \<Longrightarrow>
      good c' \<and> cl_master c' = cl_master c \<and> same_view c c' \<and> reach c' = reach c \<and>
      (b \<longleftrightarrow> h \<noteq> 0 \<and> x \<noteq> y \<and> holds c x h \<noteq> None \<and> reach c y) \<and>
      (\<forall>z g. holds c' z g = (if b \<and> z = y \<and> g = h then Some (landed (the (holds c x h)) (holds c y h)) else holds c z g))"
begin

text \<open>From \<open>c\<close> to \<open>c'\<close>, servers of \<open>ds\<close> without a replica may have been given the source's bytes and a replica; nothing else changes.\<close>

definition copied_to :: "server_id set \<Rightarrow> chunk_handle \<Rightarrow> string option \<Rightarrow> 'w cluster \<Rightarrow> 'w cluster \<Rightarrow> bool" where
  "copied_to ds h source c c' \<longleftrightarrow> good c' \<and> same_view c c' \<and>
     (\<forall>z g. holds c' z g \<noteq> holds c z g \<longrightarrow> g = h \<and> z \<in> set (replicas_of c' h) - set (replicas_of c h)) \<and>
     set (replicas_of c h) \<subseteq> set (replicas_of c' h) \<and>
     (\<forall>z \<in> set (replicas_of c' h) - set (replicas_of c h).
        z \<in> ds \<and> (\<exists>data. source = Some data \<and> holds c' z h = Some (landed data (holds c z h)))) \<and>
     (\<forall>g. g \<noteq> h \<longrightarrow> set (replicas_of c' g) = set (replicas_of c g))"

lemma copied_to_refl: "good c \<Longrightarrow> copied_to ds h source c c"
  by (simp add: copied_to_def)

lemma copied_to_mono: "copied_to ds h source c c' \<Longrightarrow> ds \<subseteq> ds' \<Longrightarrow> copied_to ds' h source c c'"
  by (auto simp: copied_to_def)

lemma copied_to_kept: "copied_to ds h source c c' \<Longrightarrow> z \<in> set (replicas_of c h) \<or> z \<notin> set (replicas_of c' h) \<Longrightarrow> holds c' z g = holds c z g"
  by (auto simp: copied_to_def)

lemma copied_toD: "copied_to ds h source c c' \<Longrightarrow> z \<in> set (replicas_of c' h) \<Longrightarrow> z \<notin> set (replicas_of c h) \<Longrightarrow>
    z \<in> ds \<and> (\<exists>data. source = Some data \<and> holds c' z h = Some (landed data (holds c z h)))"
  by (auto simp: copied_to_def)

lemma copied_to_trans:
  assumes "copied_to ds h source c c1" and "copied_to ds h source c1 c2"
  shows "copied_to ds h source c c2"
proof -
  have sub: "set (replicas_of c h) \<subseteq> set (replicas_of c1 h)" "set (replicas_of c1 h) \<subseteq> set (replicas_of c2 h)"
    using assms by (simp_all add: copied_to_def)
  have changed: "g = h \<and> z \<in> set (replicas_of c2 h) - set (replicas_of c h)" if "holds c2 z g \<noteq> holds c z g" for z g
  proof (cases "holds c1 z g = holds c z g")
    case True
    then have "g = h \<and> z \<in> set (replicas_of c2 h) - set (replicas_of c1 h)" using assms(2) that unfolding copied_to_def by metis
    then show ?thesis using sub by blast
  next
    case False
    then have "g = h \<and> z \<in> set (replicas_of c1 h) - set (replicas_of c h)" using assms(1) unfolding copied_to_def by metis
    then show ?thesis using sub by blast
  qed
  have new: "z \<in> ds \<and> (\<exists>data. source = Some data \<and> holds c2 z h = Some (landed data (holds c z h)))"
    if z: "z \<in> set (replicas_of c2 h) - set (replicas_of c h)" for z
  proof (cases "z \<in> set (replicas_of c1 h)")
    case True
    then show ?thesis using copied_toD [OF assms(1), of z] z copied_to_kept [OF assms(2), of z h] by simp
  next
    case False
    then show ?thesis using copied_toD [OF assms(2), of z] z copied_to_kept [OF assms(1), of z h] by simp
  qed
  have "\<forall>z g. holds c2 z g \<noteq> holds c z g \<longrightarrow> g = h \<and> z \<in> set (replicas_of c2 h) - set (replicas_of c h)"
    using changed by (intro allI impI)
  moreover have "\<forall>z \<in> set (replicas_of c2 h) - set (replicas_of c h).
      z \<in> ds \<and> (\<exists>data. source = Some data \<and> holds c2 z h = Some (landed data (holds c z h)))"
    using new by (intro ballI)
  moreover have "\<forall>g. g \<noteq> h \<longrightarrow> set (replicas_of c2 g) = set (replicas_of c g)" "good c2" "same_view c c2"
    using assms same_view_trans [of c c1 c2] by (simp_all add: copied_to_def)
  moreover have "set (replicas_of c h) \<subseteq> set (replicas_of c2 h)" using sub by (rule subset_trans)
  ultimately show ?thesis unfolding copied_to_def by (intro conjI)
qed

lemma copied_to_from:
  assumes "copied_to ds h source c1 c'" and "same_view c c1" and "replicas_of c1 = replicas_of c" and "holds c1 = holds c"
  shows "copied_to ds h source c c'"
  using assms(1) same_view_trans [OF assms(2), of c'] unfolding copied_to_def assms(3,4) by (elim conjE) (intro conjI)

text \<open>One step: a transfer that succeeds, followed by the registration.\<close>

lemma copy_step:
  assumes good: "good c" and h: "h \<noteq> 0" "d \<noteq> 0" and new: "d \<notin> set (replicas_of c h)"
    and t: "TransferReplica net h x d c = (True, c1)" and r: "on_master (ma_RegisterReplica h d p) c1 = (b, c2)"
  shows "b" "copied_to {d} h (holds c x h) c c2" "set (replicas_of c2 h) = insert d (set (replicas_of c h))" "reach c2 = reach c"
    "holds c2 z g = (if z = d \<and> g = h then Some (landed (the (holds c x h)) (holds c d h)) else holds c z g)"
proof -
  note tr = transfer [OF good t]
  have good1: "good c1" and master: "cl_master c1 = cl_master c" and view1: "same_view c c1" and reach1: "reach c1 = reach c"
    and src: "holds c x h \<noteq> None"
    and bytes1: "\<And>z g. holds c1 z g = (if z = d \<and> g = h then Some (landed (the (holds c x h)) (holds c d h)) else holds c z g)"
    using tr by simp_all
  note reg = register_result [OF good_ok [OF good1] h r]
  have after: "good c2" "holds c2 = holds c1" "reach c2 = reach c1" using records [OF good1 reg(1-4)] by simp_all
  show "b" using reg(5) master new by simp
  show "reach c2 = reach c" using after reach1 by simp
  have reps: "set (replicas_of c2 g) = set (replicas_of c g) \<union> (if g = h then {d} else {})" for g using reg(6) [of g] master by simp
  show "set (replicas_of c2 h) = insert d (set (replicas_of c h))" using reps [of h] by simp
  show bytes: "holds c2 z g = (if z = d \<and> g = h then Some (landed (the (holds c x h)) (holds c d h)) else holds c z g)" for z g
    using bytes1 after(2) by simp
  have "same_view c c2" by (rule same_view_trans [OF view1 reg(2)])
  moreover have "holds c2 z g \<noteq> holds c z g \<longrightarrow> g = h \<and> z \<in> set (replicas_of c2 h) - set (replicas_of c h)" for z g
    using bytes [of z g] reps [of h] new by simp
  ultimately show "copied_to {d} h (holds c x h) c c2"
    unfolding copied_to_def using after(1) reps bytes [of d h] src by auto
qed

lemma no_copy:
  assumes "good c" and "TransferReplica net h x d c = (False, c1)"
  shows "good c1" "same_view c c1" "replicas_of c1 = replicas_of c" "holds c1 = holds c"
  using transfer [OF assms] by (simp_all add: fun_eq_iff)

lemma recover_loop_copies:
  assumes "good c" and "h \<noteq> 0" and "0 \<notin> set ds" and "x \<notin> set ds" and "recover_loop net h now x ds recovered c = (b, c')"
  shows "copied_to (set ds) h (holds c x h) c c'"
  using assms
proof (induction ds arbitrary: c recovered)
  case Nil
  then show ?case by (simp add: copied_to_refl)
next
  case (Cons d ds)
  note good = Cons.prems(1)
  have rest: "copied_to (set (d # ds)) h (holds c1 x h) c1 c'"
    if "good c1" "recover_loop net h now x ds r c1 = (b, c')" for c1 r
    by (rule copied_to_mono [OF Cons.IH [OF that(1) Cons.prems(2) _ _ that(2)]]) (use Cons.prems(3,4) in auto)
  have rm: "rm_HasReplica (ma_replicas (cl_master c)) h d \<longleftrightarrow> d \<in> set (replicas_of c h)"
    by (rule replicas_props [OF ma_inv_tablesD(1) [OF cluster_okD(1) [OF good_ok [OF good]]]])
  obtain b1 c1 where t: "TransferReplica net h x d c = (b1, c1)" by fastforce
  consider (full) "unat (GetDesiredReplicationFactor c h) \<le> GetHealthyReplicaCount c h now"
    | (listed) "\<not> unat (GetDesiredReplicationFactor c h) \<le> GetHealthyReplicaCount c h now" "d \<in> set (replicas_of c h)"
    | (copy) "\<not> unat (GetDesiredReplicationFactor c h) \<le> GetHealthyReplicaCount c h now" "d \<notin> set (replicas_of c h)" by blast
  then show ?case
  proof cases
    case full
    then show ?thesis using Cons.prems(5) good by (simp add: copied_to_refl)
  next
    case listed
    then show ?thesis using rest [OF good] rm Cons.prems(5) by simp
  next
    case copy
    show ?thesis
    proof (cases b1)
      case False
      then have t0: "TransferReplica net h x d c = (False, c1)" using t by simp
      note same = no_copy [OF good t0]
      have "recover_loop net h now x ds recovered c1 = (b, c')" using Cons.prems(5) copy rm t False by simp
      from copied_to_from [OF rest [OF same(1) this] same(2,3,4)] show ?thesis by (simp only: same(4))
    next
      case True
      obtain b2 c2 where r: "on_master (ma_RegisterReplica h d False) c1 = (b2, c2)" by fastforce
      have d: "d \<noteq> 0" "x \<noteq> d" using Cons.prems(3,4) by auto
      have t1: "TransferReplica net h x d c = (True, c1)" using t True by simp
      note step = copy_step [OF good Cons.prems(2) d(1) copy(2) t1 r]
      have "good c2" using step(2) by (simp add: copied_to_def)
      moreover have "recover_loop net h now x ds True c2 = (b, c')" using Cons.prems(5) copy rm t True r step(1) by simp
      ultimately have "copied_to (set (d # ds)) h (holds c2 x h) c2 c'" by (rule rest)
      moreover have "holds c2 x h = holds c x h" using step(5) [of x h] d(2) by simp
      ultimately show ?thesis using copied_to_trans [OF copied_to_mono [OF step(2)]] by simp
    qed
  qed
qed

text \<open>The first turn of the loop succeeds when the source has the chunk and the server can be written.\<close>

lemma recover_loop_adds:
  assumes good: "good c" and h: "h \<noteq> 0" and ds: "0 \<notin> set (d # ds)" "x \<notin> set (d # ds)"
    and wanted: "GetHealthyReplicaCount c h now < unat (GetDesiredReplicationFactor c h)" and new: "d \<notin> set (replicas_of c h)"
    and can: "holds c x h \<noteq> None" "reach c d" and r: "recover_loop net h now x (d # ds) recovered c = (b, c')"
  shows "d \<in> set (replicas_of c' h)"
proof -
  have rm: "\<not> rm_HasReplica (ma_replicas (cl_master c)) h d"
    using replicas_props(3) [OF ma_inv_tablesD(1) [OF cluster_okD(1) [OF good_ok [OF good]]]] new by simp
  obtain b1 c1 where t: "TransferReplica net h x d c = (b1, c1)" by fastforce
  have "b1" using transfer [OF good t] h ds can by auto
  then have t': "TransferReplica net h x d c = (True, c1)" using t by simp
  obtain b2 c2 where reg: "on_master (ma_RegisterReplica h d False) c1 = (b2, c2)" by fastforce
  have "d \<noteq> 0" using ds by auto
  note step = copy_step [OF good h this new t' reg]
  have "recover_loop net h now x ds True c2 = (b, c')" using r wanted rm t' reg step(1) by simp
  moreover have "good c2" using step(2) by (simp add: copied_to_def)
  ultimately have "copied_to (set ds) h (holds c2 x h) c2 c'" using recover_loop_copies [OF _ h] ds by auto
  then show ?thesis using step(3) by (auto simp: copied_to_def)
qed

end

text \<open>Between registered objects a transfer replaces what the destination has.\<close>

interpretation objects: replica_transfer net "\<lambda>c. cluster_ok c \<and> attached c" bytes_at "\<lambda>data old. data" "\<lambda>c s. GetChunkserver c s \<noteq> None"
  for net
proof
  fix c c' :: "'a cluster" and h x y b
  show "cluster_ok c \<and> attached c \<Longrightarrow> cluster_ok c" by simp
  show "cluster_ok c \<and> attached c \<Longrightarrow> cluster_ok c' \<Longrightarrow> same_view c c' \<Longrightarrow> cl_heap c' = cl_heap c \<Longrightarrow>
      (cluster_ok c' \<and> attached c') \<and> bytes_at c' = bytes_at c \<and> (\<lambda>s. GetChunkserver c' s \<noteq> None) = (\<lambda>s. GetChunkserver c s \<noteq> None)"
    using cluster_ok_master(2,3) [of c c'] attached_cong [of c c'] by (auto simp: cluster_okD(1))
  assume good: "cluster_ok c \<and> attached c" and t: "TransferReplica net h x y c = (b, c')"
  note tr = TransferReplica_result [OF conjunct1 [OF good] conjunct2 [OF good] t]
  have "GetChunkserver c' = GetChunkserver c" using tr(3) by (simp add: fun_eq_iff same_view_def GetChunkserver_def)
  then show "(cluster_ok c' \<and> attached c') \<and> cl_master c' = cl_master c \<and> same_view c c' \<and>
      (\<lambda>s. GetChunkserver c' s \<noteq> None) = (\<lambda>s. GetChunkserver c s \<noteq> None) \<and>
      (b \<longleftrightarrow> h \<noteq> 0 \<and> x \<noteq> y \<and> bytes_at c x h \<noteq> None \<and> GetChunkserver c y \<noteq> None) \<and>
      (\<forall>z g. bytes_at c' z g = (if b \<and> z = y \<and> g = h then Some (the (bytes_at c x h)) else bytes_at c z g))"
    using tr good attached_cong [OF tr(3)] by auto
qed

section \<open>Restoring the replication factor\<close>

text \<open>With servers that can take the chunk, every turn of the loop adds one healthy replica.\<close>

definition can_take :: "'w cluster \<Rightarrow> chunk_handle \<Rightarrow> time_ms \<Rightarrow> server_id \<Rightarrow> bool" where
  "can_take c h now d \<longleftrightarrow> GetChunkserver c d \<noteq> None \<and> d \<notin> set (replicas_of c h) \<and>
     \<not> ma_IsStaleReplica (cl_master c) h d \<and> hb_IsServerAliveAt (ma_heartbeats (cl_master c)) d now"

lemma copied_healthy:
  assumes ok: "cluster_ok c" "attached c" "cluster_ok c2" and view: "same_view c c2"
    and h: "h \<noteq> 0" and d: "can_take c h now d" and reps: "set (replicas_of c2 h) = insert d (set (replicas_of c h))"
    and bytes: "\<And>z. bytes_at c2 z h = (if z = d then Some content else bytes_at c z h)"
  shows "healthy_set c2 h now = insert d (healthy_set c h now)" "d \<notin> healthy_set c h now"
proof -
  have "d \<noteq> 0" using d cluster_okD(2) [OF ok(1)] by (auto simp: can_take_def)
  moreover have "attached c2" using ok(2) attached_cong [OF view] by simp
  ultimately have "IsHealthyCurrentReplica c2 h z now \<longleftrightarrow> (if z = d then True else IsHealthyCurrentReplica c h z now)" for z
    using healthy_iff [OF ok(1,2), of h z now] healthy_iff [OF ok(3), of h z now] bytes [of z] d h stale_cong [OF view, of h z] view
    by (auto simp: can_take_def same_view_def)
  then show "healthy_set c2 h now = insert d (healthy_set c h now)" using reps by (auto simp: healthy_set_def)
  show "d \<notin> healthy_set c h now" using d by (simp add: healthy_set_def can_take_def)
qed

lemma recover_loop_fills:
  assumes "cluster_ok c" and "attached c" and "h \<noteq> 0" and "distinct ds" and "x \<notin> set ds"
    and "bytes_at c x h = Some content" and "\<forall>d \<in> set ds. can_take c h now d"
    and "recover_loop net h now x ds recovered c = (b, c')" and "n = unat (GetDesiredReplicationFactor c h)"
  shows "card (healthy_set c' h now) = max (card (healthy_set c h now)) (min n (card (healthy_set c h now) + length ds)) \<and>
    (b \<longleftrightarrow> recovered \<or> card (healthy_set c h now) < n \<and> ds \<noteq> [])"
  using assms
proof (induction ds arbitrary: c recovered)
  case (Cons d ds)
  note ok = Cons.prems(1,2)
  note h = Cons.prems(3)
  note count = GetHealthyReplicaCount_card [OF cluster_okD(1) [OF ok(1)]]
  show ?case
  proof (cases "n \<le> card (healthy_set c h now)")
    case True
    then show ?thesis using Cons.prems(8,9) by (auto simp: count)
  next
    case wanted: False
    have d: "can_take c h now d" using Cons.prems(7) by simp
    have d0: "d \<noteq> 0" using d cluster_okD(2) [OF ok(1)] by (auto simp: can_take_def)
    have new: "d \<notin> set (replicas_of c h)" using d by (simp add: can_take_def)
    then have rm: "\<not> rm_HasReplica (ma_replicas (cl_master c)) h d"
      using replicas_props(3) [OF ma_inv_tablesD(1) [OF cluster_okD(1) [OF ok(1)]]] by simp
    obtain b1 c1 where t: "TransferReplica net h x d c = (b1, c1)" by fastforce
    have "b1" using TransferReplica_result(4) [OF ok t] h d Cons.prems(5,6) by (auto simp: can_take_def)
    then have t': "TransferReplica net h x d c = (True, c1)" using t by simp
    obtain b2 c2 where r: "on_master (ma_RegisterReplica h d False) c1 = (b2, c2)" by fastforce
    note step = objects.copy_step [OF conjI [OF ok] h d0 new t' r]
    have c2: "cluster_ok c2" "attached c2" "same_view c c2" using step(2) by (simp_all add: objects.copied_to_def)
    have bytes: "bytes_at c2 z h = (if z = d then Some content else bytes_at c z h)" for z
      using step(5) [of z h] Cons.prems(6) by simp
    have healthy: "healthy_set c2 h now = insert d (healthy_set c h now)" "d \<notin> healthy_set c h now"
      by (rule copied_healthy [OF ok c2(1,3) h d step(3) bytes])+
    have card: "card (healthy_set c2 h now) = Suc (card (healthy_set c h now))" using healthy by simp
    have "recover_loop net h now x ds True c2 = (b, c')"
      using Cons.prems(8) wanted rm t' r step(1) by (simp add: count Cons.prems(9))
    moreover have "bytes_at c2 x h = Some content" using bytes [of x] Cons.prems(5,6) by simp
    moreover have "can_take c2 h now e" if "e \<in> set ds" for e
    proof -
      have "can_take c h now e" "e \<noteq> d" using Cons.prems(4,7) that by auto
      then show ?thesis using c2(3) step(3) stale_cong [OF c2(3), of h e]
        by (auto simp: can_take_def same_view_def GetChunkserver_def)
    qed
    moreover have "n = unat (GetDesiredReplicationFactor c2 h)" using Cons.prems(9) desired_cong [OF c2(3)] by simp
    ultimately have "card (healthy_set c' h now) = max (card (healthy_set c2 h now)) (min n (card (healthy_set c2 h now) + length ds)) \<and> b"
      using Cons.IH [of c2 True] c2(1,2) h Cons.prems(4,5) by simp
    then show ?thesis using card wanted by auto
  qed
qed auto

section \<open>The steps before the copying\<close>

definition free_servers :: "'w cluster \<Rightarrow> chunk_handle \<Rightarrow> time_ms \<Rightarrow> server_id set" where
  "free_servers c h now = {s. s \<notin> set (replicas_of c h) \<and> hb_IsServerAliveAt (ma_heartbeats (cl_master c)) s now \<and>
     HasChunkserver c s}"

lemma alive_live: "hb_IsServerAliveAt hb s now \<Longrightarrow> s \<in> set (hb_GetLiveServers hb)"
  by (auto simp: hb_IsServerAliveAt_def hb_GetLiveServers_def split: if_splits option.splits dest!: map_of_SomeD intro!: image_eqI)

lemma stale_replicas:
  assumes "h \<noteq> 0" and "0 \<notin> set (replicas_of c h)"
  shows "set (ma_GetStaleReplicas (cl_master c) h) = {s \<in> set (replicas_of c h). ma_IsStaleReplica (cl_master c) h s}"
  using assms by (auto simp: ma_GetStaleReplicas_def ma_IsStaleReplica_def split: option.splits)

lemma candidates_free:
  assumes inv: "ma_inv (cl_master c)" and h: "h \<noteq> 0"
  shows "pl_server ` set (recovery_candidates c h now) = free_servers c h now"
proof -
  have z: "0 \<notin> set (replicas_of c h)" by (rule replicas_props(2) [OF ma_inv_tablesD(1) [OF inv]])
  have "s \<noteq> 0" if "HasChunkserver c s" for s using that by (simp add: HasChunkserver_def)
  then show ?thesis
    using stale_replicas [OF h z] alive_live
    by (auto simp: recovery_candidates_def free_servers_def Let_def image_image)
qed

lemma destinations_free:
  assumes inv: "ma_inv (cl_master c)" and h: "h \<noteq> 0" and needs: "NeedsReReplication c h now"
    and n: "n = unat (GetDesiredReplicationFactor c h) - card (healthy_set c h now)"
  shows "GetRecoveryDestinations c h now = [] \<longleftrightarrow> card (free_servers c h now) < n"
    "distinct (GetRecoveryDestinations c h now)" "set (GetRecoveryDestinations c h now) \<subseteq> free_servers c h now"
    "GetRecoveryDestinations c h now \<noteq> [] \<Longrightarrow> length (GetRecoveryDestinations c h now) = n"
proof -
  let ?req = "\<lparr>pr_handle = h, pr_replication_factor = n, pr_candidates = recovery_candidates c h now\<rparr>"
  have pos: "0 < n" using needs n GetHealthyReplicaCount_card [OF inv] by (simp add: NeedsReReplication_def)
  have zero: "0 \<notin> free_servers c h now" by (simp add: free_servers_def HasChunkserver_def)
  have usable: "usable_servers ?req = free_servers c h now"
    using candidates_free [OF inv h] zero by (auto simp: usable_servers_def)
  let ?s = "first_servers (sorted_candidates ?req) {}"
  have s: "length ?s = card (free_servers c h now)" "distinct ?s" "set ?s = free_servers c h now"
    using length_first_servers [of ?req] first_servers_props [of "sorted_candidates ?req" "{}"] usable candidates_free [OF inv h, of now] zero
    by (auto simp: sorted_candidates_def)
  have none: "recovery_candidates c h now = [] \<longleftrightarrow> free_servers c h now = {}" using candidates_free [OF inv h, of now] by auto
  have finite: "finite (free_servers c h now)" using candidates_free [OF inv h, of now] by (metis finite_imageI finite_set)
  have eq: "GetRecoveryDestinations c h now = (if n \<le> length ?s then take n ?s else [])"
  proof -
    have "SelectReplicas k ?req = (if n \<le> length ?s then take n ?s else [])" for k
      using pos by (simp add: SelectReplicas_eq request_factor_def Let_def)
    moreover have "?s = []" if "recovery_candidates c h now = []" using that by (simp add: sorted_candidates_def)
    ultimately show ?thesis using needs n GetHealthyReplicaCount_card [OF inv, of h now] pos
      by (auto simp: GetRecoveryDestinations_def Let_def)
  qed
  show "GetRecoveryDestinations c h now = [] \<longleftrightarrow> card (free_servers c h now) < n" using eq s pos by (auto simp: not_le)
  show "distinct (GetRecoveryDestinations c h now)" using eq s by simp
  show "set (GetRecoveryDestinations c h now) \<subseteq> free_servers c h now" using eq s(3) by (auto dest: in_set_takeD)
  show "GetRecoveryDestinations c h now \<noteq> [] \<Longrightarrow> length (GetRecoveryDestinations c h now) = n" using eq by (auto split: if_splits)
qed

lemma FindRecoverySource_healthy:
  assumes "h \<noteq> 0"
  shows "FindRecoverySource c h now = None \<longleftrightarrow> healthy_set c h now = {}"
    and "FindRecoverySource c h now = Some x \<Longrightarrow> x \<in> healthy_set c h now"
proof -
  let ?ok = "\<lambda>r. IsHealthyCurrentReplica c h (ri_server r) now"
  let ?rs = "rm_GetReplicas (ma_replicas (cl_master c)) h" and ?p = "rm_GetPrimary (ma_replicas (cl_master c)) h"
  have servers: "replicas_of c h = map ri_server ?rs" by (simp add: rm_GetReplicaServers_def rm_GetReplicas_def split: option.splits)
  have primary: "p \<in> set (replicas_of c h)" if "?p = Some p" for p
    using that find_Some_set by (fastforce simp: rm_GetPrimary_def rm_GetReplicaServers_def split: option.splits)
  have "FindRecoverySource c h now \<noteq> None \<and> the (FindRecoverySource c h now) \<in> healthy_set c h now"
    if "healthy_set c h now \<noteq> {}"
  proof (cases "case ?p of None \<Rightarrow> False | Some p \<Rightarrow> IsHealthyCurrentReplica c h p now")
    case True
    then obtain p where "?p = Some p" "IsHealthyCurrentReplica c h p now" by (auto split: option.splits)
    then show ?thesis using primary assms by (simp add: FindRecoverySource_def healthy_set_def)
  next
    case False
    obtain r where "r \<in> set ?rs" "?ok r" using \<open>healthy_set c h now \<noteq> {}\<close> unfolding healthy_set_def servers by auto
    then have "find ?ok ?rs \<noteq> None" by (auto simp: find_None_set)
    then obtain r' where r': "find ?ok ?rs = Some r'" by auto
    have "FindRecoverySource c h now = Some (ri_server r')" using False assms r' by (simp add: FindRecoverySource_def Let_def)
    moreover have "ri_server r' \<in> healthy_set c h now"
      using find_Some_set [OF r'] unfolding healthy_set_def servers by auto
    ultimately show ?thesis by simp
  qed
  moreover have "FindRecoverySource c h now = None" if "healthy_set c h now = {}"
  proof -
    have none: "\<not> IsHealthyCurrentReplica c h s now" if "s \<in> set (replicas_of c h)" for s
      using that \<open>healthy_set c h now = {}\<close> by (auto simp: healthy_set_def)
    have "find ?ok ?rs = None" using none unfolding find_None_set servers by simp
    moreover have "\<not> (case ?p of None \<Rightarrow> False | Some p \<Rightarrow> IsHealthyCurrentReplica c h p now)"
      using primary none by (auto split: option.splits)
    ultimately show ?thesis using assms by (simp add: FindRecoverySource_def Let_def)
  qed
  ultimately show "FindRecoverySource c h now = None \<longleftrightarrow> healthy_set c h now = {}"
    "FindRecoverySource c h now = Some x \<Longrightarrow> x \<in> healthy_set c h now" by force+
qed

lemma healthy_alive: "IsHealthyCurrentReplica c h s now \<Longrightarrow> hb_IsServerAliveAt (ma_heartbeats (cl_master c)) s now \<and> \<not> ma_IsStaleReplica (cl_master c) h s"
  by (simp add: IsHealthyCurrentReplica_def split: if_splits)

text \<open>Whatever only drops replicas that are dead or stale leaves the healthy ones.\<close>

lemma healthy_set_kept:
  assumes "same_view c c'" and "cl_heap c' = cl_heap c" and "set (replicas_of c' h) \<subseteq> set (replicas_of c h)"
    and "healthy_set c h now \<subseteq> set (replicas_of c' h)"
  shows "healthy_set c' h now = healthy_set c h now"
  using healthy_set_cong [OF assms(1,2), of h now] assms(3,4) by (auto simp: healthy_set_def)

lemma new_primary_result:
  assumes ok: "cluster_ok c" and h: "h \<noteq> 0" and p: "p \<in> set (replicas_of c h)"
  shows "fst (on_master (ma_SetPrimary h p) c)" "cluster_ok (snd (on_master (ma_SetPrimary h p) c))"
    "replicas_of (snd (on_master (ma_SetPrimary h p) c)) = replicas_of c"
proof -
  have inv: "ma_inv (cl_master c)" by (rule cluster_okD(1) [OF ok])
  have "p \<noteq> 0" using p replicas_props(2) [OF ma_inv_tablesD(1) [OF inv], of h] by auto
  moreover obtain rs where "map_of (ma_replicas (cl_master c)) h = Some rs" "list_ex (\<lambda>r. ri_server r = p) rs"
    using p by (cases "map_of (ma_replicas (cl_master c)) h") (auto simp: rm_GetReplicaServers_def list_ex_iff)
  ultimately show "fst (on_master (ma_SetPrimary h p) c)"
    using h by (simp add: ma_SetPrimary_def and_then_eq rm_SetPrimary_def)
  show "cluster_ok (snd (on_master (ma_SetPrimary h p) c))"
    by (rule cluster_ok_master(1) [OF ok _ master_ops_view(2)]) (simp_all add: ma_SetPrimary_inv inv)
  show "replicas_of (snd (on_master (ma_SetPrimary h p) c)) = replicas_of c"
    by (simp add: fun_eq_iff ma_SetPrimary_def and_then_eq)
qed

lemma NeedsReReplication_card:
  "ma_inv (cl_master c) \<Longrightarrow> NeedsReReplication c h now \<longleftrightarrow> h \<noteq> 0 \<and> md_ChunkExists (ma_metadata (cl_master c)) h \<and>
    card (healthy_set c h now) < unat (GetDesiredReplicationFactor c h)"
  by (auto simp: NeedsReReplication_def GetChunk_None GetHealthyReplicaCount_card)

text \<open>Dead servers are dropped, a healthy server becomes the primary, stale ones are dropped.\<close>

definition without_dead :: "'w cluster \<Rightarrow> chunk_handle \<Rightarrow> time_ms \<Rightarrow> 'w cluster" where
  "without_dead c h now = drop_dead h now (replicas_of c h) c"

definition with_primary :: "'w cluster \<Rightarrow> chunk_handle \<Rightarrow> time_ms \<Rightarrow> 'w cluster" where
  "with_primary c h now =
     (if (case rm_GetPrimary (ma_replicas (cl_master c)) h of None \<Rightarrow> True | Some p \<Rightarrow> \<not> IsHealthyCurrentReplica c h p now)
      then snd (on_master (ma_SetPrimary h (hd (GetHealthyCurrentReplicas c h now))) c) else c)"

lemma without_dead_result:
  assumes "cluster_ok c"
  shows "cluster_ok (without_dead c h now)" "same_view c (without_dead c h now)" "cl_heap (without_dead c h now) = cl_heap c"
    "cl_world (without_dead c h now) = cl_world c"
    "set (replicas_of (without_dead c h now) g) =
      (if g = h then {s \<in> set (replicas_of c h). hb_IsServerAliveAt (ma_heartbeats (cl_master c)) s now} else set (replicas_of c g))"
    "healthy_set (without_dead c h now) h now = healthy_set c h now"
proof -
  note dead = drop_dead_result [OF cluster_okD(1) [OF assms], of h now "replicas_of c h"]
  show view: "same_view c (without_dead c h now)" and heap: "cl_heap (without_dead c h now) = cl_heap c"
    and "cl_world (without_dead c h now) = cl_world c" using dead by (simp_all add: without_dead_def)
  show "cluster_ok (without_dead c h now)"
    by (rule cluster_ok_master(1) [OF assms _ view heap]) (use dead in \<open>simp add: without_dead_def\<close>)
  show reps: "set (replicas_of (without_dead c h now) g) =
      (if g = h then {s \<in> set (replicas_of c h). hb_IsServerAliveAt (ma_heartbeats (cl_master c)) s now} else set (replicas_of c g))" for g
    using dead by (auto simp: without_dead_def)
  show "healthy_set (without_dead c h now) h now = healthy_set c h now"
    by (rule healthy_set_kept [OF view heap]) (use reps [of h] in \<open>auto simp: healthy_set_def dest: healthy_alive\<close>)
qed

lemma with_primary_result:
  assumes ok: "cluster_ok c" and h: "h \<noteq> 0" and some: "healthy_set c h now \<noteq> {}"
  shows "cluster_ok (with_primary c h now)" "same_view c (with_primary c h now)" "cl_heap (with_primary c h now) = cl_heap c"
    "cl_world (with_primary c h now) = cl_world c" "replicas_of (with_primary c h now) = replicas_of c"
    "healthy_set (with_primary c h now) h now = healthy_set c h now"
    "(if (case rm_GetPrimary (ma_replicas (cl_master c)) h of None \<Rightarrow> True | Some p \<Rightarrow> \<not> IsHealthyCurrentReplica c h p now)
      then on_master (ma_SetPrimary h (hd (GetHealthyCurrentReplicas c h now))) c else (True, c)) = (True, with_primary c h now)"
proof -
  have ne: "GetHealthyCurrentReplicas c h now \<noteq> []" using some GetHealthyCurrentReplicas_set [of c h now] by fastforce
  have p: "hd (GetHealthyCurrentReplicas c h now) \<in> set (replicas_of c h)"
    using hd_in_set [OF ne] by (simp add: healthy_set_def)
  note set_p = new_primary_result [OF ok h p]
  show view: "same_view c (with_primary c h now)" and heap: "cl_heap (with_primary c h now) = cl_heap c"
    by (auto simp: with_primary_def master_ops_view)
  show reps: "replicas_of (with_primary c h now) = replicas_of c" using set_p(3) by (auto simp: with_primary_def)
  show "cluster_ok (with_primary c h now)" "cl_world (with_primary c h now) = cl_world c"
    using set_p(2) ok by (auto simp: with_primary_def)
  show "healthy_set (with_primary c h now) h now = healthy_set c h now"
    by (rule healthy_set_kept [OF view heap]) (auto simp: reps [THEN fun_cong] healthy_set_def)
  show "(if (case rm_GetPrimary (ma_replicas (cl_master c)) h of None \<Rightarrow> True | Some p \<Rightarrow> \<not> IsHealthyCurrentReplica c h p now)
      then on_master (ma_SetPrimary h (hd (GetHealthyCurrentReplicas c h now))) c else (True, c)) = (True, with_primary c h now)"
    using set_p(1) by (simp add: with_primary_def prod_eq_iff)
qed

definition without_stale :: "'w cluster \<Rightarrow> chunk_handle \<Rightarrow> time_ms \<Rightarrow> 'w cluster" where
  "without_stale c h now =
     (let c1 = without_dead c h now in
      drop_replicas h (ma_GetStaleReplicas (cl_master c) h) (if healthy_set c h now = {} then c1 else with_primary c1 h now))"

lemma without_stale_result:
  assumes ok: "cluster_ok c" and h: "h \<noteq> 0"
  shows "cluster_ok (without_stale c h now)" "same_view c (without_stale c h now)" "cl_heap (without_stale c h now) = cl_heap c"
    "cl_world (without_stale c h now) = cl_world c"
    "set (replicas_of (without_stale c h now) g) = (if g = h then {s \<in> set (replicas_of c h).
      hb_IsServerAliveAt (ma_heartbeats (cl_master c)) s now \<and> \<not> ma_IsStaleReplica (cl_master c) h s} else set (replicas_of c g))"
    "healthy_set (without_stale c h now) h now = healthy_set c h now"
proof -
  note dead = without_dead_result [OF ok, of h now]
  let ?c = "if healthy_set c h now = {} then without_dead c h now else with_primary (without_dead c h now) h now"
  have mid: "cluster_ok ?c" "same_view c ?c" "cl_heap ?c = cl_heap c" "cl_world ?c = cl_world c"
      "replicas_of ?c = replicas_of (without_dead c h now)"
    using dead with_primary_result [OF dead(1) h, of now] same_view_trans [OF dead(2)] by auto
  note st = drop_replicas_result [OF cluster_okD(1) [OF mid(1)], of h "ma_GetStaleReplicas (cl_master c) h"]
  have eq: "without_stale c h now = drop_replicas h (ma_GetStaleReplicas (cl_master c) h) ?c"
    by (simp add: without_stale_def Let_def)
  show view: "same_view c (without_stale c h now)" using st same_view_trans [OF mid(2)] unfolding eq by simp
  show heap: "cl_heap (without_stale c h now) = cl_heap c" and "cl_world (without_stale c h now) = cl_world c"
    using st mid(3,4) unfolding eq by simp_all
  show "cluster_ok (without_stale c h now)"
    by (rule cluster_ok_master(1) [OF ok _ view heap]) (use st in \<open>simp add: eq\<close>)
  have z: "0 \<notin> set (replicas_of c h)" by (rule replicas_props(2) [OF ma_inv_tablesD(1) [OF cluster_okD(1) [OF ok]]])
  show reps: "set (replicas_of (without_stale c h now) g) = (if g = h then {s \<in> set (replicas_of c h).
      hb_IsServerAliveAt (ma_heartbeats (cl_master c)) s now \<and> \<not> ma_IsStaleReplica (cl_master c) h s} else set (replicas_of c g))" for g
    using st dead(5) [of g] mid(5) [THEN fun_cong, of g] stale_replicas [OF h z] unfolding eq by auto
  show "healthy_set (without_stale c h now) h now = healthy_set c h now"
    by (rule healthy_set_kept [OF view heap]) (use reps [of h] in \<open>auto simp: healthy_set_def dest: healthy_alive\<close>)
qed

definition recovery_plan :: "'w network \<Rightarrow> 'w cluster \<Rightarrow> chunk_handle \<Rightarrow> time_ms \<Rightarrow> server_id \<Rightarrow> server_id list \<Rightarrow> bool" where
  "recovery_plan net c h now x ds \<longleftrightarrow>
     (let n = unat (GetDesiredReplicationFactor c h); k = card (healthy_set c h now); c3 = without_stale c h now in
      (healthy_set c h now \<noteq> {} \<and> k < n \<longrightarrow> x \<in> healthy_set c h now) \<and>
      (k < n \<longrightarrow> (ds = [] \<longleftrightarrow> card (free_servers c h now) < n - k)) \<and>
      distinct ds \<and> set ds \<subseteq> free_servers c h now \<and> (ds \<noteq> [] \<longrightarrow> length ds = n - k) \<and>
      RecoverChunk net h now c =
        (if healthy_set c h now = {} then (False, c3)
         else if n \<le> k then (True, c3)
         else if ds = [] then (False, c3)
         else case recover_loop net h now x ds False c3 of (r, c') \<Rightarrow> (r \<or> \<not> NeedsReReplication c' h now, c')))"

lemma RecoverChunk_steps:
  assumes ok: "cluster_ok c" and h: "h \<noteq> 0" "md_ChunkExists (ma_metadata (cl_master c)) h"
  shows "\<exists>x ds. recovery_plan net c h now x ds"
proof -
  define n where n: "n = unat (GetDesiredReplicationFactor c h)"
  note dead = without_dead_result [OF ok, of h now]
  let ?c1 = "without_dead c h now"
  define c2 where "c2 = (if healthy_set c h now = {} then ?c1 else with_primary ?c1 h now)"
  let ?x = "the (FindRecoverySource c2 h now)" and ?ds = "GetRecoveryDestinations c2 h now"
  have mid: "cluster_ok c2" "same_view c c2" "replicas_of c2 = replicas_of ?c1" "healthy_set c2 h now = healthy_set c h now"
    using dead with_primary_result [OF dead(1) h(1), of now] same_view_trans [OF dead(2)] by (auto simp: c2_def)
  note inv2 = cluster_okD(1) [OF mid(1)]
  have n2: "unat (GetDesiredReplicationFactor c2 h) = n" using desired_cong [OF mid(2)] n by simp
  have needs: "NeedsReReplication c2 h now \<longleftrightarrow> card (healthy_set c h now) < n"
    using NeedsReReplication_card [OF inv2, of h now] h mid(2,4) n2 by (simp add: same_view_def)
  have "set (replicas_of c2 h) = {s \<in> set (replicas_of c h). hb_IsServerAliveAt (ma_heartbeats (cl_master c)) s now}"
    using dead(5) [of h] mid(3) by simp
  then have free: "free_servers c2 h now = free_servers c h now"
    using mid(2) has_cong [OF mid(2)] by (auto simp: free_servers_def same_view_def)
  have src: "FindRecoverySource c2 h now = None \<longleftrightarrow> healthy_set c h now = {}"
      "FindRecoverySource c2 h now = Some x \<Longrightarrow> x \<in> healthy_set c h now" for x
    using FindRecoverySource_healthy [OF h(1), of c2 now] mid(4) by auto
  note dest = destinations_free [OF inv2 h(1) _ refl, of now, unfolded free mid(4) n2]
  have none: "?ds = []" if "\<not> card (healthy_set c h now) < n" using that needs by (simp add: GetRecoveryDestinations_def)
  have ds: "?ds = [] \<longleftrightarrow> card (free_servers c h now) < n - card (healthy_set c h now)" if "card (healthy_set c h now) < n"
    by (rule dest(1)) (simp add: needs that)
  have ds': "distinct ?ds \<and> set ?ds \<subseteq> free_servers c h now \<and> (?ds \<noteq> [] \<longrightarrow> length ?ds = n - card (healthy_set c h now))"
  proof (cases "NeedsReReplication c2 h now")
    case True
    then show ?thesis using dest(2-4) by blast
  next
    case False
    then have "?ds = []" using none needs by blast
    then show ?thesis by simp
  qed
  have empty: "GetHealthyCurrentReplicas ?c1 h now = [] \<longleftrightarrow> healthy_set c h now = {}"
    unfolding set_empty [symmetric] GetHealthyCurrentReplicas_set dead(6) ..
  have stale: "without_stale c h now = drop_replicas h (ma_GetStaleReplicas (cl_master c) h) c2"
    by (simp add: without_stale_def Let_def c2_def)
  have "RecoverChunk net h now c =
      (let c3 = without_stale c h now in
       if healthy_set c h now = {} then (False, c3)
       else if n \<le> card (healthy_set c h now) then (True, c3)
       else if ?ds = [] then (False, c3)
       else case recover_loop net h now ?x ?ds False c3 of (r, c') \<Rightarrow> (r \<or> \<not> NeedsReReplication c' h now, c'))"
  proof (cases "healthy_set c h now = {}")
    case True
    then show ?thesis using h empty stale by (simp add: RecoverChunk_def GetChunk_None Let_def without_dead_def [symmetric] c2_def)
  next
    case False
    then obtain x where x: "FindRecoverySource c2 h now = Some x" using src(1) by auto
    have prim: "(if (case rm_GetPrimary (ma_replicas (cl_master ?c1)) h of None \<Rightarrow> True | Some p \<Rightarrow> \<not> IsHealthyCurrentReplica ?c1 h p now)
      then on_master (ma_SetPrimary h (hd (GetHealthyCurrentReplicas ?c1 h now))) ?c1 else (True, ?c1)) = (True, c2)"
      using with_primary_result(7) [OF dead(1) h(1), of now] False dead(6) by (simp add: c2_def)
    show ?thesis
      unfolding RecoverChunk_def Let_def without_dead_def [symmetric] prim
      using False h empty stale x needs by (auto simp: GetChunk_None not_less split: prod.splits)
  qed
  moreover have "healthy_set c h now \<noteq> {} \<Longrightarrow> ?x \<in> healthy_set c h now" using src by auto
  ultimately have "recovery_plan net c h now ?x ?ds"
    using ds ds' unfolding recovery_plan_def Let_def n [symmetric] by simp
  then show ?thesis by blast
qed

section \<open>Samples\<close>

lemma server_with_chunk:
  assumes "i \<noteq> 0" and "h \<noteq> 0" and "length data \<le> 64 * 2 ^ 20"
  shows "\<exists>s. cv_inv s \<and> cv_server_id s = i \<and> cv_bytes s = Map.empty \<and>
    (\<exists>s'. cv_inv s' \<and> cv_server_id s' = i \<and> cv_bytes s' = [h \<mapsto> data])"
proof -
  let ?s = "Chunkserver i ''/d'' \<lparr>dk_files = Map.empty, dk_answers = []\<rparr>"
  obtain ok s where s: "cv_Initialize [] ?s = (ok, s)" by fastforce
  have init: "cv_inv s" "cv_bytes s = Map.empty" using Initialize_empty [OF assms(1) _ _ _ s] by (simp_all add: benign_def)
  have "cv_server_id (snd (cv_Initialize [] ?s)) = i"
    by (simp add: cv_Initialize_def Chunkserver_def and_then_eq)
  then have ids: "cv_server_id s = i" using s by simp
  obtain b s' where r: "Receive h data s = (b, s')" by fastforce
  have "cv_inv s'" "cv_bytes s' = [h \<mapsto> data]" "cv_server_id s' = i"
    using Receive_result [OF init(1) r] assms(2,3) init(2) Receive_identity [of h data s] r ids by simp_all
  then show ?thesis using init ids by blast
qed

definition sample_beats_of :: "server_id list \<Rightarrow> master" where
  "sample_beats_of live = fold (\<lambda>s m. snd (ma_ProcessHeartbeat s 1000 [] m)) live sample_master"

definition sample_cluster :: "server_id list \<Rightarrow> (address \<Rightarrow> chunkserver) \<Rightarrow> unit cluster" where
  "sample_cluster live heap = \<lparr>cl_master = sample_beats_of live, cl_chunkservers = map (\<lambda>s. (s, unat s)) live,
     cl_endpoints = [], cl_heap = heap, cl_world = ()\<rparr>"

lemma sample_beats_inv: "ma_inv (sample_beats_of live)"
proof -
  have "ma_inv m \<Longrightarrow> ma_inv (fold (\<lambda>s m. snd (ma_ProcessHeartbeat s 1000 [] m)) live m)" for m
    by (induction live arbitrary: m) (simp_all add: ma_ProcessHeartbeat_inv)
  then show ?thesis using masters.reachable_inv [OF sample_master_reachable] by (simp add: sample_beats_of_def)
qed

lemma sample_cluster_ok:
  assumes "live \<in> {[7, 8], [7, 8, 9]}"
  obtains heap where "cluster_ok (sample_cluster live heap)"
    and "bytes_at (sample_cluster live heap) 7 1 = Some ''abcd''"
    and "\<And>s. s \<noteq> 7 \<Longrightarrow> bytes_at (sample_cluster live heap) s 1 = None"
proof -
  obtain s7 where s7: "cv_inv s7" "cv_server_id s7 = 7" "cv_bytes s7 = [1 \<mapsto> ''abcd'']" using server_with_chunk [of 7 1 "''abcd''"] by auto
  obtain s8 where s8: "cv_inv s8" "cv_server_id s8 = 8" "cv_bytes s8 = Map.empty" using server_with_chunk [of 8 1 "''abcd''"] by auto
  obtain s9 where s9: "cv_inv s9" "cv_server_id s9 = 9" "cv_bytes s9 = Map.empty" using server_with_chunk [of 9 1 "''abcd''"] by auto
  define heap where "heap = (\<lambda>a :: nat. s9)(7 := s7, 8 := s8)"
  have "cluster_ok (sample_cluster live heap)"
    using assms s7 s8 s9 by (auto simp: cluster_ok_def sample_cluster_def sample_beats_inv heap_def split: if_splits)
  moreover have "bytes_at (sample_cluster live heap) 7 1 = Some ''abcd''"
    using assms s7 by (auto simp: bytes_at_def GetChunkserver_def sample_cluster_def heap_def)
  moreover have "bytes_at (sample_cluster live heap) s 1 = None" if "s \<noteq> 7" for s
    using assms s8 s9 that by (auto simp: bytes_at_def GetChunkserver_def sample_cluster_def heap_def)
  ultimately show thesis by (rule that)
qed

lemma sample_beats_eq:
  "ma_replicas (sample_beats_of [7, 8]) = [(1, [\<lparr>ri_server = 7, ri_primary = True\<rparr>])]"
  "ma_replicas (sample_beats_of [7, 8, 9]) = [(1, [\<lparr>ri_server = 7, ri_primary = True\<rparr>])]"
  "ma_metadata (sample_beats_of [7, 8]) = ma_metadata sample_master"
  "ma_metadata (sample_beats_of [7, 8, 9]) = ma_metadata sample_master"
  "hb_servers (ma_heartbeats (sample_beats_of [7, 8])) = map (\<lambda>s. (s, \<lparr>cs_server_id = s, cs_last_heartbeat_ms = 1000,
     cs_alive = True, cs_reported_chunks = []\<rparr>)) [7, 8]"
  "hb_servers (ma_heartbeats (sample_beats_of [7, 8, 9])) = map (\<lambda>s. (s, \<lparr>cs_server_id = s, cs_last_heartbeat_ms = 1000,
     cs_alive = True, cs_reported_chunks = []\<rparr>)) [7, 8, 9]"
  "hb_failure_timeout_ms (ma_heartbeats (sample_beats_of [7, 8])) = 30000"
  "hb_failure_timeout_ms (ma_heartbeats (sample_beats_of [7, 8, 9])) = 30000"
  by code_simp+

lemma sample_beats_live:
  assumes "live \<in> {[7, 8], [7, 8, 9]}"
  shows "hb_servers (ma_heartbeats (sample_beats_of live)) = map (\<lambda>s. (s, \<lparr>cs_server_id = s, cs_last_heartbeat_ms = 1000,
     cs_alive = True, cs_reported_chunks = []\<rparr>)) live"
    and "hb_failure_timeout_ms (ma_heartbeats (sample_beats_of live)) = 30000" and "0 \<notin> set live" and "7 \<in> set live"
    and "ma_replicas (sample_beats_of live) = [(1, [\<lparr>ri_server = 7, ri_primary = True\<rparr>])]"
    and "ma_metadata (sample_beats_of live) = ma_metadata sample_master"
proof -
  from assms consider "live = [7, 8]" | "live = [7, 8, 9]" by auto
  note cases = this
  show "hb_servers (ma_heartbeats (sample_beats_of live)) = map (\<lambda>s. (s, \<lparr>cs_server_id = s, cs_last_heartbeat_ms = 1000,
     cs_alive = True, cs_reported_chunks = []\<rparr>)) live" by (cases rule: cases) (simp_all only: sample_beats_eq)
  show "hb_failure_timeout_ms (ma_heartbeats (sample_beats_of live)) = 30000" by (cases rule: cases) (simp_all only: sample_beats_eq)
  show "0 \<notin> set live" "7 \<in> set live" by (cases rule: cases; simp)+
  show "ma_replicas (sample_beats_of live) = [(1, [\<lparr>ri_server = 7, ri_primary = True\<rparr>])]"
    by (cases rule: cases) (simp_all only: sample_beats_eq)
  show "ma_metadata (sample_beats_of live) = ma_metadata sample_master" by (cases rule: cases) (simp_all only: sample_beats_eq)
qed

lemma alive_listed:
  assumes "hb_servers hb = map (\<lambda>s. (s, \<lparr>cs_server_id = s, cs_last_heartbeat_ms = 1000, cs_alive = True, cs_reported_chunks = []\<rparr>)) live"
    and "hb_failure_timeout_ms hb = 30000" and "0 \<notin> set live"
  shows "hb_IsServerAliveAt hb s 1000 \<longleftrightarrow> s \<in> set live"
  using assms by (auto simp: hb_IsServerAliveAt_def map_of_map_restrict restrict_map_def)

text \<open>What the master of a sample knows, however the servers are attached to it.\<close>

lemma sample_view:
  assumes m: "cl_master c = sample_beats_of live" and live: "live \<in> {[7, 8], [7, 8, 9]}"
  shows "replicas_of c 1 = [7]" "GetDesiredReplicationFactor c 1 = 3" "md_GetChunk (ma_metadata (cl_master c)) 1 \<noteq> None"
    "s \<in> set live \<Longrightarrow> \<not> ma_IsStaleReplica (cl_master c) 1 s" "hb_IsServerAliveAt (ma_heartbeats (cl_master c)) s 1000 \<longleftrightarrow> s \<in> set live"
proof -
  note beats = sample_beats_live [OF live]
  note md = beats(6) sample_master_eq(1)
  show "replicas_of c 1 = [7]" unfolding m beats(5) by (simp add: rm_GetReplicaServers_def)
  show "GetDesiredReplicationFactor c 1 = 3"
    unfolding GetDesiredReplicationFactor_def m md by (simp add: md_GetChunkReplicationFactor_def md_ChunkExists_def HasChunk_def)
  show "md_GetChunk (ma_metadata (cl_master c)) 1 \<noteq> None" unfolding m md by (simp add: md_GetChunk_def)
  show "\<not> ma_IsStaleReplica (cl_master c) 1 s" if "s \<in> set live"
    unfolding ma_IsStaleReplica_def m md hb_GetServerState_def beats(1)
    using that by (simp add: md_GetChunkVersion_def cs_GetReportedChunks_def map_of_map_restrict restrict_map_def)
  show "hb_IsServerAliveAt (ma_heartbeats (cl_master c)) s 1000 \<longleftrightarrow> s \<in> set live"
    unfolding m by (rule alive_listed) (rule beats)+
qed

lemma sample_cluster_health:
  assumes ok: "cluster_ok (sample_cluster live heap)" and live: "live \<in> {[7, 8], [7, 8, 9]}"
    and bytes: "bytes_at (sample_cluster live heap) 7 1 = Some ''abcd''"
  shows "replicas_of (sample_cluster live heap) 1 = [7]" "GetHealthyReplicaCount (sample_cluster live heap) 1 1000 = 1"
    "GetDesiredReplicationFactor (sample_cluster live heap) 1 = 3" "md_GetChunk (ma_metadata (cl_master (sample_cluster live heap))) 1 \<noteq> None"
    "free_servers (sample_cluster live heap) 1 1000 = set live - {7}" "s \<in> set live \<Longrightarrow> \<not> ma_IsStaleReplica (cl_master (sample_cluster live heap)) 1 s"
proof -
  let ?c = "sample_cluster live heap"
  have m: "cl_master ?c = sample_beats_of live" "cl_endpoints ?c = []" "cl_chunkservers ?c = map (\<lambda>s. (s, unat s)) live"
    by (simp_all add: sample_cluster_def)
  note view = sample_view [OF m(1) live]
  show reps: "replicas_of ?c 1 = [7]" and "GetDesiredReplicationFactor ?c 1 = 3" and "md_GetChunk (ma_metadata (cl_master ?c)) 1 \<noteq> None"
    and stale: "s \<in> set live \<Longrightarrow> \<not> ma_IsStaleReplica (cl_master ?c) 1 s" for s using view by simp_all
  have "7 \<in> set live" using sample_beats_live(4) [OF live] .
  then have "IsHealthyCurrentReplica ?c 1 7 1000" using healthy_iff [OF ok attached_no_endpoints [OF m(2)]] stale bytes view(5) by simp
  then show "GetHealthyReplicaCount ?c 1 1000 = 1"
    using reps by (simp add: GetHealthyReplicaCount_def GetHealthyCurrentReplicas_def)
  have "HasChunkserver ?c s \<longleftrightarrow> s \<in> set live" for s
    using sample_beats_live(3) [OF live] m(2) unfolding HasChunkserver_def m(3) by (auto simp: map_of_map_restrict restrict_map_def)
  then show "free_servers ?c 1 1000 = set live - {7}" using view(5) reps by (auto simp: free_servers_def)
qed

definition no_network :: "unit network" where
  "no_network = \<lparr>nw_TransferChunk = \<lambda>_ _ _ _ _ w. (None, w), nw_CreateReplica = \<lambda>_ _ _ w. (None, w),
     nw_WriteChunk = \<lambda>_ _ _ _ _ w. (None, w)\<rparr>"

section \<open>Properties\<close>

lemma RecoverChunk_unknown:
  "h = 0 \<or> \<not> md_ChunkExists (ma_metadata (cl_master c)) h \<Longrightarrow> RecoverChunk net h now c = (False, c)"
  by (auto simp: RecoverChunk_def GetChunk_None)

context replica_transfer
begin

lemma RecoverChunk_copies:
  assumes good: "good c" and h: "h \<noteq> 0" "md_ChunkExists (ma_metadata (cl_master c)) h" and r: "RecoverChunk net h now c = (b, c')"
  shows "\<exists>x ds. (healthy_set c h now \<noteq> {} \<longrightarrow> x \<in> healthy_set c h now) \<and> set ds \<subseteq> free_servers c h now \<and>
    (healthy_set c h now = {} \<longrightarrow> c' = without_stale c h now) \<and>
    copied_to (set ds) h (holds c x h) (without_stale c h now) c'"
proof -
  let ?n = "unat (GetDesiredReplicationFactor c h)"
  note ok = good_ok [OF good]
  note st = without_stale_result [OF ok h(1), of now]
  have same: "good (without_stale c h now)" "holds (without_stale c h now) = holds c" using records [OF good st(1-4)] by simp_all
  obtain x ds where "recovery_plan net c h now x ds" using RecoverChunk_steps [OF ok h] by blast
  then have x: "healthy_set c h now \<noteq> {} \<Longrightarrow> card (healthy_set c h now) < ?n \<Longrightarrow> x \<in> healthy_set c h now"
      and ds: "set ds \<subseteq> free_servers c h now"
      and eq: "RecoverChunk net h now c =
        (if healthy_set c h now = {} then (False, without_stale c h now)
         else if ?n \<le> card (healthy_set c h now) then (True, without_stale c h now)
         else if ds = [] then (False, without_stale c h now)
         else case recover_loop net h now x ds False (without_stale c h now) of (r, c') \<Rightarrow> (r \<or> \<not> NeedsReReplication c' h now, c'))"
    unfolding recovery_plan_def Let_def by blast+
  show ?thesis
  proof (cases "healthy_set c h now = {} \<or> ?n \<le> card (healthy_set c h now) \<or> ds = []")
    case True
    then have c': "c' = without_stale c h now" using r eq by (auto simp: Let_def split: if_splits)
    obtain y where "healthy_set c h now \<noteq> {} \<longrightarrow> y \<in> healthy_set c h now" by blast
    then show ?thesis using c' copied_to_refl [OF same(1)] by (intro exI [of _ y] exI [of _ "[]"]) simp
  next
    case False
    then have x': "x \<in> healthy_set c h now" using x by simp
    obtain r' where loop: "recover_loop net h now x ds False (without_stale c h now) = (r', c')"
      using r eq False by (auto simp: Let_def split: prod.splits)
    have "x \<notin> set ds" using x' ds by (auto simp: healthy_set_def free_servers_def)
    moreover have "0 \<notin> set ds" using ds by (auto simp: free_servers_def HasChunkserver_def)
    ultimately have "copied_to (set ds) h (holds c x h) (without_stale c h now) c'"
      using recover_loop_copies [OF same(1) h(1) _ _ loop] same(2) by simp
    then show ?thesis using x' ds False by (intro exI [of _ x] exI [of _ ds]) simp
  qed
qed

text \<open>What recovery of a chunk changes: it drops replicas that are dead or stale, and the servers that it adds get the
  bytes of a healthy replica.\<close>

lemma recovered_contents:
  assumes good: "good c" and r: "RecoverChunk net h now c = (b, c')"
  shows "good c'" "same_view c c'"
    "holds c' z g \<noteq> holds c z g \<Longrightarrow> g = h \<and> z \<in> set (replicas_of c' h) - set (replicas_of c h)"
    "g \<noteq> h \<Longrightarrow> set (replicas_of c' g) = set (replicas_of c g)"
    "healthy_set c h now \<subseteq> set (replicas_of c' h)"
    "z \<in> set (replicas_of c' h) \<Longrightarrow> z \<notin> set (replicas_of c h) \<Longrightarrow>
      \<exists>x \<in> healthy_set c h now. \<exists>data. holds c x h = Some data \<and> holds c' z h = Some (landed data (holds c z h))"
proof -
  have "good c' \<and> same_view c c' \<and>
    (\<forall>z g. holds c' z g \<noteq> holds c z g \<longrightarrow> g = h \<and> z \<in> set (replicas_of c' h) - set (replicas_of c h)) \<and>
    (\<forall>g. g \<noteq> h \<longrightarrow> set (replicas_of c' g) = set (replicas_of c g)) \<and> healthy_set c h now \<subseteq> set (replicas_of c' h) \<and>
    (\<forall>z. z \<in> set (replicas_of c' h) \<longrightarrow> z \<notin> set (replicas_of c h) \<longrightarrow>
      (\<exists>x \<in> healthy_set c h now. \<exists>data. holds c x h = Some data \<and> holds c' z h = Some (landed data (holds c z h))))"
  proof (cases "h = 0 \<or> \<not> md_ChunkExists (ma_metadata (cl_master c)) h")
    case True
    then have "c' = c" using r RecoverChunk_unknown by (metis prod.inject)
    then show ?thesis using good by (simp add: healthy_set_def)
  next
    case False
    then have h: "h \<noteq> 0" "md_ChunkExists (ma_metadata (cl_master c)) h" by simp_all
    let ?c = "without_stale c h now"
    note st = without_stale_result [OF good_ok [OF good] h(1), of now]
    have same: "holds ?c = holds c" using records [OF good st(1-4)] by simp
    obtain x ds where x: "healthy_set c h now \<noteq> {} \<longrightarrow> x \<in> healthy_set c h now" and ds: "set ds \<subseteq> free_servers c h now"
        and none: "healthy_set c h now = {} \<longrightarrow> c' = ?c" and cp: "copied_to (set ds) h (holds c x h) ?c c'"
      using RecoverChunk_copies [OF good h r] by metis
    have fresh: "z \<notin> set (replicas_of c h)" if "z \<in> set ds" for z using that ds by (auto simp: free_servers_def)
    have new: "z \<notin> set (replicas_of c h) \<and> (\<exists>data. holds c x h = Some data \<and> holds c' z h = Some (landed data (holds c z h)))"
      if "z \<in> set (replicas_of c' h)" "z \<notin> set (replicas_of ?c h)" for z
      using copied_toD [OF cp that] fresh same by simp
    have "g = h \<and> z \<in> set (replicas_of c' h) - set (replicas_of c h)" if "holds c' z g \<noteq> holds c z g" for z g
    proof -
      have "g = h \<and> z \<in> set (replicas_of c' h) - set (replicas_of ?c h)" using cp that same unfolding copied_to_def by metis
      then show ?thesis using new by blast
    qed
    moreover have "set (replicas_of c' g) = set (replicas_of c g)" if "g \<noteq> h" for g
      using cp st(5) [of g] that by (simp add: copied_to_def)
    moreover have "healthy_set c h now \<subseteq> set (replicas_of c' h)"
      using cp st(6) by (auto simp: copied_to_def healthy_set_def)
    moreover have "\<exists>y \<in> healthy_set c h now. \<exists>data. holds c y h = Some data \<and> holds c' z h = Some (landed data (holds c z h))"
      if z: "z \<in> set (replicas_of c' h)" "z \<notin> set (replicas_of c h)" for z
    proof -
      have out: "z \<notin> set (replicas_of ?c h)" using z(2) st(5) [of h] by simp
      then have "healthy_set c h now \<noteq> {}" using none z(1) by metis
      then show ?thesis using x new [OF z(1) out] by blast
    qed
    moreover have "good c'" "same_view c c'" using cp same_view_trans [OF st(2)] by (simp_all add: copied_to_def)
    ultimately show ?thesis by blast
  qed
  then show "good c'" "same_view c c'"
    "holds c' z g \<noteq> holds c z g \<Longrightarrow> g = h \<and> z \<in> set (replicas_of c' h) - set (replicas_of c h)"
    "g \<noteq> h \<Longrightarrow> set (replicas_of c' g) = set (replicas_of c g)"
    "healthy_set c h now \<subseteq> set (replicas_of c' h)"
    "z \<in> set (replicas_of c' h) \<Longrightarrow> z \<notin> set (replicas_of c h) \<Longrightarrow>
      \<exists>x \<in> healthy_set c h now. \<exists>data. holds c x h = Some data \<and> holds c' z h = Some (landed data (holds c z h))" by blast+
qed

text \<open>When enough servers are free, they can be written and the healthy replicas are there, a replica is added.\<close>

lemma recovery_adds:
  assumes good: "good c" and h: "h \<noteq> 0" "md_ChunkExists (ma_metadata (cl_master c)) h"
    and k: "healthy_set c h now \<noteq> {}" "card (healthy_set c h now) < unat (GetDesiredReplicationFactor c h)"
    and free: "unat (GetDesiredReplicationFactor c h) - card (healthy_set c h now) \<le> card (free_servers c h now)"
    and can: "\<forall>x \<in> healthy_set c h now. holds c x h \<noteq> None" "\<forall>d \<in> free_servers c h now. reach c d"
    and r: "RecoverChunk net h now c = (b, c')"
  shows "\<exists>d \<in> set (replicas_of c' h). d \<notin> set (replicas_of c h)"
proof -
  let ?c = "without_stale c h now"
  note ok = good_ok [OF good]
  note st = without_stale_result [OF ok h(1), of now]
  have same: "good ?c" "holds ?c = holds c" "reach ?c = reach c" using records [OF good st(1-4)] by simp_all
  obtain x ds where "recovery_plan net c h now x ds" using RecoverChunk_steps [OF ok h] by blast
  then have x: "x \<in> healthy_set c h now" and ds: "ds \<noteq> []" "set ds \<subseteq> free_servers c h now"
      and eq: "RecoverChunk net h now c =
        (case recover_loop net h now x ds False ?c of (r, c') \<Rightarrow> (r \<or> \<not> NeedsReReplication c' h now, c'))"
    using k free unfolding recovery_plan_def Let_def by auto
  obtain d rest where dr: "ds = d # rest" using ds(1) by (cases ds) auto
  obtain r' where loop: "recover_loop net h now x (d # rest) False ?c = (r', c')" using r eq dr by (auto split: prod.splits)
  have free_d: "d \<in> free_servers c h now" using ds(2) dr by simp
  then have d: "d \<notin> set (replicas_of c h)" by (simp add: free_servers_def)
  then have "d \<notin> set (replicas_of ?c h)" using st(5) [of h] by simp
  moreover have "0 \<notin> set (d # rest)" "x \<notin> set (d # rest)"
    using ds(2) x dr by (auto simp: free_servers_def HasChunkserver_def healthy_set_def)
  moreover have "GetHealthyReplicaCount ?c h now < unat (GetDesiredReplicationFactor ?c h)"
    using k(2) st(6) GetHealthyReplicaCount_card [OF cluster_okD(1) [OF st(1)], of h now] desired_cong [OF st(2), of h] by simp
  ultimately have "d \<in> set (replicas_of c' h)"
    using recover_loop_adds [OF same(1) h(1) _ _ _ _ _ _ loop] can x free_d by (simp add: same(2,3))
  then show ?thesis using d by blast
qed

end

text \<open>C13: When some replica of a chunk is healthy and at least as many servers are free as replicas are missing,
  recovery succeeds and restores exactly the replication factor. (Free servers are alive, registered
  and hold no replica; none may have reported an old version of the chunk.) The servers are objects
  in the process of the master, so that a transfer cannot fail on the way.\<close>
theorem recovery_restores_factor:
  assumes ok: "cluster_ok c" and e: "attached c" and h: "h \<noteq> 0" "md_GetChunk (ma_metadata (cl_master c)) h \<noteq> None"
    and n: "n = unat (GetDesiredReplicationFactor c h)" and k: "k = GetHealthyReplicaCount c h now" "0 < k" "k < n"
    and free: "n - k \<le> card (free_servers c h now)" "\<forall>s \<in> free_servers c h now. \<not> ma_IsStaleReplica (cl_master c) h s"
  shows "\<exists>c'. RecoverChunk net h now c = (True, c') \<and> GetHealthyReplicaCount c' h now = n"
proof -
  have h2: "md_ChunkExists (ma_metadata (cl_master c)) h" using h(2) by (simp add: GetChunk_None)
  have k': "k = card (healthy_set c h now)" using k(1) GetHealthyReplicaCount_card [OF cluster_okD(1) [OF ok]] by simp
  let ?c3 = "without_stale c h now"
  note st = without_stale_result [OF ok h(1), of now]
  obtain x ds where plan: "recovery_plan net c h now x ds" using RecoverChunk_steps [OF ok h(1) h2] by blast
  have some: "healthy_set c h now \<noteq> {}" "card (healthy_set c h now) < n" using k k' by auto
  then have x: "x \<in> healthy_set c h now" and ds: "ds \<noteq> []" "distinct ds" "set ds \<subseteq> free_servers c h now" "length ds = n - k"
      and eq: "RecoverChunk net h now c =
        (case recover_loop net h now x ds False ?c3 of (r, c') \<Rightarrow> (r \<or> \<not> NeedsReReplication c' h now, c'))"
    using plan free(1) unfolding recovery_plan_def Let_def n [symmetric] k' by auto
  obtain b c' where loop: "recover_loop net h now x ds False ?c3 = (b, c')" by fastforce
  have e3: "attached ?c3" using attached_cong [OF st(2)] e by simp
  have nx: "x \<notin> set ds" using x ds(3) by (auto simp: healthy_set_def free_servers_def)
  have "bytes_at c x h \<noteq> None" using x healthy_iff [OF ok e] by (auto simp: healthy_set_def)
  then obtain content where content: "bytes_at ?c3 x h = Some content"
    using cluster_ok_master(2) [OF ok cluster_okD(1) [OF st(1)] st(2,3)] by auto
  have "can_take ?c3 h now d" if "d \<in> set ds" for d
  proof -
    have d: "d \<in> free_servers c h now" using that ds(3) by blast
    then have "GetChunkserver ?c3 d \<noteq> None"
      using st(2) e by (auto simp: free_servers_def HasChunkserver_def GetChunkserver_def GetChunkserverEndpoint_def attached_def same_view_def)
    then show ?thesis
      using d st(2) st(5) [of h] free(2) stale_cong [OF st(2), of h d] by (auto simp: can_take_def free_servers_def same_view_def)
  qed
  then have fill: "card (healthy_set c' h now) = max k (min n (k + length ds))" "b"
    using recover_loop_fills [OF st(1) e3 h(1) ds(2) nx content _ loop refl] desired_cong [OF st(2), of h] st(6) k k' n ds(1)
    by simp_all
  have "0 \<notin> set ds" using ds(3) by (auto simp: free_servers_def HasChunkserver_def)
  then have "cluster_ok c'" using objects.recover_loop_copies [OF conjI [OF st(1) e3] h(1) _ nx loop] by (simp add: objects.copied_to_def)
  from GetHealthyReplicaCount_card [OF cluster_okD(1) [OF this], of h now]
  have "GetHealthyReplicaCount c' h now = n" using fill(1) ds(4) k(3) by simp
  moreover have "RecoverChunk net h now c = (True, c')" using eq loop fill(2) by simp
  ultimately show ?thesis by blast
qed

theorem recovery_restores_factor_witness:
  "\<exists>c c'. GetHealthyReplicaCount c 1 1000 = 1 \<and> RecoverChunk no_network 1 1000 c = (True, c') \<and> GetHealthyReplicaCount c' 1 1000 = 3"
proof -
  obtain heap where c: "cluster_ok (sample_cluster [7, 8, 9] heap)" "bytes_at (sample_cluster [7, 8, 9] heap) 7 1 = Some ''abcd''"
    by (rule sample_cluster_ok [of "[7, 8, 9]"]) auto
  let ?c = "sample_cluster [7, 8, 9] heap"
  note s = sample_cluster_health [OF c(1) _ c(2)]
  have "\<exists>c'. RecoverChunk no_network 1 1000 ?c = (True, c') \<and> GetHealthyReplicaCount c' 1 1000 = unat (GetDesiredReplicationFactor ?c 1)"
    by (rule recovery_restores_factor [OF c(1) _ _ s(4) refl refl]) (use s in \<open>auto simp: sample_cluster_def attached_no_endpoints\<close>)
  then obtain c' where "RecoverChunk no_network 1 1000 ?c = (True, c')" "GetHealthyReplicaCount c' 1 1000 = 3" using s(3) by auto
  then show ?thesis using s(2) by (intro exI [of _ ?c] exI [of _ c']) simp
qed

text \<open>When fewer servers are free than replicas are missing, recovery fails and copies nothing, not even to
  the servers that are free: the placement policy is asked for all missing replicas at once and
  answers with all of them or none. So a chunk with one replica left stays that way for as long as
  only one other server is there.\<close>
lemma recovery_all_or_nothing:
  assumes ok: "cluster_ok c" and h: "h \<noteq> 0" "md_GetChunk (ma_metadata (cl_master c)) h \<noteq> None"
    and few: "GetHealthyReplicaCount c h now + card (free_servers c h now) < unat (GetDesiredReplicationFactor c h)"
    and r: "RecoverChunk net h now c = (b, c')"
  shows "\<not> b \<and> cl_heap c' = cl_heap c \<and> cl_world c' = cl_world c \<and> set (replicas_of c' h) \<subseteq> set (replicas_of c h)"
proof -
  have h2: "md_ChunkExists (ma_metadata (cl_master c)) h" using h(2) by (simp add: GetChunk_None)
  have "card (free_servers c h now) < unat (GetDesiredReplicationFactor c h) - card (healthy_set c h now)"
    using few GetHealthyReplicaCount_card [OF cluster_okD(1) [OF ok]] by simp
  moreover obtain x ds where "recovery_plan net c h now x ds" using RecoverChunk_steps [OF ok h(1) h2] by blast
  ultimately have "RecoverChunk net h now c = (False, without_stale c h now)"
    unfolding recovery_plan_def Let_def by auto
  then show ?thesis using r without_stale_result [OF ok h(1), of now] by auto
qed

end
