(* ===== verification/Rebalancer.thy ===== *)
theory Rebalancer
  imports Repair
begin

text \<open>
  \<open>src/master/replication/rebalancer.cpp\<close>: moving replicas from loaded to idle servers, and
  \<open>src/chunkserver/heartbeat/heartbeat_client.cpp\<close>: what a chunkserver reports to the master. Every turn of
  the planning loop measures the loads anew in the replica table, which planning does not change.
\<close>

section \<open>Operations\<close>

record replica_move =
  mv_handle :: chunk_handle
  mv_source :: server_id
  mv_destination :: server_id

definition IsEligibleSource :: "'w cluster \<Rightarrow> chunk_handle \<Rightarrow> server_id \<Rightarrow> time_ms \<Rightarrow> bool" where
  "IsEligibleSource c handle server now \<longleftrightarrow>
     handle \<noteq> 0 \<and> server \<noteq> 0 \<and> hb_IsServerAliveAt (ma_heartbeats (cl_master c)) server now \<and>
     rm_HasReplica (ma_replicas (cl_master c)) handle server \<and>
     \<not> ma_IsStaleReplica (cl_master c) handle server \<and> HasChunkserver c server"

definition IsEligibleDestination :: "'w cluster \<Rightarrow> chunk_handle \<Rightarrow> server_id \<Rightarrow> time_ms \<Rightarrow> bool" where
  "IsEligibleDestination c handle server now =
     (if handle = 0 \<or> server = 0 \<or> \<not> hb_IsServerAliveAt (ma_heartbeats (cl_master c)) server now \<or> \<not> HasChunkserver c server
      then False else \<not> rm_HasReplica (ma_replicas (cl_master c)) handle server)"

definition server_load :: "'w cluster \<Rightarrow> server_id \<Rightarrow> nat" where
  "server_load c server = length (rm_GetChunksForServer (ma_replicas (cl_master c)) server)"

text \<open>One turn of the loop that looks for the fullest and the emptiest server.\<close>

record extremes =
  ex_source :: server_id
  ex_source_count :: nat
  ex_destination :: server_id
  ex_destination_count :: nat

definition consider_server :: "'w cluster \<Rightarrow> server_id \<Rightarrow> extremes \<Rightarrow> extremes" where
  "consider_server c server e =
     (let n = server_load c server;
          e = (if n > ex_source_count e \<or> n = ex_source_count e \<and> (ex_source e = 0 \<or> server < ex_source e)
               then e\<lparr>ex_source := server, ex_source_count := n\<rparr> else e) in
      if n < ex_destination_count e \<or> n = ex_destination_count e \<and> (ex_destination e = 0 \<or> server < ex_destination e)
      then e\<lparr>ex_destination := server, ex_destination_count := n\<rparr> else e)"

definition find_extremes :: "'w cluster \<Rightarrow> server_id list \<Rightarrow> extremes" where
  "find_extremes c servers = fold (consider_server c) servers
     \<lparr>ex_source = 0, ex_source_count = 0, ex_destination = 0, ex_destination_count = 2 ^ 64 - 1\<rparr>"

definition unbalanced :: "extremes \<Rightarrow> bool" where
  "unbalanced e \<longleftrightarrow> \<not> (ex_source e = 0 \<or> ex_destination e = 0 \<or> ex_source e = ex_destination e \<or>
     ex_source_count e \<le> ex_destination_count e + 1)"

definition movable :: "'w cluster \<Rightarrow> time_ms \<Rightarrow> server_id \<Rightarrow> server_id \<Rightarrow> chunk_handle \<Rightarrow> bool" where
  "movable c now source destination handle \<longleftrightarrow>
     IsEligibleSource c handle source now \<and> IsEligibleDestination c handle destination now \<and>
     \<not> (rm_GetPrimary (ma_replicas (cl_master c)) handle = Some source \<and> rm_ReplicaCount (ma_replicas (cl_master c)) handle > 1)"

function plan_loop ::
    "'w cluster \<Rightarrow> time_ms \<Rightarrow> server_id list \<Rightarrow> replica_move list \<Rightarrow> chunk_handle set \<Rightarrow> replica_move list" where
  "plan_loop c now servers moves moved_chunks =
     (let e = find_extremes c servers; source = ex_source e; destination = ex_destination e in
      if \<not> unbalanced e then moves
      else case find (\<lambda>handle. handle \<notin> moved_chunks \<and> movable c now source destination handle)
          (rm_GetChunksForServer (ma_replicas (cl_master c)) source) of
        None \<Rightarrow> moves
      | Some handle \<Rightarrow>
          plan_loop c now servers (moves @ [\<lparr>mv_handle = handle, mv_source = source, mv_destination = destination\<rparr>])
            (insert handle moved_chunks))"
  by pat_completeness auto

text \<open>The loop ends since every turn takes another chunk of the same server.\<close>

termination plan_loop
proof (relation "measure (\<lambda>(c, now, servers, moves, moved).
    card (set (rm_GetChunksForServer (ma_replicas (cl_master c)) (ex_source (find_extremes c servers))) - moved))")
  fix c :: "'w cluster" and now servers and moves :: "replica_move list" and moved e source destination handle
  assume e: "e = find_extremes c servers" "source = ex_source e" "destination = ex_destination e"
    and f: "find (\<lambda>handle. handle \<notin> moved \<and> movable c now source destination handle)
      (rm_GetChunksForServer (ma_replicas (cl_master c)) source) = Some handle"
  let ?chunks = "set (rm_GetChunksForServer (ma_replicas (cl_master c)) source)"
  have "handle \<in> ?chunks" "handle \<notin> moved" using find_Some_set [OF f] by auto
  then have "card (?chunks - insert handle moved) < card (?chunks - moved)" by (intro psubset_card_mono) auto
  then show "((c, now, servers, moves @ [\<lparr>mv_handle = handle, mv_source = source, mv_destination = destination\<rparr>],
      insert handle moved), c, now, servers, moves, moved) \<in> measure (\<lambda>(c, now, servers, moves, moved).
        card (set (rm_GetChunksForServer (ma_replicas (cl_master c)) (ex_source (find_extremes c servers))) - moved))"
    using e by simp
qed simp

definition healthy_servers :: "'w cluster \<Rightarrow> time_ms \<Rightarrow> server_id list" where
  "healthy_servers c now =
     sort (filter (\<lambda>s. HasChunkserver c s \<and> hb_IsServerAliveAt (ma_heartbeats (cl_master c)) s now)
       (hb_GetLiveServers (ma_heartbeats (cl_master c))))"

definition Plan :: "'w cluster \<Rightarrow> time_ms \<Rightarrow> replica_move list" where
  "Plan c now =
     (if length (hb_GetLiveServers (ma_heartbeats (cl_master c))) < 2 then []
      else if length (healthy_servers c now) < 2 then []
      else sort_key (\<lambda>mv. (mv_handle mv, mv_source mv, mv_destination mv)) (plan_loop c now (healthy_servers c now) [] {}))"

definition FindMoves :: "'w cluster \<Rightarrow> time_ms \<Rightarrow> replica_move list" where
  "FindMoves c now = Plan c now"

definition ExecuteMove :: "'w network \<Rightarrow> time_ms \<Rightarrow> replica_move \<Rightarrow> 'w cluster \<Rightarrow> bool \<times> 'w cluster" where
  "ExecuteMove net now mv c =
     (if \<not> IsEligibleSource c (mv_handle mv) (mv_source mv) now \<or>
         \<not> IsEligibleDestination c (mv_handle mv) (mv_destination mv) now then (False, c)
      else
        let moving_primary = rm_GetPrimary (ma_replicas (cl_master c)) (mv_handle mv) = Some (mv_source mv) in
        if moving_primary \<and> rm_ReplicaCount (ma_replicas (cl_master c)) (mv_handle mv) > 1 then (False, c)
        else and_then (TransferReplica net (mv_handle mv) (mv_source mv) (mv_destination mv) c)
          (\<lambda>c. and_then (on_master (ma_RegisterReplica (mv_handle mv) (mv_destination mv) moving_primary) c)
            (\<lambda>c. case on_master (ma_RemoveReplica (mv_handle mv) (mv_source mv)) c of
               (False, c) \<Rightarrow> (False, snd (on_master (ma_RemoveReplica (mv_handle mv) (mv_destination mv)) c))
             | (True, c) \<Rightarrow>
                 if moving_primary then on_master (ma_SetPrimary (mv_handle mv) (mv_destination mv)) c else (True, c))))"

fun rebalance_loop :: "'w network \<Rightarrow> time_ms \<Rightarrow> replica_move list \<Rightarrow> replica_move list \<Rightarrow> 'w cluster \<Rightarrow> replica_move list \<times> 'w cluster" where
  "rebalance_loop net now [] completed c = (completed, c)"
| "rebalance_loop net now (mv # planned) completed c =
     (case ExecuteMove net now mv c of
        (ok, c) \<Rightarrow> rebalance_loop net now planned (if ok then completed @ [mv] else completed) c)"

definition Rebalance :: "'w network \<Rightarrow> time_ms \<Rightarrow> 'w cluster \<Rightarrow> replica_move list \<times> 'w cluster" where
  "Rebalance net now c = rebalance_loop net now (Plan c now) [] c"

section \<open>Heartbeats of a chunkserver\<close>

record heartbeat_request =
  hr_server_id :: server_id
  hr_timestamp_ms :: time_ms
  hr_server_address :: string
  hr_chunks :: "reported_chunk list"

definition BuildHeartbeatRequest :: "chunkserver \<Rightarrow> string \<Rightarrow> time_ms \<Rightarrow> heartbeat_request" where
  "BuildHeartbeatRequest s server_address timestamp =
     \<lparr>hr_server_id = cv_server_id s, hr_timestamp_ms = timestamp, hr_server_address = server_address,
      hr_chunks = map (\<lambda>handle. \<lparr>rc_handle = handle, rc_version = 1\<rparr>) (filter (\<lambda>handle. handle \<noteq> 0) (cv_ListChunks s))\<rparr>"

section \<open>The fullest and the emptiest server\<close>

declare plan_loop.simps [simp del]

definition extremes_of :: "'w cluster \<Rightarrow> server_id set \<Rightarrow> extremes \<Rightarrow> bool" where
  "extremes_of c S e \<longleftrightarrow>
     (if ex_source e = 0 then S = {} \<and> ex_source_count e = 0
      else ex_source e \<in> S \<and> ex_source_count e = server_load c (ex_source e) \<and> (\<forall>s \<in> S. server_load c s \<le> ex_source_count e)) \<and>
     (if ex_destination e = 0 then ex_destination_count e = 2 ^ 64 - 1 \<and> (\<forall>s \<in> S. 2 ^ 64 - 1 < server_load c s)
      else ex_destination e \<in> S \<and> ex_destination_count e = server_load c (ex_destination e) \<and>
        (\<forall>s \<in> S. ex_destination_count e \<le> server_load c s))"

text \<open>One turn as the two independent comparisons it makes.\<close>

lemma consider_server_eq:
  "ex_source (consider_server c s e) = (if server_load c s > ex_source_count e \<or>
     server_load c s = ex_source_count e \<and> (ex_source e = 0 \<or> s < ex_source e) then s else ex_source e)"
  "ex_source_count (consider_server c s e) = max (server_load c s) (ex_source_count e)"
  "ex_destination (consider_server c s e) = (if server_load c s < ex_destination_count e \<or>
     server_load c s = ex_destination_count e \<and> (ex_destination e = 0 \<or> s < ex_destination e) then s else ex_destination e)"
  "ex_destination_count (consider_server c s e) = min (server_load c s) (ex_destination_count e)"
  by (auto simp: consider_server_def Let_def)

lemma consider_server_extremes:
  assumes "extremes_of c S e" and "s \<noteq> 0"
  shows "extremes_of c (insert s S) (consider_server c s e)"
proof -
  let ?e = "consider_server c s e"
  have "if ex_source ?e = 0 then insert s S = {} \<and> ex_source_count ?e = 0
      else ex_source ?e \<in> insert s S \<and> ex_source_count ?e = server_load c (ex_source ?e) \<and>
        (\<forall>x \<in> insert s S. server_load c x \<le> ex_source_count ?e)"
  proof (cases "ex_source e = 0")
    case True
    then show ?thesis using assms by (auto simp: extremes_of_def consider_server_eq)
  next
    case False
    then have e: "ex_source e \<in> S" "ex_source_count e = server_load c (ex_source e)" "\<forall>x \<in> S. server_load c x \<le> ex_source_count e"
      using assms unfolding extremes_of_def by metis+
    show ?thesis
    proof (cases "server_load c s > ex_source_count e \<or> server_load c s = ex_source_count e \<and> s < ex_source e")
      case True
      then have "ex_source ?e = s" "ex_source_count ?e = server_load c s" using False by (auto simp: consider_server_eq)
      then show ?thesis using assms(2) e(3) True by fastforce
    next
      case keep: False
      then have "ex_source ?e = ex_source e" "ex_source_count ?e = ex_source_count e" using False by (auto simp: consider_server_eq)
      then show ?thesis using False e keep by auto
    qed
  qed
  moreover have "if ex_destination ?e = 0 then ex_destination_count ?e = 2 ^ 64 - 1 \<and> (\<forall>x \<in> insert s S. 2 ^ 64 - 1 < server_load c x)
      else ex_destination ?e \<in> insert s S \<and> ex_destination_count ?e = server_load c (ex_destination ?e) \<and>
        (\<forall>x \<in> insert s S. ex_destination_count ?e \<le> server_load c x)"
  proof (cases "ex_destination e = 0")
    case True
    then have e: "ex_destination_count e = 2 ^ 64 - 1" "\<forall>x \<in> S. 2 ^ 64 - 1 < server_load c x" using assms by (simp_all add: extremes_of_def)
    show ?thesis
    proof (cases "server_load c s \<le> 2 ^ 64 - 1")
      case small: True
      then have "ex_destination ?e = s" "ex_destination_count ?e = server_load c s"
        using True e(1) by (auto simp: consider_server_eq)
      then show ?thesis using assms(2) e(2) small by fastforce
    next
      case big: False
      then have "ex_destination ?e = 0" "ex_destination_count ?e = 2 ^ 64 - 1" using True e(1) by (auto simp: consider_server_eq)
      then show ?thesis using big e(2) by simp
    qed
  next
    case False
    then have e: "ex_destination e \<in> S" "ex_destination_count e = server_load c (ex_destination e)"
        "\<forall>x \<in> S. ex_destination_count e \<le> server_load c x"
      using assms unfolding extremes_of_def by metis+
    show ?thesis
    proof (cases "server_load c s < ex_destination_count e \<or> server_load c s = ex_destination_count e \<and> s < ex_destination e")
      case True
      then have "ex_destination ?e = s" "ex_destination_count ?e = server_load c s" using False by (auto simp: consider_server_eq)
      then show ?thesis using assms(2) e(3) True by fastforce
    next
      case keep: False
      then have "ex_destination ?e = ex_destination e" "ex_destination_count ?e = ex_destination_count e"
        using False by (auto simp: consider_server_eq)
      then show ?thesis using False e keep by auto
    qed
  qed
  ultimately show ?thesis unfolding extremes_of_def by blast
qed

lemma find_extremes_result: "0 \<notin> set servers \<Longrightarrow> extremes_of c (set servers) (find_extremes c servers)"
proof -
  have "0 \<notin> set servers \<Longrightarrow> extremes_of c S e \<Longrightarrow> extremes_of c (S \<union> set servers) (fold (consider_server c) servers e)" for S e
    by (induction servers arbitrary: S e) (use consider_server_extremes in \<open>fastforce simp: insert_commute\<close>)+
  moreover have "extremes_of c {} \<lparr>ex_source = 0, ex_source_count = 0, ex_destination = 0, ex_destination_count = 2 ^ 64 - 1\<rparr>"
    by (simp add: extremes_of_def)
  ultimately show "0 \<notin> set servers \<Longrightarrow> ?thesis" by (fastforce simp: find_extremes_def)
qed

section \<open>What is planned\<close>

lemma plan_loop_set:
  "set (plan_loop c now servers moves moved) = set moves \<union>
    (let e = find_extremes c servers in
     if unbalanced e then (\<lambda>h. \<lparr>mv_handle = h, mv_source = ex_source e, mv_destination = ex_destination e\<rparr>) `
       {h \<in> set (rm_GetChunksForServer (ma_replicas (cl_master c)) (ex_source e)).
          h \<notin> moved \<and> movable c now (ex_source e) (ex_destination e) h}
     else {})"
proof (induction c now servers moves moved rule: plan_loop.induct)
  case (1 c now servers moves moved)
  let ?e = "find_extremes c servers"
  let ?chunks = "rm_GetChunksForServer (ma_replicas (cl_master c)) (ex_source ?e)"
  let ?want = "\<lambda>h. h \<notin> moved \<and> movable c now (ex_source ?e) (ex_destination ?e) h"
  let ?mk = "\<lambda>h. \<lparr>mv_handle = h, mv_source = ex_source ?e, mv_destination = ex_destination ?e\<rparr>"
  show ?case
  proof (cases "unbalanced ?e")
    case False
    then show ?thesis by (simp add: plan_loop.simps [of c now servers moves moved] Let_def)
  next
    case unb: True
    show ?thesis
    proof (cases "find ?want ?chunks")
      case None
      then have none: "{h \<in> set ?chunks. ?want h} = {}" by (auto simp: find_None_set)
      show ?thesis
        unfolding Let_def none using None unb by (simp add: plan_loop.simps [of c now servers moves moved] Let_def)
    next
      case (Some h)
      have h: "h \<in> set ?chunks" "?want h" using find_Some_set [OF Some] by auto
      have "set (plan_loop c now servers (moves @ [?mk h]) (insert h moved)) = set (moves @ [?mk h]) \<union>
          ?mk ` {g \<in> set ?chunks. g \<notin> insert h moved \<and> movable c now (ex_source ?e) (ex_destination ?e) g}"
        using 1 [OF refl refl refl _ Some] unb by (simp add: Let_def)
      moreover have "plan_loop c now servers moves moved = plan_loop c now servers (moves @ [?mk h]) (insert h moved)"
        using Some unb by (simp add: plan_loop.simps [of c now servers moves moved] Let_def)
      moreover have "{g \<in> set ?chunks. ?want g} =
          insert h {g \<in> set ?chunks. g \<notin> insert h moved \<and> movable c now (ex_source ?e) (ex_destination ?e) g}"
        using h by auto
      ultimately show ?thesis using unb by (simp add: Let_def)
    qed
  qed
qed

lemma healthy_servers_nonzero: "0 \<notin> set (healthy_servers c now)"
  by (simp add: healthy_servers_def HasChunkserver_def)

text \<open>Whenever the rebalancer plans anything, it plans to move every movable chunk of the fullest server to the
  emptiest one: planned moves do not count against the loads, so the plan does not stop when the two
  are level, and carrying it out exchanges their roles.\<close>
lemma plan_empties_fullest_server:
  assumes "Plan c now \<noteq> []"
  shows "\<exists>source \<in> set (healthy_servers c now). \<exists>destination \<in> set (healthy_servers c now).
    (\<forall>s \<in> set (healthy_servers c now). server_load c destination \<le> server_load c s \<and> server_load c s \<le> server_load c source) \<and>
    server_load c destination + 1 < server_load c source \<and>
    set (Plan c now) = {\<lparr>mv_handle = h, mv_source = source, mv_destination = destination\<rparr> | h.
      h \<in> set (rm_GetChunksForServer (ma_replicas (cl_master c)) source) \<and> movable c now source destination h}"
proof -
  let ?e = "find_extremes c (healthy_servers c now)"
  have plan: "set (Plan c now) = set (plan_loop c now (healthy_servers c now) [] {})"
    using assms by (auto simp: Plan_def split: if_splits)
  then have unb: "unbalanced ?e" using assms by (auto simp: plan_loop_set Let_def split: if_splits)
  have "extremes_of c (set (healthy_servers c now)) ?e" by (rule find_extremes_result [OF healthy_servers_nonzero])
  then have e: "ex_source ?e \<in> set (healthy_servers c now)" "ex_destination ?e \<in> set (healthy_servers c now)"
      "ex_source_count ?e = server_load c (ex_source ?e)" "ex_destination_count ?e = server_load c (ex_destination ?e)"
      "\<forall>s \<in> set (healthy_servers c now). server_load c (ex_destination ?e) \<le> server_load c s \<and> server_load c s \<le> server_load c (ex_source ?e)"
    using unb by (auto simp: extremes_of_def unbalanced_def)
  have "set (Plan c now) = {\<lparr>mv_handle = h, mv_source = ex_source ?e, mv_destination = ex_destination ?e\<rparr> | h.
      h \<in> set (rm_GetChunksForServer (ma_replicas (cl_master c)) (ex_source ?e)) \<and> movable c now (ex_source ?e) (ex_destination ?e) h}"
    unfolding plan plan_loop_set Let_def using unb by auto
  moreover have "server_load c (ex_destination ?e) + 1 < server_load c (ex_source ?e)" using unb e(3,4) by (simp add: unbalanced_def)
  ultimately show ?thesis using e by blast
qed

section \<open>What a move does\<close>

lemma eligible_source:
  assumes "cluster_ok c" and "IsEligibleSource c h x now"
  shows "h \<noteq> 0" "x \<noteq> 0" "x \<in> set (replicas_of c h)"
  using assms(2) replicas_props(3) [OF ma_inv_tablesD(1) [OF cluster_okD(1) [OF assms(1)]], of h x]
  by (simp_all add: IsEligibleSource_def)

lemma eligible_destination:
  assumes "cluster_ok c" and "IsEligibleDestination c h y now"
  shows "y \<noteq> 0" "y \<notin> set (replicas_of c h)"
  using assms(2) replicas_props(3) [OF ma_inv_tablesD(1) [OF cluster_okD(1) [OF assms(1)]], of h y]
  by (simp_all add: IsEligibleDestination_def split: if_splits)

lemma remove_result:
  assumes ok: "cluster_ok c" and r: "on_master (ma_RemoveReplica h x) c = (b, c')"
  shows "cluster_ok c'" "same_view c c'" "cl_heap c' = cl_heap c" "cl_world c' = cl_world c"
    "x \<in> set (replicas_of c h) \<Longrightarrow> h \<noteq> 0 \<Longrightarrow> b"
    "set (replicas_of c' g) = set (replicas_of c g) - (if g = h then {x} else {})"
proof -
  have c': "c' = snd (on_master (ma_RemoveReplica h x) c)" using r by simp
  note inv = cluster_okD(1) [OF ok]
  show "same_view c c'" unfolding c' by (rule master_ops_view)
  moreover show "cl_heap c' = cl_heap c" unfolding c' by simp
  moreover show "cl_world c' = cl_world c" unfolding c' by simp
  ultimately show "cluster_ok c'" using cluster_ok_master(1) [OF ok] removed_replicas(1) [OF inv] c' by blast
  show "set (replicas_of c' g) = set (replicas_of c g) - (if g = h then {x} else {})"
    unfolding c' by (rule removed_replicas(2) [OF inv])
  assume x: "x \<in> set (replicas_of c h)" and h: "h \<noteq> 0"
  then obtain rs where rs: "map_of (ma_replicas (cl_master c)) h = Some rs" "x \<in> ri_server ` set rs"
    by (cases "map_of (ma_replicas (cl_master c)) h") (simp_all add: rm_GetReplicaServers_def)
  have "x \<noteq> 0" using x replicas_props(2) [OF ma_inv_tablesD(1) [OF inv], of h] by auto
  moreover obtain r' where "find (\<lambda>r. ri_server r = x) rs = Some r'"
    using rs(2) by (cases "find (\<lambda>r. ri_server r = x) rs") (auto simp: find_None_set)
  ultimately have "fst (rm_RemoveReplica (ma_replicas (cl_master c)) h x)"
    using rs h by (simp add: rm_RemoveReplica_def Let_def)
  then show "b" using r by (simp add: on_master_eq ma_RemoveReplica_def and_then_eq Let_def)
qed

text \<open>The chunks a plan moves are different.\<close>

lemma plan_loop_distinct:
  "distinct (map mv_handle moves) \<Longrightarrow> moved_chunks = mv_handle ` set moves \<Longrightarrow>
    distinct (map mv_handle (plan_loop c now servers moves moved_chunks))"
proof (induction c now servers moves moved_chunks rule: plan_loop.induct)
  case (1 c now servers moves moved_chunks)
  let ?e = "find_extremes c servers"
  let ?chunks = "rm_GetChunksForServer (ma_replicas (cl_master c)) (ex_source ?e)"
  let ?want = "\<lambda>h. h \<notin> moved_chunks \<and> movable c now (ex_source ?e) (ex_destination ?e) h"
  show ?case
  proof (cases "unbalanced ?e \<and> find ?want ?chunks \<noteq> None")
    case False
    then have "plan_loop c now servers moves moved_chunks = moves"
      by (auto simp: plan_loop.simps [of c now servers moves moved_chunks] Let_def)
    then show ?thesis using "1.prems" by simp
  next
    case True
    then obtain h where h: "find ?want ?chunks = Some h" by auto
    then have "h \<notin> moved_chunks" using find_Some_set [OF h] by auto
    moreover have "plan_loop c now servers moves moved_chunks = plan_loop c now servers
        (moves @ [\<lparr>mv_handle = h, mv_source = ex_source ?e, mv_destination = ex_destination ?e\<rparr>]) (insert h moved_chunks)"
      using True h by (simp add: plan_loop.simps [of c now servers moves moved_chunks] Let_def)
    ultimately show ?thesis using 1(1) [OF refl refl refl _ h] True "1.prems" by simp
  qed
qed

lemma Plan_distinct: "distinct (map mv_handle (Plan c now))"
proof -
  have d: "distinct (map mv_handle (plan_loop c now (healthy_servers c now) [] {}))" by (rule plan_loop_distinct) simp_all
  then have "distinct (plan_loop c now (healthy_servers c now) [] {})" by (simp add: distinct_map)
  then show ?thesis using d by (simp add: Plan_def distinct_map)
qed

context replica_transfer
begin

text \<open>From \<open>c\<close> to \<open>c'\<close>, one replica of \<open>h\<close> has moved from \<open>x\<close> to \<open>y\<close> with its contents, or nothing has happened to the chunk.\<close>

definition moved :: "chunk_handle \<Rightarrow> server_id \<Rightarrow> server_id \<Rightarrow> 'w cluster \<Rightarrow> 'w cluster \<Rightarrow> bool" where
  "moved h x y c c' \<longleftrightarrow> x \<in> set (replicas_of c h) \<and> y \<notin> set (replicas_of c h) \<and>
     set (replicas_of c' h) = insert y (set (replicas_of c h)) - {x} \<and>
     (\<exists>data. holds c x h = Some data \<and> holds c' y h = Some (landed data (holds c y h))) \<and>
     (\<forall>z. z \<noteq> y \<longrightarrow> holds c' z h = holds c z h)"

definition settled :: "chunk_handle \<Rightarrow> 'w cluster \<Rightarrow> 'w cluster \<Rightarrow> bool" where
  "settled h c c' \<longleftrightarrow> set (replicas_of c' h) = set (replicas_of c h) \<and> (\<forall>z. holds c' z h = holds c z h)"

lemma settled_refl [simp]: "settled h c c"
  by (simp add: settled_def)

lemma settled_trans:
  "settled h c c1 \<Longrightarrow> settled h c1 c2 \<Longrightarrow> settled h c c2"
  "settled h c c1 \<Longrightarrow> moved h x y c1 c2 \<Longrightarrow> moved h x y c c2"
  "moved h x y c c1 \<Longrightarrow> settled h c1 c2 \<Longrightarrow> moved h x y c c2"
  by (auto simp: settled_def moved_def)

lemma ExecuteMove_result:
  assumes good: "good c" and r: "ExecuteMove net now mv c = (b, c')"
  shows "good c'" "same_view c c'" "reach c' = reach c" "g \<noteq> mv_handle mv \<Longrightarrow> settled g c c'"
    "if b then moved (mv_handle mv) (mv_source mv) (mv_destination mv) c c' else settled (mv_handle mv) c c'"
    "b \<longleftrightarrow> movable c now (mv_source mv) (mv_destination mv) (mv_handle mv) \<and>
      holds c (mv_source mv) (mv_handle mv) \<noteq> None \<and> reach c (mv_destination mv)"
proof -
  let ?h = "mv_handle mv" and ?x = "mv_source mv" and ?y = "mv_destination mv"
  let ?p = "rm_GetPrimary (ma_replicas (cl_master c)) ?h = Some ?x"
  note ok = good_ok [OF good]
  have "good c' \<and> same_view c c' \<and> reach c' = reach c \<and> (\<forall>g. g \<noteq> ?h \<longrightarrow> settled g c c') \<and>
    (if b then moved ?h ?x ?y c c' else settled ?h c c') \<and>
    (b \<longleftrightarrow> movable c now ?x ?y ?h \<and> holds c ?x ?h \<noteq> None \<and> reach c ?y)"
  proof (cases "IsEligibleSource c ?h ?x now \<and> IsEligibleDestination c ?h ?y now \<and>
      \<not> (?p \<and> rm_ReplicaCount (ma_replicas (cl_master c)) ?h > 1)")
    case False
    then have "b = False" "c' = c" using r by (auto simp: ExecuteMove_def split: if_splits)
    then show ?thesis using good False by (auto simp: movable_def)
  next
    case True
    then have mov: "movable c now ?x ?y ?h" by (simp add: movable_def)
    note src = eligible_source [OF ok True [THEN conjunct1]]
    note dst = eligible_destination [OF ok True [THEN conjunct2, THEN conjunct1]]
    obtain b1 c1 where t: "TransferReplica net ?h ?x ?y c = (b1, c1)" by fastforce
    note tr = transfer [OF good t]
    have good1: "good c1" and master: "cl_master c1 = cl_master c" and view1: "same_view c c1" and reach1: "reach c1 = reach c"
      and sent: "b1 \<longleftrightarrow> ?h \<noteq> 0 \<and> ?x \<noteq> ?y \<and> holds c ?x ?h \<noteq> None \<and> reach c ?y"
      and bytes: "\<And>z g. holds c1 z g = (if b1 \<and> z = ?y \<and> g = ?h then Some (landed (the (holds c ?x ?h)) (holds c ?y ?h)) else holds c z g)"
      using tr by simp_all
    have start: "ExecuteMove net now mv c = and_then (b1, c1) (\<lambda>c. and_then (on_master (ma_RegisterReplica ?h ?y ?p) c)
        (\<lambda>c. case on_master (ma_RemoveReplica ?h ?x) c of
           (False, c) \<Rightarrow> (False, snd (on_master (ma_RemoveReplica ?h ?y) c))
         | (True, c) \<Rightarrow> if ?p then on_master (ma_SetPrimary ?h ?y) c else (True, c)))"
      using True t by (auto simp: ExecuteMove_def Let_def)
    have ne: "?x \<noteq> ?y" using src(3) dst(2) by auto
    show ?thesis
    proof (cases b1)
      case False
      then have "b = False" "c' = c1" using r start by simp_all
      moreover have "settled g c c1" for g using bytes False master by (simp add: settled_def)
      ultimately show ?thesis using good1 view1 reach1 sent False src(1) ne by simp
    next
      case yes: True
      obtain b2 c2 where c2: "on_master (ma_RegisterReplica ?h ?y ?p) c1 = (b2, c2)" by fastforce
      note reg = register_result [OF good_ok [OF good1] src(1) dst(1) c2]
      have b2: "b2" using reg(5) master dst(2) by simp
      obtain b3 c3 where c3: "on_master (ma_RemoveReplica ?h ?x) c2 = (b3, c3)" by fastforce
      note rem = remove_result [OF reg(1) c3]
      have in2: "?x \<in> set (replicas_of c2 ?h)" using reg(6) [of ?h] master src(3) by simp
      have b3: "b3" by (rule rem(5) [OF in2 src(1)])
      have reps3: "set (replicas_of c3 g) = (if g = ?h then insert ?y (set (replicas_of c ?h)) - {?x} else set (replicas_of c g))" for g
        using rem(6) [of g] reg(6) [of g] master by auto
      have y3: "?y \<in> set (replicas_of c3 ?h)" using reps3 [of ?h] ne by simp
      note prim = new_primary_result [OF rem(1) src(1) y3]
      have final: "(b, c') = (if ?p then on_master (ma_SetPrimary ?h ?y) c3 else (True, c3))"
        using r start yes c2 b2 c3 b3 by simp
      have end3: "b \<and> cluster_ok c' \<and> same_view c3 c' \<and> replicas_of c' = replicas_of c3 \<and> cl_heap c' = cl_heap c3 \<and> cl_world c' = cl_world c3"
      proof (cases ?p)
        case True
        then have eq: "b = fst (on_master (ma_SetPrimary ?h ?y) c3)" "c' = snd (on_master (ma_SetPrimary ?h ?y) c3)"
          using final by (metis fst_conv, metis snd_conv)
        then show ?thesis using prim master_ops_view(2) [of c3 ?h ?y] by simp
      next
        case False
        then show ?thesis using final rem(1) by simp
      qed
      have view13: "same_view c1 c'" using same_view_trans [OF same_view_trans [OF reg(2) rem(2)]] end3 by blast
      have after: "good c'" "holds c' = holds c1" "reach c' = reach c1"
        using records [OF good1 _ view13] end3 rem(3,4) reg(3,4) by simp_all
      have bytes': "holds c' z g = (if z = ?y \<and> g = ?h then Some (landed (the (holds c ?x ?h)) (holds c ?y ?h)) else holds c z g)" for z g
        using bytes [of z g] yes after(2) by simp
      have reps': "set (replicas_of c' g) = (if g = ?h then insert ?y (set (replicas_of c ?h)) - {?x} else set (replicas_of c g))" for g
        using reps3 [of g] end3 by simp
      have "moved ?h ?x ?y c c'"
        using src(3) dst(2) reps' [of ?h] bytes' sent yes by (auto simp: moved_def)
      moreover have "settled g c c'" if "g \<noteq> ?h" for g using reps' [of g] bytes' that by (simp add: settled_def)
      ultimately show ?thesis using after end3 same_view_trans [OF view1 view13] reach1 mov sent yes by simp
    qed
  qed
  then show "good c'" "same_view c c'" "reach c' = reach c" "g \<noteq> ?h \<Longrightarrow> settled g c c'"
    "if b then moved ?h ?x ?y c c' else settled ?h c c'"
    "b \<longleftrightarrow> movable c now ?x ?y ?h \<and> holds c ?x ?h \<noteq> None \<and> reach c ?y" by blast+
qed

text \<open>A round moves the chunks it reports, each once, and nothing else.\<close>

lemma rebalance_loop_result:
  assumes "good c" and "distinct (map mv_handle planned)" and "rebalance_loop net now planned completed c = (ms, c')"
  shows "good c' \<and> same_view c c' \<and> (\<exists>new. ms = completed @ new \<and> set new \<subseteq> set planned \<and>
    (\<forall>mv \<in> set new. moved (mv_handle mv) (mv_source mv) (mv_destination mv) c c') \<and>
    (\<forall>h. h \<notin> mv_handle ` set new \<longrightarrow> settled h c c'))"
  using assms
proof (induction planned arbitrary: completed c)
  case Nil
  then show ?case by auto
next
  case (Cons mv planned)
  let ?h = "mv_handle mv"
  obtain b c1 where mv: "ExecuteMove net now mv c = (b, c1)" by fastforce
  note one = ExecuteMove_result [OF Cons.prems(1) mv]
  have "rebalance_loop net now planned (if b then completed @ [mv] else completed) c1 = (ms, c')"
    using Cons.prems(3) mv by simp
  from Cons.IH [OF one(1) _ this] obtain new where new: "good c'" "same_view c1 c'"
      "ms = (if b then completed @ [mv] else completed) @ new" "set new \<subseteq> set planned"
      "\<And>mv. mv \<in> set new \<Longrightarrow> moved (mv_handle mv) (mv_source mv) (mv_destination mv) c1 c'"
      "\<And>h. h \<notin> mv_handle ` set new \<Longrightarrow> settled h c1 c'"
    using Cons.prems(2) by auto
  have fresh: "?h \<notin> mv_handle ` set new" using Cons.prems(2) new(4) by auto
  have others: "moved (mv_handle m) (mv_source m) (mv_destination m) c c'" if "m \<in> set new" for m
  proof -
    have "mv_handle m \<noteq> ?h" using fresh that by (metis imageI)
    from settled_trans(2) [OF one(4) [OF this] new(5) [OF that]] show ?thesis .
  qed
  have rest: "settled h c c'" if "h \<notin> mv_handle ` set new" "h \<noteq> ?h \<or> \<not> b" for h
  proof -
    have "settled h c c1" using one(4,5) that(2) by (cases "h = ?h") auto
    from settled_trans(1) [OF this new(6) [OF that(1)]] show ?thesis .
  qed
  show ?case
  proof (cases b)
    case True
    have "moved ?h (mv_source mv) (mv_destination mv) c c'"
      using settled_trans(3) [OF _ new(6) [OF fresh]] one(5) True by simp
    then have "\<forall>m \<in> set (mv # new). moved (mv_handle m) (mv_source m) (mv_destination m) c c'" using others by simp
    moreover have "\<forall>h. h \<notin> mv_handle ` set (mv # new) \<longrightarrow> settled h c c'" using rest by simp
    ultimately show ?thesis using new(1,3,4) same_view_trans [OF one(2) new(2)] True
      by (intro conjI exI [of _ "mv # new"]) auto
  next
    case False
    then show ?thesis using new(1,3,4) same_view_trans [OF one(2) new(2)] others rest by (intro conjI exI [of _ new]) auto
  qed
qed

lemma Rebalance_result:
  assumes "good c" and "Rebalance net now c = (completed, c')"
  shows "good c'" "same_view c c'" "mv \<in> set completed \<Longrightarrow> moved (mv_handle mv) (mv_source mv) (mv_destination mv) c c'"
    "h \<notin> mv_handle ` set completed \<Longrightarrow> settled h c c'" "length (replicas_of c' h) = length (replicas_of c h)"
proof -
  note res = rebalance_loop_result [OF assms(1) Plan_distinct assms(2) [unfolded Rebalance_def]]
  then show good: "good c'" and "same_view c c'" by simp_all
  show mov: "moved (mv_handle mv) (mv_source mv) (mv_destination mv) c c'" if "mv \<in> set completed" for mv using res that by auto
  show still: "settled h c c'" if "h \<notin> mv_handle ` set completed" for h using res that by auto
  have count: "length (replicas_of d h) = card (set (replicas_of d h))" if "good d" for d
    using distinct_card [OF replicas_props(1) [OF ma_inv_tablesD(1) [OF cluster_okD(1) [OF good_ok [OF that]]]]] by metis
  have "card (set (replicas_of c' h)) = card (set (replicas_of c h))"
  proof (cases "h \<in> mv_handle ` set completed")
    case True
    then obtain x y where m: "x \<in> set (replicas_of c h)" "y \<notin> set (replicas_of c h)"
        "set (replicas_of c' h) = insert y (set (replicas_of c h)) - {x}"
      using mov unfolding moved_def by blast
    then have "set (replicas_of c' h) = insert y (set (replicas_of c h) - {x})" by blast
    then show ?thesis using m(1,2) card_Suc_Diff1 [OF _ m(1)] by simp
  next
    case False
    then show ?thesis using still by (simp add: settled_def)
  qed
  then show "length (replicas_of c' h) = length (replicas_of c h)" using count good assms(1) by simp
qed

text \<open>The first planned move is carried out when its source has the chunk and its destination can be written.\<close>

lemma first_move_completed:
  assumes "good c" and "Plan c now = mv # rest" and "movable c now (mv_source mv) (mv_destination mv) (mv_handle mv)"
    and "holds c (mv_source mv) (mv_handle mv) \<noteq> None" and "reach c (mv_destination mv)" and "Rebalance net now c = (completed, c')"
  shows "mv \<in> set completed"
proof -
  obtain b c1 where mv: "ExecuteMove net now mv c = (b, c1)" by fastforce
  note one = ExecuteMove_result [OF assms(1) mv]
  have "b" using one(6) assms(3-5) by simp
  then have "rebalance_loop net now rest [mv] c1 = (completed, c')" using assms(2,6) mv by (simp add: Rebalance_def)
  moreover have "distinct (map mv_handle rest)" using Plan_distinct [of c now] assms(2) by simp
  ultimately show ?thesis using rebalance_loop_result [OF one(1)] by fastforce
qed

end

lemma cv_ListChunks_iff: "cv_inv s \<Longrightarrow> h \<in> set (cv_ListChunks s) \<longleftrightarrow> cv_bytes s h \<noteq> None"
  using cv_invD(1) [of s] by (auto simp: cv_ListChunks_def sg_ListChunks_def cv_bytes_def sg_bytes_None key_in_iff)

lemma reported_is_registered:
  assumes "server \<noteq> 0"
  shows "rm_HasReplica (ma_replicas m) g s \<Longrightarrow> rm_HasReplica (ma_replicas (fold (register_reported server) chunks m)) g s"
    and "chunk \<in> set chunks \<Longrightarrow> rc_handle chunk \<noteq> 0 \<Longrightarrow> rc_version chunk \<noteq> 0 \<Longrightarrow>
      rm_HasReplica (ma_replicas (fold (register_reported server) chunks m)) (rc_handle chunk) server"
proof -
  have keep: "rm_HasReplica (ma_replicas m) g s \<Longrightarrow> rm_HasReplica (ma_replicas (register_reported server ch m)) g s" for m g s ch
    using RegisterReplica_has(2) [OF _ assms] by (simp add: register_reported_def)
  show kept: "rm_HasReplica (ma_replicas m) g s \<Longrightarrow> rm_HasReplica (ma_replicas (fold (register_reported server) chunks m)) g s" for g s m
    by (induction chunks arbitrary: m) (simp_all add: keep)
  show "chunk \<in> set chunks \<Longrightarrow> rc_handle chunk \<noteq> 0 \<Longrightarrow> rc_version chunk \<noteq> 0 \<Longrightarrow>
      rm_HasReplica (ma_replicas (fold (register_reported server) chunks m)) (rc_handle chunk) server"
  proof (induction chunks arbitrary: m)
    case (Cons ch chunks)
    show ?case
    proof (cases "chunk = ch")
      case True
      then have "rm_HasReplica (ma_replicas (register_reported server ch m)) (rc_handle chunk) server"
        using RegisterReplica_has(1) [OF Cons.prems(2) assms] Cons.prems(2,3) by (simp add: register_reported_def)
      then have "rm_HasReplica (ma_replicas (fold (register_reported server) cs (register_reported server ch m))) (rc_handle chunk) server" for cs
        by (induction cs arbitrary: m ch rule: rev_induct) (simp_all add: keep)
      then show ?thesis by simp
    next
      case False
      then show ?thesis using Cons by simp
    qed
  qed simp
qed

lemma heartbeat_accepted:
  "fst (ma_ProcessHeartbeat s t chunks m) \<longleftrightarrow>
    s \<noteq> 0 \<and> (case map_of (hb_servers (ma_heartbeats m)) s of None \<Rightarrow> True | Some st \<Rightarrow> cs_last_heartbeat_ms st \<le> t)"
  by (auto simp: ma_ProcessHeartbeat_def and_then_eq hb_ProcessHeartbeat_def Let_def not_less split: option.splits)

text \<open>A move does not last: the source keeps the chunk on its disk, its next heartbeat reports it, and the
  master lists the source again beside the destination, so the chunk ends up with one replica more.\<close>
lemma moved_replica_returns:
  assumes ok: "cluster_ok c" "attached c" and mv: "ExecuteMove net now mv c = (True, c')"
    and a: "GetChunkserver c (mv_source mv) = Some a"
    and req: "req = BuildHeartbeatRequest (cl_heap c' a) addr t"
    and beat: "ma_ProcessHeartbeat (hr_server_id req) (hr_timestamp_ms req) (hr_chunks req) (cl_master c') = (True, m)"
  shows "rm_HasReplica (ma_replicas m) (mv_handle mv) (mv_source mv) \<and>
    rm_HasReplica (ma_replicas m) (mv_handle mv) (mv_destination mv) \<and>
    \<not> rm_HasReplica (ma_replicas (cl_master c')) (mv_handle mv) (mv_source mv)"
proof -
  let ?h = "mv_handle mv" and ?x = "mv_source mv" and ?y = "mv_destination mv"
  note res = objects.ExecuteMove_result [OF conjI [OF ok] mv]
  then have m: "objects.moved ?h ?x ?y c c'" and ok': "cluster_ok c'" by simp_all
  have a': "GetChunkserver c' ?x = Some a" using a res(2) by (simp add: GetChunkserver_def same_view_def)
  have id: "cv_server_id (cl_heap c' a) = ?x" "cv_inv (cl_heap c' a)" using cluster_okD(3,4) [OF ok' a'] by simp_all
  have "?x \<noteq> ?y" using m by (auto simp: objects.moved_def)
  then have "bytes_at c' ?x ?h \<noteq> None" using m by (auto simp: objects.moved_def)
  then have "?h \<in> set (cv_ListChunks (cl_heap c' a))" using cv_ListChunks_iff [OF id(2)] a' by (simp add: bytes_at_def)
  moreover have "?x \<noteq> 0" by (rule cluster_okD(2) [OF ok(1) a])
  moreover have "?h \<noteq> 0" using mv by (auto simp: ExecuteMove_def IsEligibleSource_def split: if_splits)
  ultimately have report: "\<lparr>rc_handle = ?h, rc_version = 1\<rparr> \<in> set (hr_chunks req)" "hr_server_id req = ?x"
    by (auto simp: req BuildHeartbeatRequest_def id(1))
  define m0 where "m0 = (cl_master c')\<lparr>ma_heartbeats :=
    snd (hb_ProcessHeartbeat (ma_heartbeats (cl_master c')) ?x (hr_timestamp_ms req) (hr_chunks req))\<rparr>"
  have m0: "ma_replicas m0 = ma_replicas (cl_master c')" "m = fold (register_reported ?x) (hr_chunks req) m0"
    using beat report(2) by (auto simp: m0_def ma_ProcessHeartbeat_def and_then_eq split: if_splits)
  note has = replicas_props(3) [OF ma_inv_tablesD(1) [OF cluster_okD(1) [OF ok']]]
  have "rm_HasReplica (ma_replicas m0) ?h ?y" "\<not> rm_HasReplica (ma_replicas (cl_master c')) ?h ?x"
    using m \<open>?x \<noteq> ?y\<close> unfolding m0(1) has by (auto simp: objects.moved_def)
  then show ?thesis
    using reported_is_registered(1) [OF \<open>?x \<noteq> 0\<close>, where g = ?h and s = ?y] reported_is_registered(2) [OF \<open>?x \<noteq> 0\<close> report(1)] \<open>?h \<noteq> 0\<close> m0(2) by simp
qed

end
