(* ===== verification/ChunkserverService.thy ===== *)
theory ChunkserverService
  imports Cluster
begin

text \<open>
  \<open>src/protocol/chunkserver_service.cpp\<close>: the handlers of the remote procedure calls of a chunkserver. A request is
  \<open>None\<close> for a null pointer; the result is \<open>Inl\<close> for the status \<open>INVALID_ARGUMENT\<close> and \<open>Inr\<close> for the status
  \<open>OK\<close> with a response. The server the handlers call is set by the constructor, so it is never null.
  \<open>service_network\<close> puts the handlers behind the stubs that recovery calls.
\<close>

section \<open>Responses\<close>

record 'a reply =
  rp_success :: bool
  rp_error_message :: string
  rp_body :: 'a

text \<open>The response after \<open>Clear\<close>, with the flag and the message of the outcome.\<close>

definition respond :: "bool \<Rightarrow> string \<Rightarrow> 'a \<Rightarrow> 'a reply" where
  "respond success message body = \<lparr>rp_success = success, rp_error_message = (if success then [] else message), rp_body = body\<rparr>"

type_synonym 'a rpc_result = "string + 'a reply"

lemma respond_simps [simp]:
  "rp_success (respond b msg body) = b" "rp_body (respond b msg body) = body"
  "rp_error_message (respond b msg body) = (if b then [] else msg)"
  by (simp_all add: respond_def)

section \<open>Requests\<close>

record read_chunk_request =
  rd_chunk_handle :: chunk_handle
  rd_chunk_version :: chunk_version
  rd_offset :: "64 word"
  rd_length :: "64 word"

record write_chunk_request =
  wr_chunk_handle :: chunk_handle
  wr_chunk_version :: chunk_version
  wr_offset :: "64 word"
  wr_data :: string
  wr_mutation_id :: "64 word"

record push_data_request =
  ps_chunk_handle :: chunk_handle
  ps_chunk_version :: chunk_version
  ps_data :: string

record clone_chunk_request =
  cl_source_chunk_handle :: chunk_handle
  cl_source_version :: chunk_version
  cl_destination_chunk_handle :: chunk_handle
  cl_destination_version :: chunk_version

record create_replica_request =
  cr_chunk_handle :: chunk_handle
  cr_chunk_version :: chunk_version

section \<open>Handlers\<close>

definition svc_ReadChunk :: "read_chunk_request option \<Rightarrow> chunkserver \<Rightarrow> string rpc_result \<times> chunkserver" where
  "svc_ReadChunk request s =
     (case request of
        None \<Rightarrow> (Inl ''invalid read request'', s)
      | Some rq \<Rightarrow>
          (case cv_ReadChunk (rd_chunk_handle rq) (rd_offset rq) (rd_length rq) s of
             (None, s) \<Rightarrow> (Inr (respond False ''chunk read failed'' []), s)
           | (Some data, s) \<Rightarrow> (Inr (respond True [] data), s)))"

definition svc_PushData :: "push_data_request option \<Rightarrow> chunkserver \<Rightarrow> unit rpc_result \<times> chunkserver" where
  "svc_PushData request s =
     (case request of
        None \<Rightarrow> (Inl ''invalid push-data request'', s)
      | Some rq \<Rightarrow>
          (case Receive (ps_chunk_handle rq) (ps_data rq) s of (ok, s) \<Rightarrow> (Inr (respond ok ''push data failed'' ()), s)))"

definition svc_WriteChunk :: "write_chunk_request option \<Rightarrow> chunkserver \<Rightarrow> 64 word rpc_result \<times> chunkserver" where
  "svc_WriteChunk request s =
     (case request of
        None \<Rightarrow> (Inl ''invalid write request'', s)
      | Some rq \<Rightarrow>
          (case cv_WriteChunk (wr_chunk_handle rq) (wr_offset rq) (wr_data rq) s of
             (ok, s) \<Rightarrow> (Inr (respond ok ''chunk write failed'' (wr_mutation_id rq)), s)))"

definition svc_ApplyMutation :: "mutation option \<Rightarrow> chunkserver \<Rightarrow> 64 word rpc_result \<times> chunkserver" where
  "svc_ApplyMutation request s =
     (case request of
        None \<Rightarrow> (Inl ''invalid mutation request'', s)
      | Some mu \<Rightarrow>
          (case ApplyMutation mu s of (ok, s) \<Rightarrow> (Inr (respond ok ''mutation failed'' (mu_mutation_id mu)), s)))"

definition svc_TransferChunk :: "read_chunk_request option \<Rightarrow> chunkserver \<Rightarrow> string rpc_result \<times> chunkserver" where
  "svc_TransferChunk request s =
     (case request of
        None \<Rightarrow> (Inl ''invalid transfer request'', s)
      | Some rq \<Rightarrow>
          let sz = cv_GetChunkSize s (rd_chunk_handle rq);
              len = (if rd_length rq = 0 then sz else rd_length rq) in
          if rd_offset rq > sz \<or> len > sz - rd_offset rq \<or> len > kChunkSize
          then (Inr (respond False ''invalid transfer range'' []), s)
          else
            (case cv_ReadChunk (rd_chunk_handle rq) (rd_offset rq) len s of
               (None, s) \<Rightarrow> (Inr (respond False ''chunk transfer read failed'' []), s)
             | (Some data, s) \<Rightarrow> (Inr (respond True [] data), s)))"

definition svc_CloneChunk :: "clone_chunk_request option \<Rightarrow> chunkserver \<Rightarrow> unit rpc_result \<times> chunkserver" where
  "svc_CloneChunk request s =
     (case request of
        None \<Rightarrow> (Inl ''invalid clone request'', s)
      | Some rq \<Rightarrow>
          (case Clone (cl_source_chunk_handle rq) (cl_destination_chunk_handle rq) s of
             (ok, s) \<Rightarrow> (Inr (respond ok ''clone failed'' ()), s)))"

definition svc_CreateReplica :: "create_replica_request option \<Rightarrow> chunkserver \<Rightarrow> unit rpc_result \<times> chunkserver" where
  "svc_CreateReplica request s =
     (case request of
        None \<Rightarrow> (Inl ''invalid create-replica request'', s)
      | Some rq \<Rightarrow>
          (case (if cv_ChunkExists s (cr_chunk_handle rq) then (True, s) else cv_CreateChunk (cr_chunk_handle rq) s) of
             (ok, s) \<Rightarrow> (Inr (respond ok ''replica creation failed'' ()), s)))"

section \<open>The handlers behind the stubs\<close>

text \<open>Servers by address; a call to an address without a server, and a status that is not ok, are \<open>None\<close>.\<close>

type_synonym remotes = "string \<rightharpoonup> chunkserver"

definition call_at :: "string \<Rightarrow> (chunkserver \<Rightarrow> 'a rpc_result \<times> chunkserver) \<Rightarrow> remotes \<Rightarrow> 'a reply option \<times> remotes" where
  "call_at addr f w =
     (case w addr of
        None \<Rightarrow> (None, w)
      | Some s \<Rightarrow> (case f s of (r, s) \<Rightarrow> ((case r of Inl _ \<Rightarrow> None | Inr reply \<Rightarrow> Some reply), w(addr \<mapsto> s))))"

definition service_network :: "remotes network" where
  "service_network =
     \<lparr>nw_TransferChunk = \<lambda>addr h v offset len w.
        (case call_at addr (svc_TransferChunk (Some \<lparr>rd_chunk_handle = h, rd_chunk_version = v, rd_offset = offset, rd_length = len\<rparr>)) w of
           (r, w) \<Rightarrow> (map_option (\<lambda>reply. (rp_success reply, rp_body reply)) r, w)),
      nw_CreateReplica = \<lambda>addr h v w.
        (case call_at addr (svc_CreateReplica (Some \<lparr>cr_chunk_handle = h, cr_chunk_version = v\<rparr>)) w of
           (r, w) \<Rightarrow> (map_option rp_success r, w)),
      nw_WriteChunk = \<lambda>addr h v offset data w.
        (case call_at addr (svc_WriteChunk (Some \<lparr>wr_chunk_handle = h, wr_chunk_version = v, wr_offset = offset,
             wr_data = data, wr_mutation_id = 0\<rparr>)) w of
           (r, w) \<Rightarrow> (map_option rp_success r, w))\<rparr>"

section \<open>Results\<close>

lemma svc_TransferChunk_all:
  assumes inv: "cv_inv s"
    and r: "svc_TransferChunk (Some \<lparr>rd_chunk_handle = h, rd_chunk_version = v, rd_offset = 0, rd_length = 0\<rparr>) s = (res, s')"
  shows "cv_inv s'" "cv_bytes s' = cv_bytes s"
    "res = Inr (case cv_bytes s h of None \<Rightarrow> respond False ''chunk transfer read failed'' [] | Some data \<Rightarrow> respond True [] data)"
proof -
  have sz: "\<not> cv_GetChunkSize s h > kChunkSize"
    using length_contents [OF inv, of h] cv_GetChunkSize_bytes [OF inv, of h] by (simp add: not_less le_kChunkSize)
  obtain d s1 where read: "cv_ReadChunk h 0 (cv_GetChunkSize s h) s = (d, s1)" by fastforce
  note all = cv_ReadChunk_all [OF inv read]
  have "s' = s1 \<and> res = Inr (case cv_bytes s h of None \<Rightarrow> respond False ''chunk transfer read failed'' [] | Some data \<Rightarrow> respond True [] data)"
    using r read sz all(3) by (cases "cv_bytes s h") (simp_all add: svc_TransferChunk_def Let_def)
  then show "cv_inv s'" "cv_bytes s' = cv_bytes s"
    "res = Inr (case cv_bytes s h of None \<Rightarrow> respond False ''chunk transfer read failed'' [] | Some data \<Rightarrow> respond True [] data)"
    using all(1,2) by simp_all
qed

lemma svc_CreateReplica_result:
  assumes inv: "cv_inv t" and h: "h \<noteq> 0"
    and r: "svc_CreateReplica (Some \<lparr>cr_chunk_handle = h, cr_chunk_version = v\<rparr>) t = (res, t')"
  shows "cv_inv t'" "res = Inr (respond True [] ())" "cv_bytes t' = (cv_bytes t)(h \<mapsto> contents t h)"
proof -
  have "cv_inv t' \<and> res = Inr (respond True [] ()) \<and> cv_bytes t' = (cv_bytes t)(h \<mapsto> contents t h)"
  proof (cases "cv_bytes t h")
    case None
    obtain b t1 where c: "cv_CreateChunk h t = (b, t1)" by fastforce
    have "cv_inv t1" "b" "cv_bytes t1 = (cv_bytes t)(h \<mapsto> [])" using cv_CreateChunk_result [OF inv c] h None by auto
    then show ?thesis using r c None cv_ChunkExists_bytes [OF inv, of h] by (simp add: svc_CreateReplica_def contents_def respond_def)
  next
    case (Some c)
    then show ?thesis using r inv cv_ChunkExists_bytes [OF inv, of h]
      by (auto simp: svc_CreateReplica_def contents_def respond_def fun_eq_iff)
  qed
  then show "cv_inv t'" "res = Inr (respond True [] ())" "cv_bytes t' = (cv_bytes t)(h \<mapsto> contents t h)" by simp_all
qed

lemma overlay_start: "overlay old 0 data = data @ drop (length data) old"
  by (simp add: overlay_def)

definition remotes_ok :: "remotes \<Rightarrow> bool" where
  "remotes_ok w \<longleftrightarrow> (\<forall>a t. w a = Some t \<longrightarrow> cv_inv t)"

text \<open>A copy through the handlers when both servers answer.\<close>

lemma remote_copy:
  assumes src: "w a = Some s" "cv_inv s" "cv_bytes s h = Some data" and dst: "w b = Some t" "cv_inv t" and ne: "a \<noteq> b"
  obtains s' t' where "transfer_remote service_network h a b w = (True, w(a \<mapsto> s', b \<mapsto> t'))" and "cv_inv s'" and "cv_bytes s' = cv_bytes s"
    and "cv_inv t'" and "cv_bytes t' = (cv_bytes t)(h \<mapsto> data @ drop (length data) (contents t h))"
proof -
  have h: "h \<noteq> 0" using src(3) cv_invD(6) [OF src(2)] by auto
  let ?rq = "Some \<lparr>rd_chunk_handle = h, rd_chunk_version = 1, rd_offset = 0, rd_length = 0\<rparr>"
  obtain r1 s1 where t1: "svc_TransferChunk ?rq s = (r1, s1)" by fastforce
  note sent = svc_TransferChunk_all [OF src(2) t1]
  have r1: "r1 = Inr (respond True [] data)" using sent(3) src(3) by simp
  obtain r2 t2 where t2: "svc_CreateReplica (Some \<lparr>cr_chunk_handle = h, cr_chunk_version = 1\<rparr>) t = (r2, t2)" by fastforce
  note made = svc_CreateReplica_result [OF dst(2) h t2]
  have start: "transfer_remote service_network h a b w =
    (if data = [] then (True, w(a \<mapsto> s1, b \<mapsto> t2))
     else case call_at b (svc_WriteChunk (Some \<lparr>wr_chunk_handle = h, wr_chunk_version = 1, wr_offset = 0,
          wr_data = data, wr_mutation_id = 0\<rparr>)) (w(a \<mapsto> s1, b \<mapsto> t2)) of
       (r, w) \<Rightarrow> (map_option rp_success r = Some True, w))"
    using src(1) dst(1) ne t1 r1 t2 made(2)
    by (simp add: transfer_remote_def service_network_def call_at_def split: prod.splits)
  show thesis
  proof (cases "data = []")
    case True
    then show thesis using that [OF _ sent(1,2) made(1)] start made(3) by simp
  next
    case False
    obtain b3 t3 where t3: "cv_WriteChunk h 0 data t2 = (b3, t3)" by fastforce
    have "length data \<le> 2 ^ 26" using length_contents [OF src(2), of h] src(3) by (simp add: contents_def)
    then have wrote: "b3" "cv_inv t3" "cv_bytes t3 = (cv_bytes t)(h \<mapsto> data @ drop (length data) (contents t h))"
      using cv_WriteChunk_result [OF made(1) t3] made(3) by (simp_all add: overlay_start)
    have "transfer_remote service_network h a b w = (True, w(a \<mapsto> s1, b \<mapsto> t3))"
      using start False t3 wrote(1) ne by (simp add: call_at_def svc_WriteChunk_def)
    then show thesis using that [OF _ sent(1,2) wrote(2,3)] by simp
  qed
qed

text \<open>C21: Recovery through the network does not replace a chunk that the destination already has, as it does on
  registered objects: it overwrites the beginning. Where the old copy is longer, its tail stays, and the
  copy that is reported as a success differs from the source.\<close>
theorem remote_copy_keeps_old_tail:
  assumes src: "w a = Some s" "cv_inv s" "cv_bytes s h = Some data" and dst: "w b = Some t" "cv_inv t" and ne: "a \<noteq> b"
    and r: "transfer_remote service_network h a b w = (ok, w')"
  shows "ok \<and> (\<exists>t'. w' b = Some t' \<and> cv_inv t' \<and> cv_bytes t' = (cv_bytes t)(h \<mapsto> data @ drop (length data) (contents t h)))"
proof -
  obtain s' t' where copy: "transfer_remote service_network h a b w = (True, w(a \<mapsto> s', b \<mapsto> t'))" "cv_inv t'"
      "cv_bytes t' = (cv_bytes t)(h \<mapsto> data @ drop (length data) (contents t h))"
    by (rule remote_copy [OF src dst ne])
  then show ?thesis using r by auto
qed

theorem remote_copy_keeps_old_tail_witness:
  "\<exists>w w' t'. transfer_remote service_network 5 ''a'' ''b'' w = (True, w') \<and> cv_bytes (the (w ''a'')) 5 = Some ''abcd'' \<and>
     w' ''b'' = Some t' \<and> cv_bytes t' 5 = Some ''abcdold''"
proof -
  obtain s where s: "cv_inv s" "cv_bytes s = [5 \<mapsto> ''abcd'']" using sample_server by fastforce
  obtain b0 t where t: "Receive 5 ''old4old'' s = (b0, t)" by fastforce
  have t': "cv_inv t" "cv_bytes t = [5 \<mapsto> ''old4old'']" using Receive_result [OF s(1) t] s(2) by simp_all
  let ?w = "[''a'' \<mapsto> s, ''b'' \<mapsto> t]"
  obtain ok w' where r: "transfer_remote service_network 5 ''a'' ''b'' ?w = (ok, w')" by fastforce
  have old: "contents t 5 = ''old4old''" using t'(2) by (simp add: contents_def)
  have "ok \<and> (\<exists>t'. w' ''b'' = Some t' \<and> cv_inv t' \<and>
      cv_bytes t' = (cv_bytes t)(5 \<mapsto> ''abcd'' @ drop (length ''abcd'') (contents t 5)))"
    by (rule remote_copy_keeps_old_tail [OF _ s(1) _ _ t'(1) _ r]) (simp_all add: s(2))
  then obtain t2 where "ok" "w' ''b'' = Some t2" "cv_bytes t2 5 = Some ''abcdold''" by (auto simp: old)
  then have "transfer_remote service_network 5 ''a'' ''b'' ?w = (True, w') \<and> cv_bytes (the (?w ''a'')) 5 = Some ''abcd'' \<and>
      w' ''b'' = Some t2 \<and> cv_bytes t2 5 = Some ''abcdold''" using r s(2) by simp
  then show ?thesis by blast
qed

end
