(* ===== verification/Transports.thy ===== *)
theory Transports
  imports ChunkserverService Rebalancer
begin

text \<open>
  Recovery and rebalancing of a deployed master. Its chunkservers are known by the addresses that their heartbeats announce, so
  every copy goes through the remote procedure calls of \<open>ChunkserverService\<close>. The locale \<open>replica_transfer\<close> is interpreted on these
  calls; the properties cover them and the servers that are objects in the process of the master.
\<close>

section \<open>Servers behind addresses\<close>

definition bytes_behind :: "remotes cluster \<Rightarrow> server_id \<Rightarrow> chunk_handle \<Rightarrow> string option" where
  "bytes_behind c s h =
     (case GetChunkserverEndpoint c s of
        None \<Rightarrow> None
      | Some a \<Rightarrow> (case cl_world c a of None \<Rightarrow> None | Some t \<Rightarrow> cv_bytes t h))"

definition answering :: "remotes cluster \<Rightarrow> server_id \<Rightarrow> bool" where
  "answering c s \<longleftrightarrow> (case GetChunkserverEndpoint c s of None \<Rightarrow> False | Some a \<Rightarrow> cl_world c a \<noteq> None)"

text \<open>No server is an object, no two announce the same address, and the server at an address is in a consistent state.\<close>

definition networked :: "remotes cluster \<Rightarrow> bool" where
  "networked c \<longleftrightarrow> cl_chunkservers c = [] \<and> ma_inv (cl_master c) \<and> remotes_ok (cl_world c) \<and>
     (\<forall>s a. GetChunkserverEndpoint c s = Some a \<longrightarrow> s \<noteq> 0 \<and> a \<noteq> []) \<and>
     (\<forall>s t a. GetChunkserverEndpoint c s = Some a \<longrightarrow> GetChunkserverEndpoint c t = Some a \<longrightarrow> s = t)"

text \<open>A write over the network starts at the beginning and does not truncate.\<close>

definition overwritten :: "string \<Rightarrow> string option \<Rightarrow> string" where
  "overwritten data old = data @ drop (length data) (case old of None \<Rightarrow> [] | Some bytes \<Rightarrow> bytes)"

section \<open>A transfer over the network\<close>

lemma transfer_remote_fails:
  assumes w: "remotes_ok w" and h: "h \<noteq> 0" and none: "\<And>s. w a = Some s \<Longrightarrow> cv_bytes s h = None \<or> w b = None"
  obtains w' where "transfer_remote service_network h a b w = (False, w')" and "remotes_ok w'"
    and "\<And>x. map_option cv_bytes (w' x) = map_option cv_bytes (w x)"
proof (cases "w a")
  case None
  then show thesis using that [OF _ w refl] by (simp add: transfer_remote_def service_network_def call_at_def)
next
  case (Some s)
  have inv: "cv_inv s" using w Some by (simp add: remotes_ok_def)
  let ?rq = "Some \<lparr>rd_chunk_handle = h, rd_chunk_version = 1, rd_offset = 0, rd_length = 0\<rparr>"
  obtain r1 s1 where t1: "svc_TransferChunk ?rq s = (r1, s1)" by fastforce
  note sent = svc_TransferChunk_all [OF inv t1]
  have w1: "remotes_ok (w(a \<mapsto> s1))" using w sent(1) by (simp add: remotes_ok_def)
  have same: "map_option cv_bytes ((w(a \<mapsto> s1)) x) = map_option cv_bytes (w x)" for x using Some sent(2) by simp
  show thesis
  proof (cases "cv_bytes s h")
    case None
    then have "transfer_remote service_network h a b w = (False, w(a \<mapsto> s1))"
      using Some t1 sent(3) by (simp add: transfer_remote_def service_network_def call_at_def)
    then show thesis using that w1 same by blast
  next
    case data: (Some data)
    then have "w b = None" using none [OF Some] by simp
    then have "b \<noteq> a" using Some by auto
    then have "transfer_remote service_network h a b w = (False, w(a \<mapsto> s1))"
      using Some t1 sent(3) data \<open>w b = None\<close> by (simp add: transfer_remote_def service_network_def call_at_def)
    then show thesis using that w1 same by blast
  qed
qed

lemma bytes_behind_eq:
  "bytes_behind c s h = (case GetChunkserverEndpoint c s of None \<Rightarrow> None | Some a \<Rightarrow>
     (case map_option cv_bytes (cl_world c a) of None \<Rightarrow> None | Some bytes \<Rightarrow> bytes h))"
  by (simp add: bytes_behind_def split: option.split)

lemma answering_eq:
  "answering c s \<longleftrightarrow> (case GetChunkserverEndpoint c s of None \<Rightarrow> False | Some a \<Rightarrow> map_option cv_bytes (cl_world c a) \<noteq> None)"
  by (simp add: answering_def split: option.split)

lemma networkedD:
  "networked c \<Longrightarrow> remotes_ok (cl_world c)" "networked c \<Longrightarrow> GetChunkserver c s = None"
  "networked c \<Longrightarrow> GetChunkserverEndpoint c s = Some a \<Longrightarrow> s \<noteq> 0"
  "networked c \<Longrightarrow> GetChunkserverEndpoint c s = Some a \<Longrightarrow> a \<noteq> []"
  "networked c \<Longrightarrow> GetChunkserverEndpoint c s = Some a \<Longrightarrow> GetChunkserverEndpoint c t = Some a \<Longrightarrow> s = t"
  by (simp_all add: networked_def GetChunkserver_def)

lemma networked_world:
  assumes "networked c" and "remotes_ok w"
  shows "networked (c\<lparr>cl_world := w\<rparr>)"
  using assms by (simp add: networked_def GetChunkserverEndpoint_def)

lemma TransferReplica_networked:
  assumes good: "networked c" and r: "TransferReplica service_network h x y c = (b, c')"
  shows "networked c' \<and> cl_master c' = cl_master c \<and> same_view c c' \<and> answering c' = answering c \<and>
    (b \<longleftrightarrow> h \<noteq> 0 \<and> x \<noteq> y \<and> bytes_behind c x h \<noteq> None \<and> answering c y) \<and>
    (\<forall>z g. bytes_behind c' z g =
      (if b \<and> z = y \<and> g = h then Some (overwritten (the (bytes_behind c x h)) (bytes_behind c y h)) else bytes_behind c z g))"
proof (cases "h \<noteq> 0 \<and> x \<noteq> y \<and> GetChunkserverEndpoint c x \<noteq> None \<and> GetChunkserverEndpoint c y \<noteq> None")
  case False
  have "GetChunkserver c s = None" for s using good by (simp add: networked_def GetChunkserver_def)
  then have "b = False \<and> c' = c" using r False by (auto simp: TransferReplica_def split: if_splits option.splits)
  then show ?thesis using good False by (auto simp: bytes_behind_def answering_def)
next
  case True
  then obtain p q where pq: "GetChunkserverEndpoint c x = Some p" "GetChunkserverEndpoint c y = Some q" by auto
  have h: "h \<noteq> 0" and xy: "x \<noteq> y" using True by simp_all
  note world = networkedD(1) [OF good] and one = networkedD(5) [OF good _ pq(2)]
  note ends = networkedD(3,4) [OF good pq(1)] networkedD(3,4) [OF good pq(2)]
  have pq': "p \<noteq> q" using one [of x] pq(1) xy by blast
  obtain b1 w1 where t: "transfer_remote service_network h p q (cl_world c) = (b1, w1)" by fastforce
  have res: "b = b1" "c' = c\<lparr>cl_world := w1\<rparr>" using r pq h xy ends networkedD(2) [OF good] t by (simp_all add: TransferReplica_def)
  have ep: "GetChunkserverEndpoint c' = GetChunkserverEndpoint c" by (simp add: res(2) GetChunkserverEndpoint_def fun_eq_iff)
  show ?thesis
  proof (cases "bytes_behind c x h \<noteq> None \<and> answering c y")
    case False
    have none: "cv_bytes s h = None \<or> cl_world c q = None" if "cl_world c p = Some s" for s
      using False pq that by (auto simp: bytes_behind_def answering_def)
    obtain w' where "transfer_remote service_network h p q (cl_world c) = (False, w')" "remotes_ok w'"
        "\<And>x. map_option cv_bytes (w' x) = map_option cv_bytes (cl_world c x)"
      using transfer_remote_fails [OF world h none] by metis
    then have w1: "\<not> b1" "remotes_ok w1" "\<And>x. map_option cv_bytes (w1 x) = map_option cv_bytes (cl_world c x)" using t by simp_all
    have seen: "map_option cv_bytes (cl_world c' a) = map_option cv_bytes (cl_world c a)" for a using w1(3) [of a] by (simp add: res(2))
    have "bytes_behind c' z g = bytes_behind c z g" "answering c' z = answering c z" for z g
      unfolding bytes_behind_eq answering_eq ep by (simp_all only: seen)
    moreover have "networked c'" using networked_world [OF good w1(2)] by (simp add: res(2))
    ultimately show ?thesis using w1(1) False by (auto simp: res fun_eq_iff same_view_def)
  next
    case yes: True
    then obtain s data t where st: "cl_world c p = Some s" "cv_bytes s h = Some data" "cl_world c q = Some t"
      using pq by (auto simp: bytes_behind_def answering_def split: option.splits)
    have inv: "cv_inv s" "cv_inv t" using world st by (auto simp: remotes_ok_def)
    obtain s' t' where copy: "transfer_remote service_network h p q (cl_world c) = (True, (cl_world c)(p \<mapsto> s', q \<mapsto> t'))"
        "cv_inv s'" "cv_bytes s' = cv_bytes s" "cv_inv t'" "cv_bytes t' = (cv_bytes t)(h \<mapsto> data @ drop (length data) (contents t h))"
      by (rule remote_copy [where w = "cl_world c" and h = h, OF st(1) inv(1) st(2,3) inv(2) pq'])
    have w1: "b1" "w1 = (cl_world c)(p \<mapsto> s', q \<mapsto> t')" using t copy(1) by simp_all
    then have w': "cl_world c' = (cl_world c)(p \<mapsto> s', q \<mapsto> t')" by (simp add: res(2))
    have "networked c'" using networked_world [OF good, of w1] world copy(2,4) by (simp add: res(2) w1(2) remotes_ok_def)
    moreover have "answering c' = answering c"
      unfolding answering_def ep by (auto simp: fun_eq_iff w' st split: option.splits)
    moreover have "bytes_behind c' z g =
        (if z = y \<and> g = h then Some (overwritten data (cv_bytes t h)) else bytes_behind c z g)" for z g
    proof (cases "z = y")
      case True
      then show ?thesis using pq(2) st(3) copy(5) by (simp add: bytes_behind_def ep w' overwritten_def contents_def)
    next
      case False
      then have "GetChunkserverEndpoint c z \<noteq> Some q" using one by blast
      then show ?thesis using False st(1) copy(3) by (auto simp: bytes_behind_def ep w' split: option.split)
    qed
    moreover have "bytes_behind c x h = Some data" "bytes_behind c y h = cv_bytes t h" using pq st by (simp_all add: bytes_behind_def)
    ultimately show ?thesis using yes h xy w1(1) by (simp add: res same_view_def)
  qed
qed

interpretation deployed: replica_transfer service_network networked bytes_behind overwritten answering
proof
  fix c c' :: "remotes cluster" and h x y b
  assume good: "networked c"
  then show "cluster_ok c" by (simp add: networked_def cluster_ok_def)
  show "TransferReplica service_network h x y c = (b, c') \<Longrightarrow>
      networked c' \<and> cl_master c' = cl_master c \<and> same_view c c' \<and> answering c' = answering c \<and>
      (b \<longleftrightarrow> h \<noteq> 0 \<and> x \<noteq> y \<and> bytes_behind c x h \<noteq> None \<and> answering c y) \<and>
      (\<forall>z g. bytes_behind c' z g =
        (if b \<and> z = y \<and> g = h then Some (overwritten (the (bytes_behind c x h)) (bytes_behind c y h)) else bytes_behind c z g))"
    by (rule TransferReplica_networked [OF good])
  assume "cluster_ok c'" and view: "same_view c c'" and world: "cl_world c' = cl_world c"
  have "GetChunkserverEndpoint c' = GetChunkserverEndpoint c" using view by (simp add: same_view_def GetChunkserverEndpoint_def fun_eq_iff)
  note same = this
  have "bytes_behind c' = bytes_behind c" "answering c' = answering c"
    by (intro ext, simp only: bytes_behind_def answering_def same world)+
  moreover have "networked c'"
    using good view world \<open>cluster_ok c'\<close> unfolding networked_def same by (simp add: cluster_ok_def same_view_def)
  ultimately show "networked c' \<and> bytes_behind c' = bytes_behind c \<and> answering c' = answering c" by blast
qed

section \<open>Both kinds of servers\<close>

text \<open>All servers are objects, or all are behind addresses. What a server has, and what a copy leaves of an older one, depends on it.\<close>

definition transport_ok :: "remotes cluster \<Rightarrow> bool" where
  "transport_ok c \<longleftrightarrow> (if cl_chunkservers c = [] then networked c else cluster_ok c \<and> attached c)"

definition stored_at :: "remotes cluster \<Rightarrow> server_id \<Rightarrow> chunk_handle \<Rightarrow> string option" where
  "stored_at c = (if cl_chunkservers c = [] then bytes_behind c else bytes_at c)"

definition copy_of :: "remotes cluster \<Rightarrow> string \<Rightarrow> string option \<Rightarrow> string" where
  "copy_of c data old = (if cl_chunkservers c = [] then overwritten data old else data)"

section \<open>Samples\<close>

text \<open>Servers that are known by their addresses; the first one has the chunk.\<close>

definition sample_network :: "server_id list \<Rightarrow> master \<Rightarrow> remotes \<Rightarrow> remotes cluster" where
  "sample_network live m w = \<lparr>cl_master = m, cl_chunkservers = [], cl_endpoints = map (\<lambda>s. (s, to_string s)) live,
     cl_heap = (\<lambda>_. Chunkserver 7 ''/d'' \<lparr>dk_files = Map.empty, dk_answers = []\<rparr>), cl_world = w\<rparr>"

lemma sample_endpoints:
  "GetChunkserverEndpoint (sample_network live m w) s = (if s \<in> set live then Some (to_string s) else None)"
  by (simp add: GetChunkserverEndpoint_def sample_network_def map_of_map_restrict restrict_map_def)

lemma to_string_inject: "to_string s = to_string t \<longleftrightarrow> s = t"
  by (metis parse_to_string option.inject)

lemma sample_networked:
  assumes "ma_inv m" and "remotes_ok w" and "live \<in> {[7, 8], [7, 8, 9]}"
  shows "networked (sample_network live m w)"
proof -
  have "0 \<notin> set live" using assms(3) by auto
  then show ?thesis
    using assms(1,2) to_string_inject unfolding networked_def sample_endpoints by (auto simp: sample_network_def to_string_def split: if_splits)
qed

lemma sample_bytes:
  "bytes_behind (sample_network live m w) s h =
    (if s \<in> set live then (case w (to_string s) of None \<Rightarrow> None | Some t \<Rightarrow> cv_bytes t h) else None)"
  "answering (sample_network live m w) s \<longleftrightarrow> s \<in> set live \<and> w (to_string s) \<noteq> None"
  "HasChunkserver (sample_network live m w) s \<longleftrightarrow> s \<noteq> 0 \<and> s \<in> set live"
  using sample_endpoints [of live m w s]
  by (simp_all add: bytes_behind_def answering_def HasChunkserver_def GetChunkserverEndpoint_def) (simp_all add: sample_network_def)

section \<open>Properties\<close>

text \<open>C12: Recovery of a chunk changes the bytes of a chunk only on the servers it adds as replicas of that chunk; every healthy current
  replica stays listed, no other chunk's replicas change, and each server that is added gets the bytes of a replica that was
  healthy and current. This holds for servers that are all objects in the process of the master and for servers that
  are all behind addresses, no two behind the same. Between objects the added server then has exactly these
  bytes; over the network it has them followed by what an older, longer copy of its own had behind them, and the
  source is healthy only as far as the master knows.\<close>
theorem recovery_copies_healthy_contents:
  assumes "transport_ok c" and "RecoverChunk service_network h now c = (b, c')"
  shows "(\<forall>z g. stored_at c' z g \<noteq> stored_at c z g \<longrightarrow> g = h \<and> z \<in> set (replicas_of c' h) - set (replicas_of c h)) \<and>
    (\<forall>g. g \<noteq> h \<longrightarrow> set (replicas_of c' g) = set (replicas_of c g)) \<and>
    set (GetHealthyCurrentReplicas c h now) \<subseteq> set (replicas_of c' h) \<and>
    (\<forall>z \<in> set (replicas_of c' h) - set (replicas_of c h). \<exists>x \<in> set (GetHealthyCurrentReplicas c h now). \<exists>data.
       stored_at c x h = Some data \<and> stored_at c' z h = Some (copy_of c data (stored_at c z h))) \<and>
    transport_ok c'"
proof (cases "cl_chunkservers c = []")
  case True
  then have good: "networked c" using assms(1) by (simp add: transport_ok_def)
  note res = deployed.recovered_contents [OF good assms(2)]
  have "cl_chunkservers c' = []" using res(2) True by (simp add: same_view_def)
  then have eqs: "stored_at c = bytes_behind c" "stored_at c' = bytes_behind c'" "copy_of c = overwritten" and "transport_ok c'"
    using True res(1) by (simp_all add: stored_at_def copy_of_def fun_eq_iff transport_ok_def)
  then show ?thesis using res(3-6) unfolding eqs GetHealthyCurrentReplicas_set by blast
next
  case False
  then have good: "cluster_ok c \<and> attached c" using assms(1) by (simp add: transport_ok_def)
  note res = objects.recovered_contents [OF good assms(2)]
  have "cl_chunkservers c' \<noteq> []" using res(2) False by (simp add: same_view_def)
  then have eqs: "stored_at c = bytes_at c" "stored_at c' = bytes_at c'" "copy_of c = (\<lambda>data old. data)" and "transport_ok c'"
    using False res(1) by (simp_all add: stored_at_def copy_of_def fun_eq_iff transport_ok_def)
  then show ?thesis using res(3-6) unfolding eqs GetHealthyCurrentReplicas_set by blast
qed

theorem recovery_copies_healthy_contents_witness:
  "\<exists>c b c'. replicas_of c 1 = [7] \<and> RecoverChunk service_network 1 1000 c = (b, c') \<and>
     (\<exists>z. z \<noteq> 7 \<and> z \<in> set (replicas_of c' 1) \<and> stored_at c' z 1 = Some ''abcd'')"
proof -
  obtain s7 where s7: "cv_inv s7" "cv_bytes s7 = [1 \<mapsto> ''abcd'']" using server_with_chunk [of 7 1 "''abcd''"] by auto
  obtain s8 where s8: "cv_inv s8" "cv_bytes s8 = Map.empty" using server_with_chunk [of 8 1 "''abcd''"] by auto
  let ?w = "(\<lambda>_. Some s8)(to_string 7 := Some s7)"
  let ?c = "sample_network [7, 8, 9] (sample_beats_of [7, 8, 9]) ?w"
  have good: "networked ?c" by (rule sample_networked [OF sample_beats_inv]) (simp_all add: remotes_ok_def s7 s8)
  have m: "cl_master ?c = sample_beats_of [7, 8, 9]" "cl_chunkservers ?c = []" by (simp_all add: sample_network_def)
  note view = sample_view [OF m(1), simplified]
  note bytes = sample_bytes [of "[7, 8, 9]" "sample_beats_of [7, 8, 9]" ?w]
  have "IsHealthyCurrentReplica ?c 1 7 1000"
    using view(4) [of 7] view(5) [of 7] by (simp add: IsHealthyCurrentReplica_def GetChunkserver_def m(2) sample_endpoints)
  then have healthy: "healthy_set ?c 1 1000 = {7}" using view(1) by (auto simp: healthy_set_def)
  have free: "free_servers ?c 1 1000 = {8, 9}" using view(1,5) bytes(3) by (auto simp: free_servers_def)
  have exists: "md_ChunkExists (ma_metadata (cl_master ?c)) 1"
    using view(3) GetChunk_None [of "ma_metadata (cl_master ?c)" 1] by auto
  obtain b c' where r: "RecoverChunk service_network 1 1000 ?c = (b, c')" by fastforce
  have "\<exists>z \<in> set (replicas_of c' 1). z \<notin> set (replicas_of ?c 1)"
    by (rule deployed.recovery_adds [OF good _ exists _ _ _ _ _ r]) (simp_all add: healthy free view(2) bytes(1,2) s7)
  then obtain z where z: "z \<in> set (replicas_of c' 1)" "z \<notin> set (replicas_of ?c 1)" by blast
  have "transport_ok ?c" using good m(2) by (simp add: transport_ok_def)
  note res = recovery_copies_healthy_contents [OF this r]
  have stored: "stored_at ?c = bytes_behind ?c" "copy_of ?c = overwritten" using m(2) by (simp_all add: stored_at_def copy_of_def fun_eq_iff)
  have "z \<in> set (replicas_of c' 1) - set (replicas_of ?c 1)" using z by simp
  from bspec [OF conjunct1 [OF conjunct2 [OF conjunct2 [OF conjunct2 [OF res]]]] this] obtain x data where
    x: "x \<in> set (GetHealthyCurrentReplicas ?c 1 1000)" "stored_at ?c x 1 = Some data" "stored_at c' z 1 = Some (copy_of ?c data (stored_at ?c z 1))"
    by (elim bexE exE conjE)
  have "x = 7" using x(1) healthy unfolding GetHealthyCurrentReplicas_set by simp
  then have data: "bytes_behind ?c 7 1 = Some data" "stored_at c' z 1 = Some (overwritten data (bytes_behind ?c z 1))"
    using x(2,3) by (simp_all only: stored)
  have "z \<noteq> 7" using z(2) view(1) by auto
  then have "to_string z \<noteq> to_string 7" by (simp add: to_string_inject)
  then have "bytes_behind ?c z 1 = None" by (simp add: bytes(1) s8)
  moreover have "data = ''abcd''" using data(1) by (simp add: bytes(1) s7)
  ultimately have "stored_at c' z 1 = Some ''abcd''" using data(2) by (simp add: overwritten_def)
  then show ?thesis using view(1) r z(1) \<open>z \<noteq> 7\<close> by blast
qed

text \<open>C20: A rebalancing round moves one replica of each chunk for which it reports a move, from the source to the destination of the
  move, and nothing happens to any other chunk; so every chunk keeps its number of replicas. The destination gets the
  bytes of the source, over the network followed by the rest of an older, longer copy it had; no other server's bytes
  change, and the source keeps its own although it is no longer listed. As for recovery, the servers are all objects
  or all behind different addresses.\<close>
theorem rebalance_conserves_replicas:
  assumes "transport_ok c" and "Rebalance service_network now c = (completed, c')"
  shows "(\<forall>mv \<in> set completed. let h = mv_handle mv; x = mv_source mv; y = mv_destination mv in
      x \<in> set (replicas_of c h) \<and> y \<notin> set (replicas_of c h) \<and>
      set (replicas_of c' h) = insert y (set (replicas_of c h)) - {x} \<and>
      (\<exists>data. stored_at c x h = Some data \<and> stored_at c' y h = Some (copy_of c data (stored_at c y h))) \<and>
      (\<forall>z. z \<noteq> y \<longrightarrow> stored_at c' z h = stored_at c z h)) \<and>
    (\<forall>h. h \<notin> mv_handle ` set completed \<longrightarrow>
      set (replicas_of c' h) = set (replicas_of c h) \<and> (\<forall>z. stored_at c' z h = stored_at c z h)) \<and>
    (\<forall>h. length (replicas_of c' h) = length (replicas_of c h)) \<and> transport_ok c'"
proof (cases "cl_chunkservers c = []")
  case True
  then have good: "networked c" using assms(1) by (simp add: transport_ok_def)
  note res = deployed.Rebalance_result [OF good assms(2)]
  have "cl_chunkservers c' = []" using res(2) True by (simp add: same_view_def)
  then have "stored_at c = bytes_behind c" "stored_at c' = bytes_behind c'" "copy_of c = overwritten" "transport_ok c'"
    using True res(1) by (simp_all add: stored_at_def copy_of_def fun_eq_iff transport_ok_def)
  then show ?thesis using res(3-5) by (simp add: deployed.moved_def deployed.settled_def)
next
  case False
  then have good: "cluster_ok c \<and> attached c" using assms(1) by (simp add: transport_ok_def)
  note res = objects.Rebalance_result [OF good assms(2)]
  have "cl_chunkservers c' \<noteq> []" using res(2) False by (simp add: same_view_def)
  then have "stored_at c = bytes_at c" "stored_at c' = bytes_at c'" "copy_of c = (\<lambda>data old. data)" "transport_ok c'"
    using False res(1) by (simp_all add: stored_at_def copy_of_def fun_eq_iff transport_ok_def)
  then show ?thesis using res(3-5) by (simp add: objects.moved_def objects.settled_def)
qed

text \<open>A server with two chunks and an empty one: both chunks are planned to move.\<close>

definition two_chunks :: master where
  "two_chunks = (sample_beats_of [7, 8])\<lparr>ma_replicas :=
     [(1, [\<lparr>ri_server = 7, ri_primary = True\<rparr>]), (2, [\<lparr>ri_server = 7, ri_primary = True\<rparr>])]\<rparr>"

lemma two_chunks_inv: "ma_inv two_chunks"
  using sample_beats_inv [of "[7, 8]"]
  by (simp add: two_chunks_def ma_inv_def tables_inv_def rm_inv_def replicas_ok_def)

lemma two_chunks_plan:
  fixes w
  defines "c \<equiv> sample_network [7, 8] two_chunks w"
  shows "movable c 1000 7 8 1" "movable c 1000 7 8 2" "Plan c 1000 \<noteq> []"
    "set (Plan c 1000) \<subseteq> {\<lparr>mv_handle = h, mv_source = 7, mv_destination = 8\<rparr> | h. h \<in> {1, 2}}"
proof -
  note beats = sample_beats_live [of "[7, 8]", simplified]
  have m: "ma_replicas (cl_master c) = [(1, [\<lparr>ri_server = 7, ri_primary = True\<rparr>]), (2, [\<lparr>ri_server = 7, ri_primary = True\<rparr>])]"
      "ma_heartbeats (cl_master c) = ma_heartbeats (sample_beats_of [7, 8])"
      "ma_metadata (cl_master c) = ma_metadata sample_master"
    using beats by (simp_all add: c_def sample_network_def two_chunks_def)
  have alive: "hb_IsServerAliveAt (ma_heartbeats (cl_master c)) s 1000 \<longleftrightarrow> s \<in> set [7, 8]" for s
    unfolding m(2) by (rule alive_listed) (simp_all add: beats)
  have live: "hb_GetLiveServers (ma_heartbeats (cl_master c)) = [7, 8]"
    unfolding m(2) hb_GetLiveServers_def beats(1) by simp
  have has: "HasChunkserver c s \<longleftrightarrow> s \<noteq> 0 \<and> s \<in> set [7, 8]" for s unfolding c_def by (rule sample_bytes(3))
  have stale: "\<not> ma_IsStaleReplica (cl_master c) h 7" for h
    unfolding ma_IsStaleReplica_def m(2,3) hb_GetServerState_def beats(1)
    by (simp add: cs_GetReportedChunks_def split: option.split)
  show mov: "movable c 1000 7 8 1" "movable c 1000 7 8 2"
    using alive has stale
    by (simp_all add: movable_def IsEligibleSource_def IsEligibleDestination_def m(1) rm_HasReplica_def rm_ReplicaCount_def)
  have healthy: "healthy_servers c 1000 = [7, 8]" using alive has live by (simp add: healthy_servers_def)
  have load: "server_load c 7 = 2" "server_load c 8 = 0" by (simp_all add: server_load_def m(1) rm_GetChunksForServer_def)
  have ext: "find_extremes c [7, 8] = \<lparr>ex_source = 7, ex_source_count = 2, ex_destination = 8, ex_destination_count = 0\<rparr>"
    by (simp add: find_extremes_def consider_server_def load)
  have chunks: "set (rm_GetChunksForServer (ma_replicas (cl_master c)) 7) = {1, 2}" by (simp add: m(1) rm_GetChunksForServer_def)
  have plan: "set (Plan c 1000) = (\<lambda>h. \<lparr>mv_handle = h, mv_source = 7, mv_destination = 8\<rparr>) ` {h \<in> {1, 2}. movable c 1000 7 8 h}"
    by (simp add: Plan_def live healthy plan_loop_set ext chunks unbalanced_def)
  then show "set (Plan c 1000) \<subseteq> {\<lparr>mv_handle = h, mv_source = 7, mv_destination = 8\<rparr> | h. h \<in> {1, 2}}" by auto
  have "\<lparr>mv_handle = 1, mv_source = 7, mv_destination = 8\<rparr> \<in> set (Plan c 1000)" unfolding plan using mov by simp
  then show "Plan c 1000 \<noteq> []" by auto
qed

theorem rebalance_conserves_replicas_witness:
  "\<exists>c completed c' mv. Rebalance service_network 1000 c = (completed, c') \<and> mv \<in> set completed \<and>
     set (replicas_of c (mv_handle mv)) = {7} \<and> set (replicas_of c' (mv_handle mv)) = {8} \<and>
     stored_at c' 8 (mv_handle mv) = Some ''abcd''"
proof -
  obtain s where s: "cv_inv s" "cv_bytes s = [1 \<mapsto> ''abcd'']" using server_with_chunk [of 7 1 "''abcd''"] by auto
  obtain b s7 where recv: "Receive 2 ''abcd'' s = (b, s7)" by fastforce
  have s7: "cv_inv s7" "cv_bytes s7 = [1 \<mapsto> ''abcd'', 2 \<mapsto> ''abcd'']" using Receive_result [OF s(1) recv] s(2) by simp_all
  obtain s8 where s8: "cv_inv s8" "cv_bytes s8 = Map.empty" using server_with_chunk [of 8 1 "''abcd''"] by auto
  let ?w = "(\<lambda>_. Some s8)(to_string 7 := Some s7)"
  let ?c = "sample_network [7, 8] two_chunks ?w"
  have good: "networked ?c" by (rule sample_networked [OF two_chunks_inv]) (simp_all add: remotes_ok_def s7 s8)
  have objects: "cl_chunkservers ?c = []" by (simp add: sample_network_def)
  note plan = two_chunks_plan [of ?w]
  note bytes = sample_bytes [of "[7, 8]" two_chunks ?w]
  obtain mv rest where mv: "Plan ?c 1000 = mv # rest" using plan(3) by (cases "Plan ?c 1000") auto
  then have "mv \<in> set (Plan ?c 1000)" by simp
  then have m: "mv_handle mv \<in> {1, 2}" "mv_source mv = 7" "mv_destination mv = 8" using plan(4) by auto
  obtain completed c' where r: "Rebalance service_network 1000 ?c = (completed, c')" by fastforce
  have in_completed: "mv \<in> set completed"
    by (rule deployed.first_move_completed [OF good mv _ _ _ r]) (use m plan(1,2) in \<open>auto simp: bytes s7\<close>)
  have "transport_ok ?c" using good objects by (simp add: transport_ok_def)
  note res = conjunct1 [OF rebalance_conserves_replicas [OF this r], rule_format, OF in_completed, unfolded Let_def m(2,3)]
  have stored: "stored_at ?c = bytes_behind ?c" "copy_of ?c = overwritten" using objects by (simp_all add: stored_at_def copy_of_def fun_eq_iff)
  have reps: "set (replicas_of ?c (mv_handle mv)) = {7}"
    using m(1) by (auto simp: sample_network_def two_chunks_def rm_GetReplicaServers_def)
  obtain data where data: "bytes_behind ?c 7 (mv_handle mv) = Some data"
      "stored_at c' 8 (mv_handle mv) = Some (overwritten data (bytes_behind ?c 8 (mv_handle mv)))"
    using res unfolding stored by blast
  have "to_string 8 \<noteq> to_string 7" by (simp only: to_string_inject) simp
  then have "bytes_behind ?c 8 (mv_handle mv) = None" by (simp add: bytes(1) s8)
  moreover have "data = ''abcd''" using data(1) m(1) by (auto simp: bytes(1) s7)
  ultimately have "stored_at c' 8 (mv_handle mv) = Some ''abcd''" using data(2) by (simp add: overwritten_def)
  moreover have "set (replicas_of c' (mv_handle mv)) = {8}" using res reps by auto
  ultimately show ?thesis using r in_completed reps by blast
qed

end
