(* ===== verification/NamespaceLocks.thy ===== *)
theory NamespaceLocks
  imports Paths
begin

text \<open>
  \<open>src/master/namespace/namespace_lock.cpp\<close>: the tree of lock nodes and the guards on it. A node is an index into the list of
  nodes, which are never freed; \<open>address\<close> says where the allocator has put each of them, so it is injective. \<open>std::shared_mutex\<close>
  may let a waiting writer go first or not; \<open>writers_first\<close> says which. The guards of the threads are a step relation: a thread
  resolves its paths one by one, each under \<open>tree_mutex_\<close>, then locks the nodes in the order of their addresses, and gives
  them back. A thread may ask for a further guard while it owns others; it runs one constructor or destructor at a time.
  Moving a guard changes neither the locks nor the thread and is no step. The lemmas show that a path always gets the
  same node, that guards on one path exclude each other, and that guards never block each other for ever as long as no
  thread has two of them; two threads that nest guards can.
\<close>

section \<open>The tree of lock nodes\<close>

record lock_node =
  ln_parent :: "nat option"
  ln_name :: string
  ln_children :: "nat list"

type_synonym lock_tree = "lock_node list"

definition NamespaceLock :: lock_tree where
  "NamespaceLock = [\<lparr>ln_parent = None, ln_name = ''/'', ln_children = []\<rparr>]"

definition lock_child :: "lock_tree \<Rightarrow> nat \<Rightarrow> string \<Rightarrow> nat option" where
  "lock_child t current component = find (\<lambda>child. ln_name (t ! child) = component) (ln_children (t ! current))"

definition new_lock_node :: "nat \<Rightarrow> string \<Rightarrow> lock_tree \<Rightarrow> nat \<times> lock_tree" where
  "new_lock_node current component t =
     (length t,
      t[current := (t ! current)\<lparr>ln_children := ln_children (t ! current) @ [length t]\<rparr>] @
      [\<lparr>ln_parent = Some current, ln_name = component, ln_children = []\<rparr>])"

fun create_from :: "nat \<Rightarrow> string \<Rightarrow> lock_tree \<Rightarrow> nat option \<times> lock_tree" where
  "create_from current rest t =
     (if rest = [] then (Some current, t)
      else let component = next_component rest in
        if length component = 0 then (None, t)
        else case (case lock_child t current component of None \<Rightarrow> new_lock_node current component t | Some child \<Rightarrow> (child, t)) of
          (child, t) \<Rightarrow>
            if length component = length rest then (Some child, t)
            else create_from child (drop (length component + 1) rest) t)"

definition GetOrCreateNode :: "string \<Rightarrow> lock_tree \<Rightarrow> nat option \<times> lock_tree" where
  "GetOrCreateNode path t = (if path = [] \<or> hd path \<noteq> slash then (None, t) else create_from 0 (drop 1 path) t)"

fun find_from :: "lock_tree \<Rightarrow> nat \<Rightarrow> string \<Rightarrow> nat option" where
  "find_from t current rest =
     (if rest = [] then Some current
      else let component = next_component rest in
        if length component = 0 then None
        else case lock_child t current component of
          None \<Rightarrow> None
        | Some child \<Rightarrow>
            if length component = length rest then Some child
            else find_from t child (drop (length component + 1) rest))"

definition lock_FindNode :: "lock_tree \<Rightarrow> string \<Rightarrow> nat option" where
  "lock_FindNode t path =
     (if path = [] \<or> hd path \<noteq> slash then None else if path = ''/'' then Some 0 else find_from t 0 (drop 1 path))"

text \<open>This one skips empty components where the two above refuse them.\<close>

fun lock_split_loop :: "string \<Rightarrow> string list" where
  "lock_split_loop rest =
     (if rest = [] then []
      else let component = next_component rest in
        if length component = length rest then [rest]
        else (if component = [] then [] else [component]) @ lock_split_loop (drop (length component + 1) rest))"

definition lock_SplitPath :: "string \<Rightarrow> string list" where
  "lock_SplitPath path = (if path = [] \<or> path = ''/'' \<or> hd path \<noteq> slash then [] else lock_split_loop (drop 1 path))"

declare create_from.simps [simp del] find_from.simps [simp del] lock_split_loop.simps [simp del]

section \<open>Guards\<close>

datatype lock_mode = Shared | Exclusive

text \<open>What a guard does: \<open>Resolving\<close> holds the paths that are left and the nodes found, \<open>Locking\<close> the nodes it has locked and
  those it still wants (none: the constructor has returned), \<open>Releasing\<close> is the destructor.\<close>

datatype guard_phase =
    Resolving "string list" "nat list"
  | Locking "nat list" "nat list"
  | Releasing "nat list"

record lock_guard =
  gd_thread :: nat
  gd_mode :: lock_mode
  gd_paths :: "string list"
  gd_phase :: guard_phase

text \<open>The guards that exist, by an identifier of their own.\<close>

record lock_state =
  ls_tree :: lock_tree
  ls_guards :: "(nat \<times> lock_guard) list"

text \<open>Sorting by address and \<open>std::unique\<close>.\<close>

definition lock_order :: "(nat \<Rightarrow> nat) \<Rightarrow> nat list \<Rightarrow> nat list" where
  "lock_order address nodes = remdups_adj (sort_key address nodes)"

text \<open>The nodes that a single thread would lock for its paths, as \<open>AcquireReadPath\<close> and \<open>AcquireWritePath\<close> compute them.\<close>

fun resolve_paths :: "string list \<Rightarrow> lock_tree \<Rightarrow> nat list \<times> lock_tree" where
  "resolve_paths [] t = ([], t)"
| "resolve_paths (path # paths) t =
     (case GetOrCreateNode path t of (node, t) \<Rightarrow>
        (case resolve_paths paths t of (nodes, t) \<Rightarrow> ((case node of None \<Rightarrow> [] | Some n \<Rightarrow> [n]) @ nodes, t)))"

definition AcquirePath :: "(nat \<Rightarrow> nat) \<Rightarrow> string list \<Rightarrow> lock_tree \<Rightarrow> nat list \<times> lock_tree" where
  "AcquirePath address paths t = (case resolve_paths paths t of (nodes, t) \<Rightarrow> (lock_order address nodes, t))"

definition nodes_held :: "lock_guard \<Rightarrow> nat list" where
  "nodes_held g = (case gd_phase g of Resolving _ _ \<Rightarrow> [] | Locking locked _ \<Rightarrow> locked | Releasing locked \<Rightarrow> locked)"

definition OwnsLock :: "lock_guard \<Rightarrow> bool" where
  "OwnsLock g \<longleftrightarrow> nodes_held g \<noteq> []"

definition waits_for :: "lock_guard \<Rightarrow> nat \<Rightarrow> bool" where
  "waits_for g n = (case gd_phase g of Locking _ (w # _) \<Rightarrow> w = n | _ \<Rightarrow> False)"

text \<open>When a \<open>std::shared_mutex\<close> lets a guard in. A thread that asks for a node it has locked itself waits as for the
  lock of another.\<close>

definition can_lock :: "bool \<Rightarrow> nat \<Rightarrow> lock_mode \<Rightarrow> nat \<Rightarrow> (nat \<times> lock_guard) list \<Rightarrow> bool" where
  "can_lock writers_first guard mode n guards \<longleftrightarrow>
     list_all (\<lambda>(u, g). u = guard \<or>
       (n \<in> set (nodes_held g) \<longrightarrow> mode = Shared \<and> gd_mode g = Shared) \<and>
       (writers_first \<and> mode = Shared \<longrightarrow> \<not> (gd_mode g = Exclusive \<and> waits_for g n))) guards"

text \<open>A thread runs, and can begin or destroy a guard, when it is not inside the constructor or destructor of one.\<close>

definition thread_runs :: "nat \<Rightarrow> (nat \<times> lock_guard) list \<Rightarrow> bool" where
  "thread_runs thread guards \<longleftrightarrow>
     list_all (\<lambda>(_, g). gd_thread g = thread \<longrightarrow> (case gd_phase g of Locking _ [] \<Rightarrow> True | _ \<Rightarrow> False)) guards"

definition enter_phase :: "nat \<Rightarrow> lock_guard \<Rightarrow> guard_phase \<Rightarrow> lock_state \<Rightarrow> lock_state" where
  "enter_phase guard g phase s = s\<lparr>ls_guards := AList.update guard (g\<lparr>gd_phase := phase\<rparr>) (ls_guards s)\<rparr>"

inductive guard_step :: "bool \<Rightarrow> (nat \<Rightarrow> nat) \<Rightarrow> lock_state \<Rightarrow> lock_state \<Rightarrow> bool" for writers_first address where
  resolve: "map_of (ls_guards s) guard = Some g \<Longrightarrow> gd_phase g = Resolving (path # paths) nodes \<Longrightarrow>
    GetOrCreateNode path (ls_tree s) = (node, t) \<Longrightarrow>
    guard_step writers_first address s
      (enter_phase guard g (Resolving paths (nodes @ (case node of None \<Rightarrow> [] | Some n \<Rightarrow> [n]))) (s\<lparr>ls_tree := t\<rparr>))"
| sort_nodes: "map_of (ls_guards s) guard = Some g \<Longrightarrow> gd_phase g = Resolving [] nodes \<Longrightarrow>
    guard_step writers_first address s (enter_phase guard g (Locking [] (lock_order address nodes)) s)"
| lock_next: "map_of (ls_guards s) guard = Some g \<Longrightarrow> gd_phase g = Locking locked (n # wanted) \<Longrightarrow>
    can_lock writers_first guard (gd_mode g) n (ls_guards s) \<Longrightarrow>
    guard_step writers_first address s (enter_phase guard g (Locking (locked @ [n]) wanted) s)"
| destroy: "map_of (ls_guards s) guard = Some g \<Longrightarrow> gd_phase g = Locking locked [] \<Longrightarrow>
    thread_runs (gd_thread g) (ls_guards s) \<Longrightarrow>
    guard_step writers_first address s (enter_phase guard g (Releasing locked) s)"
| unlock: "map_of (ls_guards s) guard = Some g \<Longrightarrow> gd_phase g = Releasing (n # locked) \<Longrightarrow>
    guard_step writers_first address s (enter_phase guard g (Releasing locked) s)"
| gone: "map_of (ls_guards s) guard = Some g \<Longrightarrow> gd_phase g = Releasing [] \<Longrightarrow>
    guard_step writers_first address s (s\<lparr>ls_guards := AList.delete guard (ls_guards s)\<rparr>)"

text \<open>A thread that runs may ask for a guard at any time, whatever it owns already.\<close>

definition begin_guard :: "nat \<Rightarrow> nat \<Rightarrow> lock_mode \<Rightarrow> string list \<Rightarrow> lock_state \<Rightarrow> lock_state" where
  "begin_guard guard thread mode paths s =
     s\<lparr>ls_guards := AList.update guard
       \<lparr>gd_thread = thread, gd_mode = mode, gd_paths = paths, gd_phase = Resolving paths []\<rparr> (ls_guards s)\<rparr>"

inductive lock_reachable :: "bool \<Rightarrow> (nat \<Rightarrow> nat) \<Rightarrow> lock_state \<Rightarrow> bool" for writers_first address where
  init: "lock_reachable writers_first address \<lparr>ls_tree = NamespaceLock, ls_guards = []\<rparr>"
| acquire: "lock_reachable writers_first address s \<Longrightarrow> map_of (ls_guards s) guard = None \<Longrightarrow> thread_runs thread (ls_guards s) \<Longrightarrow>
    lock_reachable writers_first address (begin_guard guard thread mode paths s)"
| step: "lock_reachable writers_first address s \<Longrightarrow> guard_step writers_first address s s' \<Longrightarrow> lock_reachable writers_first address s'"

section \<open>Paths and nodes\<close>

text \<open>The components that the loop finds; nothing when one is empty. A slash at the end does not count.\<close>

fun lock_components :: "string \<Rightarrow> string list option" where
  "lock_components rest =
     (if rest = [] then Some []
      else let component = next_component rest in
        if length component = 0 then None
        else if length component = length rest then Some [component]
        else map_option (\<lambda>cs. component # cs) (lock_components (drop (length component + 1) rest)))"

declare lock_components.simps [simp del]

definition components_of :: "string \<Rightarrow> string list option" where
  "components_of path = (if path = [] \<or> hd path \<noteq> slash then None else lock_components (drop 1 path))"

fun walk :: "lock_tree \<Rightarrow> nat \<Rightarrow> string list \<Rightarrow> nat option" where
  "walk t n [] = Some n"
| "walk t n (c # cs) = (case lock_child t n c of None \<Rightarrow> None | Some m \<Rightarrow> walk t m cs)"

definition tree_ok :: "lock_tree \<Rightarrow> bool" where
  "tree_ok t \<longleftrightarrow> 0 < length t \<and> ln_parent (t ! 0) = None \<and>
     (\<forall>n < length t. distinct (map (\<lambda>c. ln_name (t ! c)) (ln_children (t ! n))) \<and>
        (\<forall>c \<in> set (ln_children (t ! n)). c < length t \<and> ln_parent (t ! c) = Some n))"

definition grows :: "lock_tree \<Rightarrow> lock_tree \<Rightarrow> bool" where
  "grows t t' \<longleftrightarrow> length t \<le> length t' \<and> (\<forall>n c m. lock_child t n c = Some m \<and> n < length t \<longrightarrow> lock_child t' n c = Some m)"

lemma grows_refl [simp]: "grows t t"
  by (simp add: grows_def)

lemma grows_trans: "grows t u \<Longrightarrow> grows u v \<Longrightarrow> grows t v"
  by (auto simp: grows_def)

lemma lock_child_SomeD: "tree_ok t \<Longrightarrow> n < length t \<Longrightarrow> lock_child t n c = Some m \<Longrightarrow>
    m < length t \<and> ln_parent (t ! m) = Some n \<and> ln_name (t ! m) = c"
  by (auto simp: lock_child_def tree_ok_def dest: find_Some_set)

lemma new_lock_node_result:
  assumes ok: "tree_ok t" and n: "n < length t" and none: "lock_child t n c = None" and r: "new_lock_node n c t = (m, t')"
  shows "tree_ok t'" and "grows t t'" and "lock_child t' n c = Some m" and "m < length t'"
proof -
  have m: "m = length t" and t': "t' = t[n := (t ! n)\<lparr>ln_children := ln_children (t ! n) @ [length t]\<rparr>] @
      [\<lparr>ln_parent = Some n, ln_name = c, ln_children = []\<rparr>]"
    using r by (auto simp: new_lock_node_def)
  have at: "t' ! k = (if k = n then (t ! n)\<lparr>ln_children := ln_children (t ! n) @ [length t]\<rparr>
      else if k < length t then t ! k else \<lparr>ln_parent = Some n, ln_name = c, ln_children = []\<rparr>)" if "k < length t'" for k
    using that n by (auto simp: t' nth_append nth_list_update less_Suc_eq)
  have len: "length t' = Suc (length t)" by (simp add: t')
  have names: "ln_name (t' ! k) = ln_name (t ! k)" "ln_parent (t' ! k) = ln_parent (t ! k)" if "k < length t" for k
    using that at [of k] len by simp_all
  have kids: "k < length t" if "k \<in> set (ln_children (t ! i))" "i < length t" for i k using that ok by (auto simp: tree_ok_def)
  have old: "find (\<lambda>k. ln_name (t' ! k) = d) (ln_children (t ! i)) = lock_child t i d" if "i < length t" for i d
    unfolding lock_child_def using kids [OF _ that] names by (intro find_cong) auto
  have child: "lock_child t' i d = (case lock_child t i d of None \<Rightarrow> (if i = n \<and> d = c then Some m else None) | Some k \<Rightarrow> Some k)"
    if i: "i < length t" for i d
  proof (cases "i = n")
    case True
    then have "lock_child t' i d = find (\<lambda>k. ln_name (t' ! k) = d) (ln_children (t ! n) @ [length t])"
      using at [of n] n len by (simp add: lock_child_def)
    then show ?thesis using old [OF i, of d] True at [of "length t"] len m n
      by (auto simp: find_append split: option.splits)
  next
    case False
    then show ?thesis using old [OF i, of d] at [of i] i len by (auto simp: lock_child_def split: option.splits)
  qed
  show "grows t t'" using child by (auto simp: grows_def len)
  show "lock_child t' n c = Some m" using child [OF n, of c] none by simp
  show "m < length t'" by (simp add: len m)
  have fresh: "c \<notin> (\<lambda>k. ln_name (t ! k)) ` set (ln_children (t ! n))" "ln_name (t' ! length t) = c" "ln_parent (t' ! length t) = Some n"
    using none at [of "length t"] n len by (auto simp: lock_child_def find_None_set)
  have children: "ln_children (t' ! i) = ln_children (t ! i) @ (if i = n then [length t] else [])" if "i < length t" for i
    using that at [of i] len by simp
  have part: "distinct (map (\<lambda>c. ln_name (t' ! c)) (ln_children (t' ! i))) \<and>
      (\<forall>c \<in> set (ln_children (t' ! i)). c < length t' \<and> ln_parent (t' ! c) = Some i)" if "i < length t" for i
  proof -
    have "(\<lambda>k. ln_name (t' ! k)) ` set (ln_children (t ! i)) = (\<lambda>k. ln_name (t ! k)) ` set (ln_children (t ! i))"
      using kids [OF _ that] names(1) by (intro image_cong) auto
    moreover have "map (\<lambda>k. ln_name (t' ! k)) (ln_children (t ! i)) = map (\<lambda>k. ln_name (t ! k)) (ln_children (t ! i))"
      by (rule map_cong [OF refl]) (use kids [OF _ that] names(1) in blast)
    then have "distinct (map (\<lambda>k. ln_name (t' ! k)) (ln_children (t ! i)))" using ok that by (simp only: tree_ok_def)
    moreover have "\<forall>k \<in> set (ln_children (t ! i)). k < length t \<and> ln_parent (t' ! k) = Some i"
      using ok that names(2) by (auto simp: tree_ok_def)
    ultimately show ?thesis using that fresh unfolding len children [OF that] by (cases "i = n") (auto simp: less_Suc_eq)
  qed
  have "ln_children (t' ! length t) = []" using at [of "length t"] len n by simp
  then have "distinct (map (\<lambda>c. ln_name (t' ! c)) (ln_children (t' ! i))) \<and>
      (\<forall>c \<in> set (ln_children (t' ! i)). c < length t' \<and> ln_parent (t' ! c) = Some i)" if "i < length t'" for i
    using that part [of i] len by (cases "i = length t") auto
  moreover have "ln_parent (t' ! 0) = None" using names(2) [of 0] ok by (simp add: tree_ok_def)
  ultimately show "tree_ok t'" using len by (simp add: tree_ok_def)
qed

lemma walk_grows: "tree_ok t \<Longrightarrow> grows t t' \<Longrightarrow> n < length t \<Longrightarrow> walk t n cs = Some m \<Longrightarrow> walk t' n cs = Some m"
proof (induction cs arbitrary: n)
  case (Cons c cs)
  then obtain k where k: "lock_child t n c = Some k" "walk t k cs = Some m" by (auto split: option.splits)
  then have "k < length t" using lock_child_SomeD Cons.prems by blast
  then show ?case using Cons k by (auto simp: grows_def)
qed simp

lemma walk_append: "walk t n (cs @ ds) = (case walk t n cs of None \<Rightarrow> None | Some m \<Rightarrow> walk t m ds)"
  by (induction cs arbitrary: n) (auto split: option.splits)

lemma walk_less: "tree_ok t \<Longrightarrow> n < length t \<Longrightarrow> walk t n cs = Some m \<Longrightarrow> m < length t"
  by (induction cs arbitrary: n) (auto split: option.splits dest: lock_child_SomeD)

text \<open>Different components lead to different nodes: a node knows its name and its parent.\<close>

lemma walk_snoc:
  assumes "tree_ok t" and "walk t 0 (cs @ [c]) = Some n"
  shows "\<exists>k. walk t 0 cs = Some k \<and> ln_parent (t ! n) = Some k \<and> ln_name (t ! n) = c"
proof -
  obtain k where k: "walk t 0 cs = Some k" "lock_child t k c = Some n" using assms(2) by (auto simp: walk_append split: option.splits)
  have "k < length t" using walk_less [OF assms(1) _ k(1)] assms(1) by (simp add: tree_ok_def)
  from lock_child_SomeD [OF assms(1) this k(2)] show ?thesis using k(1) by simp
qed

lemma walk_inject:
  assumes ok: "tree_ok t"
  shows "walk t 0 cs = Some n \<Longrightarrow> walk t 0 ds = Some n \<Longrightarrow> cs = ds"
proof (induction cs arbitrary: ds n rule: rev_induct)
  case Nil
  have root: "ln_parent (t ! 0) = None" using ok by (simp add: tree_ok_def)
  show ?case
  proof (cases ds rule: rev_exhaust)
    case (snoc es e)
    then show ?thesis using walk_snoc [OF ok, of es e n] Nil root by auto
  qed simp
next
  case (snoc c cs)
  obtain k where k: "walk t 0 cs = Some k" "ln_parent (t ! n) = Some k" "ln_name (t ! n) = c"
    using walk_snoc [OF ok snoc.prems(1)] by blast
  show ?case
  proof (cases ds rule: rev_exhaust)
    case Nil
    then show ?thesis using snoc.prems(2) k(2) ok by (simp add: tree_ok_def)
  next
    case (snoc es e)
    then obtain j where "walk t 0 es = Some j" "ln_parent (t ! n) = Some j" "ln_name (t ! n) = e"
      using walk_snoc [OF ok, of es e n] snoc.prems(2) by blast
    then show ?thesis using snoc.IH [OF k(1)] k(2,3) snoc by simp
  qed
qed

lemma find_from_walk: "find_from t n rest = (case lock_components rest of None \<Rightarrow> None | Some cs \<Rightarrow> walk t n cs)"
proof (induction rest arbitrary: n rule: lock_components.induct)
  case (1 rest)
  let ?c = "next_component rest"
  show ?case
  proof (cases "rest = [] \<or> ?c = [] \<or> length ?c = length rest")
    case True
    then show ?thesis
      unfolding lock_components.simps [of rest] find_from.simps [of t n rest] by (auto simp: Let_def split: option.split)
  next
    case False
    let ?rest = "drop (length ?c + 1) rest"
    have ih: "find_from t m ?rest = (case lock_components ?rest of None \<Rightarrow> None | Some cs \<Rightarrow> walk t m cs)" for m
      using "1.IH" [OF _ refl] False by simp
    show ?thesis using False ih
      unfolding lock_components.simps [of rest] find_from.simps [of t n rest] by (auto simp: Let_def split: option.split)
  qed
qed

lemma create_from_result:
  "tree_ok t \<Longrightarrow> n < length t \<Longrightarrow> create_from n rest t = (r, t') \<Longrightarrow>
    tree_ok t' \<and> grows t t' \<and> r = (case lock_components rest of None \<Rightarrow> None | Some cs \<Rightarrow> walk t' n cs) \<and>
    (lock_components rest \<noteq> None \<longrightarrow> r \<noteq> None)"
proof (induction rest arbitrary: n t rule: lock_components.induct)
  case (1 rest)
  let ?c = "next_component rest"
  show ?case
  proof (cases "rest = [] \<or> ?c = []")
    case True
    then show ?thesis using "1.prems" by (auto simp: create_from.simps [of n rest] lock_components.simps [of rest] split: if_splits)
  next
    case False
    obtain m t1 where step: "(case lock_child t n ?c of None \<Rightarrow> new_lock_node n ?c t | Some child \<Rightarrow> (child, t)) = (m, t1)" by fastforce
    have t1: "tree_ok t1 \<and> grows t t1 \<and> lock_child t1 n ?c = Some m \<and> m < length t1"
    proof (cases "lock_child t n ?c")
      case None
      then show ?thesis using new_lock_node_result [OF "1.prems"(1,2) None] step by simp
    next
      case (Some k)
      then show ?thesis using step lock_child_SomeD [OF "1.prems"(1,2) Some] "1.prems"(1) by simp
    qed
    show ?thesis
    proof (cases "length ?c = length rest")
      case True
      then have "r = Some m" "t' = t1" using "1.prems"(3) False step by (simp_all add: create_from.simps [of n rest] Let_def)
      then show ?thesis using True False t1 by (simp add: lock_components.simps [of rest] Let_def)
    next
      case more: False
      let ?rest = "drop (length ?c + 1) rest"
      have "create_from m ?rest t1 = (r, t')" using "1.prems"(3) False more step by (simp add: create_from.simps [of n rest] Let_def)
      then have t': "tree_ok t'" "grows t1 t'" "r = (case lock_components ?rest of None \<Rightarrow> None | Some cs \<Rightarrow> walk t' m cs)"
          "lock_components ?rest \<noteq> None \<longrightarrow> r \<noteq> None"
        using "1.IH" [OF _ refl _ more] False t1 by auto
      have "n < length t1" using t1 "1.prems"(2) by (simp add: grows_def)
      then have "lock_child t' n ?c = Some m" using t1 t'(2) by (simp add: grows_def)
      then show ?thesis using t' False more t1 grows_trans
        by (auto simp: lock_components.simps [of rest] Let_def split: option.split)
    qed
  qed
qed

lemma FindNode_walk:
  "lock_FindNode t path = (case components_of path of None \<Rightarrow> None | Some cs \<Rightarrow> walk t 0 cs)"
  using find_from_walk [where t = t and n = 0 and rest = "drop 1 path"]
  by (cases path) (auto simp: lock_FindNode_def components_of_def lock_components.simps [of "[]"] split: option.splits)

lemma GetOrCreateNode_result:
  assumes "tree_ok t" and "GetOrCreateNode path t = (r, t')"
  shows "tree_ok t'" and "grows t t'" and "r = lock_FindNode t' path" and "r \<noteq> None \<longleftrightarrow> components_of path \<noteq> None"
  using assms create_from_result [where t = t and n = 0 and rest = "drop 1 path" and r = r and t' = t']
  by (auto simp: GetOrCreateNode_def FindNode_walk components_of_def tree_ok_def split: if_splits option.splits)

lemma NamespaceLock_ok [simp]: "tree_ok NamespaceLock"
  by (simp add: tree_ok_def NamespaceLock_def)

lemma FindNode_grows: "tree_ok t \<Longrightarrow> grows t t' \<Longrightarrow> lock_FindNode t path = Some n \<Longrightarrow> lock_FindNode t' path = Some n"
  by (auto simp: FindNode_walk tree_ok_def split: option.splits intro: walk_grows)

lemma FindNode_inject:
  "tree_ok t \<Longrightarrow> lock_FindNode t p = Some n \<Longrightarrow> lock_FindNode t q = Some n \<Longrightarrow> components_of p = components_of q"
  using walk_inject by (fastforce simp: FindNode_walk split: option.splits)

lemma FindNode_components: "components_of p = components_of q \<Longrightarrow> lock_FindNode t p = lock_FindNode t q"
  by (simp add: FindNode_walk)

section \<open>What the guards keep\<close>

definition nodes_of :: "lock_tree \<Rightarrow> string list \<Rightarrow> nat set" where
  "nodes_of t paths = {n. \<exists>p \<in> set paths. lock_FindNode t p = Some n}"

text \<open>Every path that has components has its node.\<close>

definition resolved :: "lock_tree \<Rightarrow> string list \<Rightarrow> bool" where
  "resolved t paths \<longleftrightarrow> (\<forall>p \<in> set paths. components_of p \<noteq> None \<longrightarrow> lock_FindNode t p \<noteq> None)"

definition guard_ok :: "(nat \<Rightarrow> nat) \<Rightarrow> lock_tree \<Rightarrow> lock_guard \<Rightarrow> bool" where
  "guard_ok address t g =
     (case gd_phase g of
        Resolving paths nodes \<Rightarrow> \<exists>looked. gd_paths g = looked @ paths \<and> resolved t looked \<and> set nodes = nodes_of t looked
      | Locking locked wanted \<Rightarrow> sorted_wrt (\<lambda>a b. address a < address b) (locked @ wanted) \<and> resolved t (gd_paths g) \<and>
          set (locked @ wanted) = nodes_of t (gd_paths g)
      | Releasing locked \<Rightarrow> True)"

definition compatible :: "lock_guard \<Rightarrow> lock_guard \<Rightarrow> bool" where
  "compatible g h \<longleftrightarrow> (\<forall>n. n \<in> set (nodes_held g) \<and> n \<in> set (nodes_held h) \<longrightarrow> gd_mode g = Shared \<and> gd_mode h = Shared)"

definition lock_inv :: "(nat \<Rightarrow> nat) \<Rightarrow> lock_state \<Rightarrow> bool" where
  "lock_inv address s \<longleftrightarrow> tree_ok (ls_tree s) \<and> distinct (map fst (ls_guards s)) \<and>
     (\<forall>u g. map_of (ls_guards s) u = Some g \<longrightarrow> guard_ok address (ls_tree s) g) \<and>
     (\<forall>u v g h. u \<noteq> v \<longrightarrow> map_of (ls_guards s) u = Some g \<longrightarrow> map_of (ls_guards s) v = Some h \<longrightarrow> compatible g h)"

lemma resolved_grows:
  assumes "tree_ok t" and "grows t t'" and "resolved t paths"
  shows "resolved t' paths" and "nodes_of t' paths = nodes_of t paths"
proof -
  have same: "lock_FindNode t' p = lock_FindNode t p" if "p \<in> set paths" for p
  proof (cases "components_of p")
    case None
    then show ?thesis by (simp add: FindNode_walk)
  next
    case (Some cs)
    then obtain n where "lock_FindNode t p = Some n" using assms(3) \<open>p \<in> set paths\<close> by (auto simp: resolved_def)
    then show ?thesis using FindNode_grows [OF assms(1,2)] by simp
  qed
  show "resolved t' paths" using assms(3) same by (simp add: resolved_def)
  show "nodes_of t' paths = nodes_of t paths" using same by (auto simp: nodes_of_def)
qed

lemma guard_ok_grows:
  assumes "tree_ok t" and "grows t t'" and "guard_ok address t g"
  shows "guard_ok address t' g"
  using assms(3) resolved_grows [OF assms(1,2)] by (cases "gd_phase g") (auto simp: guard_ok_def)

lemma remdups_adj_strict:
  "inj address \<Longrightarrow> sorted (map address xs) \<Longrightarrow> sorted_wrt (\<lambda>a b. address a < (address b :: nat)) (remdups_adj xs)"
proof (induction xs rule: remdups_adj.induct)
  case (3 x y xs)
  then have "x \<noteq> y \<Longrightarrow> address x < address y" by (metis inj_eq le_neq_implies_less list.map(2) sorted2)
  then show ?case using 3 by (auto simp: less_le_trans)
qed simp_all

lemma lock_order_result:
  "inj address \<Longrightarrow> sorted_wrt (\<lambda>a b. address a < address b) (lock_order address nodes)"
  "set (lock_order address nodes) = set nodes"
  by (simp_all add: lock_order_def remdups_adj_strict)

text \<open>One guard goes on, while the tree may grow.\<close>

lemma inv_enter:
  assumes inv: "lock_inv address s" and at: "map_of (ls_guards s) u = Some g"
    and t: "tree_ok t" "grows (ls_tree s) t" and ok: "guard_ok address t (g\<lparr>gd_phase := phase\<rparr>)"
    and others: "\<And>v h. v \<noteq> u \<Longrightarrow> map_of (ls_guards s) v = Some h \<Longrightarrow> compatible (g\<lparr>gd_phase := phase\<rparr>) h"
  shows "lock_inv address (enter_phase u g phase (s\<lparr>ls_tree := t\<rparr>))"
proof -
  let ?g = "g\<lparr>gd_phase := phase\<rparr>"
  have sym: "compatible h ?g" if "v \<noteq> u" "map_of (ls_guards s) v = Some h" for v h
    using others [OF that] by (auto simp: compatible_def)
  note parts = inv [unfolded lock_inv_def]
  have old: "guard_ok address t h" if "map_of (ls_guards s) v = Some h" for v h using parts guard_ok_grows [OF _ t(2)] that by blast
  have "guard_ok address t h" if "((map_of (ls_guards s))(u \<mapsto> ?g)) v = Some h" for v h
    using that ok old by (auto split: if_splits)
  moreover have "compatible h k" if "v \<noteq> w" "((map_of (ls_guards s))(u \<mapsto> ?g)) v = Some h" "((map_of (ls_guards s))(u \<mapsto> ?g)) w = Some k" for v w h k
    using that others sym parts by (metis fun_upd_apply option.inject)
  ultimately show ?thesis using t(1) parts by (simp add: lock_inv_def enter_phase_def)
qed

lemma inv_enter_same:
  assumes "lock_inv address s" and "map_of (ls_guards s) u = Some g" and "guard_ok address (ls_tree s) (g\<lparr>gd_phase := phase\<rparr>)"
    and "set (nodes_held (g\<lparr>gd_phase := phase\<rparr>)) \<subseteq> set (nodes_held g)"
  shows "lock_inv address (enter_phase u g phase s)"
proof -
  have "tree_ok (ls_tree s)" using assms(1) by (simp add: lock_inv_def)
  moreover have "compatible (g\<lparr>gd_phase := phase\<rparr>) h" if "v \<noteq> u" "map_of (ls_guards s) v = Some h" for v h
  proof -
    have "compatible g h" using assms(1,2) that unfolding lock_inv_def by metis
    then show ?thesis using assms(4) by (auto simp: compatible_def)
  qed
  ultimately show ?thesis using inv_enter [OF assms(1,2) _ grows_refl assms(3)] by simp
qed

lemma can_lock_iff: "distinct (map fst guards) \<Longrightarrow> can_lock writers_first u mode n guards \<longleftrightarrow>
    (\<forall>v g. map_of guards v = Some g \<longrightarrow> v \<noteq> u \<longrightarrow>
       (n \<in> set (nodes_held g) \<longrightarrow> mode = Shared \<and> gd_mode g = Shared) \<and>
       (writers_first \<and> mode = Shared \<longrightarrow> \<not> (gd_mode g = Exclusive \<and> waits_for g n)))"
proof -
  assume "distinct (map fst guards)"
  then have "(\<forall>x \<in> set guards. P x) \<longleftrightarrow> (\<forall>v g. map_of guards v = Some g \<longrightarrow> P (v, g))" for P
    using map_of_eq_Some_iff by fastforce
  then show ?thesis by (auto simp: can_lock_def list_all_iff)
qed

lemma lock_invD:
  "lock_inv address s \<Longrightarrow> map_of (ls_guards s) u = Some g \<Longrightarrow> guard_ok address (ls_tree s) g"
  "lock_inv address s \<Longrightarrow> distinct (map fst (ls_guards s))"
  "lock_inv address s \<Longrightarrow> tree_ok (ls_tree s)"
  "lock_inv address s \<Longrightarrow> map_of (ls_guards s) u = Some g \<Longrightarrow> map_of (ls_guards s) v = Some h \<Longrightarrow> u \<noteq> v \<Longrightarrow> compatible g h"
  unfolding lock_inv_def by blast+

lemma thread_runs_iff: "distinct (map fst guards) \<Longrightarrow> thread_runs thread guards \<longleftrightarrow>
    (\<forall>v g. map_of guards v = Some g \<longrightarrow> gd_thread g = thread \<longrightarrow> (\<exists>locked. gd_phase g = Locking locked []))"
proof -
  assume "distinct (map fst guards)"
  then have "(\<forall>x \<in> set guards. P x) \<longleftrightarrow> (\<forall>v g. map_of guards v = Some g \<longrightarrow> P (v, g))" for P
    using map_of_eq_Some_iff by fastforce
  moreover have "(case phase of Locking _ [] \<Rightarrow> True | _ \<Rightarrow> False) \<longleftrightarrow> (\<exists>locked. phase = Locking locked [])" for phase
    by (auto split: guard_phase.split list.split)
  ultimately show ?thesis by (simp add: thread_runs_def list_all_iff)
qed

lemma guard_step_inv:
  assumes inv: "lock_inv address s" and step: "guard_step writers_first address s s'" and inj: "inj address"
  shows "lock_inv address s'"
  using step
proof cases
  case (resolve u g path paths nodes node t)
  have ok: "tree_ok (ls_tree s)" "guard_ok address (ls_tree s) g" using inv resolve(2) by (auto simp: lock_inv_def)
  note new = GetOrCreateNode_result [OF ok(1) resolve(4)]
  obtain looked where looked: "gd_paths g = looked @ path # paths" "resolved (ls_tree s) looked" "set nodes = nodes_of (ls_tree s) looked"
    using ok(2) resolve(3) by (auto simp: guard_ok_def)
  note same = resolved_grows [OF ok(1) new(2) looked(2)]
  have "resolved t (looked @ [path])" using same(1) new(3,4) by (auto simp: resolved_def)
  moreover have "set (nodes @ (case node of None \<Rightarrow> [] | Some n \<Rightarrow> [n])) = nodes_of t (looked @ [path])"
    using looked(3) same(2) new(3) by (auto simp: nodes_of_def split: option.splits)
  ultimately have "guard_ok address t (g\<lparr>gd_phase := Resolving paths (nodes @ (case node of None \<Rightarrow> [] | Some n \<Rightarrow> [n]))\<rparr>)"
    using looked(1) by (auto simp: guard_ok_def intro!: exI [of _ "looked @ [path]"])
  then show ?thesis unfolding resolve(1)
    by (rule inv_enter [OF inv resolve(2) new(1,2)]) (simp add: compatible_def nodes_held_def)
next
  case (sort_nodes u g nodes)
  then have "guard_ok address (ls_tree s) (g\<lparr>gd_phase := Locking [] (lock_order address nodes)\<rparr>)"
    using lock_invD(1) [OF inv sort_nodes(2)] lock_order_result(1) [OF inj, of nodes] lock_order_result(2) [of address nodes]
    by (simp add: guard_ok_def)
  then show ?thesis unfolding sort_nodes(1) by (rule inv_enter_same [OF inv sort_nodes(2)]) (simp add: nodes_held_def)
next
  case (lock_next u g locked n wanted)
  have dist: "distinct (map fst (ls_guards s))" "tree_ok (ls_tree s)" using inv by (simp_all add: lock_inv_def)
  have ok: "guard_ok address (ls_tree s) (g\<lparr>gd_phase := Locking (locked @ [n]) wanted\<rparr>)"
    using lock_invD(1) [OF inv lock_next(2)] lock_next(3) by (simp add: guard_ok_def)
  have "compatible (g\<lparr>gd_phase := Locking (locked @ [n]) wanted\<rparr>) h" if "v \<noteq> u" "map_of (ls_guards s) v = Some h" for v h
  proof -
    have "compatible g h" using lock_invD(4) [OF inv lock_next(2)] that by blast
    then show ?thesis using lock_next(3,4) that can_lock_iff [OF dist(1)] by (auto simp: compatible_def nodes_held_def)
  qed
  from inv_enter [OF inv lock_next(2) dist(2) grows_refl ok this] show ?thesis by (simp add: lock_next(1))
next
  case (destroy u g locked)
  then show ?thesis using inv by (auto simp: guard_ok_def nodes_held_def intro!: inv_enter_same)
next
  case (unlock u g n locked)
  then show ?thesis using inv by (auto simp: guard_ok_def nodes_held_def intro!: inv_enter_same)
next
  case (gone u g)
  then show ?thesis using inv unfolding lock_inv_def by auto
qed

lemma lock_reachable_inv: "lock_reachable writers_first address s \<Longrightarrow> inj address \<Longrightarrow> lock_inv address s"
proof (induction rule: lock_reachable.induct)
  case (acquire s u thread mode paths)
  have "guard_ok address (ls_tree s) \<lparr>gd_thread = thread, gd_mode = mode, gd_paths = paths, gd_phase = Resolving paths []\<rparr>"
    by (simp add: guard_ok_def resolved_def nodes_of_def)
  moreover have "compatible \<lparr>gd_thread = thread, gd_mode = mode, gd_paths = paths, gd_phase = Resolving paths []\<rparr> h"
      "compatible h \<lparr>gd_thread = thread, gd_mode = mode, gd_paths = paths, gd_phase = Resolving paths []\<rparr>" for h
    by (simp_all add: compatible_def nodes_held_def)
  ultimately show ?case using acquire.IH [OF acquire.prems] unfolding lock_inv_def begin_guard_def by simp
next
  case (step s s')
  then show ?case using guard_step_inv by blast
qed (simp add: lock_inv_def)

section \<open>No guard waits for ever\<close>

text \<open>What is left to do for a guard: each path may add a node, each node is locked and given back.\<close>

definition guard_work :: "lock_guard \<Rightarrow> nat" where
  "guard_work g =
     (case gd_phase g of
        Resolving paths nodes \<Rightarrow> 3 * length paths + 2 * length nodes + 3
      | Locking locked wanted \<Rightarrow> 2 * length wanted + length locked + 2
      | Releasing locked \<Rightarrow> length locked + 1)"

definition lock_work :: "lock_state \<Rightarrow> nat" where
  "lock_work s = sum_list (map (guard_work \<circ> snd) (ls_guards s))"

lemma work_update:
  "distinct (map fst al) \<Longrightarrow> map_of al u = Some g \<Longrightarrow>
    sum_list (map (f \<circ> snd) (AList.update u h al)) + f g = sum_list (map (f \<circ> snd) al) + (f h :: nat)"
  by (induction al) auto

lemma work_delete:
  "distinct (map fst al) \<Longrightarrow> map_of al u = Some g \<Longrightarrow>
    sum_list (map (f \<circ> snd) (AList.delete u al)) + f g = sum_list (map (f \<circ> snd) al :: nat list)"
proof (induction al)
  case (Cons x al)
  show ?case
  proof (cases "fst x = u")
    case True
    then have "AList.delete u al = al" using Cons.prems(1) by (intro delete_id) simp
    then show ?thesis using Cons.prems True by (cases x) simp
  next
    case False
    then show ?thesis using Cons by (cases x) simp
  qed
qed simp

lemma length_lock_order: "length (lock_order address nodes) \<le> length nodes"
  unfolding lock_order_def by (metis length_sort remdups_adj_length)

lemma step_work:
  assumes inv: "lock_inv address s" and step: "guard_step writers_first address s s'"
  shows "lock_work s' < lock_work s"
proof -
  have enter: "lock_work (enter_phase u g phase t) < lock_work s"
    if "map_of (ls_guards s) u = Some g" "guard_work (g\<lparr>gd_phase := phase\<rparr>) < guard_work g" "ls_guards t = ls_guards s" for u g phase t
    using work_update [OF lock_invD(2) [OF inv] that(1), of guard_work "g\<lparr>gd_phase := phase\<rparr>"] that(2,3)
    by (simp add: lock_work_def enter_phase_def)
  show ?thesis
    using step
  proof cases
    case (resolve u g path paths nodes node t)
    then show ?thesis by (auto simp: guard_work_def intro!: enter split: option.split)
  next
    case (sort_nodes u g nodes)
    then show ?thesis using length_lock_order [of address nodes] by (auto simp: guard_work_def intro!: enter)
  next
    case (gone u g)
    then show ?thesis using work_delete [OF lock_invD(2) [OF inv] gone(2), of guard_work]
      by (simp add: lock_work_def guard_work_def)
  qed (auto simp: guard_work_def intro!: enter)
qed

text \<open>No thread has two guards.\<close>

definition unnested :: "lock_state \<Rightarrow> bool" where
  "unnested s \<longleftrightarrow> (\<forall>u v g h. map_of (ls_guards s) u = Some g \<longrightarrow> map_of (ls_guards s) v = Some h \<longrightarrow> gd_thread g = gd_thread h \<longrightarrow> u = v)"

lemma unnested_enter:
  assumes "unnested s" and "map_of (ls_guards s) u = Some g"
  shows "unnested (enter_phase u g phase (s\<lparr>ls_tree := t\<rparr>))" and "unnested (enter_phase u g phase s)"
  using assms by (auto simp: unnested_def enter_phase_def update_conv' split: if_splits)

lemma step_unnested: "guard_step writers_first address s s' \<Longrightarrow> unnested s \<Longrightarrow> unnested s'"
proof (induction rule: guard_step.induct)
  case (gone s u g)
  then show ?case by (auto simp: unnested_def delete_conv' split: if_splits)
qed (simp_all add: unnested_enter)

text \<open>The guard that waits for the node with the highest address waits for nobody who waits himself.\<close>

lemma holder_not_waiting:
  assumes "lock_inv address s" and "map_of (ls_guards s) v = Some h" and "n \<in> set (nodes_held h)" and "gd_phase h = Locking locked (m # wanted)"
  shows "address n < address m"
  using lock_invD(1) [OF assms(1,2)] assms(3,4) by (auto simp: guard_ok_def nodes_held_def sorted_wrt_append)

lemma guards_progress:
  assumes inv: "lock_inv address s" and one: "unnested s" and some: "ls_guards s \<noteq> []"
  shows "\<exists>s'. guard_step writers_first address s s'"
proof (rule ccontr)
  assume stuck: "\<not> ?thesis"
  let ?waits = "\<lambda>u n. \<exists>g locked wanted. map_of (ls_guards s) u = Some g \<and> gd_phase g = Locking locked (n # wanted)"
  have waiting: "\<exists>locked n wanted. gd_phase g = Locking locked (n # wanted)" if "map_of (ls_guards s) u = Some g" for u g
  proof (cases "gd_phase g")
    case (Resolving paths nodes)
    then show ?thesis using stuck resolve [OF that] sort_nodes [OF that] by (cases paths) (metis prod.exhaust)+
  next
    case (Locking locked wanted)
    have "wanted = [] \<Longrightarrow> thread_runs (gd_thread g) (ls_guards s)"
      using one that Locking unfolding thread_runs_iff [OF lock_invD(2) [OF inv]] unnested_def by (metis option.inject)
    then show ?thesis using Locking stuck destroy [OF that] by (cases wanted) blast+
  next
    case (Releasing locked)
    then show ?thesis using stuck unlock [OF that] gone [OF that] by (cases locked) blast+
  qed
  have blocked: "\<exists>v h. map_of (ls_guards s) v = Some h \<and> v \<noteq> u \<and>
      (n \<in> set (nodes_held h) \<or> writers_first \<and> gd_mode g = Shared \<and> gd_mode h = Exclusive \<and> waits_for h n)"
    if "map_of (ls_guards s) u = Some g" "gd_phase g = Locking locked (n # wanted)" for u g locked n wanted
    using stuck lock_next [OF that] can_lock_iff [OF lock_invD(2) [OF inv]] by blast
  obtain w where "w \<in> set (ls_guards s)" using some by (cases "ls_guards s") auto
  then have "map_of (ls_guards s) (fst w) = Some (snd w)" using lock_invD(2) [OF inv] by simp
  then have ex: "\<exists>u n. ?waits u n" using waiting by blast
  have fin: "finite {n. \<exists>u. ?waits u n}"
  proof (rule finite_subset)
    show "{n. \<exists>u. ?waits u n} \<subseteq> (\<lambda>g. case gd_phase g of Locking _ (n # _) \<Rightarrow> n | _ \<Rightarrow> 0) ` ran (map_of (ls_guards s))"
      by (force simp: ran_def)
  qed (intro finite_imageI finite_ran finite_dom_map_of)
  define N where "N = {n. \<exists>u. ?waits u n}"
  have "N \<noteq> {}" using ex unfolding N_def by blast
  then have N: "finite (address ` N)" "address ` N \<noteq> {}" using fin by (simp_all add: N_def)
  obtain m where m1: "m \<in> N" "address m = Max (address ` N)" using Max_in [OF N] by (metis imageE)
  have "address n \<le> address m" if "n \<in> N" for n using N(1) m1(2) that by simp
  then have m: "\<exists>u. ?waits u m" "\<And>n. \<exists>u. ?waits u n \<Longrightarrow> address n \<le> address m" using m1(1) unfolding N_def by blast+
  have free: "m \<notin> set (nodes_held h)" if h: "map_of (ls_guards s) v = Some h" for v h
  proof
    assume held: "m \<in> set (nodes_held h)"
    obtain locked n wanted where n: "gd_phase h = Locking locked (n # wanted)" using waiting [OF h] by blast
    have "address m < address n" by (rule holder_not_waiting [OF inv h held n])
    then show False using m(2) [of n] h n by (metis leD)
  qed
  obtain u g locked wanted where u: "map_of (ls_guards s) u = Some g" "gd_phase g = Locking locked (m # wanted)" using m(1) by blast
  obtain v h where v: "map_of (ls_guards s) v = Some h" "gd_mode h = Exclusive" "waits_for h m" using blocked [OF u] free by blast
  obtain locked' wanted' where "gd_phase h = Locking locked' (m # wanted')"
    using v(3) waiting [OF v(1)] by (auto simp: waits_for_def)
  then show False using blocked [OF v(1)] free v(2) by (metis lock_mode.distinct(1))
qed

lemma guards_finish:
  assumes "lock_inv address s" and "unnested s" and "inj address"
  shows "\<exists>s'. (guard_step writers_first address)\<^sup>*\<^sup>* s s' \<and> ls_guards s' = []"
  using assms(1,2)
proof (induction "lock_work s" arbitrary: s rule: less_induct)
  case less
  show ?case
  proof (cases "ls_guards s = []")
    case False
    then obtain s1 where s1: "guard_step writers_first address s s1" using guards_progress [OF less.prems] by blast
    note kept = guard_step_inv [OF less.prems(1) s1 assms(3)] step_unnested [OF s1 less.prems(2)]
    then obtain s' where "(guard_step writers_first address)\<^sup>*\<^sup>* s1 s'" "ls_guards s' = []"
      using less.hyps [OF step_work [OF less.prems(1) s1] kept] by blast
    then show ?thesis using s1 by (meson converse_rtranclp_into_rtranclp)
  qed blast
qed

section \<open>When a guard gets its locks\<close>

text \<open>A thread runs on while the others stay where they are.\<close>

lemma enter_phase_guards: "map_of (ls_guards (enter_phase u g phase s)) = (map_of (ls_guards s))(u \<mapsto> g\<lparr>gd_phase := phase\<rparr>)"
  by (simp add: enter_phase_def update_conv')

lemma resolve_run:
  "lock_reachable writers_first address s \<Longrightarrow> map_of (ls_guards s) u = Some g \<Longrightarrow> gd_phase g = Resolving paths nodes \<Longrightarrow>
    \<exists>s' nodes'. lock_reachable writers_first address s' \<and>
      map_of (ls_guards s') = (map_of (ls_guards s))(u \<mapsto> g\<lparr>gd_phase := Resolving [] nodes'\<rparr>)"
proof (induction paths arbitrary: s g nodes)
  case Nil
  then have "map_of (ls_guards s) = (map_of (ls_guards s))(u \<mapsto> g\<lparr>gd_phase := Resolving [] nodes\<rparr>)" by (auto simp: fun_eq_iff)
  then show ?case using Nil(1) by blast
next
  case (Cons path paths)
  obtain node t where "GetOrCreateNode path (ls_tree s) = (node, t)" by fastforce
  note step = lock_reachable.step [OF Cons.prems(1) guard_step.resolve [OF Cons.prems(2,3) this]]
  let ?nodes = "nodes @ (case node of None \<Rightarrow> [] | Some n \<Rightarrow> [n])"
  show ?case using Cons.IH [OF step, of "g\<lparr>gd_phase := Resolving paths ?nodes\<rparr>" ?nodes] by (simp add: enter_phase_guards cong: if_cong)
qed

lemma lock_run:
  "lock_reachable writers_first address s \<Longrightarrow> inj address \<Longrightarrow> map_of (ls_guards s) u = Some g \<Longrightarrow> gd_phase g = Locking locked wanted \<Longrightarrow>
    (\<forall>v h n. v \<noteq> u \<longrightarrow> map_of (ls_guards s) v = Some h \<longrightarrow> \<not> waits_for h n \<and>
      (n \<in> set wanted \<and> n \<in> set (nodes_held h) \<longrightarrow> gd_mode g = Shared \<and> gd_mode h = Shared)) \<Longrightarrow>
    \<exists>s'. lock_reachable writers_first address s' \<and>
      map_of (ls_guards s') = (map_of (ls_guards s))(u \<mapsto> g\<lparr>gd_phase := Locking (locked @ wanted) []\<rparr>)"
proof (induction wanted arbitrary: s g locked)
  case Nil
  then have "map_of (ls_guards s) = (map_of (ls_guards s))(u \<mapsto> g\<lparr>gd_phase := Locking (locked @ []) []\<rparr>)" by (auto simp: fun_eq_iff)
  then show ?case using Nil(1) by blast
next
  case (Cons n wanted)
  have "can_lock writers_first u (gd_mode g) n (ls_guards s)"
    using Cons.prems(5) can_lock_iff [OF lock_invD(2) [OF lock_reachable_inv [OF Cons.prems(1,2)]]] by (metis list.set_intros(1))
  note step = lock_reachable.step [OF Cons.prems(1) guard_step.lock_next [OF Cons.prems(3,4) this]]
  have "\<forall>v h k. v \<noteq> u \<longrightarrow> map_of (ls_guards s) v = Some h \<longrightarrow> \<not> waits_for h k \<and>
      (k \<in> set wanted \<and> k \<in> set (nodes_held h) \<longrightarrow> gd_mode g = Shared \<and> gd_mode h = Shared)"
    using Cons.prems(5) by auto
  then show ?case using Cons.IH [OF step Cons.prems(2), of "g\<lparr>gd_phase := Locking (locked @ [n]) wanted\<rparr>" "locked @ [n]"]
    by (simp add: enter_phase_guards cong: if_cong)
qed

lemma order_run:
  assumes r: "lock_reachable writers_first address s" and "inj address" and "map_of (ls_guards s) u = None"
    and run: "thread_runs thread (ls_guards s)"
  shows "\<exists>s' wanted. lock_reachable writers_first address s' \<and>
    map_of (ls_guards s') = (map_of (ls_guards s))(u \<mapsto> \<lparr>gd_thread = thread, gd_mode = mode, gd_paths = paths, gd_phase = Locking [] wanted\<rparr>)"
proof -
  let ?g = "\<lparr>gd_thread = thread, gd_mode = mode, gd_paths = paths, gd_phase = Resolving paths []\<rparr>"
  obtain s1 nodes where s1: "lock_reachable writers_first address s1"
      "map_of (ls_guards s1) = (map_of (ls_guards s))(u \<mapsto> ?g\<lparr>gd_phase := Resolving [] nodes\<rparr>)"
    using resolve_run [OF lock_reachable.acquire [OF r assms(3) run, of mode paths], of u ?g paths "[]"]
    by (fastforce simp: begin_guard_def update_conv')
  have "lock_reachable writers_first address (enter_phase u (?g\<lparr>gd_phase := Resolving [] nodes\<rparr>) (Locking [] (lock_order address nodes)) s1)"
    by (rule lock_reachable.step [OF s1(1) guard_step.sort_nodes]) (simp_all add: s1(2))
  then show ?thesis using s1(2) by - (rule exI, rule exI, erule conjI, simp add: enter_phase_guards)
qed

lemma acquire_run:
  assumes r: "lock_reachable writers_first address s" and inj: "inj address" and new: "map_of (ls_guards s) u = None"
    and owning: "\<And>v h. map_of (ls_guards s) v = Some h \<Longrightarrow> \<exists>locked. gd_phase h = Locking locked []"
    and free: "\<And>v h p q. map_of (ls_guards s) v = Some h \<Longrightarrow> p \<in> set paths \<Longrightarrow> q \<in> set (gd_paths h) \<Longrightarrow>
      components_of p = components_of q \<Longrightarrow> components_of p \<noteq> None \<Longrightarrow> mode = Shared \<and> gd_mode h = Shared"
  shows "\<exists>s' locked. lock_reachable writers_first address s' \<and>
    map_of (ls_guards s') = (map_of (ls_guards s))(u \<mapsto> \<lparr>gd_thread = thread, gd_mode = mode, gd_paths = paths, gd_phase = Locking locked []\<rparr>)"
proof -
  obtain s1 wanted where s1: "lock_reachable writers_first address s1"
      "map_of (ls_guards s1) = (map_of (ls_guards s))(u \<mapsto> \<lparr>gd_thread = thread, gd_mode = mode, gd_paths = paths, gd_phase = Locking [] wanted\<rparr>)"
    using order_run [OF r inj new, of thread] owning thread_runs_iff [OF lock_invD(2) [OF lock_reachable_inv [OF r inj]]] by blast
  note inv = lock_reachable_inv [OF s1(1) inj]
  let ?g = "\<lparr>gd_thread = thread, gd_mode = mode, gd_paths = paths, gd_phase = Locking [] wanted\<rparr>"
  have g: "map_of (ls_guards s1) u = Some ?g" "set wanted = nodes_of (ls_tree s1) paths"
    using s1(2) lock_invD(1) [OF inv, of u ?g] by (simp_all add: guard_ok_def)
  have "\<not> waits_for h n \<and> (n \<in> set wanted \<and> n \<in> set (nodes_held h) \<longrightarrow> mode = Shared \<and> gd_mode h = Shared)"
    if v: "v \<noteq> u" "map_of (ls_guards s1) v = Some h" for v h n
  proof -
    have h: "map_of (ls_guards s) v = Some h" using v s1(2) by simp
    obtain locked where locked: "gd_phase h = Locking locked []" using owning [OF h] by blast
    then have held: "set (nodes_held h) = nodes_of (ls_tree s1) (gd_paths h)"
      using lock_invD(1) [OF inv v(2)] by (simp add: guard_ok_def nodes_held_def)
    have "mode = Shared \<and> gd_mode h = Shared" if both: "n \<in> set wanted" "n \<in> set (nodes_held h)"
    proof -
      obtain p q where pq: "p \<in> set paths" "q \<in> set (gd_paths h)" "lock_FindNode (ls_tree s1) p = Some n" "lock_FindNode (ls_tree s1) q = Some n"
        using both unfolding g(2) held nodes_of_def by blast
      moreover have "components_of p \<noteq> None" using pq(3) by (auto simp: FindNode_walk split: option.splits)
      ultimately show ?thesis using free [OF h] FindNode_inject [OF lock_invD(3) [OF inv]] by blast
    qed
    then show ?thesis using locked by (simp add: waits_for_def)
  qed
  then show ?thesis using lock_run [OF s1(1) inj g(1), of "[]" wanted] s1(2) by auto
qed

section \<open>Nested guards\<close>

lemma lock_excludes:
  "map_of guards v = Some g \<Longrightarrow> v \<noteq> u \<Longrightarrow> n \<in> set (nodes_held g) \<Longrightarrow> \<not> can_lock writers_first u Exclusive n guards"
  by (auto simp: can_lock_def list_all_iff dest!: map_of_SomeD)

lemma sorted_single:
  assumes "set xs = {n}" and "sorted_wrt (\<lambda>a b. address a < (address b :: nat)) xs"
  shows "xs = [n]"
proof (cases xs)
  case (Cons x ys)
  then show ?thesis using assms by (cases ys) auto
qed (use assms in simp)

lemma wanted_single:
  assumes "lock_reachable writers_first address s" and "inj address" and "map_of (ls_guards s) u = Some g"
    and "gd_phase g = Locking locked wanted" and "gd_paths g = [p]" and "components_of p \<noteq> None"
  shows "\<exists>n. lock_FindNode (ls_tree s) p = Some n \<and> locked @ wanted = [n]"
proof -
  note ok = lock_invD(1) [OF lock_reachable_inv [OF assms(1,2)] assms(3), unfolded guard_ok_def assms(4,5)]
  then obtain n where n: "lock_FindNode (ls_tree s) p = Some n" using assms(6) by (auto simp: resolved_def)
  then have "set (locked @ wanted) = {n}" using ok by (simp add: nodes_of_def)
  moreover have "sorted_wrt (\<lambda>a b. address a < address b) (locked @ wanted)" using ok by simp
  ultimately have "locked @ wanted = [n]" by (rule sorted_single)
  then show ?thesis using n by blast
qed

text \<open>Two threads that ask in opposite order for a second guard while they own the first wait for each other: no guard can take a
  step. Each guard locks its nodes in the order of their addresses, but nothing orders the guards of a thread.\<close>
lemma nested_guards_deadlock:
  assumes inj: "inj address" and comps: "components_of p \<noteq> None" "components_of q \<noteq> None" "components_of p \<noteq> components_of q"
  shows "\<exists>s. lock_reachable writers_first address s \<and> ls_guards s \<noteq> [] \<and> (\<forall>s'. \<not> guard_step writers_first address s s')"
proof -
  let ?G = "\<lambda>thread path phase. \<lparr>gd_thread = thread, gd_mode = Exclusive, gd_paths = [path], gd_phase = phase\<rparr>"
  obtain s1 l where s1: "lock_reachable writers_first address s1" "map_of (ls_guards s1) = [0 \<mapsto> ?G 1 p (Locking l [])]"
    using acquire_run [OF lock_reachable.init [of writers_first address] inj, of 0 "[p]" Exclusive 1] by auto
  have "\<exists>s' k. lock_reachable writers_first address s' \<and> map_of (ls_guards s') = (map_of (ls_guards s1))(1 \<mapsto> ?G 2 q (Locking k []))"
    by (rule acquire_run [OF s1(1) inj]) (use s1(2) comps in \<open>auto split: if_splits\<close>)
  then obtain s2 k where s2: "lock_reachable writers_first address s2"
      "map_of (ls_guards s2) = [0 \<mapsto> ?G 1 p (Locking l []), 1 \<mapsto> ?G 2 q (Locking k [])]"
    using s1(2) by auto
  have "thread_runs 1 (ls_guards s2)"
    unfolding thread_runs_iff [OF lock_invD(2) [OF lock_reachable_inv [OF s2(1) inj]]] by (simp add: s2(2))
  then obtain s3 v where s3: "lock_reachable writers_first address s3"
      "map_of (ls_guards s3) = [0 \<mapsto> ?G 1 p (Locking l []), 1 \<mapsto> ?G 2 q (Locking k []), 2 \<mapsto> ?G 1 q (Locking [] v)]"
    using order_run [OF s2(1) inj, of 2 1 Exclusive "[q]"] s2(2) by auto
  have "thread_runs 2 (ls_guards s3)"
    unfolding thread_runs_iff [OF lock_invD(2) [OF lock_reachable_inv [OF s3(1) inj]]] by (simp add: s3(2))
  then obtain s w where s: "lock_reachable writers_first address s"
      "map_of (ls_guards s) = [0 \<mapsto> ?G 1 p (Locking l []), 1 \<mapsto> ?G 2 q (Locking k []), 2 \<mapsto> ?G 1 q (Locking [] v), 3 \<mapsto> ?G 2 p (Locking [] w)]"
    using order_run [OF s3(1) inj, of 3 2 Exclusive "[p]"] s3(2) by auto
  obtain n where n: "l = [n]" "w = [n]"
    using wanted_single [OF s(1) inj, of 0 _ l "[]" p] wanted_single [OF s(1) inj, of 3 _ "[]" w p] comps(1) by (auto simp: s(2))
  obtain m where m: "k = [m]" "v = [m]"
    using wanted_single [OF s(1) inj, of 1 _ k "[]" q] wanted_single [OF s(1) inj, of 2 _ "[]" v q] comps(2) by (auto simp: s(2))
  note dist = lock_invD(2) [OF lock_reachable_inv [OF s(1) inj]]
  have some: "map_of (ls_guards s) 0 = Some (?G 1 p (Locking [n] []))" "map_of (ls_guards s) 1 = Some (?G 2 q (Locking [m] []))"
      "map_of (ls_guards s) 2 = Some (?G 1 q (Locking [] [m]))" "map_of (ls_guards s) 3 = Some (?G 2 p (Locking [] [n]))"
    by (simp_all add: s(2) m n)
  have stay: "\<not> thread_runs 1 (ls_guards s)" "\<not> thread_runs 2 (ls_guards s)"
    using some(3,4) thread_runs_iff [OF dist, of 1] thread_runs_iff [OF dist, of 2] by force+
  have wait: "\<not> can_lock writers_first 2 Exclusive m (ls_guards s)" "\<not> can_lock writers_first 3 Exclusive n (ls_guards s)"
    by (rule lock_excludes [OF some(2)], simp_all add: nodes_held_def)
      (rule lock_excludes [OF some(1)], simp_all add: nodes_held_def)
  have at: "u = 0 \<and> g = ?G 1 p (Locking [n] []) \<or> u = 1 \<and> g = ?G 2 q (Locking [m] []) \<or>
      u = 2 \<and> g = ?G 1 q (Locking [] [m]) \<or> u = 3 \<and> g = ?G 2 p (Locking [] [n])" if "map_of (ls_guards s) u = Some g" for u g
    using that by (auto simp: s(2) m n split: if_splits)
  have "\<not> guard_step writers_first address s s'" for s'
  proof
    assume "guard_step writers_first address s s'"
    then show False
    proof cases
      case (destroy u g locked)
      then show False using at [OF destroy(2)] stay by auto
    next
      case (lock_next u g locked x wanted)
      then show False using at [OF lock_next(2)] wait by auto
    qed (use at in fastforce)+
  qed
  moreover have "ls_guards s \<noteq> []" using s(2) by (metis fun_upd_apply map_of.simps(1) option.distinct(1))
  ultimately show ?thesis using s(1) by blast
qed

section \<open>Properties\<close>

text \<open>A path has one lock node for ever, and a node stands for one list of components: what \<open>GetOrCreateNode\<close> returns is what
  \<open>FindNode\<close> finds, then and after any further calls, it is a node exactly when no component is empty, and two
  paths have the same node exactly when they have the same components.\<close>
lemma lock_node_of_path:
  assumes "lock_reachable writers_first address s" and "inj address" and "GetOrCreateNode p (ls_tree s) = (r, t)"
    and "t' = fold (\<lambda>q t. snd (GetOrCreateNode q t)) qs t"
  shows "lock_FindNode t' p = r \<and> (r \<noteq> None \<longleftrightarrow> components_of p \<noteq> None) \<and>
    (r \<noteq> None \<longrightarrow> (lock_FindNode t' q = r \<longleftrightarrow> components_of q = components_of p))"
proof -
  note new = GetOrCreateNode_result [OF lock_invD(3) [OF lock_reachable_inv [OF assms(1,2)]] assms(3)]
  have more: "tree_ok u \<Longrightarrow> tree_ok (fold (\<lambda>q t. snd (GetOrCreateNode q t)) qs u) \<and>
      grows u (fold (\<lambda>q t. snd (GetOrCreateNode q t)) qs u)" for u
    by (induction qs arbitrary: u) (auto intro: grows_trans dest: GetOrCreateNode_result(1,2) [OF _ surjective_pairing])
  then have t': "tree_ok t'" "grows t t'" using new(1) assms(4) by simp_all
  have "lock_FindNode t' p = r"
  proof (cases "components_of p")
    case None
    then show ?thesis using new(3) by (simp add: FindNode_walk)
  next
    case (Some cs)
    then show ?thesis using new(3,4) FindNode_grows [OF new(1) t'(2)] by auto
  qed
  moreover have "lock_FindNode t' q = r \<longleftrightarrow> components_of q = components_of p" if "r = Some n" for n
    using calculation that FindNode_inject [OF t'(1)] FindNode_components by metis
  ultimately show ?thesis using new(4) by blast
qed

text \<open>C37: While a guard owns its locks, no other guard that has a path with the same components owns its locks, unless both
  are read guards.\<close>
theorem path_guards_exclude:
  assumes "lock_reachable writers_first address s" and "inj address"
    and "map_of (ls_guards s) u = Some g" and "map_of (ls_guards s) v = Some h" and "u \<noteq> v"
    and "gd_phase g = Locking locked []" and "gd_phase h = Locking locked' []"
    and "p \<in> set (gd_paths g)" and "q \<in> set (gd_paths h)" and "components_of p = components_of q" and "components_of p \<noteq> None"
  shows "gd_mode g = Shared \<and> gd_mode h = Shared"
proof -
  note inv = lock_reachable_inv [OF assms(1,2)]
  have g: "resolved (ls_tree s) (gd_paths g)" "set locked = nodes_of (ls_tree s) (gd_paths g)"
    using lock_invD(1) [OF inv assms(3)] assms(6) by (simp_all add: guard_ok_def)
  have h: "set locked' = nodes_of (ls_tree s) (gd_paths h)" using lock_invD(1) [OF inv assms(4)] assms(7) by (simp add: guard_ok_def)
  obtain n where n: "lock_FindNode (ls_tree s) p = Some n" using g(1) assms(8,11) by (auto simp: resolved_def)
  then have "lock_FindNode (ls_tree s) q = Some n" using FindNode_components [OF assms(10)] by metis
  then have "n \<in> set locked" "n \<in> set locked'" using n assms(8,9) unfolding g(2) h nodes_of_def by blast+
  then show ?thesis using lock_invD(4) [OF inv assms(3,4,5)] assms(6,7) by (auto simp: compatible_def nodes_held_def)
qed

theorem path_guards_exclude_witness:
  "\<exists>s locked locked'. lock_reachable False id s \<and>
     map_of (ls_guards s) 1 = Some \<lparr>gd_thread = 1, gd_mode = Shared, gd_paths = [''/a''], gd_phase = Locking locked []\<rparr> \<and>
     map_of (ls_guards s) 2 = Some \<lparr>gd_thread = 2, gd_mode = Shared, gd_paths = [''/a/''], gd_phase = Locking locked' []\<rparr>"
proof -
  obtain s1 l1 where s1: "lock_reachable False id s1"
      "map_of (ls_guards s1) = [1 \<mapsto> \<lparr>gd_thread = 1, gd_mode = Shared, gd_paths = [''/a''], gd_phase = Locking l1 []\<rparr>]"
    using acquire_run [OF lock_reachable.init [of False id], of 1 "[''/a'']" Shared 1] by auto
  obtain s2 l2 where s2: "lock_reachable False id s2"
      "map_of (ls_guards s2) = (map_of (ls_guards s1))(2 \<mapsto> \<lparr>gd_thread = 2, gd_mode = Shared, gd_paths = [''/a/''], gd_phase = Locking l2 []\<rparr>)"
    using acquire_run [OF s1(1), of 2 "[''/a/'']" Shared 2] s1(2) by (fastforce split: if_splits)
  have c: "components_of ''/a'' = components_of ''/a/''" "components_of ''/a'' \<noteq> None" by code_simp+
  have "gd_mode \<lparr>gd_thread = 1, gd_mode = Shared, gd_paths = [''/a''], gd_phase = Locking l1 []\<rparr> = Shared \<and>
      gd_mode \<lparr>gd_thread = 2, gd_mode = Shared, gd_paths = [''/a/''], gd_phase = Locking l2 []\<rparr> = Shared"
    by (rule path_guards_exclude [OF s2(1), of 1 _ 2, OF _ _ _ _ _ _ _ _ c]) (simp_all add: s1(2) s2(2))
  then show ?thesis using s2 s1(2) by auto
qed

text \<open>C38: Nothing else is excluded, in particular not what lies below a locked path: when all guards of a state own their locks, a
  new guard can get its own although they keep theirs, unless it shares the components of a path with one of them and
  one of the two writes. So one thread can own the write lock of a directory while another owns the write lock of a
  file in it.\<close>
theorem only_equal_paths_exclude:
  assumes "lock_reachable writers_first address s" and "inj address" and "map_of (ls_guards s) u = None"
    and "\<forall>v h. map_of (ls_guards s) v = Some h \<longrightarrow> (\<exists>locked. gd_phase h = Locking locked [])"
    and "\<forall>v h. map_of (ls_guards s) v = Some h \<longrightarrow> (mode = Shared \<and> gd_mode h = Shared) \<or>
      (\<forall>p \<in> set paths. \<forall>q \<in> set (gd_paths h). components_of p \<noteq> components_of q \<or> components_of p = None)"
  shows "\<exists>s' locked. lock_reachable writers_first address s' \<and>
    map_of (ls_guards s') = (map_of (ls_guards s))(u \<mapsto> \<lparr>gd_thread = thread, gd_mode = mode, gd_paths = paths, gd_phase = Locking locked []\<rparr>)"
proof (rule acquire_run [OF assms(1-3)])
  show "mode = Shared \<and> gd_mode h = Shared" if "map_of (ls_guards s) v = Some h" "p \<in> set paths" "q \<in> set (gd_paths h)"
      "components_of p = components_of q" "components_of p \<noteq> None" for v h p q
    using assms(5) that by metis
qed (use assms(4) in blast)

theorem only_equal_paths_exclude_witness:
  "\<exists>s locked locked'. lock_reachable True id s \<and>
     map_of (ls_guards s) 1 = Some \<lparr>gd_thread = 1, gd_mode = Exclusive, gd_paths = [''/a''], gd_phase = Locking locked []\<rparr> \<and>
     map_of (ls_guards s) 2 = Some \<lparr>gd_thread = 2, gd_mode = Exclusive, gd_paths = [''/a/b''], gd_phase = Locking locked' []\<rparr>"
proof -
  obtain s1 l1 where s1: "lock_reachable True id s1"
      "map_of (ls_guards s1) = [1 \<mapsto> \<lparr>gd_thread = 1, gd_mode = Exclusive, gd_paths = [''/a''], gd_phase = Locking l1 []\<rparr>]"
    using only_equal_paths_exclude [OF lock_reachable.init [of True id], of 1 Exclusive "[''/a'']" 1] by auto
  have c: "components_of ''/a/b'' \<noteq> components_of ''/a''" by code_simp
  obtain s2 l2 where s2: "lock_reachable True id s2"
      "map_of (ls_guards s2) = (map_of (ls_guards s1))(2 \<mapsto> \<lparr>gd_thread = 2, gd_mode = Exclusive, gd_paths = [''/a/b''], gd_phase = Locking l2 []\<rparr>)"
    using only_equal_paths_exclude [OF s1(1), of 2 Exclusive "[''/a/b'']" 2] s1(2) c by (fastforce split: if_splits)
  then show ?thesis using s1(2) by auto
qed

text \<open>C36: The guards of threads that own one guard at a time cannot block each other for ever, whichever way the mutexes treat
  waiting writers and wherever the nodes lie in memory: in a state where no thread has two guards, as long as a guard
  exists, some guard can take a step, every step makes the work that is left smaller, and so all of them can finish. A
  thread may lock many paths with its guard. Threads that ask for a second guard while they own one are not covered:
  \<open>nested_guards_deadlock\<close> shows that they can block each other for ever.\<close>
theorem guards_never_deadlock:
  assumes "lock_reachable writers_first address s" and "inj address" and "unnested s"
  shows "(ls_guards s \<noteq> [] \<longrightarrow> (\<exists>s'. guard_step writers_first address s s')) \<and>
    (\<forall>s'. guard_step writers_first address s s' \<longrightarrow> lock_work s' < lock_work s \<and> unnested s') \<and>
    (\<exists>s'. (guard_step writers_first address)\<^sup>*\<^sup>* s s' \<and> ls_guards s' = [])"
proof -
  note inv = lock_reachable_inv [OF assms(1,2)]
  show ?thesis using guards_progress [OF inv assms(3)] step_work [OF inv] step_unnested [OF _ assms(3)]
      guards_finish [OF inv assms(3,2)] by blast
qed

theorem guards_never_deadlock_witness:
  "\<exists>s'. (guard_step True id)\<^sup>*\<^sup>* (begin_guard 2 2 Exclusive [''/b'', ''/a''] (begin_guard 1 1 Exclusive [''/a'', ''/b'']
     \<lparr>ls_tree = NamespaceLock, ls_guards = []\<rparr>)) s' \<and> ls_guards s' = []"
proof -
  let ?s = "begin_guard 2 2 Exclusive [''/b'', ''/a''] (begin_guard 1 1 Exclusive [''/a'', ''/b''] \<lparr>ls_tree = NamespaceLock, ls_guards = []\<rparr>)"
  have "lock_reachable True id ?s"
    by (intro lock_reachable.acquire lock_reachable.init) (simp_all add: begin_guard_def thread_runs_def)
  moreover have "unnested ?s" by (simp add: unnested_def begin_guard_def)
  ultimately show ?thesis using guards_never_deadlock [of True id ?s] by simp
qed

end
