(* ===== verification/MasterService.thy ===== *)
theory MasterService
  imports ChunkserverService Rebalancer Restart
begin

text \<open>
  \<open>src/protocol/master_service.cpp\<close>: the handlers of the remote procedure calls of the master. Every handler
  returns the status \<open>OK\<close>; a request is \<open>None\<close> for a null pointer, and the master is set by the constructor, so
  it is never null. \<open>io\<close> is what the operating system does to the log, \<open>now\<close> the clock. Each handler is one step.
  In the code they exclude each other by \<open>mutex_\<close>, all but \<open>Heartbeat\<close>, which takes no lock of the service and can
  run between the steps of another handler; such interleavings are not modelled.
\<close>

section \<open>Requests and responses\<close>

record create_file_request =
  cf_request_path :: string
  cf_replication_factor :: "32 word"

record file_info =
  fi_path :: string
  fi_size :: "64 word"
  fi_replication_factor :: "32 word"
  fi_chunk_handles :: "chunk_handle list"

record chunk_location =
  lo_chunk_handle :: chunk_handle
  lo_version :: chunk_version
  lo_replica_server_ids :: "server_id list"
  lo_replica_addresses :: "string list"

definition empty_location :: chunk_location where
  "empty_location = \<lparr>lo_chunk_handle = 0, lo_version = 0, lo_replica_server_ids = [], lo_replica_addresses = []\<rparr>"

definition invalid :: "string \<Rightarrow> unit reply" where
  "invalid message = respond False message ()"

definition relay :: "string \<Rightarrow> (master \<Rightarrow> bool \<times> master) \<Rightarrow> 'w cluster \<Rightarrow> unit reply \<times> 'w cluster" where
  "relay message f c = (case on_master f c of (success, c) \<Rightarrow> (respond success message (), c))"

section \<open>Namespace\<close>

definition ms_CreateFile :: "append_io \<Rightarrow> create_file_request option \<Rightarrow> 'w cluster \<Rightarrow> unit reply \<times> 'w cluster" where
  "ms_CreateFile io request c =
     (case request of
        None \<Rightarrow> (invalid ''Invalid create-file request'', c)
      | Some rq \<Rightarrow>
          if cf_request_path rq = [] then (invalid ''Invalid create-file request'', c)
          else relay ''Failed to create file'' (ma_CreateFile io (cf_request_path rq) (cf_replication_factor rq)) c)"

definition ms_CreateDirectory :: "append_io \<Rightarrow> string option \<Rightarrow> 'w cluster \<Rightarrow> unit reply \<times> 'w cluster" where
  "ms_CreateDirectory io request c =
     (case request of
        None \<Rightarrow> (invalid ''Invalid create-directory request'', c)
      | Some path \<Rightarrow>
          if path = [] then (invalid ''Invalid create-directory request'', c)
          else relay ''Failed to create directory'' (ma_CreateDirectory io path) c)"

definition ms_ListDirectory :: "string option \<Rightarrow> 'w cluster \<Rightarrow> (string \<times> bool) list reply \<times> 'w cluster" where
  "ms_ListDirectory request c =
     (case request of
        None \<Rightarrow> (respond False ''Invalid list-directory request'' [], c)
      | Some path \<Rightarrow>
          if path = [] then (respond False ''Invalid list-directory request'' [], c)
          else if \<not> ma_DirectoryExists (cl_master c) path then (respond False ''Directory not found'' [], c)
          else (respond True [] (map (\<lambda>entry. (ni_path entry, ni_type entry = Directory))
                  (ns_ListDirectory (ma_namespace (cl_master c)) path)), c))"

definition ms_CreateSnapshot :: "append_io \<Rightarrow> (string \<times> string) option \<Rightarrow> 'w cluster \<Rightarrow> unit reply \<times> 'w cluster" where
  "ms_CreateSnapshot io request c =
     (case request of
        None \<Rightarrow> (invalid ''Invalid create-snapshot request'', c)
      | Some (source_path, snapshot_path) \<Rightarrow>
          if source_path = [] \<or> snapshot_path = [] then (invalid ''Invalid create-snapshot request'', c)
          else relay ''Failed to create snapshot'' (ma_CreateSnapshot io source_path snapshot_path) c)"

definition ms_DeleteFile :: "append_io \<Rightarrow> string option \<Rightarrow> 'w cluster \<Rightarrow> unit reply \<times> 'w cluster" where
  "ms_DeleteFile io request c =
     (case request of
        None \<Rightarrow> (invalid ''Invalid delete-file request'', c)
      | Some path \<Rightarrow>
          if path = [] then (invalid ''Invalid delete-file request'', c)
          else relay ''Failed to delete file'' (ma_DeleteFile io path) c)"

definition ms_RenameFile :: "append_io \<Rightarrow> (string \<times> string) option \<Rightarrow> 'w cluster \<Rightarrow> unit reply \<times> 'w cluster" where
  "ms_RenameFile io request c =
     (case request of
        None \<Rightarrow> (invalid ''Invalid rename request'', c)
      | Some (source_path, destination_path) \<Rightarrow>
          if source_path = [] \<or> destination_path = [] then (invalid ''Invalid rename request'', c)
          else relay ''Failed to rename file'' (ma_RenameFile io source_path destination_path) c)"

definition ms_GetFileInfo :: "string option \<Rightarrow> 'w cluster \<Rightarrow> file_info option reply \<times> 'w cluster" where
  "ms_GetFileInfo request c =
     (case request of
        None \<Rightarrow> (respond False ''Invalid file-info request'' None, c)
      | Some path \<Rightarrow>
          if path = [] then (respond False ''Invalid file-info request'' None, c)
          else case ma_GetFile (cl_master c) path of
            None \<Rightarrow> (respond False ''File not found'' None, c)
          | Some f \<Rightarrow>
              (respond True [] (Some \<lparr>fi_path = fm_path f, fi_size = fm_size f, fi_replication_factor = fm_replication_factor f,
                 fi_chunk_handles = md_GetFileChunks (ma_metadata (cl_master c)) path\<rparr>), c))"

definition ms_UpdateFileSize :: "append_io \<Rightarrow> (string \<times> 64 word) option \<Rightarrow> 'w cluster \<Rightarrow> unit reply \<times> 'w cluster" where
  "ms_UpdateFileSize io request c =
     (case request of
        None \<Rightarrow> (invalid ''Invalid update-file-size request'', c)
      | Some (path, sz) \<Rightarrow>
          if path = [] then (invalid ''Invalid update-file-size request'', c)
          else relay ''Failed to update file size'' (ma_UpdateFileSize io path sz) c)"

section \<open>Chunks\<close>

text \<open>The addresses of the replicas, in their order; \<open>None\<close> when one has none.\<close>

fun endpoints_loop :: "'w cluster \<Rightarrow> server_id list \<Rightarrow> string list \<Rightarrow> string list option" where
  "endpoints_loop c [] addresses = Some addresses"
| "endpoints_loop c (server # servers) addresses =
     (case GetChunkserverEndpoint c server of
        None \<Rightarrow> None
      | Some endpoint \<Rightarrow> if endpoint = [] then None else endpoints_loop c servers (addresses @ [endpoint]))"

definition ms_GetChunkLocations :: "(string \<times> 64 word) option \<Rightarrow> 'w cluster \<Rightarrow> chunk_location option reply \<times> 'w cluster" where
  "ms_GetChunkLocations request c =
     (case request of
        None \<Rightarrow> (respond False ''Invalid chunk-location request'' None, c)
      | Some (path, chunk_index) \<Rightarrow>
          if path = [] then (respond False ''Invalid chunk-location request'' None, c)
          else
            let chunks = md_GetFileChunks (ma_metadata (cl_master c)) path in
            if unat chunk_index \<ge> length chunks then (respond False ''Chunk not found'' None, c)
            else
              let handle = chunks ! unat chunk_index in
              case md_GetChunk (ma_metadata (cl_master c)) handle of
                None \<Rightarrow> (respond False ''Chunk metadata not found'' None, c)
              | Some chunk \<Rightarrow>
                  let replicas = rm_GetReplicaServers (ma_replicas (cl_master c)) handle in
                  (case endpoints_loop c replicas [] of
                     None \<Rightarrow> (respond False ''Missing chunkserver endpoint'' None, c)
                   | Some addresses \<Rightarrow>
                       (respond True [] (Some \<lparr>lo_chunk_handle = handle, lo_version = cm_version chunk,
                          lo_replica_server_ids = replicas, lo_replica_addresses = addresses\<rparr>), c)))"

text \<open>An expired lease is described in the body although the call fails.\<close>

definition ms_GetLeaseHolder :: "time_ms \<Rightarrow> chunk_handle option \<Rightarrow> 'w cluster \<Rightarrow> lease option reply \<times> 'w cluster" where
  "ms_GetLeaseHolder now request c =
     (case request of
        None \<Rightarrow> (respond False ''Invalid lease request'' None, c)
      | Some handle \<Rightarrow>
          if handle = 0 then (respond False ''Invalid lease request'' None, c)
          else case lm_GetLease (ma_leases (cl_master c)) handle of
            None \<Rightarrow> (respond False ''Lease not found'' None, c)
          | Some l \<Rightarrow> (respond (ma_IsLeaseValid (cl_master c) now handle) ''Lease is no longer valid'' (Some l), c))"

text \<open>The chunk is created on the selected servers one after another; the first failure ends the loop.\<close>

fun create_replicas_loop :: "'w network \<Rightarrow> chunk_handle \<Rightarrow> chunk_version \<Rightarrow> string list \<Rightarrow> 'w \<Rightarrow> bool \<times> 'w" where
  "create_replicas_loop net handle version [] w = (True, w)"
| "create_replicas_loop net handle version (endpoint # endpoints) w =
     (case nw_CreateReplica net endpoint handle version w of
        (created, w) \<Rightarrow> if created \<noteq> Some True then (False, w) else create_replicas_loop net handle version endpoints w)"

definition live_candidates :: "master \<Rightarrow> placement_candidate list" where
  "live_candidates m =
     map (\<lambda>server. \<lparr>pl_server = server, pl_chunk_count = length (rm_GetChunksForServer (ma_replicas m) server)\<rparr>)
       (hb_GetLiveServers (ma_heartbeats m))"

definition ms_AllocateChunk ::
    "append_io \<Rightarrow> 'w network \<Rightarrow> string option \<Rightarrow> 'w cluster \<Rightarrow> chunk_location reply \<times> 'w cluster" where
  "ms_AllocateChunk io net request c =
     (case request of
        None \<Rightarrow> (respond False ''Invalid allocate-chunk request'' empty_location, c)
      | Some path \<Rightarrow>
          if path = [] then (respond False ''Invalid allocate-chunk request'' empty_location, c)
          else case on_master (ma_AllocateChunk io path) c of
            (None, c) \<Rightarrow> (respond False ''Failed to allocate chunk'' empty_location, c)
          | (Some handle, c) \<Rightarrow>
              let version = (case md_GetChunk (ma_metadata (cl_master c)) handle of None \<Rightarrow> 1 | Some chunk \<Rightarrow> cm_version chunk);
                  body = empty_location\<lparr>lo_chunk_handle := handle, lo_version := version\<rparr>;
                  factor = (case md_GetChunkReplicationFactor (ma_metadata (cl_master c)) handle of None \<Rightarrow> 0 | Some f \<Rightarrow> f) in
              if factor = 0 then (respond False ''Invalid chunk replication factor'' body, c)
              else case on_master (ma_PlaceChunkReplicas handle (live_candidates (cl_master c))) c of
                (replicas, c) \<Rightarrow>
                  if length replicas \<noteq> unat factor then (respond False ''Unable to place requested chunk replicas'' body, c)
                  else case endpoints_loop c replicas [] of
                    None \<Rightarrow> (respond False ''Missing chunkserver endpoint'' body, c)
                  | Some endpoints \<Rightarrow>
                      (case create_replicas_loop net handle version endpoints (cl_world c) of
                         (False, w) \<Rightarrow>
                           (respond False ''Failed to create chunk replica'' body, drop_replicas handle replicas (c\<lparr>cl_world := w\<rparr>))
                       | (True, w) \<Rightarrow>
                           (respond True [] (body\<lparr>lo_replica_server_ids := replicas, lo_replica_addresses := endpoints\<rparr>),
                            c\<lparr>cl_world := w\<rparr>)))"

section \<open>Heartbeats\<close>

definition ms_Heartbeat :: "heartbeat_request option \<Rightarrow> 'w cluster \<Rightarrow> unit reply \<times> 'w cluster" where
  "ms_Heartbeat request c =
     (case request of
        None \<Rightarrow> (invalid ''Invalid heartbeat request'', c)
      | Some rq \<Rightarrow>
          if hr_server_id rq = 0 then (invalid ''Invalid heartbeat request'', c)
          else if list_ex (\<lambda>report. rc_handle report = 0 \<or> rc_version report = 0) (hr_chunks rq)
          then (invalid ''Invalid chunk information'', c)
          else case on_master (ma_ProcessHeartbeat (hr_server_id rq) (hr_timestamp_ms rq) (hr_chunks rq)) c of
            (False, c) \<Rightarrow> (invalid ''Heartbeat rejected'', c)
          | (True, c) \<Rightarrow>
              if hr_server_address rq \<noteq> []
              then (case RegisterChunkserverEndpoint (hr_server_id rq) (hr_server_address rq) c of
                  (False, c) \<Rightarrow> (invalid ''Chunkserver endpoint registration failed'', c)
                | (True, c) \<Rightarrow> (respond True [] (), c))
              else (respond True [] (), c))"

section \<open>Allocation\<close>

text \<open>A placement is empty or has as many servers as the policy of the master says, all of them candidates.\<close>

lemma PlaceChunkReplicas_result:
  assumes "ma_PlaceChunkReplicas h cs m = (servers, m')"
  shows "servers = [] \<or> length servers = ma_policy m \<and> distinct servers \<and> set servers \<subseteq> pl_server ` set cs \<and> 0 \<notin> set servers"
    and "ma_metadata m' = ma_metadata m"
proof -
  define sel where "sel = ma_SelectReplicaServers m h cs"
  define s where "s = first_servers (sorted_candidates \<lparr>pr_handle = h, pr_replication_factor = ma_policy m, pr_candidates = cs\<rparr>) {}"
  have sel: "sel = (if 0 < ma_policy m \<and> ma_policy m \<le> length s then take (ma_policy m) s else [])"
    by (auto simp: sel_def s_def ma_SelectReplicaServers_def SelectReplicasFor_def SelectReplicas_eq request_factor_def Let_def)
  have "set s \<subseteq> pl_server ` set cs \<and> distinct s \<and> 0 \<notin> set s"
    unfolding s_def using first_servers_props [of "sorted_candidates \<lparr>pr_handle = h, pr_replication_factor = ma_policy m, pr_candidates = cs\<rparr>" "{}"]
    by (auto simp: sorted_candidates_def)
  then have "sel = [] \<or> length sel = ma_policy m \<and> distinct sel \<and> set sel \<subseteq> pl_server ` set cs \<and> 0 \<notin> set sel"
    using sel by (auto dest: in_set_takeD)
  moreover have "servers = sel \<or> servers = []"
    using assms by (auto simp: ma_PlaceChunkReplicas_def sel_def Let_def split: prod.splits if_splits)
  ultimately show "servers = [] \<or> length servers = ma_policy m \<and> distinct servers \<and> set servers \<subseteq> pl_server ` set cs \<and> 0 \<notin> set servers"
    by auto
  show "ma_metadata m' = ma_metadata m"
  proof (cases "sel = []")
    case False
    obtain ok m1 where p: "place_loop h sel False m = (ok, m1)" by fastforce
    have "m' = m1" using assms False p by (simp add: ma_PlaceChunkReplicas_def sel_def [symmetric])
    then show ?thesis using place_loop_core(1) [of h sel False m] p by simp
  qed (use assms in \<open>simp add: ma_PlaceChunkReplicas_def sel_def [symmetric]\<close>)
qed

lemma find_only:
  assumes "x \<in> set xs" "P x" and "\<And>y. y \<in> set xs \<Longrightarrow> P y \<Longrightarrow> y = x"
  shows "find P xs = Some x"
proof -
  obtain y where "find P xs = Some y" using assms(1,2) by (cases "find P xs") (auto simp: find_None_iff)
  moreover from this have "y \<in> set xs" "P y" by (auto simp: find_Some_iff)
  ultimately show ?thesis using assms(3) by blast
qed

text \<open>A new chunk is listed by its file alone and has the file's replication factor.\<close>

lemma AllocateChunk_result:
  assumes inv: "ma_inv m" and f: "md_GetFile (ma_metadata m) path = Some f"
    and r: "ma_AllocateChunk io path m = (Some h, m')"
  shows "h \<noteq> 0" "h \<in> set (md_GetFileChunks (ma_metadata m') path)"
    "md_GetChunkReplicationFactor (ma_metadata m') h = Some (fm_replication_factor f)" "ma_policy m' = ma_policy m"
    "md_GetChunk (ma_metadata m') h = Some (ChunkMetadata h 1)" "ma_heartbeats m' = ma_heartbeats m"
    "ma_replicas m' = ma_replicas m" "path \<noteq> []" "md_GetChunk (ma_metadata m) h = None"
    "md_GetFileChunks (ma_metadata m') path = md_GetFileChunks (ma_metadata m) path @ [h]"
proof -
  let ?md = "ma_metadata m" and ?h = "md_next (ma_metadata m)"
  let ?f = "f\<lparr>fm_chunk_handles := fm_chunk_handles f @ [h]\<rparr>"
  have md: "md_inv ?md" by (rule ma_invD(1) [OF inv])
  have f: "map_of (md_files ?md) path = Some f" using f by (simp add: md_GetFile_def)
  obtain ok m1 where log: "AppendOperation io OpAllocateChunk [path, to_string ?h, ''1'', ''0''] m = (ok, m1)" by fastforce
  have m1: "same_memory m m1" using AppendOperation_memory [of m io OpAllocateChunk "[path, to_string ?h, ''1'', ''0'']"] log by simp
  obtain b md2 where alloc: "md_AllocateChunk ?md path ?h 1 0 = (b, md2)" by fastforce
  have res: "h = ?h \<and> ok \<and> b \<and> m' = m1\<lparr>ma_metadata := md2\<rparr> \<and> ?h \<noteq> 0"
    using r log alloc same_memory_fields(1) [OF m1]
    by (auto simp: ma_AllocateChunk_def Let_def and_then_eq on_metadata_def split: if_splits)
  then have h: "path \<noteq> []" "\<not> md_ChunkExists ?md h"
    and md2: "md2 = snd (md_bump_next (md_put_file (md_put_chunk ?md h ((ChunkMetadata h 1)\<lparr>cm_size := 0\<rparr>)) path ?f) h)"
    using alloc f by (auto simp: md_AllocateChunk_eq [OF md] split: if_splits)
  have files: "md_files md2 = AList.update path ?f (md_files ?md)" and chunks: "md_chunks md2 = AList.update h (ChunkMetadata h 1) (md_chunks ?md)"
    by (auto simp: md2 md_field_defs md_bump_next_def ChunkMetadata_def Let_def)
  show "h \<noteq> 0" "path \<noteq> []" using res h by simp_all
  show "md_GetChunk (ma_metadata m) h = None" using h(2) by (simp add: md_GetChunk_def md_ChunkExists_def)
  show "md_GetFileChunks (ma_metadata m') path = md_GetFileChunks ?md path @ [h]"
    using res files f by (simp add: md_GetFileChunks_def update_conv')
  show "h \<in> set (md_GetFileChunks (ma_metadata m') path)" using res files by (simp add: md_GetFileChunks_def update_conv')
  show "md_GetChunk (ma_metadata m') h = Some (ChunkMetadata h 1)" using res chunks by (simp add: md_GetChunk_def update_conv')
  show "ma_policy m' = ma_policy m" "ma_heartbeats m' = ma_heartbeats m" "ma_replicas m' = ma_replicas m"
    using res same_memory_fields [OF m1] by simp_all
  have dist: "distinct (map fst (AList.update path ?f (md_files ?md)))" using md by (simp add: md_inv_def md_shape_def distinct_update)
  have "find (\<lambda>(path, f). HasChunk f h) (md_files md2) = Some (path, ?f)"
  proof (rule find_only)
    show "(path, ?f) \<in> set (md_files md2)" unfolding files by (rule map_of_SomeD) (simp add: update_conv')
    fix y assume y: "y \<in> set (md_files md2)" "case y of (path, f) \<Rightarrow> HasChunk f h"
    obtain p g where pg: "y = (p, g)" by fastforce
    have "((map_of (md_files ?md))(path \<mapsto> ?f)) p = Some g"
      using map_of_is_SomeI [OF dist, of p g] y(1) by (simp add: pg files update_conv')
    moreover have "HasChunk g h" using y(2) pg by simp
    ultimately show "y = (path, ?f)"
      using md_file_chunks [OF md, of p g h] h(2) by (auto simp: pg HasChunk_def split: if_splits)
  qed (simp add: HasChunk_def)
  then show "md_GetChunkReplicationFactor (ma_metadata m') h = Some (fm_replication_factor f)"
    using res chunks by (simp add: md_GetChunkReplicationFactor_def md_ChunkExists_def update_conv')
qed

lemma place_loop_registers:
  "rm_inv (ma_replicas m) \<Longrightarrow> 0 \<notin> set servers \<Longrightarrow> h \<noteq> 0 \<Longrightarrow> place_loop h servers p m = (True, m') \<Longrightarrow>
    (\<forall>s \<in> set servers. rm_HasReplica (ma_replicas m') h s) \<and>
    (\<forall>s. rm_HasReplica (ma_replicas m) h s \<longrightarrow> rm_HasReplica (ma_replicas m') h s)"
proof (induction servers arbitrary: p m)
  case (Cons s servers)
  obtain b m1 where reg: "ma_RegisterReplica h s (\<not> p) m = (b, m1)" by fastforce
  have b: "b" and rest: "place_loop h servers True m1 = (True, m')" using Cons.prems(4) reg by (auto simp: and_then_eq split: if_splits)
  have m1: "ma_replicas m1 = snd (rm_RegisterReplica (ma_replicas m) h s (\<not> p))"
    using reg by (auto simp: ma_RegisterReplica_def on_replicas_def split: prod.splits)
  have s: "s \<noteq> 0" using Cons.prems(2) by auto
  have "rm_inv (ma_replicas m1)" unfolding m1 by (rule rm_RegisterReplica_inv [OF Cons.prems(1)])
  note IH = Cons.IH [OF this _ Cons.prems(3) rest]
  have "rm_HasReplica (ma_replicas m1) h s" "rm_HasReplica (ma_replicas m) h s' \<Longrightarrow> rm_HasReplica (ma_replicas m1) h s'" for s'
    unfolding m1 using RegisterReplica_has [OF Cons.prems(3) s] by simp_all
  then show ?case using IH Cons.prems(2) by auto
qed simp

lemma endpoints_loop_result:
  "endpoints_loop c servers as = Some bs \<Longrightarrow>
    \<exists>cs. bs = as @ cs \<and> map (GetChunkserverEndpoint c) servers = map Some cs \<and> [] \<notin> set cs"
proof (induction servers arbitrary: as)
  case (Cons s servers)
  then obtain a where a: "GetChunkserverEndpoint c s = Some a" "a \<noteq> []" "endpoints_loop c servers (as @ [a]) = Some bs"
    by (auto split: option.splits if_splits)
  then obtain cs where "bs = (as @ [a]) @ cs" "map (GetChunkserverEndpoint c) servers = map Some cs" "[] \<notin> set cs"
    using Cons.IH [OF a(3)] by blast
  then show ?case using a by (intro exI [of _ "a # cs"]) simp
qed simp

text \<open>The servers at the addresses have got the chunk; what they had of it is untouched.\<close>

lemma create_replicas_loop_result:
  "remotes_ok w \<Longrightarrow> h \<noteq> 0 \<Longrightarrow> create_replicas_loop service_network h v addrs w = (True, w') \<Longrightarrow>
    (\<forall>a t. w a = Some t \<longrightarrow> (\<exists>t'. w' a = Some t' \<and> contents t' h = contents t h \<and> (cv_bytes t h \<noteq> None \<longrightarrow> cv_bytes t' h \<noteq> None))) \<and>
    (\<forall>a \<in> set addrs. \<exists>t t'. w a = Some t \<and> w' a = Some t' \<and> cv_bytes t' h = Some (contents t h))"
proof (induction addrs arbitrary: w)
  case (Cons a addrs)
  let ?rq = "Some \<lparr>cr_chunk_handle = h, cr_chunk_version = v\<rparr>"
  obtain t where t: "w a = Some t"
    using Cons.prems(3) by (cases "w a") (simp_all add: service_network_def call_at_def)
  obtain res t1 where call: "svc_CreateReplica ?rq t = (res, t1)" by fastforce
  have inv: "cv_inv t" using Cons.prems(1) t by (simp add: remotes_ok_def)
  note made = svc_CreateReplica_result [OF inv Cons.prems(2) call]
  let ?w = "w(a \<mapsto> t1)"
  have rest: "create_replicas_loop service_network h v addrs ?w = (True, w')"
    using Cons.prems(3) t call made(2) by (simp add: service_network_def call_at_def)
  have "remotes_ok ?w" using Cons.prems(1) made(1) by (auto simp: remotes_ok_def)
  note IH = Cons.IH [OF this Cons.prems(2) rest]
  have t1: "cv_bytes t1 h = Some (contents t h)" "contents t1 h = contents t h" using made(3) by (simp_all add: contents_def)
  obtain t' where t': "w' a = Some t'" "contents t' h = contents t h" "cv_bytes t' h \<noteq> None"
    using IH [THEN conjunct1, rule_format, of a t1] t1 by auto
  have a: "cv_bytes t' h = Some (contents t h)" using t'(2,3) by (auto simp: contents_def)
  have keep: "\<exists>t'. w' b = Some t' \<and> contents t' h = contents s h \<and> (cv_bytes s h \<noteq> None \<longrightarrow> cv_bytes t' h \<noteq> None)"
    if "w b = Some s" for b s
  proof (cases "b = a")
    case True
    then show ?thesis using t' t that by auto
  next
    case False
    then show ?thesis using IH [THEN conjunct1, rule_format, of b s] that by simp
  qed
  have "\<exists>t t'. w b = Some t \<and> w' b = Some t' \<and> cv_bytes t' h = Some (contents t h)" if "b \<in> set addrs" for b
  proof (cases "b = a")
    case True
    then show ?thesis using t t'(1) a by blast
  next
    case False
    then show ?thesis using IH [THEN conjunct2, rule_format, OF that] by simp
  qed
  then show ?case using keep t t'(1) a by auto
qed auto

lemma ms_AllocateChunk_found:
  assumes inv: "ma_inv (cl_master c)" and f: "md_GetFile (ma_metadata (cl_master c)) path = Some f"
    and al: "ma_AllocateChunk io path (cl_master c) = (Some h, m1)"
    and place: "ma_PlaceChunkReplicas h (live_candidates m1) m1 = (servers, m2)"
  shows "ms_AllocateChunk io net (Some path) c =
    (let body = empty_location\<lparr>lo_chunk_handle := h, lo_version := 1\<rparr>; n = unat (fm_replication_factor f); c2 = c\<lparr>cl_master := m2\<rparr> in
     if n = 0 then (respond False ''Invalid chunk replication factor'' body, c\<lparr>cl_master := m1\<rparr>)
     else if length servers \<noteq> n then (respond False ''Unable to place requested chunk replicas'' body, c2)
     else case endpoints_loop c2 servers [] of
       None \<Rightarrow> (respond False ''Missing chunkserver endpoint'' body, c2)
     | Some endpoints \<Rightarrow>
         (case create_replicas_loop net h 1 endpoints (cl_world c) of
            (False, w) \<Rightarrow> (respond False ''Failed to create chunk replica'' body, drop_replicas h servers (c2\<lparr>cl_world := w\<rparr>))
          | (True, w) \<Rightarrow> (respond True [] (body\<lparr>lo_replica_server_ids := servers, lo_replica_addresses := endpoints\<rparr>),
                c2\<lparr>cl_world := w\<rparr>)))"
proof -
  note res = AllocateChunk_result [OF inv f al]
  have "unat (fm_replication_factor f) = 0 \<longleftrightarrow> fm_replication_factor f = 0" by (simp add: unat_eq_0)
  then show ?thesis
    using al place res(3,5,8) unfolding ms_AllocateChunk_def on_master_def
    by (simp add: ChunkMetadata_def Let_def split: option.split prod.split bool.split)
qed

lemma drop_replicas_world [simp]: "cl_world (drop_replicas h servers c) = cl_world c"
proof -
  have "cl_world (fold (\<lambda>s c. snd (on_master (ma_RemoveReplica h s) c)) servers c) = cl_world c"
    by (induction servers arbitrary: c) (simp_all add: on_master_eq)
  then show ?thesis by (simp add: drop_replicas_def)
qed

section \<open>A cluster with one server\<close>

definition one_server_master :: "32 word \<Rightarrow> master" where
  "one_server_master factor = snd (ma_ProcessHeartbeat 7 1000 [] (snd (ma_CreateFile io_ok ''/f'' factor (new_master True True (\<lambda>_. None) 1 []))))"

definition one_server :: "32 word \<Rightarrow> chunkserver \<Rightarrow> remotes cluster" where
  "one_server factor s = \<lparr>cl_master = one_server_master factor, cl_chunkservers = [], cl_endpoints = [(7, ''a'')],
     cl_heap = \<lambda>_. s, cl_world = [''a'' \<mapsto> s]\<rparr>"

definition placed_by :: "chunk_handle option \<times> master \<Rightarrow> server_id list" where
  "placed_by r = (case r of (None, m) \<Rightarrow> [] | (Some h, m) \<Rightarrow> fst (ma_PlaceChunkReplicas h (live_candidates m) m))"

lemma one_server_eq:
  "map_option fm_replication_factor (md_GetFile (ma_metadata (one_server_master 1)) ''/f'') = Some 1"
  "map_option fm_replication_factor (md_GetFile (ma_metadata (one_server_master 2)) ''/f'') = Some 2"
  "ma_policy (one_server_master 1) = 1" "ma_policy (one_server_master 2) = 1"
  "fst (ma_AllocateChunk io_ok ''/f'' (one_server_master 1)) = Some 1"
  "fst (ma_AllocateChunk io_ok ''/f'' (one_server_master 2)) = Some 1"
  "placed_by (ma_AllocateChunk io_ok ''/f'' (one_server_master 1)) = [7]"
  "placed_by (ma_AllocateChunk io_ok ''/f'' (one_server_master 2)) = [7]"
  by code_simp+

lemma one_server_inv: "ma_inv (one_server_master factor)"
proof -
  have "masters.reachable True True (\<lambda>_. None) 1 [] (snd (ma_exec (MaCreateFile io_ok ''/f'' factor) (new_master True True (\<lambda>_. None) 1 [])))"
    by (intro masters.reachable.intros)
  then show ?thesis using masters.reachable_inv by (simp add: one_server_master_def ma_ProcessHeartbeat_inv)
qed

lemma one_server_file:
  assumes "factor \<in> {1, 2}"
  obtains f where "md_GetFile (ma_metadata (one_server_master factor)) ''/f'' = Some f" "fm_replication_factor f = factor"
  using assms one_server_eq(1,2) by (cases "md_GetFile (ma_metadata (one_server_master factor)) ''/f''") auto

text \<open>With the replica on a server that can create it, the call gives the answer of the first branch.\<close>

lemma one_server_allocates:
  assumes "factor \<in> {1, 2}" and inv: "cv_inv s"
  shows "\<exists>m2 s'. ms_AllocateChunk io_ok service_network (Some ''/f'') (one_server factor s) =
    (if factor = 1 then (respond True [] \<lparr>lo_chunk_handle = 1, lo_version = 1, lo_replica_server_ids = [7], lo_replica_addresses = [''a'']\<rparr>,
       (one_server factor s)\<lparr>cl_master := m2, cl_world := [''a'' \<mapsto> s']\<rparr>)
     else (respond False ''Unable to place requested chunk replicas'' (empty_location\<lparr>lo_chunk_handle := 1, lo_version := 1\<rparr>),
       (one_server factor s)\<lparr>cl_master := m2\<rparr>))"
proof -
  obtain f where f: "md_GetFile (ma_metadata (one_server_master factor)) ''/f'' = Some f" "fm_replication_factor f = factor"
    using one_server_file [OF assms(1)] by blast
  obtain m1 where al: "ma_AllocateChunk io_ok ''/f'' (one_server_master factor) = (Some 1, m1)"
    using assms one_server_eq(5,6) by (metis insertE prod.collapse singletonD)
  obtain servers m2 where pl: "ma_PlaceChunkReplicas 1 (live_candidates m1) m1 = (servers, m2)" by fastforce
  have servers: "servers = [7]" using assms one_server_eq(7,8) al pl by (auto simp: placed_by_def)
  obtain res s' where cr: "svc_CreateReplica (Some \<lparr>cr_chunk_handle = 1, cr_chunk_version = 1\<rparr>) s = (res, s')" by fastforce
  have "res = Inr (respond True [] ())" using svc_CreateReplica_result(2) [OF inv _ cr] by simp
  then have made: "create_replicas_loop service_network 1 1 [''a''] [''a'' \<mapsto> s] = (True, [''a'' \<mapsto> s'])"
    by (simp add: service_network_def call_at_def cr)
  have m: "cl_master (one_server factor s) = one_server_master factor" "cl_world (one_server factor s) = [''a'' \<mapsto> s]"
    by (simp_all add: one_server_def)
  have inv': "ma_inv (cl_master (one_server factor s))" by (simp add: m one_server_inv)
  have f': "md_GetFile (ma_metadata (cl_master (one_server factor s))) ''/f'' = Some f" using f(1) by (simp add: m)
  have al': "ma_AllocateChunk io_ok ''/f'' (cl_master (one_server factor s)) = (Some 1, m1)" using al by (simp add: m)
  have ends: "endpoints_loop ((one_server factor s)\<lparr>cl_master := m2\<rparr>) [7] [] = Some [''a'']"
    by (simp add: one_server_def GetChunkserverEndpoint_def)
  have "ms_AllocateChunk io_ok service_network (Some ''/f'') (one_server factor s) =
    (if factor = 1 then (respond True [] \<lparr>lo_chunk_handle = 1, lo_version = 1, lo_replica_server_ids = [7], lo_replica_addresses = [''a'']\<rparr>,
       (one_server factor s)\<lparr>cl_master := m2, cl_world := [''a'' \<mapsto> s']\<rparr>)
     else (respond False ''Unable to place requested chunk replicas'' (empty_location\<lparr>lo_chunk_handle := 1, lo_version := 1\<rparr>),
       (one_server factor s)\<lparr>cl_master := m2\<rparr>))"
    unfolding ms_AllocateChunk_found [OF inv' f' al' pl] Let_def f(2) servers ends m(2) option.case made prod.case bool.case
    using assms(1) by (auto simp: empty_location_def)
  then show ?thesis by blast
qed

section \<open>Properties\<close>

text \<open>C19: Allocation through the network works for files with the replication factor of the master's policy alone:
  \<open>PlaceChunkReplicas\<close> chooses as many servers as the policy says, and the handler then refuses any other
  number than the file's factor. The refused call asks no chunkserver for anything, but when it has got as far as a
  handle, the file keeps the chunk.\<close>
theorem allocation_needs_policy_factor:
  assumes inv: "ma_inv (cl_master c)" and f: "md_GetFile (ma_metadata (cl_master c)) path = Some f"
    and factor: "unat (fm_replication_factor f) \<noteq> ma_policy (cl_master c)"
    and r: "ms_AllocateChunk io net (Some path) c = (reply, c')"
  shows "\<not> rp_success reply \<and> cl_world c' = cl_world c \<and>
    (lo_chunk_handle (rp_body reply) \<noteq> 0 \<longrightarrow>
      lo_chunk_handle (rp_body reply) \<in> set (md_GetFileChunks (ma_metadata (cl_master c')) path))"
proof (cases "fst (ma_AllocateChunk io path (cl_master c))")
  case None
  then obtain m1 where "ma_AllocateChunk io path (cl_master c) = (None, m1)" by (metis prod.collapse)
  then show ?thesis using r by (auto simp: ms_AllocateChunk_def on_master_def empty_location_def split: if_splits)
next
  case (Some h)
  then obtain m1 where al: "ma_AllocateChunk io path (cl_master c) = (Some h, m1)" by (metis prod.collapse)
  obtain servers m2 where place: "ma_PlaceChunkReplicas h (live_candidates m1) m1 = (servers, m2)" by fastforce
  note res = AllocateChunk_result [OF inv f al] and placed = PlaceChunkReplicas_result [OF place]
  have "length servers \<noteq> unat (fm_replication_factor f)" if "unat (fm_replication_factor f) \<noteq> 0"
    using placed(1) factor res(4) that by auto
  then have "(\<exists>msg. reply = respond False msg (empty_location\<lparr>lo_chunk_handle := h, lo_version := 1\<rparr>)) \<and>
      (c' = c\<lparr>cl_master := m1\<rparr> \<or> c' = c\<lparr>cl_master := m2\<rparr>)"
    using r unfolding ms_AllocateChunk_found [OF inv f al place] Let_def by (auto split: if_splits)
  then have "\<not> rp_success reply" "lo_chunk_handle (rp_body reply) = h" "c' = c\<lparr>cl_master := m1\<rparr> \<or> c' = c\<lparr>cl_master := m2\<rparr>"
    by (auto simp: respond_def)
  then show ?thesis using res(2) placed(2) by auto
qed

theorem allocation_needs_policy_factor_witness:
  "\<exists>(c :: remotes cluster) reply c'. ms_AllocateChunk io_ok service_network (Some ''/f'') c = (reply, c') \<and>
     lo_chunk_handle (rp_body reply) = 1 \<and> \<not> rp_success reply \<and> 1 \<in> set (md_GetFileChunks (ma_metadata (cl_master c')) ''/f'')"
proof -
  obtain s where s: "cv_inv s" using sample_server by blast
  obtain m2 where al: "ms_AllocateChunk io_ok service_network (Some ''/f'') (one_server 2 s) =
      (respond False ''Unable to place requested chunk replicas'' (empty_location\<lparr>lo_chunk_handle := 1, lo_version := 1\<rparr>),
       (one_server 2 s)\<lparr>cl_master := m2\<rparr>)"
    using one_server_allocates [OF _ s, of 2] by auto
  obtain f where f: "md_GetFile (ma_metadata (one_server_master 2)) ''/f'' = Some f" "fm_replication_factor f = 2"
    using one_server_file [of 2] by blast
  have m: "cl_master (one_server 2 s) = one_server_master 2" by (simp add: one_server_def)
  show ?thesis
    using allocation_needs_policy_factor [OF _ _ _ al, of f] al by (fastforce simp: m one_server_inv f one_server_eq)
qed

text \<open>C18: A chunk allocated through the network can be written: a successful call returns as many distinct live
  servers as the master's policy says and the file asks for, each with its registered address; they are
  replicas of a chunk that did not exist and is now the last one of the file, and each of the chunkservers at the addresses has the chunk, with what it
  had of it before.\<close>
theorem allocated_chunk_is_placed:
  assumes inv: "ma_inv (cl_master c)" and f: "md_GetFile (ma_metadata (cl_master c)) path = Some f"
    and w: "remotes_ok (cl_world c)"
    and r: "ms_AllocateChunk io service_network (Some path) c = (reply, c')" and ok: "rp_success reply"
  shows "\<exists>h servers addresses. lo_chunk_handle (rp_body reply) = h \<and> lo_replica_server_ids (rp_body reply) = servers \<and>
    lo_replica_addresses (rp_body reply) = addresses \<and> md_GetChunk (ma_metadata (cl_master c)) h = None \<and>
    md_GetFileChunks (ma_metadata (cl_master c')) path = md_GetFileChunks (ma_metadata (cl_master c)) path @ [h] \<and>
    length servers = ma_policy (cl_master c) \<and> length servers = unat (fm_replication_factor f) \<and> distinct servers \<and>
    set servers \<subseteq> set (hb_GetLiveServers (ma_heartbeats (cl_master c))) \<and>
    (\<forall>s \<in> set servers. rm_HasReplica (ma_replicas (cl_master c')) h s) \<and>
    map (GetChunkserverEndpoint c) servers = map Some addresses \<and>
    (\<forall>a \<in> set addresses. \<exists>t t'. cl_world c a = Some t \<and> cl_world c' a = Some t' \<and> cv_bytes t' h = Some (contents t h))"
proof -
  obtain o1 m0 where "ma_AllocateChunk io path (cl_master c) = (o1, m0)" by fastforce
  then obtain h m1 where al: "ma_AllocateChunk io path (cl_master c) = (Some h, m1)"
    using r ok by (cases o1) (auto simp: ms_AllocateChunk_def on_master_def split: if_splits)
  obtain servers m2 where place: "ma_PlaceChunkReplicas h (live_candidates m1) m1 = (servers, m2)" by fastforce
  note res = AllocateChunk_result [OF inv f al] and placed = PlaceChunkReplicas_result [OF place]
  define body where "body = empty_location\<lparr>lo_chunk_handle := h, lo_version := 1\<rparr>"
  obtain addrs w' where n: "unat (fm_replication_factor f) \<noteq> 0" "length servers = unat (fm_replication_factor f)"
    and addrs: "endpoints_loop (c\<lparr>cl_master := m2\<rparr>) servers [] = Some addrs"
    and made: "create_replicas_loop service_network h 1 addrs (cl_world c) = (True, w')"
    and out: "reply = respond True [] (body\<lparr>lo_replica_server_ids := servers, lo_replica_addresses := addrs\<rparr>)"
      "c' = c\<lparr>cl_master := m2, cl_world := w'\<rparr>"
    using r ok unfolding ms_AllocateChunk_found [OF inv f al place] Let_def body_def
    by (auto split: if_splits option.splits prod.splits bool.splits)
  have nonempty: "servers \<noteq> []" using n by auto
  have "map pl_server (live_candidates m1) = hb_GetLiveServers (ma_heartbeats (cl_master c))"
    by (simp add: live_candidates_def comp_def res(6))
  then have "pl_server ` set (live_candidates m1) = set (hb_GetLiveServers (ma_heartbeats (cl_master c)))"
    by (metis set_map)
  then have servers: "length servers = ma_policy (cl_master c)" "distinct servers" "0 \<notin> set servers"
      "set servers \<subseteq> set (hb_GetLiveServers (ma_heartbeats (cl_master c)))"
    using placed(1) nonempty res(4) by auto
  have "place_loop h servers False m1 = (True, m2)"
    using place nonempty by (auto simp: ma_PlaceChunkReplicas_def Let_def split: prod.splits if_splits)
  then have reg: "\<forall>s \<in> set servers. rm_HasReplica (ma_replicas m2) h s"
    using place_loop_registers [of m1 servers h False m2] servers(3) res(1,7) ma_inv_tablesD(1) [OF inv] by simp
  have same: "GetChunkserverEndpoint (c\<lparr>cl_master := m2\<rparr>) = GetChunkserverEndpoint c"
    by (simp add: GetChunkserverEndpoint_def fun_eq_iff)
  have ends: "map (GetChunkserverEndpoint c) servers = map Some addrs"
    using endpoints_loop_result [OF addrs] by (simp add: same)
  have "\<forall>a \<in> set addrs. \<exists>t t'. cl_world c a = Some t \<and> w' a = Some t' \<and> cv_bytes t' h = Some (contents t h)"
    using create_replicas_loop_result [OF w res(1) made] by blast
  then show ?thesis using res(9,10) placed(2) servers n(2) reg ends by (simp add: out body_def)
qed

theorem allocated_chunk_is_placed_witness:
  "\<exists>c reply c' t'. ms_AllocateChunk io_ok service_network (Some ''/f'') c = (reply, c') \<and>
     lo_replica_addresses (rp_body reply) = [''a''] \<and> cl_world c' ''a'' = Some t' \<and> cv_bytes t' 1 = Some []"
proof -
  obtain s where s: "cv_inv s" "cv_bytes s = [5 \<mapsto> ''abcd'']" using sample_server by blast
  let ?body = "\<lparr>lo_chunk_handle = 1, lo_version = 1, lo_replica_server_ids = [7], lo_replica_addresses = [''a'']\<rparr>"
  obtain m2 s' where al: "ms_AllocateChunk io_ok service_network (Some ''/f'') (one_server 1 s) =
      (respond True [] ?body, (one_server 1 s)\<lparr>cl_master := m2, cl_world := [''a'' \<mapsto> s']\<rparr>)"
    using one_server_allocates [OF _ s(1), of 1] by auto
  obtain f where f: "md_GetFile (ma_metadata (one_server_master 1)) ''/f'' = Some f" using one_server_file [of 1] by blast
  have m: "cl_master (one_server 1 s) = one_server_master 1" "cl_world (one_server 1 s) = [''a'' \<mapsto> s]" by (simp_all add: one_server_def)
  have "cv_bytes s' 1 = Some (contents s 1)"
    using allocated_chunk_is_placed [OF _ _ _ al, of f] by (simp add: m one_server_inv f remotes_ok_def s(1))
  moreover have "contents s 1 = []" using s(2) by (simp add: contents_def)
  ultimately show ?thesis using al by (intro exI [of _ "one_server 1 s"] exI) (simp, auto)
qed

end
