(* ===== verification/MasterClient.thy ===== *)
theory MasterClient
  imports MasterService
begin

text \<open>
  \<open>src/client/metadata\<close> and \<open>src/client/retry\<close>: the client of the master, its cache of chunk locations and the retry
  policy. The stub of the RPC library is the record \<open>master_stub\<close>: what a call to the master at an address does to the
  world, \<open>None\<close> standing for a status that is not ok. A function that may be empty in C++ is an option. The steady
  clock is an effect on the world too; it counts nanoseconds.
\<close>

section \<open>Data\<close>

record replica_location =
  rl_server_id :: server_id
  rl_address :: string

record chunk_info =
  ci_handle :: chunk_handle
  ci_index :: chunk_index
  ci_locations :: "replica_location list"
  ci_version :: chunk_version

record file_view =
  fv_path :: file_path
  fv_size :: "64 word"
  fv_chunk_count :: "64 word"
  fv_replication_factor :: "32 word"
  fv_chunk_handles :: "chunk_handle list"

record directory_entry =
  de_path :: string
  de_directory :: bool

section \<open>The client of the master\<close>

record 'w master_stub =
  st_GetFileInfo :: "string \<Rightarrow> string \<Rightarrow> 'w \<Rightarrow> file_info option reply option \<times> 'w"
  st_GetChunkLocations :: "string \<Rightarrow> string \<times> 64 word \<Rightarrow> 'w \<Rightarrow> chunk_location option reply option \<times> 'w"
  st_AllocateChunk :: "string \<Rightarrow> string \<Rightarrow> 'w \<Rightarrow> chunk_location reply option \<times> 'w"
  st_CreateFile :: "string \<Rightarrow> create_file_request \<Rightarrow> 'w \<Rightarrow> unit reply option \<times> 'w"
  st_CreateDirectory :: "string \<Rightarrow> string \<Rightarrow> 'w \<Rightarrow> unit reply option \<times> 'w"
  st_ListDirectory :: "string \<Rightarrow> string \<Rightarrow> 'w \<Rightarrow> (string \<times> bool) list reply option \<times> 'w"
  st_DeleteFile :: "string \<Rightarrow> string \<Rightarrow> 'w \<Rightarrow> unit reply option \<times> 'w"
  st_RenameFile :: "string \<Rightarrow> string \<times> string \<Rightarrow> 'w \<Rightarrow> unit reply option \<times> 'w"
  st_CreateSnapshot :: "string \<Rightarrow> string \<times> string \<Rightarrow> 'w \<Rightarrow> unit reply option \<times> 'w"
  st_UpdateFileSize :: "string \<Rightarrow> string \<times> 64 word \<Rightarrow> 'w \<Rightarrow> unit reply option \<times> 'w"

type_synonym 'w file_lookup = "file_path \<Rightarrow> 'w \<Rightarrow> file_view option \<times> 'w"
type_synonym 'w chunk_lookup = "file_path \<Rightarrow> chunk_index \<Rightarrow> 'w \<Rightarrow> chunk_info option \<times> 'w"

record 'w master_client =
  mc_master_address :: string
  mc_file_lookup :: "'w file_lookup option"
  mc_chunk_lookup :: "'w chunk_lookup option"
  mc_chunk_allocator :: "'w chunk_lookup option"

definition MasterClient :: "string \<Rightarrow> 'w master_client" where
  "MasterClient address =
     \<lparr>mc_master_address = address, mc_file_lookup = None, mc_chunk_lookup = None, mc_chunk_allocator = None\<rparr>"

definition IsConfigured :: "'w master_client \<Rightarrow> bool" where
  "IsConfigured mc \<longleftrightarrow> mc_master_address mc \<noteq> [] \<or> mc_file_lookup mc \<noteq> None \<and> mc_chunk_lookup mc \<noteq> None"

text \<open>What a call returned: nothing after a bad status or a refusal.\<close>

definition answered :: "('a \<Rightarrow> 'b) \<Rightarrow> 'a reply option \<Rightarrow> 'b option" where
  "answered f r = (case r of None \<Rightarrow> None | Some reply \<Rightarrow> if rp_success reply then Some (f (rp_body reply)) else None)"

definition accepted :: "'a reply option \<Rightarrow> bool" where
  "accepted r = (case r of None \<Rightarrow> False | Some reply \<Rightarrow> rp_success reply)"

text \<open>A field that the response does not set has the default of its message.\<close>

definition file_view_of :: "file_info option \<Rightarrow> file_view" where
  "file_view_of body =
     (case body of
        None \<Rightarrow> \<lparr>fv_path = [], fv_size = 0, fv_chunk_count = 0, fv_replication_factor = 0, fv_chunk_handles = []\<rparr>
      | Some f \<Rightarrow> \<lparr>fv_path = fi_path f, fv_size = fi_size f, fv_chunk_count = of_nat (length (fi_chunk_handles f)),
          fv_replication_factor = fi_replication_factor f, fv_chunk_handles = fi_chunk_handles f\<rparr>)"

definition locations_of :: "server_id list \<Rightarrow> string list \<Rightarrow> replica_location list" where
  "locations_of servers addresses =
     map (\<lambda>i. \<lparr>rl_server_id = servers ! i, rl_address = (if i < length addresses then addresses ! i else [])\<rparr>)
       [0..<length servers]"

definition chunk_info_of :: "chunk_index \<Rightarrow> chunk_location \<Rightarrow> chunk_info" where
  "chunk_info_of index body =
     \<lparr>ci_handle = lo_chunk_handle body, ci_index = index,
      ci_locations = locations_of (lo_replica_server_ids body) (lo_replica_addresses body), ci_version = lo_version body\<rparr>"

definition mc_LookupFile :: "'w master_stub \<Rightarrow> 'w master_client \<Rightarrow> 'w file_lookup" where
  "mc_LookupFile stub mc path w =
     (if path = [] then (None, w)
      else case mc_file_lookup mc of
        Some lookup \<Rightarrow> lookup path w
      | None \<Rightarrow>
          if mc_master_address mc = [] then (None, w)
          else case st_GetFileInfo stub (mc_master_address mc) path w of (r, w) \<Rightarrow> (answered file_view_of r, w))"

definition mc_LookupChunk :: "'w master_stub \<Rightarrow> 'w master_client \<Rightarrow> 'w chunk_lookup" where
  "mc_LookupChunk stub mc path chunk_index w =
     (if path = [] then (None, w)
      else case mc_chunk_lookup mc of
        Some lookup \<Rightarrow> lookup path chunk_index w
      | None \<Rightarrow>
          if mc_master_address mc = [] then (None, w)
          else case st_GetChunkLocations stub (mc_master_address mc) (path, chunk_index) w of
            (r, w) \<Rightarrow>
              (answered (\<lambda>body. chunk_info_of chunk_index (case body of None \<Rightarrow> empty_location | Some l \<Rightarrow> l)) r, w))"

definition mc_LookupChunkHandle ::
    "'w master_stub \<Rightarrow> 'w master_client \<Rightarrow> file_path \<Rightarrow> chunk_index \<Rightarrow> 'w \<Rightarrow> chunk_handle option \<times> 'w" where
  "mc_LookupChunkHandle stub mc path chunk_index w =
     (case mc_LookupChunk stub mc path chunk_index w of (chunk, w) \<Rightarrow> (map_option ci_handle chunk, w))"

definition mc_LookupChunkLocations ::
    "'w master_stub \<Rightarrow> 'w master_client \<Rightarrow> file_path \<Rightarrow> chunk_index \<Rightarrow> 'w \<Rightarrow> replica_location list \<times> 'w" where
  "mc_LookupChunkLocations stub mc path chunk_index w =
     (case mc_LookupChunk stub mc path chunk_index w of
        (None, w) \<Rightarrow> ([], w)
      | (Some chunk, w) \<Rightarrow> (ci_locations chunk, w))"

text \<open>Without an allocator only the chunk behind the last one is allocated.\<close>

definition mc_AllocateChunk :: "'w master_stub \<Rightarrow> 'w master_client \<Rightarrow> 'w chunk_lookup" where
  "mc_AllocateChunk stub mc path chunk_index w =
     (if path = [] then (None, w)
      else case mc_chunk_allocator mc of
        Some allocate \<Rightarrow> allocate path chunk_index w
      | None \<Rightarrow>
          (case mc_LookupFile stub mc path w of
             (None, w) \<Rightarrow> (None, w)
           | (Some f, w) \<Rightarrow>
               if chunk_index \<noteq> fv_chunk_count f then (None, w)
               else if mc_master_address mc = [] then (None, w)
               else case st_AllocateChunk stub (mc_master_address mc) path w of
                 (r, w) \<Rightarrow> (answered (chunk_info_of chunk_index) r, w)))"

text \<open>The calls that only pass on a request: refused for an empty path, and without an address.\<close>

definition mc_call :: "'w master_client \<Rightarrow> string list \<Rightarrow> (string \<Rightarrow> 'w \<Rightarrow> 'a reply option \<times> 'w) \<Rightarrow> 'w \<Rightarrow> 'a reply option \<times> 'w" where
  "mc_call mc paths rpc w =
     (if list_ex (\<lambda>path. path = []) paths \<or> mc_master_address mc = [] then (None, w) else rpc (mc_master_address mc) w)"

definition mc_CreateFile :: "'w master_stub \<Rightarrow> 'w master_client \<Rightarrow> file_path \<Rightarrow> 32 word \<Rightarrow> 'w \<Rightarrow> bool \<times> 'w" where
  "mc_CreateFile stub mc path replication_factor w =
     (case mc_call mc [path] (\<lambda>a. st_CreateFile stub a \<lparr>cf_request_path = path, cf_replication_factor = replication_factor\<rparr>) w of
        (r, w) \<Rightarrow> (accepted r, w))"

definition mc_CreateDirectory :: "'w master_stub \<Rightarrow> 'w master_client \<Rightarrow> file_path \<Rightarrow> 'w \<Rightarrow> bool \<times> 'w" where
  "mc_CreateDirectory stub mc path w =
     (case mc_call mc [path] (\<lambda>a. st_CreateDirectory stub a path) w of (r, w) \<Rightarrow> (accepted r, w))"

definition mc_ListDirectory :: "'w master_stub \<Rightarrow> 'w master_client \<Rightarrow> file_path \<Rightarrow> 'w \<Rightarrow> directory_entry list \<times> 'w" where
  "mc_ListDirectory stub mc path w =
     (case mc_call mc [path] (\<lambda>a. st_ListDirectory stub a path) w of
        (r, w) \<Rightarrow>
          (case answered (map (\<lambda>(p, d). \<lparr>de_path = p, de_directory = d\<rparr>)) r of None \<Rightarrow> [] | Some entries \<Rightarrow> entries, w))"

definition mc_DeleteFile :: "'w master_stub \<Rightarrow> 'w master_client \<Rightarrow> file_path \<Rightarrow> 'w \<Rightarrow> bool \<times> 'w" where
  "mc_DeleteFile stub mc path w =
     (case mc_call mc [path] (\<lambda>a. st_DeleteFile stub a path) w of (r, w) \<Rightarrow> (accepted r, w))"

definition mc_RenameFile :: "'w master_stub \<Rightarrow> 'w master_client \<Rightarrow> file_path \<Rightarrow> file_path \<Rightarrow> 'w \<Rightarrow> bool \<times> 'w" where
  "mc_RenameFile stub mc source_path destination_path w =
     (case mc_call mc [source_path, destination_path] (\<lambda>a. st_RenameFile stub a (source_path, destination_path)) w of
        (r, w) \<Rightarrow> (accepted r, w))"

definition mc_CreateSnapshot :: "'w master_stub \<Rightarrow> 'w master_client \<Rightarrow> file_path \<Rightarrow> file_path \<Rightarrow> 'w \<Rightarrow> bool \<times> 'w" where
  "mc_CreateSnapshot stub mc source_path snapshot_path w =
     (case mc_call mc [source_path, snapshot_path] (\<lambda>a. st_CreateSnapshot stub a (source_path, snapshot_path)) w of
        (r, w) \<Rightarrow> (accepted r, w))"

definition mc_UpdateFileSize :: "'w master_stub \<Rightarrow> 'w master_client \<Rightarrow> file_path \<Rightarrow> 64 word \<Rightarrow> 'w \<Rightarrow> bool \<times> 'w" where
  "mc_UpdateFileSize stub mc path sz w =
     (case mc_call mc [path] (\<lambda>a. st_UpdateFileSize stub a (path, sz)) w of (r, w) \<Rightarrow> (accepted r, w))"

section \<open>The cache of chunk locations\<close>

type_synonym 'w clock = "'w \<Rightarrow> int \<times> 'w"

record cache_entry =
  ce_handle :: chunk_handle
  ce_chunk_index :: chunk_index
  ce_locations :: "replica_location list"
  ce_inserted_at :: int

type_synonym cache_key = "file_path \<times> chunk_index"

record location_cache =
  lc_entries :: "(cache_key \<times> cache_entry) list"
  lc_ttl :: int

definition ChunkLocationCache :: "int \<Rightarrow> location_cache" where
  "ChunkLocationCache ttl = \<lparr>lc_entries = [], lc_ttl = ttl\<rparr>"

text \<open>The time to live is in seconds.\<close>

definition lc_IsExpired :: "'w clock \<Rightarrow> location_cache \<Rightarrow> cache_entry \<Rightarrow> 'w \<Rightarrow> bool \<times> 'w" where
  "lc_IsExpired clock lc entry w =
     (if lc_ttl lc = 0 then (False, w)
      else case clock w of (now, w) \<Rightarrow> (now - ce_inserted_at entry \<ge> lc_ttl lc * 1000000000, w))"

definition lc_Insert ::
    "'w clock \<Rightarrow> file_path \<Rightarrow> chunk_index \<Rightarrow> cache_entry \<Rightarrow> location_cache \<Rightarrow> 'w \<Rightarrow> bool \<times> location_cache \<times> 'w" where
  "lc_Insert clock path chunk_index entry lc w =
     (if path = [] \<or> ce_handle entry = 0 then (False, lc, w)
      else
        let copy = entry\<lparr>ce_chunk_index := chunk_index\<rparr>;
            (copy, w) = (if ce_inserted_at copy = 0 then case clock w of (now, w) \<Rightarrow> (copy\<lparr>ce_inserted_at := now\<rparr>, w)
              else (copy, w)) in
        (True, lc\<lparr>lc_entries := AList.update (path, chunk_index) copy (lc_entries lc)\<rparr>, w))"

definition lc_InsertLocations ::
    "'w clock \<Rightarrow> file_path \<Rightarrow> chunk_index \<Rightarrow> chunk_handle \<Rightarrow> replica_location list \<Rightarrow> location_cache \<Rightarrow> 'w \<Rightarrow>
      bool \<times> location_cache \<times> 'w" where
  "lc_InsertLocations clock path chunk_index handle locations lc w =
     (case clock w of (now, w) \<Rightarrow>
        lc_Insert clock path chunk_index
          \<lparr>ce_handle = handle, ce_chunk_index = chunk_index, ce_locations = locations, ce_inserted_at = now\<rparr> lc w)"

definition lc_Lookup ::
    "'w clock \<Rightarrow> file_path \<Rightarrow> chunk_index \<Rightarrow> location_cache \<Rightarrow> 'w \<Rightarrow> cache_entry option \<times> 'w" where
  "lc_Lookup clock path chunk_index lc w =
     (if path = [] then (None, w)
      else case map_of (lc_entries lc) (path, chunk_index) of
        None \<Rightarrow> (None, w)
      | Some entry \<Rightarrow> (case lc_IsExpired clock lc entry w of (expired, w) \<Rightarrow> (if expired then None else Some entry, w)))"

definition lc_LookupHandle ::
    "'w clock \<Rightarrow> file_path \<Rightarrow> chunk_index \<Rightarrow> location_cache \<Rightarrow> 'w \<Rightarrow> chunk_handle option \<times> 'w" where
  "lc_LookupHandle clock path chunk_index lc w =
     (case lc_Lookup clock path chunk_index lc w of (entry, w) \<Rightarrow> (map_option ce_handle entry, w))"

definition lc_LookupLocations ::
    "'w clock \<Rightarrow> file_path \<Rightarrow> chunk_index \<Rightarrow> location_cache \<Rightarrow> 'w \<Rightarrow> replica_location list \<times> 'w" where
  "lc_LookupLocations clock path chunk_index lc w =
     (case lc_Lookup clock path chunk_index lc w of
        (None, w) \<Rightarrow> ([], w)
      | (Some entry, w) \<Rightarrow> (ce_locations entry, w))"

definition lc_Invalidate :: "file_path \<Rightarrow> chunk_index \<Rightarrow> location_cache \<Rightarrow> bool \<times> location_cache" where
  "lc_Invalidate path chunk_index lc =
     (if path = [] then (False, lc)
      else (map_of (lc_entries lc) (path, chunk_index) \<noteq> None,
            lc\<lparr>lc_entries := AList.delete (path, chunk_index) (lc_entries lc)\<rparr>))"

definition lc_InvalidateFile :: "file_path \<Rightarrow> location_cache \<Rightarrow> location_cache" where
  "lc_InvalidateFile path lc =
     (if path = [] then lc else lc\<lparr>lc_entries := filter (\<lambda>((p, i), e). p \<noteq> path) (lc_entries lc)\<rparr>)"

definition lc_Clear :: "location_cache \<Rightarrow> location_cache" where
  "lc_Clear lc = lc\<lparr>lc_entries := []\<rparr>"

definition lc_Size :: "location_cache \<Rightarrow> nat" where
  "lc_Size lc = length (lc_entries lc)"

definition lc_Empty :: "location_cache \<Rightarrow> bool" where
  "lc_Empty lc \<longleftrightarrow> lc_entries lc = []"

definition lc_SetTtl :: "int \<Rightarrow> location_cache \<Rightarrow> location_cache" where
  "lc_SetTtl ttl lc = lc\<lparr>lc_ttl := (if ttl < 0 then 0 else ttl)\<rparr>"

section \<open>The retry policy\<close>

definition RetryPolicy :: "64 word \<Rightarrow> 64 word" where
  "RetryPolicy max_attempts = (if max_attempts = 0 then 1 else max_attempts)"

definition CanRetry :: "64 word \<Rightarrow> 64 word \<Rightarrow> bool" where
  "CanRetry max_attempts attempts_used \<longleftrightarrow> attempts_used < max_attempts"

section \<open>What the cache returns\<close>

lemma lc_Insert_lookup:
  assumes "lc_Insert clock path i e lc w = (True, lc', w')" and "lc_ttl lc = 0"
  shows "\<exists>t. lc_Lookup clock p j lc' v =
    (if p = path \<and> j = i then (Some (e\<lparr>ce_chunk_index := i, ce_inserted_at := t\<rparr>), v) else lc_Lookup clock p j lc v)"
proof -
  obtain t where "path \<noteq> []" "lc' = lc\<lparr>lc_entries := AList.update (path, i) (e\<lparr>ce_chunk_index := i, ce_inserted_at := t\<rparr>) (lc_entries lc)\<rparr>"
    using assms(1) by (cases e) (auto simp: lc_Insert_def Let_def split: if_splits prod.splits)
  then show ?thesis using assms(2) by (intro exI [of _ t]) (simp add: lc_Lookup_def lc_IsExpired_def split: option.split)
qed

lemma lc_Lookup_forever:
  "lc_ttl lc = 0 \<Longrightarrow> path \<noteq> [] \<Longrightarrow> lc_Lookup clock path i lc w = (map_of (lc_entries lc) (path, i), w)"
  by (auto simp: lc_Lookup_def lc_IsExpired_def split: option.splits)

lemma lc_Lookup_expired:
  assumes "map_of (lc_entries lc) (path, i) = Some e" and "path \<noteq> []" and "0 < lc_ttl lc" and "clock w = (now, w')"
  shows "lc_Lookup clock path i lc w = (if now < ce_inserted_at e + lc_ttl lc * 1000000000 then Some e else None, w')"
  using assms by (auto simp: lc_Lookup_def lc_IsExpired_def)

lemma lc_Invalidate_lookup:
  "path \<noteq> [] \<Longrightarrow> lc_Lookup clock p j (snd (lc_Invalidate path i lc)) w =
    (if p = path \<and> j = i then (None, w) else lc_Lookup clock p j lc w)"
  by (auto simp: lc_Lookup_def lc_Invalidate_def lc_IsExpired_def split: option.splits)

end
