(* ===== verification/ClientIO.thy ===== *)
theory ClientIO
  imports MasterClient
begin

text \<open>
  \<open>src/client/io\<close>: the reader, the writer and the record appender of the client library. Each of them turns an operation
  on a file into operations on its chunks: it finds the chunk in the cache of locations or asks the master, and calls
  a function that it has been given for the transfer itself. Such a function is an effect on the world, and \<open>None\<close>
  when it is empty. The cache and the world are the state; \<open>backend\<close> holds what does not change.
\<close>

type_synonym 'w io_state = "location_cache \<times> 'w"

record 'w backend =
  be_stub :: "'w master_stub"
  be_clock :: "'w clock"
  be_master_client :: "'w master_client"

section \<open>Finding a chunk\<close>

abbreviation cached_entry :: "'w backend \<Rightarrow> file_path \<Rightarrow> chunk_index \<Rightarrow> 'w io_state \<Rightarrow> cache_entry option \<times> 'w" where
  "cached_entry be path chunk_index st \<equiv> lc_Lookup (be_clock be) path chunk_index (fst st) (snd st)"

text \<open>What happens with the answer of the master: an entry is built, inserted and returned.\<close>

definition enter_chunk ::
    "'w backend \<Rightarrow> file_path \<Rightarrow> chunk_index \<Rightarrow> chunk_info option \<Rightarrow> 'w io_state \<Rightarrow> (bool \<times> cache_entry) option \<times> 'w io_state" where
  "enter_chunk be path chunk_index chunk st =
     (case chunk of
        None \<Rightarrow> (None, st)
      | Some chunk \<Rightarrow>
          if ci_handle chunk = 0 \<or> ci_locations chunk = [] then (None, st)
          else case be_clock be (snd st) of (now, w) \<Rightarrow>
            let entry = \<lparr>ce_handle = ci_handle chunk, ce_chunk_index = chunk_index, ce_locations = ci_locations chunk, ce_inserted_at = now\<rparr> in
            case lc_Insert (be_clock be) path chunk_index entry (fst st) w of
              (inserted, lc, w) \<Rightarrow> (Some (inserted, entry), lc, w))"

definition ResolveChunk :: "'w backend \<Rightarrow> file_path \<Rightarrow> chunk_index \<Rightarrow> 'w io_state \<Rightarrow> cache_entry option \<times> 'w io_state" where
  "ResolveChunk be path chunk_index st =
     (case cached_entry be path chunk_index st of
        (Some entry, w) \<Rightarrow> (Some entry, fst st, w)
      | (None, w) \<Rightarrow>
          (case mc_LookupChunk (be_stub be) (be_master_client be) path chunk_index w of
             (chunk, w) \<Rightarrow>
               (case enter_chunk be path chunk_index chunk (fst st, w) of (r, st) \<Rightarrow> (map_option snd r, st))))"

text \<open>The writer and the appender allocate a chunk that the master does not find.\<close>

definition find_or_allocate ::
    "'w backend \<Rightarrow> file_path \<Rightarrow> chunk_index \<Rightarrow> 'w io_state \<Rightarrow> (bool \<times> cache_entry) option \<times> 'w io_state" where
  "find_or_allocate be path chunk_index st =
     (case cached_entry be path chunk_index st of
        (Some entry, w) \<Rightarrow> (Some (True, entry), fst st, w)
      | (None, w) \<Rightarrow>
          (case mc_LookupChunk (be_stub be) (be_master_client be) path chunk_index w of
             (None, w) \<Rightarrow>
               (case mc_AllocateChunk (be_stub be) (be_master_client be) path chunk_index w of
                  (chunk, w) \<Rightarrow> enter_chunk be path chunk_index chunk (fst st, w))
           | (Some chunk, w) \<Rightarrow> enter_chunk be path chunk_index (Some chunk) (fst st, w)))"

definition wt_ResolveOrAllocateChunk ::
    "'w backend \<Rightarrow> file_path \<Rightarrow> chunk_index \<Rightarrow> 'w io_state \<Rightarrow> cache_entry option \<times> 'w io_state" where
  "wt_ResolveOrAllocateChunk be path chunk_index st =
     (case find_or_allocate be path chunk_index st of (r, st) \<Rightarrow> (map_option snd r, st))"

text \<open>The appender also fails when the cache refuses the entry.\<close>

definition ra_ResolveOrAllocateChunk ::
    "'w backend \<Rightarrow> file_path \<Rightarrow> chunk_index \<Rightarrow> 'w io_state \<Rightarrow> cache_entry option \<times> 'w io_state" where
  "ra_ResolveOrAllocateChunk be path chunk_index st =
     (case find_or_allocate be path chunk_index st of
        (Some (True, entry), st) \<Rightarrow> (Some entry, st)
      | (_, st) \<Rightarrow> (None, st))"

definition invalidate :: "file_path \<Rightarrow> chunk_index \<Rightarrow> 'w io_state \<Rightarrow> 'w io_state" where
  "invalidate path chunk_index st = (snd (lc_Invalidate path chunk_index (fst st)), snd st)"

section \<open>Reader\<close>

type_synonym 'w read_function =
  "replica_location \<Rightarrow> chunk_handle \<Rightarrow> 64 word \<Rightarrow> 64 word \<Rightarrow> 'w \<Rightarrow> string option \<times> 'w"

text \<open>The first location that answers decides, with a refusal when the answer has another length.\<close>

fun read_replicas ::
    "'w read_function \<Rightarrow> chunk_handle \<Rightarrow> 64 word \<Rightarrow> 64 word \<Rightarrow> replica_location list \<Rightarrow> 'w \<Rightarrow> (bool \<times> string) \<times> 'w" where
  "read_replicas rfn handle offset len [] w = ((False, []), w)"
| "read_replicas rfn handle offset len (location # locations) w =
     (if rl_server_id location = 0 then read_replicas rfn handle offset len locations w
      else case rfn location handle offset len w of
        (Some candidate, w) \<Rightarrow> ((length candidate = unat len, candidate), w)
      | (None, w) \<Rightarrow> read_replicas rfn handle offset len locations w)"

definition ReadFromChunkserver ::
    "'w read_function option \<Rightarrow> cache_entry \<Rightarrow> 64 word \<Rightarrow> 64 word \<Rightarrow> 'w \<Rightarrow> (bool \<times> string) \<times> 'w" where
  "ReadFromChunkserver rfn entry offset len w =
     (case rfn of
        None \<Rightarrow> ((False, []), w)
      | Some rfn \<Rightarrow>
          if ce_handle entry = 0 \<or> ce_locations entry = [] then ((False, []), w)
          else read_replicas rfn (ce_handle entry) offset len (ce_locations entry) w)"

lemma boundary_positive: "(0 :: 64 word) < kChunkSize - offset mod kChunkSize"
proof -
  have k: "unat kChunkSize = 2 ^ 26" by (simp add: kChunkSize_def)
  have "unat (offset mod kChunkSize) < 2 ^ 26" using k by (simp add: unat_mod)
  then show ?thesis using k by (simp add: word_less_nat_alt word_le_nat_alt unat_sub)
qed

lemma piece_measure:
  "0 < remaining \<Longrightarrow> unat (remaining - min (kChunkSize - offset mod kChunkSize) remaining :: 64 word) < unat remaining"
  using boundary_positive [of offset]
  by (auto simp: unat_sub min_def word_less_nat_alt word_le_nat_alt)

function rd_loop ::
    "'w backend \<Rightarrow> 'w read_function option \<Rightarrow> file_path \<Rightarrow> 64 word \<Rightarrow> 64 word \<Rightarrow> string \<Rightarrow> 'w io_state \<Rightarrow> (bool \<times> string) \<times> 'w io_state" where
  "rd_loop be rfn path current_offset remaining data st =
     (if remaining = 0 then ((True, data), st)
      else
        let chunk_index = current_offset div kChunkSize;
            chunk_offset = current_offset mod kChunkSize;
            request_length = min (kChunkSize - chunk_offset) remaining in
        case ResolveChunk be path chunk_index st of
          (None, st) \<Rightarrow> ((False, []), st)
        | (Some entry, st) \<Rightarrow>
            (case ReadFromChunkserver rfn entry chunk_offset request_length (snd st) of
               ((ok, chunk_data), w) \<Rightarrow>
                 if \<not> ok then ((False, []), fst st, w)
                 else rd_loop be rfn path (current_offset + request_length) (remaining - request_length) (data @ chunk_data) (fst st, w)))"
  by pat_completeness auto

termination rd_loop
  by (relation "measure (\<lambda>(be, rfn, path, off, remaining, data, st). unat remaining)")
    (auto intro!: piece_measure simp: word_gt_0)

declare rd_loop.simps [simp del]

definition ReadSequential ::
    "'w backend \<Rightarrow> 'w read_function option \<Rightarrow> file_path \<Rightarrow> 64 word \<Rightarrow> 64 word \<Rightarrow> 'w io_state \<Rightarrow> (bool \<times> string) \<times> 'w io_state" where
  "ReadSequential be rfn path offset len st =
     (if path = [] then ((False, []), st)
      else if len = 0 then ((True, []), st)
      else case rd_loop be rfn path offset len [] st of
        ((ok, data), st) \<Rightarrow> if ok then ((length data = unat len, data), st) else ((False, data), st))"

definition rd_Read ::
    "'w backend \<Rightarrow> 'w read_function option \<Rightarrow> file_path \<Rightarrow> 64 word \<Rightarrow> 64 word \<Rightarrow> 'w io_state \<Rightarrow> (bool \<times> string) \<times> 'w io_state" where
  "rd_Read be rfn path offset len st =
     (if path = [] then ((False, []), st)
      else if len = 0 then ((True, []), st)
      else case mc_LookupFile (be_stub be) (be_master_client be) path (snd st) of
        (None, w) \<Rightarrow> ((False, []), fst st, w)
      | (Some f, w) \<Rightarrow>
          if offset > fv_size f then ((False, []), fst st, w)
          else if offset = fv_size f then ((True, []), fst st, w)
          else ReadSequential be rfn path offset (min (fv_size f - offset) len) (fst st, w))"

definition rd_ReadChunk ::
    "'w backend \<Rightarrow> 'w read_function option \<Rightarrow> file_path \<Rightarrow> chunk_index \<Rightarrow> 64 word \<Rightarrow> 64 word \<Rightarrow> 'w io_state \<Rightarrow>
      (bool \<times> string) \<times> 'w io_state" where
  "rd_ReadChunk be rfn path chunk_index chunk_offset len st =
     (if path = [] \<or> len = 0 \<or> chunk_offset > kChunkSize \<or> chunk_offset + len > kChunkSize then ((False, []), st)
      else case ResolveChunk be path chunk_index st of
        (None, st) \<Rightarrow> ((False, []), st)
      | (Some entry, st) \<Rightarrow>
          (case ReadFromChunkserver rfn entry chunk_offset len (snd st) of (r, w) \<Rightarrow> (r, fst st, w)))"

section \<open>Writer\<close>

type_synonym 'w write_function =
  "replica_location \<Rightarrow> chunk_handle \<Rightarrow> 64 word \<Rightarrow> string \<Rightarrow> 'w \<Rightarrow> bool \<times> 'w"

record 'w writer =
  wt_write_function :: "'w write_function option"
  wt_file_size_updater :: "(file_path \<Rightarrow> 64 word \<Rightarrow> 'w \<Rightarrow> bool \<times> 'w) option"
  wt_chunk_size_updater :: "(chunk_handle \<Rightarrow> 64 word \<Rightarrow> 'w \<Rightarrow> bool \<times> 'w) option"
  wt_copy_on_write_function :: "(file_path \<Rightarrow> chunk_index \<Rightarrow> chunk_handle \<Rightarrow> 'w \<Rightarrow> bool \<times> 'w) option"

text \<open>The first location that takes the data decides.\<close>

fun write_replicas ::
    "'w writer \<Rightarrow> 'w write_function \<Rightarrow> chunk_handle \<Rightarrow> 64 word \<Rightarrow> string \<Rightarrow> replica_location list \<Rightarrow> 'w \<Rightarrow> bool \<times> 'w" where
  "write_replicas wt wfn handle offset data [] w = (False, w)"
| "write_replicas wt wfn handle offset data (location # locations) w =
     (if rl_server_id location = 0 then write_replicas wt wfn handle offset data locations w
      else case wfn location handle offset data w of
        (True, w) \<Rightarrow>
          (case wt_chunk_size_updater wt of
             None \<Rightarrow> (True, w)
           | Some update \<Rightarrow> update handle (offset + of_nat (length data)) w)
      | (False, w) \<Rightarrow> write_replicas wt wfn handle offset data locations w)"

definition WriteToChunkserver :: "'w writer \<Rightarrow> cache_entry \<Rightarrow> 64 word \<Rightarrow> string \<Rightarrow> 'w \<Rightarrow> bool \<times> 'w" where
  "WriteToChunkserver wt entry offset data w =
     (case wt_write_function wt of
        None \<Rightarrow> (False, w)
      | Some wfn \<Rightarrow>
          if ce_handle entry = 0 \<or> ce_locations entry = [] \<or> data = [] then (False, w)
          else write_replicas wt wfn (ce_handle entry) offset data (ce_locations entry) w)"

text \<open>The chunk to write: resolved, and once more after the copy-on-write function has run, if there is one.\<close>

definition writable_chunk ::
    "'w backend \<Rightarrow> 'w writer \<Rightarrow> file_path \<Rightarrow> chunk_index \<Rightarrow> 'w io_state \<Rightarrow> cache_entry option \<times> 'w io_state" where
  "writable_chunk be wt path chunk_index st =
     (case wt_ResolveOrAllocateChunk be path chunk_index st of
        (None, st) \<Rightarrow> (None, st)
      | (Some entry, st) \<Rightarrow>
          (case wt_copy_on_write_function wt of
             None \<Rightarrow> (Some entry, st)
           | Some cow \<Rightarrow>
               (case cow path chunk_index (ce_handle entry) (snd st) of
                  (False, w) \<Rightarrow> (None, fst st, w)
                | (True, w) \<Rightarrow> wt_ResolveOrAllocateChunk be path chunk_index (invalidate path chunk_index (fst st, w)))))"

definition wt_WriteChunk ::
    "'w backend \<Rightarrow> 'w writer \<Rightarrow> file_path \<Rightarrow> chunk_index \<Rightarrow> 64 word \<Rightarrow> string \<Rightarrow> 'w io_state \<Rightarrow> bool \<times> 'w io_state" where
  "wt_WriteChunk be wt path chunk_index chunk_offset data st =
     (if path = [] \<or> data = [] \<or> chunk_offset > kChunkSize \<or> chunk_offset + of_nat (length data) > kChunkSize then (False, st)
      else case writable_chunk be wt path chunk_index st of
        (None, st) \<Rightarrow> (False, st)
      | (Some entry, st) \<Rightarrow>
          (case WriteToChunkserver wt entry chunk_offset data (snd st) of (ok, w) \<Rightarrow> (ok, fst st, w)))"

text \<open>\<open>data\<close> is what is left to write.\<close>

function write_loop ::
    "'w backend \<Rightarrow> 'w writer \<Rightarrow> file_path \<Rightarrow> 64 word \<Rightarrow> string \<Rightarrow> 'w io_state \<Rightarrow> bool \<times> 'w io_state" where
  "write_loop be wt path current_offset data st =
     (if data = [] then (True, st)
      else
        let chunk_index = current_offset div kChunkSize;
            chunk_offset = current_offset mod kChunkSize;
            write_length = min (unat (kChunkSize - chunk_offset)) (length data) in
        case writable_chunk be wt path chunk_index st of
          (None, st) \<Rightarrow> (False, st)
        | (Some entry, st) \<Rightarrow>
            (case WriteToChunkserver wt entry chunk_offset (take write_length data) (snd st) of
               (False, w) \<Rightarrow> (False, fst st, w)
             | (True, w) \<Rightarrow> write_loop be wt path (current_offset + of_nat write_length) (drop write_length data) (fst st, w)))"
  by pat_completeness auto

termination write_loop
proof (relation "measure (\<lambda>(be, wt, path, off, data, st). length data)", goal_cases)
  case (2 be wt path current_offset data st)
  then show ?case using boundary_positive [of current_offset] by (auto simp: word_less_nat_alt)
qed simp

declare write_loop.simps [simp del]

definition WriteSequential ::
    "'w backend \<Rightarrow> 'w writer \<Rightarrow> file_path \<Rightarrow> 64 word \<Rightarrow> string \<Rightarrow> 'w io_state \<Rightarrow> bool \<times> 'w io_state" where
  "WriteSequential be wt path offset data st =
     (if path = [] \<or> data = [] then (False, st)
      else case write_loop be wt path offset data st of
        (False, st) \<Rightarrow> (False, st)
      | (True, st) \<Rightarrow>
          (case wt_file_size_updater wt of
             None \<Rightarrow> (True, st)
           | Some update \<Rightarrow>
               (case update path (offset + of_nat (length data)) (snd st) of (ok, w) \<Rightarrow> (ok, fst st, w))))"

definition wt_Write ::
    "'w backend \<Rightarrow> 'w writer \<Rightarrow> file_path \<Rightarrow> 64 word \<Rightarrow> string \<Rightarrow> 'w io_state \<Rightarrow> bool \<times> 'w io_state" where
  "wt_Write be wt path offset data st =
     (if path = [] then (False, st) else if data = [] then (True, st) else WriteSequential be wt path offset data st)"

section \<open>Record appender\<close>

datatype client_append_status = ClientSuccess | ClientRetryNextChunk | ClientFailed

record client_append_result =
  cr_status :: client_append_status
  cr_offset :: "64 word"
  cr_chunk_size :: "64 word"
  cr_bytes_appended :: nat

type_synonym 'w append_function =
  "file_path \<Rightarrow> replica_location \<Rightarrow> chunk_handle \<Rightarrow> chunk_version \<Rightarrow> replica_location list \<Rightarrow> string \<Rightarrow> 'w \<Rightarrow>
    client_append_result \<times> 'w"

record 'w record_appender =
  ra_append_function :: "'w append_function option"
  ra_lease_validator :: "(chunk_handle \<Rightarrow> server_id \<Rightarrow> 'w \<Rightarrow> bool \<times> 'w) option"
  ra_primary_selector :: "(chunk_handle \<Rightarrow> replica_location list \<Rightarrow> 'w \<Rightarrow> server_id option \<times> 'w) option"
  ra_file_size_updater :: "(file_path \<Rightarrow> 64 word \<Rightarrow> 'w \<Rightarrow> bool \<times> 'w) option"
  ra_chunk_size_updater :: "(chunk_handle \<Rightarrow> 64 word \<Rightarrow> 'w \<Rightarrow> bool \<times> 'w) option"
  ra_max_attempts :: "64 word"

definition SelectPrimary ::
    "'w record_appender \<Rightarrow> chunk_handle \<Rightarrow> replica_location list \<Rightarrow> 'w \<Rightarrow> server_id option \<times> 'w" where
  "SelectPrimary ra handle replicas w =
     (if handle = 0 \<or> replicas = [] then (None, w)
      else case ra_primary_selector ra of
        Some select \<Rightarrow> select handle replicas w
      | None \<Rightarrow> (map_option rl_server_id (find (\<lambda>r. rl_server_id r \<noteq> 0) replicas), w))"

definition ValidateLease :: "'w record_appender \<Rightarrow> chunk_handle \<Rightarrow> server_id \<Rightarrow> 'w \<Rightarrow> bool \<times> 'w" where
  "ValidateLease ra handle primary w =
     (if handle = 0 \<or> primary = 0 then (False, w)
      else case ra_lease_validator ra of None \<Rightarrow> (True, w) | Some validate \<Rightarrow> validate handle primary w)"

text \<open>Telling the chunk size: skipped for size zero and without an updater.\<close>

definition tell_chunk_size :: "'w record_appender \<Rightarrow> chunk_handle \<Rightarrow> 64 word \<Rightarrow> 'w \<Rightarrow> bool \<times> 'w" where
  "tell_chunk_size ra handle sz w =
     (if sz = 0 then (True, w) else case ra_chunk_size_updater ra of None \<Rightarrow> (True, w) | Some update \<Rightarrow> update handle sz w)"

text \<open>After a successful append: what \<open>Append\<close> returns and the offset it reports.\<close>

definition finish_append ::
    "'w record_appender \<Rightarrow> file_path \<Rightarrow> string \<Rightarrow> file_view \<Rightarrow> chunk_index \<Rightarrow> chunk_handle \<Rightarrow> client_append_result \<Rightarrow> 'w \<Rightarrow>
      (bool \<times> 64 word) \<times> 'w" where
  "finish_append ra path data f chunk_index handle result w =
     (let chunk_base = chunk_index * kChunkSize in
      if cr_offset result > u64_max - chunk_base then ((False, 0), w)
      else
        let global_offset = chunk_base + cr_offset result in
        if global_offset > u64_max - of_nat (length data) then ((False, 0), w)
        else
          let end_offset = global_offset + of_nat (length data) in
          case tell_chunk_size ra handle (cr_chunk_size result) w of
            (False, w) \<Rightarrow> ((False, 0), w)
          | (True, w) \<Rightarrow>
              (case (case ra_file_size_updater ra of
                       None \<Rightarrow> (True, w)
                     | Some update \<Rightarrow> update path (if fv_size f > end_offset then fv_size f else end_offset) w) of
                 (False, w) \<Rightarrow> ((False, 0), w)
               | (True, w) \<Rightarrow> ((cr_bytes_appended result = length data, global_offset), w)))"

definition try_again :: "file_path \<Rightarrow> chunk_index \<Rightarrow> chunk_index \<Rightarrow> 'w io_state \<Rightarrow> ('r + chunk_index) \<times> 'w io_state" where
  "try_again path chunk_index next_index st = (Inr next_index, invalidate path chunk_index st)"

text \<open>One turn of the loop: \<open>Inl\<close> is a return, \<open>Inr\<close> the chunk index of the next turn.\<close>

definition append_turn ::
    "'w backend \<Rightarrow> 'w record_appender \<Rightarrow> 'w append_function \<Rightarrow> file_path \<Rightarrow> string \<Rightarrow> file_view \<Rightarrow> chunk_index \<Rightarrow> 64 word \<Rightarrow> 'w io_state \<Rightarrow>
      ((bool \<times> 64 word) + chunk_index) \<times> 'w io_state" where
  "append_turn be ra afn path data f chunk_index attempts st =
     (case ra_ResolveOrAllocateChunk be path chunk_index st of
        (None, st) \<Rightarrow> (if \<not> CanRetry (ra_max_attempts ra) attempts then Inl (False, 0) else Inr chunk_index, st)
      | (Some entry, st) \<Rightarrow>
          if ce_locations entry = [] \<or> ce_handle entry = 0 then try_again path chunk_index chunk_index st
          else case SelectPrimary ra (ce_handle entry) (ce_locations entry) (snd st) of
            (None, w) \<Rightarrow> try_again path chunk_index chunk_index (fst st, w)
          | (Some primary, w) \<Rightarrow>
              (case ValidateLease ra (ce_handle entry) primary w of
                 (False, w) \<Rightarrow> try_again path chunk_index chunk_index (fst st, w)
               | (True, w) \<Rightarrow>
                   (case find (\<lambda>location. rl_server_id location = primary) (ce_locations entry) of
                      None \<Rightarrow> try_again path chunk_index chunk_index (fst st, w)
                    | Some location \<Rightarrow>
                        (case mc_LookupChunk (be_stub be) (be_master_client be) path chunk_index w of
                           (None, w) \<Rightarrow> try_again path chunk_index chunk_index (fst st, w)
                         | (Some chunk, w) \<Rightarrow>
                             if ci_handle chunk \<noteq> ce_handle entry then try_again path chunk_index chunk_index (fst st, w)
                             else case afn path location (ce_handle entry) (if ci_version chunk = 0 then 1 else ci_version chunk)
                                 (ce_locations entry) data w of
                               (result, w) \<Rightarrow>
                                 (case cr_status result of
                                    ClientSuccess \<Rightarrow>
                                      (case finish_append ra path data f chunk_index (ce_handle entry) result w of
                                         (r, w) \<Rightarrow> (Inl r, fst st, w))
                                  | ClientRetryNextChunk \<Rightarrow>
                                      (case tell_chunk_size ra (ce_handle entry) (cr_chunk_size result) w of
                                         (False, w) \<Rightarrow> (Inl (False, 0), fst st, w)
                                       | (True, w) \<Rightarrow>
                                           if chunk_index = u64_max then (Inl (False, 0), invalidate path chunk_index (fst st, w))
                                           else try_again path chunk_index (chunk_index + 1) (fst st, w))
                                  | ClientFailed \<Rightarrow> try_again path chunk_index chunk_index (fst st, w))))))"

function append_loop ::
    "'w backend \<Rightarrow> 'w record_appender \<Rightarrow> 'w append_function \<Rightarrow> file_path \<Rightarrow> string \<Rightarrow> file_view \<Rightarrow> chunk_index \<Rightarrow> 64 word \<Rightarrow> 'w io_state \<Rightarrow>
      (bool \<times> 64 word) \<times> 'w io_state" where
  "append_loop be ra afn path data f chunk_index attempts st =
     (if \<not> CanRetry (ra_max_attempts ra) attempts then ((False, 0), st)
      else case append_turn be ra afn path data f chunk_index (attempts + 1) st of
        (Inl r, st) \<Rightarrow> (r, st)
      | (Inr next_index, st) \<Rightarrow> append_loop be ra afn path data f next_index (attempts + 1) st)"
  by pat_completeness auto

termination append_loop
proof (relation "measure (\<lambda>(be, ra, afn, path, data, f, i, attempts, st). unat (ra_max_attempts ra) - unat attempts)", goal_cases)
  case (2 be ra afn path data f chunk_index attempts st)
  then have "attempts < ra_max_attempts ra" by (simp add: CanRetry_def)
  moreover from this have "attempts + 1 \<noteq> 0" using leD [OF word_le_u64_max [of "ra_max_attempts ra"]] by (auto simp: word_succ_eq_0)
  then have "unat (attempts + 1) = Suc (unat attempts)" by (rule unat_succ)
  ultimately show ?case by (simp add: word_less_nat_alt)
qed simp

declare append_loop.simps [simp del]

definition ra_Append ::
    "'w backend \<Rightarrow> 'w record_appender \<Rightarrow> file_path \<Rightarrow> string \<Rightarrow> 'w io_state \<Rightarrow> (bool \<times> 64 word) \<times> 'w io_state" where
  "ra_Append be ra path data st =
     (case ra_append_function ra of
        None \<Rightarrow> ((False, 0), st)
      | Some afn \<Rightarrow>
          if path = [] \<or> data = [] \<or> length data > unat (kChunkSize div 4) then ((False, 0), st)
          else case mc_LookupFile (be_stub be) (be_master_client be) path (snd st) of
            (None, w) \<Rightarrow> ((False, 0), fst st, w)
          | (Some f, w) \<Rightarrow>
              append_loop be ra afn path data f (if fv_chunk_count f = 0 then 0 else fv_chunk_count f - 1) 0 (fst st, w))"

end
