(* ===== verification/GfsClient.thy ===== *)
theory GfsClient
  imports ClientIO
begin

text \<open>
  \<open>src/client/gfs_client.cpp\<close>: the client object, which joins the client of the master, the cache, the reader, the writer and
  the record appender; and from \<open>src/bin/gfs_client_main.cpp\<close> the functions that the program gives it: they call the
  chunkservers through the stubs \<open>chunk_stub\<close>. At the end, the stubs with the handlers of the services behind them.
\<close>

section \<open>The client object\<close>

record 'w gfs_client =
  gc_backend :: "'w backend"
  gc_read_function :: "'w read_function option"
  gc_writer :: "'w writer"
  gc_record_appender :: "'w record_appender"
  gc_file_create_function :: "(file_path \<Rightarrow> 'w \<Rightarrow> bool \<times> 'w) option"
  gc_snapshot_create_function :: "(file_path \<Rightarrow> file_path \<Rightarrow> 'w \<Rightarrow> bool \<times> 'w) option"

definition GFSClient ::
    "'w backend \<Rightarrow> 'w read_function option \<Rightarrow> 'w write_function option \<Rightarrow> (file_path \<Rightarrow> 64 word \<Rightarrow> 'w \<Rightarrow> bool \<times> 'w) option \<Rightarrow>
      'w gfs_client" where
  "GFSClient be rfn wfn file_size_updater =
     \<lparr>gc_backend = be, gc_read_function = rfn,
      gc_writer = \<lparr>wt_write_function = wfn, wt_file_size_updater = file_size_updater, wt_chunk_size_updater = None,
        wt_copy_on_write_function = None\<rparr>,
      gc_record_appender = \<lparr>ra_append_function = None, ra_lease_validator = None, ra_primary_selector = None,
        ra_file_size_updater = file_size_updater, ra_chunk_size_updater = None, ra_max_attempts = RetryPolicy 16\<rparr>,
      gc_file_create_function = None, gc_snapshot_create_function = None\<rparr>"

definition gc_SetFileCreateFunction :: "(file_path \<Rightarrow> 'w \<Rightarrow> bool \<times> 'w) option \<Rightarrow> 'w gfs_client \<Rightarrow> 'w gfs_client" where
  "gc_SetFileCreateFunction f gc = gc\<lparr>gc_file_create_function := f\<rparr>"

definition gc_SetSnapshotCreateFunction ::
    "(file_path \<Rightarrow> file_path \<Rightarrow> 'w \<Rightarrow> bool \<times> 'w) option \<Rightarrow> 'w gfs_client \<Rightarrow> 'w gfs_client" where
  "gc_SetSnapshotCreateFunction f gc = gc\<lparr>gc_snapshot_create_function := f\<rparr>"

definition gc_SetRecordAppendFunction :: "'w append_function option \<Rightarrow> 'w gfs_client \<Rightarrow> 'w gfs_client" where
  "gc_SetRecordAppendFunction f gc = gc\<lparr>gc_record_appender := (gc_record_appender gc)\<lparr>ra_append_function := f\<rparr>\<rparr>"

definition gc_SetRecordAppendLeaseValidator ::
    "(chunk_handle \<Rightarrow> server_id \<Rightarrow> 'w \<Rightarrow> bool \<times> 'w) option \<Rightarrow> 'w gfs_client \<Rightarrow> 'w gfs_client" where
  "gc_SetRecordAppendLeaseValidator f gc = gc\<lparr>gc_record_appender := (gc_record_appender gc)\<lparr>ra_lease_validator := f\<rparr>\<rparr>"

definition gc_SetRecordAppendPrimarySelector ::
    "(chunk_handle \<Rightarrow> replica_location list \<Rightarrow> 'w \<Rightarrow> server_id option \<times> 'w) option \<Rightarrow> 'w gfs_client \<Rightarrow> 'w gfs_client" where
  "gc_SetRecordAppendPrimarySelector f gc = gc\<lparr>gc_record_appender := (gc_record_appender gc)\<lparr>ra_primary_selector := f\<rparr>\<rparr>"

definition gc_SetRecordAppendFileSizeUpdater ::
    "(file_path \<Rightarrow> 64 word \<Rightarrow> 'w \<Rightarrow> bool \<times> 'w) option \<Rightarrow> 'w gfs_client \<Rightarrow> 'w gfs_client" where
  "gc_SetRecordAppendFileSizeUpdater f gc = gc\<lparr>gc_record_appender := (gc_record_appender gc)\<lparr>ra_file_size_updater := f\<rparr>\<rparr>"

definition gc_SetRecordAppendChunkSizeUpdater ::
    "(chunk_handle \<Rightarrow> 64 word \<Rightarrow> 'w \<Rightarrow> bool \<times> 'w) option \<Rightarrow> 'w gfs_client \<Rightarrow> 'w gfs_client" where
  "gc_SetRecordAppendChunkSizeUpdater f gc = gc\<lparr>gc_record_appender := (gc_record_appender gc)\<lparr>ra_chunk_size_updater := f\<rparr>\<rparr>"

definition gc_SetRecordAppendRetryPolicy :: "64 word \<Rightarrow> 'w gfs_client \<Rightarrow> 'w gfs_client" where
  "gc_SetRecordAppendRetryPolicy max_attempts gc = gc\<lparr>gc_record_appender := (gc_record_appender gc)\<lparr>ra_max_attempts := max_attempts\<rparr>\<rparr>"

definition gc_SetChunkSizeUpdater :: "(chunk_handle \<Rightarrow> 64 word \<Rightarrow> 'w \<Rightarrow> bool \<times> 'w) option \<Rightarrow> 'w gfs_client \<Rightarrow> 'w gfs_client" where
  "gc_SetChunkSizeUpdater f gc = gc\<lparr>gc_writer := (gc_writer gc)\<lparr>wt_chunk_size_updater := f\<rparr>\<rparr>"

definition gc_SetCopyOnWriteFunction ::
    "(file_path \<Rightarrow> chunk_index \<Rightarrow> chunk_handle \<Rightarrow> 'w \<Rightarrow> bool \<times> 'w) option \<Rightarrow> 'w gfs_client \<Rightarrow> 'w gfs_client" where
  "gc_SetCopyOnWriteFunction f gc = gc\<lparr>gc_writer := (gc_writer gc)\<lparr>wt_copy_on_write_function := f\<rparr>\<rparr>"

definition gc_CreateFile :: "'w gfs_client \<Rightarrow> file_path \<Rightarrow> 'w \<Rightarrow> bool \<times> 'w" where
  "gc_CreateFile gc path w =
     (case gc_file_create_function gc of
        None \<Rightarrow> (False, w)
      | Some create \<Rightarrow> if path = [] then (False, w) else create path w)"

definition gc_CreateSnapshot :: "'w gfs_client \<Rightarrow> file_path \<Rightarrow> file_path \<Rightarrow> 'w \<Rightarrow> bool \<times> 'w" where
  "gc_CreateSnapshot gc source_path snapshot_path w =
     (case gc_snapshot_create_function gc of
        None \<Rightarrow> (False, w)
      | Some create \<Rightarrow> if source_path = [] \<or> snapshot_path = [] then (False, w) else create source_path snapshot_path w)"

definition gc_LookupFile :: "'w gfs_client \<Rightarrow> 'w file_lookup" where
  "gc_LookupFile gc path w =
     (if path = [] then (None, w) else mc_LookupFile (be_stub (gc_backend gc)) (be_master_client (gc_backend gc)) path w)"

definition gc_FileExists :: "'w gfs_client \<Rightarrow> file_path \<Rightarrow> 'w \<Rightarrow> bool \<times> 'w" where
  "gc_FileExists gc path w = (case gc_LookupFile gc path w of (f, w) \<Rightarrow> (f \<noteq> None, w))"

definition gc_LookupChunk :: "'w gfs_client \<Rightarrow> 'w chunk_lookup" where
  "gc_LookupChunk gc path chunk_index w =
     (if path = [] then (None, w)
      else mc_LookupChunk (be_stub (gc_backend gc)) (be_master_client (gc_backend gc)) path chunk_index w)"

text \<open>Only what the cache holds.\<close>

definition gc_LookupChunkLocations :: "'w gfs_client \<Rightarrow> file_path \<Rightarrow> chunk_index \<Rightarrow> 'w io_state \<Rightarrow> replica_location list \<times> 'w io_state" where
  "gc_LookupChunkLocations gc path chunk_index st =
     (if path = [] then ([], st)
      else case lc_LookupLocations (be_clock (gc_backend gc)) path chunk_index (fst st) (snd st) of (r, w) \<Rightarrow> (r, fst st, w))"

definition gc_Read :: "'w gfs_client \<Rightarrow> file_path \<Rightarrow> 64 word \<Rightarrow> 64 word \<Rightarrow> 'w io_state \<Rightarrow> (bool \<times> string) \<times> 'w io_state" where
  "gc_Read gc = rd_Read (gc_backend gc) (gc_read_function gc)"

definition gc_Write :: "'w gfs_client \<Rightarrow> file_path \<Rightarrow> 64 word \<Rightarrow> string \<Rightarrow> 'w io_state \<Rightarrow> bool \<times> 'w io_state" where
  "gc_Write gc = wt_Write (gc_backend gc) (gc_writer gc)"

definition gc_Append :: "'w gfs_client \<Rightarrow> file_path \<Rightarrow> string \<Rightarrow> 'w io_state \<Rightarrow> (bool \<times> 64 word) \<times> 'w io_state" where
  "gc_Append gc = ra_Append (gc_backend gc) (gc_record_appender gc)"

section \<open>The functions of the client program\<close>

record 'w chunk_stub =
  sk_ReadChunk :: "string \<Rightarrow> read_chunk_request \<Rightarrow> 'w \<Rightarrow> string reply option \<times> 'w"
  sk_WriteChunk :: "string \<Rightarrow> write_chunk_request \<Rightarrow> 'w \<Rightarrow> 64 word reply option \<times> 'w"

definition main_read :: "'w chunk_stub \<Rightarrow> 'w read_function" where
  "main_read sk location handle offset len w =
     (if rl_address location = [] then (None, w)
      else case sk_ReadChunk sk (rl_address location)
          \<lparr>rd_chunk_handle = handle, rd_chunk_version = 1, rd_offset = offset, rd_length = len\<rparr> w of
        (r, w) \<Rightarrow> (answered (\<lambda>data. data) r, w))"

definition write_rpc ::
    "'w chunk_stub \<Rightarrow> replica_location \<Rightarrow> chunk_handle \<Rightarrow> chunk_version \<Rightarrow> 64 word \<Rightarrow> string \<Rightarrow> 'w \<Rightarrow> bool \<times> 'w" where
  "write_rpc sk location handle version offset data w =
     (if rl_address location = [] then (False, w)
      else case sk_WriteChunk sk (rl_address location)
          \<lparr>wr_chunk_handle = handle, wr_chunk_version = version, wr_offset = offset, wr_data = data, wr_mutation_id = 0\<rparr> w of
        (r, w) \<Rightarrow> (accepted r, w))"

definition main_write :: "'w chunk_stub \<Rightarrow> 'w write_function" where
  "main_write sk location handle offset data w = write_rpc sk location handle 1 offset data w"

text \<open>Record append: the offset in the chunk comes from the size of the file; the primary is written first, then every
  other replica, up to the first failure.\<close>

fun handle_index :: "chunk_handle \<Rightarrow> chunk_handle list \<Rightarrow> nat option" where
  "handle_index handle [] = None"
| "handle_index handle (h # hs) = (if h = handle then Some 0 else map_option Suc (handle_index handle hs))"

fun write_secondaries ::
    "'w chunk_stub \<Rightarrow> server_id \<Rightarrow> chunk_handle \<Rightarrow> chunk_version \<Rightarrow> 64 word \<Rightarrow> string \<Rightarrow> replica_location list \<Rightarrow> 'w \<Rightarrow> bool \<times> 'w" where
  "write_secondaries sk primary handle version offset data [] w = (True, w)"
| "write_secondaries sk primary handle version offset data (r # replicas) w =
     (if rl_server_id r = primary then write_secondaries sk primary handle version offset data replicas w
      else case write_rpc sk r handle version offset data w of
        (False, w) \<Rightarrow> (False, w)
      | (True, w) \<Rightarrow> write_secondaries sk primary handle version offset data replicas w)"

definition append_answer :: "client_append_status \<Rightarrow> 64 word \<Rightarrow> 64 word \<Rightarrow> nat \<Rightarrow> client_append_result" where
  "append_answer status offset sz n = \<lparr>cr_status = status, cr_offset = offset, cr_chunk_size = sz, cr_bytes_appended = n\<rparr>"

definition main_append :: "'w master_stub \<Rightarrow> 'w chunk_stub \<Rightarrow> 'w master_client \<Rightarrow> 'w append_function" where
  "main_append stub sk mc path primary handle version replicas data w =
     (if path = [] \<or> rl_address primary = [] \<or> handle = 0 \<or> data = [] then (append_answer ClientFailed 0 0 0, w)
      else case mc_LookupFile stub mc path w of
        (None, w) \<Rightarrow> (append_answer ClientFailed 0 0 0, w)
      | (Some f, w) \<Rightarrow>
          (case handle_index handle (fv_chunk_handles f) of
             None \<Rightarrow> (append_answer ClientFailed 0 0 0, w)
           | Some index \<Rightarrow>
               let chunk_base = of_nat index * kChunkSize;
                   offset = (if fv_size f \<ge> chunk_base then fv_size f - chunk_base else 0) in
               if offset > kChunkSize \<or> length data > unat (kChunkSize - offset)
               then (append_answer ClientRetryNextChunk offset offset 0, w)
               else case write_rpc sk primary handle version offset data w of
                 (False, w) \<Rightarrow> (append_answer ClientFailed offset offset 0, w)
               | (True, w) \<Rightarrow>
                   (case write_secondaries sk (rl_server_id primary) handle version offset data replicas w of
                      (False, w) \<Rightarrow> (append_answer ClientFailed offset offset 0, w)
                    | (True, w) \<Rightarrow>
                        (append_answer ClientSuccess offset (offset + of_nat (length data)) (length data), w))))"

text \<open>The client as the program sets it up: no copy-on-write function, no lease check.\<close>

definition main_client :: "'w master_stub \<Rightarrow> 'w chunk_stub \<Rightarrow> 'w clock \<Rightarrow> string \<Rightarrow> 'w gfs_client" where
  "main_client stub sk clock master_address =
     (let mc = MasterClient master_address; update = Some (mc_UpdateFileSize stub mc);
          be = \<lparr>be_stub = stub, be_clock = clock, be_master_client = mc\<rparr> in
      gc_SetRecordAppendFileSizeUpdater update
        (gc_SetRecordAppendFunction (Some (main_append stub sk mc))
          (gc_SetFileCreateFunction (Some (\<lambda>path. mc_CreateFile stub mc path 0))
            (GFSClient be (Some (main_read sk)) (Some (main_write sk)) update))))"

section \<open>The services behind the stubs\<close>

text \<open>The master answers at one address; \<open>io\<close> is what its disk does to the log, \<open>service_network\<close> how it reaches
  the chunkservers itself.\<close>

definition at_master :: "string \<Rightarrow> string \<Rightarrow> ('w cluster \<Rightarrow> 'a reply \<times> 'w cluster) \<Rightarrow> 'w cluster \<Rightarrow> 'a reply option \<times> 'w cluster" where
  "at_master here addr handler c = (if addr = here then (case handler c of (r, c) \<Rightarrow> (Some r, c)) else (None, c))"

definition service_master :: "append_io \<Rightarrow> string \<Rightarrow> remotes cluster master_stub" where
  "service_master io here =
     \<lparr>st_GetFileInfo = \<lambda>a path. at_master here a (ms_GetFileInfo (Some path)),
      st_GetChunkLocations = \<lambda>a rq. at_master here a (ms_GetChunkLocations (Some rq)),
      st_AllocateChunk = \<lambda>a path. at_master here a (ms_AllocateChunk io service_network (Some path)),
      st_CreateFile = \<lambda>a rq. at_master here a (ms_CreateFile io (Some rq)),
      st_CreateDirectory = \<lambda>a path. at_master here a (ms_CreateDirectory io (Some path)),
      st_ListDirectory = \<lambda>a path. at_master here a (ms_ListDirectory (Some path)),
      st_DeleteFile = \<lambda>a path. at_master here a (ms_DeleteFile io (Some path)),
      st_RenameFile = \<lambda>a rq. at_master here a (ms_RenameFile io (Some rq)),
      st_CreateSnapshot = \<lambda>a rq. at_master here a (ms_CreateSnapshot io (Some rq)),
      st_UpdateFileSize = \<lambda>a rq. at_master here a (ms_UpdateFileSize io (Some rq))\<rparr>"

definition on_remote :: "string \<Rightarrow> (chunkserver \<Rightarrow> 'a rpc_result \<times> chunkserver) \<Rightarrow> remotes cluster \<Rightarrow> 'a reply option \<times> remotes cluster" where
  "on_remote addr handler c = (case call_at addr handler (cl_world c) of (r, w) \<Rightarrow> (r, c\<lparr>cl_world := w\<rparr>))"

definition service_chunks :: "remotes cluster chunk_stub" where
  "service_chunks =
     \<lparr>sk_ReadChunk = \<lambda>addr rq. on_remote addr (svc_ReadChunk (Some rq)),
      sk_WriteChunk = \<lambda>addr rq. on_remote addr (svc_WriteChunk (Some rq))\<rparr>"

text \<open>A client of these services, on a host whose clock shows \<open>time\<close>.\<close>

definition service_client :: "append_io \<Rightarrow> string \<Rightarrow> (remotes cluster \<Rightarrow> int) \<Rightarrow> remotes cluster gfs_client" where
  "service_client io here time = main_client (service_master io here) service_chunks (\<lambda>c. (time c, c)) here"

end
