(* ===== verification/ClientService.thy ===== *)
theory ClientService
  imports GfsClient
begin

text \<open>
  What a client promises about files. The locale \<open>file_service\<close> states what the reader and the writer rely on: where
  the master places the chunks, which bytes the servers hold and how the calls change them. Its lemmas show that reading and writing
  act on the contents of a file as a list of bytes. \<open>ClientFiles\<close> interprets it on the handlers of the master
  and of the chunkservers; the properties rest on that interpretation.
\<close>

section \<open>Files as lists of bytes\<close>

definition full_chunk :: nat where
  "full_chunk = 2 ^ 26"

type_synonym placement = "file_path \<Rightarrow> chunk_index \<Rightarrow> (chunk_handle \<times> replica_location list) option"
type_synonym holdings = "string \<Rightarrow> chunk_handle \<Rightarrow> string option"

text \<open>The replica that serves a chunk: the first one in the list that can be reached and has it.\<close>

definition serving :: "holdings \<Rightarrow> chunk_handle \<Rightarrow> replica_location list \<Rightarrow> replica_location option" where
  "serving bytes h locs = find (\<lambda>l. rl_server_id l \<noteq> 0 \<and> bytes (rl_address l) h \<noteq> None) locs"

definition chunk_bytes :: "holdings \<Rightarrow> chunk_handle \<Rightarrow> replica_location list \<Rightarrow> string option" where
  "chunk_bytes bytes h locs = (case serving bytes h locs of None \<Rightarrow> None | Some l \<Rightarrow> bytes (rl_address l) h)"

text \<open>The chunks of a file hold \<open>data\<close>, each its part of 64 MiB; a chunk may hold more behind its part.\<close>

definition chunks_hold :: "placement \<Rightarrow> holdings \<Rightarrow> file_path \<Rightarrow> string \<Rightarrow> bool" where
  "chunks_hold placed bytes path data \<longleftrightarrow>
     (\<forall>i. i * full_chunk < length data \<longrightarrow> (\<exists>h locs c. placed path (of_nat i) = Some (h, locs) \<and> h \<noteq> 0 \<and>
        chunk_bytes bytes h locs = Some c \<and> prefix (take full_chunk (drop (i * full_chunk) data)) c))"

text \<open>The chunks up to an end exist, on servers that can be reached.\<close>

definition chunks_exist :: "placement \<Rightarrow> holdings \<Rightarrow> file_path \<Rightarrow> nat \<Rightarrow> bool" where
  "chunks_exist placed bytes path n \<longleftrightarrow>
     (\<forall>i. i * full_chunk < n \<longrightarrow> (\<exists>h locs. placed path (of_nat i) = Some (h, locs) \<and> h \<noteq> 0 \<and> chunk_bytes bytes h locs \<noteq> None))"

definition own_chunks :: "placement \<Rightarrow> file_path \<Rightarrow> bool" where
  "own_chunks placed path \<longleftrightarrow>
     (\<forall>i j h li lj. placed path i = Some (h, li) \<and> placed path j = Some (h, lj) \<longrightarrow> i = j)"

text \<open>A cache without a time limit whose entries agree with the master.\<close>

definition cache_ok :: "placement \<Rightarrow> location_cache \<Rightarrow> bool" where
  "cache_ok placed lc \<longleftrightarrow> lc_ttl lc = 0 \<and>
     (\<forall>p i e. map_of (lc_entries lc) (p, i) = Some e \<longrightarrow> placed p i = Some (ce_handle e, ce_locations e))"

section \<open>Pieces of a list\<close>

lemma full_chunk_pos [simp]: "0 < full_chunk"
  by (simp add: full_chunk_def)

lemma unat_chunk [simp]: "unat kChunkSize = full_chunk"
  by (simp add: kChunkSize_def full_chunk_def)

lemma take_from_prefix:
  assumes "prefix (take k (drop b data)) c" and "n + m \<le> k" and "b + n + m \<le> length data"
  shows "take m (drop n c) = take m (drop (b + n) data)"
proof -
  obtain z where c: "c = take k (drop b data) @ z" using assms(1) by (auto simp: prefix_def)
  have "take m (drop n c) = take m (drop n (take k (drop b data)))" using assms(2,3) by (simp add: c)
  also have "\<dots> = take m (drop (b + n) data)" using assms(2) by (simp add: drop_take min_def add.commute)
  finally show ?thesis .
qed

lemma take_drop_append: "take n (drop p data) @ take m (drop (p + n) data) = take (n + m) (drop p data)"
  by (metis add.commute drop_drop take_add)

lemma overlay_eq: "off \<le> length data \<Longrightarrow> overlay data off d = take off data @ d @ drop (off + length d) data"
  by (simp add: overlay_def)

lemma overlay_twice:
  assumes "off \<le> length data" and "n \<le> length d"
  shows "overlay (overlay data off (take n d)) (off + n) (drop n d) = overlay data off d"
proof -
  have len: "off + n \<le> length (overlay data off (take n d))" using assms by (simp add: overlay_eq)
  show ?thesis using assms unfolding overlay_eq [OF len]
    by (simp add: overlay_eq [OF assms(1)] add.commute)
qed

lemma length_overlay_le: "off \<le> length data \<Longrightarrow> length (overlay data off d) = max (length data) (off + length d)"
  by (simp add: overlay_eq)

text \<open>The part of the chunk that a write touches, and the parts of the others.\<close>

lemma prefix_overlay_here:
  assumes "prefix (take k (drop b data)) c" and "o1 + length d \<le> k" and "b + o1 \<le> length data \<or> o1 = 0 \<and> b = length data"
  shows "prefix (take k (drop b (overlay data (b + o1) d))) (overlay c o1 d)"
proof -
  let ?D = "drop b data"
  obtain z where c: "c = take k ?D @ z" using assms(1) by (auto simp: prefix_def)
  have off: "b + o1 \<le> length data" using assms(3) by auto
  have o1: "o1 \<le> length ?D" "o1 \<le> length c" using off assms(2) by (simp_all add: c)
  have "drop b (overlay data (b + o1) d) = overlay ?D o1 d"
    using off by (simp add: overlay_eq [OF off] overlay_eq [OF o1(1)] drop_take ac_simps)
  then have "take k (drop b (overlay data (b + o1) d)) = take o1 ?D @ d @ take (k - o1 - length d) (drop (o1 + length d) ?D)"
    using o1(1) assms(2) off by (cases "k = o1") (simp_all add: overlay_eq [OF o1(1)] min_def)
  moreover have "overlay c o1 d = take o1 ?D @ d @ drop (o1 + length d) c"
    unfolding overlay_eq [OF o1(2)] using o1(1) assms(2) by (simp add: c min_def)
  moreover have "prefix (take (k - o1 - length d) (drop (o1 + length d) ?D)) (drop (o1 + length d) c)"
    by (simp add: c drop_take)
  ultimately show ?thesis by simp
qed

lemma take_overlay_before: "p + k \<le> off \<Longrightarrow> off \<le> length data \<Longrightarrow> take k (drop p (overlay data off d)) = take k (drop p data)"
proof -
  assume "p + k \<le> off" "off \<le> length data"
  then have "take (p + k) (overlay data off d) = take (p + k) data" by (simp add: overlay_eq)
  then have "drop p (take (p + k) (overlay data off d)) = drop p (take (p + k) data)" by simp
  then show ?thesis by (simp add: drop_take)
qed

lemma drop_overlay_after: "off + length d \<le> p \<Longrightarrow> off \<le> length data \<Longrightarrow> drop p (overlay data off d) = drop p data"
  by (simp add: overlay_eq)

section \<open>Where a chunk is served\<close>

text \<open>One server gets new bytes for a chunk that it has.\<close>

definition put_bytes :: "string \<Rightarrow> chunk_handle \<Rightarrow> string \<Rightarrow> holdings \<Rightarrow> holdings" where
  "put_bytes addr h c bytes = bytes(addr := (bytes addr)(h \<mapsto> c))"

lemma put_bytes_at: "put_bytes addr h c bytes a g = (if a = addr \<and> g = h then Some c else bytes a g)"
  by (simp add: put_bytes_def)

lemma serving_put: "bytes addr h \<noteq> None \<Longrightarrow> serving (put_bytes addr h c bytes) g locs = serving bytes g locs"
  unfolding serving_def by (rule arg_cong2 [where f = find]) (auto simp: put_bytes_at fun_eq_iff)

lemma chunk_bytes_put:
  assumes "bytes addr h \<noteq> None"
  shows "g \<noteq> h \<Longrightarrow> chunk_bytes (put_bytes addr h c bytes) g locs = chunk_bytes bytes g locs"
    and "serving bytes h locs = Some l \<Longrightarrow> rl_address l = addr \<Longrightarrow> chunk_bytes (put_bytes addr h c bytes) h locs = Some c"
    and "chunk_bytes bytes g locs \<noteq> None \<Longrightarrow> chunk_bytes (put_bytes addr h c bytes) g locs \<noteq> None"
  using assms by (auto simp: chunk_bytes_def serving_put put_bytes_at split: option.splits)

lemma chunk_bytes_SomeD:
  assumes "chunk_bytes bytes h locs = Some c"
  obtains l where "serving bytes h locs = Some l" "bytes (rl_address l) h = Some c" "locs \<noteq> []"
  using assms by (cases locs) (auto simp: chunk_bytes_def serving_def split: option.splits)

text \<open>A write into one chunk is a write into the file.\<close>

lemma chunks_hold_write:
  assumes hold: "chunks_hold placed bytes path data" and own: "own_chunks placed path"
    and at: "placed path (of_nat i) = Some (h, locs)" "h \<noteq> 0" "serving bytes h locs = Some l" "bytes (rl_address l) h = Some c"
    and off: "off = i * full_chunk + o1" "o1 + length d \<le> full_chunk" "off \<le> length data" and d: "d \<noteq> []"
    and small: "off + length d < 2 ^ 64" "length data < 2 ^ 64"
  shows "chunks_hold placed (put_bytes (rl_address l) h (overlay c o1 d) bytes) path (overlay data off d)"
  unfolding chunks_hold_def
proof (intro allI impI)
  fix j
  assume j: "j * full_chunk < length (overlay data off d)"
  let ?b = "put_bytes (rl_address l) h (overlay c o1 d) bytes"
  have has: "bytes (rl_address l) h \<noteq> None" using at(4) by simp
  have len: "length (overlay data off d) = max (length data) (off + length d)" by (rule length_overlay_le [OF off(3)])
  have bound: "k < 2 ^ 64" if "k * full_chunk < 2 ^ 64" for k
    using that by (metis full_chunk_pos less_1_mult le_less_trans nat_mult_1_right mult_le_mono2 Suc_leI One_nat_def)
  have o1: "o1 < full_chunk" using off(2) d by (cases d) auto
  have "i * full_chunk < 2 ^ 64" using small(1) off(1) by linarith
  then have i: "i < 2 ^ 64" by (rule bound)
  have "j * full_chunk < 2 ^ 64" using j len small by linarith
  then have j': "j < 2 ^ 64" by (rule bound)
  have other: "\<exists>h' locs' c'. placed path (of_nat j) = Some (h', locs') \<and> h' \<noteq> 0 \<and> chunk_bytes ?b h' locs' = Some c' \<and>
      prefix (take full_chunk (drop (j * full_chunk) (overlay data off d))) c'"
    if ne: "j \<noteq> i" and inside: "j * full_chunk < length data"
      and same: "take full_chunk (drop (j * full_chunk) (overlay data off d)) = take full_chunk (drop (j * full_chunk) data)"
  proof -
    obtain h' locs' c' where c': "placed path (of_nat j) = Some (h', locs')" "h' \<noteq> 0" "chunk_bytes bytes h' locs' = Some c'"
        "prefix (take full_chunk (drop (j * full_chunk) data)) c'"
      using hold inside unfolding chunks_hold_def by blast
    have "(of_nat j :: 64 word) \<noteq> of_nat i" using ne i j' by (simp add: word_unat_eq_iff unat_of_nat)
    then have "h' \<noteq> h" using own at(1) c'(1) unfolding own_chunks_def by blast
    then have "chunk_bytes ?b h' locs' = Some c'" using chunk_bytes_put(1) [of bytes, OF has] c'(3) by simp
    then show ?thesis using c' same by (intro exI [of _ h'] exI [of _ locs'] exI [of _ c']) simp
  qed
  consider "j = i" | "j < i" | "i < j" by linarith
  then show "\<exists>h' locs' c'. placed path (of_nat j) = Some (h', locs') \<and> h' \<noteq> 0 \<and> chunk_bytes ?b h' locs' = Some c' \<and>
      prefix (take full_chunk (drop (j * full_chunk) (overlay data off d))) c'"
  proof cases
    case 1
    have "prefix (take full_chunk (drop (i * full_chunk) data)) c"
    proof (cases "i * full_chunk < length data")
      case True
      then obtain h' locs' c' where c': "placed path (of_nat i) = Some (h', locs')" "chunk_bytes bytes h' locs' = Some c'"
          "prefix (take full_chunk (drop (i * full_chunk) data)) c'"
        using hold unfolding chunks_hold_def by blast
      then show ?thesis using at by (simp add: chunk_bytes_def)
    qed simp
    then have "prefix (take full_chunk (drop (i * full_chunk) (overlay data off d))) (overlay c o1 d)"
      unfolding off(1) using off by (intro prefix_overlay_here) auto
    then show ?thesis using 1 at chunk_bytes_put(2) [of bytes, OF has at(3)] by simp
  next
    case 2
    then have "(j + 1) * full_chunk \<le> i * full_chunk" by (intro mult_le_mono1) simp
    then have le: "j * full_chunk + full_chunk \<le> off" using off(1) by simp
    then have "j * full_chunk < length data" using off(3) full_chunk_pos by linarith
    then show ?thesis using other take_overlay_before [OF le off(3)] 2 by blast
  next
    case 3
    then have "(i + 1) * full_chunk \<le> j * full_chunk" by (intro mult_le_mono1) simp
    then have le: "off + length d \<le> j * full_chunk" using off(1,2) by simp
    then have "j * full_chunk < length data" using j len by simp
    then show ?thesis using other drop_overlay_after [OF le off(3)] 3 by simp
  qed
qed

text \<open>Where a write to a file may change bytes: the serving replicas of its chunks.\<close>

definition write_target :: "placement \<Rightarrow> holdings \<Rightarrow> file_path \<Rightarrow> string \<Rightarrow> chunk_handle \<Rightarrow> bool" where
  "write_target placed bytes path addr h \<longleftrightarrow>
     (\<exists>i locs l. placed path i = Some (h, locs) \<and> serving bytes h locs = Some l \<and> rl_address l = addr)"

lemma write_target_put: "bytes addr h \<noteq> None \<Longrightarrow> write_target placed (put_bytes addr h c bytes) = write_target placed bytes"
  by (simp add: write_target_def fun_eq_iff serving_put)

lemma chunks_exist_put:
  "bytes addr h \<noteq> None \<Longrightarrow> chunks_exist placed bytes path n \<Longrightarrow> chunks_exist placed (put_bytes addr h c bytes) path n"
  unfolding chunks_exist_def by (metis chunk_bytes_put(3))

section \<open>What reading and writing rely on\<close>

locale file_service =
  fixes be :: "'w backend" and rfn :: "'w read_function" and wfn :: "'w write_function"
    and upd :: "file_path \<Rightarrow> 64 word \<Rightarrow> 'w \<Rightarrow> bool \<times> 'w"
    and good :: "'w \<Rightarrow> bool" and placed :: "'w \<Rightarrow> placement" and bytes :: "'w \<Rightarrow> holdings"
    and fsize :: "'w \<Rightarrow> file_path \<Rightarrow> 64 word option" and resizable :: "'w \<Rightarrow> file_path \<Rightarrow> 64 word \<Rightarrow> bool"
  assumes clock_law: "snd (be_clock be w) = w"
    and file_law: "good w \<Longrightarrow> path \<noteq> [] \<Longrightarrow>
      \<exists>f. mc_LookupFile (be_stub be) (be_master_client be) path w = (f, w) \<and> map_option fv_size f = fsize w path"
    and chunk_law: "good w \<Longrightarrow> path \<noteq> [] \<Longrightarrow> \<exists>ch. mc_LookupChunk (be_stub be) (be_master_client be) path i w = (ch, w) \<and>
      map_option (\<lambda>ch. (ci_handle ch, ci_locations ch)) ch = placed w path i"
    and read_law: "good w \<Longrightarrow> rfn loc h off len w = (r, w') \<Longrightarrow>
      good w' \<and> placed w' = placed w \<and> bytes w' = bytes w \<and> fsize w' = fsize w \<and>
      r = (case bytes w (rl_address loc) h of None \<Rightarrow> None | Some c \<Rightarrow> slice off len c)"
    and write_law: "good w \<Longrightarrow> wfn loc h off data w = (b, w') \<Longrightarrow>
      (\<And>c. bytes w (rl_address loc) h = Some c \<Longrightarrow> unat off \<le> length c) \<Longrightarrow>
      good w' \<and> placed w' = placed w \<and> fsize w' = fsize w \<and> resizable w' = resizable w \<and>
      (b \<longleftrightarrow> bytes w (rl_address loc) h \<noteq> None \<and> unat off + length data \<le> full_chunk) \<and>
      bytes w' = (if b then put_bytes (rl_address loc) h
        (overlay (the (bytes w (rl_address loc) h)) (unat off) data) (bytes w) else bytes w)"
    and update_law: "good w \<Longrightarrow> upd path n w = (b, w') \<Longrightarrow>
      (b \<longleftrightarrow> resizable w path n) \<and> good w' \<and> placed w' = placed w \<and> bytes w' = bytes w \<and>
      fsize w' = (if b then (fsize w)(path \<mapsto> n) else fsize w)"
begin

definition unmoved :: "'w \<Rightarrow> 'w \<Rightarrow> bool" where
  "unmoved w w' \<longleftrightarrow> good w' \<and> placed w' = placed w \<and> bytes w' = bytes w \<and> fsize w' = fsize w"

lemma enter:
  assumes "cache_ok (placed w) lc" and "path \<noteq> []" and "ci_handle ch \<noteq> 0" and "ci_locations ch \<noteq> []"
    and "placed w path i = Some (ci_handle ch, ci_locations ch)"
  shows "\<exists>lc' e. enter_chunk be path i (Some ch) (lc, w) = (Some (True, e), lc', w) \<and> cache_ok (placed w) lc' \<and>
    ce_handle e = ci_handle ch \<and> ce_locations e = ci_locations ch"
proof -
  obtain now where now: "be_clock be w = (now, w)" using clock_law [of w] by (metis prod.collapse)
  then show ?thesis
    using assms by (auto simp: enter_chunk_def lc_Insert_def Let_def cache_ok_def)
qed

lemma lookup_cached:
  assumes "cache_ok (placed w) lc" and "path \<noteq> []"
  shows "lc_Lookup (be_clock be) path i lc w = (map_of (lc_entries lc) (path, i), w)"
  using assms by (simp add: lc_Lookup_forever cache_ok_def)

lemma resolve:
  assumes good: "good w" and lc: "cache_ok (placed w) lc" and path: "path \<noteq> []"
    and at: "placed w path i = Some (h, locs)" "h \<noteq> 0" "locs \<noteq> []"
  shows "\<exists>lc' e. ResolveChunk be path i (lc, w) = (Some e, lc', w) \<and> cache_ok (placed w) lc' \<and> ce_handle e = h \<and> ce_locations e = locs"
    and "\<exists>lc' e. wt_ResolveOrAllocateChunk be path i (lc, w) = (Some e, lc', w) \<and> cache_ok (placed w) lc' \<and> ce_handle e = h \<and> ce_locations e = locs"
proof -
  obtain ch where ch: "mc_LookupChunk (be_stub be) (be_master_client be) path i w = (Some ch, w)"
      "ci_handle ch = h" "ci_locations ch = locs"
    using chunk_law [OF good path, of i] at(1) by auto
  obtain lc' e where e: "enter_chunk be path i (Some ch) (lc, w) = (Some (True, e), lc', w)" "cache_ok (placed w) lc'"
      "ce_handle e = h" "ce_locations e = locs"
    using enter [OF lc path, of ch i] at ch by auto
  have hit: "ce_handle e0 = h \<and> ce_locations e0 = locs" if "map_of (lc_entries lc) (path, i) = Some e0" for e0
    using lc that at(1) by (auto simp: cache_ok_def)
  show "\<exists>lc' e. ResolveChunk be path i (lc, w) = (Some e, lc', w) \<and> cache_ok (placed w) lc' \<and> ce_handle e = h \<and> ce_locations e = locs"
    using e ch hit lc by (cases "map_of (lc_entries lc) (path, i)") (simp_all add: ResolveChunk_def lookup_cached [OF lc path])
  show "\<exists>lc' e. wt_ResolveOrAllocateChunk be path i (lc, w) = (Some e, lc', w) \<and> cache_ok (placed w) lc' \<and> ce_handle e = h \<and> ce_locations e = locs"
    using e ch hit lc by (cases "map_of (lc_entries lc) (path, i)")
      (simp_all add: wt_ResolveOrAllocateChunk_def find_or_allocate_def lookup_cached [OF lc path])
qed

lemma unmoved_trans: "unmoved w w1 \<Longrightarrow> unmoved w1 w2 \<Longrightarrow> unmoved w w2"
  by (simp add: unmoved_def)

lemma read_replicas_serving:
  assumes "good w" and "chunk_bytes (bytes w) h locs = Some c" and "unat off + unat len \<le> length c"
    and "read_replicas rfn h off len locs w = (r, w')"
  shows "unmoved w w' \<and> r = (True, take (unat len) (drop (unat off) c))"
  using assms
proof (induction locs arbitrary: w)
  case (Cons l locs)
  show ?case
  proof (cases "rl_server_id l = 0")
    case True
    then show ?thesis using Cons by (simp add: chunk_bytes_def serving_def)
  next
    case False
    obtain r1 w1 where r1: "rfn l h off len w = (r1, w1)" by fastforce
    note law = read_law [OF Cons.prems(1) r1]
    have un: "unmoved w w1" using law by (simp add: unmoved_def)
    show ?thesis
    proof (cases "bytes w (rl_address l) h")
      case None
      then have "chunk_bytes (bytes w1) h locs = Some c" using Cons.prems(2) law by (simp add: chunk_bytes_def serving_def)
      moreover have "read_replicas rfn h off len locs w1 = (r, w')" using Cons.prems(4) r1 law None False by simp
      ultimately show ?thesis using Cons.IH [of w1] Cons.prems(3) law unmoved_trans [OF un] by blast
    next
      case (Some c')
      then have "c' = c" using Cons.prems(2) False by (simp add: chunk_bytes_def serving_def)
      then show ?thesis using Cons.prems(3,4) r1 law Some False un by (simp add: slice_def)
    qed
  qed
qed (simp add: chunk_bytes_def serving_def)

lemma chunk_of_offset:
  fixes off :: "64 word"
  shows "unat (off div kChunkSize) = unat off div full_chunk" and "unat (off mod kChunkSize) = unat off mod full_chunk"
    and "off div kChunkSize = of_nat (unat off div full_chunk)" and "unat off = unat off div full_chunk * full_chunk + unat off mod full_chunk"
proof -
  show i: "unat (off div kChunkSize) = unat off div full_chunk" by (simp add: unat_div)
  show "unat (off mod kChunkSize) = unat off mod full_chunk" by (simp add: unat_mod)
  show "off div kChunkSize = of_nat (unat off div full_chunk)" using i by (metis of_nat_unat ucast_id)
  show "unat off = unat off div full_chunk * full_chunk + unat off mod full_chunk" by simp
qed

lemma piece_length:
  "unat (min (kChunkSize - off mod kChunkSize) rem) = min (full_chunk - unat off mod full_chunk) (unat rem)"
proof -
  have "unat off mod full_chunk < full_chunk" by simp
  then have "unat (kChunkSize - off mod kChunkSize) = full_chunk - unat off mod full_chunk"
    using chunk_of_offset(2) [of off] by (simp add: unat_sub word_le_nat_alt less_imp_le)
  then show ?thesis by (auto simp: min_def word_le_nat_alt)
qed

lemma rd_loop_result:
  assumes "good w" and "cache_ok (placed w) lc" and path: "path \<noteq> []" and "chunks_hold (placed w) (bytes w) path data"
    and data: "length data < 2 ^ 64" and "unat off + unat rem \<le> length data"
  shows "\<exists>lc' w'. rd_loop be (Some rfn) path off rem acc (lc, w) = ((True, acc @ take (unat rem) (drop (unat off) data)), lc', w') \<and>
    unmoved w w' \<and> cache_ok (placed w') lc'"
  using assms(1,2,4,6)
proof (induction "unat rem" arbitrary: rem off acc lc w rule: less_induct)
  case less
  show ?case
  proof (cases "rem = 0")
    case True
    then show ?thesis using less.prems by (simp add: rd_loop.simps unmoved_def)
  next
    case False
    define i where "i = unat off div full_chunk"
    define o1 where "o1 = unat off mod full_chunk"
    define n where "n = min (full_chunk - o1) (unat rem)"
    let ?n = "min (kChunkSize - off mod kChunkSize) rem"
    note o = chunk_of_offset [of off, folded i_def o1_def]
    have o1: "o1 < full_chunk" by (simp add: o1_def)
    have n: "unat ?n = n" "0 < n" "o1 + n \<le> full_chunk" "n \<le> unat rem"
      using piece_length [of off rem] False o1 by (auto simp: n_def o1_def [symmetric] unat_gt_0)
    have off: "unat off = i * full_chunk + o1" using o by simp
    have in_data: "i * full_chunk < length data" using less.prems(4) n off by linarith
    obtain h locs c where c: "placed w path (of_nat i) = Some (h, locs)" "h \<noteq> 0" "chunk_bytes (bytes w) h locs = Some c"
        "prefix (take full_chunk (drop (i * full_chunk) data)) c"
      using less.prems(3) in_data unfolding chunks_hold_def by blast
    have piece: "take n (drop o1 c) = take n (drop (unat off) data)" "o1 + n \<le> length c"
    proof -
      have le: "i * full_chunk + o1 + n \<le> length data" using less.prems(4) n off by simp
      show "take n (drop o1 c) = take n (drop (unat off) data)" using take_from_prefix [OF c(4) n(3) le] off by simp
      have "length (take full_chunk (drop (i * full_chunk) data)) \<le> length c" using c(4) prefix_length_le by blast
      then show "o1 + n \<le> length c" using le n(3) by simp
    qed
    have locs: "locs \<noteq> []" using c(3) by (rule chunk_bytes_SomeD)
    obtain lc1 e where e: "ResolveChunk be path (of_nat i) (lc, w) = (Some e, lc1, w)" "cache_ok (placed w) lc1"
        "ce_handle e = h" "ce_locations e = locs"
      using resolve(1) [OF less.prems(1,2) path c(1,2) locs] by blast
    obtain r w1 where rd: "ReadFromChunkserver (Some rfn) e (off mod kChunkSize) ?n w = (r, w1)" by fastforce
    then have "read_replicas rfn h (off mod kChunkSize) ?n locs w = (r, w1)"
      using e c(2) locs by (simp add: ReadFromChunkserver_def)
    then have w1: "unmoved w w1" "r = (True, take n (drop (unat off) data))"
      using read_replicas_serving [OF less.prems(1) c(3), where off = "off mod kChunkSize" and len = ?n] piece n(1) o(2)
      by simp_all
    have rem: "unat (rem - ?n) = unat rem - n" using n by (metis unat_sub min.cobounded2)
    have "unat off + n < 2 ^ 64" using less.prems(4) n data by linarith
    then have off1: "unat (off + ?n) = unat off + n" using n(1) unat_add_lem [of off ?n] by simp
    have "\<exists>lc' w'. rd_loop be (Some rfn) path (off + ?n) (rem - ?n) (acc @ take n (drop (unat off) data)) (lc1, w1) =
        ((True, (acc @ take n (drop (unat off) data)) @ take (unat (rem - ?n)) (drop (unat (off + ?n)) data)), lc', w') \<and>
        unmoved w1 w' \<and> cache_ok (placed w') lc'"
      by (rule less.hyps) (use less.prems w1 e(2) rem off1 n in \<open>auto simp: unmoved_def\<close>)
    moreover have "take n (drop (unat off) data) @ take (unat (rem - ?n)) (drop (unat (off + ?n)) data) = take (unat rem) (drop (unat off) data)"
      using take_drop_append [of n "unat off" data "unat rem - n"] rem off1 n(4) by simp
    moreover have "rd_loop be (Some rfn) path off rem acc (lc, w) =
        rd_loop be (Some rfn) path (off + ?n) (rem - ?n) (acc @ take n (drop (unat off) data)) (lc1, w1)"
      using False e rd w1(2) o(3) by (subst rd_loop.simps) (simp add: Let_def)
    ultimately show ?thesis using unmoved_trans [OF w1(1)] by (metis append.assoc)
  qed
qed

lemma read_file:
  assumes good: "good w" and lc: "cache_ok (placed w) lc" and path: "path \<noteq> []"
    and hold: "chunks_hold (placed w) (bytes w) path data"
    and sz: "fsize w path = Some (of_nat (length data))" "length data < 2 ^ 64"
    and r: "rd_Read be (Some rfn) path off len (lc, w) = (r, lc', w')"
  shows "unmoved w w' \<and> cache_ok (placed w') lc' \<and>
    r = (if len = 0 then (True, []) else if unat off > length data then (False, [])
         else (True, take (unat len) (drop (unat off) data)))"
proof (cases "len = 0")
  case True
  then show ?thesis using r path lc good by (auto simp: rd_Read_def unmoved_def)
next
  case False
  obtain f where f: "mc_LookupFile (be_stub be) (be_master_client be) path w = (Some f, w)" "fv_size f = of_nat (length data)"
    using file_law [OF good path] sz(1) by auto
  have n: "unat (of_nat (length data) :: 64 word) = length data" using sz(2) by (simp add: unat_of_nat)
  consider "length data < unat off" | "unat off = length data" | "unat off < length data" by linarith
  then show ?thesis
  proof cases
    case 3
    let ?len = "min (fv_size f - off) len"
    have le: "off \<le> fv_size f" "off \<noteq> fv_size f" "\<not> fv_size f < off" using 3 n f(2) by (auto simp: word_le_nat_alt word_less_nat_alt)
    have sub: "unat (fv_size f - off) = length data - unat off" using unat_sub [OF le(1)] n f(2) by simp
    then have len: "unat ?len = min (length data - unat off) (unat len)" by (auto simp: min_def word_le_nat_alt)
    then have pos: "?len \<noteq> 0" using 3 False by (metis min_def unat_eq_0 unat_0 zero_less_diff less_not_refl)
    have bound: "unat off + unat ?len \<le> length data" using len 3 by simp
    obtain lc1 w1 where loop: "rd_loop be (Some rfn) path off ?len [] (lc, w) =
        ((True, take (unat ?len) (drop (unat off) data)), lc1, w1)" "unmoved w w1" "cache_ok (placed w1) lc1"
      using rd_loop_result [OF good lc path hold sz(2) bound, of "[]"] unfolding append_Nil by blast
    have "take (unat ?len) (drop (unat off) data) = take (unat len) (drop (unat off) data)"
      unfolding len by (simp add: min_def)
    moreover have "length (take (unat ?len) (drop (unat off) data)) = unat ?len" using len by simp
    ultimately have "rd_Read be (Some rfn) path off len (lc, w) = ((True, take (unat len) (drop (unat off) data)), lc1, w1)"
      using f(1) path False le pos loop(1) by (simp add: rd_Read_def ReadSequential_def)
    then show ?thesis using r loop(2,3) False 3 by auto
  qed (use r f path lc good False n in \<open>auto simp: rd_Read_def unmoved_def word_less_nat_alt word_unat_eq_iff split: if_splits\<close>)
qed

text \<open>The replicas in front of the serving one refuse a write; the serving one takes it, and no other changes.\<close>

lemma write_replicas_serving:
  assumes wt: "wt_chunk_size_updater wt = None"
  shows "good w \<Longrightarrow> serving (bytes w) h locs = Some l \<Longrightarrow> bytes w (rl_address l) h = Some c \<Longrightarrow> unat off \<le> length c \<Longrightarrow>
    unat off + length data \<le> full_chunk \<Longrightarrow> write_replicas wt wfn h off data locs w = (b, w') \<Longrightarrow>
    b \<and> good w' \<and> placed w' = placed w \<and> fsize w' = fsize w \<and> resizable w' = resizable w \<and>
    bytes w' = put_bytes (rl_address l) h (overlay c (unat off) data) (bytes w)"
proof (induction locs arbitrary: w)
  case (Cons k locs)
  show ?case
  proof (cases "rl_server_id k = 0")
    case True
    then have "serving (bytes w) h locs = Some l" using Cons.prems(2) by (simp add: serving_def)
    then show ?thesis using Cons.IH [OF Cons.prems(1) _ Cons.prems(3-5)] Cons.prems(6) True by simp
  next
    case False
    obtain b1 w1 where b1: "wfn k h off data w = (b1, w1)" by fastforce
    have dense: "unat off \<le> length c'" if "bytes w (rl_address k) h = Some c'" for c'
      using that Cons.prems(2,3,4) False by (auto simp: serving_def split: if_splits)
    note law = write_law [OF Cons.prems(1) b1 dense]
    show ?thesis
    proof (cases "bytes w (rl_address k) h")
      case None
      then have "write_replicas wt wfn h off data locs w1 = (b, w')" using Cons.prems(6) b1 law False by simp
      then show ?thesis using Cons.IH [of w1] Cons.prems law None False by (simp add: serving_def)
    next
      case (Some c')
      then have "l = k" "c' = c" using Cons.prems(2,3) False by (simp_all add: serving_def)
      then show ?thesis using Cons.prems(5,6) b1 law False Some wt by simp
    qed
  qed
qed (simp add: serving_def)

definition written :: "'w \<Rightarrow> 'w \<Rightarrow> file_path \<Rightarrow> bool" where
  "written w w' path \<longleftrightarrow> good w' \<and> placed w' = placed w \<and> fsize w' = fsize w \<and> resizable w' = resizable w \<and>
     serving (bytes w') = serving (bytes w) \<and>
     (\<forall>a g. bytes w' a g \<noteq> bytes w a g \<longrightarrow> write_target (placed w) (bytes w) path a g)"

lemma written_trans: "written w w1 path \<Longrightarrow> written w1 w2 path \<Longrightarrow> written w w2 path"
  unfolding written_def write_target_def by metis

text \<open>One piece: the chunk is found and the serving replica takes the bytes.\<close>

lemma write_piece:
  assumes good: "good w" and lc: "cache_ok (placed w) lc" and path: "path \<noteq> []"
    and wt: "wt_write_function wt = Some wfn" "wt_copy_on_write_function wt = None" "wt_chunk_size_updater wt = None"
    and at: "placed w path i = Some (h, locs)" "h \<noteq> 0" "serving (bytes w) h locs = Some l" "bytes w (rl_address l) h = Some c"
    and o1: "unat o1 \<le> length c" "unat o1 + length d \<le> full_chunk" and d: "d \<noteq> []"
  shows "\<exists>e lc' w'. writable_chunk be wt path i (lc, w) = (Some e, lc', w) \<and> cache_ok (placed w) lc' \<and>
    WriteToChunkserver wt e o1 d w = (True, w') \<and> written w w' path \<and>
    bytes w' = put_bytes (rl_address l) h (overlay c (unat o1) d) (bytes w)"
proof -
  have locs: "locs \<noteq> []" using at(3) by (auto simp: serving_def)
  obtain lc' e where e: "wt_ResolveOrAllocateChunk be path i (lc, w) = (Some e, lc', w)" "cache_ok (placed w) lc'"
      "ce_handle e = h" "ce_locations e = locs"
    using resolve(2) [OF good lc path at(1,2) locs] by blast
  obtain b w' where wr: "write_replicas wt wfn h o1 d locs w = (b, w')" by fastforce
  note res = write_replicas_serving [OF wt(3) good at(3,4) o1 wr]
  have "serving (bytes w') = serving (bytes w)" using res at(4) by (auto simp: serving_put intro!: ext)
  moreover have "write_target (placed w) (bytes w) path (rl_address l) h" using at(1,3) unfolding write_target_def by blast
  ultimately have "written w w' path" using res by (auto simp: written_def put_bytes_at split: if_splits)
  then show ?thesis
    using e wr res wt at(2) locs d by (intro exI [of _ e] exI [of _ lc'] exI [of _ w']) (simp add: writable_chunk_def WriteToChunkserver_def)
qed

lemma write_loop_result:
  assumes wt: "wt_write_function wt = Some wfn" "wt_copy_on_write_function wt = None" "wt_chunk_size_updater wt = None"
    and path: "path \<noteq> []"
  shows "good w \<Longrightarrow> cache_ok (placed w) lc \<Longrightarrow> own_chunks (placed w) path \<Longrightarrow> chunks_hold (placed w) (bytes w) path data \<Longrightarrow>
    chunks_exist (placed w) (bytes w) path (unat off + length d) \<Longrightarrow> unat off \<le> length data \<Longrightarrow>
    unat off + length d < 2 ^ 64 \<Longrightarrow> length data < 2 ^ 64 \<Longrightarrow>
    \<exists>lc' w'. write_loop be wt path off d (lc, w) = (True, lc', w') \<and> written w w' path \<and> cache_ok (placed w) lc' \<and>
      chunks_hold (placed w) (bytes w') path (overlay data (unat off) d)"
proof (induction "length d" arbitrary: d off data lc w rule: less_induct)
  case less
  show ?case
  proof (cases "d = []")
    case True
    have "overlay data (unat off) d = data" using overlay_eq [OF less.prems(6), of d] True by simp
    then show ?thesis using True less.prems by (simp add: write_loop.simps written_def)
  next
    case False
    define i where "i = unat off div full_chunk"
    define o1 where "o1 = unat off mod full_chunk"
    define n where "n = min (full_chunk - o1) (length d)"
    note o = chunk_of_offset [of off, folded i_def o1_def]
    have o1: "o1 < full_chunk" by (simp add: o1_def)
    have len: "min (unat (kChunkSize - off mod kChunkSize)) (length d) = n"
      using o(2) o1 by (simp add: n_def unat_sub word_le_nat_alt less_imp_le)
    have n: "0 < n" "o1 + n \<le> full_chunk" "n \<le> length d" using False o1 by (auto simp: n_def)
    have off: "unat off = i * full_chunk + o1" using o by simp
    have "i * full_chunk < unat off + length d" using off n by linarith
    then obtain h locs where at: "placed w path (of_nat i) = Some (h, locs)" "h \<noteq> 0" "chunk_bytes (bytes w) h locs \<noteq> None"
      using less.prems(5) unfolding chunks_exist_def by blast
    then obtain c l where l: "serving (bytes w) h locs = Some l" "bytes w (rl_address l) h = Some c" "chunk_bytes (bytes w) h locs = Some c"
      by (metis chunk_bytes_SomeD option.exhaust)
    have dense: "o1 \<le> length c"
    proof (cases "i * full_chunk < length data")
      case True
      then have "prefix (take full_chunk (drop (i * full_chunk) data)) c" using less.prems(4) at(1) l(3) unfolding chunks_hold_def by fastforce
      then have "length (take full_chunk (drop (i * full_chunk) data)) \<le> length c" by (rule prefix_length_le)
      then show ?thesis using off less.prems(6) o1 by simp
    qed (use off less.prems(6) in simp)
    let ?d = "take n d" and ?i = "of_nat i :: 64 word"
    have d: "length ?d = n" "?d \<noteq> []" using n by auto
    obtain e lc1 w1 where step: "writable_chunk be wt path ?i (lc, w) = (Some e, lc1, w)" "cache_ok (placed w) lc1"
        "WriteToChunkserver wt e (off mod kChunkSize) ?d w = (True, w1)" "written w w1 path"
        "bytes w1 = put_bytes (rl_address l) h (overlay c o1 ?d) (bytes w)"
      using write_piece [OF less.prems(1,2) path wt at(1,2) l(1,2), of "off mod kChunkSize" ?d] o(2) dense n d by auto
    have same: "good w1" "placed w1 = placed w" using step(4) by (simp_all add: written_def)
    let ?off = "off + of_nat n" and ?rest = "drop n d" and ?data = "overlay data (unat off) ?d"
    have small: "unat off + n < 2 ^ 64" using less.prems(7) n by linarith
    have off1: "unat ?off = unat off + n" using unat_add_lem [of off "of_nat n :: 64 word"] small by (simp add: unat_of_nat)
    have hold: "chunks_hold (placed w1) (bytes w1) path ?data"
      unfolding step(5) same(2)
      by (rule chunks_hold_write [OF less.prems(4,3) at(1,2) l(1,2) off]) (use n d less.prems(6,8) small in simp_all)
    have exist: "chunks_exist (placed w1) (bytes w1) path (unat ?off + length ?rest)"
      using chunks_exist_put [of "bytes w" "rl_address l" h] l(2) less.prems(5) n(3) off1 step(5) same(2) by simp
    have lens: "length ?data = max (length data) (unat off + n)" using length_overlay_le [OF less.prems(6), of ?d] d by simp
    have "\<exists>lc' w'. write_loop be wt path ?off ?rest (lc1, w1) = (True, lc', w') \<and> written w1 w' path \<and>
        cache_ok (placed w1) lc' \<and> chunks_hold (placed w1) (bytes w') path (overlay ?data (unat ?off) ?rest)"
      by (rule less.hyps) (use n same less.prems(3,7,8) step(2) hold exist off1 lens small in simp_all)
    then obtain lc' w' where rest: "write_loop be wt path ?off ?rest (lc1, w1) = (True, lc', w')" "written w1 w' path"
        "cache_ok (placed w1) lc'" "chunks_hold (placed w1) (bytes w') path (overlay ?data (unat ?off) ?rest)"
      by blast
    have "overlay ?data (unat ?off) ?rest = overlay data (unat off) d"
      using overlay_twice [OF less.prems(6) n(3)] off1 by simp
    moreover have "write_loop be wt path off d (lc, w) = (True, lc', w')"
      using False step(1,3) rest(1) len o(3) by (subst write_loop.simps) (simp add: Let_def)
    ultimately show ?thesis using rest written_trans [OF step(4)] same by (intro exI [of _ lc'] exI [of _ w']) simp
  qed
qed

text \<open>A write on files: the bytes of the request land at their place, and the file ends where the request ends.\<close>

lemma write_file:
  assumes wt: "wt_write_function wt = Some wfn" "wt_copy_on_write_function wt = None" "wt_chunk_size_updater wt = None"
      "wt_file_size_updater wt = Some upd"
    and good: "good w" and lc: "cache_ok (placed w) lc" and path: "path \<noteq> []" and own: "own_chunks (placed w) path"
    and hold: "chunks_hold (placed w) (bytes w) path data" and exist: "chunks_exist (placed w) (bytes w) path (unat off + length d)"
    and off: "unat off \<le> length data" "unat off + length d < 2 ^ 64" "length data < 2 ^ 64" and d: "d \<noteq> []"
    and r: "wt_Write be wt path off d (lc, w) = (b, lc', w')"
  shows "(b \<longleftrightarrow> resizable w path (off + of_nat (length d))) \<and> (\<exists>w1. written w w1 path \<and> good w' \<and> placed w' = placed w \<and> bytes w' = bytes w1 \<and> cache_ok (placed w) lc' \<and>
    chunks_hold (placed w) (bytes w') path (overlay data (unat off) d) \<and>
    fsize w' = (if b then (fsize w)(path \<mapsto> off + of_nat (length d)) else fsize w))"
proof -
  obtain lc1 w1 where loop: "write_loop be wt path off d (lc, w) = (True, lc1, w1)" "written w w1 path" "cache_ok (placed w) lc1"
      "chunks_hold (placed w) (bytes w1) path (overlay data (unat off) d)"
    using write_loop_result [OF wt(1-3) path good lc own hold exist off] by blast
  obtain b2 w2 where upd: "upd path (off + of_nat (length d)) w1 = (b2, w2)" by fastforce
  have good1: "good w1" "placed w1 = placed w" "fsize w1 = fsize w" "resizable w1 = resizable w" using loop(2) by (simp_all add: written_def)
  note law = update_law [OF good1(1) upd]
  have "b = b2" "w' = w2" "lc' = lc1" using r path d loop(1) wt(4) upd by (simp_all add: wt_Write_def WriteSequential_def)
  then show ?thesis using law loop good1 by (intro conjI exI [of _ w1]) simp_all
qed

end

end
