(* ===== verification/ClientFiles.thy ===== *)
theory ClientFiles
  imports ClientService Snapshots
begin

text \<open>
  The client, the master and the chunkservers together: \<open>file_service\<close> interpreted on the handlers of the services, and
  what a user of the client program sees of files.
\<close>

section \<open>The services as a file service\<close>

definition sv_good :: "string \<Rightarrow> remotes cluster \<Rightarrow> bool" where
  "sv_good here c \<longleftrightarrow> here \<noteq> [] \<and> ma_inv (cl_master c) \<and> remotes_ok (cl_world c) \<and> cl_world c [] = None"

definition sv_placed :: "remotes cluster \<Rightarrow> placement" where
  "sv_placed c path i =
     (if path = [] then None
      else map_option (\<lambda>l. (lo_chunk_handle l, locations_of (lo_replica_server_ids l) (lo_replica_addresses l)))
        (rp_body (fst (ms_GetChunkLocations (Some (path, i)) c))))"

definition sv_bytes :: "remotes cluster \<Rightarrow> holdings" where
  "sv_bytes c addr h = (case cl_world c addr of None \<Rightarrow> None | Some t \<Rightarrow> cv_bytes t h)"

definition sv_size :: "remotes cluster \<Rightarrow> file_path \<Rightarrow> 64 word option" where
  "sv_size c path = map_option fm_size (md_GetFile (ma_metadata (cl_master c)) path)"

definition sv_handles :: "remotes cluster \<Rightarrow> file_path \<Rightarrow> chunk_handle list" where
  "sv_handles c = md_GetFileChunks (ma_metadata (cl_master c))"

definition sv_resizable :: "append_io \<Rightarrow> remotes cluster \<Rightarrow> file_path \<Rightarrow> 64 word \<Rightarrow> bool" where
  "sv_resizable io c path n \<longleftrightarrow> path \<noteq> [] \<and> fst (ma_UpdateFileSize io path n (cl_master c))"

lemma GetChunkLocations_result:
  "snd (ms_GetChunkLocations rq c) = c"
  "rp_success (fst (ms_GetChunkLocations rq c)) \<longleftrightarrow> rp_body (fst (ms_GetChunkLocations rq c)) \<noteq> None"
  by (auto simp: ms_GetChunkLocations_def Let_def split: option.split)

lemma sv_placed_world [simp]: "sv_placed (c\<lparr>cl_world := w\<rparr>) = sv_placed c"
proof -
  have ends: "endpoints_loop (c\<lparr>cl_world := w\<rparr>) servers as = endpoints_loop c servers as" for servers as
    by (induction servers arbitrary: as) (simp_all add: GetChunkserverEndpoint_def split: option.split)
  show ?thesis
    by (intro ext) (simp add: sv_placed_def ms_GetChunkLocations_def ends Let_def split: option.split)
qed

lemma sv_master_world [simp]:
  "sv_size (c\<lparr>cl_world := w\<rparr>) = sv_size c"
  "sv_resizable io (c\<lparr>cl_world := w\<rparr>) = sv_resizable io c"
  "sv_handles (c\<lparr>cl_world := w\<rparr>) = sv_handles c"
  by (simp_all add: sv_size_def sv_resizable_def sv_handles_def fun_eq_iff)

lemma sv_read:
  assumes good: "sv_good here c" and r: "main_read service_chunks loc h off len c = (r, c')"
  shows "sv_good here c' \<and> sv_placed c' = sv_placed c \<and> sv_bytes c' = sv_bytes c \<and> sv_size c' = sv_size c \<and>
    r = (case sv_bytes c (rl_address loc) h of None \<Rightarrow> None | Some content \<Rightarrow> slice off len content)"
proof (cases "cl_world c (rl_address loc)")
  case None
  then have "c' = c" "r = None"
    using r by (auto simp: main_read_def service_chunks_def on_remote_def call_at_def answered_def split: if_splits)
  then show ?thesis using None good by (simp add: sv_bytes_def)
next
  case (Some t)
  have inv: "cv_inv t" and ne: "rl_address loc \<noteq> []" using good Some by (auto simp: sv_good_def remotes_ok_def)
  obtain d t' where rd: "cv_ReadChunk h off len t = (d, t')" by fastforce
  note res = cv_ReadChunk_result [OF inv rd]
  have eq: "r = d" "c' = c\<lparr>cl_world := (cl_world c)(rl_address loc \<mapsto> t')\<rparr>"
    using r ne Some rd
    by (auto simp: main_read_def service_chunks_def on_remote_def call_at_def answered_def svc_ReadChunk_def split: option.splits)
  have "sv_bytes c' = sv_bytes c" using eq(2) res Some by (auto simp: sv_bytes_def fun_eq_iff)
  moreover have "sv_good here c'" using good res ne by (auto simp: sv_good_def remotes_ok_def eq(2))
  ultimately show ?thesis using eq res Some by (simp add: sv_bytes_def)
qed

lemma sv_rpc:
  assumes good: "sv_good here c" and r: "write_rpc service_chunks loc h v off data c = (b, c')"
    and dense: "\<And>content. sv_bytes c (rl_address loc) h = Some content \<Longrightarrow> unat off \<le> length content"
  shows "sv_good here c' \<and> sv_placed c' = sv_placed c \<and> sv_size c' = sv_size c \<and> sv_resizable io c' = sv_resizable io c \<and>
    sv_handles c' = sv_handles c \<and>
    (b \<longleftrightarrow> sv_bytes c (rl_address loc) h \<noteq> None \<and> unat off + length data \<le> full_chunk) \<and>
    sv_bytes c' = (if b then put_bytes (rl_address loc) h
      (overlay (the (sv_bytes c (rl_address loc) h)) (unat off) data) (sv_bytes c) else sv_bytes c)"
proof (cases "cl_world c (rl_address loc)")
  case None
  then have "c' = c" "\<not> b"
    using r by (auto simp: write_rpc_def service_chunks_def on_remote_def call_at_def accepted_def split: if_splits)
  then show ?thesis using None good by (simp add: sv_bytes_def)
next
  case (Some t)
  have inv: "cv_inv t" and ne: "rl_address loc \<noteq> []" using good Some by (auto simp: sv_good_def remotes_ok_def)
  obtain b1 t' where wr: "cv_WriteChunk h off data t = (b1, t')" by fastforce
  have "unat off \<le> length content" if "cv_bytes t h = Some content" for content
    using dense that Some by (simp add: sv_bytes_def)
  note res = cv_WriteChunk_result [OF inv wr this]
  have eq: "b = b1" "c' = c\<lparr>cl_world := (cl_world c)(rl_address loc \<mapsto> t')\<rparr>"
    using r ne Some wr
    by (auto simp: write_rpc_def service_chunks_def on_remote_def call_at_def accepted_def svc_WriteChunk_def)
  have "sv_bytes c' = (if b then put_bytes (rl_address loc) h
      (overlay (the (sv_bytes c (rl_address loc) h)) (unat off) data) (sv_bytes c) else sv_bytes c)"
    using eq res Some by (auto simp: sv_bytes_def fun_eq_iff put_bytes_at split: option.splits)
  moreover have "sv_good here c'" using good res ne by (auto simp: sv_good_def remotes_ok_def eq(2))
  ultimately show ?thesis using eq res Some by (auto simp: sv_bytes_def full_chunk_def)
qed

lemma sv_update:
  assumes good: "sv_good here c" and r: "mc_UpdateFileSize (service_master io here) (MasterClient here) path n c = (b, c')"
  shows "(b \<longleftrightarrow> sv_resizable io c path n) \<and> sv_good here c' \<and> sv_placed c' = sv_placed c \<and> sv_bytes c' = sv_bytes c \<and>
    sv_size c' = (if b then (sv_size c)(path \<mapsto> n) else sv_size c)"
proof (cases "path = []")
  case True
  then show ?thesis using r good by (simp add: mc_UpdateFileSize_def mc_call_def accepted_def sv_resizable_def)
next
  case False
  let ?m = "cl_master c"
  obtain ok m' where u: "ma_UpdateFileSize io path n ?m = (ok, m')" by fastforce
  have c': "b = ok" "c' = c\<lparr>cl_master := m'\<rparr>"
    using r False u good
    by (auto simp: mc_UpdateFileSize_def mc_call_def accepted_def service_master_def at_master_def ms_UpdateFileSize_def relay_def
        on_master_def MasterClient_def sv_good_def)
  have inv: "ma_inv m'" using good u ma_chunk_ops_inv(1) [of ?m io path n] by (simp add: sv_good_def)
  obtain la m1 where log: "AppendOperation io OpUpdateFileSize [path, to_string n] ?m = (la, m1)" by fastforce
  have m1: "same_memory ?m m1" using AppendOperation_memory [of ?m io OpUpdateFileSize "[path, to_string n]"] log by simp
  note same = same_memory_fields [OF m1]
  have eff: "ma_replicas m' = ma_replicas ?m \<and> (\<not> ok \<and> ma_metadata m' = ma_metadata ?m \<or>
      ok \<and> (\<exists>f. map_of (md_files (ma_metadata ?m)) path = Some f \<and>
        ma_metadata m' = md_put_file (ma_metadata ?m) path (f\<lparr>fm_size := n\<rparr>)))"
    using u log same by (auto simp: ma_UpdateFileSize_def md_UpdateFileSize_def and_then_eq on_metadata_def md_FileExists_def
        split: option.splits if_splits)
  have ends: "endpoints_loop (c\<lparr>cl_master := m'\<rparr>) servers as = endpoints_loop c servers as" for servers as
    by (induction servers arbitrary: as) (simp_all add: GetChunkserverEndpoint_def split: option.split)
  have "md_GetFileChunks (ma_metadata m') p = md_GetFileChunks (ma_metadata ?m) p"
      "md_GetChunk (ma_metadata m') g = md_GetChunk (ma_metadata ?m) g" for p g
    using eff by (auto simp: md_GetFileChunks_def md_GetChunk_def md_put_file_def)
  then have "sv_placed c' = sv_placed c"
    using eff by (intro ext) (simp add: c'(2) sv_placed_def ms_GetChunkLocations_def ends Let_def split: option.split)
  moreover have "sv_size c' = (if b then (sv_size c)(path \<mapsto> n) else sv_size c)"
    using eff by (auto simp: c' sv_size_def md_GetFile_def md_put_file_def fun_eq_iff)
  ultimately show ?thesis using good inv False u by (simp add: c' sv_good_def sv_bytes_def sv_resizable_def fun_eq_iff)
qed

abbreviation service_backend :: "append_io \<Rightarrow> string \<Rightarrow> (remotes cluster \<Rightarrow> int) \<Rightarrow> remotes cluster backend" where
  "service_backend io here time \<equiv>
     \<lparr>be_stub = service_master io here, be_clock = (\<lambda>c. (time c, c)), be_master_client = MasterClient here\<rparr>"

interpretation services: file_service "service_backend io here time" "main_read service_chunks" "main_write service_chunks"
    "mc_UpdateFileSize (service_master io here) (MasterClient here)" "sv_good here" sv_placed sv_bytes sv_size "sv_resizable io"
  for io here time
proof
  fix c path and i :: chunk_index
  show "snd (be_clock (service_backend io here time) c) = c" by simp
  assume good: "sv_good here c" and path: "path \<noteq> ([] :: string)"
  have here: "here \<noteq> []" using good by (simp add: sv_good_def)
  show "\<exists>f. mc_LookupFile (be_stub (service_backend io here time)) (be_master_client (service_backend io here time)) path c = (f, c) \<and>
      map_option fv_size f = sv_size c path"
    using path here by (cases "ma_GetFile (cl_master c) path")
      (simp_all add: mc_LookupFile_def MasterClient_def service_master_def at_master_def ms_GetFileInfo_def answered_def
        file_view_of_def sv_size_def ma_GetFile_def)
  obtain r where loc: "ms_GetChunkLocations (Some (path, i)) c = (r, c)" using GetChunkLocations_result(1) by (metis prod.collapse)
  show "\<exists>ch. mc_LookupChunk (be_stub (service_backend io here time)) (be_master_client (service_backend io here time)) path i c = (ch, c) \<and>
      map_option (\<lambda>ch. (ci_handle ch, ci_locations ch)) ch = sv_placed c path i"
    using path here loc GetChunkLocations_result(2) [of "Some (path, i)" c] by (cases "rp_body r")
      (simp_all add: mc_LookupChunk_def MasterClient_def service_master_def at_master_def answered_def sv_placed_def chunk_info_of_def)
next
  fix c loc h off data b c'
  assume good: "sv_good here c" and wr: "main_write service_chunks loc h off data c = (b, c')"
    and dense: "\<And>content. sv_bytes c (rl_address loc) h = Some content \<Longrightarrow> unat off \<le> length content"
  show "sv_good here c' \<and> sv_placed c' = sv_placed c \<and> sv_size c' = sv_size c \<and> sv_resizable io c' = sv_resizable io c \<and>
      (b \<longleftrightarrow> sv_bytes c (rl_address loc) h \<noteq> None \<and> unat off + length data \<le> full_chunk) \<and>
      sv_bytes c' = (if b then put_bytes (rl_address loc) h (overlay (the (sv_bytes c (rl_address loc) h)) (unat off) data) (sv_bytes c) else sv_bytes c)"
    using sv_rpc [OF good wr [unfolded main_write_def] dense] by blast
qed (erule (1) sv_read, erule (1) sv_update)

section \<open>The client of the services\<close>

text \<open>What a read of a file with these bytes returns.\<close>

definition read_outcome :: "string \<Rightarrow> 64 word \<Rightarrow> 64 word \<Rightarrow> bool \<times> string" where
  "read_outcome data off len =
     (if len = 0 then (True, []) else if unat off > length data then (False, [])
      else (True, take (unat len) (drop (unat off) data)))"

text \<open>A file whose chunks the client can reach holds \<open>data\<close>.\<close>

definition file_holds :: "remotes cluster \<Rightarrow> file_path \<Rightarrow> string \<Rightarrow> bool" where
  "file_holds c path data \<longleftrightarrow> path \<noteq> [] \<and> length data < 2 ^ 64 \<and> sv_size c path = Some (of_nat (length data)) \<and>
     chunks_hold (sv_placed c) (sv_bytes c) path data"

lemma service_client_parts:
  "gc_backend (service_client io here time) = service_backend io here time"
  "gc_read_function (service_client io here time) = Some (main_read service_chunks)"
  "gc_writer (service_client io here time) =
     \<lparr>wt_write_function = Some (main_write service_chunks), wt_file_size_updater = Some (mc_UpdateFileSize (service_master io here) (MasterClient here)),
      wt_chunk_size_updater = None, wt_copy_on_write_function = None\<rparr>"
  by (simp_all add: service_client_def main_client_def GFSClient_def gc_SetRecordAppendFileSizeUpdater_def
      gc_SetRecordAppendFunction_def gc_SetFileCreateFunction_def Let_def)

lemma client_read:
  "gc_Read (service_client io here time) = rd_Read (service_backend io here time) (Some (main_read service_chunks))"
  by (simp add: gc_Read_def service_client_parts)

lemma client_write:
  "gc_Write (service_client io here time) = wt_Write (service_backend io here time)
     \<lparr>wt_write_function = Some (main_write service_chunks), wt_file_size_updater = Some (mc_UpdateFileSize (service_master io here) (MasterClient here)),
      wt_chunk_size_updater = None, wt_copy_on_write_function = None\<rparr>"
  by (simp add: gc_Write_def service_client_parts)

lemma sv_own:
  assumes "sv_good here c"
  shows "own_chunks (sv_placed c) path"
proof -
  let ?md = "ma_metadata (cl_master c)"
  have inv: "md_inv ?md" using assms ma_invD(1) by (auto simp: sv_good_def)
  have dist: "distinct (md_GetFileChunks ?md path)"
    using md_file_ok [OF inv, of path] by (auto simp: md_GetFileChunks_def file_ok_def split: option.splits)
  have at: "h = md_GetFileChunks ?md path ! unat i \<and> unat i < length (md_GetFileChunks ?md path)" if "sv_placed c path i = Some (h, locs)" for i h locs
    using that by (auto simp: sv_placed_def ms_GetChunkLocations_def Let_def split: if_splits option.splits)
  have "i = j" if "sv_placed c path i = Some (h, li)" "sv_placed c path j = Some (h, lj)" for i j h li lj
    using at [OF that(1)] at [OF that(2)] nth_eq_iff_index_eq [OF dist, of "unat i" "unat j"] by (simp add: word_unat_eq_iff)
  then show ?thesis unfolding own_chunks_def by blast
qed

lemma read_holding:
  assumes "sv_good here c" and "cache_ok (sv_placed c) lc" and "file_holds c path data"
    and "gc_Read (service_client io here time) path off len (lc, c) = (r, lc', c')"
  shows "r = read_outcome data off len" and "sv_good here c'" and "sv_bytes c' = sv_bytes c" and "sv_placed c' = sv_placed c"
    and "sv_size c' = sv_size c" and "cache_ok (sv_placed c') lc'"
proof -
  have f: "path \<noteq> []" "length data < 2 ^ 64" "sv_size c path = Some (of_nat (length data))"
      "chunks_hold (sv_placed c) (sv_bytes c) path data" using assms(3) by (simp_all add: file_holds_def)
  note res = services.read_file [OF assms(1,2) f(1,4,3,2) assms(4) [unfolded client_read]]
  show "r = read_outcome data off len" using res by (simp add: read_outcome_def)
  show "sv_good here c'" "sv_bytes c' = sv_bytes c" "sv_placed c' = sv_placed c" "sv_size c' = sv_size c" "cache_ok (sv_placed c') lc'"
    using res by (auto simp: services.unmoved_def)
qed

text \<open>A write through the client on a file with these bytes.\<close>

lemma write_holding:
  assumes good: "sv_good here c" and lc: "cache_ok (sv_placed c) lc" and hold: "file_holds c path data"
    and exist: "chunks_exist (sv_placed c) (sv_bytes c) path (unat off + length d)"
    and off: "unat off \<le> length data" "unat off + length d < 2 ^ 64" and d: "d \<noteq> []"
    and r: "gc_Write (service_client io here time) path off d (lc, c) = (b, lc', c')"
  shows "b \<longleftrightarrow> sv_resizable io c path (off + of_nat (length d))" and "sv_good here c'" and "sv_placed c' = sv_placed c"
    and "cache_ok (sv_placed c') lc'" and "chunks_hold (sv_placed c) (sv_bytes c') path (overlay data (unat off) d)"
    and "sv_size c' = (if b then (sv_size c)(path \<mapsto> off + of_nat (length d)) else sv_size c)"
    and "\<And>a g. sv_bytes c' a g \<noteq> sv_bytes c a g \<Longrightarrow> write_target (sv_placed c) (sv_bytes c) path a g"
proof -
  have path: "path \<noteq> []" "length data < 2 ^ 64" "chunks_hold (sv_placed c) (sv_bytes c) path data" using hold by (simp_all add: file_holds_def)
  have "(b \<longleftrightarrow> sv_resizable io c path (off + of_nat (length d))) \<and> (\<exists>c1. services.written here io c c1 path \<and>
      sv_good here c' \<and> sv_placed c' = sv_placed c \<and> sv_bytes c' = sv_bytes c1 \<and>
      cache_ok (sv_placed c) lc' \<and> chunks_hold (sv_placed c) (sv_bytes c') path (overlay data (unat off) d) \<and>
      sv_size c' = (if b then (sv_size c)(path \<mapsto> off + of_nat (length d)) else sv_size c))"
    by (rule services.write_file [OF _ _ _ _ good lc path(1) sv_own [OF good] path(3) exist off path(2) d r [unfolded client_write]]) simp_all
  then obtain c1 where res: "b \<longleftrightarrow> sv_resizable io c path (off + of_nat (length d))" "services.written here io c c1 path" "sv_good here c'" "sv_placed c' = sv_placed c" "sv_bytes c' = sv_bytes c1"
      "cache_ok (sv_placed c) lc'" "chunks_hold (sv_placed c) (sv_bytes c') path (overlay data (unat off) d)"
      "sv_size c' = (if b then (sv_size c)(path \<mapsto> off + of_nat (length d)) else sv_size c)"
    by blast
  show "b \<longleftrightarrow> sv_resizable io c path (off + of_nat (length d))" "sv_good here c'" "sv_placed c' = sv_placed c"
    "cache_ok (sv_placed c') lc'" "chunks_hold (sv_placed c) (sv_bytes c') path (overlay data (unat off) d)"
    "sv_size c' = (if b then (sv_size c)(path \<mapsto> off + of_nat (length d)) else sv_size c)"
    using res by simp_all
  show "write_target (sv_placed c) (sv_bytes c) path a g" if "sv_bytes c' a g \<noteq> sv_bytes c a g" for a g
    using that res(2,5) by (simp add: services.written_def)
qed

lemma chunks_hold_take:
  assumes "chunks_hold placed bytes path data"
  shows "chunks_hold placed bytes path (take n data)"
  unfolding chunks_hold_def
proof (intro allI impI)
  fix i assume "i * full_chunk < length (take n data)"
  then obtain h locs c where c: "placed path (of_nat i) = Some (h, locs)" "h \<noteq> 0" "chunk_bytes bytes h locs = Some c"
      "prefix (take full_chunk (drop (i * full_chunk) data)) c"
    using assms unfolding chunks_hold_def by fastforce
  have "drop (i * full_chunk) data = drop (i * full_chunk) (take n data @ drop n data)" by simp
  then have "prefix (take full_chunk (drop (i * full_chunk) (take n data))) (take full_chunk (drop (i * full_chunk) data))"
    unfolding drop_append by simp
  then show "\<exists>h locs c. placed path (of_nat i) = Some (h, locs) \<and> h \<noteq> 0 \<and> chunk_bytes bytes h locs = Some c \<and>
      prefix (take full_chunk (drop (i * full_chunk) (take n data))) c"
    using c prefix_order.trans by blast
qed

lemma chunks_hold_exist: "chunks_hold placed bytes path data \<Longrightarrow> n \<le> length data \<Longrightarrow> chunks_exist placed bytes path n"
  unfolding chunks_hold_def chunks_exist_def by (metis less_le_trans option.distinct(1))

section \<open>A stored file\<close>

text \<open>One chunk with two replicas, and the same after a snapshot.\<close>

definition stored_master :: master where
  "stored_master = snd (ma_UpdateFileSize io_ok ''/f'' 4 (snd (ma_RegisterReplica 1 8 False sample_master)))"

definition stored :: "master \<Rightarrow> chunkserver \<Rightarrow> chunkserver \<Rightarrow> remotes cluster" where
  "stored m s t = \<lparr>cl_master = m, cl_chunkservers = [], cl_endpoints = [(7, ''a''), (8, ''b'')], cl_heap = \<lambda>_. s,
     cl_world = [''a'' \<mapsto> s, ''b'' \<mapsto> t]\<rparr>"

definition one_chunk :: "master \<Rightarrow> bool" where
  "one_chunk m \<longleftrightarrow> map_option fm_size (md_GetFile (ma_metadata m) ''/f'') = Some 4 \<and> md_GetFileChunks (ma_metadata m) ''/f'' = [1] \<and>
     md_GetChunk (ma_metadata m) 1 \<noteq> None \<and> rm_GetReplicaServers (ma_replicas m) 1 = [7, 8]"

lemma stored_master_eq:
  "one_chunk stored_master"
  "fst (ma_CreateSnapshot io_ok ''/f'' ''/s'' stored_master)"
  "one_chunk (snd (ma_CreateSnapshot io_ok ''/f'' ''/s'' stored_master))"
  "fst (ma_UpdateFileSize io_ok ''/f'' 2 stored_master)"
  by code_simp+

lemma stored_master_inv: "ma_inv stored_master"
proof -
  have "ma_inv (snd (ma_RegisterReplica 1 8 False sample_master))"
    using masters.reachable_inv [OF sample_master_reachable] by (auto intro: inv_intros)
  then show ?thesis unfolding stored_master_def by (rule ma_chunk_ops_inv)
qed

lemma stored_holds:
  assumes "one_chunk m" and "cv_bytes s 1 = Some ''abcd''"
  shows "sv_placed (stored m s t) ''/f'' 0 =
      Some (1, [\<lparr>rl_server_id = 7, rl_address = ''a''\<rparr>, \<lparr>rl_server_id = 8, rl_address = ''b''\<rparr>])"
    and "serving (sv_bytes (stored m s t)) 1 [\<lparr>rl_server_id = 7, rl_address = ''a''\<rparr>, \<lparr>rl_server_id = 8, rl_address = ''b''\<rparr>] =
      Some \<lparr>rl_server_id = 7, rl_address = ''a''\<rparr>"
    and "file_holds (stored m s t) ''/f'' ''abcd''"
proof -
  show p: "sv_placed (stored m s t) ''/f'' 0 =
      Some (1, [\<lparr>rl_server_id = 7, rl_address = ''a''\<rparr>, \<lparr>rl_server_id = 8, rl_address = ''b''\<rparr>])"
    using assms(1) by (auto simp: sv_placed_def ms_GetChunkLocations_def stored_def one_chunk_def GetChunkserverEndpoint_def locations_of_def respond_def)
  show v: "serving (sv_bytes (stored m s t)) 1 [\<lparr>rl_server_id = 7, rl_address = ''a''\<rparr>, \<lparr>rl_server_id = 8, rl_address = ''b''\<rparr>] =
      Some \<lparr>rl_server_id = 7, rl_address = ''a''\<rparr>"
    using assms(2) by (simp add: serving_def sv_bytes_def stored_def)
  have "sv_size (stored m s t) ''/f'' = Some 4" using assms(1) by (simp add: sv_size_def stored_def one_chunk_def)
  moreover have "chunks_hold (sv_placed (stored m s t)) (sv_bytes (stored m s t)) ''/f'' ''abcd''"
    unfolding chunks_hold_def
  proof (intro allI impI)
    fix i assume "i * full_chunk < length ''abcd''"
    then have "i = 0" by (cases i) (simp_all add: full_chunk_def)
    moreover have "chunk_bytes (sv_bytes (stored m s t)) 1 [\<lparr>rl_server_id = 7, rl_address = ''a''\<rparr>, \<lparr>rl_server_id = 8, rl_address = ''b''\<rparr>] =
        Some ''abcd''"
      using v assms(2) by (simp add: chunk_bytes_def sv_bytes_def stored_def)
    ultimately show "\<exists>h locs c. sv_placed (stored m s t) ''/f'' (of_nat i) = Some (h, locs) \<and> h \<noteq> 0 \<and>
        chunk_bytes (sv_bytes (stored m s t)) h locs = Some c \<and> prefix (take full_chunk (drop (i * full_chunk) ''abcd'')) c"
      using p by (simp add: full_chunk_def)
  qed
  ultimately show "file_holds (stored m s t) ''/f'' ''abcd''" by (simp add: file_holds_def)
qed

lemma stored_good:
  assumes "ma_inv m" and "cv_inv s" and "cv_inv t"
  shows "sv_good ''m'' (stored m s t)" and "cache_ok (sv_placed (stored m s t)) (ChunkLocationCache 0)"
  using assms by (auto simp: sv_good_def stored_def remotes_ok_def cache_ok_def ChunkLocationCache_def)

lemma stored_servers: "\<exists>s t. cv_inv s \<and> cv_inv t \<and> cv_bytes s = [1 \<mapsto> ''abcd''] \<and> cv_bytes t = [1 \<mapsto> ''wxyz'']"
  using server_with_chunk [of 7 1 "''abcd''"] server_with_chunk [of 8 1 "''wxyz''"] by auto

lemma stored_exist:
  assumes "cv_bytes s = [1 \<mapsto> ''abcd'']"
  shows "chunks_exist (sv_placed (stored stored_master s t)) (sv_bytes (stored stored_master s t)) ''/f'' (unat (1 :: 64 word) + length ''X'')"
  using chunks_hold_exist [of _ _ _ "''abcd''"] stored_holds(3) [OF stored_master_eq(1), of s t] assms by (simp add: file_holds_def)

lemma stored_write:
  assumes "cv_inv s" and "cv_inv t" and "cv_bytes s = [1 \<mapsto> ''abcd'']"
  shows "\<exists>lc' c'. gc_Write (service_client io_ok ''m'' (\<lambda>_. 0)) ''/f'' 1 ''X'' (ChunkLocationCache 0, stored stored_master s t) = (True, lc', c')"
proof -
  obtain b lc' c' where r: "gc_Write (service_client io_ok ''m'' (\<lambda>_. 0)) ''/f'' 1 ''X'' (ChunkLocationCache 0, stored stored_master s t) = (b, lc', c')"
    using prod_cases3 by blast
  have "b \<longleftrightarrow> sv_resizable io_ok (stored stored_master s t) ''/f'' (1 + of_nat (length ''X''))"
    by (rule write_holding(1) [OF stored_good [OF stored_master_inv assms(1,2)] stored_holds(3) [OF stored_master_eq(1)] stored_exist [OF assms(3)] _ _ _ r])
      (simp_all add: assms(3))
  then have b using stored_master_eq(4) by (simp add: sv_resizable_def stored_def)
  then show ?thesis using r by auto
qed

section \<open>Properties\<close>

text \<open>C4: A read through the client returns exactly the bytes of the file that lie in the range it asks for, cut at the end of
  the file, over all chunk boundaries, as long as every chunk has a replica that can be reached; a read from behind the
  end is refused. The cache may hold any locations, or none, as long as they are the ones the master would give: an entry
  that has become stale, because the file was renamed or deleted and created anew behind the back of this client, is not
  covered. The read changes no chunk on any server, no location and no size, and leaves the cache in agreement with the
  master, so the next read finds the same.\<close>
theorem client_reads_file:
  assumes "sv_good here c" and "cache_ok (sv_placed c) lc" and "file_holds c path data"
    and "gc_Read (service_client io here time) path off len (lc, c) = (r, lc', c')"
  shows "r = read_outcome data off len \<and> sv_bytes c' = sv_bytes c \<and> sv_placed c' = sv_placed c \<and> sv_size c' = sv_size c \<and>
    sv_good here c' \<and> cache_ok (sv_placed c') lc' \<and> file_holds c' path data"
  using read_holding [OF assms] assms(3) by (simp add: file_holds_def)

theorem client_reads_file_witness:
  "\<exists>c (c' :: remotes cluster) lc lc'. gc_Read (service_client io_ok ''m'' (\<lambda>_. 0)) ''/f'' 1 2 (lc, c) = ((True, ''bc''), lc', c')"
proof -
  obtain s t where st: "cv_inv s" "cv_inv t" "cv_bytes s = [1 \<mapsto> ''abcd'']" using stored_servers by blast
  let ?c = "stored stored_master s t" and ?lc = "ChunkLocationCache 0"
  obtain r lc' c' where r: "gc_Read (service_client io_ok ''m'' (\<lambda>_. 0)) ''/f'' 1 2 (?lc, ?c) = (r, lc', c')" using prod_cases3 by blast
  have "r = read_outcome ''abcd'' 1 2"
    using client_reads_file [OF stored_good [OF stored_master_inv st(1,2)] stored_holds(3) [OF stored_master_eq(1)] r] st(3) by simp
  then show ?thesis using r by (auto simp: read_outcome_def)
qed

text \<open>C6: A write through the client puts its bytes into the file and cuts the file off behind them: whatever the size was, it is
  then the end of the write, so a write into the middle of a file loses everything that followed. What
  every later read returns is the old beginning and the new bytes.\<close>
theorem client_write_truncates:
  assumes good: "sv_good here c" and lc: "cache_ok (sv_placed c) lc" and hold: "file_holds c path data"
    and exist: "chunks_exist (sv_placed c) (sv_bytes c) path (unat off + length d)"
    and off: "unat off \<le> length data" "unat off + length d < 2 ^ 64" and d: "d \<noteq> []"
    and r: "gc_Write (service_client io here time) path off d (lc, c) = (True, lc', c')"
  shows "fst (gc_Read (service_client io here time) path off' len (lc', c')) = read_outcome (take (unat off) data @ d) off' len"
proof -
  note res = write_holding [OF good lc hold exist off d r]
  let ?data = "take (unat off) data @ d"
  have "take (unat off + length d) (overlay data (unat off) d) = ?data" using off(1) by (simp add: overlay_eq)
  then have "chunks_hold (sv_placed c') (sv_bytes c') path ?data" using chunks_hold_take res(3,5) by metis
  moreover have "length ?data = unat off + length d" using off(1) by simp
  moreover from this have "(of_nat (length ?data) :: 64 word) = off + of_nat (length d)" by simp
  ultimately have "file_holds c' path ?data" using hold off(2) res(6) by (simp add: file_holds_def)
  then show ?thesis using read_holding(1) [OF res(2,4)] by (metis prod.collapse)
qed

theorem client_write_truncates_witness:
  "\<exists>c (c' :: remotes cluster) lc lc'. fst (gc_Read (service_client io_ok ''m'' (\<lambda>_. 0)) ''/f'' 0 4 (lc, c)) = (True, ''abcd'') \<and>
     gc_Write (service_client io_ok ''m'' (\<lambda>_. 0)) ''/f'' 1 ''X'' (lc, c) = (True, lc', c') \<and>
     fst (gc_Read (service_client io_ok ''m'' (\<lambda>_. 0)) ''/f'' 0 4 (lc', c')) = (True, ''aX'')"
proof -
  obtain s t where st: "cv_inv s" "cv_inv t" "cv_bytes s = [1 \<mapsto> ''abcd'']" using stored_servers by blast
  let ?c = "stored stored_master s t"
  obtain lc' c' where r: "gc_Write (service_client io_ok ''m'' (\<lambda>_. 0)) ''/f'' 1 ''X'' (ChunkLocationCache 0, ?c) = (True, lc', c')"
    using stored_write [OF st(1-3)] by blast
  note good = stored_good [OF stored_master_inv st(1,2)]
  have hold: "file_holds ?c ''/f'' ''abcd''" using stored_holds(3) [OF stored_master_eq(1)] st(3) by simp
  obtain res lc1 c1 where before: "gc_Read (service_client io_ok ''m'' (\<lambda>_. 0)) ''/f'' 0 4 (ChunkLocationCache 0, ?c) = (res, lc1, c1)"
    using prod_cases3 by blast
  have "res = read_outcome ''abcd'' 0 4" by (rule read_holding(1) [OF good hold before])
  moreover have "fst (gc_Read (service_client io_ok ''m'' (\<lambda>_. 0)) ''/f'' 0 4 (lc', c')) = read_outcome (take (unat (1 :: 64 word)) ''abcd'' @ ''X'') 0 4"
    using client_write_truncates [OF good hold _ _ _ _ r] stored_exist [OF st(3)] by simp
  ultimately show ?thesis using before r by - 
    (rule exI [of _ ?c], rule exI [of _ c'], rule exI [of _ "ChunkLocationCache 0"], rule exI [of _ lc'], simp add: read_outcome_def)
qed

text \<open>C7: A write through the client reaches one replica of each chunk, the one that serves reads. Every other replica that
  the master lists keeps the bytes it had, although the call has succeeded.\<close>
theorem client_write_reaches_one_replica:
  assumes good: "sv_good here c" and lc: "cache_ok (sv_placed c) lc" and hold: "file_holds c path data"
    and exist: "chunks_exist (sv_placed c) (sv_bytes c) path (unat off + length d)"
    and off: "unat off \<le> length data" "unat off + length d < 2 ^ 64" and d: "d \<noteq> []"
    and r: "gc_Write (service_client io here time) path off d (lc, c) = (b, lc', c')"
    and at: "sv_placed c path i = Some (h, locs)" "serving (sv_bytes c) h locs = Some s"
    and l: "l \<in> set locs" "rl_address l \<noteq> rl_address s"
  shows "sv_bytes c' (rl_address l) h = sv_bytes c (rl_address l) h"
proof (rule ccontr)
  assume "sv_bytes c' (rl_address l) h \<noteq> sv_bytes c (rl_address l) h"
  then obtain j locs' s' where "sv_placed c path j = Some (h, locs')" "serving (sv_bytes c) h locs' = Some s'" "rl_address s' = rl_address l"
    using write_holding(7) [OF good lc hold exist off d r] unfolding write_target_def by blast
  then show False using sv_own [OF good, of path] at l unfolding own_chunks_def by (metis option.inject prod.inject)
qed

theorem client_write_reaches_one_replica_witness:
  "\<exists>c (c' :: remotes cluster) lc lc'. gc_Write (service_client io_ok ''m'' (\<lambda>_. 0)) ''/f'' 1 ''X'' (lc, c) = (True, lc', c') \<and>
     sv_placed c ''/f'' 0 = Some (1, [\<lparr>rl_server_id = 7, rl_address = ''a''\<rparr>, \<lparr>rl_server_id = 8, rl_address = ''b''\<rparr>]) \<and>
     sv_bytes c' ''b'' 1 = Some ''wxyz''"
proof -
  obtain s t where st: "cv_inv s" "cv_inv t" "cv_bytes s = [1 \<mapsto> ''abcd'']" "cv_bytes t = [1 \<mapsto> ''wxyz'']" using stored_servers by blast
  let ?c = "stored stored_master s t"
  obtain lc' c' where r: "gc_Write (service_client io_ok ''m'' (\<lambda>_. 0)) ''/f'' 1 ''X'' (ChunkLocationCache 0, ?c) = (True, lc', c')"
    using stored_write [OF st(1-3)] by blast
  note good = stored_good [OF stored_master_inv st(1,2)]
  note at = stored_holds [OF stored_master_eq(1), of s t]
  have "sv_bytes c' (rl_address \<lparr>rl_server_id = 8, rl_address = ''b''\<rparr>) 1 = sv_bytes ?c (rl_address \<lparr>rl_server_id = 8, rl_address = ''b''\<rparr>) 1"
    by (rule client_write_reaches_one_replica [OF good at(3) _ _ _ _ r at(1,2)]) (use stored_exist [OF st(3)] st(3) in simp_all)
  then have "sv_bytes c' ''b'' 1 = Some ''wxyz''" using st(4) by (simp add: sv_bytes_def stored_def)
  then show ?thesis using r at(1) st(3) by -
    (rule exI [of _ ?c], rule exI [of _ c'], rule exI [of _ "ChunkLocationCache 0"], rule exI [of _ lc'], simp)
qed

text \<open>C8: A snapshot does not stay what it was: the client program gives its writer no copy-on-write function, so a write to the
  source after a successful snapshot goes into the shared chunks, and the snapshot reads back changed.\<close>
theorem snapshot_changes_with_source:
  assumes good: "sv_good here c0" and snap: "ms_CreateSnapshot io (Some (src, dst)) c0 = (reply, c)" "rp_success reply"
    and lc: "cache_ok (sv_placed c) lc" and hold: "file_holds c src data"
    and off: "unat off + length d \<le> length data" and d: "d \<noteq> []"
    and r: "gc_Write (service_client io here time) src off d (lc, c) = (b, lc', c')"
  shows "fst (gc_Read (service_client io here time) dst off' len (lc', c')) = read_outcome (overlay data (unat off) d) off' len"
proof -
  let ?m = "cl_master c0"
  have inv: "ma_inv ?m" using good by (simp add: sv_good_def)
  have ne: "src \<noteq> []" "dst \<noteq> []" using snap by (auto simp: ms_CreateSnapshot_def invalid_def split: if_splits)
  obtain m' where m': "ma_CreateSnapshot io src dst ?m = (True, m')" "c = c0\<lparr>cl_master := m'\<rparr>"
    using snap ne by (auto simp: ms_CreateSnapshot_def relay_def on_master_def split: prod.splits)
  have "ma_inv m'" using ma_CreateSnapshot_inv [OF inv, of io src dst] m'(1) by simp
  then have good': "sv_good here c" using good by (simp add: sv_good_def m'(2))
  note share = snapshot_shares_chunks [OF inv m'(1)]
  have md: "cl_master c = m'" by (simp add: m'(2))
  have "md_GetFileChunks (ma_metadata m') dst = md_GetFileChunks (ma_metadata m') src"
    using share(1,2) by (simp add: md_GetFileChunks_def md_GetFile_def split: option.split)
  then have placed: "sv_placed c dst = sv_placed c src"
    using ne by (intro ext) (simp add: sv_placed_def ms_GetChunkLocations_def md)
  have sz: "sv_size c dst = sv_size c src" using share(1,2) by (simp add: sv_size_def md option.map_comp comp_def)
  have bounds: "unat off \<le> length data" "unat off + length d < 2 ^ 64" using off hold by (simp_all add: file_holds_def)
  have exist: "chunks_exist (sv_placed c) (sv_bytes c) src (unat off + length d)"
    using chunks_hold_exist hold off by (auto simp: file_holds_def)
  note res = write_holding [OF good' lc hold exist bounds d r]
  have "length (overlay data (unat off) d) = length data" using off by (simp add: length_overlay_le)
  moreover have "chunks_hold (sv_placed c') (sv_bytes c') dst (overlay data (unat off) d)"
    using res(3,5) placed by (simp add: chunks_hold_def)
  ultimately have "file_holds c' dst (overlay data (unat off) d)"
    using hold ne sz share(3) res(6) by (simp add: file_holds_def)
  then show ?thesis using read_holding(1) [OF res(2,4)] by (metis prod.collapse)
qed

theorem snapshot_changes_with_source_witness:
  "\<exists>c0 reply c (c' :: remotes cluster) lc lc'. ms_CreateSnapshot io_ok (Some (''/f'', ''/s'')) c0 = (reply, c) \<and> rp_success reply \<and>
     snd (gc_Write (service_client io_ok ''m'' (\<lambda>_. 0)) ''/f'' 1 ''X'' (lc, c)) = (lc', c') \<and>
     fst (gc_Read (service_client io_ok ''m'' (\<lambda>_. 0)) ''/s'' 1 1 (lc', c')) = (True, ''X'')"
proof -
  obtain s t where st: "cv_inv s" "cv_inv t" "cv_bytes s = [1 \<mapsto> ''abcd'']" using stored_servers by blast
  define m where "m = snd (ma_CreateSnapshot io_ok ''/f'' ''/s'' stored_master)"
  have one: "one_chunk m" and inv: "ma_inv m"
    using stored_master_eq(3) ma_CreateSnapshot_inv [OF stored_master_inv] by (simp_all add: m_def)
  have cs: "ma_CreateSnapshot io_ok ''/f'' ''/s'' stored_master = (True, m)" using stored_master_eq(2) by (simp add: m_def prod_eq_iff)
  obtain reply where snap: "ms_CreateSnapshot io_ok (Some (''/f'', ''/s'')) (stored stored_master s t) = (reply, stored m s t)" "rp_success reply"
    using cs by (simp add: ms_CreateSnapshot_def relay_def on_master_def stored_def respond_def)
  obtain b lc' c' where r: "gc_Write (service_client io_ok ''m'' (\<lambda>_. 0)) ''/f'' 1 ''X'' (ChunkLocationCache 0, stored m s t) = (b, lc', c')"
    using prod_cases3 by blast
  have "fst (gc_Read (service_client io_ok ''m'' (\<lambda>_. 0)) ''/s'' 1 1 (lc', c')) = read_outcome (overlay ''abcd'' (unat (1 :: 64 word)) ''X'') 1 1"
    by (rule snapshot_changes_with_source [OF stored_good(1) [OF stored_master_inv st(1,2)] snap stored_good(2) [OF inv st(1,2)]
          stored_holds(3) [OF one] _ _ r]) (use st(3) in simp_all)
  then have "fst (gc_Read (service_client io_ok ''m'' (\<lambda>_. 0)) ''/s'' 1 1 (lc', c')) = (True, ''X'')"
    by (simp add: read_outcome_def overlay_def)
  then show ?thesis using snap r by -
    (rule exI [of _ "stored stored_master s t"], rule exI [of _ reply], rule exI [of _ "stored m s t"], rule exI [of _ c'],
      rule exI [of _ "ChunkLocationCache 0"], rule exI [of _ lc'], simp)
qed

end
