(* ===== verification/ClientAppend.thy ===== *)
theory ClientAppend
  imports ClientFiles
begin

text \<open>
  Record append through the client. The locale \<open>append_service\<close> adds to \<open>file_service\<close> what the record appender and its append
  function rely on: the write call to one chunkserver, the chunk handles of a file, and the replicas that the master
  names. Its main lemma follows one append that fits the last chunk of a file; the interpretation is on the services.
\<close>

section \<open>Writing to every replica\<close>

text \<open>Each of some servers gets the same bytes at the same place of a chunk.\<close>

definition put_all :: "string set \<Rightarrow> chunk_handle \<Rightarrow> nat \<Rightarrow> string \<Rightarrow> holdings \<Rightarrow> holdings" where
  "put_all addrs h off d bytes = (\<lambda>a g. if g = h \<and> a \<in> addrs then map_option (\<lambda>c. overlay c off d) (bytes a g) else bytes a g)"

lemma put_all_empty [simp]: "put_all {} h off d bytes = bytes"
  by (simp add: put_all_def)

lemma overlay_same: "off \<le> length c \<Longrightarrow> overlay (overlay c off d) off d = overlay c off d"
  by (simp add: overlay_eq)

lemma put_all_put:
  assumes "bytes addr h = Some c" and "off \<le> length c"
  shows "put_all addrs h off d (put_bytes addr h (overlay c off d) bytes) = put_all (insert addr addrs) h off d bytes"
  using assms overlay_same by (auto simp: put_all_def put_bytes_at fun_eq_iff)

lemma put_all_None: "put_all addrs h off d bytes a g = None \<longleftrightarrow> bytes a g = None"
  by (simp add: put_all_def)

lemma serving_put_all: "serving (put_all addrs h off d bytes) = serving bytes"
  by (simp add: serving_def put_all_None fun_eq_iff)

lemma chunk_bytes_put_all:
  "chunk_bytes (put_all addrs h off d bytes) g locs =
     (case serving bytes g locs of None \<Rightarrow> None
      | Some l \<Rightarrow> if g = h \<and> rl_address l \<in> addrs then map_option (\<lambda>c. overlay c off d) (bytes (rl_address l) g) else bytes (rl_address l) g)"
  unfolding chunk_bytes_def serving_put_all by (simp add: put_all_def split: option.split)

lemma chunks_hold_cong:
  assumes "\<And>j h locs. placed path j = Some (h, locs) \<Longrightarrow> chunk_bytes b h locs = chunk_bytes b' h locs"
  shows "chunks_hold placed b path data \<longleftrightarrow> chunks_hold placed b' path data"
  unfolding chunks_hold_def using assms by (metis (no_types, lifting))

text \<open>The bytes behind the end of the file, on every replica of the chunk there.\<close>

lemma chunks_hold_append:
  assumes hold: "chunks_hold placed bytes path data" and own: "own_chunks placed path"
    and at: "placed path (of_nat i) = Some (h, locs)" "h \<noteq> 0" "serving bytes h locs = Some l" "bytes (rl_address l) h = Some c"
    and off: "length data = i * full_chunk + o1" "o1 + length d \<le> full_chunk" and d: "d \<noteq> []"
    and small: "length data + length d < 2 ^ 64" and l: "rl_address l \<in> addrs"
  shows "chunks_hold placed (put_all addrs h o1 d bytes) path (data @ d)"
proof -
  have "chunks_hold placed (put_bytes (rl_address l) h (overlay c o1 d) bytes) path (overlay data (length data) d)"
    by (rule chunks_hold_write [OF hold own at off _ d]) (use small in simp_all)
  moreover have "chunk_bytes (put_bytes (rl_address l) h (overlay c o1 d) bytes) g gl = chunk_bytes (put_all addrs h o1 d bytes) g gl"
    if "placed path j = Some (g, gl)" for j g gl
  proof (cases "g = h")
    case True
    then have "gl = locs" using own at(1) that unfolding own_chunks_def by (metis option.inject prod.inject)
    then show ?thesis
      unfolding chunk_bytes_put_all using True at(3,4) l by (simp add: chunk_bytes_def serving_put put_bytes_at)
  next
    case False
    then show ?thesis
      unfolding chunk_bytes_put_all using at(4) by (simp add: chunk_bytes_put(1)) (simp add: chunk_bytes_def False split: option.split)
  qed
  ultimately show ?thesis using chunks_hold_cong by (metis overlay_end)
qed

section \<open>What appending relies on\<close>

locale append_service = file_service be rfn wfn upd good placed bytes fsize resizable
  for be :: "'w backend" and rfn wfn upd good placed bytes fsize resizable +
  fixes sk :: "'w chunk_stub" and handles :: "'w \<Rightarrow> file_path \<Rightarrow> chunk_handle list"
  assumes rpc_law: "good w \<Longrightarrow> write_rpc sk loc h v off data w = (b, w') \<Longrightarrow>
      (\<And>c. bytes w (rl_address loc) h = Some c \<Longrightarrow> unat off \<le> length c) \<Longrightarrow>
      good w' \<and> placed w' = placed w \<and> fsize w' = fsize w \<and> resizable w' = resizable w \<and> handles w' = handles w \<and>
      (b \<longleftrightarrow> bytes w (rl_address loc) h \<noteq> None \<and> unat off + length data \<le> full_chunk) \<and>
      bytes w' = (if b then put_bytes (rl_address loc) h
        (overlay (the (bytes w (rl_address loc) h)) (unat off) data) (bytes w) else bytes w)"
    and handles_law: "good w \<Longrightarrow> mc_LookupFile (be_stub be) (be_master_client be) path w = (Some f, w) \<Longrightarrow>
      fv_chunk_handles f = handles w path \<and> fv_chunk_count f = of_nat (length (handles w path))"
    and place_law: "good w \<Longrightarrow> placed w path i = Some (h, locs) \<Longrightarrow>
      handle_index h (handles w path) = Some (unat i) \<and> distinct (map rl_server_id locs) \<and> 0 \<notin> rl_server_id ` set locs"
begin

definition kept :: "'w \<Rightarrow> 'w \<Rightarrow> bool" where
  "kept w w' \<longleftrightarrow> good w' \<and> placed w' = placed w \<and> fsize w' = fsize w \<and> resizable w' = resizable w \<and> handles w' = handles w"

text \<open>A replica that has the chunk up to the place of the write.\<close>

definition ready :: "'w \<Rightarrow> chunk_handle \<Rightarrow> nat \<Rightarrow> replica_location \<Rightarrow> bool" where
  "ready w h off l \<longleftrightarrow> (\<exists>c. bytes w (rl_address l) h = Some c \<and> off \<le> length c)"

lemma rpc_ready:
  assumes good: "good w" and l: "ready w h (unat off) l" and fits: "unat off + length d \<le> full_chunk"
  shows "\<exists>w'. write_rpc sk l h v off d w = (True, w') \<and> kept w w' \<and> bytes w' = put_all {rl_address l} h (unat off) d (bytes w) \<and>
    (\<forall>k. ready w h (unat off) k \<longrightarrow> ready w' h (unat off) k)"
proof -
  obtain c where c: "bytes w (rl_address l) h = Some c" "unat off \<le> length c" using l by (auto simp: ready_def)
  obtain b w' where r: "write_rpc sk l h v off d w = (b, w')" by fastforce
  have law: "b" "kept w w'" "bytes w' = put_bytes (rl_address l) h (overlay c (unat off) d) (bytes w)"
    using rpc_law [OF good r] c fits by (simp_all add: kept_def)
  have "put_bytes (rl_address l) h (overlay c (unat off) d) (bytes w) = put_all {rl_address l} h (unat off) d (bytes w)"
    using put_all_put [of "bytes w" "rl_address l" h c "unat off" "{}" d] c by simp
  moreover have "ready w' h (unat off) k" if "ready w h (unat off) k" for k
    using that c(2) by (auto simp: ready_def law(3) put_bytes_at length_overlay_le)
  ultimately show ?thesis using r law by auto
qed

lemma put_all_union: "(\<And>a. a \<in> A \<Longrightarrow> \<exists>c. bytes w a h = Some c \<and> off \<le> length c) \<Longrightarrow>
    put_all B h off d (put_all A h off d (bytes w)) = put_all (A \<union> B) h off d (bytes w)"
  using overlay_same by (fastforce simp: put_all_def fun_eq_iff)

lemma write_secondaries_ready:
  "good w \<Longrightarrow> (\<And>l. l \<in> set locs \<Longrightarrow> rl_server_id l \<noteq> primary \<Longrightarrow> ready w h (unat off) l) \<Longrightarrow> unat off + length d \<le> full_chunk \<Longrightarrow>
    \<exists>w'. write_secondaries sk primary h v off d locs w = (True, w') \<and> kept w w' \<and>
      bytes w' = put_all (rl_address ` {l \<in> set locs. rl_server_id l \<noteq> primary}) h (unat off) d (bytes w)"
proof (induction locs arbitrary: w)
  case Nil
  then show ?case by (simp add: kept_def)
next
  case (Cons l locs)
  show ?case
  proof (cases "rl_server_id l = primary")
    case True
    then have "{k \<in> set (l # locs). rl_server_id k \<noteq> primary} = {k \<in> set locs. rl_server_id k \<noteq> primary}" by auto
    then show ?thesis using Cons.IH [OF Cons.prems(1)] Cons.prems(2,3) True by simp
  next
    case False
    then have l: "ready w h (unat off) l" using Cons.prems(2) by simp
    obtain w1 where w1: "write_rpc sk l h v off d w = (True, w1)" "kept w w1" "bytes w1 = put_all {rl_address l} h (unat off) d (bytes w)"
        "\<And>k. ready w h (unat off) k \<Longrightarrow> ready w1 h (unat off) k"
      using rpc_ready [OF Cons.prems(1) l Cons.prems(3)] by blast
    have "good w1" using w1(2) by (simp add: kept_def)
    then obtain w' where w': "write_secondaries sk primary h v off d locs w1 = (True, w')" "kept w1 w'"
        "bytes w' = put_all (rl_address ` {k \<in> set locs. rl_server_id k \<noteq> primary}) h (unat off) d (bytes w1)"
      using Cons.IH [of w1] Cons.prems(2,3) w1(4) by auto
    have "bytes w' = put_all ({rl_address l} \<union> rl_address ` {k \<in> set locs. rl_server_id k \<noteq> primary}) h (unat off) d (bytes w)"
      unfolding w'(3) w1(3) using l by (intro put_all_union) (auto simp: ready_def)
    moreover have "{rl_address l} \<union> rl_address ` {k \<in> set locs. rl_server_id k \<noteq> primary} =
        rl_address ` {k \<in> set (l # locs). rl_server_id k \<noteq> primary}" using False by auto
    moreover have "kept w w'" using w1(2) w'(2) by (simp add: kept_def)
    ultimately show ?thesis using w1(1) w'(1) False by simp
  qed
qed

lemma resolve_append:
  assumes good: "good w" and lc: "cache_ok (placed w) lc" and path: "path \<noteq> []"
    and at: "placed w path i = Some (h, locs)" "h \<noteq> 0" "locs \<noteq> []"
  shows "\<exists>lc' e. ra_ResolveOrAllocateChunk be path i (lc, w) = (Some e, lc', w) \<and> cache_ok (placed w) lc' \<and> ce_handle e = h \<and> ce_locations e = locs"
proof -
  obtain ch where ch: "mc_LookupChunk (be_stub be) (be_master_client be) path i w = (Some ch, w)" "ci_handle ch = h" "ci_locations ch = locs"
    using chunk_law [OF good path, of i] at(1) by auto
  obtain lc' e where e: "enter_chunk be path i (Some ch) (lc, w) = (Some (True, e), lc', w)" "cache_ok (placed w) lc'"
      "ce_handle e = h" "ce_locations e = locs"
    using enter [OF lc path, of ch i] at ch by auto
  have hit: "ce_handle e0 = h \<and> ce_locations e0 = locs" if "map_of (lc_entries lc) (path, i) = Some e0" for e0
    using lc that at(1) by (auto simp: cache_ok_def)
  show ?thesis
    using e ch hit lc by (cases "map_of (lc_entries lc) (path, i)")
      (simp_all add: ra_ResolveOrAllocateChunk_def find_or_allocate_def lookup_cached [OF lc path])
qed

text \<open>The append function of the client program, on the chunk that holds the end of the file.\<close>

lemma main_append_ready:
  assumes good: "good w" and path: "path \<noteq> []" and at: "placed w path (of_nat i) = Some (h, locs)" "h \<noteq> 0" "i < 2 ^ 38"
    and sz: "fsize w path = Some (of_nat n)" "n = i * full_chunk + o1" "n < 2 ^ 64"
    and d: "d \<noteq> []" and fits: "o1 + length d \<le> full_chunk"
    and reps: "\<forall>l \<in> set locs. ready w h o1 l" and p: "p \<in> set locs"
  shows "\<exists>w'. main_append (be_stub be) sk (be_master_client be) path p h v locs d w =
      (append_answer ClientSuccess (of_nat o1) (of_nat o1 + of_nat (length d)) (length d), w') \<and>
    kept w w' \<and> bytes w' = put_all (rl_address ` set locs) h o1 d (bytes w)"
proof -
  note place = place_law [OF good at(1)]
  have o1: "o1 \<le> full_chunk" using fits by simp
  have small: "full_chunk < 2 ^ 64" by (simp add: full_chunk_def)
  have base: "unat (of_nat (i * full_chunk) :: 64 word) = i * full_chunk" using sz(2,3) by (simp add: unat_of_nat del: of_nat_mult)
  have off: "unat (of_nat o1 :: 64 word) = o1" using o1 small by (simp add: unat_of_nat)
  have kbase: "of_nat i * kChunkSize = of_nat (i * full_chunk)" by (simp add: kChunkSize_def full_chunk_def)
  have n: "unat (of_nat n :: 64 word) = n" using sz(3) by (simp add: unat_of_nat)
  have diff: "of_nat n - of_nat (i * full_chunk) = (of_nat o1 :: 64 word)" by (simp add: sz(2))
  have le: "(of_nat (i * full_chunk) :: 64 word) \<le> of_nat n" using base n sz(2) by (simp add: word_le_nat_alt)
  have room: "\<not> kChunkSize < of_nat o1" "unat (kChunkSize - of_nat o1) = full_chunk - o1"
    using o1 off by (simp_all add: word_less_nat_alt word_le_nat_alt unat_sub)
  have len: "\<not> full_chunk - o1 < length d" using fits by simp
  have idx: "unat (of_nat i :: 64 word) = i" using at(3) by (simp add: unat_of_nat)
  obtain f where f: "mc_LookupFile (be_stub be) (be_master_client be) path w = (Some f, w)" "fv_size f = of_nat n"
    using file_law [OF good path] sz(1) by auto
  have index: "handle_index h (fv_chunk_handles f) = Some i" using handles_law [OF good f(1)] place idx by simp
  obtain w1 where w1: "write_rpc sk p h v (of_nat o1) d w = (True, w1)" "kept w w1" "bytes w1 = put_all {rl_address p} h o1 d (bytes w)"
      "\<And>k. ready w h o1 k \<Longrightarrow> ready w1 h o1 k"
    using rpc_ready [OF good, of h "of_nat o1" p d v] reps p fits off by auto
  have address: "rl_address p \<noteq> []" using w1(1) by (auto simp: write_rpc_def)
  have "good w1" using w1(2) by (simp add: kept_def)
  then obtain w' where w': "write_secondaries sk (rl_server_id p) h v (of_nat o1) d locs w1 = (True, w')" "kept w1 w'"
      "bytes w' = put_all (rl_address ` {l \<in> set locs. rl_server_id l \<noteq> rl_server_id p}) h o1 d (bytes w1)"
    using write_secondaries_ready [of w1 locs "rl_server_id p" h "of_nat o1" d v] w1(4) reps fits off by auto
  have "bytes w' = put_all ({rl_address p} \<union> rl_address ` {l \<in> set locs. rl_server_id l \<noteq> rl_server_id p}) h o1 d (bytes w)"
    unfolding w'(3) w1(3) using reps p by (intro put_all_union) (auto simp: ready_def)
  moreover have "l = p" if "l \<in> set locs" "rl_server_id l = rl_server_id p" for l
    using place that p by (meson distinct_map inj_onD)
  then have "{rl_address p} \<union> rl_address ` {l \<in> set locs. rl_server_id l \<noteq> rl_server_id p} = rl_address ` set locs"
    using p by auto
  moreover have "main_append (be_stub be) sk (be_master_client be) path p h v locs d w =
      (append_answer ClientSuccess (of_nat o1) (of_nat o1 + of_nat (length d)) (length d), w')"
    unfolding main_append_def Let_def
    using path address at(2) d f index w1(1) w'(1) le room len by (simp add: kbase diff del: of_nat_mult)
  moreover have "kept w w'" using w1(2) w'(2) by (simp add: kept_def)
  ultimately show ?thesis by simp
qed

definition appender :: "'w record_appender" where
  "appender = \<lparr>ra_append_function = Some (main_append (be_stub be) sk (be_master_client be)), ra_lease_validator = None,
     ra_primary_selector = None, ra_file_size_updater = Some upd, ra_chunk_size_updater = None, ra_max_attempts = RetryPolicy 16\<rparr>"

lemma append_file:
  assumes good: "good w" and lc: "cache_ok (placed w) lc" and path: "path \<noteq> []" and own: "own_chunks (placed w) path"
    and hold: "chunks_hold (placed w) (bytes w) path data" and sz: "fsize w path = Some (of_nat (length data))"
    and i: "length (handles w path) = Suc i" "length data = i * full_chunk + o1" "length data + length d < 2 ^ 64"
    and at: "placed w path (of_nat i) = Some (h, locs)" "h \<noteq> 0" "locs \<noteq> []" and reps: "\<forall>l \<in> set locs. ready w h o1 l"
    and d: "d \<noteq> []" "length d \<le> full_chunk div 4" and fits: "o1 + length d \<le> full_chunk"
    and size_ok: "resizable w path (of_nat (length data + length d))"
  shows "\<exists>lc' w'. ra_Append be appender path d (lc, w) = ((True, of_nat (length data)), lc', w') \<and> good w' \<and> placed w' = placed w \<and>
    cache_ok (placed w) lc' \<and> bytes w' = put_all (rl_address ` set locs) h o1 d (bytes w) \<and>
    fsize w' = (fsize w)(path \<mapsto> of_nat (length data + length d)) \<and> chunks_hold (placed w) (bytes w') path (data @ d)"
proof -
  let ?n = "length data" and ?i = "of_nat i :: 64 word"
  note place = place_law [OF good at(1)]
  have pow: "i * full_chunk < 2 ^ 38 * full_chunk" using i(2,3) by (simp add: full_chunk_def)
  then have i38: "i < 2 ^ 38" by simp
  have kbase: "?i * kChunkSize = of_nat (i * full_chunk)" by (simp add: kChunkSize_def full_chunk_def)
  have base: "unat (of_nat (i * full_chunk) :: 64 word) = i * full_chunk" using i(2,3) by (simp add: unat_of_nat del: of_nat_mult)
  have un: "unat (of_nat k :: 64 word) = k" if "k \<le> ?n + length d" for k using that i(3) by (simp add: unat_of_nat)
  obtain f where f: "mc_LookupFile (be_stub be) (be_master_client be) path w = (Some f, w)" "fv_size f = of_nat ?n"
    using file_law [OF good path] sz by auto
  have count: "fv_chunk_count f = of_nat (Suc i)" using handles_law [OF good f(1)] i(1) by simp
  have suc: "of_nat (Suc i) \<noteq> (0 :: 64 word)" "of_nat (Suc i) - 1 = ?i"
    using i38 by (simp_all add: word_unat_eq_iff unat_of_nat del: of_nat_Suc) (simp add: of_nat_Suc unat_of_nat)
  obtain p ps where p: "locs = p # ps" using at(3) by (cases locs) auto
  obtain lc' e where e: "ra_ResolveOrAllocateChunk be path ?i (lc, w) = (Some e, lc', w)" "cache_ok (placed w) lc'" "ce_handle e = h" "ce_locations e = locs"
    using resolve_append [OF good lc path at] by blast
  obtain ch where ch: "mc_LookupChunk (be_stub be) (be_master_client be) path ?i w = (Some ch, w)" "ci_handle ch = h"
    using chunk_law [OF good path, of ?i] at(1) by auto
  obtain w1 where w1: "main_append (be_stub be) sk (be_master_client be) path p h (if ci_version ch = 0 then 1 else ci_version ch) locs d w =
        (append_answer ClientSuccess (of_nat o1) (of_nat o1 + of_nat (length d)) (length d), w1)"
      "kept w w1" "bytes w1 = put_all (rl_address ` set locs) h o1 d (bytes w)"
    using main_append_ready [OF good path at(1,2) i38 sz i(2) _ d(1) fits reps] i(3) p by fastforce
  obtain b w' where upd: "upd path (of_nat (?n + length d)) w1 = (b, w')" by fastforce
  have good1: "good w1" "resizable w1 = resizable w" "placed w1 = placed w" "fsize w1 = fsize w" using w1(2) by (simp_all add: kept_def)
  note law = update_law [OF good1(1) upd]
  have end1: "of_nat (i * full_chunk) + of_nat o1 = (of_nat ?n :: 64 word)" by (simp add: i(2))
  have bounds: "\<not> u64_max - of_nat (i * full_chunk) < of_nat o1" "\<not> u64_max - of_nat (length d) < of_nat ?n"
      "\<not> of_nat (?n + length d) < (of_nat ?n :: 64 word)"
    using un [of ?n] un [of "?n + length d"] un [of o1] un [of "length d"] base i(2,3)
    by (simp_all add: word_less_nat_alt unat_sub_u64_max del: of_nat_mult of_nat_add)
  have b: "b" "upd path (of_nat (?n + length d)) w1 = (True, w')" using law size_ok good1(2) upd by simp_all
  have fin: "finish_append appender path d f ?i h (append_answer ClientSuccess (of_nat o1) (of_nat o1 + of_nat (length d)) (length d)) w1 =
      ((True, of_nat ?n), w')"
    using b(2) bounds f(2)
    by (simp add: finish_append_def append_answer_def Let_def kbase end1 appender_def tell_chunk_size_def del: of_nat_mult)
  have quarter: "unat (kChunkSize div 4) = full_chunk div 4" by (simp add: unat_div)
  have turn: "append_turn be appender (main_append (be_stub be) sk (be_master_client be)) path d f ?i 1 (lc, w) = (Inl (True, of_nat ?n), lc', w')"
    using e ch w1(1) fin at(2) place p
    by (simp add: append_turn_def SelectPrimary_def ValidateLease_def appender_def append_answer_def)
  have "ra_Append be appender path d (lc, w) = ((True, of_nat ?n), lc', w')"
    using f count suc turn path d quarter
    by (simp add: ra_Append_def appender_def append_loop.simps [of be _ _ path d f ?i 0] CanRetry_def RetryPolicy_def)
  moreover have "p \<in> set locs" "rl_server_id p \<noteq> 0" using p place by auto
  then have "serving (bytes w) h locs = Some p" using reps p by (auto simp: serving_def ready_def)
  then have "chunks_hold (placed w) (bytes w') path (data @ d)"
    unfolding law [THEN conjunct2, THEN conjunct2, THEN conjunct2, THEN conjunct1] w1(3)
    using chunks_hold_append [OF hold own at(1,2) _ _ i(2) fits d(1) i(3)] reps p by (auto simp: ready_def)
  ultimately show ?thesis using law e(2) good1 size_ok w1(3) by auto
qed

end

section \<open>Appending through the services\<close>

lemma handle_index_nth: "distinct hs \<Longrightarrow> i < length hs \<Longrightarrow> handle_index (hs ! i) hs = Some i"
  by (induction hs arbitrary: i) (auto simp: nth_Cons split: nat.split)

lemma sv_place:
  assumes good: "sv_good here c" and at: "sv_placed c path i = Some (h, locs)"
  shows "handle_index h (sv_handles c path) = Some (unat i) \<and> distinct (map rl_server_id locs) \<and> 0 \<notin> rl_server_id ` set locs"
proof -
  let ?m = "cl_master c"
  have inv: "ma_inv ?m" using good by (simp add: sv_good_def)
  have dist: "distinct (sv_handles c path)"
    using md_file_ok [of "ma_metadata ?m" path] ma_invD(1) [OF inv]
    by (auto simp: sv_handles_def md_GetFileChunks_def file_ok_def split: option.splits)
  obtain addrs where p: "h = sv_handles c path ! unat i" "unat i < length (sv_handles c path)"
      "locs = locations_of (rm_GetReplicaServers (ma_replicas ?m) h) addrs"
    using at by (auto simp: sv_placed_def ms_GetChunkLocations_def sv_handles_def respond_def Let_def split: if_splits option.splits)
  have "map rl_server_id locs = rm_GetReplicaServers (ma_replicas ?m) h"
    by (simp add: p(3) locations_of_def comp_def map_nth)
  then show ?thesis
    using replicas_props(1,2) [OF ma_inv_tablesD(1) [OF inv], of h] handle_index_nth [OF dist p(2)] p(1) by (metis set_map)
qed

interpretation appends: append_service "service_backend io here time" "main_read service_chunks" "main_write service_chunks"
    "mc_UpdateFileSize (service_master io here) (MasterClient here)" "sv_good here" sv_placed sv_bytes sv_size "sv_resizable io"
    service_chunks sv_handles
  for io here time
proof
  fix c loc h v off data b c'
  assume good: "sv_good here c" and wr: "write_rpc service_chunks loc h v off data c = (b, c')"
    and dense: "\<And>content. sv_bytes c (rl_address loc) h = Some content \<Longrightarrow> unat off \<le> length content"
  show "sv_good here c' \<and> sv_placed c' = sv_placed c \<and> sv_size c' = sv_size c \<and> sv_resizable io c' = sv_resizable io c \<and>
      sv_handles c' = sv_handles c \<and>
      (b \<longleftrightarrow> sv_bytes c (rl_address loc) h \<noteq> None \<and> unat off + length data \<le> full_chunk) \<and>
      sv_bytes c' = (if b then put_bytes (rl_address loc) h (overlay (the (sv_bytes c (rl_address loc) h)) (unat off) data) (sv_bytes c) else sv_bytes c)"
    using sv_rpc [OF good wr dense] by blast
next
  fix c path f
  assume good: "sv_good here c"
    and f: "mc_LookupFile (be_stub (service_backend io here time)) (be_master_client (service_backend io here time)) path c = (Some f, c)"
  show "fv_chunk_handles f = sv_handles c path \<and> fv_chunk_count f = of_nat (length (sv_handles c path))"
    using f good by (auto simp: mc_LookupFile_def MasterClient_def service_master_def at_master_def ms_GetFileInfo_def answered_def
        file_view_of_def sv_handles_def respond_def sv_good_def split: option.splits if_splits)
qed (rule sv_place)

lemma client_append:
  "gc_Append (service_client io here time) = ra_Append (service_backend io here time) (appends.appender io here time)"
  by (simp add: gc_Append_def service_client_parts appends.appender_def service_client_def main_client_def GFSClient_def
      gc_SetRecordAppendFileSizeUpdater_def gc_SetRecordAppendFunction_def gc_SetFileCreateFunction_def Let_def)

text \<open>A file whose last chunk has every replica in reach, each with the bytes of the file in it.\<close>

definition append_ready :: "remotes cluster \<Rightarrow> file_path \<Rightarrow> nat \<Rightarrow> chunk_handle \<Rightarrow> replica_location list \<Rightarrow> nat \<Rightarrow> bool" where
  "append_ready c path i h locs o1 \<longleftrightarrow> length (sv_handles c path) = Suc i \<and> sv_placed c path (of_nat i) = Some (h, locs) \<and> h \<noteq> 0 \<and> locs \<noteq> [] \<and>
     (\<forall>l \<in> set locs. \<exists>content. sv_bytes c (rl_address l) h = Some content \<and> o1 \<le> length content)"

lemma stored_master_grows: "fst (ma_UpdateFileSize io_ok ''/f'' 6 stored_master)"
  by code_simp

section \<open>Properties\<close>

text \<open>C5: A record append that fits the last chunk, with all replicas of it in reach, succeeds, returns the old end of the
  file as its offset and writes the record there on every replica, not only on one as a write does. Every later read finds
  the old bytes and the record.\<close>
theorem client_append_reaches_all:
  assumes good: "sv_good here c" and lc: "cache_ok (sv_placed c) lc" and hold: "file_holds c path data"
    and ready: "append_ready c path i h locs o1" and sz: "length data = i * full_chunk + o1" "length data + length d < 2 ^ 64"
    and d: "d \<noteq> []" "length d \<le> full_chunk div 4" "o1 + length d \<le> full_chunk"
    and size_ok: "sv_resizable io c path (of_nat (length data + length d))"
    and r: "gc_Append (service_client io here time) path d (lc, c) = ((ok, offset), lc', c')"
  shows "ok \<and> offset = of_nat (length data) \<and> file_holds c' path (data @ d) \<and>
    fst (gc_Read (service_client io here time) path off' len (lc', c')) = read_outcome (data @ d) off' len \<and>
    (\<forall>l \<in> set locs. sv_bytes c' (rl_address l) h = Some (overlay (the (sv_bytes c (rl_address l) h)) o1 d))"
proof -
  have f: "path \<noteq> []" "sv_size c path = Some (of_nat (length data))" "chunks_hold (sv_placed c) (sv_bytes c) path data"
    using hold by (simp_all add: file_holds_def)
  have rd: "length (sv_handles c path) = Suc i" "sv_placed c path (of_nat i) = Some (h, locs)" "h \<noteq> 0" "locs \<noteq> []"
      "\<forall>l \<in> set locs. appends.ready c h o1 l"
    using ready by (simp_all add: append_ready_def appends.ready_def)
  have res: "ok \<and> offset = of_nat (length data) \<and> sv_good here c' \<and> sv_placed c' = sv_placed c \<and> cache_ok (sv_placed c) lc' \<and>
      sv_bytes c' = put_all (rl_address ` set locs) h o1 d (sv_bytes c) \<and>
      sv_size c' = (sv_size c)(path \<mapsto> of_nat (length data + length d)) \<and> chunks_hold (sv_placed c) (sv_bytes c') path (data @ d)"
    using appends.append_file [OF good lc f(1) sv_own [OF good] f(3,2) rd(1) sz rd(2-5) d size_ok, of time] r
    unfolding client_append by fastforce
  then have "file_holds c' path (data @ d)" using f(1) sz(2) by (auto simp: file_holds_def)
  moreover have "fst (gc_Read (service_client io here time) path off' len (lc', c')) = read_outcome (data @ d) off' len"
    using read_holding(1) [of here c' lc' path "data @ d" io time off' len] calculation res by (metis prod.collapse)
  moreover have "sv_bytes c' (rl_address l) h = Some (overlay (the (sv_bytes c (rl_address l) h)) o1 d)" if "l \<in> set locs" for l
    using rd(5) that res by (fastforce simp: put_all_def appends.ready_def)
  ultimately show ?thesis using res by blast
qed

theorem client_append_reaches_all_witness:
  "\<exists>(c :: remotes cluster) lc lc' c'. gc_Append (service_client io_ok ''m'' (\<lambda>_. 0)) ''/f'' ''ef'' (lc, c) = ((True, 4), lc', c') \<and>
     fst (gc_Read (service_client io_ok ''m'' (\<lambda>_. 0)) ''/f'' 0 6 (lc', c')) = (True, ''abcdef'') \<and>
     sv_bytes c' ''a'' 1 = Some ''abcdef'' \<and> sv_bytes c' ''b'' 1 = Some ''wxyzef''"
proof -
  obtain s t where st: "cv_inv s" "cv_inv t" "cv_bytes s = [1 \<mapsto> ''abcd'']" "cv_bytes t = [1 \<mapsto> ''wxyz'']" using stored_servers by blast
  let ?c = "stored stored_master s t" and ?lc = "ChunkLocationCache 0"
  let ?a = "\<lparr>rl_server_id = 7, rl_address = ''a''\<rparr>" and ?b = "\<lparr>rl_server_id = 8, rl_address = ''b''\<rparr>"
  obtain ok offset lc' c' where r: "gc_Append (service_client io_ok ''m'' (\<lambda>_. 0)) ''/f'' ''ef'' (?lc, ?c) = ((ok, offset), lc', c')"
    by (metis prod.exhaust)
  note good = stored_good [OF stored_master_inv st(1,2)]
  have one: "sv_handles ?c ''/f'' = [1]" using stored_master_eq(1) by (simp add: sv_handles_def stored_def one_chunk_def)
  have bytes: "sv_bytes ?c ''a'' 1 = Some ''abcd''" "sv_bytes ?c ''b'' 1 = Some ''wxyz''"
    using st(3,4) by (simp_all add: sv_bytes_def stored_def)
  have ready: "append_ready ?c ''/f'' 0 1 [?a, ?b] 4"
    using one stored_holds(1) [OF stored_master_eq(1)] st(3) bytes by (simp add: append_ready_def)
  have size_ok: "sv_resizable io_ok ?c ''/f'' (of_nat (length ''abcd'' + length ''ef''))"
    using stored_master_grows by (simp add: sv_resizable_def stored_def)
  have "ok \<and> offset = of_nat (length ''abcd'') \<and> file_holds c' ''/f'' (''abcd'' @ ''ef'') \<and>
      fst (gc_Read (service_client io_ok ''m'' (\<lambda>_. 0)) ''/f'' 0 6 (lc', c')) = read_outcome (''abcd'' @ ''ef'') 0 6 \<and>
      (\<forall>l \<in> set [?a, ?b]. sv_bytes c' (rl_address l) 1 = Some (overlay (the (sv_bytes ?c (rl_address l) 1)) 4 ''ef''))"
    by (rule client_append_reaches_all [OF good stored_holds(3) [OF stored_master_eq(1)] ready _ _ _ _ _ size_ok r])
      (simp_all add: st(3) full_chunk_def)
  then have "ok" "offset = 4" "sv_bytes c' ''a'' 1 = Some ''abcdef''" "sv_bytes c' ''b'' 1 = Some ''wxyzef''"
      "fst (gc_Read (service_client io_ok ''m'' (\<lambda>_. 0)) ''/f'' 0 6 (lc', c')) = (True, ''abcdef'')"
    by (simp_all add: bytes overlay_def read_outcome_def)
  then show ?thesis using r by - (rule exI [of _ ?c], rule exI [of _ ?lc], rule exI [of _ lc'], rule exI [of _ c'], simp)
qed

end
