(* ===== verification/CommandLine.thy ===== *)
theory CommandLine
  imports ClientFiles
begin

text \<open>
  \<open>src/client/cli/cli.cpp\<close>: the interactive shell. The parser is a step function on characters, each command of \<open>Execute\<close> a
  definition of its own that returns success, the text it prints and the new state, and \<open>Run\<close> the loop over the lines of
  the input. The lemmas show which argument lists can be typed and how, that a malformed command does nothing, and, on
  the client of the services, that \<open>cat\<close> prints the file.
\<close>

section \<open>Numbers and names\<close>

text \<open>\<open>std::from_chars\<close> for an unsigned type takes digits only; the whole value must be used up.\<close>

definition ParseUnsigned :: "string \<Rightarrow> 64 word option" where
  "ParseUnsigned value =
     (let ds = takeWhile is_digit value in
      if value = [] \<or> ds = [] \<or> digits_value ds \<ge> 2 ^ 64 \<or> length ds \<noteq> length value then None
      else Some (of_nat (digits_value ds)))"

definition ParseReplication :: "string \<Rightarrow> 32 word option" where
  "ParseReplication value =
     (case ParseUnsigned value of
        None \<Rightarrow> None
      | Some n \<Rightarrow> if n = 0 \<or> n > 4294967295 then None else Some (ucast n))"

definition cli_BaseName :: "string \<Rightarrow> string" where
  "cli_BaseName path =
     (if path = [] \<or> path = ''/'' then path
      else case find_last_of_slash path of None \<Rightarrow> path | Some i \<Rightarrow> drop (i + 1) path)"

section \<open>The parser\<close>

record command =
  cd_name :: string
  cd_arguments :: "string list"

record parse_result =
  ps_success :: bool
  ps_error :: string
  ps_command :: command

record lexer =
  lx_tokens :: "string list"
  lx_current :: string
  lx_quote :: char
  lx_escaped :: bool

abbreviation backslash :: char where
  "backslash \<equiv> CHR 0x5C"

abbreviation newline :: char where
  "newline \<equiv> CHR 0x0A"

definition is_blank :: "char \<Rightarrow> bool" where
  "is_blank c \<longleftrightarrow> c = CHR '' '' \<or> c = CHR 0x09 \<or> c = newline \<or> c = CHR 0x0D"

definition is_quote :: "char \<Rightarrow> bool" where
  "is_quote c \<longleftrightarrow> c = CHR 0x22 \<or> c = CHR 0x27"

definition push_char :: "char \<Rightarrow> lexer \<Rightarrow> lexer" where
  "push_char c lx = lx\<lparr>lx_current := lx_current lx @ [c]\<rparr>"

definition end_token :: "lexer \<Rightarrow> lexer" where
  "end_token lx = (if lx_current lx = [] then lx else lx\<lparr>lx_tokens := lx_tokens lx @ [lx_current lx], lx_current := []\<rparr>)"

definition lex_char :: "char \<Rightarrow> lexer \<Rightarrow> lexer" where
  "lex_char c lx =
     (if lx_escaped lx then (push_char c lx)\<lparr>lx_escaped := False\<rparr>
      else if c = backslash then lx\<lparr>lx_escaped := True\<rparr>
      else if lx_quote lx \<noteq> nul then (if c = lx_quote lx then lx\<lparr>lx_quote := nul\<rparr> else push_char c lx)
      else if is_quote c then lx\<lparr>lx_quote := c\<rparr>
      else if is_blank c then end_token lx
      else push_char c lx)"

definition start_lexer :: lexer where
  "start_lexer = \<lparr>lx_tokens = [], lx_current = [], lx_quote = nul, lx_escaped = False\<rparr>"

definition no_command :: command where
  "no_command = \<lparr>cd_name = [], cd_arguments = []\<rparr>"

definition Parse :: "string \<Rightarrow> parse_result" where
  "Parse input =
     (let lx = fold lex_char input start_lexer;
          lx = (if lx_escaped lx then push_char backslash lx else lx) in
      if lx_quote lx \<noteq> nul then \<lparr>ps_success = False, ps_error = ''Unterminated quoted string'', ps_command = no_command\<rparr>
      else case lx_tokens (end_token lx) of
        [] \<Rightarrow> \<lparr>ps_success = True, ps_error = [], ps_command = no_command\<rparr>
      | name # arguments \<Rightarrow> \<lparr>ps_success = True, ps_error = [], ps_command = \<lparr>cd_name = name, cd_arguments = arguments\<rparr>\<rparr>)"

section \<open>The commands\<close>

definition text_lines :: "string list \<Rightarrow> string" where
  "text_lines ls = concat (map (\<lambda>l. l @ [newline]) ls)"

type_synonym 'w command_result = "(bool \<times> string) \<times> 'w io_state"

definition prints :: "bool \<Rightarrow> string list \<Rightarrow> 'w io_state \<Rightarrow> 'w command_result" where
  "prints ok ls st = ((ok, text_lines ls), st)"

definition on_world :: "('w \<Rightarrow> 'a \<times> 'w) \<Rightarrow> 'w io_state \<Rightarrow> 'a \<times> 'w io_state" where
  "on_world f st = (case f (snd st) of (r, w) \<Rightarrow> (r, fst st, w))"

text \<open>A call that answers yes or no, with a line for either.\<close>

definition report :: "('w \<Rightarrow> bool \<times> 'w) \<Rightarrow> string \<Rightarrow> string \<Rightarrow> 'w io_state \<Rightarrow> 'w command_result" where
  "report call done_text failed_text st =
     (case on_world call st of (ok, st) \<Rightarrow> prints ok [if ok then done_text else failed_text] st)"

definition PrintHelp :: string where
  "PrintHelp = text_lines
     [''Commands:'',
      ''  ls <path>                         List directory contents'',
      ''  mkdir <path>                      Create directory'',
      ''  create <path> [replication_factor] Create file'',
      ''  delete <path>                     Delete file'',
      ''  rename <source> <destination>      Rename file'',
      ''  stat <path>                        Show file metadata'',
      ''  read <path> [offset] [length]      Read file data'',
      ''  cat <path>                         Read complete file'',
      ''  write <path> <offset> <data>       Write data'',
      ''  append <path> <data>               Append a record'',
      ''  snapshot <source> <destination>    Create a snapshot'',
      ''  chunks <path>                      Show chunk metadata'',
      ''  locations <path> <chunk_index>     Show chunk replicas'',
      ''  help [command]                     Show help'',
      ''  exit                               Exit the CLI'',
      ''  quit                               Exit the CLI'']"

definition PrintCommandHelp :: "string \<Rightarrow> string" where
  "PrintCommandHelp command =
     (if command = ''ls'' then text_lines [''Usage: ls <path>'', ''List the direct contents of a GFS directory.'']
      else if command = ''mkdir'' then text_lines [''Usage: mkdir <path>'', ''Create a GFS directory.'']
      else if command = ''create'' then text_lines [''Usage: create <path> [replication_factor]'', ''Create a GFS file.'']
      else if command = ''delete'' then text_lines [''Usage: delete <path>'', ''Delete a GFS file.'']
      else if command = ''rename'' then text_lines [''Usage: rename <source> <destination>'', ''Rename a GFS file.'']
      else if command = ''stat'' then text_lines [''Usage: stat <path>'', ''Display file size, replication factor, and chunks.'']
      else if command = ''read'' then text_lines [''Usage: read <path> [offset] [length]'', ''Read bytes from a GFS file.'']
      else if command = ''cat'' then text_lines [''Usage: cat <path>'', ''Read the complete GFS file.'']
      else if command = ''write'' then text_lines [''Usage: write <path> <offset> <data>'', ''Write data at a byte offset.'']
      else if command = ''append'' then text_lines [''Usage: append <path> <data>'', ''Append data using the existing record-appender layer.'']
      else if command = ''snapshot'' then text_lines [''Usage: snapshot <source> <destination>'', ''Create a GFS snapshot.'']
      else if command = ''chunks'' then text_lines [''Usage: chunks <path>'', ''Display chunk handles and available chunk metadata.'']
      else if command = ''locations'' then text_lines [''Usage: locations <path> <chunk_index>'', ''Display the replicas and network addresses for a chunk.'']
      else if command = ''help'' then text_lines [''Usage: help [command]'', ''Show all commands or command-specific help.'']
      else if command = ''exit'' \<or> command = ''quit'' then text_lines [''Usage: '' @ command, ''Exit the GFS CLI.'']
      else text_lines [''Unknown command: '' @ command])"

definition cmd_help :: "string list \<Rightarrow> 'w io_state \<Rightarrow> 'w command_result" where
  "cmd_help args st =
     (case args of
        [] \<Rightarrow> ((True, PrintHelp), st)
      | [command] \<Rightarrow> ((True, PrintCommandHelp command), st)
      | _ \<Rightarrow> prints False [''Usage: help [command]''] st)"

definition cmd_ls :: "'w master_stub \<Rightarrow> 'w master_client \<Rightarrow> string list \<Rightarrow> 'w io_state \<Rightarrow> 'w command_result" where
  "cmd_ls stub mc args st =
     (case args of
        [path] \<Rightarrow>
          (case on_world (mc_ListDirectory stub mc path) st of
             (entries, st) \<Rightarrow>
               prints True (map (\<lambda>e. (if de_directory e then ''[DIR] '' else ''[FILE] '') @ cli_BaseName (de_path e)) entries) st)
      | _ \<Rightarrow> prints False [''Usage: ls <path>''] st)"

definition cmd_mkdir :: "'w master_stub \<Rightarrow> 'w master_client \<Rightarrow> string list \<Rightarrow> 'w io_state \<Rightarrow> 'w command_result" where
  "cmd_mkdir stub mc args st =
     (case args of
        [path] \<Rightarrow> report (mc_CreateDirectory stub mc path) (''Created directory: '' @ path) ''Error: failed to create directory'' st
      | _ \<Rightarrow> prints False [''Usage: mkdir <path>''] st)"

definition cmd_create :: "'w master_stub \<Rightarrow> 'w master_client \<Rightarrow> string list \<Rightarrow> 'w io_state \<Rightarrow> 'w command_result" where
  "cmd_create stub mc args st =
     (let create = (\<lambda>path replication.
        report (mc_CreateFile stub mc path replication) (''Created file: '' @ path) ''Error: failed to create file'' st) in
      case args of
        [path] \<Rightarrow> create path 0
      | [path, factor] \<Rightarrow>
          (case ParseReplication factor of
             None \<Rightarrow> prints False [''Error: invalid replication factor''] st
           | Some replication \<Rightarrow> create path replication)
      | _ \<Rightarrow> prints False [''Usage: create <path> [replication_factor]''] st)"

definition cmd_delete :: "'w master_stub \<Rightarrow> 'w master_client \<Rightarrow> string list \<Rightarrow> 'w io_state \<Rightarrow> 'w command_result" where
  "cmd_delete stub mc args st =
     (case args of
        [path] \<Rightarrow> report (mc_DeleteFile stub mc path) (''Deleted file: '' @ path) ''Error: failed to delete file'' st
      | _ \<Rightarrow> prints False [''Usage: delete <path>''] st)"

definition cmd_rename :: "'w master_stub \<Rightarrow> 'w master_client \<Rightarrow> string list \<Rightarrow> 'w io_state \<Rightarrow> 'w command_result" where
  "cmd_rename stub mc args st =
     (case args of
        [src, dst] \<Rightarrow> report (mc_RenameFile stub mc src dst) (''Renamed '' @ src @ '' -> '' @ dst) ''Error: failed to rename file'' st
      | _ \<Rightarrow> prints False [''Usage: rename <source> <destination>''] st)"

definition numbered :: "(nat \<Rightarrow> 'a \<Rightarrow> string) \<Rightarrow> 'a list \<Rightarrow> string list" where
  "numbered f xs = map (\<lambda>(i, x). ''  '' @ nat_to_string i @ '': '' @ f i x) (zip [0..<length xs] xs)"

definition cmd_stat :: "'w gfs_client \<Rightarrow> string list \<Rightarrow> 'w io_state \<Rightarrow> 'w command_result" where
  "cmd_stat gc args st =
     (case args of
        [path] \<Rightarrow>
          (case on_world (gc_LookupFile gc path) st of
             (None, st) \<Rightarrow> prints False [''Error: file not found''] st
           | (Some f, st) \<Rightarrow>
               prints True
                 ([''Path: '' @ fv_path f, ''Size: '' @ to_string (fv_size f),
                   ''Replication factor: '' @ to_string32 (fv_replication_factor f), ''Chunks: '' @ to_string (fv_chunk_count f)] @
                  (if fv_chunk_handles f = [] then [] else ''Chunk handles:'' # numbered (\<lambda>_. to_string) (fv_chunk_handles f))) st)
      | _ \<Rightarrow> prints False [''Usage: stat <path>''] st)"

text \<open>Reading: the data, and a line end unless the data has one.\<close>

definition show_data :: "string \<Rightarrow> string" where
  "show_data data = data @ (if data = [] \<or> last data \<noteq> newline then [newline] else [])"

definition read_and_show :: "'w gfs_client \<Rightarrow> string \<Rightarrow> 64 word \<Rightarrow> 64 word \<Rightarrow> 'w io_state \<Rightarrow> 'w command_result" where
  "read_and_show gc path offset len st =
     (case gc_Read gc path offset len st of
        ((ok, data), st) \<Rightarrow> if ok then ((True, show_data data), st) else prints False [''Error: read failed''] st)"

definition cmd_cat :: "'w gfs_client \<Rightarrow> string list \<Rightarrow> 'w io_state \<Rightarrow> 'w command_result" where
  "cmd_cat gc args st =
     (case args of
        [path] \<Rightarrow>
          (case on_world (gc_LookupFile gc path) st of
             (None, st) \<Rightarrow> prints False [''Error: file not found''] st
           | (Some f, st) \<Rightarrow> read_and_show gc path 0 (fv_size f) st)
      | _ \<Rightarrow> prints False [''Usage: cat <path>''] st)"

definition cmd_read :: "'w gfs_client \<Rightarrow> string list \<Rightarrow> 'w io_state \<Rightarrow> 'w command_result" where
  "cmd_read gc args st =
     (if args = [] \<or> length args > 3 then prints False [''Usage: read <path> [offset] [length]''] st
      else case on_world (gc_LookupFile gc (hd args)) st of
        (None, st) \<Rightarrow> prints False [''Error: file not found''] st
      | (Some f, st) \<Rightarrow>
          (case tl args of
             [] \<Rightarrow> read_and_show gc (hd args) 0 (fv_size f) st
           | offset_text # length_text \<Rightarrow>
               (case ParseUnsigned offset_text of
                  None \<Rightarrow> prints False [''Error: invalid offset''] st
                | Some offset \<Rightarrow>
                    if offset > fv_size f then prints False [''Error: offset is beyond end of file''] st
                    else case length_text of
                      [] \<Rightarrow> read_and_show gc (hd args) offset (fv_size f - offset) st
                    | text # _ \<Rightarrow>
                        (case ParseUnsigned text of
                           None \<Rightarrow> prints False [''Error: invalid length''] st
                         | Some len \<Rightarrow> read_and_show gc (hd args) offset len st))))"

definition cmd_write :: "'w gfs_client \<Rightarrow> string list \<Rightarrow> 'w io_state \<Rightarrow> 'w command_result" where
  "cmd_write gc args st =
     (case args of
        [path, offset_text, data] \<Rightarrow>
          (case ParseUnsigned offset_text of
             None \<Rightarrow> prints False [''Error: invalid offset''] st
           | Some offset \<Rightarrow>
               (case gc_Write gc path offset data st of
                  (False, st) \<Rightarrow> prints False [''Error: write failed''] st
                | (True, st) \<Rightarrow> prints True [''Wrote '' @ nat_to_string (length data) @ '' bytes''] st))
      | _ \<Rightarrow> prints False [''Usage: write <path> <offset> <data>''] st)"

definition cmd_append :: "'w gfs_client \<Rightarrow> string list \<Rightarrow> 'w io_state \<Rightarrow> 'w command_result" where
  "cmd_append gc args st =
     (case args of
        [path, data] \<Rightarrow>
          (case gc_Append gc path data st of
             ((False, offset), st) \<Rightarrow> prints False [''Error: append failed''] st
           | ((True, offset), st) \<Rightarrow>
               prints True [''Appended '' @ nat_to_string (length data) @ '' bytes at offset '' @ to_string offset] st)
      | _ \<Rightarrow> prints False [''Usage: append <path> <data>''] st)"

definition cmd_snapshot :: "'w master_stub \<Rightarrow> 'w master_client \<Rightarrow> string list \<Rightarrow> 'w io_state \<Rightarrow> 'w command_result" where
  "cmd_snapshot stub mc args st =
     (case args of
        [src, dst] \<Rightarrow> report (mc_CreateSnapshot stub mc src dst) (''Created snapshot: '' @ dst) ''Error: failed to create snapshot'' st
      | _ \<Rightarrow> prints False [''Usage: snapshot <source> <destination>''] st)"

text \<open>Each chunk is looked up in turn.\<close>

fun chunk_lines :: "'w gfs_client \<Rightarrow> string \<Rightarrow> nat \<Rightarrow> chunk_handle list \<Rightarrow> 'w io_state \<Rightarrow> string list \<times> 'w io_state" where
  "chunk_lines gc path index [] st = ([], st)"
| "chunk_lines gc path index (handle # handles) st =
     (case on_world (gc_LookupChunk gc path (of_nat index)) st of
        (chunk, st) \<Rightarrow>
          (case chunk_lines gc path (index + 1) handles st of
             (ls, st) \<Rightarrow>
               ((''  '' @ nat_to_string index @ '': handle='' @ to_string handle @
                 (case chunk of
                    None \<Rightarrow> []
                  | Some ch \<Rightarrow> '' version='' @ to_string (ci_version ch) @ '' replicas='' @ nat_to_string (length (ci_locations ch)))) # ls, st)))"

definition cmd_chunks :: "'w gfs_client \<Rightarrow> string list \<Rightarrow> 'w io_state \<Rightarrow> 'w command_result" where
  "cmd_chunks gc args st =
     (case args of
        [path] \<Rightarrow>
          (case on_world (gc_LookupFile gc path) st of
             (None, st) \<Rightarrow> prints False [''Error: file not found''] st
           | (Some f, st) \<Rightarrow>
               if fv_chunk_handles f = [] then prints True [''No chunks''] st
               else case chunk_lines gc path 0 (fv_chunk_handles f) st of (ls, st) \<Rightarrow> prints True (''Chunks:'' # ls) st)
      | _ \<Rightarrow> prints False [''Usage: chunks <path>''] st)"

definition cmd_locations :: "'w gfs_client \<Rightarrow> string list \<Rightarrow> 'w io_state \<Rightarrow> 'w command_result" where
  "cmd_locations gc args st =
     (case args of
        [path, index_text] \<Rightarrow>
          (case ParseUnsigned index_text of
             None \<Rightarrow> prints False [''Error: invalid chunk index''] st
           | Some index \<Rightarrow>
               (case on_world (gc_LookupChunk gc path index) st of
                  (None, st) \<Rightarrow> prints False [''Error: chunk not found''] st
                | (Some ch, st) \<Rightarrow>
                    prints True
                      ([''Chunk handle: '' @ to_string (ci_handle ch), ''Version: '' @ to_string (ci_version ch), ''Replicas:''] @
                       map (\<lambda>l. ''  Server '' @ to_string (rl_server_id l) @ '': '' @
                         (if rl_address l = [] then ''<unknown>'' else rl_address l)) (ci_locations ch)) st))
      | _ \<Rightarrow> prints False [''Usage: locations <path> <chunk_index>''] st)"

definition Execute :: "'w gfs_client \<Rightarrow> command \<Rightarrow> 'w io_state \<Rightarrow> 'w command_result" where
  "Execute gc command st =
     (let stub = be_stub (gc_backend gc); mc = be_master_client (gc_backend gc);
          name = cd_name command; args = cd_arguments command in
      if name = ''help'' then cmd_help args st
      else if name = ''ls'' then cmd_ls stub mc args st
      else if name = ''mkdir'' then cmd_mkdir stub mc args st
      else if name = ''create'' then cmd_create stub mc args st
      else if name = ''delete'' then cmd_delete stub mc args st
      else if name = ''rename'' then cmd_rename stub mc args st
      else if name = ''stat'' then cmd_stat gc args st
      else if name = ''read'' then cmd_read gc args st
      else if name = ''cat'' then cmd_cat gc args st
      else if name = ''write'' then cmd_write gc args st
      else if name = ''append'' then cmd_append gc args st
      else if name = ''snapshot'' then cmd_snapshot stub mc args st
      else if name = ''chunks'' then cmd_chunks gc args st
      else if name = ''locations'' then cmd_locations gc args st
      else prints False [''Unknown command: '' @ name] st)"

section \<open>The loop\<close>

text \<open>\<open>std::getline\<close>: the text up to the next line end; nothing at the end of the input.\<close>

definition getline :: "string \<Rightarrow> (string \<times> string) option" where
  "getline input =
     (if input = [] then None
      else let l = takeWhile (\<lambda>c. c \<noteq> newline) input in Some (l, drop (length l + 1) input))"

lemma getline_shorter: "getline input = Some (l, rest) \<Longrightarrow> length rest < length input"
  by (auto simp: getline_def Let_def split: if_splits)

text \<open>The result is the output; the return value is 0 in every case.\<close>

function run_loop :: "'w gfs_client \<Rightarrow> string \<Rightarrow> string \<Rightarrow> 'w io_state \<Rightarrow> string \<times> 'w io_state" where
  "run_loop gc input output st =
     (let output = output @ ''gfs> '' in
      case getline input of
        None \<Rightarrow> (output @ [newline], st)
      | Some (l, rest) \<Rightarrow>
          let parsed = Parse l; command = ps_command parsed in
          if \<not> ps_success parsed then run_loop gc rest (output @ text_lines [''Error: '' @ ps_error parsed]) st
          else if cd_name command = [] then run_loop gc rest output st
          else if cd_name command = ''exit'' \<or> cd_name command = ''quit'' then
            (if cd_arguments command \<noteq> [] then run_loop gc rest (output @ text_lines [''Usage: '' @ cd_name command]) st
             else (output, st))
          else case Execute gc command st of ((ok, printed), st) \<Rightarrow> run_loop gc rest (output @ printed) st)"
  by pat_completeness auto

termination run_loop
  by (relation "measure (\<lambda>(gc, input, output, st). length input)") (auto dest: getline_shorter)

declare run_loop.simps [simp del]

definition cli_Run :: "'w gfs_client \<Rightarrow> string \<Rightarrow> 'w io_state \<Rightarrow> string \<times> 'w io_state" where
  "cli_Run gc input st =
     run_loop gc input (text_lines [''GFS Client connected to master '' @ mc_master_address (be_master_client (gc_backend gc))]) st"

section \<open>What can be typed\<close>

text \<open>A list of words as a line: blanks between them, and a backslash before each character that means something.\<close>

definition escape_char :: "char \<Rightarrow> string" where
  "escape_char c = (if c = backslash \<or> is_quote c \<or> is_blank c then [backslash, c] else [c])"

definition command_line :: "string list \<Rightarrow> string" where
  "command_line ws = concat (map (\<lambda>w. concat (map escape_char w) @ '' '') ws)"

definition parsed :: "string \<Rightarrow> string list \<Rightarrow> parse_result" where
  "parsed name arguments = \<lparr>ps_success = True, ps_error = [], ps_command = \<lparr>cd_name = name, cd_arguments = arguments\<rparr>\<rparr>"

lemma is_blank_not_backslash [simp]: "\<not> is_blank backslash" "\<not> is_quote backslash"
  by (simp_all add: is_blank_def is_quote_def)

lemma lex_escape_char:
  "lx_quote lx = nul \<Longrightarrow> \<not> lx_escaped lx \<Longrightarrow> fold lex_char (escape_char c) lx = push_char c lx"
  by (cases lx) (simp add: escape_char_def lex_char_def push_char_def)

lemma push_char_fields [simp]:
  "lx_quote (push_char c lx) = lx_quote lx" "lx_escaped (push_char c lx) = lx_escaped lx" "lx_tokens (push_char c lx) = lx_tokens lx"
  "lx_current (push_char c lx) = lx_current lx @ [c]"
  by (simp_all add: push_char_def)

lemma lex_word:
  "lx_quote lx = nul \<Longrightarrow> \<not> lx_escaped lx \<Longrightarrow>
    fold lex_char (concat (map escape_char w)) lx = lx\<lparr>lx_current := lx_current lx @ w\<rparr>"
proof (induction w arbitrary: lx)
  case (Cons c w)
  then show ?case using Cons.IH [of "push_char c lx"] by (simp add: lex_escape_char push_char_def)
qed simp

lemma lex_blank: "lx_quote lx = nul \<Longrightarrow> \<not> lx_escaped lx \<Longrightarrow> lex_char (CHR '' '') lx = end_token lx"
  by (simp add: lex_char_def is_blank_def is_quote_def)

lemma lex_words:
  "[] \<notin> set ws \<Longrightarrow> fold lex_char (command_line ws) \<lparr>lx_tokens = ts, lx_current = [], lx_quote = nul, lx_escaped = False\<rparr> =
    \<lparr>lx_tokens = ts @ ws, lx_current = [], lx_quote = nul, lx_escaped = False\<rparr>"
proof (induction ws arbitrary: ts)
  case (Cons w ws)
  then have "fold lex_char (command_line (w # ws)) \<lparr>lx_tokens = ts, lx_current = [], lx_quote = nul, lx_escaped = False\<rparr> =
      fold lex_char (command_line ws) \<lparr>lx_tokens = ts @ [w], lx_current = [], lx_quote = nul, lx_escaped = False\<rparr>"
    by (auto simp: command_line_def lex_word lex_blank end_token_def)
  then show ?case using Cons by simp
qed (simp add: command_line_def)

lemma Parse_command_line: "[] \<notin> set (name # args) \<Longrightarrow> Parse (command_line (name # args)) = parsed name args"
  using lex_words [of "name # args" "[]"] by (simp add: Parse_def start_lexer_def end_token_def parsed_def)

text \<open>No token is empty, however the line is quoted.\<close>

lemma lex_nonempty: "[] \<notin> set (lx_tokens lx) \<Longrightarrow> [] \<notin> set (lx_tokens (fold lex_char input lx))"
proof (induction input arbitrary: lx)
  case (Cons c input)
  have "[] \<notin> set (lx_tokens (lex_char c lx))" using Cons.prems by (auto simp: lex_char_def end_token_def)
  then show ?case using Cons.IH by simp
qed simp

lemma Parse_nonempty:
  assumes "Parse input = parsed name args" and "name \<noteq> []"
  shows "[] \<notin> set args"
proof -
  define lx where "lx = (let lx = fold lex_char input start_lexer in if lx_escaped lx then push_char backslash lx else lx)"
  have "[] \<notin> set (lx_tokens lx)" using lex_nonempty [of start_lexer input] by (simp add: lx_def start_lexer_def Let_def)
  then have "[] \<notin> set (lx_tokens (end_token lx))" by (auto simp: end_token_def)
  moreover have "lx_tokens (end_token lx) = name # args"
    using assms by (auto simp: Parse_def parsed_def no_command_def lx_def Let_def split: if_splits list.splits)
  ultimately show ?thesis by simp
qed

text \<open>The characters of the words are characters of the line; only a backslash at its very end is added.\<close>

definition lexed :: "lexer \<Rightarrow> char set" where
  "lexed lx = set (lx_current lx) \<union> \<Union> (set ` set (lx_tokens lx))"

lemma lexed_end [simp]: "lexed (end_token lx) = lexed lx"
  by (auto simp: lexed_def end_token_def)

lemma lexed_chars: "lexed (fold lex_char input lx) \<subseteq> lexed lx \<union> set input"
proof (induction input arbitrary: lx)
  case (Cons c input)
  have "lexed (lex_char c lx) \<subseteq> insert c (lexed lx)"
    using lexed_end [of lx] by (auto simp: lex_char_def lexed_def)
  then show ?case using Cons.IH [of "lex_char c lx"] by auto
qed simp

lemma Parse_chars:
  assumes "Parse input = parsed name args" and "name \<noteq> []" and "w \<in> set (name # args)"
  shows "set w \<subseteq> insert backslash (set input)"
proof -
  define lx where "lx = (let lx = fold lex_char input start_lexer in if lx_escaped lx then push_char backslash lx else lx)"
  have "lexed (fold lex_char input start_lexer) \<subseteq> set input"
    using lexed_chars [of input start_lexer] by (simp add: lexed_def start_lexer_def)
  then have "lexed lx \<subseteq> insert backslash (set input)" by (auto simp: lx_def lexed_def Let_def)
  moreover have "lx_tokens (end_token lx) = name # args"
    using assms by (auto simp: Parse_def parsed_def no_command_def lx_def Let_def split: if_splits list.splits)
  then have "set w \<subseteq> lexed (end_token lx)" using assms(3) by (auto simp: lexed_def)
  ultimately show ?thesis by simp
qed

section \<open>Commands with the wrong number of arguments\<close>

definition argument_counts :: "(string \<times> nat list) list" where
  "argument_counts =
     [(''help'', [0, 1]), (''ls'', [1]), (''mkdir'', [1]), (''create'', [1, 2]), (''delete'', [1]), (''rename'', [2]), (''stat'', [1]),
      (''read'', [1, 2, 3]), (''cat'', [1]), (''write'', [3]), (''append'', [2]), (''snapshot'', [2]), (''chunks'', [1]), (''locations'', [2])]"

definition takes :: "string \<Rightarrow> nat \<Rightarrow> bool" where
  "takes name n = (case map_of argument_counts name of None \<Rightarrow> False | Some counts \<Rightarrow> n \<in> set counts)"

lemmas cmd_defs = cmd_help_def cmd_ls_def cmd_mkdir_def cmd_create_def cmd_delete_def cmd_rename_def cmd_stat_def cmd_read_def
  cmd_cat_def cmd_write_def cmd_append_def cmd_snapshot_def cmd_chunks_def cmd_locations_def

section \<open>Showing a file\<close>

lemma Parse_cat: "path \<noteq> [] \<Longrightarrow> Parse (command_line [''cat'', path]) = parsed ''cat'' [path]"
  by (rule Parse_command_line) simp

lemma getline_line: "newline \<notin> set l \<Longrightarrow> getline (l @ newline # rest) = Some (l, rest)"
  by (simp add: getline_def Let_def takeWhile_append takeWhile_eq_all_conv [THEN iffD2])

lemma newline_command_line: "newline \<notin> set (command_line ws) \<longleftrightarrow> (\<forall>w \<in> set ws. newline \<notin> set w)"
  by (auto simp: command_line_def escape_char_def)

lemma cat_holding:
  assumes good: "sv_good here c" and lc: "cache_ok (sv_placed c) lc" and hold: "file_holds c path data"
  shows "\<exists>lc' c'. Execute (service_client io here time) \<lparr>cd_name = ''cat'', cd_arguments = [path]\<rparr> (lc, c) = ((True, show_data data), lc', c') \<and>
    sv_good here c' \<and> cache_ok (sv_placed c') lc' \<and> file_holds c' path data"
proof -
  have path: "path \<noteq> []" "length data < 2 ^ 64" "sv_size c path = Some (of_nat (length data))" using hold by (simp_all add: file_holds_def)
  obtain f where f: "mc_LookupFile (be_stub (service_backend io here time)) (be_master_client (service_backend io here time)) path c = (Some f, c)"
      "fv_size f = of_nat (length data)"
    using services.file_law [OF good path(1), of io time] path(3) by auto
  obtain r lc' c' where r: "gc_Read (service_client io here time) path 0 (of_nat (length data)) (lc, c) = (r, lc', c')" using prod_cases3 by blast
  note res = read_holding [OF good lc hold r]
  have "unat (of_nat (length data) :: 64 word) = length data" using path(2) by (simp add: unat_of_nat)
  then have "r = (True, data)" using res(1) by (auto simp: read_outcome_def unat_eq_0 [symmetric])
  then have "Execute (service_client io here time) \<lparr>cd_name = ''cat'', cd_arguments = [path]\<rparr> (lc, c) = ((True, show_data data), lc', c')"
    using f r path(1) by (simp add: Execute_def cmd_cat_def on_world_def gc_LookupFile_def service_client_parts read_and_show_def)
  then show ?thesis using res hold by (auto simp: file_holds_def)
qed

section \<open>Properties\<close>

text \<open>C39: The parser gives back a list of words from the line that has a backslash before each special character, whatever
  characters they contain, as long as no word is empty; no input, with whatever quotes, parses to a list with an empty
  word, so empty data cannot be written from the shell. The shell cuts what is typed into lines before it parses them, and
  a backslash does not keep a line end: a list of words can be typed exactly when no word is empty and none contains a
  line end, and then the escaped line is one way to type it.\<close>
theorem command_line_roundtrip:
  assumes "name \<noteq> []"
  shows "(Parse (command_line (name # args)) = parsed name args \<longleftrightarrow> [] \<notin> set args) \<and>
    ((\<exists>input. Parse input = parsed name args) \<longleftrightarrow> [] \<notin> set args) \<and>
    ((\<exists>typed line rest. getline typed = Some (line, rest) \<and> Parse line = parsed name args) \<longleftrightarrow>
      [] \<notin> set args \<and> (\<forall>w \<in> set (name # args). newline \<notin> set w)) \<and>
    ((\<forall>w \<in> set (name # args). newline \<notin> set w) \<longrightarrow>
      getline (command_line (name # args) @ newline # rest) = Some (command_line (name # args), rest))"
proof -
  have parse: "Parse (command_line (name # args)) = parsed name args \<longleftrightarrow> [] \<notin> set args"
      "(\<exists>input. Parse input = parsed name args) \<longleftrightarrow> [] \<notin> set args"
    using Parse_command_line [of name args] Parse_nonempty assms by fastforce+
  have typed: "getline (command_line (name # args) @ newline # rest) = Some (command_line (name # args), rest)"
    if "\<forall>w \<in> set (name # args). newline \<notin> set w" for rest
    using that newline_command_line [of "name # args"] by (intro getline_line) simp
  have only: "[] \<notin> set args \<and> (\<forall>w \<in> set (name # args). newline \<notin> set w)"
    if "getline line_in = Some (line, rest)" "Parse line = parsed name args" for line_in line rest
  proof -
    have "newline \<notin> set line" using that(1) by (auto simp: getline_def Let_def split: if_splits dest: set_takeWhileD)
    moreover have "newline \<notin> insert backslash (set line)" using calculation by simp
    ultimately have "\<forall>w \<in> set (name # args). newline \<notin> set w" using Parse_chars [OF that(2) assms] by blast
    then show ?thesis using Parse_nonempty [OF that(2) assms] by blast
  qed
  have "(\<exists>typed line rest. getline typed = Some (line, rest) \<and> Parse line = parsed name args) \<longleftrightarrow>
      [] \<notin> set args \<and> (\<forall>w \<in> set (name # args). newline \<notin> set w)"
  proof
    assume "[] \<notin> set args \<and> (\<forall>w \<in> set (name # args). newline \<notin> set w)"
    then have "getline (command_line (name # args) @ newline # []) = Some (command_line (name # args), [])"
        "Parse (command_line (name # args)) = parsed name args" using typed parse(1) by blast+
    then show "\<exists>typed line rest. getline typed = Some (line, rest) \<and> Parse line = parsed name args" by blast
  qed (elim exE conjE, rule only)
  then show ?thesis using parse typed [of rest] by (intro conjI impI) assumption+
qed

theorem command_line_roundtrip_witness:
  "Parse (command_line [''write'', ''/f'', ''0'', ''it is'']) = parsed ''write'' [''/f'', ''0'', ''it is''] \<and>
   getline (command_line [''write'', ''/f'', ''0'', ''it is''] @ [newline]) = Some (command_line [''write'', ''/f'', ''0'', ''it is''], []) \<and>
   (\<nexists>input. Parse input = parsed ''write'' [''/f'', ''0'', []])"
  using command_line_roundtrip [of "''write''" "[''/f'', ''0'', ''it is'']" "[]"] command_line_roundtrip [of "''write''" "[''/f'', ''0'', []]"]
  by simp

text \<open>A command that does not exist, or has a number of arguments that it does not take, is refused before any call: the
  client, its cache and the servers stay as they were.\<close>
lemma malformed_command_does_nothing:
  assumes "\<not> takes (cd_name command) (length (cd_arguments command))"
  shows "\<exists>text. Execute gc command st = ((False, text), st)"
  using assms by (auto simp: Execute_def takes_def argument_counts_def cmd_defs prints_def Let_def split: list.split)

text \<open>C40: Typing \<open>cat\<close> and the path of a file prints the bytes of the file, and a line end if they do not end with one, between
  two prompts.\<close>
theorem cat_prints_file:
  assumes "sv_good here c" and "cache_ok (sv_placed c) lc" and "file_holds c path data" and "newline \<notin> set path"
  shows "fst (cli_Run (service_client io here time) (command_line [''cat'', path] @ [newline]) (lc, c)) =
    ''GFS Client connected to master '' @ here @ [newline] @ ''gfs> '' @ show_data data @ ''gfs> '' @ [newline]"
proof -
  have path: "path \<noteq> []" using assms(3) by (simp add: file_holds_def)
  have line: "getline (command_line [''cat'', path] @ [newline]) = Some (command_line [''cat'', path], [])"
    using assms(4) newline_command_line [of "[''cat'', path]"] by (intro getline_line) simp
  obtain lc' c' where cat: "Execute (service_client io here time) \<lparr>cd_name = ''cat'', cd_arguments = [path]\<rparr> (lc, c) = ((True, show_data data), lc', c')"
    using cat_holding [OF assms(1-3)] by blast
  have address: "mc_master_address (be_master_client (gc_backend (service_client io here time))) = here"
    by (simp add: service_client_parts MasterClient_def)
  show ?thesis
    using cat Parse_cat [OF path] unfolding cli_Run_def run_loop.simps [of _ "command_line [''cat'', path] @ [newline]"] line
    by (simp add: Let_def parsed_def run_loop.simps [of _ "[]"] getline_def address text_lines_def)
qed

theorem cat_prints_file_witness:
  "\<exists>(c :: remotes cluster) lc. fst (cli_Run (service_client io_ok ''m'' (\<lambda>_. 0)) (''cat /f '' @ [newline]) (lc, c)) =
     ''GFS Client connected to master m'' @ [newline] @ ''gfs> abcd'' @ [newline] @ ''gfs> '' @ [newline]"
proof -
  obtain s t where st: "cv_inv s" "cv_inv t" "cv_bytes s = [1 \<mapsto> ''abcd'']" using stored_servers by blast
  have typed: "command_line [''cat'', ''/f''] = ''cat /f ''" by code_simp
  have "fst (cli_Run (service_client io_ok ''m'' (\<lambda>_. 0)) (command_line [''cat'', ''/f''] @ [newline]) (ChunkLocationCache 0, stored stored_master s t)) =
      ''GFS Client connected to master '' @ ''m'' @ [newline] @ ''gfs> '' @ show_data ''abcd'' @ ''gfs> '' @ [newline]"
    by (rule cat_prints_file [OF stored_good [OF stored_master_inv st(1,2)] stored_holds(3) [OF stored_master_eq(1)]]) (simp_all add: st(3))
  then show ?thesis unfolding typed by (intro exI) (simp add: show_data_def)
qed

end
