(* ===== verification/ClientProgram.thy ===== *)
theory ClientProgram
  imports CommandLine
begin

text \<open>
  \<open>main\<close> of \<open>src/bin/gfs_client_main.cpp\<close>: the options, the single commands \<open>create\<close>, \<open>write\<close> and \<open>read\<close>, and otherwise the shell.
  The result is whether the exit status is 0, the standard output, the standard error and the world. The lemmas
  show what the commands do on the services, and where the options go wrong: \<open>-h\<close> and \<open>--help\<close> count wherever
  they stand, also as data, and a replication factor that does not fit in 32 bits is cut.
\<close>

section \<open>Options\<close>

text \<open>\<open>arguments\<close> is \<open>argv\<close> from index 1 on.\<close>

fun Value :: "string list \<Rightarrow> string \<Rightarrow> string \<Rightarrow> string" where
  "Value (a # b # arguments) name fallback = (if a = name then b else Value (b # arguments) name fallback)"
| "Value arguments name fallback = fallback"

definition HasFlag :: "string list \<Rightarrow> string \<Rightarrow> bool" where
  "HasFlag arguments flag \<longleftrightarrow> list_ex (\<lambda>a. a = flag) arguments"

definition PrintStartupHelp :: string where
  "PrintStartupHelp = text_lines
     [''GFS Client'', '''',
      ''Usage:'',
      ''  gfs-client --master ADDRESS'',
      ''  gfs-client --master ADDRESS --command create|write|read ...'', '''',
      ''Options:'',
      ''  --master ADDRESS       Master gRPC address (default: 127.0.0.1:5000)'',
      ''  --command COMMAND      Run one legacy non-interactive command'',
      ''  --path PATH            Path for the command'',
      ''  --data DATA            Data for write'',
      ''  --length N             Read length'',
      ''  --replication N        Create-file replication factor'',
      ''  --help                 Show this help'', '''',
      ''Without --command, the interactive GFS REPL is started.'']"

section \<open>The program\<close>

definition RpcCreateFile :: "'w master_stub \<Rightarrow> string \<Rightarrow> string \<Rightarrow> 32 word \<Rightarrow> 'w \<Rightarrow> bool \<times> 'w" where
  "RpcCreateFile stub master_address path replication w =
     (case st_CreateFile stub master_address \<lparr>cf_request_path = path, cf_replication_factor = replication\<rparr> w of
        (response, w) \<Rightarrow> (accepted response, w))"

record exit_result =
  ou_success :: bool
  ou_output :: string
  ou_errors :: string

definition exits :: "bool \<Rightarrow> string \<Rightarrow> string \<Rightarrow> 'w \<Rightarrow> exit_result \<times> 'w" where
  "exits success output errors w = (\<lparr>ou_success = success, ou_output = output, ou_errors = errors\<rparr>, w)"

definition main_create :: "'w master_stub \<Rightarrow> string list \<Rightarrow> string \<Rightarrow> string \<Rightarrow> 'w \<Rightarrow> exit_result \<times> 'w" where
  "main_create stub arguments master_address path w =
     (case stoull (Value arguments ''--replication'' ''0'') of
        None \<Rightarrow> exits False [] (text_lines [''Error: invalid replication factor'']) w
      | Some (replication, _) \<Rightarrow>
          (case RpcCreateFile stub master_address path (ucast replication) w of (ok, w) \<Rightarrow> exits ok [] [] w))"

definition main_with_client :: "'w gfs_client \<Rightarrow> string list \<Rightarrow> string \<Rightarrow> string \<Rightarrow> string \<Rightarrow> 'w \<Rightarrow> exit_result \<times> 'w" where
  "main_with_client gc arguments command path input w =
     (let st = (ChunkLocationCache 0, w) in
      if command = ''write''
      then (case gc_Write gc path 0 (Value arguments ''--data'' []) st of (ok, _, w) \<Rightarrow> exits ok [] [] w)
      else if command = ''read''
      then (case stoull (Value arguments ''--length'' ''0'') of
          None \<Rightarrow> exits False [] [] w
        | Some (len, _) \<Rightarrow>
            (case gc_Read gc path 0 len st of
               ((ok, data), _, w) \<Rightarrow> if ok then exits True data [] w else exits False [] [] w))
      else if command \<noteq> []
      then exits False []
        (text_lines [''usage: --master ADDR --command create|write|read --path PATH [--data DATA|--length N]'']) w
      else case cli_Run gc input st of (output, _, w) \<Rightarrow> exits True output [] w)"

definition client_main ::
    "'w master_stub \<Rightarrow> 'w chunk_stub \<Rightarrow> 'w clock \<Rightarrow> string list \<Rightarrow> string \<Rightarrow> 'w \<Rightarrow> exit_result \<times> 'w" where
  "client_main stub sk clock arguments input w =
     (if HasFlag arguments ''--help'' \<or> HasFlag arguments ''-h'' then exits True PrintStartupHelp [] w
      else
        let master_address = Value arguments ''--master'' ''127.0.0.1:5000'';
            command = Value arguments ''--command'' [];
            path = Value arguments ''--path'' [] in
        if command = ''create'' then main_create stub arguments master_address path w
        else main_with_client (main_client stub sk clock master_address) arguments command path input w)"

section \<open>What it does\<close>

lemma Value_skip [simp]: "a \<noteq> name \<Longrightarrow> Value (a # arguments) name fallback = Value arguments name fallback"
  by (cases arguments) simp_all

text \<open>The program on the services, with the arguments of a single command in the order of the usage line.\<close>

definition command_arguments :: "string \<Rightarrow> string \<Rightarrow> string \<Rightarrow> string \<Rightarrow> string \<Rightarrow> string list" where
  "command_arguments here command path option_name v =
     [''--master'', here, ''--command'', command, ''--path'', path, option_name, v]"

definition option_names :: "string set" where
  "option_names = {''--help'', ''-h'', ''--master'', ''--command'', ''--path'', ''--data'', ''--length'', ''--replication''}"

lemma command_values:
  assumes "here \<notin> option_names" and "command \<notin> option_names" and "path \<notin> option_names" and "v \<notin> option_names"
    and "option_name \<in> {''--data'', ''--length'', ''--replication''}"
  shows "\<not> HasFlag (command_arguments here command path option_name v) ''--help''"
    "\<not> HasFlag (command_arguments here command path option_name v) ''-h''"
    "Value (command_arguments here command path option_name v) ''--master'' x = here"
    "Value (command_arguments here command path option_name v) ''--command'' x = command"
    "Value (command_arguments here command path option_name v) ''--path'' x = path"
    "Value (command_arguments here command path option_name v) option_name x = v"
  using assms by (auto simp: command_arguments_def HasFlag_def option_names_def)

lemma client_main_command:
  assumes "here \<notin> option_names" and "command \<notin> option_names" and "path \<notin> option_names" and "v \<notin> option_names"
    and "option_name \<in> {''--data'', ''--length'', ''--replication''}"
  shows "client_main stub sk clock (command_arguments here command path option_name v) input w =
    (if command = ''create'' then main_create stub (command_arguments here command path option_name v) here path w
     else main_with_client (main_client stub sk clock here) (command_arguments here command path option_name v) command path input w)"
  using command_values [OF assms] by (simp add: client_main_def Let_def)

text \<open>\<open>read\<close> writes the first bytes of the file to the output and nothing else.\<close>

lemma read_command_prints:
  assumes "sv_good here c" and "file_holds c path data" and "stoull v = Some (len, pos)" and "len \<noteq> 0"
    and "here \<notin> option_names" and "path \<notin> option_names" and "v \<notin> option_names"
  shows "fst (client_main (service_master io here) service_chunks (\<lambda>c. (time c, c))
      (command_arguments here ''read'' path ''--length'' v) input c) =
    \<lparr>ou_success = True, ou_output = take (unat len) data, ou_errors = []\<rparr>"
proof -
  have cache: "cache_ok (sv_placed c) (ChunkLocationCache 0)" by (simp add: cache_ok_def ChunkLocationCache_def)
  obtain r lc' c' where r: "gc_Read (service_client io here time) path 0 len (ChunkLocationCache 0, c) = (r, lc', c')" by (rule prod_cases3)
  have opts: "''read'' \<notin> option_names" "''--length'' \<in> {''--data'', ''--length'', ''--replication''}" by (simp_all add: option_names_def)
  have "r = (True, take (unat len) data)"
    using read_holding(1) [OF assms(1) cache assms(2) r] assms(4) by (simp add: read_outcome_def)
  then show ?thesis
    unfolding client_main_command [OF assms(5) opts(1) assms(6,7) opts(2)] service_client_def [symmetric] main_with_client_def
      command_values(6) [OF assms(5) opts(1) assms(6,7) opts(2)] assms(3)
    by (simp add: r exits_def)
qed

text \<open>\<open>write\<close> replaces the beginning of the file, and the file ends there: what a later \<open>read\<close> prints is the data alone.\<close>

lemma write_command_replaces:
  assumes "sv_good here c" and "file_holds c path data" and "d \<noteq> []" "length d < 2 ^ 64"
    and "chunks_exist (sv_placed c) (sv_bytes c) path (length d)"
    and "here \<notin> option_names" and "path \<notin> option_names" and "d \<notin> option_names"
    and r: "client_main (service_master io here) service_chunks (\<lambda>c. (time c, c))
      (command_arguments here ''write'' path ''--data'' d) input c = (out, c')" and "ou_success out"
  shows "sv_good here c' \<and> file_holds c' path d"
proof -
  have cache: "cache_ok (sv_placed c) (ChunkLocationCache 0)" by (simp add: cache_ok_def ChunkLocationCache_def)
  obtain b lc1 c1 where w: "gc_Write (service_client io here time) path 0 d (ChunkLocationCache 0, c) = (b, lc1, c1)" by (rule prod_cases3)
  have opts: "''write'' \<notin> option_names" "''--data'' \<in> {''--data'', ''--length'', ''--replication''}" by (simp_all add: option_names_def)
  have b: "b" "c1 = c'"
    using r \<open>ou_success out\<close>
    unfolding client_main_command [OF assms(6) opts(1) assms(7,8) opts(2)] service_client_def [symmetric] main_with_client_def
      command_values(6) [OF assms(6) opts(1) assms(7,8) opts(2)]
    by (auto simp: w exits_def)
  note res = write_holding [OF assms(1) cache assms(2) _ _ _ assms(3) w]
  have res: "sv_good here c1" "sv_placed c1 = sv_placed c" "chunks_hold (sv_placed c) (sv_bytes c1) path (overlay data 0 d)"
      "sv_size c1 = (sv_size c)(path \<mapsto> of_nat (length d))"
    using res(2,3,5,6) assms(4,5) b(1) by simp_all
  have "overlay data 0 d = d @ drop (length d) data" by (simp add: overlay_def)
  then have "chunks_hold (sv_placed c) (sv_bytes c1) path d"
    using chunks_hold_take [OF res(3), of "length d"] by simp
  then show ?thesis using res(1,2,4) assms(2,4) b(2) by (simp add: file_holds_def)
qed

text \<open>Data that reads \<open>-h\<close> or \<open>--help\<close> is not written: the program prints its help and reports success.\<close>

lemma help_is_not_written:
  assumes "d \<in> {''--help'', ''-h''}"
  shows "client_main stub sk clock (command_arguments here ''write'' path ''--data'' d) input w =
    (\<lparr>ou_success = True, ou_output = PrintStartupHelp, ou_errors = []\<rparr>, w)"
  using assms by (auto simp: client_main_def command_arguments_def HasFlag_def exits_def)

text \<open>A replication factor of \<open>2 ^ 32\<close> is taken as 0, so the master uses its default; the shell refuses it.\<close>

lemma replication_is_cut:
  assumes "here \<notin> option_names" and "path \<notin> option_names"
  shows "snd (client_main stub sk clock (command_arguments here ''create'' path ''--replication'' ''4294967296'') input w) =
      snd (RpcCreateFile stub here path 0 w)"
    and "ParseReplication ''4294967296'' = None"
proof -
  have v: "stoull ''4294967296'' = Some (4294967296, 10)" by (simp add: stoull_def is_space_def is_digit_def digits_value_def)
  have opts: "''create'' \<notin> option_names" "''4294967296'' \<notin> option_names" "''--replication'' \<in> {''--data'', ''--length'', ''--replication''}"
    by (simp_all add: option_names_def)
  have cut: "ucast (4294967296 :: 64 word) = (0 :: 32 word)" by code_simp
  show "ParseReplication ''4294967296'' = None"
    by (simp add: ParseReplication_def ParseUnsigned_def is_digit_def digits_value_def)
  show "snd (client_main stub sk clock (command_arguments here ''create'' path ''--replication'' ''4294967296'') input w) =
      snd (RpcCreateFile stub here path 0 w)"
    unfolding client_main_command [OF assms(1) opts(1) assms(2) opts(2,3)] main_create_def
      command_values(6) [OF assms(1) opts(1) assms(2) opts(2,3)] v option.case prod.case cut
    by (simp add: exits_def split: prod.split)
qed

end
