(* ===== verification/FilePositions.thy ===== *)
theory FilePositions
  imports FileHandles
begin

text \<open>
  The part of \<open>src/storage/file_handle.cpp\<close> that uses the position of the descriptor: \<open>Read\<close>, \<open>Write\<close>, \<open>Seek\<close> and \<open>Tell\<close>, and the
  moves of a handle. The operating system keeps the position with the open file, so the state is a handle
  and a position. The lemmas show that they do what \<open>ReadAt\<close> and \<open>WriteAt\<close> do at the position and leave it behind
  the bytes transferred, so what is written is read back after a \<open>Seek\<close>.
\<close>

section \<open>Operations\<close>

record open_file =
  of_handle :: file_handle
  of_position :: nat

definition of_Open :: "open_file \<Rightarrow> file_path \<Rightarrow> open_mode \<Rightarrow> bool \<Rightarrow> bool \<Rightarrow> disk \<Rightarrow> bool \<times> open_file \<times> disk" where
  "of_Open f path mode create trunc d =
     (case fh_Open (of_handle f) path mode create trunc d of
        (ok, h, d) \<Rightarrow> (ok, \<lparr>of_handle = h, of_position = (if ok then 0 else of_position f)\<rparr>, d))"

lemma answer_taken:
  "(a, d') = next_answer d \<Longrightarrow>
    length (dk_answers d') \<le> length (dk_answers d) \<and> (a \<noteq> Done \<longrightarrow> length (dk_answers d') < length (dk_answers d))"
  using next_answer_length [of d a d'] by auto

text \<open>The loops return the bytes transferred, None after an error, and the position they leave. A write cannot go past
  the largest offset.\<close>

function fd_read_loop :: "file_path \<Rightarrow> nat \<Rightarrow> nat \<Rightarrow> string \<Rightarrow> disk \<Rightarrow> string option \<times> nat \<times> disk" where
  "fd_read_loop path position remaining buffer d =
     (if remaining = 0 then (Some buffer, position, d)
      else let (a, d) = next_answer d in
        if a = Failed then (None, position, d)
        else if a = Interrupted then fd_read_loop path position remaining buffer d
        else
          let got = take (granted a remaining) (drop position (dk_content d path)) in
          if got = [] then (Some buffer, position, d)
          else fd_read_loop path (position + length got) (remaining - length got) (buffer @ got) d)"
  by pat_completeness auto
termination
proof (relation "measure (\<lambda>(path, position, remaining, buffer, d). remaining + length (dk_answers d))")
qed (auto dest!: answer_taken simp: min_def)

function fd_write_loop :: "file_path \<Rightarrow> nat \<Rightarrow> string \<Rightarrow> nat \<Rightarrow> disk \<Rightarrow> nat option \<times> nat \<times> disk" where
  "fd_write_loop path position data cnt d =
     (if data = [] then (Some cnt, position, d)
      else let (a, d) = next_answer d in
        if a = Failed then (None, position, d)
        else if a = Interrupted then fd_write_loop path position data cnt d
        else
          if granted a (length data) = 0 then (Some cnt, position, d)
          else
            let n = min (granted a (length data)) (off_max - position) in
            if n = 0 then (None, position, d)
            else fd_write_loop path (position + n) (drop n data) (cnt + n)
              (put_content path (overlay (dk_content d path) position (take n data)) d))"
  by pat_completeness auto
termination
proof (relation "measure (\<lambda>(path, position, data, cnt, d). length data + length (dk_answers d))")
qed (auto dest!: answer_taken simp: neq_Nil_conv)

declare fd_read_loop.simps [simp del] fd_write_loop.simps [simp del]

definition of_Read :: "open_file \<Rightarrow> nat \<Rightarrow> disk \<Rightarrow> string option \<times> open_file \<times> disk" where
  "of_Read f len d =
     (if \<not> fh_open (of_handle f) then (None, f, d)
      else if fh_mode (of_handle f) = WriteOnly then (if len = 0 then Some [] else None, f, d)
      else case fd_read_loop (fh_path (of_handle f)) (of_position f) len [] d of
        (r, position, d) \<Rightarrow> (r, f\<lparr>of_position := position\<rparr>, d))"

definition of_Write :: "open_file \<Rightarrow> string \<Rightarrow> disk \<Rightarrow> nat option \<times> open_file \<times> disk" where
  "of_Write f data d =
     (if \<not> fh_open (of_handle f) then (None, f, d)
      else if fh_mode (of_handle f) = ReadOnly then (if data = [] then Some 0 else None, f, d)
      else case fd_write_loop (fh_path (of_handle f)) (of_position f) data 0 d of
        (r, position, d) \<Rightarrow> (r, f\<lparr>of_position := position\<rparr>, d))"

definition of_Seek :: "open_file \<Rightarrow> 64 word \<Rightarrow> disk \<Rightarrow> bool \<times> open_file \<times> disk" where
  "of_Seek f offset d =
     (if \<not> fh_open (of_handle f) \<or> off_max < unat offset then (False, f, d)
      else case call_ok d of
        (ok, d) \<Rightarrow> (ok, if ok then f\<lparr>of_position := unat offset\<rparr> else f, d))"

definition of_Tell :: "open_file \<Rightarrow> disk \<Rightarrow> 64 word option \<times> disk" where
  "of_Tell f d =
     (if \<not> fh_open (of_handle f) then (None, d)
      else case call_ok d of (ok, d) \<Rightarrow> (if ok then Some (of_nat (of_position f)) else None, d))"

text \<open>The move constructor: the new handle, and the one that is left. The assignment closes its target first; \<open>same\<close> is
  \<open>this == &other\<close>.\<close>

definition of_move :: "open_file \<Rightarrow> open_file \<times> open_file" where
  "of_move other = (other, other\<lparr>of_handle := (of_handle other)\<lparr>fh_open := False, fh_path := []\<rparr>\<rparr>)"

definition of_assign :: "bool \<Rightarrow> open_file \<Rightarrow> open_file \<Rightarrow> disk \<Rightarrow> (open_file \<times> open_file) \<times> disk" where
  "of_assign same f other d =
     (if same then ((f, f), d)
      else case fh_Close (of_handle f) d of (_, _, d) \<Rightarrow> (of_move other, d))"

section \<open>The position and the offset\<close>

lemma fd_read_loop_at:
  "fd_read_loop path position n buffer d = (r, p, d') \<Longrightarrow> position + n \<le> off_max \<Longrightarrow>
    read_at_loop path position n buffer d = (r, d') \<and>
    (\<forall>bytes. r = Some bytes \<longrightarrow> p + length buffer = position + length bytes)"
proof (induction "n + length (dk_answers d)" arbitrary: position n buffer d rule: less_induct)
  case less
  obtain a d1 where a: "next_answer d = (a, d1)" by fastforce
  have c: "dk_content d1 = dk_content d" using next_answer_files [OF a] by (rule dk_content_cong)
  define got where "got = take (granted a n) (drop position (dk_content d path))"
  note at = read_at_loop_step [OF a, of path position n buffer, folded got_def]
  have loop: "fd_read_loop path position n buffer d =
      (if n = 0 then (Some buffer, position, d) else if a = Failed then (None, position, d1)
       else if a = Interrupted then fd_read_loop path position n buffer d1
       else if got = [] then (Some buffer, position, d1)
       else fd_read_loop path (position + length got) (n - length got) (buffer @ got) d1)"
    by (subst fd_read_loop.simps) (simp add: a c got_def [symmetric])
  consider "n = 0 \<or> a = Failed \<or> (a \<noteq> Interrupted \<and> got = [])" | "0 < n" "a = Interrupted"
    | "0 < n" "a \<noteq> Failed" "a \<noteq> Interrupted" "got \<noteq> []" by auto
  then show ?case
  proof cases
    case 1
    then show ?thesis using less.prems by (auto simp: loop at Let_def split: if_splits)
  next
    case 2
    then have "length (dk_answers d1) < length (dk_answers d)" using next_answer_length(2) [OF a] by simp
    then show ?thesis using less.hyps [of n d1 position buffer] less.prems 2 by (simp add: loop at)
  next
    case 3
    have got: "0 < length got" "length got \<le> n" using 3(4) granted_le [of a n] by (auto simp: got_def)
    then have "n - length got + length (dk_answers d1) < n + length (dk_answers d)"
      using next_answer_length(1) [OF a] by linarith
    note ih = less.hyps [OF this, of "position + length got" "buffer @ got"]
    have "fd_read_loop path (position + length got) (n - length got) (buffer @ got) d1 = (r, p, d')"
      using less.prems(1) 3 by (simp add: loop)
    from ih [OF this] show ?thesis using 3 got less.prems(2) by (auto simp: at Let_def)
  qed
qed

lemma fd_write_loop_at:
  "fd_write_loop path position data cnt d = (r, p, d') \<Longrightarrow> position + length data \<le> off_max \<Longrightarrow>
    write_at_loop path position data cnt d = (r, d') \<and> (\<forall>n. r = Some n \<longrightarrow> p + cnt = position + n)"
proof (induction "length data + length (dk_answers d)" arbitrary: position data cnt d rule: less_induct)
  case less
  obtain a d1 where a: "next_answer d = (a, d1)" by fastforce
  have c: "dk_content d1 = dk_content d" using next_answer_files [OF a] by (rule dk_content_cong)
  define n where "n = granted a (length data)"
  let ?d = "put_content path (overlay (dk_content d path) position (take n data)) d1"
  note at = write_at_loop_step [OF a, of path position data cnt, folded n_def]
  have "n \<le> length data" using granted_le by (simp add: n_def)
  then have room: "min n (off_max - position) = n" using less.prems(2) by simp
  have loop: "fd_write_loop path position data cnt d =
      (if data = [] then (Some cnt, position, d) else if a = Failed then (None, position, d1)
       else if a = Interrupted then fd_write_loop path position data cnt d1
       else if n = 0 then (Some cnt, position, d1)
       else fd_write_loop path (position + n) (drop n data) (cnt + n) ?d)"
    by (subst fd_write_loop.simps) (simp add: a c n_def [symmetric] room)
  consider "data = [] \<or> a = Failed \<or> (a \<noteq> Interrupted \<and> n = 0)" | "data \<noteq> []" "a = Interrupted"
    | "data \<noteq> []" "a \<noteq> Failed" "a \<noteq> Interrupted" "0 < n" by auto
  then show ?case
  proof cases
    case 1
    then show ?thesis using less.prems by (auto simp: loop at Let_def split: if_splits)
  next
    case 2
    then have "length (dk_answers d1) < length (dk_answers d)" using next_answer_length(2) [OF a] by simp
    then show ?thesis using less.hyps [of data d1 position cnt] less.prems 2 by (simp add: loop at)
  next
    case 3
    have "length (drop n data) + length (dk_answers ?d) < length data + length (dk_answers d)"
      using 3(4) \<open>n \<le> length data\<close> next_answer_length(1) [OF a] by simp
    note ih = less.hyps [OF this, of "position + n" "cnt + n"]
    have "fd_write_loop path (position + n) (drop n data) (cnt + n) ?d = (r, p, d')"
      using less.prems(1) 3 by (simp add: loop)
    from ih [OF this] show ?thesis using 3 \<open>n \<le> length data\<close> less.prems(2) by (auto simp: at Let_def)
  qed
qed

text \<open>\<open>Read\<close> and \<open>Write\<close> are \<open>ReadAt\<close> and \<open>WriteAt\<close> at the position, which they move past what they report.\<close>

lemma Read_is_ReadAt:
  assumes "of_Read f len d = (r, f', d')" and "of_position f + len \<le> off_max"
  shows "fh_ReadAt (of_handle f) (of_nat (of_position f)) len d = (r, d')" and "of_handle f' = of_handle f"
    and "r = Some bytes \<Longrightarrow> of_position f' = of_position f + length bytes"
proof -
  have pos: "unat (of_nat (of_position f) :: 64 word) = of_position f" "\<not> off_max < of_position f"
    using assms(2) by (simp_all add: off_max_def unat_of_nat)
  obtain r1 p d1 where l: "fd_read_loop (fh_path (of_handle f)) (of_position f) len [] d = (r1, p, d1)" by (rule prod_cases3)
  note at = fd_read_loop_at [OF l assms(2)]
  show "fh_ReadAt (of_handle f) (of_nat (of_position f)) len d = (r, d')" "of_handle f' = of_handle f"
    "r = Some bytes \<Longrightarrow> of_position f' = of_position f + length bytes"
    using assms(1) at by (auto simp: of_Read_def fh_ReadAt_def l pos split: if_splits)
qed

lemma Write_is_WriteAt:
  assumes "of_Write f data d = (r, f', d')" and "of_position f + length data \<le> off_max"
  shows "fh_WriteAt (of_handle f) (of_nat (of_position f)) data d = (r, d')" and "of_handle f' = of_handle f"
    and "r = Some n \<Longrightarrow> of_position f' = of_position f + n"
proof -
  have pos: "unat (of_nat (of_position f) :: 64 word) = of_position f" "\<not> off_max < of_position f"
    using assms(2) by (simp_all add: off_max_def unat_of_nat)
  obtain r1 p d1 where l: "fd_write_loop (fh_path (of_handle f)) (of_position f) data 0 d = (r1, p, d1)" by (rule prod_cases3)
  note at = fd_write_loop_at [OF l assms(2)]
  show "fh_WriteAt (of_handle f) (of_nat (of_position f)) data d = (r, d')" "of_handle f' = of_handle f"
    "r = Some n \<Longrightarrow> of_position f' = of_position f + n"
    using assms(1) at by (auto simp: of_Write_def fh_WriteAt_def l pos split: if_splits)
qed

lemma benign_call_ok:
  assumes "benign d"
  obtains d' where "call_ok d = (True, d')" "benign d'" "dk_files d' = dk_files d"
proof -
  obtain a d' where a: "next_answer d = (a, d')" by fastforce
  from benign_next(1,2) [OF assms a] next_answer_files [OF a] that show ?thesis by (simp add: call_ok_def a)
qed

lemma Seek_Tell:
  assumes "benign d" and "fh_open (of_handle f)" and "unat offset \<le> off_max"
  obtains d' where "of_Seek f offset d = (True, f\<lparr>of_position := unat offset\<rparr>, d')" "benign d'" "dk_files d' = dk_files d"
    "fst (of_Tell (f\<lparr>of_position := unat offset\<rparr>) d') = Some offset"
proof -
  obtain d' where d': "call_ok d = (True, d')" "benign d'" "dk_files d' = dk_files d" by (rule benign_call_ok [OF assms(1)])
  obtain d2 where "call_ok d' = (True, d2)" by (rule benign_call_ok [OF d'(2)])
  with d' assms that show ?thesis by (simp add: of_Seek_def of_Tell_def not_less)
qed

text \<open>What is written is read back after going back to where it begins.\<close>

lemma written_is_read_back:
  assumes "benign d" and "fh_open (of_handle f)" "fh_mode (of_handle f) = ReadWrite"
    and "of_position f + length data \<le> off_max"
    and w: "of_Write f data d = (r, f1, d1)" and s: "of_Seek f1 (of_nat (of_position f)) d1 = (ok, f2, d2)"
  shows "r = Some (length data) \<and> ok \<and> of_position f2 = of_position f \<and>
    (\<exists>f3 d3. of_Read f2 (length data) d2 = (Some data, f3, d3) \<and> of_position f3 = of_position f + length data)"
proof -
  let ?h = "of_handle f" and ?p = "of_position f"
  have pos: "unat (of_nat ?p :: 64 word) = ?p" "?p \<le> off_max" using assms(4) by (simp_all add: off_max_def unat_of_nat)
  note wa = Write_is_WriteAt [OF w assms(4)]
  obtain d1' where l: "write_at_loop (fh_path ?h) ?p data 0 d = (Some (length data), d1')" "benign d1'"
    using write_at_loop_complete [OF assms(1,4), of "fh_path ?h" 0] by auto
  then have r: "r = Some (length data)" "d1 = d1'" using wa(1) assms(2,3) pos by (auto simp: fh_WriteAt_def)
  obtain k where "k \<le> length data" "wrote (fh_path ?h) ?p (take k data) d d1" "length data = k"
    using write_at_loop_sound [OF l(1)] r by auto
  then have wrote: "wrote (fh_path ?h) ?p data d d1" by simp
  have op1: "fh_open (of_handle f1)" using wa(2) assms(2) by simp
  obtain d2' where s2: "of_Seek f1 (of_nat ?p) d1 = (True, f1\<lparr>of_position := ?p\<rparr>, d2')" "benign d2'" "dk_files d2' = dk_files d1"
    using Seek_Tell [of d1 f1 "of_nat ?p" thesis] l(2) r(2) op1 pos by simp
  then have f2: "ok" "f2 = f1\<lparr>of_position := ?p\<rparr>" "d2 = d2'" using s by simp_all
  have at_p: "take (length data) (drop ?p (dk_content d2 (fh_path ?h))) = data" "data \<noteq> [] \<Longrightarrow>
      ?p + length data \<le> length (dk_content d2 (fh_path ?h))"
    using wrote s2(3) f2(3) by (cases "data = []"; simp add: wrote_def dk_content_def content_of_def overlay_def min_def)+
  obtain r3 f3 d3 where rd: "of_Read f2 (length data) d2 = (r3, f3, d3)" by (rule prod_cases3)
  have "of_position f2 + length data \<le> off_max" using assms(4) by (simp add: f2(2))
  note ra = Read_is_ReadAt [OF rd this]
  have "r3 = Some data"
  proof (cases "data = []")
    case True
    then show ?thesis using ra(1) assms(2,3) wa(2) pos by (simp add: f2(2) fh_ReadAt_def read_at_loop.simps)
  next
    case False
    then have "\<exists>d'. read_at_loop (fh_path ?h) ?p (length data) [] d2 = (Some data, d')"
      using read_at_loop_complete [of d2 ?p "length data" "fh_path ?h" "[]"] s2(2) f2(3) at_p assms(4) by auto
    then show ?thesis using ra(1) assms(2,3) wa(2) pos by (auto simp: f2(2) fh_ReadAt_def)
  qed
  then show ?thesis using r(1) f2 rd ra(3) by (auto simp: f2(2))
qed

end
