(* ===== verification/HeartbeatClient.thy ===== *)
theory HeartbeatClient
  imports GfsClient
begin

text \<open>
  \<open>src/chunkserver/heartbeat/heartbeat_client.cpp\<close>: the object that sends the heartbeats of a chunkserver. The stub of the
  RPC library is a function on the world, None standing for a channel, a stub or a status that is not ok; \<open>service_heartbeats\<close> is
  this function with the handler of the master behind it. The lemmas show when a heartbeat is accepted and what it
  makes the master know.
\<close>

section \<open>The client\<close>

type_synonym 'w heartbeat_stub = "string \<Rightarrow> heartbeat_request \<Rightarrow> 'w \<Rightarrow> unit reply option \<times> 'w"

record heartbeat_client =
  hc_server_address :: string

definition HeartbeatClient :: heartbeat_client where
  "HeartbeatClient = \<lparr>hc_server_address = []\<rparr>"

definition SetServerAddress :: "string \<Rightarrow> heartbeat_client \<Rightarrow> heartbeat_client" where
  "SetServerAddress server_address hc = hc\<lparr>hc_server_address := server_address\<rparr>"

definition SendHeartbeat :: "'w heartbeat_stub \<Rightarrow> heartbeat_client \<Rightarrow> chunkserver \<Rightarrow> string \<Rightarrow> time_ms \<Rightarrow> 'w \<Rightarrow> bool \<times> 'w" where
  "SendHeartbeat stub hc s master_address timestamp w =
     (if master_address = [] \<or> cv_server_id s = 0 then (False, w)
      else case stub master_address (BuildHeartbeatRequest s (hc_server_address hc) timestamp) w of
        (response, w) \<Rightarrow> (accepted response, w))"

definition service_heartbeats :: "string \<Rightarrow> 'w cluster heartbeat_stub" where
  "service_heartbeats here addr rq = at_master here addr (ms_Heartbeat (Some rq))"

section \<open>What a heartbeat does\<close>

lemma reported_heartbeats [simp]: "ma_heartbeats (fold (register_reported s) chunks m) = ma_heartbeats m"
  by (induction chunks arbitrary: m) (simp_all add: register_reported_def on_replicas_def split: prod.split)

lemma heartbeat_alive:
  "hb_ProcessHeartbeat hb s t chunks = (True, hb') \<Longrightarrow> hb_IsServerAlive hb' s"
  by (auto simp: hb_ProcessHeartbeat_def hb_IsServerAlive_def cs_SetReportedChunks_def cs_UpdateHeartbeat_def
      update_conv' Let_def split: if_splits option.splits)

text \<open>The report has no invalid chunks, so the handler passes it on to the master.\<close>

lemma report_valid: "\<not> list_ex (\<lambda>report. rc_handle report = 0 \<or> rc_version report = 0) (hr_chunks (BuildHeartbeatRequest s addr t))"
  by (simp add: BuildHeartbeatRequest_def list_ex_iff)

lemma SendHeartbeat_service:
  assumes "here \<noteq> []" and "cv_server_id s \<noteq> 0"
  shows "SendHeartbeat (service_heartbeats here) hc s here t c =
    (case on_master (ma_ProcessHeartbeat (cv_server_id s) t (hr_chunks (BuildHeartbeatRequest s (hc_server_address hc) t))) c of
      (ok, c) \<Rightarrow> (ok, if ok \<and> hc_server_address hc \<noteq> []
        then c\<lparr>cl_endpoints := AList.update (cv_server_id s) (hc_server_address hc) (cl_endpoints c)\<rparr> else c))"
proof -
  let ?rq = "BuildHeartbeatRequest s (hc_server_address hc) t"
  have "hr_server_id ?rq = cv_server_id s" "hr_timestamp_ms ?rq = t" "hr_server_address ?rq = hc_server_address hc"
    by (simp_all add: BuildHeartbeatRequest_def)
  then show ?thesis
    using assms report_valid [of s "hc_server_address hc" t]
    by (simp add: SendHeartbeat_def service_heartbeats_def at_master_def ms_Heartbeat_def accepted_def invalid_def respond_def
        RegisterChunkserverEndpoint_def split: prod.splits bool.splits)
qed

text \<open>It is accepted when no later heartbeat of the server was.\<close>

lemma heartbeat_sent:
  "fst (SendHeartbeat (service_heartbeats here) hc s here t c) \<longleftrightarrow> here \<noteq> [] \<and> cv_server_id s \<noteq> 0 \<and>
    (case map_of (hb_servers (ma_heartbeats (cl_master c))) (cv_server_id s) of
       None \<Rightarrow> True | Some st \<Rightarrow> cs_last_heartbeat_ms st \<le> t)"
proof (cases "here = [] \<or> cv_server_id s = 0")
  case False
  then show ?thesis
    using heartbeat_accepted [of "cv_server_id s" t "hr_chunks (BuildHeartbeatRequest s (hc_server_address hc) t)" "cl_master c"]
    by (auto simp: SendHeartbeat_service on_master_def split: prod.splits)
qed (auto simp: SendHeartbeat_def)

text \<open>After it the master takes the server for alive, lists it as a replica of every chunk it keeps, and knows its address.\<close>

lemma heartbeat_announces:
  assumes "cv_inv s" and sent: "SendHeartbeat (service_heartbeats here) hc s here t c = (True, c')"
  shows "hb_IsServerAlive (ma_heartbeats (cl_master c')) (cv_server_id s)"
    and "h \<noteq> 0 \<Longrightarrow> cv_bytes s h \<noteq> None \<Longrightarrow> rm_HasReplica (ma_replicas (cl_master c')) h (cv_server_id s)"
    and "hc_server_address hc \<noteq> [] \<Longrightarrow> GetChunkserverEndpoint c' (cv_server_id s) = Some (hc_server_address hc)"
proof -
  let ?id = "cv_server_id s" and ?chunks = "hr_chunks (BuildHeartbeatRequest s (hc_server_address hc) t)"
  have ids: "here \<noteq> []" "?id \<noteq> 0" using sent by (auto simp: SendHeartbeat_def split: if_splits)
  obtain m where m: "ma_ProcessHeartbeat ?id t ?chunks (cl_master c) = (True, m)" "cl_master c' = m"
      "hc_server_address hc \<noteq> [] \<Longrightarrow> cl_endpoints c' = AList.update ?id (hc_server_address hc) (cl_endpoints c)"
    using sent unfolding SendHeartbeat_service [OF ids] on_master_def by (auto split: prod.splits if_splits)
  define m0 where "m0 = (cl_master c)\<lparr>ma_heartbeats := snd (hb_ProcessHeartbeat (ma_heartbeats (cl_master c)) ?id t ?chunks)\<rparr>"
  obtain hb where hb: "hb_ProcessHeartbeat (ma_heartbeats (cl_master c)) ?id t ?chunks = (True, hb)"
      "ma_heartbeats m0 = hb" "m = fold (register_reported ?id) ?chunks m0"
    using m(1) by (auto simp: m0_def ma_ProcessHeartbeat_def and_then_eq on_heartbeats_def split: prod.splits if_splits)
  show "hb_IsServerAlive (ma_heartbeats (cl_master c')) ?id" using heartbeat_alive [OF hb(1)] hb(2,3) m(2) by simp
  show "GetChunkserverEndpoint c' ?id = Some (hc_server_address hc)" if "hc_server_address hc \<noteq> []"
    using m(3) [OF that] by (simp add: GetChunkserverEndpoint_def update_conv')
  show "rm_HasReplica (ma_replicas (cl_master c')) h ?id" if "h \<noteq> 0" "cv_bytes s h \<noteq> None"
  proof -
    have "\<lparr>rc_handle = h, rc_version = 1\<rparr> \<in> set ?chunks"
      using that cv_ListChunks_iff [OF assms(1), of h] by (auto simp: BuildHeartbeatRequest_def)
    from reported_is_registered(2) [OF ids(2) this, of m0] show ?thesis using that(1) hb(3) m(2) by simp
  qed
qed

end
