(* ===== verification/Spec2Isabelle.thy ===== *)
theory Spec2Isabelle
  imports Namespace Metadata Leases Heartbeat Checkpoint Restart Lifecycle CopyOnWrite Garbage ChunkStorage Mutations Rebalancer
    Transports NamespaceLocks ClientAppend ClientProgram FilePositions HeartbeatClient
begin

text \<open>
  Verification library for the C++ implementation of the Google File System under \<open>src/\<close>.

  \<^bold>\<open>The program.\<close> One master keeps the namespace, the metadata of files and chunks, the replicas of each chunk, leases,
  heartbeats and orphans (\<open>src/master\<close>). It writes a record to its log before it applies a durable operation, writes
  checkpoints, and rebuilds its state from both when it starts. Chunkservers keep chunks of at most 64 MiB as files with a
  checksum for every 64 KiB (\<open>src/chunkserver\<close>, \<open>src/storage\<close>). The client library finds the chunks of a file through the
  master, keeps their locations in a cache, and moves the data between itself and the chunkservers (\<open>src/client\<close>); the
  client program adds the calls of the network and a shell. The services (\<open>src/protocol\<close>) are the handlers that the three
  call through an RPC library.

  \<^bold>\<open>How the model is made.\<close> A class is a record and each member function a function from its arguments and the state to its result
  and the next state, changes before a failing return included; a class that refers to others takes them as arguments
  or holds them. Every member function is one atomic step (see the end for where the code is not). Integers have their width (\<open>64 word\<close>, \<open>32 word\<close>)
  and wrap; sizes of containers in memory are \<open>nat\<close>. A \<open>std::string\<close> or a vector of bytes is a list of characters, an
  unordered map an association list with distinct keys. What the program cannot decide is an argument or a part of the
  state: the clock is an argument \<open>now\<close> on the servers and an effect in the client; the disk of the master is a map of files,
  and an \<open>io\<close> argument says how it answers each append, flush or rename; the disk of a chunkserver carries a script of answers, one
  for each system call, and does what is asked when the script is used up; the stubs of the RPC library are records of
  functions on a world (\<open>network\<close>, \<open>master_stub\<close>, \<open>chunk_stub\<close>), and \<open>service_network\<close>, \<open>service_master\<close> and
  \<open>service_chunks\<close> are these records with the handlers of the program behind them. Loops are recursions whose termination is
  proved; there is no fuel anywhere.

  \<^bold>\<open>The theories,\<close> each with the code it models:

  \<^item> Shared: \<open>Prelude\<close> (\<open>include/gfs/common\<close>, containers, \<open>invariant_system\<close>: invariants over all sequences of operations),
    \<open>Refinement\<close> (functional refinement over all sequences of requests), \<open>Bytes\<close> (little-endian integers, CRC-32),
    \<open>Decimal\<close> (\<open>std::to_string\<close>, \<open>std::stoull\<close>), \<open>Paths\<close> (path functions of the namespace manager and of \<open>common/utils.cpp\<close>).
  \<^item> Tables of the master: \<open>Namespace\<close> (\<open>namespace_manager.cpp\<close>), \<open>NamespaceLocks\<close> (\<open>namespace_lock.cpp\<close>), \<open>Metadata\<close> (\<open>metadata/\<close>),
    \<open>Replicas\<close> (\<open>replica_manager.cpp\<close>, \<open>placement_policy.cpp\<close>), \<open>Leases\<close> (\<open>lease/\<close>), \<open>Heartbeat\<close> (\<open>heartbeat/\<close>), \<open>Orphans\<close>
    (\<open>orphan_chunk_manager.cpp\<close>).
  \<^item> Durability: \<open>OperationLog\<close> (\<open>operation_log.cpp\<close>), \<open>Checkpoint\<close> (\<open>checkpoint.cpp\<close>).
  \<^item> The master: \<open>Master\<close> (\<open>master.cpp\<close>), \<open>Consistency\<close> (its invariant), \<open>Durable\<close>, \<open>Recovery\<close> and \<open>Restart\<close> (replay,
    start-up, any number of restarts), \<open>Lifecycle\<close> (its whole life, failed operations and failed starts included), \<open>Snapshots\<close>, \<open>CopyOnWrite\<close>, \<open>Garbage\<close> (\<open>garbage_collector.cpp\<close>).
  \<^item> The chunkserver: \<open>FileHandles\<close> and \<open>FilePositions\<close> (\<open>file_handle.cpp\<close>), \<open>ChunkStorage\<close> (\<open>chunkserver/storage/\<close>), \<open>Checksums\<close>
    (\<open>checksum/\<close>), \<open>Chunkserver\<close> (\<open>chunkserver.cpp\<close>), \<open>Mutations\<close> (\<open>mutation/\<close>), \<open>Replication\<close> (\<open>chunkserver/replication/\<close>).
  \<^item> Several servers: \<open>Cluster\<close> and \<open>Repair\<close> (\<open>re_replication.cpp\<close>), \<open>Rebalancer\<close> (\<open>rebalancer.cpp\<close>, the report of
    \<open>heartbeat_client.cpp\<close>) and \<open>HeartbeatClient\<close> (the rest of it), \<open>ChunkserverService\<close> and \<open>MasterService\<close> (\<open>src/protocol\<close>),
    \<open>Transports\<close> (recovery and rebalancing, with the servers in the process or behind the network).
  \<^item> The client: \<open>MasterClient\<close> (\<open>client/metadata/\<close>, \<open>client/retry/\<close>), \<open>ClientIO\<close> (\<open>client/io/\<close>), \<open>GfsClient\<close> (\<open>gfs_client.cpp\<close>, the
    functions of \<open>gfs_client_main.cpp\<close>), \<open>ClientService\<close>, \<open>ClientFiles\<close> and \<open>ClientAppend\<close> (what it promises, on the services),
    \<open>CommandLine\<close> (\<open>client/cli/cli.cpp\<close>), \<open>ClientProgram\<close> (\<open>main\<close> of \<open>gfs_client_main.cpp\<close>).

  \<^bold>\<open>What is shown.\<close>

  \<^item> Invariants of every component and of the master as a whole, over every sequence of operations and every answer of
    the file system, for the master also over every sequence of starts: the namespace and the metadata name the same files,
    files list distinct existing chunks, at most one primary per chunk, leases exclude each other, trees are well formed.
  \<^item> Durability: the log and the checkpoint accept exactly their own encodings, what was reported as written is read back, a
    checkpoint is replaced as a whole, and a restarted master has the durable state it had, over any number of restarts. Also
    where this ends: a create or a snapshot that is logged and then refused, and an append that fails half-way.
  \<^item> The operations on files: what rename and snapshots do to the whole tree, copy-on-write, and garbage collection, which
    removes only what no file refers to and leaves nothing when no call fails.
  \<^item> The chunkserver implements a map from handles to bytes, damaged bytes are never returned, mutations are applied in the
    order of the primary whatever order they arrive in, record append ends at the returned offset or pads the chunk.
  \<^item> Recovery of chunks, in the process and over the network: only from healthy replicas, and (in the process) up to the
    replication factor when enough servers are free; rebalancing moves replicas with their bytes; allocation places new
    chunks; over the network a copy keeps the tail of what was there.
  \<^item> The client on the services: reading returns the bytes of the file, appending reaches every replica, writing reaches one
    replica and cuts the file off behind it, a snapshot follows later writes to its source; \<open>cat\<close> prints the file.
  \<^item> The locks on paths: threads that own at most one guard never deadlock, for any paths, any addresses and either kind
    of mutex; threads that nest guards can; and exactly which guards exclude each other.

  The locales are the contracts between these parts: \<open>invariant_system\<close>, \<open>functional_refinement\<close>, \<open>primary_source\<close> (what leases
  need of the replica table), \<open>codec\<close> (writer and reader of a format), \<open>journal\<close> (a log), \<open>replica_transfer\<close> (a transfer between
  two chunkservers, interpreted for both kinds of servers), \<open>file_service\<close> and its extension
  \<open>append_service\<close> (what the client needs of the services). Each is interpreted on the definitions of the program.

  \<^bold>\<open>Bounds.\<close> A chunk has at most \<open>2 ^ 26\<close> bytes and a file fewer than \<open>2 ^ 64\<close>; both come from the code. The properties of
  recovery, rebalancing and the client assume that the disks of the chunkservers make no errors (\<open>cv_inv\<close> includes it); those
  of file handles, storage, checksum files, log, checkpoint and master do not.

  \<^bold>\<open>Not modelled,\<close> and why: interleavings inside a member function of the servers; only the locks on paths are a step
  relation. (The tables hold their mutex throughout each function, and the handlers of the master service hold one, so there
  a step is atomic. It is not in \<open>ms_Heartbeat\<close>, whose handler takes no lock of the service, in
  \<open>ExecutePrimaryMutation\<close> and \<open>ExecutePrimaryRecordAppend\<close>, which propagate and read the size of the chunk outside
  \<open>mutex_\<close>, and in the recovery functions, which call several tables in turn.) Also not modelled: that the kernel refuses a
  \<open>pwrite\<close> behind the largest file offset; the RPC library itself, time-outs and message sizes (parameters);
  \<open>network/\<close> and the \<open>main\<close> functions of the servers (starting and stopping gRPC servers and threads);
  \<open>local_filesystem.cpp\<close> and the file and clock helpers of \<open>common/utils.cpp\<close> (thin calls of the standard
  library); \<open>client_service.cpp\<close> (its handlers always refuse); \<open>testing/\<close>, \<open>benchmark/\<close> and the tests.
\<close>

end
